(* ===== verification/Prelude.thy ===== *)
theory Prelude
  imports Main "HOL-Library.Word"
begin

text \<open>
  Shared vocabulary of the development: the C integer types of an LP64 kernel, the errno
  values the drivers return, the faults a driver can commit against kernel memory, byte
  ranges of a buffer, the contract of the user-copy primitives, and a ledger of the
  kernel resources a module holds.
\<close>

named_theorems range_simps \<open>reading and writing byte ranges of a buffer\<close>
named_theorems ledger_simps \<open>acquiring and releasing kernel resources\<close>
named_theorems handler_defs \<open>definitions of the handlers of a driver\<close>

section \<open>C types\<close>

text \<open>
  The kernel is LP64: \<open>int\<close> has 32 bits, \<open>long\<close>, \<open>size_t\<close> and \<open>loff_t\<close> have 64. A word has no
  sign of its own; \<open>sint\<close> reads the signed types and \<open>uint\<close> or \<open>unat\<close> the unsigned ones.
\<close>

type_synonym byte = "8 word"
type_synonym c_int = "32 word"
type_synonym c_uint = "32 word"
type_synonym c_long = "64 word"
type_synonym size_t = "64 word"
type_synonym loff_t = "64 word"

abbreviation (input) PAGE_SIZE :: "64 word" where "PAGE_SIZE \<equiv> 4096"

section \<open>Error numbers\<close>

abbreviation (input) EPERM :: int where "EPERM \<equiv> 1"
abbreviation (input) ENOENT :: int where "ENOENT \<equiv> 2"
abbreviation (input) EINTR :: int where "EINTR \<equiv> 4"
abbreviation (input) EIO :: int where "EIO \<equiv> 5"
abbreviation (input) EAGAIN :: int where "EAGAIN \<equiv> 11"
abbreviation (input) ENOMEM :: int where "ENOMEM \<equiv> 12"
abbreviation (input) EFAULT :: int where "EFAULT \<equiv> 14"
abbreviation (input) EBUSY :: int where "EBUSY \<equiv> 16"
abbreviation (input) ENODEV :: int where "ENODEV \<equiv> 19"
abbreviation (input) EINVAL :: int where "EINVAL \<equiv> 22"
abbreviation (input) ENOTTY :: int where "ENOTTY \<equiv> 25"
abbreviation (input) EPIPE :: int where "EPIPE \<equiv> 32"
abbreviation (input) ECONNRESET :: int where "ECONNRESET \<equiv> 104"
abbreviation (input) ESHUTDOWN :: int where "ESHUTDOWN \<equiv> 108"
abbreviation (input) ERESTARTSYS :: int where "ERESTARTSYS \<equiv> 512"
abbreviation (input) ENOIOCTLCMD :: int where "ENOIOCTLCMD \<equiv> 515"
abbreviation (input) EIOCBQUEUED :: int where "EIOCBQUEUED \<equiv> 529"

section \<open>Faults\<close>

text \<open>
  What C leaves undefined is a value here: an operation that would touch memory outside an
  object, through a null or error pointer, or after it was freed, ends in \<open>Inl\<close> of a fault.
\<close>

datatype kfault = OutOfBounds | NullDeref | BadPointer | UseAfterFree | DivByZero | Overflow

type_synonym 'a kresult = "kfault + 'a"

text \<open>The difference of two \<open>size_t\<close> kept as naturals wraps like the C expression.\<close>

definition size_minus :: "nat \<Rightarrow> nat \<Rightarrow> nat" where
  "size_minus a b = (a + 2 ^ 64 - b) mod 2 ^ 64"

lemma size_minus_le: "b \<le> a \<Longrightarrow> a < 2 ^ 64 \<Longrightarrow> size_minus a b = a - b"
proof -
  assume "b \<le> a" and "a < 2 ^ 64"
  then have "a + 2 ^ 64 - b = (a - b) + 2 ^ 64" by simp
  then have "size_minus a b = (a - b) mod 2 ^ 64" by (simp only: size_minus_def mod_add_self2)
  also have "\<dots> = a - b" by (rule mod_less) (rule le_less_trans [OF diff_le_self \<open>a < 2 ^ 64\<close>])
  finally show ?thesis .
qed

text \<open>A pointer as the kernel's API returns it: null, an error pointer, or an object.\<close>

datatype 'a kptr = NULL | ERR_PTR int | Ptr 'a

fun IS_ERR :: "'a kptr \<Rightarrow> bool" where
  "IS_ERR (ERR_PTR e) = True"
| "IS_ERR _ = False"

fun PTR_ERR :: "'a kptr \<Rightarrow> int" where
  "PTR_ERR (ERR_PTR e) = - e"
| "PTR_ERR _ = 0"

text \<open>The truth value of a pointer in a C condition.\<close>

fun nonnull :: "'a kptr \<Rightarrow> bool" where
  "nonnull NULL = False"
| "nonnull _ = True"

section \<open>Byte ranges\<close>

definition get_range :: "nat \<Rightarrow> nat \<Rightarrow> 'a list \<Rightarrow> 'a list" where
  "get_range p n m = take n (drop p m)"

definition put_range :: "nat \<Rightarrow> 'a list \<Rightarrow> 'a list \<Rightarrow> 'a list" where
  "put_range p bs m = take p m @ bs @ drop (p + length bs) m"

lemma length_put_range [range_simps, simp]:
  "p + length bs \<le> length m \<Longrightarrow> length (put_range p bs m) = length m"
  by (simp add: put_range_def)

lemma length_get_range [range_simps, simp]:
  "p + n \<le> length m \<Longrightarrow> length (get_range p n m) = n"
  by (simp add: get_range_def)

lemma get_put_same [range_simps]:
  "p \<le> length m \<Longrightarrow> get_range p (length bs) (put_range p bs m) = bs"
  by (simp add: get_range_def put_range_def)

lemma get_put_prefix [range_simps]:
  "p \<le> length m \<Longrightarrow> n \<le> length bs \<Longrightarrow> get_range p n (put_range p bs m) = take n bs"
  by (simp add: get_range_def put_range_def)

lemma get_put_before [range_simps]:
  "q + n \<le> p \<Longrightarrow> p \<le> length m \<Longrightarrow> get_range q n (put_range p bs m) = get_range q n m"
  by (simp add: get_range_def put_range_def drop_take)

lemma get_put_after [range_simps]:
  assumes "p + length bs \<le> q" and "p + length bs \<le> length m"
  shows "get_range q n (put_range p bs m) = get_range q n m"
proof -
  have "drop q (put_range p bs m) = drop (q - (p + length bs)) (drop (p + length bs) m)"
    using assms by (simp add: put_range_def)
  also have "\<dots> = drop q m"
    using assms by simp
  finally show ?thesis
    by (simp add: get_range_def)
qed

lemma nth_put_range:
  assumes "p + length bs \<le> length m" and "i < length m"
  shows "put_range p bs m ! i = (if p \<le> i \<and> i < p + length bs then bs ! (i - p) else m ! i)"
  using assms by (auto simp: put_range_def nth_append min_def)

lemma put_put_same [range_simps]:
  "length bs = length cs \<Longrightarrow> p + length bs \<le> length m \<Longrightarrow>
     put_range p bs (put_range p cs m) = put_range p bs m"
  by (simp add: put_range_def)

lemma put_put_append:
  "p + length a + length b \<le> length m \<Longrightarrow>
   put_range (p + length a) b (put_range p a m) = put_range p (a @ b) m"
  by (simp add: put_range_def add.assoc add.left_commute add.commute)

lemma get_range_split:
  "w \<le> n \<Longrightarrow> get_range p w m @ get_range (p + w) (n - w) m = get_range p n m"
  using take_add [of w "n - w" "drop p m"] by (simp add: get_range_def add.commute)

lemma put_range_nil [range_simps, simp]: "put_range p [] m = m"
  by (simp add: put_range_def)

lemma get_range_zero [range_simps, simp]: "get_range p 0 m = []"
  by (simp add: get_range_def)

section \<open>Copying from and to user space\<close>

text \<open>
  \<open>copy_to_user\<close> and \<open>copy_from_user\<close> return the number of bytes they could \<^emph>\<open>not\<close> copy, an
  answer of the environment that each handler of the model takes as an argument. What the
  kernel documents about them: the answer is at most the number asked for, the copied bytes
  are a prefix, and \<open>copy_from_user\<close> pads the rest of its destination with zeros.
\<close>

definition user_copy_ok :: "size_t \<Rightarrow> size_t \<Rightarrow> bool" where
  "user_copy_ok n left \<longleftrightarrow> left \<le> n"

definition copied_out :: "size_t \<Rightarrow> size_t \<Rightarrow> byte list \<Rightarrow> byte list" where
  "copied_out n left src = take (unat (n - left)) src"

definition copied_in :: "size_t \<Rightarrow> size_t \<Rightarrow> byte list \<Rightarrow> byte list" where
  "copied_in n left src = take (unat (n - left)) src @ replicate (unat left) 0"

lemma unat_minus_left: "user_copy_ok n left \<Longrightarrow> unat (n - left) = unat n - unat left"
  by (simp add: user_copy_ok_def unat_sub)

lemma length_copied_in [simp]:
  "user_copy_ok n left \<Longrightarrow> length src = unat n \<Longrightarrow> length (copied_in n left src) = unat n"
  by (simp add: copied_in_def unat_minus_left) (simp add: user_copy_ok_def word_le_nat_alt)

lemma copied_in_all [simp]: "length src = unat n \<Longrightarrow> copied_in n 0 src = src"
  by (simp add: copied_in_def)

lemma copied_out_all [simp]: "length src = unat n \<Longrightarrow> copied_out n 0 src = src"
  by (simp add: copied_out_def)

section \<open>Kernel buffers\<close>

text \<open>
  An access of \<open>n\<close> bytes at \<open>p + off\<close>, where \<open>p\<close> points to an object of \<open>length m\<close> bytes and
  the offset is a signed \<open>loff_t\<close>.
\<close>

definition in_object :: "byte list \<Rightarrow> loff_t \<Rightarrow> size_t \<Rightarrow> bool" where
  "in_object m off n \<longleftrightarrow> 0 \<le> sint off \<and> sint off + uint n \<le> int (length m)"

definition kmem_load :: "byte list kptr \<Rightarrow> loff_t \<Rightarrow> size_t \<Rightarrow> byte list kresult" where
  "kmem_load p off n =
     (case p of
        NULL \<Rightarrow> Inl NullDeref
      | ERR_PTR _ \<Rightarrow> Inl BadPointer
      | Ptr m \<Rightarrow> if in_object m off n then Inr (get_range (unat off) (unat n) m)
                 else Inl OutOfBounds)"

definition kmem_store :: "byte list kptr \<Rightarrow> loff_t \<Rightarrow> size_t \<Rightarrow> byte list \<Rightarrow> byte list kptr kresult" where
  "kmem_store p off n bs =
     (case p of
        NULL \<Rightarrow> Inl NullDeref
      | ERR_PTR _ \<Rightarrow> Inl BadPointer
      | Ptr m \<Rightarrow> if in_object m off n then Inr (Ptr (put_range (unat off) bs m))
                 else Inl OutOfBounds)"

text \<open>
  What the VFS checks before it calls a driver (\<open>rw_verify_area\<close> and the cut to
  \<open>MAX_RW_COUNT\<close>): the position is not negative and the count fits an \<open>int\<close>.
\<close>

abbreviation (input) MAX_RW_COUNT :: nat where "MAX_RW_COUNT \<equiv> 2147479552"

definition vfs_rw_ok :: "size_t \<Rightarrow> loff_t \<Rightarrow> bool" where
  "vfs_rw_ok lbuf ppos \<longleftrightarrow> 0 \<le> sint ppos \<and> unat lbuf \<le> MAX_RW_COUNT"

section \<open>Words\<close>

lemma unat_add_nowrap:
  fixes a b :: "'a::len word"
  assumes "unat a + unat b < 2 ^ LENGTH('a)"
  shows "unat (a + b) = unat a + unat b"
  using assms by (simp add: unat_word_ariths)

lemma sint_ucast_small:
  fixes x :: "64 word"
  assumes "unat x < 2 ^ 31"
  shows "sint (ucast x :: 32 word) = int (unat x)"
proof -
  have "int (unat x) < int (2 ^ 31)"
    using assms by (simp only: of_nat_less_iff)
  then have "signed_take_bit 31 (uint x) = uint x"
    by (intro signed_take_bit_int_eq_self) (simp_all add: order_trans [OF _ uint_ge_0])
  then show ?thesis
    by (simp add: signed_ucast_eq)
qed

lemma scast_ucast_small:
  fixes x :: "64 word"
  assumes "unat x < 2 ^ 31"
  shows "(scast (ucast x :: 32 word) :: 64 word) = x"
proof -
  have "(scast (ucast x :: 32 word) :: 64 word) = word_of_int (sint (ucast x :: 32 word))"
    by (rule scast_eq)
  also have "\<dots> = x"
    by (simp add: sint_ucast_small [OF assms])
  finally show ?thesis .
qed

text \<open>A \<open>loff_t\<close> that is not negative reads the same signed and unsigned.\<close>

lemma sint_nonneg_64:
  fixes x :: "64 word"
  assumes "0 \<le> sint x"
  shows "sint x = int (unat x)" and "unat x < 2 ^ 63"
proof -
  have eq: "sint x = signed_take_bit 63 (uint x)"
    by (simp add: signed_take_bit_eq sint_uint)
  show u: "sint x = int (unat x)"
  proof (cases "uint x < 2 ^ 63")
    case True
    then show ?thesis
      using eq by (simp add: signed_take_bit_int_eq_self order_trans [OF _ uint_ge_0])
  next
    case False
    have "uint x < 2 ^ 64"
      using uint_lt2p [of x] by simp
    then have "(uint x - 2 ^ 63) mod 2 ^ 64 = uint x - 2 ^ 63"
      using False by (intro mod_pos_pos_trivial) simp_all
    moreover have "(uint x + 2 ^ 63) mod 2 ^ 64 = (uint x + 2 ^ 63 - 2 ^ 64) mod 2 ^ 64"
      by (rule minus_mod_self2 [symmetric])
    ultimately have "take_bit 64 (uint x + 2 ^ 63) = uint x - 2 ^ 63"
      by (simp add: take_bit_eq_mod)
    then have "signed_take_bit 63 (uint x) < 0"
      using \<open>uint x < 2 ^ 64\<close> by (simp add: signed_take_bit_eq_take_bit_shift)
    then show ?thesis
      using assms eq by simp
  qed
  have "sint x < 2 ^ 63"
    using sint_lt [of x] by simp
  then show "unat x < 2 ^ 63"
    unfolding u by (simp only: of_nat_less_numeral_power_cancel_iff)
qed

lemma sint_small_64:
  fixes x :: "64 word"
  assumes "unat x < 2 ^ 63"
  shows "sint x = int (unat x)"
proof -
  have "int (unat x) < 2 ^ 63"
    using assms by (simp only: of_nat_less_numeral_power_cancel_iff)
  then have "signed_take_bit 63 (uint x) = uint x"
    by (intro signed_take_bit_int_eq_self) (simp_all add: order_trans [OF _ uint_ge_0])
  then show ?thesis
    by (simp add: sint_uint)
qed

lemma sint_small_32:
  fixes x :: "32 word"
  assumes "unat x < 2 ^ 31"
  shows "sint x = int (unat x)"
proof -
  have "int (unat x) < 2 ^ 31"
    using assms by (simp only: of_nat_less_numeral_power_cancel_iff)
  then have "signed_take_bit 31 (uint x) = uint x"
    by (intro signed_take_bit_int_eq_self) (simp_all add: order_trans [OF _ uint_ge_0])
  then show ?thesis
    by (simp add: sint_uint)
qed

lemma vfs_rw_sum:
  assumes "vfs_rw_ok lbuf ppos"
  shows "unat (lbuf + ppos) = unat lbuf + unat ppos"
proof (rule unat_add_nowrap)
  have "unat ppos < 2 ^ 63" and "unat lbuf \<le> MAX_RW_COUNT"
    using assms sint_nonneg_64 [of ppos] by (auto simp: vfs_rw_ok_def)
  then show "unat lbuf + unat ppos < 2 ^ LENGTH(64)" by simp
qed

lemma in_object_iff:
  assumes "0 \<le> sint off"
  shows "in_object m off n \<longleftrightarrow> unat off + unat n \<le> length m"
proof -
  have "sint off + uint n = int (unat off + unat n)"
    by (simp only: sint_nonneg_64(1) [OF assms] uint_nat of_nat_add)
  then show ?thesis
    using assms by (simp only: in_object_def of_nat_le_iff simp_thms)
qed

text \<open>The \<open>int\<close> in which a handler keeps the number of bytes it moved does not truncate.\<close>

lemma moved_bytes:
  assumes "unat lbuf \<le> MAX_RW_COUNT" and "user_copy_ok lbuf left"
  shows "sint (ucast (lbuf - left) :: c_int) = int (unat lbuf - unat left)"
    and "(scast (ucast (lbuf - left) :: c_int) :: loff_t) = lbuf - left"
proof -
  have "unat (lbuf - left) < 2 ^ 31"
    using assms by (simp add: unat_minus_left)
  from sint_ucast_small [OF this] scast_ucast_small [OF this]
  show "sint (ucast (lbuf - left) :: c_int) = int (unat lbuf - unat left)"
    and "(scast (ucast (lbuf - left) :: c_int) :: loff_t) = lbuf - left"
    by (simp_all only: unat_minus_left [OF assms(2)])
qed

lemma kmem_load_ok:
  assumes "vfs_rw_ok lbuf ppos" and "unat lbuf + unat ppos \<le> length m"
  shows "kmem_load (Ptr m) ppos lbuf = Inr (get_range (unat ppos) (unat lbuf) m)"
  using assms by (simp add: kmem_load_def in_object_iff vfs_rw_ok_def add.commute)

lemma kmem_store_ok:
  assumes "vfs_rw_ok lbuf ppos" and "unat lbuf + unat ppos \<le> length m"
  shows "kmem_store (Ptr m) ppos lbuf bs = Inr (Ptr (put_range (unat ppos) bs m))"
  using assms by (simp add: kmem_store_def in_object_iff vfs_rw_ok_def add.commute)

lemma moved_vfs:
  assumes "vfs_rw_ok lbuf ppos" and "user_copy_ok lbuf left"
  shows "sint (ucast (lbuf - left) :: c_int) = int (unat lbuf - unat left)"
    and "(scast (ucast (lbuf - left) :: c_int) :: loff_t) = lbuf - left"
  using assms moved_bytes by (auto simp: vfs_rw_ok_def)

lemma unat_ucast_32_64 [simp]: "unat (ucast (x :: 32 word) :: 64 word) = unat x"
proof -
  have "unat x < 2 ^ 32" using unsigned_less [of x, where ?'a = nat] by simp
  then show ?thesis by (simp add: unsigned_ucast_eq take_bit_nat_eq_self)
qed

lemma unat_of_nat_64 [simp]: "n < 2 ^ 64 \<Longrightarrow> unat (of_nat n :: 64 word) = n"
  by (simp add: unsigned_of_nat take_bit_nat_eq_self)

lemma in_object_start: "in_object m 0 n \<longleftrightarrow> unat n \<le> length m"
  by (simp add: in_object_iff)

section \<open>A ledger of kernel resources\<close>

text \<open>
  A module registers devices, allocates memory and starts threads in its \<open>init\<close> function and
  must give each of them back exactly once. The ledger records what is held and, in
  \<open>faults\<close>, every release of something that was not held (a double free or a use after free).
\<close>

record 'r ledger =
  held :: "'r list"
  faults :: "'r list"

definition acquire :: "'r \<Rightarrow> 'r ledger \<Rightarrow> 'r ledger" where
  "acquire r k = k\<lparr>held := r # held k\<rparr>"

definition release :: "'r \<Rightarrow> 'r ledger \<Rightarrow> 'r ledger" where
  "release r k =
     (if r \<in> set (held k) then k\<lparr>held := remove1 r (held k)\<rparr>
      else k\<lparr>faults := r # faults k\<rparr>)"

definition empty_ledger :: "'r ledger" where
  "empty_ledger = \<lparr>held = [], faults = []\<rparr>"

lemma held_acquire [ledger_simps, simp]: "held (acquire r k) = r # held k"
  by (simp add: acquire_def)

lemma faults_acquire [ledger_simps, simp]: "faults (acquire r k) = faults k"
  by (simp add: acquire_def)

lemma release_acquire [ledger_simps, simp]: "release r (acquire r k) = k"
  by (simp add: acquire_def release_def)

lemma release_acquire_other [ledger_simps]:
  "r \<noteq> q \<Longrightarrow> release r (acquire q k) = acquire q (release r k)"
  by (simp add: acquire_def release_def)

lemma held_release [ledger_simps]:
  "held (release r k) = remove1 r (held k)"
  by (simp add: release_def remove1_idem)

lemma faults_release [ledger_simps]:
  "faults (release r k) = (if r \<in> set (held k) then faults k else r # faults k)"
  by (simp add: release_def)

lemma held_empty_ledger [simp]: "held empty_ledger = []"
  by (simp add: empty_ledger_def)

lemma faults_empty_ledger [simp]: "faults empty_ledger = []"
  by (simp add: empty_ledger_def)

text \<open>Releasing several resources in order.\<close>

definition release_all :: "'r list \<Rightarrow> 'r ledger \<Rightarrow> 'r ledger" where
  "release_all rs k = fold release rs k"

lemma release_all_simps [ledger_simps, simp]:
  "release_all [] k = k"
  "release_all (r # rs) k = release_all rs (release r k)"
  "release_all (rs @ ss) k = release_all ss (release_all rs k)"
  by (simp_all add: release_all_def)

lemma release_all_owned:
  "distinct rs \<Longrightarrow> distinct os \<Longrightarrow> set rs = set os \<Longrightarrow> held k = os @ h \<Longrightarrow>
   held (release_all rs k) = h \<and> faults (release_all rs k) = faults k"
proof (induction rs arbitrary: os k)
  case Nil
  then show ?case by simp
next
  case (Cons r rs)
  from Cons.prems have r: "r \<in> set os" by auto
  have "distinct (remove1 r os)" and "set rs = set (remove1 r os)"
    using Cons.prems by auto
  moreover have "held (release r k) = remove1 r os @ h"
    using r Cons.prems(4) by (simp add: held_release remove1_append)
  ultimately have "held (release_all rs (release r k)) = h \<and>
      faults (release_all rs (release r k)) = faults (release r k)"
    using Cons.IH Cons.prems(1) by simp
  with r Cons.prems(4) show ?case by (simp add: faults_release)
qed

lemma release_all_keeps: "r \<in> set (held k) \<Longrightarrow> r \<notin> set rs \<Longrightarrow> r \<in> set (held (release_all rs k))"
  by (induction rs arbitrary: k) (auto simp: held_release)

end
