(* ===== verification/Interfaces.thy ===== *)
theory Interfaces
  imports Prelude
begin

text \<open>
  The contracts several components share, as locales: a byte store of fixed capacity (the
  character devices, the RAM disks, the slab-backed device), the life cycle of a loadable
  module, and a wait queue flag. Each is interpreted in the theories of the components that
  provide it.
\<close>

section \<open>Byte stores\<close>

text \<open>
  A run of positioned writes of elements (bytes, or whole sectors), stopping at the first one that is refused.
\<close>

fun writes :: "('s \<Rightarrow> nat \<Rightarrow> 'a list \<Rightarrow> 's option) \<Rightarrow> 's \<Rightarrow> (nat \<times> 'a list) list \<Rightarrow> 's option" where
  "writes wr s [] = Some s"
| "writes wr s ((p, bs) # ws) =
     (case wr s p bs of None \<Rightarrow> None | Some s' \<Rightarrow> writes wr s' ws)"

definition apart :: "nat \<Rightarrow> nat \<Rightarrow> nat \<Rightarrow> nat \<Rightarrow> bool" where
  "apart p m q n \<longleftrightarrow> p + m \<le> q \<or> q + n \<le> p"

lemma get_put_apart [range_simps]:
  assumes "apart p (length bs) q n" and "bs = [] \<or> p + length bs \<le> length m"
  shows "get_range q n (put_range p bs m) = get_range q n m"
proof (cases "bs = []")
  case False
  with assms show ?thesis
    by (cases "q + n \<le> p") (auto simp: apart_def get_put_before get_put_after)
qed simp

locale byte_store =
  fixes ok :: "'s \<Rightarrow> bool"
    and capacity :: "'s \<Rightarrow> nat"
    and rd :: "'s \<Rightarrow> nat \<Rightarrow> nat \<Rightarrow> 'a list option"
    and wr :: "'s \<Rightarrow> nat \<Rightarrow> 'a list \<Rightarrow> 's option"
  assumes rd_iff: "ok s \<Longrightarrow> 0 < n \<Longrightarrow> rd s p n \<noteq> None \<longleftrightarrow> p + n \<le> capacity s"
    and wr_iff: "ok s \<Longrightarrow> bs \<noteq> [] \<Longrightarrow> wr s p bs \<noteq> None \<longleftrightarrow> p + length bs \<le> capacity s"
    and wr_ok: "ok s \<Longrightarrow> wr s p bs = Some s' \<Longrightarrow> ok s' \<and> capacity s' = capacity s"
    and rd_length: "ok s \<Longrightarrow> rd s p n = Some bs \<Longrightarrow> length bs = n"
    and rd_wr_same: "ok s \<Longrightarrow> wr s p bs = Some s' \<Longrightarrow> rd s' p (length bs) = Some bs"
    and rd_wr_apart:
      "ok s \<Longrightarrow> wr s p bs = Some s' \<Longrightarrow> apart p (length bs) q n \<Longrightarrow> q + n \<le> capacity s \<Longrightarrow>
       rd s' q n = rd s q n"
begin

lemma writes_ok:
  "ok s \<Longrightarrow> writes wr s ws = Some s' \<Longrightarrow> ok s' \<and> capacity s' = capacity s"
proof (induction ws arbitrary: s)
  case Nil
  then show ?case by simp
next
  case (Cons w ws)
  obtain p bs where w: "w = (p, bs)" by (cases w)
  from Cons.prems obtain t where t: "wr s p bs = Some t" and ws: "writes wr t ws = Some s'"
    by (auto simp: w split: option.splits)
  from wr_ok [OF Cons.prems(1) t] Cons.IH [OF _ ws] show ?case by simp
qed

lemma writes_defined:
  "ok s \<Longrightarrow> \<forall>(p, bs) \<in> set ws. bs \<noteq> [] \<and> p + length bs \<le> capacity s \<Longrightarrow>
   \<exists>s'. writes wr s ws = Some s'"
proof (induction ws arbitrary: s)
  case Nil
  then show ?case by simp
next
  case (Cons w ws)
  obtain p bs where w: "w = (p, bs)" by (cases w)
  from Cons.prems wr_iff [OF Cons.prems(1), of bs p] obtain t where t: "wr s p bs = Some t"
    by (auto simp: w)
  with Cons.prems Cons.IH [of t] show ?case
    by (auto simp: w dest: wr_ok)
qed

lemma writes_frame:
  "ok s \<Longrightarrow> writes wr s ws = Some s' \<Longrightarrow>
   \<forall>(p, bs) \<in> set ws. apart p (length bs) q n \<Longrightarrow> q + n \<le> capacity s \<Longrightarrow>
   rd s' q n = rd s q n"
proof (induction ws arbitrary: s)
  case Nil
  then show ?case by simp
next
  case (Cons w ws)
  obtain p bs where w: "w = (p, bs)" by (cases w)
  from Cons.prems obtain t where t: "wr s p bs = Some t" and ws: "writes wr t ws = Some s'"
    by (auto simp: w split: option.splits)
  from wr_ok [OF Cons.prems(1) t] have "rd s' q n = rd t q n"
    using Cons.prems by (intro Cons.IH [OF _ ws]) (auto simp: w)
  also have "\<dots> = rd s q n"
    using Cons.prems by (intro rd_wr_apart [OF _ t]) (auto simp: w)
  finally show ?case .
qed

text \<open>What was written stays readable until a later write overlaps it.\<close>

lemma write_sticks:
  assumes "ok s" and "wr s p bs = Some t" and "writes wr t ws = Some s'" and "bs \<noteq> []"
    and "\<forall>(q, cs) \<in> set ws. apart q (length cs) p (length bs)"
  shows "rd s' p (length bs) = Some bs"
proof -
  from wr_ok [OF assms(1,2)] have t: "ok t" and cap: "capacity t = capacity s" by auto
  from wr_iff [OF assms(1,4), of p] assms(2) have "p + length bs \<le> capacity t"
    by (simp add: cap)
  with writes_frame [OF t assms(3,5)] have "rd s' p (length bs) = rd t p (length bs)" by simp
  also have "\<dots> = Some bs" by (rule rd_wr_same [OF assms(1,2)])
  finally show ?thesis .
qed

end

text \<open>
  A driver's \<open>read\<close> and \<open>write\<close> handlers as the VFS calls them for \<open>pread\<close> and \<open>pwrite\<close>: the
  count and the position are checked first, and the call is a success when every byte was
  moved. The user's memory is valid, so the user copies leave nothing uncopied.
\<close>

definition vfs_pread ::
    "(size_t \<Rightarrow> loff_t \<Rightarrow> size_t \<Rightarrow> 's \<Rightarrow> (int \<times> byte list \<times> loff_t) kresult) \<Rightarrow>
     's \<Rightarrow> nat \<Rightarrow> nat \<Rightarrow> byte list option" where
  "vfs_pread read s p n =
     (if n \<le> MAX_RW_COUNT \<and> p < 2 ^ 63 then
        (case read (of_nat n) (of_nat p) 0 s of
           Inr (r, bs, _) \<Rightarrow> if r = int n then Some bs else None
         | Inl _ \<Rightarrow> None)
      else None)"

definition vfs_pwrite ::
    "(byte list \<Rightarrow> size_t \<Rightarrow> loff_t \<Rightarrow> size_t \<Rightarrow> 's \<Rightarrow> (int \<times> 's \<times> loff_t) kresult) \<Rightarrow>
     's \<Rightarrow> nat \<Rightarrow> byte list \<Rightarrow> 's option" where
  "vfs_pwrite write s p bs =
     (if length bs \<le> MAX_RW_COUNT \<and> p < 2 ^ 63 then
        (case write bs (of_nat (length bs)) (of_nat p) 0 s of
           Inr (r, s', _) \<Rightarrow> if r = int (length bs) then Some s' else None
         | Inl _ \<Rightarrow> None)
      else None)"

lemma vfs_args:
  assumes "n \<le> MAX_RW_COUNT" and "p < 2 ^ 63"
  shows "unat (of_nat n :: size_t) = n" and "unat (of_nat p :: loff_t) = p"
    and "vfs_rw_ok (of_nat n) (of_nat p)" and "user_copy_ok (of_nat n) 0"
proof -
  show n: "unat (of_nat n :: size_t) = n"
    using assms(1) by (simp add: unsigned_of_nat take_bit_nat_eq_self)
  show p: "unat (of_nat p :: loff_t) = p"
    using assms(2) by (simp add: unsigned_of_nat take_bit_nat_eq_self)
  have "0 \<le> sint (of_nat p :: loff_t)"
    using sint_small_64 [of "of_nat p :: loff_t"] p assms(2) by simp
  then show "vfs_rw_ok (of_nat n) (of_nat p)"
    unfolding vfs_rw_ok_def n using assms(1) by simp
  show "user_copy_ok (of_nat n) 0"
    by (simp add: user_copy_ok_def)
qed

section \<open>Module life cycle\<close>

text \<open>
  \<open>init\<close> takes the answers of the kernel and the ledger, and returns the module's status
  and the new ledger. A well-behaved \<open>init\<close> owns exactly \<open>owns\<close> when it reports success and
  nothing when it reports an error; a well-behaved \<open>exit\<close> gives everything back.
\<close>

locale module_loader =
  fixes env_ok :: "'e \<Rightarrow> bool"
    and load :: "'e \<Rightarrow> 'r ledger \<Rightarrow> int \<times> 'r ledger"
    and owns :: "'e \<Rightarrow> 'r list"
  assumes load_success:
      "env_ok e \<Longrightarrow> fst (load e k) = 0 \<Longrightarrow>
       held (snd (load e k)) = owns e @ held k \<and> faults (snd (load e k)) = faults k"
    and load_failure: "env_ok e \<Longrightarrow> fst (load e k) \<noteq> 0 \<Longrightarrow> snd (load e k) = k"
begin

lemma load_no_fault: "env_ok e \<Longrightarrow> faults (snd (load e k)) = faults k"
  using load_success [of e k] load_failure [of e k] by (cases "fst (load e k) = 0") auto

end

fun cycles :: "('e \<Rightarrow> 'r ledger \<Rightarrow> int \<times> 'r ledger) \<Rightarrow> ('e \<Rightarrow> 'r ledger \<Rightarrow> 'r ledger) \<Rightarrow>
    'e list \<Rightarrow> 'r ledger \<Rightarrow> 'r ledger" where
  "cycles load unload [] k = k"
| "cycles load unload (e # es) k =
     (let (r, k1) = load e k
      in cycles load unload es (if r = 0 then unload e k1 else k1))"

locale module_lifecycle = module_loader +
  fixes unload :: "'e \<Rightarrow> 'r ledger \<Rightarrow> 'r ledger"
  assumes unload_all:
    "env_ok e \<Longrightarrow> fst (load e k0) = 0 \<Longrightarrow> held k = owns e @ h \<Longrightarrow>
     held (unload e k) = h \<and> faults (unload e k) = faults k"
begin

text \<open>However often the module is loaded and unloaded, nothing leaks and nothing is freed twice.\<close>

lemma cycles_balanced:
  "list_all env_ok es \<Longrightarrow> held (cycles load unload es k) = held k \<and>
     faults (cycles load unload es k) = faults k"
proof (induction es arbitrary: k)
  case Nil
  then show ?case by simp
next
  case (Cons e es)
  obtain r k1 where l: "load e k = (r, k1)" by (cases "load e k")
  from Cons.prems have e: "env_ok e" by simp
  show ?case
  proof (cases "r = 0")
    case True
    with load_success [OF e, of k] l have "held k1 = owns e @ held k" "faults k1 = faults k"
      by auto
    with unload_all [OF e, of k] Cons True l show ?thesis by simp
  next
    case False
    with load_failure [OF e, of k] l Cons show ?thesis by simp
  qed
qed

lemma cycles_id: "list_all env_ok es \<Longrightarrow> cycles load unload es k = k"
  using cycles_balanced [of es k] by simp

end

section \<open>Labelled steps\<close>

text \<open>
  Concurrent components are step relations: a label names the task and the atomic piece of
  code it executes. \<open>run step s ls t\<close> is an interleaving.
\<close>

inductive run :: "('s \<Rightarrow> 'l \<Rightarrow> 's \<Rightarrow> bool) \<Rightarrow> 's \<Rightarrow> 'l list \<Rightarrow> 's \<Rightarrow> bool"
  for step :: "'s \<Rightarrow> 'l \<Rightarrow> 's \<Rightarrow> bool" where
  run_nil: "run step s [] s"
| run_cons: "step s l t \<Longrightarrow> run step t ls u \<Longrightarrow> run step s (l # ls) u"

inductive_simps run_nil_iff [simp]: "run step s [] t"
inductive_simps run_cons_iff: "run step s (l # ls) t"
inductive_cases run_consE: "run step s (l # ls) t"

lemma run_append: "run step s ls t \<Longrightarrow> run step t ms u \<Longrightarrow> run step s (ls @ ms) u"
  by (induction rule: run.induct) (auto intro: run.intros)

lemma run_appendD: "run step s (ls @ ms) u \<Longrightarrow> \<exists>t. run step s ls t \<and> run step t ms u"
proof (induction ls arbitrary: s)
  case Nil
  then show ?case by (auto intro: run_nil)
next
  case (Cons l ls)
  then obtain s' where "step s l s'" and "run step s' (ls @ ms) u"
    by (auto simp: run_cons_iff)
  with Cons.IH [of s'] show ?case by (blast intro: run_cons)
qed

lemma run_preserves:
  assumes "run step s ls t" and "P s"
    and "\<And>s l t. l \<in> set ls \<Longrightarrow> step s l t \<Longrightarrow> P s \<Longrightarrow> P t"
  shows "P t"
  using assms
proof (induction rule: run.induct)
  case (run_nil s)
  then show ?case by simp
next
  case (run_cons s l t ls u)
  from run_cons.prems(2) [OF _ run_cons.hyps(1) run_cons.prems(1)] have "P t" by simp
  with run_cons.IH run_cons.prems(2) show ?case by (metis list.set_intros(2))
qed

text \<open>
  A component with its start states and an inductive invariant; the invariant holds after
  every interleaving.
\<close>

locale invariant_system =
  fixes start :: "'s \<Rightarrow> bool"
    and step :: "'s \<Rightarrow> 'l \<Rightarrow> 's \<Rightarrow> bool"
    and inv :: "'s \<Rightarrow> bool"
  assumes inv_start: "start s \<Longrightarrow> inv s"
    and inv_step: "inv s \<Longrightarrow> step s l t \<Longrightarrow> inv t"
begin

lemma inv_run: "run step s ls t \<Longrightarrow> inv s \<Longrightarrow> inv t"
  by (erule run_preserves) (auto intro: inv_step)

lemma inv_reachable: "start s \<Longrightarrow> run step s ls t \<Longrightarrow> inv t"
  by (blast intro: inv_start inv_run)

end

end
