(* ===== verification/Char_Driver.thy ===== *)
theory Char_Driver
  imports Interfaces
begin

text \<open>
  The memory-backed character driver of \<open>src/char\<close>, as its labs grow it: registration and
  removal (lab 1), read and write over a 32-page buffer (lab 2), an ioctl that exchanges a
  structure with user space (lab 3) and seeking (lab 4). Handlers that later labs repeat
  word for word are defined once. A handler takes the driver's state and the answers of the
  kernel, and returns the C result with the new state, or the fault it commits.
\<close>

section \<open>State\<close>

text \<open>
  \<open>membuff\<close> is the buffer pointer, \<open>counter\<close> the static open counter; the ioctl labs add the
  memory image of \<open>ioc_data\<close>.
\<close>

(* src: char/lab2_char_read_write.c:21-32 membuff, counter *)
record chardrv =
  membuff :: "byte list kptr"
  counter :: c_int

(* src: char/lab2_char_read_write.c:22-22 membuff_size *)
definition membuff_size :: size_t where
  "membuff_size = 32 * PAGE_SIZE"

lemma unat_membuff_size [simp]: "unat membuff_size = 131072"
  and uint_membuff_size [simp]: "uint membuff_size = 131072"
  by (simp_all add: membuff_size_def)

text \<open>
  \<open>struct ioctl_data\<close> on LP64: a 4-byte \<open>i\<close>, 4 bytes of padding, an 8-byte \<open>l\<close> and 256
  characters, 272 bytes in all, little endian.
\<close>

(* src: char/lab4_char_seek.c:29-33 struct ioctl_data *)
record ioctl_data =
  ioc_i :: c_int
  ioc_l :: c_long
  ioc_s :: "byte list"

definition le_bytes :: "nat \<Rightarrow> 'a::len word \<Rightarrow> byte list" where
  "le_bytes k w = map (\<lambda>j. ucast (drop_bit (8 * j) w)) [0..<k]"

definition ioctl_image :: "ioctl_data \<Rightarrow> byte list" where
  "ioctl_image d = le_bytes 4 (ioc_i d) @ replicate 4 0 @ le_bytes 8 (ioc_l d) @
     take 256 (ioc_s d @ replicate 256 0)"

lemma length_ioctl_image [simp]: "length (ioctl_image d) = 272"
  by (simp add: ioctl_image_def le_bytes_def)

definition c_string :: "string \<Rightarrow> byte list" where
  "c_string s = map (\<lambda>c. of_nat (of_char c)) s @ [0]"

(* src: char/lab4_char_seek.c:35-39 ioc_data *)
definition ioc_data_init :: ioctl_data where
  "ioc_data_init = \<lparr>ioc_i = -25, ioc_l = 45, ioc_s = c_string ''ioctl string data''\<rparr>"

record ioctl_chardrv = chardrv +
  ioc_data :: "byte list"

section \<open>Open and release\<close>

(* src: char/lab2_char_read_write.c:30-42 chardrv_open *)
definition chardrv_open :: "'a chardrv_scheme \<Rightarrow> int \<times> 'a chardrv_scheme" where
  "chardrv_open d = (0, d\<lparr>counter := counter d + 1\<rparr>)"

(* src: char/lab2_char_read_write.c:44-48 chardrv_release *)
definition chardrv_release :: "'a chardrv_scheme \<Rightarrow> int \<times> 'a chardrv_scheme" where
  "chardrv_release d = (0, d)"

section \<open>Read and write\<close>

text \<open>
  \<open>lbuf + *ppos\<close> is computed in 64 unsigned bits and may wrap. \<open>left\<close> is the answer of the
  user copy; the number of bytes moved is kept in an \<open>int\<close>, as the source does. A read
  returns the status, the bytes that reached the user, and the new position.
\<close>

(* src: char/lab2_char_read_write.c:50-61 chardrv_read *)
definition chardrv_read ::
    "size_t \<Rightarrow> loff_t \<Rightarrow> size_t \<Rightarrow> 'a chardrv_scheme \<Rightarrow> (int \<times> byte list \<times> loff_t) kresult" where
  "chardrv_read lbuf ppos left d =
     (if membuff_size < lbuf + ppos then Inr (0, [], ppos)
      else case kmem_load (membuff d) ppos lbuf of
             Inl f \<Rightarrow> Inl f
           | Inr src \<Rightarrow>
               let rbytes = (ucast (lbuf - left) :: c_int)
               in Inr (sint rbytes, copied_out lbuf left src, ppos + scast rbytes))"

(* src: char/lab2_char_read_write.c:63-75 chardrv_write *)
definition chardrv_write ::
    "byte list \<Rightarrow> size_t \<Rightarrow> loff_t \<Rightarrow> size_t \<Rightarrow> 'a chardrv_scheme \<Rightarrow>
     (int \<times> 'a chardrv_scheme \<times> loff_t) kresult" where
  "chardrv_write ubuf lbuf ppos left d =
     (if membuff_size < lbuf + ppos then Inr (0, d, ppos)
      else case kmem_store (membuff d) ppos lbuf (copied_in lbuf left ubuf) of
             Inl f \<Rightarrow> Inl f
           | Inr m \<Rightarrow>
               let wbytes = (ucast (lbuf - left) :: c_int)
               in Inr (sint wbytes, d\<lparr>membuff := m\<rparr>, ppos + scast wbytes))"

section \<open>Ioctl\<close>

text \<open>The fields of a command word, as \<open>asm-generic/ioctl.h\<close> lays them out.\<close>

definition IOC_DIR :: "c_uint \<Rightarrow> c_uint" where
  "IOC_DIR cmd = and (drop_bit 30 cmd) 3"

definition IOC_TYPE :: "c_uint \<Rightarrow> c_uint" where
  "IOC_TYPE cmd = and (drop_bit 8 cmd) 255"

definition IOC_SIZE :: "c_uint \<Rightarrow> c_uint" where
  "IOC_SIZE cmd = and (drop_bit 16 cmd) 16383"

definition IOC_NR :: "c_uint \<Rightarrow> c_uint" where
  "IOC_NR cmd = and cmd 255"

definition IOC :: "c_uint \<Rightarrow> c_uint \<Rightarrow> c_uint \<Rightarrow> c_uint \<Rightarrow> c_uint" where
  "IOC dir ty nr sz =
     or (push_bit 30 dir) (or (push_bit 16 sz) (or (push_bit 8 ty) nr))"

abbreviation (input) LDDIOC_TYPE :: c_uint where "LDDIOC_TYPE \<equiv> 107" \<comment> \<open>the character k\<close>
abbreviation (input) IOC_WRITE :: c_uint where "IOC_WRITE \<equiv> 1"
abbreviation (input) IOC_READ :: c_uint where "IOC_READ \<equiv> 2"

text \<open>
  The size comes from the command word alone; nothing compares it with the structure, so a
  larger one makes the copy leave \<open>ioc_data\<close>. \<open>ubuf\<close> holds the bytes at the user's pointer.
\<close>

(* src: char/lab4_char_seek.c:88-130 chardrv_unlocked_ioctl *)
definition chardrv_unlocked_ioctl ::
    "c_uint \<Rightarrow> byte list \<Rightarrow> size_t \<Rightarrow> 'a ioctl_chardrv_scheme \<Rightarrow>
     (int \<times> byte list \<times> 'a ioctl_chardrv_scheme) kresult" where
  "chardrv_unlocked_ioctl cmd ubuf left d =
     (if IOC_TYPE cmd \<noteq> LDDIOC_TYPE then Inr (- EINVAL, [], d)
      else
        let direction = IOC_DIR cmd; size = (ucast (IOC_SIZE cmd) :: size_t);
            rc = (ucast left :: c_int)
        in if direction = IOC_WRITE then
             (if in_object (ioc_data d) 0 size
              then Inr (sint rc, [],
                     d\<lparr>ioc_data := put_range 0 (copied_in size left ubuf) (ioc_data d)\<rparr>)
              else Inl OutOfBounds)
           else if direction = IOC_READ then
             (if in_object (ioc_data d) 0 size
              then Inr (sint rc, copied_out size left (get_range 0 (unat size) (ioc_data d)), d)
              else Inl OutOfBounds)
           else Inr (- EINVAL, [], d))"

section \<open>Seeking\<close>

text \<open>
  \<open>membuff_size\<close> is a \<open>size_t\<close>, so C converts the signed position to an unsigned one before
  it compares the two: the order below is the unsigned order of words.
\<close>

(* src: char/lab4_char_seek.c:132-153 chardrv_lseek *)
definition chardrv_lseek :: "loff_t \<Rightarrow> c_int \<Rightarrow> loff_t \<Rightarrow> int \<times> loff_t" where
  "chardrv_lseek offset orig f_pos =
     (if orig = 0 \<or> orig = 1 \<or> orig = 2 then
        let pos = (if orig = 0 then offset else if orig = 1 then f_pos + offset
                   else membuff_size + offset);
            pos = (if pos < membuff_size then pos else membuff_size);
            pos = (if 0 \<le> sint pos then pos else 0)
        in (sint pos, pos)
      else (- EINVAL, f_pos))"

section \<open>Registration and removal\<close>

datatype chardev_res = RChrdev | RClass | RDevice | RMem

text \<open>The answers of the kernel to one call of \<open>chardrv_init\<close>.\<close>

record chardev_env =
  reg_major :: int
  class_ptr :: "unit kptr"
  device_ptr :: "unit kptr"
  kmalloc_ptr :: "byte list kptr"

text \<open>
  What the kernel documents: \<open>class_create\<close> and \<open>device_create\<close> return an object or an error
  pointer with a positive error number, \<open>kmalloc\<close> an object of the size asked for or null.
\<close>

definition chardev_env_ok :: "chardev_env \<Rightarrow> bool" where
  "chardev_env_ok e \<longleftrightarrow>
     (\<forall>n. class_ptr e = ERR_PTR n \<longrightarrow> 0 < n) \<and> class_ptr e \<noteq> NULL \<and>
     (\<forall>n. device_ptr e = ERR_PTR n \<longrightarrow> 0 < n) \<and> device_ptr e \<noteq> NULL \<and>
     (\<forall>n. kmalloc_ptr e \<noteq> ERR_PTR n) \<and>
     (\<forall>m. kmalloc_ptr e = Ptr m \<longrightarrow> length m = unat membuff_size)"

text \<open>Lab 1 registers only; \<open>init_upto_device\<close> is the part every lab shares.\<close>

(* src: char/lab1_char_init.c:49-76 chardrv_init *)
definition chardrv_init_lab1 :: "chardev_env \<Rightarrow> chardev_res ledger \<Rightarrow> int \<times> chardev_res ledger" where
  "chardrv_init_lab1 e k =
     (if reg_major e < 0 then (reg_major e, k)
      else let k = acquire RChrdev k
      in if IS_ERR (class_ptr e) then
           let k = release RChrdev k in (PTR_ERR (class_ptr e), k)
      else let k = acquire RClass k
      in if IS_ERR (device_ptr e) then
           let k = release RClass k; k = release RChrdev k in (PTR_ERR (device_ptr e), k)
      else (0, acquire RDevice k))"

(* src: char/lab2_char_read_write.c:84-120 chardrv_init *)
definition chardrv_init ::
    "chardev_env \<Rightarrow> chardev_res ledger \<Rightarrow> int \<times> chardev_res ledger \<times> chardrv" where
  "chardrv_init e k =
     (let d = \<lparr>membuff = NULL, counter = 0\<rparr>
      in if reg_major e < 0 then (reg_major e, k, d)
      else let k = acquire RChrdev k
      in if IS_ERR (class_ptr e) then
           let k = release RChrdev k in (PTR_ERR (class_ptr e), k, d)
      else let k = acquire RClass k
      in if IS_ERR (device_ptr e) then
           let k = release RClass k; k = release RChrdev k in (PTR_ERR (device_ptr e), k, d)
      else let k = acquire RDevice k; d = d\<lparr>membuff := kmalloc_ptr e\<rparr>
      in if \<not> nonnull (membuff d) then
           let k = release RDevice k; k = release RClass k; k = release RChrdev k in (-1, k, d)
      else (0, acquire RMem k, d))"

text \<open>
  \<open>class_destroy\<close> of a valid class is \<open>class_unregister\<close>; after an explicit \<open>class_unregister\<close>
  the class is gone.
\<close>

(* src: char/lab1_char_init.c:78-85 chardrv_exit *)
definition chardrv_exit_lab1 :: "chardev_res ledger \<Rightarrow> chardev_res ledger" where
  "chardrv_exit_lab1 k =
     (let k = release RDevice k; k = release RClass k; k = release RClass k
      in release RChrdev k)"

(* src: char/lab2_char_read_write.c:122-130 chardrv_exit *)
definition chardrv_exit :: "chardev_res ledger \<Rightarrow> chardev_res ledger" where
  "chardrv_exit k =
     (let k = release RMem k; k = release RDevice k; k = release RClass k;
          k = release RClass k
      in release RChrdev k)"

lemmas chardrv_handlers [handler_defs] =
  chardrv_open_def chardrv_release_def chardrv_read_def chardrv_write_def
  chardrv_unlocked_ioctl_def chardrv_lseek_def

section \<open>Reading and writing a device whose buffer is allocated\<close>

definition has_buffer :: "'a chardrv_scheme \<Rightarrow> byte list \<Rightarrow> bool" where
  "has_buffer d m \<longleftrightarrow> membuff d = Ptr m \<and> length m = unat membuff_size"

lemma over_the_end:
  "vfs_rw_ok lbuf ppos \<Longrightarrow> membuff_size < lbuf + ppos \<longleftrightarrow> unat membuff_size < unat lbuf + unat ppos"
  by (simp add: word_less_nat_alt vfs_rw_sum)

lemma chardrv_read_beyond:
  assumes "vfs_rw_ok lbuf ppos" and "unat membuff_size < unat lbuf + unat ppos"
  shows "chardrv_read lbuf ppos left d = Inr (0, [], ppos)"
  using assms by (simp add: chardrv_read_def over_the_end)

lemma chardrv_read_within:
  assumes "has_buffer d m" and "vfs_rw_ok lbuf ppos" and "user_copy_ok lbuf left"
    and "unat lbuf + unat ppos \<le> unat membuff_size"
  shows "chardrv_read lbuf ppos left d =
     Inr (int (unat lbuf - unat left),
          take (unat lbuf - unat left) (get_range (unat ppos) (unat lbuf) m),
          ppos + (lbuf - left))"
  using assms
  by (simp add: chardrv_read_def over_the_end has_buffer_def kmem_load_ok moved_vfs
      copied_out_def unat_minus_left)

lemma chardrv_write_beyond:
  assumes "vfs_rw_ok lbuf ppos" and "unat membuff_size < unat lbuf + unat ppos"
  shows "chardrv_write ubuf lbuf ppos left d = Inr (0, d, ppos)"
  using assms by (simp add: chardrv_write_def over_the_end)

lemma chardrv_write_within:
  assumes "has_buffer d m" and "vfs_rw_ok lbuf ppos" and "user_copy_ok lbuf left"
    and "unat lbuf + unat ppos \<le> unat membuff_size"
  shows "chardrv_write ubuf lbuf ppos left d =
     Inr (int (unat lbuf - unat left),
          d\<lparr>membuff := Ptr (put_range (unat ppos) (copied_in lbuf left ubuf) m)\<rparr>,
          ppos + (lbuf - left))"
  using assms
  by (simp add: chardrv_write_def over_the_end has_buffer_def kmem_store_ok moved_vfs)

section \<open>The device as a byte store\<close>

definition device_ok :: "'a chardrv_scheme \<Rightarrow> bool" where
  "device_ok d \<longleftrightarrow> (\<exists>m. has_buffer d m)"

definition device_size :: "'a chardrv_scheme \<Rightarrow> nat" where
  "device_size d = unat membuff_size"

lemma chardrv_pread:
  assumes "has_buffer d m"
  shows "vfs_pread chardrv_read d p n =
     (if n \<le> MAX_RW_COUNT \<and> p < 2 ^ 63 \<and> (n = 0 \<or> p + n \<le> unat membuff_size)
      then Some (get_range p n m) else None)"
proof (cases "n \<le> MAX_RW_COUNT \<and> p < 2 ^ 63")
  case True
  note v = vfs_args [of n p]
  show ?thesis
  proof (cases "n + p \<le> unat membuff_size")
    case fits: True
    with chardrv_read_within [OF assms v(3,4)] v True show ?thesis
      using assms by (simp add: vfs_pread_def has_buffer_def)
  next
    case False
    with chardrv_read_beyond [OF v(3), where left = 0 and d = d] v True show ?thesis
      by (cases "n = 0") (simp_all add: vfs_pread_def)
  qed
next
  case False
  then show ?thesis by (auto simp: vfs_pread_def)
qed

lemma chardrv_pwrite:
  assumes "has_buffer d m"
  shows "vfs_pwrite chardrv_write d p bs =
     (if length bs \<le> MAX_RW_COUNT \<and> p < 2 ^ 63 \<and> (bs = [] \<or> p + length bs \<le> unat membuff_size)
      then Some (d\<lparr>membuff := Ptr (put_range p bs m)\<rparr>) else None)"
proof (cases "length bs \<le> MAX_RW_COUNT \<and> p < 2 ^ 63")
  case True
  note v = vfs_args [of "length bs" p]
  show ?thesis
  proof (cases "length bs + p \<le> unat membuff_size")
    case fits: True
    with chardrv_write_within [OF assms v(3,4)] v True show ?thesis
      by (simp add: vfs_pwrite_def add.commute)
  next
    case False
    with chardrv_write_beyond [OF v(3), where left = 0 and d = d and ubuf = bs] v True assms
    show ?thesis
      by (cases "bs = []") (simp_all add: vfs_pwrite_def add.commute has_buffer_def)
  qed
next
  case False
  then show ?thesis by (auto simp: vfs_pwrite_def)
qed

lemma has_buffer_put:
  "has_buffer d m \<Longrightarrow> p + length bs \<le> unat membuff_size \<or> bs = [] \<Longrightarrow>
   has_buffer (d\<lparr>membuff := Ptr (put_range p bs m)\<rparr>) (put_range p bs m)"
  by (auto simp: has_buffer_def)

lemma chardrv_pwriteE:
  assumes "device_ok s" and "vfs_pwrite chardrv_write s p bs = Some s'"
  obtains m where "has_buffer s m" and "has_buffer s' (put_range p bs m)"
    and "length bs \<le> MAX_RW_COUNT" and "p < 2 ^ 63"
    and "bs = [] \<or> p + length bs \<le> unat membuff_size"
proof -
  obtain m where m: "has_buffer s m"
    using assms(1) by (auto simp: device_ok_def)
  have fits: "length bs \<le> MAX_RW_COUNT" "p < 2 ^ 63" "bs = [] \<or> p + length bs \<le> unat membuff_size"
    and s': "s' = s\<lparr>membuff := Ptr (put_range p bs m)\<rparr>"
    using assms(2) by (auto simp: chardrv_pwrite [OF m] split: if_splits)
  have "has_buffer s' (put_range p bs m)"
    unfolding s' using has_buffer_put [OF m, of p bs] fits(3) by blast
  then show ?thesis by (rule that [OF m _ fits])
qed

interpretation chardev: byte_store
  device_ok device_size "vfs_pread chardrv_read" "vfs_pwrite chardrv_write"
proof (unfold_locales, goal_cases)
  case (1 s n p)
  then show ?case
    by (auto simp: device_ok_def device_size_def chardrv_pread split: if_splits)
next
  case (2 s bs p)
  then show ?case
    by (auto simp: device_ok_def device_size_def chardrv_pwrite split: if_splits)
next
  case (3 s p bs s')
  then show ?case
    by (elim chardrv_pwriteE) (auto simp: device_ok_def device_size_def)
next
  case (4 s p n bs)
  then show ?case
    by (auto simp: device_ok_def chardrv_pread has_buffer_def split: if_splits)
next
  case (5 s p bs s')
  then obtain m where m: "has_buffer s m" and m': "has_buffer s' (put_range p bs m)"
    and fits: "length bs \<le> MAX_RW_COUNT" "p < 2 ^ 63" "bs = [] \<or> p + length bs \<le> unat membuff_size"
    by (rule chardrv_pwriteE)
  have "get_range p (length bs) (put_range p bs m) = bs"
    using fits(3) m by (cases "bs = []") (simp_all add: get_put_same has_buffer_def)
  with fits show ?case by (simp add: chardrv_pread [OF m'])
next
  case (6 s p bs s' q n)
  from 6(1,2) obtain m where m: "has_buffer s m" and m': "has_buffer s' (put_range p bs m)"
    and fits: "bs = [] \<or> p + length bs \<le> unat membuff_size"
    by (rule chardrv_pwriteE)
  have "get_range q n (put_range p bs m) = get_range q n m"
    using fits m by (intro get_put_apart [OF 6(3)]) (simp add: has_buffer_def)
  then show ?case by (simp add: chardrv_pread [OF m] chardrv_pread [OF m'])
qed

section \<open>The calls of an open file\<close>

text \<open>
  The \<open>fops\<close> table of lab 4, dispatching on the call. The state is the driver with the
  position of the open file; \<open>read\<close> and \<open>write\<close> get that position, as the VFS passes it.
  The result carries the C return value and the bytes that reached the user.
\<close>

datatype chardrv_call =
    Open
  | Release
  | Read size_t size_t
  | Write "byte list" size_t size_t
  | Ioctl c_uint "byte list" size_t
  | Lseek loff_t c_int

type_synonym char_file = "ioctl_chardrv \<times> loff_t"

(* src: char/lab4_char_seek.c:155-162 fops *)
fun chardrv_fops :: "chardrv_call \<Rightarrow> char_file \<Rightarrow> (int \<times> byte list \<times> char_file) kresult" where
  "chardrv_fops Open (d, pos) = (let (r, d) = chardrv_open d in Inr (r, [], (d, pos)))"
| "chardrv_fops Release (d, pos) = (let (r, d) = chardrv_release d in Inr (r, [], (d, pos)))"
| "chardrv_fops (Read lbuf left) (d, pos) =
     (case chardrv_read lbuf pos left d of
        Inl f \<Rightarrow> Inl f | Inr (r, out, pos) \<Rightarrow> Inr (r, out, (d, pos)))"
| "chardrv_fops (Write ubuf lbuf left) (d, pos) =
     (case chardrv_write ubuf lbuf pos left d of
        Inl f \<Rightarrow> Inl f | Inr (r, d, pos) \<Rightarrow> Inr (r, [], (d, pos)))"
| "chardrv_fops (Ioctl cmd ubuf left) (d, pos) =
     (case chardrv_unlocked_ioctl cmd ubuf left d of
        Inl f \<Rightarrow> Inl f | Inr (r, out, d) \<Rightarrow> Inr (r, out, (d, pos)))"
| "chardrv_fops (Lseek offset orig) (d, pos) =
     (let (r, pos) = chardrv_lseek offset orig pos in Inr (r, [], (d, pos)))"

fun chardrv_run :: "chardrv_call list \<Rightarrow> char_file \<Rightarrow> char_file kresult" where
  "chardrv_run [] s = Inr s"
| "chardrv_run (c # cs) s =
     (case chardrv_fops c s of Inl f \<Rightarrow> Inl f | Inr (_, _, s') \<Rightarrow> chardrv_run cs s')"

text \<open>
  What the kernel and a well-behaved caller guarantee of one call: counts within the limit of
  the VFS, user copies that answer within the size, and ioctl sizes within the structure.
\<close>

fun call_ok :: "chardrv_call \<Rightarrow> bool" where
  "call_ok (Read lbuf left) \<longleftrightarrow> unat lbuf \<le> MAX_RW_COUNT \<and> user_copy_ok lbuf left"
| "call_ok (Write ubuf lbuf left) \<longleftrightarrow>
     unat lbuf \<le> MAX_RW_COUNT \<and> user_copy_ok lbuf left \<and> length ubuf = unat lbuf"
| "call_ok (Ioctl cmd ubuf left) \<longleftrightarrow>
     unat (IOC_SIZE cmd) \<le> 272 \<and> length ubuf = unat (IOC_SIZE cmd) \<and>
     user_copy_ok (ucast (IOC_SIZE cmd)) left"
| "call_ok _ \<longleftrightarrow> True"

definition char_file_ok :: "char_file \<Rightarrow> bool" where
  "char_file_ok s \<longleftrightarrow>
     device_ok (fst s) \<and> length (ioc_data (fst s)) = 272 \<and> unat (snd s) \<le> unat membuff_size"

lemma char_file_okI:
  "has_buffer d m \<Longrightarrow> length (ioc_data d) = 272 \<Longrightarrow> unat pos \<le> unat membuff_size \<Longrightarrow>
   char_file_ok (d, pos)"
  by (auto simp: char_file_ok_def device_ok_def)

lemma char_file_vfs:
  assumes "unat pos \<le> unat membuff_size" and "unat lbuf \<le> MAX_RW_COUNT"
  shows "vfs_rw_ok lbuf pos"
proof -
  have "unat pos < 2 ^ 63" using assms(1) by simp
  from sint_small_64 [OF this] have "0 \<le> sint pos" by simp
  with assms(2) show ?thesis by (simp add: vfs_rw_ok_def)
qed

lemma moved_position:
  assumes "unat lbuf + unat pos \<le> unat membuff_size" and "user_copy_ok lbuf left"
  shows "unat (pos + (lbuf - left)) \<le> unat membuff_size"
proof -
  have "unat (lbuf - left) \<le> unat lbuf" using assms(2) by (simp add: unat_minus_left)
  with assms(1) have "unat (pos + (lbuf - left)) = unat pos + unat (lbuf - left)"
    by (intro unat_add_nowrap) simp
  with assms \<open>unat (lbuf - left) \<le> unat lbuf\<close> show ?thesis by simp
qed

lemma read_file_ok:
  assumes "char_file_ok (d, pos)" and "call_ok (Read lbuf left)"
  shows "\<exists>r out pos'. chardrv_fops (Read lbuf left) (d, pos) = Inr (r, out, (d, pos')) \<and>
           char_file_ok (d, pos')"
proof -
  from assms(1) obtain m where m: "has_buffer d m" and i: "length (ioc_data d) = 272"
    and p: "unat pos \<le> unat membuff_size" by (auto simp: char_file_ok_def device_ok_def)
  from assms(2) have c: "user_copy_ok lbuf left" and v: "vfs_rw_ok lbuf pos"
    using char_file_vfs [OF p] by auto
  show ?thesis
  proof (cases "unat lbuf + unat pos \<le> unat membuff_size")
    case True
    with chardrv_read_within [OF m v c True] moved_position [OF True c] char_file_okI [OF m i]
    show ?thesis by simp
  next
    case False
    with chardrv_read_beyond [OF v, where left = left and d = d] assms(1) show ?thesis by simp
  qed
qed

lemma write_file_ok:
  assumes "char_file_ok (d, pos)" and "call_ok (Write ubuf lbuf left)"
  shows "\<exists>r s'. chardrv_fops (Write ubuf lbuf left) (d, pos) = Inr (r, [], s') \<and> char_file_ok s'"
proof -
  from assms(1) obtain m where m: "has_buffer d m" and i: "length (ioc_data d) = 272"
    and p: "unat pos \<le> unat membuff_size" by (auto simp: char_file_ok_def device_ok_def)
  from assms(2) have c: "user_copy_ok lbuf left" and v: "vfs_rw_ok lbuf pos"
    and l: "length ubuf = unat lbuf"
    using char_file_vfs [OF p] by auto
  show ?thesis
  proof (cases "unat lbuf + unat pos \<le> unat membuff_size")
    case True
    let ?b = "copied_in lbuf left ubuf"
    have "has_buffer (d\<lparr>membuff := Ptr (put_range (unat pos) ?b m)\<rparr>) (put_range (unat pos) ?b m)"
      using True c l by (intro has_buffer_put [OF m]) (simp add: add.commute)
    with chardrv_write_within [OF m v c True, of ubuf] moved_position [OF True c] i
    show ?thesis by (simp add: char_file_okI)
  next
    case False
    with chardrv_write_beyond [OF v, where left = left and d = d and ubuf = ubuf] assms(1)
    show ?thesis by simp
  qed
qed

lemma ioctl_file_ok:
  assumes "char_file_ok (d, pos)" and "call_ok (Ioctl cmd ubuf left)"
  shows "\<exists>r out s'. chardrv_fops (Ioctl cmd ubuf left) (d, pos) = Inr (r, out, s') \<and>
           char_file_ok s'"
  using assms
  by (simp add: chardrv_unlocked_ioctl_def Let_def in_object_start char_file_ok_def device_ok_def
      has_buffer_def)

lemma lseek_target:
  assumes "orig \<in> {0, 1, 2}"
  shows "chardrv_lseek offset orig f_pos =
    (let t = (if orig = 0 then offset else if orig = 1 then f_pos + offset
              else membuff_size + offset);
         p = min t membuff_size
     in (int (unat p), p))"
proof -
  have small: "sint p = int (unat p)" if "p \<le> membuff_size" for p :: loff_t
    using that by (intro sint_small_64) (simp add: word_le_nat_alt)
  have "sint (min t membuff_size) = int (unat (min t membuff_size))" for t :: loff_t
    by (rule small) simp
  moreover have "(if t < membuff_size then t else membuff_size) = min t membuff_size" for t
    by (auto simp: min_def not_less)
  ultimately show ?thesis
    using assms by (simp add: chardrv_lseek_def Let_def)
qed

lemma lseek_in_device:
  assumes "unat f_pos \<le> unat membuff_size"
  shows "unat (snd (chardrv_lseek offset orig f_pos)) \<le> unat membuff_size"
proof (cases "orig \<in> {0, 1, 2}")
  case True
  have "unat (min t membuff_size) \<le> unat membuff_size" for t :: loff_t
    by (simp add: word_le_nat_alt [symmetric] del: unat_membuff_size)
  with True show ?thesis by (simp add: lseek_target Let_def)
next
  case False
  with assms show ?thesis by (auto simp: chardrv_lseek_def)
qed

lemma chardrv_fops_ok:
  assumes "char_file_ok s" and "call_ok c"
  shows "\<exists>r out s'. chardrv_fops c s = Inr (r, out, s') \<and> char_file_ok s'"
proof (cases s)
  case (Pair d pos)
  show ?thesis
  proof (cases c)
    case Open
    with assms Pair show ?thesis
      by (simp add: chardrv_open_def char_file_ok_def device_ok_def has_buffer_def)
  next
    case Release
    with assms Pair show ?thesis by (simp add: chardrv_release_def)
  next
    case (Lseek offset orig)
    with assms Pair lseek_in_device [of pos offset orig] show ?thesis
      by (cases "chardrv_lseek offset orig pos") (simp add: char_file_ok_def)
  qed (use assms Pair read_file_ok write_file_ok ioctl_file_ok in blast)+
qed

section \<open>Properties of the character driver\<close>

text \<open>C33: An open character device never leaves its objects. Starting from a file whose
  buffer is allocated and whose position lies in the device, every sequence of calls that
  the VFS lets through, with user copies that may fail at any byte and ioctl sizes within the
  structure, runs without a fault, and ends with the buffer and \<open>ioc_data\<close> of their original
  sizes and the position between 0 and the size of the device.\<close>

theorem char_file_safe:
  assumes "char_file_ok s" and "list_all call_ok cs"
  shows "\<exists>s'. chardrv_run cs s = Inr s' \<and> char_file_ok s'"
  using assms
proof (induction cs arbitrary: s)
  case Nil
  then show ?case by simp
next
  case (Cons c cs)
  then obtain r out s' where "chardrv_fops c s = Inr (r, out, s')" and "char_file_ok s'"
    using chardrv_fops_ok [of s c] by auto
  with Cons show ?case by simp
qed

definition sample_file :: char_file where
  "sample_file = (\<lparr>membuff = Ptr (replicate 131072 7), counter = 0, ioc_data = ioctl_image ioc_data_init\<rparr>, 0)"

lemma sample_file_ok: "char_file_ok sample_file"
  unfolding sample_file_def
  by (intro char_file_okI [where m = "replicate 131072 7"]) (simp_all add: has_buffer_def)

theorem char_file_safe_witness:
  "\<exists>s'. chardrv_run [Open, Write [1, 2, 3] 3 1, Lseek (-1) 0, Read 5 0] sample_file = Inr s' \<and>
     char_file_ok s'"
  by (rule char_file_safe [OF sample_file_ok]) (simp add: user_copy_ok_def)

text \<open>A write that fits stores what \<open>copy_from_user\<close> delivered at the file position and
  advances it by the bytes copied: the user's bytes first, zeros for the part that faulted,
  and every other byte of the device unchanged. A write that would cross the end stores
  nothing and returns 0.\<close>

theorem chardrv_write_correct:
  assumes "has_buffer d m" and "vfs_rw_ok lbuf ppos" and "user_copy_ok lbuf left"
    and "length ubuf = unat lbuf"
  shows "chardrv_write ubuf lbuf ppos left d =
    (if unat membuff_size < unat lbuf + unat ppos then Inr (0, d, ppos)
     else Inr (int (unat lbuf - unat left),
       d\<lparr>membuff := Ptr (take (unat ppos) m @
           take (unat lbuf - unat left) ubuf @ replicate (unat left) 0 @
           drop (unat ppos + unat lbuf) m)\<rparr>,
       ppos + (lbuf - left)))"
proof (cases "unat membuff_size < unat lbuf + unat ppos")
  case True
  then show ?thesis using chardrv_write_beyond [OF assms(2) True] by simp
next
  case False
  then have "chardrv_write ubuf lbuf ppos left d =
     Inr (int (unat lbuf - unat left),
          d\<lparr>membuff := Ptr (put_range (unat ppos) (copied_in lbuf left ubuf) m)\<rparr>,
          ppos + (lbuf - left))"
    by (intro chardrv_write_within [OF assms(1-3)]) simp
  with False show ?thesis
    unfolding put_range_def length_copied_in [OF assms(3,4)]
    by (simp add: copied_in_def unat_minus_left [OF assms(3)])
qed

definition sample_driver :: chardrv where
  "sample_driver = \<lparr>membuff = Ptr (replicate 131072 7), counter = 0\<rparr>"

lemma sample_driver_buffer: "has_buffer sample_driver (replicate 131072 7)"
  by (simp add: sample_driver_def has_buffer_def)

lemma vfs_rw_ok_small: "unat ppos < 2 ^ 63 \<Longrightarrow> unat lbuf \<le> MAX_RW_COUNT \<Longrightarrow> vfs_rw_ok lbuf ppos"
  using sint_small_64 [of ppos] by (simp add: vfs_rw_ok_def)

theorem chardrv_write_correct_witness:
  "chardrv_write [1, 2, 3] 3 5 1 sample_driver =
     Inr (2, sample_driver\<lparr>membuff := Ptr (replicate 5 7 @ [1, 2, 0] @ replicate 131064 7)\<rparr>, 7)"
  using chardrv_write_correct [OF sample_driver_buffer, of 3 5 1 "[1, 2, 3]"]
  by (simp add: vfs_rw_ok_small user_copy_ok_def)

text \<open>A read that fits delivers the bytes of the device at the file position, as many as
  the user copy could place, and advances the position by that number. A read that would
  cross the end delivers nothing and returns 0, even when some of its bytes exist.\<close>

theorem chardrv_read_correct:
  assumes "has_buffer d m" and "vfs_rw_ok lbuf ppos" and "user_copy_ok lbuf left"
  shows "chardrv_read lbuf ppos left d =
    (if unat membuff_size < unat lbuf + unat ppos then Inr (0, [], ppos)
     else Inr (int (unat lbuf - unat left),
       take (unat lbuf - unat left) (drop (unat ppos) m),
       ppos + (lbuf - left)))"
proof (cases "unat membuff_size < unat lbuf + unat ppos")
  case True
  then show ?thesis using chardrv_read_beyond [OF assms(2) True] by simp
next
  case False
  then show ?thesis
    using chardrv_read_within [OF assms] by (simp add: get_range_def)
qed

theorem chardrv_read_correct_witness:
  "chardrv_read 4 10 1 sample_driver = Inr (3, replicate 3 7, 13) \<and>
   chardrv_read 4 131070 0 sample_driver = Inr (0, [], 131070)"
  using chardrv_read_correct [OF sample_driver_buffer, of 4 10 1]
    chardrv_read_correct [OF sample_driver_buffer, of 4 131070 0]
  by (simp add: vfs_rw_ok_small user_copy_ok_def)

text \<open>The device keeps what is written to it. After a successful positioned write and any
  further successful writes that do not overlap it, a positioned read of the same range
  returns exactly the bytes written.\<close>

theorem chardrv_roundtrip:
  assumes "device_ok d" and "vfs_pwrite chardrv_write d p bs = Some d'"
    and "writes (vfs_pwrite chardrv_write) d' ws = Some d''" and "bs \<noteq> []"
    and "\<forall>(q, cs) \<in> set ws. apart q (length cs) p (length bs)"
  shows "vfs_pread chardrv_read d'' p (length bs) = Some bs"
  using assms by (rule chardev.write_sticks)

lemma sample_driver_pwrite:
  "has_buffer d m \<Longrightarrow> length bs \<le> MAX_RW_COUNT \<Longrightarrow> p + length bs \<le> 131072 \<Longrightarrow>
   vfs_pwrite chardrv_write d p bs = Some (d\<lparr>membuff := Ptr (put_range p bs m)\<rparr>)"
  by (simp add: chardrv_pwrite)

theorem chardrv_roundtrip_witness:
  "\<exists>d' d''. vfs_pwrite chardrv_write sample_driver 100 [1, 2, 3] = Some d' \<and>
     writes (vfs_pwrite chardrv_write) d' [(103, [4, 5]), (98, [6, 6])] = Some d'' \<and>
     vfs_pread chardrv_read d'' 100 3 = Some [1, 2, 3]"
proof -
  have ok: "device_ok sample_driver"
    using sample_driver_buffer by (auto simp: device_ok_def)
  obtain d' where d': "vfs_pwrite chardrv_write sample_driver 100 [1, 2, 3] = Some d'"
    using chardev.wr_iff [OF ok, of "[1, 2, 3]" 100] by (auto simp: device_size_def)
  from chardev.wr_ok [OF ok d'] have ok': "device_ok d'" by simp
  obtain d'' where d'': "writes (vfs_pwrite chardrv_write) d' [(103, [4, 5]), (98, [6, 6])] = Some d''"
    using chardev.writes_defined [OF ok', of "[(103, [4, 5]), (98, [6, 6])]"]
    by (auto simp: device_size_def)
  have "vfs_pread chardrv_read d'' 100 (length [1, 2, 3 :: byte]) = Some [1, 2, 3]"
    by (rule chardrv_roundtrip [OF ok d' d'']) (simp_all add: apart_def)
  moreover have "length [1, 2, 3 :: byte] = 3" by simp
  ultimately show ?thesis using d' d'' by metis
qed

text \<open>Seeking, for every one of the three modes: a target inside the device is taken as it
  is, and any other target, a negative one included, puts the position at the end of the
  device. The test that should have clamped a negative position to 0 comes after an unsigned
  comparison and never applies.\<close>

theorem chardrv_lseek_correct:
  assumes "orig \<in> {0, 1, 2}"
    and "t = (if orig = 0 then offset else if orig = 1 then f_pos + offset
              else membuff_size + offset)"
  shows "chardrv_lseek offset orig f_pos =
    (if 0 \<le> sint t \<and> sint t < 131072 then (sint t, t) else (131072, membuff_size))"
proof (cases "0 \<le> sint t")
  case True
  have u: "sint t = int (unat t)" by (rule sint_nonneg_64(1) [OF True])
  have "min t membuff_size = (if t < membuff_size then t else membuff_size)"
    by (auto simp: min_def not_less)
  then have "min t membuff_size = (if unat t < 131072 then t else membuff_size)"
    by (simp add: word_less_nat_alt)
  moreover have "sint t < 131072 \<longleftrightarrow> unat t < 131072"
    unfolding u by (rule of_nat_less_numeral_iff)
  moreover have "unat t < 131072 \<Longrightarrow> int (unat t) = sint t" and "int (unat membuff_size) = 131072"
    using u by simp_all
  ultimately show ?thesis
    unfolding lseek_target [OF assms(1)] assms(2) [symmetric] Let_def using True by auto
next
  case False
  have "\<not> unat t < 2 ^ 63" using False sint_small_64 [of t] by auto
  then have "min t membuff_size = membuff_size"
    by (simp add: min_def word_le_nat_alt)
  with False show ?thesis
    unfolding lseek_target [OF assms(1)] assms(2) [symmetric] Let_def by simp
qed

theorem chardrv_lseek_correct_witness:
  "chardrv_lseek 5 0 0 = (5, 5) \<and> chardrv_lseek (-1) 0 7 = (131072, membuff_size) \<and>
   chardrv_lseek (-10) 1 3 = (131072, membuff_size)"
  using chardrv_lseek_correct [of 0 5 5 0] chardrv_lseek_correct [of 0 "-1" "-1" 7]
    chardrv_lseek_correct [of 1 "3 + -10" "-10" 3]
  by simp

text \<open>The ioctl exchanges the structure with user space. For a command of type \<open>k\<close>
  with a direction bit and a size within the structure, what \<open>_IOC_WRITE\<close> stores is what
  \<open>_IOC_READ\<close> returns; but the size of the command word is never compared with the
  structure, so the handler leaves the object exactly when that size is over 272 bytes.\<close>

theorem chardrv_ioctl_exchange:
  assumes "length (ioc_data d) = 272" and "IOC_TYPE cmd = LDDIOC_TYPE"
    and "IOC_TYPE cmd' = LDDIOC_TYPE" and "IOC_DIR cmd = IOC_WRITE" and "IOC_DIR cmd' = IOC_READ"
    and "IOC_SIZE cmd' = IOC_SIZE cmd" and "length ubuf = unat (IOC_SIZE cmd)"
  shows "(272 < unat (IOC_SIZE cmd) \<longleftrightarrow> chardrv_unlocked_ioctl cmd ubuf 0 d = Inl OutOfBounds) \<and>
    (\<forall>d'. chardrv_unlocked_ioctl cmd ubuf 0 d = Inr (0, [], d') \<longrightarrow>
       chardrv_unlocked_ioctl cmd' [] 0 d' = Inr (0, ubuf, d'))"
proof -
  let ?n = "unat (IOC_SIZE cmd)"
  have "length (copied_in (ucast (IOC_SIZE cmd)) 0 ubuf) = ?n"
    using assms(7) by simp
  then have "?n \<le> 272 \<Longrightarrow> get_range 0 ?n (put_range 0 ubuf (ioc_data d)) = ubuf"
    using get_put_same [of 0 "ioc_data d" ubuf] assms(7) by simp
  then show ?thesis
    using assms
    by (auto simp: chardrv_unlocked_ioctl_def Let_def in_object_start split: if_splits)
qed

theorem chardrv_ioctl_exchange_witness:
  "let d = fst sample_file; w = IOC 1 107 1 3; r = IOC 2 107 1 3; big = IOC 1 107 1 300 in
   \<exists>d'. chardrv_unlocked_ioctl w [9, 8, 7] 0 d = Inr (0, [], d') \<and>
     chardrv_unlocked_ioctl r [] 0 d' = Inr (0, [9, 8, 7], d') \<and>
     chardrv_unlocked_ioctl big (replicate 300 1) 0 d = Inl OutOfBounds"
proof -
  let ?d = "fst sample_file"
  have l: "length (ioc_data ?d) = 272" by (simp add: sample_file_def)
  have "\<exists>d'. chardrv_unlocked_ioctl (IOC 1 107 1 3) [9, 8, 7] 0 ?d = Inr (0, [], d')"
    by (simp add: chardrv_unlocked_ioctl_def IOC_def IOC_TYPE_def IOC_DIR_def IOC_SIZE_def
        in_object_start sample_file_def)
  moreover have "chardrv_unlocked_ioctl (IOC 1 107 1 3) [9, 8, 7] 0 ?d = Inr (0, [], d') \<longrightarrow>
      chardrv_unlocked_ioctl (IOC 2 107 1 3) [] 0 d' = Inr (0, [9, 8, 7], d')" for d'
    using chardrv_ioctl_exchange [OF l, of "IOC 1 107 1 3" "IOC 2 107 1 3" "[9, 8, 7]"]
    by (simp add: IOC_def IOC_TYPE_def IOC_DIR_def IOC_SIZE_def)
  moreover have "chardrv_unlocked_ioctl (IOC 1 107 1 300) (replicate 300 1) 0 ?d = Inl OutOfBounds"
    using chardrv_ioctl_exchange [OF l, of "IOC 1 107 1 300" "IOC 2 107 1 300" "replicate 300 1"]
    by (simp add: IOC_def IOC_TYPE_def IOC_DIR_def IOC_SIZE_def)
  ultimately show ?thesis by (auto simp: Let_def)
qed

section \<open>Life cycle of the module\<close>

definition init_ledger ::
    "chardev_env \<Rightarrow> chardev_res ledger \<Rightarrow> int \<times> chardev_res ledger" where
  "init_ledger e k = (let (r, k, d) = chardrv_init e k in (r, k))"

interpretation lab1: module_loader
  chardev_env_ok chardrv_init_lab1 "\<lambda>e. [RDevice, RClass, RChrdev]"
proof (unfold_locales, goal_cases)
  case (1 e k)
  then show ?case
    by (auto simp: chardrv_init_lab1_def Let_def chardev_env_ok_def split: if_splits
        elim!: IS_ERR.elims)
next
  case (2 e k)
  then show ?case
    by (auto simp: chardrv_init_lab1_def Let_def split: if_splits)
qed

interpretation lab2: module_loader
  chardev_env_ok init_ledger "\<lambda>e. [RMem, RDevice, RClass, RChrdev]"
proof (unfold_locales, goal_cases)
  case (1 e k)
  then show ?case
    by (auto simp: init_ledger_def chardrv_init_def Let_def chardev_env_ok_def split: if_splits
        elim!: IS_ERR.elims)
next
  case (2 e k)
  then show ?case
    by (auto simp: init_ledger_def chardrv_init_def Let_def split: if_splits)
qed

text \<open>Loading the module unwinds every failure. Whatever the kernel answers, a load that
  reports an error leaves the ledger as it found it, and a load that reports success holds
  exactly the device number, the class, the device and the buffer, with the device ready:
  a buffer of 32 pages. No path frees anything twice.\<close>

theorem chardrv_init_unwinds:
  assumes "chardev_env_ok e" and "chardrv_init e k = (r, k', d)"
  shows "(r = 0 \<longrightarrow> held k' = [RMem, RDevice, RClass, RChrdev] @ held k \<and> device_ok d) \<and>
    (r \<noteq> 0 \<longrightarrow> k' = k \<and> r < 0) \<and> faults k' = faults k"
proof -
  have l: "init_ledger e k = (r, k')" using assms(2) by (simp add: init_ledger_def)
  have "r = 0 \<Longrightarrow> device_ok d"
    using assms
    by (auto simp: chardrv_init_def Let_def chardev_env_ok_def device_ok_def has_buffer_def
        split: if_splits elim!: IS_ERR.elims nonnull.elims)
  moreover have "r \<noteq> 0 \<Longrightarrow> r < 0"
    using assms
    by (auto simp: chardrv_init_def Let_def chardev_env_ok_def split: if_splits elim!: IS_ERR.elims)
  ultimately show ?thesis
    using lab2.load_success [OF assms(1), of k] lab2.load_failure [OF assms(1), of k]
      lab2.load_no_fault [OF assms(1), of k] by (auto simp: l)
qed

definition good_env :: chardev_env where
  "good_env = \<lparr>reg_major = 240, class_ptr = Ptr (), device_ptr = Ptr (),
     kmalloc_ptr = Ptr (replicate 131072 0)\<rparr>"

theorem chardrv_init_unwinds_witness:
  "\<exists>k d k'. chardrv_init good_env empty_ledger = (0, k, d) \<and>
     held k = [RMem, RDevice, RClass, RChrdev] \<and> faults k = [] \<and>
     chardrv_init (good_env\<lparr>kmalloc_ptr := NULL\<rparr>) empty_ledger = (-1, k', \<lparr>membuff = NULL, counter = 0\<rparr>) \<and>
     k' = empty_ledger"
proof -
  obtain r k d where i: "chardrv_init good_env empty_ledger = (r, k, d)"
    by (metis prod_cases3)
  obtain r' k' d' where i': "chardrv_init (good_env\<lparr>kmalloc_ptr := NULL\<rparr>) empty_ledger = (r', k', d')"
    by (metis prod_cases3)
  have r: "r = 0" and r': "r' = -1 \<and> d' = \<lparr>membuff = NULL, counter = 0\<rparr>"
    using i i' by (auto simp: chardrv_init_def good_env_def)
  have ok: "chardev_env_ok good_env" "chardev_env_ok (good_env\<lparr>kmalloc_ptr := NULL\<rparr>)"
    by (simp_all add: chardev_env_ok_def good_env_def)
  from chardrv_init_unwinds [OF ok(1) i] chardrv_init_unwinds [OF ok(2) i'] i i' r r'
  show ?thesis by auto
qed

text \<open>Unloading after a successful load gives back everything the load took, but it gives
  the class back twice: \<open>class_destroy\<close> unregisters a class that \<open>class_unregister\<close> has
  already removed. The ledger records exactly that one fault.\<close>

theorem chardrv_exit_double_release:
  assumes "chardev_env_ok e" and "chardrv_init e k = (0, k', d)" and "RClass \<notin> set (held k)"
  shows "held (chardrv_exit k') = held k \<and> faults (chardrv_exit k') = RClass # faults k"
proof -
  have l: "init_ledger e k = (0, k')" using assms(2) by (simp add: init_ledger_def)
  have "held k' = [RMem, RDevice, RClass, RChrdev] @ held k" and "faults k' = faults k"
    using lab2.load_success [OF assms(1), of k] by (simp_all add: l)
  with assms(3) show ?thesis
    by (simp add: chardrv_exit_def Let_def held_release faults_release remove1_idem)
qed

theorem chardrv_exit_double_release_witness:
  "\<exists>k d. chardrv_init good_env empty_ledger = (0, k, d) \<and>
     held (chardrv_exit k) = [] \<and> faults (chardrv_exit k) = [RClass]"
proof -
  obtain k d where i: "chardrv_init good_env empty_ledger = (0, k, d)"
    by (simp add: chardrv_init_def good_env_def)
  have "chardev_env_ok good_env" by (simp add: chardev_env_ok_def good_env_def)
  from chardrv_exit_double_release [OF this i] i show ?thesis by auto
qed

section \<open>The ioctl lab\<close>

text \<open>The third lab has these handlers without the seek, and the loading and unloading of the second.\<close>

(* src: char/lab3_char_ioctl.c:44-56 chardrv_open *)
definition lab3_open :: "ioctl_chardrv \<Rightarrow> int \<times> ioctl_chardrv" where
  "lab3_open = chardrv_open"

(* src: char/lab3_char_ioctl.c:58-62 chardrv_release *)
definition lab3_release :: "ioctl_chardrv \<Rightarrow> int \<times> ioctl_chardrv" where
  "lab3_release = chardrv_release"

(* src: char/lab3_char_ioctl.c:64-75 chardrv_read *)
definition lab3_read :: "size_t \<Rightarrow> loff_t \<Rightarrow> size_t \<Rightarrow> ioctl_chardrv \<Rightarrow> (int \<times> byte list \<times> loff_t) kresult" where
  "lab3_read = chardrv_read"

(* src: char/lab3_char_ioctl.c:77-89 chardrv_write *)
definition lab3_write ::
    "byte list \<Rightarrow> size_t \<Rightarrow> loff_t \<Rightarrow> size_t \<Rightarrow> ioctl_chardrv \<Rightarrow> (int \<times> ioctl_chardrv \<times> loff_t) kresult" where
  "lab3_write = chardrv_write"

(* src: char/lab3_char_ioctl.c:91-133 chardrv_unlocked_ioctl *)
definition lab3_unlocked_ioctl ::
    "c_uint \<Rightarrow> byte list \<Rightarrow> size_t \<Rightarrow> ioctl_chardrv \<Rightarrow> (int \<times> byte list \<times> ioctl_chardrv) kresult" where
  "lab3_unlocked_ioctl = chardrv_unlocked_ioctl"

(* src: char/lab3_char_ioctl.c:143-179 chardrv_init *)
definition lab3_init :: "chardev_env \<Rightarrow> chardev_res ledger \<Rightarrow> int \<times> chardev_res ledger \<times> chardrv" where
  "lab3_init = chardrv_init"

(* src: char/lab3_char_ioctl.c:181-189 chardrv_exit *)
definition lab3_exit :: "chardev_res ledger \<Rightarrow> chardev_res ledger" where
  "lab3_exit = chardrv_exit"

end
