(* ===== verification/Char_Poll.thy ===== *)
theory Char_Poll
  imports Char_Driver
begin

text \<open>
  Labs 5 and 6 of \<open>src/char\<close>: the character driver with a wait queue (readers sleep until a
  writer announces data), \<open>poll\<close>, and asynchronous notification. Tasks interleave, so the
  handlers are a step relation whose steps are the atomic pieces of the source.
\<close>

section \<open>State\<close>

text \<open>
  Where a task is: in user space, at the condition of \<open>wait_event_interruptible\<close>, asleep on
  \<open>wq\<close>, past the wait, past the reset of \<open>data_ready\<close>, or in a write after the copy, before
  \<open>wake_up_interruptible\<close>, before \<open>atomic_set\<close>. \<open>Crashed\<close>: the kernel oopsed or wrote outside an
  object in this task's call. Each task has a file of its own.
\<close>

datatype task_pc =
    User
  | RWait size_t size_t
  | RAsleep size_t size_t
  | RAwake size_t size_t
  | RCopy size_t size_t
  | WWake int
  | WSet int
  | Crashed kfault

(* src: char/lab5_char_poll.c:20-43 membuff, wq, data_ready *)
record poll_sys =
  dev :: ioctl_chardrv
  data_ready :: c_int
  task :: "nat \<Rightarrow> task_pc"
  fpos :: "nat \<Rightarrow> loff_t"
  ret :: "nat \<Rightarrow> int \<times> byte list"

text \<open>\<open>wake_up_interruptible\<close> makes every sleeper of the queue evaluate its condition again.\<close>

fun wake_pc :: "task_pc \<Rightarrow> task_pc" where
  "wake_pc (RAsleep n l) = RWait n l"
| "wake_pc pc = pc"

datatype poll_label =
    ReadCall nat size_t size_t
  | WaitTrue nat
  | WaitFalse nat
  | Signal nat
  | Reset nat
  | ReadCopy nat
  | WriteCall nat "byte list" size_t size_t
  | WriteRefused nat "byte list" size_t size_t
  | Wake nat
  | SetReady nat
  | OpenCall nat
  | ReleaseCall nat
  | Seek nat loff_t c_int
  | IoctlCall nat c_uint "byte list" size_t

section \<open>Handlers\<close>

text \<open>
  What follows the wait in the read, and what comes before the wake-up in the write: \<open>None\<close> is a
  write that does not fit and returns 0 at once.
\<close>

(* src: char/lab5_char_poll.c:75-82 chardrv_read (after the wait) *)
definition lab5_read_copy ::
    "size_t \<Rightarrow> loff_t \<Rightarrow> size_t \<Rightarrow> ioctl_chardrv \<Rightarrow> (int \<times> byte list \<times> loff_t) kresult" where
  "lab5_read_copy lbuf ppos left d =
     (if membuff_size < lbuf + ppos then Inr (0, [], ppos)
      else case kmem_load (membuff d) ppos lbuf of
             Inl f \<Rightarrow> Inl f
           | Inr src \<Rightarrow>
               let rbytes = (ucast (lbuf - left) :: c_int)
               in Inr (sint rbytes, copied_out lbuf left src, ppos + scast rbytes))"

(* src: char/lab5_char_poll.c:85-95 chardrv_write (to the wake-up) *)
definition lab5_write_copy ::
    "byte list \<Rightarrow> size_t \<Rightarrow> loff_t \<Rightarrow> size_t \<Rightarrow> ioctl_chardrv \<Rightarrow>
     (int \<times> ioctl_chardrv \<times> loff_t) option kresult" where
  "lab5_write_copy ubuf lbuf ppos left d =
     (if membuff_size < lbuf + ppos then Inr None
      else case kmem_store (membuff d) ppos lbuf (copied_in lbuf left ubuf) of
             Inl f \<Rightarrow> Inl f
           | Inr m \<Rightarrow>
               let wbytes = (ucast (lbuf - left) :: c_int)
               in Inr (Some (sint wbytes, d\<lparr>membuff := m\<rparr>, ppos + scast wbytes)))"

lemma lab5_copies:
  "lab5_read_copy n pos l d = chardrv_read n pos l d"
  "lab5_write_copy ubuf n pos l d =
     (if membuff_size < n + pos then Inr None
      else case chardrv_write ubuf n pos l d of Inl f \<Rightarrow> Inl f | Inr x \<Rightarrow> Inr (Some x))"
  by (simp_all add: lab5_read_copy_def chardrv_read_def lab5_write_copy_def chardrv_write_def Let_def
      split: sum.splits)

text \<open>The other file operations are those of the earlier labs, word for word.\<close>

(* src: char/lab5_char_poll.c:45-57 chardrv_open *)
definition lab5_open ::
    "ioctl_chardrv \<Rightarrow> int \<times> ioctl_chardrv" where
  "lab5_open = chardrv_open"

(* src: char/lab5_char_poll.c:59-63 chardrv_release *)
definition lab5_release ::
    "ioctl_chardrv \<Rightarrow> int \<times> ioctl_chardrv" where
  "lab5_release = chardrv_release"

(* src: char/lab5_char_poll.c:103-145 chardrv_unlocked_ioctl *)
definition lab5_unlocked_ioctl ::
    "c_uint \<Rightarrow> byte list \<Rightarrow> size_t \<Rightarrow> ioctl_chardrv \<Rightarrow> (int \<times> byte list \<times> ioctl_chardrv) kresult" where
  "lab5_unlocked_ioctl = chardrv_unlocked_ioctl"

(* src: char/lab5_char_poll.c:147-168 chardrv_lseek *)
definition lab5_lseek ::
    "loff_t \<Rightarrow> c_int \<Rightarrow> loff_t \<Rightarrow> int \<times> loff_t" where
  "lab5_lseek = chardrv_lseek"

section \<open>Steps\<close>

text \<open>
  \<open>wait_event_interruptible\<close> puts the task on the queue before it evaluates the condition, so
  evaluating it and falling asleep are one step. A pending signal ends the wait; the handler
  ignores the value the wait returns and goes on. A write that does not fit returns before it
  wakes anybody. A copy outside its object is a step too: the task crashes in it.
\<close>

(* src: char/lab5_char_poll.c:65-101 chardrv_read, chardrv_write *)
inductive poll_step :: "poll_sys \<Rightarrow> poll_label \<Rightarrow> poll_sys \<Rightarrow> bool" where
  read_call: "task s i = User \<Longrightarrow>
    poll_step s (ReadCall i n l) (s\<lparr>task := (task s)(i := RWait n l)\<rparr>)"
| wait_true: "task s i = RWait n l \<Longrightarrow> data_ready s \<noteq> 0 \<Longrightarrow>
    poll_step s (WaitTrue i) (s\<lparr>task := (task s)(i := RAwake n l)\<rparr>)"
| wait_false: "task s i = RWait n l \<Longrightarrow> data_ready s = 0 \<Longrightarrow>
    poll_step s (WaitFalse i) (s\<lparr>task := (task s)(i := RAsleep n l)\<rparr>)"
| signal: "task s i = RAsleep n l \<Longrightarrow>
    poll_step s (Signal i) (s\<lparr>task := (task s)(i := RAwake n l)\<rparr>)"
| reset: "task s i = RAwake n l \<Longrightarrow>
    poll_step s (Reset i) (s\<lparr>task := (task s)(i := RCopy n l), data_ready := 0\<rparr>)"
| read_copy: "task s i = RCopy n l \<Longrightarrow>
    lab5_read_copy n (fpos s i) l (dev s) = Inr (r, out, pos) \<Longrightarrow>
    poll_step s (ReadCopy i)
      (s\<lparr>task := (task s)(i := User), fpos := (fpos s)(i := pos), ret := (ret s)(i := (r, out))\<rparr>)"
| read_fault: "task s i = RCopy n l \<Longrightarrow> lab5_read_copy n (fpos s i) l (dev s) = Inl f \<Longrightarrow>
    poll_step s (ReadCopy i) (s\<lparr>task := (task s)(i := Crashed f)\<rparr>)"
| write_call: "task s i = User \<Longrightarrow>
    lab5_write_copy ubuf n (fpos s i) l (dev s) = Inr (Some (r, d, pos)) \<Longrightarrow>
    poll_step s (WriteCall i ubuf n l)
      (s\<lparr>task := (task s)(i := WWake r), dev := d, fpos := (fpos s)(i := pos)\<rparr>)"
| write_refused: "task s i = User \<Longrightarrow> lab5_write_copy ubuf n (fpos s i) l (dev s) = Inr None \<Longrightarrow>
    poll_step s (WriteRefused i ubuf n l) (s\<lparr>ret := (ret s)(i := (0, []))\<rparr>)"
| write_fault: "task s i = User \<Longrightarrow> lab5_write_copy ubuf n (fpos s i) l (dev s) = Inl f \<Longrightarrow>
    poll_step s (WriteCall i ubuf n l) (s\<lparr>task := (task s)(i := Crashed f)\<rparr>)"
| wake: "task s i = WWake r \<Longrightarrow>
    poll_step s (Wake i) (s\<lparr>task := (\<lambda>j. if j = i then WSet r else wake_pc (task s j))\<rparr>)"
| set_ready: "task s i = WSet r \<Longrightarrow>
    poll_step s (SetReady i)
      (s\<lparr>task := (task s)(i := User), data_ready := 1, ret := (ret s)(i := (r, []))\<rparr>)"
| open_call: "task s i = User \<Longrightarrow> lab5_open (dev s) = (r, d) \<Longrightarrow>
    poll_step s (OpenCall i) (s\<lparr>dev := d, fpos := (fpos s)(i := 0), ret := (ret s)(i := (r, []))\<rparr>)"
| release_call: "task s i = User \<Longrightarrow> lab5_release (dev s) = (r, d) \<Longrightarrow>
    poll_step s (ReleaseCall i) (s\<lparr>dev := d, ret := (ret s)(i := (r, []))\<rparr>)"
| seek: "task s i = User \<Longrightarrow> lab5_lseek offset orig (fpos s i) = (r, pos) \<Longrightarrow>
    poll_step s (Seek i offset orig) (s\<lparr>fpos := (fpos s)(i := pos), ret := (ret s)(i := (r, []))\<rparr>)"
| ioctl_call: "task s i = User \<Longrightarrow> lab5_unlocked_ioctl cmd ubuf l (dev s) = Inr (r, out, d) \<Longrightarrow>
    poll_step s (IoctlCall i cmd ubuf l) (s\<lparr>dev := d, ret := (ret s)(i := (r, out))\<rparr>)"
| ioctl_fault: "task s i = User \<Longrightarrow> lab5_unlocked_ioctl cmd ubuf l (dev s) = Inl f \<Longrightarrow>
    poll_step s (IoctlCall i cmd ubuf l) (s\<lparr>task := (task s)(i := Crashed f)\<rparr>)"

inductive_cases poll_stepE: "poll_step s l t"
inductive_cases wait_trueE: "poll_step s (WaitTrue i) t"
inductive_cases wait_falseE: "poll_step s (WaitFalse i) t"
inductive_simps set_ready_iff: "poll_step s (SetReady i) t"

section \<open>Poll\<close>

abbreviation (input) POLLIN :: c_uint where "POLLIN \<equiv> 1"
abbreviation (input) POLLRDNORM :: c_uint where "POLLRDNORM \<equiv> 64"

(* src: char/lab5_char_poll.c:170-177 chardrv_poll *)
definition chardrv_poll :: "poll_sys \<Rightarrow> c_uint" where
  "chardrv_poll s = (if data_ready s \<noteq> 0 then or POLLIN POLLRDNORM else 0)"

section \<open>Start and invariant\<close>

(* src: char/lab5_char_poll.c:189-228 chardrv_init *)
definition chardrv_init_poll :: "chardev_env \<Rightarrow> chardev_res ledger \<Rightarrow>
    int \<times> chardev_res ledger \<times> chardrv \<times> c_int" where
  "chardrv_init_poll e k =
     (let (r, k, d) = chardrv_init e k;
          ready = (0 :: c_int)
      in (r, k, d, ready))"

definition poll_start :: "poll_sys \<Rightarrow> bool" where
  "poll_start s \<longleftrightarrow> device_ok (dev s) \<and> length (ioc_data (dev s)) = 272 \<and> data_ready s = 0 \<and>
     (\<forall>i. task s i = User) \<and> (\<forall>i. fpos s i = 0)"

fun label_ok :: "poll_label \<Rightarrow> bool" where
  "label_ok (ReadCall i n l) \<longleftrightarrow> unat n \<le> MAX_RW_COUNT \<and> user_copy_ok n l"
| "label_ok (WriteCall i ubuf n l) \<longleftrightarrow>
     unat n \<le> MAX_RW_COUNT \<and> user_copy_ok n l \<and> length ubuf = unat n"
| "label_ok (IoctlCall i cmd ubuf l) \<longleftrightarrow> call_ok (Ioctl cmd ubuf l)"
| "label_ok _ \<longleftrightarrow> True"

fun args_ok :: "task_pc \<Rightarrow> bool" where
  "args_ok (RWait n l) \<longleftrightarrow> unat n \<le> MAX_RW_COUNT \<and> user_copy_ok n l"
| "args_ok (RAsleep n l) \<longleftrightarrow> unat n \<le> MAX_RW_COUNT \<and> user_copy_ok n l"
| "args_ok (RAwake n l) \<longleftrightarrow> unat n \<le> MAX_RW_COUNT \<and> user_copy_ok n l"
| "args_ok (RCopy n l) \<longleftrightarrow> unat n \<le> MAX_RW_COUNT \<and> user_copy_ok n l"
| "args_ok (Crashed f) \<longleftrightarrow> False"
| "args_ok _ \<longleftrightarrow> True"

lemma args_ok_wake [simp]: "args_ok (wake_pc pc) = args_ok pc"
  by (cases pc) simp_all

definition poll_inv :: "poll_sys \<Rightarrow> bool" where
  "poll_inv s \<longleftrightarrow> (\<forall>i. char_file_ok (dev s, fpos s i)) \<and> data_ready s \<in> {0, 1} \<and> (\<forall>i. args_ok (task s i))"

lemma poll_inv_args: "poll_inv s \<Longrightarrow> task s i = pc \<Longrightarrow> args_ok pc"
  by (auto simp: poll_inv_def)

lemma poll_inv_task:
  "poll_inv s \<Longrightarrow> args_ok pc \<Longrightarrow> poll_inv (s\<lparr>task := (task s)(i := pc)\<rparr>)"
  by (simp add: poll_inv_def)

definition poll_step_ok :: "poll_sys \<Rightarrow> poll_label \<Rightarrow> poll_sys \<Rightarrow> bool" where
  "poll_step_ok s l t \<longleftrightarrow> label_ok l \<and> poll_step s l t"

text \<open>The handlers, seen from the invariant: they do not fault and keep their objects.\<close>

lemma read_copy_ok:
  assumes "char_file_ok (d, pos)" and "unat n \<le> MAX_RW_COUNT" and "user_copy_ok n l"
  shows "\<exists>r out pos'. lab5_read_copy n pos l d = Inr (r, out, pos') \<and> char_file_ok (d, pos')"
proof -
  obtain r out pos' where "chardrv_fops (Read n l) (d, pos) = Inr (r, out, (d, pos'))" "char_file_ok (d, pos')"
    using read_file_ok [OF assms(1), of n l] assms(2,3) by auto
  then show ?thesis by (auto simp: lab5_copies split: sum.splits)
qed

lemma write_copy_ok:
  assumes "char_file_ok (d, pos)" and "unat n \<le> MAX_RW_COUNT" and "user_copy_ok n l" and "length ubuf = unat n"
  shows "lab5_write_copy ubuf n pos l d = Inr None \<or>
    (\<exists>r d' pos'. lab5_write_copy ubuf n pos l d = Inr (Some (r, d', pos')) \<and> char_file_ok (d', pos'))"
proof -
  obtain r d' pos' where "chardrv_fops (Write ubuf n l) (d, pos) = Inr (r, [], (d', pos'))" "char_file_ok (d', pos')"
    using write_file_ok [OF assms(1), of ubuf n l] assms(2-4) by auto
  then show ?thesis by (auto simp: lab5_copies split: sum.splits)
qed

lemma ioctl_call_ok:
  assumes "char_file_ok (d, pos)" and "call_ok (Ioctl cmd ubuf l)"
  shows "\<exists>r out d'. lab5_unlocked_ioctl cmd ubuf l d = Inr (r, out, d') \<and> char_file_ok (d', pos)"
proof -
  obtain r out s' where s: "chardrv_fops (Ioctl cmd ubuf l) (d, pos) = Inr (r, out, s')" "char_file_ok s'"
    using ioctl_file_ok [OF assms] by blast
  then show ?thesis by (auto simp: lab5_unlocked_ioctl_def split: sum.splits)
qed

lemma char_file_ok_pair:
  "char_file_ok (d, pos) \<longleftrightarrow> device_ok d \<and> length (ioc_data d) = 272 \<and> unat pos \<le> unat membuff_size"
  by (simp add: char_file_ok_def)

lemma poll_inv_file: "poll_inv s \<Longrightarrow> char_file_ok (dev s, fpos s i)"
  by (simp add: poll_inv_def)

lemma poll_inv_update:
  fixes i :: nat
  assumes "poll_inv s" and "char_file_ok (d, pos)" and "args_ok pc"
  shows "poll_inv (s\<lparr>dev := d, fpos := (fpos s)(i := pos), task := (task s)(i := pc), ret := x\<rparr>)"
  using assms by (auto simp: poll_inv_def char_file_ok_pair simp del: unat_membuff_size)

lemma poll_inv_step:
  assumes "poll_inv s" and "label_ok lab" and "poll_step s lab t"
  shows "poll_inv t"
  using assms(3)
proof (cases rule: poll_step.cases)
  case (read_copy i n l r out pos)
  have "char_file_ok (dev s, pos)"
    using read_copy_ok [OF poll_inv_file [OF assms(1)], of n l i] poll_inv_args [OF assms(1) read_copy(3)] read_copy(4)
    by auto
  with poll_inv_update [OF assms(1), where d = "dev s" and pos = pos and pc = User and i = i] read_copy show ?thesis
    by (simp add: poll_inv_def)
next
  case (read_fault i n l f)
  then show ?thesis
    using read_copy_ok [OF poll_inv_file [OF assms(1)], of n l i] poll_inv_args [OF assms(1) read_fault(3)] by auto
next
  case (write_call i ubuf n l r d pos)
  then have "char_file_ok (d, pos)"
    using write_copy_ok [OF poll_inv_file [OF assms(1)], of n l ubuf i] assms(2) by auto
  with poll_inv_update [OF assms(1), where d = d and pos = pos and pc = "WWake r" and i = i and x = "ret s"] write_call show ?thesis
    by (simp add: poll_inv_def)
next
  case (write_fault i ubuf n l f)
  then show ?thesis
    using write_copy_ok [OF poll_inv_file [OF assms(1)], of n l ubuf i] assms(2) by auto
next
  case (ioctl_call i cmd ubuf l r out d)
  then have "char_file_ok (d, fpos s j)" for j
    using ioctl_call_ok [OF poll_inv_file [OF assms(1)], of cmd ubuf l j] assms(2) by auto
  with ioctl_call assms(1) show ?thesis by (simp add: poll_inv_def)
next
  case (ioctl_fault i cmd ubuf l f)
  then show ?thesis
    using ioctl_call_ok [OF poll_inv_file [OF assms(1)], of cmd ubuf l i] assms(2) by auto
next
  case (seek i offset orig r pos)
  have "char_file_ok (dev s, pos)"
    using poll_inv_file [OF assms(1), of i] lseek_in_device [of "fpos s i" offset orig] seek(4)
    by (simp add: char_file_ok_pair lab5_lseek_def)
  with poll_inv_update [OF assms(1), where d = "dev s" and pos = pos and pc = User and i = i] seek show ?thesis
    by (simp add: fun_upd_idem)
next
  case (open_call i r d)
  have "char_file_ok (d, 0)"
    using poll_inv_file [OF assms(1), of i] open_call(4)
    by (auto simp: char_file_ok_pair lab5_open_def chardrv_open_def device_ok_def has_buffer_def)
  with poll_inv_update [OF assms(1), where d = d and pos = 0 and pc = User and i = i] open_call show ?thesis
    by (simp add: fun_upd_idem)
next
  case (release_call i r d)
  with assms(1) show ?thesis by (simp add: lab5_release_def chardrv_release_def poll_inv_def)
next
  case (read_call i n l)
  with poll_inv_task [OF assms(1), of "RWait n l" i] assms(2) show ?thesis by simp
next
  case (wait_true i n l)
  with poll_inv_task [OF assms(1), of "RAwake n l" i] poll_inv_args [OF assms(1), of i]
  show ?thesis by simp
next
  case (wait_false i n l)
  with poll_inv_task [OF assms(1), of "RAsleep n l" i] poll_inv_args [OF assms(1), of i]
  show ?thesis by simp
next
  case (signal i n l)
  with poll_inv_task [OF assms(1), of "RAwake n l" i] poll_inv_args [OF assms(1), of i]
  show ?thesis by simp
next
  case (reset i n l)
  with poll_inv_task [OF assms(1), of "RCopy n l" i] poll_inv_args [OF assms(1), of i]
  show ?thesis by (simp add: poll_inv_def)
qed (use assms(1) in \<open>simp_all add: poll_inv_def\<close>)

interpretation poll: invariant_system poll_start poll_step_ok poll_inv
proof unfold_locales
  fix s
  show "poll_start s \<Longrightarrow> poll_inv s" by (simp add: poll_start_def poll_inv_def char_file_ok_pair)
next
  fix s l t
  show "poll_inv s \<Longrightarrow> poll_step_ok s l t \<Longrightarrow> poll_inv t"
    unfolding poll_step_ok_def by (blast intro: poll_inv_step)
qed

section \<open>A sleeping reader\<close>

fun can_rouse :: "nat \<Rightarrow> poll_label \<Rightarrow> bool" where
  "can_rouse i (Wake j) \<longleftrightarrow> True"
| "can_rouse i (Signal j) \<longleftrightarrow> j = i"
| "can_rouse i _ \<longleftrightarrow> False"

lemma asleep_step:
  assumes "poll_step s lab t" and "task s i = RAsleep n l" and "\<not> can_rouse i lab"
  shows "task t i = RAsleep n l"
  using assms by (cases rule: poll_step.cases) auto

lemma asleep_run:
  assumes "run poll_step s ls t" and "task s i = RAsleep n l" and "\<forall>x \<in> set ls. \<not> can_rouse i x"
  shows "task t i = RAsleep n l"
  using assms(1,2)
  by (rule run_preserves [where P = "\<lambda>s. task s i = RAsleep n l"]) (use assms(3) asleep_step in blast)

lemma write_enabled:
  assumes "poll_inv s" and "task s i = User" and "unat n + unat (fpos s i) \<le> unat membuff_size"
    and "length ubuf = unat n"
  shows "\<exists>d pos. poll_step s (WriteCall i ubuf n 0)
     (s\<lparr>task := (task s)(i := WWake (int (unat n))), dev := d, fpos := (fpos s)(i := pos)\<rparr>)"
proof -
  note f = poll_inv_file [OF assms(1), of i]
  obtain m where m: "has_buffer (dev s) m" using f by (auto simp: char_file_ok_pair device_ok_def)
  have p: "unat (fpos s i) \<le> unat membuff_size" and n: "unat n \<le> MAX_RW_COUNT"
    using f assms(3) by (auto simp: char_file_ok_pair)
  have v: "vfs_rw_ok n (fpos s i)" by (rule char_file_vfs [OF p n])
  have "\<not> membuff_size < n + fpos s i" using assms(3) by (simp only: over_the_end [OF v] not_less)
  moreover obtain d pos where "chardrv_write ubuf n (fpos s i) 0 (dev s) = Inr (int (unat n), d, pos)"
    using chardrv_write_within [OF m v _ assms(3), of 0 ubuf] by (auto simp: user_copy_ok_def)
  ultimately have "lab5_write_copy ubuf n (fpos s i) 0 (dev s) = Inr (Some (int (unat n), d, pos))"
    by (simp add: lab5_copies)
  with assms(2) show ?thesis by (blast intro: poll_step.write_call)
qed

section \<open>Properties of the polling driver\<close>

text \<open>The wait can miss its wake-up. A write wakes the sleepers first and sets
  \<open>data_ready\<close> afterwards; a reader that re-evaluates its condition in between goes back to
  sleep. From every start state with two tasks the interleaving exists, it ends with all
  writers done, \<open>data_ready\<close> set and the reader asleep, and there the reader stays, whatever
  else runs, until another write wakes the queue or a signal reaches it.\<close>

theorem poll_lost_wakeup:
  assumes "poll_start s" and "i \<noteq> j"
  shows "\<exists>t. run poll_step s [ReadCall i 1 0, WaitFalse i, WriteCall j [b] 1 0, Wake j,
             WaitFalse i, SetReady j] t \<and>
     task t i = RAsleep 1 0 \<and> data_ready t = 1 \<and> (\<forall>k. k \<noteq> i \<longrightarrow> task t k = User) \<and>
     (\<forall>ls u. run poll_step t ls u \<longrightarrow> (\<forall>x \<in> set ls. \<not> can_rouse i x) \<longrightarrow> task u i = RAsleep 1 0)"
proof -
  have s: "data_ready s = 0" "\<And>k. task s k = User" "fpos s j = 0" "poll_inv s"
    using assms(1) poll.inv_start by (auto simp: poll_start_def)
  define s1 where "s1 = s\<lparr>task := (task s)(i := RWait 1 0)\<rparr>"
  define s2 where "s2 = s\<lparr>task := (task s)(i := RAsleep 1 0)\<rparr>"
  have 1: "poll_step s (ReadCall i 1 0) s1" unfolding s1_def by (intro poll_step.read_call s(2))
  have 2: "poll_step s1 (WaitFalse i) s2"
    using poll_step.wait_false [of s1 i 1 0] s(1) by (simp add: s1_def s2_def)
  have "poll_inv s2" unfolding s2_def by (intro poll_inv_task s(4)) (simp add: user_copy_ok_def)
  then obtain s3 where 3: "poll_step s2 (WriteCall j [b] 1 0) s3"
    and s3: "data_ready s3 = 0" "task s3 = (task s2)(j := WWake 1)"
    using write_enabled [of s2 j 1 "[b]"] assms(2) s(1-3) by (auto simp: s2_def)
  define s4 where "s4 = s3\<lparr>task := (\<lambda>k. if k = j then WSet 1 else wake_pc (task s3 k))\<rparr>"
  have 4: "poll_step s3 (Wake j) s4" unfolding s4_def by (rule poll_step.wake) (simp add: s3)
  have s4: "task s4 = (\<lambda>_. User)(i := RWait 1 0, j := WSet 1)" "data_ready s4 = 0"
    using assms(2) s(2) by (auto simp: s4_def s3 s2_def fun_eq_iff)
  define s5 where "s5 = s4\<lparr>task := (task s4)(i := RAsleep 1 0)\<rparr>"
  have 5: "poll_step s4 (WaitFalse i) s5"
    unfolding s5_def using assms(2) by (intro poll_step.wait_false) (simp_all add: s4)
  define s6 where
    "s6 = s5\<lparr>task := (task s5)(j := User), data_ready := 1, ret := (ret s5)(j := (1, []))\<rparr>"
  have 6: "poll_step s5 (SetReady j) s6"
    unfolding s6_def using assms(2) by (intro poll_step.set_ready) (simp add: s5_def s4)
  have t: "task s6 i = RAsleep 1 0" and o: "\<forall>k. k \<noteq> i \<longrightarrow> task s6 k = User" "data_ready s6 = 1"
    using assms(2) by (auto simp: s6_def s5_def s4)
  have "run poll_step s [ReadCall i 1 0, WaitFalse i, WriteCall j [b] 1 0, Wake j, WaitFalse i,
      SetReady j] s6"
    unfolding run_cons_iff run_nil_iff using 1 2 3 4 5 6 by blast
  with t o asleep_run [OF _ t] show ?thesis by blast
qed

definition sample_poll :: poll_sys where
  "sample_poll = \<lparr>dev = fst sample_file, data_ready = 0, task = (\<lambda>_. User), fpos = (\<lambda>_. 0),
     ret = (\<lambda>_. (0, []))\<rparr>"

lemma sample_poll_start: "poll_start sample_poll"
  using sample_file_ok by (simp add: sample_poll_def poll_start_def char_file_ok_def)

theorem poll_lost_wakeup_witness:
  "\<exists>t. run poll_step sample_poll [ReadCall 0 1 0, WaitFalse 0, WriteCall 1 [65] 1 0, Wake 1,
        WaitFalse 0, SetReady 1] t \<and> task t 0 = RAsleep 1 0 \<and> data_ready t = 1"
  using poll_lost_wakeup [OF sample_poll_start, of 0 1 65] by auto

text \<open>C5: The handlers stay inside their objects under every interleaving of opens, reads, writes,
  seeks, ioctls, wake-ups and signals. From a freshly loaded driver, with counts and user copies
  the VFS allows (the copies may fail at any byte) and ioctl sizes within the structure, in every
  reachable state no task has crashed in a copy outside its object, the buffer and \<open>ioc_data\<close> have
  their sizes, every file position is within the device, \<open>data_ready\<close> is 0 or 1, and a reader that
  got past its wait can finish its call.\<close>

theorem poll_reachable_safe:
  assumes "poll_start s" and "run poll_step_ok s ls t"
  shows "(\<forall>i f. task t i \<noteq> Crashed f) \<and> device_ok (dev t) \<and> length (ioc_data (dev t)) = 272 \<and>
    data_ready t \<in> {0, 1} \<and> (\<forall>i. unat (fpos t i) \<le> 131072) \<and>
    (\<forall>i n l. task t i = RCopy n l \<longrightarrow> (\<exists>u. poll_step t (ReadCopy i) u \<and> task u i = User))"
proof -
  have inv: "poll_inv t" by (rule poll.inv_reachable [OF assms])
  have "\<exists>u. poll_step t (ReadCopy i) u \<and> task u i = User" if r: "task t i = RCopy n l" for i n l
  proof -
    obtain v out pos where "lab5_read_copy n (fpos t i) l (dev t) = Inr (v, out, pos)"
      using read_copy_ok [OF poll_inv_file [OF inv], of n l i] poll_inv_args [OF inv r] by auto
    note s = poll_step.read_copy [OF r this]
    show ?thesis by (rule exI, rule conjI, rule s) simp
  qed
  moreover have "task t i \<noteq> Crashed f" for i f using poll_inv_args [OF inv, of i] by force
  ultimately show ?thesis
    using inv poll_inv_file [OF inv] by (auto simp: poll_inv_def char_file_ok_pair)
qed

theorem poll_reachable_safe_witness:
  "\<exists>t. run poll_step_ok sample_poll [ReadCall 0 4 0, WaitFalse 0, Signal 0, Reset 0] t \<and>
     task t 0 = RCopy 4 0 \<and> (\<exists>u. poll_step t (ReadCopy 0) u)"
proof -
  let ?t = "sample_poll\<lparr>task := (\<lambda>_. User)(0 := RCopy 4 0)\<rparr>"
  have r: "run poll_step_ok sample_poll [ReadCall 0 4 0, WaitFalse 0, Signal 0, Reset 0] ?t"
    by (intro run_cons [where t = "sample_poll\<lparr>task := (\<lambda>_. User)(0 := RWait 4 0)\<rparr>"]
        run_cons [where t = "sample_poll\<lparr>task := (\<lambda>_. User)(0 := RAsleep 4 0)\<rparr>"]
        run_cons [where t = "sample_poll\<lparr>task := (\<lambda>_. User)(0 := RAwake 4 0)\<rparr>"]
        run_cons [where t = ?t] run_nil)
      (simp_all add: poll_step_ok_def poll_step.simps user_copy_ok_def sample_poll_def)
  have "task ?t 0 = RCopy 4 0" by simp
  with poll_reachable_safe [OF sample_poll_start r] r show ?thesis by blast
qed

text \<open>\<open>poll\<close> tells the truth about the wait: it reports the device readable exactly when a
  reader at the condition of its wait can go on and cannot fall asleep.\<close>

theorem chardrv_poll_agrees:
  assumes "task s i = RWait n l"
  shows "(chardrv_poll s \<noteq> 0 \<longleftrightarrow> (\<exists>t. poll_step s (WaitTrue i) t)) \<and>
    (chardrv_poll s = 0 \<longleftrightarrow> (\<exists>t. poll_step s (WaitFalse i) t)) \<and>
    chardrv_poll s \<in> {0, 65}"
proof -
  have "(\<exists>t. poll_step s (WaitTrue i) t) \<longleftrightarrow> data_ready s \<noteq> 0"
    using poll_step.wait_true [OF assms] by (auto elim: wait_trueE)
  moreover have "(\<exists>t. poll_step s (WaitFalse i) t) \<longleftrightarrow> data_ready s = 0"
    using poll_step.wait_false [OF assms] by (auto elim: wait_falseE)
  ultimately show ?thesis by (simp add: chardrv_poll_def)
qed

theorem chardrv_poll_agrees_witness:
  "\<exists>t. poll_step (sample_poll\<lparr>task := (\<lambda>_. RWait 1 0), data_ready := 1\<rparr>) (WaitTrue 3) t"
  using chardrv_poll_agrees [of "sample_poll\<lparr>task := (\<lambda>_. RWait 1 0), data_ready := 1\<rparr>" 3 1 0]
  by (simp add: chardrv_poll_def)

text \<open>A signal does not interrupt a read. The handler drops the value of
  \<open>wait_event_interruptible\<close>, so a sleeping reader that a signal wakes goes on, and returns
  the buffer's bytes to its caller although no writer ever ran and \<open>data_ready\<close> was never
  set.\<close>

theorem poll_signal_reads:
  assumes "poll_start s" and "has_buffer (dev s) m" and "unat n \<le> 131072"
  shows "\<exists>t. run poll_step s [ReadCall i n 0, WaitFalse i, Signal i, Reset i, ReadCopy i] t \<and>
     ret t i = (int (unat n), take (unat n) m) \<and> data_ready t = 0"
proof -
  have s: "data_ready s = 0" "task s i = User" "fpos s i = 0"
    using assms(1) by (auto simp: poll_start_def)
  have v: "vfs_rw_ok n 0" and c: "user_copy_ok n 0"
    using assms(3) by (simp_all add: vfs_rw_ok_def user_copy_ok_def)
  have r: "chardrv_read n 0 0 (dev s) = Inr (int (unat n), take (unat n) m, n)"
    using chardrv_read_correct [OF assms(2) v c] assms(3) by simp
  define at where "at = (\<lambda>pc. s\<lparr>task := (task s)(i := pc)\<rparr>)"
  have at: "at pc = s\<lparr>task := (task s)(i := pc), data_ready := 0\<rparr>" for pc
    using s(1) by (cases s) (simp add: at_def)
  have "poll_step s (ReadCall i n 0) (at (RWait n 0))"
    unfolding at_def by (rule poll_step.read_call [OF s(2)])
  moreover have "poll_step (at (RWait n 0)) (WaitFalse i) (at (RAsleep n 0))"
    using poll_step.wait_false [of "at (RWait n 0)" i n 0] s(1) by (simp add: at_def)
  moreover have "poll_step (at (RAsleep n 0)) (Signal i) (at (RAwake n 0))"
    using poll_step.signal [of "at (RAsleep n 0)" i n 0] by (simp add: at_def)
  moreover have "poll_step (at (RAwake n 0)) (Reset i) (at (RCopy n 0))"
    using poll_step.reset [of "at (RAwake n 0)" i n 0] by (simp add: at)
  moreover have "poll_step (at (RCopy n 0)) (ReadCopy i) ((at User)\<lparr>fpos := (fpos s)(i := n),
      ret := (ret s)(i := (int (unat n), take (unat n) m))\<rparr>)"
    using poll_step.read_copy [of "at (RCopy n 0)" i n 0] r s(3) by (simp add: at_def lab5_copies)
  ultimately have "run poll_step s [ReadCall i n 0, WaitFalse i, Signal i, Reset i, ReadCopy i]
      ((at User)\<lparr>fpos := (fpos s)(i := n),
        ret := (ret s)(i := (int (unat n), take (unat n) m))\<rparr>)"
    unfolding run_cons_iff run_nil_iff by blast
  then show ?thesis
    by (rule exI [of _ "(at User)\<lparr>fpos := (fpos s)(i := n), ret := (ret s)(i := (int (unat n), take (unat n) m))\<rparr>",
        OF conjI]) (simp add: at_def s(1))
qed

theorem poll_signal_reads_witness:
  "\<exists>t. run poll_step sample_poll [ReadCall 0 2 0, WaitFalse 0, Signal 0, Reset 0, ReadCopy 0] t \<and>
     ret t 0 = (2, replicate 2 7)"
proof -
  have "has_buffer (dev sample_poll) (replicate 131072 7)"
    by (simp add: sample_poll_def sample_file_def has_buffer_def)
  from poll_signal_reads [OF sample_poll_start this, of 2 0] show ?thesis by auto
qed

section \<open>Asynchronous notification\<close>

text \<open>
  Lab 6 adds \<open>async_queue\<close>. \<open>fasync_helper\<close> (documented): with the flag off it removes the
  file and answers whether there was one; with the flag on it adds the file once, or updates
  the entry it has, and fails only when it cannot allocate. \<open>kill_fasync\<close> signals every entry.
\<close>

(* src: char/lab6_char_fasync.c:20-44 membuff, wq, data_ready, async_queue *)
record fasync_dev = chardrv +
  ready :: c_int
  sleepers :: "nat list"
  async_queue :: "nat list"

definition fasync_helper :: "int \<Rightarrow> nat \<Rightarrow> int \<Rightarrow> bool \<Rightarrow> nat list \<Rightarrow> int \<times> nat list" where
  "fasync_helper fd f mode alloc q =
     (if mode = 0 then (if f \<in> set q then (1, removeAll f q) else (0, q))
      else if f \<in> set q then (0, q)
      else if alloc then (1, f # q) else (- ENOMEM, q))"

(* src: char/lab6_char_fasync.c:183-187 chardrv_fasync *)
definition chardrv_fasync :: "int \<Rightarrow> nat \<Rightarrow> int \<Rightarrow> bool \<Rightarrow> fasync_dev \<Rightarrow> int \<times> fasync_dev" where
  "chardrv_fasync fd f mode alloc d =
     (let (r, q) = fasync_helper fd f mode alloc (async_queue d) in (r, d\<lparr>async_queue := q\<rparr>))"

(* src: char/lab6_char_fasync.c:61-66 chardrv_release *)
definition chardrv_release_lab6 :: "nat \<Rightarrow> bool \<Rightarrow> fasync_dev \<Rightarrow> int \<times> fasync_dev" where
  "chardrv_release_lab6 f alloc d = (0, snd (chardrv_fasync (-1) f 0 alloc d))"

text \<open>The write of lab 6 run without interruption: the result lists the files signalled.\<close>

(* src: char/lab6_char_fasync.c:88-105 chardrv_write *)
definition chardrv_write_lab6 ::
    "byte list \<Rightarrow> size_t \<Rightarrow> loff_t \<Rightarrow> size_t \<Rightarrow> fasync_dev \<Rightarrow>
     (int \<times> fasync_dev \<times> loff_t \<times> nat list) kresult" where
  "chardrv_write_lab6 ubuf lbuf ppos left d =
     (if membuff_size < lbuf + ppos then Inr (0, d, ppos, [])
      else case kmem_store (membuff d) ppos lbuf (copied_in lbuf left ubuf) of
             Inl f \<Rightarrow> Inl f
           | Inr m \<Rightarrow>
               let wbytes = (ucast (lbuf - left) :: c_int);
                   d = d\<lparr>membuff := m\<rparr>;
                   d = d\<lparr>sleepers := []\<rparr>;
                   d = d\<lparr>ready := 1\<rparr>
               in Inr (sint wbytes, d, ppos + scast wbytes, async_queue d))"

datatype fasync_call = SetAsync nat bool | ClearAsync nat | CloseFile nat

fun fasync_do :: "fasync_call \<Rightarrow> fasync_dev \<Rightarrow> fasync_dev" where
  "fasync_do (SetAsync f alloc) d = snd (chardrv_fasync 3 f 1 alloc d)"
| "fasync_do (ClearAsync f) d = snd (chardrv_fasync 3 f 0 True d)"
| "fasync_do (CloseFile f) d = snd (chardrv_release_lab6 f True d)"

text \<open>The specification: the set of files whose last request was a granted subscription.\<close>

fun subscribed :: "fasync_call list \<Rightarrow> nat set \<Rightarrow> nat set" where
  "subscribed [] A = A"
| "subscribed (SetAsync f alloc # cs) A = subscribed cs (if alloc then insert f A else A)"
| "subscribed (ClearAsync f # cs) A = subscribed cs (A - {f})"
| "subscribed (CloseFile f # cs) A = subscribed cs (A - {f})"

lemmas fasync_defs =
  chardrv_fasync_def fasync_helper_def chardrv_release_lab6_def

lemma fasync_calls_queue:
  "distinct (async_queue d) \<Longrightarrow>
   distinct (async_queue (fold fasync_do cs d)) \<and>
   set (async_queue (fold fasync_do cs d)) = subscribed cs (set (async_queue d))"
proof (induction cs arbitrary: d)
  case Nil
  then show ?case by simp
next
  case (Cons c cs)
  have d: "distinct (async_queue (fasync_do c d))"
    using Cons.prems by (cases c) (auto simp: fasync_defs distinct_removeAll)
  have "set (async_queue (fasync_do c d)) = subscribed [c] (set (async_queue d))"
    by (cases c) (auto simp: fasync_defs)
  then have "subscribed cs (set (async_queue (fasync_do c d))) = subscribed (c # cs) (set (async_queue d))"
    by (cases c) simp_all
  with Cons.IH [OF d] show ?case by simp
qed

text \<open>A write notifies exactly the subscribers. After any sequence of \<open>fasync\<close> calls and
  closes, a write that fits signals every file whose last request was a granted
  subscription, each once and no other, leaves no reader asleep and sets \<open>data_ready\<close>; a
  write that does not fit signals nobody.\<close>

theorem chardrv_write_notifies:
  assumes "async_queue d0 = []" and "d = fold fasync_do cs d0" and "has_buffer d m"
    and "vfs_rw_ok lbuf ppos" and "user_copy_ok lbuf left" and "length ubuf = unat lbuf"
  shows "\<exists>r d' pos sig. chardrv_write_lab6 ubuf lbuf ppos left d = Inr (r, d', pos, sig) \<and>
    (if unat membuff_size < unat lbuf + unat ppos then sig = [] \<and> d' = d
     else set sig = subscribed cs {} \<and> distinct sig \<and> sleepers d' = [] \<and> ready d' = 1)"
proof (cases "unat membuff_size < unat lbuf + unat ppos")
  case True
  then show ?thesis using assms(4) by (simp add: chardrv_write_lab6_def over_the_end)
next
  case False
  have q: "distinct (async_queue d)" "set (async_queue d) = subscribed cs {}"
    using fasync_calls_queue [of d0 cs] assms(1,2) by simp_all
  with False assms(3-6) show ?thesis
    by (simp add: chardrv_write_lab6_def over_the_end has_buffer_def kmem_store_ok Let_def)
qed

theorem chardrv_write_notifies_witness:
  "let d = fold fasync_do [SetAsync 1 True, SetAsync 2 True, CloseFile 1, SetAsync 2 True]
        \<lparr>membuff = Ptr (replicate 131072 0), counter = 0, ready = 0, sleepers = [9], async_queue = []\<rparr>
   in \<exists>r d' pos sig. chardrv_write_lab6 [5] 1 0 0 d = Inr (r, d', pos, sig) \<and> set sig = {2}"
proof -
  let ?cs = "[SetAsync 1 True, SetAsync 2 True, CloseFile 1, SetAsync 2 True]"
  let ?d = "\<lparr>membuff = Ptr (replicate 131072 0), counter = 0, ready = 0, sleepers = [9], async_queue = []\<rparr>"
  have "has_buffer (fold fasync_do ?cs ?d) (replicate 131072 0)"
    by (simp add: has_buffer_def fasync_defs)
  from chardrv_write_notifies [OF _ refl this, of 1 0 0 "[5]"] show ?thesis
    by (auto simp: vfs_rw_ok_def user_copy_ok_def Let_def)
qed

end
