(* ===== verification/Scullc.thy ===== *)
theory Scullc
  imports Char_Driver "HOL-Library.Signed_Division"
begin

text \<open>
  \<open>src/io/lab6_aio.c\<close> with \<open>src/io/scullc.h\<close>: a device whose content is a linked list of
  quantum sets, arrays of pointers to fixed-size quanta taken from a slab cache. The model
  keeps the list as a list of items (the first is the device itself), a null \<open>data\<close> pointer
  as \<open>None\<close>, and a null quantum pointer as \<open>None\<close>. Handlers take the kernel's answers in
  a record and return the fault where the source would leave its objects.
\<close>

section \<open>State\<close>

type_synonym item = "byte list option list option"

(* src: io/scullc.h:55-64 struct scullc_dev *)
record scullc_dev =
  items :: "item list"
  vmas :: c_int
  quantum :: c_int
  qset :: c_int
  dev_size :: size_t

text \<open>
  The module's parameters, which \<open>ioctl\<close> changes, and the object size \<open>scullc_cache\<close> was
  created with, which nothing changes.
\<close>

(* src: io/lab6_aio.c:37-55 scullc_qset, scullc_quantum, scullc_cache *)
record scullc_glob =
  scullc_quantum :: c_int
  scullc_qset :: c_int
  cache_object :: nat

text \<open>
  The environment of one call: a signal that interrupts the mutex, the answers of the
  allocator in order (all later ones succeed), the uninitialised bytes an allocation
  returns, and the bytes a user copy leaves.
\<close>

record scullc_env =
  intr :: bool
  allocs :: "bool list"
  junk :: "byte list"
  left :: size_t

fun next_alloc :: "bool list \<Rightarrow> bool \<times> bool list" where
  "next_alloc [] = (True, [])"
| "next_alloc (b # bs) = (b, bs)"

section \<open>Following the list\<close>

text \<open>
  Item \<open>n\<close> of the list, extending the list as far as needed. The source clears the new item
  before it looks whether the allocation succeeded.
\<close>

(* src: io/lab6_aio.c:149-160 scullc_follow *)
fun scullc_follow :: "nat \<Rightarrow> bool list \<Rightarrow> item list \<Rightarrow> (item list \<times> bool list) kresult" where
  "scullc_follow 0 mem its = Inr (its, mem)"
| "scullc_follow (Suc n) mem [] = Inl NullDeref"
| "scullc_follow (Suc n) mem [it] =
     (case next_alloc mem of
        (False, _) \<Rightarrow> Inl NullDeref
      | (True, mem) \<Rightarrow>
          (case scullc_follow n mem [None] of
             Inl f \<Rightarrow> Inl f | Inr (its, mem) \<Rightarrow> Inr (it # its, mem)))"
| "scullc_follow (Suc n) mem (it # jt # its) =
     (case scullc_follow n mem (jt # its) of
        Inl f \<Rightarrow> Inl f | Inr (its, mem) \<Rightarrow> Inr (it # its, mem))"

text \<open>
  The position of a byte: list item, index in the quantum set, offset in the quantum. The
  product is a wrapping \<open>int\<close>, the divisions truncate, and the item number is cut to an
  \<open>int\<close>; a negative one would count \<open>n--\<close> down past the least \<open>int\<close>.
\<close>

(* src: io/lab6_aio.c:171-186 itemsize, item, rest, s_pos, q_pos *)
definition locate :: "scullc_dev \<Rightarrow> loff_t \<Rightarrow> (nat \<times> int \<times> int) kresult" where
  "locate dev f_pos =
     (let itemsize = sint (quantum dev * qset dev)
      in if itemsize = 0 then Inl DivByZero
      else
        let item = sint (word_of_int (sint f_pos sdiv itemsize) :: c_int);
            rest = sint (word_of_int (sint f_pos smod itemsize) :: c_int);
            s_pos = rest sdiv sint (quantum dev);
            q_pos = rest smod sint (quantum dev)
        in if item < 0 then Inl Overflow else Inr (nat item, s_pos, q_pos))"

text \<open>\<open>quantum - q_pos\<close> as the source compares it: an \<open>int\<close>, converted to \<open>size_t\<close>.\<close>

definition quantum_room :: "scullc_dev \<Rightarrow> int \<Rightarrow> size_t" where
  "quantum_room dev q_pos = scast (quantum dev - word_of_int q_pos :: c_int)"

lemma quantum_room_items [simp]: "quantum_room (dev\<lparr>items := its\<rparr>) q = quantum_room dev q"
  by (simp add: quantum_room_def)

section \<open>Read and write\<close>

text \<open>
  \<open>memcpy\<close> returns its destination, which is never null, so the asynchronous branch always
  takes the error exit, after the bytes were copied.
\<close>

(* src: io/lab6_aio.c:166-217 scullc_do_read *)
definition scullc_do_read ::
    "scullc_env \<Rightarrow> scullc_dev \<Rightarrow> size_t \<Rightarrow> loff_t \<Rightarrow> bool \<Rightarrow>
     (int \<times> byte list \<times> loff_t \<times> scullc_dev) kresult" where
  "scullc_do_read e dev count f_pos aio =
     (if intr e then Inr (- ERESTARTSYS, [], f_pos, dev)
      else if dev_size dev < f_pos then Inr (0, [], f_pos, dev)
      else
        let count = (if dev_size dev < f_pos + count then dev_size dev - f_pos else count)
        in case locate dev f_pos of
             Inl f \<Rightarrow> Inl f
           | Inr (item, s_pos, q_pos) \<Rightarrow>
        (case scullc_follow item (allocs e) (items dev) of
             Inl f \<Rightarrow> Inl f
           | Inr (its, mem) \<Rightarrow>
        (let dev = dev\<lparr>items := its\<rparr>
         in case its ! item of
             None \<Rightarrow> Inr (0, [], f_pos, dev)
           | Some data \<Rightarrow>
         (if \<not> (0 \<le> s_pos \<and> nat s_pos < length data) then Inl OutOfBounds
          else case data ! nat s_pos of
             None \<Rightarrow> Inr (0, [], f_pos, dev)
           | Some buf \<Rightarrow>
          (let room = quantum_room dev q_pos;
               count = (if room < count then room else count)
           in if \<not> (0 \<le> q_pos \<and> nat q_pos + unat count \<le> length buf) then Inl OutOfBounds
           else
             let src = get_range (nat q_pos) (unat count) buf
             in if aio then Inr (- EFAULT, src, f_pos, dev)
             else if left e \<noteq> 0 then Inr (- EFAULT, copied_out count (left e) src, f_pos, dev)
             else Inr (sint count, src, f_pos + count, dev))))))"

text \<open>
  A quantum set is a fresh array of null pointers. A quantum is an object of the cache, of
  which the source clears \<open>scullc_quantum\<close> bytes, the global parameter.
\<close>

(* src: io/lab6_aio.c:247-252 dptr->data *)
definition need_data :: "scullc_dev \<Rightarrow> bool list \<Rightarrow> item \<Rightarrow> byte list option list option \<times> bool list" where
  "need_data dev mem it =
     (case it of
        Some data \<Rightarrow> (Some data, mem)
      | None \<Rightarrow>
          let (ok, mem) = next_alloc mem
          in (if ok \<and> 0 \<le> sint (qset dev) then Some (replicate (nat (sint (qset dev))) None)
              else None, mem))"

(* src: io/lab6_aio.c:253-259 dptr->data[s_pos] *)
definition need_quantum ::
    "scullc_env \<Rightarrow> scullc_glob \<Rightarrow> bool list \<Rightarrow> byte list option \<Rightarrow> byte list option kresult" where
  "need_quantum e g mem q =
     (case q of
        Some buf \<Rightarrow> Inr (Some buf)
      | None \<Rightarrow>
          if \<not> fst (next_alloc mem) then Inr None
          else if \<not> (0 \<le> sint (scullc_quantum g) \<and> nat (sint (scullc_quantum g)) \<le> cache_object g)
          then Inl OutOfBounds
          else Inr (Some (put_range 0 (replicate (nat (sint (scullc_quantum g))) 0)
                 (take (cache_object g) (junk e @ replicate (cache_object g) 0)))))"

(* src: io/lab6_aio.c:226-284 scullc_do_write *)
definition scullc_do_write ::
    "scullc_env \<Rightarrow> scullc_glob \<Rightarrow> scullc_dev \<Rightarrow> byte list \<Rightarrow> size_t \<Rightarrow> loff_t \<Rightarrow> bool \<Rightarrow>
     (int \<times> loff_t \<times> scullc_dev) kresult" where
  "scullc_do_write e g dev buf count f_pos aio =
     (if intr e then Inr (- ERESTARTSYS, f_pos, dev)
      else case locate dev f_pos of
             Inl f \<Rightarrow> Inl f
           | Inr (item, s_pos, q_pos) \<Rightarrow>
        (case scullc_follow item (allocs e) (items dev) of
             Inl f \<Rightarrow> Inl f
           | Inr (its, mem) \<Rightarrow>
        (case need_data dev mem (its ! item) of
             (None, mem) \<Rightarrow> Inr (- ENOMEM, f_pos, dev\<lparr>items := its\<rparr>)
           | (Some data, mem) \<Rightarrow>
         (if \<not> (0 \<le> s_pos \<and> nat s_pos < length data) then Inl OutOfBounds
          else case need_quantum e g mem (data ! nat s_pos) of
             Inl f \<Rightarrow> Inl f
           | Inr None \<Rightarrow> Inr (- ENOMEM, f_pos, dev\<lparr>items := its[item := Some data]\<rparr>)
           | Inr (Some obj) \<Rightarrow>
          (let room = quantum_room dev q_pos;
               count = (if room < count then room else count)
           in if \<not> (0 \<le> q_pos \<and> nat q_pos + unat count \<le> length obj) then Inl OutOfBounds
           else
             let left = (if aio then 0 else left e);
                 obj = put_range (nat q_pos) (copied_in count left (take (unat count) buf)) obj;
                 dev = dev\<lparr>items := its[item := Some (data[nat s_pos := Some obj])]\<rparr>
             in if aio \<or> left \<noteq> 0 then Inr (- EFAULT, f_pos, dev)
             else
               let f_pos = f_pos + count;
                   dev = (if dev_size dev < f_pos then dev\<lparr>dev_size := f_pos\<rparr> else dev)
               in Inr (sint count, f_pos, dev))))))"

(* src: io/lab6_aio.c:219-223 scullc_read *)
definition scullc_read where
  "scullc_read e dev count f_pos = scullc_do_read e dev count f_pos False"

(* src: io/lab6_aio.c:287-291 scullc_write *)
definition scullc_write where
  "scullc_write e g dev buf count f_pos = scullc_do_write e g dev buf count f_pos False"

section \<open>Trim and open\<close>

text \<open>
  \<open>scullc_trim\<close> also lists the quanta it gives back to the cache. The device's own \<open>qset\<close>
  bounds the scan of every array.
\<close>

definition freed_quanta :: "nat \<Rightarrow> item list \<Rightarrow> byte list list" where
  "freed_quanta n its =
     concat (map (\<lambda>it. case it of None \<Rightarrow> [] | Some data \<Rightarrow> map the (filter (\<lambda>q. q \<noteq> None) (take n data))) its)"

(* src: io/lab6_aio.c:519-545 scullc_trim *)
definition scullc_trim ::
    "scullc_glob \<Rightarrow> scullc_dev \<Rightarrow> (int \<times> byte list list \<times> scullc_dev) kresult" where
  "scullc_trim g dev =
     (if vmas dev \<noteq> 0 then Inr (- EBUSY, [], dev)
      else
        let n = nat (sint (qset dev))
        in if \<not> list_all (\<lambda>it. case it of None \<Rightarrow> True | Some data \<Rightarrow> n \<le> length data) (items dev)
        then Inl OutOfBounds
        else Inr (0, freed_quanta n (items dev),
               dev\<lparr>items := [None], dev_size := 0, qset := scullc_qset g,
                   quantum := scullc_quantum g\<rparr>))"

abbreviation (input) O_ACCMODE :: c_uint where "O_ACCMODE \<equiv> 3"
abbreviation (input) O_WRONLY :: c_uint where "O_WRONLY \<equiv> 1"

(* src: io/lab6_aio.c:120-139 scullc_open *)
definition scullc_open ::
    "scullc_env \<Rightarrow> scullc_glob \<Rightarrow> c_uint \<Rightarrow> scullc_dev \<Rightarrow> (int \<times> scullc_dev) kresult" where
  "scullc_open e g f_flags dev =
     (if and f_flags O_ACCMODE = O_WRONLY then
        (if intr e then Inr (- ERESTARTSYS, dev)
         else case scullc_trim g dev of
                Inl f \<Rightarrow> Inl f
              | Inr (_, _, dev) \<Rightarrow> Inr (0, dev))
      else Inr (0, dev))"

section \<open>Ioctl\<close>

abbreviation (input) SCULLC_IOC_MAGIC :: c_uint where "SCULLC_IOC_MAGIC \<equiv> 75" \<comment> \<open>the character K\<close>
abbreviation (input) SCULLC_QUANTUM :: c_int where "SCULLC_QUANTUM \<equiv> 4000"
abbreviation (input) SCULLC_QSET :: c_int where "SCULLC_QSET \<equiv> 500"

datatype scullc_cmd =
    IOCRESET
  | IOCSQUANTUM | IOCTQUANTUM | IOCGQUANTUM | IOCQQUANTUM | IOCXQUANTUM | IOCHQUANTUM
  | IOCSQSET | IOCTQSET | IOCGQSET | IOCQQSET | IOCXQSET | IOCHQSET

text \<open>The command words: \<open>_IO\<close> has no direction, \<open>_IOW\<close> 1, \<open>_IOR\<close> 2, \<open>_IOWR\<close> 3; the size is an \<open>int\<close>.\<close>

(* src: io/scullc.h:94-119 SCULLC_IOCRESET .. SCULLC_IOCHQSET *)
fun cmd_word :: "scullc_cmd \<Rightarrow> c_uint" where
  "cmd_word IOCRESET = IOC 0 SCULLC_IOC_MAGIC 0 0"
| "cmd_word IOCSQUANTUM = IOC 1 SCULLC_IOC_MAGIC 1 4"
| "cmd_word IOCTQUANTUM = IOC 0 SCULLC_IOC_MAGIC 2 0"
| "cmd_word IOCGQUANTUM = IOC 2 SCULLC_IOC_MAGIC 3 4"
| "cmd_word IOCQQUANTUM = IOC 0 SCULLC_IOC_MAGIC 4 0"
| "cmd_word IOCXQUANTUM = IOC 3 SCULLC_IOC_MAGIC 5 4"
| "cmd_word IOCHQUANTUM = IOC 0 SCULLC_IOC_MAGIC 6 0"
| "cmd_word IOCSQSET = IOC 1 SCULLC_IOC_MAGIC 7 4"
| "cmd_word IOCTQSET = IOC 0 SCULLC_IOC_MAGIC 8 0"
| "cmd_word IOCGQSET = IOC 2 SCULLC_IOC_MAGIC 9 4"
| "cmd_word IOCQQSET = IOC 0 SCULLC_IOC_MAGIC 10 0"
| "cmd_word IOCXQSET = IOC 3 SCULLC_IOC_MAGIC 11 4"
| "cmd_word IOCHQSET = IOC 0 SCULLC_IOC_MAGIC 12 0"

definition all_cmds :: "scullc_cmd list" where
  "all_cmds = [IOCRESET, IOCSQUANTUM, IOCTQUANTUM, IOCGQUANTUM, IOCQQUANTUM, IOCXQUANTUM,
     IOCHQUANTUM, IOCSQSET, IOCTQSET, IOCGQSET, IOCQQSET, IOCXQSET, IOCHQSET]"

text \<open>
  The user's \<open>int\<close> at \<open>arg\<close>: \<open>uget\<close> is what \<open>__get_user\<close> reads (\<open>None\<close> when it faults, and
  then it stores 0, as documented), \<open>uput\<close> whether \<open>__put_user\<close> succeeds. The result carries
  the status and the value written to the user.
\<close>

definition get_user :: "c_int option \<Rightarrow> int \<times> c_int" where
  "get_user u = (case u of None \<Rightarrow> (- EFAULT, 0) | Some v \<Rightarrow> (0, v))"

definition put_user :: "bool \<Rightarrow> c_int \<Rightarrow> int \<times> c_int option" where
  "put_user ok v = (if ok then (0, Some v) else (- EFAULT, None))"

(* src: io/lab6_aio.c:322-385 scullc_ioctl *)
fun ioctl_switch ::
    "scullc_cmd \<Rightarrow> c_long \<Rightarrow> c_int option \<Rightarrow> bool \<Rightarrow> scullc_glob \<Rightarrow> int \<times> c_int option \<times> scullc_glob" where
  "ioctl_switch IOCRESET arg uget uput g =
     (0, None, g\<lparr>scullc_qset := SCULLC_QSET, scullc_quantum := SCULLC_QUANTUM\<rparr>)"
| "ioctl_switch IOCSQUANTUM arg uget uput g =
     (let (ret, v) = get_user uget in (ret, None, g\<lparr>scullc_quantum := v\<rparr>))"
| "ioctl_switch IOCTQUANTUM arg uget uput g = (0, None, g\<lparr>scullc_quantum := ucast arg\<rparr>)"
| "ioctl_switch IOCGQUANTUM arg uget uput g =
     (let (ret, out) = put_user uput (scullc_quantum g) in (ret, out, g))"
| "ioctl_switch IOCQQUANTUM arg uget uput g = (sint (scullc_quantum g), None, g)"
| "ioctl_switch IOCXQUANTUM arg uget uput g =
     (let tmp = scullc_quantum g; (ret, v) = get_user uget; g = g\<lparr>scullc_quantum := v\<rparr>
      in if ret = 0 then (let (ret, out) = put_user uput tmp in (ret, out, g))
         else (ret, None, g))"
| "ioctl_switch IOCHQUANTUM arg uget uput g =
     (sint (scullc_quantum g), None, g\<lparr>scullc_quantum := ucast arg\<rparr>)"
| "ioctl_switch IOCSQSET arg uget uput g =
     (let (ret, v) = get_user uget in (ret, None, g\<lparr>scullc_qset := v\<rparr>))"
| "ioctl_switch IOCTQSET arg uget uput g = (0, None, g\<lparr>scullc_qset := ucast arg\<rparr>)"
| "ioctl_switch IOCGQSET arg uget uput g =
     (let (ret, out) = put_user uput (scullc_qset g) in (ret, out, g))"
| "ioctl_switch IOCQQSET arg uget uput g = (sint (scullc_qset g), None, g)"
| "ioctl_switch IOCXQSET arg uget uput g =
     (let tmp = scullc_qset g; (ret, v) = get_user uget; g = g\<lparr>scullc_qset := v\<rparr>
      in if ret = 0 then (let (ret, out) = put_user uput tmp in (ret, out, g))
         else (ret, None, g))"
| "ioctl_switch IOCHQSET arg uget uput g =
     (sint (scullc_qset g), None, g\<lparr>scullc_qset := ucast arg\<rparr>)"

(* src: io/lab6_aio.c:297-388 scullc_ioctl *)
definition scullc_ioctl ::
    "c_uint \<Rightarrow> c_long \<Rightarrow> c_int option \<Rightarrow> bool \<Rightarrow> scullc_glob \<Rightarrow> int \<times> c_int option \<times> scullc_glob" where
  "scullc_ioctl cmd arg uget uput g =
     (if IOC_TYPE cmd \<noteq> SCULLC_IOC_MAGIC then (- ENOTTY, None, g)
      else if 12 < IOC_NR cmd then (- ENOTTY, None, g)
      else case find (\<lambda>c. cmd_word c = cmd) all_cmds of
             Some c \<Rightarrow> ioctl_switch c arg uget uput g
           | None \<Rightarrow> (- ENOTTY, None, g))"

section \<open>Seeking\<close>

(* src: io/lab6_aio.c:394-418 scullc_llseek *)
definition scullc_llseek :: "scullc_dev \<Rightarrow> loff_t \<Rightarrow> c_int \<Rightarrow> loff_t \<Rightarrow> int \<times> loff_t" where
  "scullc_llseek dev off whence f_pos =
     (if whence = 0 \<or> whence = 1 \<or> whence = 2 then
        let newpos = (if whence = 0 then off else if whence = 1 then f_pos + off
                      else dev_size dev + off)
        in if sint newpos < 0 then (- EINVAL, f_pos) else (sint newpos, newpos)
      else (- EINVAL, f_pos))"

section \<open>Asynchronous entry points\<close>

text \<open>
  \<open>scullc_defer_op\<close> copies through a kernel buffer of \<open>tot\<close> bytes, which holds \<open>heap\<close> when it
  comes from the allocator. \<open>copy_from_iter\<close> copies \<open>got\<close> bytes of the user's data;
  \<open>to_iter n\<close> is how many bytes \<open>copy_to_iter\<close> copies when it is asked for \<open>n\<close>, never more than
  the iterator has room for. Both counts pass through an \<open>int\<close>. The result is the value for the
  caller, completed now or queued.
\<close>

datatype completion = Now int | Queued int

record defer_env = scullc_env +
  heap :: "byte list"
  buf_ok :: bool
  stuff_ok :: bool
  got :: nat
  to_iter :: "size_t \<Rightarrow> nat"

definition overlay :: "byte list \<Rightarrow> byte list \<Rightarrow> byte list" where
  "overlay front below = front @ drop (length front) below"

definition int_count :: "nat \<Rightarrow> size_t" where
  "int_count n = scast (of_nat n :: c_int)"

(* src: io/lab6_aio.c:442-487 scullc_defer_op *)
definition scullc_defer_op ::
    "bool \<Rightarrow> bool \<Rightarrow> defer_env \<Rightarrow> scullc_glob \<Rightarrow> byte list \<Rightarrow> nat \<Rightarrow> loff_t \<Rightarrow> scullc_dev \<Rightarrow>
     (completion \<times> byte list \<times> loff_t \<times> scullc_dev) kresult" where
  "scullc_defer_op wr sync e g udata tot ki_pos dev =
     (if \<not> buf_ok e then Inr (Now (- ENOMEM), [], ki_pos, dev)
      else
        let se = scullc_env.truncate e
        in case (if wr then
             (case scullc_do_write se g dev (overlay (take (got e) udata) (heap e))
                     (int_count (got e)) ki_pos True of
                Inl f \<Rightarrow> Inl f
              | Inr (r, pos, dev) \<Rightarrow> Inr (r, [], pos, dev))
           else
             (case scullc_do_read se dev (of_nat tot) ki_pos True of
                Inl f \<Rightarrow> Inl f
              | Inr (r, out, pos, dev) \<Rightarrow>
                  let n = min (to_iter e (word_of_int r)) tot
                  in Inr (int n, take n (overlay out (heap e)), pos, dev))) of
             Inl f \<Rightarrow> Inl f
           | Inr (result, out, pos, dev) \<Rightarrow>
               Inr (if sync then Now result
                    else if \<not> stuff_ok e then Now result
                    else Queued result, out, pos, dev))"

(* src: io/lab6_aio.c:434-439 scullc_do_deferred_op *)
fun scullc_do_deferred_op :: "completion \<Rightarrow> int option" where
  "scullc_do_deferred_op (Queued result) = Some result"
| "scullc_do_deferred_op (Now _) = None"

text \<open>What the submitter sees at once.\<close>

fun submitted :: "completion \<Rightarrow> int" where
  "submitted (Now r) = r"
| "submitted (Queued _) = - EIOCBQUEUED"

(* src: io/lab6_aio.c:490-493 scullc_read_iter *)
definition scullc_read_iter where
  "scullc_read_iter sync e g = scullc_defer_op False sync e g []"

(* src: io/lab6_aio.c:495-498 scullc_write_iter *)
definition scullc_write_iter where
  "scullc_write_iter sync e g udata = scullc_defer_op True sync e g udata"

section \<open>Well-formed devices\<close>

text \<open>
  The geometry of a device in numbers: \<open>Q\<close> bytes per quantum, \<open>S\<close> quanta per item. It is
  steady while the module's parameters are the ones the cache was created with.
\<close>

definition qz :: "scullc_dev \<Rightarrow> nat" where "qz dev = nat (sint (quantum dev))"
definition sz :: "scullc_dev \<Rightarrow> nat" where "sz dev = nat (sint (qset dev))"

definition item_ok :: "nat \<Rightarrow> nat \<Rightarrow> item \<Rightarrow> bool" where
  "item_ok n obj it \<longleftrightarrow>
     (\<forall>data. it = Some data \<longrightarrow> length data = n \<and> (\<forall>buf. Some buf \<in> set data \<longrightarrow> length buf = obj))"

definition geometry :: "scullc_glob \<Rightarrow> scullc_dev \<Rightarrow> bool" where
  "geometry g dev \<longleftrightarrow> 0 < qz dev \<and> 0 < sz dev \<and> qz dev * sz dev < 2 ^ 31 \<and>
     cache_object g = qz dev \<and> scullc_quantum g = quantum dev"

definition wf_dev :: "scullc_glob \<Rightarrow> scullc_dev \<Rightarrow> bool" where
  "wf_dev g dev \<longleftrightarrow> geometry g dev \<and> items dev \<noteq> [] \<and> list_all (item_ok (sz dev) (qz dev)) (items dev)"

definition pos_ok :: "scullc_dev \<Rightarrow> loff_t \<Rightarrow> bool" where
  "pos_ok dev p \<longleftrightarrow> 0 \<le> sint p \<and> unat p div (qz dev * sz dev) < 2 ^ 31"

lemma sdiv_nat: "int a sdiv int b = int (a div b)"
  by (simp add: signed_divide_int_def zdiv_int sgn_if)

lemma smod_nat: "int a smod int b = int (a mod b)"
  by (simp add: signed_modulo_int_def zmod_int sgn_if)

lemma sint_of_nat_32: "n < 2 ^ 31 \<Longrightarrow> sint (word_of_int (int n) :: c_int) = int n"
proof -
  assume n: "n < 2 ^ 31"
  have "sint (word_of_int (int n) :: c_int) = signed_take_bit 31 (int n)"
    by (simp only: signed_of_int) simp
  also have "int n < 2 ^ 31" using n by (simp only: of_nat_less_numeral_power_cancel_iff)
  then have "signed_take_bit 31 (int n) = int n"
    by (intro signed_take_bit_int_eq_self) (simp_all add: order_trans [where y = 0])
  finally show ?thesis .
qed

lemma geometry_ints:
  assumes "geometry g dev"
  shows "sint (quantum dev) = int (qz dev)" and "sint (qset dev) = int (sz dev)"
    and "sint (quantum dev * qset dev) = int (qz dev * sz dev)"
proof -
  show q: "sint (quantum dev) = int (qz dev)" and s: "sint (qset dev) = int (sz dev)"
    using assms by (auto simp: geometry_def qz_def sz_def)
  have "sint (quantum dev * qset dev) = signed_take_bit 31 (sint (quantum dev) * sint (qset dev))"
    by (simp add: sint_word_ariths)
  also have "\<dots> = signed_take_bit 31 (int (qz dev * sz dev))"
    by (simp add: q s)
  also have "\<dots> = int (qz dev * sz dev)"
  proof (rule signed_take_bit_int_eq_self)
    have "int (qz dev * sz dev) < int (2 ^ 31)"
      using assms by (simp only: geometry_def of_nat_less_iff)
    then show "int (qz dev * sz dev) < 2 ^ 31" by simp
  qed (simp add: order_trans [where y = 0])
  finally show "sint (quantum dev * qset dev) = int (qz dev * sz dev)" .
qed

lemma locate_wf:
  assumes "geometry g dev" and "pos_ok dev f_pos"
  shows "locate dev f_pos =
    Inr (unat f_pos div qz dev div sz dev, int (unat f_pos div qz dev mod sz dev),
         int (unat f_pos mod qz dev))"
proof -
  let ?n = "qz dev * sz dev" and ?p = "unat f_pos"
  have n: "0 < ?n" "?n < 2 ^ 31" using assms(1) by (auto simp: geometry_def)
  have f: "sint f_pos = int ?p" using assms(2) sint_nonneg_64(1) by (simp add: pos_ok_def)
  have "?p mod ?n < 2 ^ 31" using n by (metis mod_less_divisor less_trans)
  then have r: "sint (word_of_int (sint f_pos smod int ?n) :: c_int) = int (?p mod ?n)"
    unfolding f smod_nat by (rule sint_of_nat_32)
  have i: "sint (word_of_int (sint f_pos sdiv int ?n) :: c_int) = int (?p div ?n)"
    unfolding f sdiv_nat using assms(2) by (intro sint_of_nat_32) (simp add: pos_ok_def)
  have q: "?p mod ?n mod qz dev = ?p mod qz dev" by (simp add: mod_mod_cancel)
  have d: "?p mod ?n div qz dev = ?p div qz dev mod sz dev"
    using n by (simp add: mod_mult2_eq)
  have "int ?n \<noteq> 0" using n by linarith
  then show ?thesis
    unfolding locate_def Let_def geometry_ints [OF assms(1)] r i sdiv_nat smod_nat q d
    by (simp add: div_mult2_eq)
qed

lemma quantum_room_wf:
  assumes "geometry g dev" and "q < qz dev"
  shows "unat (quantum_room dev (int q)) = qz dev - q"
proof -
  have b: "qz dev < 2 ^ 31"
    using assms(1) by (auto simp: geometry_def intro: le_less_trans [of _ "qz dev * sz dev"])
  have "quantum dev = word_of_int (int (qz dev))"
    using geometry_ints(1) [OF assms(1)] by (metis of_int_sint scast_id)
  then have "quantum dev - word_of_int (int q) = word_of_int (int (qz dev) - int q)"
    by simp
  also have "\<dots> = (word_of_int (int (qz dev - q)) :: c_int)" using assms(2) by (simp add: of_nat_diff)
  finally have w: "quantum dev - word_of_int (int q) = (word_of_int (int (qz dev - q)) :: c_int)" .
  have "sint (word_of_int (int (qz dev - q)) :: c_int) = int (qz dev - q)"
    using b by (intro sint_of_nat_32) simp
  then have "quantum_room dev (int q) = word_of_int (int (qz dev - q))"
    unfolding quantum_room_def w by (simp add: scast_eq)
  then show ?thesis using b by simp
qed

lemma next_alloc_succeeds:
  "\<forall>b \<in> set mem. b \<Longrightarrow> \<exists>mem'. next_alloc mem = (True, mem') \<and> (\<forall>b \<in> set mem'. b)"
  by (cases mem) auto

lemma follow_extend:
  assumes "its \<noteq> []" and "\<forall>b \<in> set mem. b"
  shows "\<exists>mem'. (\<forall>b \<in> set mem'. b) \<and>
     scullc_follow n mem its = Inr (its @ replicate (Suc n - length its) None, mem')"
  using assms
proof (induction n arbitrary: mem its)
  case 0
  then show ?case by (cases its) auto
next
  case (Suc n)
  from Suc.prems(1) obtain it its' where its: "its = it # its'" by (cases its) auto
  show ?case
  proof (cases its')
    case Nil
    from next_alloc_succeeds [OF Suc.prems(2)] obtain mem1 where
      m: "next_alloc mem = (True, mem1)" and m1: "\<forall>b \<in> set mem1. b" by blast
    from Suc.IH [OF _ m1, of "[None]"] obtain mem' where
      "\<forall>b \<in> set mem'. b" and "scullc_follow n mem1 [None] = Inr ([None] @ replicate n None, mem')"
      by auto
    then show ?thesis by (simp add: its Nil m)
  next
    case (Cons jt its'')
    from Suc.IH [OF _ Suc.prems(2), of "jt # its''"] obtain mem' where
      "\<forall>b \<in> set mem'. b" and
      "scullc_follow n mem (jt # its'') =
         Inr ((jt # its'') @ replicate (Suc n - length (jt # its'')) None, mem')"
      by blast
    then show ?thesis by (simp add: its Cons)
  qed
qed

text \<open>
  The content of a device, byte by byte: quantum number \<open>j\<close> is quantum \<open>j mod S\<close> of item
  \<open>j div S\<close>, and what was never written reads as zero.
\<close>

definition quantum_no :: "nat \<Rightarrow> item list \<Rightarrow> nat \<Rightarrow> byte list option" where
  "quantum_no s its j =
     (if j div s < length its
      then (case its ! (j div s) of None \<Rightarrow> None | Some data \<Rightarrow> data ! (j mod s)) else None)"

definition dev_byte :: "scullc_dev \<Rightarrow> nat \<Rightarrow> byte" where
  "dev_byte dev k =
     (case quantum_no (sz dev) (items dev) (k div qz dev) of
        None \<Rightarrow> 0 | Some buf \<Rightarrow> buf ! (k mod qz dev))"

lemma quantum_no_extend [simp]:
  "quantum_no s (its @ replicate n None) j = quantum_no s its j"
  by (auto simp: quantum_no_def nth_append)

lemma quantum_no_update:
  assumes "j div s < length its" and "0 < s" and "length data = s"
    and "\<And>i. i < s \<Longrightarrow> data ! i = (case its ! (j div s) of None \<Rightarrow> None | Some d \<Rightarrow> d ! i)"
  shows "quantum_no s (its[j div s := Some (data[j mod s := q])]) i =
    (if i = j then q else quantum_no s its i)"
proof (cases "i div s = j div s")
  case True
  then have "i = j \<longleftrightarrow> i mod s = j mod s" by (metis div_mult_mod_eq)
  with True assms show ?thesis
    by (auto simp: quantum_no_def nth_list_update split: option.splits)
next
  case False
  then have "i \<noteq> j" by auto
  with False show ?thesis by (auto simp: quantum_no_def)
qed

lemma dev_byte_quantum:
  "dev_byte dev k = (case quantum_no (sz dev) (items dev) (k div qz dev) of
     None \<Rightarrow> replicate (qz dev) 0 | Some buf \<Rightarrow> buf) ! (k mod qz dev)" if "0 < qz dev"
  using that by (simp add: dev_byte_def split: option.split)

lemma need_data_succeeds:
  assumes "\<forall>b \<in> set mem. b" and "geometry g dev" and "item_ok (sz dev) (qz dev) it"
  shows "\<exists>data mem'. need_data dev mem it = (Some data, mem') \<and> (\<forall>b \<in> set mem'. b) \<and>
    item_ok (sz dev) (qz dev) (Some data) \<and>
    (\<forall>i < sz dev. data ! i = (case it of None \<Rightarrow> None | Some d \<Rightarrow> d ! i))"
proof (cases it)
  case None
  from next_alloc_succeeds [OF assms(1)] obtain mem' where
    "next_alloc mem = (True, mem')" "\<forall>b \<in> set mem'. b" by blast
  with None geometry_ints(2) [OF assms(2)] show ?thesis
    by (auto simp: need_data_def item_ok_def)
qed (use assms in \<open>simp add: need_data_def\<close>)

lemma need_quantum_succeeds:
  assumes "\<forall>b \<in> set mem. b" and "geometry g dev" and "\<And>buf. q = Some buf \<Longrightarrow> length buf = qz dev"
  shows "\<exists>buf. need_quantum e g mem q = Inr (Some buf) \<and> length buf = qz dev \<and>
    buf = (case q of None \<Rightarrow> replicate (qz dev) 0 | Some buf \<Rightarrow> buf)"
proof (cases q)
  case None
  have "sint (scullc_quantum g) = int (qz dev)" "cache_object g = qz dev"
    using assms(2) geometry_ints(1) [OF assms(2)] by (auto simp: geometry_def)
  moreover have "fst (next_alloc mem)" using next_alloc_succeeds [OF assms(1)] by auto
  ultimately show ?thesis using None by (simp add: need_quantum_def put_range_def)
qed (use assms in \<open>simp add: need_quantum_def\<close>)

text \<open>How many bytes one call moves: it stops at the end of the quantum.\<close>

definition chunk :: "scullc_dev \<Rightarrow> loff_t \<Rightarrow> size_t \<Rightarrow> nat" where
  "chunk dev p count = min (unat count) (qz dev - unat p mod qz dev)"

lemma geometry_bounds:
  assumes "geometry g dev"
  shows "0 < qz dev" and "0 < sz dev" and "qz dev < 2 ^ 31"
  using assms by (auto simp: geometry_def intro: le_less_trans [of _ "qz dev * sz dev"])

lemma chunk_word:
  assumes "geometry g dev"
  shows "(if quantum_room dev (int (unat p mod qz dev)) < count
          then quantum_room dev (int (unat p mod qz dev)) else count) = of_nat (chunk dev p count)"
    and "chunk dev p count < 2 ^ 31"
    and "unat p mod qz dev + chunk dev p count \<le> qz dev"
proof -
  have m: "unat p mod qz dev < qz dev" using geometry_bounds [OF assms] by simp
  have r: "unat (quantum_room dev (int (unat p mod qz dev))) = qz dev - unat p mod qz dev"
    by (rule quantum_room_wf [OF assms m])
  then have r': "quantum_room dev (int (unat p mod qz dev)) = of_nat (qz dev - unat p mod qz dev)"
    by (metis of_nat_unat ucast_id)
  show "(if quantum_room dev (int (unat p mod qz dev)) < count
          then quantum_room dev (int (unat p mod qz dev)) else count) = of_nat (chunk dev p count)"
    unfolding chunk_def word_less_nat_alt r
    by (cases "qz dev - unat p mod qz dev < unat count") (simp_all add: r' min_def)
  show "chunk dev p count < 2 ^ 31" "unat p mod qz dev + chunk dev p count \<le> qz dev"
    using geometry_bounds [OF assms] m by (auto simp: chunk_def)
qed

lemma write_stores:
  fixes count :: size_t and aio :: bool
  assumes wf: "wf_dev g dev" and pos: "pos_ok dev p" and e: "\<not> intr e" "\<forall>b \<in> set (allocs e). b"
  defines "n \<equiv> chunk dev p count" and "l \<equiv> (if aio then 0 else left e)"
  shows "\<exists>its. scullc_do_write e g dev buf count p aio =
      Inr (if aio \<or> l \<noteq> 0 then (- EFAULT, p, dev\<lparr>items := its\<rparr>)
           else (int n, p + of_nat n, dev\<lparr>items := its, dev_size := max (dev_size dev) (p + of_nat n)\<rparr>)) \<and>
    its \<noteq> [] \<and> (length (copied_in (of_nat n) l (take n buf)) = n \<longrightarrow>
      list_all (item_ok (sz dev) (qz dev)) its) \<and>
    (\<forall>i. quantum_no (sz dev) its i =
      (if i = unat p div qz dev then
         Some (put_range (unat p mod qz dev) (copied_in (of_nat n) l (take n buf))
           (case quantum_no (sz dev) (items dev) i of None \<Rightarrow> replicate (qz dev) 0 | Some b \<Rightarrow> b))
       else quantum_no (sz dev) (items dev) i))"
proof -
  let ?j = "unat p div qz dev" and ?r = "unat p mod qz dev" and ?s = "sz dev"
  let ?bs = "copied_in (of_nat n) l (take n buf)"
  from wf have g: "geometry g dev" and ne: "items dev \<noteq> []"
    and io: "list_all (item_ok ?s (qz dev)) (items dev)" by (auto simp: wf_dev_def)
  note b = geometry_bounds [OF g]
  from follow_extend [OF ne e(2), of "?j div ?s"] obtain mem1 k where
    m1: "\<forall>b \<in> set mem1. b" and
    f: "scullc_follow (?j div ?s) (allocs e) (items dev) = Inr (items dev @ replicate k None, mem1)"
    and k: "k = Suc (?j div ?s) - length (items dev)" by blast
  define its where "its = items dev @ replicate k None"
  have len: "?j div ?s < length its" by (simp add: its_def k)
  have io': "list_all (item_ok ?s (qz dev)) its"
    using io by (auto simp: its_def list_all_iff item_ok_def)
  then have it: "item_ok ?s (qz dev) (its ! (?j div ?s))" using len by (simp add: list_all_length)
  from need_data_succeeds [OF m1 g it] obtain data mem2 where
    d: "need_data dev mem1 (its ! (?j div ?s)) = (Some data, mem2)" and m2: "\<forall>b \<in> set mem2. b"
    and dok: "item_ok ?s (qz dev) (Some data)"
    and dn: "\<forall>i < ?s. data ! i = (case its ! (?j div ?s) of None \<Rightarrow> None | Some d \<Rightarrow> d ! i)"
    by blast
  have js: "?j mod ?s < ?s" using b by simp
  have ld: "length data = ?s" using dok by (simp add: item_ok_def)
  have dj: "data ! (?j mod ?s) = quantum_no ?s (items dev) ?j"
    using dn js len quantum_no_extend [of ?s "items dev" k ?j] by (simp add: its_def quantum_no_def)
  have "length buf = qz dev" if "data ! (?j mod ?s) = Some buf" for buf
    using dok that js ld by (metis item_ok_def nth_mem)
  from need_quantum_succeeds [OF m2 g this, where e = e] obtain obj where
    q: "need_quantum e g mem2 (data ! (?j mod ?s)) = Inr (Some obj)" and lo: "length obj = qz dev"
    and obj: "obj = (case quantum_no ?s (items dev) ?j of None \<Rightarrow> replicate (qz dev) 0 | Some b \<Rightarrow> b)"
    by (auto simp: dj)
  note c = chunk_word [OF g, of p count, folded n_def]
  have n: "unat (of_nat n :: size_t) = n" using c(2) by simp
  have sn: "sint (of_nat n :: size_t) = int n"
    using sint_small_64 [of "of_nat n"] c(2) by (simp add: n)
  let ?its = "its[?j div ?s := Some (data[?j mod ?s := Some (put_range ?r ?bs obj)])]"
  have "scullc_do_write e g dev buf count p aio =
      Inr (if aio \<or> l \<noteq> 0 then (- EFAULT, p, dev\<lparr>items := ?its\<rparr>)
           else (int n, p + of_nat n, dev\<lparr>items := ?its, dev_size := max (dev_size dev) (p + of_nat n)\<rparr>))"
    using e(1) js c(3) lo
    by (simp add: scullc_do_write_def locate_wf [OF g pos] f its_def [symmetric] d q ld Let_def c(1) n sn
        l_def max_def not_less)
  moreover have "?its \<noteq> []" using len by auto
  moreover have "list_all (item_ok ?s (qz dev)) ?its" if "length ?bs = n"
  proof -
    have "item_ok ?s (qz dev) (Some (data[?j mod ?s := Some (put_range ?r ?bs obj)]))"
      using dok that lo c(3) set_update_subset_insert [of data] by (fastforce simp: item_ok_def)
    then show ?thesis
      using io' set_update_subset_insert [of its] by (fastforce simp: list_all_iff)
  qed
  moreover have "quantum_no ?s ?its i = (if i = ?j then Some (put_range ?r ?bs obj)
      else quantum_no ?s (items dev) i)" for i
    using quantum_no_update [OF len b(2) ld, of "Some (put_range ?r ?bs obj)" i] dn
    by (simp add: its_def)
  ultimately show ?thesis by (auto simp: obj)
qed

section \<open>Correctness of reading and writing\<close>

lemma in_chunk:
  fixes p q n k :: nat
  assumes "0 < q" and "p mod q + n \<le> q"
  shows "p \<le> k \<and> k < p + n \<longleftrightarrow> k div q = p div q \<and> p mod q \<le> k mod q \<and> k mod q < p mod q + n"
    (is "?l \<longleftrightarrow> ?r")
proof
  assume l: ?l
  have "p = q * (p div q) + p mod q" by simp
  then have "q * (p div q) \<le> k" and "k < q * (p div q) + q" using l assms by linarith+
  then have d: "k div q = p div q"
    by (metis assms(1) div_nat_eqI mult.commute mult_Suc_right add.commute)
  have "k = q * (p div q) + k mod q" by (metis d div_mult_mod_eq mult.commute)
  with l \<open>p = q * (p div q) + p mod q\<close> d show ?r by linarith
next
  assume r: ?r
  have "p = q * (p div q) + p mod q" and "k = q * (p div q) + k mod q"
    using r by (simp, metis div_mult_mod_eq mult.commute)
  with r show ?l by linarith
qed

lemma offset_in_chunk:
  assumes "k div q = p div q" and "(p::nat) \<le> k" shows "k mod q - p mod q = k - p"
proof -
  have "p = q * (p div q) + p mod q" and "k = q * (p div q) + k mod q"
    by (simp, metis assms(1) div_mult_mod_eq mult.commute)
  then show ?thesis by linarith
qed

definition stored :: "nat \<Rightarrow> byte list \<Rightarrow> (nat \<Rightarrow> byte) \<Rightarrow> nat \<Rightarrow> byte" where
  "stored p bs c k = (if p \<le> k \<and> k < p + length bs then bs ! (k - p) else c k)"

lemma dev_byte_stored:
  assumes q: "0 < qz dev" and n: "unat p mod qz dev + length bs \<le> qz dev"
    and len: "\<And>j b. quantum_no (sz dev) (items dev) j = Some b \<Longrightarrow> length b = qz dev"
    and same: "qz dev' = qz dev" "sz dev' = sz dev"
    and up: "\<forall>i. quantum_no (sz dev) (items dev') i =
      (if i = unat p div qz dev then
         Some (put_range (unat p mod qz dev) bs
           (case quantum_no (sz dev) (items dev) i of None \<Rightarrow> replicate (qz dev) 0 | Some b \<Rightarrow> b))
       else quantum_no (sz dev) (items dev) i)"
  shows "dev_byte dev' = stored (unat p) bs (dev_byte dev)"
proof
  fix k
  let ?j = "unat p div qz dev" and ?r = "unat p mod qz dev"
  let ?old = "case quantum_no (sz dev) (items dev) ?j of None \<Rightarrow> replicate (qz dev) 0 | Some b \<Rightarrow> b"
  have ol: "length ?old = qz dev" using len by (auto split: option.split)
  show "dev_byte dev' k = stored (unat p) bs (dev_byte dev) k"
  proof (cases "k div qz dev = ?j")
    case True
    have "dev_byte dev' k = put_range ?r bs ?old ! (k mod qz dev)"
      using up True by (simp add: dev_byte_def same)
    also have "\<dots> = (if ?r \<le> k mod qz dev \<and> k mod qz dev < ?r + length bs
        then bs ! (k mod qz dev - ?r) else ?old ! (k mod qz dev))"
      using n ol q by (intro nth_put_range) simp_all
    also have "?old ! (k mod qz dev) = dev_byte dev k"
      using True dev_byte_quantum [OF q] by simp
    finally show ?thesis
      using in_chunk [OF q n, of k] offset_in_chunk [OF True] True by (auto simp: stored_def)
  next
    case False
    then show ?thesis
      using in_chunk [OF q n, of k] up by (auto simp: stored_def dev_byte_def same(1) same(2) split: option.split)
  qed
qed

lemma wf_quantum_length:
  assumes "wf_dev g dev" and "quantum_no (sz dev) (items dev) j = Some b"
  shows "length b = qz dev"
proof -
  have "j div sz dev < length (items dev)" and s: "0 < sz dev"
    using assms by (auto simp: quantum_no_def wf_dev_def geometry_def split: if_splits)
  moreover from this obtain data where d: "items dev ! (j div sz dev) = Some data"
    and b: "data ! (j mod sz dev) = Some b"
    using assms(2) by (auto simp: quantum_no_def split: option.splits if_splits)
  ultimately have "length data = sz dev" and "\<forall>buf. Some buf \<in> set data \<longrightarrow> length buf = qz dev"
    using assms(1) by (auto simp: wf_dev_def list_all_length item_ok_def)
  with b s show ?thesis by (metis mod_less_divisor nth_mem)
qed

lemma wf_dev_items:
  "wf_dev g dev \<Longrightarrow> its \<noteq> [] \<Longrightarrow> list_all (item_ok (sz dev) (qz dev)) its \<Longrightarrow> wf_dev g (dev\<lparr>items := its\<rparr>)"
  "wf_dev g (dev\<lparr>dev_size := x\<rparr>) = wf_dev g dev"
  "qz (dev\<lparr>items := its\<rparr>) = qz dev" "sz (dev\<lparr>items := its\<rparr>) = sz dev"
  "qz (dev\<lparr>dev_size := x\<rparr>) = qz dev" "sz (dev\<lparr>dev_size := x\<rparr>) = sz dev"
  by (simp_all add: wf_dev_def geometry_def qz_def sz_def)

definition calm :: "scullc_env \<Rightarrow> bool" where
  "calm e \<longleftrightarrow> \<not> intr e \<and> (\<forall>b \<in> set (allocs e). b) \<and> left e = 0"

lemma write_effect:
  assumes "wf_dev g dev" and "pos_ok dev p" and "calm e" and "chunk dev p count \<le> length buf"
  shows "\<exists>its. wf_dev g (dev\<lparr>items := its\<rparr>) \<and>
    quantum_no (sz dev) its (unat p div qz dev) \<noteq> None \<and>
    (\<forall>x. dev_byte (dev\<lparr>items := its, dev_size := x\<rparr>) =
      stored (unat p) (take (chunk dev p count) buf) (dev_byte dev)) \<and>
    scullc_write e g dev buf count p = Inr (int (chunk dev p count), p + of_nat (chunk dev p count),
      dev\<lparr>items := its, dev_size := max (dev_size dev) (p + of_nat (chunk dev p count))\<rparr>)"
proof -
  let ?n = "chunk dev p count"
  have g: "geometry g dev" using assms(1) by (simp add: wf_dev_def)
  note c = chunk_word [OF g, of p count]
  have bs: "copied_in (of_nat ?n) 0 (take ?n buf) = take ?n buf" and len: "length (take ?n buf) = ?n"
    using assms(4) c(2) by simp_all
  from assms(3) have e: "\<not> intr e" "\<forall>b \<in> set (allocs e). b" "left e = 0" by (auto simp: calm_def)
  from write_stores [OF assms(1,2) e(1,2), where count = count and aio = False and buf = buf]
  show ?thesis
  proof (elim exE conjE, goal_cases)
    case (1 its)
    have w: "scullc_write e g dev buf count p = Inr (int ?n, p + of_nat ?n,
        dev\<lparr>items := its, dev_size := max (dev_size dev) (p + of_nat ?n)\<rparr>)"
      using 1(1) by (simp add: e scullc_write_def)
    have "list_all (item_ok (sz dev) (qz dev)) its" using 1(3) assms(4) by (simp add: e bs)
    then have "wf_dev g (dev\<lparr>items := its\<rparr>)" by (rule wf_dev_items(1) [OF assms(1) 1(2)])
    moreover have "quantum_no (sz dev) its (unat p div qz dev) \<noteq> None" using 1(4) by simp
    moreover have "dev_byte (dev\<lparr>items := its, dev_size := x\<rparr>) =
        stored (unat p) (take ?n buf) (dev_byte dev)" for x
      using 1(4) c(3) len geometry_bounds [OF g]
      by (intro dev_byte_stored wf_quantum_length [OF assms(1)]) (simp_all add: wf_dev_items e bs)
    ultimately show ?thesis using w by blast
  qed
qed


text \<open>The bytes left before the end of the device, as the source cuts the count.\<close>

definition avail :: "scullc_dev \<Rightarrow> loff_t \<Rightarrow> size_t \<Rightarrow> size_t" where
  "avail dev p count = (if dev_size dev < p + count then dev_size dev - p else count)"

lemma unat_avail:
  assumes "vfs_rw_ok count p" and "p \<le> dev_size dev"
  shows "unat (avail dev p count) = min (unat count) (unat (dev_size dev) - unat p)"
proof -
  have "unat (p + count) = unat p + unat count" using vfs_rw_sum [OF assms(1)] by (simp add: add.commute)
  moreover have "unat p \<le> unat (dev_size dev)" using assms(2) by (simp add: word_le_nat_alt)
  ultimately show ?thesis
    by (auto simp: avail_def word_less_nat_alt unat_sub [OF assms(2)])
qed

lemma quantum_no_items:
  "j div s < length its \<Longrightarrow> quantum_no s its j =
     (case its ! (j div s) of None \<Rightarrow> None | Some data \<Rightarrow> data ! (j mod s))"
  by (simp add: quantum_no_def)

lemma read_loads:
  fixes count :: size_t and aio :: bool
  assumes wf: "wf_dev g dev" and pos: "pos_ok dev p" and e: "\<not> intr e" "\<forall>b \<in> set (allocs e). b"
    and p: "p \<le> dev_size dev"
  defines "n \<equiv> chunk dev p (avail dev p count)" and "r \<equiv> unat p mod qz dev"
  shows "\<exists>its. its \<noteq> [] \<and> list_all (item_ok (sz dev) (qz dev)) its \<and>
    quantum_no (sz dev) its = quantum_no (sz dev) (items dev) \<and>
    scullc_do_read e dev count p aio = Inr
      (case quantum_no (sz dev) (items dev) (unat p div qz dev) of
         None \<Rightarrow> (0, [], p, dev\<lparr>items := its\<rparr>)
       | Some b \<Rightarrow>
          if aio then (- EFAULT, get_range r n b, p, dev\<lparr>items := its\<rparr>)
          else if left e \<noteq> 0 then (- EFAULT, copied_out (of_nat n) (left e) (get_range r n b), p, dev\<lparr>items := its\<rparr>)
          else (int n, get_range r n b, p + of_nat n, dev\<lparr>items := its\<rparr>))"
proof -
  let ?j = "unat p div qz dev" and ?s = "sz dev"
  from wf have g: "geometry g dev" and ne: "items dev \<noteq> []"
    and io: "list_all (item_ok ?s (qz dev)) (items dev)" by (auto simp: wf_dev_def)
  note b = geometry_bounds [OF g]
  from follow_extend [OF ne e(2), of "?j div ?s"] obtain mem1 k where
    f: "scullc_follow (?j div ?s) (allocs e) (items dev) = Inr (items dev @ replicate k None, mem1)"
    and k: "k = Suc (?j div ?s) - length (items dev)" by blast
  define its where "its = items dev @ replicate k None"
  have len: "?j div ?s < length its" by (simp add: its_def k)
  have io': "list_all (item_ok ?s (qz dev)) its"
    using io by (auto simp: its_def list_all_iff item_ok_def)
  have js: "?j mod ?s < ?s" using b by simp
  have q: "quantum_no ?s its = quantum_no ?s (items dev)" by (rule ext) (simp add: its_def)
  have wf': "wf_dev g (dev\<lparr>items := its\<rparr>)" using len by (intro wf_dev_items(1) [OF wf _ io']) auto
  have lb: "length c = qz dev" if "quantum_no ?s (items dev) ?j = Some c" for c
    by (rule wf_quantum_length [OF wf that])
  have ld: "length data = ?s" if "its ! (?j div ?s) = Some data" for data
    using io' len that by (auto simp: list_all_length item_ok_def)
  have qj: "quantum_no ?s (items dev) ?j =
      (case its ! (?j div ?s) of None \<Rightarrow> None | Some data \<Rightarrow> data ! (?j mod ?s))"
    using quantum_no_items [OF len] q by simp
  note c = chunk_word [OF g, of p "avail dev p count", folded n_def r_def]
  have n: "unat (of_nat n :: size_t) = n" using c(2) by simp
  have sn: "sint (of_nat n :: size_t) = int n"
    using sint_small_64 [of "of_nat n"] c(2) by (simp add: n)
  have np: "(dev_size dev < p) = False" using p by simp
  have main: "scullc_do_read e dev count p aio = Inr
      (case quantum_no ?s (items dev) ?j of
         None \<Rightarrow> (0, [], p, dev\<lparr>items := its\<rparr>)
       | Some b \<Rightarrow>
          if aio then (- EFAULT, get_range r n b, p, dev\<lparr>items := its\<rparr>)
          else if left e \<noteq> 0 then (- EFAULT, copied_out (of_nat n) (left e) (get_range r n b), p, dev\<lparr>items := its\<rparr>)
          else (int n, get_range r n b, p + of_nat n, dev\<lparr>items := its\<rparr>))"
  proof (cases "its ! (?j div ?s)")
    case None
    then show ?thesis
      using e(1) np qj by (simp add: scullc_do_read_def locate_wf [OF g pos] f its_def [symmetric])
  next
    case (Some data)
    note d = Some ld [OF Some] js
    show ?thesis
    proof (cases "data ! (?j mod ?s)")
      case None
      then show ?thesis
        using e(1) np qj d
        by (simp add: scullc_do_read_def locate_wf [OF g pos] f its_def [symmetric] Let_def)
    next
      case (Some c)
      then have qc: "quantum_no ?s (items dev) ?j = Some c" using qj d by simp
      from lb [OF this] Some qc show ?thesis
        using e(1) np d c(3)
        by (simp add: scullc_do_read_def locate_wf [OF g pos] f its_def [symmetric] Let_def
            avail_def [symmetric] r_def [symmetric] c(1) n sn)
    qed
  qed
  with q io' len show ?thesis by (intro exI [of _ its]) auto
qed

lemma quantum_bytes:
  assumes wf: "wf_dev g dev" and b: "quantum_no (sz dev) (items dev) (p div qz dev) = Some b"
    and n: "p mod qz dev + n \<le> qz dev"
  shows "get_range (p mod qz dev) n b = map (dev_byte dev) [p..<p + n]"
proof (rule nth_equalityI)
  have lb: "length b = qz dev" by (rule wf_quantum_length [OF wf b])
  then show "length (get_range (p mod qz dev) n b) = length (map (dev_byte dev) [p..<p + n])"
    using n by simp
  fix i assume "i < length (get_range (p mod qz dev) n b)"
  then have i: "i < n" using n lb by simp
  have q: "0 < qz dev" using wf by (simp add: wf_dev_def geometry_def)
  from in_chunk [OF q n, of "p + i"] i have k: "(p + i) div qz dev = p div qz dev" by simp
  have "(p + i) mod qz dev - p mod qz dev = i" using offset_in_chunk [OF k] by simp
  moreover have "p mod qz dev \<le> (p + i) mod qz dev" using in_chunk [OF q n, of "p + i"] i by simp
  ultimately have "(p + i) mod qz dev = p mod qz dev + i" by linarith
  then show "get_range (p mod qz dev) n b ! i = map (dev_byte dev) [p..<p + n] ! i"
    using i n lb b by (simp add: get_range_def dev_byte_def k)
qed

lemma read_effect:
  assumes "wf_dev g dev" and "pos_ok dev p" and "calm e" and "p \<le> dev_size dev"
  shows "\<exists>dev'. wf_dev g dev' \<and> dev_byte dev' = dev_byte dev \<and> dev_size dev' = dev_size dev \<and>
    scullc_read e dev count p = Inr
      (let n = chunk dev p (avail dev p count)
       in if quantum_no (sz dev) (items dev) (unat p div qz dev) = None then (0, [], p, dev')
          else (int n, map (dev_byte dev) [unat p..<unat p + n], p + of_nat n, dev'))"
proof -
  from assms(3) have e: "\<not> intr e" "\<forall>b \<in> set (allocs e). b" "left e = 0" by (auto simp: calm_def)
  have g: "geometry g dev" using assms(1) by (simp add: wf_dev_def)
  from read_loads [OF assms(1,2) e(1,2) assms(4), where count = count and aio = False]
  show ?thesis
  proof (elim exE conjE, goal_cases)
    case (1 its)
    let ?dev = "dev\<lparr>items := its\<rparr>"
    have "wf_dev g ?dev" by (rule wf_dev_items(1) [OF assms(1) 1(1,2)])
    moreover have "dev_byte ?dev = dev_byte dev"
      by (rule ext) (simp add: dev_byte_def wf_dev_items 1(3) split: option.split)
    moreover have "scullc_read e dev count p = Inr
      (let n = chunk dev p (avail dev p count)
       in if quantum_no (sz dev) (items dev) (unat p div qz dev) = None then (0, [], p, ?dev)
          else (int n, map (dev_byte dev) [unat p..<unat p + n], p + of_nat n, ?dev))"
      using 1(4) quantum_bytes [OF assms(1) _ chunk_word(3) [OF g]]
      by (cases "quantum_no (sz dev) (items dev) (unat p div qz dev)")
        (simp_all add: scullc_read_def e Let_def)
    ultimately show ?thesis by (intro exI [of _ ?dev]) simp
  qed
qed


end
