(* ===== verification/Scullc_Control.thy ===== *)
theory Scullc_Control
  imports Scullc Interfaces
begin

text \<open>
  The other operations of \<open>src/io/lab6_aio.c\<close>: what a caller gets back from a write followed
  by a read, the asynchronous entry points, trimming, the module's tunable parameters and what
  they do to devices already in use, and loading and unloading the module.
\<close>

section \<open>A write read back\<close>

lemma pos_ok_bound: "pos_ok dev p \<Longrightarrow> unat p < 2 ^ 63"
  using sint_nonneg_64 by (simp add: pos_ok_def)

text \<open>C12: What \<open>scullc_write\<close> stored, \<open>scullc_read\<close> of the same number of bytes at the same
  position returns, with the same return value and position, whatever the device held
  before.\<close>

theorem scullc_roundtrip:
  assumes "wf_dev g dev" and "pos_ok dev p" and "calm e" and "calm e'"
    and "chunk dev p count \<le> length buf"
    and "scullc_write e g dev buf count p = Inr (r, p', dev')"
  shows "\<exists>dev''. scullc_read e' dev' (of_nat (nat r)) p =
    Inr (r, take (chunk dev p count) buf, p', dev'')"
proof -
  let ?n = "chunk dev p count"
  have g: "geometry g dev" using assms(1) by (simp add: wf_dev_def)
  note c = chunk_word [OF g, of p count]
  have n: "unat (of_nat ?n :: size_t) = ?n" using c(2) by simp
  note up = pos_ok_bound [OF assms(2)]
  have sum: "unat (p + of_nat ?n) = unat p + ?n"
    using unat_add_nowrap [of p "of_nat ?n"] up c(2) by (simp add: n)
  from write_effect [OF assms(1-3,5)] obtain its where
    wf: "wf_dev g (dev\<lparr>items := its\<rparr>)" and q: "quantum_no (sz dev) its (unat p div qz dev) \<noteq> None"
    and st: "\<forall>x. dev_byte (dev\<lparr>items := its, dev_size := x\<rparr>) =
      stored (unat p) (take ?n buf) (dev_byte dev)"
    and w: "scullc_write e g dev buf count p = Inr (int ?n, p + of_nat ?n,
      dev\<lparr>items := its, dev_size := max (dev_size dev) (p + of_nat ?n)\<rparr>)" by blast
  from w assms(6) have r: "r = int ?n" and p': "p' = p + of_nat ?n"
    and dev': "dev' = dev\<lparr>items := its, dev_size := max (dev_size dev) (p + of_nat ?n)\<rparr>" by auto
  have same: "qz dev' = qz dev" "sz dev' = sz dev" "items dev' = its"
    by (simp_all add: dev' wf_dev_items)
  have wf': "wf_dev g dev'" using wf by (simp add: dev' wf_dev_items(2))
  have pos': "pos_ok dev' p" using assms(2) by (simp add: pos_ok_def same)
  have le: "p + of_nat ?n \<le> dev_size dev'" by (simp add: dev')
  have "p \<le> p + of_nat ?n" using sum by (simp add: word_le_nat_alt)
  then have p: "p \<le> dev_size dev'" using le by (rule order_trans)
  have av: "avail dev' p (of_nat ?n) = of_nat ?n" using leD [OF le] by (simp add: avail_def)
  have ch: "chunk dev' p (of_nat ?n) = ?n"
    unfolding chunk_def [of dev'] same n using c(3) by simp
  have bytes: "map (dev_byte dev') [unat p..<unat p + ?n] = take ?n buf"
    using assms(5) st by (intro nth_equalityI) (simp_all add: dev' stored_def)
  from read_effect [OF wf' pos' assms(4) p, of "of_nat ?n"] q show ?thesis
    by (auto simp: same av ch bytes r p' Let_def)
qed

definition sample_glob :: scullc_glob where
  "sample_glob = \<lparr>scullc_quantum = 8, scullc_qset = 4, cache_object = 8\<rparr>"

definition sample_scullc :: scullc_dev where
  "sample_scullc = \<lparr>items = [None], vmas = 0, quantum = 8, qset = 4, dev_size = 0\<rparr>"

definition calm_env :: scullc_env where
  "calm_env = \<lparr>intr = False, allocs = [], junk = [], left = 0\<rparr>"

lemma sample_scullc_geometry [simp]: "qz sample_scullc = 8" "sz sample_scullc = 4"
  by (simp_all add: qz_def sz_def sample_scullc_def)

lemma sample_scullc_wf: "wf_dev sample_glob sample_scullc"
  by (simp add: wf_dev_def geometry_def) (simp add: item_ok_def sample_scullc_def sample_glob_def)

lemma sample_pos: "pos_ok sample_scullc 6"
  by (simp add: pos_ok_def)

lemma calm_env_calm: "calm calm_env"
  by (simp add: calm_def calm_env_def)

lemma sample_chunk: "chunk sample_scullc 6 3 = 2"
  by (simp add: chunk_def)

theorem scullc_roundtrip_witness:
  "\<exists>dev' dev''. scullc_write calm_env sample_glob sample_scullc [1, 2, 3] 3 6 = Inr (2, 8, dev') \<and>
     scullc_read calm_env dev' 2 6 = Inr (2, [1, 2], 8, dev'')"
proof -
  obtain dev' where w: "scullc_write calm_env sample_glob sample_scullc [1, 2, 3] 3 6 = Inr (2, 8, dev')"
    using write_effect [OF sample_scullc_wf sample_pos calm_env_calm, of 3 "[1, 2, 3]"]
    by (auto simp: sample_chunk)
  from scullc_roundtrip [OF sample_scullc_wf sample_pos calm_env_calm calm_env_calm _ w] w
  show ?thesis by (auto simp: sample_chunk)
qed


definition sample_filled :: scullc_dev where
  "sample_filled = sample_scullc\<lparr>items := [Some [Some [1, 2, 3, 4, 5, 6, 7, 8], None, None, None]], dev_size := 8\<rparr>"

lemma sample_filled_wf: "wf_dev sample_glob sample_filled"
  by (simp add: wf_dev_def geometry_def sample_filled_def sample_scullc_def sample_glob_def qz_def sz_def item_ok_def)


section \<open>The asynchronous entry points\<close>

definition aio_answer :: "bool \<Rightarrow> bool \<Rightarrow> int \<Rightarrow> completion" where
  "aio_answer sync queued r = (if sync \<or> \<not> queued then Now r else Queued r)"

lemma truncate_env [simp]:
  "intr (scullc_env.truncate e) = intr e" "allocs (scullc_env.truncate e) = allocs e"
  "left (scullc_env.truncate e) = left e"
  by (simp_all add: scullc_env.defs)


definition calm_iter :: defer_env where
  "calm_iter = \<lparr>intr = False, allocs = [], junk = [], left = 0,
     heap = [9, 9, 9, 9], buf_ok = True, stuff_ok = True, got = 3, to_iter = (\<lambda>n. min (unat n) 4)\<rparr>"


text \<open>\<open>scullc_read_iter\<close> at a position whose quantum exists always answers with as many
  bytes as were asked for, whatever the size of the device: \<open>scullc_do_read\<close> fails with
  \<open>EFAULT\<close>, the negative status becomes a huge count, and \<open>copy_to_iter\<close> is given the whole
  kernel buffer. Behind the \<open>n\<close> bytes the device really had, the user receives what the heap
  held. The position does not move.\<close>

theorem scullc_read_iter_discloses:
  assumes "wf_dev g dev" and "pos_ok dev p" and "\<not> intr e" and "\<forall>b \<in> set (allocs e). b"
    and "buf_ok e" and "p \<le> dev_size dev"
    and "quantum_no (sz dev) (items dev) (unat p div qz dev) \<noteq> None"
    and "tot \<le> to_iter e (word_of_int (- EFAULT))" and "tot = length (heap e)"
  defines "n \<equiv> chunk dev p (avail dev p (of_nat tot))"
  shows "\<exists>dev'. dev_byte dev' = dev_byte dev \<and> scullc_read_iter sync e g tot p dev =
    Inr (aio_answer sync (stuff_ok e) (int tot),
      take tot (map (dev_byte dev) [unat p..<unat p + n] @ drop n (heap e)), p, dev')"
proof -
  let ?r = "unat p mod qz dev"
  from assms(7) obtain b where b: "quantum_no (sz dev) (items dev) (unat p div qz dev) = Some b" by blast
  have te: "\<not> intr (scullc_env.truncate e)" "\<forall>b \<in> set (allocs (scullc_env.truncate e)). b"
    using assms(3,4) by simp_all
  have g: "geometry g dev" using assms(1) by (simp add: wf_dev_def)
  note c = chunk_word [OF g, of p "avail dev p (of_nat tot)", folded n_def]
  have bytes: "get_range ?r n b = map (dev_byte dev) [unat p..<unat p + n]"
    by (rule quantum_bytes [OF assms(1) b c(3)])
  from read_loads [OF assms(1,2) te assms(6), where count = "of_nat tot" and aio = True, folded n_def]
  show ?thesis
  proof (elim exE conjE, goal_cases)
    case (1 its)
    have "dev_byte (dev\<lparr>items := its\<rparr>) = dev_byte dev"
      by (rule ext) (simp add: dev_byte_def wf_dev_items 1(3) split: option.split)
    moreover have "scullc_read_iter sync e g tot p dev =
      Inr (aio_answer sync (stuff_ok e) (int tot),
        take tot (map (dev_byte dev) [unat p..<unat p + n] @ drop n (heap e)), p, dev\<lparr>items := its\<rparr>)"
      using 1(4) b assms(5,8,9)
      by (simp add: scullc_read_iter_def scullc_defer_op_def aio_answer_def Let_def bytes overlay_def min_def)
    ultimately show ?thesis by blast
  qed
qed

text \<open>A device one quantum of which was written by \<open>scullc_write_iter\<close>; its size is still 0.\<close>

definition sample_touched :: scullc_dev where
  "sample_touched = sample_scullc\<lparr>items := [Some [Some (replicate 8 5), None, None, None]]\<rparr>"

lemma sample_touched_wf: "wf_dev sample_glob sample_touched"
  unfolding sample_touched_def
  by (rule wf_dev_items(1) [OF sample_scullc_wf]) (auto simp: item_ok_def)

theorem scullc_read_iter_discloses_witness:
  "\<exists>dev'. scullc_read_iter True calm_iter sample_glob 4 0 sample_touched =
     Inr (Now 4, [9, 9, 9, 9], 0, dev')"
proof -
  have g: "qz sample_touched = 8" "sz sample_touched = 4" "dev_size sample_touched = 0"
    and i: "items sample_touched = [Some [Some (replicate 8 5), None, None, None]]"
    unfolding sample_touched_def wf_dev_items by simp_all (simp add: sample_scullc_def)
  have p: "pos_ok sample_touched 0" by (simp add: pos_ok_def)
  have e: "buf_ok calm_iter" "\<not> intr calm_iter" "\<forall>b \<in> set (allocs calm_iter). b" "stuff_ok calm_iter"
    "heap calm_iter = [9, 9, 9, 9]" "4 \<le> to_iter calm_iter (word_of_int (- EFAULT))"
    by (simp_all add: calm_iter_def)
  have n: "chunk sample_touched 0 (avail sample_touched 0 (of_nat 4)) = 0"
    by (simp add: chunk_def avail_def g)
  have q: "quantum_no (sz sample_touched) (items sample_touched) (unat 0 div qz sample_touched) \<noteq> None"
    by (simp add: g i quantum_no_def)
  have z: "(0::loff_t) \<le> dev_size sample_touched" by simp
  have l: "4 = length (heap calm_iter)" by (simp add: e)
  from scullc_read_iter_discloses [OF sample_touched_wf p e(2,3,1) z q e(6) l, of True] obtain dev' where
    "scullc_read_iter True calm_iter sample_glob 4 0 sample_touched = Inr (aio_answer True True (int 4),
      take 4 (map (dev_byte sample_touched) [unat (0::loff_t)..<unat (0::loff_t) + 0] @ drop 0 [9, 9, 9, 9]), 0, dev')"
    unfolding e n by (auto simp: aio_answer_def)
  then show ?thesis by (intro exI [of _ dev']) (simp add: aio_answer_def)
qed

section \<open>Trimming\<close>

text \<open>Every quantum of a list of items, in the order of the list.\<close>

definition all_quanta :: "item list \<Rightarrow> byte list list" where
  "all_quanta its =
     concat (map (\<lambda>it. case it of None \<Rightarrow> [] | Some data \<Rightarrow> map the (filter (\<lambda>q. q \<noteq> None) data)) its)"

lemma freed_all_quanta:
  "list_all (item_ok n obj) its \<Longrightarrow> freed_quanta n its = all_quanta its"
  by (induction its) (auto simp: freed_quanta_def all_quanta_def item_ok_def split: option.splits)

lemma trim_wf:
  assumes "wf_dev g dev" and "vmas dev = 0"
  shows "scullc_trim g dev = Inr (0, all_quanta (items dev),
    dev\<lparr>items := [None], dev_size := 0, qset := scullc_qset g, quantum := scullc_quantum g\<rparr>)"
proof -
  have ok: "list_all (item_ok (sz dev) (qz dev)) (items dev)" using assms(1) by (simp add: wf_dev_def)
  then have "list_all (\<lambda>it. case it of None \<Rightarrow> True | Some data \<Rightarrow> sz dev \<le> length data) (items dev)"
    by (auto simp: list_all_iff item_ok_def split: option.split)
  then show ?thesis
    unfolding scullc_trim_def Let_def sz_def [symmetric] freed_all_quanta [OF ok]
    using assms(2) by simp
qed

lemma scullc_trim_frees_all_parts:
  assumes "wf_dev g dev"
  shows "vmas dev \<noteq> 0 \<Longrightarrow> scullc_trim g dev = Inr (- EBUSY, [], dev)"
    and "vmas dev = 0 \<Longrightarrow> \<exists>dev'. scullc_trim g dev = Inr (0, all_quanta (items dev), dev') \<and>
      dev_size dev' = 0 \<and> all_quanta (items dev') = [] \<and> dev_byte dev' = (\<lambda>k. 0) \<and>
      (scullc_qset g = qset dev \<longrightarrow> wf_dev g dev')"
proof -
  show "vmas dev \<noteq> 0 \<Longrightarrow> scullc_trim g dev = Inr (- EBUSY, [], dev)"
    by (simp add: scullc_trim_def)
  assume v: "vmas dev = 0"
  let ?dev = "dev\<lparr>items := [None], dev_size := 0, qset := scullc_qset g, quantum := scullc_quantum g\<rparr>"
  have "quantum_no s [None] j = None" for s j
    by (simp add: quantum_no_def)
  then have "dev_byte ?dev = (\<lambda>k. 0)" by (intro ext) (simp add: dev_byte_def)
  moreover have "scullc_qset g = qset dev \<longrightarrow> wf_dev g ?dev"
    using assms by (auto simp: wf_dev_def geometry_def qz_def sz_def item_ok_def)
  ultimately show "\<exists>dev'. scullc_trim g dev = Inr (0, all_quanta (items dev), dev') \<and>
      dev_size dev' = 0 \<and> all_quanta (items dev') = [] \<and> dev_byte dev' = (\<lambda>k. 0) \<and>
      (scullc_qset g = qset dev \<longrightarrow> wf_dev g dev')"
    using trim_wf [OF assms v] by (intro exI [of _ ?dev]) (simp add: all_quanta_def)
qed

text \<open>Trimming a well-formed device gives back every quantum it holds, each once, and leaves
  an empty device of the module's current geometry whose content is zero everywhere; the new
  device is well formed when the parameters are those of the cache. A device that is mapped is
  not touched.\<close>

theorem scullc_trim_frees_all:
  assumes "wf_dev g dev"
  shows "(vmas dev \<noteq> 0 \<longrightarrow> scullc_trim g dev = Inr (- EBUSY, [], dev)) \<and>
    (vmas dev = 0 \<longrightarrow> (\<exists>dev'. scullc_trim g dev = Inr (0, all_quanta (items dev), dev') \<and>
      dev_size dev' = 0 \<and> all_quanta (items dev') = [] \<and> dev_byte dev' = (\<lambda>k. 0) \<and>
      (scullc_qset g = qset dev \<longrightarrow> wf_dev g dev')) )"
proof -
  have c1: "vmas dev \<noteq> 0 \<longrightarrow> scullc_trim g dev = Inr (- EBUSY, [], dev)"
    by (intro impI) (rule scullc_trim_frees_all_parts(1) [OF assms]; assumption)
  have c2: "vmas dev = 0 \<longrightarrow> (\<exists>dev'. scullc_trim g dev = Inr (0, all_quanta (items dev), dev') \<and>
      dev_size dev' = 0 \<and> all_quanta (items dev') = [] \<and> dev_byte dev' = (\<lambda>k. 0) \<and>
      (scullc_qset g = qset dev \<longrightarrow> wf_dev g dev')) "
    by (intro impI) (rule scullc_trim_frees_all_parts(2) [OF assms]; assumption)
  show ?thesis by (rule conjI [OF c1 c2])
qed

theorem scullc_trim_frees_all_witness:
  "\<exists>dev'. scullc_trim sample_glob sample_touched = Inr (0, [replicate 8 5], dev') \<and> dev_size dev' = 0"
proof -
  have v: "vmas sample_touched = 0" by (simp add: sample_touched_def sample_scullc_def)
  have "all_quanta (items sample_touched) = [replicate 8 5]"
    by (simp add: sample_touched_def all_quanta_def)
  with scullc_trim_frees_all [OF sample_touched_wf, THEN conjunct2, THEN mp, OF v] show ?thesis by auto
qed

section \<open>Tuning the parameters\<close>

declare cmd_word.simps [simp del]

lemmas cmd_numerals = cmd_word.simps [unfolded IOC_def, simplified]

lemma cmd_word_inj: "cmd_word c = cmd_word d \<longleftrightarrow> c = d"
  by (cases c; cases d) (simp_all add: cmd_numerals)

lemma cmd_word_known:
  "IOC_TYPE (cmd_word c) = SCULLC_IOC_MAGIC \<and> \<not> 12 < IOC_NR (cmd_word c) \<and>
   find (\<lambda>d. cmd_word d = cmd_word c) all_cmds = Some c"
  by (cases c) (simp_all add: cmd_numerals IOC_TYPE_def IOC_NR_def all_cmds_def)

lemma scullc_ioctl_known: "scullc_ioctl (cmd_word c) arg u ok g = ioctl_switch c arg u ok g"
  by (simp add: scullc_ioctl_def cmd_word_known)

lemma scullc_ioctl_unknown:
  assumes "\<And>c. cmd \<noteq> cmd_word c"
  shows "scullc_ioctl cmd arg u ok g = (- ENOTTY, None, g)"
proof -
  have "find (\<lambda>c. cmd_word c = cmd) all_cmds = None"
    using assms by (auto simp: find_None_iff)
  then show ?thesis by (simp add: scullc_ioctl_def)
qed

lemma scullc_ioctl_correct_parts:
  shows "(\<And>c. cmd \<noteq> cmd_word c) \<Longrightarrow> scullc_ioctl cmd arg u ok g = (- ENOTTY, None, g)"
    and "scullc_ioctl (cmd_word IOCXQUANTUM) arg (Some v) True g =
      (0, Some (scullc_quantum g), g\<lparr>scullc_quantum := v\<rparr>)"
    and "snd (snd (scullc_ioctl (cmd_word IOCXQUANTUM) arg (Some (scullc_quantum g)) True
      (snd (snd (scullc_ioctl (cmd_word IOCXQUANTUM) arg (Some v) True g))))) = g"
    and "scullc_ioctl (cmd_word IOCXQSET) arg (Some v) True g =
      (0, Some (scullc_qset g), g\<lparr>scullc_qset := v\<rparr>)"
    and "snd (snd (scullc_ioctl (cmd_word IOCXQSET) arg (Some (scullc_qset g)) True
      (snd (snd (scullc_ioctl (cmd_word IOCXQSET) arg (Some v) True g))))) = g"
    and "scullc_ioctl (cmd_word IOCQQUANTUM) arg u ok g = (sint (scullc_quantum g), None, g)"
    and "scullc_ioctl (cmd_word IOCHQUANTUM) arg u ok g =
      (sint (scullc_quantum g), None, g\<lparr>scullc_quantum := ucast arg\<rparr>)"
    and "scullc_ioctl (cmd_word IOCTQSET) arg u ok g = (0, None, g\<lparr>scullc_qset := ucast arg\<rparr>)"
    and "scullc_ioctl (cmd_word IOCRESET) arg u ok g =
      (0, None, g\<lparr>scullc_qset := 500, scullc_quantum := 4000\<rparr>)"
  using scullc_ioctl_unknown
  by (simp_all add: scullc_ioctl_known get_user_def put_user_def Let_def)

text \<open>\<open>scullc_ioctl\<close> refuses a command that is none of the thirteen with \<open>ENOTTY\<close> and changes
  nothing. Each known command gives its answer and changes at most its own parameter: an
  exchange hands out the old value and installs the new one, so that exchanging back restores
  the parameters; the query and the shift return the old value, the tell and the shift install
  their argument, cut to an \<open>int\<close>; a reset restores the defaults.\<close>

theorem scullc_ioctl_correct:
  shows "((\<forall>c. cmd \<noteq> cmd_word c) \<longrightarrow> scullc_ioctl cmd arg u ok g = (- ENOTTY, None, g)) \<and>
    (scullc_ioctl (cmd_word IOCXQUANTUM) arg (Some v) True g =
      (0, Some (scullc_quantum g), g\<lparr>scullc_quantum := v\<rparr>)) \<and>
    (snd (snd (scullc_ioctl (cmd_word IOCXQUANTUM) arg (Some (scullc_quantum g)) True
      (snd (snd (scullc_ioctl (cmd_word IOCXQUANTUM) arg (Some v) True g))))) = g) \<and>
    (scullc_ioctl (cmd_word IOCXQSET) arg (Some v) True g =
      (0, Some (scullc_qset g), g\<lparr>scullc_qset := v\<rparr>)) \<and>
    (snd (snd (scullc_ioctl (cmd_word IOCXQSET) arg (Some (scullc_qset g)) True
      (snd (snd (scullc_ioctl (cmd_word IOCXQSET) arg (Some v) True g))))) = g) \<and>
    (scullc_ioctl (cmd_word IOCQQUANTUM) arg u ok g = (sint (scullc_quantum g), None, g)) \<and>
    (scullc_ioctl (cmd_word IOCHQUANTUM) arg u ok g =
      (sint (scullc_quantum g), None, g\<lparr>scullc_quantum := ucast arg\<rparr>)) \<and>
    (scullc_ioctl (cmd_word IOCTQSET) arg u ok g = (0, None, g\<lparr>scullc_qset := ucast arg\<rparr>)) \<and>
    (scullc_ioctl (cmd_word IOCRESET) arg u ok g =
      (0, None, g\<lparr>scullc_qset := 500, scullc_quantum := 4000\<rparr>))"
proof -
  have c1: "(\<forall>c. cmd \<noteq> cmd_word c) \<longrightarrow> scullc_ioctl cmd arg u ok g = (- ENOTTY, None, g)"
    using scullc_ioctl_correct_parts(1) by blast
  have c2: "scullc_ioctl (cmd_word IOCXQUANTUM) arg (Some v) True g =
      (0, Some (scullc_quantum g), g\<lparr>scullc_quantum := v\<rparr>)"
    by (rule scullc_ioctl_correct_parts(2))
  have c3: "snd (snd (scullc_ioctl (cmd_word IOCXQUANTUM) arg (Some (scullc_quantum g)) True
      (snd (snd (scullc_ioctl (cmd_word IOCXQUANTUM) arg (Some v) True g))))) = g"
    by (rule scullc_ioctl_correct_parts(3))
  have c4: "scullc_ioctl (cmd_word IOCXQSET) arg (Some v) True g =
      (0, Some (scullc_qset g), g\<lparr>scullc_qset := v\<rparr>)"
    by (rule scullc_ioctl_correct_parts(4))
  have c5: "snd (snd (scullc_ioctl (cmd_word IOCXQSET) arg (Some (scullc_qset g)) True
      (snd (snd (scullc_ioctl (cmd_word IOCXQSET) arg (Some v) True g))))) = g"
    by (rule scullc_ioctl_correct_parts(5))
  have c6: "scullc_ioctl (cmd_word IOCQQUANTUM) arg u ok g = (sint (scullc_quantum g), None, g)"
    by (rule scullc_ioctl_correct_parts(6))
  have c7: "scullc_ioctl (cmd_word IOCHQUANTUM) arg u ok g =
      (sint (scullc_quantum g), None, g\<lparr>scullc_quantum := ucast arg\<rparr>)"
    by (rule scullc_ioctl_correct_parts(7))
  have c8: "scullc_ioctl (cmd_word IOCTQSET) arg u ok g = (0, None, g\<lparr>scullc_qset := ucast arg\<rparr>)"
    by (rule scullc_ioctl_correct_parts(8))
  have c9: "scullc_ioctl (cmd_word IOCRESET) arg u ok g =
      (0, None, g\<lparr>scullc_qset := 500, scullc_quantum := 4000\<rparr>)"
    by (rule scullc_ioctl_correct_parts(9))
  show ?thesis by (rule conjI [OF c1 conjI [OF c2 conjI [OF c3 conjI [OF c4 conjI [OF c5 conjI [OF c6 conjI [OF c7 conjI [OF c8 c9]]]]]]]])
qed

theorem scullc_ioctl_correct_witness:
  "scullc_ioctl 0 0 None True sample_glob = (- 25, None, sample_glob)"
proof (rule scullc_ioctl_correct [THEN conjunct1, THEN mp], rule allI)
  fix c show "0 \<noteq> cmd_word c" by (cases c) (simp_all add: cmd_numerals)
qed

text \<open>Raising the quantum above the object size of the slab cache makes the driver write
  past its objects: after \<open>IOCTQUANTUM\<close> with such a value, every \<open>scullc_write\<close> that needs a new
  quantum clears \<open>scullc_quantum\<close> bytes of an object of \<open>cache_object\<close> bytes. A write to a quantum
  that exists is not affected.\<close>

theorem scullc_quantum_overflow:
  assumes "wf_dev g dev" and "pos_ok dev p" and "calm e"
    and "int (cache_object g) < sint (ucast arg :: c_int)"
    and "quantum_no (sz dev) (items dev) (unat p div qz dev) = None"
  shows "scullc_write e (snd (snd (scullc_ioctl (cmd_word IOCTQUANTUM) arg u ok g))) dev buf n p =
    Inl OutOfBounds"
proof -
  let ?j = "unat p div qz dev" and ?s = "sz dev"
  from assms(3) have e: "\<not> intr e" "\<forall>b \<in> set (allocs e). b" by (auto simp: calm_def)
  from assms(1) have g: "geometry g dev" and ne: "items dev \<noteq> []"
    and io: "list_all (item_ok ?s (qz dev)) (items dev)" by (auto simp: wf_dev_def)
  note b = geometry_bounds [OF g]
  from follow_extend [OF ne e(2), of "?j div ?s"] obtain mem1 k where
    m1: "\<forall>b \<in> set mem1. b" and
    f: "scullc_follow (?j div ?s) (allocs e) (items dev) = Inr (items dev @ replicate k None, mem1)"
    and k: "k = Suc (?j div ?s) - length (items dev)" by blast
  define its where "its = items dev @ replicate k None"
  have len: "?j div ?s < length its" by (simp add: its_def k)
  have "list_all (item_ok ?s (qz dev)) its"
    using io by (auto simp: its_def list_all_iff item_ok_def)
  then have it: "item_ok ?s (qz dev) (its ! (?j div ?s))" using len by (simp add: list_all_length)
  from need_data_succeeds [OF m1 g it] obtain data mem2 where
    d: "need_data dev mem1 (its ! (?j div ?s)) = (Some data, mem2)" and m2: "\<forall>b \<in> set mem2. b"
    and dok: "item_ok ?s (qz dev) (Some data)"
    and dn: "\<forall>i < ?s. data ! i = (case its ! (?j div ?s) of None \<Rightarrow> None | Some d \<Rightarrow> d ! i)"
    by blast
  have js: "?j mod ?s < ?s" using b by simp
  have ld: "length data = ?s" using dok by (simp add: item_ok_def)
  have "data ! (?j mod ?s) = quantum_no ?s its ?j"
    using dn js quantum_no_items [OF len] by simp
  also have "\<dots> = None" using assms(5) by (simp add: its_def)
  finally have dj: "data ! (?j mod ?s) = None" .
  obtain mem3 where a: "next_alloc mem2 = (True, mem3)"
    using next_alloc_succeeds [OF m2] by blast
  have big: "\<not> nat (sint (ucast arg :: c_int)) \<le> cache_object g" using assms(4) by linarith
  show ?thesis
    using e(1) js big
    by (simp add: scullc_ioctl_known scullc_write_def scullc_do_write_def locate_wf [OF g assms(2)] f
        its_def [symmetric] d ld dj need_quantum_def a)
qed

theorem scullc_quantum_overflow_witness:
  "scullc_write calm_env (snd (snd (scullc_ioctl (cmd_word IOCTQUANTUM) 4096 None True sample_glob)))
     sample_scullc [1] 1 6 = Inl OutOfBounds"
proof (rule scullc_quantum_overflow [OF sample_scullc_wf sample_pos calm_env_calm])
  show "int (cache_object sample_glob) < sint (ucast (4096 :: c_long) :: c_int)"
    by (simp add: sample_glob_def)
  show "quantum_no (sz sample_scullc) (items sample_scullc)
      (unat (6::loff_t) div qz sample_scullc) = None"
    by (simp add: quantum_no_def) (simp add: sample_scullc_def)
qed

text \<open>A faulting \<open>IOCSQUANTUM\<close> (or any command that sets the quantum to 0) leaves 0 in the
  parameter; a device opened for writing afterwards takes it over, and every later read or
  write of the empty device divides by zero.\<close>

theorem scullc_zero_quantum:
  assumes "wf_dev g dev" and "vmas dev = 0" and "calm e" and "and flags O_ACCMODE = O_WRONLY"
    and "g' = snd (snd (scullc_ioctl (cmd_word IOCSQUANTUM) arg None ok g))"
  shows "fst (scullc_ioctl (cmd_word IOCSQUANTUM) arg None ok g) = - EFAULT \<and>
    (\<exists>dev'. scullc_open e g' flags dev = Inr (0, dev') \<and>
      scullc_read e dev' n 0 = Inl DivByZero \<and> scullc_write e g' dev' buf n p = Inl DivByZero)"
proof -
  let ?dev = "dev\<lparr>items := [None], dev_size := 0, qset := scullc_qset g, quantum := 0\<rparr>"
  have g': "g' = g\<lparr>scullc_quantum := 0\<rparr>"
    by (simp add: assms(5) scullc_ioctl_known get_user_def)
  from assms(1) have ok: "list_all (item_ok (sz dev) (qz dev)) (items dev)" by (simp add: wf_dev_def)
  then have "list_all (\<lambda>it. case it of None \<Rightarrow> True | Some data \<Rightarrow> sz dev \<le> length data) (items dev)"
    by (auto simp: list_all_iff item_ok_def split: option.split)
  then have t: "scullc_trim g' dev = Inr (0, freed_quanta (sz dev) (items dev), ?dev)"
    unfolding scullc_trim_def Let_def sz_def [symmetric] using assms(2) by (simp add: g')
  have "\<not> intr e" using assms(3) by (simp add: calm_def)
  then have "scullc_open e g' flags dev = Inr (0, ?dev)" and "scullc_read e ?dev n 0 = Inl DivByZero"
    and "scullc_write e g' ?dev buf n p = Inl DivByZero"
    using assms(4) t
    by (simp_all add: scullc_open_def scullc_read_def scullc_write_def scullc_do_read_def
        scullc_do_write_def locate_def Let_def)
  moreover have "fst (scullc_ioctl (cmd_word IOCSQUANTUM) arg None ok g) = - EFAULT"
    by (simp add: scullc_ioctl_known get_user_def)
  ultimately show ?thesis by blast
qed

theorem scullc_zero_quantum_witness:
  "\<exists>dev'. scullc_open calm_env (sample_glob\<lparr>scullc_quantum := 0\<rparr>) 1 sample_scullc = Inr (0, dev') \<and>
     scullc_read calm_env dev' 5 0 = Inl DivByZero"
proof -
  have v: "vmas sample_scullc = 0" by (simp add: sample_scullc_def)
  have g: "sample_glob\<lparr>scullc_quantum := 0\<rparr> =
      snd (snd (scullc_ioctl (cmd_word IOCSQUANTUM) 0 None True sample_glob))"
    by (simp add: scullc_ioctl_known get_user_def)
  have f: "and (1::c_uint) O_ACCMODE = O_WRONLY" by simp
  from scullc_zero_quantum [OF sample_scullc_wf v calm_env_calm f g] show ?thesis by blast
qed

section \<open>Running out of memory\<close>

lemma follow_fails:
  "its \<noteq> [] \<Longrightarrow> length its \<le> n \<Longrightarrow> scullc_follow n (False # mem) its = Inl NullDeref"
proof (induction n arbitrary: its)
  case (Suc n)
  from Suc.prems(1) obtain it its' where its: "its = it # its'" by (cases its) auto
  show ?case
  proof (cases its')
    case (Cons jt its'')
    with Suc its show ?thesis by simp
  qed (simp add: its)
qed simp

lemma scullc_follow_oom_parts:
  assumes "wf_dev g dev" and "pos_ok dev p" and "\<not> intr e" and "allocs e = False # mem"
  shows "length (items dev) \<le> unat p div qz dev div sz dev \<Longrightarrow>
      scullc_write e g dev buf n p = Inl NullDeref \<and>
      (p \<le> dev_size dev \<longrightarrow> scullc_read e dev n p = Inl NullDeref)"
    and "items dev = [None] \<Longrightarrow> unat p div qz dev < sz dev \<Longrightarrow>
      scullc_write e g dev buf n p = Inr (- ENOMEM, p, dev)"
proof -
  have g: "geometry g dev" and ne: "items dev \<noteq> []" using assms(1) by (auto simp: wf_dev_def)
  note l = locate_wf [OF g assms(2)]
  assume "length (items dev) \<le> unat p div qz dev div sz dev"
  from follow_fails [OF ne this, of mem] assms(3,4)
  show "scullc_write e g dev buf n p = Inl NullDeref \<and>
      (p \<le> dev_size dev \<longrightarrow> scullc_read e dev n p = Inl NullDeref)"
    by (auto simp: scullc_write_def scullc_do_write_def scullc_read_def scullc_do_read_def l Let_def)
next
  have g: "geometry g dev" using assms(1) by (auto simp: wf_dev_def)
  assume i: "items dev = [None]" and "unat p div qz dev < sz dev"
  then have z: "unat p div qz dev div sz dev = 0" by simp
  have "dev\<lparr>items := [None]\<rparr> = dev" using i by (cases dev) simp
  then show "scullc_write e g dev buf n p = Inr (- ENOMEM, p, dev)"
    using assms(3,4) i
    by (simp add: scullc_write_def scullc_do_write_def locate_wf [OF g assms(2)] z need_data_def)
qed

text \<open>When the list has to grow and the allocation of a list item fails, \<open>scullc_follow\<close>
  clears the item before it tests the pointer, so both reading and writing beyond the last
  item dereference null. An allocation failure at the two later places is reported as
  \<open>ENOMEM\<close>.\<close>

theorem scullc_follow_oom:
  assumes "wf_dev g dev" and "pos_ok dev p" and "\<not> intr e" and "allocs e = False # mem"
  shows "(length (items dev) \<le> unat p div qz dev div sz dev \<longrightarrow> (scullc_write e g dev buf n p = Inl NullDeref \<and>
      (p \<le> dev_size dev \<longrightarrow> scullc_read e dev n p = Inl NullDeref)) ) \<and>
    (items dev = [None] \<longrightarrow> unat p div qz dev < sz dev \<longrightarrow>
      scullc_write e g dev buf n p = Inr (- ENOMEM, p, dev))"
proof -
  have c1: "length (items dev) \<le> unat p div qz dev div sz dev \<longrightarrow> (scullc_write e g dev buf n p = Inl NullDeref \<and>
      (p \<le> dev_size dev \<longrightarrow> scullc_read e dev n p = Inl NullDeref)) "
    by (intro impI) (rule scullc_follow_oom_parts(1) [OF assms]; assumption)
  have c2: "items dev = [None] \<longrightarrow> unat p div qz dev < sz dev \<longrightarrow>
      scullc_write e g dev buf n p = Inr (- ENOMEM, p, dev)"
    by (intro impI) (rule scullc_follow_oom_parts(2) [OF assms]; assumption)
  show ?thesis by (rule conjI [OF c1 c2])
qed

theorem scullc_follow_oom_witness:
  "scullc_write (calm_env\<lparr>allocs := [False]\<rparr>) sample_glob sample_scullc [1] 1 100 = Inl NullDeref \<and>
   scullc_write (calm_env\<lparr>allocs := [False]\<rparr>) sample_glob sample_scullc [1] 1 6 = Inr (-12, 6, sample_scullc)"
proof -
  let ?e = "calm_env\<lparr>allocs := [False]\<rparr>"
  have e: "\<not> intr ?e" "allocs ?e = False # []" by (simp_all add: calm_env_def)
  have p: "pos_ok sample_scullc 100" by (simp add: pos_ok_def)
  have i: "items sample_scullc = [None]" by (simp add: sample_scullc_def)
  from scullc_follow_oom [OF sample_scullc_wf p e, where buf = "[1]" and n = 1]
    scullc_follow_oom [OF sample_scullc_wf sample_pos e, where buf = "[1]" and n = 1]
  show ?thesis by (simp add: i)
qed

lemma scullc_rw_safe_parts:
  assumes "wf_dev g dev" and "pos_ok dev p" and "\<forall>b \<in> set (allocs e). b"
    and "user_copy_ok (of_nat (chunk dev p count)) (left e)" and "chunk dev p count \<le> length buf"
  shows "\<exists>r out p' dev'. scullc_do_read e dev count p aio = Inr (r, out, p', dev') \<and> wf_dev g dev'"
    and "\<exists>r p' dev'. scullc_do_write e g dev buf count p aio = Inr (r, p', dev') \<and> wf_dev g dev'"
proof -
  show "\<exists>r out p' dev'. scullc_do_read e dev count p aio = Inr (r, out, p', dev') \<and> wf_dev g dev'"
  proof (cases "intr e \<or> dev_size dev < p")
    case True
    then show ?thesis using assms(1) by (auto simp: scullc_do_read_def)
  next
    case False
    then have i: "\<not> intr e" and le: "p \<le> dev_size dev" by auto
    from read_loads [OF assms(1,2) i assms(3) le, where count = count and aio = aio] show ?thesis
    proof (elim exE conjE, goal_cases)
      case (1 its)
      from wf_dev_items(1) [OF assms(1) 1(1,2)] 1(4) show ?thesis
        by (cases "quantum_no (sz dev) (items dev) (unat p div qz dev)") auto
    qed
  qed
  show "\<exists>r p' dev'. scullc_do_write e g dev buf count p aio = Inr (r, p', dev') \<and> wf_dev g dev'"
  proof (cases "intr e")
    case True
    then show ?thesis using assms(1) by (simp add: scullc_do_write_def)
  next
    case False
    let ?n = "chunk dev p count"
    have g: "geometry g dev" using assms(1) by (simp add: wf_dev_def)
    have n: "unat (of_nat ?n :: size_t) = ?n" using chunk_word(2) [OF g, of p count] by simp
    have len: "length (copied_in (of_nat ?n) (if aio then 0 else left e) (take ?n buf)) = ?n"
      using length_copied_in [of "of_nat ?n" "left e" "take ?n buf"] assms(4,5) n by simp
    from write_stores [OF assms(1,2) False assms(3), where count = count and aio = aio and buf = buf]
    show ?thesis
    proof (elim exE conjE, goal_cases)
      case (1 its)
      from 1(3) len have "wf_dev g (dev\<lparr>items := its\<rparr>)" by (intro wf_dev_items(1) [OF assms(1) 1(2)]) simp
      with 1(1) wf_dev_items(2) [where dev = "dev\<lparr>items := its\<rparr>" and g = g] show ?thesis
        by (cases "aio \<or> (if aio then 0 else left e) \<noteq> 0") auto
    qed
  qed
qed

text \<open>With memory available, \<open>scullc_do_read\<close> and \<open>scullc_do_write\<close> stay inside the driver's
  objects and keep the device well formed, whatever position and count the VFS accepts,
  however many bytes the user copy leaves, interrupted or not, on both the synchronous and the
  asynchronous path.\<close>

theorem scullc_rw_safe:
  assumes "wf_dev g dev" and "pos_ok dev p" and "\<forall>b \<in> set (allocs e). b"
    and "user_copy_ok (of_nat (chunk dev p count)) (left e)" and "chunk dev p count \<le> length buf"
  shows "(\<exists>r out p' dev'. scullc_do_read e dev count p aio = Inr (r, out, p', dev') \<and> wf_dev g dev') \<and>
    (\<exists>r p' dev'. scullc_do_write e g dev buf count p aio = Inr (r, p', dev') \<and> wf_dev g dev')"
proof -
  have c1: "\<exists>r out p' dev'. scullc_do_read e dev count p aio = Inr (r, out, p', dev') \<and> wf_dev g dev'"
    by (rule scullc_rw_safe_parts(1) [OF assms])
  have c2: "\<exists>r p' dev'. scullc_do_write e g dev buf count p aio = Inr (r, p', dev') \<and> wf_dev g dev'"
    by (rule scullc_rw_safe_parts(2) [OF assms])
  show ?thesis by (rule conjI [OF c1 c2])
qed

theorem scullc_rw_safe_witness:
  "\<exists>r p' dev'. scullc_do_write calm_env sample_glob sample_scullc [1, 2, 3] 3 6 False = Inr (r, p', dev') \<and>
     wf_dev sample_glob dev'"
  using scullc_rw_safe [OF sample_scullc_wf sample_pos, where e = calm_env and count = 3 and buf = "[1, 2, 3]" and aio = False]
  by (simp add: calm_env_def user_copy_ok_def sample_chunk)

section \<open>Loading and unloading\<close>

text \<open>
  What the module holds while it is loaded: the character device region, the array of
  devices, each device's \<open>cdev\<close> (initialised whether or not it could be added), the minor that
  makes an added \<open>cdev\<close> reachable, and the slab cache.
\<close>

datatype scullc_res = ChrRegion | DevArray | CdevOf nat | MinorOf nat | QuantumCache

record scullc_load =
  devs :: nat
  region_result :: int
  devices_ok :: bool
  cdev_err :: "nat \<Rightarrow> int"
  cache_ok :: bool

(* src: io/lab6_aio.c:548-559 scullc_setup_cdev *)
definition scullc_setup_cdev :: "scullc_load \<Rightarrow> nat \<Rightarrow> scullc_res ledger \<Rightarrow> scullc_res ledger" where
  "scullc_setup_cdev e i k =
     (let k = acquire (CdevOf i) k
      in if cdev_err e i = 0 then acquire (MinorOf i) k else k)"

definition cdev_del :: "scullc_load \<Rightarrow> nat \<Rightarrow> scullc_res ledger \<Rightarrow> scullc_res ledger" where
  "cdev_del e i k =
     release (CdevOf i) (if cdev_err e i = 0 then release (MinorOf i) k else k)"

(* src: io/lab6_aio.c:621-638 scullc_cleanup *)
definition scullc_cleanup :: "scullc_load \<Rightarrow> scullc_res ledger \<Rightarrow> scullc_res ledger" where
  "scullc_cleanup e k =
     (let k = fold (cdev_del e) [0..<devs e] k;
          k = release DevArray k;
          k = (if cache_ok e then release QuantumCache k else k)
      in release ChrRegion k)"

(* src: io/lab6_aio.c:567-617 scullc_init *)
definition scullc_init :: "scullc_load \<Rightarrow> scullc_res ledger \<Rightarrow> int \<times> scullc_res ledger" where
  "scullc_init e k =
     (if region_result e < 0 then (region_result e, k)
      else
        let k = acquire ChrRegion k
        in if \<not> devices_ok e then (- ENOMEM, release ChrRegion k)
        else
          let k = fold (scullc_setup_cdev e) [0..<devs e] (acquire DevArray k)
          in if \<not> cache_ok e then (- ENOMEM, scullc_cleanup e k)
          else (0, acquire QuantumCache k))"

definition cdevs :: "scullc_load \<Rightarrow> nat \<Rightarrow> scullc_res list" where
  "cdevs e n = concat (map (\<lambda>i. (if cdev_err e i = 0 then [MinorOf i] else []) @ [CdevOf i]) (rev [0..<n]))"

definition cdevs_order :: "scullc_load \<Rightarrow> nat \<Rightarrow> scullc_res list" where
  "cdevs_order e n = concat (map (\<lambda>i. (if cdev_err e i = 0 then [MinorOf i] else []) @ [CdevOf i]) [0..<n])"

definition scullc_owns :: "scullc_load \<Rightarrow> scullc_res list" where
  "scullc_owns e = QuantumCache # cdevs e (devs e) @ [DevArray, ChrRegion]"

lemma setup_cdevs:
  "held (fold (scullc_setup_cdev e) [0..<n] k) = cdevs e n @ held k"
  "faults (fold (scullc_setup_cdev e) [0..<n] k) = faults k"
  by (induction n) (simp_all add: cdevs_def scullc_setup_cdev_def Let_def)

lemma cdev_dels: "fold (cdev_del e) [0..<n] k = release_all (cdevs_order e n) k"
  by (induction n) (simp_all add: cdevs_order_def cdev_del_def)

lemma cdevs_members:
  "set (cdevs e n) = CdevOf ` {0..<n} \<union> MinorOf ` {i. i < n \<and> cdev_err e i = 0}"
  "set (cdevs_order e n) = CdevOf ` {0..<n} \<union> MinorOf ` {i. i < n \<and> cdev_err e i = 0}"
  by (auto simp: cdevs_def cdevs_order_def split: if_splits)

lemma cdevs_Suc:
  "cdevs e (Suc n) = (if cdev_err e n = 0 then [MinorOf n] else []) @ CdevOf n # cdevs e n"
  "cdevs_order e (Suc n) = cdevs_order e n @ (if cdev_err e n = 0 then [MinorOf n] else []) @ [CdevOf n]"
  by (simp_all add: cdevs_def cdevs_order_def)

lemma cdevs_distinct: "distinct (cdevs e n)" "distinct (cdevs_order e n)"
proof (induction n)
  case 0
  case 1 show ?case by (simp add: cdevs_def)
  case 2 show ?case by (simp add: cdevs_order_def)
next
  case (Suc n)
  case 1 show ?case using Suc by (auto simp: cdevs_Suc cdevs_members)
  case 2 show ?case using Suc by (auto simp: cdevs_Suc cdevs_members)
qed

lemma cleanup_as_list:
  "scullc_cleanup e = release_all
     (cdevs_order e (devs e) @ [DevArray] @ (if cache_ok e then [QuantumCache] else []) @ [ChrRegion])"
  by (rule ext) (simp add: scullc_cleanup_def cdev_dels Let_def)

lemma cleanup_all:
  assumes "held k = (if cache_ok e then [QuantumCache] else []) @ cdevs e (devs e) @ [DevArray, ChrRegion] @ h"
  shows "held (scullc_cleanup e k) = h \<and> faults (scullc_cleanup e k) = faults k"
  unfolding cleanup_as_list
  by (rule release_all_owned
      [where os = "(if cache_ok e then [QuantumCache] else []) @ cdevs e (devs e) @ [DevArray, ChrRegion]"])
    (auto simp: cdevs_distinct cdevs_members assms)

text \<open>The module keeps the contract of a loadable module, even when a \<open>cdev\<close> could not be added.\<close>

definition scullc_env_ok :: "scullc_load \<Rightarrow> bool" where
  "scullc_env_ok e \<longleftrightarrow> region_result e \<le> 0"

lemma ledger_eqI: "held (k::'r ledger) = held k' \<Longrightarrow> faults k = faults k' \<Longrightarrow> k = k'"
  by simp

interpretation scullc_module: module_lifecycle scullc_env_ok scullc_init scullc_owns scullc_cleanup
proof (unfold_locales, goal_cases)
  case (1 e k)
  then show ?case
    by (auto simp: scullc_init_def scullc_owns_def setup_cdevs Let_def split: if_splits)
next
  case (2 e k)
  show ?case
  proof (cases "region_result e < 0 \<or> \<not> devices_ok e")
    case True
    then show ?thesis using 2 by (auto simp: scullc_init_def Let_def)
  next
    case False
    let ?k = "fold (scullc_setup_cdev e) [0..<devs e] (acquire DevArray (acquire ChrRegion k))"
    from False 2(2) have c: "\<not> cache_ok e" by (auto simp: scullc_init_def Let_def)
    with False have "snd (scullc_init e k) = scullc_cleanup e ?k"
      by (simp add: scullc_init_def Let_def)
    moreover have "held (scullc_cleanup e ?k) = held k \<and> faults (scullc_cleanup e ?k) = faults ?k"
      by (rule cleanup_all) (simp add: c setup_cdevs)
    ultimately show ?thesis by (intro ledger_eqI) (simp_all add: setup_cdevs)
  qed
next
  case (3 e k0 k h)
  then have "cache_ok e" by (auto simp: scullc_init_def Let_def split: if_splits)
  with 3 show ?case by (intro cleanup_all) (simp add: scullc_owns_def)
qed

text \<open>However often the module is loaded and unloaded, with any outcome of registering the
  region, of each \<open>cdev_add\<close>, of allocating the device array and of creating the cache, the
  kernel resources it acquired are all given back, each exactly once.\<close>

theorem scullc_module_balanced:
  assumes "\<forall>e \<in> set es. region_result e \<le> 0"
  shows "cycles scullc_init scullc_cleanup es k = k"
proof -
  have "list_all scullc_env_ok es" using assms by (simp add: list_all_iff scullc_env_ok_def)
  then show ?thesis by (rule scullc_module.cycles_id)
qed

theorem scullc_module_balanced_witness:
  "let e = \<lparr>devs = 4, region_result = 0, devices_ok = True, cdev_err = (\<lambda>i. if i = 2 then -12 else 0),
     cache_ok = True\<rparr>
   in cycles scullc_init scullc_cleanup [e, e\<lparr>cache_ok := False\<rparr>, e] empty_ledger = empty_ledger"
  unfolding Let_def by (rule scullc_module_balanced) simp

end
