(* ===== verification/Usb_Skel.thy ===== *)
theory Usb_Skel
  imports Interfaces
begin

text \<open>
  \<open>src/usb/usb-skeleton.c\<close>: a USB driver with one read URB and up to eight write URBs in
  flight. The state is \<open>struct usb_skel\<close> with the URBs the USB core holds for it and the place
  every call in progress has reached. A call is cut where it can sleep or where it touches what
  the others touch: a writer that holds a slot and a buffer and waits for \<open>io_mutex\<close>, a reader
  asleep on its URB, a reset that waits for the URBs to drain are states of the machine.
\<close>

section \<open>State\<close>

abbreviation (input) MAX_TRANSFER :: nat where "MAX_TRANSFER \<equiv> 3584" \<comment> \<open>PAGE_SIZE - 512\<close>

(* src: usb/usb-skeleton.c:44-44 WRITES_IN_FLIGHT *)
definition WRITES_IN_FLIGHT :: nat where "WRITES_IN_FLIGHT = 8"

text \<open>
  Where a call of \<open>skel_write\<close> stands: it holds a slot from \<open>WErrors\<close> on, and a DMA buffer from
  \<open>WCopy\<close> on. \<open>WLock\<close> is about to take \<open>io_mutex\<close>, \<open>WSubmit\<close> holds it. \<open>WFail rv b\<close> is at the
  label \<open>error\<close>, with a buffer if \<open>b\<close>. \<open>WDone\<close> has returned.
\<close>

datatype writer_pc = WErrors | WAlloc | WCopy | WLock | WSubmit | WFail int bool | WDone int

record writer =
  w_pc :: writer_pc
  w_user :: "byte list"
  w_size :: nat

text \<open>
  Where a reader that holds \<open>io_mutex\<close> stands: at \<open>retry\<close>, in \<open>wait_event_interruptible\<close>, before it
  reads \<open>errors\<close>, before it clears them, before it looks at the buffer.
\<close>

datatype reader_pc = RLook | RWait | RErrors | RClear int | RData

text \<open>Where \<open>skel_draw_down\<close> stands: waiting, killing writes, before killing the read, returned.\<close>

datatype drain_pc = DWait | DWrites | DRead | DEnd

text \<open>
  Who holds \<open>io_mutex\<close>: a reader (non-blocking or not, with its count), the writer of that
  number, a flush, or a reset.
\<close>

datatype mutex_holder = Free | Reader bool nat reader_pc | Writing nat | Flushing drain_pc | Resetter

text \<open>
  What the USB core is doing with the interface; it calls the interface's callbacks under the
  device lock, one at a time. \<open>Gone\<close>: disconnected.
\<close>

datatype core_call =
    CoreIdle | Suspending drain_pc | Resetting drain_pc | ResetHeld
  | DiscLock | DiscRead | DiscWrites | DiscPut | Gone

text \<open>
  \<open>limit_sem\<close> is the semaphore's count, \<open>anchored\<close> the data of the write URBs submitted and not
  completed, and \<open>coherent\<close> the number of DMA buffers allocated and not freed.
  \<open>bulk_in_size\<close> is the length of the receive buffer, and \<open>rd_len\<close> the length the read URB was
  filled with. \<open>opens\<close> is the number of files whose \<open>private_data\<close> is the device. \<open>stream\<close> is a
  history variable: the bytes the device delivered.
\<close>

(* src: usb/usb-skeleton.c:48-67 struct usb_skel *)
record usb_skel =
  limit_sem :: nat
  anchored :: "byte list list"
  coherent :: nat
  bulk_in_buffer :: "byte list"
  bulk_in_filled :: nat
  bulk_in_copied :: nat
  rd_len :: nat
  errors :: int
  ongoing_read :: bool
  kref :: nat
  disconnected :: bool
  opens :: nat
  pm_count :: nat
  deleted :: bool
  io_mutex :: mutex_holder
  writers :: "writer list"
  core_op :: core_call
  stream :: "byte list"

text \<open>The interface points to the device until the disconnect begins.\<close>

definition bound :: "usb_skel \<Rightarrow> bool" where
  "bound dev \<longleftrightarrow> (case core_op dev of
     CoreIdle \<Rightarrow> True | Suspending d \<Rightarrow> True | Resetting d \<Rightarrow> True | ResetHeld \<Rightarrow> True | _ \<Rightarrow> False)"

section \<open>Life of the device object\<close>

(* src: usb/usb-skeleton.c:72-81 skel_delete *)
definition skel_delete :: "usb_skel \<Rightarrow> usb_skel" where
  "skel_delete dev = dev\<lparr>deleted := True\<rparr>"

definition kref_put :: "usb_skel \<Rightarrow> usb_skel" where
  "kref_put dev =
     (let dev = dev\<lparr>kref := kref dev - 1\<rparr>
      in if kref dev = 0 then skel_delete dev else dev)"

(* src: usb/usb-skeleton.c:83-118 skel_open *)
definition skel_open :: "int \<Rightarrow> usb_skel \<Rightarrow> int \<times> usb_skel" where
  "skel_open pm dev =
     (if \<not> bound dev then (- ENODEV, dev)
      else if pm \<noteq> 0 then (pm, dev)
      else (0, dev\<lparr>pm_count := pm_count dev + 1, kref := kref dev + 1, opens := opens dev + 1\<rparr>))"

(* src: usb/usb-skeleton.c:120-134 skel_release *)
definition skel_release :: "usb_skel \<Rightarrow> int \<times> usb_skel" where
  "skel_release dev =
     (if opens dev = 0 then (- ENODEV, dev)
      else (0, kref_put (dev\<lparr>pm_count := pm_count dev - 1, opens := opens dev - 1\<rparr>)))"

section \<open>Completion handlers\<close>

text \<open>
  The host controller stores at most the bytes the URB asks for, then the handler runs with
  its status. Killing a URB completes it with \<open>ENOENT\<close>.
\<close>

(* src: usb/usb-skeleton.c:160-185 skel_read_bulk_callback *)
definition skel_read_bulk_callback :: "int \<Rightarrow> byte list \<Rightarrow> usb_skel \<Rightarrow> usb_skel" where
  "skel_read_bulk_callback status data dev =
     (let data = take (rd_len dev) data;
          dev = dev\<lparr>bulk_in_buffer := put_range 0 data (bulk_in_buffer dev)\<rparr>;
          dev = (if status \<noteq> 0 then dev\<lparr>errors := status\<rparr>
                 else dev\<lparr>bulk_in_filled := length data, stream := stream dev @ data\<rparr>)
      in dev\<lparr>ongoing_read := False\<rparr>)"

text \<open>The write URB of number \<open>i\<close> completes: its buffer is freed and its slot given back.\<close>

(* src: usb/usb-skeleton.c:332-357 skel_write_bulk_callback *)
definition skel_write_bulk_callback :: "nat \<Rightarrow> int \<Rightarrow> usb_skel \<Rightarrow> usb_skel" where
  "skel_write_bulk_callback i status dev =
     (let dev = dev\<lparr>anchored := take i (anchored dev) @ drop (Suc i) (anchored dev)\<rparr>;
          dev = (if status \<noteq> 0 then dev\<lparr>errors := status\<rparr> else dev);
          dev = dev\<lparr>coherent := coherent dev - 1\<rparr>
      in dev\<lparr>limit_sem := limit_sem dev + 1\<rparr>)"

definition kill_read :: "usb_skel \<Rightarrow> usb_skel" where
  "kill_read dev = (if ongoing_read dev then skel_read_bulk_callback (- ENOENT) [] dev else dev)"

section \<open>Reading\<close>

text \<open>\<open>r\<close> is the result of \<open>usb_submit_urb\<close>.\<close>

(* src: usb/usb-skeleton.c:187-222 skel_do_read_io *)
definition skel_do_read_io :: "int \<Rightarrow> nat \<Rightarrow> usb_skel \<Rightarrow> int \<times> usb_skel" where
  "skel_do_read_io r n dev =
     (let dev = dev\<lparr>rd_len := min (length (bulk_in_buffer dev)) n, ongoing_read := True,
                    bulk_in_filled := 0, bulk_in_copied := 0\<rparr>
      in if r < 0 then (if r = - ENOMEM then r else - EIO, dev\<lparr>ongoing_read := False\<rparr>)
         else (r, dev))"

text \<open>
  The call up to the mutex. It returns (\<open>Inl\<close>), sleeps (\<open>None\<close>), or holds \<open>io_mutex\<close> at \<open>retry\<close>.
\<close>

(* src: usb/usb-skeleton.c:224-245 skel_read (to retry) *)
definition skel_read_begin :: "bool \<Rightarrow> bool \<Rightarrow> nat \<Rightarrow> usb_skel \<Rightarrow> (int + usb_skel) option" where
  "skel_read_begin nonblock signal n dev =
     (if n = 0 then Some (Inl 0)
      else if io_mutex dev \<noteq> Free then (if signal then Some (Inl (- EINTR)) else None)
      else if disconnected dev then Some (Inl (- ENODEV))
      else Some (Inr (dev\<lparr>io_mutex := Reader nonblock n RLook\<rparr>)))"

text \<open>
  What a reader meets: a signal, the bytes the user's memory does not take, the result of
  submitting the URB.
\<close>

record read_env =
  r_signal :: bool
  r_uleft :: nat
  r_submit :: int

text \<open>
  A piece of the call ends at the next one, or returns a value and gives \<open>io_mutex\<close> back; the
  bytes are those it hands to the user. \<open>None\<close>: it sleeps.
\<close>

type_synonym read_reply = "(int option \<times> byte list \<times> usb_skel) kresult option"

(* src: usb/usb-skeleton.c:326-329 skel_read (exit) *)
definition read_exit :: "int \<Rightarrow> byte list \<Rightarrow> usb_skel \<Rightarrow> read_reply" where
  "read_exit rv out dev = Some (Inr (Some rv, out, dev\<lparr>io_mutex := Free\<rparr>))"

definition read_goto :: "bool \<Rightarrow> nat \<Rightarrow> reader_pc \<Rightarrow> usb_skel \<Rightarrow> read_reply" where
  "read_goto nonblock n pc dev = Some (Inr (None, [], dev\<lparr>io_mutex := Reader nonblock n pc\<rparr>))"

(* src: usb/usb-skeleton.c:290-298 skel_read *)
definition read_more :: "read_env \<Rightarrow> bool \<Rightarrow> nat \<Rightarrow> usb_skel \<Rightarrow> read_reply" where
  "read_more e nonblock n dev =
     (case skel_do_read_io (r_submit e) n dev of
        (rv, dev) \<Rightarrow> if rv < 0 then read_exit rv [] dev else read_goto nonblock n RLook dev)"

(* src: usb/usb-skeleton.c:246-330 skel_read (retry .. exit) *)
fun skel_read_piece :: "read_env \<Rightarrow> bool \<Rightarrow> nat \<Rightarrow> reader_pc \<Rightarrow> usb_skel \<Rightarrow> read_reply" where
  "skel_read_piece e nonblock n RLook dev =
     (if ongoing_read dev
      then if nonblock then read_exit (- EAGAIN) [] dev else read_goto nonblock n RWait dev
      else read_goto nonblock n RErrors dev)"
| "skel_read_piece e nonblock n RWait dev =
     (if \<not> ongoing_read dev then read_goto nonblock n RErrors dev
      else if r_signal e then read_exit (- ERESTARTSYS) [] dev else None)"
| "skel_read_piece e nonblock n RErrors dev =
     (if errors dev < 0 then read_goto nonblock n (RClear (errors dev)) dev
      else read_goto nonblock n RData dev)"
| "skel_read_piece e nonblock n (RClear rv) dev =
     read_exit (if rv = - EPIPE then rv else - EIO) [] (dev\<lparr>errors := 0\<rparr>)"
| "skel_read_piece e nonblock n RData dev =
     (if bulk_in_filled dev \<noteq> 0 then
        let available = size_minus (bulk_in_filled dev) (bulk_in_copied dev);
            chunk = min available n
        in if available = 0 then read_more e nonblock n dev
           else if length (bulk_in_buffer dev) < bulk_in_copied dev + chunk then Some (Inl OutOfBounds)
           else
             let out = take (chunk - r_uleft e) (get_range (bulk_in_copied dev) chunk (bulk_in_buffer dev));
                 rv = (if r_uleft e \<noteq> 0 then - EFAULT else int chunk);
                 dev = dev\<lparr>bulk_in_copied := bulk_in_copied dev + chunk\<rparr>;
                 dev = (if available < n then snd (skel_do_read_io (r_submit e) (n - chunk) dev) else dev)
             in read_exit rv out dev
      else read_more e nonblock n dev)"

(* src: usb/usb-skeleton.c:224-330 skel_read *)
definition skel_read :: "read_env \<Rightarrow> usb_skel \<Rightarrow> read_reply" where
  "skel_read e dev =
     (case io_mutex dev of Reader nonblock n pc \<Rightarrow> skel_read_piece e nonblock n pc dev | _ \<Rightarrow> None)"

section \<open>Writing\<close>

text \<open>
  The answers a writer meets: the two allocations, whether the user's bytes could all be
  copied, and the result of submitting the URB.
\<close>

record write_env =
  w_urb :: bool
  w_buf :: bool
  w_copy :: bool
  w_submit :: int

text \<open>The call up to the slot: \<open>None\<close> is a writer asleep until one is free.\<close>

(* src: usb/usb-skeleton.c:359-388 skel_write (the slot) *)
definition skel_write_begin :: "bool \<Rightarrow> bool \<Rightarrow> nat \<Rightarrow> usb_skel \<Rightarrow> (writer_pc \<times> usb_skel) option" where
  "skel_write_begin nonblock signal n dev =
     (if n = 0 then Some (WDone 0, dev)
      else if limit_sem dev = 0 then
        (if nonblock then Some (WDone (- EAGAIN), dev)
         else if signal then Some (WDone (- ERESTARTSYS), dev) else None)
      else Some (WErrors, dev\<lparr>limit_sem := limit_sem dev - 1\<rparr>))"

text \<open>
  The next piece of the writer of number \<open>i\<close>. Freeing a null buffer or a null URB does
  nothing, so only a writer with a buffer frees one.
\<close>

(* src: usb/usb-skeleton.c:390-466 skel_write *)
definition skel_write :: "write_env \<Rightarrow> nat \<Rightarrow> usb_skel \<Rightarrow> (writer_pc \<times> usb_skel) option" where
  "skel_write e i dev =
     (case w_pc (writers dev ! i) of
        WErrors \<Rightarrow>
          if errors dev < 0
          then Some (WFail (if errors dev = - EPIPE then - EPIPE else - EIO) False, dev\<lparr>errors := 0\<rparr>)
          else Some (WAlloc, dev)
      | WAlloc \<Rightarrow>
          if \<not> w_urb e \<or> \<not> w_buf e then Some (WFail (- ENOMEM) False, dev)
          else Some (WCopy, dev\<lparr>coherent := coherent dev + 1\<rparr>)
      | WCopy \<Rightarrow> if \<not> w_copy e then Some (WFail (- EFAULT) True, dev) else Some (WLock, dev)
      | WLock \<Rightarrow>
          if io_mutex dev \<noteq> Free then None
          else if disconnected dev then Some (WFail (- ENODEV) True, dev)
          else Some (WSubmit, dev\<lparr>io_mutex := Writing i\<rparr>)
      | WSubmit \<Rightarrow>
          if w_submit e \<noteq> 0 then Some (WFail (w_submit e) True, dev\<lparr>io_mutex := Free\<rparr>)
          else Some (WDone (int (w_size (writers dev ! i))),
            dev\<lparr>anchored := anchored dev @ [take (w_size (writers dev ! i)) (w_user (writers dev ! i))],
                io_mutex := Free\<rparr>)
      | WFail rv True \<Rightarrow> Some (WFail rv False, dev\<lparr>coherent := coherent dev - 1\<rparr>)
      | WFail rv False \<Rightarrow> Some (WDone rv, dev\<lparr>limit_sem := limit_sem dev + 1\<rparr>)
      | WDone rv \<Rightarrow> None)"

text \<open>A call that starts with the user's bytes, and one that moves on.\<close>

definition new_writer :: "writer_pc \<Rightarrow> byte list \<Rightarrow> nat \<Rightarrow> usb_skel \<Rightarrow> usb_skel" where
  "new_writer pc user n dev =
     dev\<lparr>writers := writers dev @ [\<lparr>w_pc = pc, w_user = user, w_size = min n MAX_TRANSFER\<rparr>]\<rparr>"

definition move_writer :: "nat \<Rightarrow> writer_pc \<Rightarrow> usb_skel \<Rightarrow> usb_skel" where
  "move_writer i pc dev = dev\<lparr>writers := (writers dev)[i := (writers dev ! i)\<lparr>w_pc := pc\<rparr>]\<rparr>"

section \<open>Draining, suspend, reset, disconnect\<close>

text \<open>
  A piece of \<open>skel_draw_down\<close>: it waits until no write URB is left or a second is over
  (\<open>timeout\<close>), then kills those that are left, one at a time (number \<open>i\<close> next), then the read URB.
\<close>

(* src: usb/usb-skeleton.c:586-594 skel_draw_down *)
fun skel_draw_down :: "bool \<Rightarrow> nat \<Rightarrow> drain_pc \<Rightarrow> usb_skel \<Rightarrow> (drain_pc \<times> usb_skel) option" where
  "skel_draw_down timeout i DWait dev =
     (if anchored dev = [] then Some (DRead, dev)
      else if timeout then Some (DWrites, dev) else None)"
| "skel_draw_down timeout i DWrites dev =
     (if anchored dev = [] then Some (DRead, dev)
      else if i < length (anchored dev) then Some (DWrites, skel_write_bulk_callback i (- ENOENT) dev)
      else None)"
| "skel_draw_down timeout i DRead dev = Some (DEnd, kill_read dev)"
| "skel_draw_down timeout i DEnd dev = None"

(* src: usb/usb-skeleton.c:141-146 skel_flush (to the drain) *)
definition skel_flush_begin :: "usb_skel \<Rightarrow> usb_skel option" where
  "skel_flush_begin dev = (if io_mutex dev \<noteq> Free then None else Some (dev\<lparr>io_mutex := Flushing DWait\<rparr>))"

text \<open>The end of a flush: it reports and clears the errors and gives the mutex back.\<close>

(* src: usb/usb-skeleton.c:149-157 skel_flush *)
definition skel_flush_end :: "usb_skel \<Rightarrow> int \<times> usb_skel" where
  "skel_flush_end dev =
     (if errors dev \<noteq> 0 then (if errors dev = - EPIPE then - EPIPE else - EIO) else 0,
      dev\<lparr>errors := 0, io_mutex := Free\<rparr>)"

(* src: usb/usb-skeleton.c:136-158 skel_flush *)
definition skel_flush :: "bool \<Rightarrow> nat \<Rightarrow> usb_skel \<Rightarrow> usb_skel option" where
  "skel_flush timeout i dev =
     (case io_mutex dev of
        Flushing DEnd \<Rightarrow> Some (snd (skel_flush_end dev))
      | Flushing d \<Rightarrow> map_option (\<lambda>(d, dev). dev\<lparr>io_mutex := Flushing d\<rparr>) (skel_draw_down timeout i d dev)
      | _ \<Rightarrow> None)"

(* src: usb/usb-skeleton.c:596-604 skel_suspend *)
definition skel_suspend :: "bool \<Rightarrow> nat \<Rightarrow> usb_skel \<Rightarrow> usb_skel option" where
  "skel_suspend timeout i dev =
     (case core_op dev of
        CoreIdle \<Rightarrow> Some (dev\<lparr>core_op := Suspending DWait\<rparr>)
      | Suspending DEnd \<Rightarrow> Some (dev\<lparr>core_op := CoreIdle\<rparr>)
      | Suspending d \<Rightarrow> map_option (\<lambda>(d, dev). dev\<lparr>core_op := Suspending d\<rparr>) (skel_draw_down timeout i d dev)
      | _ \<Rightarrow> None)"

(* src: usb/usb-skeleton.c:606-609 skel_resume *)
definition skel_resume :: "usb_skel \<Rightarrow> int \<times> usb_skel" where
  "skel_resume dev = (0, dev)"

(* src: usb/usb-skeleton.c:611-619 skel_pre_reset *)
definition skel_pre_reset :: "bool \<Rightarrow> nat \<Rightarrow> usb_skel \<Rightarrow> usb_skel option" where
  "skel_pre_reset timeout i dev =
     (case core_op dev of
        CoreIdle \<Rightarrow>
          if io_mutex dev \<noteq> Free then None
          else Some (dev\<lparr>io_mutex := Resetter, core_op := Resetting DWait\<rparr>)
      | Resetting DEnd \<Rightarrow> Some (dev\<lparr>core_op := ResetHeld\<rparr>)
      | Resetting d \<Rightarrow> map_option (\<lambda>(d, dev). dev\<lparr>core_op := Resetting d\<rparr>) (skel_draw_down timeout i d dev)
      | _ \<Rightarrow> None)"

(* src: usb/usb-skeleton.c:621-630 skel_post_reset *)
definition skel_post_reset :: "usb_skel \<Rightarrow> usb_skel option" where
  "skel_post_reset dev =
     (if core_op dev = ResetHeld then Some (dev\<lparr>errors := - EPIPE, io_mutex := Free, core_op := CoreIdle\<rparr>)
      else None)"

text \<open>
  Disconnecting: the interface forgets the device and gives back its minor; the flag is set
  under \<open>io_mutex\<close>; the read URB is killed, then the write URBs, one at a time; the reference is
  put.
\<close>

(* src: usb/usb-skeleton.c:561-584 skel_disconnect *)
definition skel_disconnect :: "nat \<Rightarrow> usb_skel \<Rightarrow> usb_skel option" where
  "skel_disconnect i dev =
     (case core_op dev of
        CoreIdle \<Rightarrow> Some (dev\<lparr>core_op := DiscLock\<rparr>)
      | DiscLock \<Rightarrow>
          if io_mutex dev \<noteq> Free then None
          else Some (dev\<lparr>disconnected := True, core_op := DiscRead\<rparr>)
      | DiscRead \<Rightarrow> Some ((kill_read dev)\<lparr>core_op := DiscWrites\<rparr>)
      | DiscWrites \<Rightarrow>
          if anchored dev = [] then Some (dev\<lparr>core_op := DiscPut\<rparr>)
          else if i < length (anchored dev) then Some (skel_write_bulk_callback i (- ENOENT) dev)
          else None
      | DiscPut \<Rightarrow> Some (kref_put (dev\<lparr>core_op := Gone\<rparr>))
      | _ \<Rightarrow> None)"

section \<open>Probing\<close>

text \<open>
  The resources of a probed device and the answers probing meets. Freeing a null URB or a null
  buffer does nothing, so \<open>skel_delete\<close> gives back what was allocated so far.
\<close>

datatype skel_res = SkelMem | UdevRef | IntfRef | InBuffer | InUrb | SkelMinor

record probe_env =
  p_mem :: bool
  p_endpoints :: int
  p_maxp :: nat
  p_buffer :: bool
  p_urb :: bool
  p_register :: int

(* src: usb/usb-skeleton.c:72-81 skel_delete *)
definition skel_delete_held :: "bool \<Rightarrow> bool \<Rightarrow> skel_res ledger \<Rightarrow> skel_res ledger" where
  "skel_delete_held has_urb has_buf =
     release_all ((if has_urb then [InUrb] else []) @ [IntfRef, UdevRef] @
       (if has_buf then [InBuffer] else []) @ [SkelMem])"

(* src: usb/usb-skeleton.c:488-559 skel_probe *)
definition skel_probe :: "probe_env \<Rightarrow> skel_res ledger \<Rightarrow> int \<times> skel_res ledger" where
  "skel_probe e k =
     (if \<not> p_mem e then (- ENOMEM, k)
      else
        let k = acquire IntfRef (acquire UdevRef (acquire SkelMem k))
        in if p_endpoints e \<noteq> 0 then (p_endpoints e, skel_delete_held False False k)
        else if \<not> p_buffer e then (- ENOMEM, skel_delete_held False False k)
        else
          let k = acquire InBuffer k
          in if \<not> p_urb e then (- ENOMEM, skel_delete_held False True k)
          else
            let k = acquire InUrb k
            in if p_register e \<noteq> 0 then (p_register e, skel_delete_held True True k)
            else (0, acquire SkelMinor k))"

text \<open>The device a successful probe leaves, before any file is opened.\<close>

(* src: usb/usb-skeleton.c:496-546 skel_probe *)
definition skel_probed :: "byte list \<Rightarrow> usb_skel" where
  "skel_probed buf =
     \<lparr>limit_sem = WRITES_IN_FLIGHT, anchored = [], coherent = 0, bulk_in_buffer = buf,
      bulk_in_filled = 0, bulk_in_copied = 0, rd_len = 0, errors = 0, ongoing_read = False,
      kref = 1, disconnected = False, opens = 0, pm_count = 0, deleted = False, io_mutex = Free,
      writers = [], core_op = CoreIdle, stream = []\<rparr>"

text \<open>Disconnecting a device no file has open.\<close>

(* src: usb/usb-skeleton.c:561-584 skel_disconnect *)
definition skel_unbind :: "probe_env \<Rightarrow> skel_res ledger \<Rightarrow> skel_res ledger" where
  "skel_unbind e k = skel_delete_held True True (release SkelMinor k)"

definition skel_owns :: "probe_env \<Rightarrow> skel_res list" where
  "skel_owns e = [SkelMinor, InUrb, InBuffer, IntfRef, UdevRef, SkelMem]"

interpretation skel: module_lifecycle "\<lambda>_. True" skel_probe skel_owns skel_unbind
proof (unfold_locales, goal_cases)
  case (1 e k)
  then show ?case by (auto simp: skel_probe_def skel_owns_def Let_def split: if_splits)
next
  case (2 e k)
  then show ?case
    by (auto simp: skel_probe_def skel_delete_held_def Let_def ledger_simps split: if_splits)
next
  case (3 e k0 k h)
  then show ?case
    by (simp add: skel_unbind_def skel_delete_held_def skel_owns_def held_release faults_release)
qed

section \<open>The device as a state machine\<close>

text \<open>
  One piece of one call, or one completion, at a time. Calls on a file need an open file, and the
  VFS releases the last one only when no call on it is in progress.
\<close>

definition file_calls :: "usb_skel \<Rightarrow> bool" where
  "file_calls dev \<longleftrightarrow> (\<exists>w \<in> set (writers dev). \<forall>rv. w_pc w \<noteq> WDone rv) \<or>
     (case io_mutex dev of Free \<Rightarrow> False | Resetter \<Rightarrow> False | _ \<Rightarrow> True)"

datatype skel_event =
    Open int | Release
  | ReadCall bool bool nat | Read read_env "byte list"
  | WriteCall bool bool "byte list" nat | Write write_env nat
  | ReadDone int "byte list" | WriteDone nat int
  | FlushCall | Flush bool nat | Suspend bool nat | Resume | PreReset bool nat | PostReset | Disconnect nat

inductive skel_step :: "usb_skel \<Rightarrow> skel_event \<Rightarrow> usb_skel \<Rightarrow> bool" where
  step_open: "skel_open pm dev = (r, dev') \<Longrightarrow> skel_step dev (Open pm) dev'"
| step_release: "0 < opens dev \<Longrightarrow> 1 < opens dev \<or> \<not> file_calls dev \<Longrightarrow> skel_release dev = (r, dev') \<Longrightarrow>
    skel_step dev Release dev'"
| step_read_call: "0 < opens dev \<Longrightarrow> skel_read_begin nb sig n dev = Some (Inr dev') \<Longrightarrow>
    skel_step dev (ReadCall nb sig n) dev'"
| step_read: "skel_read e dev = Some (Inr (r, out, dev')) \<Longrightarrow> skel_step dev (Read e out) dev'"
| step_write_call: "0 < opens dev \<Longrightarrow> skel_write_begin nb sig n dev = Some (pc, dev') \<Longrightarrow>
    skel_step dev (WriteCall nb sig user n) (new_writer pc user n dev')"
| step_write: "i < length (writers dev) \<Longrightarrow> skel_write e i dev = Some (pc, dev') \<Longrightarrow>
    skel_step dev (Write e i) (move_writer i pc dev')"
| step_read_done: "ongoing_read dev \<Longrightarrow> skel_step dev (ReadDone st data) (skel_read_bulk_callback st data dev)"
| step_write_done: "i < length (anchored dev) \<Longrightarrow> skel_step dev (WriteDone i st) (skel_write_bulk_callback i st dev)"
| step_flush_call: "0 < opens dev \<Longrightarrow> skel_flush_begin dev = Some dev' \<Longrightarrow> skel_step dev FlushCall dev'"
| step_flush: "skel_flush t i dev = Some dev' \<Longrightarrow> skel_step dev (Flush t i) dev'"
| step_suspend: "skel_suspend t i dev = Some dev' \<Longrightarrow> skel_step dev (Suspend t i) dev'"
| step_resume: "bound dev \<Longrightarrow> skel_resume dev = (r, dev') \<Longrightarrow> skel_step dev Resume dev'"
| step_pre_reset: "skel_pre_reset t i dev = Some dev' \<Longrightarrow> skel_step dev (PreReset t i) dev'"
| step_post_reset: "skel_post_reset dev = Some dev' \<Longrightarrow> skel_step dev PostReset dev'"
| step_disconnect: "skel_disconnect i dev = Some dev' \<Longrightarrow> skel_step dev (Disconnect i) dev'"

section \<open>The invariant\<close>

text \<open>
  In five parts: every semaphore slot not free belongs to a writer in progress or to a URB in
  flight, and every DMA buffer to a writer that has one or to a URB in flight; the receive
  buffer's cursors are ordered and inside it; \<open>io_mutex\<close> has the one holder its fields say; the
  object lives exactly as long as the interface or a file refers to it; and after a drain or a
  disconnect nothing is in flight.
\<close>

fun holds_slot :: "writer_pc \<Rightarrow> bool" where
  "holds_slot (WDone rv) = False"
| "holds_slot _ = True"

fun holds_buffer :: "writer_pc \<Rightarrow> bool" where
  "holds_buffer WCopy = True"
| "holds_buffer WLock = True"
| "holds_buffer WSubmit = True"
| "holds_buffer (WFail rv b) = b"
| "holds_buffer _ = False"

definition writers_with :: "(writer_pc \<Rightarrow> bool) \<Rightarrow> writer list \<Rightarrow> nat" where
  "writers_with P ws = length (filter (\<lambda>w. P (w_pc w)) ws)"

definition slots_ok :: "usb_skel \<Rightarrow> bool" where
  "slots_ok dev \<longleftrightarrow>
     limit_sem dev + writers_with holds_slot (writers dev) + length (anchored dev) = WRITES_IN_FLIGHT \<and>
     coherent dev = writers_with holds_buffer (writers dev) + length (anchored dev)"

definition buffer_ok :: "usb_skel \<Rightarrow> bool" where
  "buffer_ok dev \<longleftrightarrow> bulk_in_copied dev \<le> bulk_in_filled dev \<and>
     bulk_in_filled dev \<le> length (bulk_in_buffer dev) \<and> rd_len dev \<le> length (bulk_in_buffer dev) \<and>
     length (bulk_in_buffer dev) < 2 ^ 31 \<and>
     (ongoing_read dev \<longrightarrow> bulk_in_filled dev = 0)"

fun past_wait :: "reader_pc \<Rightarrow> bool" where
  "past_wait RLook = False"
| "past_wait RWait = False"
| "past_wait _ = True"

definition resetting :: "usb_skel \<Rightarrow> bool" where
  "resetting dev \<longleftrightarrow> core_op dev = ResetHeld \<or> (\<exists>d. core_op dev = Resetting d)"

definition mutex_ok :: "usb_skel \<Rightarrow> bool" where
  "mutex_ok dev \<longleftrightarrow>
     (\<forall>i. io_mutex dev = Writing i \<longleftrightarrow> i < length (writers dev) \<and> w_pc (writers dev ! i) = WSubmit) \<and>
     (\<forall>i. io_mutex dev = Writing i \<longrightarrow> \<not> disconnected dev) \<and>
     (\<forall>nb n pc. io_mutex dev = Reader nb n pc \<longrightarrow>
        \<not> disconnected dev \<and> (past_wait pc \<longrightarrow> \<not> ongoing_read dev)) \<and>
     (io_mutex dev = Resetter \<longleftrightarrow> resetting dev)"

definition life_ok :: "usb_skel \<Rightarrow> bool" where
  "life_ok dev \<longleftrightarrow> kref dev = opens dev + (if core_op dev = Gone then 0 else 1) \<and>
     (deleted dev \<longleftrightarrow> kref dev = 0) \<and> pm_count dev = opens dev \<and>
     (disconnected dev \<longleftrightarrow> core_op dev \<in> {DiscRead, DiscWrites, DiscPut, Gone}) \<and>
     (file_calls dev \<longrightarrow> 0 < opens dev)"

definition drained :: "drain_pc \<Rightarrow> usb_skel \<Rightarrow> bool" where
  "drained d dev \<longleftrightarrow> (d \<in> {DRead, DEnd} \<longrightarrow> anchored dev = []) \<and> (d = DEnd \<longrightarrow> \<not> ongoing_read dev)"

definition quiet_ok :: "usb_skel \<Rightarrow> bool" where
  "quiet_ok dev \<longleftrightarrow> (\<forall>d. io_mutex dev = Flushing d \<longrightarrow> drained d dev) \<and>
     (\<forall>d. core_op dev = Resetting d \<longrightarrow> drained d dev) \<and>
     (core_op dev = ResetHeld \<longrightarrow> drained DEnd dev) \<and>
     (core_op dev \<in> {DiscWrites, DiscPut, Gone} \<longrightarrow> \<not> ongoing_read dev) \<and>
     (core_op dev \<in> {DiscPut, Gone} \<longrightarrow> anchored dev = [])"

definition skel_inv :: "usb_skel \<Rightarrow> bool" where
  "skel_inv dev \<longleftrightarrow> slots_ok dev \<and> buffer_ok dev \<and> mutex_ok dev \<and> life_ok dev \<and> quiet_ok dev"

lemmas skel_ok_defs = slots_ok_def buffer_ok_def mutex_ok_def life_ok_def quiet_ok_def drained_def

lemma skel_invI:
  "slots_ok dev \<Longrightarrow> buffer_ok dev \<Longrightarrow> mutex_ok dev \<Longrightarrow> life_ok dev \<Longrightarrow> quiet_ok dev \<Longrightarrow> skel_inv dev"
  by (simp add: skel_inv_def)

lemma skel_invD:
  assumes "skel_inv dev"
  shows "slots_ok dev" and "buffer_ok dev" and "mutex_ok dev" and "life_ok dev" and "quiet_ok dev"
  using assms by (simp_all add: skel_inv_def)

lemma writers_with_append [simp]:
  "writers_with P (ws @ [w]) = writers_with P ws + (if P (w_pc w) then 1 else 0)"
  by (simp add: writers_with_def)

lemma writers_with_update:
  assumes "i < length ws"
  shows "writers_with P (ws[i := w]) + (if P (w_pc (ws ! i)) then 1 else 0) =
    writers_with P ws + (if P (w_pc w) then 1 else 0)"
proof -
  have "ws = take i ws @ ws ! i # drop (Suc i) ws" using assms by (rule id_take_nth_drop)
  then have "writers_with P ws = writers_with P (take i ws @ ws ! i # drop (Suc i) ws)" by simp
  then show ?thesis using assms by (simp add: writers_with_def upd_conv_take_nth_drop)
qed

text \<open>The invariant looks at some fields only; a step that leaves the others alone keeps it.\<close>

definition same_calls :: "usb_skel \<Rightarrow> usb_skel \<Rightarrow> bool" where
  "same_calls dev dev' \<longleftrightarrow> writers dev' = writers dev \<and> io_mutex dev' = io_mutex dev \<and>
     core_op dev' = core_op dev \<and> kref dev' = kref dev \<and> opens dev' = opens dev \<and>
     pm_count dev' = pm_count dev \<and> deleted dev' = deleted dev \<and> disconnected dev' = disconnected dev"

lemma same_calls_refl [simp]: "same_calls dev dev"
  by (simp add: same_calls_def)

lemma same_calls_kept:
  assumes "same_calls dev dev'"
  shows "file_calls dev' = file_calls dev" and "resetting dev' = resetting dev"
    and "life_ok dev \<Longrightarrow> life_ok dev'"
proof -
  show f: "file_calls dev' = file_calls dev" and "resetting dev' = resetting dev"
    using assms by (simp_all add: same_calls_def file_calls_def resetting_def)
  show "life_ok dev \<Longrightarrow> life_ok dev'" using assms f by (simp add: life_ok_def same_calls_def)
qed

lemma same_calls_fewer:
  assumes "same_calls dev dev'" and "skel_inv dev" and "slots_ok dev'" and "buffer_ok dev'"
    and "ongoing_read dev' \<Longrightarrow> ongoing_read dev" and "anchored dev = [] \<Longrightarrow> anchored dev' = []"
  shows "skel_inv dev'"
proof (rule skel_invI)
  have s: "writers dev' = writers dev" "io_mutex dev' = io_mutex dev" "core_op dev' = core_op dev"
    "disconnected dev' = disconnected dev" "resetting dev' = resetting dev"
    using assms(1) same_calls_kept(2) [OF assms(1)] by (simp_all add: same_calls_def)
  show "mutex_ok dev'"
  proof -
    have o: "\<not> ongoing_read dev \<Longrightarrow> \<not> ongoing_read dev'" using assms(5) by blast
    show ?thesis using skel_invD(3) [OF assms(2)] o unfolding mutex_ok_def s by blast
  qed
  show "life_ok dev'" using same_calls_kept(3) [OF assms(1)] skel_invD(4) [OF assms(2)] by simp
  show "quiet_ok dev'"
    using skel_invD(5) [OF assms(2)] assms(5,6) unfolding quiet_ok_def drained_def s by blast
qed (fact assms)+

lemma read_callback_same [simp]:
  "same_calls dev (skel_read_bulk_callback st data dev)"
  "anchored (skel_read_bulk_callback st data dev) = anchored dev"
  "\<not> ongoing_read (skel_read_bulk_callback st data dev)"
  by (simp_all add: same_calls_def skel_read_bulk_callback_def Let_def)

lemma write_callback_same [simp]:
  "same_calls dev (skel_write_bulk_callback i st dev)"
  "ongoing_read (skel_write_bulk_callback i st dev) = ongoing_read dev"
  "anchored (skel_write_bulk_callback i st dev) = take i (anchored dev) @ drop (Suc i) (anchored dev)"
  by (simp_all add: same_calls_def skel_write_bulk_callback_def Let_def)

lemma read_callback_inv:
  assumes "skel_inv dev" and "ongoing_read dev"
  shows "skel_inv (skel_read_bulk_callback st data dev)"
proof (rule same_calls_fewer [OF read_callback_same(1) assms(1)])
  show "slots_ok (skel_read_bulk_callback st data dev)" "buffer_ok (skel_read_bulk_callback st data dev)"
    using skel_invD(1,2) [OF assms(1)] assms(2)
    by (auto simp: slots_ok_def buffer_ok_def skel_read_bulk_callback_def Let_def)
qed (simp_all add: assms(2))

lemma write_callback_inv:
  assumes "skel_inv dev" and "i < length (anchored dev)"
  shows "skel_inv (skel_write_bulk_callback i st dev)"
proof (rule same_calls_fewer [OF write_callback_same(1) assms(1)])
  show "slots_ok (skel_write_bulk_callback i st dev)" "buffer_ok (skel_write_bulk_callback i st dev)"
    using skel_invD(1,2) [OF assms(1)] assms(2)
    by (auto simp: slots_ok_def buffer_ok_def skel_write_bulk_callback_def Let_def)
qed (use assms(2) in simp_all)

lemma kill_read_inv:
  assumes "skel_inv dev"
  shows "skel_inv (kill_read dev)" and "\<not> ongoing_read (kill_read dev)"
    and "anchored (kill_read dev) = anchored dev" and "same_calls dev (kill_read dev)"
proof -
  show "skel_inv (kill_read dev)" using assms read_callback_inv by (simp add: kill_read_def)
qed (simp_all add: kill_read_def)

lemma draw_down_inv:
  assumes "skel_draw_down t i d dev = Some (d', dev')" and "skel_inv dev" and "drained d dev"
  shows "skel_inv dev' \<and> drained d' dev' \<and> same_calls dev dev'"
proof (cases d)
  case DRead
  then show ?thesis using assms kill_read_inv [OF assms(2)] by (auto simp: drained_def)
next
  case DWrites
  then show ?thesis
    using assms write_callback_inv [OF assms(2)] by (auto simp: drained_def split: if_splits)
qed (use assms in \<open>auto simp: drained_def split: if_splits\<close>)

text \<open>Taking the mutex, giving it back, and moving a call on, with nothing else changed.\<close>

lemma skel_inv_simps [simp]:
  "slots_ok (dev\<lparr>errors := x\<rparr>) = slots_ok dev" "slots_ok (dev\<lparr>io_mutex := m\<rparr>) = slots_ok dev"
  "slots_ok (dev\<lparr>core_op := c\<rparr>) = slots_ok dev" "slots_ok (dev\<lparr>disconnected := b\<rparr>) = slots_ok dev"
  "slots_ok (dev\<lparr>bulk_in_copied := k\<rparr>) = slots_ok dev"
  "buffer_ok (dev\<lparr>errors := x\<rparr>) = buffer_ok dev" "buffer_ok (dev\<lparr>io_mutex := m\<rparr>) = buffer_ok dev"
  "buffer_ok (dev\<lparr>core_op := c\<rparr>) = buffer_ok dev" "buffer_ok (dev\<lparr>disconnected := b\<rparr>) = buffer_ok dev"
  "mutex_ok (dev\<lparr>errors := x\<rparr>) = mutex_ok dev" "life_ok (dev\<lparr>errors := x\<rparr>) = life_ok dev"
  "quiet_ok (dev\<lparr>errors := x\<rparr>) = quiet_ok dev"
  by (simp_all add: slots_ok_def buffer_ok_def mutex_ok_def resetting_def life_ok_def file_calls_def
      quiet_ok_def drained_def)

lemma skel_inv_errors [simp]: "skel_inv (dev\<lparr>errors := x\<rparr>) = skel_inv dev"
  by (simp add: skel_inv_def)

lemma reader_holds:
  assumes "skel_inv dev" and "io_mutex dev = Reader nb n pc"
  shows "\<not> disconnected dev" and "past_wait pc \<Longrightarrow> \<not> ongoing_read dev" and "\<not> resetting dev"
    and "0 < opens dev" and "core_op dev \<notin> {DiscRead, DiscWrites, DiscPut, Gone}"
    and "\<And>i. \<not> (i < length (writers dev) \<and> w_pc (writers dev ! i) = WSubmit)"
  using skel_invD(3,4) [OF assms(1)] assms(2) by (auto simp: mutex_ok_def life_ok_def file_calls_def)

lemma reader_moves:
  assumes "skel_inv dev" and "io_mutex dev = Reader nb n pc" and "past_wait pc' \<Longrightarrow> \<not> ongoing_read dev"
  shows "skel_inv (dev\<lparr>io_mutex := Reader nb n pc'\<rparr>)"
proof (rule skel_invI)
  note i = skel_invD [OF assms(1)]
  show "mutex_ok (dev\<lparr>io_mutex := Reader nb n pc'\<rparr>)"
    using i(3) assms(2,3) by (simp add: mutex_ok_def resetting_def)
  show "life_ok (dev\<lparr>io_mutex := Reader nb n pc'\<rparr>)"
    using i(4) assms(2) by (simp add: life_ok_def file_calls_def)
  show "quiet_ok (dev\<lparr>io_mutex := Reader nb n pc'\<rparr>)"
    using i(5) assms(2) by (simp add: quiet_ok_def drained_def)
qed (use skel_invD [OF assms(1)] in simp_all)

text \<open>The holder of \<open>io_mutex\<close>, if not a reset, gives it back; a writer has moved on before.\<close>

lemma unlock_inv:
  assumes "skel_inv dev" and "io_mutex dev \<noteq> Resetter" and "\<And>i. io_mutex dev \<noteq> Writing i"
  shows "skel_inv (dev\<lparr>io_mutex := Free\<rparr>)"
proof (rule skel_invI)
  note i = skel_invD [OF assms(1)]
  show "mutex_ok (dev\<lparr>io_mutex := Free\<rparr>)"
    using i(3) assms(2,3) by (simp add: mutex_ok_def resetting_def)
  show "life_ok (dev\<lparr>io_mutex := Free\<rparr>)"
    using i(4) by (auto simp: life_ok_def file_calls_def)
  show "quiet_ok (dev\<lparr>io_mutex := Free\<rparr>)"
    using i(5) by (simp add: quiet_ok_def drained_def)
qed (use skel_invD [OF assms(1)] in simp_all)

text \<open>Starting to read while holding the mutex as a reader.\<close>

lemma do_read_io_inv:
  assumes "skel_inv dev" and "io_mutex dev = Reader nb n RData" and "skel_do_read_io r k dev = (rv, dev')"
  shows "skel_inv (dev'\<lparr>io_mutex := Reader nb n RLook\<rparr>)" and "skel_inv (dev'\<lparr>io_mutex := Free\<rparr>)"
    and "stream dev' = stream dev" and "bulk_in_filled dev' = 0"
proof -
  note i = skel_invD [OF assms(1)] and h = reader_holds [OF assms(1,2)]
  note d = assms(3) [unfolded skel_do_read_io_def Let_def]
  have f: "writers dev' = writers dev" "io_mutex dev' = io_mutex dev" "core_op dev' = core_op dev"
    "kref dev' = kref dev" "opens dev' = opens dev" "pm_count dev' = pm_count dev" "deleted dev' = deleted dev"
    "disconnected dev' = disconnected dev" "anchored dev' = anchored dev" "limit_sem dev' = limit_sem dev"
    "coherent dev' = coherent dev"
    using d by (auto split: if_splits)
  have q: "slots_ok dev'" "buffer_ok dev'"
    using i(1,2) d by (auto simp: slots_ok_def buffer_ok_def split: if_splits)
  have "core_op dev \<notin> {DiscWrites, DiscPut, Gone}" "\<not> resetting dev" using h by auto
  then show "skel_inv (dev'\<lparr>io_mutex := Reader nb n RLook\<rparr>)"
    using i(3-5) q assms(2) f
    by (intro skel_invI) (simp_all add: mutex_ok_def resetting_def life_ok_def file_calls_def quiet_ok_def)
  from unlock_inv [OF this] show "skel_inv (dev'\<lparr>io_mutex := Free\<rparr>)" by simp
  show "stream dev' = stream dev" "bulk_in_filled dev' = 0" using d by (auto split: if_splits)
qed

section \<open>What a reader gets\<close>

text \<open>The bytes received and not yet handed to a reader.\<close>

definition pending :: "usb_skel \<Rightarrow> byte list" where
  "pending dev = get_range (bulk_in_copied dev) (bulk_in_filled dev - bulk_in_copied dev) (bulk_in_buffer dev)"

lemma pending_empty: "bulk_in_filled dev = 0 \<Longrightarrow> pending dev = []"
  by (simp add: pending_def)

lemma pending_simps [simp]:
  "pending (dev\<lparr>errors := x\<rparr>) = pending dev" "pending (dev\<lparr>io_mutex := m\<rparr>) = pending dev"
  "pending (dev\<lparr>core_op := c\<rparr>) = pending dev" "pending (dev\<lparr>writers := ws\<rparr>) = pending dev"
  "pending (dev\<lparr>disconnected := b\<rparr>) = pending dev" "pending (dev\<lparr>limit_sem := k\<rparr>) = pending dev"
  "pending (dev\<lparr>coherent := k\<rparr>) = pending dev" "pending (dev\<lparr>anchored := xs\<rparr>) = pending dev"
  "pending (dev\<lparr>pm_count := k\<rparr>) = pending dev" "pending (dev\<lparr>opens := k\<rparr>) = pending dev"
  "pending (dev\<lparr>kref := k\<rparr>) = pending dev" "pending (dev\<lparr>deleted := b\<rparr>) = pending dev"
  by (simp_all add: pending_def)

text \<open>A completion appends what it delivers to the stream and to what is pending.\<close>

definition flows :: "usb_skel \<Rightarrow> byte list \<Rightarrow> usb_skel \<Rightarrow> bool" where
  "flows dev out dev' \<longleftrightarrow>
     (\<exists>new. stream dev' = stream dev @ new \<and> pending dev @ new = out @ pending dev')"

lemma flows_same: "stream dev' = stream dev \<Longrightarrow> pending dev' = pending dev \<Longrightarrow> flows dev [] dev'"
  by (simp add: flows_def)

lemma flows_trans: "flows a xs b \<Longrightarrow> flows b ys c \<Longrightarrow> flows a (xs @ ys) c"
  unfolding flows_def
proof (elim exE conjE)
  fix m n
  assume "stream b = stream a @ m" "pending a @ m = xs @ pending b"
    "stream c = stream b @ n" "pending b @ n = ys @ pending c"
  then show "\<exists>new. stream c = stream a @ new \<and> pending a @ new = (xs @ ys) @ pending c"
    by (intro exI [of _ "m @ n"]) (metis append.assoc)
qed

lemma read_callback_flows:
  assumes "skel_inv dev" and "ongoing_read dev"
  shows "flows dev [] (skel_read_bulk_callback st data dev)"
proof -
  have f: "bulk_in_filled dev = 0" and c: "bulk_in_copied dev = 0"
    and r: "rd_len dev \<le> length (bulk_in_buffer dev)"
    using assms skel_invD(2) [OF assms(1)] by (auto simp: buffer_ok_def)
  let ?d = "skel_read_bulk_callback st data dev" and ?x = "take (rd_len dev) data"
  show ?thesis
  proof (cases "st = 0")
    case True
    have "length ?x \<le> length (bulk_in_buffer dev)" using r by simp
    then have "pending ?d = ?x"
      using True c get_put_same [of 0 "bulk_in_buffer dev" ?x]
      by (simp add: pending_def skel_read_bulk_callback_def Let_def)
    then show ?thesis
      using True f by (simp add: flows_def pending_empty skel_read_bulk_callback_def Let_def)
  next
    case False
    then show ?thesis
      using f by (intro flows_same) (simp_all add: pending_empty skel_read_bulk_callback_def Let_def)
  qed
qed

lemma write_callback_flows: "flows dev [] (skel_write_bulk_callback i st dev)"
  by (rule flows_same) (simp_all add: skel_write_bulk_callback_def Let_def)

lemma kill_read_flows: "skel_inv dev \<Longrightarrow> flows dev [] (kill_read dev)"
  by (auto simp: kill_read_def intro: read_callback_flows flows_same)

lemma flows_update:
  "flows a xs b \<Longrightarrow> stream c = stream b \<Longrightarrow> pending c = pending b \<Longrightarrow> flows a xs c"
  by (simp add: flows_def)

lemma draw_down_flows:
  assumes "skel_draw_down t i d dev = Some (d', dev')" and "skel_inv dev"
  shows "flows dev [] dev'"
  using assms
  by (cases d) (auto split: if_splits intro: flows_same write_callback_flows kill_read_flows)

text \<open>The number of bytes still available, as the source computes it.\<close>

lemma available_pending:
  assumes "buffer_ok dev"
  shows "size_minus (bulk_in_filled dev) (bulk_in_copied dev) = length (pending dev)"
proof -
  have le: "bulk_in_copied dev \<le> bulk_in_filled dev" "bulk_in_filled dev \<le> length (bulk_in_buffer dev)"
    and "length (bulk_in_buffer dev) < 2 ^ 31"
    using assms by (auto simp: buffer_ok_def)
  then have "bulk_in_filled dev < 2 ^ 64" by simp
  with le show ?thesis by (simp add: size_minus_le pending_def)
qed

lemma pending_advance:
  assumes "buffer_ok dev" and "c \<le> length (pending dev)" and "\<not> ongoing_read dev"
  shows "get_range (bulk_in_copied dev) c (bulk_in_buffer dev) = take c (pending dev)"
    and "pending (dev\<lparr>bulk_in_copied := bulk_in_copied dev + c\<rparr>) = drop c (pending dev)"
    and "bulk_in_copied dev + c \<le> length (bulk_in_buffer dev)"
    and "buffer_ok (dev\<lparr>bulk_in_copied := bulk_in_copied dev + c\<rparr>)"
proof -
  have le: "bulk_in_copied dev \<le> bulk_in_filled dev" "bulk_in_filled dev \<le> length (bulk_in_buffer dev)"
    using assms by (auto simp: buffer_ok_def)
  then have len: "c \<le> bulk_in_filled dev - bulk_in_copied dev"
    using assms(2) by (simp add: pending_def)
  show "get_range (bulk_in_copied dev) c (bulk_in_buffer dev) = take c (pending dev)"
    using len by (simp add: pending_def get_range_def min_def)
  show "pending (dev\<lparr>bulk_in_copied := bulk_in_copied dev + c\<rparr>) = drop c (pending dev)"
    by (simp add: pending_def get_range_def drop_take add.commute)
  show "bulk_in_copied dev + c \<le> length (bulk_in_buffer dev)" using len le by simp
  show "buffer_ok (dev\<lparr>bulk_in_copied := bulk_in_copied dev + c\<rparr>)"
    using assms(1,3) len le by (auto simp: buffer_ok_def)
qed

lemma copied_inv:
  assumes "skel_inv dev" and "buffer_ok (dev\<lparr>bulk_in_copied := k\<rparr>)"
  shows "skel_inv (dev\<lparr>bulk_in_copied := k\<rparr>)"
  by (rule same_calls_fewer [OF _ assms(1)])
    (use assms skel_invD(1) [OF assms(1)] in \<open>simp_all add: same_calls_def\<close>)

definition read_post :: "read_env \<Rightarrow> usb_skel \<Rightarrow> (int option \<times> byte list \<times> usb_skel) kresult \<Rightarrow> bool" where
  "read_post e dev res \<longleftrightarrow> (\<exists>r out dev'. res = Inr (r, out, dev') \<and> skel_inv dev' \<and>
     (r_uleft e = 0 \<longrightarrow> flows dev out dev'))"

lemma read_goto_post:
  assumes "skel_inv dev" and "io_mutex dev = Reader nb n pc" and "past_wait pc' \<Longrightarrow> \<not> ongoing_read dev"
    and "read_goto nb n pc' dev = Some res"
  shows "read_post e dev res"
  using reader_moves [OF assms(1-3)] assms(4) by (auto simp: read_goto_def read_post_def intro!: flows_same)

lemma read_exit_post:
  assumes "skel_inv dev" and "io_mutex dev = Reader nb n pc" and "read_exit rv [] (dev\<lparr>errors := x\<rparr>) = Some res"
  shows "read_post e dev res"
proof -
  have "skel_inv (dev\<lparr>errors := x, io_mutex := Free\<rparr>)"
    using assms(1,2) by (intro unlock_inv) simp_all
  then show ?thesis using assms(3) by (auto simp: read_exit_def read_post_def intro!: flows_same)
qed

lemma read_more_post:
  assumes "skel_inv dev" and "io_mutex dev = Reader nb n RData" and "pending dev = []"
    and "read_more e nb n dev = Some res"
  shows "read_post e dev res"
proof -
  obtain rv d where d: "skel_do_read_io (r_submit e) n dev = (rv, d)"
    by (cases "skel_do_read_io (r_submit e) n dev")
  note i = do_read_io_inv [OF assms(1,2) d]
  have "flows dev [] d" using i(3,4) assms(3) by (intro flows_same) (simp_all add: pending_empty)
  then have "flows dev [] (d\<lparr>io_mutex := m\<rparr>)" for m by (rule flows_update) simp_all
  then show ?thesis
    using i(1,2) assms(4) by (auto simp: read_more_def d read_exit_def read_goto_def read_post_def split: if_splits)
qed

lemma read_deliver:
  assumes "skel_inv dev" and "io_mutex dev = Reader nb n RData" and "\<not> ongoing_read dev"
    and "bulk_in_filled dev \<noteq> 0" and "length (pending dev) \<noteq> 0"
    and "skel_read_piece e nb n RData dev = Some res"
  shows "read_post e dev res"
proof -
  define chunk where "chunk = min (length (pending dev)) n"
  define d2 where "d2 = dev\<lparr>bulk_in_copied := bulk_in_copied dev + chunk\<rparr>"
  define d3 where
    "d3 = (if length (pending dev) < n then snd (skel_do_read_io (r_submit e) (n - chunk) d2) else d2)"
  note b = skel_invD(2) [OF assms(1)]
  have c: "chunk \<le> length (pending dev)" by (simp add: chunk_def)
  note a = pending_advance [OF b c assms(3)]
  have i2: "skel_inv d2" using copied_inv [OF assms(1) a(4)] by (simp add: d2_def)
  have m2: "io_mutex d2 = Reader nb n RData" "stream d2 = stream dev" by (simp_all add: d2_def assms(2))
  obtain rv d4 where r: "skel_do_read_io (r_submit e) (n - chunk) d2 = (rv, d4)"
    by (cases "skel_do_read_io (r_submit e) (n - chunk) d2")
  note k = do_read_io_inv [OF i2 m2(1) r]
  have d3: "skel_inv (d3\<lparr>io_mutex := Free\<rparr>) \<and> stream d3 = stream dev \<and> pending d3 = drop chunk (pending dev)"
  proof (cases "length (pending dev) < n")
    case True
    then have "drop chunk (pending dev) = []" by (simp add: chunk_def)
    with True k m2 r show ?thesis by (simp add: d3_def pending_empty)
  next
    case False
    then show ?thesis using unlock_inv [OF i2] m2 a(2) by (simp add: d3_def) (simp add: d2_def)
  qed
  then have "flows dev (take chunk (pending dev)) (d3\<lparr>io_mutex := Free\<rparr>)"
    by (auto simp: flows_def)
  moreover have "\<not> length (bulk_in_buffer dev) < bulk_in_copied dev + chunk" using a(3) by simp
  then have "res = Inr (Some (if r_uleft e \<noteq> 0 then - EFAULT else int chunk),
      take (chunk - r_uleft e) (take chunk (pending dev)), d3\<lparr>io_mutex := Free\<rparr>)"
    using assms(4-6) by (simp add: available_pending [OF b] chunk_def [symmetric] Let_def a(1)
        d2_def [symmetric] d3_def read_exit_def split: if_splits)
  ultimately show ?thesis using d3 by (auto simp: read_post_def)
qed

lemma read_ok:
  assumes "skel_read e dev = Some res" and "skel_inv dev"
  shows "read_post e dev res"
proof -
  obtain nb n pc where m: "io_mutex dev = Reader nb n pc" and r: "skel_read_piece e nb n pc dev = Some res"
    using assms(1) by (auto simp: skel_read_def split: mutex_holder.splits)
  have goto: "read_goto nb n pc' dev = Some res \<Longrightarrow> (past_wait pc' \<Longrightarrow> \<not> ongoing_read dev) \<Longrightarrow> read_post e dev res"
    for pc' by (rule read_goto_post [OF assms(2) m])
  note exit = read_exit_post [OF assms(2) m]
  have exit': "read_exit rv [] dev = Some res \<Longrightarrow> read_post e dev res" for rv
    using exit [of rv "errors dev"] by simp
  note o = reader_holds(2) [OF assms(2) m]
  show ?thesis
  proof (cases pc)
    case RLook
    show ?thesis
      using r goto [of RWait] goto [of RErrors] exit' [of "- EAGAIN"] unfolding RLook by (simp split: if_splits)
  next
    case RWait
    show ?thesis using r unfolding RWait by (auto split: if_splits elim: goto exit')
  next
    case RErrors
    have "\<not> ongoing_read dev" using o RErrors by simp
    then show ?thesis using r unfolding RErrors by (auto split: if_splits elim: goto)
  next
    case (RClear rv)
    show ?thesis using r unfolding RClear by (auto split: if_splits intro: exit)
  next
    case RData
    have n: "\<not> ongoing_read dev" using o RData by simp
    show ?thesis
    proof (cases "bulk_in_filled dev = 0 \<or> length (pending dev) = 0")
      case True
      then have p: "pending dev = []" by (auto simp: pending_empty)
      have "read_more e nb n dev = Some res"
        using r True available_pending [OF skel_invD(2) [OF assms(2)]] by (simp add: RData Let_def split: if_splits)
      then show ?thesis using read_more_post [OF assms(2) _ p] m RData by simp
    next
      case False
      then show ?thesis using read_deliver [OF assms(2) _ n] m r RData by blast
    qed
  qed
qed

section \<open>Every step keeps the invariant\<close>

lemma writer_calls:
  assumes "\<And>i. io_mutex dev \<noteq> Writing i" and "mutex_ok dev" and "i < length (writers dev)"
  shows "w_pc (writers dev ! i) \<noteq> WSubmit"
  using assms unfolding mutex_ok_def by blast

lemma file_calls_writer:
  assumes "i < length (writers dev)" and "\<And>r. w_pc (writers dev ! i) \<noteq> WDone r"
  shows "file_calls dev"
  unfolding file_calls_def using assms by (intro disjI1 bexI [of _ "writers dev ! i"]) simp_all

lemma new_writer_inv:
  assumes "skel_inv dev" and "0 < opens dev" and "skel_write_begin nb sig n dev = Some (pc, dev')"
  shows "skel_inv (new_writer pc user n dev')"
proof -
  note i = skel_invD [OF assms(1)]
  have pc: "pc \<noteq> WSubmit" and d: "dev' = dev\<lparr>limit_sem := limit_sem dev'\<rparr>" "\<not> holds_buffer pc"
    and s: "limit_sem dev' + (if holds_slot pc then 1 else 0) = limit_sem dev"
    using assms(3) by (auto simp: skel_write_begin_def split: if_splits)
  let ?d = "dev\<lparr>limit_sem := limit_sem dev'\<rparr>"
  have "skel_inv (new_writer pc user n ?d)"
  proof (rule skel_invI)
    show "slots_ok (new_writer pc user n ?d)"
      using i(1) s d(2) by (auto simp: slots_ok_def new_writer_def)
    show "buffer_ok (new_writer pc user n ?d)" using i(2) by (simp add: buffer_ok_def new_writer_def)
    show "mutex_ok (new_writer pc user n ?d)"
      using i(3) pc by (auto simp: mutex_ok_def new_writer_def resetting_def nth_append)
    show "life_ok (new_writer pc user n ?d)" using i(4) assms(2) by (simp add: life_ok_def new_writer_def)
    show "quiet_ok (new_writer pc user n ?d)" using i(5) by (simp add: quiet_ok_def drained_def new_writer_def)
  qed
  then show ?thesis using d(1) by simp
qed

text \<open>What a piece of a writer may do to the semaphore, the buffers, the URBs and the mutex.\<close>

lemma move_writer_inv:
  fixes pc :: writer_pc
  defines "slot \<equiv> \<lambda>pc. if holds_slot pc then 1 else 0 :: nat"
    and "buf \<equiv> \<lambda>pc. if holds_buffer pc then 1 else 0 :: nat"
  assumes inv: "skel_inv dev" and i: "i < length (writers dev)" and pc0: "w_pc (writers dev ! i) = pc0"
    and live: "holds_slot pc0"
    and s: "a + slot pc + length xs = limit_sem dev + 1 + length (anchored dev)"
    and b: "b + buf pc0 + length (anchored dev) = coherent dev + buf pc + length xs"
    and m: "if pc = WSubmit then io_mutex dev = Free \<and> m = Writing i \<and> \<not> disconnected dev
      else if pc0 = WSubmit then m = Free else m = io_mutex dev"
    and x: "pc0 \<noteq> WSubmit \<longrightarrow> xs = anchored dev"
  shows "skel_inv (move_writer i pc (dev\<lparr>limit_sem := a, coherent := b, anchored := xs, errors := e, io_mutex := m\<rparr>))"
    (is "skel_inv ?d")
proof (rule skel_invI)
  note n = skel_invD [OF inv]
  let ?w = "(writers dev ! i)\<lparr>w_pc := pc\<rparr>"
  have w: "writers ?d = (writers dev)[i := ?w]" by (simp add: move_writer_def)
  have hs: "slot pc0 = 1" using live by (simp add: slot_def)
  have nd: "w_pc (writers dev ! i) \<noteq> WDone r" for r using live pc0 by auto
  note u = writers_with_update [OF i, of _ ?w, simplified pc0, simplified]
  show "slots_ok ?d"
    using n(1) s b hs u [of holds_slot] u [of holds_buffer]
    by (simp add: slots_ok_def w slot_def buf_def split: if_splits) (simp_all add: move_writer_def)
  show "buffer_ok ?d" using n(2) by (simp add: buffer_ok_def move_writer_def)
  have sub: "io_mutex dev = Writing j \<longleftrightarrow> j < length (writers dev) \<and> w_pc (writers dev ! j) = WSubmit" for j
    using n(3) by (simp add: mutex_ok_def)
  have rd: "\<And>j. io_mutex dev = Writing j \<Longrightarrow> \<not> disconnected dev"
    "\<And>nb n pc. io_mutex dev = Reader nb n pc \<Longrightarrow> \<not> disconnected dev \<and> (past_wait pc \<longrightarrow> \<not> ongoing_read dev)"
    "io_mutex dev = Resetter \<longleftrightarrow> resetting dev"
    using n(3) unfolding mutex_ok_def by blast+
  have f: "io_mutex ?d = m" "disconnected ?d = disconnected dev" "ongoing_read ?d = ongoing_read dev"
    "resetting ?d = resetting dev" "core_op ?d = core_op dev" "anchored ?d = xs"
    by (simp_all add: move_writer_def resetting_def)
  have pcs: "w_pc ((writers dev)[i := ?w] ! j) = (if j = i then pc else w_pc (writers dev ! j))"
    if "j < length (writers dev)" for j
    using that by (simp add: nth_list_update)
  consider (lock) "pc = WSubmit" "io_mutex dev = Free" "m = Writing i" "\<not> disconnected dev"
    | (unlock) "pc \<noteq> WSubmit" "pc0 = WSubmit" "io_mutex dev = Writing i" "m = Free"
    | (same) "pc \<noteq> WSubmit" "pc0 \<noteq> WSubmit" "m = io_mutex dev"
    using m sub [of i] i pc0 by (auto split: if_splits)
  note cs = this
  show "mutex_ok ?d"
    unfolding mutex_ok_def f w length_list_update
  proof (intro conjI allI)
    show "m = Writing j \<longleftrightarrow> j < length (writers dev) \<and> w_pc ((writers dev)[i := ?w] ! j) = WSubmit" for j
      using cs by cases (use sub [of j] i pc0 pcs [of j] in \<open>auto split: if_splits\<close>)
  next
    show "(m = Resetter) = resetting dev" using cs by cases (use rd(3) in auto)
  qed (use cs rd in \<open>cases; auto\<close>)+
  show "life_ok ?d"
    using n(4) file_calls_writer [OF i nd] by (simp add: life_ok_def move_writer_def)
  have out: "\<not> resetting dev \<and> core_op dev \<notin> {DiscWrites, DiscPut, Gone}" if "pc0 = WSubmit"
    using that sub [of i] rd i pc0 n(4) by (auto simp: life_ok_def)
  show "quiet_ok ?d"
  proof (cases "pc0 = WSubmit")
    case True
    from out [OF True] have "core_op dev \<notin> {DiscWrites, DiscPut, Gone, ResetHeld}" "\<And>d. core_op dev \<noteq> Resetting d"
      by (auto simp: resetting_def)
    moreover have "m \<noteq> Flushing d" for d using cs by cases (use True in auto)
    ultimately show ?thesis by (simp add: quiet_ok_def f)
  next
    case False
    then have xs: "xs = anchored dev" and fl: "\<And>d. m = Flushing d \<Longrightarrow> io_mutex dev = Flushing d"
      using x m by (auto split: if_splits)
    show ?thesis using n(5) fl unfolding quiet_ok_def drained_def f unfolding xs by blast
  qed
qed

lemma moved_writer_inv:
  assumes "skel_inv dev" and "i < length (writers dev)" and "w_pc (writers dev ! i) = pc0" and "holds_slot pc0"
    and eq: "dev' = dev\<lparr>limit_sem := limit_sem dev', coherent := coherent dev', anchored := anchored dev',
      errors := errors dev', io_mutex := io_mutex dev'\<rparr>"
    and "limit_sem dev' + (if holds_slot pc then 1 else 0) + length (anchored dev') =
      limit_sem dev + 1 + length (anchored dev)"
    and "coherent dev' + (if holds_buffer pc0 then 1 else 0) + length (anchored dev) =
      coherent dev + (if holds_buffer pc then 1 else 0) + length (anchored dev')"
    and "if pc = WSubmit then io_mutex dev = Free \<and> io_mutex dev' = Writing i \<and> \<not> disconnected dev
      else if pc0 = WSubmit then io_mutex dev' = Free else io_mutex dev' = io_mutex dev"
    and "pc0 \<noteq> WSubmit \<longrightarrow> anchored dev' = anchored dev"
  shows "skel_inv (move_writer i pc dev')"
  by (subst eq, rule move_writer_inv [OF assms(1-4,6-9)])

lemma holds_buffer_coherent:
  assumes "slots_ok dev" and "i < length (writers dev)" and "holds_buffer (w_pc (writers dev ! i))"
  shows "0 < coherent dev"
proof -
  have "writers dev ! i \<in> set (filter (\<lambda>w. holds_buffer (w_pc w)) (writers dev))" using assms(2,3) by simp
  then have "0 < writers_with holds_buffer (writers dev)"
    by (auto simp: writers_with_def filter_empty_conv)
  then show ?thesis using assms(1) by (simp add: slots_ok_def)
qed

lemma write_inv:
  assumes "skel_write e i dev = Some (pc, dev')" and "skel_inv dev" and "i < length (writers dev)"
  shows "skel_inv (move_writer i pc dev')"
proof -
  note step = assms(1) [unfolded skel_write_def] and mv = moved_writer_inv [OF assms(2,3)]
  show ?thesis
  proof (cases "w_pc (writers dev ! i)")
    case WErrors
    then show ?thesis using step by (intro mv [OF WErrors]) (auto split: if_splits)
  next
    case WAlloc
    then show ?thesis using step by (intro mv [OF WAlloc]) (auto split: if_splits)
  next
    case WCopy
    then show ?thesis using step by (intro mv [OF WCopy]) (auto split: if_splits)
  next
    case WLock
    then show ?thesis using step by (intro mv [OF WLock]) (auto split: if_splits)
  next
    case WSubmit
    then show ?thesis using step by (intro mv [OF WSubmit]) (auto split: if_splits)
  next
    case (WFail rv b)
    have "b \<Longrightarrow> 0 < coherent dev"
      using holds_buffer_coherent [OF skel_invD(1) [OF assms(2)] assms(3)] WFail by simp
    then show ?thesis using step WFail by (intro mv [OF WFail]) (auto split: if_splits bool.splits)
  next
    case (WDone rv)
    then show ?thesis using step by simp
  qed
qed

lemma open_inv:
  assumes "skel_open pm dev = (r, dev')" and "skel_inv dev"
  shows "skel_inv dev'"
proof (cases "bound dev \<and> pm = 0")
  case True
  then have d: "dev' = dev\<lparr>pm_count := pm_count dev + 1, kref := kref dev + 1, opens := opens dev + 1\<rparr>"
    using assms(1) by (simp add: skel_open_def)
  note i = skel_invD [OF assms(2)]
  have "core_op dev \<noteq> Gone" using True by (auto simp: bound_def)
  with i(4) have "life_ok dev'" by (simp add: d life_ok_def file_calls_def)
  then show ?thesis
    using i by (intro skel_invI)
      (simp_all add: d slots_ok_def buffer_ok_def mutex_ok_def resetting_def quiet_ok_def drained_def)
next
  case False
  then show ?thesis using assms by (auto simp: skel_open_def split: if_splits)
qed

lemma kref_put_fields [simp]:
  "slots_ok (kref_put dev) = slots_ok dev" "buffer_ok (kref_put dev) = buffer_ok dev"
  "mutex_ok (kref_put dev) = mutex_ok dev" "quiet_ok (kref_put dev) = quiet_ok dev"
  "stream (kref_put dev) = stream dev" "pending (kref_put dev) = pending dev"
  by (simp_all add: kref_put_def skel_delete_def Let_def slots_ok_def buffer_ok_def mutex_ok_def
      resetting_def quiet_ok_def drained_def)

lemma release_inv:
  assumes "skel_release dev = (r, dev')" and "skel_inv dev" and "0 < opens dev"
    and "1 < opens dev \<or> \<not> file_calls dev"
  shows "skel_inv dev'"
proof -
  let ?d = "dev\<lparr>pm_count := pm_count dev - 1, opens := opens dev - 1\<rparr>"
  have d: "dev' = kref_put ?d" using assms(1,3) by (simp add: skel_release_def)
  note i = skel_invD [OF assms(2)]
  have "life_ok dev'"
    using i(4) assms(3,4) by (auto simp: d kref_put_def skel_delete_def life_ok_def file_calls_def Let_def)
  moreover have "slots_ok ?d" "buffer_ok ?d" "mutex_ok ?d" "quiet_ok ?d"
    using i by (simp_all add: slots_ok_def buffer_ok_def mutex_ok_def resetting_def quiet_ok_def drained_def)
  ultimately show ?thesis by (intro skel_invI) (simp_all add: d)
qed

text \<open>The free mutex is taken by a call on a file.\<close>

lemma lock_inv:
  assumes "skel_inv dev" and "io_mutex dev = Free" and "0 < opens dev"
    and "m = Flushing DWait \<or> m = Reader nb n RLook \<and> \<not> disconnected dev"
  shows "skel_inv (dev\<lparr>io_mutex := m\<rparr>)"
proof (rule skel_invI)
  note i = skel_invD [OF assms(1)]
  show "mutex_ok (dev\<lparr>io_mutex := m\<rparr>)"
    using i(3) assms(2,4) by (auto simp: mutex_ok_def resetting_def)
  show "life_ok (dev\<lparr>io_mutex := m\<rparr>)" using i(4) assms(3) by (simp add: life_ok_def)
  show "quiet_ok (dev\<lparr>io_mutex := m\<rparr>)" using i(5) assms(4) by (auto simp: quiet_ok_def drained_def)
qed (use skel_invD [OF assms(1)] in simp_all)

lemma flush_moves:
  assumes "skel_inv dev" and "io_mutex dev = Flushing d" and "drained d' dev"
  shows "skel_inv (dev\<lparr>io_mutex := Flushing d'\<rparr>)"
proof (rule skel_invI)
  note i = skel_invD [OF assms(1)]
  show "mutex_ok (dev\<lparr>io_mutex := Flushing d'\<rparr>)" using i(3) assms(2) by (simp add: mutex_ok_def resetting_def)
  show "life_ok (dev\<lparr>io_mutex := Flushing d'\<rparr>)"
    using i(4) assms(2) by (simp add: life_ok_def file_calls_def)
  show "quiet_ok (dev\<lparr>io_mutex := Flushing d'\<rparr>)"
    using i(5) assms(3) by (simp add: quiet_ok_def drained_def)
qed (use skel_invD [OF assms(1)] in simp_all)

lemma flush_inv:
  assumes "skel_flush t i dev = Some dev'" and "skel_inv dev"
  shows "skel_inv dev' \<and> flows dev [] dev'"
proof -
  obtain d where m: "io_mutex dev = Flushing d"
    using assms(1) by (auto simp: skel_flush_def split: mutex_holder.splits)
  have q: "drained d dev" using skel_invD(5) [OF assms(2)] m by (simp add: quiet_ok_def)
  show ?thesis
  proof (cases "d = DEnd")
    case True
    then have d: "dev' = dev\<lparr>errors := 0, io_mutex := Free\<rparr>"
      using assms(1) m by (simp add: skel_flush_def skel_flush_end_def)
    have "skel_inv (dev\<lparr>errors := 0, io_mutex := Free\<rparr>)" using assms(2) m by (intro unlock_inv) simp_all
    then show ?thesis unfolding d by (auto intro: flows_same)
  next
    case False
    then obtain d' dev1 where s: "skel_draw_down t i d dev = Some (d', dev1)"
      and d: "dev' = dev1\<lparr>io_mutex := Flushing d'\<rparr>"
      using assms(1) m by (cases d) (auto simp: skel_flush_def)
    from draw_down_inv [OF s assms(2) q] have "skel_inv dev1" "drained d' dev1" "io_mutex dev1 = Flushing d"
      using m by (simp_all add: same_calls_def)
    then have "skel_inv dev'" unfolding d using flush_moves by blast
    moreover have "flows dev [] dev'" unfolding d using draw_down_flows [OF s assms(2)] by (rule flows_update) simp_all
    ultimately show ?thesis by simp
  qed
qed

lemma core_moves:
  assumes "skel_inv dev" and "core_op dev \<noteq> Gone" and "c \<noteq> Gone"
    and r: "c = ResetHeld \<or> (\<exists>d. c = Resetting d) \<longleftrightarrow> resetting dev"
    and "disconnected dev \<longleftrightarrow> c \<in> {DiscRead, DiscWrites, DiscPut}"
    and "\<And>d. c = Resetting d \<Longrightarrow> drained d dev" and "c = ResetHeld \<Longrightarrow> drained DEnd dev"
    and "c \<in> {DiscWrites, DiscPut} \<Longrightarrow> \<not> ongoing_read dev" and "c = DiscPut \<Longrightarrow> anchored dev = []"
  shows "skel_inv (dev\<lparr>core_op := c\<rparr>)"
proof (rule skel_invI)
  note i = skel_invD [OF assms(1)]
  have "resetting (dev\<lparr>core_op := c\<rparr>) = resetting dev" unfolding r [symmetric] by (simp add: resetting_def)
  then show "mutex_ok (dev\<lparr>core_op := c\<rparr>)" using i(3) by (simp add: mutex_ok_def)
  show "life_ok (dev\<lparr>core_op := c\<rparr>)" using i(4) assms(2,3,5) by (simp add: life_ok_def file_calls_def)
  have "\<forall>d. io_mutex dev = Flushing d \<longrightarrow> drained d dev" using i(5) by (simp add: quiet_ok_def)
  then show "quiet_ok (dev\<lparr>core_op := c\<rparr>)" using assms(3,6-9) by (auto simp: quiet_ok_def drained_def)
qed (use skel_invD [OF assms(1)] in simp_all)

lemma same_calls_core: "same_calls dev dev' \<Longrightarrow> core_op dev' = core_op dev \<and> disconnected dev' = disconnected dev"
  by (simp add: same_calls_def)

lemma connected: "life_ok dev \<Longrightarrow> core_op dev \<notin> {DiscRead, DiscWrites, DiscPut, Gone} \<Longrightarrow> \<not> disconnected dev"
  by (simp add: life_ok_def)

lemma suspend_inv:
  assumes "skel_suspend t i dev = Some dev'" and "skel_inv dev"
  shows "skel_inv dev' \<and> flows dev [] dev'"
proof -
  note lf = skel_invD(4) [OF assms(2)]
  consider (first) "core_op dev = CoreIdle" "dev' = dev\<lparr>core_op := Suspending DWait\<rparr>"
    | (last) "core_op dev = Suspending DEnd" "dev' = dev\<lparr>core_op := CoreIdle\<rparr>"
    | (mid) d d' dev1 where "core_op dev = Suspending d" "skel_draw_down t i d dev = Some (d', dev1)"
      "dev' = dev1\<lparr>core_op := Suspending d'\<rparr>"
    using assms(1) by (auto simp: skel_suspend_def split: core_call.splits drain_pc.splits if_splits)
  then show ?thesis
  proof cases
    case first
    then show ?thesis
      using connected [OF lf] core_moves [OF assms(2), of "Suspending DWait"] by (auto simp: resetting_def intro: flows_same)
  next
    case last
    then show ?thesis
      using connected [OF lf] core_moves [OF assms(2), of CoreIdle] by (auto simp: resetting_def intro: flows_same)
  next
    case mid
    have dr: "skel_inv dev1 \<and> same_calls dev dev1"
    proof -
      show ?thesis using mid(2) assms(2) write_callback_inv kill_read_inv [OF assms(2)]
        by (cases d) (auto split: if_splits)
    qed
    then have c: "core_op dev1 = Suspending d" "\<not> disconnected dev1"
      using mid(1) connected [OF lf] by (auto dest!: same_calls_core)
    then have "skel_inv (dev1\<lparr>core_op := Suspending d'\<rparr>)"
      using core_moves [of dev1 "Suspending d'"] dr by (auto simp: resetting_def)
    moreover have "flows dev [] (dev1\<lparr>core_op := Suspending d'\<rparr>)"
      using draw_down_flows [OF mid(2) assms(2)] by (rule flows_update) simp_all
    ultimately show ?thesis using mid(3) by simp
  qed
qed

lemma pre_reset_begin_inv:
  assumes "skel_inv dev" and "core_op dev = CoreIdle" and "io_mutex dev = Free"
  shows "skel_inv (dev\<lparr>io_mutex := Resetter, core_op := Resetting DWait\<rparr>)"
proof (rule skel_invI)
  let ?d = "dev\<lparr>io_mutex := Resetter, core_op := Resetting DWait\<rparr>"
  note i = skel_invD [OF assms(1)]
  show "slots_ok ?d" "buffer_ok ?d" using i by simp_all
  show "mutex_ok ?d" using i(3) assms(3) by (simp add: mutex_ok_def resetting_def)
  show "life_ok ?d" using i(4) assms(2,3) by (simp add: life_ok_def file_calls_def)
  show "quiet_ok ?d" using i(5) by (simp add: quiet_ok_def drained_def)
qed

lemma pre_reset_inv:
  assumes "skel_pre_reset t i dev = Some dev'" and "skel_inv dev"
  shows "skel_inv dev' \<and> flows dev [] dev'"
proof -
  note lf = skel_invD(4) [OF assms(2)] and qt = skel_invD(5) [OF assms(2)]
  consider (first) "core_op dev = CoreIdle" "io_mutex dev = Free"
      "dev' = dev\<lparr>io_mutex := Resetter, core_op := Resetting DWait\<rparr>"
    | (last) "core_op dev = Resetting DEnd" "dev' = dev\<lparr>core_op := ResetHeld\<rparr>"
    | (mid) d d' dev1 where "core_op dev = Resetting d" "skel_draw_down t i d dev = Some (d', dev1)"
      "dev' = dev1\<lparr>core_op := Resetting d'\<rparr>"
    using assms(1) by (auto simp: skel_pre_reset_def split: core_call.splits drain_pc.splits if_splits)
  then show ?thesis
  proof cases
    case first
    then show ?thesis using pre_reset_begin_inv [OF assms(2)] by (auto intro: flows_same)
  next
    case last
    then have "drained DEnd dev" using qt by (simp add: quiet_ok_def)
    with last show ?thesis
      using connected [OF lf] core_moves [OF assms(2), of ResetHeld] by (auto simp: resetting_def intro: flows_same)
  next
    case mid
    have q: "drained d dev" using qt mid(1) by (simp add: quiet_ok_def)
    from draw_down_inv [OF mid(2) assms(2) q] have dr: "skel_inv dev1" "drained d' dev1" "same_calls dev dev1"
      by auto
    then have c: "core_op dev1 = Resetting d" "\<not> disconnected dev1"
      using mid(1) connected [OF lf] by (auto dest!: same_calls_core)
    then have "skel_inv (dev1\<lparr>core_op := Resetting d'\<rparr>)"
      using core_moves [OF dr(1), of "Resetting d'"] dr(2) by (auto simp: resetting_def)
    moreover have "flows dev [] (dev1\<lparr>core_op := Resetting d'\<rparr>)"
      using draw_down_flows [OF mid(2) assms(2)] by (rule flows_update) simp_all
    ultimately show ?thesis using mid(3) by simp
  qed
qed

lemma post_reset_inv:
  assumes "skel_post_reset dev = Some dev'" and "skel_inv dev"
  shows "skel_inv dev' \<and> flows dev [] dev'"
proof -
  have c: "core_op dev = ResetHeld" and d: "dev' = dev\<lparr>errors := - EPIPE, io_mutex := Free, core_op := CoreIdle\<rparr>"
    using assms(1) by (auto simp: skel_post_reset_def split: if_splits)
  note i = skel_invD [OF assms(2)]
  have m: "io_mutex dev = Resetter" using i(3) c by (simp add: mutex_ok_def resetting_def)
  have "mutex_ok dev'" using i(3) m by (simp add: d mutex_ok_def resetting_def)
  moreover have "life_ok dev'" using i(4) c m by (simp add: d life_ok_def file_calls_def)
  moreover have "quiet_ok dev'" using i(5) by (simp add: d quiet_ok_def drained_def)
  ultimately have "skel_inv dev'" using i(1,2) by (intro skel_invI) (simp_all add: d)
  then show ?thesis by (simp add: d flows_same)
qed

lemma disconnect_flag_inv:
  assumes "skel_inv dev" and "core_op dev = DiscLock" and "io_mutex dev = Free"
  shows "skel_inv (dev\<lparr>disconnected := True, core_op := DiscRead\<rparr>)"
proof (rule skel_invI)
  let ?d = "dev\<lparr>disconnected := True, core_op := DiscRead\<rparr>"
  note i = skel_invD [OF assms(1)]
  show "slots_ok ?d" "buffer_ok ?d" using i by simp_all
  show "mutex_ok ?d" using i(3) assms(2,3) by (simp add: mutex_ok_def resetting_def)
  show "life_ok ?d" using i(4) assms(2) by (simp add: life_ok_def file_calls_def)
  show "quiet_ok ?d" using i(5) assms(3) by (simp add: quiet_ok_def)
qed

lemma disconnect_put_inv:
  assumes "skel_inv dev" and "core_op dev = DiscPut"
  shows "skel_inv (kref_put (dev\<lparr>core_op := Gone\<rparr>))"
proof (rule skel_invI)
  let ?d = "dev\<lparr>core_op := Gone\<rparr>"
  note i = skel_invD [OF assms(1)]
  show "slots_ok (kref_put ?d)" "buffer_ok (kref_put ?d)" using i by simp_all
  have "mutex_ok ?d" using i(3) assms(2) by (simp add: mutex_ok_def resetting_def)
  then show "mutex_ok (kref_put ?d)" by simp
  show "life_ok (kref_put ?d)"
    using i(4) assms(2) by (auto simp: life_ok_def file_calls_def kref_put_def skel_delete_def Let_def)
  have "quiet_ok ?d" using i(5) assms(2) by (simp add: quiet_ok_def drained_def)
  then show "quiet_ok (kref_put ?d)" by simp
qed

lemma disconnect_inv:
  assumes "skel_disconnect i dev = Some dev'" and "skel_inv dev"
  shows "skel_inv dev' \<and> flows dev [] dev'"
proof -
  note lf = skel_invD(4) [OF assms(2)] and qt = skel_invD(5) [OF assms(2)]
  note step = assms(1) [unfolded skel_disconnect_def]
  show ?thesis
  proof (cases "core_op dev")
    case CoreIdle
    then show ?thesis
      using step connected [OF lf] core_moves [OF assms(2), of DiscLock] by (auto simp: resetting_def intro: flows_same)
  next
    case DiscLock
    then show ?thesis
      using step disconnect_flag_inv [OF assms(2)] by (auto split: if_splits intro: flows_same)
  next
    case DiscRead
    note k = kill_read_inv [OF assms(2)]
    have c: "core_op (kill_read dev) = DiscRead" "disconnected (kill_read dev)"
      using same_calls_core [OF k(4)] DiscRead lf by (auto simp: life_ok_def)
    have "skel_inv ((kill_read dev)\<lparr>core_op := DiscWrites\<rparr>)"
      using c k core_moves [OF k(1), of DiscWrites] by (auto simp: resetting_def)
    moreover have "flows dev [] ((kill_read dev)\<lparr>core_op := DiscWrites\<rparr>)"
      using kill_read_flows [OF assms(2)] by (rule flows_update) simp_all
    ultimately show ?thesis using step DiscRead by simp
  next
    case DiscWrites
    have c: "disconnected dev" "\<not> ongoing_read dev"
      using DiscWrites lf qt by (auto simp: life_ok_def quiet_ok_def)
    show ?thesis
      using step DiscWrites c core_moves [OF assms(2), of DiscPut] write_callback_inv [OF assms(2)] write_callback_flows
      by (auto simp: resetting_def split: if_splits intro: flows_same)
  next
    case DiscPut
    then show ?thesis
      using step disconnect_put_inv [OF assms(2)] by (auto intro: flows_same)
  qed (use step in simp_all)
qed

text \<open>The bytes a step hands to a reader.\<close>

fun handed :: "skel_event \<Rightarrow> byte list" where
  "handed (Read e out) = out"
| "handed _ = []"

fun copies_ok :: "skel_event \<Rightarrow> bool" where
  "copies_ok (Read e out) = (r_uleft e = 0)"
| "copies_ok _ = True"

definition given :: "skel_event list \<Rightarrow> byte list" where
  "given evs = concat (map handed evs)"

lemma write_flows:
  assumes "skel_write e i dev = Some (pc, dev')"
  shows "flows dev [] (move_writer i pc dev')"
  using assms
  by (intro flows_same) (auto simp: skel_write_def move_writer_def split: writer_pc.splits if_splits bool.splits)

lemma skel_step_ok:
  assumes "skel_step dev ev dev'" and "skel_inv dev"
  shows "skel_inv dev' \<and> (copies_ok ev \<longrightarrow> flows dev (handed ev) dev')"
  using assms(1)
proof cases
  case (step_open pm r)
  then show ?thesis
    using open_inv assms(2) by (auto simp: skel_open_def split: if_splits intro!: flows_same)
next
  case (step_release r)
  have "flows dev [] dev'"
    using step_release by (intro flows_same) (auto simp: skel_release_def)
  then show ?thesis using release_inv [OF _ assms(2)] step_release by simp
next
  case (step_read_call nb sig n)
  then have d: "io_mutex dev = Free" "\<not> disconnected dev" "dev' = dev\<lparr>io_mutex := Reader nb n RLook\<rparr>"
    by (auto simp: skel_read_begin_def split: if_splits)
  have "skel_inv dev'" unfolding d(3) using step_read_call d(2) by (intro lock_inv [OF assms(2) d(1)]) simp_all
  then show ?thesis using step_read_call d(3) by (simp add: flows_same)
next
  case (step_read e r out)
  then show ?thesis using read_ok [OF _ assms(2)] by (fastforce simp: read_post_def)
next
  case (step_write_call nb sig n pc dev1 user)
  then have "flows dev [] dev'"
    by (intro flows_same) (auto simp: skel_write_begin_def new_writer_def split: if_splits)
  then show ?thesis using new_writer_inv [OF assms(2)] step_write_call by simp
next
  case (step_write i e pc dev1)
  then show ?thesis using write_inv [OF _ assms(2)] write_flows by simp
next
  case (step_read_done st data)
  then show ?thesis using read_callback_inv read_callback_flows assms(2) by simp
next
  case (step_write_done i st)
  then show ?thesis using write_callback_inv write_callback_flows assms(2) by simp
next
  case step_flush_call
  then have d: "io_mutex dev = Free" "dev' = dev\<lparr>io_mutex := Flushing DWait\<rparr>"
    by (auto simp: skel_flush_begin_def split: if_splits)
  have "skel_inv dev'" unfolding d(2) using step_flush_call by (intro lock_inv [OF assms(2) d(1)]) simp_all
  then show ?thesis using step_flush_call d(2) by (simp add: flows_same)
next
  case (step_flush t i)
  then show ?thesis using flush_inv assms(2) by simp
next
  case (step_suspend t i)
  then show ?thesis using suspend_inv assms(2) by simp
next
  case (step_resume r)
  then show ?thesis using assms(2) by (simp add: skel_resume_def flows_same)
next
  case (step_pre_reset t i)
  then show ?thesis using pre_reset_inv assms(2) by simp
next
  case step_post_reset
  then show ?thesis using post_reset_inv assms(2) by simp
next
  case (step_disconnect i)
  then show ?thesis using disconnect_inv assms(2) by simp
qed

definition skel_start :: "usb_skel \<Rightarrow> bool" where
  "skel_start dev \<longleftrightarrow> (\<exists>buf. length buf < 2 ^ 31 \<and> dev = skel_probed buf)"

interpretation skel_device: invariant_system skel_start skel_step skel_inv
proof (unfold_locales, goal_cases)
  case (1 dev)
  then obtain buf where d: "length buf < 2 ^ 31" "dev = skel_probed buf" by (auto simp: skel_start_def)
  show ?case
    using d(1) unfolding d(2)
    by (intro skel_invI) (simp_all add: skel_probed_def slots_ok_def WRITES_IN_FLIGHT_def writers_with_def
        buffer_ok_def mutex_ok_def resetting_def life_ok_def file_calls_def quiet_ok_def)
next
  case (2 dev ev dev')
  then show ?case using skel_step_ok by blast
qed

lemma no_calls_no_slots:
  assumes "\<not> file_calls dev"
  shows "writers_with holds_slot (writers dev) = 0" and "writers_with holds_buffer (writers dev) = 0"
proof -
  have "\<exists>rv. w_pc w = WDone rv" if "w \<in> set (writers dev)" for w
    using assms that by (auto simp: file_calls_def)
  then have "\<not> holds_slot (w_pc w) \<and> \<not> holds_buffer (w_pc w)" if "w \<in> set (writers dev)" for w
    using that by fastforce
  then show "writers_with holds_slot (writers dev) = 0" "writers_with holds_buffer (writers dev) = 0"
    by (simp_all add: writers_with_def)
qed

lemma skel_deleted:
  assumes "skel_inv dev" and "deleted dev"
  shows "core_op dev = Gone" and "opens dev = 0" and "\<not> file_calls dev"
    and "limit_sem dev = WRITES_IN_FLIGHT" and "coherent dev = 0"
proof -
  note i = skel_invD [OF assms(1)]
  show g: "core_op dev = Gone" "opens dev = 0" and f: "\<not> file_calls dev"
    using i(4) assms(2) by (auto simp: life_ok_def split: if_splits)
  have "anchored dev = []" using i(5) g by (simp add: quiet_ok_def)
  then show "limit_sem dev = WRITES_IN_FLIGHT" "coherent dev = 0"
    using i(1) no_calls_no_slots [OF f] by (simp_all add: slots_ok_def)
qed

text \<open>C2: In every reachable state of a probed device, with any number of calls of \<open>skel_write\<close>
  anywhere between taking a slot and returning, a reader or a flush asleep in the middle,
  completions, resets, power events and the disconnect, in whatever order: the free slots, the
  writers that hold one and the write URBs in flight add up to eight; every DMA buffer belongs
  to a writer that has one or to a URB in flight (every error path of \<open>skel_write\<close> gives both
  back, none twice); the reader's cursors are inside the receive buffer and its next piece does
  not copy from outside it; nothing is in flight during a reset, nor after the disconnect; the
  object is deleted exactly when neither the interface nor an open file refers to it, and then
  no call on it is in progress, every slot is free and no buffer is left.\<close>

theorem skel_reachable_ok:
  assumes "length buf < 2 ^ 31" and "run skel_step (skel_probed buf) evs dev"
  shows "(limit_sem dev + writers_with holds_slot (writers dev) + length (anchored dev) = WRITES_IN_FLIGHT) \<and>
    (coherent dev = writers_with holds_buffer (writers dev) + length (anchored dev)) \<and>
    (bulk_in_copied dev \<le> bulk_in_filled dev \<and> bulk_in_filled dev \<le> length (bulk_in_buffer dev)) \<and>
    (\<forall>e fault. skel_read e dev \<noteq> Some (Inl fault)) \<and>
    (core_op dev \<in> {ResetHeld, DiscPut, Gone} \<longrightarrow> anchored dev = [] \<and> \<not> ongoing_read dev) \<and>
    (deleted dev = (core_op dev = Gone \<and> opens dev = 0)) \<and>
    (deleted dev \<longrightarrow> \<not> file_calls dev \<and> limit_sem dev = WRITES_IN_FLIGHT \<and> coherent dev = 0)"
proof -
  have inv: "skel_inv dev"
    using skel_device.inv_reachable assms by (auto simp: skel_start_def)
  note i = skel_invD [OF inv]
  have "\<forall>e fault. skel_read e dev \<noteq> Some (Inl fault)"
    using read_ok [OF _ inv] by (fastforce simp: read_post_def)
  moreover have "core_op dev \<in> {ResetHeld, DiscPut, Gone} \<longrightarrow> anchored dev = [] \<and> \<not> ongoing_read dev"
    using i(5) by (auto simp: quiet_ok_def drained_def)
  moreover have "deleted dev = (core_op dev = Gone \<and> opens dev = 0)"
    using i(4) by (auto simp: life_ok_def)
  moreover have "deleted dev \<longrightarrow> \<not> file_calls dev \<and> limit_sem dev = WRITES_IN_FLIGHT \<and> coherent dev = 0"
    using skel_deleted(3-5) [OF inv] by blast
  ultimately show ?thesis using i(1,2) unfolding slots_ok_def buffer_ok_def by blast
qed

text \<open>
  A writer got as far as \<open>io_mutex\<close>, which a reset holds: it has its slot and its buffer, and
  nothing is in flight.
\<close>

definition all_well :: write_env where
  "all_well = \<lparr>w_urb = True, w_buf = True, w_copy = True, w_submit = 0\<rparr>"

definition sample_skel :: usb_skel where
  "sample_skel = (skel_probed (replicate 4 0))\<lparr>pm_count := 1, kref := 2, opens := 1\<rparr>"

definition sample_writer :: "writer_pc \<Rightarrow> usb_skel" where
  "sample_writer pc = sample_skel\<lparr>limit_sem := 7, coherent := (if pc = WLock then 1 else 0),
     writers := [\<lparr>w_pc = pc, w_user = [1, 2, 3], w_size = 3\<rparr>]\<rparr>"

definition stalled_skel :: usb_skel where
  "stalled_skel = (sample_writer WLock)\<lparr>io_mutex := Resetter, core_op := Resetting DWait\<rparr>"

definition stalled_run :: "skel_event list" where
  "stalled_run = [Open 0, WriteCall False False [1, 2, 3] 3, Write all_well 0, Write all_well 0,
     Write all_well 0, PreReset False 0]"

lemma sample_skel_opened: "skel_step (skel_probed (replicate 4 0)) (Open 0) sample_skel"
  by (rule step_open [where r = 0]) (simp add: skel_open_def sample_skel_def skel_probed_def bound_def)

lemma sample_skel_fields [simp]:
  "limit_sem sample_skel = 8" "anchored sample_skel = []" "errors sample_skel = 0" "opens sample_skel = 1"
  "bulk_in_buffer sample_skel = replicate 4 0" "ongoing_read sample_skel = False"
  "bulk_in_filled sample_skel = 0" "bulk_in_copied sample_skel = 0" "disconnected sample_skel = False"
  "io_mutex sample_skel = Free" "core_op sample_skel = CoreIdle" "writers sample_skel = []"
  "stream sample_skel = []" "coherent sample_skel = 0"
  by (simp_all add: sample_skel_def skel_probed_def WRITES_IN_FLIGHT_def)

lemma sample_write_call: "skel_step sample_skel (WriteCall False False [1, 2, 3] 3) (sample_writer WErrors)"
proof -
  have "skel_step sample_skel (WriteCall False False [1, 2, 3] 3)
      (new_writer WErrors [1, 2, 3] 3 (sample_skel\<lparr>limit_sem := 7\<rparr>))"
    by (rule step_write_call) (simp_all add: skel_write_begin_def)
  moreover have "sample_skel\<lparr>coherent := 0\<rparr> = sample_skel" by (simp add: sample_skel_def skel_probed_def)
  then have "new_writer WErrors [1, 2, 3] 3 (sample_skel\<lparr>limit_sem := 7\<rparr>) = sample_writer WErrors"
    by (simp add: new_writer_def sample_writer_def sample_skel_def skel_probed_def)
  ultimately show ?thesis by simp
qed

lemma sample_write_steps:
  "skel_step (sample_writer WErrors) (Write all_well 0) (sample_writer WAlloc)"
  "skel_step (sample_writer WAlloc) (Write all_well 0) ((sample_writer WAlloc)\<lparr>coherent := 1,
     writers := [\<lparr>w_pc = WCopy, w_user = [1, 2, 3], w_size = 3\<rparr>]\<rparr>)"
  "skel_step ((sample_writer WAlloc)\<lparr>coherent := 1, writers := [\<lparr>w_pc = WCopy, w_user = [1, 2, 3], w_size = 3\<rparr>]\<rparr>)
     (Write all_well 0) (sample_writer WLock)"
proof -
  have "skel_step (sample_writer WErrors) (Write all_well 0) (move_writer 0 WAlloc (sample_writer WErrors))"
    by (rule step_write) (simp_all add: skel_write_def sample_writer_def)
  then show "skel_step (sample_writer WErrors) (Write all_well 0) (sample_writer WAlloc)"
    by (simp add: move_writer_def sample_writer_def)
  have "skel_step (sample_writer WAlloc) (Write all_well 0)
      (move_writer 0 WCopy ((sample_writer WAlloc)\<lparr>coherent := 1\<rparr>))"
    by (rule step_write) (simp_all add: skel_write_def sample_writer_def all_well_def)
  then show "skel_step (sample_writer WAlloc) (Write all_well 0) ((sample_writer WAlloc)\<lparr>coherent := 1,
      writers := [\<lparr>w_pc = WCopy, w_user = [1, 2, 3], w_size = 3\<rparr>]\<rparr>)"
    by (simp add: move_writer_def sample_writer_def)
  let ?d = "(sample_writer WAlloc)\<lparr>coherent := 1, writers := [\<lparr>w_pc = WCopy, w_user = [1, 2, 3], w_size = 3\<rparr>]\<rparr>"
  have "skel_step ?d (Write all_well 0) (move_writer 0 WLock ?d)"
    by (rule step_write) (simp_all add: skel_write_def sample_writer_def all_well_def)
  then show "skel_step ?d (Write all_well 0) (sample_writer WLock)"
    by (simp add: move_writer_def sample_writer_def)
qed

lemma stalled_runs: "run skel_step (skel_probed (replicate 4 0)) stalled_run stalled_skel"
proof -
  have "skel_step (sample_writer WLock) (PreReset False 0) stalled_skel"
    by (rule step_pre_reset) (simp add: skel_pre_reset_def stalled_skel_def sample_writer_def)
  then show ?thesis
    unfolding stalled_run_def run_cons_iff run_nil_iff
    using sample_skel_opened sample_write_call sample_write_steps by blast
qed

theorem skel_reachable_ok_witness:
  "\<exists>dev. run skel_step (skel_probed (replicate 4 0)) stalled_run dev \<and>
     io_mutex dev = Resetter \<and> map w_pc (writers dev) = [WLock] \<and> anchored dev = [] \<and>
     limit_sem dev + 1 = WRITES_IN_FLIGHT \<and> coherent dev = 1"
proof -
  have l: "length (replicate 4 (0::byte)) < 2 ^ 31" by simp
  have "io_mutex stalled_skel = Resetter \<and> map w_pc (writers stalled_skel) = [WLock] \<and> anchored stalled_skel = []"
    by (simp add: stalled_skel_def sample_writer_def)
  moreover have "writers_with P (writers stalled_skel) = (if P WLock then 1 else 0)" for P
    by (simp add: writers_with_def stalled_skel_def sample_writer_def)
  ultimately show ?thesis
    using skel_reachable_ok [OF l stalled_runs, THEN conjunct1]
      skel_reachable_ok [OF l stalled_runs, THEN conjunct2, THEN conjunct1] stalled_runs
    by (intro exI [of _ stalled_skel]) simp
qed

section \<open>Theorems on reading\<close>

lemma run_flows:
  "run skel_step dev evs dev' \<Longrightarrow> skel_inv dev \<Longrightarrow> list_all copies_ok evs \<Longrightarrow> flows dev (given evs) dev'"
proof (induction evs arbitrary: dev)
  case Nil
  then show ?case by (simp add: run_nil_iff given_def flows_same)
next
  case (Cons ev evs)
  then obtain d where s: "skel_step dev ev d" and r: "run skel_step d evs dev'"
    by (auto simp: run_cons_iff)
  from skel_step_ok [OF s Cons.prems(2)] Cons.prems(3) have "skel_inv d" "flows dev (handed ev) d" by simp_all
  with Cons.IH [OF r] Cons.prems(3) flows_trans show ?case by (fastforce simp: given_def)
qed

text \<open>C3: Readers get the device's bytes exactly once and in order: in any run in which the
  copies to the user succeed, whatever mixture of sizes the readers ask for, with completions
  before, during and between the reads, writers, errors, signals, suspends, resets, flushes and
  the disconnect between any two pieces of a read, the bytes handed out so far followed by those
  still pending in the buffer are the bytes the device delivered with success.\<close>

theorem skel_reads_stream:
  assumes "run skel_step (skel_probed buf) evs dev" and "length buf < 2 ^ 31"
    and "\<forall>e out. Read e out \<in> set evs \<longrightarrow> r_uleft e = 0"
  shows "given evs @ pending dev = stream dev"
proof -
  have "skel_inv (skel_probed buf)" using assms(2) skel_device.inv_start by (auto simp: skel_start_def)
  moreover have "copies_ok ev" if "ev \<in> set evs" for ev
    using assms(3) that by (cases ev) auto
  then have "list_all copies_ok evs" by (simp add: list_all_iff)
  ultimately have "flows (skel_probed buf) (given evs) dev" using run_flows assms(1) by blast
  moreover have "stream (skel_probed buf) = []" "pending (skel_probed buf) = []"
    by (simp_all add: skel_probed_def pending_def)
  ultimately show ?thesis by (auto simp: flows_def)
qed

text \<open>A reader of two bytes asks for them, waits for the completion and is given what it brings.\<close>

definition sample_reader :: "mutex_holder \<Rightarrow> bool \<Rightarrow> nat \<Rightarrow> nat \<Rightarrow> nat \<Rightarrow> byte list \<Rightarrow> usb_skel" where
  "sample_reader m ongoing len filled copied st =
     \<lparr>limit_sem = WRITES_IN_FLIGHT, anchored = [], coherent = 0,
      bulk_in_buffer = put_range 0 st (replicate 4 0), bulk_in_filled = filled, bulk_in_copied = copied,
      rd_len = len, errors = 0, ongoing_read = ongoing, kref = 2, disconnected = False, opens = 1,
      pm_count = 1, deleted = False, io_mutex = m, writers = [], core_op = CoreIdle, stream = st\<rparr>"

definition fine_read :: read_env where
  "fine_read = \<lparr>r_signal = False, r_uleft = 0, r_submit = 0\<rparr>"

lemma sample_reader_starts:
  "skel_step (skel_probed (replicate 4 0)) (Open 0) (sample_reader Free False 0 0 0 [])"
  "skel_step (sample_reader Free False 0 0 0 []) (ReadCall False False 2) (sample_reader (Reader False 2 RLook) False 0 0 0 [])"
  by (rule step_open [where r = 0], simp add: skel_open_def sample_reader_def skel_probed_def bound_def)
    (rule step_read_call; simp add: skel_read_begin_def sample_reader_def)

lemma sample_reader_moves:
  "skel_step (sample_reader (Reader False 2 RLook) False len f c st) (Read fine_read []) (sample_reader (Reader False 2 RErrors) False len f c st)"
  "skel_step (sample_reader (Reader False 2 RErrors) False len f c st) (Read fine_read []) (sample_reader (Reader False 2 RData) False len f c st)"
  "skel_step (sample_reader (Reader False 2 RData) False 0 0 0 []) (Read fine_read []) (sample_reader (Reader False 2 RLook) True 2 0 0 [])"
  "skel_step (sample_reader (Reader False 2 RLook) True 2 0 0 []) (ReadDone 0 [5, 6, 7]) (sample_reader (Reader False 2 RLook) False 2 2 0 [5, 6])"
  "skel_step (sample_reader (Reader False 2 RData) False 2 2 0 [5, 6]) (Read fine_read [5, 6]) (sample_reader Free False 2 2 2 [5, 6])"
proof -
  show "skel_step (sample_reader (Reader False 2 RLook) False len f c st) (Read fine_read []) (sample_reader (Reader False 2 RErrors) False len f c st)"
    "skel_step (sample_reader (Reader False 2 RErrors) False len f c st) (Read fine_read []) (sample_reader (Reader False 2 RData) False len f c st)"
    "skel_step (sample_reader (Reader False 2 RData) False 0 0 0 []) (Read fine_read []) (sample_reader (Reader False 2 RLook) True 2 0 0 [])"
    by (rule step_read; simp add: skel_read_def sample_reader_def read_goto_def read_more_def skel_do_read_io_def
        fine_read_def put_range_def)+
  show "skel_step (sample_reader (Reader False 2 RData) False 2 2 0 [5, 6]) (Read fine_read [5, 6]) (sample_reader Free False 2 2 2 [5, 6])"
    by (rule step_read; simp add: skel_read_def sample_reader_def read_exit_def size_minus_le get_range_def
        fine_read_def put_range_def)
  have "skel_read_bulk_callback 0 [5, 6, 7] (sample_reader (Reader False 2 RLook) True 2 0 0 []) =
      sample_reader (Reader False 2 RLook) False 2 2 0 [5, 6]"
    by (simp add: skel_read_bulk_callback_def sample_reader_def put_range_def)
  moreover have "ongoing_read (sample_reader (Reader False 2 RLook) True 2 0 0 [])" by (simp add: sample_reader_def)
  ultimately show "skel_step (sample_reader (Reader False 2 RLook) True 2 0 0 []) (ReadDone 0 [5, 6, 7]) (sample_reader (Reader False 2 RLook) False 2 2 0 [5, 6])"
    using step_read_done by metis
qed

definition sample_reading :: "skel_event list" where
  "sample_reading = [Open 0, ReadCall False False 2, Read fine_read [], Read fine_read [], Read fine_read [],
     ReadDone 0 [5, 6, 7], Read fine_read [], Read fine_read [], Read fine_read [5, 6]]"

theorem skel_reads_stream_witness:
  "\<exists>dev. run skel_step (skel_probed (replicate 4 0)) sample_reading dev \<and> given sample_reading = [5, 6] \<and>
     stream dev = [5, 6] @ pending dev"
proof -
  let ?d = "sample_reader Free False 2 2 2 [5, 6]"
  have r: "run skel_step (skel_probed (replicate 4 0)) sample_reading ?d"
    unfolding sample_reading_def run_cons_iff run_nil_iff
    by (intro exI conjI) (rule sample_reader_starts sample_reader_moves refl)+
  have g: "given sample_reading = [5, 6]" by (simp add: given_def sample_reading_def)
  have l: "length (replicate 4 (0::byte)) < 2 ^ 31" by simp
  have c: "\<forall>e out. Read e out \<in> set sample_reading \<longrightarrow> r_uleft e = 0"
    by (auto simp: sample_reading_def fine_read_def)
  show ?thesis using r g skel_reads_stream [OF r l c] by auto
qed

section \<open>Errors\<close>

text \<open>
  A reset reports \<open>EPIPE\<close> and a failed transfer \<open>EIO\<close>, to the next reader or writer that looks;
  the writer does it under a lock and nothing is lost, and neither of them transfers anything.
\<close>

theorem skel_error_reported_once:
  assumes "errors dev < 0"
  defines "rv \<equiv> if errors dev = - EPIPE then - EPIPE else - EIO"
  shows "(w_pc (writers dev ! i) = WErrors \<longrightarrow> skel_write e i dev = Some (WFail rv False, dev\<lparr>errors := 0\<rparr>)) \<and>
    (io_mutex dev = Reader nb n RErrors \<longrightarrow>
       (\<exists>dev1. skel_read r dev = Some (Inr (None, [], dev1)) \<and>
          skel_read r dev1 = Some (Inr (Some rv, [], dev\<lparr>errors := 0, io_mutex := Free\<rparr>))))"
  using assms by (simp add: skel_write_def skel_read_def read_goto_def read_exit_def rv_def)

text \<open>
  The reader reads \<open>errors\<close> and clears it without the lock. The completion of a write URB in
  between stores its error, and the reader wipes it out: nobody is told.
\<close>

theorem skel_error_lost:
  assumes "io_mutex dev = Reader nb n RErrors" and "errors dev < 0" and "i < length (anchored dev)" and "st \<noteq> 0"
  shows "\<exists>dev1 dev2 dev3. skel_step dev (Read r []) dev1 \<and>
    skel_step dev1 (WriteDone i st) dev2 \<and> errors dev2 = st \<and>
    skel_read r dev2 = Some (Inr (Some (if errors dev = - EPIPE then - EPIPE else - EIO), [], dev3)) \<and> errors dev3 = 0"
proof -
  let ?d1 = "dev\<lparr>io_mutex := Reader nb n (RClear (errors dev))\<rparr>"
  let ?d2 = "skel_write_bulk_callback i st ?d1"
  have "skel_step dev (Read r []) ?d1"
    using assms by (intro step_read) (simp add: skel_read_def read_goto_def)
  moreover have "skel_step ?d1 (WriteDone i st) ?d2" using assms by (intro step_write_done) simp
  moreover have "errors ?d2 = st" "io_mutex ?d2 = Reader nb n (RClear (errors dev))"
    using assms by (simp_all add: skel_write_bulk_callback_def Let_def)
  ultimately show ?thesis
    by (intro exI [of _ ?d1] exI [of _ ?d2] exI [of _ "?d2\<lparr>errors := 0, io_mutex := Free\<rparr>"])
      (simp add: skel_read_def read_exit_def)
qed

text \<open>Closing a file whose read URB is still in flight reports \<open>EIO\<close> even when no transfer
  failed: the handler exempts unlinked URBs from its log message only, and stores their status
  as an error all the same. (A read that could not be satisfied from the buffer always leaves
  such an URB behind.)\<close>

theorem skel_flush_reports_kill:
  assumes "io_mutex dev = Flushing DRead" and "ongoing_read dev"
  shows "\<exists>dev1. skel_flush t i dev = Some dev1 \<and> io_mutex dev1 = Flushing DEnd \<and>
    skel_flush_end dev1 = (- EIO, dev1\<lparr>errors := 0, io_mutex := Free\<rparr>)"
  using assms
  by (simp add: skel_flush_def kill_read_def skel_flush_end_def skel_read_bulk_callback_def Let_def)

theorem skel_flush_reports_kill_witness:
  "\<exists>dev1. skel_flush False 0 (sample_reader (Flushing DRead) True 2 0 0 []) = Some dev1 \<and> fst (skel_flush_end dev1) = - EIO"
  using skel_flush_reports_kill [of "sample_reader (Flushing DRead) True 2 0 0 []" False 0]
  by (auto simp: sample_reader_def)

section \<open>Progress\<close>

text \<open>A device that answers every request with an empty packet keeps a blocking reader in
  its loop for ever: however many such completions arrive, \<open>skel_read\<close> asks again and sleeps
  again, and holds \<open>io_mutex\<close> meanwhile.\<close>

definition empty_round :: "skel_event list" where
  "empty_round = ReadDone 0 [] # replicate 4 (Read fine_read [])"

theorem skel_read_spins:
  assumes m: "io_mutex dev = Reader False n RWait" and "ongoing_read dev" and "errors dev = 0"
    and "bulk_in_filled dev = 0" and "bulk_in_copied dev = 0"
    and "rd_len dev = min (length (bulk_in_buffer dev)) n"
  shows "run skel_step dev (concat (replicate k empty_round)) dev"
proof (induction k)
  case 0
  then show ?case by (simp add: run_nil_iff)
next
  case (Suc k)
  let ?d = "\<lambda>pc. dev\<lparr>io_mutex := Reader False n pc, ongoing_read := False\<rparr>"
  have d: "skel_read_bulk_callback 0 [] dev = ?d RWait"
    using assms by (cases dev) (simp add: skel_read_bulk_callback_def)
  have "skel_step dev (ReadDone 0 []) (?d RWait)"
    using step_read_done [OF assms(2), of 0 "[]"] by (simp add: d)
  moreover have "skel_step (?d RWait) (Read fine_read []) (?d RErrors)"
    "skel_step (?d RErrors) (Read fine_read []) (?d RData)"
    by (rule step_read; simp add: skel_read_def read_goto_def assms(3))+
  moreover have "skel_step (?d RData) (Read fine_read []) (dev\<lparr>io_mutex := Reader False n RLook\<rparr>)"
    by (rule step_read) (use assms in \<open>cases dev; simp add: skel_read_def read_more_def skel_do_read_io_def
      fine_read_def read_goto_def\<close>)
  moreover have "skel_step (dev\<lparr>io_mutex := Reader False n RLook\<rparr>) (Read fine_read []) dev"
    by (rule step_read) (use assms in \<open>cases dev; simp add: skel_read_def read_goto_def\<close>)
  ultimately have "run skel_step dev empty_round dev"
    unfolding empty_round_def numeral_nat One_nat_def replicate.simps run_cons_iff run_nil_iff by blast
  then show ?case using Suc by (auto intro: run_append)
qed

theorem skel_read_spins_witness:
  "run skel_step (sample_reader (Reader False 2 RWait) True 2 0 0 [])
     (concat (replicate 100 empty_round)) (sample_reader (Reader False 2 RWait) True 2 0 0 [])"
  by (rule skel_read_spins [where n = 2]) (simp_all add: sample_reader_def put_range_def)

text \<open>However often a device is plugged in and out with no file open, with any outcome of
  the allocations, of finding the endpoints and of the registration, probing and disconnecting
  give back every resource exactly once.\<close>

theorem skel_probe_balanced: "cycles skel_probe skel_unbind es k = k"
  by (rule skel.cycles_id) (simp add: list_all_iff)

end
