(* ===== verification/Tiny_Tty.thy ===== *)
theory Tiny_Tty
  imports Interfaces
begin

unbundle bit_operations_syntax

text \<open>
  \<open>src/serial/tiny_tty.c\<close>: a tty driver with four ports, each with a timer that receives one
  character every two seconds while the port is open, shadow modem registers, the serial
  \<open>ioctl\<close> calls, and a log of the line settings. What the driver prints is a list of log
  entries; the tty layer's \<open>tty_port_open\<close> and \<open>tty_port_close\<close> are parameters.
\<close>

section \<open>State\<close>

record async_icount =
  rng :: c_int
  dsr :: c_int
  dcd :: c_int
  cts :: c_int
  rx :: c_int
  tx :: c_int
  frame :: c_int
  overrun :: c_int
  parity :: c_int
  brk :: c_int
  buf_overrun :: c_int

record serial_struct =
  s_type :: c_int
  s_line :: c_int
  s_port :: c_uint
  s_irq :: c_int
  s_flags :: c_int
  s_xmit_fifo_size :: c_int
  s_baud_base :: c_int
  s_close_delay :: "16 word"
  s_closing_wait :: "16 word"
  s_custom_divisor :: c_int
  s_hub6 :: c_int
  s_io_type :: byte

text \<open>
  \<open>count\<close> is the open count of the embedded \<open>tty_port\<close>, \<open>armed\<close> whether the timer is pending,
  \<open>running\<close> whether its handler has started and not finished, \<open>flip\<close> the characters pushed to
  the tty layer.
\<close>

(* src: serial/tiny_tty.c:46-59 struct tiny_serial *)
record tiny_serial =
  port_count :: nat
  armed :: bool
  running :: bool
  flip :: "byte list"
  msr :: c_uint
  mcr :: c_uint
  serial :: serial_struct
  icount :: async_icount

section \<open>Timer, open, close\<close>

abbreviation (input) TINY_DATA_CHARACTER :: byte where "TINY_DATA_CHARACTER \<equiv> 116"

text \<open>The handler in two pieces: it delivers the character, then it submits the timer again.\<close>

(* src: serial/tiny_tty.c:64-86 tiny_timer (delivery) *)
definition tiny_timer_deliver :: "tiny_serial \<Rightarrow> tiny_serial" where
  "tiny_timer_deliver tiny =
     tiny\<lparr>armed := False, running := True, flip := flip tiny @ [TINY_DATA_CHARACTER]\<rparr>"

(* src: serial/tiny_tty.c:87-90 tiny_timer (resubmission) *)
definition tiny_timer_rearm :: "tiny_serial \<Rightarrow> tiny_serial" where
  "tiny_timer_rearm tiny = tiny\<lparr>armed := True, running := False\<rparr>"

(* src: serial/tiny_tty.c:96-106 tiny_activate *)
definition tiny_activate :: "tiny_serial \<Rightarrow> int \<times> tiny_serial" where
  "tiny_activate tiny = (0, tiny\<lparr>armed := True\<rparr>)"

text \<open>\<open>del_timer\<close> cancels a pending timer and does not wait for a running handler.\<close>

(* src: serial/tiny_tty.c:112-119 tiny_shutdown *)
definition tiny_shutdown :: "tiny_serial \<Rightarrow> tiny_serial" where
  "tiny_shutdown tiny = tiny\<lparr>armed := False\<rparr>"

type_synonym port_open = "(tiny_serial \<Rightarrow> int \<times> tiny_serial) \<Rightarrow> tiny_serial \<Rightarrow> int \<times> tiny_serial"
type_synonym port_close = "(tiny_serial \<Rightarrow> tiny_serial) \<Rightarrow> tiny_serial \<Rightarrow> tiny_serial"

text \<open>The second component says whether the tty's \<open>driver_data\<close> points to the port.\<close>

(* src: serial/tiny_tty.c:121-145 tiny_open *)
definition tiny_open :: "port_open \<Rightarrow> tiny_serial \<Rightarrow> int \<times> bool \<times> tiny_serial" where
  "tiny_open tty_port_open tiny =
     (let (status, tiny) = tty_port_open tiny_activate tiny
      in (status, status = 0, tiny))"

(* src: serial/tiny_tty.c:148-157 tiny_close *)
definition tiny_close :: "port_close \<Rightarrow> bool \<Rightarrow> tiny_serial \<Rightarrow> tiny_serial" where
  "tiny_close tty_port_close driver_data tiny =
     (if driver_data then tty_port_close tiny_shutdown tiny else tiny)"

text \<open>
  What the tty layer documents: opening counts the open, activates the port on the first one,
  and returns the activation's status; closing takes one open back and shuts the port down on
  the last one.
\<close>

definition port_open_ok :: "port_open \<Rightarrow> bool" where
  "port_open_ok po \<longleftrightarrow> (\<forall>act p. po act p =
     (let (r, q) = (if port_count p = 0 then act p else (0, p)) in (r, q\<lparr>port_count := port_count p + 1\<rparr>)))"

definition port_close_ok :: "port_close \<Rightarrow> bool" where
  "port_close_ok pc \<longleftrightarrow> (\<forall>sd p. 0 < port_count p \<longrightarrow> pc sd p =
     (if port_count p = 1 then sd p else p)\<lparr>port_count := port_count p - 1\<rparr>)"

section \<open>Writing\<close>

datatype parity_kind = Odd | Even | NoParity

datatype tty_log =
    Bytes "byte list"
  | NothingToChange | DataBits nat | Parity parity_kind | StopBits nat | RtsCts bool
  | Inbound "(byte \<times> byte) option" | Outbound "(byte \<times> byte) option" | BaudRate int
  | PortLine nat

(* src: serial/tiny_tty.c:159-195 tiny_write *)
definition tiny_write :: "tiny_serial option \<Rightarrow> byte list \<Rightarrow> int \<Rightarrow> (int \<times> tty_log list) kresult" where
  "tiny_write tiny buffer n =
     (case tiny of
        None \<Rightarrow> Inr (- ENODEV, [])
      | Some tiny \<Rightarrow>
          if port_count tiny = 0 then Inr (- EINVAL, [])
          else if int (length buffer) < n then Inl OutOfBounds
          else Inr (n, [Bytes (take (nat n) buffer)]))"

(* src: serial/tiny_tty.c:197-224 tiny_write_room *)
definition tiny_write_room :: "tiny_serial option \<Rightarrow> int" where
  "tiny_write_room tiny =
     (case tiny of
        None \<Rightarrow> - ENODEV
      | Some tiny \<Rightarrow> if port_count tiny = 0 then - EINVAL else 255)"

section \<open>Line settings\<close>

record ktermios =
  c_iflag :: c_uint
  c_cflag :: c_uint
  stop_char :: byte
  start_char :: byte

abbreviation (input) IGNBRK :: c_uint where "IGNBRK \<equiv> 1"
abbreviation (input) BRKINT :: c_uint where "BRKINT \<equiv> 2"
abbreviation (input) IGNPAR :: c_uint where "IGNPAR \<equiv> 4"
abbreviation (input) PARMRK :: c_uint where "PARMRK \<equiv> 8"
abbreviation (input) INPCK :: c_uint where "INPCK \<equiv> 16"
abbreviation (input) IXON :: c_uint where "IXON \<equiv> 0x400"
abbreviation (input) IXOFF :: c_uint where "IXOFF \<equiv> 0x1000"
abbreviation (input) CSIZE :: c_uint where "CSIZE \<equiv> 0x30"
abbreviation (input) CS5 :: c_uint where "CS5 \<equiv> 0"
abbreviation (input) CS6 :: c_uint where "CS6 \<equiv> 0x10"
abbreviation (input) CS7 :: c_uint where "CS7 \<equiv> 0x20"
abbreviation (input) CS8 :: c_uint where "CS8 \<equiv> 0x30"
abbreviation (input) CSTOPB :: c_uint where "CSTOPB \<equiv> 0x40"
abbreviation (input) PARENB :: c_uint where "PARENB \<equiv> 0x100"
abbreviation (input) PARODD :: c_uint where "PARODD \<equiv> 0x200"
abbreviation (input) CRTSCTS :: c_uint where "CRTSCTS \<equiv> 0x80000000"

(* src: serial/tiny_tty.c:226-226 RELEVANT_IFLAG *)
definition RELEVANT_IFLAG :: "c_uint \<Rightarrow> c_uint" where
  "RELEVANT_IFLAG iflag = iflag AND (IGNBRK OR BRKINT OR IGNPAR OR PARMRK OR INPCK)"

(* src: serial/tiny_tty.c:228-306 tiny_set_termios *)
definition tiny_set_termios :: "int \<Rightarrow> ktermios option \<Rightarrow> ktermios \<Rightarrow> tty_log list" where
  "tiny_set_termios baud old termios =
     (let cflag = c_cflag termios; iflag = c_iflag termios
      in if (case old of
               None \<Rightarrow> False
             | Some old \<Rightarrow> cflag = c_cflag old \<and> RELEVANT_IFLAG iflag = RELEVANT_IFLAG (c_iflag old))
         then [NothingToChange]
         else
           [DataBits (let c = cflag AND CSIZE
                      in if c = CS5 then 5 else if c = CS6 then 6 else if c = CS7 then 7 else 8),
            Parity (if cflag AND PARENB \<noteq> 0 then (if cflag AND PARODD \<noteq> 0 then Odd else Even)
                    else NoParity),
            StopBits (if cflag AND CSTOPB \<noteq> 0 then 2 else 1),
            RtsCts (cflag AND CRTSCTS \<noteq> 0)] @
           (if iflag AND IXOFF \<noteq> 0 \<or> iflag AND IXON \<noteq> 0 then
              [Inbound (if iflag AND IXOFF \<noteq> 0 then Some (start_char termios, stop_char termios) else None),
               Outbound (if iflag AND IXON \<noteq> 0 then Some (start_char termios, stop_char termios) else None)]
            else []) @
           [BaudRate baud])"

section \<open>Modem control lines\<close>

(* src: serial/tiny_tty.c:309-309 MCR_DTR *)
definition MCR_DTR :: c_uint where "MCR_DTR = 0x01"
(* src: serial/tiny_tty.c:310-310 MCR_RTS *)
definition MCR_RTS :: c_uint where "MCR_RTS = 0x02"
(* src: serial/tiny_tty.c:311-311 MCR_LOOP *)
definition MCR_LOOP :: c_uint where "MCR_LOOP = 0x04"
(* src: serial/tiny_tty.c:312-312 MSR_CTS *)
definition MSR_CTS :: c_uint where "MSR_CTS = 0x08"
(* src: serial/tiny_tty.c:313-313 MSR_CD *)
definition MSR_CD :: c_uint where "MSR_CD = 0x10"
(* src: serial/tiny_tty.c:314-314 MSR_RI *)
definition MSR_RI :: c_uint where "MSR_RI = 0x20"
(* src: serial/tiny_tty.c:315-315 MSR_DSR *)
definition MSR_DSR :: c_uint where "MSR_DSR = 0x40"

abbreviation (input) TIOCM_DTR :: c_uint where "TIOCM_DTR \<equiv> 0x002"
abbreviation (input) TIOCM_RTS :: c_uint where "TIOCM_RTS \<equiv> 0x004"
abbreviation (input) TIOCM_CTS :: c_uint where "TIOCM_CTS \<equiv> 0x020"
abbreviation (input) TIOCM_CAR :: c_uint where "TIOCM_CAR \<equiv> 0x040"
abbreviation (input) TIOCM_RI :: c_uint where "TIOCM_RI \<equiv> 0x080"
abbreviation (input) TIOCM_DSR :: c_uint where "TIOCM_DSR \<equiv> 0x100"
abbreviation (input) TIOCM_LOOP :: c_uint where "TIOCM_LOOP \<equiv> 0x8000"

(* src: serial/tiny_tty.c:317-334 tiny_tiocmget *)
definition tiny_tiocmget :: "tiny_serial \<Rightarrow> c_uint" where
  "tiny_tiocmget tiny =
     ((if mcr tiny AND MCR_DTR \<noteq> 0 then TIOCM_DTR else 0) OR
      (if mcr tiny AND MCR_RTS \<noteq> 0 then TIOCM_RTS else 0) OR
      (if mcr tiny AND MCR_LOOP \<noteq> 0 then TIOCM_LOOP else 0) OR
      (if msr tiny AND MSR_CTS \<noteq> 0 then TIOCM_CTS else 0) OR
      (if msr tiny AND MSR_CD \<noteq> 0 then TIOCM_CAR else 0) OR
      (if msr tiny AND MSR_RI \<noteq> 0 then TIOCM_RI else 0) OR
      (if msr tiny AND MSR_DSR \<noteq> 0 then TIOCM_DSR else 0))"

(* src: serial/tiny_tty.c:336-355 tiny_tiocmset *)
definition tiny_tiocmset :: "c_uint \<Rightarrow> c_uint \<Rightarrow> tiny_serial \<Rightarrow> int \<times> tiny_serial" where
  "tiny_tiocmset set_bits clear_bits tiny =
     (let m = mcr tiny;
          m = (if set_bits AND TIOCM_RTS \<noteq> 0 then m OR MCR_RTS else m);
          m = (if set_bits AND TIOCM_DTR \<noteq> 0 then m OR MCR_RTS else m);
          m = (if clear_bits AND TIOCM_RTS \<noteq> 0 then m AND NOT MCR_RTS else m);
          m = (if clear_bits AND TIOCM_DTR \<noteq> 0 then m AND NOT MCR_RTS else m)
      in (0, tiny\<lparr>mcr := m\<rparr>))"

(* src: serial/tiny_tty.c:357-370 tiny_tty_proc_show *)
definition tiny_tty_proc_show :: "tiny_serial option list \<Rightarrow> tty_log list" where
  "tiny_tty_proc_show tiny_table =
     map PortLine (filter (\<lambda>i. tiny_table ! i \<noteq> None) [0..<length tiny_table])"

section \<open>Ioctl\<close>

abbreviation (input) TIOCGSERIAL :: c_uint where "TIOCGSERIAL \<equiv> 0x541E"
abbreviation (input) TIOCMIWAIT :: c_uint where "TIOCMIWAIT \<equiv> 0x545C"
abbreviation (input) TIOCGICOUNT :: c_uint where "TIOCGICOUNT \<equiv> 0x545D"

datatype tty_out = NoOut | SerialOut serial_struct | IcountOut async_icount

text \<open>
  \<open>HZ\<close> is the kernel's tick rate, a configuration value. The user's structure is complete when
  the copy leaves nothing.
\<close>

(* src: serial/tiny_tty.c:373-406 tiny_ioctl_tiocgserial *)
definition tiny_ioctl_tiocgserial ::
    "nat \<Rightarrow> tiny_serial \<Rightarrow> c_uint \<Rightarrow> c_long \<Rightarrow> size_t \<Rightarrow> int \<times> tty_out" where
  "tiny_ioctl_tiocgserial HZ tiny cmd arg uleft =
     (if cmd = TIOCGSERIAL then
        (if arg = 0 then (- EFAULT, NoOut)
         else
           let tmp = (serial tiny)\<lparr>s_flags := 192, s_close_delay := of_nat (5 * HZ),
                                   s_closing_wait := of_nat (30 * HZ)\<rparr>
           in if uleft \<noteq> 0 then (- EFAULT, NoOut) else (0, SerialOut tmp))
      else (- ENOIOCTLCMD, NoOut))"

text \<open>
  The waiting loop. Each element of the list is one wake-up: whether a signal is pending, and
  the counters then. With no further wake-up the caller still sleeps.
\<close>

(* src: serial/tiny_tty.c:419-441 tiny_ioctl_tiocmiwait (loop) *)
fun tiocmiwait_loop :: "c_long \<Rightarrow> async_icount \<Rightarrow> (bool \<times> async_icount) list \<Rightarrow> int option" where
  "tiocmiwait_loop arg cprev [] = None"
| "tiocmiwait_loop arg cprev ((signal, cnow) # wakes) =
     (if signal then Some (- ERESTARTSYS)
      else if rng cnow = rng cprev \<and> dsr cnow = dsr cprev \<and> dcd cnow = dcd cprev \<and> cts cnow = cts cprev
      then Some (- EIO)
      else if (arg AND ucast TIOCM_RI \<noteq> 0 \<and> rng cnow \<noteq> rng cprev) \<or>
              (arg AND ucast TIOCM_DSR \<noteq> 0 \<and> dsr cnow \<noteq> dsr cprev) \<or>
              (arg AND ucast TIOCM_CAR \<noteq> 0 \<and> dcd cnow \<noteq> dcd cprev) \<or>
              (arg AND ucast TIOCM_CTS \<noteq> 0 \<and> cts cnow \<noteq> cts cprev)
      then Some 0
      else tiocmiwait_loop arg cnow wakes)"

(* src: serial/tiny_tty.c:410-446 tiny_ioctl_tiocmiwait *)
definition tiny_ioctl_tiocmiwait ::
    "tiny_serial \<Rightarrow> c_uint \<Rightarrow> c_long \<Rightarrow> (bool \<times> async_icount) list \<Rightarrow> int option" where
  "tiny_ioctl_tiocmiwait tiny cmd arg wakes =
     (if cmd = TIOCMIWAIT then tiocmiwait_loop arg (icount tiny) wakes else Some (- ENOIOCTLCMD))"

(* src: serial/tiny_tty.c:450-476 tiny_ioctl_tiocgicount *)
definition tiny_ioctl_tiocgicount :: "tiny_serial \<Rightarrow> c_uint \<Rightarrow> size_t \<Rightarrow> int \<times> tty_out" where
  "tiny_ioctl_tiocgicount tiny cmd uleft =
     (if cmd = TIOCGICOUNT then
        (if uleft \<noteq> 0 then (- EFAULT, NoOut) else (0, IcountOut (icount tiny)))
      else (- ENOIOCTLCMD, NoOut))"

(* src: serial/tiny_tty.c:480-494 tiny_ioctl *)
definition tiny_ioctl ::
    "nat \<Rightarrow> tiny_serial \<Rightarrow> c_uint \<Rightarrow> c_long \<Rightarrow> size_t \<Rightarrow> (bool \<times> async_icount) list \<Rightarrow>
     (int \<times> tty_out) option" where
  "tiny_ioctl HZ tiny cmd arg uleft wakes =
     (if cmd = TIOCGSERIAL then Some (tiny_ioctl_tiocgserial HZ tiny cmd arg uleft)
      else if cmd = TIOCMIWAIT then
        map_option (\<lambda>r. (r, NoOut)) (tiny_ioctl_tiocmiwait tiny cmd arg wakes)
      else if cmd = TIOCGICOUNT then Some (tiny_ioctl_tiocgicount tiny cmd uleft)
      else Some (- ENOIOCTLCMD, NoOut))"

section \<open>Loading and unloading\<close>

datatype tty_res = TtyDriver | TtyRegistered | TinyMem nat | TinyPort nat | TtyDevice nat

(* src: serial/tiny_tty.c:44-44 TINY_TTY_MINORS *)
definition TINY_TTY_MINORS :: nat where "TINY_TTY_MINORS = 4"

text \<open>The allocation loop: the ports made, and whether all could be.\<close>

(* src: serial/tiny_tty.c:541-555 tiny_init (allocation loop) *)
fun tiny_make_ports :: "(nat \<Rightarrow> bool) \<Rightarrow> nat list \<Rightarrow> tty_res ledger \<Rightarrow> bool \<times> tty_res ledger" where
  "tiny_make_ports mem [] k = (True, k)"
| "tiny_make_ports mem (i # is) k =
     (if \<not> mem i then (False, k)
      else tiny_make_ports mem is (acquire (TinyPort i) (acquire (TinyMem i) k)))"

text \<open>\<open>tiny_table\<close> starts out all null, so the error path sees exactly the ports made.\<close>

(* src: serial/tiny_tty.c:564-572 tiny_init (err_kmalloc_tiny) *)
definition tiny_free_ports :: "(nat \<Rightarrow> bool) \<Rightarrow> tty_res ledger \<Rightarrow> tty_res ledger" where
  "tiny_free_ports made =
     fold (\<lambda>i k. if made i then release (TinyMem i) (release (TinyPort i) k) else k) [0..<TINY_TTY_MINORS]"

record tiny_load =
  t_alloc :: bool
  t_register :: int
  t_mem :: "nat \<Rightarrow> bool"

(* src: serial/tiny_tty.c:512-579 tiny_init *)
definition tiny_tty_init :: "tiny_load \<Rightarrow> tty_res ledger \<Rightarrow> int \<times> tty_res ledger" where
  "tiny_tty_init e k =
     (if \<not> t_alloc e then (- ENOMEM, k)
      else
        let k = acquire TtyDriver k
        in if t_register e \<noteq> 0 then (t_register e, release TtyDriver k)
        else
          let k = acquire TtyRegistered k;
              (ok, k) = tiny_make_ports (t_mem e) [0..<TINY_TTY_MINORS] k
          in if \<not> ok then
               (- ENOMEM, release TtyDriver (tiny_free_ports (\<lambda>i. \<forall>j \<in> {0..i}. t_mem e j) k))
             else (t_register e, fold (\<lambda>i. acquire (TtyDevice i)) [0..<TINY_TTY_MINORS] k))"

(* src: serial/tiny_tty.c:581-604 tiny_exit *)
definition tiny_tty_exit :: "tty_res ledger \<Rightarrow> tty_res ledger" where
  "tiny_tty_exit k =
     (let k = fold (\<lambda>i. release (TtyDevice i)) [0..<TINY_TTY_MINORS] k;
          k = release TtyDriver (release TtyRegistered k)
      in fold (\<lambda>i k. release (TinyMem i) (release (TinyPort i) k)) [0..<TINY_TTY_MINORS] k)"

text \<open>What unloading does to the timer of one port before it frees it.\<close>

(* src: serial/tiny_tty.c:591-602 tiny_exit *)
definition tiny_exit_port :: "tiny_serial \<Rightarrow> tiny_serial" where
  "tiny_exit_port tiny = (if port_count tiny \<noteq> 0 then tiny_shutdown tiny else tiny)"

section \<open>Line settings are decoded exactly\<close>

record line_setting =
  bits :: nat
  par :: parity_kind
  two_stop :: bool
  hw_flow :: bool

definition line_cflag :: "line_setting \<Rightarrow> c_uint" where
  "line_cflag l =
     (if bits l = 5 then CS5 else if bits l = 6 then CS6 else if bits l = 7 then CS7 else CS8) OR
     (case par l of NoParity \<Rightarrow> 0 | Odd \<Rightarrow> PARENB OR PARODD | Even \<Rightarrow> PARENB) OR
     (if two_stop l then CSTOPB else 0) OR (if hw_flow l then CRTSCTS else 0)"

definition LINE_MASK :: c_uint where
  "LINE_MASK = CSIZE OR PARENB OR PARODD OR CSTOPB OR CRTSCTS"

lemma line_mask_parts:
  "c AND CSIZE = (c AND LINE_MASK) AND CSIZE" "c AND PARENB = (c AND LINE_MASK) AND PARENB"
  "c AND PARODD = (c AND LINE_MASK) AND PARODD" "c AND CSTOPB = (c AND LINE_MASK) AND CSTOPB"
  "c AND CRTSCTS = (c AND LINE_MASK) AND CRTSCTS"
  by (simp_all add: LINE_MASK_def and.assoc)

lemma tiny_set_termios_decodes_parts:
  assumes "bits l \<in> {5, 6, 7, 8}" and "c_cflag t AND LINE_MASK = line_cflag l"
    and "c_iflag t AND IXOFF = 0" and "c_iflag t AND IXON = 0"
  shows "tiny_set_termios baud None t =
      [DataBits (bits l), Parity (par l), StopBits (if two_stop l then 2 else 1), RtsCts (hw_flow l), BaudRate baud]"
    and "tiny_set_termios baud (Some t) t = [NothingToChange]"
proof -
  show "tiny_set_termios baud (Some t) t = [NothingToChange]"
    by (simp add: tiny_set_termios_def)
  show "tiny_set_termios baud None t =
      [DataBits (bits l), Parity (par l), StopBits (if two_stop l then 2 else 1), RtsCts (hw_flow l), BaudRate baud]"
    unfolding tiny_set_termios_def Let_def line_mask_parts [of "c_cflag t"] assms(2)
    using assms(1,3,4)
    by (cases "par l"; cases "two_stop l"; cases "hw_flow l") (auto simp: line_cflag_def)
qed

text \<open>\<open>tiny_set_termios\<close> reports the line settings the control flags encode: for every
  combination of data bits, parity, stop bits and hardware flow control, whatever the other
  control flags are, the log names exactly that combination and the baud rate; when neither the
  control flags nor the relevant input flags changed it reports that instead.\<close>

theorem tiny_set_termios_decodes:
  assumes "bits l \<in> {5, 6, 7, 8}" and "c_cflag t AND LINE_MASK = line_cflag l"
    and "c_iflag t AND IXOFF = 0" and "c_iflag t AND IXON = 0"
  shows "(tiny_set_termios baud None t =
      [DataBits (bits l), Parity (par l), StopBits (if two_stop l then 2 else 1), RtsCts (hw_flow l), BaudRate baud]) \<and>
    (tiny_set_termios baud (Some t) t = [NothingToChange])"
proof -
  have c1: "tiny_set_termios baud None t =
      [DataBits (bits l), Parity (par l), StopBits (if two_stop l then 2 else 1), RtsCts (hw_flow l), BaudRate baud]"
    by (rule tiny_set_termios_decodes_parts(1) [OF assms])
  have c2: "tiny_set_termios baud (Some t) t = [NothingToChange]"
    by (rule tiny_set_termios_decodes_parts(2) [OF assms])
  show ?thesis by (rule conjI [OF c1 c2])
qed

theorem tiny_set_termios_decodes_witness:
  "tiny_set_termios 9600 None \<lparr>c_iflag = 0, c_cflag = 0xcbf OR PARENB, stop_char = 19, start_char = 17\<rparr> =
     [DataBits 8, Parity Even, StopBits 1, RtsCts False, BaudRate 9600]"
  using tiny_set_termios_decodes [where baud = 9600 and
      l = "\<lparr>bits = 8, par = Even, two_stop = False, hw_flow = False\<rparr>" and
      t = "\<lparr>c_iflag = 0, c_cflag = 0xdbf, stop_char = 19, start_char = 17\<rparr>"]
  by (simp add: LINE_MASK_def line_cflag_def)

section \<open>Modem lines\<close>

lemmas mcr_bits = MCR_DTR_def MCR_RTS_def MCR_LOOP_def MSR_CTS_def MSR_CD_def MSR_RI_def MSR_DSR_def

text \<open>A one-bit flag of a word, read through another one.\<close>

lemma flag_or: "(x OR y) AND m = (x AND m) OR (y AND (m :: 'a::len word))"
  by (rule bit_word_eqI) (auto simp: bit_simps)

lemma flag_and: "(x AND y) AND m = (x AND m) AND (y AND (m :: 'a::len word))"
  by (rule bit_word_eqI) (auto simp: bit_simps)

definition dtr :: "tiny_serial \<Rightarrow> bool" where
  "dtr tiny \<longleftrightarrow> mcr tiny AND MCR_DTR \<noteq> 0"

definition rts :: "tiny_serial \<Rightarrow> bool" where
  "rts tiny \<longleftrightarrow> mcr tiny AND MCR_RTS \<noteq> 0"

lemma rts_bit: "x AND MCR_RTS \<noteq> 0 \<longleftrightarrow> bit x 1" "x AND MCR_DTR \<noteq> 0 \<longleftrightarrow> bit x 0"
  "x AND TIOCM_RTS \<noteq> 0 \<longleftrightarrow> bit x 2" "x AND TIOCM_DTR \<noteq> 0 \<longleftrightarrow> bit x 1"
  for x :: c_uint
proof -
  show "x AND MCR_RTS \<noteq> 0 \<longleftrightarrow> bit x 1" "x AND MCR_DTR \<noteq> 0 \<longleftrightarrow> bit x 0"
    "x AND TIOCM_RTS \<noteq> 0 \<longleftrightarrow> bit x 2" "x AND TIOCM_DTR \<noteq> 0 \<longleftrightarrow> bit x 1"
    using and_exp_eq_0_iff_not_bit [of x 0] and_exp_eq_0_iff_not_bit [of x 1]
      and_exp_eq_0_iff_not_bit [of x 2] by (simp_all add: mcr_bits)
qed

lemma tiny_tiocmset_confuses_dtr_parts:
  assumes "(r, tiny') = tiny_tiocmset s c tiny"
  shows "r = 0 \<and> dtr tiny' = dtr tiny \<and>
    rts tiny' = (if c AND (TIOCM_RTS OR TIOCM_DTR) \<noteq> 0 then False
                 else if s AND (TIOCM_RTS OR TIOCM_DTR) \<noteq> 0 then True else rts tiny)"
    and "msr tiny = 0 \<Longrightarrow> mcr tiny = 0 \<Longrightarrow> s = TIOCM_DTR \<Longrightarrow> c = 0 \<Longrightarrow> tiny_tiocmget tiny' = TIOCM_RTS"
proof -
  have m: "x AND (TIOCM_RTS OR TIOCM_DTR) \<noteq> 0 \<longleftrightarrow> bit x 2 \<or> bit x 1" for x :: c_uint
    using rts_bit(3,4) [of x] unfolding and.commute [of x] flag_or
    by (metis and.commute or_eq_0_iff)
  have b: "bit MCR_RTS (Suc 0)" "\<not> bit MCR_RTS 0" by (simp_all add: mcr_bits bit_simps)
  show "r = 0 \<and> dtr tiny' = dtr tiny \<and>
    rts tiny' = (if c AND (TIOCM_RTS OR TIOCM_DTR) \<noteq> 0 then False
                 else if s AND (TIOCM_RTS OR TIOCM_DTR) \<noteq> 0 then True else rts tiny)"
    using assms unfolding tiny_tiocmset_def Let_def m dtr_def rts_def rts_bit
    by (auto simp: bit_simps b)
  assume "msr tiny = 0" "mcr tiny = 0" "s = TIOCM_DTR" "c = 0"
  with assms show "tiny_tiocmget tiny' = TIOCM_RTS"
    by (simp add: tiny_tiocmset_def tiny_tiocmget_def mcr_bits)
qed

text \<open>\<open>tiny_tiocmset\<close> never changes the DTR line: asked to raise or drop DTR it raises or
  drops RTS instead. After any call RTS is off if either line was to be cleared, on if either
  was to be set and none cleared, and otherwise what it was; so \<open>tiny_tiocmget\<close> after raising
  DTR on an idle port reports RTS.\<close>

theorem tiny_tiocmset_confuses_dtr:
  assumes "(r, tiny') = tiny_tiocmset s c tiny"
  shows "(r = 0 \<and> dtr tiny' = dtr tiny \<and>
    rts tiny' = (if c AND (TIOCM_RTS OR TIOCM_DTR) \<noteq> 0 then False
                 else if s AND (TIOCM_RTS OR TIOCM_DTR) \<noteq> 0 then True else rts tiny)) \<and>
    (msr tiny = 0 \<longrightarrow> mcr tiny = 0 \<longrightarrow> s = TIOCM_DTR \<longrightarrow> c = 0 \<longrightarrow> tiny_tiocmget tiny' = TIOCM_RTS)"
proof -
  have c1: "r = 0 \<and> dtr tiny' = dtr tiny \<and>
    rts tiny' = (if c AND (TIOCM_RTS OR TIOCM_DTR) \<noteq> 0 then False
                 else if s AND (TIOCM_RTS OR TIOCM_DTR) \<noteq> 0 then True else rts tiny)"
    by (rule tiny_tiocmset_confuses_dtr_parts(1) [OF assms])
  have c2: "msr tiny = 0 \<longrightarrow> mcr tiny = 0 \<longrightarrow> s = TIOCM_DTR \<longrightarrow> c = 0 \<longrightarrow> tiny_tiocmget tiny' = TIOCM_RTS"
    by (intro impI) (rule tiny_tiocmset_confuses_dtr_parts(2) [OF assms]; assumption)
  show ?thesis by (rule conjI [OF c1 c2])
qed

section \<open>The timer of a port\<close>

text \<open>
  One port under opens, closes, and the timer handler, whose two pieces may be separated by
  anything another CPU does. Every file that was opened is closed once.
\<close>

datatype tty_event = TOpen | TClose | TDeliver | TRearm

inductive tty_step :: "port_open \<Rightarrow> port_close \<Rightarrow> tiny_serial \<Rightarrow> tty_event \<Rightarrow> tiny_serial \<Rightarrow> bool"
  for po pc where
  tty_open: "tiny_open po p = (r, True, q) \<Longrightarrow> tty_step po pc p TOpen q"
| tty_close: "0 < port_count p \<Longrightarrow> tty_step po pc p TClose (tiny_close pc True p)"
| tty_deliver: "armed p \<Longrightarrow> \<not> running p \<Longrightarrow> tty_step po pc p TDeliver (tiny_timer_deliver p)"
| tty_rearm: "running p \<Longrightarrow> tty_step po pc p TRearm (tiny_timer_rearm p)"

definition idle_port :: "tiny_serial \<Rightarrow> bool" where
  "idle_port p \<longleftrightarrow> port_count p = 0 \<and> \<not> armed p \<and> \<not> running p"

lemma tty_open_step:
  assumes "port_open_ok po"
  shows "tty_step po pc p TOpen (p\<lparr>armed := (armed p \<or> port_count p = 0), port_count := port_count p + 1\<rparr>)"
proof -
  have "tiny_open po p = (0, True, p\<lparr>armed := (armed p \<or> port_count p = 0), port_count := port_count p + 1\<rparr>)"
    using assms by (auto simp: tiny_open_def port_open_ok_def tiny_activate_def Let_def)
  then show ?thesis by (rule tty_open)
qed

lemma tty_close_last:
  assumes "port_close_ok pc" and "port_count p = 1"
  shows "tiny_close pc True p = p\<lparr>armed := False, port_count := 0\<rparr>"
  using assms by (simp add: tiny_close_def port_close_ok_def tiny_shutdown_def)

text \<open>Closing a port does not stop its timer for good: when the last close happens while the
  handler is between delivering its character and submitting the timer again, \<open>del_timer\<close> finds
  nothing to cancel and the handler re-arms a timer of a closed port, which goes on pushing a
  character every two seconds. Unloading the module then does not even try to cancel it (the
  open count is 0) and frees the port with the timer pending.\<close>

theorem tiny_timer_outlives_close:
  assumes "port_open_ok po" and "port_close_ok pc" and "idle_port p"
  shows "\<exists>q. run (tty_step po pc) p [TOpen, TDeliver, TClose, TRearm] q \<and>
    port_count q = 0 \<and> armed q \<and> armed (tiny_exit_port q) \<and>
    (\<exists>q'. run (tty_step po pc) q [TDeliver, TRearm] q' \<and> flip q' = flip q @ [TINY_DATA_CHARACTER] \<and>
      port_count q' = 0 \<and> armed q')"
proof -
  let ?a = "p\<lparr>armed := True, port_count := 1\<rparr>"
  let ?b = "tiny_timer_deliver ?a" let ?c = "?b\<lparr>armed := False, port_count := 0\<rparr>"
  let ?d = "tiny_timer_rearm ?c" let ?e = "tiny_timer_deliver ?d" let ?f = "tiny_timer_rearm ?e"
  have a: "tty_step po pc p TOpen ?a"
    using tty_open_step [OF assms(1), of pc p] assms(3) by (simp add: idle_port_def)
  have b: "tty_step po pc ?a TDeliver ?b"
    using assms(3) by (intro tty_deliver) (simp_all add: idle_port_def)
  have "tty_step po pc ?b TClose (tiny_close pc True ?b)"
    by (rule tty_close) (simp add: tiny_timer_deliver_def)
  then have c: "tty_step po pc ?b TClose ?c"
    using tty_close_last [OF assms(2), of ?b] by (simp add: tiny_timer_deliver_def)
  have d: "tty_step po pc ?c TRearm ?d"
    by (rule tty_rearm) (simp add: tiny_timer_deliver_def)
  have e: "tty_step po pc ?d TDeliver ?e"
    by (rule tty_deliver) (simp_all add: tiny_timer_rearm_def)
  have f: "tty_step po pc ?e TRearm ?f"
    by (rule tty_rearm) (simp add: tiny_timer_deliver_def)
  have "run (tty_step po pc) p [TOpen, TDeliver, TClose, TRearm] ?d"
    unfolding run_cons_iff run_nil_iff using a b c d by blast
  moreover have "run (tty_step po pc) ?d [TDeliver, TRearm] ?f"
    unfolding run_cons_iff run_nil_iff using e f by blast
  moreover have "port_count ?d = 0" "armed ?d" "armed (tiny_exit_port ?d)" "port_count ?f = 0" "armed ?f"
    "flip ?f = flip ?d @ [TINY_DATA_CHARACTER]"
    by (simp_all add: tiny_timer_rearm_def tiny_timer_deliver_def tiny_exit_port_def)
  ultimately show ?thesis by blast
qed

definition sample_port_open :: port_open where
  "sample_port_open act p =
     (let (r, q) = (if port_count p = 0 then act p else (0, p)) in (r, q\<lparr>port_count := port_count p + 1\<rparr>))"

definition sample_port_close :: port_close where
  "sample_port_close sd p = (if port_count p = 1 then sd p else p)\<lparr>port_count := port_count p - 1\<rparr>"

lemma sample_port_ok: "port_open_ok sample_port_open" "port_close_ok sample_port_close"
  by (simp_all add: port_open_ok_def port_close_ok_def sample_port_open_def sample_port_close_def)

definition fresh_port :: tiny_serial where
  "fresh_port = \<lparr>port_count = 0, armed = False, running = False, flip = [], msr = 0, mcr = 0,
     serial = \<lparr>s_type = 0, s_line = 0, s_port = 0, s_irq = 0, s_flags = 0, s_xmit_fifo_size = 0,
       s_baud_base = 0, s_close_delay = 0, s_closing_wait = 0, s_custom_divisor = 0, s_hub6 = 0, s_io_type = 0\<rparr>,
     icount = \<lparr>rng = 0, dsr = 0, dcd = 0, cts = 0, rx = 0, tx = 0, frame = 0, overrun = 0, parity = 0,
       brk = 0, buf_overrun = 0\<rparr>\<rparr>"

theorem tiny_tiocmset_confuses_dtr_witness:
  "tiny_tiocmget (snd (tiny_tiocmset TIOCM_DTR 0 fresh_port)) = TIOCM_RTS"
proof -
  have r: "(0, snd (tiny_tiocmset TIOCM_DTR 0 fresh_port)) = tiny_tiocmset TIOCM_DTR 0 fresh_port"
    by (simp add: tiny_tiocmset_def)
  from tiny_tiocmset_confuses_dtr [OF r] show ?thesis by (simp add: fresh_port_def)
qed

theorem tiny_timer_outlives_close_witness:
  "\<exists>q. run (tty_step sample_port_open sample_port_close) fresh_port [TOpen, TDeliver, TClose, TRearm] q \<and>
     port_count q = 0 \<and> armed q"
proof -
  have "idle_port fresh_port" by (simp add: idle_port_def fresh_port_def)
  from tiny_timer_outlives_close [OF sample_port_ok this] show ?thesis by blast
qed

text \<open>
  Without that race the timer follows the port: the handler's two pieces are one step.
\<close>

datatype tty_atomic = AOpen | AClose | ATick

inductive tty_atomic_step :: "port_open \<Rightarrow> port_close \<Rightarrow> tiny_serial \<Rightarrow> tty_atomic \<Rightarrow> tiny_serial \<Rightarrow> bool"
  for po pc where
  "tiny_open po p = (r, True, q) \<Longrightarrow> tty_atomic_step po pc p AOpen q"
| "0 < port_count p \<Longrightarrow> tty_atomic_step po pc p AClose (tiny_close pc True p)"
| "armed p \<Longrightarrow> tty_atomic_step po pc p ATick (tiny_timer_rearm (tiny_timer_deliver p))"

lemma tiny_timer_follows_port_parts:
  assumes "port_open_ok po" and "port_close_ok pc" and "run (tty_atomic_step po pc) p evs q" and "idle_port p"
  shows "armed q \<longleftrightarrow> 0 < port_count q"
    and "flip q = flip p @ replicate (length (filter (\<lambda>ev. ev = ATick) evs)) TINY_DATA_CHARACTER"
proof -
  have start: "armed p \<longleftrightarrow> 0 < port_count p" "\<not> running p" using assms(4) by (auto simp: idle_port_def)
  have "(armed q \<longleftrightarrow> 0 < port_count q) \<and> \<not> running q \<and>
      flip q = flip p @ replicate (length (filter (\<lambda>ev. ev = ATick) evs)) TINY_DATA_CHARACTER"
    using assms(3) start
  proof (induction rule: run.induct)
    case (run_nil p)
    then show ?case by simp
  next
    case (run_cons p ev p' evs q)
    from run_cons.hyps(1) have "(armed p' \<longleftrightarrow> 0 < port_count p') \<and> \<not> running p' \<and>
        flip p' = flip p @ (if ev = ATick then [TINY_DATA_CHARACTER] else [])"
    proof cases
      case (1 r)
      then show ?thesis
        using run_cons.prems assms(1)
        by (auto simp: tiny_open_def port_open_ok_def tiny_activate_def split: if_splits)
    next
      case 2
      then show ?thesis
        using run_cons.prems assms(2)
        by (auto simp: tiny_close_def port_close_ok_def tiny_shutdown_def)
    next
      case 3
      then show ?thesis
        using run_cons.prems by (auto simp: tiny_timer_rearm_def tiny_timer_deliver_def)
    qed
    with run_cons.IH show ?case by auto
  qed
  then show "armed q \<longleftrightarrow> 0 < port_count q"
    "flip q = flip p @ replicate (length (filter (\<lambda>ev. ev = ATick) evs)) TINY_DATA_CHARACTER"
    by auto
qed

text \<open>If no close overlaps a running timer handler, the timer is pending exactly while the
  port is open, in every interleaving of opens, closes and ticks, and the tty layer received
  exactly one character per tick.\<close>

theorem tiny_timer_follows_port:
  assumes "port_open_ok po" and "port_close_ok pc" and "run (tty_atomic_step po pc) p evs q" and "idle_port p"
  shows "(armed q \<longleftrightarrow> 0 < port_count q) \<and>
    (flip q = flip p @ replicate (length (filter (\<lambda>ev. ev = ATick) evs)) TINY_DATA_CHARACTER)"
proof -
  have c1: "armed q \<longleftrightarrow> 0 < port_count q"
    by (rule tiny_timer_follows_port_parts(1) [OF assms])
  have c2: "flip q = flip p @ replicate (length (filter (\<lambda>ev. ev = ATick) evs)) TINY_DATA_CHARACTER"
    by (rule tiny_timer_follows_port_parts(2) [OF assms])
  show ?thesis by (rule conjI [OF c1 c2])
qed

theorem tiny_timer_follows_port_witness:
  "\<exists>q. run (tty_atomic_step sample_port_open sample_port_close) fresh_port [AOpen, ATick] q \<and>
     armed q \<and> flip q = [TINY_DATA_CHARACTER]"
proof -
  let ?a = "fresh_port\<lparr>armed := True, port_count := 1\<rparr>"
  have i: "idle_port fresh_port" by (simp add: idle_port_def fresh_port_def)
  have "tiny_open sample_port_open fresh_port = (0, True, ?a)"
    by (simp add: tiny_open_def sample_port_open_def tiny_activate_def fresh_port_def)
  then have a: "tty_atomic_step sample_port_open sample_port_close fresh_port AOpen ?a"
    by (rule tty_atomic_step.intros)
  have "tty_atomic_step sample_port_open sample_port_close ?a ATick (tiny_timer_rearm (tiny_timer_deliver ?a))"
    by (rule tty_atomic_step.intros) simp
  with a have r: "run (tty_atomic_step sample_port_open sample_port_close) fresh_port [AOpen, ATick]
      (tiny_timer_rearm (tiny_timer_deliver ?a))"
    unfolding run_cons_iff run_nil_iff by blast
  from tiny_timer_follows_port [OF sample_port_ok r i] r show ?thesis
    by (intro exI [of _ "tiny_timer_rearm (tiny_timer_deliver ?a)"])
      (simp add: tiny_timer_rearm_def fresh_port_def tiny_timer_deliver_def)
qed

section \<open>Waiting for a modem line\<close>

text \<open>The lines of \<open>arg\<close> that differ between two snapshots, and whether any line does.\<close>

definition watched_change :: "c_long \<Rightarrow> async_icount \<Rightarrow> async_icount \<Rightarrow> bool" where
  "watched_change arg a b \<longleftrightarrow>
     (arg AND ucast TIOCM_RI \<noteq> 0 \<and> rng b \<noteq> rng a) \<or> (arg AND ucast TIOCM_DSR \<noteq> 0 \<and> dsr b \<noteq> dsr a) \<or>
     (arg AND ucast TIOCM_CAR \<noteq> 0 \<and> dcd b \<noteq> dcd a) \<or> (arg AND ucast TIOCM_CTS \<noteq> 0 \<and> cts b \<noteq> cts a)"

definition any_change :: "async_icount \<Rightarrow> async_icount \<Rightarrow> bool" where
  "any_change a b \<longleftrightarrow> \<not> (rng b = rng a \<and> dsr b = dsr a \<and> dcd b = dcd a \<and> cts b = cts a)"

text \<open>Consecutive snapshots, starting from the one taken before the loop.\<close>

fun steps_of :: "'a \<Rightarrow> 'a list \<Rightarrow> ('a \<times> 'a) list" where
  "steps_of a [] = []"
| "steps_of a (b # bs) = (a, b) # steps_of b bs"

lemma watched_any: "watched_change arg a b \<Longrightarrow> any_change a b"
  by (auto simp: watched_change_def any_change_def)

lemma tiny_tiocmiwait_correct_parts:
  assumes "wakes = map (Pair False) snaps"
    and "\<forall>(a, b) \<in> set (steps_of (icount tiny) snaps). any_change a b"
  shows "tiny_ioctl_tiocmiwait tiny TIOCMIWAIT arg wakes =
      (if \<exists>(a, b) \<in> set (steps_of (icount tiny) snaps). watched_change arg a b then Some 0 else None)"
    and "\<not> any_change (icount tiny) b' \<Longrightarrow>
      tiny_ioctl_tiocmiwait tiny TIOCMIWAIT arg ((False, b') # rest) = Some (- EIO)"
proof -
  have loop: "tiocmiwait_loop arg a (map (Pair False) snaps) =
      (if \<exists>(a, b) \<in> set (steps_of a snaps). watched_change arg a b then Some 0 else None)"
    if "\<forall>(a, b) \<in> set (steps_of a snaps). any_change a b" for a
    using that
  proof (induction snaps arbitrary: a)
    case (Cons b bs)
    have c: "tiocmiwait_loop arg a ((False, b) # ws) =
        (if \<not> any_change a b then Some (- EIO) else if watched_change arg a b then Some 0
         else tiocmiwait_loop arg b ws)" for ws
      unfolding tiocmiwait_loop.simps any_change_def watched_change_def by simp
    from Cons.prems have ab: "any_change a b" by simp
    from Cons.prems have "\<forall>(a, b) \<in> set (steps_of b bs). any_change a b" by simp
    from Cons.IH [OF this] show ?case using ab c by simp
  qed simp
  show "tiny_ioctl_tiocmiwait tiny TIOCMIWAIT arg wakes =
      (if \<exists>(a, b) \<in> set (steps_of (icount tiny) snaps). watched_change arg a b then Some 0 else None)"
    using loop [OF assms(2)] by (simp add: tiny_ioctl_tiocmiwait_def assms(1))
  show "\<not> any_change (icount tiny) b' \<Longrightarrow>
      tiny_ioctl_tiocmiwait tiny TIOCMIWAIT arg ((False, b') # rest) = Some (- EIO)"
    by (simp add: tiny_ioctl_tiocmiwait_def any_change_def)
qed

text \<open>\<open>TIOCMIWAIT\<close>, woken any number of times without a signal: it returns 0 exactly when some
  wake-up finds a change, since the previous one, on a line the caller asked for, provided
  every wake-up came with a change of some line; as long as only other lines change it goes
  back to sleep. A wake-up without any change ends it with \<open>EIO\<close>.\<close>

theorem tiny_tiocmiwait_correct:
  assumes "wakes = map (Pair False) snaps"
    and "\<forall>(a, b) \<in> set (steps_of (icount tiny) snaps). any_change a b"
  shows "(tiny_ioctl_tiocmiwait tiny TIOCMIWAIT arg wakes =
      (if \<exists>(a, b) \<in> set (steps_of (icount tiny) snaps). watched_change arg a b then Some 0 else None)) \<and>
    (\<not> any_change (icount tiny) b' \<longrightarrow>
      tiny_ioctl_tiocmiwait tiny TIOCMIWAIT arg ((False, b') # rest) = Some (- EIO))"
proof -
  have c1: "tiny_ioctl_tiocmiwait tiny TIOCMIWAIT arg wakes =
      (if \<exists>(a, b) \<in> set (steps_of (icount tiny) snaps). watched_change arg a b then Some 0 else None)"
    by (rule tiny_tiocmiwait_correct_parts(1) [OF assms])
  have c2: "\<not> any_change (icount tiny) b' \<longrightarrow>
      tiny_ioctl_tiocmiwait tiny TIOCMIWAIT arg ((False, b') # rest) = Some (- EIO)"
    by (intro impI) (rule tiny_tiocmiwait_correct_parts(2) [OF assms]; assumption)
  show ?thesis by (rule conjI [OF c1 c2])
qed

theorem tiny_tiocmiwait_correct_witness:
  "let c = icount fresh_port; c1 = c\<lparr>rng := 1\<rparr>; c2 = c1\<lparr>cts := 1\<rparr>
   in tiny_ioctl_tiocmiwait fresh_port TIOCMIWAIT 0x20 [(False, c1), (False, c2)] = Some 0"
proof -
  let ?c1 = "(icount fresh_port)\<lparr>rng := 1\<rparr>" let ?c2 = "?c1\<lparr>cts := 1\<rparr>"
  have a: "\<forall>(a, b) \<in> set (steps_of (icount fresh_port) [?c1, ?c2]). any_change a b"
    by (simp add: any_change_def fresh_port_def)
  have w: "watched_change 0x20 ?c1 ?c2" by (simp add: watched_change_def fresh_port_def)
  from tiny_tiocmiwait_correct [where arg = "0x20", OF refl a, THEN conjunct1] w show ?thesis
    by (simp add: Let_def)
qed

section \<open>Loading\<close>

lemma TINY_TTY_MINORS_list [simp]: "[0..<TINY_TTY_MINORS] = [0, 1, 2, 3]"
  by (simp add: TINY_TTY_MINORS_def upt_rec)

lemmas port_ledger = acquire_def release_def

lemma tiny_tty_load_parts:
  shows "t_alloc e \<Longrightarrow> t_register e = 0 \<Longrightarrow> i < 4 \<Longrightarrow> \<not> t_mem e i \<Longrightarrow>
      tiny_tty_init e k = (- ENOMEM, acquire TtyRegistered k)"
    and "\<not> t_alloc e \<or> t_register e \<noteq> 0 \<Longrightarrow> snd (tiny_tty_init e k) = k"
    and "t_alloc e \<Longrightarrow> t_register e = 0 \<Longrightarrow> \<forall>i < 4. t_mem e i \<Longrightarrow>
      fst (tiny_tty_init e k) = 0 \<and> tiny_tty_exit (snd (tiny_tty_init e k)) = k"
proof -
  have upto: "{0..0} = {0::nat}" "{0..Suc 0} = {0, 1::nat}" "{0..2} = {0, 1, 2::nat}" "{0..3} = {0, 1, 2, 3::nat}"
    by auto
  have four: "(\<forall>i < 4. P i) \<longleftrightarrow> P 0 \<and> P 1 \<and> P 2 \<and> P (3::nat)" for P
    by (simp add: eval_nat_numeral less_Suc_eq_0_disj all_conj_distrib) auto
  {
    assume a: "t_alloc e" "t_register e = 0" and i: "i < 4" "\<not> t_mem e i"
    have "\<not> (t_mem e 0 \<and> t_mem e 1 \<and> t_mem e 2 \<and> t_mem e 3)"
      using i four [of "t_mem e"] by blast
    with a show "tiny_tty_init e k = (- ENOMEM, acquire TtyRegistered k)"
      unfolding tiny_tty_init_def Let_def tiny_free_ports_def TINY_TTY_MINORS_list
      by (auto simp: upto ledger_simps split: if_splits)
  }
  show "\<not> t_alloc e \<or> t_register e \<noteq> 0 \<Longrightarrow> snd (tiny_tty_init e k) = k"
    by (auto simp: tiny_tty_init_def Let_def)
  assume "t_alloc e" "t_register e = 0" "\<forall>i < 4. t_mem e i"
  then show "fst (tiny_tty_init e k) = 0 \<and> tiny_tty_exit (snd (tiny_tty_init e k)) = k"
    by (simp add: tiny_tty_init_def tiny_tty_exit_def Let_def four ledger_simps)
qed

text \<open>When one of the four ports cannot be allocated, \<open>tiny_init\<close> frees the ports it made and
  drops the driver structure but leaves it registered: the module fails to load and the tty
  layer keeps a freed driver. All its other outcomes are balanced, and unloading gives back
  everything a successful load acquired.\<close>

theorem tiny_tty_load:
  shows "(t_alloc e \<longrightarrow> t_register e = 0 \<longrightarrow> i < 4 \<longrightarrow> \<not> t_mem e i \<longrightarrow>
      tiny_tty_init e k = (- ENOMEM, acquire TtyRegistered k)) \<and>
    (\<not> t_alloc e \<or> t_register e \<noteq> 0 \<longrightarrow> snd (tiny_tty_init e k) = k) \<and>
    (t_alloc e \<longrightarrow> t_register e = 0 \<longrightarrow> (\<forall>i < 4. t_mem e i) \<longrightarrow>
      fst (tiny_tty_init e k) = 0 \<and> tiny_tty_exit (snd (tiny_tty_init e k)) = k)"
proof -
  have c1: "t_alloc e \<longrightarrow> t_register e = 0 \<longrightarrow> i < 4 \<longrightarrow> \<not> t_mem e i \<longrightarrow>
      tiny_tty_init e k = (- ENOMEM, acquire TtyRegistered k)"
    by (intro impI) (rule tiny_tty_load_parts(1); assumption)
  have c2: "\<not> t_alloc e \<or> t_register e \<noteq> 0 \<longrightarrow> snd (tiny_tty_init e k) = k"
    by (intro impI) (rule tiny_tty_load_parts(2); assumption)
  have c3: "t_alloc e \<longrightarrow> t_register e = 0 \<longrightarrow> (\<forall>i < 4. t_mem e i) \<longrightarrow>
      fst (tiny_tty_init e k) = 0 \<and> tiny_tty_exit (snd (tiny_tty_init e k)) = k"
    by (intro impI) (rule tiny_tty_load_parts(3); assumption)
  show ?thesis by (rule conjI [OF c1 conjI [OF c2 c3]])
qed

theorem tiny_tty_load_witness:
  "tiny_tty_init \<lparr>t_alloc = True, t_register = 0, t_mem = (\<lambda>i. i < 2)\<rparr> empty_ledger =
     (-12, acquire TtyRegistered empty_ledger)"
  by (rule tiny_tty_load [where i = 3, THEN conjunct1, rule_format]) simp_all

end
