(* ===== verification/Tiny_Serial.thy ===== *)
theory Tiny_Serial
  imports Tiny_Tty
begin

text \<open>
  \<open>src/serial/tiny_serial.c\<close>: a serial-core driver with one port. A timer delivers one character
  to the reader and moves characters from the port's transmit ring to the (pretended) hardware.
  The ring is a queue; the theorems relate the ring's indices to it.
\<close>

section \<open>The transmit ring\<close>

text \<open>
  The serial core's \<open>circ_buf\<close> of \<open>UART_XMIT_SIZE\<close> (one page) bytes and the fields of the port
  the driver uses. \<open>wire\<close> is a history variable: what was sent.
\<close>

abbreviation (input) UART_XMIT_SIZE :: nat where "UART_XMIT_SIZE \<equiv> 4096"
abbreviation (input) WAKEUP_CHARS :: nat where "WAKEUP_CHARS \<equiv> 256"

record uart_port =
  xmit_buf :: "byte list"
  xmit_head :: nat
  xmit_tail :: nat
  x_char :: byte
  fifosize :: c_uint
  tx_stopped :: bool
  icount_tx :: c_uint
  wire :: "byte list"
  rx_flip :: "byte list"
  woken :: nat

definition uart_circ_empty :: "uart_port \<Rightarrow> bool" where
  "uart_circ_empty p \<longleftrightarrow> xmit_head p = xmit_tail p"

definition uart_circ_chars_pending :: "uart_port \<Rightarrow> nat" where
  "uart_circ_chars_pending p = (xmit_head p + UART_XMIT_SIZE - xmit_tail p) mod UART_XMIT_SIZE"

definition uart_write_wakeup :: "uart_port \<Rightarrow> uart_port" where
  "uart_write_wakeup p = p\<lparr>woken := woken p + 1\<rparr>"

(* src: serial/tiny_serial.c:54-56 tiny_stop_tx *)
definition tiny_stop_tx :: "uart_port \<Rightarrow> uart_port" where
  "tiny_stop_tx p = p"

text \<open>
  One turn of the loop sends the character at \<open>tail\<close>. The loop ends when the ring is empty or
  the count, tested after it was decremented, is no longer positive: the first turn is always
  made. \<open>n\<close> is the count before the decrement, an \<open>int\<close>.
\<close>

definition tx_one :: "uart_port \<Rightarrow> uart_port" where
  "tx_one p =
     p\<lparr>wire := wire p @ [xmit_buf p ! xmit_tail p],
       xmit_tail := (xmit_tail p + 1) mod UART_XMIT_SIZE,
       icount_tx := icount_tx p + 1\<rparr>"

(* src: serial/tiny_serial.c:82-89 tiny_tx_chars (loop) *)
function tx_loop :: "int \<Rightarrow> uart_port \<Rightarrow> uart_port" where
  "tx_loop n p =
     (let p = tx_one p
      in if uart_circ_empty p then p
         else if n - 1 > 0 then tx_loop (n - 1) p else p)"
  by pat_completeness auto

termination
  by (relation "measure (\<lambda>(n, p). nat n)") auto

declare tx_loop.simps [simp del]

(* src: serial/tiny_serial.c:66-96 tiny_tx_chars *)
definition tiny_tx_chars :: "uart_port \<Rightarrow> uart_port" where
  "tiny_tx_chars p =
     (if x_char p \<noteq> 0 then
        p\<lparr>wire := wire p @ [x_char p], icount_tx := icount_tx p + 1, x_char := 0\<rparr>
      else if uart_circ_empty p \<or> tx_stopped p then tiny_stop_tx p
      else
        let p = tx_loop (sint (drop_bit 1 (fifosize p))) p;
            p = (if uart_circ_chars_pending p < WAKEUP_CHARS then uart_write_wakeup p else p)
        in if uart_circ_empty p then tiny_stop_tx p else p)"

section \<open>The timer and the port's life\<close>

text \<open>
  The module's one \<open>port_data\<close>: its port pointer, and whether its timer is pending. \<open>attached\<close> is
  the port's \<open>state\<close> pointer, which the serial core sets.
\<close>

(* src: serial/tiny_serial.c:45-52 struct port_data, tiny_port_data *)
record port_data =
  pd_port :: "uart_port option"
  pd_armed :: bool
  pd_state :: bool

(* src: serial/tiny_serial.c:102-127 tiny_timer *)
definition tiny_uart_timer :: "port_data \<Rightarrow> port_data" where
  "tiny_uart_timer d =
     (let d = d\<lparr>pd_armed := False\<rparr>
      in case pd_port d of
           None \<Rightarrow> d
         | Some p \<Rightarrow>
             if \<not> pd_state d then d
             else d\<lparr>pd_armed := True,
                    pd_port := Some (tiny_tx_chars (p\<lparr>rx_flip := rx_flip p @ [TINY_DATA_CHARACTER]\<rparr>))\<rparr>)"

(* src: serial/tiny_serial.c:196-208 tiny_startup *)
definition tiny_startup :: "uart_port \<Rightarrow> port_data \<Rightarrow> int \<times> port_data" where
  "tiny_startup p d = (0, d\<lparr>pd_port := Some p, pd_armed := True\<rparr>)"

(* src: serial/tiny_serial.c:210-217 tiny_shutdown *)
definition tiny_uart_shutdown :: "port_data \<Rightarrow> port_data" where
  "tiny_uart_shutdown d = d\<lparr>pd_armed := False\<rparr>"

(* src: serial/tiny_serial.c:147-194 tiny_set_termios *)
definition tiny_uart_set_termios :: "int \<Rightarrow> ktermios \<Rightarrow> tty_log list" where
  "tiny_uart_set_termios baud new =
     (let cflag = c_cflag new
      in [DataBits (let c = cflag AND CSIZE
                    in if c = CS5 then 5 else if c = CS6 then 6 else if c = CS7 then 7 else 8),
          Parity (if cflag AND PARENB \<noteq> 0 then (if cflag AND PARODD \<noteq> 0 then Odd else Even)
                  else NoParity),
          StopBits (if cflag AND CSTOPB \<noteq> 0 then 2 else 1),
          RtsCts (cflag AND CRTSCTS \<noteq> 0)])"

datatype uart_res = UartDriver | UartPort

text \<open>The module has no exit function: once loaded it cannot be unloaded.\<close>

(* src: serial/tiny_serial.c:276-291 tiny_init *)
definition tiny_uart_init :: "int \<times> int \<Rightarrow> uart_res ledger \<Rightarrow> int \<times> uart_res ledger" where
  "tiny_uart_init e k =
     (let result = fst e
      in if result \<noteq> 0 then (result, k)
         else
           let k = acquire UartDriver k; result = snd e
           in if result \<noteq> 0 then (result, release UartDriver k) else (result, acquire UartPort k))"

interpretation tiny_uart: module_loader "\<lambda>_. True" tiny_uart_init "\<lambda>_. [UartPort, UartDriver]"
  by unfold_locales (auto simp: tiny_uart_init_def Let_def split: if_splits)

section \<open>The ring as a queue\<close>

definition ring_ok :: "uart_port \<Rightarrow> bool" where
  "ring_ok p \<longleftrightarrow> length (xmit_buf p) = UART_XMIT_SIZE \<and> xmit_head p < UART_XMIT_SIZE \<and>
     xmit_tail p < UART_XMIT_SIZE"

definition queue :: "uart_port \<Rightarrow> byte list" where
  "queue p = map (\<lambda>i. xmit_buf p ! ((xmit_tail p + i) mod UART_XMIT_SIZE)) [0..<uart_circ_chars_pending p]"

lemma length_queue [simp]: "length (queue p) = uart_circ_chars_pending p"
  by (simp add: queue_def)

lemma pending_zero:
  assumes "ring_ok p" shows "uart_circ_chars_pending p = 0 \<longleftrightarrow> uart_circ_empty p"
proof -
  have "xmit_head p < 4096" "xmit_tail p < 4096" using assms by (auto simp: ring_ok_def)
  then show ?thesis
    by (auto simp: uart_circ_chars_pending_def uart_circ_empty_def mod_if split: if_splits)
qed

lemma pending_tx_one:
  assumes "ring_ok p" and "\<not> uart_circ_empty p"
  shows "uart_circ_chars_pending p = Suc (uart_circ_chars_pending (tx_one p))"
proof -
  have "xmit_head p < 4096" "xmit_tail p < 4096" using assms by (auto simp: ring_ok_def)
  then show ?thesis
    using assms(2)
    by (auto simp: uart_circ_chars_pending_def tx_one_def uart_circ_empty_def mod_if split: if_splits)
qed

lemma tx_one_queue:
  assumes "ring_ok p" and "\<not> uart_circ_empty p"
  shows "queue p = (xmit_buf p ! xmit_tail p) # queue (tx_one p)" and "ring_ok (tx_one p)"
    and "wire (tx_one p) = wire p @ [xmit_buf p ! xmit_tail p]"
proof -
  have t: "xmit_tail p < 4096" using assms(1) by (simp add: ring_ok_def)
  have "(xmit_tail p + Suc i) mod 4096 = ((xmit_tail p + 1) mod 4096 + i) mod 4096" for i
    by (simp add: mod_simps)
  then have "map (\<lambda>i. xmit_buf p ! ((xmit_tail p + Suc i) mod 4096)) [0..<uart_circ_chars_pending (tx_one p)] =
      queue (tx_one p)"
    by (simp add: queue_def tx_one_def uart_circ_chars_pending_def)
  then show "queue p = (xmit_buf p ! xmit_tail p) # queue (tx_one p)"
    using t unfolding queue_def [of p] pending_tx_one [OF assms]
    by (simp add: map_upt_Suc del: upt_Suc)
  show "ring_ok (tx_one p)" "wire (tx_one p) = wire p @ [xmit_buf p ! xmit_tail p]"
    using assms(1) by (simp_all add: ring_ok_def tx_one_def)
qed

definition sends :: "nat \<Rightarrow> uart_port \<Rightarrow> uart_port \<Rightarrow> bool" where
  "sends k p q \<longleftrightarrow> ring_ok q \<and> wire q = wire p @ take k (queue p) \<and> queue q = drop k (queue p) \<and>
     icount_tx q = icount_tx p + of_nat (min k (length (queue p)))"

lemma tx_one_sends:
  assumes "ring_ok p" and "\<not> uart_circ_empty p"
  shows "sends 1 p (tx_one p)"
  using tx_one_queue [OF assms] by (simp add: sends_def) (simp add: tx_one_def)

lemma sends_after_one:
  assumes "ring_ok p" and "\<not> uart_circ_empty p" and "sends k (tx_one p) q"
  shows "sends (Suc k) p q"
  using assms(3) tx_one_queue [OF assms(1,2)] tx_one_sends [OF assms(1,2)]
  by (simp add: sends_def add.commute add.left_commute)

lemma tx_loop_sends:
  "ring_ok p \<Longrightarrow> \<not> uart_circ_empty p \<Longrightarrow> sends (max 1 (nat n)) p (tx_loop n p)"
proof (induction n p rule: tx_loop.induct)
  case (1 n p)
  note one = tx_one_queue [OF "1.prems"]
  show ?case
  proof (cases "uart_circ_empty (tx_one p)")
    case True
    then have "queue (tx_one p) = []" using pending_zero [OF one(2)] by (metis length_0_conv length_queue)
    then have "queue p = [xmit_buf p ! xmit_tail p]" using one(1) by simp
    with tx_one_sends [OF "1.prems"] True show ?thesis
      by (simp add: tx_loop.simps [of n p] Let_def sends_def take_Cons' drop_Cons')
  next
    case False
    show ?thesis
    proof (cases "n - 1 > 0")
      case True
      from "1.IH" [OF refl False True one(2) False] have "sends (max 1 (nat (n - 1))) (tx_one p) (tx_loop (n - 1) (tx_one p))" .
      from sends_after_one [OF "1.prems" this] have "sends (Suc (max 1 (nat (n - 1)))) p (tx_loop (n - 1) (tx_one p))" .
      moreover have "Suc (max 1 (nat (n - 1))) = max 1 (nat n)" using True by linarith
      ultimately show ?thesis using True False by (simp add: tx_loop.simps [of n p] Let_def)
    next
      case stop: False
      then have "max 1 (nat n) = 1" by linarith
      with tx_one_sends [OF "1.prems"] stop False show ?thesis
        by (simp add: tx_loop.simps [of n p] Let_def)
    qed
  qed
qed

lemma tx_loop_flags:
  "x_char (tx_loop n p) = x_char p \<and> fifosize (tx_loop n p) = fifosize p \<and> tx_stopped (tx_loop n p) = tx_stopped p"
proof (induction n p rule: tx_loop.induct)
  case (1 n p)
  have one: "x_char (tx_one p) = x_char p \<and> fifosize (tx_one p) = fifosize p \<and> tx_stopped (tx_one p) = tx_stopped p"
    by (simp add: tx_one_def)
  show ?case
    using one "1.IH" [OF refl] unfolding tx_loop.simps [of n p] Let_def by simp
qed

lemma sends_wakeup [simp]: "sends k p (uart_write_wakeup q) = sends k p q"
  by (simp add: sends_def ring_ok_def queue_def uart_circ_chars_pending_def uart_write_wakeup_def)

definition fifo_half :: "uart_port \<Rightarrow> nat" where
  "fifo_half p = max 1 (nat (sint (drop_bit 1 (fifosize p))))"

lemma tx_chars_sends:
  assumes "ring_ok p" and "x_char p = 0" and "\<not> tx_stopped p"
  shows "sends (fifo_half p) p (tiny_tx_chars p) \<and> x_char (tiny_tx_chars p) = 0 \<and>
    fifosize (tiny_tx_chars p) = fifosize p \<and> \<not> tx_stopped (tiny_tx_chars p)"
proof (cases "uart_circ_empty p")
  case True
  then have "queue p = []" using pending_zero [OF assms(1)] by (metis length_0_conv length_queue)
  then show ?thesis using assms True by (simp add: tiny_tx_chars_def tiny_stop_tx_def sends_def)
next
  case False
  have w: "x_char (uart_write_wakeup q) = x_char q" "fifosize (uart_write_wakeup q) = fifosize q"
    "tx_stopped (uart_write_wakeup q) = tx_stopped q" for q
    by (simp_all add: uart_write_wakeup_def)
  from tx_loop_sends [OF assms(1) False, of "sint (drop_bit 1 (fifosize p))"]
    tx_loop_flags [of "sint (drop_bit 1 (fifosize p))" p] show ?thesis
    using assms False by (simp add: tiny_tx_chars_def Let_def fifo_half_def tiny_stop_tx_def w)
qed

text \<open>C18: \<open>tiny_tx_chars\<close> transmits from the ring in order: with no priority character and the
  line not stopped it sends the first half-FIFO of the queued characters (one when the FIFO size
  is 0 or 1), removes exactly those from the queue, and adds their number to the port's count of
  characters sent; a pending priority character goes out alone, is counted, and leaves the queue
  alone, whether the line is stopped or not; a stopped line sends nothing else.\<close>

theorem tiny_tx_chars_correct:
  assumes "ring_ok p"
  shows "(x_char p = 0 \<and> \<not> tx_stopped p \<longrightarrow>
      wire (tiny_tx_chars p) = wire p @ take (fifo_half p) (queue p) \<and>
      queue (tiny_tx_chars p) = drop (fifo_half p) (queue p) \<and> ring_ok (tiny_tx_chars p) \<and>
      icount_tx (tiny_tx_chars p) = icount_tx p + of_nat (min (fifo_half p) (length (queue p)))) \<and>
    (x_char p \<noteq> 0 \<longrightarrow> wire (tiny_tx_chars p) = wire p @ [x_char p] \<and>
      x_char (tiny_tx_chars p) = 0 \<and> queue (tiny_tx_chars p) = queue p \<and>
      icount_tx (tiny_tx_chars p) = icount_tx p + 1) \<and>
    (x_char p = 0 \<and> tx_stopped p \<longrightarrow> tiny_tx_chars p = p)"
proof (intro conjI impI)
  assume "x_char p = 0 \<and> \<not> tx_stopped p"
  with tx_chars_sends [OF assms] have "sends (fifo_half p) p (tiny_tx_chars p)" by blast
  then show "wire (tiny_tx_chars p) = wire p @ take (fifo_half p) (queue p)"
    "queue (tiny_tx_chars p) = drop (fifo_half p) (queue p)" "ring_ok (tiny_tx_chars p)"
    "icount_tx (tiny_tx_chars p) = icount_tx p + of_nat (min (fifo_half p) (length (queue p)))"
    by (simp_all add: sends_def)
qed (simp_all add: tiny_tx_chars_def tiny_stop_tx_def queue_def uart_circ_chars_pending_def)

definition sample_uart :: uart_port where
  "sample_uart = \<lparr>xmit_buf = replicate 4096 65, xmit_head = 1, xmit_tail = 4094, x_char = 0,
     fifosize = 4, tx_stopped = False, icount_tx = 0, wire = [], rx_flip = [], woken = 0\<rparr>"

lemma sample_uart_queue: "ring_ok sample_uart" "queue sample_uart = [65, 65, 65]" "fifo_half sample_uart = 2"
  by (simp add: ring_ok_def sample_uart_def)
    (simp add: queue_def uart_circ_chars_pending_def sample_uart_def upt_rec, simp add: fifo_half_def sample_uart_def)

theorem tiny_tx_chars_correct_witness:
  "wire (tiny_tx_chars sample_uart) = [65, 65] \<and> queue (tiny_tx_chars sample_uart) = [65] \<and>
   icount_tx (tiny_tx_chars sample_uart) = 2"
proof -
  have "x_char sample_uart = 0" "\<not> tx_stopped sample_uart" "wire sample_uart = []" "icount_tx sample_uart = 0"
    by (simp_all add: sample_uart_def)
  with tiny_tx_chars_correct [OF sample_uart_queue(1)] show ?thesis
    by (simp add: sample_uart_queue)
qed

section \<open>The timer drains the ring\<close>

text \<open>What one tick does to the port while it is attached.\<close>

definition tick :: "uart_port \<Rightarrow> uart_port" where
  "tick p = tiny_tx_chars (p\<lparr>rx_flip := rx_flip p @ [TINY_DATA_CHARACTER]\<rparr>)"

lemma ticks_port:
  assumes "pd_port d = Some p" and "pd_state d"
  shows "pd_port ((tiny_uart_timer ^^ k) d) = Some ((tick ^^ k) p) \<and> pd_state ((tiny_uart_timer ^^ k) d) \<and>
    (0 < k \<longrightarrow> pd_armed ((tiny_uart_timer ^^ k) d))"
  using assms by (induction k) (auto simp: tiny_uart_timer_def tick_def Let_def)

lemma rx_flip_tx_loop: "rx_flip (tx_loop n p) = rx_flip p"
proof (induction n p rule: tx_loop.induct)
  case (1 n p)
  have "rx_flip (tx_one p) = rx_flip p" by (simp add: tx_one_def)
  then show ?case using "1.IH" [OF refl] unfolding tx_loop.simps [of n p] Let_def by simp
qed

lemma rx_flip_ticks: "rx_flip ((tick ^^ k) p) = rx_flip p @ replicate k TINY_DATA_CHARACTER"
proof (induction k)
  case (Suc k)
  have "rx_flip (tick q) = rx_flip q @ [TINY_DATA_CHARACTER]" for q
    by (simp add: tick_def tiny_tx_chars_def tiny_stop_tx_def uart_write_wakeup_def rx_flip_tx_loop Let_def)
  with Suc show ?case by (simp add: replicate_append_same)
qed simp

lemma sends_rx [simp]: "sends k (p\<lparr>rx_flip := x\<rparr>) r = sends k p r"
  by (simp add: sends_def queue_def uart_circ_chars_pending_def)

lemma ring_rx [simp]: "ring_ok (p\<lparr>rx_flip := x\<rparr>) = ring_ok p" "fifo_half (p\<lparr>rx_flip := x\<rparr>) = fifo_half p"
  "queue (p\<lparr>rx_flip := x\<rparr>) = queue p"
  by (simp_all add: ring_ok_def fifo_half_def queue_def uart_circ_chars_pending_def)

lemma tick_sends:
  assumes "ring_ok p" and "x_char p = 0" and "\<not> tx_stopped p"
  shows "sends (fifo_half p) p (tick p)" and "x_char (tick p) = 0" and "\<not> tx_stopped (tick p)"
    and "fifo_half (tick p) = fifo_half p"
  using tx_chars_sends [of "p\<lparr>rx_flip := rx_flip p @ [TINY_DATA_CHARACTER]\<rparr>"] assms
  by (simp_all add: tick_def fifo_half_def)

lemma ticks_send:
  assumes "ring_ok p" and "x_char p = 0" and "\<not> tx_stopped p"
  shows "sends (k * fifo_half p) p ((tick ^^ k) p) \<and> x_char ((tick ^^ k) p) = 0 \<and>
    \<not> tx_stopped ((tick ^^ k) p) \<and> fifo_half ((tick ^^ k) p) = fifo_half p"
proof (induction k)
  case 0
  then show ?case using assms by (simp add: sends_def)
next
  case (Suc k)
  let ?q = "(tick ^^ k) p"
  have r: "ring_ok ?q" using Suc by (simp add: sends_def)
  have "sends (k * fifo_half p) p ?q" using Suc by simp
  moreover note t = tick_sends [OF r]
  moreover have tk: "take a xs @ take b (drop a xs) = take (b + a) xs" for a b and xs :: "byte list"
    by (simp add: take_add [symmetric] add.commute)
  moreover have "min (k * f) n + min f (n - k * f) = min (f + k * f) n" for f n :: nat by linarith
  then have "of_nat (min (k * f) n) + of_nat (min f (n - k * f)) = (of_nat (min (f + k * f) n) :: c_uint)" for f n
    by (metis of_nat_add)
  ultimately have "sends (Suc k * fifo_half p) p (tick ?q)"
    using Suc tk [where a = "k * fifo_half p" and b = "fifo_half p" and xs = "queue p"]
    by (simp add: sends_def add.assoc [symmetric])
  then show ?case using Suc t by simp
qed

text \<open>A pending priority character goes first; on a stopped line it is all that goes.\<close>

definition priority_char :: "uart_port \<Rightarrow> byte list" where
  "priority_char p = (if x_char p = 0 then [] else [x_char p])"

lemma tick_priority:
  assumes "x_char p \<noteq> 0"
  shows "wire (tick p) = wire p @ [x_char p]" and "x_char (tick p) = 0" and "queue (tick p) = queue p"
    and "tx_stopped (tick p) = tx_stopped p" and "icount_tx (tick p) = icount_tx p + 1"
    and "ring_ok (tick p) = ring_ok p" and "fifo_half (tick p) = fifo_half p"
  using assms
  by (simp_all add: tick_def tiny_tx_chars_def queue_def uart_circ_chars_pending_def ring_ok_def fifo_half_def)

lemma ticks_stopped:
  assumes "x_char p = 0" and "tx_stopped p"
  shows "wire ((tick ^^ k) p) = wire p \<and> queue ((tick ^^ k) p) = queue p \<and> x_char ((tick ^^ k) p) = 0 \<and>
    tx_stopped ((tick ^^ k) p)"
  using assms by (induction k) (auto simp: tick_def tiny_tx_chars_def tiny_stop_tx_def)

text \<open>C8: While the port is attached, the timer stays pending, hands the reader one character at
  each tick and drains the transmit ring. If nothing more is queued: a pending priority
  character is sent by the first tick; on a stopped line nothing else is ever sent and the queue
  stays as it is; on a line that is not stopped, after as many ticks as there were characters
  (with a larger FIFO, fewer; the priority character costs one) every character was sent, in
  order, exactly once, and counted, whatever the FIFO size.\<close>

theorem tiny_uart_timer_drains:
  assumes "pd_port d = Some p" and "pd_state d" and "ring_ok p"
  shows "\<exists>q. pd_port ((tiny_uart_timer ^^ k) d) = Some q \<and> (0 < k \<longrightarrow> pd_armed ((tiny_uart_timer ^^ k) d)) \<and>
    rx_flip q = rx_flip p @ replicate k TINY_DATA_CHARACTER \<and>
    (tx_stopped p \<longrightarrow> wire q = wire p @ (if k = 0 then [] else priority_char p) \<and> queue q = queue p) \<and>
    (\<not> tx_stopped p \<and> length (priority_char p) \<le> k \<and>
       length (queue p) \<le> (k - length (priority_char p)) * fifo_half p \<longrightarrow>
     wire q = wire p @ priority_char p @ queue p \<and> uart_circ_empty q \<and>
     icount_tx q = icount_tx p + of_nat (length (priority_char p @ queue p)))"
proof -
  let ?q = "(tick ^^ k) p"
  have st: "wire ?q = wire p @ (if k = 0 then [] else priority_char p) \<and> queue ?q = queue p" if "tx_stopped p"
  proof (cases "x_char p = 0 \<or> k = 0")
    case True
    then show ?thesis using ticks_stopped [OF _ that] by (auto simp: priority_char_def)
  next
    case False
    then obtain j where j: "k = Suc j" by (cases k) auto
    note t = tick_priority [of p]
    show ?thesis
      using False t ticks_stopped [of "tick p" j] that by (simp add: j funpow_swap1 [symmetric] priority_char_def del: funpow.simps)
        (simp add: funpow_swap1)
  qed
  have dr: "wire ?q = wire p @ priority_char p @ queue p \<and> queue ?q = [] \<and> ring_ok ?q \<and>
      icount_tx ?q = icount_tx p + of_nat (length (priority_char p @ queue p))"
    if "\<not> tx_stopped p" "length (priority_char p) \<le> k"
      "length (queue p) \<le> (k - length (priority_char p)) * fifo_half p"
  proof (cases "x_char p = 0")
    case True
    with that ticks_send [OF assms(3) True that(1), of k] show ?thesis
      by (simp add: sends_def priority_char_def min_def)
  next
    case False
    note h = that
    from False obtain j where j: "k = Suc j" using h(2) by (cases k) (auto simp: priority_char_def)
    note t = tick_priority [OF False]
    have "(tick ^^ k) p = (tick ^^ j) (tick p)" by (simp add: j funpow_swap1)
    with False h ticks_send [of "tick p" j] t assms(3) show ?thesis
      by (simp add: j sends_def priority_char_def min_def)
  qed
  have "uart_circ_empty ?q" if "ring_ok ?q" "queue ?q = []"
    using that pending_zero [OF that(1)] length_queue [of ?q] by simp
  then show ?thesis
    using st dr ticks_port [OF assms(1,2), of k] rx_flip_ticks [of k p] by blast
qed

theorem tiny_uart_timer_drains_witness:
  "\<exists>q. pd_port ((tiny_uart_timer ^^ 3) \<lparr>pd_port = Some (sample_uart\<lparr>x_char := 19\<rparr>), pd_armed = True, pd_state = True\<rparr>) = Some q \<and>
     wire q = [19, 65, 65, 65] \<and> uart_circ_empty q \<and> icount_tx q = 4"
proof -
  let ?p = "sample_uart\<lparr>x_char := 19\<rparr>"
  have f: "\<not> tx_stopped ?p" "wire ?p = []" "icount_tx ?p = 0" "priority_char ?p = [19]"
    by (simp_all add: sample_uart_def priority_char_def)
  have g: "ring_ok ?p" "queue ?p = [65, 65, 65]" "fifo_half ?p = 2"
    using sample_uart_queue by (simp_all add: ring_ok_def queue_def uart_circ_chars_pending_def fifo_half_def)
  from tiny_uart_timer_drains [where d = "\<lparr>pd_port = Some ?p, pd_armed = True, pd_state = True\<rparr>"
      and p = ?p and k = 3, OF _ _ g(1)] show ?thesis
    by (auto simp: f g)
qed

end
