(* ===== verification/Block.thy ===== *)
theory Block
  imports Interfaces "HOL-Library.Signed_Division"
begin

text \<open>
  The two RAM disks, \<open>src/block/sbd.c\<close> and \<open>src/block/lab2_block.c\<close>. The block layer hands a
  driver a queue of requests; a request moves a run of 512-byte sectors in segments. Sizes and
  offsets keep the widths of the source.
\<close>

section \<open>Requests\<close>

text \<open>
  \<open>fs\<close> tells a normal request from a pass-through command; \<open>pos\<close> is in 512-byte sectors; each
  segment is a buffer of the block layer, some number of whole sectors long.
\<close>

record request =
  fs :: bool
  wr :: bool
  pos :: "64 word"
  segs :: "byte list list"

(* src: block/sbd.c:36-36 KERNEL_SECTOR_SIZE *)
definition KERNEL_SECTOR_SIZE :: nat where "KERNEL_SECTOR_SIZE = 512"

text \<open>\<open>blk_rq_cur_sectors\<close>: the sectors of the current segment.\<close>

definition cur_sectors :: "byte list \<Rightarrow> nat" where
  "cur_sectors seg = length seg div KERNEL_SECTOR_SIZE"

section \<open>The simple block device\<close>

(* src: block/sbd.c:46-51 struct sbd_device *)
record sbd_device =
  dev_bytes :: "64 word"
  data :: "byte list"

text \<open>\<open>logical_block_size\<close> is a module parameter, an \<open>int\<close>; it is extended to 64 bits here.\<close>

(* src: block/sbd.c:56-69 sbd_transfer *)
definition sbd_transfer ::
    "c_int \<Rightarrow> sbd_device \<Rightarrow> 64 word \<Rightarrow> 64 word \<Rightarrow> byte list \<Rightarrow> bool \<Rightarrow> (sbd_device \<times> byte list) kresult" where
  "sbd_transfer logical_block_size dev sec nsect buffer write =
     (let offset = sec * scast logical_block_size;
          nbytes = nsect * scast logical_block_size
      in if dev_bytes dev < offset + nbytes then Inr (dev, buffer)
      else if length (data dev) < unat offset + unat nbytes \<or> length buffer < unat nbytes
      then Inl OutOfBounds
      else if write then
        Inr (dev\<lparr>data := put_range (unat offset) (take (unat nbytes) buffer) (data dev)\<rparr>, buffer)
      else Inr (dev, put_range 0 (get_range (unat offset) (unat nbytes) (data dev)) buffer))"

text \<open>The segments of one request, each ended with \<open>__blk_end_request_cur\<close>.\<close>

(* src: block/sbd.c:84-88 sbd_request (segments) *)
fun sbd_segments ::
    "c_int \<Rightarrow> bool \<Rightarrow> 64 word \<Rightarrow> byte list list \<Rightarrow> sbd_device \<Rightarrow> (sbd_device \<times> byte list list) kresult" where
  "sbd_segments lbs w sec [] dev = Inr (dev, [])"
| "sbd_segments lbs w sec (seg # rest) dev =
     (case sbd_transfer lbs dev sec (of_nat (cur_sectors seg)) seg w of
        Inl f \<Rightarrow> Inl f
      | Inr (dev, seg) \<Rightarrow>
          (case sbd_segments lbs w (sec + of_nat (cur_sectors seg)) rest dev of
             Inl f \<Rightarrow> Inl f
           | Inr (dev, rest) \<Rightarrow> Inr (dev, seg # rest)))"

text \<open>
  The request function. After a request that is not a file system request was ended, the loop
  continues with the same, now freed, request: its next look at \<open>req->cmd_type\<close> is a use after
  free. The result lists the ended requests with their data.
\<close>

(* src: block/sbd.c:71-90 sbd_request *)
fun sbd_request :: "c_int \<Rightarrow> request list \<Rightarrow> sbd_device \<Rightarrow> (sbd_device \<times> request list) kresult" where
  "sbd_request lbs [] dev = Inr (dev, [])"
| "sbd_request lbs (req # q) dev =
     (if \<not> fs req then Inl UseAfterFree
      else case sbd_segments lbs (wr req) (pos req) (segs req) dev of
        Inl f \<Rightarrow> Inl f
      | Inr (dev, ss) \<Rightarrow>
          (case sbd_request lbs q dev of
             Inl f \<Rightarrow> Inl f
           | Inr (dev, ended) \<Rightarrow> Inr (dev, req\<lparr>segs := ss\<rparr> # ended)))"

record hd_geometry =
  heads :: nat
  sectors :: nat
  cylinders :: "16 word"
  start :: nat

(* src: block/sbd.c:97-107 sbd_getgeo *)
definition sbd_getgeo :: "c_int \<Rightarrow> sbd_device \<Rightarrow> hd_geometry" where
  "sbd_getgeo logical_block_size dev =
     (let size = dev_bytes dev * scast (word_of_int (sint logical_block_size sdiv 512) :: c_int)
      in \<lparr>heads = 4, sectors = 16, cylinders = word_of_int (drop_bit 6 (sint (and size (not 0x3f)))), start = 0\<rparr>)"

datatype blk_res = RamDisk | BlkQueue | BlkMajor int | GenDisk

text \<open>
  The answers \<open>init\<close> meets: \<open>register_blkdev\<close> returns the major it chose when it is asked for
  major 0, and 0 when it could give the major asked for; negative is an error.
\<close>

record blk_load =
  b_mem :: bool
  b_queue :: bool
  b_asked :: int
  b_register :: int
  b_disk :: bool

text \<open>The major the block layer registered.\<close>

definition blk_major :: "blk_load \<Rightarrow> int" where
  "blk_major e = (if b_asked e = 0 then b_register e else b_asked e)"

(* src: block/sbd.c:117-163 sbd_init *)
definition sbd_init :: "blk_load \<Rightarrow> blk_res ledger \<Rightarrow> int \<times> blk_res ledger" where
  "sbd_init e k =
     (if \<not> b_mem e then (- ENOMEM, k)
      else
        let k = acquire RamDisk k
        in if \<not> b_queue e then (- ENOMEM, release RamDisk k)
        else
          let k = acquire BlkQueue k; major_num = b_register e
          in if major_num < 0 then (- ENOMEM, release RamDisk k)
          else
            let k = acquire (BlkMajor (blk_major e)) k
            in if \<not> b_disk e then (- ENOMEM, release RamDisk (release (BlkMajor major_num) k))
            else (0, acquire GenDisk k))"

(* src: block/sbd.c:165-172 sbd_exit *)
definition sbd_exit :: "blk_load \<Rightarrow> blk_res ledger \<Rightarrow> blk_res ledger" where
  "sbd_exit e k = release_all [GenDisk, BlkMajor (b_register e), BlkQueue, RamDisk] k"

section \<open>The second RAM disk\<close>

text \<open>
  \<open>ramdisk\<close> has \<open>disk_size\<close> bytes. The sector is cut to an \<open>unsigned\<close>, its product with the
  sector size is a 32-bit \<open>unsigned\<close>, the byte count an \<open>int\<close>; the comparison is between
  pointers, so the offsets are what counts.
\<close>

(* src: block/lab2_block.c:96-115 my_request (one segment) *)
definition my_transfer ::
    "64 word \<Rightarrow> byte list \<Rightarrow> bool \<Rightarrow> byte list \<Rightarrow> (byte list \<times> byte list) kresult" where
  "my_transfer rq_pos buffer write ramdisk =
     (let nr_sectors = (of_nat (cur_sectors buffer) :: c_uint);
          sec = (ucast rq_pos :: c_uint);
          offset = unat (sec * 512);
          size = sint (nr_sectors * 512)
      in if int (length ramdisk) < int offset + size then Inr (ramdisk, buffer)
      else if size < 0 then Inl OutOfBounds
      else if write then Inr (put_range offset (take (nat size) buffer) ramdisk, buffer)
      else Inr (ramdisk, put_range 0 (get_range offset (nat size) ramdisk) buffer))"

(* src: block/lab2_block.c:96-118 my_request (segments) *)
fun my_segments :: "bool \<Rightarrow> 64 word \<Rightarrow> byte list list \<Rightarrow> byte list \<Rightarrow> (byte list \<times> byte list list) kresult" where
  "my_segments w sec [] ramdisk = Inr (ramdisk, [])"
| "my_segments w sec (seg # rest) ramdisk =
     (case my_transfer sec seg w ramdisk of
        Inl f \<Rightarrow> Inl f
      | Inr (ramdisk, seg) \<Rightarrow>
          (case my_segments w (sec + of_nat (cur_sectors seg)) rest ramdisk of
             Inl f \<Rightarrow> Inl f
           | Inr (ramdisk, rest) \<Rightarrow> Inr (ramdisk, seg # rest)))"

(* src: block/lab2_block.c:81-121 my_request *)
fun my_request :: "request list \<Rightarrow> byte list \<Rightarrow> (byte list \<times> request list) kresult" where
  "my_request [] ramdisk = Inr (ramdisk, [])"
| "my_request (rq # q) ramdisk =
     (case (if fs rq then my_segments (wr rq) (pos rq) (segs rq) ramdisk
            else Inr (ramdisk, segs rq)) of
        Inl f \<Rightarrow> Inl f
      | Inr (ramdisk, ss) \<Rightarrow>
          (case my_request q ramdisk of
             Inl f \<Rightarrow> Inl f
           | Inr (ramdisk, ended) \<Rightarrow> Inr (ramdisk, rq\<lparr>segs := ss\<rparr> # ended)))"

abbreviation (input) HDIO_GETGEO :: c_uint where "HDIO_GETGEO \<equiv> 0x0301"

(* src: block/lab2_block.c:123-155 my_ioctl *)
definition my_blk_ioctl :: "c_int \<Rightarrow> c_uint \<Rightarrow> size_t \<Rightarrow> int \<times> hd_geometry option" where
  "my_blk_ioctl disk_size cmd uleft =
     (if cmd = HDIO_GETGEO then
        let size = and (scast disk_size :: c_long) (not 0x3f);
            geo = \<lparr>heads = 4, sectors = 16, cylinders = word_of_int (drop_bit 6 (sint size)), start = 4\<rparr>
        in if uleft \<noteq> 0 then (- EFAULT, None) else (0, Some geo)
      else (- ENOTTY, None))"

(* src: block/lab2_block.c:162-203 my_init *)
definition my_blk_init :: "blk_load \<Rightarrow> blk_res ledger \<Rightarrow> int \<times> blk_res ledger" where
  "my_blk_init e k =
     (if \<not> b_mem e then (- ENOMEM, k)
      else
        let k = acquire RamDisk k
        in if \<not> b_queue e then (- ENOMEM, release RamDisk k)
        else
          let k = acquire BlkQueue k; mybdrv_ma_no = b_register e
          in if mybdrv_ma_no < 0 then (mybdrv_ma_no, release RamDisk k)
          else
            let k = acquire (BlkMajor (blk_major e)) k
            in if \<not> b_disk e then (- ENOMEM, release RamDisk (release (BlkMajor mybdrv_ma_no) k))
            else (0, acquire GenDisk k))"

(* src: block/lab2_block.c:205-213 my_exit *)
definition my_blk_exit :: "blk_load \<Rightarrow> blk_res ledger \<Rightarrow> blk_res ledger" where
  "my_blk_exit e k = release_all [GenDisk, BlkMajor (b_register e), BlkQueue, RamDisk] k"

section \<open>The disk as the block layer sees it\<close>

text \<open>
  The specification: a flat array of bytes. A write request stores its segments one behind the
  other at its sector, a read request fills its segments from there.
\<close>

fun disk_read :: "nat \<Rightarrow> byte list list \<Rightarrow> byte list \<Rightarrow> byte list list" where
  "disk_read off [] m = []"
| "disk_read off (seg # rest) m = get_range off (length seg) m # disk_read (off + length seg) rest m"

definition disk_do :: "request \<Rightarrow> byte list \<Rightarrow> byte list \<times> request" where
  "disk_do r m =
     (let off = 512 * unat (pos r)
      in if \<not> fs r then (m, r)
         else if wr r then (put_range off (concat (segs r)) m, r)
         else (m, r\<lparr>segs := disk_read off (segs r) m\<rparr>))"

fun disk_run :: "request list \<Rightarrow> byte list \<Rightarrow> byte list \<times> request list" where
  "disk_run [] m = (m, [])"
| "disk_run (r # rs) m =
     (let (m, r') = disk_do r m; (m, rs') = disk_run rs m in (m, r' # rs'))"

text \<open>What the block layer guarantees after \<open>set_capacity\<close>: whole sectors, inside the disk.\<close>

definition request_in :: "nat \<Rightarrow> request \<Rightarrow> bool" where
  "request_in n r \<longleftrightarrow> (\<forall>seg \<in> set (segs r). length seg mod 512 = 0) \<and>
     512 * unat (pos r) + length (concat (segs r)) \<le> n"

lemma disk_read_lengths: "off + length (concat ss) \<le> length m \<Longrightarrow>
   map length (disk_read off ss m) = map length ss"
  by (induction ss arbitrary: off) simp_all

lemma whole_sectors: "length seg mod 512 = 0 \<Longrightarrow> cur_sectors seg * 512 = length seg"
  by (simp add: cur_sectors_def KERNEL_SECTOR_SIZE_def mod_eq_0_iff_dvd)

lemma unat_small_mult:
  fixes a :: "'a::len word"
  assumes "unat a * n < 2 ^ LENGTH('a)" and "n < 2 ^ LENGTH('a)"
  shows "unat (a * of_nat n) = unat a * n"
  using assms by (simp add: unat_word_ariths unsigned_of_nat take_bit_nat_eq_self)

definition sbd_ok :: "sbd_device \<Rightarrow> bool" where
  "sbd_ok dev \<longleftrightarrow> length (data dev) < 2 ^ 63 \<and> dev_bytes dev = of_nat (length (data dev))"

lemma sector_bytes:
  assumes "512 * unat (sec :: 64 word) \<le> n" and "n < 2 ^ 63"
  shows "unat (sec * 512) = 512 * unat sec"
  using unat_small_mult [of sec 512] assms by simp

lemma sbd_transfer_ok:
  assumes "sbd_ok dev" and "length seg mod 512 = 0" and "512 * unat sec + length seg \<le> length (data dev)"
  shows "sbd_transfer 512 dev sec (of_nat (cur_sectors seg)) seg w =
    Inr (if w then dev\<lparr>data := put_range (512 * unat sec) seg (data dev)\<rparr> else dev,
         if w then seg else get_range (512 * unat sec) (length seg) (data dev))"
proof -
  have n: "length (data dev) < 2 ^ 63" and d: "dev_bytes dev = of_nat (length (data dev))"
    using assms(1) by (auto simp: sbd_ok_def)
  have o: "unat (sec * 512) = 512 * unat sec" using sector_bytes [of sec "length (data dev)"] assms(3) n by simp
  have c: "cur_sectors seg * 512 = length seg" using whole_sectors assms(2) .
  have "(of_nat (cur_sectors seg) :: 64 word) * 512 = of_nat (cur_sectors seg * 512)" by simp
  then have b: "unat ((of_nat (cur_sectors seg) :: 64 word) * 512) = length seg"
    using assms(3) n by (simp only: c) simp
  have s: "unat (sec * 512 + of_nat (cur_sectors seg) * 512) = 512 * unat sec + length seg"
    using unat_add_nowrap [of "sec * 512" "of_nat (cur_sectors seg) * 512"] assms(3) n o b by simp
  have "\<not> dev_bytes dev < sec * 512 + of_nat (cur_sectors seg) * 512"
    unfolding word_less_nat_alt s d using assms(3) n by simp
  then show ?thesis
    using assms(3) o b by (simp add: sbd_transfer_def Let_def put_range_def)
qed

lemma sec_next:
  assumes "512 * unat (sec :: 64 word) + length seg \<le> n" and "n < 2 ^ 63" and "length seg mod 512 = 0"
  shows "512 * unat (sec + of_nat (cur_sectors seg)) = 512 * unat sec + length seg"
proof -
  have c: "cur_sectors seg * 512 = length seg" using whole_sectors assms(3) .
  then have "unat sec + cur_sectors seg < 2 ^ 64" and "cur_sectors seg < 2 ^ 64" using assms(1,2) by simp_all
  then have "unat (sec + of_nat (cur_sectors seg)) = unat sec + cur_sectors seg"
    using unat_add_nowrap [of sec "of_nat (cur_sectors seg)"] by simp
  then show ?thesis using c by simp
qed

lemma sbd_ok_put:
  "sbd_ok dev \<Longrightarrow> p + length bs \<le> length (data dev) \<Longrightarrow> sbd_ok (dev\<lparr>data := put_range p bs (data dev)\<rparr>)"
  by (simp add: sbd_ok_def)

lemma sbd_segments_ok:
  "sbd_ok dev \<Longrightarrow> \<forall>seg \<in> set ss. length seg mod 512 = 0 \<Longrightarrow>
   512 * unat sec + length (concat ss) \<le> length (data dev) \<Longrightarrow>
   sbd_segments 512 w sec ss dev =
    Inr (if w then dev\<lparr>data := put_range (512 * unat sec) (concat ss) (data dev)\<rparr> else dev,
         if w then ss else disk_read (512 * unat sec) ss (data dev))"
proof (induction ss arbitrary: sec dev)
  case Nil
  then show ?case by simp
next
  case (Cons seg ss)
  let ?d = "if w then dev\<lparr>data := put_range (512 * unat sec) seg (data dev)\<rparr> else dev"
  let ?seg = "if w then seg else get_range (512 * unat sec) (length seg) (data dev)"
  have m: "length seg mod 512 = 0" and fit: "512 * unat sec + length seg \<le> length (data dev)"
    using Cons.prems by auto
  have t: "sbd_transfer 512 dev sec (of_nat (cur_sectors seg)) seg w = Inr (?d, ?seg)"
    using sbd_transfer_ok [OF Cons.prems(1) m fit, of w] by (simp split: if_splits)
  have l: "length ?seg = length seg" using fit by simp
  then have cs: "cur_sectors ?seg = cur_sectors seg" by (simp add: cur_sectors_def)
  have n: "length (data dev) < 2 ^ 63" using Cons.prems(1) by (simp add: sbd_ok_def)
  note next' = sec_next [OF fit n m]
  have d: "sbd_ok ?d" "length (data ?d) = length (data dev)"
    using Cons.prems(1) fit sbd_ok_put by simp_all
  have "sbd_segments 512 w (sec + of_nat (cur_sectors seg)) ss ?d =
     Inr (if w then ?d\<lparr>data := put_range (512 * unat sec + length seg) (concat ss) (data ?d)\<rparr> else ?d,
         if w then ss else disk_read (512 * unat sec + length seg) ss (data ?d))"
    using Cons.IH [OF d(1), of "sec + of_nat (cur_sectors seg)"] Cons.prems(2,3) d(2) by (simp add: next')
  then show ?case
    using Cons.prems(3) t cs by (cases w) (simp_all add: put_put_append)
qed

lemma sbd_request_refines:
  "sbd_ok dev \<Longrightarrow> \<forall>r \<in> set q. fs r \<and> request_in (length (data dev)) r \<Longrightarrow>
   \<exists>dev'. sbd_request 512 q dev = Inr (dev', snd (disk_run q (data dev))) \<and>
     sbd_ok dev' \<and> data dev' = fst (disk_run q (data dev)) \<and> length (data dev') = length (data dev)"
proof (induction q arbitrary: dev)
  case Nil
  then show ?case by simp
next
  case (Cons r q)
  have r: "fs r" "\<forall>seg \<in> set (segs r). length seg mod 512 = 0"
    "512 * unat (pos r) + length (concat (segs r)) \<le> length (data dev)"
    using Cons.prems(2) by (auto simp: request_in_def)
  let ?d = "if wr r then dev\<lparr>data := put_range (512 * unat (pos r)) (concat (segs r)) (data dev)\<rparr> else dev"
  have step: "sbd_segments 512 (wr r) (pos r) (segs r) dev =
      Inr (?d, segs (snd (disk_do r (data dev))))"
    using sbd_segments_ok [OF Cons.prems(1) r(2,3), of "wr r"] r(1)
    by (cases "wr r") (simp_all add: disk_do_def Let_def)
  have d: "sbd_ok ?d" "length (data ?d) = length (data dev)" "data ?d = fst (disk_do r (data dev))"
    using Cons.prems(1) r sbd_ok_put by (simp_all add: disk_do_def Let_def)
  have snd: "r\<lparr>segs := segs (snd (disk_do r (data dev)))\<rparr> = snd (disk_do r (data dev))"
    by (simp add: disk_do_def Let_def)
  have "\<forall>r \<in> set q. fs r \<and> request_in (length (data ?d)) r"
    unfolding d(2) using Cons.prems(2) by simp
  from Cons.IH [OF d(1) this] obtain dev' where
    "sbd_request 512 q ?d = Inr (dev', snd (disk_run q (data ?d)))" "sbd_ok dev'"
    "data dev' = fst (disk_run q (data ?d))" "length (data dev') = length (data dev)"
    unfolding d(2) by blast
  then show ?case
    using r(1) step snd unfolding d(3)
    by (intro exI [of _ dev']) (simp add: split_beta Let_def)
qed

text \<open>C4: With 512-byte logical blocks, \<open>sbd_request\<close> refines a flat disk: for every queue of
  file system requests inside the disk, in any number of segments, the driver ends all of them
  without leaving its buffers, what it hands back for the reads and what it leaves in memory are
  what the requests do one after the other to an array of bytes.\<close>

theorem sbd_request_refines_disk:
  assumes "sbd_ok dev" and "\<forall>r \<in> set q. fs r \<and> request_in (length (data dev)) r"
  shows "map_sum id (\<lambda>(dev, ended). (data dev, ended)) (sbd_request 512 q dev) = Inr (disk_run q (data dev))"
  using sbd_request_refines [OF assms] by auto

definition sample_disk :: sbd_device where
  "sample_disk = \<lparr>dev_bytes = 2048, data = replicate 2048 0\<rparr>"

definition sample_queue :: "request list" where
  "sample_queue =
     [\<lparr>fs = True, wr = True, pos = 1, segs = [replicate 512 1, replicate 512 2]\<rparr>,
      \<lparr>fs = True, wr = False, pos = 2, segs = [replicate 512 9]\<rparr>]"

lemma sample_disk_ok: "sbd_ok sample_disk" "\<forall>r \<in> set sample_queue. fs r \<and> request_in (length (data sample_disk)) r"
  by (simp_all add: sbd_ok_def sample_disk_def sample_queue_def request_in_def)

theorem sbd_request_refines_disk_witness:
  "map_sum id (\<lambda>(dev, ended). (data dev, ended)) (sbd_request 512 sample_queue sample_disk) =
     Inr (disk_run sample_queue (replicate 2048 0))"
  using sbd_request_refines_disk [OF sample_disk_ok] by (simp add: sample_disk_def)

text \<open>A request that is not a file system request (a pass-through command, which any process
  with the right to open the device can send) makes the driver end it and then go on with the
  freed request.\<close>

theorem sbd_request_non_fs:
  assumes "sbd_ok dev" and "\<forall>r \<in> set q. fs r \<and> request_in (length (data dev)) r" and "\<not> fs r"
  shows "sbd_request 512 (q @ r # rest) dev = Inl UseAfterFree"
  using assms(1,2)
proof (induction q arbitrary: dev)
  case Nil
  then show ?case using assms(3) by simp
next
  case (Cons r' q)
  from sbd_request_refines [OF Cons.prems(1), of "[r']"] Cons.prems(2) obtain dev' ss where
    s: "sbd_segments 512 (wr r') (pos r') (segs r') dev = Inr (dev', ss)" "sbd_ok dev'"
    "length (data dev') = length (data dev)" and "fs r'"
    by (auto split: sum.splits)
  moreover have "sbd_request 512 (q @ r # rest) dev' = Inl UseAfterFree"
    using Cons.IH [OF s(2)] Cons.prems(2) s(3) by simp
  ultimately show ?case by simp
qed

theorem sbd_request_non_fs_witness:
  "sbd_request 512 (sample_queue @ [\<lparr>fs = False, wr = False, pos = 0, segs = []\<rparr>]) sample_disk = Inl UseAfterFree"
  by (rule sbd_request_non_fs [OF sample_disk_ok]) simp

section \<open>Logical blocks larger than a sector\<close>

text \<open>The driver multiplies the block layer's sector numbers and counts, which are always in
  512-byte sectors, by \<open>logical_block_size\<close>. With 4096-byte blocks a request of \<open>n\<close> sectors is
  either ignored and reported as done, or copies eight times its buffer's length.\<close>

theorem sbd_large_blocks:
  assumes "length seg = 512 * n" and "0 < n" and "n < 2 ^ 32" and "unat sec < 2 ^ 48"
  shows "sbd_transfer 4096 dev sec (of_nat (cur_sectors seg)) seg w =
    (if unat (dev_bytes dev) < 4096 * (unat sec + n) then Inr (dev, seg) else Inl OutOfBounds)"
proof -
  have c: "cur_sectors seg = n" using assms(1) by (simp add: cur_sectors_def KERNEL_SECTOR_SIZE_def)
  have o: "unat (sec * 4096) = 4096 * unat sec" using unat_small_mult [of sec 4096] assms(4) by simp
  have un: "unat (of_nat n :: 64 word) = n" using assms(3) by simp
  then have b: "unat ((of_nat n :: 64 word) * 4096) = 4096 * n"
    using unat_small_mult [of "of_nat n :: 64 word" 4096] assms(3) by simp
  have s: "unat (sec * 4096 + of_nat n * 4096) = 4096 * (unat sec + n)"
    using unat_add_nowrap [of "sec * 4096" "of_nat n * 4096"] assms(3,4) o b by simp
  show ?thesis
    using assms(1,2) by (simp add: sbd_transfer_def Let_def c word_less_nat_alt s b)
qed

theorem sbd_large_blocks_witness:
  "sbd_transfer 4096 \<lparr>dev_bytes = 4194304, data = d\<rparr> 8 (of_nat (cur_sectors (replicate 512 0))) (replicate 512 0) False =
     Inl OutOfBounds"
  using sbd_large_blocks [where seg = "replicate 512 0" and n = 1 and sec = 8 and w = False and
      dev = "\<lparr>dev_bytes = 4194304, data = d\<rparr>"] by simp

section \<open>The second disk\<close>

lemma sector_bytes_32:
  assumes "512 * unat (sec :: 64 word) \<le> n" and "n < 2 ^ 31"
  shows "unat ((ucast sec :: c_uint) * 512) = 512 * unat sec"
proof -
  have "unat (ucast sec :: c_uint) = unat sec"
    using assms by (simp add: unsigned_ucast_eq take_bit_nat_eq_self)
  then show ?thesis using unat_small_mult [of "ucast sec :: c_uint" 512] assms by simp
qed

lemma my_transfer_ok:
  assumes "length ramdisk < 2 ^ 31" and "length seg mod 512 = 0" and "512 * unat sec + length seg \<le> length ramdisk"
  shows "my_transfer sec seg w ramdisk =
    Inr (if w then put_range (512 * unat sec) seg ramdisk else ramdisk,
         if w then seg else get_range (512 * unat sec) (length seg) ramdisk)"
proof -
  have o: "unat ((ucast sec :: c_uint) * 512) = 512 * unat sec"
    using sector_bytes_32 [of sec "length ramdisk"] assms(1,3) by simp
  have "(of_nat (cur_sectors seg) :: c_uint) * 512 = of_nat (cur_sectors seg * 512)" by simp
  also have "\<dots> = of_nat (length seg)" by (simp only: whole_sectors [OF assms(2)])
  also have "\<dots> = word_of_int (int (length seg))" by simp
  finally have "sint ((of_nat (cur_sectors seg) :: c_uint) * 512) = signed_take_bit 31 (int (length seg))"
    by (simp only: signed_of_int) simp
  also have "\<dots> = int (length seg)"
  proof (rule signed_take_bit_int_eq_self)
    have "length seg < 2 ^ 31" using assms(1,3) by linarith
    then show "int (length seg) < 2 ^ 31" by (simp only: of_nat_less_numeral_power_cancel_iff)
  qed (simp add: order_trans [where y = 0])
  finally have b: "sint ((of_nat (cur_sectors seg) :: c_uint) * 512) = int (length seg)" .
  have c: "(int (length ramdisk) < int (512 * unat sec) + int (length seg)) = False"
    using assms(3) by (simp only: of_nat_add [symmetric] of_nat_less_iff) simp
  show ?thesis
    unfolding my_transfer_def Let_def o b c using assms(3) by (simp add: put_range_def)
qed

lemma my_segments_ok:
  "length ramdisk < 2 ^ 31 \<Longrightarrow> \<forall>seg \<in> set ss. length seg mod 512 = 0 \<Longrightarrow>
   512 * unat sec + length (concat ss) \<le> length ramdisk \<Longrightarrow>
   my_segments w sec ss ramdisk =
    Inr (if w then put_range (512 * unat sec) (concat ss) ramdisk else ramdisk,
         if w then ss else disk_read (512 * unat sec) ss ramdisk)"
proof (induction ss arbitrary: sec ramdisk)
  case Nil
  then show ?case by simp
next
  case (Cons seg ss)
  let ?d = "if w then put_range (512 * unat sec) seg ramdisk else ramdisk"
  let ?seg = "if w then seg else get_range (512 * unat sec) (length seg) ramdisk"
  have m: "length seg mod 512 = 0" and fit: "512 * unat sec + length seg \<le> length ramdisk"
    using Cons.prems by auto
  note t = my_transfer_ok [OF Cons.prems(1) m fit, of w]
  have l: "length ?seg = length seg" using fit by simp
  then have cs: "cur_sectors ?seg = cur_sectors seg" by (simp add: cur_sectors_def)
  have "length ramdisk < 2 ^ 63" using Cons.prems(1) by simp
  note next' = sec_next [OF fit this m]
  have d: "length ?d = length ramdisk" using fit by simp
  have "my_segments w (sec + of_nat (cur_sectors seg)) ss ?d =
     Inr (if w then put_range (512 * unat sec + length seg) (concat ss) ?d else ?d,
         if w then ss else disk_read (512 * unat sec + length seg) ss ?d)"
    using Cons.IH [of ?d "sec + of_nat (cur_sectors seg)"] Cons.prems d by (simp add: next')
  then show ?case
    using Cons.prems(3) t cs by (cases w) (simp_all add: put_put_append)
qed

lemma my_request_refines:
  "length ramdisk < 2 ^ 31 \<Longrightarrow> \<forall>r \<in> set q. fs r \<longrightarrow> request_in (length ramdisk) r \<Longrightarrow>
   my_request q ramdisk = Inr (disk_run q ramdisk)"
proof (induction q arbitrary: ramdisk)
  case Nil
  then show ?case by simp
next
  case (Cons r q)
  have step: "(if fs r then my_segments (wr r) (pos r) (segs r) ramdisk else Inr (ramdisk, segs r)) =
      Inr (fst (disk_do r ramdisk), segs (snd (disk_do r ramdisk)))"
    using Cons.prems my_segments_ok [of ramdisk "segs r" "pos r" "wr r"]
    by (auto simp: disk_do_def Let_def request_in_def)
  have l: "length (fst (disk_do r ramdisk)) = length ramdisk"
    using Cons.prems by (auto simp: disk_do_def Let_def request_in_def)
  have r: "r\<lparr>segs := segs (snd (disk_do r ramdisk))\<rparr> = snd (disk_do r ramdisk)"
    by (simp add: disk_do_def Let_def)
  have "my_request q (fst (disk_do r ramdisk)) = Inr (disk_run q (fst (disk_do r ramdisk)))"
    using Cons.prems by (intro Cons.IH) (simp_all add: l)
  then show ?case using step r by (simp add: split_beta Let_def)
qed

lemma my_request_refines_disk_parts:
  assumes "length ramdisk < 2 ^ 31"
  shows "\<forall>r \<in> set q. fs r \<longrightarrow> request_in (length ramdisk) r \<Longrightarrow>
      my_request q ramdisk = Inr (disk_run q ramdisk)"
    and "my_transfer (sec + 0x800000) seg w ramdisk = my_transfer sec seg w ramdisk"
proof -
  show "\<forall>r \<in> set q. fs r \<longrightarrow> request_in (length ramdisk) r \<Longrightarrow> my_request q ramdisk = Inr (disk_run q ramdisk)"
    using my_request_refines assms by blast
  have "(ucast (sec + 0x800000) :: c_uint) = ucast sec + 0x800000"
  proof -
    have "(ucast (sec + 0x800000) :: c_uint) = word_of_int (take_bit 64 (uint sec + 0x800000))"
      by (simp only: ucast_eq uint_word_ariths take_bit_eq_mod) simp
    also have "\<dots> = word_of_int (uint sec + 0x800000)"
      by (simp only: word_of_int_eq_iff take_bit_take_bit) simp
    also have "\<dots> = ucast sec + 0x800000" by (simp only: ucast_eq wi_hom_add [symmetric]) simp
    finally show ?thesis .
  qed
  then have "(ucast (sec + 0x800000) :: c_uint) * 512 = ucast sec * 512"
    by (simp add: distrib_right)
  then show "my_transfer (sec + 0x800000) seg w ramdisk = my_transfer sec seg w ramdisk"
    by (simp add: my_transfer_def Let_def)
qed

text \<open>\<open>my_request\<close> refines the same flat disk for every disk below 2 GB, pass-through commands
  included, which it skips; but its offset arithmetic is 32 bits wide, so a sector number of
  \<open>2\<^sup>2\<^sup>3\<close> or more is not refused: it wraps around and reads or writes the beginning of the
  disk.\<close>

theorem my_request_refines_disk:
  assumes "length ramdisk < 2 ^ 31"
  shows "( (\<forall>r \<in> set q. fs r \<longrightarrow> request_in (length ramdisk) r) \<longrightarrow>
      my_request q ramdisk = Inr (disk_run q ramdisk)) \<and>
    (my_transfer (sec + 0x800000) seg w ramdisk = my_transfer sec seg w ramdisk)"
proof -
  have c1: " (\<forall>r \<in> set q. fs r \<longrightarrow> request_in (length ramdisk) r) \<longrightarrow>
      my_request q ramdisk = Inr (disk_run q ramdisk)"
    by (intro impI) (rule my_request_refines_disk_parts(1) [OF assms]; assumption)
  have c2: "my_transfer (sec + 0x800000) seg w ramdisk = my_transfer sec seg w ramdisk"
    by (rule my_request_refines_disk_parts(2) [OF assms])
  show ?thesis by (rule conjI [OF c1 c2])
qed

theorem my_request_refines_disk_witness:
  "my_request (\<lparr>fs = False, wr = True, pos = 99, segs = []\<rparr> # sample_queue) (replicate 2048 0) =
     Inr (disk_run (\<lparr>fs = False, wr = True, pos = 99, segs = []\<rparr> # sample_queue) (replicate 2048 0))"
  by (rule my_request_refines_disk [THEN conjunct1, THEN mp]) (use sample_disk_ok in \<open>simp_all add: sample_disk_def\<close>)

section \<open>Geometry\<close>

text \<open>Both drivers compute their geometry from the size in bytes where the fields count
  512-byte sectors. With the default parameters \<open>sbd\<close> reports heads times sectors times cylinders
  equal to 524288 for a disk of 1024 sectors, and the other disk's 128 MB overflow the 16-bit
  cylinder count, which comes out as 0.\<close>

theorem default_geometries:
  "let geo = sbd_getgeo 512 \<lparr>dev_bytes = 1024 * 512, data = d\<rparr>
   in heads geo * sectors geo * unat (cylinders geo) = 524288"
  "my_blk_ioctl (128 * 1024 * 1024) HDIO_GETGEO 0 =
     (0, Some \<lparr>heads = 4, sectors = 16, cylinders = 0, start = 4\<rparr>)"
  by (simp_all add: sbd_getgeo_def my_blk_ioctl_def Let_def)

section \<open>Loading and unloading\<close>

lemma disk_modules_parts:
  assumes "b_mem e" and "b_queue e"
  shows "b_register e < 0 \<Longrightarrow> sbd_init e k = (- ENOMEM, acquire BlkQueue k) \<and>
      my_blk_init e k = (b_register e, acquire BlkQueue k)"
    and "b_asked e = 0 \<Longrightarrow> 0 \<le> b_register e \<Longrightarrow> \<not> b_disk e \<Longrightarrow>
      sbd_init e k = (- ENOMEM, acquire BlkQueue k) \<and> my_blk_init e k = (- ENOMEM, acquire BlkQueue k)"
    and "b_asked e = 0 \<Longrightarrow> 0 \<le> b_register e \<Longrightarrow> b_disk e \<Longrightarrow>
      fst (sbd_init e k) = 0 \<and> sbd_exit e (snd (sbd_init e k)) = k \<and>
      fst (my_blk_init e k) = 0 \<and> my_blk_exit e (snd (my_blk_init e k)) = k"
    and "0 < b_asked e \<Longrightarrow> b_register e = 0 \<Longrightarrow> b_disk e \<Longrightarrow> BlkMajor 0 \<notin> set (held k) \<Longrightarrow>
      fst (sbd_init e k) = 0 \<and>
      held (sbd_exit e (snd (sbd_init e k))) = BlkMajor (b_asked e) # held k \<and>
      faults (sbd_exit e (snd (sbd_init e k))) = BlkMajor 0 # faults k"
  using assms
  by (auto simp: sbd_init_def sbd_exit_def my_blk_init_def my_blk_exit_def blk_major_def Let_def
      ledger_simps remove1_idem)

text \<open>Both modules lose the request queue when they fail late: if no major number or no disk
  structure can be had, \<open>init\<close> fails and everything but the queue was given back. When it
  succeeds with a dynamic major, unloading gives back everything. But \<open>sbd\<close> loaded with
  \<open>major_num\<close> set remembers 0, the success code of \<open>register_blkdev\<close>, as its major: unloading
  it unregisters major 0, which it does not hold, and leaves the real one registered.\<close>

theorem disk_modules:
  assumes "b_mem e" and "b_queue e"
  shows "(b_register e < 0 \<longrightarrow> sbd_init e k = (- ENOMEM, acquire BlkQueue k) \<and>
      my_blk_init e k = (b_register e, acquire BlkQueue k)) \<and>
    (b_asked e = 0 \<longrightarrow> 0 \<le> b_register e \<longrightarrow> \<not> b_disk e \<longrightarrow>
      sbd_init e k = (- ENOMEM, acquire BlkQueue k) \<and> my_blk_init e k = (- ENOMEM, acquire BlkQueue k)) \<and>
    (b_asked e = 0 \<longrightarrow> 0 \<le> b_register e \<longrightarrow> b_disk e \<longrightarrow>
      fst (sbd_init e k) = 0 \<and> sbd_exit e (snd (sbd_init e k)) = k \<and>
      fst (my_blk_init e k) = 0 \<and> my_blk_exit e (snd (my_blk_init e k)) = k) \<and>
    (0 < b_asked e \<longrightarrow> b_register e = 0 \<longrightarrow> b_disk e \<longrightarrow> (BlkMajor 0 \<notin> set (held k)) \<longrightarrow>
      fst (sbd_init e k) = 0 \<and>
      held (sbd_exit e (snd (sbd_init e k))) = BlkMajor (b_asked e) # held k \<and>
      faults (sbd_exit e (snd (sbd_init e k))) = BlkMajor 0 # faults k)"
proof -
  have c1: "b_register e < 0 \<longrightarrow> sbd_init e k = (- ENOMEM, acquire BlkQueue k) \<and>
      my_blk_init e k = (b_register e, acquire BlkQueue k)"
    by (intro impI) (rule disk_modules_parts(1) [OF assms]; assumption)
  have c2: "b_asked e = 0 \<longrightarrow> 0 \<le> b_register e \<longrightarrow> \<not> b_disk e \<longrightarrow>
      sbd_init e k = (- ENOMEM, acquire BlkQueue k) \<and> my_blk_init e k = (- ENOMEM, acquire BlkQueue k)"
    by (intro impI) (rule disk_modules_parts(2) [OF assms]; assumption)
  have c3: "b_asked e = 0 \<longrightarrow> 0 \<le> b_register e \<longrightarrow> b_disk e \<longrightarrow>
      fst (sbd_init e k) = 0 \<and> sbd_exit e (snd (sbd_init e k)) = k \<and>
      fst (my_blk_init e k) = 0 \<and> my_blk_exit e (snd (my_blk_init e k)) = k"
    by (intro impI) (rule disk_modules_parts(3) [OF assms]; assumption)
  have c4: "0 < b_asked e \<longrightarrow> b_register e = 0 \<longrightarrow> b_disk e \<longrightarrow> (BlkMajor 0 \<notin> set (held k)) \<longrightarrow>
      fst (sbd_init e k) = 0 \<and>
      held (sbd_exit e (snd (sbd_init e k))) = BlkMajor (b_asked e) # held k \<and>
      faults (sbd_exit e (snd (sbd_init e k))) = BlkMajor 0 # faults k"
    by (intro impI) (rule disk_modules_parts(4) [OF assms]; assumption)
  show ?thesis by (rule conjI [OF c1 conjI [OF c2 conjI [OF c3 c4]]])
qed

theorem disk_modules_witness:
  "let e = \<lparr>b_mem = True, b_queue = True, b_asked = 240, b_register = 0, b_disk = True\<rparr>
   in faults (sbd_exit e (snd (sbd_init e empty_ledger))) = [BlkMajor 0]"
  using disk_modules [where k = empty_ledger and
      e = "\<lparr>b_mem = True, b_queue = True, b_asked = 240, b_register = 0, b_disk = True\<rparr>"]
  by (simp add: Let_def)

end
