(* ===== verification/Cache_Dev.thy ===== *)
theory Cache_Dev
  imports Interfaces
begin

text \<open>
  \<open>src/memory/memory_lab2_cache.c\<close>: a character device whose buffer is an object of a slab
  cache, allocated by \<open>open\<close> and freed by \<open>release\<close>. There is one pointer for all files. The
  cache's objects live in a store, from object numbers to their bytes.
\<close>

section \<open>State\<close>

(* src: memory/memory_lab2_cache.c:20-31 size, ldd_cache, membuff, membuff_size *)
record cachedev =
  c_membuff :: "nat kptr"
  c_size :: c_uint
  objects :: "nat \<rightharpoonup> byte list"

text \<open>
  What the driver's pointer points to. A pointer to an object that was freed is \<open>None\<close>.
\<close>

definition deref :: "cachedev \<Rightarrow> byte list kptr option" where
  "deref d =
     (case c_membuff d of
        NULL \<Rightarrow> Some NULL
      | ERR_PTR n \<Rightarrow> Some (ERR_PTR n)
      | Ptr i \<Rightarrow> map_option Ptr (objects d i))"

text \<open>\<open>kmem_cache_alloc\<close> returns null, or an object it has not given out, with any content.\<close>

type_synonym cache_answer = "(nat \<times> byte list) option"

definition cache_answer_ok :: "cache_answer \<Rightarrow> cachedev \<Rightarrow> bool" where
  "cache_answer_ok a d \<longleftrightarrow> (\<forall>i m. a = Some (i, m) \<longrightarrow> objects d i = None \<and> length m = unat (c_size d))"

(* src: memory/memory_lab2_cache.c:33-44 chardrv_open *)
definition cache_open :: "cache_answer \<Rightarrow> cachedev \<Rightarrow> int \<times> cachedev" where
  "cache_open a d =
     (case a of
        None \<Rightarrow> (- ENOMEM, d\<lparr>c_membuff := NULL\<rparr>)
      | Some (i, m) \<Rightarrow> (0, d\<lparr>c_membuff := Ptr i, objects := (objects d)(i \<mapsto> m)\<rparr>))"

text \<open>Freeing an object that is not allocated, or no object, is a fault.\<close>

(* src: memory/memory_lab2_cache.c:46-52 chardrv_release *)
definition cache_release :: "cachedev \<Rightarrow> (int \<times> cachedev) kresult" where
  "cache_release d =
     (case c_membuff d of
        NULL \<Rightarrow> Inl NullDeref
      | ERR_PTR _ \<Rightarrow> Inl BadPointer
      | Ptr i \<Rightarrow>
          if objects d i = None then Inl UseAfterFree
          else Inr (0, d\<lparr>objects := (objects d)(i := None)\<rparr>))"

(* src: memory/memory_lab2_cache.c:54-65 chardrv_read *)
definition cache_read :: "size_t \<Rightarrow> loff_t \<Rightarrow> size_t \<Rightarrow> cachedev \<Rightarrow> (int \<times> byte list \<times> loff_t) kresult" where
  "cache_read lbuf ppos uleft d =
     (if ucast (c_size d) < lbuf + ppos then Inr (0, [], ppos)
      else case deref d of
        None \<Rightarrow> Inl UseAfterFree
      | Some p \<Rightarrow>
          (case kmem_load p ppos lbuf of
             Inl f \<Rightarrow> Inl f
           | Inr src \<Rightarrow>
               let rbytes = (ucast (lbuf - uleft) :: c_int)
               in Inr (sint rbytes, copied_out lbuf uleft src, ppos + scast rbytes)))"

(* src: memory/memory_lab2_cache.c:67-79 chardrv_write *)
definition cache_write ::
    "byte list \<Rightarrow> size_t \<Rightarrow> loff_t \<Rightarrow> size_t \<Rightarrow> cachedev \<Rightarrow> (int \<times> cachedev \<times> loff_t) kresult" where
  "cache_write ubuf lbuf ppos uleft d =
     (if ucast (c_size d) < lbuf + ppos then Inr (0, d, ppos)
      else case deref d of
        None \<Rightarrow> Inl UseAfterFree
      | Some p \<Rightarrow>
          (case kmem_store p ppos lbuf (copied_in lbuf uleft ubuf) of
             Inl f \<Rightarrow> Inl f
           | Inr p' \<Rightarrow>
               let wbytes = (ucast (lbuf - uleft) :: c_int);
                   objs = (case (c_membuff d, p') of
                             (Ptr i, Ptr m) \<Rightarrow> (objects d)(i \<mapsto> m) | _ \<Rightarrow> objects d)
               in Inr (sint wbytes, d\<lparr>objects := objs\<rparr>, ppos + scast wbytes)))"

section \<open>Loading and unloading\<close>

datatype cache_res = CChrdev | CClass | CDevice | CCache

record cache_env =
  c_major :: int
  c_class :: "unit kptr"
  c_device :: "unit kptr"
  c_param :: c_int
  c_cache_ok :: bool

text \<open>The size parameter is an \<open>int\<close> compared with an \<open>unsigned long\<close>: a negative one is large.\<close>

(* src: memory/memory_lab2_cache.c:88-137 chardrv_init *)
definition cache_init :: "cache_env \<Rightarrow> cache_res ledger \<Rightarrow> int \<times> cache_res ledger \<times> c_uint" where
  "cache_init e k =
     (if c_major e < 0 then (c_major e, k, 0)
      else
        let k = acquire CChrdev k
        in if IS_ERR (c_class e) then (PTR_ERR (c_class e), release CChrdev k, 0)
        else
          let k = acquire CClass k
          in if IS_ERR (c_device e) then (PTR_ERR (c_device e), release_all [CClass, CChrdev] k, 0)
          else
            let k = acquire CDevice k
            in if 1024 * PAGE_SIZE < (scast (c_param e) :: 64 word)
               then (-1, release_all [CDevice, CClass, CChrdev] k, 0)
            else if \<not> c_cache_ok e then (- ENOMEM, release_all [CDevice, CClass, CChrdev] k, 0)
            else (0, acquire CCache k, c_param e))"

(* src: memory/memory_lab2_cache.c:139-147 chardrv_exit *)
definition cache_exit :: "cache_res ledger \<Rightarrow> cache_res ledger" where
  "cache_exit k = release_all [CDevice, CClass, CClass, CChrdev, CCache] k"

definition cache_env_ok :: "cache_env \<Rightarrow> bool" where
  "cache_env_ok e \<longleftrightarrow>
     (\<forall>n. c_class e = ERR_PTR n \<longrightarrow> 0 < n) \<and> (\<forall>n. c_device e = ERR_PTR n \<longrightarrow> 0 < n)"

interpretation cachedev_module: module_loader
  cache_env_ok "\<lambda>e k. (fst (cache_init e k), fst (snd (cache_init e k)))" "\<lambda>e. [CCache, CDevice, CClass, CChrdev]"
proof (unfold_locales, goal_cases)
  case (1 e k)
  then show ?case
    by (auto simp: cache_init_def Let_def cache_env_ok_def split: if_splits elim!: IS_ERR.elims)
next
  case (2 e k)
  then show ?case
    by (auto simp: cache_init_def Let_def split: if_splits)
qed

section \<open>One open file\<close>

text \<open>The pointer is to an allocated object of the size the module was loaded with, at most 4 MB.\<close>

definition holds :: "cachedev \<Rightarrow> byte list \<Rightarrow> bool" where
  "holds d m \<longleftrightarrow> (\<exists>i. c_membuff d = Ptr i \<and> objects d i = Some m) \<and> length m = unat (c_size d) \<and>
     length m \<le> 4194304"

definition holds_some :: "cachedev \<Rightarrow> bool" where
  "holds_some d \<longleftrightarrow> (\<exists>m. holds d m)"

definition cache_capacity :: "cachedev \<Rightarrow> nat" where
  "cache_capacity d = unat (c_size d)"

definition cache_put :: "cachedev \<Rightarrow> byte list \<Rightarrow> cachedev" where
  "cache_put d m = (case c_membuff d of Ptr i \<Rightarrow> d\<lparr>objects := (objects d)(i \<mapsto> m)\<rparr> | _ \<Rightarrow> d)"

lemma holds_put: "holds d m \<Longrightarrow> length m' = length m \<Longrightarrow> holds (cache_put d m') m'"
  by (auto simp: holds_def cache_put_def)

lemma cache_put_size [simp]: "c_size (cache_put d m) = c_size d"
  by (simp add: cache_put_def split: kptr.split)

lemma cache_limit:
  "vfs_rw_ok lbuf ppos \<Longrightarrow> (ucast (c_size d) < lbuf + ppos) = (unat (c_size d) < unat lbuf + unat ppos)"
  by (simp add: word_less_nat_alt vfs_rw_sum)

lemma cache_read_holds:
  assumes "holds d m" and "vfs_rw_ok lbuf ppos" and "user_copy_ok lbuf uleft"
  shows "cache_read lbuf ppos uleft d =
    (if length m < unat lbuf + unat ppos then Inr (0, [], ppos)
     else Inr (int (unat lbuf - unat uleft),
          take (unat lbuf - unat uleft) (get_range (unat ppos) (unat lbuf) m), ppos + (lbuf - uleft)))"
  using assms kmem_load_ok [OF assms(2), of m] cache_limit [OF assms(2), of d]
  by (auto simp: cache_read_def holds_def deref_def moved_vfs copied_out_def unat_minus_left)

lemma cache_write_holds:
  assumes "holds d m" and "vfs_rw_ok lbuf ppos" and "user_copy_ok lbuf uleft"
  shows "cache_write ubuf lbuf ppos uleft d =
    (if length m < unat lbuf + unat ppos then Inr (0, d, ppos)
     else Inr (int (unat lbuf - unat uleft),
          cache_put d (put_range (unat ppos) (copied_in lbuf uleft ubuf) m), ppos + (lbuf - uleft)))"
  using assms kmem_store_ok [OF assms(2), of m] cache_limit [OF assms(2), of d]
  by (auto simp: cache_write_def holds_def deref_def moved_vfs cache_put_def)

lemma cache_pread:
  assumes "holds d m"
  shows "vfs_pread cache_read d p n =
    (if n \<le> MAX_RW_COUNT \<and> p < 2 ^ 63 \<and> (n = 0 \<or> p + n \<le> length m) then Some (get_range p n m) else None)"
proof (cases "n \<le> MAX_RW_COUNT \<and> p < 2 ^ 63")
  case True
  note v = vfs_args [of n p]
  from cache_read_holds [OF assms v(3,4)] True v(1,2) show ?thesis
    by (cases "n = 0") (auto simp: vfs_pread_def add.commute)
next
  case False
  then show ?thesis by (auto simp: vfs_pread_def)
qed

lemma cache_pwrite:
  assumes "holds d m"
  shows "vfs_pwrite cache_write d p bs =
    (if length bs \<le> MAX_RW_COUNT \<and> p < 2 ^ 63 \<and> (bs = [] \<or> p + length bs \<le> length m)
     then Some (if length m < length bs + p then d else cache_put d (put_range p bs m)) else None)"
proof (cases "length bs \<le> MAX_RW_COUNT \<and> p < 2 ^ 63")
  case True
  note v = vfs_args [of "length bs" p]
  from cache_write_holds [OF assms v(3,4), of bs] True v(1,2) show ?thesis
    by (cases "bs = []") (auto simp: vfs_pwrite_def add.commute)
next
  case False
  then show ?thesis by (auto simp: vfs_pwrite_def)
qed

lemma cache_pwriteE:
  assumes "holds_some s" and "vfs_pwrite cache_write s p bs = Some s'"
  obtains m where "holds s m" and "holds s' (put_range p bs m)" and "c_size s' = c_size s"
    and "length bs \<le> MAX_RW_COUNT" and "p < 2 ^ 63" and "bs = [] \<or> p + length bs \<le> length m"
proof -
  obtain m where m: "holds s m" using assms(1) by (auto simp: holds_some_def)
  have fits: "length bs \<le> MAX_RW_COUNT" "p < 2 ^ 63" "bs = [] \<or> p + length bs \<le> length m"
    and s': "s' = (if length m < length bs + p then s else cache_put s (put_range p bs m))"
    using assms(2) by (auto simp: cache_pwrite [OF m] split: if_splits)
  have "holds s' (put_range p bs m)"
    using fits(3) m holds_put [OF m, of "put_range p bs m"] by (auto simp: s')
  moreover have "c_size s' = c_size s" by (simp add: s')
  ultimately show ?thesis by (rule that [OF m _ _ fits])
qed

interpretation cache_store: byte_store
  holds_some cache_capacity "vfs_pread cache_read" "vfs_pwrite cache_write"
proof (unfold_locales, goal_cases)
  case (1 s n p)
  then obtain m where m: "holds s m" by (auto simp: holds_some_def)
  with 1(2) show ?case
    using cache_pread [OF m, of p n] by (auto simp: cache_capacity_def holds_def split: if_splits)
next
  case (2 s bs p)
  then obtain m where m: "holds s m" by (auto simp: holds_some_def)
  with 2(2) show ?case
    using cache_pwrite [OF m, of p bs] by (auto simp: cache_capacity_def holds_def split: if_splits)
next
  case (3 s p bs s')
  then show ?case
    by (elim cache_pwriteE) (auto simp: holds_some_def cache_capacity_def)
next
  case (4 s p n bs)
  then obtain m where m: "holds s m" by (auto simp: holds_some_def)
  with 4(2) show ?case by (auto simp: cache_pread [OF m] split: if_splits)
next
  case (5 s p bs s')
  then obtain m where m: "holds s m" and m': "holds s' (put_range p bs m)"
    and fits: "length bs \<le> MAX_RW_COUNT" "p < 2 ^ 63" "bs = [] \<or> p + length bs \<le> length m"
    by (rule cache_pwriteE)
  have "get_range p (length bs) (put_range p bs m) = bs"
    using fits(3) by (cases "bs = []") (simp_all add: get_put_same)
  with fits show ?case by (auto simp: cache_pread [OF m'])
next
  case (6 s p bs s' q n)
  from 6(1,2) obtain m where m: "holds s m" and m': "holds s' (put_range p bs m)"
    and fits: "bs = [] \<or> p + length bs \<le> length m"
    by (rule cache_pwriteE)
  have "get_range q n (put_range p bs m) = get_range q n m"
    by (intro get_put_apart [OF 6(3) fits])
  moreover have "length (put_range p bs m) = length m" using fits by auto
  ultimately show ?case by (simp add: cache_pread [OF m] cache_pread [OF m'])
qed

lemma cachedev_write_sticks_parts:
  assumes "cache_answer_ok (Some (i, m)) d" and "unat (c_size d) \<le> 4194304"
    and "cache_open (Some (i, m)) d = (r, d0)"
    and "vfs_pwrite cache_write d0 p bs = Some d1" and "bs \<noteq> []"
    and "writes (vfs_pwrite cache_write) d1 ws = Some d2"
    and "\<forall>(q, cs) \<in> set ws. apart q (length cs) p (length bs)"
  shows "vfs_pread cache_read d2 p (length bs) = Some bs"
    and "p + length bs \<le> cache_capacity d"
proof -
  have ok: "holds_some d0" and c: "cache_capacity d0 = cache_capacity d"
    using assms(1-3) by (auto simp: cache_open_def holds_some_def holds_def cache_answer_ok_def cache_capacity_def)
  show "vfs_pread cache_read d2 p (length bs) = Some bs"
    by (rule cache_store.write_sticks [OF ok assms(4,6,5,7)])
  show "p + length bs \<le> cache_capacity d"
    using cache_store.wr_iff [OF ok assms(5), of p] assms(4) by (simp add: c)
qed

text \<open>While one file is open the cache device is a byte store: what a write at some offset
  stored is read back there after any number of later writes that do not overlap it, every
  access that stays inside the object succeeds and no other does.\<close>

theorem cachedev_write_sticks:
  assumes "cache_answer_ok (Some (i, m)) d" and "unat (c_size d) \<le> 4194304"
    and "cache_open (Some (i, m)) d = (r, d0)"
    and "vfs_pwrite cache_write d0 p bs = Some d1" and "bs \<noteq> []"
    and "writes (vfs_pwrite cache_write) d1 ws = Some d2"
    and "\<forall>(q, cs) \<in> set ws. apart q (length cs) p (length bs)"
  shows "(vfs_pread cache_read d2 p (length bs) = Some bs) \<and>
    (p + length bs \<le> cache_capacity d)"
proof -
  have c1: "vfs_pread cache_read d2 p (length bs) = Some bs"
    by (rule cachedev_write_sticks_parts(1) [OF assms])
  have c2: "p + length bs \<le> cache_capacity d"
    by (rule cachedev_write_sticks_parts(2) [OF assms])
  show ?thesis by (rule conjI [OF c1 c2])
qed

definition sample_cachedev :: cachedev where
  "sample_cachedev = \<lparr>c_membuff = NULL, c_size = 16, objects = Map.empty\<rparr>"

theorem cachedev_write_sticks_witness:
  "\<exists>d1. vfs_pwrite cache_write (snd (cache_open (Some (0, replicate 16 0)) sample_cachedev)) 3 [1, 2] = Some d1 \<and>
     vfs_pread cache_read d1 3 2 = Some [1, 2]"
proof -
  let ?d0 = "snd (cache_open (Some (0, replicate 16 0)) sample_cachedev)"
  have a: "cache_answer_ok (Some (0, replicate 16 0)) sample_cachedev"
    by (simp add: cache_answer_ok_def sample_cachedev_def)
  have s: "unat (c_size sample_cachedev) \<le> 4194304" by (simp add: sample_cachedev_def)
  have o: "cache_open (Some (0, replicate 16 0)) sample_cachedev = (0, ?d0)"
    by (simp add: cache_open_def)
  have "holds ?d0 (replicate 16 0)" by (simp add: cache_open_def holds_def sample_cachedev_def)
  from cache_pwrite [OF this, of 3 "[1, 2]"] obtain d1 where
    w: "vfs_pwrite cache_write ?d0 3 [1, 2] = Some d1" by auto
  from cachedev_write_sticks [OF a s o w, of "[]" d1] w show ?thesis by (simp add: numeral_2_eq_2)
qed

lemma cachedev_two_opens_parts:
  assumes "cache_answer_ok (Some (i, m)) d" and "cache_open (Some (i, m)) d = (r1, d1)"
    and "cache_answer_ok (Some (j, n)) d1" and "cache_open (Some (j, n)) d1 = (r2, d2)"
    and "vfs_rw_ok lbuf ppos" and "unat lbuf + unat ppos \<le> unat (c_size d)"
  shows "\<exists>d3. cache_release d2 = Inr (0, d3) \<and> objects d3 i = Some m \<and> i \<noteq> j \<and>
      cache_read lbuf ppos uleft d3 = Inl UseAfterFree \<and> cache_release d3 = Inl UseAfterFree"
    and "cache_release (snd (cache_open None d1)) = Inl NullDeref \<and>
      cache_read lbuf ppos uleft (snd (cache_open None d1)) = Inl NullDeref"
proof -
  have d1: "d1 = d\<lparr>c_membuff := Ptr i, objects := (objects d)(i \<mapsto> m)\<rparr>"
    using assms(2) by (simp add: cache_open_def)
  have d2: "d2 = d1\<lparr>c_membuff := Ptr j, objects := (objects d1)(j \<mapsto> n)\<rparr>"
    using assms(4) by (simp add: cache_open_def)
  have ij: "i \<noteq> j" using assms(3) by (auto simp: cache_answer_ok_def d1)
  have fits: "\<not> ucast (c_size d) < lbuf + ppos" using cache_limit [OF assms(5), of d] assms(6) by simp
  let ?d3 = "d2\<lparr>objects := (objects d2)(j := None)\<rparr>"
  have "cache_release d2 = Inr (0, ?d3)" by (simp add: cache_release_def d2)
  moreover have "objects ?d3 i = Some m" using ij by (simp add: d2 d1)
  moreover have "cache_read lbuf ppos uleft ?d3 = Inl UseAfterFree"
    using fits by (simp add: cache_read_def deref_def d2 d1)
  moreover have "cache_release ?d3 = Inl UseAfterFree" by (simp add: cache_release_def d2)
  ultimately show "\<exists>d3. cache_release d2 = Inr (0, d3) \<and> objects d3 i = Some m \<and> i \<noteq> j \<and>
      cache_read lbuf ppos uleft d3 = Inl UseAfterFree \<and> cache_release d3 = Inl UseAfterFree"
    using ij by blast
  show "cache_release (snd (cache_open None d1)) = Inl NullDeref \<and>
      cache_read lbuf ppos uleft (snd (cache_open None d1)) = Inl NullDeref"
    using fits by (simp add: cache_open_def cache_release_def cache_read_def deref_def kmem_load_def d1)
qed

text \<open>With two files open at once the device breaks: the second \<open>open\<close> overwrites the only
  pointer, the first file's object is leaked for good and its content is out of reach, the two
  files share the second object, and closing both frees that object twice; a read between the
  two closes uses it after it was freed. An \<open>open\<close> that fails for lack of memory leaves the file
  already open with a null buffer.\<close>

theorem cachedev_two_opens:
  assumes "cache_answer_ok (Some (i, m)) d" and "cache_open (Some (i, m)) d = (r1, d1)"
    and "cache_answer_ok (Some (j, n)) d1" and "cache_open (Some (j, n)) d1 = (r2, d2)"
    and "vfs_rw_ok lbuf ppos" and "unat lbuf + unat ppos \<le> unat (c_size d)"
  shows "(\<exists>d3. cache_release d2 = Inr (0, d3) \<and> objects d3 i = Some m \<and> i \<noteq> j \<and>
      cache_read lbuf ppos uleft d3 = Inl UseAfterFree \<and> cache_release d3 = Inl UseAfterFree) \<and>
    (cache_release (snd (cache_open None d1)) = Inl NullDeref \<and>
      cache_read lbuf ppos uleft (snd (cache_open None d1)) = Inl NullDeref)"
proof -
  have c1: "\<exists>d3. cache_release d2 = Inr (0, d3) \<and> objects d3 i = Some m \<and> i \<noteq> j \<and>
      cache_read lbuf ppos uleft d3 = Inl UseAfterFree \<and> cache_release d3 = Inl UseAfterFree"
    by (rule cachedev_two_opens_parts(1) [OF assms])
  have c2: "cache_release (snd (cache_open None d1)) = Inl NullDeref \<and>
      cache_read lbuf ppos uleft (snd (cache_open None d1)) = Inl NullDeref"
    by (rule cachedev_two_opens_parts(2) [OF assms])
  show ?thesis by (rule conjI [OF c1 c2])
qed

theorem cachedev_two_opens_witness:
  "let d1 = snd (cache_open (Some (0, replicate 16 0)) sample_cachedev);
       d2 = snd (cache_open (Some (1, replicate 16 0)) d1)
   in \<exists>d3. cache_release d2 = Inr (0, d3) \<and> cache_release d3 = Inl UseAfterFree"
proof -
  let ?d1 = "snd (cache_open (Some (0, replicate 16 0)) sample_cachedev)"
  let ?d2 = "snd (cache_open (Some (1, replicate 16 0)) ?d1)"
  have a: "cache_answer_ok (Some (0, replicate 16 0)) sample_cachedev"
    "cache_answer_ok (Some (1, replicate 16 0)) ?d1"
    by (simp_all add: cache_answer_ok_def sample_cachedev_def cache_open_def)
  have o: "cache_open (Some (0, replicate 16 0)) sample_cachedev = (0, ?d1)"
    "cache_open (Some (1, replicate 16 0)) ?d1 = (0, ?d2)"
    by (simp_all add: cache_open_def)
  have v: "vfs_rw_ok 4 0" "unat (4::size_t) + unat (0::loff_t) \<le> unat (c_size sample_cachedev)"
    by (simp_all add: vfs_rw_ok_def sample_cachedev_def)
  from cachedev_two_opens [OF a(1) o(1) a(2) o(2) v] show ?thesis
    unfolding Let_def by blast
qed

end
