(* ===== verification/Waiter.thy ===== *)
theory Waiter
  imports Interfaces
begin

text \<open>
  The event threads of \<open>src/misc\<close>: a kernel thread waits for a flag, which the driver's \<open>read\<close>
  sets to 1 and the module's exit to 2. Two variants: \<open>wait_queue_dyn.c\<close> (and
  \<open>wat_queu_stat.c\<close>, the same code with a static queue) with a wait queue, and
  \<open>completion_dyn.c\<close> (and \<open>completion_static.c\<close>) with a completion. The code is cut into the
  pieces another CPU can run between; a run is an interleaving.
\<close>

section \<open>State\<close>

text \<open>
  Where the thread is: about to test its wait condition, asleep, past the wait, past the test
  of the flag, about to clear it, or gone.
\<close>

datatype wait_pc = Checking | Asleep | Woken | Counting | Clearing | Gone

text \<open>How far the module's exit has come.\<close>

datatype exit_pc = Loaded | ExitSet | ExitCompleting | Unloaded

text \<open>
  \<open>pending\<close> counts the readers that have set the flag and not yet signalled it, \<open>completing\<close>
  those that found the completion not done and have not yet completed it; \<open>completions\<close> is the
  completion's counter and \<open>inited\<close> whether it was initialised.
\<close>

(* src: misc/wait_queue_dyn.c:15-22 read_count, wait_thread, wait_queue_etx, wait_queue_flag *)
record waiter =
  flag :: int
  read_count :: nat
  pc :: wait_pc
  pending :: nat
  completing :: nat
  exiting :: exit_pc
  completions :: nat
  inited :: bool
  crashed :: bool

datatype wait_event =
  TCheck | TTest | TCount | TClear | RSet | RSignal | RComplete | XSet | XSignal | XComplete | InitCompletion

text \<open>The pieces after the wait are the same in both variants.\<close>

(* src: misc/wait_queue_dyn.c:50-55 wait_function (after the wait) *)
fun after_wait :: "wait_event \<Rightarrow> waiter \<Rightarrow> waiter option" where
  "after_wait TTest s =
     (if pc s = Woken then Some (s\<lparr>pc := if flag s = 2 then Gone else Counting\<rparr>) else None)"
| "after_wait TCount s =
     (if pc s = Counting then Some (s\<lparr>read_count := read_count s + 1, pc := Clearing\<rparr>) else None)"
| "after_wait TClear s =
     (if pc s = Clearing then Some (s\<lparr>flag := 0, pc := Checking\<rparr>) else None)"
| "after_wait _ s = None"

section \<open>The wait queue variant\<close>

text \<open>
  \<open>wait_event_interruptible\<close> puts the thread on the queue, then tests the condition, and sleeps
  only if it is false; a wake-up sends it back to the test. The calls that wake it set the flag
  first.
\<close>

(* src: misc/wait_queue_dyn.c:47-49 wait_function (wait) *)
definition wq_check :: "waiter \<Rightarrow> waiter option" where
  "wq_check s =
     (if pc s = Checking then Some (s\<lparr>pc := if flag s \<noteq> 0 then Woken else Asleep\<rparr>) else None)"

definition wake_up :: "waiter \<Rightarrow> waiter" where
  "wake_up s = (if pc s = Asleep then s\<lparr>pc := Checking\<rparr> else s)"

(* src: misc/wait_queue_dyn.c:77-77 etx_read (flag) *)
definition etx_read_set :: "waiter \<Rightarrow> waiter option" where
  "etx_read_set s =
     (if exiting s = Loaded then Some (s\<lparr>flag := 1, pending := pending s + 1\<rparr>) else None)"

(* src: misc/wait_queue_dyn.c:78-79 etx_read (wake up) *)
definition etx_read_wake :: "waiter \<Rightarrow> waiter option" where
  "etx_read_wake s =
     (if 0 < pending s then Some (wake_up (s\<lparr>pending := pending s - 1\<rparr>)) else None)"

text \<open>The module can be unloaded when no file is open, so no reader is inside \<open>read\<close>.\<close>

(* src: misc/wait_queue_dyn.c:143-143 etx_driver_exit (flag) *)
definition etx_exit_set :: "waiter \<Rightarrow> waiter option" where
  "etx_exit_set s =
     (if exiting s = Loaded \<and> pending s = 0 \<and> completing s = 0 then Some (s\<lparr>flag := 2, exiting := ExitSet\<rparr>) else None)"

(* src: misc/wait_queue_dyn.c:144-149 etx_driver_exit (wake up, removal) *)
definition etx_exit_wake :: "waiter \<Rightarrow> waiter option" where
  "etx_exit_wake s =
     (if exiting s = ExitSet then Some (wake_up (s\<lparr>exiting := Unloaded\<rparr>)) else None)"

fun wq_next :: "wait_event \<Rightarrow> waiter \<Rightarrow> waiter option" where
  "wq_next TCheck s = wq_check s"
| "wq_next RSet s = etx_read_set s"
| "wq_next RSignal s = etx_read_wake s"
| "wq_next XSet s = etx_exit_set s"
| "wq_next XSignal s = etx_exit_wake s"
| "wq_next RComplete s = None"
| "wq_next XComplete s = None"
| "wq_next InitCompletion s = None"
| "wq_next ev s = after_wait ev s"

definition wq_step :: "waiter \<Rightarrow> wait_event \<Rightarrow> waiter \<Rightarrow> bool" where
  "wq_step s ev t \<longleftrightarrow> wq_next ev s = Some t"

section \<open>The completion variant\<close>

text \<open>
  \<open>wait_for_completion\<close> takes one count, or sleeps; sleeping on a completion that was never
  initialised links the thread into a list whose head is null. \<open>complete\<close> adds a count and wakes
  the thread. \<open>completion_done\<close> tells whether the count is not zero.
\<close>

(* src: misc/completion_dyn.c:205-207 wait_function (wait) *)
definition co_check :: "waiter \<Rightarrow> waiter option" where
  "co_check s =
     (if pc s = Checking \<and> \<not> crashed s then
        Some (if 0 < completions s then s\<lparr>completions := completions s - 1, pc := Woken\<rparr>
              else if \<not> inited s then s\<lparr>crashed := True\<rparr>
              else s\<lparr>pc := Asleep\<rparr>)
      else None)"

definition complete :: "waiter \<Rightarrow> waiter" where
  "complete s = wake_up (s\<lparr>completions := completions s + 1\<rparr>)"

(* src: misc/completion_dyn.c:235-235 etx_read (completion_done) *)
definition co_read_test :: "waiter \<Rightarrow> waiter option" where
  "co_read_test s =
     (if 0 < pending s then
        Some (s\<lparr>pending := pending s - 1,
                completing := completing s + (if completions s = 0 then 1 else 0)\<rparr>)
      else None)"

(* src: misc/completion_dyn.c:236-238 etx_read (complete) *)
definition co_read_complete :: "waiter \<Rightarrow> waiter option" where
  "co_read_complete s =
     (if 0 < completing s then Some (complete (s\<lparr>completing := completing s - 1\<rparr>)) else None)"

(* src: misc/completion_dyn.c:302-302 etx_driver_exit (completion_done) *)
definition co_exit_test :: "waiter \<Rightarrow> waiter option" where
  "co_exit_test s =
     (if exiting s = ExitSet then
        Some (s\<lparr>exiting := if completions s = 0 then ExitCompleting else Unloaded\<rparr>)
      else None)"

(* src: misc/completion_dyn.c:303-309 etx_driver_exit (complete, removal) *)
definition co_exit_complete :: "waiter \<Rightarrow> waiter option" where
  "co_exit_complete s =
     (if exiting s = ExitCompleting then Some (complete (s\<lparr>exiting := Unloaded\<rparr>)) else None)"

text \<open>The dynamic variant initialises its completion only after it started the thread.\<close>

(* src: misc/completion_dyn.c:286-287 etx_driver_init (init_completion) *)
definition co_init :: "waiter \<Rightarrow> waiter option" where
  "co_init s = (if \<not> inited s then Some (s\<lparr>inited := True, completions := 0\<rparr>) else None)"

fun co_next :: "wait_event \<Rightarrow> waiter \<Rightarrow> waiter option" where
  "co_next TCheck s = co_check s"
| "co_next RSet s = (if inited s then etx_read_set s else None)"
| "co_next RSignal s = co_read_test s"
| "co_next RComplete s = co_read_complete s"
| "co_next XSet s = (if inited s then etx_exit_set s else None)"
| "co_next XSignal s = co_exit_test s"
| "co_next XComplete s = co_exit_complete s"
| "co_next InitCompletion s = co_init s"
| "co_next ev s = after_wait ev s"

definition co_step :: "waiter \<Rightarrow> wait_event \<Rightarrow> waiter \<Rightarrow> bool" where
  "co_step s ev t \<longleftrightarrow> co_next ev s = Some t"

section \<open>Start states and invariants\<close>

text \<open>Just after the thread was started. The static variants are initialised from the start.\<close>

definition waiter_start :: "bool \<Rightarrow> waiter" where
  "waiter_start i =
     \<lparr>flag = 0, read_count = 0, pc = Checking, pending = 0, completing = 0, exiting = Loaded, completions = 0,
      inited = i, crashed = False\<rparr>"

text \<open>
  A sleeping thread has missed nothing: whenever it sleeps and the flag is set, the caller that
  set it is still on its way to wake it.
\<close>

definition wq_inv :: "waiter \<Rightarrow> bool" where
  "wq_inv s \<longleftrightarrow> (pc s = Asleep \<and> flag s \<noteq> 0 \<longrightarrow> 0 < pending s \<or> exiting s = ExitSet) \<and>
     flag s \<in> {0, 1, 2} \<and> (flag s = 2 \<longrightarrow> exiting s \<noteq> Loaded)"

text \<open>
  The completion variant: the thread sleeps only when the counter is 0, and while the flag says
  that something happened, either the counter does too or a caller is on its way to say so or
  the thread is about to look.
\<close>

definition co_inv :: "waiter \<Rightarrow> bool" where
  "co_inv s \<longleftrightarrow> inited s \<and> \<not> crashed s \<and> (pc s = Asleep \<longrightarrow> completions s = 0) \<and>
     (pc s = Asleep \<and> flag s \<noteq> 0 \<longrightarrow>
        0 < pending s \<or> 0 < completing s \<or> exiting s \<in> {ExitSet, ExitCompleting}) \<and>
     (exiting s \<noteq> Loaded \<longrightarrow> pending s = 0 \<and> completing s = 0) \<and>
     (pc s = Checking \<and> flag s \<noteq> 0 \<longrightarrow>
        0 < pending s \<or> 0 < completing s \<or> 0 < completions s \<or> exiting s \<in> {ExitSet, ExitCompleting})"

interpretation wq: invariant_system "\<lambda>s. s = waiter_start True" wq_step wq_inv
proof (unfold_locales, goal_cases)
  case (1 s)
  then show ?case by (simp add: waiter_start_def wq_inv_def)
next
  case (2 s ev t)
  then show ?case
    by (cases ev) (auto simp: wq_step_def wq_inv_def wq_check_def etx_read_set_def etx_read_wake_def
        etx_exit_set_def etx_exit_wake_def wake_up_def split: if_splits)
qed

lemma co_inv_step:
  assumes "co_next ev s = Some t" and "co_inv s"
  shows "co_inv t"
proof (cases ev)
  case TCheck
  with assms show ?thesis by (auto simp: co_inv_def co_check_def split: if_splits)
next
  case RSet
  with assms show ?thesis by (auto simp: co_inv_def etx_read_set_def split: if_splits)
next
  case RSignal
  with assms show ?thesis by (auto simp: co_inv_def co_read_test_def split: if_splits)
next
  case RComplete
  with assms show ?thesis
    by (auto simp: co_inv_def co_read_complete_def complete_def wake_up_def split: if_splits)
next
  case XSet
  with assms show ?thesis by (auto simp: co_inv_def etx_exit_set_def split: if_splits)
next
  case XSignal
  with assms show ?thesis by (auto simp: co_inv_def co_exit_test_def split: if_splits)
next
  case XComplete
  with assms show ?thesis
    by (auto simp: co_inv_def co_exit_complete_def complete_def wake_up_def split: if_splits)
next
  case InitCompletion
  with assms show ?thesis by (auto simp: co_inv_def co_init_def split: if_splits)
qed (use assms in \<open>auto simp: co_inv_def split: if_splits\<close>)

interpretation co: invariant_system "\<lambda>s. s = waiter_start True" co_step co_inv
proof (unfold_locales, goal_cases)
  case (1 s)
  then show ?case by (simp add: waiter_start_def co_inv_def)
next
  case (2 s ev t)
  then show ?case using co_inv_step by (simp add: co_step_def)
qed

section \<open>No event is slept through\<close>

lemma wait_no_lost_event_parts:
  assumes "pc s = Asleep" and "pending s = 0" and "completing s = 0"
    and "exiting s \<noteq> ExitSet" and "exiting s \<noteq> ExitCompleting"
  shows "run wq_step (waiter_start True) evs s \<Longrightarrow> flag s = 0"
    and "run co_step (waiter_start True) evs s \<Longrightarrow> flag s = 0"
  using wq.inv_reachable [OF refl, of evs s] co.inv_reachable [OF refl, of evs s] assms
  by (auto simp: wq_inv_def co_inv_def)



section \<open>The exit can be lost\<close>

text \<open>Nothing but a new reader can move a thread that sleeps in an unloaded module.\<close>

lemma wq_stuck:
  "run wq_step s evs t \<Longrightarrow> pc s = Asleep \<Longrightarrow> exiting s = Unloaded \<Longrightarrow> pending s = 0 \<Longrightarrow> evs = [] \<and> t = s"
proof (induction rule: run.induct)
  case (run_cons s ev t evs u)
  then show ?case
    by (cases ev) (auto simp: wq_step_def wq_check_def etx_read_set_def etx_read_wake_def
        etx_exit_set_def etx_exit_wake_def)
qed simp

lemma co_stuck:
  "run co_step s evs t \<Longrightarrow> pc s = Asleep \<Longrightarrow> exiting s = Unloaded \<Longrightarrow> pending s = 0 \<Longrightarrow> completing s = 0 \<Longrightarrow>
   inited s \<Longrightarrow> evs = [] \<and> t = s"
proof (induction rule: run.induct)
  case (run_cons s ev t evs u)
  then show ?case
    by (cases ev) (auto simp: co_step_def co_check_def etx_read_set_def co_read_test_def co_read_complete_def
        etx_exit_set_def co_exit_test_def co_exit_complete_def co_init_def)
qed simp

lemma exit_lost_parts:
  shows "\<exists>s. run wq_step (waiter_start True)
      [RSet, RSignal, TCheck, TTest, TCount, XSet, XSignal, TClear, TCheck] s \<and>
    exiting s = Unloaded \<and> pc s = Asleep \<and> (\<forall>evs t. run wq_step s evs t \<longrightarrow> t = s)"
    and "\<exists>s. run co_step (waiter_start True)
      [RSet, RSignal, RComplete, TCheck, TTest, TCount, XSet, XSignal, XComplete, TClear, TCheck, TTest,
       TCount, TClear, TCheck] s \<and>
    exiting s = Unloaded \<and> pc s = Asleep \<and> read_count s = 2 \<and> (\<forall>evs t. run co_step s evs t \<longrightarrow> t = s)"
proof -
  let ?s = "(waiter_start True)\<lparr>read_count := 1, pc := Asleep, exiting := Unloaded\<rparr>"
  have "run wq_step (waiter_start True)
      [RSet, RSignal, TCheck, TTest, TCount, XSet, XSignal, TClear, TCheck] ?s"
    by (simp add: run_cons_iff wq_step_def wq_check_def etx_read_set_def etx_read_wake_def
        etx_exit_set_def etx_exit_wake_def wake_up_def waiter_start_def)
  moreover have "\<forall>evs t. run wq_step ?s evs t \<longrightarrow> t = ?s"
    using wq_stuck [of ?s] by (auto simp: waiter_start_def)
  ultimately show "\<exists>s. run wq_step (waiter_start True)
      [RSet, RSignal, TCheck, TTest, TCount, XSet, XSignal, TClear, TCheck] s \<and>
    exiting s = Unloaded \<and> pc s = Asleep \<and> (\<forall>evs t. run wq_step s evs t \<longrightarrow> t = s)"
    by (intro exI [of _ ?s]) simp
  let ?t = "(waiter_start True)\<lparr>read_count := 2, pc := Asleep, exiting := Unloaded\<rparr>"
  have "run co_step (waiter_start True)
      [RSet, RSignal, RComplete, TCheck, TTest, TCount, XSet, XSignal, XComplete, TClear, TCheck, TTest,
       TCount, TClear, TCheck] ?t"
    by (simp add: run_cons_iff co_step_def co_check_def etx_read_set_def co_read_test_def co_read_complete_def
        etx_exit_set_def co_exit_test_def co_exit_complete_def complete_def wake_up_def waiter_start_def)
  moreover have "\<forall>evs t. run co_step ?t evs t \<longrightarrow> t = ?t"
    using co_stuck [of ?t] by (auto simp: waiter_start_def)
  ultimately show "\<exists>s. run co_step (waiter_start True)
      [RSet, RSignal, RComplete, TCheck, TTest, TCount, XSet, XSignal, XComplete, TClear, TCheck, TTest,
       TCount, TClear, TCheck] s \<and>
    exiting s = Unloaded \<and> pc s = Asleep \<and> read_count s = 2 \<and> (\<forall>evs t. run co_step s evs t \<longrightarrow> t = s)"
    by (intro exI [of _ ?t]) simp
qed

text \<open>The exit is lost when it comes while the thread handles a read: the thread has tested the
  flag (1), the exit sets it to 2 and signals, and the thread then clears it. The module is
  unloaded, and the thread waits for ever in code that is gone: no step is left that could end
  it. Both variants have this run; in the completion variant the thread even counts the exit
  as a read.\<close>

theorem exit_lost:
  shows "(\<exists>s. run wq_step (waiter_start True)
      [RSet, RSignal, TCheck, TTest, TCount, XSet, XSignal, TClear, TCheck] s \<and>
    exiting s = Unloaded \<and> pc s = Asleep \<and> (\<forall>evs t. run wq_step s evs t \<longrightarrow> t = s)) \<and>
    (\<exists>s. run co_step (waiter_start True)
      [RSet, RSignal, RComplete, TCheck, TTest, TCount, XSet, XSignal, XComplete, TClear, TCheck, TTest,
       TCount, TClear, TCheck] s \<and>
    exiting s = Unloaded \<and> pc s = Asleep \<and> read_count s = 2 \<and> (\<forall>evs t. run co_step s evs t \<longrightarrow> t = s))"
proof -
  have c1: "\<exists>s. run wq_step (waiter_start True)
      [RSet, RSignal, TCheck, TTest, TCount, XSet, XSignal, TClear, TCheck] s \<and>
    exiting s = Unloaded \<and> pc s = Asleep \<and> (\<forall>evs t. run wq_step s evs t \<longrightarrow> t = s)"
    by (rule exit_lost_parts(1))
  have c2: "\<exists>s. run co_step (waiter_start True)
      [RSet, RSignal, RComplete, TCheck, TTest, TCount, XSet, XSignal, XComplete, TClear, TCheck, TTest,
       TCount, TClear, TCheck] s \<and>
    exiting s = Unloaded \<and> pc s = Asleep \<and> read_count s = 2 \<and> (\<forall>evs t. run co_step s evs t \<longrightarrow> t = s)"
    by (rule exit_lost_parts(2))
  show ?thesis by (rule conjI [OF c1 c2])
qed

theorem exit_lost_witness:
  "\<exists>s. run wq_step (waiter_start True)
      [RSet, RSignal, TCheck, TTest, TCount, XSet, XSignal, TClear, TCheck] s \<and>
    exiting s = Unloaded \<and> pc s = Asleep \<and> \<not> run wq_step s [TCheck] (s\<lparr>pc := Woken\<rparr>)"
proof -
  from exit_lost [THEN conjunct1] obtain s where
    s: "run wq_step (waiter_start True) [RSet, RSignal, TCheck, TTest, TCount, XSet, XSignal, TClear, TCheck] s"
      "exiting s = Unloaded" "pc s = Asleep" "\<forall>evs t. run wq_step s evs t \<longrightarrow> t = s"
    by blast
  have "\<not> run wq_step s [TCheck] (s\<lparr>pc := Woken\<rparr>)"
  proof
    assume "run wq_step s [TCheck] (s\<lparr>pc := Woken\<rparr>)"
    with s(4) have "s\<lparr>pc := Woken\<rparr> = s" by blast
    then have "pc (s\<lparr>pc := Woken\<rparr>) = pc s" by (rule arg_cong)
    with s(3) show False by simp
  qed
  with s show ?thesis by blast
qed

lemma completion_init_race_parts:
  shows "\<exists>s. run co_step (waiter_start False) [TCheck] s \<and> crashed s"
    and "run co_step (waiter_start True) evs s \<Longrightarrow> \<not> crashed s"
    and "run co_step (waiter_start False) (InitCompletion # evs) s \<Longrightarrow> \<not> crashed s"
proof -
  show "\<exists>s. run co_step (waiter_start False) [TCheck] s \<and> crashed s"
    by (simp add: run_cons_iff co_step_def co_check_def waiter_start_def)
  have safe: "run co_step (waiter_start True) evs s \<Longrightarrow> \<not> crashed s" for evs s
    using co.inv_reachable [OF refl, of evs s] by (simp add: co_inv_def)
  then show "run co_step (waiter_start True) evs s \<Longrightarrow> \<not> crashed s" .
  assume "run co_step (waiter_start False) (InitCompletion # evs) s"
  then have "run co_step (waiter_start True) evs s"
    by (auto simp: run_cons_iff co_step_def co_init_def waiter_start_def)
  then show "\<not> crashed s" by (rule safe)
qed

text \<open>The dynamic completion variant starts its thread before it initialises the completion the
  thread waits on: if the thread runs first, it links itself into a list whose head is still
  null. Started after the initialisation, it never does that.\<close>

theorem completion_init_race:
  shows "(\<exists>s. run co_step (waiter_start False) [TCheck] s \<and> crashed s) \<and>
    (run co_step (waiter_start True) evs s \<longrightarrow> \<not> crashed s) \<and>
    (run co_step (waiter_start False) (InitCompletion # evs) s \<longrightarrow> \<not> crashed s)"
proof -
  have c1: "\<exists>s. run co_step (waiter_start False) [TCheck] s \<and> crashed s"
    by (rule completion_init_race_parts(1))
  have c2: "run co_step (waiter_start True) evs s \<longrightarrow> \<not> crashed s"
    by (intro impI) (rule completion_init_race_parts(2); assumption)
  have c3: "run co_step (waiter_start False) (InitCompletion # evs) s \<longrightarrow> \<not> crashed s"
    by (intro impI) (rule completion_init_race_parts(3); assumption)
  show ?thesis by (rule conjI [OF c1 conjI [OF c2 c3]])
qed

theorem completion_init_race_witness:
  "\<exists>s. run co_step (waiter_start False) [InitCompletion, TCheck] s \<and> \<not> crashed s"
proof -
  let ?s = "(waiter_start True)\<lparr>pc := Asleep\<rparr>"
  have r: "run co_step (waiter_start False) [InitCompletion, TCheck] ?s"
    by (simp add: run_cons_iff co_step_def co_init_def co_check_def waiter_start_def)
  from completion_init_race [THEN conjunct2, THEN conjunct2, THEN mp, OF r] r show ?thesis by blast
qed

section \<open>Loading the modules\<close>

text \<open>
  The four modules register in the same way. \<open>class_create\<close> and \<open>device_create\<close> report failure
  with an error pointer, which the code compares with null: such a failure is not noticed, and
  creating a device of an error class follows a bad pointer. \<open>kthread_create\<close> reports failure
  the same way, so waking the thread does too.
\<close>

datatype etx_res = EtxRegion | EtxCdev | EtxClass | EtxDevice | EtxThread

record etx_env =
  e_region :: int
  e_cdev :: int
  e_class :: "unit kptr"
  e_device :: "unit kptr"
  e_thread :: "unit kptr"

(* src: misc/wait_queue_dyn.c:90-139 etx_driver_init *)
definition etx_driver_init :: "etx_env \<Rightarrow> etx_res ledger \<Rightarrow> (int \<times> etx_res ledger) kresult" where
  "etx_driver_init e k =
     (if e_region e < 0 then Inr (-1, k)
      else
        let k = acquire EtxRegion k
        in if e_cdev e < 0 then Inr (-1, release EtxRegion k)
        else
          let k = acquire EtxCdev k
          in if e_class e = NULL then Inr (-1, release EtxRegion k)
          else if IS_ERR (e_class e) then Inl BadPointer
          else
            let k = acquire EtxClass k
            in if e_device e = NULL then Inr (-1, release_all [EtxClass, EtxRegion] k)
            else
              let k = (if IS_ERR (e_device e) then k else acquire EtxDevice k)
              in if nonnull (e_thread e) then
                   (if IS_ERR (e_thread e) then Inl BadPointer else Inr (0, acquire EtxThread k))
                 else Inr (0, k))"

(* src: misc/completion_dyn.c:246-297 etx_driver_init *)
definition co_driver_init :: "etx_env \<Rightarrow> etx_res ledger \<Rightarrow> (int \<times> etx_res ledger) kresult" where
  "co_driver_init e k =
     (if e_region e < 0 then Inr (-1, k)
      else
        let k = acquire EtxRegion k
        in if e_cdev e < 0 then Inr (-1, release EtxRegion k)
        else
          let k = acquire EtxCdev k
          in if e_class e = NULL then Inr (-1, release EtxRegion k)
          else if IS_ERR (e_class e) then Inl BadPointer
          else
            let k = acquire EtxClass k
            in if e_device e = NULL then Inr (-1, release_all [EtxClass, EtxRegion] k)
            else
              let k = (if IS_ERR (e_device e) then k else acquire EtxDevice k)
              in if nonnull (e_thread e) then
                   (if IS_ERR (e_thread e) then Inl BadPointer else Inr (0, acquire EtxThread k))
                 else Inr (0, k))"

text \<open>The exit does not stop the thread, it only asks it to end.\<close>

(* src: misc/wait_queue_dyn.c:141-150 etx_driver_exit *)
definition etx_driver_exit :: "etx_res ledger \<Rightarrow> etx_res ledger" where
  "etx_driver_exit k = release_all [EtxDevice, EtxClass, EtxCdev, EtxRegion] k"

text \<open>
  An error pointer where the code expects null is followed; a successful load holds all five
  resources, and unloading it leaves the thread.
\<close>

lemma etx_driver_init_errors:
  assumes "0 \<le> e_region e" and "0 \<le> e_cdev e"
  shows "e_class e = ERR_PTR n \<Longrightarrow> etx_driver_init e k = Inl BadPointer"
    and "e_class e = Ptr () \<Longrightarrow> e_device e = Ptr () \<Longrightarrow> e_thread e = ERR_PTR n \<Longrightarrow>
      etx_driver_init e k = Inl BadPointer"
    and "e_class e = Ptr () \<Longrightarrow> e_device e = Ptr () \<Longrightarrow> e_thread e = Ptr () \<Longrightarrow>
      \<exists>k'. etx_driver_init e k = Inr (0, k') \<and>
        held k' = [EtxThread, EtxDevice, EtxClass, EtxCdev, EtxRegion] @ held k \<and>
        held (etx_driver_exit k') = EtxThread # held k \<and> faults (etx_driver_exit k') = faults k"
  using assms
  by (simp_all add: etx_driver_init_def etx_driver_exit_def Let_def ledger_simps)

end
