(* ===== verification/Silly.thy ===== *)
theory Silly
  imports Interfaces
begin

text \<open>
  \<open>src/hardware/lab5_silly.c\<close>: a character device over the ISA memory between 640 KB and 1 MB.
  The minor number selects the width of the accesses. The memory is a list of bytes, little
  endian as on every machine with an ISA range; a buffer from \<open>kmalloc\<close> has any content.
\<close>

unbundle bit_operations_syntax

section \<open>Little-endian accesses\<close>

fun le_val :: "byte list \<Rightarrow> nat" where
  "le_val [] = 0"
| "le_val (b # bs) = unat b + 256 * le_val bs"

fun le_bytes :: "nat \<Rightarrow> nat \<Rightarrow> byte list" where
  "le_bytes 0 v = []"
| "le_bytes (Suc n) v = of_nat (v mod 256) # le_bytes n (v div 256)"

lemma unat_byte_less: "unat (b :: byte) < 256"
  using unsigned_less [of b, where ?'a = nat] by simp

lemma le_bytes_val [simp]: "le_bytes (length bs) (le_val bs) = bs"
  by (induction bs) (simp_all add: unat_byte_less)

lemma of_nat_le_val: "bs \<noteq> [] \<Longrightarrow> (of_nat (le_val bs) :: byte) = hd bs"
proof (cases bs)
  case (Cons b cs)
  have z: "(256 :: byte) = 0" by simp
  have "(of_nat (256 * le_val cs) :: byte) = 0"
    by (simp only: of_nat_mult of_nat_numeral z mult_zero_left)
  then show ?thesis by (simp add: Cons del: of_nat_mult)
qed simp

section \<open>State\<close>

abbreviation (input) ISA_BASE :: "64 word" where "ISA_BASE \<equiv> 0xA0000"
abbreviation (input) ISA_MAX :: "64 word" where "ISA_MAX \<equiv> 0x100000"

text \<open>\<open>buffers\<close> counts the buffers that are allocated.\<close>

(* src: hardware/lab5_silly.c:35-54 silly_major, ISA_BASE, ISA_MAX, io_base *)
record silly =
  silly_major :: int
  io_base :: "byte list kptr"
  buffers :: nat

text \<open>The loops, \<open>w\<close> bytes at a time.\<close>

(* src: hardware/lab5_silly.c:109-134 silly_read (ioread loops) *)
fun ioread_loop :: "nat \<Rightarrow> byte list \<Rightarrow> nat \<Rightarrow> nat \<Rightarrow> byte list \<Rightarrow> nat \<Rightarrow> byte list" where
  "ioread_loop w io add n kbuf ptr =
     (if w = 0 \<or> n < w then kbuf
      else ioread_loop w io (add + w) (n - w)
             (put_range ptr (le_bytes w (le_val (get_range add w io))) kbuf) (ptr + w))"

text \<open>All three loops of the write handler use \<open>iowrite8\<close>, which stores the low byte.\<close>

(* src: hardware/lab5_silly.c:206-231 silly_write (iowrite8 loops) *)
fun iowrite_loop :: "nat \<Rightarrow> byte list \<Rightarrow> nat \<Rightarrow> nat \<Rightarrow> byte list \<Rightarrow> nat \<Rightarrow> byte list" where
  "iowrite_loop w kbuf ptr n io add =
     (if w = 0 \<or> n < w then io
      else iowrite_loop w kbuf (ptr + w) (n - w)
             (put_range add [of_nat (le_val (get_range ptr w kbuf))] io) (add + w))"

declare ioread_loop.simps [simp del] iowrite_loop.simps [simp del]

(* src: hardware/lab5_silly.c:103-106 silly_read (downgrade of the mode) *)
definition downgrade :: "nat \<Rightarrow> 64 word \<Rightarrow> size_t \<Rightarrow> nat" where
  "downgrade mode isa_addr n =
     (let mode = (if mode = 2 \<and> (isa_addr OR n) AND 3 \<noteq> 0 then 1 else mode)
      in if mode = 1 \<and> (isa_addr OR n) AND 1 \<noteq> 0 then 0 else mode)"

(* src: hardware/lab5_silly.c:75-79 silly_read (range check) *)
definition silly_clamp :: "loff_t \<Rightarrow> size_t \<Rightarrow> size_t" where
  "silly_clamp f_pos n =
     (let isa_addr = ISA_BASE + f_pos
      in if ISA_MAX < isa_addr + n then ISA_MAX - isa_addr else n)"

text \<open>The memory an access of \<open>n\<close> bytes at offset \<open>add\<close> needs.\<close>

definition io_access :: "byte list kptr \<Rightarrow> nat \<Rightarrow> nat \<Rightarrow> byte list kresult" where
  "io_access p add n =
     (case p of
        NULL \<Rightarrow> if n = 0 then Inr [] else Inl NullDeref
      | ERR_PTR _ \<Rightarrow> Inl BadPointer
      | Ptr io \<Rightarrow> if add + n \<le> length io then Inr io else Inl OutOfBounds)"

section \<open>Handlers\<close>

text \<open>
  \<open>kmalloc\<close> answers each size with a buffer or nothing. The result is the return value, what the
  user's buffer received, and the new position and state.
\<close>

(* src: hardware/lab5_silly.c:70-148 silly_read *)
definition silly_read ::
    "(size_t \<Rightarrow> byte list option) \<Rightarrow> nat \<Rightarrow> size_t \<Rightarrow> loff_t \<Rightarrow> size_t \<Rightarrow> silly \<Rightarrow>
     (int \<times> byte list \<times> loff_t \<times> silly) kresult" where
  "silly_read kmalloc minor n f_pos uleft s =
     (let isa_addr = ISA_BASE + f_pos;
          n = silly_clamp f_pos n
      in case kmalloc n of
        None \<Rightarrow> Inr (- ENOMEM, [], f_pos, s)
      | Some kbuf \<Rightarrow>
          let s1 = s\<lparr>buffers := buffers s + 1\<rparr>;
              retval = (ucast n :: c_int);
              add = unat (isa_addr - ISA_BASE);
              mode = downgrade minor isa_addr n
          in if 3 < mode then Inr (- EINVAL, [], f_pos, s1)
             else case io_access (io_base s1) add (unat n) of
               Inl f \<Rightarrow> Inl f
             | Inr io \<Rightarrow>
                 let kbuf = (if mode = 3 then put_range 0 (get_range add (unat n) io) kbuf
                             else ioread_loop (2 ^ mode) io add (unat n) kbuf 0);
                     m = (scast retval :: size_t);
                     out = (if 0 < sint retval then copied_out m uleft kbuf else []);
                     retval = (if 0 < sint retval \<and> uleft \<noteq> 0 then - 14 else retval)
                 in Inr (sint retval, out, f_pos + scast retval, s1\<lparr>buffers := buffers s1 - 1\<rparr>))"

(* src: hardware/lab5_silly.c:151-243 silly_write *)
definition silly_write ::
    "bool \<Rightarrow> (size_t \<Rightarrow> byte list option) \<Rightarrow> nat \<Rightarrow> byte list \<Rightarrow> size_t \<Rightarrow> loff_t \<Rightarrow> size_t \<Rightarrow> silly \<Rightarrow>
     (int \<times> loff_t \<times> silly) kresult" where
  "silly_write capable kmalloc minor ubuf n f_pos uleft s =
     (let isa_addr = ISA_BASE + f_pos
      in if \<not> capable then Inr (- EPERM, f_pos, s)
      else
        let n = silly_clamp f_pos n
        in case kmalloc n of
          None \<Rightarrow> Inr (- ENOMEM, f_pos, s)
        | Some _ \<Rightarrow>
            let s1 = s\<lparr>buffers := buffers s + 1\<rparr>;
                retval = (ucast n :: c_int);
                mode = downgrade minor isa_addr n
            in if uleft \<noteq> 0 then Inr (- EFAULT, f_pos, s1\<lparr>buffers := buffers s1 - 1\<rparr>)
               else
                 let kbuf = copied_in n 0 (take (unat n) ubuf);
                     add = unat (isa_addr - ISA_BASE)
                 in if 3 < mode then Inr (- EINVAL, f_pos, s1)
                    else case io_access (io_base s1) add (unat n) of
                      Inl f \<Rightarrow> Inl f
                    | Inr io \<Rightarrow>
                        let io = (if mode = 3 then put_range add kbuf io
                                  else iowrite_loop (2 ^ mode) kbuf 0 (unat n) io add);
                            p = (case io_base s1 of Ptr _ \<Rightarrow> Ptr io | p \<Rightarrow> p)
                        in Inr (sint retval, f_pos + scast retval,
                                s1\<lparr>io_base := p, buffers := buffers s1 - 1\<rparr>))"

(* src: hardware/lab5_silly.c:246-249 silly_poll *)
definition silly_poll :: "silly \<Rightarrow> c_uint" where
  "silly_poll s = 0x145"

text \<open>\<open>ioremap\<close> reports failure with null, which is not checked.\<close>

(* src: hardware/lab5_silly.c:261-277 silly_init *)
definition silly_init :: "int \<Rightarrow> byte list kptr \<Rightarrow> silly \<Rightarrow> int \<times> silly" where
  "silly_init result remapped s =
     (if result < 0 then (result, s)
      else
        let s = (if silly_major s = 0 then s\<lparr>silly_major := result\<rparr> else s)
        in (0, s\<lparr>io_base := remapped\<rparr>))"

(* src: hardware/lab5_silly.c:279-283 silly_cleanup *)
definition silly_cleanup :: "silly \<Rightarrow> silly" where
  "silly_cleanup s = s\<lparr>io_base := NULL\<rparr>"

section \<open>The loops\<close>

lemma ioread_loop_correct:
  assumes "0 < w" and "w dvd n" and "add + n \<le> length io" and "ptr + n \<le> length kbuf"
  shows "ioread_loop w io add n kbuf ptr = put_range ptr (get_range add n io) kbuf"
  using assms(2-)
proof (induction n arbitrary: add kbuf ptr rule: less_induct)
  case (less n)
  show ?case
  proof (cases "n < w")
    case True
    with less.prems assms(1) have "n = 0" by (metis dvd_imp_le not_gr0 not_less)
    with assms(1) show ?thesis by (simp add: ioread_loop.simps [of _ _ _ 0])
  next
    case False
    let ?b = "get_range add w io"
    have lb: "length ?b = w" using False less.prems by simp
    then have le: "le_bytes w (le_val ?b) = ?b" using le_bytes_val [of ?b] by simp
    have "ioread_loop w io add n kbuf ptr =
        ioread_loop w io (add + w) (n - w) (put_range ptr ?b kbuf) (ptr + w)"
      using False assms(1) by (subst ioread_loop.simps) (simp add: le)
    also have "\<dots> = put_range (ptr + w) (get_range (add + w) (n - w) io) (put_range ptr ?b kbuf)"
      using less.prems False assms(1) lb by (intro less.IH) (auto simp: dvd_minus_self)
    also have "\<dots> = put_range ptr (?b @ get_range (add + w) (n - w) io) kbuf"
      using lb less.prems False put_put_append [of ptr ?b "get_range (add + w) (n - w) io" kbuf] by simp
    also have "?b @ get_range (add + w) (n - w) io = get_range add n io"
      using False by (simp add: get_range_split)
    finally show ?thesis .
  qed
qed

lemma length_iowrite_loop:
  "add + n \<le> length io \<Longrightarrow> length (iowrite_loop w kbuf ptr n io add) = length io"
proof (induction n arbitrary: add io ptr rule: less_induct)
  case (less n)
  then show ?case
    by (subst iowrite_loop.simps) (auto intro!: less.IH)
qed

text \<open>The loop stores the first byte of every group of \<open>w\<close> and leaves the others alone.\<close>

lemma iowrite_loop_nth:
  assumes "0 < w" and "w dvd n" and "add + n \<le> length io" and "ptr + n \<le> length kbuf"
    and "j < length io"
  shows "iowrite_loop w kbuf ptr n io add ! j =
    (if add \<le> j \<and> j < add + n \<and> (j - add) mod w = 0 then kbuf ! (ptr + (j - add)) else io ! j)"
  using assms(2-)
proof (induction n arbitrary: add io ptr rule: less_induct)
  case (less n)
  show ?case
  proof (cases "n < w")
    case True
    with less.prems assms(1) have "n = 0" by (metis dvd_imp_le not_gr0 not_less)
    with assms(1) show ?thesis by (auto simp: iowrite_loop.simps [of _ _ _ 0])
  next
    case False
    let ?b = "of_nat (le_val (get_range ptr w kbuf)) :: byte"
    have lb: "length (get_range ptr w kbuf) = w" using False less.prems by simp
    then have "get_range ptr w kbuf \<noteq> []" using assms(1) by auto
    then have b: "?b = kbuf ! ptr"
      using assms(1) less.prems(3) False
      by (subst of_nat_le_val) (auto simp: get_range_def hd_conv_nth)
    have "iowrite_loop w kbuf ptr n io add ! j =
        iowrite_loop w kbuf (ptr + w) (n - w) (put_range add [?b] io) (add + w) ! j"
      using False assms(1) by (subst iowrite_loop.simps) simp
    also have "\<dots> = (if add + w \<le> j \<and> j < add + n \<and> (j - (add + w)) mod w = 0
        then kbuf ! (ptr + w + (j - (add + w))) else put_range add [?b] io ! j)"
      using less.prems False assms(1) by (subst less.IH) (auto simp: dvd_minus_self)
    also have "put_range add [?b] io ! j = (if j = add then kbuf ! ptr else io ! j)"
      using less.prems False assms(1) b by (subst nth_put_range) auto
    finally have eq: "iowrite_loop w kbuf ptr n io add ! j =
      (if add + w \<le> j \<and> j < add + n \<and> (j - (add + w)) mod w = 0
        then kbuf ! (ptr + w + (j - (add + w))) else if j = add then kbuf ! ptr else io ! j)" .
    have "add + w \<le> j \<Longrightarrow> (j - add) mod w = (j - (add + w)) mod w"
      by (subst le_mod_geq) simp_all
    moreover have "add < j \<Longrightarrow> j < add + w \<Longrightarrow> (j - add) mod w \<noteq> 0" by simp
    ultimately show ?thesis
      unfolding eq using False assms(1) less.prems(1)
      by (cases "add + w \<le> j"; cases "j = add"; cases "add < j") simp_all
  qed
qed

lemma iowrite_loop_bytes:
  assumes "add + length kbuf \<le> length io"
  shows "iowrite_loop 1 kbuf 0 (length kbuf) io add = put_range add kbuf io"
  using assms
  by (intro nth_equalityI)
    (auto simp: length_iowrite_loop iowrite_loop_nth nth_put_range)

section \<open>The range check and the mode\<close>

text \<open>What the kernel documents about \<open>kmalloc\<close>: a buffer has the size asked for, and sizes over 4 MB are refused.\<close>

definition kmalloc_ok :: "(size_t \<Rightarrow> byte list option) \<Rightarrow> bool" where
  "kmalloc_ok km \<longleftrightarrow> (\<forall>n kbuf. km n = Some kbuf \<longrightarrow> length kbuf = unat n \<and> unat n \<le> 4194304)"

lemma isa_addr_sum:
  assumes "unat (f :: loff_t) < 2 ^ 63"
  shows "unat (ISA_BASE + f) = 655360 + unat f"
  using assms by (subst unat_add_nowrap) simp_all

lemma clamp_beyond:
  assumes "vfs_rw_ok n f" and "393216 < unat f"
  shows "4194304 < unat (silly_clamp f n)"
proof -
  have f: "unat f < 2 ^ 63" and n: "unat n \<le> MAX_RW_COUNT"
    using assms(1) sint_nonneg_64 [of f] by (auto simp: vfs_rw_ok_def)
  note a = isa_addr_sum [OF f]
  have s: "unat (ISA_BASE + f + n) = 655360 + unat f + unat n"
    using f n a by (subst unat_add_nowrap) simp_all
  have "ISA_MAX < ISA_BASE + f + n"
    unfolding word_less_nat_alt s using assms(2) by simp
  then have "unat (silly_clamp f n) = unat (ISA_MAX - (ISA_BASE + f))"
    by (simp add: silly_clamp_def Let_def)
  also have "\<dots> = 2 ^ 64 + unat ISA_MAX - unat (ISA_BASE + f)"
    using assms(2) a by (subst unat_sub_if') (simp add: word_le_nat_alt)
  finally show ?thesis using f a by simp
qed

lemma clamp_inside:
  assumes "vfs_rw_ok n f" and "unat f \<le> 393216"
  shows "unat (silly_clamp f n) = min (unat n) (393216 - unat f)"
proof -
  have n: "unat n \<le> MAX_RW_COUNT" using assms(1) by (simp add: vfs_rw_ok_def)
  have a: "unat (ISA_BASE + f) = 655360 + unat f" using assms(2) by (intro isa_addr_sum) simp
  have s: "unat (ISA_BASE + f + n) = 655360 + unat f + unat n"
    using assms(2) n a by (subst unat_add_nowrap) simp_all
  have "ISA_BASE + f \<le> ISA_MAX" unfolding word_le_nat_alt a using assms(2) by simp
  then have "unat (ISA_MAX - (ISA_BASE + f)) = 393216 - unat f"
    by (simp only: unat_sub a) simp
  moreover have "(ISA_MAX < ISA_BASE + f + n) = (393216 - unat f < unat n)"
    unfolding word_less_nat_alt s using assms(2) by auto
  ultimately show ?thesis by (simp add: silly_clamp_def Let_def)
qed

lemma or_mask_dvd:
  fixes x y :: "64 word"
  assumes "(x OR y) AND mask k = 0"
  shows "2 ^ k dvd unat y"
proof -
  have "take_bit k (x OR y) = 0" using assms by (simp add: take_bit_eq_mask)
  then have "take_bit k y = 0" by (simp add: take_bit_or or_eq_0_iff)
  then have "take_bit k (unat y) = 0" by (simp only: unsigned_take_bit_eq [symmetric] unsigned_0)
  then show ?thesis by (simp only: take_bit_eq_0_iff)
qed

lemma downgrade_width:
  assumes "minor \<le> 3"
  shows "downgrade minor a n \<le> 3" and "downgrade minor a n \<noteq> 3 \<Longrightarrow> 2 ^ downgrade minor a n dvd unat n"
proof -
  have d2: "(a OR n) AND 3 = 0 \<Longrightarrow> 4 dvd unat n"
    using or_mask_dvd [of a n 2] by (simp add: mask_eq_exp_minus_1)
  have d1: "(a OR n) AND 1 = 0 \<Longrightarrow> 2 dvd unat n"
    using or_mask_dvd [of a n 1] by (simp add: mask_eq_exp_minus_1)
  consider "minor = 0" | "minor = 1" | "minor = 2" | "minor = 3" using assms by linarith
  note c = this
  show "downgrade minor a n \<le> 3" using c by cases (simp_all add: downgrade_def Let_def)
  assume "downgrade minor a n \<noteq> 3"
  with c d1 d2 show "2 ^ downgrade minor a n dvd unat n"
    by cases (simp_all add: downgrade_def Let_def)
qed

section \<open>Reading and writing inside the range\<close>

definition isa_holds :: "silly \<Rightarrow> byte list \<Rightarrow> bool" where
  "isa_holds s m \<longleftrightarrow> io_base s = Ptr m \<and> length m = 393216"

text \<open>The number of bytes a transfer of \<open>n\<close> bytes at a position inside the range moves.\<close>

definition isa_moved :: "loff_t \<Rightarrow> size_t \<Rightarrow> nat" where
  "isa_moved f n = min (unat n) (393216 - unat f)"

lemma clamped:
  assumes "vfs_rw_ok n f" and "unat f \<le> 393216"
  shows "unat (silly_clamp f n) = isa_moved f n"
    and "sint (ucast (silly_clamp f n) :: c_int) = int (isa_moved f n)"
    and "(scast (ucast (silly_clamp f n) :: c_int) :: 64 word) = silly_clamp f n"
    and "silly_clamp f n = of_nat (isa_moved f n)"
    and "unat f + isa_moved f n \<le> 393216"
proof -
  show u: "unat (silly_clamp f n) = isa_moved f n"
    using clamp_inside [OF assms] by (simp add: isa_moved_def)
  have l: "unat (silly_clamp f n) < 2 ^ 31" by (simp add: u isa_moved_def)
  show "sint (ucast (silly_clamp f n) :: c_int) = int (isa_moved f n)"
    using sint_ucast_small [OF l] by (simp only: u)
  show "(scast (ucast (silly_clamp f n) :: c_int) :: 64 word) = silly_clamp f n"
    by (rule scast_ucast_small [OF l])
  show "silly_clamp f n = of_nat (isa_moved f n)"
    by (metis u of_nat_unat ucast_id)
  show "unat f + isa_moved f n \<le> 393216" using assms(2) by (simp add: isa_moved_def)
qed

lemma silly_read_data:
  assumes "isa_holds s m" and "minor \<le> 3" and "vfs_rw_ok n f" and "unat f \<le> 393216"
    and "kmalloc_ok km" and "km (silly_clamp f n) = Some kbuf"
  shows "silly_read km minor n f uleft s =
    (if uleft \<noteq> 0 \<and> 0 < isa_moved f n
     then Inr (- EFAULT, copied_out (silly_clamp f n) uleft (get_range (unat f) (isa_moved f n) m), f - 14, s)
     else Inr (int (isa_moved f n), get_range (unat f) (isa_moved f n) m, f + of_nat (isa_moved f n), s))"
proof -
  let ?n = "silly_clamp f n" and ?k = "isa_moved f n"
  let ?mode = "downgrade minor (ISA_BASE + f) ?n"
  note c = clamped [OF assms(3,4)] and d = downgrade_width [OF assms(2), of "ISA_BASE + f" ?n]
  have len: "length kbuf = ?k" using assms(5,6) c(1) by (auto simp: kmalloc_ok_def)
  have whole: "put_range 0 bs kbuf = bs" if "length bs = ?k" for bs
    using that len by (simp add: put_range_def)
  have r: "length (get_range (unat f) ?k m) = ?k"
    using assms(1) c(5) by (simp add: isa_holds_def)
  have loop: "(if ?mode = 3 then put_range 0 (get_range (unat f) ?k m) kbuf
      else ioread_loop (2 ^ ?mode) m (unat f) ?k kbuf 0) = get_range (unat f) ?k m"
    using d(2) c(1,5) len r assms(1) whole
    by (auto simp: ioread_loop_correct isa_holds_def)
  have acc: "io_access (io_base s) (unat f) ?k = Inr m"
    using assms(1) c(5) by (simp add: io_access_def isa_holds_def)
  have all: "copied_out ?n 0 (get_range (unat f) ?k m) = get_range (unat f) ?k m"
    by (rule copied_out_all) (simp add: r c(1))
  have z: "?k = 0 \<Longrightarrow> ?n = 0 \<and> km 0 = Some kbuf" using c(4) assms(6) by simp
  show ?thesis
    using d(1) acc loop all z
    by (cases "0 < ?k"; cases "uleft = 0")
      (simp_all add: silly_read_def Let_def assms(6) c(1,2,3) c(4) [symmetric] linorder_not_less [symmetric]
        split: if_splits)
qed

text \<open>Which bytes a write in a mode stores.\<close>

definition stored_in :: "nat \<Rightarrow> nat \<Rightarrow> bool" where
  "stored_in mode i \<longleftrightarrow> mode = 3 \<or> i mod 2 ^ mode = 0"

lemma silly_write_data:
  assumes "isa_holds s m" and "minor \<le> 3" and "vfs_rw_ok n f" and "unat f \<le> 393216"
    and "km (silly_clamp f n) = Some kbuf" and "unat n \<le> length ubuf"
  shows "\<exists>m'. silly_write True km minor ubuf n f 0 s =
      Inr (int (isa_moved f n), f + of_nat (isa_moved f n), s\<lparr>io_base := Ptr m'\<rparr>) \<and>
    length m' = 393216 \<and>
    (\<forall>j < 393216. m' ! j =
      (if unat f \<le> j \<and> j < unat f + isa_moved f n \<and>
          stored_in (downgrade minor (ISA_BASE + f) (silly_clamp f n)) (j - unat f)
       then ubuf ! (j - unat f) else m ! j))"
proof -
  let ?n = "silly_clamp f n" and ?k = "isa_moved f n"
  let ?mode = "downgrade minor (ISA_BASE + f) ?n"
  note c = clamped [OF assms(3,4)] and d = downgrade_width [OF assms(2), of "ISA_BASE + f" ?n]
  have k: "?k \<le> length ubuf" using assms(6) by (simp add: isa_moved_def)
  have kb: "copied_in ?n 0 (take ?k ubuf) = take ?k ubuf"
    by (rule copied_in_all) (simp add: c(1) k)
  have m: "length m = 393216" using assms(1) by (simp add: isa_holds_def)
  let ?m = "if ?mode = 3 then put_range (unat f) (take ?k ubuf) m
     else iowrite_loop (2 ^ ?mode) (take ?k ubuf) 0 ?k m (unat f)"
  have acc: "io_access (io_base s) (unat f) ?k = Inr m"
    using assms(1) c(5) by (simp add: io_access_def isa_holds_def)
  have "silly_write True km minor ubuf n f 0 s = Inr (int ?k, f + of_nat ?k, s\<lparr>io_base := Ptr ?m\<rparr>)"
    using d(1) acc kb assms(1)
    by (simp add: silly_write_def Let_def assms(5) c(1,2,3) c(4) [symmetric] linorder_not_less [symmetric]
        isa_holds_def)
  moreover have "length ?m = 393216"
    using c(5) m k by (simp add: length_iowrite_loop)
  moreover have "?m ! j = (if unat f \<le> j \<and> j < unat f + ?k \<and> stored_in ?mode (j - unat f)
      then ubuf ! (j - unat f) else m ! j)" if "j < 393216" for j
  proof (cases "?mode = 3")
    case True
    with that c(5) m k show ?thesis by (auto simp: nth_put_range stored_in_def)
  next
    case False
    with d(2) have "2 ^ ?mode dvd ?k" using c(1) by simp
    with False that c(5) m k show ?thesis
      by (auto simp: iowrite_loop_nth stored_in_def)
  qed
  ultimately show ?thesis by blast
qed

section \<open>The byte-wise minors are a byte store\<close>

definition isa_kmalloc :: "size_t \<Rightarrow> byte list option" where
  "isa_kmalloc n = (if unat n \<le> 4194304 then Some (replicate (unat n) 0) else None)"

lemma isa_kmalloc_ok: "kmalloc_ok isa_kmalloc"
  by (simp add: kmalloc_ok_def isa_kmalloc_def)

lemma silly_read_beyond:
  assumes "vfs_rw_ok n f" and "393216 < unat f" and "kmalloc_ok km"
  shows "silly_read km minor n f uleft s = Inr (- ENOMEM, [], f, s)"
    and "silly_write True km minor ubuf n f uleft s = Inr (- ENOMEM, f, s)"
proof -
  have "km (silly_clamp f n) = None"
    using clamp_beyond [OF assms(1,2)] assms(3) by (metis kmalloc_ok_def not_le option.exhaust)
  then show "silly_read km minor n f uleft s = Inr (- ENOMEM, [], f, s)"
    and "silly_write True km minor ubuf n f uleft s = Inr (- ENOMEM, f, s)"
    by (simp_all add: silly_read_def silly_write_def Let_def)
qed

definition silly_pread :: "nat \<Rightarrow> size_t \<Rightarrow> loff_t \<Rightarrow> size_t \<Rightarrow> silly \<Rightarrow> (int \<times> byte list \<times> loff_t) kresult" where
  "silly_pread minor n f uleft s =
     map_sum id (\<lambda>(r, out, f', _). (r, out, f')) (silly_read isa_kmalloc minor n f uleft s)"

definition silly_pwrite ::
    "nat \<Rightarrow> byte list \<Rightarrow> size_t \<Rightarrow> loff_t \<Rightarrow> size_t \<Rightarrow> silly \<Rightarrow> (int \<times> silly \<times> loff_t) kresult" where
  "silly_pwrite minor ubuf n f uleft s =
     map_sum id (\<lambda>(r, f', s'). (r, s', f')) (silly_write True isa_kmalloc minor ubuf n f uleft s)"

definition isa_ok :: "silly \<Rightarrow> bool" where
  "isa_ok s \<longleftrightarrow> (\<exists>m. isa_holds s m)"

lemma isa_kmalloc_clamp:
  "vfs_rw_ok n f \<Longrightarrow> unat f \<le> 393216 \<Longrightarrow> \<exists>kbuf. isa_kmalloc (silly_clamp f n) = Some kbuf"
  by (simp add: isa_kmalloc_def clamped isa_moved_def)

lemma isa_pread:
  assumes "isa_holds s m" and "minor \<le> 3"
  shows "vfs_pread (silly_pread minor) s p n =
    (if n \<le> MAX_RW_COUNT \<and> (n = 0 \<and> p \<le> 393216 \<or> p + n \<le> 393216) then Some (get_range p n m) else None)"
proof (cases "n \<le> MAX_RW_COUNT \<and> p < 2 ^ 63")
  case True
  note v = vfs_args [OF conjunct1 [OF True] conjunct2 [OF True]]
  show ?thesis
  proof (cases "p \<le> 393216")
    case p: True
    obtain kbuf where kb: "isa_kmalloc (silly_clamp (of_nat p) (of_nat n)) = Some kbuf"
      using isa_kmalloc_clamp [OF v(3)] p v(2) by auto
    have "isa_moved (of_nat p) (of_nat n) = min n (393216 - p)"
      by (simp add: isa_moved_def v(1,2))
    with silly_read_data [OF assms v(3) _ isa_kmalloc_ok kb, of 0] True p v(1,2) show ?thesis
      by (auto simp: vfs_pread_def silly_pread_def min_def)
  next
    case p: False
    with silly_read_beyond(1) [OF v(3) _ isa_kmalloc_ok] True p v(2) show ?thesis
      by (simp add: vfs_pread_def silly_pread_def)
  qed
next
  case False
  then show ?thesis by (auto simp: vfs_pread_def)
qed

lemma isa_pwrite:
  assumes "isa_holds s m" and "minor = 0 \<or> minor = 3"
  shows "vfs_pwrite (silly_pwrite minor) s p bs =
    (if length bs \<le> MAX_RW_COUNT \<and> p + length bs \<le> 393216
     then Some (s\<lparr>io_base := Ptr (put_range p bs m)\<rparr>) else None)"
proof (cases "length bs \<le> MAX_RW_COUNT \<and> p < 2 ^ 63")
  case True
  note v = vfs_args [OF conjunct1 [OF True] conjunct2 [OF True]]
  have m3: "minor \<le> 3" using assms(2) by auto
  have len: "length m = 393216" using assms(1) by (simp add: isa_holds_def)
  show ?thesis
  proof (cases "p \<le> 393216")
    case p: True
    obtain kbuf where kb: "isa_kmalloc (silly_clamp (of_nat p) (of_nat (length bs))) = Some kbuf"
      using isa_kmalloc_clamp [OF v(3)] p v(2) by auto
    have k: "isa_moved (of_nat p) (of_nat (length bs)) = min (length bs) (393216 - p)"
      by (simp add: isa_moved_def v(1,2))
    have all: "stored_in (downgrade minor a n) i" for a n i
      using assms(2) by (auto simp: downgrade_def stored_in_def)
    from silly_write_data [where km = isa_kmalloc, OF assms(1) m3 v(3) _ kb, of bs] v(1,2) p k all obtain m' where
      w: "silly_write True isa_kmalloc minor bs (of_nat (length bs)) (of_nat p) 0 s =
        Inr (int (min (length bs) (393216 - p)), of_nat p + of_nat (min (length bs) (393216 - p)),
          s\<lparr>io_base := Ptr m'\<rparr>)"
      and l': "length m' = 393216"
      and nth: "\<And>j. j < 393216 \<Longrightarrow> m' ! j =
        (if p \<le> j \<and> j < p + min (length bs) (393216 - p) then bs ! (j - p) else m ! j)"
      by auto
    have "p + length bs \<le> 393216 \<Longrightarrow> m' = put_range p bs m"
      using l' len by (intro nth_equalityI) (auto simp: nth nth_put_range)
    with w True p show ?thesis
      by (auto simp: vfs_pwrite_def silly_pwrite_def min_def)
  next
    case p: False
    with silly_read_beyond(2) [OF v(3) _ isa_kmalloc_ok] True p v(2) show ?thesis
      by (simp add: vfs_pwrite_def silly_pwrite_def)
  qed
next
  case False
  then show ?thesis by (auto simp: vfs_pwrite_def)
qed

lemma isa_byte_store:
  assumes "minor = 0 \<or> minor = 3"
  shows "byte_store isa_ok (\<lambda>_. 393216) (vfs_pread (silly_pread minor)) (vfs_pwrite (silly_pwrite minor))"
proof (unfold_locales, goal_cases)
  have m3: "minor \<le> 3" using assms by auto
  note rd = isa_pread [OF _ m3] and wr = isa_pwrite [OF _ assms]
  {
    case (1 s n p)
    then show ?case by (auto simp: isa_ok_def rd split: if_splits)
  next
    case (2 s bs p)
    then show ?case by (auto simp: isa_ok_def wr split: if_splits)
  next
    case (3 s p bs s')
    then show ?case
      by (auto simp: isa_ok_def wr isa_holds_def split: if_splits)
  next
    case (4 s p n bs)
    then show ?case by (auto simp: isa_ok_def rd isa_holds_def split: if_splits)
  next
    case (5 s p bs s')
    then obtain m where m: "isa_holds s m" by (auto simp: isa_ok_def)
    from 5(2) have s': "s' = s\<lparr>io_base := Ptr (put_range p bs m)\<rparr>"
      and fits: "length bs \<le> MAX_RW_COUNT" "p + length bs \<le> 393216"
      by (auto simp: wr [OF m] split: if_splits)
    have "isa_holds s' (put_range p bs m)" using m fits by (simp add: s' isa_holds_def)
    from rd [OF this, of p "length bs"] m fits show ?case
      by (simp add: get_put_same isa_holds_def)
  next
    case (6 s p bs s' q n)
    then obtain m where m: "isa_holds s m" by (auto simp: isa_ok_def)
    from 6(2) have s': "s' = s\<lparr>io_base := Ptr (put_range p bs m)\<rparr>"
      and fits: "p + length bs \<le> 393216"
      by (auto simp: wr [OF m] split: if_splits)
    have m': "isa_holds s' (put_range p bs m)" using m fits by (simp add: s' isa_holds_def)
    have "get_range q n (put_range p bs m) = get_range q n m"
      using 6(3) m fits by (intro get_put_apart) (simp_all add: isa_holds_def)
    then show ?case by (simp add: rd [OF m] rd [OF m'])
  }
qed

interpretation isa_ioread8: byte_store isa_ok "\<lambda>_. 393216" "vfs_pread (silly_pread 0)" "vfs_pwrite (silly_pwrite 0)"
  by (rule isa_byte_store) simp

interpretation isa_memcpy: byte_store isa_ok "\<lambda>_. 393216" "vfs_pread (silly_pread 3)" "vfs_pwrite (silly_pwrite 3)"
  by (rule isa_byte_store) simp

section \<open>What the handlers guarantee\<close>

definition sample_isa :: silly where
  "sample_isa = \<lparr>silly_major = 240, io_base = Ptr (replicate 393216 7), buffers = 0\<rparr>"

lemma sample_isa_holds: "isa_holds sample_isa (replicate 393216 7)"
  by (simp add: isa_holds_def sample_isa_def)

lemma silly_read_correct_parts:
  assumes "isa_holds s m" and "minor \<le> 3" and "vfs_rw_ok n f" and "kmalloc_ok km"
  shows "unat f \<le> 393216 \<Longrightarrow> km (silly_clamp f n) = Some kbuf \<Longrightarrow>
      silly_read km minor n f 0 s =
        Inr (int (min (unat n) (393216 - unat f)), get_range (unat f) (min (unat n) (393216 - unat f)) m,
             f + of_nat (min (unat n) (393216 - unat f)), s)"
    and "unat f < 393216 \<Longrightarrow> 0 < n \<Longrightarrow> km (silly_clamp f n) = Some kbuf \<Longrightarrow> uleft \<noteq> 0 \<Longrightarrow>
      \<exists>out. silly_read km minor n f uleft s = Inr (- EFAULT, out, f - 14, s)"
    and "393216 < unat f \<Longrightarrow> silly_read km minor n f uleft s = Inr (- ENOMEM, [], f, s)"
proof -
  show "unat f \<le> 393216 \<Longrightarrow> km (silly_clamp f n) = Some kbuf \<Longrightarrow>
      silly_read km minor n f 0 s =
        Inr (int (min (unat n) (393216 - unat f)), get_range (unat f) (min (unat n) (393216 - unat f)) m,
             f + of_nat (min (unat n) (393216 - unat f)), s)"
    using silly_read_data [OF assms(1-3) _ assms(4), of kbuf 0] by (simp add: isa_moved_def)
  have pos: "0 < n \<Longrightarrow> 0 < unat n" by (simp add: word_less_nat_alt)
  show "unat f < 393216 \<Longrightarrow> 0 < n \<Longrightarrow> km (silly_clamp f n) = Some kbuf \<Longrightarrow> uleft \<noteq> 0 \<Longrightarrow>
      \<exists>out. silly_read km minor n f uleft s = Inr (- EFAULT, out, f - 14, s)"
    using silly_read_data [OF assms(1-3) _ assms(4), of kbuf uleft] pos by (simp add: isa_moved_def)
  show "393216 < unat f \<Longrightarrow> silly_read km minor n f uleft s = Inr (- ENOMEM, [], f, s)"
    by (rule silly_read_beyond(1) [OF assms(3) _ assms(4)])
qed

text \<open>Every minor number reads the same bytes: whatever width the loop uses, and whatever the buffer
  held before, a read of \<open>n\<close> bytes at a position inside the range returns the bytes of the memory
  there, cut at the end of the range, advances by as many, and frees its buffer. If the user's
  memory cannot be written the read fails with \<open>EFAULT\<close> and moves the position 14 bytes back.
  A position past the end fails with \<open>ENOMEM\<close>, never with an access outside the range.\<close>

theorem silly_read_correct:
  assumes "isa_holds s m" and "minor \<le> 3" and "vfs_rw_ok n f" and "kmalloc_ok km"
  shows "(unat f \<le> 393216 \<longrightarrow> km (silly_clamp f n) = Some kbuf \<longrightarrow>
      silly_read km minor n f 0 s =
        Inr (int (min (unat n) (393216 - unat f)), get_range (unat f) (min (unat n) (393216 - unat f)) m,
             f + of_nat (min (unat n) (393216 - unat f)), s)) \<and>
    (unat f < 393216 \<longrightarrow> 0 < n \<longrightarrow> km (silly_clamp f n) = Some kbuf \<longrightarrow> uleft \<noteq> 0 \<longrightarrow> (\<exists>out. silly_read km minor n f uleft s = Inr (- EFAULT, out, f - 14, s)) ) \<and>
    (393216 < unat f \<longrightarrow> silly_read km minor n f uleft s = Inr (- ENOMEM, [], f, s))"
proof -
  have c1: "unat f \<le> 393216 \<longrightarrow> km (silly_clamp f n) = Some kbuf \<longrightarrow>
      silly_read km minor n f 0 s =
        Inr (int (min (unat n) (393216 - unat f)), get_range (unat f) (min (unat n) (393216 - unat f)) m,
             f + of_nat (min (unat n) (393216 - unat f)), s)"
    by (intro impI) (rule silly_read_correct_parts(1) [OF assms]; assumption)
  have c2: "unat f < 393216 \<longrightarrow> 0 < n \<longrightarrow> km (silly_clamp f n) = Some kbuf \<longrightarrow> uleft \<noteq> 0 \<longrightarrow> (\<exists>out. silly_read km minor n f uleft s = Inr (- EFAULT, out, f - 14, s)) "
    by (intro impI) (rule silly_read_correct_parts(2) [OF assms]; assumption)
  have c3: "393216 < unat f \<longrightarrow> silly_read km minor n f uleft s = Inr (- ENOMEM, [], f, s)"
    by (intro impI) (rule silly_read_correct_parts(3) [OF assms]; assumption)
  show ?thesis by (rule conjI [OF c1 conjI [OF c2 c3]])
qed

theorem silly_read_correct_witness:
  "silly_read isa_kmalloc 2 8 393212 0 sample_isa = Inr (4, replicate 4 7, 393216, sample_isa)"
proof -
  have v: "vfs_rw_ok 8 393212" by (simp add: vfs_rw_ok_def)
  obtain kbuf where "isa_kmalloc (silly_clamp 393212 8) = Some kbuf"
    using isa_kmalloc_clamp [OF v] by auto
  from silly_read_correct [OF sample_isa_holds _ v isa_kmalloc_ok, THEN conjunct1, THEN mp, THEN mp, OF _ _ this, of 2]
  show ?thesis by (simp add: get_range_def)
qed

text \<open>Through the minors 0 and 3 (bytes and \<open>memcpy\<close>) the range is a byte store: what a write stored
  is read back there, through that minor, after any later writes that do not overlap it.\<close>

theorem silly_write_sticks:
  assumes "isa_holds s m" and "minor = 0 \<or> minor = 3" and "bs \<noteq> []"
    and "vfs_pwrite (silly_pwrite minor) s p bs = Some t"
    and "writes (vfs_pwrite (silly_pwrite minor)) t ws = Some s'"
    and "\<forall>(q, cs) \<in> set ws. apart q (length cs) p (length bs)"
  shows "vfs_pread (silly_pread minor) s' p (length bs) = Some bs"
  using assms isa_ioread8.write_sticks [of s p bs t ws s'] isa_memcpy.write_sticks [of s p bs t ws s']
  by (auto simp: isa_ok_def)

theorem silly_write_sticks_witness:
  "\<exists>t. vfs_pwrite (silly_pwrite 3) sample_isa 5 [1, 2] = Some t \<and> vfs_pread (silly_pread 3) t 5 2 = Some [1, 2]"
proof -
  obtain t where t: "vfs_pwrite (silly_pwrite 3) sample_isa 5 [1, 2] = Some t"
    using isa_pwrite [OF sample_isa_holds, of 3 5 "[1, 2]"] by auto
  from silly_write_sticks [OF sample_isa_holds _ _ t, of "[]" t] t show ?thesis by (simp add: numeral_2_eq_2)
qed

lemma and_mask_zero:
  fixes x y :: "64 word"
  assumes "2 ^ k dvd unat x" and "2 ^ k dvd unat y"
  shows "(x OR y) AND mask k = 0"
proof -
  have "take_bit k z = 0" if "2 ^ k dvd unat z" for z :: "64 word"
  proof -
    have "unat (take_bit k z) = take_bit k (unat z)" by (rule unsigned_take_bit_eq)
    also have "\<dots> = 0" using that by (simp only: take_bit_eq_0_iff)
    finally show ?thesis by (simp only: unsigned_eq_0_iff)
  qed
  with assms show ?thesis by (simp add: take_bit_or flip: take_bit_eq_mask)
qed

lemma downgrade_aligned:
  assumes "4 dvd unat f" and "unat f \<le> 393216" and "4 dvd unat n"
  shows "downgrade 2 (ISA_BASE + f) n = 2"
proof -
  have "unat (ISA_BASE + f) = 655360 + unat f" using assms(2) by (intro isa_addr_sum) simp
  also have "4 dvd \<dots>" using assms(1) by presburger
  finally have "((ISA_BASE + f) OR n) AND mask 2 = 0" using assms(3) by (intro and_mask_zero) simp_all
  then show ?thesis by (simp add: downgrade_def Let_def mask_eq_exp_minus_1)
qed

text \<open>The 32-bit minor does not write what it reports: an aligned write returns the full count, but
  stores only every fourth byte, because the loop uses \<open>iowrite8\<close> for words too. The other bytes
  of the range keep their value.\<close>

theorem silly_wide_write_drops:
  assumes "isa_holds s m" and "vfs_rw_ok n f" and "unat f + unat n \<le> 393216"
    and "4 dvd unat f" and "4 dvd unat n"
    and "km n = Some kbuf" and "length ubuf = unat n"
  shows "\<exists>m'. silly_write True km 2 ubuf n f 0 s = Inr (int (unat n), f + n, s\<lparr>io_base := Ptr m'\<rparr>) \<and>
    (\<forall>i < unat n. m' ! (unat f + i) = (if i mod 4 = 0 then ubuf ! i else m ! (unat f + i)))"
proof -
  have f: "unat f \<le> 393216" using assms(3) by simp
  have k: "isa_moved f n = unat n" using assms(3) by (simp add: isa_moved_def)
  have c: "silly_clamp f n = n" using clamped(4) [OF assms(2) f] by (simp add: k)
  note d = downgrade_aligned [OF assms(4) f assms(5)]
  from silly_write_data [where km = km, OF assms(1) _ assms(2) f, of 2 kbuf ubuf] assms(3,6,7)
  show ?thesis by (fastforce simp: k c d stored_in_def)
qed

theorem silly_wide_write_drops_witness:
  "\<exists>m'. silly_write True isa_kmalloc 2 [1, 2, 3, 4] 4 0 0 sample_isa =
      Inr (4, 4, sample_isa\<lparr>io_base := Ptr m'\<rparr>) \<and> m' ! 0 = 1 \<and> m' ! 1 = 7"
proof -
  have v: "vfs_rw_ok 4 0" by (simp add: vfs_rw_ok_def)
  have k: "isa_kmalloc 4 = Some (replicate 4 0)" by (simp add: isa_kmalloc_def)
  from silly_wide_write_drops [where km = isa_kmalloc, OF sample_isa_holds v _ _ _ k, of "[1, 2, 3, 4]"] obtain m' where
    "silly_write True isa_kmalloc 2 [1, 2, 3, 4] 4 0 0 sample_isa = Inr (4, 4, sample_isa\<lparr>io_base := Ptr m'\<rparr>)"
    and m': "\<forall>i < 4. m' ! i = (if i mod 4 = 0 then [1, 2, 3, 4] ! i else replicate 393216 7 ! i)"
    by auto
  moreover from m' have "m' ! 0 = 1 \<and> m' ! 1 = 7" by simp
  ultimately show ?thesis by blast
qed

end
