(* ===== verification/Lab_Char.thy ===== *)
theory Lab_Char
  imports Interfaces
begin

text \<open>
  The generic character driver of \<open>src/ioctl/lab_char.h\<close>, a RAM disk of 16 pages. The labs of
  \<open>ioctl\<close>, \<open>io\<close>, \<open>dma\<close>, \<open>interrupts\<close>, \<open>memory\<close> and \<open>timers\<close> include this header (six copies
  of it, which differ in their description string only) and install its handlers, directly or
  wrapped in a wait.
\<close>

section \<open>State and handlers\<close>

abbreviation (input) ramdisk_size :: size_t where "ramdisk_size \<equiv> 65536"

(* src: ioctl/lab_char.h:23-32 ramdisk, ramdisk_size, first, my_cdev, foo_class *)
record labdev =
  ramdisk :: "byte list kptr"
  open_counter :: nat

(* src: ioctl/lab_char.h:36-49 mycdrv_generic_open *)
definition mycdrv_generic_open :: "labdev \<Rightarrow> int \<times> labdev" where
  "mycdrv_generic_open d = (0, d\<lparr>open_counter := open_counter d + 1\<rparr>)"

(* src: ioctl/lab_char.h:51-55 mycdrv_generic_release *)
definition mycdrv_generic_release :: "labdev \<Rightarrow> int \<times> labdev" where
  "mycdrv_generic_release d = (0, d)"

text \<open>
  The count both handlers work with: the rest of the disk is cut to an \<open>int\<close>, and the
  comparison with the \<open>size_t\<close> turns it back into an unsigned number.
\<close>

(* src: ioctl/lab_char.h:61-65 maxbytes, bytes_to_do *)
definition bytes_to_do :: "size_t \<Rightarrow> loff_t \<Rightarrow> c_int" where
  "bytes_to_do lbuf ppos =
     (let maxbytes = (ucast (ramdisk_size - ppos) :: c_int)
      in if lbuf < (scast maxbytes :: size_t) then ucast lbuf else maxbytes)"

(* src: ioctl/lab_char.h:57-72 mycdrv_generic_read *)
definition mycdrv_generic_read ::
    "size_t \<Rightarrow> loff_t \<Rightarrow> size_t \<Rightarrow> labdev \<Rightarrow> (int \<times> byte list \<times> loff_t) kresult" where
  "mycdrv_generic_read lbuf ppos uleft d =
     (let n = (scast (bytes_to_do lbuf ppos) :: size_t)
      in case (if n = 0 then Inr [] else kmem_load (ramdisk d) ppos n) of
        Inl f \<Rightarrow> Inl f
      | Inr src \<Rightarrow>
          let nbytes = (ucast (n - uleft) :: c_int)
          in Inr (sint nbytes, copied_out n uleft src, ppos + scast nbytes))"

(* src: ioctl/lab_char.h:74-89 mycdrv_generic_write *)
definition mycdrv_generic_write ::
    "byte list \<Rightarrow> size_t \<Rightarrow> loff_t \<Rightarrow> size_t \<Rightarrow> labdev \<Rightarrow> (int \<times> labdev \<times> loff_t) kresult" where
  "mycdrv_generic_write ubuf lbuf ppos uleft d =
     (let n = (scast (bytes_to_do lbuf ppos) :: size_t)
      in case (if n = 0 then Inr (ramdisk d)
               else kmem_store (ramdisk d) ppos n (copied_in n uleft (take (unat n) ubuf))) of
        Inl f \<Rightarrow> Inl f
      | Inr p \<Rightarrow>
          let nbytes = (ucast (n - uleft) :: c_int)
          in Inr (sint nbytes, d\<lparr>ramdisk := p\<rparr>, ppos + scast nbytes))"

(* src: ioctl/lab_char.h:91-113 mycdrv_generic_lseek *)
definition mycdrv_generic_lseek :: "loff_t \<Rightarrow> int \<Rightarrow> loff_t \<Rightarrow> int \<times> loff_t" where
  "mycdrv_generic_lseek offset orig f_pos =
     (if orig \<noteq> 0 \<and> orig \<noteq> 1 \<and> orig \<noteq> 2 then (- EINVAL, f_pos)
      else
        let testpos = (if orig = 0 then offset else if orig = 1 then f_pos + offset
                       else ramdisk_size + offset);
            testpos = (if testpos < ramdisk_size then testpos else ramdisk_size);
            testpos = (if 0 \<le> sint testpos then testpos else 0)
        in (sint testpos, testpos))"

section \<open>Loading and unloading\<close>

datatype lab_res = LabChrdev | LabCdev | LabRam | LabClass | LabDevice

record lab_env =
  l_chrdev :: int
  l_cdev :: bool
  l_ram :: "byte list kptr"
  l_add :: int
  l_class :: bool
  l_device :: bool

text \<open>The RAM disk's pointer, the class and the device are used unchecked; freeing null does nothing.\<close>

(* src: ioctl/lab_char.h:115-145 my_generic_init *)
definition my_generic_init :: "lab_env \<Rightarrow> lab_res ledger \<Rightarrow> int \<times> lab_res ledger \<times> labdev" where
  "my_generic_init e k =
     (let none = \<lparr>ramdisk = NULL, open_counter = 0\<rparr>
      in if l_chrdev e < 0 then (-1, k, none)
      else
        let k = acquire LabChrdev k
        in if \<not> l_cdev e then (-1, release LabChrdev k, none)
        else
          let k = acquire LabCdev k;
              d = none\<lparr>ramdisk := l_ram e\<rparr>;
              k = (if nonnull (ramdisk d) then acquire LabRam k else k)
          in if l_add e < 0 then
               let k = release LabCdev k;
                   k = release LabChrdev k
               in (-1, if nonnull (ramdisk d) then release LabRam k else k, d)
             else
               let k = (if l_class e then acquire LabClass k else k);
                   k = (if l_class e \<and> l_device e then acquire LabDevice k else k)
               in (0, k, d))"

(* src: ioctl/lab_char.h:147-157 my_generic_exit *)
definition my_generic_exit :: "lab_env \<Rightarrow> lab_res ledger \<Rightarrow> lab_res ledger" where
  "my_generic_exit e k =
     (let k = (if l_class e \<and> l_device e then release LabDevice k else k);
          k = (if l_class e then release LabClass k else k);
          k = release_all [LabCdev, LabChrdev] k
      in if nonnull (l_ram e) then release LabRam k else k)"

definition lab_owns :: "lab_env \<Rightarrow> lab_res list" where
  "lab_owns e =
     (if l_class e \<and> l_device e then [LabDevice] else []) @ (if l_class e then [LabClass] else []) @
     (if nonnull (l_ram e) then [LabRam] else []) @ [LabCdev, LabChrdev]"

definition lab_load :: "lab_env \<Rightarrow> lab_res ledger \<Rightarrow> int \<times> lab_res ledger" where
  "lab_load e k = (let (r, k', d) = my_generic_init e k in (r, k'))"

interpretation lab_module: module_lifecycle "\<lambda>_. True" lab_load lab_owns my_generic_exit
proof (unfold_locales, goal_cases)
  case (1 e k)
  then show ?case
    by (auto simp: lab_load_def my_generic_init_def lab_owns_def Let_def split: if_splits)
next
  case (2 e k)
  then show ?case
    by (auto simp: lab_load_def my_generic_init_def Let_def ledger_simps split: if_splits)
next
  case (3 e k0 k h)
  then show ?case
    by (auto simp: my_generic_exit_def lab_owns_def Let_def ledger_simps split: if_splits)
qed

text \<open>\<open>lab_miscdev.h\<close> has the same handlers and registers them as a misc device.\<close>

datatype misc_res = MiscRam | MiscDevice

(* src: ioctl/lab_miscdev.h:111-129 my_misc_device, my_generic_init *)
definition my_misc_init :: "byte list kptr \<times> bool \<Rightarrow> misc_res ledger \<Rightarrow> int \<times> misc_res ledger" where
  "my_misc_init e k =
     (let k = (if nonnull (fst e) then acquire MiscRam k else k)
      in if \<not> snd e then (- EBUSY, if nonnull (fst e) then release MiscRam k else k)
         else (0, acquire MiscDevice k))"

(* src: ioctl/lab_miscdev.h:131-136 my_generic_exit *)
definition my_misc_exit :: "byte list kptr \<times> bool \<Rightarrow> misc_res ledger \<Rightarrow> misc_res ledger" where
  "my_misc_exit e k =
     (let k = release MiscDevice k in if nonnull (fst e) then release MiscRam k else k)"

interpretation misc_module: module_lifecycle "\<lambda>_. True" my_misc_init
  "\<lambda>e. MiscDevice # (if nonnull (fst e) then [MiscRam] else [])" my_misc_exit
proof (unfold_locales, goal_cases)
  case (1 e k)
  then show ?case by (auto simp: my_misc_init_def Let_def split: if_splits)
next
  case (2 e k)
  then show ?case by (auto simp: my_misc_init_def Let_def split: if_splits)
next
  case (3 e k0 k h)
  then show ?case by (auto simp: my_misc_exit_def Let_def ledger_simps split: if_splits)
qed

section \<open>The count\<close>

definition lab_moved :: "size_t \<Rightarrow> loff_t \<Rightarrow> nat" where
  "lab_moved lbuf ppos = min (unat lbuf) (65536 - unat ppos)"

lemma bytes_to_do_inside:
  assumes "vfs_rw_ok lbuf ppos" and "unat ppos \<le> 65536"
  shows "(scast (bytes_to_do lbuf ppos) :: size_t) = of_nat (lab_moved lbuf ppos)"
proof -
  let ?x = "ramdisk_size - ppos"
  have x: "unat ?x = 65536 - unat ppos" using assms(2) by (subst unat_sub) (simp_all add: word_le_nat_alt)
  have s: "(scast (ucast ?x :: c_int) :: size_t) = ?x" by (rule scast_ucast_small) (simp add: x)
  have l: "(scast (ucast lbuf :: c_int) :: size_t) = lbuf"
    by (rule scast_ucast_small) (use assms(1) in \<open>simp add: vfs_rw_ok_def\<close>)
  have "(lbuf < ?x) = (unat lbuf < 65536 - unat ppos)" by (simp add: word_less_nat_alt x)
  then have "(scast (bytes_to_do lbuf ppos) :: size_t) = (if unat lbuf < 65536 - unat ppos then lbuf else ?x)"
    by (simp add: bytes_to_do_def Let_def s l)
  also have "unat \<dots> = lab_moved lbuf ppos" by (simp add: lab_moved_def x)
  finally show ?thesis by (metis of_nat_unat ucast_id)
qed

lemma lab_moved_bounds:
  assumes "vfs_rw_ok lbuf ppos" and "unat ppos \<le> 65536"
  shows "unat (of_nat (lab_moved lbuf ppos) :: size_t) = lab_moved lbuf ppos"
    and "vfs_rw_ok (of_nat (lab_moved lbuf ppos)) ppos"
    and "lab_moved lbuf ppos + unat ppos \<le> 65536"
proof -
  have b: "lab_moved lbuf ppos \<le> 65536" by (simp add: lab_moved_def)
  show u: "unat (of_nat (lab_moved lbuf ppos) :: size_t) = lab_moved lbuf ppos"
    using b by (intro unat_of_nat_64) simp
  show "vfs_rw_ok (of_nat (lab_moved lbuf ppos)) ppos"
    using assms(1) b unfolding vfs_rw_ok_def u by simp
  show "lab_moved lbuf ppos + unat ppos \<le> 65536" using assms(2) by (simp add: lab_moved_def)
qed

lemma wrap_mod:
  fixes p :: nat
  assumes "65536 < p" and "p < 2 ^ 32"
  shows "(2 ^ 64 + 65536 - p) mod 2 ^ 32 = 2 ^ 32 + 65536 - p"
proof -
  have eq: "2 ^ 64 + 65536 - p = (2 ^ 32 + 65536 - p) + 4294967295 * 2 ^ 32"
    using assms(2) by simp
  have "2 ^ 32 + 65536 - p < 2 ^ 32" using assms by simp
  then show ?thesis unfolding eq mod_mult_self1 by (rule mod_less)
qed

text \<open>Past the end the count is never 0 for a position below 4 GB, so memory is touched.\<close>

lemma bytes_to_do_beyond:
  assumes "0 < unat lbuf" and "unat lbuf < 2 ^ 31" and "65536 < unat ppos" and "unat ppos < 2 ^ 32"
  shows "(scast (bytes_to_do lbuf ppos) :: size_t) \<noteq> 0"
proof -
  have inj: "(scast (x :: c_int) :: size_t) = 0 \<longleftrightarrow> x = 0" for x
  proof
    assume z: "(scast x :: size_t) = 0"
    have "- (2 ^ 63) \<le> sint x" and "sint x < 2 ^ 63"
      using sint_ge [of x] sint_lt [of x] by simp_all
    then have "signed_take_bit 63 (sint x) = sint x" by (intro signed_take_bit_int_eq_self) simp_all
    moreover have "signed_take_bit 63 (sint x) = sint (scast x :: size_t)"
      by (simp only: scast_eq signed_of_int) simp
    ultimately have "sint x = 0" using z by simp
    then show "x = 0" by (simp only: signed_eq_0_iff)
  qed simp
  have l: "(scast (ucast lbuf :: c_int) :: size_t) = lbuf" by (rule scast_ucast_small [OF assms(2)])
  have "unat (ramdisk_size - ppos) = 2 ^ 64 + 65536 - unat ppos"
    using assms(3) by (subst unat_sub_if') (simp add: word_le_nat_alt)
  then have "unat (ucast (ramdisk_size - ppos) :: c_int) = (2 ^ 64 + 65536 - unat ppos) mod 2 ^ 32"
    by (simp add: unsigned_ucast_eq take_bit_eq_mod)
  also have "\<dots> = 2 ^ 32 + 65536 - unat ppos"
    by (rule wrap_mod [OF assms(3,4)])
  finally have "(ucast (ramdisk_size - ppos) :: c_int) \<noteq> 0"
    using assms(4) by auto
  moreover have "(ucast lbuf :: c_int) \<noteq> 0" using assms(1) inj [of "ucast lbuf"] l by auto
  ultimately show ?thesis
    by (simp add: bytes_to_do_def Let_def l inj)
qed

section \<open>Reading and writing\<close>

definition lab_holds :: "labdev \<Rightarrow> byte list \<Rightarrow> bool" where
  "lab_holds d m \<longleftrightarrow> ramdisk d = Ptr m \<and> length m = 65536"

text \<open>The result of moving \<open>k\<close> bytes of which the user copy left \<open>uleft\<close>.\<close>

lemma lab_result:
  assumes "vfs_rw_ok lbuf ppos" and "unat ppos \<le> 65536" and "unat uleft \<le> lab_moved lbuf ppos"
  defines "n \<equiv> of_nat (lab_moved lbuf ppos) :: size_t"
  shows "sint (ucast (n - uleft) :: c_int) = int (lab_moved lbuf ppos - unat uleft)"
    and "(scast (ucast (n - uleft) :: c_int) :: loff_t) = of_nat (lab_moved lbuf ppos - unat uleft)"
    and "unat (n - uleft) = lab_moved lbuf ppos - unat uleft"
proof -
  have un: "unat n = lab_moved lbuf ppos"
    unfolding n_def by (rule lab_moved_bounds(1) [OF assms(1,2)])
  have "uleft \<le> n" using assms(3) by (simp add: word_le_nat_alt un)
  then show u: "unat (n - uleft) = lab_moved lbuf ppos - unat uleft" by (simp add: unat_sub un)
  have s: "unat (n - uleft) < 2 ^ 31" unfolding u by (simp add: lab_moved_def)
  show "sint (ucast (n - uleft) :: c_int) = int (lab_moved lbuf ppos - unat uleft)"
    unfolding sint_ucast_small [OF s] u ..
  have "(scast (ucast (n - uleft) :: c_int) :: loff_t) = of_nat (unat (n - uleft))"
    unfolding scast_ucast_small [OF s] by (simp only: of_nat_unat ucast_id)
  then show "(scast (ucast (n - uleft) :: c_int) :: loff_t) = of_nat (lab_moved lbuf ppos - unat uleft)"
    by (simp only: u)
qed

lemma lab_read_data:
  assumes "lab_holds d m" and "vfs_rw_ok lbuf ppos" and "unat ppos \<le> 65536"
    and "unat uleft \<le> lab_moved lbuf ppos"
  shows "mycdrv_generic_read lbuf ppos uleft d =
    Inr (int (lab_moved lbuf ppos - unat uleft),
         take (lab_moved lbuf ppos - unat uleft) (get_range (unat ppos) (lab_moved lbuf ppos) m),
         ppos + of_nat (lab_moved lbuf ppos - unat uleft))"
proof -
  let ?k = "lab_moved lbuf ppos"
  note b = lab_moved_bounds [OF assms(2,3)] and r = lab_result [OF assms(2-4)]
  have "(if (of_nat ?k :: size_t) = 0 then Inr [] else kmem_load (ramdisk d) ppos (of_nat ?k)) =
      Inr (get_range (unat ppos) ?k m)"
  proof (cases "?k = 0")
    case False
    then have "(of_nat ?k :: size_t) \<noteq> 0" using b(1) by force
    moreover have "kmem_load (Ptr m) ppos (of_nat ?k) = Inr (get_range (unat ppos) ?k m)"
      using kmem_load_ok [OF b(2), of m] assms(1) b(1,3) by (simp add: lab_holds_def)
    ultimately show ?thesis using assms(1) by (simp add: lab_holds_def)
  qed simp
  then show ?thesis
    by (simp add: mycdrv_generic_read_def bytes_to_do_inside [OF assms(2,3)] r copied_out_def)
qed

lemma lab_write_data:
  assumes "lab_holds d m" and "vfs_rw_ok lbuf ppos" and "unat ppos \<le> 65536"
    and "unat uleft \<le> lab_moved lbuf ppos" and "unat lbuf \<le> length ubuf"
  shows "mycdrv_generic_write ubuf lbuf ppos uleft d =
    Inr (int (lab_moved lbuf ppos - unat uleft),
         d\<lparr>ramdisk := Ptr (put_range (unat ppos)
            (take (lab_moved lbuf ppos - unat uleft) ubuf @ replicate (unat uleft) 0) m)\<rparr>,
         ppos + of_nat (lab_moved lbuf ppos - unat uleft))"
proof -
  let ?k = "lab_moved lbuf ppos"
  let ?bs = "copied_in (of_nat ?k) uleft (take ?k ubuf)"
  note b = lab_moved_bounds [OF assms(2,3)] and r = lab_result [OF assms(2-4)]
  have bs: "?bs = take (?k - unat uleft) ubuf @ replicate (unat uleft) 0"
    by (simp add: copied_in_def r(3))
  have key: "(if (of_nat ?k :: size_t) = 0 then Inr (ramdisk d) else kmem_store (ramdisk d) ppos (of_nat ?k) ?bs) =
      Inr (Ptr (put_range (unat ppos) ?bs m))"
  proof (cases "?k = 0")
    case True
    with assms(4) have "?bs = []" unfolding bs by simp
    with True assms(1) show ?thesis by (simp add: lab_holds_def)
  next
    case False
    then have "(of_nat ?k :: size_t) \<noteq> 0" using b(1) by force
    moreover have "kmem_store (Ptr m) ppos (of_nat ?k) ?bs = Inr (Ptr (put_range (unat ppos) ?bs m))"
      using kmem_store_ok [OF b(2), of m] assms(1) b(1,3) by (simp add: lab_holds_def)
    ultimately show ?thesis using assms(1) by (simp add: lab_holds_def)
  qed
  show ?thesis
    unfolding mycdrv_generic_write_def bytes_to_do_inside [OF assms(2,3)] Let_def b(1) key
    by (simp add: r bs)
qed

text \<open>An access past the end of the disk leaves it.\<close>

lemma lab_beyond:
  assumes "lab_holds d m" and "65536 < unat ppos"
    and "(scast (bytes_to_do lbuf ppos) :: size_t) \<noteq> 0"
  shows "mycdrv_generic_read lbuf ppos uleft d = Inl OutOfBounds"
    and "mycdrv_generic_write ubuf lbuf ppos uleft d = Inl OutOfBounds"
proof -
  have "\<not> in_object m ppos n" for n
  proof (cases "0 \<le> sint ppos")
    case True
    with assms(1,2) show ?thesis by (simp add: in_object_iff lab_holds_def)
  qed (simp add: in_object_def)
  with assms(1,3) show "mycdrv_generic_read lbuf ppos uleft d = Inl OutOfBounds"
    and "mycdrv_generic_write ubuf lbuf ppos uleft d = Inl OutOfBounds"
    by (simp_all add: mycdrv_generic_read_def mycdrv_generic_write_def lab_holds_def
        kmem_load_def kmem_store_def Let_def)
qed

section \<open>One open file\<close>

datatype lab_call =
  LabRead size_t size_t
| LabWrite "byte list" size_t
| LabSeek loff_t int

text \<open>A file is the device and its position. Counts are what the VFS lets through.\<close>

fun lab_do :: "lab_call \<Rightarrow> labdev \<times> loff_t \<Rightarrow> (labdev \<times> loff_t) kresult" where
  "lab_do (LabRead n uleft) (d, p) =
     (case mycdrv_generic_read n p uleft d of Inl f \<Rightarrow> Inl f | Inr (r, out, p') \<Rightarrow> Inr (d, p'))"
| "lab_do (LabWrite bs uleft) (d, p) =
     (case mycdrv_generic_write bs (of_nat (length bs)) p uleft d of
        Inl f \<Rightarrow> Inl f | Inr (r, d', p') \<Rightarrow> Inr (d', p'))"
| "lab_do (LabSeek offset orig) (d, p) = Inr (d, snd (mycdrv_generic_lseek offset orig p))"

fun lab_calls :: "lab_call list \<Rightarrow> labdev \<times> loff_t \<Rightarrow> (labdev \<times> loff_t) kresult" where
  "lab_calls [] s = Inr s"
| "lab_calls (c # cs) s = (case lab_do c s of Inl f \<Rightarrow> Inl f | Inr s' \<Rightarrow> lab_calls cs s')"

fun lab_call_ok :: "lab_call \<Rightarrow> bool" where
  "lab_call_ok (LabRead n uleft) = (unat n \<le> MAX_RW_COUNT)"
| "lab_call_ok (LabWrite bs uleft) = (length bs \<le> MAX_RW_COUNT)"
| "lab_call_ok (LabSeek offset orig) = True"

text \<open>The user copies leave at most what they were asked to copy.\<close>

fun lab_copy_ok :: "lab_call \<Rightarrow> loff_t \<Rightarrow> bool" where
  "lab_copy_ok (LabRead n uleft) p = (unat uleft \<le> lab_moved n p)"
| "lab_copy_ok (LabWrite bs uleft) p = (unat uleft \<le> lab_moved (of_nat (length bs)) p)"
| "lab_copy_ok (LabSeek offset orig) p = True"

fun lab_copies_ok :: "lab_call list \<Rightarrow> labdev \<times> loff_t \<Rightarrow> bool" where
  "lab_copies_ok [] s = True"
| "lab_copies_ok (c # cs) s =
     (lab_copy_ok c (snd s) \<and> (case lab_do c s of Inl f \<Rightarrow> True | Inr s' \<Rightarrow> lab_copies_ok cs s'))"

definition lab_file_ok :: "labdev \<times> loff_t \<Rightarrow> bool" where
  "lab_file_ok s \<longleftrightarrow> (\<exists>m. lab_holds (fst s) m) \<and> unat (snd s) \<le> 65536"

lemma lab_seek_bound: "unat p \<le> 65536 \<Longrightarrow> unat (snd (mycdrv_generic_lseek offset orig p)) \<le> 65536"
  by (auto simp: mycdrv_generic_lseek_def Let_def word_less_nat_alt)

lemma small_vfs: "unat n \<le> MAX_RW_COUNT \<Longrightarrow> unat (p :: loff_t) \<le> 65536 \<Longrightarrow> vfs_rw_ok n p"
  using sint_small_64 [of p] by (simp add: vfs_rw_ok_def)

lemma lab_moved_position:
  assumes "unat p + k \<le> 65536" and "j \<le> k"
  shows "unat (p + of_nat j :: loff_t) \<le> 65536"
proof -
  have "unat (of_nat j :: loff_t) = j" using assms by (intro unat_of_nat_64) simp
  moreover have "unat (p + of_nat j :: loff_t) = unat p + unat (of_nat j :: loff_t)"
    using assms calculation by (intro unat_add_nowrap) simp
  ultimately show ?thesis using assms by simp
qed

lemma lab_call_safe:
  assumes "lab_file_ok s" and "lab_call_ok c" and "lab_copy_ok c (snd s)"
  shows "\<exists>s'. lab_do c s = Inr s' \<and> lab_file_ok s'"
proof -
  obtain d p m where s: "s = (d, p)" and m: "lab_holds d m" and p: "unat p \<le> 65536"
    using assms(1) by (cases s) (auto simp: lab_file_ok_def)
  show ?thesis
  proof (cases c)
    case (LabRead n uleft)
    then have v: "vfs_rw_ok n p" using assms(2) p by (intro small_vfs) simp_all
    have "unat p + lab_moved n p \<le> 65536" using lab_moved_bounds(3) [OF v p] by simp
    then show ?thesis
      using LabRead m p assms(3) lab_read_data [OF m v p, of uleft]
        lab_moved_position [of p "lab_moved n p" "lab_moved n p - unat uleft"]
      by (auto simp: s lab_file_ok_def)
  next
    case (LabWrite bs uleft)
    let ?n = "of_nat (length bs) :: size_t"
    have un: "unat ?n = length bs" using assms(2) LabWrite by (intro unat_of_nat_64) simp
    then have v: "vfs_rw_ok ?n p" using assms(2) LabWrite p by (intro small_vfs) simp_all
    have b: "unat p + lab_moved ?n p \<le> 65536" using lab_moved_bounds(3) [OF v p] by simp
    have ul: "unat uleft \<le> lab_moved ?n p" using assms(3) LabWrite by (simp add: s)
    have k: "lab_moved ?n p \<le> length bs" by (simp add: lab_moved_def un)
    let ?bs = "take (lab_moved ?n p - unat uleft) bs @ replicate (unat uleft) 0"
    have "length (put_range (unat p) ?bs m) = 65536"
      using m b ul k by (subst length_put_range) (auto simp: lab_holds_def)
    then have "lab_holds (d\<lparr>ramdisk := Ptr (put_range (unat p) ?bs m)\<rparr>) (put_range (unat p) ?bs m)"
      by (simp add: lab_holds_def)
    then show ?thesis
      using LabWrite lab_write_data [OF m v p ul, of bs] un
        lab_moved_position [OF b, of "lab_moved ?n p - unat uleft"]
      by (auto simp: s lab_file_ok_def)
  next
    case (LabSeek offset orig)
    then show ?thesis using m lab_seek_bound [OF p] by (auto simp: s lab_file_ok_def)
  qed
qed

definition sample_lab :: labdev where
  "sample_lab = \<lparr>ramdisk = Ptr (replicate 65536 7), open_counter = 0\<rparr>"

lemma sample_lab_holds: "lab_holds sample_lab (replicate 65536 7)"
  by (simp add: lab_holds_def sample_lab_def)

text \<open>A file that moves its position only by reading, writing and seeking never leaves the RAM
  disk: from any position up to the end, every sequence of such calls with counts the VFS lets
  through and user copies that may fail at any byte runs without a fault, keeps the disk's
  size, and ends at a position inside the disk again. (A seek to a negative position, too, ends
  at the end of the disk.)\<close>

theorem lab_file_safe:
  assumes "lab_file_ok s" and "list_all lab_call_ok cs" and "lab_copies_ok cs s"
  shows "\<exists>s'. lab_calls cs s = Inr s' \<and> lab_file_ok s'"
  using assms
proof (induction cs arbitrary: s)
  case Nil
  then show ?case by simp
next
  case (Cons c cs)
  then obtain s' where "lab_do c s = Inr s'" and "lab_file_ok s'"
    using lab_call_safe [of s c] by auto
  with Cons show ?case by simp
qed

theorem lab_file_safe_witness:
  "\<exists>s'. lab_calls [LabSeek (-5) 0, LabWrite [1, 2] 0, LabSeek (-2) 2] (sample_lab, 0) = Inr s' \<and> lab_file_ok s'"
proof (rule lab_file_safe)
  show "lab_file_ok (sample_lab, 0)"
    using sample_lab_holds by (auto simp: lab_file_ok_def)
  show "list_all lab_call_ok [LabSeek (-5) 0, LabWrite [1, 2] 0, LabSeek (-2) 2]" by simp
  show "lab_copies_ok [LabSeek (-5) 0, LabWrite [1, 2] 0, LabSeek (-2) 2] (sample_lab, 0)"
    by (simp split: sum.split)
qed

text \<open>A positioned read or write (\<open>pread\<close>, \<open>pwrite\<close>) past the end of the disk is not refused: the
  rest of the disk comes out negative, the comparison with the unsigned count takes it for a
  huge number, and the handler copies the whole request at an offset outside the disk. Inside
  the disk both calls are cut at its end.\<close>

theorem lab_pread_escapes:
  assumes "lab_holds d m" and "vfs_rw_ok lbuf ppos" and "unat lbuf \<le> length ubuf"
  shows "(0 < unat lbuf \<and> 65536 < unat ppos \<and> unat ppos < 2 ^ 32 \<longrightarrow>
      mycdrv_generic_read lbuf ppos uleft d = Inl OutOfBounds \<and>
      mycdrv_generic_write ubuf lbuf ppos uleft d = Inl OutOfBounds) \<and>
    (unat ppos \<le> 65536 \<longrightarrow>
      (let k = min (unat lbuf) (65536 - unat ppos)
       in mycdrv_generic_read lbuf ppos 0 d =
            Inr (int k, get_range (unat ppos) k m, ppos + of_nat k) \<and>
          mycdrv_generic_write ubuf lbuf ppos 0 d =
            Inr (int k, d\<lparr>ramdisk := Ptr (put_range (unat ppos) (take k ubuf) m)\<rparr>, ppos + of_nat k)))"
proof -
  have "unat lbuf < 2 ^ 31" using assms(2) by (simp add: vfs_rw_ok_def)
  then have "0 < unat lbuf \<and> 65536 < unat ppos \<and> unat ppos < 2 ^ 32 \<longrightarrow>
      mycdrv_generic_read lbuf ppos uleft d = Inl OutOfBounds \<and>
      mycdrv_generic_write ubuf lbuf ppos uleft d = Inl OutOfBounds"
    using bytes_to_do_beyond lab_beyond [OF assms(1)] by blast
  moreover have "length (get_range (unat ppos) (lab_moved lbuf ppos) m) = lab_moved lbuf ppos"
    if "unat ppos \<le> 65536"
    using lab_moved_bounds(3) [OF assms(2) that] assms(1) by (simp add: lab_holds_def)
  then have "unat ppos \<le> 65536 \<Longrightarrow>
      mycdrv_generic_read lbuf ppos 0 d =
        Inr (int (lab_moved lbuf ppos), get_range (unat ppos) (lab_moved lbuf ppos) m,
             ppos + of_nat (lab_moved lbuf ppos)) \<and>
      mycdrv_generic_write ubuf lbuf ppos 0 d =
        Inr (int (lab_moved lbuf ppos), d\<lparr>ramdisk := Ptr (put_range (unat ppos) (take (lab_moved lbuf ppos) ubuf) m)\<rparr>,
             ppos + of_nat (lab_moved lbuf ppos))"
    using lab_read_data [OF assms(1,2), of 0] lab_write_data [OF assms(1,2) _ _ assms(3), of 0] by simp
  ultimately show ?thesis by (simp add: Let_def lab_moved_def)
qed

theorem lab_pread_escapes_witness:
  "mycdrv_generic_read 4 65600 0 sample_lab = Inl OutOfBounds"
proof -
  have v: "vfs_rw_ok 4 65600" by (simp add: vfs_rw_ok_def)
  from lab_pread_escapes [OF sample_lab_holds v, of "[1, 2, 3, 4]" 0] show ?thesis by simp
qed

text \<open>Both registration headers are balanced: however often the modules are loaded and unloaded,
  with any outcome of the registrations and of the allocation of the RAM disk, every resource
  comes back exactly once. Only the class is not checked for failure, which does no harm, as it
  is not destroyed then.\<close>

theorem lab_modules_balanced:
  "cycles lab_load my_generic_exit es k = k \<and> cycles my_misc_init my_misc_exit es' k' = k'"
  by (simp add: lab_module.cycles_id misc_module.cycles_id list_all_iff)

end
