(* ===== verification/Lab_Wait.thy ===== *)
theory Lab_Wait
  imports Lab_Char
begin

text \<open>
  The waiting variants of the generic driver in \<open>src/ioctl\<close>: \<open>lab4_semaphore.c\<close>,
  \<open>lab4_complete.c\<close> and \<open>lab5_killable.c\<close>. A read waits until a write lets it through, and then
  reads the RAM disk. Tasks are numbered; a step is the piece of a handler up to where it can
  sleep.
\<close>

section \<open>Gates\<close>

text \<open>
  What a semaphore or a completion holds: its units, the tasks that sleep on it in the order
  they came, those woken that have not yet run (a completion only), and, for the record, the
  tasks that got through, how many units were given, and who gave up.
\<close>

record gate =
  units :: nat
  sleepers :: "nat list"
  woken :: "nat list"
  through :: "nat list"
  given :: nat

definition gate_start :: "nat \<Rightarrow> gate" where
  "gate_start n = \<lparr>units = n, sleepers = [], woken = [], through = [], given = 0\<rparr>"

text \<open>The semaphore starts with one unit (\<open>DEFINE_SEMAPHORE\<close>), the completion with none.\<close>

(* src: ioctl/lab4_semaphore.c:54-58 my_sem *)
definition my_sem :: gate where
  "my_sem = gate_start 1"

(* src: ioctl/lab4_complete.c:53-53 my_wait *)
definition my_wait :: gate where
  "my_wait = gate_start 0"

section \<open>The semaphore variant\<close>

text \<open>A task that sleeps cannot call again.\<close>

definition busy :: "nat \<Rightarrow> gate \<Rightarrow> bool" where
  "busy i g \<longleftrightarrow> i \<in> set (sleepers g) \<or> i \<in> set (woken g)"

definition down_interruptible :: "nat \<Rightarrow> gate \<Rightarrow> gate" where
  "down_interruptible i g =
     (if 0 < units g then g\<lparr>units := units g - 1, through := through g @ [i]\<rparr>
      else g\<lparr>sleepers := sleepers g @ [i]\<rparr>)"

text \<open>\<open>up\<close> hands its unit to the task that waits longest.\<close>

definition up :: "gate \<Rightarrow> gate" where
  "up g =
     (case sleepers g of
        [] \<Rightarrow> g\<lparr>units := units g + 1, given := given g + 1\<rparr>
      | i # is \<Rightarrow> g\<lparr>sleepers := is, through := through g @ [i], given := given g + 1\<rparr>)"

datatype lab_read_result = Sleeps | Returns int "byte list" loff_t

(* src: ioctl/lab4_semaphore.c:60-71 mycdrv_read *)
definition sem_read ::
    "nat \<Rightarrow> size_t \<Rightarrow> loff_t \<Rightarrow> size_t \<Rightarrow> labdev \<times> gate \<Rightarrow> (lab_read_result \<times> labdev \<times> gate) kresult" where
  "sem_read i lbuf ppos uleft s =
     (let (d, g) = s; g' = down_interruptible i g
      in if i \<in> set (sleepers g') then Inr (Sleeps, d, g')
         else case mycdrv_generic_read lbuf ppos uleft d of
           Inl f \<Rightarrow> Inl f
         | Inr (n, out, p) \<Rightarrow> Inr (Returns n out p, d, g'))"

text \<open>A signal takes a sleeper off the list.\<close>

(* src: ioctl/lab4_semaphore.c:65-68 mycdrv_read (signal) *)
definition sem_signal :: "nat \<Rightarrow> loff_t \<Rightarrow> labdev \<times> gate \<Rightarrow> lab_read_result \<times> labdev \<times> gate" where
  "sem_signal i ppos s =
     (let (d, g) = s in (Returns (- ERESTARTSYS) [] ppos, d, g\<lparr>sleepers := remove1 i (sleepers g)\<rparr>))"

(* src: ioctl/lab4_semaphore.c:73-83 mycdrv_write *)
definition sem_write ::
    "byte list \<Rightarrow> size_t \<Rightarrow> loff_t \<Rightarrow> size_t \<Rightarrow> labdev \<times> gate \<Rightarrow> (int \<times> (labdev \<times> gate) \<times> loff_t) kresult" where
  "sem_write ubuf lbuf ppos uleft s =
     (let (d, g) = s
      in case mycdrv_generic_write ubuf lbuf ppos uleft d of
        Inl f \<Rightarrow> Inl f
      | Inr (n, d', p) \<Rightarrow> Inr (n, (d', up g), p))"

section \<open>The completion variant\<close>

definition wait_for_completion :: "nat \<Rightarrow> gate \<Rightarrow> gate" where
  "wait_for_completion = down_interruptible"

text \<open>\<open>complete\<close> adds a unit and wakes the first sleeper, which takes a unit when it runs, if one is left.\<close>

definition complete_gate :: "gate \<Rightarrow> gate" where
  "complete_gate g =
     (let g = g\<lparr>units := units g + 1, given := given g + 1\<rparr>
      in case sleepers g of [] \<Rightarrow> g | i # is \<Rightarrow> g\<lparr>sleepers := is, woken := woken g @ [i]\<rparr>)"

definition resume :: "nat \<Rightarrow> gate \<Rightarrow> gate" where
  "resume i g = wait_for_completion i (g\<lparr>woken := remove1 i (woken g)\<rparr>)"

(* src: ioctl/lab4_complete.c:55-63 mycdrv_read *)
definition comp_read ::
    "nat \<Rightarrow> size_t \<Rightarrow> loff_t \<Rightarrow> size_t \<Rightarrow> labdev \<times> gate \<Rightarrow> (lab_read_result \<times> labdev \<times> gate) kresult" where
  "comp_read i lbuf ppos uleft s =
     (let (d, g) = s; g' = (if i \<in> set (woken g) then resume i g else wait_for_completion i g)
      in if i \<in> set (sleepers g') then Inr (Sleeps, d, g')
         else case mycdrv_generic_read lbuf ppos uleft d of
           Inl f \<Rightarrow> Inl f
         | Inr (n, out, p) \<Rightarrow> Inr (Returns n out p, d, g'))"

(* src: ioctl/lab4_complete.c:65-75 mycdrv_write *)
definition comp_write ::
    "byte list \<Rightarrow> size_t \<Rightarrow> loff_t \<Rightarrow> size_t \<Rightarrow> labdev \<times> gate \<Rightarrow> (int \<times> (labdev \<times> gate) \<times> loff_t) kresult" where
  "comp_write ubuf lbuf ppos uleft s =
     (let (d, g) = s
      in case mycdrv_generic_write ubuf lbuf ppos uleft d of
        Inl f \<Rightarrow> Inl f
      | Inr (n, d', p) \<Rightarrow> Inr (n, (d', complete_gate g), p))"

section \<open>Interleavings\<close>

datatype gate_event =
  GRead nat size_t loff_t size_t
| GSignal nat loff_t
| GWrite "byte list" loff_t size_t

inductive sem_step :: "labdev \<times> gate \<Rightarrow> gate_event \<Rightarrow> labdev \<times> gate \<Rightarrow> bool" where
  sem_step_read: "\<not> busy i (snd s) \<Longrightarrow> sem_read i n p l s = Inr (r, s') \<Longrightarrow> sem_step s (GRead i n p l) s'"
| sem_step_signal: "i \<in> set (sleepers (snd s)) \<Longrightarrow> sem_signal i p s = (r, s') \<Longrightarrow> sem_step s (GSignal i p) s'"
| sem_step_write: "sem_write bs (of_nat (length bs)) p l s = Inr (r, s', p') \<Longrightarrow> sem_step s (GWrite bs p l) s'"

inductive comp_step :: "labdev \<times> gate \<Rightarrow> gate_event \<Rightarrow> labdev \<times> gate \<Rightarrow> bool" where
  comp_step_read: "i \<notin> set (sleepers (snd s)) \<Longrightarrow> comp_read i n p l s = Inr (r, s') \<Longrightarrow>
    comp_step s (GRead i n p l) s'"
| comp_step_write: "comp_write bs (of_nat (length bs)) p l s = Inr (r, s', p') \<Longrightarrow> comp_step s (GWrite bs p l) s'"

inductive_cases sem_stepE: "sem_step s ev s'"
inductive_cases comp_stepE: "comp_step s ev s'"

text \<open>
  Every unit was there at the start or given by a write, and is still there or let one task
  through. Nobody sleeps while a unit is free, except, on a completion, behind tasks already
  woken for the units.
\<close>

definition sem_inv :: "nat \<Rightarrow> labdev \<times> gate \<Rightarrow> bool" where
  "sem_inv n0 s \<longleftrightarrow> (let g = snd s in units g + length (through g) = n0 + given g \<and>
     (sleepers g \<noteq> [] \<longrightarrow> units g = 0))"

definition comp_inv :: "nat \<Rightarrow> labdev \<times> gate \<Rightarrow> bool" where
  "comp_inv n0 s \<longleftrightarrow> (let g = snd s in units g + length (through g) = n0 + given g \<and>
     (sleepers g \<noteq> [] \<longrightarrow> units g \<le> length (woken g)))"

lemma down_inv:
  "sem_inv n0 (d, g) \<Longrightarrow> sem_inv n0 (d', down_interruptible i g)"
  by (auto simp: sem_inv_def down_interruptible_def Let_def)

lemma up_inv: "sem_inv n0 (d, g) \<Longrightarrow> sem_inv n0 (d', up g)"
  by (auto simp: sem_inv_def up_def Let_def split: list.splits)

lemma sem_step_inv: "sem_step s ev s' \<Longrightarrow> sem_inv n0 s \<Longrightarrow> sem_inv n0 s'"
proof (induction rule: sem_step.induct)
  case (sem_step_read i s n p l r s')
  then show ?case
    by (cases s) (auto simp: sem_read_def Let_def intro: down_inv split: if_splits sum.splits prod.splits)
next
  case (sem_step_signal i s p r s')
  then show ?case
    by (cases s) (auto simp: sem_signal_def sem_inv_def Let_def)
next
  case (sem_step_write bs p l s r s' p')
  then show ?case
    by (cases s) (auto simp: sem_write_def Let_def intro: up_inv split: sum.splits prod.splits)
qed

lemma wait_inv: "comp_inv n0 (d, g) \<Longrightarrow> comp_inv n0 (d', wait_for_completion i g)"
  by (auto simp: comp_inv_def wait_for_completion_def down_interruptible_def Let_def)

lemma complete_inv: "comp_inv n0 (d, g) \<Longrightarrow> comp_inv n0 (d', complete_gate g)"
  by (auto simp: comp_inv_def complete_gate_def Let_def split: list.splits)

lemma resume_inv:
  assumes "comp_inv n0 (d, g)" and "i \<in> set (woken g)"
  shows "comp_inv n0 (d', resume i g)"
  using assms length_pos_if_in_set [OF assms(2)]
  by (auto simp: comp_inv_def resume_def wait_for_completion_def down_interruptible_def Let_def
      length_remove1)

lemma comp_step_inv: "comp_step s ev s' \<Longrightarrow> comp_inv n0 s \<Longrightarrow> comp_inv n0 s'"
proof (induction rule: comp_step.induct)
  case (comp_step_read i s n p l r s')
  then show ?case
    by (cases s) (auto simp: comp_read_def Let_def intro: wait_inv resume_inv
        split: if_splits sum.splits prod.splits)
next
  case (comp_step_write bs p l s r s' p')
  then show ?case
    by (cases s) (auto simp: comp_write_def Let_def intro: complete_inv split: sum.splits prod.splits)
qed

interpretation sem_lab: invariant_system "\<lambda>s. snd s = my_sem" sem_step "sem_inv 1"
  by unfold_locales (auto simp: sem_inv_def my_sem_def gate_start_def dest: sem_step_inv)

interpretation comp_lab: invariant_system "\<lambda>s. snd s = my_wait" comp_step "comp_inv 0"
  by unfold_locales (auto simp: comp_inv_def my_wait_def gate_start_def dest: comp_step_inv)

text \<open>Reads and writes pair up in every interleaving of any number of tasks, signals included: on
  the completion the reads let through and the units left are exactly the writes, on the
  semaphore one more. While a reader sleeps on the semaphore no unit is free; on the completion
  every free unit belongs to a reader already woken.\<close>

theorem gates_conserve:
  assumes "run sem_step (d, my_sem) evs (d1, g1)" and "run comp_step (d, my_wait) evs' (d2, g2)"
  shows "units g1 + length (through g1) = 1 + given g1 \<and> (sleepers g1 \<noteq> [] \<longrightarrow> units g1 = 0) \<and>
    units g2 + length (through g2) = given g2 \<and> (sleepers g2 \<noteq> [] \<longrightarrow> units g2 \<le> length (woken g2))"
  using sem_lab.inv_reachable [OF _ assms(1)] comp_lab.inv_reachable [OF _ assms(2)]
  by (simp add: sem_inv_def comp_inv_def Let_def)

lemma sample_lab_read: "mycdrv_generic_read 2 0 0 sample_lab = Inr (2, [7, 7], 2)"
proof -
  have v: "vfs_rw_ok 2 0" by (simp add: vfs_rw_ok_def)
  have k: "lab_moved 2 0 = 2" by (simp add: lab_moved_def)
  have r: "replicate 2 (7 :: byte) = [7, 7]" by (simp add: numeral_2_eq_2)
  from lab_read_data [OF sample_lab_holds v, of 0] show ?thesis
    by (simp add: k r get_range_def)
qed

lemma sample_sem_read:
  "sem_read 1 2 0 0 (sample_lab, my_sem) = Inr (Returns 2 [7, 7] 2, sample_lab, my_sem\<lparr>units := 0, through := [1]\<rparr>)"
  by (simp add: sem_read_def my_sem_def gate_start_def down_interruptible_def Let_def sample_lab_read)

lemma sample_comp_read:
  "comp_read 1 2 0 0 (sample_lab, my_wait) = Inr (Sleeps, sample_lab, my_wait\<lparr>sleepers := [1]\<rparr>)"
  by (simp add: comp_read_def my_wait_def gate_start_def wait_for_completion_def down_interruptible_def Let_def)

theorem gates_conserve_witness:
  "\<exists>g1 g2. run sem_step (sample_lab, my_sem) [GRead 1 2 0 0] (sample_lab, g1) \<and>
     run comp_step (sample_lab, my_wait) [GRead 1 2 0 0] (sample_lab, g2) \<and>
     units g1 + length (through g1) = 1 \<and> sleepers g2 = [1] \<and> units g2 = 0"
proof -
  let ?g1 = "my_sem\<lparr>units := 0, through := [1]\<rparr>" and ?g2 = "my_wait\<lparr>sleepers := [1]\<rparr>"
  have "sem_step (sample_lab, my_sem) (GRead 1 2 0 0) (sample_lab, ?g1)"
    by (rule sem_step_read [OF _ sample_sem_read]) (simp add: busy_def my_sem_def gate_start_def)
  then have r1: "run sem_step (sample_lab, my_sem) [GRead 1 2 0 0] (sample_lab, ?g1)"
    by (simp add: run_cons_iff)
  have "comp_step (sample_lab, my_wait) (GRead 1 2 0 0) (sample_lab, ?g2)"
    by (rule comp_step_read [OF _ sample_comp_read]) (simp add: my_wait_def gate_start_def)
  then have r2: "run comp_step (sample_lab, my_wait) [GRead 1 2 0 0] (sample_lab, ?g2)"
    by (simp add: run_cons_iff)
  from gates_conserve [OF r1 r2] r1 r2 show ?thesis
    by (intro exI [of _ ?g1] exI [of _ ?g2]) (simp add: my_sem_def my_wait_def gate_start_def)
qed

text \<open>The semaphore variant does not make the first reader wait: its semaphore starts with one unit,
  so a read of the freshly loaded driver returns the RAM disk's bytes before anything was
  written. The completion variant puts the same reader to sleep, and the first write wakes it.\<close>

theorem sem_first_read:
  assumes "mycdrv_generic_read n p l d = Inr (r, out, p')"
  shows "(\<exists>g. sem_read i n p l (d, my_sem) = Inr (Returns r out p', d, g) \<and> given g = 0) \<and>
    (\<exists>g. comp_read i n p l (d, my_wait) = Inr (Sleeps, d, g) \<and>
       (\<forall>d'. mycdrv_generic_read n p l d' = Inr (r', out', p'') \<longrightarrow>
          (\<exists>g'. comp_read i n p l (d', complete_gate g) = Inr (Returns r' out' p'', d', g') \<and> through g' = [i])))"
  using assms
  by (auto simp: sem_read_def comp_read_def my_sem_def my_wait_def gate_start_def down_interruptible_def
      wait_for_completion_def complete_gate_def resume_def Let_def)

theorem sem_first_read_witness:
  "\<exists>g. sem_read 1 2 0 0 (sample_lab, my_sem) = Inr (Returns 2 [7, 7] 2, sample_lab, g) \<and> given g = 0"
  using sem_first_read [OF sample_lab_read, THEN conjunct1] .

section \<open>The killable variant\<close>

text \<open>
  How a task sleeps, and which sleepers a wake-up reaches: \<open>wake_up_interruptible\<close> wakes the
  interruptible ones only.
\<close>

datatype sleep_state = TASK_INTERRUPTIBLE | TASK_KILLABLE

datatype killable_pc = KIdle | KWaiting | KAsleep sleep_state | KPast | KWriting | KDead

record killable =
  k_ready :: bool
  k_pc :: "nat \<Rightarrow> killable_pc"
  k_dev :: labdev

definition wake_up_interruptible :: "(nat \<Rightarrow> killable_pc) \<Rightarrow> nat \<Rightarrow> killable_pc" where
  "wake_up_interruptible pcs i = (if pcs i = KAsleep TASK_INTERRUPTIBLE then KWaiting else pcs i)"

datatype killable_event = KCall nat | KTest nat | KRead nat size_t loff_t size_t | KKill nat
  | KWrite nat "byte list" loff_t size_t | KWake nat

text \<open>
  \<open>wait_event_killable\<close> tests the condition and sleeps killably; its value is ignored, so a
  reader that was killed goes on like one that was woken.
\<close>

(* src: ioctl/lab5_killable.c:32-53 mycdrv_read, mycdrv_write *)
inductive killable_step :: "killable \<Rightarrow> killable_event \<Rightarrow> killable \<Rightarrow> bool" where
  k_call: "k_pc s i = KIdle \<Longrightarrow> killable_step s (KCall i) (s\<lparr>k_pc := (k_pc s)(i := KWaiting)\<rparr>)"
| k_test: "k_pc s i = KWaiting \<Longrightarrow>
    killable_step s (KTest i)
      (s\<lparr>k_pc := (k_pc s)(i := if k_ready s then KPast else KAsleep TASK_KILLABLE)\<rparr>)"
| k_kill: "k_pc s i = KAsleep TASK_KILLABLE \<Longrightarrow>
    killable_step s (KKill i) (s\<lparr>k_pc := (k_pc s)(i := KPast)\<rparr>)"
| k_read: "k_pc s i = KPast \<Longrightarrow> mycdrv_generic_read n p l (k_dev s) = Inr (r, out, p') \<Longrightarrow>
    killable_step s (KRead i n p l) (s\<lparr>k_ready := False, k_pc := (k_pc s)(i := KIdle)\<rparr>)"
| k_write: "k_pc s i = KIdle \<Longrightarrow>
    mycdrv_generic_write bs (of_nat (length bs)) p l (k_dev s) = Inr (r, d', p') \<Longrightarrow>
    killable_step s (KWrite i bs p l) (s\<lparr>k_ready := True, k_dev := d', k_pc := (k_pc s)(i := KWriting)\<rparr>)"
| k_wake: "k_pc s i = KWriting \<Longrightarrow>
    killable_step s (KWake i) (s\<lparr>k_pc := (wake_up_interruptible (k_pc s))(i := KIdle)\<rparr>)"

inductive_cases killable_stepE: "killable_step s ev t"

lemma killable_sleeps_on:
  "killable_step s ev t \<Longrightarrow> ev \<noteq> KKill i \<Longrightarrow> k_pc s i = KAsleep TASK_KILLABLE \<Longrightarrow>
   k_pc t i = KAsleep TASK_KILLABLE"
  by (induction rule: killable_step.induct) (auto simp: wake_up_interruptible_def)

text \<open>A reader of the killable variant that has gone to sleep is never woken by a write: the write
  wakes interruptible sleepers only, and the reader sleeps killably. Whatever runs, it sleeps
  until it is killed.\<close>

theorem killable_never_woken:
  assumes "run killable_step s evs t" and "k_pc s i = KAsleep TASK_KILLABLE" and "KKill i \<notin> set evs"
  shows "k_pc t i = KAsleep TASK_KILLABLE"
  using assms(1,2)
  by (rule run_preserves) (metis assms(3) killable_sleeps_on)

definition sample_killable :: killable where
  "sample_killable = \<lparr>k_ready = False, k_pc = (\<lambda>_. KIdle), k_dev = sample_lab\<rparr>"

theorem killable_never_woken_witness:
  "\<exists>t. run killable_step sample_killable [KCall 1, KTest 1, KWrite 2 [] 0 0, KWake 2] t \<and>
     k_ready t \<and> k_pc t 1 = KAsleep TASK_KILLABLE"
proof -
  let ?s1 = "sample_killable\<lparr>k_pc := (k_pc sample_killable)(1 := KWaiting)\<rparr>"
  let ?s2 = "?s1\<lparr>k_pc := (k_pc ?s1)(1 := KAsleep TASK_KILLABLE)\<rparr>"
  have v: "vfs_rw_ok 0 0" by (simp add: vfs_rw_ok_def)
  have w: "mycdrv_generic_write [] (of_nat (length [])) 0 0 (k_dev ?s2) = Inr (0, sample_lab, 0)"
    using lab_write_data [OF sample_lab_holds v, of 0 "[]"]
    by (simp add: sample_killable_def lab_moved_def sample_lab_def)
  let ?s3 = "?s2\<lparr>k_ready := True, k_dev := sample_lab, k_pc := (k_pc ?s2)(2 := KWriting)\<rparr>"
  let ?s4 = "?s3\<lparr>k_pc := (wake_up_interruptible (k_pc ?s3))(2 := KIdle)\<rparr>"
  have "killable_step sample_killable (KCall 1) ?s1" by (rule k_call) (simp add: sample_killable_def)
  moreover have "killable_step ?s1 (KTest 1) ?s2"
    using k_test [of ?s1 1] by (simp add: sample_killable_def)
  ultimately have r1: "run killable_step sample_killable [KCall 1, KTest 1] ?s2"
    unfolding run_cons_iff run_nil_iff by blast
  have "killable_step ?s2 (KWrite 2 [] 0 0) ?s3" by (rule k_write [OF _ w]) (simp add: sample_killable_def)
  moreover have "killable_step ?s3 (KWake 2) ?s4" by (rule k_wake) simp
  ultimately have r2: "run killable_step ?s2 [KWrite 2 [] 0 0, KWake 2] ?s4"
    unfolding run_cons_iff run_nil_iff by blast
  have "k_pc ?s4 1 = KAsleep TASK_KILLABLE" by (rule killable_never_woken [OF r2]) simp_all
  moreover have "k_ready ?s4" by simp
  ultimately show ?thesis using run_append [OF r1 r2] by auto
qed

end
