(* ===== verification/Sync.thy ===== *)
theory Sync
  imports Interfaces
begin

text \<open>
  \<open>src/sync\<close>: kernel threads that count under a spinlock (\<open>sync_lab3_spinlock.c\<close>), and a thread that
  waits for a completion (\<open>sync_lab4_completion.c\<close>). The modules that hold a lock are in
  \<open>Lock_Modules\<close>.
\<close>

section \<open>Counting under a spinlock\<close>

text \<open>
  Where a thread is: at the loop's test, before the lock, in the critical section before the
  variable was read, with the value it read, after the store, asleep, or finished. The
  increment is not atomic: it is a load and a store.
\<close>

datatype spin_pc = AtLoop | AtLock | Locked | Loaded "64 word" | Stored | Sleeping | Finished

(* src: sync/sync_lab3_spinlock.c:32-35 ldd_spinlock, ldd_global_variable, thread1, thread2 *)
record spin_sys =
  spin_locked :: bool
  ldd_global_variable :: "64 word"
  thread :: "nat \<Rightarrow> spin_pc"
  stopping :: "nat \<Rightarrow> bool"
  increments :: nat

datatype spin_event = SStop nat | SLoop nat | SLock nat | SLoad nat | SStore nat | SUnlock nat | SWake nat

definition set_thread :: "nat \<Rightarrow> spin_pc \<Rightarrow> spin_sys \<Rightarrow> spin_sys" where
  "set_thread i pc s = s\<lparr>thread := (thread s)(i := pc)\<rparr>"

text \<open>Both thread functions take these steps; the first one prints more.\<close>

(* src: sync/sync_lab3_spinlock.c:37-65 thread_func1, thread_func2 *)
fun spin_next :: "spin_event \<Rightarrow> spin_sys \<Rightarrow> spin_sys option" where
  "spin_next (SStop i) s = Some (s\<lparr>stopping := (stopping s)(i := True)\<rparr>)"
| "spin_next (SLoop i) s =
     (if thread s i = AtLoop then Some (set_thread i (if stopping s i then Finished else AtLock) s) else None)"
| "spin_next (SLock i) s =
     (if thread s i = AtLock \<and> \<not> spin_locked s then Some (set_thread i Locked (s\<lparr>spin_locked := True\<rparr>))
      else None)"
| "spin_next (SLoad i) s =
     (if thread s i = Locked then Some (set_thread i (Loaded (ldd_global_variable s)) s) else None)"
| "spin_next (SStore i) s =
     (case thread s i of
        Loaded v \<Rightarrow> Some (set_thread i Stored
          (s\<lparr>ldd_global_variable := v + 1, increments := increments s + 1\<rparr>))
      | _ \<Rightarrow> None)"
| "spin_next (SUnlock i) s =
     (if thread s i = Stored then Some (set_thread i Sleeping (s\<lparr>spin_locked := False\<rparr>)) else None)"
| "spin_next (SWake i) s =
     (if thread s i = Sleeping then Some (set_thread i AtLoop s) else None)"

definition spin_step :: "spin_sys \<Rightarrow> spin_event \<Rightarrow> spin_sys \<Rightarrow> bool" where
  "spin_step s ev t \<longleftrightarrow> spin_next ev s = Some t"

definition spin_start :: spin_sys where
  "spin_start = \<lparr>spin_locked = False, ldd_global_variable = 0, thread = (\<lambda>_. AtLoop),
     stopping = (\<lambda>_. False), increments = 0\<rparr>"

fun critical :: "spin_pc \<Rightarrow> bool" where
  "critical Locked = True"
| "critical (Loaded v) = True"
| "critical Stored = True"
| "critical _ = False"

text \<open>
  The lock is held exactly while some thread is in its critical section, no two threads are,
  a value that was loaded is still current, and the variable counts the increments.
\<close>

definition spin_inv :: "spin_sys \<Rightarrow> bool" where
  "spin_inv s \<longleftrightarrow>
     (spin_locked s \<longleftrightarrow> (\<exists>i. critical (thread s i))) \<and>
     (\<forall>i j. critical (thread s i) \<longrightarrow> critical (thread s j) \<longrightarrow> i = j) \<and>
     (\<forall>i v. thread s i = Loaded v \<longrightarrow> v = ldd_global_variable s) \<and>
     ldd_global_variable s = of_nat (increments s)"

lemmas spin_simps = set_thread_def fun_upd_apply

lemma critical_iff: "critical pc \<longleftrightarrow> pc = Locked \<or> (\<exists>v. pc = Loaded v) \<or> pc = Stored"
  by (cases pc) simp_all

lemma spin_outside:
  assumes inv: "spin_inv s" and i: "\<not> critical (thread s i)" and pc: "\<not> critical pc"
  shows "spin_inv (set_thread i pc s)"
proof -
  have c: "critical (((thread s)(i := pc)) j) = critical (thread s j)" for j
    using i pc by simp
  have "((thread s)(i := pc)) j = Loaded v \<Longrightarrow> v = ldd_global_variable s" for j v
    using inv pc by (auto simp: spin_inv_def split: if_splits)
  with inv show ?thesis by (simp add: spin_inv_def set_thread_def c del: fun_upd_apply)
qed

lemma spin_inv_step:
  assumes "spin_next ev s = Some t" and inv: "spin_inv s"
  shows "spin_inv t"
proof (cases ev)
  case (SStop i)
  with assms show ?thesis by (auto simp: spin_inv_def)
next
  case (SLoop i)
  with assms(1) have "thread s i = AtLoop" and "t = set_thread i (if stopping s i then Finished else AtLock) s"
    by (auto split: if_splits)
  with spin_outside [OF inv, of i] show ?thesis by simp
next
  case (SWake i)
  with assms(1) have "thread s i = Sleeping" and "t = set_thread i AtLoop s" by (auto split: if_splits)
  with spin_outside [OF inv, of i] show ?thesis by simp
next
  case (SLock i)
  with assms(1) have "\<not> spin_locked s" and t: "t = set_thread i Locked (s\<lparr>spin_locked := True\<rparr>)"
    by (auto split: if_splits)
  with inv have "\<not> critical (thread s j)" for j by (auto simp: spin_inv_def)
  with inv show ?thesis by (auto simp: spin_inv_def t spin_simps)
next
  case (SLoad i)
  with assms(1) have i: "thread s i = Locked" and t: "t = set_thread i (Loaded (ldd_global_variable s)) s"
    by (auto split: if_splits)
  have "critical (thread t j) = critical (thread s j)" for j by (simp add: t spin_simps i)
  with inv show ?thesis by (auto simp: spin_inv_def t spin_simps)
next
  case (SStore i)
  with assms(1) obtain v where i: "thread s i = Loaded v"
    and t: "t = set_thread i Stored (s\<lparr>ldd_global_variable := v + 1, increments := increments s + 1\<rparr>)"
    by (auto split: spin_pc.splits)
  have c: "critical (thread t j) = critical (thread s j)" for j by (simp add: t spin_simps i)
  have "thread s j \<noteq> Loaded w" if "j \<noteq> i" for j w
    using inv i that by (metis critical.simps(2) spin_inv_def)
  moreover have "v = of_nat (increments s)" using inv i by (auto simp: spin_inv_def)
  ultimately show ?thesis
    using inv c by (auto simp: spin_inv_def t spin_simps split: if_splits)
next
  case (SUnlock i)
  with assms(1) have i: "thread s i = Stored" and t: "t = set_thread i Sleeping (s\<lparr>spin_locked := False\<rparr>)"
    by (auto split: if_splits)
  have "\<not> critical (thread s j)" if "j \<noteq> i" for j
    using inv i that by (metis critical.simps(3) spin_inv_def)
  with inv show ?thesis by (auto simp: spin_inv_def t spin_simps)
qed

interpretation spin: invariant_system "\<lambda>s. s = spin_start" spin_step spin_inv
proof (unfold_locales, goal_cases)
  case (1 s)
  then show ?case by (simp add: spin_start_def spin_inv_def)
next
  case (2 s ev t)
  then show ?case using spin_inv_step by (simp add: spin_step_def)
qed

text \<open>No increment is lost: in every interleaving of any number of threads of the two kinds the
  shared variable is the number of increments made so far, modulo \<open>2\<^sup>6\<^sup>4\<close>, although an increment
  is a load and a store; at most one thread is between its lock and its unlock, and the lock
  is held exactly then.\<close>

theorem spin_no_lost_update:
  assumes "run spin_step spin_start evs s"
  shows "ldd_global_variable s = of_nat (increments s) \<and>
    (\<forall>i j. critical (thread s i) \<and> critical (thread s j) \<longrightarrow> i = j) \<and>
    (spin_locked s \<longleftrightarrow> (\<exists>i. critical (thread s i)))"
  using spin.inv_reachable [OF refl assms] by (simp add: spin_inv_def)

lemma spin_two_increments:
  "\<exists>s. run spin_step spin_start
     [SLoop 1, SLoop 2, SLock 1, SLoad 1, SStore 1, SUnlock 1, SLock 2, SLoad 2, SStore 2] s \<and> increments s = 2"
  by (simp add: run_cons_iff spin_step_def spin_start_def spin_simps)

theorem spin_no_lost_update_witness:
  "\<exists>s. run spin_step spin_start
     [SLoop 1, SLoop 2, SLock 1, SLoad 1, SStore 1, SUnlock 1, SLock 2, SLoad 2, SStore 2] s \<and>
     ldd_global_variable s = 2"
proof -
  obtain s where r: "run spin_step spin_start
     [SLoop 1, SLoop 2, SLock 1, SLoad 1, SStore 1, SUnlock 1, SLock 2, SLoad 2, SStore 2] s"
    and i: "increments s = 2"
    using spin_two_increments by blast
  from spin_no_lost_update [OF r] r i show ?thesis by auto
qed

text \<open>A thread that was told to stop finishes at its next test of the loop.\<close>

lemma spin_stops: "stopping s i \<Longrightarrow> thread s i = AtLoop \<Longrightarrow> spin_next (SLoop i) s = Some (set_thread i Finished s)"
  by simp

section \<open>Loading the spinlock module\<close>

text \<open>
  \<open>kthread_run\<close> reports failure with an error pointer, never with null; the code tests for null.
  Its null branch gives everything back and goes on loading.
\<close>

datatype sync_res = SyncChrdev | SyncClass | SyncDevice | SyncMem | SyncThread nat

record sync_env =
  y_major :: int
  y_class :: "unit kptr"
  y_device :: "unit kptr"
  y_mem :: bool
  y_thread1 :: "unit kptr"
  y_thread2 :: "unit kptr"

text \<open>The part both modules share, up to the buffer.\<close>

(* src: sync/sync_lab3_spinlock.c:121-153 chardrv_init (device and buffer) *)
definition sync_device_init :: "sync_env \<Rightarrow> sync_res ledger \<Rightarrow> int \<times> sync_res ledger" where
  "sync_device_init e k =
     (if y_major e < 0 then (y_major e, k)
      else
        let k = acquire SyncChrdev k
        in if IS_ERR (y_class e) then (PTR_ERR (y_class e), release SyncChrdev k)
        else
          let k = acquire SyncClass k
          in if IS_ERR (y_device e) then (PTR_ERR (y_device e), release_all [SyncClass, SyncChrdev] k)
          else
            let k = acquire SyncDevice k
            in if \<not> y_mem e then (-1, release_all [SyncDevice, SyncClass, SyncChrdev] k)
               else (0, acquire SyncMem k))"

definition hold_thread :: "nat \<Rightarrow> unit kptr \<Rightarrow> sync_res ledger \<Rightarrow> sync_res ledger" where
  "hold_thread i t k = (if t = Ptr () then acquire (SyncThread i) k else k)"

text \<open>\<open>kthread_stop\<close> follows its pointer, and waits until the thread is gone.\<close>

definition kthread_stop :: "nat \<Rightarrow> unit kptr \<Rightarrow> sync_res ledger \<Rightarrow> sync_res ledger kresult" where
  "kthread_stop i t k =
     (case t of NULL \<Rightarrow> Inl NullDeref | ERR_PTR _ \<Rightarrow> Inl BadPointer | Ptr _ \<Rightarrow> Inr (release (SyncThread i) k))"

(* src: sync/sync_lab3_spinlock.c:121-183 chardrv_init *)
definition spin_init :: "sync_env \<Rightarrow> sync_res ledger \<Rightarrow> (int \<times> sync_res ledger) kresult" where
  "spin_init e k =
     (let (r, k) = sync_device_init e k
      in if r \<noteq> 0 then Inr (r, k)
      else
        let k = hold_thread 1 (y_thread1 e) k;
            k = (if nonnull (y_thread1 e) then k
                 else release_all [SyncMem, SyncDevice, SyncClass, SyncChrdev] k);
            k = hold_thread 2 (y_thread2 e) k
        in if nonnull (y_thread2 e) then Inr (0, k)
           else case kthread_stop 1 (y_thread1 e) (release SyncMem k) of
             Inl f \<Rightarrow> Inl f
           | Inr k \<Rightarrow> Inr (0, release_all [SyncDevice, SyncClass, SyncChrdev] k))"

(* src: sync/sync_lab3_spinlock.c:185-195 chardrv_exit *)
definition spin_exit :: "sync_env \<Rightarrow> sync_res ledger \<Rightarrow> sync_res ledger kresult" where
  "spin_exit e k =
     (case kthread_stop 1 (y_thread1 e) (release SyncMem k) of
        Inl f \<Rightarrow> Inl f
      | Inr k \<Rightarrow>
          (case kthread_stop 2 (y_thread2 e) k of
             Inl f \<Rightarrow> Inl f
           | Inr k \<Rightarrow> Inr (release_all [SyncDevice, SyncClass, SyncClass, SyncChrdev] k)))"

text \<open>Loading the spinlock module reports success even when a thread could not be started, and
  unloading it then follows the error pointer. When both threads run, unloading gives back
  everything, the class twice.\<close>

theorem spin_module_threads:
  assumes "0 \<le> y_major e" and "y_class e = Ptr ()" and "y_device e = Ptr ()" and "y_mem e"
    and "SyncClass \<notin> set (held k)"
  shows "(y_thread1 e = ERR_PTR n \<and> nonnull (y_thread2 e) \<longrightarrow>
      (\<exists>k'. spin_init e k = Inr (0, k') \<and> spin_exit e k' = Inl BadPointer)) \<and>
    (y_thread1 e = Ptr () \<and> y_thread2 e = Ptr () \<longrightarrow>
      (\<exists>k' k''. spin_init e k = Inr (0, k') \<and>
         held k' = [SyncThread 2, SyncThread 1, SyncMem, SyncDevice, SyncClass, SyncChrdev] @ held k \<and>
         spin_exit e k' = Inr k'' \<and> held k'' = held k \<and> faults k'' = SyncClass # faults k))"
  using assms
  by (auto simp: spin_init_def spin_exit_def sync_device_init_def hold_thread_def kthread_stop_def
      Let_def ledger_simps remove1_idem)

theorem spin_module_threads_witness:
  "\<exists>k'. spin_init \<lparr>y_major = 240, y_class = Ptr (), y_device = Ptr (), y_mem = True,
      y_thread1 = ERR_PTR 12, y_thread2 = Ptr ()\<rparr> empty_ledger = Inr (0, k') \<and>
    spin_exit \<lparr>y_major = 240, y_class = Ptr (), y_device = Ptr (), y_mem = True,
      y_thread1 = ERR_PTR 12, y_thread2 = Ptr ()\<rparr> k' = Inl BadPointer"
  by (rule spin_module_threads [THEN conjunct1, THEN mp]) simp_all

section \<open>The completion module\<close>

text \<open>\<open>kthread_create\<close> fails with an error pointer too, and \<open>wake_up_process\<close> follows it.\<close>

(* src: sync/sync_lab4_completion.c:101-150 chardrv_init *)
definition completion_init :: "sync_env \<Rightarrow> sync_res ledger \<Rightarrow> (int \<times> sync_res ledger) kresult" where
  "completion_init e k =
     (let (r, k) = sync_device_init e k
      in if r \<noteq> 0 then Inr (r, k)
      else case y_thread1 e of
        NULL \<Rightarrow> Inr (0, release_all [SyncDevice, SyncClass, SyncChrdev, SyncMem] k)
      | ERR_PTR _ \<Rightarrow> Inl BadPointer
      | Ptr _ \<Rightarrow> Inr (0, acquire (SyncThread 1) k))"

(* src: sync/sync_lab4_completion.c:152-160 chardrv_exit *)
definition completion_exit :: "sync_res ledger \<Rightarrow> sync_res ledger" where
  "completion_exit k = release_all [SyncMem, SyncDevice, SyncClass, SyncClass, SyncChrdev] k"

text \<open>Unloading leaves the waiting thread, which loops for ever, in code that is gone.\<close>

lemma completion_thread_left:
  assumes "0 \<le> y_major e" and "y_class e = Ptr ()" and "y_device e = Ptr ()" and "y_mem e"
    and "y_thread1 e = Ptr ()"
  shows "\<exists>k'. completion_init e k = Inr (0, k') \<and> held (completion_exit k') = SyncThread 1 # remove1 SyncClass (held k)"
  using assms
  by (simp add: completion_init_def completion_exit_def sync_device_init_def Let_def ledger_simps)

end
