(* ===== verification/Bottom_Half.thy ===== *)
theory Bottom_Half
  imports Interfaces
begin

text \<open>
  The labs of \<open>src/interrupts\<close> that watch one interrupt line (\<open>lab_one_interrupt.h\<close>): a top half
  that counts the interrupt and a bottom half that counts it again, later. A line's top half never
  runs twice at once, and neither does one bottom half, but the two interleave; each is cut
  into its atomic operations. A tasklet or a threaded handler that is already pending is not
  made pending twice.
\<close>

section \<open>State\<close>

text \<open>
  Where the top half is: not running, past its first increment, past the second, past the
  setting of its condition.
\<close>

datatype isr_pc = TopIdle | TopFirst | TopSecond | TopThird

text \<open>
  Where the bottom half is: not running, at its test for events, at the increment, at the
  decrement, at the count of missed events; the kernel thread is moreover at the clearing of
  its condition, at the test of the wait, asleep, or gone.
\<close>

datatype bh_pc = BhIdle | BhTest | BhInc | BhDec | BhCatch | ThClear | ThWait | ThAsleep | ThGone

text \<open>
  \<open>raised\<close> and \<open>runs\<close> count, without wrap-around, the interrupts whose event was recorded and
  the increments of \<open>counter_bh\<close>.
\<close>

(* src: interrupts/lab_one_interrupt.h:29-36 counter_bh, counter_th, my_dat *)
record bh_sys =
  counter_th :: c_int
  counter_bh :: c_int
  nevents :: c_int
  catchup :: c_int
  cond :: bool
  scheduled :: bool
  stop :: bool
  isr :: isr_pc
  bh :: bh_pc
  raised :: nat
  runs :: nat

datatype bh_event = Top | Bottom | Stop

definition bh_start :: "bh_pc \<Rightarrow> bh_sys" where
  "bh_start p = \<lparr>counter_th = 0, counter_bh = 0, nevents = 0, catchup = 0, cond = True, scheduled = False,
     stop = False, isr = TopIdle, bh = p, raised = 0, runs = 0\<rparr>"

definition count_bh :: "bh_sys \<Rightarrow> bh_sys" where
  "count_bh s = s\<lparr>counter_bh := counter_bh s + 1, runs := runs s + 1\<rparr>"

definition add_event :: "bh_sys \<Rightarrow> bh_sys" where
  "add_event s = s\<lparr>nevents := nevents s + 1, raised := raised s + 1\<rparr>"

definition count_th :: "bh_sys \<Rightarrow> bh_sys" where
  "count_th s = s\<lparr>counter_th := counter_th s + 1\<rparr>"

lemmas bh_defs = count_bh_def add_event_def count_th_def

text \<open>Nothing runs and nothing is pending.\<close>

definition quiet :: "bh_sys \<Rightarrow> bool" where
  "quiet s \<longleftrightarrow> isr s = TopIdle \<and> bh s = BhIdle \<and> \<not> scheduled s"

section \<open>The plain tasklet\<close>

(* src: interrupts/lab4_one_tasklet.c:62-70 my_interrupt *)
fun plain_isr :: "bh_sys \<Rightarrow> bh_sys option" where
  "plain_isr s =
     (case isr s of
        TopIdle \<Rightarrow> Some ((count_th s)\<lparr>isr := TopFirst, raised := raised s + 1\<rparr>)
      | TopFirst \<Rightarrow> Some (s\<lparr>scheduled := True, isr := TopIdle\<rparr>)
      | _ \<Rightarrow> None)"

(* src: interrupts/lab4_one_tasklet.c:49-59 t_fun, t_name *)
fun plain_bh :: "bh_sys \<Rightarrow> bh_sys option" where
  "plain_bh s =
     (case bh s of
        BhIdle \<Rightarrow> if scheduled s then Some (s\<lparr>scheduled := False, bh := BhInc\<rparr>) else None
      | BhInc \<Rightarrow> Some ((count_bh s)\<lparr>bh := BhIdle\<rparr>)
      | _ \<Rightarrow> None)"

fun plain_next :: "bh_event \<Rightarrow> bh_sys \<Rightarrow> bh_sys option" where
  "plain_next Top s = plain_isr s"
| "plain_next Bottom s = plain_bh s"
| "plain_next Stop s = None"

section \<open>The tasklet that counts its events\<close>

(* src: interrupts/lab5_one_tasklet_improved.c:55-64 my_interrupt *)
fun improved_isr :: "bh_sys \<Rightarrow> bh_sys option" where
  "improved_isr s =
     (case isr s of
        TopIdle \<Rightarrow> Some ((count_th s)\<lparr>isr := TopFirst\<rparr>)
      | TopFirst \<Rightarrow> Some ((add_event s)\<lparr>isr := TopSecond\<rparr>)
      | TopSecond \<Rightarrow> Some (s\<lparr>scheduled := True, isr := TopIdle\<rparr>)
      | TopThird \<Rightarrow> None)"

text \<open>The loop over the events, which the tasklet and the thread share; \<open>p\<close> is what follows it.\<close>

(* src: interrupts/lab5_one_tasklet_improved.c:38-49 t_fun (loop) *)
fun drain :: "bh_pc \<Rightarrow> bh_sys \<Rightarrow> bh_sys option" where
  "drain p s =
     (case bh s of
        BhInc \<Rightarrow> Some ((count_bh s)\<lparr>bh := BhDec\<rparr>)
      | BhDec \<Rightarrow> Some (s\<lparr>nevents := nevents s - 1, bh := if nevents s - 1 = 0 then p else BhCatch\<rparr>)
      | BhCatch \<Rightarrow> Some (s\<lparr>catchup := catchup s + 1, bh := BhInc\<rparr>)
      | _ \<Rightarrow> None)"

(* src: interrupts/lab5_one_tasklet_improved.c:30-53 t_fun, t_name *)
fun improved_bh :: "bh_sys \<Rightarrow> bh_sys option" where
  "improved_bh s =
     (case bh s of
        BhIdle \<Rightarrow> if scheduled s then Some (s\<lparr>scheduled := False, bh := BhTest\<rparr>) else None
      | BhTest \<Rightarrow> Some (s\<lparr>bh := if sint (nevents s) \<le> 0 then BhIdle else BhInc\<rparr>)
      | _ \<Rightarrow> drain BhIdle s)"

fun improved_next :: "bh_event \<Rightarrow> bh_sys \<Rightarrow> bh_sys option" where
  "improved_next Top s = improved_isr s"
| "improved_next Bottom s = improved_bh s"
| "improved_next Stop s = None"

section \<open>The threaded handler\<close>

text \<open>Returning \<open>IRQ_WAKE_THREAD\<close> makes the handler thread pending.\<close>

(* src: interrupts/lab9_one_threaded.c:41-47 my_interrupt *)
fun threaded_isr :: "bh_sys \<Rightarrow> bh_sys option" where
  "threaded_isr s = improved_isr s"

(* src: interrupts/lab9_one_threaded.c:49-61 thread_fun *)
fun threaded_bh :: "bh_sys \<Rightarrow> bh_sys option" where
  "threaded_bh s =
     (case bh s of
        BhIdle \<Rightarrow> if scheduled s then Some (s\<lparr>scheduled := False, bh := BhInc\<rparr>) else None
      | BhInc \<Rightarrow> Some ((count_bh s)\<lparr>bh := BhDec\<rparr>)
      | BhDec \<Rightarrow> Some (s\<lparr>nevents := nevents s - 1, bh := if nevents s - 1 = 0 then BhIdle else BhInc\<rparr>)
      | _ \<Rightarrow> None)"

fun threaded_next :: "bh_event \<Rightarrow> bh_sys \<Rightarrow> bh_sys option" where
  "threaded_next Top s = threaded_isr s"
| "threaded_next Bottom s = threaded_bh s"
| "threaded_next Stop s = None"

section \<open>The kernel thread\<close>

(* src: interrupts/lab5_one_thread_improved.c:35-45 my_interrupt *)
fun kthread_isr :: "bh_sys \<Rightarrow> bh_sys option" where
  "kthread_isr s =
     (case isr s of
        TopIdle \<Rightarrow> Some ((add_event s)\<lparr>isr := TopFirst\<rparr>)
      | TopFirst \<Rightarrow> Some ((count_th s)\<lparr>isr := TopSecond\<rparr>)
      | TopSecond \<Rightarrow> Some (s\<lparr>cond := True, isr := TopThird\<rparr>)
      | TopThird \<Rightarrow> Some (s\<lparr>isr := TopIdle, bh := if bh s = ThAsleep then ThWait else bh s\<rparr>))"

text \<open>
  The wait tests its condition with the thread already on the queue, so that no wake-up falls
  between the test and the sleep. The loop's own test for \<open>kthread_should_stop\<close> follows the
  last event and the \<open>continue\<close>.
\<close>

(* src: interrupts/lab5_one_thread_improved.c:47-77 thr_fun *)
fun kthread_bh :: "bh_sys \<Rightarrow> bh_sys option" where
  "kthread_bh s =
     (let again = (if stop s then ThGone else ThClear)
      in case bh s of
        ThClear \<Rightarrow> Some (s\<lparr>cond := False, bh := ThWait\<rparr>)
      | ThWait \<Rightarrow> Some (s\<lparr>bh := if stop s \<or> cond s then BhTest else ThAsleep\<rparr>)
      | BhTest \<Rightarrow> Some (s\<lparr>bh := if stop s then ThGone else if sint (nevents s) \<le> 0 then again else BhInc\<rparr>)
      | _ \<Rightarrow> drain again s)"

(* src: interrupts/lab5_one_thread_improved.c:91-93 my_exit (kthread_stop) *)
fun kthread_halt :: "bh_sys \<Rightarrow> bh_sys option" where
  "kthread_halt s = Some (s\<lparr>stop := True, bh := if bh s = ThAsleep then ThWait else bh s\<rparr>)"

fun kthread_next :: "bh_event \<Rightarrow> bh_sys \<Rightarrow> bh_sys option" where
  "kthread_next Top s = kthread_isr s"
| "kthread_next Bottom s = kthread_bh s"
| "kthread_next Stop s = kthread_halt s"

definition nx :: "(bh_event \<Rightarrow> bh_sys \<Rightarrow> bh_sys option) \<Rightarrow> bh_sys \<Rightarrow> bh_event \<Rightarrow> bh_sys \<Rightarrow> bool" where
  "nx next s ev t \<longleftrightarrow> next ev s = Some t"

section \<open>The plain tasklet counts its runs, not the interrupts\<close>

definition plain_inv :: "bh_sys \<Rightarrow> bool" where
  "plain_inv s \<longleftrightarrow>
     counter_th s = of_nat (raised s) \<and> counter_bh s = of_nat (runs s) \<and>
     runs s + of_bool (scheduled s) + of_bool (bh s = BhInc) + of_bool (isr s = TopFirst) \<le> raised s \<and>
     (0 < raised s \<longrightarrow> 0 < runs s \<or> scheduled s \<or> bh s = BhInc \<or> isr s = TopFirst) \<and>
     (bh s = BhIdle \<or> bh s = BhInc)"

interpretation plain: invariant_system "\<lambda>s. s = bh_start BhIdle" "nx plain_next" plain_inv
proof (unfold_locales, goal_cases)
  case (1 s)
  then show ?case by (simp add: plain_inv_def bh_start_def)
next
  case (2 s ev t)
  then show ?case
    by (cases ev) (auto simp: nx_def plain_inv_def bh_defs split: isr_pc.splits bh_pc.splits if_splits)
qed

text \<open>The plain tasklet never counts more bottom halves than interrupts, and once all is quiet it
  has counted at least one if there was any; how many of the others it counted depends on the
  timing, since a tasklet that is already pending is not queued again.\<close>

theorem plain_tasklet_bounds:
  assumes "run (nx plain_next) (bh_start BhIdle) evs s" and "quiet s"
  shows "runs s \<le> raised s \<and> (0 < raised s \<longrightarrow> 0 < runs s) \<and>
    counter_th s = of_nat (raised s) \<and> counter_bh s = of_nat (runs s)"
  using plain.inv_reachable [OF refl assms(1)] assms(2) by (auto simp: plain_inv_def quiet_def)

definition two_interrupts :: "bh_event list" where
  "two_interrupts = [Top, Top, Top, Top, Bottom, Bottom]"

lemma plain_loses_one:
  "\<exists>s. run (nx plain_next) (bh_start BhIdle) two_interrupts s \<and> quiet s \<and> raised s = 2 \<and> runs s = 1"
  by (simp add: two_interrupts_def run_cons_iff nx_def bh_start_def bh_defs quiet_def)

theorem plain_tasklet_bounds_witness:
  "\<exists>s. run (nx plain_next) (bh_start BhIdle) two_interrupts s \<and> quiet s \<and> counter_th s = 2 \<and> counter_bh s = 1"
proof -
  obtain s where r: "run (nx plain_next) (bh_start BhIdle) two_interrupts s" and q: "quiet s"
    and n: "raised s = 2" "runs s = 1"
    using plain_loses_one by blast
  from plain_tasklet_bounds [OF r q] r q n show ?thesis by auto
qed

section \<open>The improved tasklet counts every interrupt\<close>

text \<open>
  As long as fewer than \<open>2\<^sup>3\<^sup>1\<close> events were recorded, the event counter is not negative: it is
  the number of events not yet counted. It is not zero while the loop runs, and it is zero
  when nothing is pending.
\<close>

definition events_inv :: "bh_sys \<Rightarrow> bool" where
  "events_inv s \<longleftrightarrow>
     runs s + unat (nevents s) = raised s + (if bh s = BhDec then 1 else 0) \<and>
     counter_bh s = of_nat (runs s) \<and>
     (bh s \<in> {BhInc, BhDec, BhCatch} \<longrightarrow> nevents s \<noteq> 0)"

definition improved_core :: "bh_sys \<Rightarrow> bool" where
  "improved_core s \<longleftrightarrow>
     events_inv s \<and> counter_th s = of_nat (raised s) + (if isr s = TopFirst then 1 else 0) \<and>
     (bh s = BhIdle \<longrightarrow> scheduled s \<or> isr s = TopSecond \<or> nevents s = 0) \<and>
     bh s \<in> {BhIdle, BhTest, BhInc, BhDec, BhCatch} \<and> isr s \<noteq> TopThird"

definition improved_inv :: "bh_sys \<Rightarrow> bool" where
  "improved_inv s \<longleftrightarrow> (raised s < 2 ^ 31 \<longrightarrow> improved_core s)"

lemma unat_plus_one: "unat x < 2 ^ 31 \<Longrightarrow> unat (x + 1 :: c_int) = unat x + 1"
  by (simp add: unat_word_ariths)

lemma unat_pred: "x \<noteq> 0 \<Longrightarrow> unat (x - 1 :: c_int) = unat x - 1 \<and> 0 < unat x"
  by (metis unat_minus_one unat_gt_0)

lemma sint_le_zero: "unat x < 2 ^ 31 \<Longrightarrow> sint (x :: c_int) \<le> 0 \<longleftrightarrow> x = 0"
  by (simp only: sint_small_32 of_nat_le_0_iff unsigned_eq_0_iff)

text \<open>What a step of the loop keeps.\<close>

lemma drain_events:
  assumes "drain p s = Some t" and "events_inv s" and "p \<notin> {BhInc, BhDec, BhCatch}"
  shows "events_inv t \<and> raised t = raised s \<and> counter_th t = counter_th s \<and> isr t = isr s \<and>
    scheduled t = scheduled s \<and> (bh t = p \<and> nevents t = 0 \<or> bh t \<in> {BhInc, BhDec, BhCatch})"
proof -
  have z: "nevents s \<noteq> 0" using assms(1,2) by (auto simp: events_inv_def split: bh_pc.splits)
  show ?thesis
  proof (cases "bh s = BhDec")
    case True
    then have t: "t = s\<lparr>nevents := nevents s - 1, bh := if nevents s - 1 = 0 then p else BhCatch\<rparr>"
      using assms(1) by simp
    with unat_pred [OF z] assms(2,3) True show ?thesis
      by (cases "nevents s - 1 = 0") (simp_all add: events_inv_def)
  next
    case False
    with assms z show ?thesis
      by (cases "bh s") (auto simp: events_inv_def bh_defs)
  qed
qed

lemma few_events: "events_inv s \<Longrightarrow> unat (nevents s) \<le> raised s + (if bh s = BhDec then 1 else 0)"
  unfolding events_inv_def by linarith

lemma add_event_inv:
  assumes "events_inv s" and "raised s + 1 < 2 ^ 31"
  shows "unat (nevents s + 1) = unat (nevents s) + 1 \<and> nevents s + 1 \<noteq> 0"
proof -
  have "unat (nevents s) < 2 ^ 31"
    using few_events [OF assms(1)] assms(2) by (simp split: if_splits)
  from unat_plus_one [OF this] show ?thesis by (metis add_is_0 one_neq_zero unat_0)
qed

lemma add_event_events:
  assumes "events_inv s" and "raised s + 1 < 2 ^ 31"
  shows "events_inv (add_event s)"
  using add_event_inv [OF assms] assms(1) by (simp add: events_inv_def add_event_def)

lemma events_inv_frame [simp]:
  "events_inv (s\<lparr>counter_th := a\<rparr>) = events_inv s" "events_inv (s\<lparr>isr := i\<rparr>) = events_inv s"
  "events_inv (s\<lparr>scheduled := b\<rparr>) = events_inv s" "events_inv (s\<lparr>cond := b\<rparr>) = events_inv s"
  "events_inv (count_th s) = events_inv s"
  by (simp_all add: events_inv_def count_th_def)

lemma improved_top:
  assumes "improved_isr s = Some t" and "improved_core s" and "raised t < 2 ^ 31"
  shows "improved_core t"
proof (cases "isr s")
  case TopIdle
  with assms(1) have t: "t = (count_th s)\<lparr>isr := TopFirst\<rparr>" by simp
  from assms(2) TopIdle show ?thesis unfolding t improved_core_def by (simp add: count_th_def)
next
  case TopFirst
  with assms(1) have t: "t = (add_event s)\<lparr>isr := TopSecond\<rparr>" by simp
  with assms(3) have "raised s + 1 < 2 ^ 31" by (simp add: add_event_def)
  with add_event_events assms(2) have "events_inv (add_event s)" by (simp add: improved_core_def)
  with assms(2) TopFirst show ?thesis unfolding t improved_core_def by (simp add: add_event_def)
next
  case TopSecond
  with assms(1) have t: "t = s\<lparr>scheduled := True, isr := TopIdle\<rparr>" by simp
  from assms(2) TopSecond show ?thesis unfolding t improved_core_def by simp
next
  case TopThird
  with assms(1) show ?thesis by simp
qed

lemma improved_test:
  assumes "events_inv s" and "raised s < 2 ^ 31" and "bh s = BhTest"
  shows "sint (nevents s) \<le> 0 \<longleftrightarrow> nevents s = 0"
  using few_events [OF assms(1)] assms(2,3) by (intro sint_le_zero) simp

lemma improved_bottom:
  assumes "improved_bh s = Some t" and "improved_core s" and "raised s < 2 ^ 31"
  shows "improved_core t"
proof (cases "bh s \<in> {BhInc, BhDec, BhCatch}")
  case True
  with assms(1) have "drain BhIdle s = Some t" by auto
  from drain_events [OF this] assms(2) show ?thesis by (auto simp: improved_core_def)
next
  case False
  with assms(2) consider "bh s = BhIdle" | "bh s = BhTest" by (auto simp: improved_core_def)
  then show ?thesis
  proof cases
    case 1
    with assms(1) have t: "t = s\<lparr>scheduled := False, bh := BhTest\<rparr>" by (simp split: if_splits)
    from assms(2) 1 show ?thesis unfolding t improved_core_def by (simp add: events_inv_def)
  next
    case 2
    with assms(1) have t: "t = s\<lparr>bh := if sint (nevents s) \<le> 0 then BhIdle else BhInc\<rparr>" by simp
    from improved_test [OF _ assms(3) 2] assms(2) 2 show ?thesis
      unfolding t improved_core_def by (simp add: events_inv_def)
  qed
qed

lemma improved_bottom_raised: "improved_bh s = Some t \<Longrightarrow> raised t = raised s"
  by (auto simp: bh_defs split: bh_pc.splits if_splits)

lemma improved_top_raised: "improved_isr s = Some t \<Longrightarrow> raised s \<le> raised t"
  by (auto simp: bh_defs split: isr_pc.splits)

interpretation improved: invariant_system "\<lambda>s. s = bh_start BhIdle" "nx improved_next" improved_inv
proof (unfold_locales, goal_cases)
  case (1 s)
  then show ?case by (simp add: improved_inv_def improved_core_def events_inv_def bh_start_def)
next
  case (2 s ev t)
  show ?case
    unfolding improved_inv_def
  proof
    assume t: "raised t < 2 ^ 31"
    show "improved_core t"
    proof (cases ev)
      case Top
      with 2(2) have st: "improved_isr s = Some t" by (simp only: nx_def improved_next.simps)
      with improved_top_raised [OF st] 2(1) t show ?thesis
        by (intro improved_top [OF st _ t]) (simp add: improved_inv_def)
    next
      case Bottom
      with 2(2) have st: "improved_bh s = Some t" by (simp only: nx_def improved_next.simps)
      with improved_bottom_raised [OF st] 2(1) t show ?thesis
        by (intro improved_bottom [OF st]) (simp_all add: improved_inv_def)
    next
      case Stop
      with 2(2) show ?thesis by (simp add: nx_def)
    qed
  qed
qed

text \<open>C6: The improved tasklet loses nothing: however top and bottom halves interleave, once all is
  quiet \<open>counter_bh\<close> and \<open>counter_th\<close> both are the number of interrupts (modulo \<open>2\<^sup>3\<^sup>2\<close>) and no event
  is left over, as long as fewer than \<open>2\<^sup>3\<^sup>1\<close> interrupts came.\<close>

theorem improved_tasklet_counts_all:
  assumes "run (nx improved_next) (bh_start BhIdle) evs s" and "quiet s" and "raised s < 2 ^ 31"
  shows "runs s = raised s \<and> nevents s = 0 \<and>
    counter_th s = of_nat (raised s) \<and> counter_bh s = of_nat (raised s)"
  using improved.inv_reachable [OF refl assms(1)] assms(2,3)
  by (auto simp: improved_inv_def improved_core_def events_inv_def quiet_def)

definition two_improved :: "bh_event list" where
  "two_improved = [Top, Top, Top, Top, Top, Top] @ replicate 7 Bottom"

lemma improved_two:
  "\<exists>s. run (nx improved_next) (bh_start BhIdle) two_improved s \<and> quiet s \<and> raised s = 2 \<and> catchup s = 1"
  by (simp add: two_improved_def eval_nat_numeral run_cons_iff nx_def bh_start_def bh_defs quiet_def)

theorem improved_tasklet_counts_all_witness:
  "\<exists>s. run (nx improved_next) (bh_start BhIdle) two_improved s \<and> quiet s \<and> counter_bh s = 2 \<and> catchup s = 1"
proof -
  obtain s where r: "run (nx improved_next) (bh_start BhIdle) two_improved s" and q: "quiet s"
    and n: "raised s = 2" "catchup s = 1"
    using improved_two by blast
  from improved_tasklet_counts_all [OF r q] r q n show ?thesis by auto
qed

section \<open>The threaded handler runs when there is nothing to do\<close>

definition threaded_inv :: "bh_sys \<Rightarrow> bool" where
  "threaded_inv s \<longleftrightarrow>
     counter_th s + (if bh s = BhDec then 1 else 0) =
       counter_bh s + nevents s + (if isr s = TopFirst then 1 else 0) \<and>
     (bh s = BhIdle \<longrightarrow> scheduled s \<or> isr s = TopSecond \<or> nevents s = 0) \<and>
     bh s \<in> {BhIdle, BhInc, BhDec} \<and> isr s \<noteq> TopThird"

lemma threaded_top: "threaded_isr s = Some t \<Longrightarrow> threaded_inv s \<Longrightarrow> threaded_inv t"
  by (cases "isr s") (auto simp: threaded_inv_def bh_defs algebra_simps split: if_splits)

lemma threaded_bottom: "threaded_bh s = Some t \<Longrightarrow> threaded_inv s \<Longrightarrow> threaded_inv t"
  by (cases "bh s") (auto simp: threaded_inv_def bh_defs algebra_simps split: if_splits)

interpretation threaded: invariant_system "\<lambda>s. s = bh_start BhIdle" "nx threaded_next" threaded_inv
proof (unfold_locales, goal_cases)
  case (1 s)
  then show ?case by (simp add: threaded_inv_def bh_start_def)
next
  case (2 s ev t)
  then show ?case
    by (cases ev) (auto simp: nx_def simp del: threaded_isr.simps threaded_bh.simps
        intro: threaded_top threaded_bottom)
qed

text \<open>Left alone before the decrement, with no event to deal with, the thread goes round and round.\<close>

lemma threaded_round:
  assumes "bh s = BhDec" and "nevents s \<noteq> 1"
  shows "run (nx threaded_next) s [Bottom, Bottom]
    (s\<lparr>nevents := nevents s - 1, counter_bh := counter_bh s + 1, runs := runs s + 1\<rparr>)"
  using assms by (simp add: run_cons_iff nx_def bh_defs)

lemma threaded_rounds:
  assumes "bh s = BhDec" and "k \<le> unat (nevents s - 1)"
  shows "run (nx threaded_next) s (concat (replicate k [Bottom, Bottom]))
    (s\<lparr>nevents := nevents s - of_nat k, counter_bh := counter_bh s + of_nat k, runs := runs s + k\<rparr>)"
  using assms
proof (induction k arbitrary: s)
  case 0
  then show ?case by simp
next
  case (Suc k)
  then have n: "nevents s - 1 \<noteq> 0" by auto
  let ?t = "s\<lparr>nevents := nevents s - 1, counter_bh := counter_bh s + 1, runs := runs s + 1\<rparr>"
  from unat_pred [OF n] Suc.prems have "k \<le> unat (nevents ?t - 1)" by simp
  from Suc.IH [OF _ this] Suc.prems(1)
  have "run (nx threaded_next) ?t (concat (replicate k [Bottom, Bottom]))
    (?t\<lparr>nevents := nevents ?t - of_nat k, counter_bh := counter_bh ?t + of_nat k, runs := runs ?t + k\<rparr>)"
    by simp
  with run_append [OF threaded_round] n Suc.prems(1) show ?case by (simp add: algebra_simps)
qed

definition overtaken :: "bh_event list" where
  "overtaken = [Top, Top, Top, Bottom, Bottom, Top, Top, Top, Bottom, Bottom, Bottom, Bottom, Bottom]"

lemma overtaken_run:
  "\<exists>s. run (nx threaded_next) (bh_start BhIdle) overtaken s \<and> bh s = BhDec \<and> nevents s = 0 \<and>
     isr s = TopIdle \<and> raised s = 2 \<and> runs s = 3"
  by (simp add: overtaken_def run_cons_iff nx_def bh_start_def bh_defs)

text \<open>C16: The threaded handler's two counters agree whenever all is quiet. But an interrupt that comes
  while the thread is in its loop is dealt with there and makes the thread pending as well, so
  that the thread then runs with no event: its \<open>do\<close> loop counts one interrupt too many, takes the event
  counter below zero, and goes round \<open>2\<^sup>3\<^sup>2 - 1\<close> times more, two interrupts having sufficed.\<close>

theorem threaded_agrees_and_runs_away:
  "(run (nx threaded_next) (bh_start BhIdle) evs s \<and> quiet s \<longrightarrow> counter_bh s = counter_th s \<and> nevents s = 0) \<and>
   (\<exists>u. run (nx threaded_next) (bh_start BhIdle) overtaken u \<and> raised u = 2 \<and> runs u = 3 \<and>
     (\<forall>k. k < 2 ^ 32 \<longrightarrow> (\<exists>v. run (nx threaded_next) u (concat (replicate k [Bottom, Bottom])) v \<and>
        bh v = BhDec \<and> runs v = 3 + k)))"
proof
  show "run (nx threaded_next) (bh_start BhIdle) evs s \<and> quiet s \<longrightarrow> counter_bh s = counter_th s \<and> nevents s = 0"
  proof
    assume a: "run (nx threaded_next) (bh_start BhIdle) evs s \<and> quiet s"
    from threaded.inv_reachable [OF refl conjunct1 [OF a]] conjunct2 [OF a]
    show "counter_bh s = counter_th s \<and> nevents s = 0" by (simp add: threaded_inv_def quiet_def)
  qed
  obtain u where u: "run (nx threaded_next) (bh_start BhIdle) overtaken u" "raised u = 2" "runs u = 3"
    and d: "bh u = BhDec" "nevents u = 0"
    using overtaken_run by blast
  have "\<exists>v. run (nx threaded_next) u (concat (replicate k [Bottom, Bottom])) v \<and> bh v = BhDec \<and> runs v = 3 + k"
    if "k < 2 ^ 32" for k
  proof -
    have "k \<le> unat (nevents u - 1)" using that by (simp add: d unsigned_minus_1_eq_mask mask_eq_exp_minus_1)
    from threaded_rounds [OF d(1) this] show ?thesis using u(3) d(1) by fastforce
  qed
  with u show "\<exists>u. run (nx threaded_next) (bh_start BhIdle) overtaken u \<and> raised u = 2 \<and> runs u = 3 \<and>
     (\<forall>k. k < 2 ^ 32 \<longrightarrow> (\<exists>v. run (nx threaded_next) u (concat (replicate k [Bottom, Bottom])) v \<and>
        bh v = BhDec \<and> runs v = 3 + k))" by blast
qed

definition one_threaded :: "bh_event list" where
  "one_threaded = [Top, Top, Top, Bottom, Bottom, Bottom]"

lemma one_threaded_run:
  "\<exists>s. run (nx threaded_next) (bh_start BhIdle) one_threaded s \<and> quiet s \<and> counter_th s = 1"
  by (simp add: one_threaded_def run_cons_iff nx_def bh_start_def bh_defs quiet_def)

theorem threaded_agrees_and_runs_away_witness:
  "\<exists>s. run (nx threaded_next) (bh_start BhIdle) one_threaded s \<and> counter_th s = 1 \<and> counter_bh s = 1"
proof -
  obtain s where r: "run (nx threaded_next) (bh_start BhIdle) one_threaded s" and q: "quiet s" and n: "counter_th s = 1"
    using one_threaded_run by blast
  from threaded_agrees_and_runs_away [THEN conjunct1, of one_threaded s] r q n show ?thesis by auto
qed

section \<open>The kernel thread may sleep on an event\<close>

definition kthread_core :: "bh_sys \<Rightarrow> bool" where
  "kthread_core s \<longleftrightarrow>
     events_inv s \<and> counter_th s + (if isr s = TopFirst then 1 else 0) = of_nat (raised s) \<and>
     bh s \<noteq> BhIdle"

definition kthread_inv :: "bh_sys \<Rightarrow> bool" where
  "kthread_inv s \<longleftrightarrow> (raised s < 2 ^ 31 \<longrightarrow> kthread_core s)"

lemma events_inv_woken [simp]:
  "events_inv (s\<lparr>bh := if bh s = ThAsleep then ThWait else bh s\<rparr>) = events_inv s"
  by (simp add: events_inv_def)

lemma events_inv_moved:
  "events_inv s \<Longrightarrow> bh s \<notin> {BhInc, BhDec, BhCatch} \<Longrightarrow> p \<notin> {BhInc, BhDec, BhCatch} \<Longrightarrow> events_inv (s\<lparr>bh := p\<rparr>)"
  by (simp add: events_inv_def)

lemma kthread_top:
  assumes "kthread_isr s = Some t" and "kthread_core s" and "raised t < 2 ^ 31"
  shows "kthread_core t"
proof (cases "isr s")
  case TopIdle
  with assms(1) have t: "t = (add_event s)\<lparr>isr := TopFirst\<rparr>" by simp
  with assms(3) have "raised s + 1 < 2 ^ 31" by (simp add: add_event_def)
  with add_event_events assms(2) have "events_inv (add_event s)" by (simp add: kthread_core_def)
  with assms(2) TopIdle show ?thesis unfolding t kthread_core_def by (simp add: add_event_def)
next
  case TopFirst
  with assms(1) have t: "t = (count_th s)\<lparr>isr := TopSecond\<rparr>" by simp
  from assms(2) TopFirst show ?thesis unfolding t kthread_core_def by (simp add: count_th_def)
next
  case TopSecond
  with assms(1) have t: "t = s\<lparr>cond := True, isr := TopThird\<rparr>" by simp
  from assms(2) TopSecond show ?thesis unfolding t kthread_core_def by simp
next
  case TopThird
  with assms(1) have t: "t = s\<lparr>bh := if bh s = ThAsleep then ThWait else bh s\<rparr>\<lparr>isr := TopIdle\<rparr>" by auto
  from assms(2) TopThird show ?thesis unfolding t kthread_core_def by simp
qed

lemma kthread_bottom:
  assumes "kthread_bh s = Some t" and "kthread_core s" and "raised s < 2 ^ 31"
  shows "kthread_core t"
proof (cases "bh s \<in> {BhInc, BhDec, BhCatch}")
  case True
  let ?p = "if stop s then ThGone else ThClear"
  from True assms(1) have "drain ?p s = Some t" by (auto simp: Let_def)
  from drain_events [OF this] assms(2) show ?thesis
    by (cases "stop s") (auto simp: kthread_core_def)
next
  case False
  have test: "bh s = BhTest \<Longrightarrow> sint (nevents s) \<le> 0 \<longleftrightarrow> nevents s = 0"
    using improved_test assms(2,3) by (simp add: kthread_core_def)
  from False assms(2) consider "bh s = ThClear" | "bh s = ThWait" | "bh s = BhTest" | "bh s \<in> {ThAsleep, ThGone}"
    by (cases "bh s") (auto simp: kthread_core_def)
  then show ?thesis
  proof cases
    case 1
    with assms(1) have t: "t = s\<lparr>bh := ThWait\<rparr>\<lparr>cond := False\<rparr>" by (auto simp: Let_def)
    from assms(2) events_inv_moved [of s ThWait] 1 show ?thesis unfolding t kthread_core_def by simp
  next
    case 2
    with assms(1) have t: "t = s\<lparr>bh := if stop s \<or> cond s then BhTest else ThAsleep\<rparr>" by (simp add: Let_def)
    from assms(2) events_inv_moved [of s] 2 show ?thesis unfolding t kthread_core_def by simp
  next
    case 3
    with assms(1) test have t: "t = s\<lparr>bh := if stop s then ThGone else if nevents s = 0 then ThClear else BhInc\<rparr>"
      by (cases "stop s"; cases "nevents s = 0") (auto simp: Let_def)
    from assms(2) 3 show ?thesis unfolding t kthread_core_def by (simp add: events_inv_def)
  next
    case 4
    with assms(1) show ?thesis by (auto simp: Let_def)
  qed
qed

lemma kthread_stopping:
  assumes "kthread_halt s = Some t" and "kthread_core s"
  shows "kthread_core t"
proof -
  have t: "t = s\<lparr>bh := if bh s = ThAsleep then ThWait else bh s\<rparr>\<lparr>stop := True\<rparr>" using assms(1) by auto
  have "events_inv t = events_inv (s\<lparr>bh := if bh s = ThAsleep then ThWait else bh s\<rparr>)"
    by (simp add: t events_inv_def)
  with assms(2) have "events_inv t" by (simp add: kthread_core_def)
  with assms(2) show ?thesis by (auto simp: kthread_core_def t)
qed

lemma drain_raised: "drain p s = Some t \<Longrightarrow> raised t = raised s"
  by (auto simp: bh_defs split: bh_pc.splits)

lemma kthread_next_raised:
  assumes "kthread_next ev s = Some t"
  shows "raised s \<le> raised t"
proof (cases ev)
  case Top
  with assms show ?thesis by (cases "isr s") (auto simp: bh_defs)
next
  case Bottom
  with assms drain_raised [of _ s t] show ?thesis
    by (cases "bh s") (auto simp: Let_def simp del: drain.simps)
next
  case Stop
  with assms show ?thesis by auto
qed

interpretation kthread: invariant_system "\<lambda>s. s = bh_start ThClear" "nx kthread_next" kthread_inv
proof (unfold_locales, goal_cases)
  case (1 s)
  then show ?case by (simp add: kthread_inv_def kthread_core_def events_inv_def bh_start_def)
next
  case (2 s ev t)
  then have st: "kthread_next ev s = Some t" by (simp only: nx_def)
  show ?case
    unfolding kthread_inv_def
  proof
    assume t: "raised t < 2 ^ 31"
    with kthread_next_raised [OF st] 2(1) have s: "kthread_core s" "raised s < 2 ^ 31"
      by (simp_all add: kthread_inv_def)
    show "kthread_core t"
      using st kthread_top [OF _ s(1) t] kthread_bottom [OF _ s] kthread_stopping [OF _ s(1)]
      by (cases ev) (simp_all only: kthread_next.simps)
  qed
qed

text \<open>The loop takes three steps for each event but the last, and empties the counter.\<close>

lemma kthread_drains:
  assumes "bh s = BhInc" and "unat (nevents s) = Suc k" and "\<not> stop s"
  shows "run (nx kthread_next) s (concat (replicate k [Bottom, Bottom, Bottom]) @ [Bottom, Bottom])
    (s\<lparr>nevents := 0, counter_bh := counter_bh s + of_nat (Suc k), runs := runs s + Suc k,
       catchup := catchup s + of_nat k, bh := ThClear\<rparr>)"
  using assms
proof (induction k arbitrary: s)
  case 0
  then have "nevents s = 1" by (metis One_nat_def unat_1 word_unat_eq_iff)
  with 0 show ?case by (simp add: run_cons_iff nx_def bh_defs)
next
  case (Suc k)
  then have z: "nevents s \<noteq> 0" and z1: "nevents s - 1 \<noteq> 0"
    using unat_pred [of "nevents s"] by auto
  let ?t = "s\<lparr>nevents := nevents s - 1, counter_bh := counter_bh s + 1, runs := runs s + 1,
    catchup := catchup s + 1\<rparr>"
  have "run (nx kthread_next) s [Bottom, Bottom, Bottom] ?t"
    using Suc.prems z1 by (simp add: run_cons_iff nx_def bh_defs)
  moreover have "run (nx kthread_next) ?t (concat (replicate k [Bottom, Bottom, Bottom]) @ [Bottom, Bottom])
    (?t\<lparr>nevents := 0, counter_bh := counter_bh ?t + of_nat (Suc k), runs := runs ?t + Suc k,
       catchup := catchup ?t + of_nat k, bh := ThClear\<rparr>)"
    using unat_pred [OF z] Suc.prems by (intro Suc.IH) simp_all
  ultimately show ?case
    using run_append by (fastforce simp: algebra_simps)
qed

definition parking :: "bh_event list" where
  "parking = [Bottom, Bottom, Top, Top, Top, Top, Bottom, Bottom, Bottom, Bottom,
     Top, Top, Top, Bottom, Bottom, Top, Bottom]"

lemma parking_run:
  "\<exists>s. run (nx kthread_next) (bh_start ThClear) parking s \<and> isr s = TopIdle \<and> bh s = ThAsleep \<and>
     \<not> stop s \<and> raised s = 2 \<and> runs s = 1"
  by (simp add: parking_def run_cons_iff nx_def bh_start_def bh_defs Let_def)

definition catching_up :: "nat \<Rightarrow> bh_event list" where
  "catching_up k = [Top, Top, Top, Top, Bottom, Bottom] @ concat (replicate k [Bottom, Bottom, Bottom]) @
     [Bottom, Bottom, Bottom, Bottom]"

lemma kthread_woken:
  assumes "isr s = TopIdle" and "bh s = ThAsleep" and "\<not> stop s" and "0 < sint (nevents s + 1)"
  shows "run (nx kthread_next) s [Top, Top, Top, Top, Bottom, Bottom]
    (s\<lparr>nevents := nevents s + 1, raised := raised s + 1, counter_th := counter_th s + 1, cond := True, bh := BhInc\<rparr>)"
  using assms by (simp add: run_cons_iff nx_def bh_defs Let_def)

lemma kthread_sleeps_again:
  assumes "bh s = ThClear" and "\<not> stop s"
  shows "run (nx kthread_next) s [Bottom, Bottom] (s\<lparr>cond := False, bh := ThAsleep\<rparr>)"
  using assms by (simp add: run_cons_iff nx_def Let_def)

lemma kthread_catches_up:
  assumes s: "isr s = TopIdle" "bh s = ThAsleep" "\<not> stop s"
    and e: "events_inv s" and r: "raised s + 1 < 2 ^ 31"
  shows "\<exists>t. run (nx kthread_next) s (catching_up (unat (nevents s))) t \<and> bh t = ThAsleep \<and>
    runs t = raised t \<and> raised t = raised s + 1 \<and> nevents t = 0"
proof -
  let ?k = "unat (nevents s)"
  have n: "unat (nevents s + 1) = Suc ?k" and z: "nevents s + 1 \<noteq> 0"
    using add_event_inv [OF e r] by simp_all
  have "Suc ?k < 2 ^ 31" using few_events [OF e] r s(2) by simp
  then have "0 < sint (nevents s + 1)" by (simp only: sint_small_32 n of_nat_0_less_iff zero_less_Suc)
  note 1 = kthread_woken [OF s this]
  let ?u = "s\<lparr>nevents := nevents s + 1, raised := raised s + 1, counter_th := counter_th s + 1,
    cond := True, bh := BhInc\<rparr>"
  let ?v = "?u\<lparr>nevents := 0, counter_bh := counter_bh ?u + of_nat (Suc ?k), runs := runs ?u + Suc ?k,
       catchup := catchup ?u + of_nat ?k, bh := ThClear\<rparr>"
  have 2: "run (nx kthread_next) ?u (concat (replicate ?k [Bottom, Bottom, Bottom]) @ [Bottom, Bottom]) ?v"
    using n s(3) by (intro kthread_drains) simp_all
  have 3: "run (nx kthread_next) ?v [Bottom, Bottom] (?v\<lparr>cond := False, bh := ThAsleep\<rparr>)"
    using s(3) by (intro kthread_sleeps_again) simp_all
  have "runs s + Suc ?k = raised s + 1" using e s(2) by (simp add: events_inv_def)
  with run_append [OF run_append [OF 1 2] 3] show ?thesis
    by (intro exI [of _ "?v\<lparr>cond := False, bh := ThAsleep\<rparr>"]) (simp add: catching_up_def)
qed

text \<open>C17: The kernel thread can go to sleep on an event: the loop clears its condition after the events
  were counted, and an interrupt that sets it just before that is not noticed, so the thread
  sleeps with one interrupt of two uncounted. The event is not lost: the next interrupt
  wakes the thread, which then counts all there are.\<close>

theorem kthread_parks_and_catches_up:
  "(\<exists>u. run (nx kthread_next) (bh_start ThClear) parking u \<and> isr u = TopIdle \<and> bh u = ThAsleep \<and>
      raised u = 2 \<and> runs u = 1 \<and> kthread_next Bottom u = None) \<and>
   (run (nx kthread_next) (bh_start ThClear) evs s \<and> isr s = TopIdle \<and> bh s = ThAsleep \<and> \<not> stop s \<and>
      raised s + 1 < 2 ^ 31 \<longrightarrow>
    (\<exists>t. run (nx kthread_next) s (catching_up (unat (nevents s))) t \<and> bh t = ThAsleep \<and>
       runs t = raised t \<and> raised t = raised s + 1 \<and> nevents t = 0))"
proof
  show "\<exists>u. run (nx kthread_next) (bh_start ThClear) parking u \<and> isr u = TopIdle \<and> bh u = ThAsleep \<and>
      raised u = 2 \<and> runs u = 1 \<and> kthread_next Bottom u = None"
  proof -
    obtain u where u: "run (nx kthread_next) (bh_start ThClear) parking u \<and> isr u = TopIdle \<and> bh u = ThAsleep \<and>
        raised u = 2 \<and> runs u = 1"
      using parking_run by blast
    then have "kthread_next Bottom u = None" by (simp add: Let_def)
    with u show ?thesis by blast
  qed
  show "run (nx kthread_next) (bh_start ThClear) evs s \<and> isr s = TopIdle \<and> bh s = ThAsleep \<and> \<not> stop s \<and>
      raised s + 1 < 2 ^ 31 \<longrightarrow>
    (\<exists>t. run (nx kthread_next) s (catching_up (unat (nevents s))) t \<and> bh t = ThAsleep \<and>
       runs t = raised t \<and> raised t = raised s + 1 \<and> nevents t = 0)"
  proof
    assume a: "run (nx kthread_next) (bh_start ThClear) evs s \<and> isr s = TopIdle \<and> bh s = ThAsleep \<and>
      \<not> stop s \<and> raised s + 1 < 2 ^ 31"
    then have "events_inv s"
      using kthread.inv_reachable [OF refl conjunct1 [OF a]] by (simp add: kthread_inv_def kthread_core_def)
    with a show "\<exists>t. run (nx kthread_next) s (catching_up (unat (nevents s))) t \<and> bh t = ThAsleep \<and>
       runs t = raised t \<and> raised t = raised s + 1 \<and> nevents t = 0"
      by (intro kthread_catches_up) auto
  qed
qed

theorem kthread_parks_and_catches_up_witness:
  "\<exists>s t. run (nx kthread_next) (bh_start ThClear) parking s \<and>
     run (nx kthread_next) s (catching_up (unat (nevents s))) t \<and> runs t = 3"
proof -
  obtain s where s: "run (nx kthread_next) (bh_start ThClear) parking s" "isr s = TopIdle" "bh s = ThAsleep"
    "\<not> stop s" "raised s = 2"
    using parking_run by blast
  with kthread_parks_and_catches_up [THEN conjunct2, of parking s] obtain t
    where "run (nx kthread_next) s (catching_up (unat (nevents s))) t" and "runs t = 3"
    by auto
  with s(1) show ?thesis by blast
qed

section \<open>Loading and unloading\<close>

datatype bh_res = BhIrq | BhThread

text \<open>The interrupt's answer, and the answer to \<open>kthread_run\<close>, which fails with an error pointer.\<close>

(* src: interrupts/lab_one_interrupt.h:44-63 my_generic_init *)
definition my_one_init :: "int \<Rightarrow> bh_res ledger \<Rightarrow> int \<times> bh_res ledger" where
  "my_one_init req k = (if req \<noteq> 0 then (-1, k) else (0, acquire BhIrq k))"

(* src: interrupts/lab_one_interrupt.h:65-72 my_generic_exit *)
definition my_one_exit :: "int \<Rightarrow> bh_res ledger \<Rightarrow> bh_res ledger" where
  "my_one_exit req k = release BhIrq k"

interpretation one_irq: module_lifecycle "\<lambda>_. True" my_one_init "\<lambda>_. [BhIrq]" my_one_exit
  by unfold_locales (auto simp: my_one_init_def my_one_exit_def ledger_simps split: if_splits)

(* src: interrupts/lab5_one_thread_improved.c:79-89 my_init *)
definition kthread_init :: "unit kptr \<times> int \<Rightarrow> bh_res ledger \<Rightarrow> int \<times> bh_res ledger" where
  "kthread_init e k =
     (if \<not> nonnull (fst e) then (-1, k)
      else my_one_init (snd e) (if fst e = Ptr () then acquire BhThread k else k))"

text \<open>A load that fails at the interrupt leaves the thread running in a module that is gone.\<close>

lemma kthread_left_running:
  "req \<noteq> 0 \<Longrightarrow> kthread_init (Ptr (), req) k = (-1, acquire BhThread k)"
  by (simp add: kthread_init_def my_one_init_def)

end
