(* ===== verification/Irq_Table.thy ===== *)
theory Irq_Table
  imports Interfaces
begin

text \<open>
  The labs of \<open>src/interrupts\<close> that watch every interrupt line (\<open>lab_all_interrupt.h\<close>): one page
  holds, for every line, the number of its interrupts and then the number of its bottom
  halves, and a misc device shows the page to user space. The bottom halves are a tasklet
  with one shared argument (\<open>lab6_all_tasklet.c\<close>) and a tasklet allocated for each interrupt
  (\<open>lab7_all_tasklet_dynamic.c\<close>).
\<close>

section \<open>The counters\<close>

text \<open>The page is an array of \<open>atomic_t\<close>; outside it is somebody else's memory.\<close>

definition atomic_read :: "c_int list kptr \<Rightarrow> nat \<Rightarrow> c_int kresult" where
  "atomic_read p i =
     (case p of NULL \<Rightarrow> Inl NullDeref | ERR_PTR _ \<Rightarrow> Inl BadPointer
      | Ptr m \<Rightarrow> if i < length m then Inr (m ! i) else Inl OutOfBounds)"

definition atomic_set :: "c_int list kptr \<Rightarrow> nat \<Rightarrow> c_int \<Rightarrow> c_int list kptr kresult" where
  "atomic_set p i v =
     (case p of NULL \<Rightarrow> Inl NullDeref | ERR_PTR _ \<Rightarrow> Inl BadPointer
      | Ptr m \<Rightarrow> if i < length m then Inr (Ptr (m[i := v])) else Inl OutOfBounds)"

definition atomic_inc :: "c_int list kptr \<Rightarrow> nat \<Rightarrow> c_int list kptr kresult" where
  "atomic_inc p i = (case atomic_read p i of Inl f \<Rightarrow> Inl f | Inr v \<Rightarrow> atomic_set p i (v + 1))"

lemma atomic_ok [simp]:
  "i < length m \<Longrightarrow> atomic_read (Ptr m) i = Inr (m ! i)"
  "i < length m \<Longrightarrow> atomic_set (Ptr m) i v = Inr (Ptr (m[i := v]))"
  "i < length m \<Longrightarrow> atomic_inc (Ptr m) i = Inr (Ptr (m[i := m ! i + 1]))"
  by (simp_all add: atomic_read_def atomic_set_def atomic_inc_def)

lemma atomic_outside [simp]:
  "length m \<le> i \<Longrightarrow> atomic_set (Ptr m) i v = Inl OutOfBounds"
  by (simp add: atomic_set_def)

(* src: interrupts/lab_all_interrupt.h:28-35 ramdisk_size, MAXIRQS, NCOPY, ramdisk, interrupts, bhs, nevents *)
record irq_table =
  nr_irqs :: nat
  ramdisk :: "c_int list kptr"
  nevents :: "c_int list kptr"

text \<open>\<open>interrupts\<close> is the page, \<open>bhs\<close> starts \<open>NCOPY\<close> bytes, \<open>nr_irqs\<close> counters, further on.\<close>

definition interrupts_at :: "nat \<Rightarrow> nat" where
  "interrupts_at irq = irq"

definition bhs_at :: "irq_table \<Rightarrow> nat \<Rightarrow> nat" where
  "bhs_at t irq = nr_irqs t + irq"

lemmas at_defs = interrupts_at_def bhs_at_def

section \<open>Requesting and freeing the lines\<close>

datatype irq_res = IrqLine nat | IrqPage | IrqEvents | IrqMisc

text \<open>One round of the loop; \<open>granted\<close> is the kernel's answer, that the line can be shared.\<close>

(* src: interrupts/lab_all_interrupt.h:69-84 get_irqs (loop body) *)
definition get_irq :: "(nat \<Rightarrow> bool) \<Rightarrow> nat \<Rightarrow> irq_table \<times> irq_res ledger \<Rightarrow> (irq_table \<times> irq_res ledger) kresult" where
  "get_irq granted irq s =
     (let (t, k) = s
      in case atomic_set (ramdisk t) (interrupts_at irq) (-1) of
        Inl f \<Rightarrow> Inl f
      | Inr p \<Rightarrow>
        (case atomic_set p (bhs_at t irq) 0 of
           Inl f \<Rightarrow> Inl f
         | Inr p \<Rightarrow>
           (case atomic_set (nevents t) irq 0 of
              Inl f \<Rightarrow> Inl f
            | Inr q \<Rightarrow>
                if granted irq then
                  (case atomic_set p (interrupts_at irq) 0 of
                     Inl f \<Rightarrow> Inl f
                   | Inr p \<Rightarrow> Inr (t\<lparr>ramdisk := p, nevents := q\<rparr>, acquire (IrqLine irq) k))
                else Inr (t\<lparr>ramdisk := p, nevents := q\<rparr>, k))))"

fun for_irqs :: "(nat \<Rightarrow> 's \<Rightarrow> 's kresult) \<Rightarrow> nat \<Rightarrow> 's \<Rightarrow> 's kresult" where
  "for_irqs f 0 s = Inr s"
| "for_irqs f (Suc n) s = (case for_irqs f n s of Inl e \<Rightarrow> Inl e | Inr s' \<Rightarrow> f n s')"

(* src: interrupts/lab_all_interrupt.h:63-85 get_irqs *)
definition get_irqs :: "(nat \<Rightarrow> bool) \<Rightarrow> irq_table \<times> irq_res ledger \<Rightarrow> (irq_table \<times> irq_res ledger) kresult" where
  "get_irqs granted s = for_irqs (get_irq granted) (nr_irqs (fst s)) s"

(* src: interrupts/lab_all_interrupt.h:46-61 freeup_irqs *)
definition freeup_irqs :: "irq_table \<Rightarrow> irq_res ledger \<Rightarrow> irq_res ledger kresult" where
  "freeup_irqs t k =
     for_irqs (\<lambda>irq k. case atomic_read (ramdisk t) (interrupts_at irq) of
         Inl f \<Rightarrow> Inl f
       | Inr v \<Rightarrow> Inr (if 0 \<le> sint v then release (IrqLine irq) k else k)) (nr_irqs t) k"

text \<open>The answers to the two allocations and to the registration of the misc device.\<close>

record irq_env =
  page :: "c_int list kptr"
  misc :: bool
  events :: "c_int list kptr"
  share :: "nat \<Rightarrow> bool"
  lines :: nat

(* src: interrupts/lab_all_interrupt.h:113-128 my_generic_init *)
definition my_all_init :: "irq_env \<Rightarrow> irq_res ledger \<Rightarrow> (int \<times> irq_table \<times> irq_res ledger) kresult" where
  "my_all_init e k =
     (let t = \<lparr>nr_irqs = lines e, ramdisk = page e, nevents = NULL\<rparr>;
          k = (if nonnull (page e) then acquire IrqPage k else k)
      in if \<not> misc e then Inr (- EBUSY, t, k)
      else
        let k = acquire IrqMisc k;
            t = t\<lparr>nevents := events e\<rparr>;
            k = (if nonnull (events e) then acquire IrqEvents k else k)
        in case get_irqs (share e) (t, k) of
             Inl f \<Rightarrow> Inl f
           | Inr (t, k) \<Rightarrow> Inr (0, t, k))"

(* src: interrupts/lab_all_interrupt.h:130-137 my_generic_exit *)
definition my_all_exit :: "irq_table \<Rightarrow> irq_res ledger \<Rightarrow> irq_res ledger kresult" where
  "my_all_exit t k =
     (case freeup_irqs t k of
        Inl f \<Rightarrow> Inl f
      | Inr k \<Rightarrow>
          let k = release IrqMisc k;
              k = (if nonnull (ramdisk t) then release IrqPage k else k)
          in Inr (if nonnull (nevents t) then release IrqEvents k else k))"

lemma for_irqs_fails: "for_irqs f k s = Inl e \<Longrightarrow> k \<le> n \<Longrightarrow> for_irqs f n s = Inl e"
  by (induction n) (auto simp: le_Suc_eq)

section \<open>What the loop fills\<close>

definition table_of :: "nat \<Rightarrow> c_int list \<Rightarrow> c_int list \<Rightarrow> irq_table" where
  "table_of n m q = \<lparr>nr_irqs = n, ramdisk = Ptr m, nevents = Ptr q\<rparr>"

text \<open>The page after the first \<open>k\<close> rounds of the loop.\<close>

definition filled :: "(nat \<Rightarrow> bool) \<Rightarrow> nat \<Rightarrow> nat \<Rightarrow> c_int list \<Rightarrow> c_int list \<Rightarrow> bool" where
  "filled granted n k m m' \<longleftrightarrow>
     length m' = length m \<and> (\<forall>i < k. m' ! i = (if granted i then 0 else -1) \<and> m' ! (n + i) = 0)"

lemma get_irqs_prefix:
  assumes "n \<le> length q" and "k \<le> n" and "k = 0 \<or> n + k \<le> length m"
  shows "\<exists>m' q' l. for_irqs (get_irq granted) k (table_of n m q, l0) = Inr (table_of n m' q', l) \<and>
    filled granted n k m m' \<and> length q' = length q \<and> faults l = faults l0 \<and>
    held l = rev (map IrqLine (filter granted [0..<k])) @ held l0"
  using assms(2,3)
proof (induction k)
  case 0
  then show ?case by (auto simp: filled_def)
next
  case (Suc k)
  then obtain m' q' l where IH: "for_irqs (get_irq granted) k (table_of n m q, l0) = Inr (table_of n m' q', l)"
    "filled granted n k m m'" "length q' = length q" "faults l = faults l0"
    "held l = rev (map IrqLine (filter granted [0..<k])) @ held l0"
    by fastforce
  let ?p = "m'[k := -1, n + k := 0]"
  let ?m = "if granted k then ?p[k := 0] else ?p"
  have len: "k < length m'" "n + k < length m'" "k < length q'"
    using assms Suc.prems IH(2,3) by (auto simp: filled_def)
  have "get_irq granted k (table_of n m' q', l) =
      Inr (table_of n ?m (q'[k := 0]), if granted k then acquire (IrqLine k) l else l)"
    using len by (simp add: get_irq_def table_of_def at_defs)
  moreover have "filled granted n (Suc k) m ?m"
    using IH(2) len Suc.prems by (auto simp: filled_def less_Suc_eq nth_list_update)
  ultimately show ?case
    using IH by (auto simp: table_of_def)
qed

text \<open>C15: The lines' counters fit the page exactly when there are at most 512 lines, since two counters
  of four bytes go with each: then loading marks every line that could be shared with 0 and every other
  with -1, clears all bottom half counters, and holds exactly the lines that could be shared;
  with more lines the loop writes past the page.\<close>

theorem get_irqs_layout:
  assumes "length m = 1024" and "length q = n"
  shows "(n \<le> 512 \<longrightarrow>
      (\<exists>m' q' l. get_irqs granted (table_of n m q, k) = Inr (table_of n m' q', l) \<and>
         (\<forall>i < n. m' ! i = (if granted i then 0 else -1) \<and> m' ! (n + i) = 0) \<and>
         held l = rev (map IrqLine (filter granted [0..<n])) @ held k \<and> faults l = faults k)) \<and>
    (512 < n \<longrightarrow> get_irqs granted (table_of n m q, k) = Inl OutOfBounds)"
proof (intro conjI impI)
  assume "n \<le> 512"
  with get_irqs_prefix [of n q n m granted k] assms
  show "\<exists>m' q' l. get_irqs granted (table_of n m q, k) = Inr (table_of n m' q', l) \<and>
         (\<forall>i < n. m' ! i = (if granted i then 0 else -1) \<and> m' ! (n + i) = 0) \<and>
         held l = rev (map IrqLine (filter granted [0..<n])) @ held k \<and> faults l = faults k"
    by (auto simp: get_irqs_def table_of_def filled_def)
next
  assume n: "512 < n"
  let ?k = "1024 - n"
  obtain m' q' l where r: "for_irqs (get_irq granted) ?k (table_of n m q, k) = Inr (table_of n m' q', l)"
    and m': "length m' = 1024"
    using get_irqs_prefix [of n q ?k m granted k] assms n by (fastforce simp: filled_def)
  have "get_irq granted ?k (table_of n m' q', l) = Inl OutOfBounds"
    using m' n by (simp add: get_irq_def table_of_def at_defs)
  with r have "for_irqs (get_irq granted) (Suc ?k) (table_of n m q, k) = Inl OutOfBounds" by simp
  from for_irqs_fails [OF this, of n] n show "get_irqs granted (table_of n m q, k) = Inl OutOfBounds"
    by (simp add: get_irqs_def table_of_def)
qed

theorem get_irqs_layout_witness:
  "get_irqs (\<lambda>_. True) (table_of 600 (replicate 1024 0) (replicate 600 0), empty_ledger) = Inl OutOfBounds"
  by (rule get_irqs_layout [THEN conjunct2, THEN mp]) simp_all

text \<open>Unloading frees the lines whose counter is not negative.\<close>

lemma freeup_prefix:
  assumes "k \<le> length m"
  shows "for_irqs (\<lambda>irq k. case atomic_read (Ptr m) (interrupts_at irq) of
         Inl f \<Rightarrow> Inl f
       | Inr v \<Rightarrow> Inr (if 0 \<le> sint v then release (IrqLine irq) k else k)) k l =
     Inr (release_all (map IrqLine (filter (\<lambda>i. 0 \<le> sint (m ! i)) [0..<k])) l)"
  using assms by (induction k) (simp_all add: at_defs)

lemma freeup_irqs_lines:
  assumes "n \<le> length m"
  shows "freeup_irqs (table_of n m q) l =
    Inr (release_all (map IrqLine (filter (\<lambda>i. 0 \<le> sint (m ! i)) [0..<n])) l)"
  using freeup_prefix [OF assms] by (simp add: freeup_irqs_def table_of_def)

text \<open>Unloading frees exactly the lines that loading got, and everything else, provided no line had
  \<open>2\<^sup>3\<^sup>1\<close> interrupts: a counter that has become negative looks like a line that was never shared, and
  its handler stays installed in a module that is gone.\<close>

theorem all_lines_freed:
  assumes "n \<le> length m" and "held l = rev (map IrqLine (filter granted [0..<n])) @ h"
    and "\<forall>i < n. \<not> granted i \<longrightarrow> m ! i = -1"
  shows "((\<forall>i < n. granted i \<longrightarrow> unat (m ! i) < 2 ^ 31) \<longrightarrow>
      (\<exists>l'. freeup_irqs (table_of n m q) l = Inr l' \<and> held l' = h \<and> faults l' = faults l)) \<and>
    (i < n \<and> granted i \<and> sint (m ! i) < 0 \<longrightarrow>
      (\<exists>l'. freeup_irqs (table_of n m q) l = Inr l' \<and> IrqLine i \<in> set (held l')))"
proof (intro conjI impI)
  assume few: "\<forall>i < n. granted i \<longrightarrow> unat (m ! i) < 2 ^ 31"
  have "(0 \<le> sint (m ! i)) = granted i" if "i < n" for i
    using few assms(3) that by (cases "granted i") (auto simp: sint_small_32)
  then have "filter (\<lambda>i. 0 \<le> sint (m ! i)) [0..<n] = filter granted [0..<n]"
    by (intro filter_cong) auto
  moreover have "distinct (map IrqLine (filter granted [0..<n]))" by (simp add: distinct_map inj_on_def)
  ultimately show "\<exists>l'. freeup_irqs (table_of n m q) l = Inr l' \<and> held l' = h \<and> faults l' = faults l"
    using release_all_owned [OF _ _ _ assms(2)] by (simp add: freeup_irqs_lines [OF assms(1)])
next
  assume i: "i < n \<and> granted i \<and> sint (m ! i) < 0"
  let ?rs = "map IrqLine (filter (\<lambda>i. 0 \<le> sint (m ! i)) [0..<n])"
  have "IrqLine i \<in> set (held l)" and "IrqLine i \<notin> set ?rs" using i assms(2) by auto
  then have "IrqLine i \<in> set (held (release_all ?rs l))" by (rule release_all_keeps)
  then show "\<exists>l'. freeup_irqs (table_of n m q) l = Inr l' \<and> IrqLine i \<in> set (held l')"
    by (simp add: freeup_irqs_lines [OF assms(1)])
qed

theorem all_lines_freed_witness:
  "\<exists>l'. freeup_irqs (table_of 2 [-1, 0x80000000, 0, 0] []) \<lparr>held = [IrqLine 1], faults = []\<rparr> = Inr l' \<and>
     IrqLine 1 \<in> set (held l')"
proof (rule all_lines_freed [THEN conjunct2, THEN mp, of 2 _ _ "\<lambda>i. i = 1" "[]" 1])
  show "1 < (2 :: nat) \<and> (1 :: nat) = 1 \<and> sint ([-1, 0x80000000, 0, 0 :: c_int] ! 1) < 0" by simp
qed (simp_all add: upt_rec less_Suc_eq numeral_2_eq_2)

section \<open>The page as user space reads it\<close>

definition le_bytes :: "c_int \<Rightarrow> byte list" where
  "le_bytes v = map (\<lambda>k. ucast (drop_bit (8 * k) v)) [0, 1, 2, 3]"

definition page_bytes :: "c_int list kptr \<Rightarrow> byte list kptr" where
  "page_bytes p =
     (case p of NULL \<Rightarrow> NULL | ERR_PTR n \<Rightarrow> ERR_PTR n | Ptr m \<Rightarrow> Ptr (concat (map le_bytes m)))"

(* src: interrupts/lab_all_interrupt.h:87-100 mycdrv_read *)
definition table_read :: "size_t \<Rightarrow> loff_t \<Rightarrow> size_t \<Rightarrow> irq_table \<Rightarrow> (int \<times> byte list \<times> loff_t) kresult" where
  "table_read lbuf ppos uleft t =
     (let maxbytes = (ucast (PAGE_SIZE - ppos) :: c_int);
          bytes_to_do = (if lbuf < (scast maxbytes :: size_t) then ucast lbuf else maxbytes);
          n = (scast bytes_to_do :: size_t)
      in case (if n = 0 then Inr [] else kmem_load (page_bytes (ramdisk t)) ppos n) of
        Inl f \<Rightarrow> Inl f
      | Inr src \<Rightarrow>
          let nbytes = (ucast (n - uleft) :: c_int)
          in Inr (sint nbytes, copied_out n uleft src, ppos + scast nbytes))"

lemma length_le_bytes [simp]: "length (le_bytes v) = 4"
  by (simp add: le_bytes_def)

lemma length_page: "length (concat (map le_bytes m)) = 4 * length m"
  by (induction m) simp_all

lemma page_cell: "i < length m \<Longrightarrow> get_range (4 * i) 4 (concat (map le_bytes m)) = le_bytes (m ! i)"
proof (induction m arbitrary: i)
  case Nil
  then show ?case by simp
next
  case (Cons v m)
  then show ?case by (cases i) (simp_all add: get_range_def)
qed

lemma table_read_at:
  assumes "length m = 1024" and "unat p = 4 * i" and "i < 1024" and "ramdisk t = Ptr m"
  shows "table_read 4 p 0 t = Inr (4, le_bytes (m ! i), p + 4)"
proof -
  have "sint p = int (unat p)" using assms(2,3) by (intro sint_small_64) simp
  then have v: "vfs_rw_ok 4 p" by (simp only: vfs_rw_ok_def of_nat_0_le_iff) simp
  have u: "unat (4096 - p) = 4096 - 4 * i"
    using assms(2,3) by (subst unat_sub) (simp_all add: word_le_nat_alt)
  then have s: "(scast (ucast (4096 - p) :: c_int) :: size_t) = 4096 - p"
    by (intro scast_ucast_small) simp
  show ?thesis
  proof (cases "4 < 4096 - p")
    case True
    with assms v show ?thesis
      by (simp add: table_read_def s Let_def page_bytes_def kmem_load_ok length_page page_cell)
  next
    case False
    with u assms(3) have "i = 1023" by (simp add: word_less_nat_alt)
    moreover from this assms(2) have "p = 4092" by (simp add: word_unat_eq_iff)
    ultimately show ?thesis
      using assms v page_cell [of 1023 m]
      by (simp add: table_read_def Let_def page_bytes_def kmem_load_ok length_page)
  qed
qed

text \<open>Reading four bytes at offset \<open>4 i\<close> of the device gives counter \<open>i\<close> of the page, little end first, and
  moves the position past it.\<close>

theorem table_read_counter:
  assumes "length m = 1024" and "i < 1024" and "ramdisk t = Ptr m"
  shows "table_read 4 (of_nat (4 * i)) 0 t = Inr (4, le_bytes (m ! i), of_nat (4 * i) + 4)"
  using assms(2) by (intro table_read_at [OF assms(1) _ assms(2,3)]) (simp del: of_nat_mult)

theorem table_read_counter_witness:
  "table_read 4 (of_nat (4 * 3)) 0 (table_of 512 (replicate 1024 258) []) = Inr (4, [2, 1, 0, 0], of_nat (4 * 3) + 4)"
  using table_read_counter [of "replicate 1024 258" 3 "table_of 512 (replicate 1024 258) []"]
  by (simp add: table_of_def le_bytes_def)

section \<open>One tasklet for all lines\<close>

text \<open>
  On one CPU a handler is not interrupted by another one; it can interrupt the tasklet between
  the load of the line's number and the increment. \<open>loaded\<close> is the number the tasklet loaded.
\<close>

(* src: interrupts/lab6_all_tasklet.c:22-24 my_data *)
record shared_sys =
  shared_table :: irq_table
  data_irq :: nat
  shared_pending :: bool
  loaded :: "nat option"

(* src: interrupts/lab6_all_tasklet.c:34-43 my_interrupt *)
definition shared_isr :: "nat \<Rightarrow> shared_sys \<Rightarrow> shared_sys kresult" where
  "shared_isr irq s =
     (case atomic_inc (ramdisk (shared_table s)) (interrupts_at irq) of
        Inl f \<Rightarrow> Inl f
      | Inr p \<Rightarrow> Inr (s\<lparr>data_irq := irq, shared_table := (shared_table s)\<lparr>ramdisk := p\<rparr>, shared_pending := True\<rparr>))"

(* src: interrupts/lab6_all_tasklet.c:26-32 t_fun, t *)
definition shared_bh :: "shared_sys \<Rightarrow> shared_sys kresult option" where
  "shared_bh s =
     (case loaded s of
        None \<Rightarrow> if shared_pending s then Some (Inr (s\<lparr>shared_pending := False, loaded := Some (data_irq s)\<rparr>)) else None
      | Some irq \<Rightarrow>
          Some (case atomic_inc (ramdisk (shared_table s)) (bhs_at (shared_table s) irq) of
                  Inl f \<Rightarrow> Inl f
                | Inr p \<Rightarrow> Inr (s\<lparr>shared_table := (shared_table s)\<lparr>ramdisk := p\<rparr>, loaded := None\<rparr>)))"

datatype line_event = Interrupt nat bool | Tasklet

fun shared_step :: "shared_sys \<Rightarrow> line_event \<Rightarrow> shared_sys \<Rightarrow> bool" where
  "shared_step s (Interrupt irq a) t \<longleftrightarrow> shared_isr irq s = Inr t"
| "shared_step s Tasklet t \<longleftrightarrow> shared_bh s = Some (Inr t)"

definition shared_of :: "irq_table \<Rightarrow> shared_sys" where
  "shared_of t = \<lparr>shared_table = t, data_irq = 0, shared_pending = False, loaded = None\<rparr>"

section \<open>A tasklet for each interrupt\<close>

text \<open>\<open>queued\<close> holds the arguments of the tasklets that are scheduled, the oldest first.\<close>

(* src: interrupts/lab7_all_tasklet_dynamic.c:22-25 my_dat *)
record dyn_sys =
  dyn_table :: irq_table
  queued :: "nat list"

text \<open>The handler does not test its allocation, whose answer is \<open>alloc\<close>.\<close>

(* src: interrupts/lab7_all_tasklet_dynamic.c:34-47 my_interrupt *)
definition dyn_isr :: "bool \<Rightarrow> nat \<Rightarrow> dyn_sys \<Rightarrow> dyn_sys kresult" where
  "dyn_isr alloc irq s =
     (if \<not> alloc then Inl NullDeref
      else case atomic_inc (ramdisk (dyn_table s)) (interrupts_at irq) of
        Inl f \<Rightarrow> Inl f
      | Inr p \<Rightarrow> Inr (s\<lparr>dyn_table := (dyn_table s)\<lparr>ramdisk := p\<rparr>, queued := queued s @ [irq]\<rparr>))"

(* src: interrupts/lab7_all_tasklet_dynamic.c:27-32 t_fun *)
definition dyn_bh :: "dyn_sys \<Rightarrow> dyn_sys kresult option" where
  "dyn_bh s =
     (case queued s of
        [] \<Rightarrow> None
      | irq # q \<Rightarrow>
          Some (case atomic_inc (ramdisk (dyn_table s)) (bhs_at (dyn_table s) irq) of
                  Inl f \<Rightarrow> Inl f
                | Inr p \<Rightarrow> Inr (s\<lparr>dyn_table := (dyn_table s)\<lparr>ramdisk := p\<rparr>, queued := q\<rparr>)))"

fun dyn_step :: "dyn_sys \<Rightarrow> line_event \<Rightarrow> dyn_sys \<Rightarrow> bool" where
  "dyn_step s (Interrupt irq a) t \<longleftrightarrow> irq < nr_irqs (dyn_table s) \<and> dyn_isr a irq s = Inr t"
| "dyn_step s Tasklet t \<longleftrightarrow> dyn_bh s = Some (Inr t)"

text \<open>For every line, the interrupts are the bottom halves that ran and those that are queued.\<close>

definition base :: "(nat \<Rightarrow> bool) \<Rightarrow> nat \<Rightarrow> c_int" where
  "base granted i = (if granted i then 0 else -1)"

definition dyn_inv :: "(nat \<Rightarrow> bool) \<Rightarrow> nat \<Rightarrow> dyn_sys \<Rightarrow> bool" where
  "dyn_inv granted n s \<longleftrightarrow>
     (\<exists>m. ramdisk (dyn_table s) = Ptr m \<and> nr_irqs (dyn_table s) = n \<and> n + n \<le> length m \<and>
        set (queued s) \<subseteq> {..<n} \<and>
        (\<forall>i < n. m ! i = base granted i + m ! (n + i) + of_nat (count_list (queued s) i)))"

lemma dyn_isr_inv:
  assumes "dyn_inv granted n s" and "irq < n"
  shows "\<exists>t. dyn_isr True irq s = Inr t \<and> dyn_inv granted n t"
proof -
  obtain m where m: "ramdisk (dyn_table s) = Ptr m" "nr_irqs (dyn_table s) = n" "n + n \<le> length m"
    "set (queued s) \<subseteq> {..<n}" "\<forall>i < n. m ! i = base granted i + m ! (n + i) + of_nat (count_list (queued s) i)"
    using assms(1) by (auto simp: dyn_inv_def)
  let ?m = "m[irq := m ! irq + 1]"
  have "?m ! i = base granted i + ?m ! (n + i) + of_nat (count_list (queued s @ [irq]) i)" if "i < n" for i
    using m(3,5) that assms(2) by (cases "i = irq") simp_all
  with m assms(2) show ?thesis
    by (intro exI [of _ "s\<lparr>dyn_table := (dyn_table s)\<lparr>ramdisk := Ptr ?m\<rparr>, queued := queued s @ [irq]\<rparr>"])
      (auto simp: dyn_isr_def dyn_inv_def at_defs)
qed

lemma dyn_bh_inv:
  assumes "dyn_inv granted n s" and "queued s \<noteq> []"
  shows "\<exists>t. dyn_bh s = Some (Inr t) \<and> dyn_inv granted n t"
proof -
  obtain m where m: "ramdisk (dyn_table s) = Ptr m" "nr_irqs (dyn_table s) = n" "n + n \<le> length m"
    "set (queued s) \<subseteq> {..<n}" "\<forall>i < n. m ! i = base granted i + m ! (n + i) + of_nat (count_list (queued s) i)"
    using assms(1) by (auto simp: dyn_inv_def)
  obtain irq q where q: "queued s = irq # q" using assms(2) by (cases "queued s") auto
  let ?m = "m[n + irq := m ! (n + irq) + 1]"
  have irq: "irq < n" using m(4) q by auto
  have "?m ! i = base granted i + ?m ! (n + i) + of_nat (count_list q i)" if "i < n" for i
    using m(3,5) that irq q by (cases "i = irq") simp_all
  with m q irq show ?thesis
    by (intro exI [of _ "s\<lparr>dyn_table := (dyn_table s)\<lparr>ramdisk := Ptr ?m\<rparr>, queued := q\<rparr>"])
      (auto simp: dyn_bh_def dyn_inv_def at_defs)
qed

lemma dyn_step_inv: "dyn_inv granted n s \<Longrightarrow> dyn_step s ev t \<Longrightarrow> dyn_inv granted n t"
proof (cases ev)
  case (Interrupt irq a)
  assume inv: "dyn_inv granted n s" and st: "dyn_step s ev t"
  with Interrupt have "irq < n" and "dyn_isr True irq s = Inr t"
    by (auto simp: dyn_inv_def dyn_isr_def split: if_splits)
  with dyn_isr_inv [OF inv, of irq] show ?thesis by auto
next
  case Tasklet
  assume inv: "dyn_inv granted n s" and st: "dyn_step s ev t"
  with Tasklet have t: "dyn_bh s = Some (Inr t)" by simp
  then have "queued s \<noteq> []" by (auto simp: dyn_bh_def)
  with dyn_bh_inv [OF inv] t show ?thesis by auto
qed

interpretation dyn_lines: invariant_system "\<lambda>s. dyn_inv granted n s \<and> queued s = []" dyn_step
    "dyn_inv granted n" for granted n
  using dyn_step_inv by unfold_locales auto

definition dyn_of :: "irq_table \<Rightarrow> dyn_sys" where
  "dyn_of t = \<lparr>dyn_table = t, queued = []\<rparr>"

lemma dyn_inv_start: "n + n \<le> length m \<Longrightarrow> filled granted n n m0 m \<Longrightarrow> dyn_inv granted n (dyn_of (table_of n m q))"
  by (auto simp: dyn_inv_def dyn_of_def table_of_def filled_def base_def)

text \<open>C14: With a tasklet for each interrupt, every line's bottom half counter is, whenever no tasklet
  is queued, that line's interrupt counter (which started at 0 on a shared line and at -1
  on another): nothing is lost and nothing is charged to another line; and no step touches memory
  outside the page as long as the allocations succeed.\<close>

theorem dyn_counts_per_line:
  assumes "n + n \<le> length m" and "filled granted n n m0 m"
    and "run dyn_step (dyn_of (table_of n m q)) evs s"
  shows "(\<exists>m'. ramdisk (dyn_table s) = Ptr m' \<and>
      (\<forall>i < n. m' ! i = (if granted i then 0 else -1) + m' ! (n + i) + of_nat (count_list (queued s) i))) \<and>
    (\<forall>irq < n. \<exists>t. dyn_isr True irq s = Inr t) \<and> (queued s \<noteq> [] \<longrightarrow> (\<exists>t. dyn_bh s = Some (Inr t)))"
proof -
  have inv: "dyn_inv granted n s"
    using dyn_inv_start [OF assms(1,2)] assms(3)
    by (intro dyn_lines.inv_reachable [of _ _ "dyn_of (table_of n m q)"]) (auto simp: dyn_of_def)
  moreover from dyn_isr_inv [OF inv] have "\<forall>irq < n. \<exists>t. dyn_isr True irq s = Inr t" by blast
  moreover from dyn_bh_inv [OF inv] have "queued s \<noteq> [] \<longrightarrow> (\<exists>t. dyn_bh s = Some (Inr t))" by blast
  ultimately show ?thesis unfolding dyn_inv_def base_def by blast
qed

definition two_lines :: "line_event list" where
  "two_lines = [Interrupt 0 True, Interrupt 1 True, Tasklet, Tasklet]"

theorem dyn_counts_per_line_witness:
  "\<exists>s m'. run dyn_step (dyn_of (table_of 2 [0, 0, 0, 0] [0, 0])) two_lines s \<and>
     ramdisk (dyn_table s) = Ptr m' \<and> m' ! 0 = m' ! 2 \<and> m' ! 1 = m' ! 3"
proof -
  let ?s = "dyn_of (table_of 2 [0, 0, 0, 0] [0, 0])"
  have "\<exists>s. run dyn_step ?s two_lines s \<and> queued s = []"
    by (simp add: two_lines_def run_cons_iff dyn_isr_def dyn_bh_def dyn_of_def table_of_def at_defs numeral_2_eq_2)
  then obtain s where r: "run dyn_step ?s two_lines s" and q: "queued s = []" by blast
  have f: "filled (\<lambda>_. True) 2 2 [0, 0, 0, 0] [0, 0, 0, 0]"
    by (simp add: filled_def less_Suc_eq numeral_2_eq_2)
  from dyn_counts_per_line [OF _ f r] obtain m' where "ramdisk (dyn_table s) = Ptr m'"
    and "\<forall>i < 2. m' ! i = m' ! (2 + i)" using q by auto
  with r show ?thesis by (intro exI [of _ s] exI [of _ m']) (auto simp: less_Suc_eq eval_nat_numeral)
qed

text \<open>With one tasklet for all lines, an interrupt of line 1 that comes before the tasklet ran for
  line 0 takes over its argument: one bottom half is counted for the two interrupts, on line 1, and with the
  next interrupt of line 1 that line has counted as many bottom halves as interrupts while line 0
  has none.\<close>

theorem shared_tasklet_misattributes:
  "\<exists>s. run shared_step (shared_of (table_of 2 [0, 0, 0, 0] [0, 0]))
      [Interrupt 0 True, Interrupt 1 True, Tasklet, Tasklet, Interrupt 1 True, Tasklet, Tasklet] s \<and>
    ramdisk (shared_table s) = Ptr [1, 2, 0, 2] \<and> \<not> shared_pending s \<and> loaded s = None"
  by (simp add: run_cons_iff shared_isr_def shared_bh_def shared_of_def table_of_def at_defs eval_nat_numeral)

end
