(* ===== verification/Printf.thy ===== *)
theory Printf
  imports Prelude
begin

text \<open>
  What the drivers use of C's formatted output: decimal and hexadecimal conversions, padding
  on the left, and \<open>sprintf\<close> into a buffer of known size. The lemmas bound the length of a
  conversion and read a number back.
\<close>

section \<open>Digits\<close>

definition digit :: "nat \<Rightarrow> char" where
  "digit d = char_of (if d < 10 then 48 + d else 87 + d)"

definition digit_value :: "char \<Rightarrow> nat" where
  "digit_value c = (let k = (of_char c :: nat) in if k < 58 then k - 48 else k - 87)"

lemma digit_value_digit [simp]: "d < 16 \<Longrightarrow> digit_value (digit d) = d"
  by (simp add: digit_def digit_value_def Let_def)

lemma digit_not_space [simp]: "d < 16 \<Longrightarrow> digit d \<noteq> CHR '' ''"
proof
  assume d: "d < 16" and eq: "digit d = CHR '' ''"
  have "of_char (digit d) = (if d < 10 then 48 + d else 87 + d :: nat)" using d by (simp add: digit_def)
  moreover have "of_char (CHR '' '') = (32 :: nat)" by simp
  ultimately show False using eq by (auto split: if_splits)
qed

text \<open>The digits of a number in a base, most significant first.\<close>

function digits :: "nat \<Rightarrow> nat \<Rightarrow> string" where
  "digits b n = (if n < b \<or> b < 2 then [digit n] else digits b (n div b) @ [digit (n mod b)])"
  by pat_completeness auto
termination
  by (relation "measure snd") (auto intro: div_less_dividend)

declare digits.simps [simp del]

lemma digits_nonempty [simp]: "digits b n \<noteq> []"
  by (subst digits.simps) simp

lemma length_digits: "2 \<le> b \<Longrightarrow> n < b ^ k \<Longrightarrow> 0 < k \<Longrightarrow> length (digits b n) \<le> k"
proof (induction k arbitrary: n)
  case 0
  then show ?case by simp
next
  case (Suc k)
  show ?case
  proof (cases "n < b")
    case True
    then show ?thesis by (subst digits.simps) simp
  next
    case False
    then have "0 < k" using Suc.prems(2) by (cases k) auto
    have "n div b < b ^ k"
      using Suc.prems(1,2) by (simp add: less_mult_imp_div_less mult.commute)
    from Suc.IH [OF Suc.prems(1) this \<open>0 < k\<close>] False Suc.prems(1) show ?thesis
      by (subst digits.simps) simp
  qed
qed

definition undigits :: "nat \<Rightarrow> string \<Rightarrow> nat" where
  "undigits b s = foldl (\<lambda>a c. b * a + digit_value c) 0 s"

lemma undigits_snoc: "undigits b (s @ [c]) = b * undigits b s + digit_value c"
  by (simp add: undigits_def)

lemma undigits_digits: "2 \<le> b \<Longrightarrow> b \<le> 16 \<Longrightarrow> undigits b (digits b n) = n"
proof (induction n rule: less_induct)
  case (less n)
  show ?case
  proof (cases "n < b")
    case True
    with less.prems show ?thesis by (subst digits.simps) (simp add: undigits_def)
  next
    case False
    then have "undigits b (digits b (n div b)) = n div b" using less by simp
    moreover have "n mod b < 16" using less.prems mod_less_divisor [of b n] by linarith
    ultimately show ?thesis using False less.prems by (subst digits.simps) (simp add: undigits_snoc)
  qed
qed

lemma digits_no_space: "2 \<le> b \<Longrightarrow> b \<le> 16 \<Longrightarrow> CHR '' '' \<notin> set (digits b n)"
proof (induction n rule: less_induct)
  case (less n)
  show ?case
  proof (cases "n < b")
    case True
    with less.prems show ?thesis by (subst digits.simps) (auto dest: sym)
  next
    case False
    have "n mod b < 16" using less.prems mod_less_divisor [of b n] by linarith
    with False less show ?thesis by (subst digits.simps) (auto dest: sym)
  qed
qed

lemma digits_no_nul: "2 \<le> b \<Longrightarrow> b \<le> 16 \<Longrightarrow> CHR 0x00 \<notin> set (digits b n)"
proof (induction n rule: less_induct)
  case (less n)
  have d: "digit k \<noteq> CHR 0x00" if "k < 16" for k
  proof
    assume "digit k = CHR 0x00"
    then have "(of_char (digit k) :: nat) = 0" by simp
    with that show False by (auto simp: digit_def split: if_splits)
  qed
  show ?case
  proof (cases "n < b")
    case True
    with less.prems d show ?thesis by (subst digits.simps) (auto dest: sym)
  next
    case False
    have "n mod b < 16" using less.prems mod_less_divisor [of b n] by linarith
    with False less d show ?thesis by (subst digits.simps) (auto dest: sym)
  qed
qed

section \<open>Conversions\<close>

definition fmt_d :: "int \<Rightarrow> string" where
  "fmt_d i = (if i < 0 then CHR ''-'' # digits 10 (nat (- i)) else digits 10 (nat i))"

definition fmt_x :: "nat \<Rightarrow> string" where
  "fmt_x n = digits 16 n"

definition pad :: "nat \<Rightarrow> string \<Rightarrow> string" where
  "pad w s = replicate (w - length s) (CHR '' '') @ s"

lemma length_pad: "length (pad w s) = max w (length s)"
  by (simp add: pad_def)

lemma length_pad_bounds: "length s \<le> k \<Longrightarrow> w \<le> k \<Longrightarrow> w \<le> length (pad w s) \<and> length (pad w s) \<le> k"
  by (simp add: length_pad)

lemma fmt_d_nonempty [simp]: "fmt_d i \<noteq> []"
  by (simp add: fmt_d_def)

lemma length_fmt_d:
  assumes "\<bar>i\<bar> < 10 ^ k" and "0 < k"
  shows "length (fmt_d i) \<le> Suc k"
proof -
  have "nat \<bar>i\<bar> < 10 ^ k" using assms(1) by (simp add: nat_less_iff)
  from length_digits [OF _ this assms(2)] show ?thesis
    by (cases "i < 0") (auto simp: fmt_d_def)
qed

lemma length_fmt_int: "- (2 ^ 31) \<le> i \<Longrightarrow> i < 2 ^ 31 \<Longrightarrow> length (fmt_d i) \<le> 11"
  using length_fmt_d [of i 10] by simp

lemma length_fmt_long: "length (fmt_d (sint (w :: 64 word))) \<le> 20"
proof -
  have "- (2 ^ 63) \<le> sint w" and "sint w < 2 ^ 63"
    using sint_ge [of w] sint_lt [of w] by simp_all
  then show ?thesis using length_fmt_d [of "sint w" 19] by simp
qed

text \<open>A padded conversion is read back by dropping the padding.\<close>

definition unpad :: "string \<Rightarrow> string" where
  "unpad s = dropWhile (\<lambda>c. c = CHR '' '') s"

lemma unpad_pad: "s \<noteq> [] \<Longrightarrow> CHR '' '' \<notin> set s \<Longrightarrow> unpad (pad w s) = s"
proof -
  assume "s \<noteq> []" and "CHR '' '' \<notin> set s"
  moreover have "dropWhile (\<lambda>c. c = CHR '' '') (replicate k (CHR '' '') @ s) = dropWhile (\<lambda>c. c = CHR '' '') s" for k
    by (induction k) simp_all
  ultimately show ?thesis by (cases s) (auto simp: unpad_def pad_def)
qed

lemma read_hex: "undigits 16 (unpad (pad w (fmt_x n))) = n"
  using digits_no_space [of 16 n] by (simp add: unpad_pad fmt_x_def undigits_digits)

lemma read_dec: "undigits 10 (unpad (pad w (digits 10 n))) = n"
  using digits_no_space [of 10 n] by (simp add: unpad_pad undigits_digits)

section \<open>Printing into a buffer\<close>

text \<open>\<open>sprintf\<close> at an offset of a buffer stores the text and a terminating zero.\<close>

definition sprintf_at :: "nat \<Rightarrow> string \<Rightarrow> string \<Rightarrow> string kresult" where
  "sprintf_at off s buf =
     (if off + length s < length buf then Inr (put_range off (s @ [CHR 0x00]) buf) else Inl OutOfBounds)"

lemma sprintf_ok: "off + length s < length buf \<Longrightarrow> sprintf_at off s buf = Inr (put_range off (s @ [CHR 0x00]) buf)"
  by (simp add: sprintf_at_def)

text \<open>Text that is printed where the last text ended follows it.\<close>

lemma sprintf_append:
  assumes "sprintf_at off s buf = Inr buf'" and "take off buf = t" and "length t = off"
  shows "take (off + length s) buf' = t @ s \<and> length buf' = length buf"
proof -
  from assms(1) have b: "off + length s < length buf" and
    buf': "buf' = put_range off (s @ [CHR 0x00]) buf"
    by (auto simp: sprintf_at_def split: if_splits)
  from b assms(2,3) show ?thesis by (auto simp: buf' put_range_def min_def)
qed

section \<open>Scanning\<close>

definition is_digit :: "char \<Rightarrow> bool" where
  "is_digit c \<longleftrightarrow> (48 :: nat) \<le> of_char c \<and> of_char c \<le> (57 :: nat)"

definition is_space :: "char \<Rightarrow> bool" where
  "is_space c \<longleftrightarrow> of_char c \<in> {9, 10, 11, 12, 13, 32 :: nat}"

text \<open>
  \<open>sscanf(str, "%d", &v)\<close>, where \<open>str\<close> points to an object of the given characters: white space, an
  optional sign, digits; the number is cut to an \<open>int\<close>. The scan looks at one character
  after the last digit, wherever that is. The result is none when there is no number.
\<close>

definition scan_digits :: "string \<Rightarrow> nat option kresult" where
  "scan_digits s =
     (let ds = takeWhile is_digit s
      in if length ds = length s then Inl OutOfBounds
         else Inr (if ds = [] then None else Some (undigits 10 ds)))"

definition sscanf_d :: "string \<Rightarrow> int option kresult" where
  "sscanf_d s =
     (case dropWhile is_space s of
        [] \<Rightarrow> Inl OutOfBounds
      | c # r \<Rightarrow>
          let neg = (c = CHR ''-'');
              r = (if neg \<or> c = CHR ''+'' then r else c # r)
          in case scan_digits r of
               Inl f \<Rightarrow> Inl f
             | Inr None \<Rightarrow> Inr None
             | Inr (Some n) \<Rightarrow> Inr (Some (sint (word_of_int (if neg then - int n else int n) :: c_int))))"

lemma is_digit_digit [simp]: "d < 10 \<Longrightarrow> is_digit (digit d)"
  by (simp add: is_digit_def digit_def)

lemma digits_decimal: "list_all is_digit (digits 10 n)"
proof (induction n rule: less_induct)
  case (less n)
  show ?case
  proof (cases "n < 10")
    case True
    then show ?thesis by (subst digits.simps) simp
  next
    case False
    with less [of "n div 10"] show ?thesis by (subst digits.simps) simp
  qed
qed

lemma scan_digits_ok:
  assumes "\<not> is_digit c"
  shows "scan_digits (digits 10 n @ c # s) = Inr (Some n)"
proof -
  have "takeWhile is_digit (digits 10 n @ c # s) = digits 10 n"
    using digits_decimal [of n] assms by (simp add: takeWhile_append2 list_all_iff)
  then show ?thesis by (simp add: scan_digits_def undigits_digits)
qed

lemma scan_digits_unterminated: "list_all is_digit s \<Longrightarrow> scan_digits s = Inl OutOfBounds"
proof -
  assume "list_all is_digit s"
  then have s: "takeWhile is_digit s = s" by (simp add: list_all_iff takeWhile_eq_all_conv)
  show ?thesis unfolding scan_digits_def s Let_def by simp
qed

lemma digit_not_sign: "is_digit c \<Longrightarrow> c \<noteq> CHR ''-'' \<and> c \<noteq> CHR ''+'' \<and> \<not> is_space c"
  by (auto simp: is_digit_def is_space_def)

text \<open>Scanning what was printed gives the number back, if something that is not a digit follows.\<close>

lemma sscanf_fmt_d:
  assumes "- (2 ^ 31) \<le> i" and "i < 2 ^ 31" and "\<not> is_digit c"
  shows "sscanf_d (fmt_d i @ c # s) = Inr (Some i)"
proof -
  have w: "sint (word_of_int i :: c_int) = i"
    using assms(1,2) signed_of_int [where ?'a = int and ?'b = 32, of i]
    by (simp add: signed_take_bit_int_eq_self)
  show ?thesis
  proof (cases "i < 0")
    case True
    then have f: "fmt_d i = CHR ''-'' # digits 10 (nat (- i))" by (simp add: fmt_d_def)
    have m: "\<not> is_space (CHR ''-'')" by (simp add: is_space_def)
    show ?thesis
      using True w scan_digits_ok [OF assms(3), of "nat (- i)" s]
      by (simp add: f sscanf_d_def m)
  next
    case False
    then have f: "fmt_d i = digits 10 (nat i)" by (simp add: fmt_d_def)
    obtain d ds where d: "digits 10 (nat i) = d # ds" using digits_nonempty by (metis list.exhaust)
    have "is_digit d" using digits_decimal [of "nat i"] d by simp
    with digit_not_sign have m: "\<not> is_space d" "d \<noteq> CHR ''-''" "d \<noteq> CHR ''+''" by auto
    have "scan_digits (d # ds @ c # s) = Inr (Some (nat i))"
      using scan_digits_ok [OF assms(3), of "nat i" s] by (simp add: d)
    then show ?thesis using False w m by (simp add: f d sscanf_d_def)
  qed
qed

text \<open>A number that fills its object is scanned beyond the object's end.\<close>

lemma sscanf_unterminated: "sscanf_d (digits 10 n) = Inl OutOfBounds"
proof -
  obtain d ds where d: "digits 10 n = d # ds" using digits_nonempty by (metis list.exhaust)
  have a: "list_all is_digit (d # ds)" using digits_decimal [of n] d by simp
  then have "is_digit d" by simp
  with digit_not_sign have "\<not> is_space d" "d \<noteq> CHR ''-''" "d \<noteq> CHR ''+''" by auto
  with scan_digits_unterminated [OF a] show ?thesis by (simp add: d sscanf_d_def)
qed

end
