(* ===== verification/Jiq.thy ===== *)
theory Jiq
  imports Printf Interfaces
begin

text \<open>
  \<open>src/timers/lab8_jiq.c\<close>: reading a proc file queues a piece of work, a delayed piece of work or a
  tasklet, which prints a line into the reader's page and queues itself again until the page
  is nearly full, and then wakes the reader; a fourth file uses a timer once. One reader at
  a time: the shared \<open>jiq_data\<close> has no lock.
\<close>

section \<open>State\<close>

datatype jiq_queue = JWork | JDelayed | JTasklet | JTimer

text \<open>
  \<open>JGoing\<close> is a reader that has queued its work and is not on \<open>jiq_wait\<close> yet: a wake-up does not
  reach it. After \<open>prepare_to_wait\<close> a reader counts as asleep, whether it has called \<open>schedule\<close> or
  not, since a wake-up then makes \<open>schedule\<close> return.
\<close>

datatype jiq_reader = JAway | JGoing | JAsleep | JAwake

text \<open>
  \<open>jq_page\<close> is the reader's page, \<open>jq_live\<close> whether the reader still owns it, \<open>jq_buf\<close> the offset
  of the buffer pointer in it.
\<close>

(* src: timers/lab8_jiq.c:41-60 LIMIT, jiq_wait, clientdata *)
record jiq_sys =
  jq_len :: int
  jq_buf :: nat
  jq_jiffies :: "64 word"
  jq_delay :: int
  jq_page :: string
  jq_live :: bool
  jq_queued :: "jiq_queue option"
  jq_reader :: jiq_reader

abbreviation (input) LIMIT :: int where "LIMIT \<equiv> 4096 - 128"

text \<open>What a line shows: the time, and the context it was printed in.\<close>

record jiq_context =
  now :: "64 word"
  preempt :: int
  pid :: int
  cpu :: int
  comm :: string

definition context_ok :: "jiq_context \<Rightarrow> bool" where
  "context_ok e \<longleftrightarrow> - (2 ^ 31) \<le> preempt e \<and> preempt e < 2 ^ 31 \<and> - (2 ^ 31) \<le> pid e \<and> pid e < 2 ^ 31 \<and>
     - (2 ^ 31) \<le> cpu e \<and> cpu e < 2 ^ 31 \<and> length (comm e) \<le> 15"

definition jiq_header :: string where
  "jiq_header = ''    time  delta preempt   pid cpu command'' @ [CHR 0x0A]"

(* src: timers/lab8_jiq.c:91-93 jiq_print (line format) *)
definition jiq_line :: "64 word \<Rightarrow> jiq_context \<Rightarrow> string" where
  "jiq_line prev e =
     pad 9 (fmt_d (sint (now e))) @ ''  '' @ pad 4 (fmt_d (sint (now e - prev))) @ ''     '' @
     pad 3 (fmt_d (preempt e)) @ '' '' @ pad 5 (fmt_d (pid e)) @ '' '' @ pad 3 (fmt_d (cpu e)) @ '' '' @
     comm e @ [CHR 0x0A]"

definition jiq_wake :: "jiq_sys \<Rightarrow> jiq_sys" where
  "jiq_wake s = (if jq_reader s = JAsleep then s\<lparr>jq_reader := JAwake\<rparr> else s)"

text \<open>Tells whether the task should be queued again.\<close>

(* src: timers/lab8_jiq.c:73-100 jiq_print *)
definition jiq_print :: "jiq_context \<Rightarrow> jiq_sys \<Rightarrow> (bool \<times> jiq_sys) kresult" where
  "jiq_print e s =
     (if LIMIT < jq_len s then Inr (False, jiq_wake s)
      else if \<not> jq_live s then Inl UseAfterFree
      else
        case (if jq_len s = 0 then sprintf_at (jq_buf s) jiq_header (jq_page s) else Inr (jq_page s)) of
          Inl f \<Rightarrow> Inl f
        | Inr page \<Rightarrow>
            let len = (if jq_len s = 0 then length jiq_header else 0);
                line = jiq_line (jq_jiffies s) e
            in case sprintf_at (jq_buf s + len) line page of
                 Inl f \<Rightarrow> Inl f
               | Inr page \<Rightarrow>
                   let len = len + length line
                   in Inr (True, s\<lparr>jq_page := page, jq_len := jq_len s + int len, jq_buf := jq_buf s + len,
                        jq_jiffies := now e\<rparr>))"

definition jiq_requeue :: "jiq_queue \<Rightarrow> jiq_context \<Rightarrow> jiq_sys \<Rightarrow> jiq_sys kresult" where
  "jiq_requeue q e s =
     (case jiq_print e s of
        Inl f \<Rightarrow> Inl f
      | Inr (again, s) \<Rightarrow> Inr (if again then s\<lparr>jq_queued := Some q\<rparr> else s))"

(* src: timers/lab8_jiq.c:106-114 jiq_print_wq *)
definition jiq_print_wq :: "jiq_context \<Rightarrow> jiq_sys \<Rightarrow> jiq_sys kresult" where
  "jiq_print_wq e s = jiq_requeue JWork e s"

(* src: timers/lab8_jiq.c:116-124 jiq_print_wq_delayed *)
definition jiq_print_wq_delayed :: "jiq_context \<Rightarrow> jiq_sys \<Rightarrow> jiq_sys kresult" where
  "jiq_print_wq_delayed e s = jiq_requeue JDelayed e s"

(* src: timers/lab8_jiq.c:172-176 jiq_print_tasklet *)
definition jiq_print_tasklet :: "jiq_context \<Rightarrow> jiq_sys \<Rightarrow> jiq_sys kresult" where
  "jiq_print_tasklet e s = jiq_requeue JTasklet e s"

(* src: timers/lab8_jiq.c:203-207 jiq_timedout *)
definition jiq_timedout :: "jiq_context \<Rightarrow> jiq_sys \<Rightarrow> jiq_sys kresult" where
  "jiq_timedout e s = (case jiq_print e s of Inl f \<Rightarrow> Inl f | Inr (_, s) \<Rightarrow> Inr (jiq_wake s))"

text \<open>What is queued runs: it leaves the queue first.\<close>

definition jiq_run_queued :: "jiq_context \<Rightarrow> jiq_sys \<Rightarrow> jiq_sys kresult option" where
  "jiq_run_queued e s =
     (let s' = s\<lparr>jq_queued := None\<rparr>
      in case jq_queued s of
        None \<Rightarrow> None
      | Some JWork \<Rightarrow> Some (jiq_print_wq e s')
      | Some JDelayed \<Rightarrow> Some (jiq_print_wq_delayed e s')
      | Some JTasklet \<Rightarrow> Some (jiq_print_tasklet e s')
      | Some JTimer \<Rightarrow> Some (jiq_timedout e s'))"

section \<open>Reading\<close>

definition jiq_prepare :: "string \<Rightarrow> 64 word \<Rightarrow> jiq_sys \<Rightarrow> jiq_sys" where
  "jiq_prepare page j s =
     s\<lparr>jq_len := 0, jq_buf := 0, jq_page := page, jq_live := True, jq_jiffies := j\<rparr>"

(* src: timers/lab8_jiq.c:132-139 jiq_read_wq (up to the sleep) *)
definition jiq_read_wq :: "string \<Rightarrow> 64 word \<Rightarrow> jiq_sys \<Rightarrow> jiq_sys" where
  "jiq_read_wq page j s = (jiq_prepare page j s)\<lparr>jq_delay := 0, jq_reader := JAsleep, jq_queued := Some JWork\<rparr>"

(* src: timers/lab8_jiq.c:147-159 jiq_read_wq_delayed (up to the sleep) *)
definition jiq_read_wq_delayed :: "int \<Rightarrow> string \<Rightarrow> 64 word \<Rightarrow> jiq_sys \<Rightarrow> jiq_sys" where
  "jiq_read_wq_delayed delay page j s =
     (jiq_prepare page j s)\<lparr>jq_delay := delay, jq_reader := JAsleep, jq_queued := Some JDelayed\<rparr>"

text \<open>
  The tasklet's and the timer's readers queue first and go to sleep afterwards, in two steps: what
  they queued can run in between.
\<close>

(* src: timers/lab8_jiq.c:180-187 jiq_read_tasklet (up to the sleep) *)
definition jiq_read_tasklet :: "string \<Rightarrow> 64 word \<Rightarrow> jiq_sys \<Rightarrow> jiq_sys" where
  "jiq_read_tasklet page j s = (jiq_prepare page j s)\<lparr>jq_queued := Some JTasklet, jq_reader := JGoing\<rparr>"

(* src: timers/lab8_jiq.c:188-188 jiq_read_tasklet (interruptible_sleep_on) *)
definition jiq_sleep_on :: "jiq_sys \<Rightarrow> jiq_sys" where
  "jiq_sleep_on s = (if jq_reader s = JGoing then s\<lparr>jq_reader := JAsleep\<rparr> else s)"

text \<open>The timer's reader prints a line itself first.\<close>

(* src: timers/lab8_jiq.c:210-224 jiq_read_run_timer (up to the sleep) *)
definition jiq_read_run_timer :: "jiq_context \<Rightarrow> string \<Rightarrow> 64 word \<Rightarrow> jiq_sys \<Rightarrow> jiq_sys kresult" where
  "jiq_read_run_timer e page j s =
     (case jiq_print e (jiq_prepare page j s) of
        Inl f \<Rightarrow> Inl f
      | Inr (_, s) \<Rightarrow> Inr (s\<lparr>jq_queued := Some JTimer, jq_reader := JGoing\<rparr>))"

text \<open>A signal wakes the reader as well.\<close>

definition jiq_signal :: "jiq_sys \<Rightarrow> jiq_sys" where
  "jiq_signal s = jiq_wake s"

text \<open>A reader that is awake returns the length, and the proc file system takes the page back.\<close>

(* src: timers/lab8_jiq.c:139-144 jiq_read_wq, jiq_read_wq_delayed, jiq_read_tasklet (after the sleep) *)
definition jiq_finish :: "jiq_sys \<Rightarrow> (int \<times> string \<times> jiq_sys) option" where
  "jiq_finish s =
     (if jq_reader s = JAwake then
        Some (jq_len s, take (nat (jq_len s)) (jq_page s), s\<lparr>jq_reader := JAway, jq_live := False\<rparr>)
      else None)"

text \<open>The timer's reader stops the timer before it returns.\<close>

(* src: timers/lab8_jiq.c:225-230 jiq_read_run_timer (after the sleep) *)
definition jiq_finish_timer :: "jiq_sys \<Rightarrow> (int \<times> string \<times> jiq_sys) option" where
  "jiq_finish_timer s = jiq_finish (if jq_queued s = Some JTimer then s\<lparr>jq_queued := None\<rparr> else s)"

section \<open>The page is filled and never overrun\<close>

lemma length_header [simp]: "length jiq_header = 42"
  by (simp add: jiq_header_def)

lemma length_line:
  assumes "context_ok e"
  shows "35 \<le> length (jiq_line prev e) \<and> length (jiq_line prev e) \<le> 99"
proof -
  have "length (fmt_d (preempt e)) \<le> 11" and "length (fmt_d (pid e)) \<le> 11" and "length (fmt_d (cpu e)) \<le> 11"
    and "length (comm e) \<le> 15"
    using assms by (auto simp: context_ok_def intro: length_fmt_int)
  with length_pad_bounds [OF length_fmt_long, of 9 "now e"] length_pad_bounds [OF length_fmt_long, of 4 "now e - prev"]
    length_pad_bounds [of "fmt_d (preempt e)" 11 3] length_pad_bounds [of "fmt_d (pid e)" 11 5]
    length_pad_bounds [of "fmt_d (cpu e)" 11 3]
  show ?thesis by (simp add: jiq_line_def)
qed

text \<open>While the work prints, the text is at the start of the page and as long as the counter says.\<close>

definition jiq_inv :: "string \<Rightarrow> jiq_sys \<Rightarrow> bool" where
  "jiq_inv out s \<longleftrightarrow>
     jq_live s \<and> length (jq_page s) = 4096 \<and> jq_len s = int (length out) \<and> jq_buf s = length out \<and>
     take (length out) (jq_page s) = out \<and> length out < 4096"

lemma jiq_print_more:
  assumes "jiq_inv out s" and "context_ok e" and "length out \<le> 3968"
  shows "\<exists>s'. jiq_print e s = Inr (True, s') \<and> jq_jiffies s' = now e \<and> jq_reader s' = jq_reader s \<and>
    jiq_inv (out @ (if out = [] then jiq_header else []) @ jiq_line (jq_jiffies s) e) s'"
proof -
  let ?h = "if out = [] then jiq_header else []" and ?l = "jiq_line (jq_jiffies s) e"
  have len: "length (jq_page s) = 4096" "jq_buf s = length out" "jq_len s = int (length out)"
    "take (length out) (jq_page s) = out"
    using assms(1) by (auto simp: jiq_inv_def)
  have l: "length ?l \<le> 99" using length_line [OF assms(2)] by simp
  obtain p1 where p1: "(if jq_len s = 0 then sprintf_at (jq_buf s) jiq_header (jq_page s) else Inr (jq_page s)) = Inr p1"
    and t1: "take (length out + length ?h) p1 = out @ ?h" "length p1 = 4096"
  proof (cases "out = []")
    case True
    then obtain p1 where "sprintf_at 0 jiq_header (jq_page s) = Inr p1"
      using len(1) by (simp add: sprintf_at_def)
    with sprintf_append [OF this, of "[]"] True len show ?thesis by (intro that [of p1]) auto
  next
    case False
    with len show ?thesis by (intro that [of "jq_page s"]) auto
  qed
  obtain p2 where p2: "sprintf_at (length out + length ?h) ?l p1 = Inr p2"
    using t1(2) l assms(3) by (cases "out = []") (simp_all add: sprintf_at_def)
  from sprintf_append [OF p2 t1(1)] t1(2)
  have t2: "take (length out + length ?h + length ?l) p2 = out @ ?h @ ?l" "length p2 = 4096" by auto
  let ?n = "length ?h + length ?l"
  let ?s = "s\<lparr>jq_page := p2, jq_len := jq_len s + int ?n, jq_buf := jq_buf s + ?n, jq_jiffies := now e\<rparr>"
  have "jiq_print e s = Inr (True, ?s)"
    using p1 p2 assms(1,3) len by (auto simp: jiq_print_def jiq_inv_def Let_def)
  moreover have "jiq_inv (out @ ?h @ ?l) ?s"
    using assms(1,3) len t2 l by (auto simp: jiq_inv_def add.assoc)
  ultimately show ?thesis by auto
qed

text \<open>The text that a run of lines leaves, and how many of them fit.\<close>

fun jiq_text :: "64 word \<Rightarrow> jiq_context list \<Rightarrow> string" where
  "jiq_text prev [] = []"
| "jiq_text prev (e # es) = jiq_line prev e @ jiq_text (now e) es"

text \<open>
  A schedule of the queue and the reader: what is queued runs, in the given context, or the reader
  goes to sleep. A run with nothing queued does nothing.
\<close>

datatype jiq_label = JRun jiq_context | JSleepOn

fun jiq_sched :: "jiq_label list \<Rightarrow> jiq_sys \<Rightarrow> jiq_sys kresult" where
  "jiq_sched [] s = Inr s"
| "jiq_sched (JSleepOn # ls) s = jiq_sched ls (jiq_sleep_on s)"
| "jiq_sched (JRun e # ls) s =
     (case jiq_run_queued e s of
        None \<Rightarrow> jiq_sched ls s
      | Some (Inl f) \<Rightarrow> Inl f
      | Some (Inr s') \<Rightarrow> jiq_sched ls s')"

fun jiq_contexts :: "jiq_label list \<Rightarrow> jiq_context list" where
  "jiq_contexts [] = []"
| "jiq_contexts (JSleepOn # ls) = jiq_contexts ls"
| "jiq_contexts (JRun e # ls) = e # jiq_contexts ls"

text \<open>What the schedule did before the run of number \<open>k\<close>, counted from 0.\<close>

fun before_run :: "nat \<Rightarrow> jiq_label list \<Rightarrow> jiq_label list" where
  "before_run k [] = []"
| "before_run k (JSleepOn # ls) = JSleepOn # before_run k ls"
| "before_run 0 (JRun e # ls) = []"
| "before_run (Suc k) (JRun e # ls) = JRun e # before_run k ls"

definition jiq_selfqueued :: "jiq_sys \<Rightarrow> bool" where
  "jiq_selfqueued s \<longleftrightarrow> jq_queued s \<in> {Some JWork, Some JDelayed, Some JTasklet}"

lemma jiq_run_more:
  assumes "jiq_inv out s" and "context_ok e" and "length out \<le> 3968" and "jiq_selfqueued s"
  shows "\<exists>s'. jiq_run_queued e s = Some (Inr s') \<and> jq_jiffies s' = now e \<and> jq_reader s' = jq_reader s \<and>
    jiq_selfqueued s' \<and> jiq_inv (out @ (if out = [] then jiq_header else []) @ jiq_line (jq_jiffies s) e) s'"
proof -
  let ?s = "s\<lparr>jq_queued := None\<rparr>"
  have "jiq_inv out ?s" using assms(1) by (simp add: jiq_inv_def)
  from jiq_print_more [OF this assms(2,3)] obtain s' where s': "jiq_print e ?s = Inr (True, s')"
    "jq_jiffies s' = now e" "jq_reader s' = jq_reader s"
    "jiq_inv (out @ (if out = [] then jiq_header else []) @ jiq_line (jq_jiffies s) e) s'" by auto
  let ?t = "s'\<lparr>jq_queued := jq_queued s\<rparr>"
  have "jiq_run_queued e s = Some (Inr ?t)"
    using s'(1) assms(4) by (auto simp: jiq_run_queued_def jiq_print_wq_def jiq_print_wq_delayed_def
        jiq_print_tasklet_def jiq_requeue_def jiq_selfqueued_def Let_def)
  moreover have "jiq_inv (out @ (if out = [] then jiq_header else []) @ jiq_line (jq_jiffies s) e) ?t"
    using s'(4) by (simp add: jiq_inv_def)
  ultimately show ?thesis using s' assms(4) by (auto simp: jiq_selfqueued_def)
qed

lemma jiq_run_last:
  assumes "jiq_inv out s" and "3968 < length out" and "jiq_selfqueued s"
  shows "jiq_run_queued e s = Some (Inr (jiq_wake (s\<lparr>jq_queued := None\<rparr>)))"
  using assms
  by (auto simp: jiq_run_queued_def jiq_print_wq_def jiq_print_wq_delayed_def jiq_print_tasklet_def
      jiq_requeue_def jiq_selfqueued_def jiq_print_def jiq_inv_def Let_def)

text \<open>With nothing queued only the reader can move, and then nobody wakes it.\<close>

lemma jiq_sched_idle:
  "jq_queued s = None \<Longrightarrow>
   jiq_sched ls s = Inr (if jq_reader s = JGoing \<and> JSleepOn \<in> set ls then s\<lparr>jq_reader := JAsleep\<rparr> else s)"
  by (induction ls s rule: jiq_sched.induct) (simp_all add: jiq_run_queued_def jiq_sleep_on_def)

lemma jiq_inv_reader [simp]: "jiq_inv out (s\<lparr>jq_reader := r\<rparr>) = jiq_inv out s"
  "jiq_inv out (s\<lparr>jq_queued := q\<rparr>) = jiq_inv out s" "jiq_inv out (jiq_wake s) = jiq_inv out s"
  "jiq_inv out (jiq_sleep_on s) = jiq_inv out s"
  by (simp_all add: jiq_inv_def jiq_wake_def jiq_sleep_on_def)

definition reader_after :: "jiq_reader \<Rightarrow> nat \<Rightarrow> jiq_label list \<Rightarrow> jiq_reader" where
  "reader_after r k ls =
     (if r = JAsleep \<or> JSleepOn \<in> set (before_run k ls) then JAwake
      else if JSleepOn \<in> set ls then JAsleep else JGoing)"

lemma jiq_sched_fill:
  assumes "jiq_inv out s" and "out \<noteq> []" and "jiq_selfqueued s" and "jq_reader s \<in> {JGoing, JAsleep}"
    and "\<forall>e \<in> set (jiq_contexts ls). context_ok e" and "3968 < length out + 35 * (length (jiq_contexts ls) - 1)"
    and "jiq_contexts ls \<noteq> []"
  shows "\<exists>s' k. jiq_sched ls s = Inr s' \<and> k < length (jiq_contexts ls) \<and> jq_queued s' = None \<and>
    jiq_inv (out @ jiq_text (jq_jiffies s) (take k (jiq_contexts ls))) s' \<and> 3968 < jq_len s' \<and>
    jq_reader s' = reader_after (jq_reader s) k ls"
  using assms
proof (induction ls arbitrary: s out)
  case Nil
  then show ?case by simp
next
  case (Cons l ls)
  show ?case
  proof (cases l)
    case JSleepOn
    have s: "jiq_selfqueued (jiq_sleep_on s)" "jq_reader (jiq_sleep_on s) = JAsleep" "jq_jiffies (jiq_sleep_on s) = jq_jiffies s"
      using Cons.prems(3,4) by (auto simp: jiq_sleep_on_def jiq_selfqueued_def)
    from Cons.IH [of out "jiq_sleep_on s"] Cons.prems s JSleepOn show ?thesis
      by (fastforce simp: reader_after_def)
  next
    case (JRun e)
    show ?thesis
    proof (cases "length out \<le> 3968")
      case False
      let ?t = "jiq_wake (s\<lparr>jq_queued := None\<rparr>)"
      have q: "jq_queued ?t = None" "jq_reader ?t = (if jq_reader s = JAsleep then JAwake else JGoing)"
        using Cons.prems(4) by (auto simp: jiq_wake_def)
      from jiq_run_last [OF Cons.prems(1) _ Cons.prems(3), of e] False
      have "jiq_sched (l # ls) s = Inr (if jq_reader ?t = JGoing \<and> JSleepOn \<in> set ls then ?t\<lparr>jq_reader := JAsleep\<rparr> else ?t)"
        by (simp add: JRun jiq_sched_idle [OF q(1)])
      moreover have "jq_len ?t = int (length out)" using Cons.prems(1) by (simp add: jiq_wake_def jiq_inv_def)
      ultimately show ?thesis
        using False Cons.prems(1,4) q
        by (intro exI [of _ "if jq_reader ?t = JGoing \<and> JSleepOn \<in> set ls then ?t\<lparr>jq_reader := JAsleep\<rparr> else ?t"]
            exI [of _ 0]) (auto simp: JRun reader_after_def)
    next
      case True
      from jiq_run_more [OF Cons.prems(1) _ True Cons.prems(3), of e] Cons.prems(2,5) JRun
      obtain s' where s': "jiq_run_queued e s = Some (Inr s')" "jq_jiffies s' = now e" "jq_reader s' = jq_reader s"
        "jiq_selfqueued s'" "jiq_inv (out @ jiq_line (jq_jiffies s) e) s'" by auto
      have "35 \<le> length (jiq_line (jq_jiffies s) e)" using length_line Cons.prems(5) JRun by simp
      moreover have "jiq_contexts ls \<noteq> []" using Cons.prems(6) True JRun by auto
      ultimately obtain t k where "jiq_sched ls s' = Inr t" "k < length (jiq_contexts ls)" "jq_queued t = None"
        "jiq_inv ((out @ jiq_line (jq_jiffies s) e) @ jiq_text (now e) (take k (jiq_contexts ls))) t" "3968 < jq_len t"
        "jq_reader t = reader_after (jq_reader s) k ls"
        using Cons.IH [OF s'(5) _ s'(4)] s'(2,3) Cons.prems(2,4,5,6) JRun by (cases "jiq_contexts ls") auto
      with s'(1) JRun show ?thesis
        by (intro exI [of _ t] exI [of _ "Suc k"]) (simp add: reader_after_def)
    qed
  qed
qed

lemma jiq_sched_page:
  assumes "jiq_inv [] s" and "jiq_selfqueued s" and "jq_reader s \<in> {JGoing, JAsleep}"
    and "\<forall>e \<in> set (jiq_contexts ls). context_ok e" and "114 \<le> length (jiq_contexts ls)"
  shows "\<exists>s' k. jiq_sched ls s = Inr s' \<and> k < length (jiq_contexts ls) \<and> jq_queued s' = None \<and>
    jiq_inv (jiq_header @ jiq_text (jq_jiffies s) (take k (jiq_contexts ls))) s' \<and> 3968 < jq_len s' \<and>
    jq_reader s' = reader_after (jq_reader s) k ls"
  using assms
proof (induction ls arbitrary: s)
  case Nil
  then show ?case by simp
next
  case (Cons l ls)
  show ?case
  proof (cases l)
    case JSleepOn
    have s: "jiq_selfqueued (jiq_sleep_on s)" "jq_reader (jiq_sleep_on s) = JAsleep" "jq_jiffies (jiq_sleep_on s) = jq_jiffies s"
      using Cons.prems(2,3) by (auto simp: jiq_sleep_on_def jiq_selfqueued_def)
    from Cons.IH [of "jiq_sleep_on s"] Cons.prems s JSleepOn show ?thesis
      by (fastforce simp: reader_after_def)
  next
    case (JRun e)
    then obtain s' where s': "jiq_run_queued e s = Some (Inr s')" "jq_jiffies s' = now e" "jq_reader s' = jq_reader s"
      "jiq_selfqueued s'" "jiq_inv (jiq_header @ jiq_line (jq_jiffies s) e) s'"
      using jiq_run_more [OF Cons.prems(1) _ _ Cons.prems(2), of e] Cons.prems(4) by auto
    have l: "35 \<le> length (jiq_line (jq_jiffies s) e)" using length_line Cons.prems(4) JRun by simp
    have "\<exists>t k. jiq_sched ls s' = Inr t \<and> k < length (jiq_contexts ls) \<and> jq_queued t = None \<and>
        jiq_inv ((jiq_header @ jiq_line (jq_jiffies s) e) @ jiq_text (jq_jiffies s') (take k (jiq_contexts ls))) t \<and>
        3968 < jq_len t \<and> jq_reader t = reader_after (jq_reader s') k ls"
    proof (rule jiq_sched_fill [OF s'(5) _ s'(4)])
      show "jiq_header @ jiq_line (jq_jiffies s) e \<noteq> []" by (simp add: jiq_header_def)
      show "3968 < length (jiq_header @ jiq_line (jq_jiffies s) e) + 35 * (length (jiq_contexts ls) - 1)"
        using l Cons.prems(5) JRun by simp
      show "jiq_contexts ls \<noteq> []" using Cons.prems(5) JRun by auto
    qed (use Cons.prems(3,4) s'(3) JRun in auto)
    then obtain t k where "jiq_sched ls s' = Inr t" "k < length (jiq_contexts ls)" "jq_queued t = None"
      "jiq_inv (jiq_header @ jiq_line (jq_jiffies s) e @ jiq_text (now e) (take k (jiq_contexts ls))) t" "3968 < jq_len t"
      "jq_reader t = reader_after (jq_reader s) k ls"
      using s'(2,3) by auto
    with s'(1) JRun show ?thesis
      by (intro exI [of _ t] exI [of _ "Suc k"]) (simp add: reader_after_def)
  qed
qed

text \<open>C9: Whichever of the work, the delayed work and the tasklet is used, whatever the lines show, and
  wherever the reader's way to sleep falls among the runs: 114 runs are enough to fill the page
  with the header and a run of complete lines, more than \<open>LIMIT\<close> and less than a page of them,
  nothing is printed beyond the page, and nothing is queued any more then. The reader of the work
  and of the delayed work is awake and returns exactly this text. The reader of the tasklet is
  woken only if it was asleep before the run that wakes; if it goes to sleep afterwards, the
  wake-up is lost, and it sleeps on with nothing queued that could wake it.\<close>

theorem jiq_fills_page:
  assumes "s1 \<in> {jiq_read_wq page j s, jiq_read_wq_delayed d page j s, jiq_read_tasklet page j s}"
    and "length page = 4096" and "\<forall>e \<in> set (jiq_contexts ls). context_ok e" and "114 \<le> length (jiq_contexts ls)"
  shows "\<exists>s2 k out. jiq_sched ls s1 = Inr s2 \<and> jq_queued s2 = None \<and>
    out = jiq_header @ jiq_text j (take k (jiq_contexts ls)) \<and> 3968 < length out \<and> length out < 4096 \<and>
    jq_len s2 = int (length out) \<and> take (length out) (jq_page s2) = out \<and>
    (if s1 \<noteq> jiq_read_tasklet page j s \<or> JSleepOn \<in> set (before_run k ls)
     then \<exists>s3. jiq_finish s2 = Some (int (length out), out, s3)
     else if JSleepOn \<in> set ls then jq_reader s2 = JAsleep \<and> (\<forall>ms. jiq_sched ms s2 = Inr s2)
     else jq_reader s2 = JGoing)"
proof -
  have s1: "jiq_inv [] s1" "jiq_selfqueued s1" "jq_reader s1 \<in> {JGoing, JAsleep}" "jq_jiffies s1 = j"
    "jq_reader s1 = JAsleep \<longleftrightarrow> s1 \<noteq> jiq_read_tasklet page j s"
    using assms(1,2)
    by (auto simp: jiq_inv_def jiq_selfqueued_def jiq_prepare_def jiq_read_wq_def jiq_read_wq_delayed_def jiq_read_tasklet_def)
  from jiq_sched_page [OF s1(1-3) assms(3,4)]
  obtain t k where t: "jiq_sched ls s1 = Inr t" "jq_queued t = None" "3968 < jq_len t"
    "jq_reader t = reader_after (jq_reader s1) k ls"
    and i: "jiq_inv (jiq_header @ jiq_text j (take k (jiq_contexts ls))) t"
    using s1(4) by auto
  define out where "out = jiq_header @ jiq_text j (take k (jiq_contexts ls))"
  have l: "jq_len t = int (length out)" "take (length out) (jq_page t) = out" "length out < 4096"
    using i unfolding out_def [symmetric] by (simp_all only: jiq_inv_def)
  have "if s1 \<noteq> jiq_read_tasklet page j s \<or> JSleepOn \<in> set (before_run k ls)
     then \<exists>s3. jiq_finish t = Some (int (length out), out, s3)
     else if JSleepOn \<in> set ls then jq_reader t = JAsleep \<and> (\<forall>ms. jiq_sched ms t = Inr t)
     else jq_reader t = JGoing"
    using t(4) l(1,2) s1(3,5) jiq_sched_idle [OF t(2)] by (simp add: reader_after_def jiq_finish_def)
  with t l show ?thesis
    unfolding out_def by (intro exI [of _ t] exI [of _ k]) simp
qed

definition sample_context :: "nat \<Rightarrow> jiq_context" where
  "sample_context k = \<lparr>now = of_nat k, preempt = 0, pid = 7, cpu = 0, comm = ''init''\<rparr>"

definition sample_jiq :: jiq_sys where
  "sample_jiq = \<lparr>jq_len = 0, jq_buf = 0, jq_jiffies = 0, jq_delay = 1, jq_page = [], jq_live = False,
     jq_queued = None, jq_reader = JAway\<rparr>"

theorem jiq_fills_page_witness:
  "\<exists>s2. jiq_sched (map (\<lambda>k. JRun (sample_context k)) [0..<120] @ [JSleepOn])
      (jiq_read_tasklet (replicate 4096 CHR 0x00) 0 sample_jiq) = Inr s2 \<and> 3968 < jq_len s2 \<and> jq_queued s2 = None"
proof -
  let ?ls = "map (\<lambda>k. JRun (sample_context k)) [0..<120] @ [JSleepOn]"
  have c: "jiq_contexts (map (\<lambda>k. JRun (sample_context k)) ns @ [JSleepOn]) = map sample_context ns" for ns
    by (induction ns) simp_all
  show ?thesis
    using jiq_fills_page [of "jiq_read_tasklet (replicate 4096 CHR 0x00) 0 sample_jiq" "replicate 4096 CHR 0x00" 0 sample_jiq 0 ?ls]
    unfolding c by (auto simp: context_ok_def sample_context_def)
qed

text \<open>The timer's reader can lose its only wake-up as well: the source marks the place.\<close>

theorem jiq_timer_race:
  assumes "jq_queued s = Some JTimer" and "jq_reader s = JGoing" and "jiq_run_queued e s = Some (Inr s')"
  shows "jq_queued s' = None \<and> jq_reader (jiq_sleep_on s') = JAsleep \<and>
    (\<forall>ms. jiq_sched ms (jiq_sleep_on s') = Inr (jiq_sleep_on s'))"
proof -
  obtain b t where t: "jiq_print e (s\<lparr>jq_queued := None\<rparr>) = Inr (b, t)" and s': "s' = jiq_wake t"
    using assms(1,3) by (auto simp: jiq_run_queued_def jiq_timedout_def split: sum.splits)
  have "jq_reader t = JGoing" "jq_queued t = None"
    using t assms(2) by (auto simp: jiq_print_def jiq_wake_def Let_def split: if_splits sum.splits)
  then have "jq_queued (jiq_sleep_on s') = None" "jq_reader (jiq_sleep_on s') = JAsleep" "jq_queued s' = None"
    by (simp_all add: s' jiq_wake_def jiq_sleep_on_def)
  with jiq_sched_idle [of "jiq_sleep_on s'"] show ?thesis by simp
qed

text \<open>A signal wakes the reader without taking the work, the delayed work or the tasklet off its
  queue: the reader returns, its page is given back, and the next run prints into it. The
  timer's reader stops its timer first, so nothing is left to run.\<close>

theorem jiq_signal_use_after_free:
  assumes "jq_reader s = JAsleep" and "jq_len s \<le> 3968"
  shows "(jiq_selfqueued s \<longrightarrow>
      (\<exists>n out s'. jiq_finish (jiq_signal s) = Some (n, out, s') \<and> jiq_run_queued e s' = Some (Inl UseAfterFree))) \<and>
    (jq_queued s = Some JTimer \<longrightarrow>
      (\<exists>n out s'. jiq_finish_timer (jiq_signal s) = Some (n, out, s') \<and> jiq_run_queued e s' = None))"
  using assms
  by (auto simp: jiq_finish_def jiq_finish_timer_def jiq_signal_def jiq_wake_def jiq_selfqueued_def jiq_run_queued_def
      jiq_print_wq_def jiq_print_wq_delayed_def jiq_print_tasklet_def jiq_requeue_def jiq_print_def Let_def)

theorem jiq_signal_use_after_free_witness:
  "\<exists>n out s'. jiq_finish (jiq_signal (jiq_read_wq [] 0 sample_jiq)) = Some (n, out, s') \<and>
     jiq_run_queued (sample_context 0) s' = Some (Inl UseAfterFree)"
  by (rule jiq_signal_use_after_free [THEN conjunct1, THEN mp])
    (simp_all add: jiq_read_wq_def jiq_prepare_def sample_jiq_def jiq_selfqueued_def)

text \<open>The timer's reader, if it is asleep in time, gets the header and two lines, the second from the timer.\<close>

lemma jiq_timer_two_lines:
  assumes "length page = 4096" and "context_ok e1" and "context_ok e2"
    and out: "out = jiq_header @ jiq_line j e1 @ jiq_line (now e1) e2"
  shows "\<exists>s1 s2 s3. jiq_read_run_timer e1 page j s = Inr s1 \<and>
    jiq_run_queued e2 (jiq_sleep_on s1) = Some (Inr s2) \<and>
    jiq_finish_timer s2 = Some (int (length out), out, s3) \<and> jq_queued s3 = None"
proof -
  have "jiq_inv [] (jiq_prepare page j s)" using assms(1) by (simp add: jiq_inv_def jiq_prepare_def)
  from jiq_print_more [OF this assms(2)] obtain t where t: "jiq_print e1 (jiq_prepare page j s) = Inr (True, t)"
    "jq_jiffies t = now e1" "jiq_inv (jiq_header @ jiq_line j e1) t"
    by (auto simp: jiq_prepare_def)
  let ?s1 = "t\<lparr>jq_queued := Some JTimer, jq_reader := JAsleep\<rparr>" and ?s0 = "t\<lparr>jq_queued := Some JTimer, jq_reader := JGoing\<rparr>" and ?t = "t\<lparr>jq_reader := JAsleep, jq_queued := None\<rparr>"
  have "jiq_inv (jiq_header @ jiq_line j e1) ?t" using t(3) by (simp add: jiq_inv_def)
  moreover have "length (jiq_line j e1) \<le> 99" using length_line [OF assms(2)] by simp
  ultimately obtain u where u: "jiq_print e2 ?t = Inr (True, u)" "jq_reader u = JAsleep" "jiq_inv out u"
    using jiq_print_more [of _ ?t e2] assms(3) t(2) out by (force simp: jiq_header_def)
  have "jiq_run_queued e2 ?s1 = Some (Inr (jiq_wake u))"
    using u(1) by (simp add: jiq_run_queued_def jiq_timedout_def)
  moreover have "jq_queued u = None"
    using u(1) by (auto simp: jiq_print_def Let_def split: if_splits sum.splits)
  moreover have "jiq_sleep_on ?s0 = ?s1" by (simp add: jiq_sleep_on_def)
  ultimately show ?thesis
    using t(1) u(2,3) by (auto simp: jiq_read_run_timer_def jiq_finish_timer_def jiq_finish_def jiq_wake_def jiq_inv_def)
qed

end
