(* ===== verification/Jit.thy ===== *)
theory Jit
  imports Printf Interfaces
begin

text \<open>
  \<open>src/timers/lab9_jit.c\<close>: proc files that wait (\<open>jit_fn\<close>), show the time (\<open>jit_currentime\<close>), or let a timer or
  a tasklet print five lines into the reader's page (\<open>jit_timer\<close>, \<open>jit_tasklet\<close>).
\<close>

section \<open>Waiting for a jiffy\<close>

text \<open>\<open>time_before\<close> looks at the sign of the difference, so that it survives the counter's wrap-around.\<close>

definition time_before :: "64 word \<Rightarrow> 64 word \<Rightarrow> bool" where
  "time_before a b \<longleftrightarrow> sint (a - b) < 0"

text \<open>
  The loop of the busy and the scheduling file: the readings of \<open>jiffies\<close> are given one by one; the
  result is the reading that ends the loop, or none if the readings do not last.
\<close>

(* src: timers/lab9_jit.c:63-71 jit_fn (JIT_BUSY, JIT_SCHED) *)
fun wait_until :: "64 word \<Rightarrow> 64 word list \<Rightarrow> 64 word option" where
  "wait_until j1 [] = None"
| "wait_until j1 (j # js) = (if time_before j j1 then wait_until j1 js else Some j)"

lemma time_before_offset:
  assumes "t < 2 ^ 62" and "d < 2 ^ 62"
  shows "time_before (j0 + of_nat t) (j0 + of_nat d) \<longleftrightarrow> t < d"
proof -
  have "sint (of_nat t - of_nat d :: 64 word) = int t - int d"
  proof -
    have "sint (of_nat t - of_nat d :: 64 word) = signed_take_bit 63 (int t - int d)"
      using signed_of_int [where ?'a = int and ?'b = 64, of "int t - int d"] by simp
    moreover have "signed_take_bit 63 (int t - int d) = int t - int d"
    proof (rule signed_take_bit_int_eq_self)
      have "int t < 2 ^ 62" and "int d < 2 ^ 62"
        using assms by (simp_all only: of_nat_less_numeral_power_cancel_iff)
      then show "- (2 ^ 63) \<le> int t - int d" and "int t - int d < 2 ^ 63" by simp_all
    qed
    ultimately show ?thesis by (rule trans)
  qed
  then show ?thesis by (simp add: time_before_def)
qed

text \<open>The loop ends at the first reading that is at least the delay after the start, whatever the
  counter was at the start and wherever it wraps around, for delays and readings of less than \<open>2\<^sup>6\<^sup>2\<close> jiffies.\<close>

theorem wait_until_correct:
  assumes "d < 2 ^ 62" and "\<forall>t \<in> set ts. t < 2 ^ 62"
  shows "wait_until (j0 + of_nat d) (map (\<lambda>t. j0 + of_nat t) ts) =
    map_option (\<lambda>t. j0 + of_nat t) (find (\<lambda>t. d \<le> t) ts)"
  using assms by (induction ts) (auto simp: time_before_offset)

theorem wait_until_correct_witness:
  "wait_until (-5 + of_nat 250) (map (\<lambda>t. -5 + of_nat t) [0, 4, 249, 251, 300]) = Some (-5 + of_nat 251)"
  by (subst wait_until_correct) simp_all

text \<open>The line the waiting files print.\<close>

(* src: timers/lab9_jit.c:79-83 jit_fn (result) *)
definition jit_fn_line :: "64 word \<Rightarrow> 64 word \<Rightarrow> string" where
  "jit_fn_line j0 j1 = pad 9 (fmt_d (sint j0)) @ '' '' @ pad 9 (fmt_d (sint j1)) @ [CHR 0x0A]"

section \<open>Five lines from a timer or a tasklet\<close>

datatype jit_via = JitTimer | JitTasklet bool

text \<open>
  \<open>jit_live\<close> tells whether the reader still owns the page, \<open>jit_armed\<close> whether the timer or the
  tasklet is pending, \<open>jit_held\<close> whether the structure is still allocated.
\<close>

(* src: timers/lab9_jit.c:122-131 jit_data, JIT_ASYNC_LOOPS *)
record jit_data =
  expires :: "64 word"
  prevjiffies :: "64 word"
  jit_buf :: nat
  loops :: int
  jit_page :: string
  jit_live :: bool
  jit_armed :: "jit_via option"
  jit_held :: bool

record jit_context =
  jit_now :: "64 word"
  irq :: bool
  jit_pid :: int
  jit_cpu :: int
  jit_comm :: string

definition jit_context_ok :: "jit_context \<Rightarrow> bool" where
  "jit_context_ok e \<longleftrightarrow> - (2 ^ 31) \<le> jit_pid e \<and> jit_pid e < 2 ^ 31 \<and>
     - (2 ^ 31) \<le> jit_cpu e \<and> jit_cpu e < 2 ^ 31 \<and> length (jit_comm e) \<le> 15"

definition jit_header :: string where
  "jit_header = ''   time   delta  inirq    pid   cpu command'' @ [CHR 0x0A]"

(* src: timers/lab9_jit.c:137-139 jit_timer_fn, jit_tasklet_fn, jit_timer, jit_tasklet (line format) *)
definition jit_line :: "64 word \<Rightarrow> jit_context \<Rightarrow> string" where
  "jit_line delta e =
     pad 9 (fmt_d (sint (jit_now e))) @ ''  '' @ pad 3 (fmt_d (sint delta)) @ ''     '' @
     fmt_d (if irq e then 1 else 0) @ ''    '' @ pad 6 (fmt_d (jit_pid e)) @ ''   '' @ fmt_d (jit_cpu e) @ ''   '' @
     jit_comm e @ [CHR 0x0A]"

definition jit_print :: "jit_context \<Rightarrow> jit_data \<Rightarrow> jit_data kresult" where
  "jit_print e d =
     (if \<not> jit_live d then Inl UseAfterFree
      else
        let line = jit_line (jit_now e - prevjiffies d) e
        in case sprintf_at (jit_buf d) line (jit_page d) of
             Inl f \<Rightarrow> Inl f
           | Inr page \<Rightarrow> Inr (d\<lparr>jit_page := page, jit_buf := jit_buf d + length line, jit_armed := None\<rparr>))"

(* src: timers/lab9_jit.c:133-148 jit_timer_fn *)
definition jit_timer_fn :: "64 word \<Rightarrow> jit_context \<Rightarrow> jit_data \<Rightarrow> jit_data kresult" where
  "jit_timer_fn tdelay e d =
     (case jit_print e d of
        Inl f \<Rightarrow> Inl f
      | Inr d \<Rightarrow>
          let d = d\<lparr>loops := loops d - 1\<rparr>
          in Inr (if loops d \<noteq> 0 then
                    d\<lparr>expires := expires d + tdelay, prevjiffies := jit_now e, jit_armed := Some JitTimer\<rparr>
                  else d))"

(* src: timers/lab9_jit.c:192-209 jit_tasklet_fn *)
definition jit_tasklet_fn :: "bool \<Rightarrow> jit_context \<Rightarrow> jit_data \<Rightarrow> jit_data kresult" where
  "jit_tasklet_fn hi e d =
     (case jit_print e d of
        Inl f \<Rightarrow> Inl f
      | Inr d \<Rightarrow>
          let d = d\<lparr>loops := loops d - 1\<rparr>
          in Inr (if loops d \<noteq> 0 then d\<lparr>prevjiffies := jit_now e, jit_armed := Some (JitTasklet hi)\<rparr> else d))"

text \<open>What is pending runs.\<close>

definition jit_fire :: "64 word \<Rightarrow> jit_context \<Rightarrow> jit_data \<Rightarrow> jit_data kresult option" where
  "jit_fire tdelay e d =
     (case jit_armed d of
        None \<Rightarrow> None
      | Some JitTimer \<Rightarrow> Some (jit_timer_fn tdelay e d)
      | Some (JitTasklet hi) \<Rightarrow> Some (jit_tasklet_fn hi e d))"

definition jit_begin :: "jit_context \<Rightarrow> string \<Rightarrow> (nat \<times> string) kresult" where
  "jit_begin e page =
     (case sprintf_at 0 jit_header page of
        Inl f \<Rightarrow> Inl f
      | Inr page \<Rightarrow>
          (case sprintf_at (length jit_header) (jit_line 0 e) page of
             Inl f \<Rightarrow> Inl f
           | Inr page \<Rightarrow> Inr (length jit_header + length (jit_line 0 e), page)))"

text \<open>Up to the wait; \<open>alloc\<close> is the answer to the allocation.\<close>

(* src: timers/lab9_jit.c:151-180 jit_timer (up to the wait) *)
definition jit_timer :: "bool \<Rightarrow> 64 word \<Rightarrow> jit_context \<Rightarrow> string \<Rightarrow> (int + jit_data) kresult" where
  "jit_timer alloc tdelay e page =
     (if \<not> alloc then Inr (Inl (- ENOMEM))
      else case jit_begin e page of
        Inl f \<Rightarrow> Inl f
      | Inr (n, page) \<Rightarrow>
          Inr (Inr \<lparr>expires = jit_now e + tdelay, prevjiffies = jit_now e, jit_buf = n, loops = 5, jit_page = page,
            jit_live = True, jit_armed = Some JitTimer, jit_held = True\<rparr>))"

(* src: timers/lab9_jit.c:212-243 jit_tasklet (up to the wait) *)
definition jit_tasklet :: "bool \<Rightarrow> bool \<Rightarrow> jit_context \<Rightarrow> string \<Rightarrow> (int + jit_data) kresult" where
  "jit_tasklet alloc hi e page =
     (if \<not> alloc then Inr (Inl (- ENOMEM))
      else case jit_begin e page of
        Inl f \<Rightarrow> Inl f
      | Inr (n, page) \<Rightarrow>
          Inr (Inr \<lparr>expires = 0, prevjiffies = jit_now e, jit_buf = n, loops = 5, jit_page = page,
            jit_live = True, jit_armed = Some (JitTasklet hi), jit_held = True\<rparr>))"

text \<open>The wait ends when no loop is left, or with a signal; the page goes back in both cases.\<close>

(* src: timers/lab9_jit.c:181-190 jit_timer, jit_tasklet (after the wait) *)
definition jit_return :: "bool \<Rightarrow> jit_data \<Rightarrow> (int \<times> string \<times> jit_data) option" where
  "jit_return signal d =
     (if signal then Some (- ERESTARTSYS, [], d\<lparr>jit_live := False\<rparr>)
      else if loops d = 0 then
        Some (int (jit_buf d), take (jit_buf d) (jit_page d), d\<lparr>jit_live := False, jit_held := False\<rparr>)
      else None)"

fun jit_fires :: "64 word \<Rightarrow> jit_context list \<Rightarrow> jit_data \<Rightarrow> jit_data kresult" where
  "jit_fires tdelay [] d = Inr d"
| "jit_fires tdelay (e # es) d =
     (case jit_fire tdelay e d of
        None \<Rightarrow> Inr d
      | Some (Inl f) \<Rightarrow> Inl f
      | Some (Inr d') \<Rightarrow> jit_fires tdelay es d')"

fun jit_lines :: "64 word \<Rightarrow> jit_context list \<Rightarrow> string" where
  "jit_lines prev [] = []"
| "jit_lines prev (e # es) = jit_line (jit_now e - prev) e @ jit_lines (jit_now e) es"

lemma length_jit_line: "jit_context_ok e \<Longrightarrow> length (jit_line delta e) \<le> 100"
proof -
  assume "jit_context_ok e"
  then have "length (fmt_d (jit_pid e)) \<le> 11" and "length (fmt_d (jit_cpu e)) \<le> 11" and "length (jit_comm e) \<le> 15"
    by (auto simp: jit_context_ok_def intro: length_fmt_int)
  moreover have "length (fmt_d (if irq e then 1 else 0)) \<le> 2" using length_fmt_d [of 1 1] length_fmt_d [of 0 1] by simp
  ultimately show ?thesis
    using length_pad_bounds [OF length_fmt_long, of 9 "jit_now e"] length_pad_bounds [OF length_fmt_long, of 3 delta]
      length_pad_bounds [of "fmt_d (jit_pid e)" 11 6]
    by (simp add: jit_line_def)
qed

section \<open>What the reader gets\<close>

definition jit_inv :: "string \<Rightarrow> jit_data \<Rightarrow> bool" where
  "jit_inv out d \<longleftrightarrow> jit_live d \<and> length (jit_page d) = 4096 \<and> jit_buf d = length out \<and>
     take (length out) (jit_page d) = out"

lemma jit_print_line:
  assumes "jit_inv out d" and "length out + 100 < 4096" and "jit_context_ok e"
  shows "\<exists>p. jit_print e d = Inr (d\<lparr>jit_page := p, jit_buf := length out + length (jit_line (jit_now e - prevjiffies d) e),
      jit_armed := None\<rparr>) \<and> length p = 4096 \<and>
    take (length out + length (jit_line (jit_now e - prevjiffies d) e)) p = out @ jit_line (jit_now e - prevjiffies d) e"
proof -
  let ?l = "jit_line (jit_now e - prevjiffies d) e"
  have l: "length ?l \<le> 100" using length_jit_line [OF assms(3)] by simp
  obtain p where p: "sprintf_at (length out) ?l (jit_page d) = Inr p"
    using assms(1,2) l by (auto simp: jit_inv_def sprintf_at_def)
  have "take (length out) (jit_page d) = out" and len: "length (jit_page d) = 4096"
    using assms(1) by (simp_all add: jit_inv_def)
  from sprintf_append [OF p this(1)] len p assms(1) show ?thesis
    by (auto simp: jit_print_def jit_inv_def Let_def)
qed

lemma jit_fire_line:
  assumes "jit_inv out d" and "length out + 100 < 4096" and "jit_context_ok e" and "jit_armed d = Some v"
  shows "\<exists>d'. jit_fire tdelay e d = Some (Inr d') \<and> jit_inv (out @ jit_line (jit_now e - prevjiffies d) e) d' \<and>
    loops d' = loops d - 1 \<and> jit_held d' = jit_held d \<and>
    (loops d \<noteq> 1 \<longrightarrow> prevjiffies d' = jit_now e \<and> jit_armed d' = Some v \<and>
       (v = JitTimer \<longrightarrow> expires d' = expires d + tdelay)) \<and>
    (loops d = 1 \<longrightarrow> jit_armed d' = None)"
proof -
  from jit_print_line [OF assms(1-3)] obtain p where p: "jit_print e d = Inr (d\<lparr>jit_page := p,
      jit_buf := length out + length (jit_line (jit_now e - prevjiffies d) e), jit_armed := None\<rparr>)"
    "length p = 4096"
    "take (length out + length (jit_line (jit_now e - prevjiffies d) e)) p = out @ jit_line (jit_now e - prevjiffies d) e"
    by blast
  with assms(1,4) show ?thesis
    by (cases v) (auto simp: jit_fire_def jit_timer_fn_def jit_tasklet_fn_def jit_inv_def Let_def)
qed

lemma jit_fires_lines:
  assumes "jit_inv out d" and "length out + 100 * length es < 4096" and "\<forall>e \<in> set es. jit_context_ok e"
    and "jit_armed d = Some v" and "loops d = int (length es)" and "es \<noteq> []"
  shows "\<exists>d'. jit_fires tdelay es d = Inr d' \<and> jit_inv (out @ jit_lines (prevjiffies d) es) d' \<and>
    loops d' = 0 \<and> jit_armed d' = None \<and> jit_held d' = jit_held d"
  using assms
proof (induction es arbitrary: d out)
  case Nil
  then show ?case by simp
next
  case (Cons e es)
  have e: "jit_context_ok e" and room: "length out + 100 < 4096" using Cons.prems(2,3) by auto
  from jit_fire_line [OF Cons.prems(1) room e Cons.prems(4), of tdelay] obtain d'
    where d': "jit_fire tdelay e d = Some (Inr d')" "jit_inv (out @ jit_line (jit_now e - prevjiffies d) e) d'"
      "loops d' = loops d - 1" "jit_held d' = jit_held d"
      "loops d \<noteq> 1 \<longrightarrow> prevjiffies d' = jit_now e \<and> jit_armed d' = Some v"
      "loops d = 1 \<longrightarrow> jit_armed d' = None" by auto
  show ?case
  proof (cases "es = []")
    case True
    with d' Cons.prems(5) show ?thesis by auto
  next
    case False
    then have "loops d \<noteq> 1" using Cons.prems(5) by auto
    with d'(5) have k: "prevjiffies d' = jit_now e" "jit_armed d' = Some v" by simp_all
    have "length (jit_line (jit_now e - prevjiffies d) e) \<le> 100" using length_jit_line [OF e] by simp
    then have "length (out @ jit_line (jit_now e - prevjiffies d) e) + 100 * length es < 4096"
      using Cons.prems(2) by simp
    with Cons.IH [OF d'(2) this _ k(2)] Cons.prems(3,5) d'(1,3,4) k(1) False show ?thesis by auto
  qed
qed

lemma jit_begin_ok:
  assumes "length page = 4096" and "jit_context_ok e"
  shows "\<exists>p. jit_begin e page = Inr (length (jit_header @ jit_line 0 e), p) \<and> length p = 4096 \<and>
    take (length (jit_header @ jit_line 0 e)) p = jit_header @ jit_line 0 e"
proof -
  have l: "length (jit_line 0 e) \<le> 100" using length_jit_line [OF assms(2)] by simp
  have h: "length jit_header < 100" by (simp add: jit_header_def)
  obtain p1 where p1: "sprintf_at 0 jit_header page = Inr p1"
    using assms(1) h by (auto simp: sprintf_at_def)
  with sprintf_append [OF p1, of "[]"] assms(1)
  have t1: "take (length jit_header) p1 = jit_header" "length p1 = 4096" by auto
  obtain p2 where p2: "sprintf_at (length jit_header) (jit_line 0 e) p1 = Inr p2"
    using t1(2) l h by (auto simp: sprintf_at_def)
  from sprintf_append [OF p2 t1(1)] p1 p2 t1(2) show ?thesis by (simp add: jit_begin_def)
qed

text \<open>The timer and the tasklet print five lines after the two that the reader prints: the reader gets
  the header and six complete lines, less than a page, each line's time difference taken to the
  line before; then nothing is pending and the structure is freed.\<close>

theorem jit_prints_five:
  assumes "started \<in> {jit_timer True tdelay e page, jit_tasklet True hi e page}"
    and "length page = 4096" and "jit_context_ok e" and "\<forall>e \<in> set es. jit_context_ok e" and "length es = 5"
  shows "\<exists>d d1 d2 out. started = Inr (Inr d) \<and> jit_fires tdelay es d = Inr d1 \<and>
    jit_return False d1 = Some (int (length out), out, d2) \<and>
    out = jit_header @ jit_line 0 e @ jit_lines (jit_now e) es \<and> length out < 4096 \<and>
    jit_armed d2 = None \<and> \<not> jit_held d2"
proof -
  from jit_begin_ok [OF assms(2,3)] obtain p where p: "jit_begin e page = Inr (length (jit_header @ jit_line 0 e), p)"
    "length p = 4096" "take (length (jit_header @ jit_line 0 e)) p = jit_header @ jit_line 0 e" by blast
  with assms(1) obtain d v where d: "started = Inr (Inr d)" "jit_inv (jit_header @ jit_line 0 e) d"
    "jit_armed d = Some v" "loops d = 5" "prevjiffies d = jit_now e"
    by (auto simp: jit_timer_def jit_tasklet_def jit_inv_def)
  have h: "length (jit_header @ jit_line 0 e) + 100 * length es < 4096"
    using length_jit_line [OF assms(3), of 0] assms(5) by (simp add: jit_header_def)
  have "loops d = int (length es)" and "es \<noteq> []" using d(4) assms(5) by auto
  from jit_fires_lines [OF d(2) h assms(4) d(3) this] d(5) obtain d1
    where d1: "jit_fires tdelay es d = Inr d1" "jit_inv (jit_header @ jit_line 0 e @ jit_lines (jit_now e) es) d1"
      "loops d1 = 0" "jit_armed d1 = None" by auto
  define out where "out = jit_header @ jit_line 0 e @ jit_lines (jit_now e) es"
  have len: "length (jit_lines j cs) \<le> 100 * length cs" if "\<forall>e \<in> set cs. jit_context_ok e" for j cs
    using that by (induction cs arbitrary: j) (auto simp: le_trans add_mono length_jit_line)
  have "length out < 4096"
    using len [OF assms(4), of "jit_now e"] length_jit_line [OF assms(3), of 0] assms(5)
    by (simp add: out_def jit_header_def)
  moreover have "jit_return False d1 = Some (int (length out), out, d1\<lparr>jit_live := False, jit_held := False\<rparr>)"
    using d1(2,3) by (simp add: jit_return_def jit_inv_def out_def)
  ultimately show ?thesis using d(1) d1(1,4) out_def by auto
qed

definition sample_jit_context :: "nat \<Rightarrow> jit_context" where
  "sample_jit_context k = \<lparr>jit_now = of_nat k, irq = True, jit_pid = 0, jit_cpu = 0, jit_comm = ''swapper''\<rparr>"

theorem jit_prints_five_witness:
  "\<exists>d d1 d2 out. jit_timer True 10 (sample_jit_context 0) (replicate 4096 CHR 0x00) = Inr (Inr d) \<and>
    jit_fires 10 (map sample_jit_context [10, 20, 30, 40, 50]) d = Inr d1 \<and>
    jit_return False d1 = Some (int (length out), out, d2) \<and> \<not> jit_held d2"
  using jit_prints_five [of "jit_timer True 10 (sample_jit_context 0) (replicate 4096 CHR 0x00)" 10
      "sample_jit_context 0" "replicate 4096 CHR 0x00" True "map sample_jit_context [10, 20, 30, 40, 50]"]
  by (auto simp: jit_context_ok_def sample_jit_context_def)

text \<open>A reader that a signal wakes returns at once and stops nothing: the structure is never freed, and
  the timer or tasklet, which is still pending, then prints into the page that was given
  back.\<close>

theorem jit_signal_leaks:
  assumes "jit_held d" and "jit_armed d \<noteq> None"
  shows "\<exists>d'. jit_return True d = Some (- ERESTARTSYS, [], d') \<and> jit_held d' \<and>
    jit_fire tdelay e d' = Some (Inl UseAfterFree)"
  using assms
  by (auto simp: jit_return_def jit_fire_def jit_timer_fn_def jit_tasklet_fn_def jit_print_def split: jit_via.splits)

theorem jit_signal_leaks_witness:
  "\<exists>d d'. jit_timer True 10 (sample_jit_context 0) (replicate 4096 CHR 0x00) = Inr (Inr d) \<and>
    jit_return True d = Some (- ERESTARTSYS, [], d') \<and> jit_fire 10 (sample_jit_context 10) d' = Some (Inl UseAfterFree)"
proof -
  have "jit_context_ok (sample_jit_context 0)" by (simp add: jit_context_ok_def sample_jit_context_def)
  with jit_begin_ok [of "replicate 4096 CHR 0x00" "sample_jit_context 0"] obtain d
    where d: "jit_timer True 10 (sample_jit_context 0) (replicate 4096 CHR 0x00) = Inr (Inr d)"
      "jit_held d" "jit_armed d \<noteq> None" by (auto simp: jit_timer_def)
  from jit_signal_leaks [OF d(2,3)] d(1) show ?thesis by blast
qed

(* src: timers/lab9_jit.c:245-254 jit_tasklet (after the wait) *)
definition jit_tasklet_return :: "bool \<Rightarrow> jit_data \<Rightarrow> (int \<times> string \<times> jit_data) option" where
  "jit_tasklet_return = jit_return"

section \<open>The other files\<close>

text \<open>
  The delaying file: the two busy ways wait for the counter, the others sleep and wake at \<open>woken\<close>, which a
  signal can make early.
\<close>

(* src: timers/lab9_jit.c:40-45 enum jit_files *)
datatype jit_file = JIT_BUSY | JIT_SCHED | JIT_QUEUE | JIT_SCHEDTO

(* src: timers/lab9_jit.c:51-84 jit_fn *)
definition jit_fn ::
    "jit_file \<Rightarrow> 64 word \<Rightarrow> 64 word \<Rightarrow> 64 word list \<Rightarrow> 64 word \<Rightarrow> string \<Rightarrow> (int \<times> string) kresult option" where
  "jit_fn data delay j0 js woken page =
     (case (if data = JIT_BUSY \<or> data = JIT_SCHED then wait_until (j0 + delay) js else Some woken) of
        None \<Rightarrow> None
      | Some j1 \<Rightarrow>
          Some (case sprintf_at 0 (jit_fn_line j0 j1) page of
                  Inl f \<Rightarrow> Inl f
                | Inr page \<Rightarrow> Inr (int (length (jit_fn_line j0 j1)), page)))"

lemma length_jit_fn_line: "length (jit_fn_line j0 j1) \<le> 42"
  using length_fmt_long [of j0] length_fmt_long [of j1] by (simp add: jit_fn_line_def length_pad)

lemma jit_fn_prints:
  assumes "data \<in> {JIT_QUEUE, JIT_SCHEDTO} \<or> wait_until (j0 + delay) js = Some woken" and "42 < length page"
  shows "\<exists>page'. jit_fn data delay j0 js woken page = Some (Inr (int (length (jit_fn_line j0 woken)), page')) \<and>
    take (length (jit_fn_line j0 woken)) page' = jit_fn_line j0 woken"
proof -
  have "length (jit_fn_line j0 woken) < length page" using length_jit_fn_line [of j0 woken] assms(2) by simp
  then obtain page' where p: "sprintf_at 0 (jit_fn_line j0 woken) page = Inr page'" by (simp add: sprintf_at_def)
  then show ?thesis
    using sprintf_append [OF p, of "[]"] assms(1) by (auto simp: jit_fn_def)
qed

text \<open>The current time, as four clocks show it: two counters in hexadecimal, two times in decimal, with zeros before them.\<close>

definition zeros :: "nat \<Rightarrow> string \<Rightarrow> string" where
  "zeros w s = replicate (w - length s) (CHR ''0'') @ s"

definition time_text :: "64 word \<Rightarrow> 64 word \<Rightarrow> int \<Rightarrow> nat \<Rightarrow> int \<Rightarrow> nat \<Rightarrow> string" where
  "time_text j1 j2 sec1 usec sec2 nsec =
     ''0x'' @ zeros 8 (fmt_x (unat j1)) @ '' 0x'' @ zeros 16 (fmt_x (unat j2)) @ '' '' @ pad 10 (fmt_d sec1) @ ''.'' @
     zeros 6 (fmt_d (int usec)) @ [CHR 0x0A] @ pad 40 (fmt_d sec2) @ ''.'' @ zeros 9 (fmt_d (int nsec)) @ [CHR 0x0A]"

(* src: timers/lab9_jit.c:89-112 jit_currentime *)
definition jit_currentime ::
    "64 word \<Rightarrow> 64 word \<Rightarrow> int \<Rightarrow> nat \<Rightarrow> int \<Rightarrow> nat \<Rightarrow> string \<Rightarrow> (int \<times> string) kresult" where
  "jit_currentime j1 j2 sec1 usec sec2 nsec buf =
     (case sprintf_at 0 (time_text j1 j2 sec1 usec sec2 nsec) buf of
        Inl f \<Rightarrow> Inl f
      | Inr buf \<Rightarrow> Inr (int (length (time_text j1 j2 sec1 usec sec2 nsec)), buf))"

lemma length_zeros: "length (zeros w s) = max w (length s)"
  by (simp add: zeros_def)

lemma undigits_zeros: "undigits b (zeros w s) = undigits b s"
proof -
  have "foldl (\<lambda>a c. b * a + digit_value c) 0 (replicate n (CHR ''0'')) = 0" for n
    by (induction n) (simp_all add: digit_value_def)
  then show ?thesis by (simp add: undigits_def zeros_def)
qed

lemma length_fmt_x_64: "length (fmt_x (unat (w :: 64 word))) \<le> 16"
proof -
  have "unat w < 2 ^ LENGTH(64)" by (rule unsigned_less)
  then have "unat w < 16 ^ 16" by simp
  then show ?thesis using length_digits [of 16 "unat w" 16] by (simp add: fmt_x_def)
qed

text \<open>The text fits the page, and its first two columns read back as the counters that were printed.\<close>

lemma jit_currentime_reads_back:
  assumes "usec < 1000000" and "nsec < 1000000000" and "\<bar>sec1\<bar> < 2 ^ 31" and "\<bar>sec2\<bar> < 2 ^ 31" and "4096 \<le> length buf"
  shows "\<exists>buf' a b rest. jit_currentime j1 j2 sec1 usec sec2 nsec buf = Inr (int (length (''0x'' @ a @ '' 0x'' @ b @ rest)), buf') \<and>
    take (length (''0x'' @ a @ '' 0x'' @ b @ rest)) buf' = ''0x'' @ a @ '' 0x'' @ b @ rest \<and>
    undigits 16 a = unat j1 \<and> length b = 16 \<and> undigits 16 b = unat j2"
proof -
  let ?t = "time_text j1 j2 sec1 usec sec2 nsec"
  have d: "length (fmt_d sec1) \<le> 11" "length (fmt_d sec2) \<le> 11" using assms(3,4) by (intro length_fmt_int; simp)+
  have u: "length (fmt_d (int usec)) \<le> 7" using length_fmt_d [of "int usec" 6] assms(1) by simp
  have n: "length (fmt_d (int nsec)) \<le> 10" using length_fmt_d [of "int nsec" 9] assms(2) by simp
  have "length ?t \<le> 200"
    using d u n length_fmt_x_64 [of j1] length_fmt_x_64 [of j2] by (simp add: time_text_def length_zeros length_pad)
  then obtain buf' where p: "sprintf_at 0 ?t buf = Inr buf'" using assms(5) by (auto simp: sprintf_at_def)
  then have r: "jit_currentime j1 j2 sec1 usec sec2 nsec buf = Inr (int (length ?t), buf') \<and> take (length ?t) buf' = ?t"
    using sprintf_append [OF p, of "[]"] by (simp add: jit_currentime_def)
  let ?a = "zeros 8 (fmt_x (unat j1))" and ?b = "zeros 16 (fmt_x (unat j2))"
  obtain rest where t: "?t = ''0x'' @ ?a @ '' 0x'' @ ?b @ rest" unfolding time_text_def by blast
  have "undigits 16 ?a = unat j1" "undigits 16 ?b = unat j2" "length ?b = 16"
    using length_fmt_x_64 [of j2] by (simp_all add: undigits_zeros fmt_x_def undigits_digits length_zeros)
  then show ?thesis using r unfolding t by blast
qed

text \<open>The entries that loading makes are those that unloading removes, by name.\<close>

(* src: timers/lab9_jit.c:258-271 jit_init *)
definition jit_init :: "string ledger \<Rightarrow> int \<times> string ledger" where
  "jit_init k =
     (0, fold acquire [''currentime'', ''jitbusy'', ''jitsched'', ''jitqueue'', ''jitschedto'', ''jitimer'', ''jitasklet'',
        ''jitasklethi''] k)"

(* src: timers/lab9_jit.c:273-285 jit_cleanup *)
definition jit_cleanup :: "string ledger \<Rightarrow> string ledger" where
  "jit_cleanup =
     release_all [''currentime'', ''jitbusy'', ''jitsched'', ''jitqueue'', ''jitschedto'', ''jitimer'', ''jitasklet'',
       ''jitasklethi'']"

interpretation jit_module: module_lifecycle "\<lambda>_ :: unit. True" "\<lambda>_. jit_init"
  "\<lambda>_. [''jitasklethi'', ''jitasklet'', ''jitimer'', ''jitschedto'', ''jitqueue'', ''jitsched'', ''jitbusy'', ''currentime'']"
  "\<lambda>_. jit_cleanup"
  by unfold_locales (auto simp: jit_init_def jit_cleanup_def ledger_simps)

end
