(* ===== verification/Net.thy ===== *)
theory Net
  imports Printf Interfaces
begin

text \<open>
  \<open>src/network/lab3_transmit.c\<close> and \<open>lab4_receive.c\<close>: a network device that dumps every packet it is asked to
  transmit to the log, 16 bytes a line, and then frees it or hands it back to the
  stack as a received one.
\<close>

section \<open>The dump\<close>

text \<open>One byte is printed as \<open>" %2x"\<close> into a buffer of 16 bytes, and appended to a line of 256.\<close>

definition byte_entry :: "byte \<Rightarrow> string" where
  "byte_entry b = '' '' @ pad 2 (fmt_x (unat b))"

definition strcat :: "nat \<Rightarrow> string \<Rightarrow> string \<Rightarrow> string kresult" where
  "strcat room line s = (if length line + length s < room then Inr (line @ s) else Inl OutOfBounds)"

fun printline_loop :: "byte list \<Rightarrow> string \<Rightarrow> string kresult" where
  "printline_loop [] line = Inr line"
| "printline_loop (b # bs) line =
     (if length (byte_entry b) < 16 then
        (case strcat 256 line (byte_entry b) of Inl f \<Rightarrow> Inl f | Inr line \<Rightarrow> printline_loop bs line)
      else Inl OutOfBounds)"

(* src: network/lab3_transmit.c:40-49 printline *)
definition printline :: "byte list \<Rightarrow> nat \<Rightarrow> string kresult" where
  "printline data n = printline_loop (take n data) []"

(* src: network/lab3_transmit.c:63-64 my_start_xmit (loop) *)
function dump_from :: "nat \<Rightarrow> byte list \<Rightarrow> string list kresult" where
  "dump_from i data =
     (if i < length data then
        (case printline (drop i data) (if length data - i < 16 then length data - i else 16) of
           Inl f \<Rightarrow> Inl f
         | Inr line \<Rightarrow> (case dump_from (i + 16) data of Inl f \<Rightarrow> Inl f | Inr ls \<Rightarrow> Inr (line # ls)))
      else Inr [])"
  by pat_completeness auto
termination
  by (relation "measure (\<lambda>(i, data). length data - i)") auto

declare dump_from.simps [simp del]

section \<open>The device\<close>

(* src: network/lab3_transmit.c:37-38 dev, stats *)
record net_device =
  dev_addr :: "byte list"
  noarp :: bool
  is_up :: bool
  queue_started :: bool
  tx_packets :: "64 word"
  rx_packets :: "64 word"
  collisions :: "64 word"

text \<open>What became of the packets: those freed by the driver and those handed to the stack, newest first.\<close>

record net_sys =
  net :: net_device
  freed :: "nat list"
  received :: "nat list"
  logged :: "string list"

(* src: network/lab3_transmit.c:51-72 my_start_xmit *)
definition xmit_free :: "nat \<Rightarrow> byte list \<Rightarrow> net_sys \<Rightarrow> (int \<times> net_sys) kresult" where
  "xmit_free skb data s =
     (case dump_from 0 data of
        Inl f \<Rightarrow> Inl f
      | Inr ls \<Rightarrow> Inr (0, s\<lparr>logged := logged s @ ls, freed := skb # freed s,
          net := (net s)\<lparr>tx_packets := tx_packets (net s) + 1\<rparr>\<rparr>))"

(* src: network/lab4_receive.c:40-46 my_rx *)
definition my_rx :: "nat \<Rightarrow> net_sys \<Rightarrow> net_sys" where
  "my_rx skb s = s\<lparr>net := (net s)\<lparr>rx_packets := rx_packets (net s) + 1\<rparr>, received := skb # received s\<rparr>"

(* src: network/lab4_receive.c:48-69 my_start_xmit *)
definition xmit_loop :: "nat \<Rightarrow> byte list \<Rightarrow> net_sys \<Rightarrow> (int \<times> net_sys) kresult" where
  "xmit_loop skb data s =
     (case dump_from 0 data of
        Inl f \<Rightarrow> Inl f
      | Inr ls \<Rightarrow> Inr (0, my_rx skb (s\<lparr>logged := logged s @ ls,
          net := (net s)\<lparr>tx_packets := tx_packets (net s) + 1\<rparr>\<rparr>)))"

(* src: network/lab3_transmit.c:74-78 my_do_ioctl *)
definition my_do_ioctl :: "net_device \<Rightarrow> int" where
  "my_do_ioctl d = -1"

(* src: network/lab3_transmit.c:80-84 my_get_stats *)
definition my_get_stats :: "net_device \<Rightarrow> 64 word \<times> 64 word \<times> 64 word" where
  "my_get_stats d = (tx_packets d, rx_packets d, collisions d)"

(* src: network/lab3_transmit.c:90-97 my_config *)
definition my_config :: "net_device \<Rightarrow> int" where
  "my_config d = (if is_up d then - EBUSY else 0)"

(* src: network/lab3_transmit.c:99-103 my_change_mtu *)
definition my_change_mtu :: "net_device \<Rightarrow> int" where
  "my_change_mtu d = -1"

text \<open>The stack marks the device as up around these two.\<close>

(* src: network/lab3_transmit.c:105-113 my_open *)
definition my_open :: "net_device \<Rightarrow> int \<times> net_device" where
  "my_open d = (0, d\<lparr>queue_started := True\<rparr>)"

(* src: network/lab3_transmit.c:115-123 my_close *)
definition my_close :: "net_device \<Rightarrow> int \<times> net_device" where
  "my_close d = (0, d\<lparr>queue_started := False\<rparr>)"

definition fill_addr :: "byte list \<Rightarrow> byte list" where
  "fill_addr a = put_range 0 (map of_nat [0..<6]) a"

text \<open>\<open>ether_setup\<close> does not touch the address.\<close>

(* src: network/lab3_transmit.c:135-156 my_setup *)
definition my_setup :: "net_device \<Rightarrow> net_device" where
  "my_setup d = d\<lparr>dev_addr := fill_addr (dev_addr d), noarp := True, collisions := 50\<rparr>"

datatype net_res = NetDev | NetRegistered

text \<open>A failed \<open>alloc_netdev\<close> returns null, which \<open>register_netdev\<close> follows.\<close>

(* src: network/lab3_transmit.c:158-169 my_init *)
definition net_init :: "unit kptr \<times> int \<Rightarrow> net_res ledger \<Rightarrow> (int \<times> net_res ledger) kresult" where
  "net_init e k =
     (case fst e of
        NULL \<Rightarrow> Inl NullDeref
      | ERR_PTR _ \<Rightarrow> Inl BadPointer
      | Ptr _ \<Rightarrow>
          let k = acquire NetDev k
          in if snd e \<noteq> 0 then Inr (-1, release NetDev k) else Inr (0, acquire NetRegistered k))"

(* src: network/lab3_transmit.c:171-176 my_exit *)
definition net_exit :: "net_res ledger \<Rightarrow> net_res ledger" where
  "net_exit k = release_all [NetRegistered, NetDev] k"

definition net_load :: "unit \<times> int \<Rightarrow> net_res ledger \<Rightarrow> int \<times> net_res ledger" where
  "net_load e k = (case net_init (Ptr (fst e), snd e) k of Inr r \<Rightarrow> r | Inl _ \<Rightarrow> (-1, k))"

interpretation net_module: module_lifecycle "\<lambda>_. True" net_load "\<lambda>_. [NetRegistered, NetDev]" "\<lambda>_. net_exit"
  by unfold_locales (auto simp: net_load_def net_init_def net_exit_def Let_def ledger_simps split: if_splits)

section \<open>The dump is complete and never overruns its line\<close>

lemma length_entry [simp]: "length (byte_entry b) = 3"
proof -
  have "unat b < 16 ^ 2" using unsigned_less [of b, where ?'a = nat] by simp
  from length_digits [OF _ this] have "length (fmt_x (unat b)) \<le> 2" by (simp add: fmt_x_def)
  then show ?thesis by (simp add: byte_entry_def length_pad)
qed

definition read_entry :: "string \<Rightarrow> byte" where
  "read_entry s = of_nat (undigits 16 (unpad s))"

lemma unpad_space: "unpad (CHR '' '' # s) = unpad s"
  by (simp add: unpad_def)

lemma read_entry_entry [simp]: "read_entry (byte_entry b) = b"
  by (simp add: read_entry_def byte_entry_def unpad_space read_hex)

text \<open>A line is read back three characters at a time.\<close>

fun read_line :: "string \<Rightarrow> byte list" where
  "read_line (a # b # c # s) = read_entry [a, b, c] # read_line s"
| "read_line _ = []"

lemma read_line_entry: "read_line (byte_entry b @ s) = b # read_line s"
proof -
  obtain x y z where e: "byte_entry b = [x, y, z]"
    by (metis length_0_conv length_Suc_conv length_entry numeral_3_eq_3)
  then have "read_entry [x, y, z] = b" using read_entry_entry [of b] by simp
  with e show ?thesis by simp
qed

lemma read_line_entries: "read_line (concat (map byte_entry bs)) = bs"
  by (induction bs) (simp_all add: read_line_entry)

lemma printline_loop_ok:
  "length line + 3 * length bs < 256 \<Longrightarrow> printline_loop bs line = Inr (line @ concat (map byte_entry bs))"
  by (induction bs arbitrary: line) (simp_all add: strcat_def)

lemma printline_ok: "n \<le> 85 \<Longrightarrow> printline bs n = Inr (concat (map byte_entry (take n bs)))"
  by (simp add: printline_def printline_loop_ok)

lemma length_entries: "length (concat (map byte_entry bs)) = 3 * length bs"
  by (induction bs) simp_all

lemma dump_from_ok:
  "\<exists>ls. dump_from i data = Inr ls \<and> concat (map read_line ls) = drop i data \<and>
     length ls = (length data - i + 15) div 16 \<and> (\<forall>l \<in> set ls. length l \<le> 48)"
proof (induction i data rule: dump_from.induct)
  case (1 i data)
  show ?case
  proof (cases "i < length data")
    case False
    then show ?thesis by (subst dump_from.simps) simp
  next
    case True
    let ?n = "if length data - i < 16 then length data - i else 16"
    let ?l = "concat (map byte_entry (take ?n (drop i data)))"
    have line: "printline (drop i data) ?n = Inr ?l" by (intro printline_ok) simp
    from 1 [OF True line] obtain ls where ls: "dump_from (i + 16) data = Inr ls"
      "concat (map read_line ls) = drop (i + 16) data" "length ls = (length data - (i + 16) + 15) div 16"
      "\<forall>l \<in> set ls. length l \<le> 48" by blast
    have "take ?n (drop i data) @ drop (i + 16) data = drop i data"
      using append_take_drop_id [of 16 "drop i data"] by (simp add: add.commute)
    moreover have "length ?l \<le> 48" by (simp add: length_entries)
    moreover have "Suc ((length data - (i + 16) + 15) div 16) = (length data - i + 15) div 16"
    proof (cases "length data - i < 16")
      case True
      then have "length data - (i + 16) = 0" and "(length data - i + 15) div 16 = 1"
        using \<open>i < length data\<close> by (simp_all add: div_nat_eqI)
      then show ?thesis by simp
    next
      case False
      then have e: "length data - i + 15 = (length data - (i + 16) + 15) + 16" by linarith
      show ?thesis unfolding e by simp
    qed
    moreover have "dump_from i data = Inr (?l # ls)"
      using True line ls(1) by (subst dump_from.simps) (simp only: sum.case if_True)
    ultimately show ?thesis
      using ls by (auto simp: read_line_entries)
  qed
qed

text \<open>C10: Transmitting a packet of any length logs it completely and in order: reading the logged lines
  back gives the packet, there is a line for every 16 bytes begun, and no line is longer than 48
  characters, so neither the line's nor the entry's buffer is overrun. The packet is then freed once, or
  received once, and counted.\<close>

theorem xmit_dumps_packet:
  "\<exists>ls. concat (map read_line ls) = data \<and> length ls = (length data + 15) div 16 \<and> (\<forall>l \<in> set ls. length l \<le> 48) \<and>
    xmit_free skb data s = Inr (0, s\<lparr>logged := logged s @ ls, freed := skb # freed s,
      net := (net s)\<lparr>tx_packets := tx_packets (net s) + 1\<rparr>\<rparr>) \<and>
    xmit_loop skb data s = Inr (0, s\<lparr>logged := logged s @ ls, received := skb # received s,
      net := (net s)\<lparr>tx_packets := tx_packets (net s) + 1, rx_packets := rx_packets (net s) + 1\<rparr>\<rparr>)"
proof -
  obtain ls where ls: "dump_from 0 data = Inr ls" "concat (map read_line ls) = data"
    "length ls = (length data + 15) div 16" "\<forall>l \<in> set ls. length l \<le> 48"
    using dump_from_ok [of 0 data] by auto
  then show ?thesis
    by (intro exI [of _ ls]) (simp add: xmit_free_def xmit_loop_def my_rx_def)
qed

theorem xmit_dumps_packet_witness:
  "\<exists>ls. concat (map read_line ls) = [1, 255] \<and> length ls = 1 \<and> (\<forall>l \<in> set ls. length l \<le> 48)"
  using xmit_dumps_packet [of "[1, 255]"] by fastforce

end
