(* ===== verification/Lddbus.thy ===== *)
theory Lddbus
  imports Printf Interfaces
begin

text \<open>
  The virtual bus of \<open>src/devmodel/bus/lddbus\<close>, which matches devices to drivers by name, and the
  driver of \<open>src/devmodel/bus/ldddev\<close>, which puts the devices \<open>sculld0\<close>, \<open>sculld1\<close>, \<dots> on it.
\<close>

section \<open>Matching by name\<close>

text \<open>C strings are lists without the terminating zero; past the end the zero is compared.\<close>

fun cchar :: "string \<Rightarrow> int" where
  "cchar [] = 0"
| "cchar (c # s) = of_char c"

fun strncmp :: "string \<Rightarrow> string \<Rightarrow> nat \<Rightarrow> int" where
  "strncmp a b 0 = 0"
| "strncmp a b (Suc n) =
     (if cchar a \<noteq> cchar b then cchar a - cchar b
      else if cchar a = 0 then 0
      else strncmp (tl a) (tl b) n)"

(* src: devmodel/bus/lddbus/lddbus.c:44-47 ldd_match *)
definition ldd_match :: "string \<Rightarrow> string \<Rightarrow> bool" where
  "ldd_match dev drv \<longleftrightarrow> strncmp dev drv (length drv) = 0"

definition c_string :: "string \<Rightarrow> bool" where
  "c_string s \<longleftrightarrow> CHR 0x00 \<notin> set s"

text \<open>The driver core offers a new device to the drivers in the order in which they were registered.\<close>

definition bind_driver :: "string list \<Rightarrow> string \<Rightarrow> string option" where
  "bind_driver drivers dev = find (ldd_match dev) drivers"

lemma of_char_zero [simp]: "(of_char c :: int) = 0 \<longleftrightarrow> c = CHR 0x00"
proof -
  have "(of_char (CHR 0x00) :: int) = 0" by simp
  then show ?thesis by (metis of_char_eq_iff)
qed

lemma of_char_inject_int [simp]: "(of_char a :: int) = of_char b \<longleftrightarrow> a = b"
  by simp

lemma strncmp_prefix:
  "c_string dev \<Longrightarrow> c_string drv \<Longrightarrow> strncmp dev drv (length drv) = 0 \<longleftrightarrow> take (length drv) dev = drv"
proof (induction drv arbitrary: dev)
  case Nil
  then show ?case by simp
next
  case (Cons c drv)
  then show ?case by (cases dev) (auto simp: c_string_def)
qed

text \<open>A driver matches exactly the devices whose name starts with the driver's name, the driver without a
  name matches them all, and of two drivers that match the one registered first gets the device.\<close>

theorem ldd_match_prefix:
  assumes "c_string dev" and "c_string drv"
  shows "(ldd_match dev drv \<longleftrightarrow> (\<exists>s. dev = drv @ s)) \<and> ldd_match dev [] \<and>
    (ldd_match dev drv \<longrightarrow> bind_driver (drv # drvs) dev = Some drv)"
proof -
  have "ldd_match dev drv \<longleftrightarrow> (\<exists>s. dev = drv @ s)"
    unfolding ldd_match_def strncmp_prefix [OF assms]
    by (metis append_eq_conv_conj append_take_drop_id)
  then show ?thesis by (simp add: bind_driver_def ldd_match_def)
qed

theorem ldd_match_prefix_witness:
  "ldd_match ''sculld0'' ''sculld'' \<and> \<not> ldd_match ''sculld0'' ''scullc'' \<and>
     bind_driver [''scull'', ''sculld''] ''sculld0'' = Some ''scull''"
  using ldd_match_prefix [of "''sculld0''" "''sculld''"] ldd_match_prefix [of "''sculld0''" "''scullc''"]
    ldd_match_prefix [of "''sculld0''" "''scull''" "[''sculld'']"]
  by (simp add: c_string_def)

section \<open>The bus module\<close>

definition ldd_version :: string where
  "ldd_version = ''$Revision: 1.9 $''"

(* src: devmodel/bus/lddbus/lddbus.c:33-39 ldd_uevent *)
definition ldd_uevent :: "(string \<Rightarrow> bool) \<Rightarrow> int" where
  "ldd_uevent add_var = (if add_var (''LDDBUS_VERSION='' @ ldd_version) then 0 else - ENOMEM)"

(* src: devmodel/bus/lddbus/lddbus.c:75-78 show_bus_version *)
definition show_bus_version :: "string \<Rightarrow> (int \<times> string) kresult" where
  "show_bus_version buf =
     (case sprintf_at 0 (ldd_version @ [CHR 0x0A]) buf of
        Inl f \<Rightarrow> Inl f
      | Inr buf \<Rightarrow> Inr (int (length (ldd_version @ [CHR 0x0A])), buf))"

(* src: devmodel/bus/lddbus/lddbus.c:117-123 show_version *)
definition show_version :: "string \<Rightarrow> string \<Rightarrow> (int \<times> string) kresult" where
  "show_version version buf =
     (case sprintf_at 0 (version @ [CHR 0x0A]) buf of
        Inl f \<Rightarrow> Inl f
      | Inr buf \<Rightarrow> Inr (int (length (takeWhile (\<lambda>c. c \<noteq> CHR 0x00) buf)), buf))"

datatype bus_res = Bus | BusDevice

text \<open>The answers to the registrations; a version attribute that fails is only reported.\<close>

(* src: devmodel/bus/lddbus/lddbus.c:150-172 ldd_bus_init *)
definition ldd_bus_init :: "int \<times> bool \<times> int \<Rightarrow> bus_res ledger \<Rightarrow> int \<times> bus_res ledger" where
  "ldd_bus_init e k =
     (let (bus, attr, dev) = e
      in if bus \<noteq> 0 then (bus, k)
      else
        let k = acquire Bus k
        in if dev \<noteq> 0 then (dev, release Bus k) else (0, acquire BusDevice k))"

(* src: devmodel/bus/lddbus/lddbus.c:174-178 ldd_bus_exit *)
definition ldd_bus_exit :: "bus_res ledger \<Rightarrow> bus_res ledger" where
  "ldd_bus_exit k = release_all [BusDevice, Bus] k"

interpretation ldd_bus: module_lifecycle "\<lambda>_. True" ldd_bus_init "\<lambda>_. [BusDevice, Bus]" "\<lambda>_. ldd_bus_exit"
  by unfold_locales (auto simp: ldd_bus_init_def ldd_bus_exit_def Let_def ledger_simps split: if_splits)

lemma show_version_length:
  assumes "c_string v" and "length v + 1 < length buf"
  shows "\<exists>buf'. show_version v buf = Inr (int (length v) + 1, buf')"
proof -
  have "takeWhile (\<lambda>c. c \<noteq> CHR 0x00) (put_range 0 ((v @ [CHR 0x0A]) @ [CHR 0x00]) buf) = v @ [CHR 0x0A]"
  proof -
    have "takeWhile (\<lambda>c. c \<noteq> CHR 0x00) (v @ ys) = v @ takeWhile (\<lambda>c. c \<noteq> CHR 0x00) ys" for ys
      using assms(1) by (intro takeWhile_append2) (auto simp: c_string_def)
    then show ?thesis by (simp add: put_range_def)
  qed
  with assms(2) show ?thesis by (simp add: show_version_def sprintf_at_def)
qed

section \<open>The sculld devices\<close>

text \<open>\<open>devname\<close> has 20 bytes.\<close>

(* src: devmodel/bus/ldddev/ldddev.c:129-129 sculld_register_dev (name) *)
definition sculld_devname :: "nat \<Rightarrow> string" where
  "sculld_devname index = ''sculld'' @ fmt_d (int index)"

definition devname_buffer :: "nat \<Rightarrow> string kresult" where
  "devname_buffer index = sprintf_at 0 (sculld_devname index) (replicate 20 CHR 0x00)"

text \<open>Every device's name fits its buffer, names of different devices differ, and every device is matched
  by the \<open>sculld\<close> driver.\<close>

theorem sculld_names:
  assumes "i < 2 ^ 31" and "j < 2 ^ 31"
  shows "(\<exists>b. devname_buffer i = Inr b \<and> take (length (sculld_devname i)) b = sculld_devname i) \<and>
    (sculld_devname i = sculld_devname j \<longrightarrow> i = j) \<and> ldd_match (sculld_devname i) ''sculld''"
proof (intro conjI impI)
  have "int i < 2 ^ 31" using assms(1) by (simp only: of_nat_less_numeral_power_cancel_iff)
  then have l: "length (sculld_devname i) \<le> 17" using length_fmt_int [of "int i"] by (simp add: sculld_devname_def)
  then obtain b where b: "devname_buffer i = Inr b" by (auto simp: devname_buffer_def sprintf_at_def)
  from sprintf_append [OF this [unfolded devname_buffer_def], of "[]"]
  show "\<exists>b. devname_buffer i = Inr b \<and> take (length (sculld_devname i)) b = sculld_devname i"
    using b by auto
  assume "sculld_devname i = sculld_devname j"
  then have "digits 10 i = digits 10 j" by (simp add: sculld_devname_def fmt_d_def)
  then have "undigits 10 (digits 10 i) = undigits 10 (digits 10 j)" by (rule arg_cong)
  then show "i = j" by (simp add: undigits_digits)
next
  have "c_string (sculld_devname i)" and "c_string ''sculld''"
    using digits_no_nul [of 10 i] by (simp_all add: c_string_def sculld_devname_def fmt_d_def)
  then show "ldd_match (sculld_devname i) ''sculld''"
    unfolding ldd_match_def by (subst strncmp_prefix) (simp_all add: sculld_devname_def)
qed

theorem sculld_names_witness:
  "ldd_match (sculld_devname 3) ''sculld'' \<and> (sculld_devname 3 = sculld_devname 4 \<longrightarrow> 3 = (4 :: nat))"
  using sculld_names [of 3 4] by simp

section \<open>Loading and unloading the driver\<close>

datatype sculld_res = SRegion | SDriver | SMem | SCdev nat | SDev nat

record sculld_env =
  s_region :: int
  s_register :: int
  s_version_file :: int
  s_mem :: bool
  s_cdev :: "nat \<Rightarrow> bool"
  s_device :: "nat \<Rightarrow> bool"
  sculld_devs :: nat

text \<open>A driver whose version file cannot be created stays registered, although an error is returned.\<close>

(* src: devmodel/bus/lddbus/lddbus.c:126-139 register_ldd_driver *)
definition register_ldd_driver :: "sculld_env \<Rightarrow> sculld_res ledger \<Rightarrow> int \<times> sculld_res ledger" where
  "register_ldd_driver e k =
     (if s_register e \<noteq> 0 then (s_register e, k) else (s_version_file e, acquire SDriver k))"

(* src: devmodel/bus/lddbus/lddbus.c:141-144 unregister_ldd_driver *)
definition unregister_ldd_driver :: "sculld_res ledger \<Rightarrow> sculld_res ledger" where
  "unregister_ldd_driver k = release SDriver k"

text \<open>A device that cannot be added is reported or ignored, and the loop goes on.\<close>

(* src: devmodel/bus/ldddev/ldddev.c:105-116 sculld_setup_cdev *)
definition sculld_setup_cdev :: "sculld_env \<Rightarrow> nat \<Rightarrow> sculld_res ledger \<Rightarrow> sculld_res ledger" where
  "sculld_setup_cdev e i k = (if s_cdev e i then acquire (SCdev i) k else k)"

(* src: devmodel/bus/ldddev/ldddev.c:127-135 sculld_register_dev *)
definition sculld_register_dev :: "sculld_env \<Rightarrow> nat \<Rightarrow> sculld_res ledger \<Rightarrow> sculld_res ledger" where
  "sculld_register_dev e i k = (if s_device e i then acquire (SDev i) k else k)"

(* src: devmodel/bus/ldddev/ldddev.c:142-188 sculld_init *)
definition sculld_init :: "sculld_env \<Rightarrow> sculld_res ledger \<Rightarrow> int \<times> sculld_res ledger" where
  "sculld_init e k =
     (if s_region e < 0 then (s_region e, k)
      else
        let k = acquire SRegion k;
            (ignored, k) = register_ldd_driver e k
        in if \<not> s_mem e then (- ENOMEM, release SRegion k)
        else
          let k = acquire SMem k
          in (0, fold (\<lambda>i k. sculld_register_dev e i (sculld_setup_cdev e i k)) [0..<sculld_devs e] k))"

text \<open>The devices' memory, and what \<open>sculld_trim\<close> frees, is below; the ledger has the registrations.\<close>

(* src: devmodel/bus/ldddev/ldddev.c:192-204 sculld_cleanup *)
definition sculld_cleanup :: "sculld_env \<Rightarrow> sculld_res ledger \<Rightarrow> sculld_res ledger" where
  "sculld_cleanup e k =
     (let k = fold (\<lambda>i k. release (SCdev i) (release (SDev i) k)) [0..<sculld_devs e] k;
          k = release SMem k;
          k = unregister_ldd_driver k
      in release SRegion k)"

definition sculld_owns :: "sculld_env \<Rightarrow> sculld_res list" where
  "sculld_owns e = rev (concat (map (\<lambda>i. [SCdev i, SDev i]) [0..<sculld_devs e])) @ [SMem, SDriver, SRegion]"

definition sculld_answers :: "sculld_env \<Rightarrow> bool" where
  "sculld_answers e \<longleftrightarrow>
     s_region e < 0 \<or> s_register e = 0 \<and> s_mem e \<and> (\<forall>i < sculld_devs e. s_cdev e i \<and> s_device e i)"

lemma sculld_loop:
  assumes "\<forall>i < n. s_cdev e i \<and> s_device e i"
  shows "held (fold (\<lambda>i k. sculld_register_dev e i (sculld_setup_cdev e i k)) [0..<n] k) =
      rev (concat (map (\<lambda>i. [SCdev i, SDev i]) [0..<n])) @ held k \<and>
    faults (fold (\<lambda>i k. sculld_register_dev e i (sculld_setup_cdev e i k)) [0..<n] k) = faults k"
  using assms by (induction n) (simp_all add: sculld_register_dev_def sculld_setup_cdev_def)

lemma sculld_cleanup_all:
  "sculld_cleanup e k =
     release_all (concat (map (\<lambda>i. [SDev i, SCdev i]) [0..<sculld_devs e]) @ [SMem, SDriver, SRegion]) k"
proof -
  have "fold (\<lambda>i k. release (SCdev i) (release (SDev i) k)) is k =
      release_all (concat (map (\<lambda>i. [SDev i, SCdev i]) is)) k" for "is" k
    by (induction "is" arbitrary: k) simp_all
  then show ?thesis by (simp add: sculld_cleanup_def unregister_ldd_driver_def)
qed

lemma distinct_sculld:
  "distinct (concat (map (\<lambda>i. [SCdev i, SDev i]) [0..<n]))" "distinct (concat (map (\<lambda>i. [SDev i, SCdev i]) [0..<n]))"
  by (induction n) auto

interpretation sculld_module: module_lifecycle sculld_answers sculld_init sculld_owns sculld_cleanup
proof (unfold_locales, goal_cases)
  case (1 e k)
  then show ?case
    using sculld_loop [of "sculld_devs e" e]
    by (auto simp: sculld_answers_def sculld_init_def register_ldd_driver_def sculld_owns_def Let_def split: if_splits)
next
  case (2 e k)
  then show ?case
    by (auto simp: sculld_answers_def sculld_init_def register_ldd_driver_def Let_def split: if_splits)
next
  case (3 e k0 k h)
  have "set (concat (map (\<lambda>i. [SDev i, SCdev i]) [0..<sculld_devs e]) @ [SMem, SDriver, SRegion]) = set (sculld_owns e)"
    by (auto simp: sculld_owns_def)
  moreover have "distinct (sculld_owns e)"
    using distinct_sculld [of "sculld_devs e"] by (auto simp: sculld_owns_def)
  moreover have "distinct (concat (map (\<lambda>i. [SDev i, SCdev i]) [0..<sculld_devs e]) @ [SMem, SDriver, SRegion])"
    using distinct_sculld [of "sculld_devs e"] by auto
  ultimately show ?case
    unfolding sculld_cleanup_all using 3(3) by (intro release_all_owned)
qed

text \<open>When the kernel grants what the module asks for, or refuses the device numbers, any number of
  loads and unloads leaves nothing behind. If the memory for the devices cannot be had, the load fails and
  leaves the driver registered; if the driver cannot be registered, the load succeeds all the
  same and the unload unregisters a driver that is not there.\<close>

theorem sculld_module_errors:
  "(list_all sculld_answers es \<longrightarrow> cycles sculld_init sculld_cleanup es k = k) \<and>
   (0 \<le> s_region e \<and> s_register e = 0 \<and> \<not> s_mem e \<and> SRegion \<notin> set (held k) \<longrightarrow>
      (\<exists>k'. sculld_init e k = (- ENOMEM, k') \<and> held k' = SDriver # held k)) \<and>
   (0 \<le> s_region e \<and> s_register e \<noteq> 0 \<and> s_mem e \<and> sculld_devs e = 0 \<and> SDriver \<notin> set (held k) \<longrightarrow>
      (\<exists>k'. sculld_init e k = (0, k') \<and> faults (sculld_cleanup e k') = SDriver # faults k))"
proof (intro conjI impI)
  assume "list_all sculld_answers es"
  then show "cycles sculld_init sculld_cleanup es k = k" by (rule sculld_module.cycles_id)
next
  assume "0 \<le> s_region e \<and> s_register e = 0 \<and> \<not> s_mem e \<and> SRegion \<notin> set (held k)"
  then show "\<exists>k'. sculld_init e k = (- ENOMEM, k') \<and> held k' = SDriver # held k"
    by (simp add: sculld_init_def register_ldd_driver_def release_acquire_other)
next
  assume "0 \<le> s_region e \<and> s_register e \<noteq> 0 \<and> s_mem e \<and> sculld_devs e = 0 \<and> SDriver \<notin> set (held k)"
  then show "\<exists>k'. sculld_init e k = (0, k') \<and> faults (sculld_cleanup e k') = SDriver # faults k"
    by (simp add: sculld_init_def sculld_cleanup_def register_ldd_driver_def unregister_ldd_driver_def ledger_simps)
qed

definition sample_sculld :: sculld_env where
  "sample_sculld = \<lparr>s_region = 0, s_register = 0, s_version_file = 0, s_mem = True, s_cdev = (\<lambda>_. True),
     s_device = (\<lambda>_. True), sculld_devs = 4\<rparr>"

theorem sculld_module_errors_witness:
  "cycles sculld_init sculld_cleanup [sample_sculld, sample_sculld] empty_ledger = empty_ledger \<and>
   (\<exists>k'. sculld_init (sample_sculld\<lparr>s_mem := False\<rparr>) empty_ledger = (- ENOMEM, k') \<and> held k' = [SDriver])"
  using sculld_module_errors [of "[sample_sculld, sample_sculld]" empty_ledger "sample_sculld\<lparr>s_mem := False\<rparr>"]
  by (auto simp: sculld_answers_def sample_sculld_def)

section \<open>Trimming a device\<close>

text \<open>One list item: its order, and its array of pages if it has one; pages are numbers.\<close>

record sculld_item =
  item_order :: int
  item_data :: "nat option list option"

(* src: devmodel/bus/ldddev/ldddev.h:57-68 sculld_dev *)
record sculld_dev =
  sd_items :: "sculld_item list"
  sd_vmas :: int
  sd_order :: int
  sd_qset :: int
  sd_size :: "64 word"

definition item_pages :: "int \<Rightarrow> sculld_item \<Rightarrow> (nat \<times> int) list kresult" where
  "item_pages qset it =
     (case item_data it of
        None \<Rightarrow> Inr []
      | Some data \<Rightarrow>
          if qset \<le> int (length data) then
            Inr (map (\<lambda>p. (the p, item_order it)) (filter (\<lambda>p. p \<noteq> None) (take (nat qset) data)))
          else Inl OutOfBounds)"

fun items_pages :: "int \<Rightarrow> sculld_item list \<Rightarrow> (nat \<times> int) list kresult" where
  "items_pages qset [] = Inr []"
| "items_pages qset (it # its) =
     (case item_pages qset it of
        Inl f \<Rightarrow> Inl f
      | Inr ps \<Rightarrow> (case items_pages qset its of Inl f \<Rightarrow> Inl f | Inr qs \<Rightarrow> Inr (ps @ qs)))"

text \<open>The result, the pages given back with their orders, and the device.\<close>

(* src: devmodel/bus/ldddev/ldddev.c:74-102 sculld_trim *)
definition sculld_trim :: "int \<Rightarrow> int \<Rightarrow> sculld_dev \<Rightarrow> (int \<times> (nat \<times> int) list \<times> sculld_dev) kresult" where
  "sculld_trim qset_param order_param d =
     (if sd_vmas d \<noteq> 0 then Inr (- EBUSY, [], d)
      else case items_pages (sd_qset d) (sd_items d) of
        Inl f \<Rightarrow> Inl f
      | Inr ps \<Rightarrow>
          Inr (0, ps, d\<lparr>sd_items := [\<lparr>item_order = order_param, item_data = None\<rparr>], sd_size := 0,
            sd_qset := qset_param, sd_order := order_param\<rparr>))"

lemma items_pages_ok:
  assumes "\<forall>it \<in> set its. \<forall>data. item_data it = Some data \<longrightarrow> int (length data) = qset"
  shows "\<exists>ps. items_pages qset its = Inr ps \<and>
    set ps = {(p, item_order it) |it p data. it \<in> set its \<and> item_data it = Some data \<and> Some p \<in> set data}"
  using assms
proof (induction its)
  case Nil
  then show ?case by simp
next
  case (Cons it its)
  then obtain qs where qs: "items_pages qset its = Inr qs"
    "set qs = {(p, item_order it) |it p data. it \<in> set its \<and> item_data it = Some data \<and> Some p \<in> set data}"
    by auto
  show ?case
  proof (cases "item_data it")
    case None
    with qs show ?thesis by (auto simp: item_pages_def)
  next
    case (Some data)
    with Cons.prems have len: "nat qset = length data" "qset = int (length data)" by auto
    let ?ps = "map (\<lambda>p. (the p, item_order it)) (filter (\<lambda>p. p \<noteq> None) data)"
    have "set ?ps = {(p, item_order it) |p. Some p \<in> set data}" by force
    moreover have "item_pages qset it = Inr ?ps" using Some len by (simp add: item_pages_def)
    ultimately show ?thesis using qs Some by auto
  qed
qed

text \<open>Trimming gives back every page of every item and leaves an empty device; a mapped one is left alone.\<close>

lemma sculld_trim_frees_all:
  assumes "\<forall>it \<in> set (sd_items d). \<forall>data. item_data it = Some data \<longrightarrow> int (length data) = sd_qset d"
    and "sd_vmas d = 0"
  shows "\<exists>ps d'. sculld_trim q r d = Inr (0, ps, d') \<and> sd_size d' = 0 \<and> sd_qset d' = q \<and>
    set ps = {(p, item_order it) |it p data. it \<in> set (sd_items d) \<and> item_data it = Some data \<and> Some p \<in> set data}"
  using items_pages_ok [OF assms(1)] assms(2) by (auto simp: sculld_trim_def)

end
