(* ===== verification/Proc.thy ===== *)
theory Proc
  imports Printf Interfaces
begin

text \<open>
  Numbers that user space reads and writes as text: the two parameters of
  \<open>src/debug/lab6_proc_solB.c\<close>, the process and signal numbers of \<open>lab7_proc_sig_solB.c\<close>, and the sysfs
  attribute of \<open>src/misc/interrupt_soft.c\<close>.
\<close>

section \<open>The parameters\<close>

(* src: debug/lab6_proc_solB.c:33-33 param_1, param_2 *)
record proc_params =
  param_1 :: int
  param_2 :: int

datatype proc_entry = Entry1 | Entry2

fun param :: "proc_entry \<Rightarrow> proc_params \<Rightarrow> int" where
  "param Entry1 p = param_1 p"
| "param Entry2 p = param_2 p"

fun set_param :: "proc_entry \<Rightarrow> int \<Rightarrow> proc_params \<Rightarrow> proc_params" where
  "set_param Entry1 v p = p\<lparr>param_1 := v\<rparr>"
| "set_param Entry2 v p = p\<lparr>param_2 := v\<rparr>"

definition print_number :: "int \<Rightarrow> string" where
  "print_number v = fmt_d v @ [CHR 0x0A]"

(* src: debug/lab6_proc_solB.c:36-50 my_proc_read1, my_proc_read2 *)
definition my_proc_read :: "proc_entry \<Rightarrow> proc_params \<Rightarrow> string \<Rightarrow> (int \<times> string) kresult" where
  "my_proc_read en p page =
     (case sprintf_at 0 (print_number (param en p)) page of
        Inl f \<Rightarrow> Inl f
      | Inr page \<Rightarrow> Inr (int (length (print_number (param en p))), page))"

text \<open>
  The writer gives \<open>text\<close>; \<open>alloc\<close> is the answer to the allocation of exactly that size, \<open>uleft\<close> what the
  user copy left, \<open>leak\<close> tells whether the copy's error path leaves the buffer allocated: that of
  the second entry does. The result is the return value, the parameters and the buffers leaked.
\<close>

definition write_number ::
    "bool \<Rightarrow> bool \<Rightarrow> nat \<Rightarrow> string \<Rightarrow> (int \<times> int option \<times> nat) kresult" where
  "write_number leak alloc uleft text =
     (if \<not> alloc then Inl NullDeref
      else if uleft \<noteq> 0 then Inr (- EFAULT, None, if leak then 1 else 0)
      else case sscanf_d text of
        Inl f \<Rightarrow> Inl f
      | Inr v \<Rightarrow> Inr (int (length text), v, 0))"

(* src: debug/lab6_proc_solB.c:52-80 my_proc_write1, my_proc_write2 *)
definition my_proc_write ::
    "proc_entry \<Rightarrow> bool \<Rightarrow> nat \<Rightarrow> string \<Rightarrow> proc_params \<Rightarrow> (int \<times> proc_params \<times> nat) kresult" where
  "my_proc_write en alloc uleft text p =
     (case write_number (en = Entry2) alloc uleft text of
        Inl f \<Rightarrow> Inl f
      | Inr (r, None, l) \<Rightarrow> Inr (r, p, l)
      | Inr (r, Some v, l) \<Rightarrow> Inr (r, set_param en v p, l))"

definition is_int :: "int \<Rightarrow> bool" where
  "is_int v \<longleftrightarrow> - (2 ^ 31) \<le> v \<and> v < 2 ^ 31"

lemma newline_not_digit [simp]: "\<not> is_digit (CHR 0x0A)"
  by (simp add: is_digit_def)

lemma print_number_short: "is_int v \<Longrightarrow> length (print_number v) \<le> 12"
  using length_fmt_int [of v] by (simp add: is_int_def print_number_def)

lemma read_number:
  assumes "is_int v" and "12 < length page"
  shows "\<exists>page'. sprintf_at 0 (print_number v) page = Inr page' \<and> take (length (print_number v)) page' = print_number v"
proof -
  obtain page' where "sprintf_at 0 (print_number v) page = Inr page'"
    using print_number_short [OF assms(1)] assms(2) by (auto simp: sprintf_at_def)
  with sprintf_append [OF this, of "[]"] show ?thesis by auto
qed

lemma write_printed: "is_int v \<Longrightarrow> sscanf_d (print_number v) = Inr (Some v)"
  using sscanf_fmt_d [of v "CHR 0x0A" "[]"] by (simp add: is_int_def print_number_def)

text \<open>C37: A parameter that is written as its decimal digits and a newline is set, the other one is kept, and
  reading it gives the same text back. Without the newline the driver's buffer, which has no terminating zero,
  is scanned beyond its end.\<close>

theorem proc_param_roundtrip:
  assumes "is_int v" and "12 < length page"
  shows "(\<exists>p'. my_proc_write en True 0 (print_number v) p = Inr (int (length (print_number v)), p', 0) \<and>
      param en p' = v \<and> (\<forall>en'. en' \<noteq> en \<longrightarrow> param en' p' = param en' p) \<and>
      (\<exists>page'. my_proc_read en p' page = Inr (int (length (print_number v)), page') \<and>
         take (length (print_number v)) page' = print_number v)) \<and>
    (0 \<le> v \<longrightarrow> my_proc_write en True 0 (fmt_d v) p = Inl OutOfBounds)"
proof (intro conjI impI)
  from write_printed [OF assms(1)]
  have "my_proc_write en True 0 (print_number v) p = Inr (int (length (print_number v)), set_param en v p, 0)"
    by (simp add: my_proc_write_def write_number_def)
  moreover have "param en (set_param en v p) = v \<and> (\<forall>en'. en' \<noteq> en \<longrightarrow> param en' (set_param en v p) = param en' p)"
  proof -
    have "en' \<noteq> en \<Longrightarrow> param en' (set_param en v p) = param en' p" for en'
      by (cases en; cases en') simp_all
    moreover have "param en (set_param en v p) = v" by (cases en) simp_all
    ultimately show ?thesis by blast
  qed
  ultimately show "\<exists>p'. my_proc_write en True 0 (print_number v) p = Inr (int (length (print_number v)), p', 0) \<and>
      param en p' = v \<and> (\<forall>en'. en' \<noteq> en \<longrightarrow> param en' p' = param en' p) \<and>
      (\<exists>page'. my_proc_read en p' page = Inr (int (length (print_number v)), page') \<and>
         take (length (print_number v)) page' = print_number v)"
    using read_number [OF assms] by (auto simp: my_proc_read_def)
next
  assume "0 \<le> v"
  then have "fmt_d v = digits 10 (nat v)" by (simp add: fmt_d_def)
  then show "my_proc_write en True 0 (fmt_d v) p = Inl OutOfBounds"
    by (simp add: my_proc_write_def write_number_def sscanf_unterminated)
qed

definition sample_params :: proc_params where
  "sample_params = \<lparr>param_1 = 100, param_2 = 200\<rparr>"

theorem proc_param_roundtrip_witness:
  "\<exists>p'. my_proc_write Entry2 True 0 (print_number (-7)) sample_params =
      Inr (int (length (print_number (-7))), p', 0) \<and> param Entry2 p' = -7 \<and> param Entry1 p' = 100"
  using proc_param_roundtrip [of "-7" "replicate 4096 CHR 0x00" Entry2 sample_params]
  by (force simp: is_int_def sample_params_def)

lemma write_fault_leaks:
  "my_proc_write Entry1 True 1 text p = Inr (- EFAULT, p, 0)"
  "my_proc_write Entry2 True 1 text p = Inr (- EFAULT, p, 1)"
  by (simp_all add: my_proc_write_def write_number_def)

section \<open>Creating and removing the entries\<close>

datatype proc_res = ProcDir | Proc1 | Proc2

text \<open>Whether the directory and the two entries could be created.\<close>

(* src: debug/lab6_proc_solB.c:82-112 my_init *)
definition proc_init :: "bool \<times> bool \<times> bool \<Rightarrow> proc_res ledger \<Rightarrow> int \<times> proc_res ledger" where
  "proc_init e k =
     (let (dir, en1, en2) = e
      in if \<not> dir then (-1, k)
      else
        let k = acquire ProcDir k
        in if \<not> en1 then (-1, release ProcDir k)
        else
          let k = acquire Proc1 k
          in if \<not> en2 then (-1, release_all [Proc1, ProcDir] k) else (0, acquire Proc2 k))"

(* src: debug/lab6_proc_solB.c:114-128 my_exit *)
definition proc_exit :: "bool \<times> bool \<times> bool \<Rightarrow> proc_res ledger \<Rightarrow> proc_res ledger" where
  "proc_exit e k =
     (let (dir, en1, en2) = e;
          k = (if en1 then release Proc1 k else k);
          k = (if en2 then release Proc2 k else k)
      in if dir then release ProcDir k else k)"

interpretation proc_module: module_lifecycle "\<lambda>_. True" proc_init "\<lambda>_. [Proc2, Proc1, ProcDir]" proc_exit
  by unfold_locales
    (auto simp: proc_init_def proc_exit_def Let_def ledger_simps split: if_splits prod.splits)

section \<open>Sending signals\<close>

text \<open>
  \<open>sig_tsk\<close> is a task, by number, or null. The kernel's table gives the task of a process number;
  \<open>alive\<close> are the tasks that exist.
\<close>

(* src: debug/lab7_proc_sig_solB.c:48-49 sig_pid, sig_tosend, sig_tsk *)
record sig_state =
  sig_pid :: int
  sig_tosend :: int
  sig_tsk :: "nat option"

(* src: debug/lab7_proc_sig_solB.c:68-90 my_proc_write1 *)
definition sig_write_pid ::
    "(int \<Rightarrow> nat option) \<Rightarrow> bool \<Rightarrow> nat \<Rightarrow> string \<Rightarrow> sig_state \<Rightarrow> (int \<times> sig_state) kresult" where
  "sig_write_pid pid_task alloc uleft text s =
     (case write_number False alloc uleft text of
        Inl f \<Rightarrow> Inl f
      | Inr (r, v, l) \<Rightarrow>
          if r < 0 then Inr (r, s)
          else
            let pid = (case v of None \<Rightarrow> sig_pid s | Some v \<Rightarrow> v)
            in Inr (r, s\<lparr>sig_pid := pid, sig_tsk := pid_task pid\<rparr>))"

text \<open>The signals sent are returned: task and signal. The caller is task \<open>fst current\<close> with number \<open>snd current\<close>.\<close>

(* src: debug/lab7_proc_sig_solB.c:92-119 my_proc_write2 *)
definition sig_write_signal ::
    "nat set \<Rightarrow> nat \<times> int \<Rightarrow> bool \<Rightarrow> nat \<Rightarrow> string \<Rightarrow> sig_state \<Rightarrow> (int \<times> sig_state \<times> (nat \<times> int) list) kresult" where
  "sig_write_signal alive current alloc uleft text s =
     (case write_number True alloc uleft text of
        Inl f \<Rightarrow> Inl f
      | Inr (r, v, l) \<Rightarrow>
          if r < 0 then Inr (r, s, [])
          else
            let s = s\<lparr>sig_tosend := case v of None \<Rightarrow> sig_tosend s | Some v \<Rightarrow> v\<rparr>;
                s = (if sig_tsk s = None then s\<lparr>sig_tsk := Some (fst current), sig_pid := snd current\<rparr> else s)
            in case sig_tsk s of
                 None \<Rightarrow> Inr (r, s, [])
               | Some t \<Rightarrow> if t \<in> alive then Inr (r, s, [(t, sig_tosend s)]) else Inl UseAfterFree)"

text \<open>Writing a process number and then a signal number sends that signal to the process of that number, if it
  exists then and still does; to the writer itself if the number named no process; and if the
  process has ended in between the driver follows the pointer to the task that is gone.\<close>

theorem sig_sends:
  assumes "is_int pid" and "is_int sig" and "fst current \<in> alive"
  shows "\<exists>s1. sig_write_pid pid_task True 0 (print_number pid) s = Inr (int (length (print_number pid)), s1) \<and>
    (case pid_task pid of
       None \<Rightarrow> \<exists>s2. sig_write_signal alive current True 0 (print_number sig) s1 =
         Inr (int (length (print_number sig)), s2, [(fst current, sig)])
     | Some t \<Rightarrow>
         if t \<in> alive then \<exists>s2. sig_write_signal alive current True 0 (print_number sig) s1 =
           Inr (int (length (print_number sig)), s2, [(t, sig)])
         else sig_write_signal alive current True 0 (print_number sig) s1 = Inl UseAfterFree)"
  using write_printed [OF assms(1)] write_printed [OF assms(2)] assms(3)
  by (auto simp: sig_write_pid_def sig_write_signal_def write_number_def Let_def split: option.splits)

definition sample_sig :: sig_state where
  "sample_sig = \<lparr>sig_pid = -1, sig_tosend = 10, sig_tsk = None\<rparr>"

theorem sig_sends_witness:
  "\<exists>s1. sig_write_pid (\<lambda>p. if p = 42 then Some 7 else None) True 0 (print_number 42) sample_sig =
      Inr (int (length (print_number 42)), s1) \<and>
    sig_write_signal {1} (1, 100) True 0 (print_number 9) s1 = Inl UseAfterFree"
  using sig_sends [of 42 9 "(1, 100)" "{1}" "\<lambda>p. if p = 42 then Some 7 else None" sample_sig]
  by (simp add: is_int_def)

section \<open>The sysfs attribute\<close>

(* src: misc/interrupt_soft.c:84-89 sysfs_show *)
definition sysfs_show :: "int \<Rightarrow> string \<Rightarrow> (int \<times> string) kresult" where
  "sysfs_show etx_value buf =
     (case sprintf_at 0 (fmt_d etx_value) buf of
        Inl f \<Rightarrow> Inl f
      | Inr buf \<Rightarrow> Inr (int (length (fmt_d etx_value)), buf))"

text \<open>Sysfs gives the store a page that ends with a zero after the text.\<close>

(* src: misc/interrupt_soft.c:91-97 sysfs_store *)
definition sysfs_store :: "string \<Rightarrow> int \<Rightarrow> (int \<times> int) kresult" where
  "sysfs_store buf etx_value =
     (case sscanf_d (buf @ [CHR 0x00]) of
        Inl f \<Rightarrow> Inl f
      | Inr None \<Rightarrow> Inr (int (length buf), etx_value)
      | Inr (Some v) \<Rightarrow> Inr (int (length buf), v))"

text \<open>What the attribute shows can be stored again: a stored number is shown as it was written.\<close>

theorem sysfs_roundtrip:
  assumes "is_int v" and "11 < length page"
  shows "sysfs_store (fmt_d v) w = Inr (int (length (fmt_d v)), v) \<and>
    (\<exists>page'. sysfs_show v page = Inr (int (length (fmt_d v)), page') \<and> take (length (fmt_d v)) page' = fmt_d v)"
proof
  have "\<not> is_digit (CHR 0x00)" by (simp add: is_digit_def)
  then show "sysfs_store (fmt_d v) w = Inr (int (length (fmt_d v)), v)"
    using assms(1) sscanf_fmt_d [of v "CHR 0x00" "[]"] by (simp add: sysfs_store_def is_int_def)
  have "length (fmt_d v) \<le> 11" using assms(1) length_fmt_int by (simp add: is_int_def)
  then obtain page' where p: "sprintf_at 0 (fmt_d v) page = Inr page'" using assms(2) by (auto simp: sprintf_at_def)
  with sprintf_append [OF this, of "[]"]
  show "\<exists>page'. sysfs_show v page = Inr (int (length (fmt_d v)), page') \<and> take (length (fmt_d v)) page' = fmt_d v"
    by (simp add: sysfs_show_def)
qed

theorem sysfs_roundtrip_witness: "sysfs_store (fmt_d (-12)) 5 = Inr (int (length (fmt_d (-12))), -12)"
  using sysfs_roundtrip [of "-12" "replicate 4096 CHR 0x00" 5] by (simp add: is_int_def)

section \<open>Loading and unloading the attribute's module\<close>

datatype etx_res = EtxChrdev | EtxCdev | EtxClass | EtxDevice | EtxKobj | EtxFile | EtxIrq

text \<open>
  The kernel's answers. The class and the device fail with error pointers, and the code tests for
  null; a device of a class that is an error pointer is not created.
\<close>

record etx_env =
  x_chrdev :: bool
  x_cdev :: bool
  x_class :: "unit kptr"
  x_device :: "unit kptr"
  x_kobj :: bool
  x_file :: bool
  x_irq :: bool

definition etx_device_made :: "etx_env \<Rightarrow> bool" where
  "etx_device_made e \<longleftrightarrow> x_class e = Ptr () \<and> x_device e = Ptr ()"

text \<open>
  The labels of the error path, from the innermost. The removal of the file names the wrong
  directory and removes nothing; putting the directory's object removes its files.
\<close>

definition etx_r_class :: "etx_res ledger \<Rightarrow> int \<times> etx_res ledger" where
  "etx_r_class k = (-1, release_all [EtxChrdev, EtxCdev] k)"

definition etx_r_device :: "etx_env \<Rightarrow> etx_res ledger \<Rightarrow> int \<times> etx_res ledger" where
  "etx_r_device e k = etx_r_class (if x_class e = Ptr () then release EtxClass k else k)"

definition etx_r_sysfs :: "etx_env \<Rightarrow> etx_res ledger \<Rightarrow> int \<times> etx_res ledger" where
  "etx_r_sysfs e k =
     etx_r_device e (if x_kobj e then (if x_file e then release EtxFile else id) (release EtxKobj k) else k)"

(* src: misc/interrupt_soft.c:126-184 etx_driver_init *)
definition etx_init :: "etx_env \<Rightarrow> etx_res ledger \<Rightarrow> int \<times> etx_res ledger" where
  "etx_init e k =
     (if \<not> x_chrdev e then (-1, k)
      else
        let k = acquire EtxChrdev k
        in if \<not> x_cdev e then etx_r_class k
        else
          let k = acquire EtxCdev k
          in if \<not> nonnull (x_class e) then etx_r_class k
          else
            let k = (if x_class e = Ptr () then acquire EtxClass k else k)
            in if x_class e = Ptr () \<and> \<not> nonnull (x_device e) then etx_r_device e k
            else
              let k = (if etx_device_made e then acquire EtxDevice k else k);
                  k = (if x_kobj e then acquire EtxKobj k else k)
              in if \<not> x_kobj e \<or> \<not> x_file e then etx_r_sysfs (e\<lparr>x_file := False\<rparr>) k
              else
                let k = acquire EtxFile k
                in if \<not> x_irq e then etx_r_sysfs e (release EtxIrq k)
                   else (0, acquire EtxIrq k))"

text \<open>\<open>device_destroy\<close> looks the device up in the class, and so follows the class's pointer.\<close>

(* src: misc/interrupt_soft.c:186-196 etx_driver_exit *)
definition etx_exit :: "etx_env \<Rightarrow> etx_res ledger \<Rightarrow> etx_res ledger kresult" where
  "etx_exit e k =
     (let k = release_all [EtxIrq, EtxKobj, EtxFile] k
      in if x_class e \<noteq> Ptr () then Inl BadPointer
      else
        let k = (if etx_device_made e then release EtxDevice k else k)
        in Inr (release_all [EtxClass, EtxCdev, EtxChrdev] k))"

text \<open>When all goes well, unloading gives back everything. When the interrupt cannot be had, the load's
  error path frees the interrupt it did not get and leaves the device behind. When the class
  cannot be created, the load succeeds and the unload follows an error pointer.\<close>

theorem etx_module_errors:
  assumes "x_chrdev e" and "x_cdev e" and "x_device e = Ptr ()" and "x_kobj e" and "x_file e"
    and "set (held k) = {}"
  shows "(x_class e = Ptr () \<and> x_irq e \<longrightarrow>
      (\<exists>k' k''. etx_init e k = (0, k') \<and> etx_exit e k' = Inr k'' \<and> k'' = k)) \<and>
    (x_class e = Ptr () \<and> \<not> x_irq e \<longrightarrow>
      (\<exists>k'. etx_init e k = (-1, k') \<and> held k' = [EtxDevice] \<and> faults k' = EtxIrq # faults k)) \<and>
    (x_class e = ERR_PTR n \<and> x_irq e \<longrightarrow>
      (\<exists>k'. etx_init e k = (0, k') \<and> etx_exit e k' = Inl BadPointer))"
  using assms
  by (auto simp: etx_init_def etx_exit_def etx_r_sysfs_def etx_r_device_def etx_r_class_def etx_device_made_def
      Let_def ledger_simps)

definition sample_etx :: etx_env where
  "sample_etx = \<lparr>x_chrdev = True, x_cdev = True, x_class = Ptr (), x_device = Ptr (), x_kobj = True,
     x_file = True, x_irq = False\<rparr>"

theorem etx_module_errors_witness:
  "\<exists>k'. etx_init sample_etx empty_ledger = (-1, k') \<and> held k' = [EtxDevice] \<and> faults k' = [EtxIrq]"
  using etx_module_errors [of sample_etx empty_ledger 0] by (simp add: sample_etx_def)

end
