(* ===== verification/Mouse.thy ===== *)
theory Mouse
  imports Interfaces
begin

text \<open>
  \<open>src/hardware/lab4_full_mouse_driver.c\<close>: a serial mouse. The interrupt handler assembles
  the bytes of the UART into packets of three, of which the first byte is marked by bit 6;
  \<open>read\<close> hands out the last packet. Modelled: the interrupt handler, the file operations, the
  signal tasklet, loading and unloading. The UART is the list of bytes it delivers.
\<close>

unbundle bit_operations_syntax

section \<open>State\<close>

text \<open>
  \<open>num_byte_in\<close> is the static counter of the interrupt handler. \<open>sig_scheduled\<close> is the tasklet,
  \<open>irq_off\<close> the depth of \<open>disable_irq\<close>, and \<open>overrun\<close> records a store outside \<open>bytes\<close>.
\<close>

(* src: hardware/lab4_full_mouse_driver.c:132-139 my_state, user_pid *)
record mouse =
  bytes :: "byte list"
  ready :: bool
  num_byte_in :: nat
  user_pid :: nat
  sig_scheduled :: bool
  irq_off :: nat
  overrun :: bool

section \<open>The interrupt handler\<close>

text \<open>One turn of the loop: one byte read from the receive register.\<close>

(* src: hardware/lab4_full_mouse_driver.c:284-311 my_interrupt (loop body) *)
definition mouse_byte :: "byte \<Rightarrow> mouse \<Rightarrow> mouse" where
  "mouse_byte b s =
     (let s1 = (if 0 < num_byte_in s \<or> bit b 6 then
                  s\<lparr>bytes := (bytes s)[num_byte_in s := b],
                    overrun := overrun s \<or> length (bytes s) \<le> num_byte_in s,
                    num_byte_in := num_byte_in s + 1\<rparr>
                else s)
      in if num_byte_in s1 = 3 then
           s1\<lparr>ready := True, num_byte_in := 0,
              sig_scheduled := sig_scheduled s1 \<or> user_pid s1 \<noteq> 0\<rparr>
         else s1)"

(* src: hardware/lab4_full_mouse_driver.c:271-314 my_interrupt *)
fun my_interrupt :: "byte list \<Rightarrow> mouse \<Rightarrow> mouse" where
  "my_interrupt [] s = s"
| "my_interrupt (b # bs) s = my_interrupt bs (mouse_byte b s)"

text \<open>The kernel does not call the handler while the line is disabled.\<close>

definition mouse_irq :: "byte list \<Rightarrow> mouse \<Rightarrow> mouse" where
  "mouse_irq bs s = (if irq_off s = 0 then my_interrupt bs s else s)"

text \<open>
  The tasklet signals the process that opened the device. \<open>alive\<close> tells whether the process
  still exists; signalling a process that does not follows a null pointer.
\<close>

(* src: hardware/lab4_full_mouse_driver.c:142-148 t_sendsig, usersig *)
definition t_sendsig :: "(nat \<Rightarrow> bool) \<Rightarrow> mouse \<Rightarrow> mouse kresult" where
  "t_sendsig alive s =
     (if alive (user_pid s) then Inr (s\<lparr>sig_scheduled := False\<rparr>) else Inl NullDeref)"

section \<open>File operations\<close>

(* src: hardware/lab4_full_mouse_driver.c:150-160 mymouse_open *)
definition mymouse_open :: "nat \<Rightarrow> mouse \<Rightarrow> int \<times> mouse" where
  "mymouse_open tgid s = (0, s\<lparr>ready := False, user_pid := tgid\<rparr>)"

text \<open>\<open>tasklet_kill\<close> waits until the tasklet has run.\<close>

(* src: hardware/lab4_full_mouse_driver.c:162-174 mymouse_release *)
definition mymouse_release :: "mouse \<Rightarrow> int \<times> mouse" where
  "mymouse_release s =
     (let s1 = s\<lparr>ready := False\<rparr>
      in (0, if user_pid s1 \<noteq> 0 then s1\<lparr>sig_scheduled := False, user_pid := 0\<rparr> else s1))"

text \<open>
  What happened each time the reader slept: the bytes the UART delivered, and whether a signal
  is pending when the reader runs again. \<open>None\<close> is a reader that still sleeps.
\<close>

(* src: hardware/lab4_full_mouse_driver.c:188-200 mymouse_read (wait) *)
fun mymouse_wait :: "bool \<Rightarrow> (byte list \<times> bool) list \<Rightarrow> mouse \<Rightarrow> (int \<times> mouse) option" where
  "mymouse_wait ndelay [] s =
     (if ready s then Some (0, s) else if ndelay then Some (- EAGAIN, s) else None)"
| "mymouse_wait ndelay ((bs, sig) # ws) s =
     (if ready s then Some (0, s)
      else if ndelay then Some (- EAGAIN, s)
      else let s' = mouse_irq bs s
           in if sig then Some (- ERESTARTSYS, s') else mymouse_wait ndelay ws s')"

text \<open>Returns the result and the bytes stored in the user's buffer.\<close>

(* src: hardware/lab4_full_mouse_driver.c:176-226 mymouse_read *)
definition mymouse_read ::
    "bool \<Rightarrow> size_t \<Rightarrow> (byte list \<times> bool) list \<Rightarrow> size_t \<Rightarrow> mouse \<Rightarrow> (int \<times> byte list \<times> mouse) option" where
  "mymouse_read ndelay lbuf ws uleft s =
     (if lbuf < 3 then Some (- EINVAL, [], s)
      else case mymouse_wait ndelay ws s of
        None \<Rightarrow> None
      | Some (r, s1) \<Rightarrow>
          if r \<noteq> 0 then Some (r, [], s1)
          else
            let s2 = s1\<lparr>irq_off := irq_off s1 + 1\<rparr>;
                out = copied_out 3 uleft (take 3 (bytes s2))
            in if uleft \<noteq> 0 then Some (- EFAULT, out, s2)
               else Some (sint lbuf, out @ replicate (unat lbuf - 3) 0,
                          s2\<lparr>ready := False, irq_off := irq_off s2 - 1\<rparr>))"

(* src: hardware/lab4_full_mouse_driver.c:228-248 mymouse_write *)
definition mymouse_write :: "byte list \<Rightarrow> size_t \<Rightarrow> mouse \<Rightarrow> int \<times> mouse" where
  "mymouse_write buf lbuf s = (- EINVAL, s)"

(* src: hardware/lab4_full_mouse_driver.c:252-258 mymouse_poll *)
definition mymouse_poll :: "mouse \<Rightarrow> c_uint" where
  "mymouse_poll s = (if ready s then 0x41 else 0)"

(* src: hardware/lab4_full_mouse_driver.c:260-269 mymouse_unlocked_ioctl *)
definition mymouse_unlocked_ioctl :: "c_uint \<Rightarrow> mouse \<Rightarrow> int \<times> mouse" where
  "mymouse_unlocked_ioctl cmd s = (- EINVAL, s)"

section \<open>Loading and unloading\<close>

text \<open>The port writes that set the mouse up, as offset from the base port and value.\<close>

(* src: hardware/lab4_full_mouse_driver.c:316-338 mymouse_turnon, BASE_BAUD, QUOT *)
definition mymouse_turnon :: "(nat \<times> byte) list" where
  "mymouse_turnon =
     (let quot = (1843200 div 16) div 1200 :: nat
      in [(0, 0), (1, 0x01), (2, 0x01), (3, 0x02), (4, 0x02 OR 0x08), (3, 0x02 OR 0x80),
          (0, of_nat (quot mod 256)), (1, of_nat (quot div 256)), (3, 0x02)])"

text \<open>
  Two character devices are allocated; the first is added under number 0, before the driver
  has a number, and its pointer is overwritten by the second.
\<close>

datatype mouse_res = MouseIrq | MouseIoRegion | MouseChrdev | MouseCdev0 | MouseCdev | MouseClass | MouseDevice

record mouse_env =
  m_irq_ok :: bool
  m_ioregion_ok :: bool
  m_cdev0_ok :: bool
  m_chrdev :: int
  m_cdev_ok :: bool
  m_add :: int
  m_class_ok :: bool
  m_device_ok :: bool

(* src: hardware/lab4_full_mouse_driver.c:350-409 my_init *)
definition mouse_init :: "mouse_env \<Rightarrow> mouse_res ledger \<Rightarrow> int \<times> mouse_res ledger" where
  "mouse_init e k =
     (if \<not> m_irq_ok e then (-1, k)
      else
        let k = acquire MouseIrq k;
            k = (if m_ioregion_ok e then acquire MouseIoRegion k else k)
        in if \<not> m_cdev0_ok e then (-1, release MouseChrdev k)
        else
          let k = acquire MouseCdev0 k
          in if m_chrdev e < 0 then (-1, k)
          else
            let k = acquire MouseChrdev k
            in if \<not> m_cdev_ok e then (-1, release MouseChrdev k)
            else
              let k = acquire MouseCdev k
              in if m_add e < 0 then (-1, release_all [MouseCdev, MouseChrdev] k)
              else
                let k = (if m_class_ok e then acquire MouseClass k else k);
                    k = (if m_class_ok e \<and> m_device_ok e then acquire MouseDevice k else k)
                in (0, k))"

(* src: hardware/lab4_full_mouse_driver.c:411-422 my_exit *)
definition mouse_exit :: "mouse_res ledger \<Rightarrow> mouse_res ledger" where
  "mouse_exit k = release_all [MouseDevice, MouseClass, MouseChrdev, MouseIoRegion, MouseIrq] k"

text \<open>
  A failed load leaves the interrupt handler registered, in code that is then freed; a load that
  succeeds and is undone leaves both character devices.
\<close>

lemma mouse_init_leaks:
  "fst (mouse_init e k) \<noteq> 0 \<Longrightarrow> m_irq_ok e \<Longrightarrow> MouseIrq \<in> set (held (snd (mouse_init e k)))"
  by (auto simp: mouse_init_def Let_def ledger_simps)

lemma mouse_exit_leaks:
  "mouse_init \<lparr>m_irq_ok = True, m_ioregion_ok = True, m_cdev0_ok = True, m_chrdev = 0, m_cdev_ok = True,
     m_add = 0, m_class_ok = True, m_device_ok = True\<rparr> k = (r, k') \<Longrightarrow>
   r = 0 \<and> held (mouse_exit k') = [MouseCdev, MouseCdev0] @ held k \<and> faults (mouse_exit k') = faults k"
  by (auto simp: mouse_init_def mouse_exit_def Let_def ledger_simps)

text \<open>The divisor the port is programmed with is that of 1200 baud, and the latch is closed again.\<close>

lemma mymouse_turnon_divisor:
  "\<exists>lo hi pre. mymouse_turnon = pre @ [(0, lo), (1, hi), (3, 2)] \<and>
     (unat (lo :: byte) + 256 * unat hi) * 1200 = 115200"
  by (simp add: mymouse_turnon_def Let_def)

section \<open>A reader that keeps up\<close>

text \<open>
  Bytes arrive one by one; whenever a packet is announced the reader reads it before the next
  byte. The packets read are collected.
\<close>

fun mouse_session :: "byte list \<Rightarrow> mouse \<Rightarrow> byte list list \<times> mouse" where
  "mouse_session [] s = ([], s)"
| "mouse_session (b # bs) s =
     (let s1 = mouse_irq [b] s
      in if mymouse_poll s1 = 0 then mouse_session bs s1
         else case mymouse_read False 3 [] 0 s1 of
           None \<Rightarrow> ([], s1)
         | Some (r, out, s2) \<Rightarrow> let (outs, t) = mouse_session bs s2 in (out # outs, t))"

text \<open>
  The specification: skip bytes until one is marked, take it and the two that follow.
\<close>

fun packets :: "byte list \<Rightarrow> byte list list" where
  "packets [] = []"
| "packets (b # bs) =
     (if bit b 6 then (if length bs < 2 then [] else (b # take 2 bs) # packets (drop 2 bs))
      else packets bs)"

text \<open>The part of a packet the handler holds.\<close>

definition partial_packet :: "mouse \<Rightarrow> byte list" where
  "partial_packet s = take (num_byte_in s) (bytes s)"

definition mouse_inv :: "mouse \<Rightarrow> bool" where
  "mouse_inv s \<longleftrightarrow> length (bytes s) = 5 \<and> num_byte_in s < 3 \<and> \<not> overrun s \<and>
     (0 < num_byte_in s \<longrightarrow> bit (bytes s ! 0) 6)"

lemma mouse_byte_inv: "mouse_inv s \<Longrightarrow> mouse_inv (mouse_byte b s)"
  by (auto simp: mouse_inv_def mouse_byte_def Let_def nth_list_update)

lemma my_interrupt_inv: "mouse_inv s \<Longrightarrow> mouse_inv (my_interrupt bs s)"
  by (induction bs s rule: my_interrupt.induct) (simp_all add: mouse_byte_inv)

lemma irq_off_mouse_byte [simp]: "irq_off (mouse_byte b s) = irq_off s"
  by (simp add: mouse_byte_def Let_def)

lemma irq_off_my_interrupt [simp]: "irq_off (my_interrupt bs s) = irq_off s"
  by (induction bs s rule: my_interrupt.induct) simp_all

lemma mouse_wait_inv: "mouse_inv s \<Longrightarrow> mymouse_wait nd ws s = Some (r, s') \<Longrightarrow> mouse_inv s'"
  by (induction nd ws s rule: mymouse_wait.induct)
    (auto simp: mouse_irq_def my_interrupt_inv Let_def split: if_splits)

lemma mouse_read_inv:
  assumes "mouse_inv s" and "mymouse_read nd lbuf ws uleft s = Some (r, out, s')"
  shows "mouse_inv s'"
  using assms mouse_wait_inv [OF assms(1), of nd ws]
  by (auto simp: mymouse_read_def Let_def mouse_inv_def split: if_splits option.splits)

text \<open>What one byte does to the partial packet.\<close>

lemma mouse_byte_idle:
  "mouse_inv s \<Longrightarrow> num_byte_in s = 0 \<Longrightarrow> \<not> bit b 6 \<Longrightarrow> mouse_byte b s = s"
  by (simp add: mouse_byte_def)

lemma mouse_byte_more:
  assumes "mouse_inv s" and "0 < num_byte_in s \<or> bit b 6" and "num_byte_in s < 2"
  shows "partial_packet (mouse_byte b s) = partial_packet s @ [b]"
    and "ready (mouse_byte b s) = ready s"
    and "num_byte_in (mouse_byte b s) = num_byte_in s + 1"
  using assms
  by (auto simp: mouse_byte_def Let_def mouse_inv_def partial_packet_def take_Suc_conv_app_nth)

lemma mouse_byte_last:
  assumes "mouse_inv s" and "num_byte_in s = 2"
  shows "take 3 (bytes (mouse_byte b s)) = partial_packet s @ [b]"
    and "ready (mouse_byte b s)" and "num_byte_in (mouse_byte b s) = 0"
  using assms
  by (auto simp: mouse_byte_def Let_def mouse_inv_def partial_packet_def length_Suc_conv eval_nat_numeral)

text \<open>Reading a packet that is ready.\<close>

lemma mymouse_read_ready:
  assumes "ready s" and "3 \<le> lbuf" and "length (bytes s) = 5"
  shows "mymouse_read nd lbuf ws 0 s =
    Some (sint lbuf, take 3 (bytes s) @ replicate (unat lbuf - 3) 0, s\<lparr>ready := False\<rparr>)"
proof -
  have w: "mymouse_wait nd ws s = Some (0, s)"
    using assms(1) by (cases "(nd, ws, s)" rule: mymouse_wait.cases) simp_all
  show ?thesis
    using assms(2) by (simp add: mymouse_read_def w Let_def copied_out_def linorder_not_less [symmetric])
qed

lemma mouse_session_packets:
  assumes "mouse_inv s" and "\<not> ready s" and "irq_off s = 0"
  shows "fst (mouse_session bs s) = packets (partial_packet s @ bs)"
  using assms
proof (induction bs arbitrary: s)
  case Nil
  then have "length (partial_packet s) < 3" and "partial_packet s \<noteq> [] \<Longrightarrow> bit (hd (partial_packet s)) 6"
    by (auto simp: mouse_inv_def partial_packet_def length_Suc_conv eval_nat_numeral less_Suc_eq)
  then show ?case by (cases "partial_packet s") auto
next
  case (Cons b bs)
  let ?s = "mouse_byte b s"
  have irq: "mouse_irq [b] s = ?s" using Cons.prems(3) by (simp add: mouse_irq_def)
  have inv: "mouse_inv ?s" by (rule mouse_byte_inv [OF Cons.prems(1)])
  consider (skip) "num_byte_in s = 0" "\<not> bit b 6"
    | (more) "0 < num_byte_in s \<or> bit b 6" "num_byte_in s < 2"
    | (last) "num_byte_in s = 2"
    using Cons.prems(1) by (fastforce simp: mouse_inv_def)
  then show ?case
  proof cases
    case skip
    with Cons show ?thesis
      by (simp add: mouse_byte_idle irq mymouse_poll_def Let_def partial_packet_def)
  next
    case more
    with Cons inv mouse_byte_more [OF Cons.prems(1) more] show ?thesis
      by (simp add: irq mymouse_poll_def Let_def)
  next
    case last
    note l = mouse_byte_last [OF Cons.prems(1) last, of b]
    have len: "length (bytes ?s) = 5" using inv by (simp add: mouse_inv_def)
    let ?t = "?s\<lparr>ready := False\<rparr>"
    have rd: "mymouse_read False 3 [] 0 ?s = Some (3, partial_packet s @ [b], ?t)"
      using mymouse_read_ready [OF l(2) _ len, of 3 False "[]"] l(1) by simp
    have "mouse_inv ?t" using inv by (simp add: mouse_inv_def)
    then have "fst (mouse_session bs ?t) = packets (partial_packet ?t @ bs)"
      using Cons.IH [of ?t] Cons.prems(3) by simp
    moreover have "partial_packet ?t = []" using l(3) by (simp add: partial_packet_def)
    moreover obtain x y where "partial_packet s = [x, y]" and "bit x 6"
      using Cons.prems(1) last
      by (auto simp: partial_packet_def mouse_inv_def length_Suc_conv numeral_2_eq_2 eval_nat_numeral)
    ultimately show ?thesis
      using l(2) rd by (simp add: irq mymouse_poll_def Let_def case_prod_beta)
  qed
qed

section \<open>What the reader gets\<close>

definition sample_mouse :: mouse where
  "sample_mouse =
     \<lparr>bytes = [0, 0, 0, 0, 0], ready = False, num_byte_in = 0, user_pid = 7, sig_scheduled = False,
      irq_off = 0, overrun = False\<rparr>"

lemma sample_mouse_inv: "mouse_inv sample_mouse"
  by (simp add: mouse_inv_def sample_mouse_def)

lemma mouse_session_decodes_parts:
  assumes "mouse_inv s" and "num_byte_in s = 0" and "\<not> ready s" and "irq_off s = 0"
  shows "fst (mouse_session bs s) = packets bs"
    and "\<not> overrun (my_interrupt bs s)"
  using mouse_session_packets [OF assms(1,3,4), of bs] my_interrupt_inv [OF assms(1), of bs] assms(2)
  by (simp_all add: partial_packet_def mouse_inv_def)

text \<open>C7: A reader that reads each packet before the next byte arrives receives exactly the packets of
  the protocol: from the idle handler, whatever bytes the UART delivers, the packets read are
  those of the specification (skip to a marked byte, take three), and the handler never stores
  outside its buffer.\<close>

theorem mouse_session_decodes:
  assumes "mouse_inv s" and "num_byte_in s = 0" and "\<not> ready s" and "irq_off s = 0"
  shows "(fst (mouse_session bs s) = packets bs) \<and>
    (\<not> overrun (my_interrupt bs s))"
proof -
  have c1: "fst (mouse_session bs s) = packets bs"
    by (rule mouse_session_decodes_parts(1) [OF assms])
  have c2: "\<not> overrun (my_interrupt bs s)"
    by (rule mouse_session_decodes_parts(2) [OF assms])
  show ?thesis by (rule conjI [OF c1 c2])
qed

theorem mouse_session_decodes_witness:
  "fst (mouse_session [1, 0x40, 2, 3, 4, 0x41, 5, 6] sample_mouse) = [[0x40, 2, 3], [0x41, 5, 6]]"
  using mouse_session_decodes [of sample_mouse "[1, 0x40, 2, 3, 4, 0x41, 5, 6]"] sample_mouse_inv
  by (simp add: sample_mouse_def bit_numeral_word_iff)

text \<open>A packet as the mouse sends it: a marked byte and two that are not.\<close>

definition mouse_packet :: "byte list \<Rightarrow> bool" where
  "mouse_packet p \<longleftrightarrow> (\<exists>x y z. p = [x, y, z] \<and> bit x 6 \<and> \<not> bit y 6 \<and> \<not> bit z 6)"

lemma packets_concat: "list_all mouse_packet ps \<Longrightarrow> packets (concat ps) = ps"
  by (induction ps) (auto simp: mouse_packet_def)

lemma packets_resync:
  assumes "mouse_packet p" and "list_all mouse_packet ps"
    and "length h < 3" and "h \<noteq> [] \<Longrightarrow> bit (hd h) 6"
  shows "\<exists>x. packets (h @ p @ concat ps) = x # ps \<and> (h = [] \<longrightarrow> x = p)"
proof -
  obtain x y z where p: "p = [x, y, z]" "bit x 6" "\<not> bit y 6" "\<not> bit z 6"
    using assms(1) by (auto simp: mouse_packet_def)
  consider "h = []" | a where "h = [a]" | a b where "h = [a, b]"
    using assms(3) by (auto simp: length_Suc_conv eval_nat_numeral less_Suc_eq)
  then show ?thesis
    by cases (use p assms(4) packets_concat [OF assms(2)] in auto)
qed

text \<open>The handler resynchronises: however many bytes of a packet it holds, when whole packets
  follow, the reader gets at most one wrong packet and then every packet that follows; a
  handler that holds nothing gets all of them right.\<close>

theorem mouse_resync:
  assumes "mouse_inv s" and "\<not> ready s" and "irq_off s = 0"
    and "mouse_packet p" and "list_all mouse_packet ps"
  shows "\<exists>x. fst (mouse_session (concat (p # ps)) s) = x # ps \<and> (num_byte_in s = 0 \<longrightarrow> x = p)"
proof -
  have "length (partial_packet s) < 3" and "partial_packet s \<noteq> [] \<Longrightarrow> bit (hd (partial_packet s)) 6"
    using assms(1)
    by (auto simp: mouse_inv_def partial_packet_def length_Suc_conv eval_nat_numeral less_Suc_eq)
  moreover have "num_byte_in s = 0 \<Longrightarrow> partial_packet s = []" by (simp add: partial_packet_def)
  ultimately show ?thesis
    using packets_resync [OF assms(4,5), of "partial_packet s"]
    by (auto simp: mouse_session_packets [OF assms(1-3)])
qed

theorem mouse_resync_witness:
  "\<exists>x. fst (mouse_session [0x40, 1, 2, 0x40, 3, 4] (my_interrupt [0x40, 9] sample_mouse)) = [x, [0x40, 3, 4]]"
proof -
  let ?s = "my_interrupt [0x40, 9] sample_mouse"
  have i: "mouse_inv ?s" by (rule my_interrupt_inv [OF sample_mouse_inv])
  have r: "\<not> ready ?s" "irq_off ?s = 0"
    by (simp_all add: sample_mouse_def mouse_byte_def Let_def bit_numeral_word_iff)
  have p: "mouse_packet [0x40, 1, 2]" "list_all mouse_packet [[0x40, 3, 4]]"
    by (simp_all add: mouse_packet_def bit_numeral_word_iff)
  from mouse_resync [OF i r p] show ?thesis by (simp del: my_interrupt.simps mouse_session.simps) blast
qed

text \<open>A reader that is late gets a packet that was never sent: the handler stores the next packet
  over one that is announced and not yet read, and does not take the announcement back. After
  the first byte of the next packet the read returns that byte with the other two of the old
  packet, and the next packet is then delivered as well.\<close>

theorem mouse_torn_packet:
  assumes "mouse_inv s" and "ready s" and "num_byte_in s = 0" and "irq_off s = 0"
    and "take 3 (bytes s) = [a, b, c]" and "bit x 6"
  shows "\<exists>s1 s2. mymouse_read False 3 [] 0 (mouse_irq [x] s) = Some (3, [x, b, c], s1) \<and>
      mymouse_read False 3 [] 0 (mouse_irq [y, z] s1) = Some (3, [x, y, z], s2)"
proof -
  obtain d e where b: "bytes s = [a, b, c, d, e]"
    using assms(1,5) by (auto simp: mouse_inv_def length_Suc_conv eval_nat_numeral)
  let ?t = "s\<lparr>bytes := [x, b, c, d, e], num_byte_in := 1\<rparr>"
  have t: "mouse_irq [x] s = ?t"
    using assms by (simp add: mouse_irq_def mouse_byte_def b)
  let ?u = "s\<lparr>bytes := [x, y, z, d, e], num_byte_in := 0, sig_scheduled := sig_scheduled s \<or> user_pid s \<noteq> 0\<rparr>"
  have u: "mouse_irq [y, z] (?t\<lparr>ready := False\<rparr>) = ?u"
    using assms(2,4) by (simp add: mouse_irq_def mouse_byte_def Let_def b)
  show ?thesis
    unfolding t
    using mymouse_read_ready [of ?t 3 False "[]"] mymouse_read_ready [of ?u 3 False "[]"] u assms(2)
    by simp
qed

theorem mouse_torn_packet_witness:
  "\<exists>s1 s2. mymouse_read False 3 [] 0 (mouse_irq [0x41] (my_interrupt [0x40, 1, 2] sample_mouse)) =
      Some (3, [0x41, 1, 2], s1) \<and>
    mymouse_read False 3 [] 0 (mouse_irq [5, 6] s1) = Some (3, [0x41, 5, 6], s2)"
proof -
  let ?s = "my_interrupt [0x40, 1, 2] sample_mouse"
  have i: "mouse_inv ?s" by (rule my_interrupt_inv [OF sample_mouse_inv])
  have r: "ready ?s" "num_byte_in ?s = 0" "irq_off ?s = 0" "take 3 (bytes ?s) = [0x40, 1, 2]"
    by (simp_all add: sample_mouse_def mouse_byte_def Let_def bit_numeral_word_iff)
  have x: "bit (0x41 :: byte) 6" by (simp add: bit_numeral_word_iff)
  show ?thesis by (rule mouse_torn_packet [OF i r x])
qed

text \<open>While the line is disabled no byte reaches the driver, so a reader that waits never returns
  unless a signal comes.\<close>

lemma mouse_wait_deaf:
  "\<not> ready s \<Longrightarrow> 0 < irq_off s \<Longrightarrow> list_all (\<lambda>w. \<not> snd w) ws \<Longrightarrow> mymouse_wait False ws s = None"
  by (induction ws arbitrary: s) (auto simp: mouse_irq_def)

text \<open>A read into memory the user does not have leaves the mouse's interrupt line disabled: the
  error return skips \<open>enable_irq\<close>. The packet can still be read once, and from then on every
  read sleeps through all the bytes the mouse sends.\<close>

theorem mouse_fault_deafens:
  assumes "mouse_inv s" and "ready s" and "3 \<le> lbuf" and "uleft \<noteq> 0"
    and "list_all (\<lambda>w. \<not> snd w) ws'"
  shows "\<exists>out s1 s2. mymouse_read nd lbuf ws uleft s = Some (- EFAULT, out, s1) \<and> ready s1 \<and>
      mymouse_read nd 3 ws 0 s1 = Some (3, take 3 (bytes s), s2) \<and>
      mymouse_read False lbuf ws' 0 s2 = None"
proof -
  have w: "mymouse_wait nd ws s = Some (0, s)"
    using assms(2) by (cases "(nd, ws, s)" rule: mymouse_wait.cases) simp_all
  let ?s1 = "s\<lparr>irq_off := irq_off s + 1\<rparr>"
  have l: "length (bytes ?s1) = 5" using assms(1) by (simp add: mouse_inv_def)
  have "\<exists>out. mymouse_read nd lbuf ws uleft s = Some (- EFAULT, out, ?s1)"
    using assms(3,4) by (simp add: mymouse_read_def w Let_def linorder_not_less [symmetric])
  moreover have "mymouse_read nd 3 ws 0 ?s1 = Some (3, take 3 (bytes s), ?s1\<lparr>ready := False\<rparr>)"
    using mymouse_read_ready [OF _ _ l, of 3 nd ws] assms(2) by simp
  moreover have "mymouse_read False lbuf ws' 0 (?s1\<lparr>ready := False\<rparr>) = None"
    using assms(3,5) mouse_wait_deaf [of "?s1\<lparr>ready := False\<rparr>" ws']
    by (simp add: mymouse_read_def linorder_not_less [symmetric])
  ultimately show ?thesis using assms(2) by fastforce
qed

theorem mouse_fault_deafens_witness:
  "\<exists>out s1 s2. mymouse_read False 3 [] 3 (my_interrupt [0x40, 1, 2] sample_mouse) = Some (- EFAULT, out, s1) \<and>
     ready s1 \<and>
     mymouse_read False 3 [] 0 s1 = Some (3, take 3 (bytes (my_interrupt [0x40, 1, 2] sample_mouse)), s2) \<and>
     mymouse_read False 3 [([0x40, 3, 4], False)] 0 s2 = None"
proof -
  let ?s = "my_interrupt [0x40, 1, 2] sample_mouse"
  have i: "mouse_inv ?s" by (rule my_interrupt_inv [OF sample_mouse_inv])
  have r: "ready ?s"
    by (simp add: sample_mouse_def mouse_byte_def Let_def bit_numeral_word_iff)
  show ?thesis by (rule mouse_fault_deafens [OF i r]) simp_all
qed

end
