(* ===== verification/Serial_Mouse.thy ===== *)
theory Serial_Mouse
  imports Mouse
begin

text \<open>
  \<open>src/hardware/lab4_serial.c\<close>: the smaller driver of the serial mouse. Its interrupt handler reads one byte
  an interrupt, assembles packets as the larger driver does (\<open>Mouse\<close>), decodes them, and adds the movement to a
  position that \<open>read\<close> reports and an \<open>ioctl\<close> sets to zero.
\<close>

section \<open>State and interrupt handler\<close>

(* src: hardware/lab4_serial.c:68-68 interrupt_number, xpos, ypos, byte_in, nbytes_in *)
record smouse =
  interrupt_number :: c_int
  xpos :: c_int
  ypos :: c_int
  byte_in :: "byte list"
  nbytes_in :: nat

text \<open>The movement of a packet: eight bits each, read as a signed number.\<close>

(* src: hardware/lab4_serial.c:168-170 my_interrupt (dx) *)
definition packet_dx :: "byte list \<Rightarrow> byte" where
  "packet_dx p = push_bit 6 (p ! 0 AND 0x03) OR (p ! 1 AND 0x3f)"

(* src: hardware/lab4_serial.c:171-173 my_interrupt (dy) *)
definition packet_dy :: "byte list \<Rightarrow> byte" where
  "packet_dy p = push_bit 4 (p ! 0 AND 0x0c) OR (p ! 2 AND 0x3f)"

(* src: hardware/lab4_serial.c:136-191 my_interrupt *)
definition smouse_interrupt :: "byte \<Rightarrow> smouse \<Rightarrow> smouse" where
  "smouse_interrupt b s =
     (let s = s\<lparr>interrupt_number := interrupt_number s + 1\<rparr>;
          s = (if 0 < nbytes_in s \<or> b AND 0x40 \<noteq> 0 then
                 s\<lparr>byte_in := (byte_in s)[nbytes_in s := b], nbytes_in := nbytes_in s + 1\<rparr>
               else s)
      in if nbytes_in s = 3 then
           s\<lparr>xpos := xpos s + scast (packet_dx (byte_in s)), ypos := ypos s + scast (packet_dy (byte_in s)),
             nbytes_in := 0\<rparr>
         else s)"

section \<open>File operations\<close>

definition le_int :: "c_int \<Rightarrow> byte list" where
  "le_int v = map (\<lambda>k. ucast (drop_bit (8 * k) v)) [0, 1, 2, 3]"

text \<open>\<open>f1\<close> and \<open>f2\<close> tell whether the two copies to the user succeed; the first may have been made when the second fails.\<close>

(* src: hardware/lab4_serial.c:93-109 mymouse_read *)
definition smouse_read :: "size_t \<Rightarrow> bool \<Rightarrow> bool \<Rightarrow> smouse \<Rightarrow> int \<times> byte list" where
  "smouse_read lbuf f1 f2 s =
     (if lbuf < 8 then (- EFAULT, [])
      else if \<not> f1 then (- EFAULT, [])
      else if \<not> f2 then (- EFAULT, le_int (xpos s))
      else (8, le_int (xpos s) @ le_int (ypos s)))"

(* src: hardware/lab4_serial.c:111-117 mymouse_write *)
definition smouse_write :: "size_t \<Rightarrow> int" where
  "smouse_write lbuf = sint lbuf"

text \<open>\<open>_IO('k', 1)\<close>\<close>

abbreviation (input) MY_IOC_Z :: c_uint where "MY_IOC_Z \<equiv> 0x6b01"

(* src: hardware/lab4_serial.c:119-134 mymouse_unlocked_ioctl, MY_IOC_Z *)
definition smouse_ioctl :: "c_uint \<Rightarrow> smouse \<Rightarrow> int \<times> smouse" where
  "smouse_ioctl cmd s = (if cmd = MY_IOC_Z then (0, s\<lparr>xpos := 0, ypos := 0\<rparr>) else (- EINVAL, s))"

section \<open>The position is the sum of the packets' movements\<close>

definition smouse_inv :: "smouse \<Rightarrow> bool" where
  "smouse_inv s \<longleftrightarrow> length (byte_in s) = 3 \<and> nbytes_in s < 3 \<and> (0 < nbytes_in s \<longrightarrow> bit (byte_in s ! 0) 6)"

definition held_bytes :: "smouse \<Rightarrow> byte list" where
  "held_bytes s = take (nbytes_in s) (byte_in s)"

definition moved_x :: "byte list list \<Rightarrow> c_int" where
  "moved_x ps = sum_list (map (\<lambda>p. scast (packet_dx p)) ps)"

definition moved_y :: "byte list list \<Rightarrow> c_int" where
  "moved_y ps = sum_list (map (\<lambda>p. scast (packet_dy p)) ps)"

lemma mark_bit: "b AND 0x40 \<noteq> 0 \<longleftrightarrow> bit (b :: byte) 6"
proof -
  have "(0x40 :: byte) = 2 ^ 6" by simp
  then show ?thesis by (simp only: and_exp_eq_0_iff_not_bit not_not)
qed

lemma smouse_inv_step: "smouse_inv s \<Longrightarrow> smouse_inv (smouse_interrupt b s)"
  by (auto simp: smouse_inv_def smouse_interrupt_def Let_def mark_bit nth_list_update)

lemma smouse_position:
  assumes "smouse_inv s"
  shows "xpos (fold smouse_interrupt bs s) = xpos s + moved_x (packets (held_bytes s @ bs)) \<and>
    ypos (fold smouse_interrupt bs s) = ypos s + moved_y (packets (held_bytes s @ bs))"
  using assms
proof (induction bs arbitrary: s)
  case Nil
  then have "packets (held_bytes s) = []"
    by (auto simp: smouse_inv_def held_bytes_def length_Suc_conv eval_nat_numeral less_Suc_eq)
  then show ?case by (simp add: moved_x_def moved_y_def)
next
  case (Cons b bs)
  let ?s = "smouse_interrupt b s"
  have IH: "xpos (fold smouse_interrupt bs ?s) = xpos ?s + moved_x (packets (held_bytes ?s @ bs)) \<and>
    ypos (fold smouse_interrupt bs ?s) = ypos ?s + moved_y (packets (held_bytes ?s @ bs))"
    by (rule Cons.IH [OF smouse_inv_step [OF Cons.prems]])
  obtain x y z where xyz: "byte_in s = [x, y, z]"
    using Cons.prems by (auto simp: smouse_inv_def length_Suc_conv eval_nat_numeral)
  consider (skip) "nbytes_in s = 0" "\<not> bit b 6" | (first) "nbytes_in s = 0" "bit b 6"
    | (second) "nbytes_in s = 1" "bit x 6" | (third) "nbytes_in s = 2" "bit x 6"
    using Cons.prems xyz by (cases "nbytes_in s = 0"; cases "nbytes_in s = 1") (auto simp: smouse_inv_def)
  then show ?case
  proof cases
    case third
    have "packets (held_bytes s @ b # bs) = [x, y, b] # packets bs"
      using third xyz by (simp add: held_bytes_def numeral_2_eq_2)
    moreover have "xpos ?s = xpos s + scast (packet_dx [x, y, b])" and "ypos ?s = ypos s + scast (packet_dy [x, y, b])"
      and "held_bytes ?s = []"
      using third xyz by (simp_all add: smouse_interrupt_def Let_def held_bytes_def eval_nat_numeral)
    ultimately show ?thesis using IH by (simp add: moved_x_def moved_y_def)
  next
    case skip
    have "xpos ?s = xpos s" and "ypos ?s = ypos s" and "held_bytes ?s = []" and "held_bytes s = []"
      using skip by (simp_all add: smouse_interrupt_def Let_def held_bytes_def mark_bit)
    with IH skip show ?thesis by simp
  next
    case first
    have "xpos ?s = xpos s" and "ypos ?s = ypos s" and "held_bytes ?s = [b]" and "held_bytes s = []"
      using first xyz by (simp_all add: smouse_interrupt_def Let_def held_bytes_def mark_bit)
    with IH show ?thesis by simp
  next
    case second
    have "xpos ?s = xpos s" and "ypos ?s = ypos s" and "held_bytes ?s = [x, b]" and "held_bytes s = [x]"
      using second xyz by (simp_all add: smouse_interrupt_def Let_def held_bytes_def numeral_2_eq_2)
    with IH show ?thesis by simp
  qed
qed

text \<open>C13: Whatever bytes the UART delivers to the idle handler, the position moves by the sum of the movements
  of exactly those packets that the larger driver hands out for the same bytes, modulo \<open>2\<^sup>3\<^sup>2\<close>; and
  after the zeroing \<open>ioctl\<close> what is read is that sum alone.\<close>

theorem smouse_follows_packets:
  assumes "smouse_inv s" and "nbytes_in s = 0" and "8 \<le> lbuf"
    and "mouse_inv m" and "num_byte_in m = 0" and "\<not> ready m" and "irq_off m = 0"
  shows "xpos (fold smouse_interrupt bs s) = xpos s + moved_x (fst (mouse_session bs m)) \<and>
    ypos (fold smouse_interrupt bs s) = ypos s + moved_y (fst (mouse_session bs m)) \<and>
    smouse_read lbuf True True (fold smouse_interrupt bs (snd (smouse_ioctl MY_IOC_Z s))) =
      (8, le_int (moved_x (packets bs)) @ le_int (moved_y (packets bs)))"
proof -
  have m: "fst (mouse_session bs m) = packets bs"
    using mouse_session_packets [OF assms(4,6,7), of bs] assms(5) by (simp add: partial_packet_def)
  have z: "smouse_inv (s\<lparr>xpos := 0, ypos := 0\<rparr>)" using assms(1) by (simp add: smouse_inv_def)
  show ?thesis
    using smouse_position [OF assms(1), of bs] smouse_position [OF z, of bs] assms(2,3)
    by (simp add: m held_bytes_def smouse_read_def smouse_ioctl_def linorder_not_less)
qed

definition sample_smouse :: smouse where
  "sample_smouse = \<lparr>interrupt_number = 0, xpos = 0, ypos = 0, byte_in = [0, 0, 0], nbytes_in = 0\<rparr>"

theorem smouse_follows_packets_witness:
  "xpos (fold smouse_interrupt [1, 0x43, 0x3f, 2] sample_smouse) = moved_x (fst (mouse_session [1, 0x43, 0x3f, 2] sample_mouse))"
  using smouse_follows_packets [of sample_smouse 8 sample_mouse "[1, 0x43, 0x3f, 2]"] sample_mouse_inv
  by (simp add: smouse_inv_def sample_smouse_def sample_mouse_def)

text \<open>The protocol's encoding of a movement, with both buttons up.\<close>

definition encode_move :: "byte \<Rightarrow> byte \<Rightarrow> byte list" where
  "encode_move dx dy =
     [0x40 OR drop_bit 6 dx OR push_bit 2 (drop_bit 6 dy), dx AND 0x3f, dy AND 0x3f]"

lemma byte_bit_cases: "bit (b :: byte) n \<Longrightarrow> n < 8"
  using bit_imp_le_length [of b n] by simp

lemma byte_eqI:
  fixes a b :: byte
  assumes "bit a 0 = bit b 0" "bit a 1 = bit b 1" "bit a 2 = bit b 2" "bit a 3 = bit b 3"
    "bit a 4 = bit b 4" "bit a 5 = bit b 5" "bit a 6 = bit b 6" "bit a 7 = bit b 7"
  shows "a = b"
proof (rule bit_word_eqI)
  fix n
  assume "n < LENGTH(8)"
  then have "n \<in> {0, 1, 2, 3, 4, 5, 6, 7}" by auto
  with assms show "bit a n = bit b n" by blast
qed

lemma encode_move_marked: "bit (encode_move dx dy ! 0) 6"
  by (simp add: encode_move_def bit_simps)

lemma encode_move_dx: "packet_dx (encode_move dx dy) = dx"
  by (rule byte_eqI) (simp_all add: packet_dx_def encode_move_def bit_simps)

lemma encode_move_dy: "packet_dy (encode_move dx dy) = dy"
  using byte_bit_cases [of dx 8] byte_bit_cases [of dx 9]
  by (intro byte_eqI) (auto simp: packet_dy_def encode_move_def bit_simps)

lemma packets_moves:
  "packets (concat (map (\<lambda>(dx, dy). encode_move dx dy) ds)) = map (\<lambda>(dx, dy). encode_move dx dy) ds"
proof (induction ds)
  case Nil
  then show ?case by simp
next
  case (Cons d ds)
  obtain dx dy where d: "d = (dx, dy)" by (cases d)
  obtain a b c where e: "encode_move dx dy = [a, b, c]" by (simp add: encode_move_def)
  have "bit a 6" using encode_move_marked [of dx dy] by (simp add: e)
  then show ?case using Cons.IH by (simp add: d e numeral_2_eq_2)
qed

text \<open>Movements survive the protocol: when the mouse sends movements of -128 to 127 in both directions as its
  packets encode them, the position moves by their sums, sign and all.\<close>

theorem smouse_adds_movements:
  assumes "smouse_inv s" and "nbytes_in s = 0"
  shows "xpos (fold smouse_interrupt (concat (map (\<lambda>(dx, dy). encode_move dx dy) ds)) s) =
      xpos s + sum_list (map (\<lambda>(dx, dy). scast dx) ds) \<and>
    ypos (fold smouse_interrupt (concat (map (\<lambda>(dx, dy). encode_move dx dy) ds)) s) =
      ypos s + sum_list (map (\<lambda>(dx, dy). scast dy) ds)"
proof -
  have "map (\<lambda>p. scast (packet_dx p)) (map (\<lambda>(dx, dy). encode_move dx dy) ds) = map (\<lambda>(dx, dy). scast dx :: c_int) ds"
    and "map (\<lambda>p. scast (packet_dy p)) (map (\<lambda>(dx, dy). encode_move dx dy) ds) = map (\<lambda>(dx, dy). scast dy :: c_int) ds"
    by (auto simp: encode_move_dx encode_move_dy)
  then show ?thesis
    using smouse_position [OF assms(1), of "concat (map (\<lambda>(dx, dy). encode_move dx dy) ds)"] assms(2)
    by (simp add: held_bytes_def packets_moves moved_x_def moved_y_def del: map_map)
qed

theorem smouse_adds_movements_witness:
  "sint (xpos (fold smouse_interrupt (concat (map (\<lambda>(dx, dy). encode_move dx dy) [(5, 1), (-7, 0)])) sample_smouse)) = -2"
  using smouse_adds_movements [of sample_smouse "[(5, 1), (-7, 0)]"]
  by (simp add: smouse_inv_def sample_smouse_def)

section \<open>Loading and unloading\<close>

datatype smouse_res = SmIrq | SmRegion | SmChrdev | SmCdev

record smouse_env =
  m_irq :: bool
  m_region :: bool
  m_chrdev :: bool
  m_cdev :: bool

(* src: hardware/lab4_serial.c:196-215 mymouse_turnon, BASE_BAUD, QUOT *)
definition smouse_turnon :: "(nat \<times> byte) list" where
  "smouse_turnon =
     (let quot = (1843200 div 16) div 1200 :: nat
      in [(0, 0), (1, 0x01), (2, 0x01), (3, 0x02), (4, 0x02 OR 0x08), (3, 0x02 OR 0x80),
          (0, of_nat (quot mod 256)), (1, of_nat (quot div 256)), (3, 0x02)])"

(* src: hardware/lab4_serial.c:226-262 my_init *)
definition smouse_init :: "smouse_env \<Rightarrow> smouse_res ledger \<Rightarrow> int \<times> smouse_res ledger" where
  "smouse_init e k =
     (if \<not> m_irq e then (-1, k)
      else
        let k = acquire SmIrq k;
            k = (if m_region e then acquire SmRegion k else k)
        in if \<not> m_chrdev e then (-1, k)
        else
          let k = acquire SmChrdev k
          in if \<not> m_cdev e then (-1, release SmChrdev k) else (0, acquire SmCdev k))"

(* src: hardware/lab4_serial.c:264-273 my_exit *)
definition smouse_exit :: "smouse_res ledger \<Rightarrow> smouse_res ledger" where
  "smouse_exit k = release_all [SmChrdev, SmRegion, SmIrq] k"

text \<open>The smaller driver sets the port up as the larger one does.\<close>

lemma smouse_turnon_same: "smouse_turnon = mymouse_turnon"
  by (simp add: smouse_turnon_def mymouse_turnon_def)

text \<open>A load that fails after the interrupt was got keeps the interrupt and the port region; unloading
  never deletes the device, and gives up the port region even when it belongs to somebody else.\<close>

theorem smouse_module_leaks:
  assumes "m_irq e" and "SmRegion \<notin> set (held k)" and "SmChrdev \<notin> set (held k)" and "SmIrq \<notin> set (held k)"
  shows "(m_region e \<and> \<not> (m_chrdev e \<and> m_cdev e) \<longrightarrow>
      (\<exists>k'. smouse_init e k = (-1, k') \<and> held k' = [SmRegion, SmIrq] @ held k)) \<and>
    (m_chrdev e \<and> m_cdev e \<longrightarrow>
      (\<exists>k'. smouse_init e k = (0, k') \<and> held (smouse_exit k') = SmCdev # held k \<and>
         faults (smouse_exit k') = (if m_region e then faults k else SmRegion # faults k)))"
  using assms by (auto simp: smouse_init_def smouse_exit_def Let_def ledger_simps remove1_idem)

theorem smouse_module_leaks_witness:
  "\<exists>k'. smouse_init \<lparr>m_irq = True, m_region = True, m_chrdev = False, m_cdev = True\<rparr> empty_ledger = (-1, k') \<and>
     held k' = [SmRegion, SmIrq]"
  using smouse_module_leaks [of "\<lparr>m_irq = True, m_region = True, m_chrdev = False, m_cdev = True\<rparr>" empty_ledger]
  by simp

end
