(* ===== verification/Data_Structs.thy ===== *)
theory Data_Structs
  imports Printf Interfaces "HOL-Library.Multiset"
begin

text \<open>
  The kernel's data structures as \<open>src/data\<close> uses them: a linked list of five named entries
  (\<open>lab3_data_list.c\<close>) and a hash table of integers with two buckets (\<open>lab4_data_hashtable.c\<close>).
\<close>

section \<open>The list\<close>

text \<open>An entry holds a number and a name in a buffer of 16 bytes; the list has the newest entry first.\<close>

(* src: data/lab3_data_list.c:20-24 data_entry *)
record data_entry =
  intvar :: int
  strvar :: string

definition data_name :: "nat \<Rightarrow> string" where
  "data_name k = ''Data_'' @ fmt_d (int k + 1)"

text \<open>
  The loop's body for number \<open>k\<close>; \<open>alloc\<close> is the answer to the allocation. None is the
  early return of the error.
\<close>

(* src: data/lab3_data_list.c:33-45 datadrv_init (loop body) *)
definition add_entry :: "bool \<Rightarrow> nat \<Rightarrow> data_entry list \<Rightarrow> data_entry list option kresult" where
  "add_entry alloc k l =
     (if \<not> alloc then Inr None
      else case sprintf_at 0 (data_name k) (replicate 16 CHR 0x00) of
        Inl f \<Rightarrow> Inl f
      | Inr buf \<Rightarrow> Inr (Some (\<lparr>intvar = int k, strvar = takeWhile (\<lambda>c. c \<noteq> CHR 0x00) buf\<rparr> # l)))"

fun data_loop :: "(nat \<Rightarrow> bool) \<Rightarrow> nat list \<Rightarrow> data_entry list \<Rightarrow> (int \<times> data_entry list) kresult" where
  "data_loop alloc [] l = Inr (0, l)"
| "data_loop alloc (k # ks) l =
     (case add_entry (alloc k) k l of
        Inl f \<Rightarrow> Inl f
      | Inr None \<Rightarrow> Inr (- ENOMEM, l)
      | Inr (Some l') \<Rightarrow> data_loop alloc ks l')"

(* src: data/lab3_data_list.c:26-47 datadrv_init *)
definition datadrv_init :: "(nat \<Rightarrow> bool) \<Rightarrow> data_entry list \<Rightarrow> (int \<times> data_entry list) kresult" where
  "datadrv_init alloc l = data_loop alloc [0, 1, 2, 3, 4] l"

text \<open>The safe traversal takes each entry off the list and frees it; the freed entries are returned.\<close>

(* src: data/lab3_data_list.c:49-74 datadrv_exit *)
fun datadrv_exit :: "data_entry list \<Rightarrow> data_entry list \<times> data_entry list" where
  "datadrv_exit [] = ([], [])"
| "datadrv_exit (e # l) = (let (freed, l') = datadrv_exit l in (e # freed, l'))"

definition entry :: "nat \<Rightarrow> data_entry" where
  "entry k = \<lparr>intvar = int k, strvar = data_name k\<rparr>"

lemma data_name_text: "k < 5 \<Longrightarrow> length (data_name k) \<le> 7 \<and> CHR 0x00 \<notin> set (data_name k)"
proof -
  assume "k < 5"
  then have "length (digits 10 (k + 1)) \<le> 2" by (intro length_digits) simp_all
  with digits_no_nul [of 10 "k + 1"] show ?thesis
    by (simp add: data_name_def fmt_d_def nat_add_distrib)
qed

lemma add_entry_ok: "k < 5 \<Longrightarrow> add_entry True k l = Inr (Some (entry k # l))"
proof -
  assume k: "k < 5"
  have n: "length (data_name k) \<le> 7" and z: "CHR 0x00 \<notin> set (data_name k)" using data_name_text [OF k] by auto
  have "takeWhile (\<lambda>c. c \<noteq> CHR 0x00) (data_name k @ ys) = data_name k @ takeWhile (\<lambda>c. c \<noteq> CHR 0x00) ys" for ys
    using z by (intro takeWhile_append2) auto
  then show ?thesis
    using n by (simp add: add_entry_def sprintf_at_def entry_def put_range_def)
qed

lemma datadrv_exit_all: "datadrv_exit l = (l, [])"
  by (induction l) simp_all

text \<open>Loading builds the five entries, the last one first, each with its number and its name, and
  unloading frees exactly those. When an allocation fails the load reports it and leaves the
  entries made so far allocated and on the list of a module that is gone.\<close>

theorem data_list_life:
  "((\<forall>k < 5. alloc k) \<longrightarrow>
      datadrv_init alloc [] = Inr (0, map entry [4, 3, 2, 1, 0]) \<and>
      datadrv_exit (map entry [4, 3, 2, 1, 0]) = (map entry [4, 3, 2, 1, 0], [])) \<and>
   (k < 5 \<and> (\<forall>j < k. alloc j) \<and> \<not> alloc k \<longrightarrow>
      datadrv_init alloc [] = Inr (- ENOMEM, map entry (rev [0..<k])))"
proof (intro conjI impI)
  assume "\<forall>k < 5. alloc k"
  then show "datadrv_init alloc [] = Inr (0, map entry [4, 3, 2, 1, 0])"
    by (simp add: datadrv_init_def add_entry_ok)
next
  show "datadrv_exit (map entry [4, 3, 2, 1, 0]) = (map entry [4, 3, 2, 1, 0], [])"
    by (rule datadrv_exit_all)
next
  assume a: "k < 5 \<and> (\<forall>j < k. alloc j) \<and> \<not> alloc k"
  have f: "add_entry False j l = Inr None" for j l by (simp add: add_entry_def)
  have "k \<in> {0, 1, 2, 3, 4}" using a by auto
  with a show "datadrv_init alloc [] = Inr (- ENOMEM, map entry (rev [0..<k]))"
    by (auto simp: datadrv_init_def add_entry_ok f upt_rec numeral_2_eq_2 numeral_3_eq_3)
qed

theorem data_list_life_witness:
  "datadrv_init (\<lambda>_. True) [] = Inr (0, map entry [4, 3, 2, 1, 0]) \<and>
   datadrv_init (\<lambda>k. k < 2) [] = Inr (- ENOMEM, map entry [1, 0])"
  using data_list_life [of "\<lambda>_. True" 0] data_list_life [of "\<lambda>k. k < 2" 2] by (simp add: upt_rec)

section \<open>The hash table\<close>

text \<open>
  The kernel's hash of a key into one of the two buckets is a parameter, \<open>bucket\<close>. The
  driver's key is C's remainder, which has the sign of the number.
\<close>

type_synonym hash_table = "nat \<Rightarrow> int list"

(* src: data/lab4_data_hashtable.c:22-25 hash_func *)
definition hash_func :: "int \<Rightarrow> int" where
  "hash_func d = (if d < 0 then - ((- d) mod 2) else d mod 2)"

(* src: data/lab4_data_hashtable.c:31-36 add_node *)
definition add_node :: "(int \<Rightarrow> nat) \<Rightarrow> int \<Rightarrow> hash_table \<Rightarrow> hash_table" where
  "add_node bucket d t = (let b = bucket (hash_func d) in t(b := d # t b))"

text \<open>Deletion takes the first node with the number off its bucket.\<close>

(* src: data/lab4_data_hashtable.c:38-49 del_node *)
definition del_node :: "(int \<Rightarrow> nat) \<Rightarrow> int \<Rightarrow> hash_table \<Rightarrow> hash_table" where
  "del_node bucket d t = (let b = bucket (hash_func d) in t(b := remove1 d (t b)))"

(* src: data/lab4_data_hashtable.c:51-58 print_nodes *)
definition print_nodes :: "hash_table \<Rightarrow> int list" where
  "print_nodes t = t 0 @ t 1"

text \<open>The three printouts, and the result: the module never stays loaded.\<close>

(* src: data/lab4_data_hashtable.c:64-90 hashtable_init *)
definition hashtable_init :: "(int \<Rightarrow> nat) \<Rightarrow> hash_table \<Rightarrow> int \<times> int list list \<times> hash_table" where
  "hashtable_init bucket t =
     (let t1 = add_node bucket 5 t;
          t2 = add_node bucket 7 (add_node bucket 2 t1);
          t3 = del_node bucket 5 t2
      in (- EINVAL, [print_nodes t1, print_nodes t2, print_nodes t3], t3))"

definition table_inv :: "(int \<Rightarrow> nat) \<Rightarrow> hash_table \<Rightarrow> bool" where
  "table_inv bucket t \<longleftrightarrow> (\<forall>b. \<forall>d \<in> set (t b). bucket (hash_func d) = b)"

definition contents :: "hash_table \<Rightarrow> int multiset" where
  "contents t = mset (print_nodes t)"

text \<open>A run of insertions (marked True) and deletions.\<close>

fun operate :: "('k \<Rightarrow> 't \<Rightarrow> 't) \<Rightarrow> ('k \<Rightarrow> 't \<Rightarrow> 't) \<Rightarrow> (bool \<times> 'k) list \<Rightarrow> 't \<Rightarrow> 't" where
  "operate add del [] t = t"
| "operate add del ((ins, d) # ops) t = operate add del ops (if ins then add d t else del d t)"

locale bag =
  fixes ok :: "'t \<Rightarrow> bool"
    and add :: "'k \<Rightarrow> 't \<Rightarrow> 't"
    and del :: "'k \<Rightarrow> 't \<Rightarrow> 't"
    and abs :: "'t \<Rightarrow> 'k multiset"
  assumes add: "ok t \<Longrightarrow> ok (add d t) \<and> abs (add d t) = add_mset d (abs t)"
    and del: "ok t \<Longrightarrow> ok (del d t) \<and> abs (del d t) = abs t - {#d#}"
begin

lemma operate_refines:
  "ok t \<Longrightarrow> ok (operate add del ops t) \<and>
     abs (operate add del ops t) = operate add_mset (\<lambda>d m. m - {#d#}) ops (abs t)"
proof (induction ops arbitrary: t)
  case Nil
  then show ?case by simp
next
  case (Cons op ops)
  obtain ins d where op: "op = (ins, d)" by (cases op)
  from Cons.IH [of "if ins then add d t else del d t"] Cons.prems add [of t d] del [of t d] show ?case
    by (simp add: op)
qed

end

definition two_buckets :: "(int \<Rightarrow> nat) \<Rightarrow> bool" where
  "two_buckets bucket \<longleftrightarrow> (\<forall>k. bucket k = 0 \<or> bucket k = 1)"

lemma add_node_bag:
  assumes "two_buckets bucket" and "table_inv bucket t"
  shows "table_inv bucket (add_node bucket d t) \<and> contents (add_node bucket d t) = add_mset d (contents t)"
proof -
  have "bucket (hash_func d) = 0 \<or> bucket (hash_func d) = 1" using assms(1) by (simp add: two_buckets_def)
  with assms(2) show ?thesis
    by (auto simp: table_inv_def add_node_def contents_def print_nodes_def Let_def)
qed

lemma del_node_bag:
  assumes "two_buckets bucket" and "table_inv bucket t"
  shows "table_inv bucket (del_node bucket d t) \<and> contents (del_node bucket d t) = contents t - {#d#}"
proof
  show "table_inv bucket (del_node bucket d t)"
    using assms(2) set_remove1_subset [of d "t (bucket (hash_func d))"]
    by (auto simp: table_inv_def del_node_def Let_def)
  have other: "b \<noteq> bucket (hash_func d) \<Longrightarrow> d \<notin> set (t b)" for b
    using assms(2) by (auto simp: table_inv_def)
  have "print_nodes (del_node bucket d t) = remove1 d (print_nodes t)"
  proof (cases "bucket (hash_func d) = 0")
    case True
    then have "d \<notin> set (t 1)" using other [of 1] by simp
    with True show ?thesis by (simp add: print_nodes_def del_node_def remove1_append remove1_idem Let_def)
  next
    case False
    with assms(1) have b: "bucket (hash_func d) = 1" unfolding two_buckets_def by metis
    then have "d \<notin> set (t 0)" using other [of 0] by simp
    with b show ?thesis by (simp add: print_nodes_def del_node_def remove1_append Let_def)
  qed
  then show "contents (del_node bucket d t) = contents t - {#d#}" by (simp add: contents_def)
qed

interpretation hash: bag "\<lambda>t. two_buckets bucket \<and> table_inv bucket t" "add_node bucket" "del_node bucket" contents
  for bucket
  using add_node_bag del_node_bag by unfold_locales auto

text \<open>C34: The table is a bag of numbers: whatever the kernel's hash does with the keys, after any run of
  insertions and deletions the nodes that are printed are those of a multiset on which the same run was
  performed, a deletion taking one copy if there is one; and every node is in the bucket of its
  key. Loading prints 5, then 2, 5 and 7, then 2 and 7, and always fails.\<close>

theorem hash_table_is_bag:
  assumes "two_buckets bucket" and "table_inv bucket t"
  shows "mset (print_nodes (operate (add_node bucket) (del_node bucket) ops t)) =
      operate add_mset (\<lambda>d m. m - {#d#}) ops (mset (print_nodes t)) \<and>
    table_inv bucket (operate (add_node bucket) (del_node bucket) ops t) \<and>
    (print_nodes t = [] \<longrightarrow> (\<exists>a b c t'. hashtable_init bucket t = (- EINVAL, [a, b, c], t') \<and>
      mset a = {#5#} \<and> mset b = {#2, 5, 7#} \<and> mset c = {#2, 7#}))"
proof -
  note h = hash.operate_refines [of bucket t]
  have p: "print_nodes t = [] \<Longrightarrow> print_nodes (add_node bucket 5 t) = [5]"
    using h [of "[(True, 5)]"] assms by (simp add: contents_def)
  from h [of ops] h [of "[(True, 5), (True, 2), (True, 7)]"] h [of "[(True, 5), (True, 2), (True, 7), (False, 5)]"]
    assms p show ?thesis by (simp add: contents_def hashtable_init_def Let_def add_mset_commute)
qed

theorem hash_table_is_bag_witness:
  "mset (print_nodes (operate (add_node (\<lambda>k. if k = 0 then 0 else 1)) (del_node (\<lambda>k. if k = 0 then 0 else 1))
     [(True, 3), (True, -4), (True, 3), (False, 3)] (\<lambda>_. []))) = {#-4, 3#}"
  using hash_table_is_bag [of "\<lambda>k. if k = 0 then 0 else 1" "\<lambda>_. []" "[(True, 3), (True, -4), (True, 3), (False, 3)]"]
  by (simp add: two_buckets_def table_inv_def print_nodes_def add_mset_commute)

end
