(* ===== verification/Timers.thy ===== *)
theory Timers
  imports Lab_Char "HOL-Library.Multiset"
begin

text \<open>
  The timer labs of \<open>src/timers\<close>: periodic timers that arm themselves again
  (\<open>lab3_periodic_timer.c\<close>, \<open>lab4_periodic_timers.c\<close>, \<open>lab4_periodic_timers_alt.c\<close>), the same on
  high resolution timers (\<open>lab5_hrtimer.c\<close>, \<open>lab7_hrexamp.c\<close>), and timers started by writes to the
  generic driver (\<open>lab1_timer.c\<close>, \<open>lab2_multitimer.c\<close>). The tick rate \<open>HZ\<close> is a configuration value.
\<close>

section \<open>A periodic timer\<close>

text \<open>
  A timer is armed for a value of \<open>jiffies\<close> or not armed. Two fields of the structure are never used.
\<close>

(* src: timers/lab3_periodic_timer.c:24-30 timer, data *)
record kt_data =
  period :: "64 word"
  start_time :: "64 word"
  timer_start :: "64 word"
  timer_end :: "64 word"
  armed :: "64 word option"

text \<open>
  The timer function reads \<open>jiffies\<close> twice, for the line and to arm the timer again; it prints the
  period and the time elapsed.
\<close>

(* src: timers/lab3_periodic_timer.c:32-40 ktfun *)
definition ktfun :: "64 word \<Rightarrow> 64 word \<Rightarrow> kt_data \<Rightarrow> (64 word \<times> 64 word) \<times> kt_data" where
  "ktfun j1 j2 tdata =
     ((period tdata, j1 - start_time tdata), tdata\<lparr>armed := Some (period tdata + j2)\<rparr>)"

text \<open>So does loading, for the expiry and for the start.\<close>

(* src: timers/lab3_periodic_timer.c:42-55 my_init *)
definition periodic_init :: "64 word \<Rightarrow> 64 word \<Rightarrow> 64 word \<Rightarrow> kt_data" where
  "periodic_init HZ j1 j2 =
     \<lparr>period = 2 * HZ, start_time = j2, timer_start = 0, timer_end = 0, armed = Some (j1 + 2 * HZ)\<rparr>"

(* src: timers/lab3_periodic_timer.c:57-62 my_exit *)
definition periodic_exit :: "kt_data \<Rightarrow> kt_data" where
  "periodic_exit tdata = tdata\<lparr>armed := None\<rparr>"

text \<open>
  A timer fires late by some jiffies, and time may pass between two readings. \<open>fires\<close> runs the
  timer function once for each pair of the two; a timer that is not armed does not fire.
\<close>

fun fires :: "('s \<Rightarrow> 64 word option) \<Rightarrow> (64 word \<Rightarrow> 64 word \<Rightarrow> 's \<Rightarrow> 'p \<times> 's) \<Rightarrow>
    (64 word \<times> 64 word) list \<Rightarrow> 's \<Rightarrow> 'p list \<times> 's" where
  "fires arm f [] s = ([], s)"
| "fires arm f ((late, slip) # ts) s =
     (case arm s of
        None \<Rightarrow> ([], s)
      | Some e \<Rightarrow>
          let (p, s) = f (e + late) (e + late + slip) s;
              (ps, s) = fires arm f ts s
          in (p # ps, s))"

lemma fires_cons:
  "arm s = Some e \<Longrightarrow> fst (fires arm f ((late, slip) # ts) s) =
     fst (f (e + late) (e + late + slip) s) # fst (fires arm f ts (snd (f (e + late) (e + late + slip) s)))"
  by (simp add: split_beta Let_def)

text \<open>The times elapsed that the lines show when every firing is late and slips.\<close>

fun elapsed_since_load :: "64 word \<Rightarrow> 64 word \<Rightarrow> (64 word \<times> 64 word) list \<Rightarrow> 64 word list" where
  "elapsed_since_load P t [] = []"
| "elapsed_since_load P t ((late, slip) # ts) =
     (t + P + late) # elapsed_since_load P (t + P + late + slip) ts"

lemma ktfun_fires:
  "armed s = Some (start_time s + t + period s) \<Longrightarrow>
   fst (fires armed ktfun ts s) = map (Pair (period s)) (elapsed_since_load (period s) t ts)"
proof (induction ts arbitrary: s t)
  case Nil
  then show ?case by simp
next
  case (Cons x ts)
  obtain late slip where x: "x = (late, slip)" by (cases x)
  let ?t = "t + period s + late + slip"
  let ?e = "start_time s + t + period s"
  let ?s = "s\<lparr>armed := Some (period s + (?e + late + slip))\<rparr>"
  have "armed ?s = Some (start_time ?s + ?t + period ?s)" by (simp add: algebra_simps)
  note ih = Cons.IH [OF this]
  have "ktfun (?e + late) (?e + late + slip) s = ((period s, t + period s + late), ?s)"
    by (simp add: ktfun_def algebra_simps)
  with ih show ?case
    by (simp add: x fires_cons [of armed, OF Cons.prems] del: fires.simps)
qed

section \<open>Two periodic timers\<close>

text \<open>
  Each of the two timers of \<open>lab4_periodic_timers.c\<close> has its own data and function; the functions
  differ in nothing but a letter of the line. The start time is set at every run.
\<close>

(* src: timers/lab4_periodic_timers.c:34-39 timer_a, timer_b, my_data *)
record my_data =
  p_period :: "64 word"
  p_start_time :: "64 word"
  p_armed :: "64 word option"

(* src: timers/lab4_periodic_timers.c:41-59 ktfun_a, ktfun_b *)
definition ktfun_ab :: "64 word \<Rightarrow> 64 word \<Rightarrow> 64 word \<Rightarrow> my_data \<Rightarrow> (64 word \<times> 64 word) \<times> my_data" where
  "ktfun_ab j1 j2 j3 dat =
     ((p_period dat, j1 - p_start_time dat),
      dat\<lparr>p_start_time := j2, p_armed := Some (p_period dat + j3)\<rparr>)"

text \<open>Neither allocation is checked.\<close>

(* src: timers/lab4_periodic_timers.c:61-88 my_init *)
definition periodic_ab_init ::
    "64 word \<Rightarrow> bool \<Rightarrow> bool \<Rightarrow> (64 word \<times> 64 word) \<Rightarrow> (64 word \<times> 64 word) \<Rightarrow> (my_data \<times> my_data) kresult" where
  "periodic_ab_init HZ alloc_a alloc_b starts expiries =
     (if \<not> alloc_a \<or> \<not> alloc_b then Inl NullDeref
      else
        let a = \<lparr>p_period = 1 * HZ, p_start_time = fst starts, p_armed = Some (fst expiries + 1 * HZ)\<rparr>;
            b = \<lparr>p_period = 10 * HZ, p_start_time = snd starts, p_armed = Some (snd expiries + 10 * HZ)\<rparr>
        in Inr (a, b))"

text \<open>The variant with an array sets its two elements in a loop, and prints \<open>'A' + i\<close>.\<close>

(* src: timers/lab4_periodic_timers_alt.c:32-48 my_data, my_timer_func *)
definition my_timer_func ::
    "nat \<Rightarrow> 64 word \<Rightarrow> 64 word \<Rightarrow> 64 word \<Rightarrow> my_data list \<Rightarrow> (nat \<times> 64 word \<times> 64 word) \<times> my_data list" where
  "my_timer_func i j1 j2 j3 data_array =
     (let dat = data_array ! i
      in ((65 + i, p_period dat, j1 - p_start_time dat),
          data_array[i := dat\<lparr>p_start_time := j2, p_armed := Some (p_period dat + j3)\<rparr>]))"

(* src: timers/lab4_periodic_timers_alt.c:50-72 my_init *)
definition periodic_alt_init ::
    "64 word \<Rightarrow> bool \<Rightarrow> (nat \<Rightarrow> 64 word \<times> 64 word) \<Rightarrow> my_data list kresult" where
  "periodic_alt_init HZ alloc js =
     (if \<not> alloc then Inl NullDeref
      else Inr (map (\<lambda>i.
        let period_in_secs = (if i = 0 then 1 else 10)
        in \<lparr>p_period = period_in_secs * HZ, p_start_time = fst (js i),
            p_armed = Some (snd (js i) + period_in_secs * HZ)\<rparr>) [0..<2]))"

text \<open>The third reading is the second one and what slipped since; the second is the first.\<close>

definition ktfun_ab_slips :: "64 word \<Rightarrow> 64 word \<Rightarrow> my_data \<Rightarrow> (64 word \<times> 64 word) \<times> my_data" where
  "ktfun_ab_slips j1 j3 = ktfun_ab j1 j1 j3"

fun elapsed_since_last :: "64 word \<Rightarrow> 64 word \<Rightarrow> (64 word \<times> 64 word) list \<Rightarrow> 64 word list" where
  "elapsed_since_last P slipped [] = []"
| "elapsed_since_last P slipped ((late, slip) # ts) = (slipped + P + late) # elapsed_since_last P slip ts"

lemma ktfun_ab_fires:
  "p_armed s = Some (p_start_time s + t + p_period s) \<Longrightarrow>
   fst (fires p_armed ktfun_ab_slips ts s) = map (Pair (p_period s)) (elapsed_since_last (p_period s) t ts)"
proof (induction ts arbitrary: s t)
  case Nil
  then show ?case by simp
next
  case (Cons x ts)
  obtain late slip where x: "x = (late, slip)" by (cases x)
  let ?e = "p_start_time s + t + p_period s"
  let ?j = "?e + late"
  let ?s = "s\<lparr>p_start_time := ?j, p_armed := Some (p_period s + (?j + slip))\<rparr>"
  have "p_armed ?s = Some (p_start_time ?s + slip + p_period ?s)" by (simp add: algebra_simps)
  note ih = Cons.IH [OF this]
  have "ktfun_ab_slips ?j (?j + slip) s = ((p_period s, t + p_period s + late), ?s)"
    by (simp add: ktfun_ab_slips_def ktfun_ab_def algebra_simps)
  with ih show ?case
    by (simp add: x fires_cons [of p_armed, OF Cons.prems] del: fires.simps)
qed

text \<open>The single periodic timer prints, at its n-th run, the time since it was loaded: n periods
  and every jiffy by which a run was late or slow, so that the lateness adds up and never is
  caught up, exact even when the counter wraps around. Each of the two timers prints the time since its
  own last run instead: one period and the lateness of this run alone.\<close>

theorem periodic_lines:
  shows "fst (fires armed ktfun ts (periodic_init HZ j j)) = map (Pair (2 * HZ)) (elapsed_since_load (2 * HZ) 0 ts)"
    and "periodic_ab_init HZ True True (j, j') (j, j') = Inr (a, b) \<Longrightarrow>
      fst (fires p_armed ktfun_ab_slips ts a) = map (Pair HZ) (elapsed_since_last HZ 0 ts) \<and>
      fst (fires p_armed ktfun_ab_slips ts' b) = map (Pair (10 * HZ)) (elapsed_since_last (10 * HZ) 0 ts')"
proof -
  show "fst (fires armed ktfun ts (periodic_init HZ j j)) = map (Pair (2 * HZ)) (elapsed_since_load (2 * HZ) 0 ts)"
    by (subst ktfun_fires [where t = 0]) (simp_all add: periodic_init_def)
next
  assume "periodic_ab_init HZ True True (j, j') (j, j') = Inr (a, b)"
  then have a: "a = \<lparr>p_period = HZ, p_start_time = j, p_armed = Some (j + HZ)\<rparr>"
    and b: "b = \<lparr>p_period = 10 * HZ, p_start_time = j', p_armed = Some (j' + 10 * HZ)\<rparr>"
    by (simp_all add: periodic_ab_init_def Let_def)
  show "fst (fires p_armed ktfun_ab_slips ts a) = map (Pair HZ) (elapsed_since_last HZ 0 ts) \<and>
      fst (fires p_armed ktfun_ab_slips ts' b) = map (Pair (10 * HZ)) (elapsed_since_last (10 * HZ) 0 ts')"
    by (subst (1 2) ktfun_ab_fires [where t = 0]) (simp_all add: a b)
qed

theorem periodic_lines_witness:
  "periodic_ab_init 100 True True (7, 8) (7, 8) =
     Inr (\<lparr>p_period = 100, p_start_time = 7, p_armed = Some 107\<rparr>,
          \<lparr>p_period = 1000, p_start_time = 8, p_armed = Some 1008\<rparr>) \<and>
   fst (fires p_armed ktfun_ab_slips [(3, 1), (0, 0)] \<lparr>p_period = 100, p_start_time = 7, p_armed = Some 107\<rparr>) =
     [(100, 103), (100, 101)] \<and>
   fst (fires armed ktfun [(3, 1), (0, 0)] (periodic_init 50 7 7)) = [(100, 103), (100, 204)]"
proof -
  have i: "periodic_ab_init 100 True True (7, 8) (7, 8) =
     Inr (\<lparr>p_period = 100, p_start_time = 7, p_armed = Some 107\<rparr>,
          \<lparr>p_period = 1000, p_start_time = 8, p_armed = Some 1008\<rparr>)"
    by (simp add: periodic_ab_init_def)
  show ?thesis
    using i periodic_lines(2) [OF i, of "[(3, 1), (0, 0)]" "[]"]
      periodic_lines(1) [of "[(3, 1), (0, 0)]" 50 7] by simp
qed

section \<open>High resolution timers\<close>

text \<open>
  Times are in nanoseconds. \<open>hrtimer_forward\<close> moves the expiry by as many whole intervals as
  are needed for it to lie after the given time, and returns their number.
\<close>

definition hrtimer_forward :: "int \<Rightarrow> int \<Rightarrow> int \<Rightarrow> int \<times> int" where
  "hrtimer_forward expiry now interval =
     (if now < expiry then (0, expiry)
      else let n = (now - expiry) div interval + 1 in (n, expiry + n * interval))"

(* src: timers/lab5_hrtimer.c:26-32 my_data *)
record hr_data =
  hr_period :: int
  period_in_secs :: int
  hr_start_time :: "64 word"
  hr_expires :: "int option"
  struct_id :: nat

text \<open>The function returns \<open>HRTIMER_RESTART\<close>: the timer is enqueued again for the expiry it set.\<close>

(* src: timers/lab5_hrtimer.c:39-51 my_timer_func *)
definition hr_timer_func ::
    "64 word \<Rightarrow> int \<Rightarrow> 64 word \<Rightarrow> int \<Rightarrow> hr_data \<Rightarrow> (nat \<times> int \<times> 64 word) \<times> hr_data" where
  "hr_timer_func j1 now j2 expiry dat =
     ((struct_id dat, period_in_secs dat, j1 - hr_start_time dat),
      dat\<lparr>hr_start_time := j2, hr_expires := Some (snd (hrtimer_forward expiry now (hr_period dat)))\<rparr>)"

(* src: timers/lab5_hrtimer.c:53-75 my_init *)
definition hr_init :: "bool \<Rightarrow> (nat \<Rightarrow> 64 word \<times> int) \<Rightarrow> hr_data list kresult" where
  "hr_init alloc js =
     (if \<not> alloc then Inl NullDeref
      else Inr (map (\<lambda>i.
        let secs = (if i = 0 then 1 else 10)
        in \<lparr>hr_period = secs * 1000000000, period_in_secs = secs, hr_start_time = fst (js i),
            hr_expires = Some (snd (js i) + secs * 1000000000), struct_id = 65 + i\<rparr>) [0..<2]))"

text \<open>The example has one such timer, of one second.\<close>

(* src: timers/lab7_hrexamp.c:32-41 my_init *)
definition hrexamp_init :: "bool \<Rightarrow> int \<Rightarrow> int kresult" where
  "hrexamp_init alloc now = (if alloc then Inr (now + 1000000000) else Inl NullDeref)"

(* src: timers/lab7_hrexamp.c:24-30 ktfun *)
definition hrexamp_fun :: "int \<Rightarrow> int \<Rightarrow> int" where
  "hrexamp_fun now expiry = snd (hrtimer_forward expiry now 1000000000)"

text \<open>The timer function runs once for each reading of its clock, none before the expiry.\<close>

fun hr_fires :: "(64 word \<times> int \<times> 64 word) list \<Rightarrow> hr_data \<Rightarrow> hr_data option" where
  "hr_fires [] d = Some d"
| "hr_fires ((j1, now, j2) # ts) d =
     (case hr_expires d of
        None \<Rightarrow> None
      | Some e \<Rightarrow> if now < e then None else hr_fires ts (snd (hr_timer_func j1 now j2 e d)))"

lemma hrtimer_forward_bounds:
  assumes "0 < P" and "e \<le> now"
  shows "now < snd (hrtimer_forward e now P)" and "snd (hrtimer_forward e now P) \<le> now + P"
    and "P dvd snd (hrtimer_forward e now P) - e"
proof -
  let ?q = "(now - e) div P"
  have f: "snd (hrtimer_forward e now P) = e + (?q + 1) * P"
    using assms(2) by (simp add: hrtimer_forward_def Let_def)
  have m: "now - e = ?q * P + (now - e) mod P" by simp
  have "0 \<le> (now - e) mod P" and "(now - e) mod P < P" using assms(1) by simp_all
  moreover have "snd (hrtimer_forward e now P) = e + ?q * P + P"
    unfolding f by (simp add: distrib_right)
  ultimately show "now < snd (hrtimer_forward e now P)" and "snd (hrtimer_forward e now P) \<le> now + P"
    using m by linarith+
  show "P dvd snd (hrtimer_forward e now P) - e" unfolding f by simp
qed

lemma hr_fires_grid:
  assumes "hr_fires ts d = Some d'" and "hr_expires d = Some e" and "0 < hr_period d"
  shows "\<exists>e'. hr_expires d' = Some e' \<and> hr_period d' = hr_period d \<and> hr_period d dvd e' - e \<and>
    (ts \<noteq> [] \<longrightarrow> fst (snd (last ts)) < e' \<and> e' \<le> fst (snd (last ts)) + hr_period d)"
  using assms
proof (induction ts arbitrary: d e)
  case Nil
  then show ?case by simp
next
  case (Cons x ts)
  obtain j1 now j2 where x: "x = (j1, now, j2)" by (cases x)
  let ?P = "hr_period d" and ?e = "snd (hrtimer_forward e now (hr_period d))"
  let ?d = "snd (hr_timer_func j1 now j2 e d)"
  from Cons.prems have le: "e \<le> now" and r: "hr_fires ts ?d = Some d'"
    by (auto simp: x split: if_splits)
  have d: "hr_expires ?d = Some ?e" "hr_period ?d = ?P" by (simp_all add: hr_timer_func_def)
  note b = hrtimer_forward_bounds [OF Cons.prems(3) le]
  show ?case
  proof (cases "ts = []")
    case True
    with r d b show ?thesis by (auto simp: x)
  next
    case False
    from Cons.IH [OF r d(1)] Cons.prems(3) obtain e' where e': "hr_expires d' = Some e'"
      "hr_period d' = ?P" "?P dvd e' - ?e"
      "fst (snd (last ts)) < e' \<and> e' \<le> fst (snd (last ts)) + ?P"
      using False by (auto simp: d)
    have "?P dvd (e' - ?e) + (?e - e)" by (rule dvd_add [OF e'(3) b(3)])
    then have "?P dvd e' - e" by simp
    with e' False show ?thesis by (auto simp: x)
  qed
qed

text \<open>The high resolution timers keep their beat: however late the callbacks of either timer run,
  its next expiry lies a whole number of periods after the first one, after the time the last
  callback read, and at most one period after it. Nothing of the lateness adds up.\<close>

theorem hrtimer_keeps_beat:
  assumes "hr_init True js = Inr ds" and "i < 2" and "hr_fires ts (ds ! i) = Some d" and "ts \<noteq> []"
  shows "\<exists>e P. hr_expires d = Some e \<and> P = (if i = 0 then 1 else 10) * 1000000000 \<and>
    P dvd e - snd (js i) \<and> fst (snd (last ts)) < e \<and> e \<le> fst (snd (last ts)) + P"
proof -
  define P :: int where "P = (if i = 0 then 1 else 10) * 1000000000"
  have p: "hr_period (ds ! i) = P" and e: "hr_expires (ds ! i) = Some (snd (js i) + P)"
    using assms(1,2) by (auto simp: hr_init_def P_def Let_def)
  have "0 < P" by (simp add: P_def)
  with hr_fires_grid [OF assms(3) e] p obtain e' where e': "hr_expires d = Some e'"
    "P dvd e' - (snd (js i) + P)" "fst (snd (last ts)) < e'" "e' \<le> fst (snd (last ts)) + P"
    using assms(4) by auto
  from e'(2) have "P dvd (e' - (snd (js i) + P)) + P" by (rule dvd_add) simp
  then have "P dvd e' - snd (js i)" by simp
  with e' show ?thesis unfolding P_def by blast
qed

theorem hrtimer_keeps_beat_witness:
  "\<exists>ds d. hr_init True (\<lambda>_. (0, 5)) = Inr ds \<and>
     hr_fires [(0, 1000000009, 0), (0, 4500000000, 0)] (ds ! 0) = Some d \<and> hr_expires d = Some 5000000005"
proof -
  obtain ds where ds: "hr_init True (\<lambda>_. (0, 5)) = Inr ds" by (simp add: hr_init_def)
  then have z: "ds ! 0 = \<lparr>hr_period = 1000000000, period_in_secs = 1, hr_start_time = 0,
      hr_expires = Some 1000000005, struct_id = 65\<rparr>"
    by (auto simp: hr_init_def)
  let ?ts = "[(0, 1000000009, 0), (0, 4500000000, 0)] :: (64 word \<times> int \<times> 64 word) list"
  obtain d where d: "hr_fires ?ts (ds ! 0) = Some d" "hr_expires d = Some 5000000005"
    by (simp add: z hr_timer_func_def hrtimer_forward_def)
  from hrtimer_keeps_beat [OF ds _ d(1)] ds d show ?thesis by auto
qed

lemma hrexamp_keeps_beat:
  assumes "hrexamp_init True start = Inr e0" and "1000000000 dvd e - e0" and "e \<le> now"
  shows "1000000000 dvd hrexamp_fun now e - e0" and "now < hrexamp_fun now e"
proof -
  note b = hrtimer_forward_bounds [OF _ assms(3), of 1000000000]
  have "1000000000 dvd (hrexamp_fun now e - e) + (e - e0)"
    using b(3) assms(2) unfolding hrexamp_fun_def by (intro dvd_add) simp_all
  then show "1000000000 dvd hrexamp_fun now e - e0" by simp
  show "now < hrexamp_fun now e" using b(1) by (simp add: hrexamp_fun_def)
qed

section \<open>Unloading while a timer function runs\<close>

text \<open>
  A timer function is cut where it reads its data and where it arms its timer again; a timer is
  pending, in its function, or off. \<open>del_timer\<close> (\<open>Del\<close>) takes a pending timer off and leaves a
  running function alone; \<open>del_timer_sync\<close> and \<open>hrtimer_cancel\<close> (\<open>DelSync\<close>) moreover wait for the
  function to end, and take off what it armed.
\<close>

datatype tm_pc = TmOff | TmPending | TmPrint | TmRearm

datatype exit_act = Del nat | DelSync nat | Free "nat list"

record unloading =
  tm :: "nat \<Rightarrow> tm_pc"
  prog :: "exit_act list"
  freed :: "nat set"
  dangling :: bool

datatype tm_event = TmFire nat | TmUse nat | TmArm nat | TmExit

text \<open>The exit functions of the modules, as the calls they make.\<close>

(* src: timers/lab3_periodic_timer.c:57-62 my_exit *)
definition periodic_exit_prog :: "exit_act list" where
  "periodic_exit_prog = [DelSync 0]"

(* src: timers/lab4_periodic_timers.c:90-98 my_exit *)
definition periodic_ab_exit_prog :: "exit_act list" where
  "periodic_ab_exit_prog = [DelSync 0, DelSync 1, Free [0], Free [1]]"

(* src: timers/lab4_periodic_timers_alt.c:74-84 my_exit *)
definition periodic_alt_exit_prog :: "exit_act list" where
  "periodic_alt_exit_prog = map Del [0..<2] @ [Free [0, 1]]"

(* src: timers/lab5_hrtimer.c:77-88 my_exit *)
definition hr_exit_prog :: "exit_act list" where
  "hr_exit_prog = map DelSync [0..<2] @ [Free [0, 1]]"

(* src: timers/lab7_hrexamp.c:43-47 my_exit *)
definition hrexamp_exit_prog :: "exit_act list" where
  "hrexamp_exit_prog = [DelSync 0, Free [0]]"

text \<open>The module is loaded, its first \<open>n\<close> timers are pending.\<close>

definition loaded :: "nat \<Rightarrow> exit_act list \<Rightarrow> unloading" where
  "loaded n p = \<lparr>tm = (\<lambda>i. if i < n then TmPending else TmOff), prog = p, freed = {}, dangling = False\<rparr>"

fun exit_do :: "exit_act \<Rightarrow> unloading \<Rightarrow> unloading option" where
  "exit_do (Del i) s = Some (if tm s i = TmPending then s\<lparr>tm := (tm s)(i := TmOff)\<rparr> else s)"
| "exit_do (DelSync i) s =
     (if tm s i = TmPending \<or> tm s i = TmOff then Some (s\<lparr>tm := (tm s)(i := TmOff)\<rparr>) else None)"
| "exit_do (Free js) s = Some (s\<lparr>freed := set js \<union> freed s\<rparr>)"

fun tm_next :: "tm_event \<Rightarrow> unloading \<Rightarrow> unloading option" where
  "tm_next (TmFire i) s = (if tm s i = TmPending then Some (s\<lparr>tm := (tm s)(i := TmPrint)\<rparr>) else None)"
| "tm_next (TmUse i) s =
     (if tm s i = TmPrint then
        Some (s\<lparr>tm := (tm s)(i := TmRearm), dangling := dangling s \<or> i \<in> freed s\<rparr>)
      else None)"
| "tm_next (TmArm i) s =
     (if tm s i = TmRearm then
        Some (s\<lparr>tm := (tm s)(i := TmPending), dangling := dangling s \<or> i \<in> freed s\<rparr>)
      else None)"
| "tm_next TmExit s =
     (case prog s of [] \<Rightarrow> None | a # p \<Rightarrow> map_option (\<lambda>s. s\<lparr>prog := p\<rparr>) (exit_do a s))"

definition tm_step :: "unloading \<Rightarrow> tm_event \<Rightarrow> unloading \<Rightarrow> bool" where
  "tm_step s ev t \<longleftrightarrow> tm_next ev s = Some t"

text \<open>What is freed was taken off for good before.\<close>

fun sync_before_free :: "nat set \<Rightarrow> exit_act list \<Rightarrow> bool" where
  "sync_before_free off [] = True"
| "sync_before_free off (Del i # p) = sync_before_free off p"
| "sync_before_free off (DelSync i # p) = sync_before_free (insert i off) p"
| "sync_before_free off (Free js # p) = (set js \<subseteq> off \<and> sync_before_free off p)"

lemma sync_before_free_mono: "sync_before_free off p \<Longrightarrow> off \<subseteq> off' \<Longrightarrow> sync_before_free off' p"
proof (induction p arbitrary: off off')
  case (Cons a p)
  then show ?case by (cases a) (auto intro: Cons.IH insert_mono)
qed simp

definition stopped :: "unloading \<Rightarrow> nat set" where
  "stopped s = {i. tm s i = TmOff}"

definition unload_inv :: "unloading \<Rightarrow> bool" where
  "unload_inv s \<longleftrightarrow> sync_before_free (stopped s) (prog s) \<and> freed s \<subseteq> stopped s \<and> \<not> dangling s \<and>
     (\<forall>i. i \<in> stopped s \<or> DelSync i \<in> set (prog s))"

lemma unload_inv_running:
  assumes "unload_inv s" and "tm s i \<noteq> TmOff" and "p \<noteq> TmOff"
  shows "unload_inv (s\<lparr>tm := (tm s)(i := p), dangling := dangling s \<or> i \<in> freed s\<rparr>)"
proof -
  have "stopped (s\<lparr>tm := (tm s)(i := p), dangling := b\<rparr>) = stopped s" for b
    using assms(2,3) by (auto simp: stopped_def)
  moreover have "i \<notin> freed s" using assms(1,2) by (auto simp: unload_inv_def stopped_def)
  ultimately show ?thesis using assms(1) by (simp add: unload_inv_def)
qed

lemma unload_inv_fire:
  assumes "unload_inv s" and "tm s i \<noteq> TmOff" and "p \<noteq> TmOff"
  shows "unload_inv (s\<lparr>tm := (tm s)(i := p)\<rparr>)"
proof -
  have "stopped (s\<lparr>tm := (tm s)(i := p)\<rparr>) = stopped s" using assms(2,3) by (auto simp: stopped_def)
  then show ?thesis using assms(1) by (simp add: unload_inv_def)
qed

lemma unload_inv_exit:
  assumes "unload_inv s" and "prog s = a # p" and "exit_do a s = Some t"
  shows "unload_inv (t\<lparr>prog := p\<rparr>)"
proof (cases a)
  case (Del i)
  show ?thesis
  proof (cases "tm s i = TmPending")
    case True
    with Del assms(3) have t: "t = s\<lparr>tm := (tm s)(i := TmOff)\<rparr>" by simp
    have "stopped (t\<lparr>prog := p\<rparr>) = insert i (stopped s)" by (auto simp: t stopped_def)
    with assms(1,2) Del show ?thesis
      by (auto simp: unload_inv_def t intro: sync_before_free_mono)
  next
    case False
    with Del assms(3) have t: "t = s" by simp
    have "stopped (t\<lparr>prog := p\<rparr>) = stopped s" by (simp add: t stopped_def)
    with assms(1,2) Del show ?thesis by (auto simp: unload_inv_def t)
  qed
next
  case (DelSync i)
  then have t: "t = s\<lparr>tm := (tm s)(i := TmOff)\<rparr>" using assms(3) by (simp split: if_splits)
  have "stopped (t\<lparr>prog := p\<rparr>) = insert i (stopped s)" by (auto simp: t stopped_def)
  with assms(1,2) DelSync show ?thesis by (auto simp: unload_inv_def t)
next
  case (Free js)
  then have t: "t = s\<lparr>freed := set js \<union> freed s\<rparr>" using assms(3) by simp
  have "stopped (t\<lparr>prog := p\<rparr>) = stopped s" by (simp add: t stopped_def)
  with assms(1,2) Free show ?thesis by (auto simp: unload_inv_def t)
qed

lemma unload_inv_step: "tm_step s ev t \<Longrightarrow> unload_inv s \<Longrightarrow> unload_inv t"
  by (cases ev) (auto simp: tm_step_def split: if_splits list.splits
      intro: unload_inv_fire unload_inv_running unload_inv_exit)

lemma loaded_inv:
  "sync_before_free {i. n \<le> i} p \<Longrightarrow> \<forall>i < n. DelSync i \<in> set p \<Longrightarrow> unload_inv (loaded n p)"
proof -
  assume a: "sync_before_free {i. n \<le> i} p" "\<forall>i < n. DelSync i \<in> set p"
  have "stopped (loaded n p) = {i. n \<le> i}" by (auto simp: stopped_def loaded_def)
  with a show ?thesis by (auto simp: unload_inv_def loaded_def not_le)
qed

definition sync_modules :: "(nat \<times> exit_act list) set" where
  "sync_modules = {(1, periodic_exit_prog), (2, periodic_ab_exit_prog), (2, hr_exit_prog), (1, hrexamp_exit_prog)}"

interpretation timer_unload: invariant_system "\<lambda>s. \<exists>(n, p) \<in> sync_modules. s = loaded n p" tm_step unload_inv
proof (unfold_locales, goal_cases)
  case (1 s)
  then show ?case
    by (auto simp: sync_modules_def periodic_exit_prog_def periodic_ab_exit_prog_def hr_exit_prog_def
        hrexamp_exit_prog_def numeral_2_eq_2 less_Suc_eq intro!: loaded_inv)
qed (rule unload_inv_step)

text \<open>C23: The modules that delete their timers synchronously unload safely in every interleaving with their
  timer functions: none of them touches data that was freed, and once the exit function has
  returned no timer is pending and none of its functions runs.\<close>

theorem timers_unload:
  assumes "(n, p) \<in> sync_modules" and "run tm_step (loaded n p) evs t"
  shows "\<not> dangling t \<and> (prog t = [] \<longrightarrow> (\<forall>i. tm t i = TmOff))"
proof -
  from timer_unload.inv_reachable [OF _ assms(2)] assms(1) have "unload_inv t" by auto
  then show ?thesis by (auto simp: unload_inv_def stopped_def)
qed

theorem timers_unload_witness:
  "\<exists>t. run tm_step (loaded 1 hrexamp_exit_prog) [TmFire 0, TmUse 0, TmArm 0, TmExit, TmExit] t \<and>
     \<not> dangling t \<and> tm t 0 = TmOff \<and> freed t = {0}"
proof -
  obtain t where r: "run tm_step (loaded 1 hrexamp_exit_prog) [TmFire 0, TmUse 0, TmArm 0, TmExit, TmExit] t"
    and f: "freed t = {0}" "prog t = []"
    by (simp add: run_cons_iff tm_step_def loaded_def hrexamp_exit_prog_def)
  from timers_unload [OF _ r] f r show ?thesis by (auto simp: sync_modules_def)
qed

text \<open>The variant that calls \<open>del_timer\<close> is not safe: a function that had started uses the array after it was
  freed, and leaves its timer armed in it.\<close>

theorem periodic_alt_dangles:
  "\<exists>t. run tm_step (loaded 2 periodic_alt_exit_prog) [TmFire 0, TmExit, TmExit, TmExit, TmUse 0, TmArm 0] t \<and>
     prog t = [] \<and> dangling t \<and> tm t 0 = TmPending"
  by (simp add: run_cons_iff tm_step_def loaded_def periodic_alt_exit_prog_def numeral_2_eq_2)

section \<open>One timer, armed by writes\<close>

text \<open>
  \<open>my_timer\<close> is pending with its expiry and its data, or not. \<open>init_timer\<close> may only be called for a
  timer that is not pending; \<open>reinit\<close> tells that it was.
\<close>

(* src: timers/lab1_timer.c:33-33 my_timer *)
record one_timer =
  my_timer :: "(64 word \<times> c_int) option"
  len :: c_int
  reinit :: bool
  one_dev :: labdev

definition one_timer_loaded :: "labdev \<Rightarrow> one_timer" where
  "one_timer_loaded d = \<lparr>my_timer = None, len = 100, reinit = False, one_dev = d\<rparr>"

(* src: timers/lab1_timer.c:42-57 mycdrv_write *)
definition one_timer_write ::
    "64 word \<Rightarrow> 64 word \<Rightarrow> byte list \<Rightarrow> size_t \<Rightarrow> loff_t \<Rightarrow> size_t \<Rightarrow> one_timer \<Rightarrow>
     (int \<times> one_timer \<times> loff_t) kresult" where
  "one_timer_write HZ jiffies ubuf lbuf ppos uleft s =
     (let s = s\<lparr>reinit := reinit s \<or> my_timer s \<noteq> None, my_timer := Some (jiffies + HZ, len s),
                len := len s + 100\<rparr>
      in case mycdrv_generic_write ubuf lbuf ppos uleft (one_dev s) of
           Inl f \<Rightarrow> Inl f
         | Inr (n, d, p) \<Rightarrow> Inr (n, s\<lparr>one_dev := d\<rparr>, p))"

(* src: timers/lab1_timer.c:35-40 my_timer_function *)
definition one_timer_fire :: "one_timer \<Rightarrow> (c_int \<times> one_timer) option" where
  "one_timer_fire s = map_option (\<lambda>(e, ptr). (ptr, s\<lparr>my_timer := None\<rparr>)) (my_timer s)"

(* src: timers/lab1_timer.c:67-72 my_exit *)
definition one_timer_exit :: "lab_env \<Rightarrow> lab_res ledger \<Rightarrow> one_timer \<Rightarrow> bool \<times> one_timer \<times> lab_res ledger" where
  "one_timer_exit e k s = (my_timer s \<noteq> None, s\<lparr>my_timer := None\<rparr>, my_generic_exit e k)"

lemma one_timer_life:
  assumes "one_timer_write HZ j bs n p l s = Inr (r, s', p')"
  shows "\<exists>s''. one_timer_fire s' = Some (len s, s'') \<and> my_timer s'' = None \<and> len s'' = len s + 100 \<and>
      reinit s'' = (reinit s \<or> my_timer s \<noteq> None)"
    and "one_timer_write HZ j' bs' n' q l' s' = Inr (r', s2, q') \<Longrightarrow>
      reinit s2 \<and> one_timer_fire s2 = Some (len s + 100, s2\<lparr>my_timer := None\<rparr>)"
  using assms
  by (auto simp: one_timer_write_def one_timer_fire_def Let_def split: sum.splits prod.splits)

section \<open>A timer for each write\<close>

datatype mt_res = MtTimer nat | MtData nat

text \<open>
  Where a write stands; writes are numbered in the order they begin. It counts itself first, then
  allocates and starts its timer's object, allocates the data and records the static \<open>len\<close> in
  it, arms the timer, and adds 100 to \<open>len\<close>, a load and a store without a lock, so that others
  can run in between. Neither allocation is checked: the null pointer is used (\<open>MwCrash0\<close>,
  \<open>MwCrash1\<close>). \<open>MwCrash2\<close> is a fault in the generic write.
\<close>

datatype mw_pc = MwTimer | MwData "64 word" | MwArm "64 word" c_int | MwLoad | MwStore c_int | MwFile | MwDone int
  | MwCrash0 | MwCrash1 | MwCrash2

text \<open>
  \<open>m_running\<close> counts the timer functions past their last access to the counter that have not
  returned. \<open>m_taken\<close> is a history variable: which write recorded which value. What was printed
  is kept with the number of the timer that printed it.
\<close>

(* src: timers/lab2_multitimer.c:36-41 ntimers, my_dat *)
record multi =
  ntimers :: c_int
  m_len :: c_int
  m_pending :: "(nat \<times> 64 word \<times> c_int) list"
  m_jiffies :: "64 word"
  m_writers :: "mw_pc list"
  m_ledger :: "mt_res ledger"
  m_dev :: labdev
  m_running :: nat
  m_printed :: "(nat \<times> c_int) list"
  m_taken :: "(nat \<times> c_int) list"

(* src: timers/lab2_multitimer.c:89-93 my_init *)
definition multi_loaded :: "64 word \<Rightarrow> labdev \<Rightarrow> multi" where
  "multi_loaded j d = \<lparr>ntimers = 0, m_len = 100, m_pending = [], m_jiffies = j, m_writers = [],
     m_ledger = empty_ledger, m_dev = d, m_running = 0, m_printed = [], m_taken = []\<rparr>"

(* src: timers/lab2_multitimer.c:62-62 mycdrv_write (atomic_inc) *)
definition multi_begin :: "multi \<Rightarrow> multi" where
  "multi_begin s = s\<lparr>ntimers := ntimers s + 1, m_writers := m_writers s @ [MwTimer]\<rparr>"

text \<open>The next piece of the write of number \<open>i\<close>: \<open>ok\<close> is the answer of its allocation.\<close>

record mw_env =
  mw_ok :: bool
  mw_ubuf :: "byte list"
  mw_lbuf :: size_t
  mw_ppos :: loff_t
  mw_left :: size_t

(* src: timers/lab2_multitimer.c:55-79 mycdrv_write *)
definition multi_write :: "64 word \<Rightarrow> mw_env \<Rightarrow> nat \<Rightarrow> multi \<Rightarrow> (mw_pc \<times> multi) option" where
  "multi_write HZ e i s =
     (case m_writers s ! i of
        MwTimer \<Rightarrow>
          if \<not> mw_ok e then Some (MwCrash0, s)
          else Some (MwData (m_jiffies s + 4 * HZ), s\<lparr>m_ledger := acquire (MtTimer i) (m_ledger s)\<rparr>)
      | MwData expires \<Rightarrow>
          if \<not> mw_ok e then Some (MwCrash1, s)
          else Some (MwArm expires (m_len s),
            s\<lparr>m_ledger := acquire (MtData i) (m_ledger s), m_taken := m_taken s @ [(i, m_len s)]\<rparr>)
      | MwArm expires l \<Rightarrow> Some (MwLoad, s\<lparr>m_pending := m_pending s @ [(i, expires, l)]\<rparr>)
      | MwLoad \<Rightarrow> Some (MwStore (m_len s), s)
      | MwStore x \<Rightarrow> Some (MwFile, s\<lparr>m_len := x + 100\<rparr>)
      | MwFile \<Rightarrow>
          (case mycdrv_generic_write (mw_ubuf e) (mw_lbuf e) (mw_ppos e) (mw_left e) (m_dev s) of
             Inl f \<Rightarrow> Some (MwCrash2, s)
           | Inr (n, d, p) \<Rightarrow> Some (MwDone n, s\<lparr>m_dev := d\<rparr>))
      | _ \<Rightarrow> None)"

text \<open>A timer fires at or after its expiry.\<close>

definition expired :: "64 word \<Rightarrow> nat \<times> 64 word \<times> c_int \<Rightarrow> bool" where
  "expired j t \<longleftrightarrow> 0 \<le> sint (j - fst (snd t))"

(* src: timers/lab2_multitimer.c:43-53 my_timer_function *)
definition multi_fire :: "nat \<times> 64 word \<times> c_int \<Rightarrow> multi \<Rightarrow> multi" where
  "multi_fire t s =
     (case t of (i, e, l) \<Rightarrow>
       s\<lparr>m_pending := remove1 t (m_pending s), m_printed := m_printed s @ [(i, l)],
         m_ledger := release (MtData i) (release (MtTimer i) (m_ledger s)),
         ntimers := ntimers s - 1, m_running := m_running s + 1\<rparr>)"

text \<open>
  Unloading polls the counter, and goes on when it reads zero. It starts when no file is open,
  so every write has returned.
\<close>

definition writes_over :: "multi \<Rightarrow> bool" where
  "writes_over s \<longleftrightarrow> (\<forall>pc \<in> set (m_writers s). \<exists>n. pc = MwDone n)"

(* src: timers/lab2_multitimer.c:95-104 my_exit *)
definition multi_exit :: "lab_env \<Rightarrow> lab_res ledger \<Rightarrow> multi \<Rightarrow> lab_res ledger option" where
  "multi_exit e k s = (if ntimers s = 0 then Some (my_generic_exit e k) else None)"

datatype multi_event = MBegin | MWrite mw_env nat | MFire "nat \<times> 64 word \<times> c_int" | MReturn | MTick

inductive multi_step :: "64 word \<Rightarrow> multi \<Rightarrow> multi_event \<Rightarrow> multi \<Rightarrow> bool" for HZ :: "64 word" where
  m_begin: "multi_step HZ s MBegin (multi_begin s)"
| m_write: "i < length (m_writers s) \<Longrightarrow> multi_write HZ e i s = Some (pc, t) \<Longrightarrow>
    multi_step HZ s (MWrite e i) (t\<lparr>m_writers := (m_writers t)[i := pc]\<rparr>)"
| m_fire: "t \<in> set (m_pending s) \<Longrightarrow> expired (m_jiffies s) t \<Longrightarrow> multi_step HZ s (MFire t) (multi_fire t s)"
| m_return: "0 < m_running s \<Longrightarrow> multi_step HZ s MReturn (s\<lparr>m_running := m_running s - 1\<rparr>)"
| m_tick: "multi_step HZ s MTick (s\<lparr>m_jiffies := m_jiffies s + 1\<rparr>)"

inductive_cases multi_stepE: "multi_step HZ s ev t"

subsection \<open>What the writes in progress hold\<close>

definition wsum :: "(nat \<Rightarrow> mw_pc \<Rightarrow> 'a::cancel_comm_monoid_add) \<Rightarrow> mw_pc list \<Rightarrow> 'a" where
  "wsum g ws = (\<Sum>j<length ws. g j (ws ! j))"

lemma wsum_snoc [simp]: "wsum g (ws @ [pc]) = wsum g ws + g (length ws) pc"
  by (simp add: wsum_def nth_append)

lemma wsum_nil [simp]: "wsum g [] = 0"
  by (simp add: wsum_def)

lemma wsum_update:
  assumes "i < length ws"
  shows "wsum g (ws[i := pc]) + g i (ws ! i) = wsum g ws + g i pc"
proof -
  let ?I = "{..<length ws} - {i}"
  have "(\<Sum>j\<in>?I. g j (ws[i := pc] ! j)) = (\<Sum>j\<in>?I. g j (ws ! j))"
    by (rule sum.cong) auto
  then show ?thesis
    using assms sum.remove [of "{..<length ws}" i "\<lambda>j. g j (ws[i := pc] ! j)"]
      sum.remove [of "{..<length ws}" i "\<lambda>j. g j (ws ! j)"]
    by (simp add: wsum_def algebra_simps)
qed

text \<open>A write counted and not armed, what it recorded, and the objects it holds.\<close>

fun mw_counted :: "nat \<Rightarrow> mw_pc \<Rightarrow> nat" where
  "mw_counted i MwTimer = 1"
| "mw_counted i (MwData e) = 1"
| "mw_counted i (MwArm e l) = 1"
| "mw_counted i MwCrash0 = 1"
| "mw_counted i MwCrash1 = 1"
| "mw_counted i _ = 0"

fun mw_value :: "nat \<Rightarrow> mw_pc \<Rightarrow> (nat \<times> c_int) multiset" where
  "mw_value i (MwArm e l) = {#(i, l)#}"
| "mw_value i _ = {#}"

fun mw_objects :: "nat \<Rightarrow> mw_pc \<Rightarrow> mt_res multiset" where
  "mw_objects i (MwData e) = {#MtTimer i#}"
| "mw_objects i MwCrash1 = {#MtTimer i#}"
| "mw_objects i (MwArm e l) = {#MtTimer i, MtData i#}"
| "mw_objects i _ = {#}"

fun mw_before_data :: "mw_pc \<Rightarrow> bool" where
  "mw_before_data MwTimer = True"
| "mw_before_data (MwData e) = True"
| "mw_before_data _ = False"

definition timer_objects :: "(nat \<times> 64 word \<times> c_int) list \<Rightarrow> mt_res multiset" where
  "timer_objects ts = mset (concat (map (\<lambda>(i, _). [MtTimer i, MtData i]) ts))"

definition timer_values :: "(nat \<times> 64 word \<times> c_int) list \<Rightarrow> (nat \<times> c_int) multiset" where
  "timer_values ts = mset (map (\<lambda>(i, e, l). (i, l)) ts)"

definition multi_inv :: "multi \<Rightarrow> bool" where
  "multi_inv s \<longleftrightarrow> ntimers s = of_nat (length (m_pending s) + wsum mw_counted (m_writers s)) \<and>
     length (m_pending s) + wsum mw_counted (m_writers s) \<le> length (m_writers s) \<and>
     mset (held (m_ledger s)) = timer_objects (m_pending s) + wsum mw_objects (m_writers s) \<and>
     faults (m_ledger s) = [] \<and>
     mset (m_printed s) + timer_values (m_pending s) + wsum mw_value (m_writers s) = mset (m_taken s) \<and>
     distinct (map fst (m_taken s)) \<and>
     (\<forall>i \<in> fst ` set (m_taken s). i < length (m_writers s) \<and> \<not> mw_before_data (m_writers s ! i))"

lemma timer_objects_remove1:
  "(i, e, l) \<in> set ts \<Longrightarrow> timer_objects ts = add_mset (MtTimer i) (add_mset (MtData i) (timer_objects (remove1 (i, e, l) ts)))"
  by (induction ts) (auto simp: timer_objects_def)

lemma timer_values_remove1:
  "(i, e, l) \<in> set ts \<Longrightarrow> timer_values ts = add_mset (i, l) (timer_values (remove1 (i, e, l) ts))"
  by (induction ts) (auto simp: timer_values_def)

lemma release_member:
  "mset (held k) = add_mset r m \<Longrightarrow> mset (held (release r k)) = m \<and> faults (release r k) = faults k"
proof -
  assume a: "mset (held k) = add_mset r m"
  then have "r \<in> set (held k)" by (metis set_mset_mset union_single_eq_member)
  with a show ?thesis by (simp add: release_def)
qed

lemma multi_fire_inv:
  assumes "multi_inv s" and "t \<in> set (m_pending s)"
  shows "multi_inv (multi_fire t s)"
proof -
  obtain i e l where t: "t = (i, e, l)" by (cases t)
  have m: "(i, e, l) \<in> set (m_pending s)" using assms(2) t by simp
  let ?p = "remove1 (i, e, l) (m_pending s)"
  have h: "mset (held (m_ledger s)) =
      add_mset (MtTimer i) (add_mset (MtData i) (timer_objects ?p + wsum mw_objects (m_writers s)))"
    using assms(1) timer_objects_remove1 [OF m] by (simp add: multi_inv_def)
  note h1 = release_member [OF h]
  note h2 = release_member [OF h1 [THEN conjunct1]]
  have len: "length (m_pending s) = Suc (length ?p)"
    using m by (metis One_nat_def Suc_pred length_pos_if_in_set length_remove1)
  then have n: "ntimers s - 1 = of_nat (length ?p + wsum mw_counted (m_writers s))"
    using assms(1) by (simp add: multi_inv_def)
  show ?thesis
    using assms(1) h1 h2 n len timer_values_remove1 [OF m]
    by (simp add: multi_inv_def multi_fire_def t)
qed

lemma multi_begin_inv: "multi_inv s \<Longrightarrow> multi_inv (multi_begin s)"
  by (auto simp: multi_inv_def multi_begin_def nth_append add.commute)

text \<open>A piece of a write, by what it changes.\<close>

lemma multi_write_inv:
  assumes "multi_inv s" and "i < length (m_writers s)" and "multi_write HZ e i s = Some (pc, t)"
  shows "multi_inv (t\<lparr>m_writers := (m_writers t)[i := pc]\<rparr>)"
proof -
  let ?pc = "m_writers s ! i" and ?ws = "(m_writers s)[i := pc]"
  have w: "m_writers t = m_writers s" and f: "ntimers t = ntimers s" "faults (m_ledger t) = faults (m_ledger s)"
    "m_printed t = m_printed s"
    using assms(3) by (auto simp: multi_write_def split: mw_pc.splits if_splits sum.splits prod.splits)
  have p: "length (m_pending t) + mw_counted i pc = length (m_pending s) + mw_counted i ?pc"
    and o: "mset (held (m_ledger t)) + timer_objects (m_pending s) + mw_objects i ?pc =
      mset (held (m_ledger s)) + timer_objects (m_pending t) + mw_objects i pc"
    and v: "timer_values (m_pending t) + mw_value i pc + mset (m_taken s) =
      timer_values (m_pending s) + mw_value i ?pc + mset (m_taken t)"
    and k: "m_taken t = m_taken s \<and> (mw_before_data pc \<longrightarrow> mw_before_data ?pc) \<or>
      m_taken t = m_taken s @ [(i, m_len s)] \<and> mw_before_data ?pc \<and> \<not> mw_before_data pc"
    using assms(3) by (auto simp: multi_write_def timer_objects_def timer_values_def
        split: mw_pc.splits if_splits sum.splits prod.splits)
  note u1 = wsum_update [OF assms(2), of mw_counted pc]
    and u2 = wsum_update [OF assms(2), of mw_objects pc]
    and u3 = wsum_update [OF assms(2), of mw_value pc]
  have c: "length (m_pending t) + wsum mw_counted ?ws = length (m_pending s) + wsum mw_counted (m_writers s)"
    using p u1 by linarith
  have ob: "mset (held (m_ledger t)) = timer_objects (m_pending t) + wsum mw_objects ?ws"
  proof -
    have "mset (held (m_ledger t)) + timer_objects (m_pending s) + mw_objects i ?pc + wsum mw_objects (m_writers s) =
        mset (held (m_ledger s)) + timer_objects (m_pending t) + (wsum mw_objects ?ws + mw_objects i ?pc)"
      unfolding u2 o by (simp add: ac_simps)
    moreover have "mset (held (m_ledger s)) = timer_objects (m_pending s) + wsum mw_objects (m_writers s)"
      using assms(1) by (simp add: multi_inv_def)
    ultimately show ?thesis by (simp add: ac_simps)
  qed
  have va: "mset (m_printed t) + timer_values (m_pending t) + wsum mw_value ?ws = mset (m_taken t)"
  proof -
    have "mset (m_printed s) + timer_values (m_pending s) + wsum mw_value (m_writers s) = mset (m_taken s)"
      using assms(1) by (simp add: multi_inv_def)
    then have "mset (m_printed s) + (timer_values (m_pending t) + mw_value i pc + mset (m_taken s)) + wsum mw_value (m_writers s) =
        mset (m_taken s) + mw_value i ?pc + mset (m_taken t)"
      unfolding v by (simp add: ac_simps)
    then have "mset (m_printed s) + timer_values (m_pending t) + (wsum mw_value ?ws + mw_value i ?pc) + mset (m_taken s) =
        mset (m_taken t) + mw_value i ?pc + mset (m_taken s)"
      unfolding u3 by (simp add: ac_simps)
    then show ?thesis unfolding f(3) by (simp add: add.assoc)
  qed
  have d: "distinct (map fst (m_taken t)) \<and>
      (\<forall>j \<in> fst ` set (m_taken t). j < length ?ws \<and> \<not> mw_before_data (?ws ! j))"
    using k assms(1,2) by (auto simp: multi_inv_def nth_list_update)
  show ?thesis
    using assms(1) c ob va d f by (simp add: multi_inv_def w)
qed

lemma multi_inv_step: "multi_step HZ s ev t \<Longrightarrow> multi_inv s \<Longrightarrow> multi_inv t"
proof (induction rule: multi_step.induct)
  case (m_begin s)
  then show ?case by (rule multi_begin_inv)
next
  case (m_write i s e pc t)
  then show ?case using multi_write_inv by blast
next
  case (m_fire t s)
  then show ?case by (blast intro: multi_fire_inv)
qed (simp_all add: multi_inv_def)

lemma multi_loaded_inv: "multi_inv (multi_loaded j d)"
  by (simp add: multi_inv_def multi_loaded_def empty_ledger_def timer_objects_def timer_values_def)

interpretation multitimer: invariant_system "\<lambda>s. \<exists>j d. s = multi_loaded j d" "multi_step HZ" multi_inv
  by unfold_locales (auto intro: multi_loaded_inv multi_inv_step)

subsection \<open>Writes one after the other\<close>

definition multi_serial_step :: "64 word \<Rightarrow> multi \<Rightarrow> multi_event \<Rightarrow> multi \<Rightarrow> bool" where
  "multi_serial_step HZ s ev t \<longleftrightarrow> multi_step HZ s ev t \<and> (ev = MBegin \<longrightarrow> writes_over s)"

fun mw_adding :: "mw_pc \<Rightarrow> bool" where
  "mw_adding (MwArm e l) = True"
| "mw_adding MwLoad = True"
| "mw_adding (MwStore x) = True"
| "mw_adding _ = False"

definition hundreds :: "nat \<Rightarrow> c_int list" where
  "hundreds n = map (\<lambda>k. of_nat (100 * (k + 1))) [0..<n]"

definition serial_at :: "multi \<Rightarrow> mw_pc \<Rightarrow> bool" where
  "serial_at s pc \<longleftrightarrow> map snd (m_taken s) = hundreds (length (m_taken s)) \<and>
     m_len s = of_nat (100 * (length (m_taken s) + (if mw_adding pc then 0 else 1))) \<and>
     (\<forall>x. pc = MwStore x \<longrightarrow> x = m_len s)"

definition serial_inv :: "multi \<Rightarrow> bool" where
  "serial_inv s \<longleftrightarrow> (if m_writers s = [] then serial_at s (MwDone 0)
     else (\<forall>pc \<in> set (butlast (m_writers s)). \<exists>n. pc = MwDone n) \<and> serial_at s (last (m_writers s)))"

lemma serial_write:
  assumes "multi_write HZ e i s = Some (pc, t)" and "serial_at s (m_writers s ! i)"
  shows "serial_at t pc"
  using assms
  by (auto simp: multi_write_def serial_at_def hundreds_def split: mw_pc.splits if_splits sum.splits prod.splits)

lemma serial_over: "serial_at s (MwDone n) = serial_at s (MwDone 0)" "serial_at s MwTimer = serial_at s (MwDone 0)"
  by (simp_all add: serial_at_def)

lemma serial_fields:
  "serial_at (s\<lparr>m_writers := ws\<rparr>) pc = serial_at s pc" "serial_at (multi_fire t s) pc = serial_at s pc"
  "serial_at (multi_begin s) pc = serial_at s pc" "serial_at (s\<lparr>m_running := k\<rparr>) pc = serial_at s pc"
  "serial_at (s\<lparr>m_jiffies := j\<rparr>) pc = serial_at s pc" "m_writers (multi_fire t s) = m_writers s"
  by (simp_all add: serial_at_def multi_fire_def multi_begin_def split: prod.splits)

lemma serial_step:
  assumes "multi_serial_step HZ s ev t" and "serial_inv s"
  shows "serial_inv t"
proof -
  have st: "multi_step HZ s ev t" and b: "ev = MBegin \<longrightarrow> writes_over s"
    using assms(1) by (simp_all add: multi_serial_step_def)
  from st show ?thesis
  proof cases
    case m_begin
    with b have o: "\<forall>pc \<in> set (m_writers s). \<exists>n. pc = MwDone n" by (simp add: writes_over_def)
    have "serial_at s (MwDone 0)"
    proof (cases "m_writers s = []")
      case False
      then obtain n where "last (m_writers s) = MwDone n" using o last_in_set by blast
      with False assms(2) serial_over(1) show ?thesis by (metis serial_inv_def)
    qed (use assms(2) in \<open>simp add: serial_inv_def\<close>)
    then have "serial_at t MwTimer" using m_begin by (simp add: serial_fields serial_over(2))
    with o m_begin show ?thesis by (simp add: serial_inv_def multi_begin_def)
  next
    case (m_write i e pc u)
    then have ne: "m_writers s \<noteq> []" by auto
    have "i = length (m_writers s) - 1"
    proof (rule ccontr)
      assume "i \<noteq> length (m_writers s) - 1"
      then have "m_writers s ! i \<in> set (butlast (m_writers s))"
        using m_write(3) by (metis One_nat_def Suc_pred length_butlast length_pos_if_in_set less_SucE ne
            length_greater_0_conv nth_butlast nth_mem)
      then obtain n where "m_writers s ! i = MwDone n" using assms(2) ne by (auto simp: serial_inv_def)
      with m_write(4) show False by (simp add: multi_write_def)
    qed
    moreover obtain ws x where ws: "m_writers s = ws @ [x]" using ne by (metis append_butlast_last_id)
    ultimately have i: "m_writers s ! i = last (m_writers s)" "(m_writers s)[i := pc] = butlast (m_writers s) @ [pc]"
      by simp_all
    have w: "m_writers u = m_writers s"
      using m_write(4) by (auto simp: multi_write_def split: mw_pc.splits if_splits sum.splits prod.splits)
    have "serial_at u pc" using serial_write [OF m_write(4)] assms(2) ne i(1) by (simp add: serial_inv_def)
    then show ?thesis using m_write(2) assms(2) ne i(2) by (simp add: serial_inv_def serial_fields w)
  qed (use assms(2) in \<open>simp_all add: serial_inv_def serial_fields\<close>)
qed

interpretation serial_multitimer:
  invariant_system "\<lambda>s. \<exists>j d. s = multi_loaded j d" "multi_serial_step HZ" serial_inv
proof (unfold_locales, goal_cases)
  case (1 s)
  then show ?case by (auto simp: serial_inv_def serial_at_def multi_loaded_def hundreds_def)
next
  case (2 s l t)
  then show ?case by (blast intro: serial_step)
qed

subsection \<open>What is printed\<close>

lemma wsum_over:
  assumes "writes_over s" and "\<And>i n. g i (MwDone n) = 0"
  shows "wsum g (m_writers s) = 0"
proof -
  have "g j (m_writers s ! j) = 0" if j: "j < length (m_writers s)" for j
  proof -
    obtain n where "m_writers s ! j = MwDone n" using assms(1) nth_mem [OF j] by (auto simp: writes_over_def)
    then show ?thesis using assms(2) by simp
  qed
  then show ?thesis by (simp add: wsum_def)
qed

text \<open>C24: With a timer for each write, what a write records is printed once, by its own timer. In every
  interleaving of any number of writes, each anywhere between its pieces, with the timers: the
  pairs of timer and value that were printed, those of the pending timers and those of the writes
  about to arm theirs are exactly the pairs recorded, and no write records twice; two objects are
  held for each pending timer, and what the unfinished writes have allocated, and nothing is freed
  twice. If the writes come one after the other, the values recorded are 100, 200, and so on, one
  for each. Once the writes have returned, the counter reads zero and unloading goes on (fewer
  than \<open>2\<^sup>3\<^sup>2\<close> writes), every timer has fired, everything recorded was printed and everything is freed.\<close>

theorem multitimer_prints_all:
  assumes "run (multi_step HZ) (multi_loaded j d) evs s"
  shows "mset (m_printed s) + timer_values (m_pending s) + wsum mw_value (m_writers s) = mset (m_taken s) \<and>
    distinct (map fst (m_taken s)) \<and>
    mset (held (m_ledger s)) = timer_objects (m_pending s) + wsum mw_objects (m_writers s) \<and>
    faults (m_ledger s) = [] \<and>
    (run (multi_serial_step HZ) (multi_loaded j d) evs s \<longrightarrow> map snd (m_taken s) = hundreds (length (m_taken s))) \<and>
    (writes_over s \<and> multi_exit e k s \<noteq> None \<and> length (m_writers s) < 2 ^ 32 \<longrightarrow>
       m_pending s = [] \<and> held (m_ledger s) = [] \<and> mset (m_printed s) = mset (m_taken s))"
proof -
  from multitimer.inv_reachable [OF _ assms] have i: "multi_inv s" by auto
  have ser: "map snd (m_taken s) = hundreds (length (m_taken s))"
    if "run (multi_serial_step HZ) (multi_loaded j d) evs s"
  proof -
    have "serial_inv s" by (rule serial_multitimer.inv_reachable [OF _ that]) blast
    then show ?thesis by (auto simp: serial_inv_def serial_at_def split: if_splits)
  qed
  have ov: "m_pending s = [] \<and> held (m_ledger s) = [] \<and> mset (m_printed s) = mset (m_taken s)"
    if a: "writes_over s" "multi_exit e k s \<noteq> None" "length (m_writers s) < 2 ^ 32"
  proof -
    have z: "wsum mw_counted (m_writers s) = 0" "wsum mw_objects (m_writers s) = {#}" "wsum mw_value (m_writers s) = {#}"
      by (rule wsum_over [OF a(1)]; simp)+
    have "length (m_pending s) < 2 ^ 32" using i a(3) by (simp add: multi_inv_def z)
    moreover have "(of_nat (length (m_pending s)) :: c_int) = 0"
      using i a(2) by (simp add: multi_inv_def z multi_exit_def split: if_splits)
    ultimately have p: "m_pending s = []"
      using of_nat_neq_0 [of "length (m_pending s)", where ?'a = 32] by auto
    then show ?thesis using i z by (simp add: multi_inv_def timer_objects_def timer_values_def)
  qed
  show ?thesis using i ser ov by (simp add: multi_inv_def)
qed

text \<open>Two writes at once can record the same value: the source neither locks \<open>len\<close> nor reads and
  adds in one step. Both timers print 100.\<close>

definition mw_well :: mw_env where
  "mw_well = \<lparr>mw_ok = True, mw_ubuf = [], mw_lbuf = 0, mw_ppos = 0, mw_left = 0\<rparr>"

theorem multitimer_same_value:
  "\<exists>s. run (multi_step 0) (multi_loaded j d) [MBegin, MBegin, MWrite mw_well 0, MWrite mw_well 0, MWrite mw_well 1,
       MWrite mw_well 1, MWrite mw_well 0, MWrite mw_well 1, MFire (0, j, 100), MFire (1, j, 100)] s \<and>
     m_printed s = [(0, 100), (1, 100)]"
  by (simp add: run_cons_iff run_nil_iff multi_step.simps multi_begin_def multi_write_def multi_fire_def
      multi_loaded_def expired_def mw_well_def)

text \<open>The exit function reads the counter and no more: a timer function that has decremented it may still be
  about to return into the module that is then unloaded.\<close>

definition one_write :: "64 word \<Rightarrow> multi_event list" where
  "one_write j = MBegin # replicate 6 (MWrite mw_well 0) @ [MFire (0, j, 100)]"

theorem multitimer_returns_late:
  assumes w: "mycdrv_generic_write [] 0 0 0 d = Inr (r, d', p')"
  shows "\<exists>s. run (multi_step 0) (multi_loaded j d) (one_write j) s \<and> writes_over s \<and>
    multi_exit e k s \<noteq> None \<and> m_running s = 1 \<and> m_printed s = [(0, 100)] \<and> length (m_writers s) = 1"
  by (simp add: one_write_def numeral_nat run_cons_iff run_nil_iff multi_step.simps multi_begin_def multi_write_def
      multi_fire_def multi_loaded_def expired_def mw_well_def w multi_exit_def writes_over_def)

theorem multitimer_prints_all_witness:
  "\<exists>s. run (multi_step 0) (multi_loaded 5 sample_lab) (one_write 5) s \<and>
     mset (m_printed s) = mset (m_taken s) \<and> m_printed s = [(0, 100)] \<and> held (m_ledger s) = []"
proof -
  have w: "mycdrv_generic_write [] 0 0 0 sample_lab = Inr (0, sample_lab, 0)"
    using lab_write_data [OF sample_lab_holds, of 0 0 0 "[]"]
    by (simp add: vfs_rw_ok_def lab_moved_def sample_lab_def)
  let ?e = "\<lparr>l_chrdev = 0, l_cdev = True, l_ram = Ptr [], l_add = 0, l_class = True, l_device = True\<rparr>"
  from multitimer_returns_late [OF w] obtain s where
    r: "run (multi_step 0) (multi_loaded 5 sample_lab) (one_write 5) s"
    and x: "writes_over s" "multi_exit ?e empty_ledger s \<noteq> None" "m_printed s = [(0, 100)]" "length (m_writers s) = 1" by blast
  have "length (m_writers s) < 2 ^ 32" using x(4) by simp
  with multitimer_prints_all [OF r, of ?e empty_ledger] x(1,2)
  have "held (m_ledger s) = [] \<and> mset (m_printed s) = mset (m_taken s)" by blast
  with r x(3) show ?thesis by blast
qed

end
