(* ===== verification/Lock_Modules.thy ===== *)
theory Lock_Modules
  imports Lab_Wait
begin

text \<open>
  The modules of \<open>src/sync\<close> that hold a lock for as long as they are loaded: \<open>sync_lab1_mutex1.c\<close>
  exports a mutex that \<open>sync_lab1_mutex2.c\<close> and \<open>sync_lab1_mutex3.c\<close> lock, \<open>sync_lab2_sem1.c\<close> a
  semaphore for \<open>sync_lab2_sem2.c\<close> and \<open>sync_lab2_sem3.c\<close>. The two users of a lock are the same program
  under two names; modules are numbered. A module is loaded by one task and unloaded by another.
\<close>

section \<open>A mutex\<close>

text \<open>The mutex knows the task that locked it.\<close>

(* src: sync/sync_lab1_mutex1.c:44-52 my_mutex, my_init *)
record mutex_mods =
  my_mutex :: "nat option"
  mutex_loaded :: "nat list"

definition mutex_start :: mutex_mods where
  "mutex_start = \<lparr>my_mutex = None, mutex_loaded = []\<rparr>"

(* src: sync/sync_lab1_mutex2.c:27-49 my_init *)
definition mutex_user_init :: "nat \<Rightarrow> nat \<Rightarrow> mutex_mods \<Rightarrow> int \<times> mutex_mods" where
  "mutex_user_init m task s =
     (if my_mutex s \<noteq> None then (- EBUSY, s)
      else (0, s\<lparr>my_mutex := Some task, mutex_loaded := m # mutex_loaded s\<rparr>))"

text \<open>Whether the unlocking task is the one that locked is returned as well.\<close>

(* src: sync/sync_lab1_mutex2.c:51-56 my_exit *)
definition mutex_user_exit :: "nat \<Rightarrow> nat \<Rightarrow> mutex_mods \<Rightarrow> bool \<times> mutex_mods" where
  "mutex_user_exit m task s =
     (my_mutex s = Some task, s\<lparr>my_mutex := None, mutex_loaded := remove1 m (mutex_loaded s)\<rparr>)"

text \<open>The third module is a second user.\<close>

(* src: sync/sync_lab1_mutex3.c:27-49 my_init *)
definition mutex3_init :: "nat \<Rightarrow> mutex_mods \<Rightarrow> int \<times> mutex_mods" where
  "mutex3_init = mutex_user_init 3"

(* src: sync/sync_lab1_mutex3.c:51-56 my_exit *)
definition mutex3_exit :: "nat \<Rightarrow> mutex_mods \<Rightarrow> bool \<times> mutex_mods" where
  "mutex3_exit = mutex_user_exit 3"

datatype mod_event = ModLoad nat nat | ModUnload nat nat | ModSignal nat

text \<open>The kernel does not load a module twice, and unloads only what is loaded.\<close>

inductive mutex_step :: "mutex_mods \<Rightarrow> mod_event \<Rightarrow> mutex_mods \<Rightarrow> bool" where
  mutex_load: "m \<notin> set (mutex_loaded s) \<Longrightarrow> mutex_user_init m task s = (r, t) \<Longrightarrow> mutex_step s (ModLoad m task) t"
| mutex_unload: "m \<in> set (mutex_loaded s) \<Longrightarrow> mutex_user_exit m task s = (ok, t) \<Longrightarrow>
    mutex_step s (ModUnload m task) t"

definition mutex_mods_inv :: "mutex_mods \<Rightarrow> bool" where
  "mutex_mods_inv s \<longleftrightarrow> length (mutex_loaded s) = (if my_mutex s = None then 0 else 1)"

lemma mutex_mods_inv_step: "mutex_step s ev t \<Longrightarrow> mutex_mods_inv s \<Longrightarrow> mutex_mods_inv t"
  by (induction rule: mutex_step.induct)
    (auto simp: mutex_mods_inv_def mutex_user_init_def mutex_user_exit_def length_remove1 split: if_splits)

lemma mutex_start_inv: "mutex_mods_inv mutex_start"
  by (simp add: mutex_mods_inv_def mutex_start_def)

interpretation mutex_modules: invariant_system "\<lambda>s. s = mutex_start" mutex_step mutex_mods_inv
  by unfold_locales (auto intro: mutex_start_inv mutex_mods_inv_step)

section \<open>A semaphore\<close>

(* src: sync/sync_lab2_sem1.c:22-35 my_sem, my_init *)
record sem_mods =
  sem_gate :: gate
  sem_loaded :: "nat list"

definition sem_mods_start :: sem_mods where
  "sem_mods_start = \<lparr>sem_gate = gate_start 1, sem_loaded = []\<rparr>"

text \<open>Loading sleeps while the semaphore has no unit (no answer yet), and fails when a signal comes.\<close>

(* src: sync/sync_lab2_sem2.c:28-50 my_init *)
definition sem_user_init :: "nat \<Rightarrow> sem_mods \<Rightarrow> int option \<times> sem_mods" where
  "sem_user_init m s =
     (let g = down_interruptible m (sem_gate s)
      in if m \<in> set (sleepers g) then (None, s\<lparr>sem_gate := g\<rparr>)
         else (Some 0, s\<lparr>sem_gate := g, sem_loaded := m # sem_loaded s\<rparr>))"

(* src: sync/sync_lab2_sem2.c:41-44 my_init (signal) *)
definition sem_user_signal :: "nat \<Rightarrow> sem_mods \<Rightarrow> int \<times> sem_mods" where
  "sem_user_signal m s =
     (- EBUSY, s\<lparr>sem_gate := (sem_gate s)\<lparr>sleepers := remove1 m (sleepers (sem_gate s))\<rparr>\<rparr>)"

text \<open>The unit goes to the load that sleeps longest, which then succeeds.\<close>

(* src: sync/sync_lab2_sem2.c:52-57 my_exit *)
definition sem_user_exit :: "nat \<Rightarrow> sem_mods \<Rightarrow> sem_mods" where
  "sem_user_exit m s =
     s\<lparr>sem_gate := up (sem_gate s),
       sem_loaded := (case sleepers (sem_gate s) of [] \<Rightarrow> [] | i # is \<Rightarrow> [i]) @ remove1 m (sem_loaded s)\<rparr>"

(* src: sync/sync_lab2_sem3.c:27-49 my_init *)
definition sem3_init :: "sem_mods \<Rightarrow> int option \<times> sem_mods" where
  "sem3_init = sem_user_init 3"

(* src: sync/sync_lab2_sem3.c:51-56 my_exit *)
definition sem3_exit :: "sem_mods \<Rightarrow> sem_mods" where
  "sem3_exit = sem_user_exit 3"

inductive sem_mods_step :: "sem_mods \<Rightarrow> mod_event \<Rightarrow> sem_mods \<Rightarrow> bool" where
  sem_load: "m \<notin> set (sem_loaded s) \<Longrightarrow> m \<notin> set (sleepers (sem_gate s)) \<Longrightarrow> sem_user_init m s = (r, t) \<Longrightarrow>
    sem_mods_step s (ModLoad m task) t"
| sem_signal: "m \<in> set (sleepers (sem_gate s)) \<Longrightarrow> sem_user_signal m s = (r, t) \<Longrightarrow> sem_mods_step s (ModSignal m) t"
| sem_unload: "m \<in> set (sem_loaded s) \<Longrightarrow> sem_mods_step s (ModUnload m task) (sem_user_exit m s)"

definition sem_mods_inv :: "sem_mods \<Rightarrow> bool" where
  "sem_mods_inv s \<longleftrightarrow> units (sem_gate s) + length (sem_loaded s) = 1 \<and>
     (sleepers (sem_gate s) \<noteq> [] \<longrightarrow> units (sem_gate s) = 0)"

lemma sem_mods_inv_step: "sem_mods_step s ev t \<Longrightarrow> sem_mods_inv s \<Longrightarrow> sem_mods_inv t"
proof (induction rule: sem_mods_step.induct)
  case (sem_load m s r t task)
  then show ?case
    by (auto simp: sem_mods_inv_def sem_user_init_def down_interruptible_def Let_def add_is_1 split: if_splits)
next
  case (sem_signal m s r t)
  then show ?case by (auto simp: sem_mods_inv_def sem_user_signal_def)
next
  case (sem_unload m s task)
  then show ?case
    by (auto simp: sem_mods_inv_def sem_user_exit_def up_def length_remove1 add_is_1 split: list.splits)
qed

lemma sem_mods_start_inv: "sem_mods_inv sem_mods_start"
  by (simp add: sem_mods_inv_def sem_mods_start_def gate_start_def)

interpretation sem_modules: invariant_system "\<lambda>s. s = sem_mods_start" sem_mods_step sem_mods_inv
  by unfold_locales (auto intro: sem_mods_start_inv sem_mods_inv_step)

text \<open>However modules are loaded and unloaded, at most one of those that share a lock is loaded. With
  the mutex, a load fails with \<open>EBUSY\<close> exactly when another one is loaded, and succeeds
  otherwise, so also after the other was unloaded. With the semaphore a load that finds another
  one loaded waits, and of the loads that wait the longest succeeds as soon as that one is unloaded.\<close>

theorem lock_modules_exclude:
  shows "run mutex_step mutex_start evs s \<Longrightarrow>
      length (mutex_loaded s) \<le> 1 \<and>
      fst (mutex_user_init m task s) = (if mutex_loaded s = [] then 0 else - EBUSY)"
    and "run sem_mods_step sem_mods_start evs' s' \<Longrightarrow>
      length (sem_loaded s') \<le> 1 \<and>
      fst (sem_user_init m s') = (if sem_loaded s' = [] then Some 0 else None) \<and>
      (sleepers (sem_gate s') = i # rest \<longrightarrow> (\<exists>m'. sem_loaded s' = [m'] \<and>
        sem_loaded (sem_user_exit m' s') = [i] \<and> sleepers (sem_gate (sem_user_exit m' s')) = rest))"
proof -
  assume "run mutex_step mutex_start evs s"
  from mutex_modules.inv_reachable [OF _ this] have "mutex_mods_inv s" by simp
  then show "length (mutex_loaded s) \<le> 1 \<and>
      fst (mutex_user_init m task s) = (if mutex_loaded s = [] then 0 else - EBUSY)"
    by (auto simp: mutex_mods_inv_def mutex_user_init_def split: if_splits)
next
  assume "run sem_mods_step sem_mods_start evs' s'"
  from sem_modules.inv_reachable [OF _ this] have i: "sem_mods_inv s'" by simp
  then have "sem_loaded s' = [] \<longleftrightarrow> 0 < units (sem_gate s')" and "length (sem_loaded s') \<le> 1"
    and "sem_loaded s' = [] \<longrightarrow> sleepers (sem_gate s') = []"
    by (auto simp: sem_mods_inv_def add_is_1)
  moreover have "\<exists>m'. sem_loaded s' = [m']" if "sem_loaded s' \<noteq> []"
    using that i by (cases "sem_loaded s'") (auto simp: sem_mods_inv_def)
  ultimately show "length (sem_loaded s') \<le> 1 \<and>
      fst (sem_user_init m s') = (if sem_loaded s' = [] then Some 0 else None) \<and>
      (sleepers (sem_gate s') = i # rest \<longrightarrow> (\<exists>m'. sem_loaded s' = [m'] \<and>
        sem_loaded (sem_user_exit m' s') = [i] \<and> sleepers (sem_gate (sem_user_exit m' s')) = rest))"
    by (auto simp: sem_user_init_def down_interruptible_def sem_user_exit_def up_def Let_def)
qed

text \<open>
  The module that locked the mutex unlocks it from the task that unloads it, which need not be the
  task that loaded it: a mutex's rule that its owner unlocks it is broken. A load that a signal
  interrupts while it waits for the semaphore fails with \<open>EBUSY\<close>.
\<close>

theorem mutex_wrong_owner:
  "t1 \<noteq> t2 \<Longrightarrow> fst (mutex_user_exit m t2 (snd (mutex_user_init m t1 mutex_start))) = False"
  by (simp add: mutex_user_exit_def mutex_user_init_def mutex_start_def)

theorem lock_modules_exclude_witness:
  "run mutex_step mutex_start [ModLoad 2 7] \<lparr>my_mutex = Some 7, mutex_loaded = [2]\<rparr> \<and>
     fst (mutex_user_init 3 8 \<lparr>my_mutex = Some 7, mutex_loaded = [2]\<rparr>) = - EBUSY \<and>
   (\<exists>s. run sem_mods_step sem_mods_start [ModLoad 2 7, ModLoad 3 8] s \<and> sleepers (sem_gate s) = [3] \<and>
     sem_loaded (sem_user_exit 2 s) = [3])"
proof -
  let ?s = "\<lparr>my_mutex = Some 7, mutex_loaded = [2]\<rparr>"
  have "mutex_step mutex_start (ModLoad 2 7) ?s"
    by (rule mutex_load) (simp_all add: mutex_start_def mutex_user_init_def)
  then have r1: "run mutex_step mutex_start [ModLoad 2 7] ?s" by (simp add: run_cons_iff)
  define s1 where "s1 = snd (sem_user_init 2 sem_mods_start)"
  define s2 where "s2 = snd (sem_user_init 3 s1)"
  note defs = s1_def s2_def sem_user_init_def sem_mods_start_def gate_start_def down_interruptible_def Let_def
  have "sem_mods_step sem_mods_start (ModLoad 2 7) s1"
    by (rule sem_load [where r = "Some 0"]) (simp_all add: defs)
  moreover have "sem_mods_step s1 (ModLoad 3 8) s2"
    by (rule sem_load [where r = None]) (simp_all add: defs)
  ultimately have r2: "run sem_mods_step sem_mods_start [ModLoad 2 7, ModLoad 3 8] s2"
    unfolding run_cons_iff run_nil_iff by blast
  have g: "sleepers (sem_gate s2) = [3]" "sem_loaded s2 = [2]" by (simp_all add: defs)
  from lock_modules_exclude(1) [OF r1] lock_modules_exclude(2) [OF r2, where i = 3 and rest = "[]"] g r1 r2
  show ?thesis by auto
qed

end
