(* ===== verification/Ioctl_Labs.thy ===== *)
theory Ioctl_Labs
  imports Char_Driver Proc Lab_Wait
begin

text \<open>
  More labs of \<open>src/ioctl\<close> over the generic driver: data of variable length
  (\<open>lab2_ioctl_vardata.c\<close>), signals (\<open>lab3_ioctl_signal.c\<close>), and four ways to let a read wait for
  a write with a wait queue (\<open>lab4_wait_event.c\<close>, \<open>lab4_excl.c\<close>, \<open>lab6_poll.c\<close>,
  \<open>lab7_sleepy.c\<close>).
\<close>

section \<open>Data of variable length\<close>

text \<open>
  What a call gives: its result, the bytes it leaves with the user, the bytes of the log, and
  the buffers that are allocated and not freed.
\<close>

record vardata =
  v_rc :: int
  v_user :: "byte list"
  v_log :: "byte list"
  v_buffers :: nat

text \<open>The buffer is filled with \<open>X\<close>; the count that the user copy could not move is the result.\<close>

(* src: ioctl/lab2_ioctl_vardata.c:27-86 mycdrv_unlocked_ioctl *)
definition vardata_ioctl :: "c_uint \<Rightarrow> bool \<Rightarrow> byte list \<Rightarrow> size_t \<Rightarrow> nat \<Rightarrow> vardata kresult" where
  "vardata_ioctl cmd alloc ubuf uleft buffers =
     (if IOC_TYPE cmd \<noteq> 107 then Inr \<lparr>v_rc = - EINVAL, v_user = [], v_log = [], v_buffers = buffers\<rparr>
      else
        let size = (ucast (IOC_SIZE cmd) :: size_t); n = unat size
        in if \<not> alloc then Inr \<lparr>v_rc = - ENOMEM, v_user = [], v_log = [], v_buffers = buffers\<rparr>
        else
          let buffer = replicate n (88 :: byte); buffers = buffers + 1;
              rc = sint (ucast uleft :: c_int); direction = IOC_DIR cmd
          in if direction = IOC_WRITE then
               (let buffer = take (n - unat uleft) ubuf @ replicate (unat uleft) 0
                in Inr \<lparr>v_rc = rc, v_user = [], v_log = take n buffer, v_buffers = buffers - 1\<rparr>)
             else if direction = IOC_READ then
               Inr \<lparr>v_rc = rc, v_user = copied_out size uleft buffer, v_log = take n buffer, v_buffers = buffers - 1\<rparr>
             else Inr \<lparr>v_rc = - EINVAL, v_user = [], v_log = [], v_buffers = buffers\<rparr>)"

lemma IOC_SIZE_bound: "unat (IOC_SIZE cmd) \<le> 16383"
proof -
  have "IOC_SIZE cmd \<le> 16383" unfolding IOC_SIZE_def by (rule word_and_le1)
  then show ?thesis by (simp add: word_le_nat_alt)
qed

text \<open>The length of the buffer is the size field of the command, at most 16383 bytes: a read command
  gives the user as many \<open>X\<close> as it names, a write command logs the user's bytes, with zeros for those
  that could not be copied, and neither touches anything outside the buffer or keeps it. The
  result is the number of bytes not copied, so that a bad address is reported as a positive number and
  not as \<open>EFAULT\<close>. A command of the driver's type without a direction, or with both, is
  refused and leaks its buffer.\<close>

theorem vardata_transfers:
  assumes "IOC_TYPE cmd = 107" and "user_copy_ok (ucast (IOC_SIZE cmd)) uleft"
    and "length ubuf = unat (IOC_SIZE cmd)"
  shows "\<exists>v. vardata_ioctl cmd True ubuf uleft b = Inr v \<and>
    (IOC_DIR cmd = IOC_WRITE \<longrightarrow> v_rc v = int (unat uleft) \<and> v_buffers v = b \<and>
       v_log v = copied_in (ucast (IOC_SIZE cmd)) uleft ubuf \<and> length (v_log v) = unat (IOC_SIZE cmd)) \<and>
    (IOC_DIR cmd = IOC_READ \<longrightarrow> v_rc v = int (unat uleft) \<and> v_buffers v = b \<and>
       v_user v = replicate (unat (IOC_SIZE cmd) - unat uleft) 88 \<and> v_log v = replicate (unat (IOC_SIZE cmd)) 88) \<and>
    (IOC_DIR cmd \<noteq> IOC_WRITE \<and> IOC_DIR cmd \<noteq> IOC_READ \<longrightarrow> v_rc v = - EINVAL \<and> v_buffers v = b + 1)"
proof -
  let ?n = "unat (IOC_SIZE cmd)" and ?s = "ucast (IOC_SIZE cmd) :: size_t"
  have l: "unat uleft \<le> ?n" using assms(2) by (simp add: user_copy_ok_def word_le_nat_alt)
  have "unat uleft < 2 ^ 31" using l IOC_SIZE_bound [of cmd] by simp
  note rc = sint_ucast_small [OF this]
  have m: "unat (?s - uleft) = ?n - unat uleft" using unat_minus_left [OF assms(2)] by simp
  show ?thesis
    using assms(1,3) l
    by (simp add: vardata_ioctl_def Let_def rc m copied_in_def copied_out_def)
qed

theorem vardata_transfers_witness:
  "\<exists>v. vardata_ioctl (IOC 2 107 1 3) True [1, 2, 3] 1 0 = Inr v \<and> v_rc v = 1 \<and> v_user v = [88, 88]"
proof -
  have c: "IOC_TYPE (IOC 2 107 1 3) = 107" "IOC_SIZE (IOC 2 107 1 3) = 3" "IOC_DIR (IOC 2 107 1 3) = 2"
    by (simp_all add: IOC_def IOC_TYPE_def IOC_SIZE_def IOC_DIR_def)
  have "\<exists>v. vardata_ioctl (IOC 2 107 1 3) True [1, 2, 3] 1 0 = Inr v \<and> v_rc v = int (unat (1 :: size_t)) \<and>
      v_user v = replicate (unat (IOC_SIZE (IOC 2 107 1 3)) - unat (1 :: size_t)) 88"
    using vardata_transfers [of "IOC 2 107 1 3" 1 "[1, 2, 3]" 0] c by (simp add: user_copy_ok_def) blast
  moreover have "replicate 2 (88 :: byte) = [88, 88]" by (simp add: numeral_2_eq_2)
  ultimately show ?thesis by (simp add: c)
qed

section \<open>Signals by ioctl\<close>

text \<open>The commands are \<open>_IO('k', 1)\<close> to \<open>_IO('k', 3)\<close>.\<close>

(* src: ioctl/lab3_ioctl_signal.c:50-51 MYIOC_SETPID *)
definition MYIOC_SETPID :: c_uint where "MYIOC_SETPID = IOC 0 107 1 0"

(* src: ioctl/lab3_ioctl_signal.c:52-52 MYIOC_SETSIG *)
definition MYIOC_SETSIG :: c_uint where "MYIOC_SETSIG = IOC 0 107 2 0"

(* src: ioctl/lab3_ioctl_signal.c:53-53 MYIOC_SENDSIG *)
definition MYIOC_SENDSIG :: c_uint where "MYIOC_SENDSIG = IOC 0 107 3 0"

(* src: ioctl/lab3_ioctl_signal.c:55-57 sig_pid, sig_tsk, sig_tosend *)
definition ioctl_sig_start :: sig_state where
  "ioctl_sig_start = \<lparr>sig_pid = 0, sig_tosend = 9, sig_tsk = None\<rparr>"

text \<open>
  A task is a number, and \<open>alive\<close> are those that exist; the caller is task \<open>fst current\<close> with process
  number \<open>snd current\<close>. The result of \<open>send_sig\<close> is only printed.
\<close>

(* src: ioctl/lab3_ioctl_signal.c:59-94 mycdrv_unlocked_ioctl *)
definition sig_ioctl ::
    "(int \<Rightarrow> nat option) \<Rightarrow> nat set \<Rightarrow> nat \<times> int \<Rightarrow> c_uint \<Rightarrow> 64 word \<Rightarrow> sig_state \<Rightarrow>
     (int \<times> sig_state \<times> (nat \<times> int) list) kresult" where
  "sig_ioctl pid_task alive current cmd arg s =
     (if cmd = MYIOC_SETPID then
        let pid = sint (ucast arg :: c_int)
        in Inr (0, s\<lparr>sig_pid := pid, sig_tsk := pid_task pid\<rparr>, [])
      else if cmd = MYIOC_SETSIG then Inr (0, s\<lparr>sig_tosend := sint (ucast arg :: c_int)\<rparr>, [])
      else if cmd = MYIOC_SENDSIG then
        let s = (if sig_tsk s = None then s\<lparr>sig_tsk := Some (fst current), sig_pid := snd current\<rparr> else s)
        in case sig_tsk s of
             None \<Rightarrow> Inr (0, s, [])
           | Some t \<Rightarrow> if t \<in> alive then Inr (0, s, [(t, sig_tosend s)]) else Inl UseAfterFree
      else Inr (- EINVAL, s, []))"

fun sig_ioctls ::
    "(int \<Rightarrow> nat option) \<Rightarrow> nat set \<Rightarrow> nat \<times> int \<Rightarrow> (c_uint \<times> 64 word) list \<Rightarrow> sig_state \<Rightarrow>
     (nat \<times> int) list kresult" where
  "sig_ioctls pid_task alive current [] s = Inr []"
| "sig_ioctls pid_task alive current ((cmd, arg) # cs) s =
     (case sig_ioctl pid_task alive current cmd arg s of
        Inl f \<Rightarrow> Inl f
      | Inr (r, s, out) \<Rightarrow>
          (case sig_ioctls pid_task alive current cs s of Inl f \<Rightarrow> Inl f | Inr outs \<Rightarrow> Inr (out @ outs)))"

lemma sig_commands:
  "MYIOC_SETPID = 27393" "MYIOC_SETSIG = 27394" "MYIOC_SENDSIG = 27395"
  by (simp_all add: MYIOC_SETPID_def MYIOC_SETSIG_def MYIOC_SENDSIG_def IOC_def)

text \<open>Setting the process and the signal and then sending sends that signal to that process. A process
  number that names nobody is accepted, and the signal then goes to the caller itself; and the task
  is followed even when it has ended since. A send without anything set kills the caller.\<close>

theorem sig_ioctl_sends:
  assumes "fst current \<in> alive"
  shows "sig_ioctls pid_task alive current [(MYIOC_SETPID, p), (MYIOC_SETSIG, g), (MYIOC_SENDSIG, x)] s =
      (case pid_task (sint (ucast p :: c_int)) of
         None \<Rightarrow> Inr [(fst current, sint (ucast g :: c_int))]
       | Some t \<Rightarrow> if t \<in> alive then Inr [(t, sint (ucast g :: c_int))] else Inl UseAfterFree)"
    and "sig_ioctls pid_task alive current [(MYIOC_SENDSIG, x)] ioctl_sig_start = Inr [(fst current, 9)]"
  using assms by (simp_all add: sig_ioctl_def sig_commands ioctl_sig_start_def split: option.split)

theorem sig_ioctl_sends_witness:
  "sig_ioctls (\<lambda>p. if p = 42 then Some 7 else None) {1} (1, 100)
     [(MYIOC_SETPID, 43), (MYIOC_SETSIG, 15), (MYIOC_SENDSIG, 0)] ioctl_sig_start = Inr [(1, 15)]"
  using sig_ioctl_sends(1) [of "(1, 100)" "{1}" "\<lambda>p. if p = 42 then Some 7 else None" 43 15 0 ioctl_sig_start]
  by simp

section \<open>Reads that wait for a write\<close>

text \<open>
  Where a task is: outside, in the wait's loop before its test of the condition, asleep, past the
  wait, or in a write between its two last actions. The test and the going to sleep are one step: a
  reader is on the queue before it tests, so a wake-up in between makes it test again.
\<close>

datatype wait_pc = WOut | WTesting | WAsleep | WPast | WWriting

record wait_sys =
  w_ready :: bool
  w_nsleepers :: int
  w_pc :: "nat \<Rightarrow> wait_pc"
  w_queue :: "nat list"
  w_dev :: labdev

definition w_set :: "nat \<Rightarrow> wait_pc \<Rightarrow> wait_sys \<Rightarrow> wait_sys" where
  "w_set i p s = s\<lparr>w_pc := (w_pc s)(i := p)\<rparr>"

text \<open>
  \<open>wake_up_interruptible\<close> wakes every sleeper that waits the ordinary way, and the first of
  those that wait exclusively.
\<close>

definition wake_all :: "wait_sys \<Rightarrow> wait_sys" where
  "wake_all s = s\<lparr>w_pc := (\<lambda>i. if w_pc s i = WAsleep then WTesting else w_pc s i), w_queue := []\<rparr>"

definition wake_one :: "wait_sys \<Rightarrow> wait_sys" where
  "wake_one s =
     (case w_queue s of [] \<Rightarrow> s | i # q \<Rightarrow> (w_set i WTesting s)\<lparr>w_queue := q\<rparr>)"

definition set_ready :: "bool \<Rightarrow> wait_sys \<Rightarrow> wait_sys" where
  "set_ready b s = s\<lparr>w_ready := b\<rparr>"

lemmas wait_defs = w_set_def wake_all_def wake_one_def set_ready_def

text \<open>
  A driver of this kind: what a read does before and after the wait, the two actions a write ends with, and
  whether both go on to the generic handlers.
\<close>

record wait_lab =
  on_read :: "wait_sys \<Rightarrow> wait_sys"
  on_past :: "wait_sys \<Rightarrow> wait_sys"
  write_first :: "wait_sys \<Rightarrow> wait_sys"
  write_second :: "wait_sys \<Rightarrow> wait_sys"
  generic :: bool

(* src: ioctl/lab4_wait_event.c:56-76 mycdrv_read, mycdrv_write *)
definition wait_event_lab :: wait_lab where
  "wait_event_lab = \<lparr>on_read = id, on_past = id, write_first = set_ready True, write_second = wake_all, generic = True\<rparr>"

(* src: ioctl/lab4_excl.c:56-85 mycdrv_read, mycdrv_write *)
definition excl_lab :: wait_lab where
  "excl_lab =
     \<lparr>on_read = (\<lambda>s. s\<lparr>w_nsleepers := w_nsleepers s + 1\<rparr>),
      on_past = (\<lambda>s. let s = s\<lparr>w_nsleepers := w_nsleepers s - 1\<rparr>
                     in if w_nsleepers s = 0 then set_ready False s else s),
      write_first = wake_one, write_second = set_ready True, generic = True\<rparr>"

(* src: ioctl/lab6_poll.c:32-55 mycdrv_read, mycdrv_write *)
definition poll_lab :: wait_lab where
  "poll_lab = \<lparr>on_read = id, on_past = set_ready False, write_first = wake_all, write_second = set_ready True, generic = True\<rparr>"

text \<open>This one moves no data: a read returns zero, a write its count.\<close>

(* src: ioctl/lab7_sleepy.c:30-48 sleepy_read, sleepy_write *)
definition sleepy_lab :: wait_lab where
  "sleepy_lab = \<lparr>on_read = id, on_past = set_ready False, write_first = set_ready True, write_second = wake_all, generic = False\<rparr>"

(* src: ioctl/lab6_poll.c:57-64 mycdrv_poll *)
definition lab_poll :: "wait_sys \<Rightarrow> bool" where
  "lab_poll s = w_ready s"

definition lab_read :: "wait_lab \<Rightarrow> size_t \<Rightarrow> loff_t \<Rightarrow> size_t \<Rightarrow> labdev \<Rightarrow> (int \<times> byte list \<times> loff_t) kresult" where
  "lab_read w n p l d = (if generic w then mycdrv_generic_read n p l d else Inr (0, [], p))"

definition lab_write :: "wait_lab \<Rightarrow> byte list \<Rightarrow> loff_t \<Rightarrow> size_t \<Rightarrow> labdev \<Rightarrow> (int \<times> labdev \<times> loff_t) kresult" where
  "lab_write w bs p l d =
     (if generic w then mycdrv_generic_write bs (of_nat (length bs)) p l d else Inr (int (length bs), d, p))"

datatype wait_event = WRead nat | WTest nat | WSignal nat | WReturn nat size_t loff_t size_t
  | WWrite nat "byte list" loff_t size_t | WDone nat

text \<open>A signal ends the wait as the condition does: the wait's value is ignored.\<close>

inductive wait_step :: "wait_lab \<Rightarrow> wait_sys \<Rightarrow> wait_event \<Rightarrow> wait_sys \<Rightarrow> bool" for w :: wait_lab where
  w_read: "w_pc s i = WOut \<Longrightarrow> wait_step w s (WRead i) (w_set i WTesting (on_read w s))"
| w_test: "w_pc s i = WTesting \<Longrightarrow>
    wait_step w s (WTest i)
      (if w_ready s then w_set i WPast s else (w_set i WAsleep s)\<lparr>w_queue := w_queue s @ [i]\<rparr>)"
| w_signal: "w_pc s i = WAsleep \<Longrightarrow>
    wait_step w s (WSignal i) ((w_set i WPast s)\<lparr>w_queue := remove1 i (w_queue s)\<rparr>)"
| w_return: "w_pc s i = WPast \<Longrightarrow> lab_read w n p l (w_dev s) = Inr (r, out, p') \<Longrightarrow>
    wait_step w s (WReturn i n p l) (w_set i WOut (on_past w s))"
| w_write: "w_pc s i = WOut \<Longrightarrow> lab_write w bs p l (w_dev s) = Inr (r, d, p') \<Longrightarrow>
    wait_step w s (WWrite i bs p l) (w_set i WWriting (write_first w (s\<lparr>w_dev := d\<rparr>)))"
| w_done: "w_pc s i = WWriting \<Longrightarrow> wait_step w s (WDone i) (w_set i WOut (write_second w s))"

inductive_cases wait_stepE: "wait_step w s ev t"

(* src: ioctl/lab4_excl.c:95-101 my_init *)
definition wait_start :: "labdev \<Rightarrow> wait_sys" where
  "wait_start d = \<lparr>w_ready = False, w_nsleepers = 0, w_pc = (\<lambda>_. WOut), w_queue = [], w_dev = d\<rparr>"

text \<open>With the flag set first, a sleeper beside a set flag has a writer on its way to wake it.\<close>

definition no_lost :: "wait_sys \<Rightarrow> bool" where
  "no_lost s \<longleftrightarrow> (w_ready s \<and> (\<exists>i. w_pc s i = WAsleep) \<longrightarrow> (\<exists>j. w_pc s j = WWriting))"

definition wakes_last :: "wait_lab \<Rightarrow> bool" where
  "wakes_last w \<longleftrightarrow> w = wait_event_lab \<or> w = sleepy_lab"

lemma wakes_last_fields:
  assumes "wakes_last w"
  shows "on_read w = id" and "write_first w = set_ready True" and "write_second w = wake_all"
    and "on_past w = id \<or> on_past w = set_ready False"
  using assms by (auto simp: wakes_last_def wait_event_lab_def sleepy_lab_def)

lemma no_lost_moves:
  assumes "no_lost s"
  shows "w_pc s i \<noteq> WWriting \<Longrightarrow> p \<noteq> WAsleep \<Longrightarrow> no_lost (w_set i p s)"
    and "\<not> w_ready s \<Longrightarrow> no_lost (w_set i p s)"
    and "no_lost (set_ready False s)"
    and "no_lost (w_set i WWriting t)"
    and "no_lost (w_set i WOut (wake_all s))"
    and "no_lost (s\<lparr>w_queue := q\<rparr>)"
proof -
  show "w_pc s i \<noteq> WWriting \<Longrightarrow> p \<noteq> WAsleep \<Longrightarrow> no_lost (w_set i p s)"
    using assms unfolding no_lost_def w_set_def by simp metis
  show "\<not> w_ready s \<Longrightarrow> no_lost (w_set i p s)" by (simp add: no_lost_def w_set_def)
  show "no_lost (set_ready False s)" by (simp add: no_lost_def set_ready_def)
  show "no_lost (w_set i WWriting t)" by (auto simp: no_lost_def w_set_def)
  show "no_lost (w_set i WOut (wake_all s))" by (simp add: no_lost_def w_set_def wake_all_def)
  show "no_lost (s\<lparr>w_queue := q\<rparr>)" using assms by (simp add: no_lost_def)
qed

lemma no_lost_step:
  assumes "wakes_last w" and "wait_step w s ev t" and "no_lost s"
  shows "no_lost t"
  using assms(2,3)
proof (induction rule: wait_step.induct)
  case (w_read s i)
  then show ?case using no_lost_moves(1) [of s i WTesting] wakes_last_fields(1) [OF assms(1)] by simp
next
  case (w_test s i)
  then show ?case
    using no_lost_moves(1) [of s i WPast] no_lost_moves(2) [of s i WAsleep]
      no_lost_moves(6) [of "w_set i WAsleep s"] by simp
next
  case (w_signal s i)
  then show ?case using no_lost_moves(1) [of s i WPast] no_lost_moves(6) [of "w_set i WPast s"] by simp
next
  case (w_return s i n p l r out p')
  then have "no_lost (on_past w s)" and "w_pc (on_past w s) i \<noteq> WWriting"
    using no_lost_moves(3) [of s] wakes_last_fields(4) [OF assms(1)] by (auto simp: set_ready_def)
  then show ?case by (intro no_lost_moves(1)) simp_all
next
  case (w_write s i bs p l r d p')
  then show ?case by (intro no_lost_moves(4))
next
  case (w_done s i)
  then show ?case using no_lost_moves(5) wakes_last_fields(3) [OF assms(1)] by simp
qed

text \<open>Without a reset, the flag stays.\<close>

lemma ready_step: "wait_step wait_event_lab s ev t \<Longrightarrow> w_ready s \<Longrightarrow> w_ready t"
  by (induction rule: wait_step.induct) (auto simp: wait_event_lab_def wait_defs)

lemma no_lost_start: "no_lost (wait_start d)"
  by (simp add: no_lost_def wait_start_def)

interpretation wait_event_system: invariant_system "\<lambda>s. \<exists>d. s = wait_start d" "wait_step wait_event_lab" no_lost
  by unfold_locales (auto simp: wakes_last_def intro: no_lost_start no_lost_step)

interpretation sleepy_system: invariant_system "\<lambda>s. \<exists>d. s = wait_start d" "wait_step sleepy_lab" no_lost
  by unfold_locales (auto simp: wakes_last_def intro: no_lost_start no_lost_step)

text \<open>The exclusive variant counts the readers between their entry and the end of their wait.\<close>

definition readers :: "wait_sys \<Rightarrow> nat set" where
  "readers s = {i. w_pc s i = WTesting \<or> w_pc s i = WAsleep \<or> w_pc s i = WPast}"

definition excl_inv :: "wait_sys \<Rightarrow> bool" where
  "excl_inv s \<longleftrightarrow> finite (readers s) \<and> w_nsleepers s = int (card (readers s)) \<and>
     (\<forall>i \<in> set (w_queue s). i \<in> readers s)"

text \<open>Who is on the queue sleeps, and is there once.\<close>

definition queue_inv :: "wait_sys \<Rightarrow> bool" where
  "queue_inv s \<longleftrightarrow> distinct (w_queue s) \<and> (\<forall>i \<in> set (w_queue s). w_pc s i = WAsleep)"

lemma readers_set:
  "readers (w_set i p s) = (if p = WTesting \<or> p = WAsleep \<or> p = WPast then insert i (readers s) else readers s - {i})"
  by (auto simp: readers_def w_set_def)

lemma readers_other:
  "readers (s\<lparr>w_nsleepers := n\<rparr>) = readers s" "readers (s\<lparr>w_queue := q\<rparr>) = readers s"
  "readers (s\<lparr>w_dev := d\<rparr>) = readers s" "readers (set_ready b s) = readers s"
  by (simp_all add: readers_def set_ready_def)

lemma w_set_fields:
  "w_nsleepers (w_set i p s) = w_nsleepers s" "w_queue (w_set i p s) = w_queue s"
  "w_ready (w_set i p s) = w_ready s" "w_nsleepers (set_ready b s) = w_nsleepers s"
  "w_queue (set_ready b s) = w_queue s" "w_ready (set_ready b s) = b"
  by (simp_all add: w_set_def set_ready_def)

lemmas readers_simps = readers_set readers_other w_set_fields

lemma wake_one_inv: "excl_inv s \<Longrightarrow> excl_inv (wake_one s) \<and> readers (wake_one s) = readers s"
  by (cases "w_queue s")
    (auto simp: wake_one_def excl_inv_def readers_simps insert_absorb)

lemma excl_out:
  assumes "excl_inv s" and "w_pc s i = WOut \<or> w_pc s i = WWriting" and "p = WOut \<or> p = WWriting"
  shows "excl_inv (w_set i p s)" and "readers (w_set i p s) = readers s"
proof -
  have "i \<notin> readers s" using assms(2) by (auto simp: readers_def)
  then show r: "readers (w_set i p s) = readers s" using assms(3) by (auto simp: readers_set)
  show "excl_inv (w_set i p s)" using assms(1) by (simp add: excl_inv_def r w_set_fields)
qed

lemma excl_inside:
  assumes "excl_inv s" and "i \<in> readers s" and "p = WTesting \<or> p = WAsleep \<or> p = WPast"
  shows "excl_inv (w_set i p s)" and "readers (w_set i p s) = readers s"
proof -
  show r: "readers (w_set i p s) = readers s" using assms(2,3) by (auto simp: readers_set)
  show "excl_inv (w_set i p s)" using assms(1) by (simp add: excl_inv_def r w_set_fields)
qed

definition excl_past :: "wait_sys \<Rightarrow> wait_sys" where
  "excl_past = on_past excl_lab"

lemma excl_leave:
  assumes "excl_inv s" and "w_pc s i = WPast" and "i \<notin> set (w_queue s)"
  shows "excl_inv (w_set i WOut (excl_past s))"
    and "w_ready (w_set i WOut (excl_past s)) = (w_ready s \<and> readers (w_set i WOut (excl_past s)) \<noteq> {})"
proof -
  have i: "i \<in> readers s" using assms(2) by (simp add: readers_def)
  have f: "finite (readers s)" and n: "w_nsleepers s = int (card (readers s))"
    using assms(1) by (simp_all add: excl_inv_def)
  have r: "readers (w_set i WOut (excl_past s)) = readers s - {i}"
    by (simp add: excl_past_def excl_lab_def Let_def readers_simps)
  have c: "int (card (readers s)) - 1 = int (card (readers s - {i}))"
    using i f by (metis card.remove of_nat_Suc add_diff_cancel_left')
  have q: "w_queue (w_set i WOut (excl_past s)) = w_queue s"
    "w_nsleepers (w_set i WOut (excl_past s)) = w_nsleepers s - 1"
    by (simp_all add: excl_past_def excl_lab_def Let_def readers_simps)
  show "excl_inv (w_set i WOut (excl_past s))"
    using assms(1,3) f by (auto simp: excl_inv_def r q n c)
  have "w_ready (w_set i WOut (excl_past s)) = (w_ready s \<and> w_nsleepers s - 1 \<noteq> 0)"
    by (auto simp: excl_past_def excl_lab_def Let_def readers_simps)
  also have "w_nsleepers s - 1 \<noteq> 0 \<longleftrightarrow> readers s - {i} \<noteq> {}"
    using f by (simp add: n c del: Diff_eq_empty_iff)
  finally show "w_ready (w_set i WOut (excl_past s)) = (w_ready s \<and> readers (w_set i WOut (excl_past s)) \<noteq> {})"
    by (simp add: r)
qed

lemma queue_inv_awake: "queue_inv s \<Longrightarrow> w_pc s i \<noteq> WAsleep \<Longrightarrow> queue_inv (w_set i p s)"
  by (auto simp: queue_inv_def w_set_def)

lemma queue_inv_other:
  "queue_inv (s\<lparr>w_nsleepers := n\<rparr>) = queue_inv s" "queue_inv (s\<lparr>w_dev := d\<rparr>) = queue_inv s"
  "queue_inv (set_ready b s) = queue_inv s"
  by (simp_all add: queue_inv_def set_ready_def)

lemma queue_inv_wake: "queue_inv s \<Longrightarrow> queue_inv (wake_one s)"
  by (cases "w_queue s") (auto simp: queue_inv_def wake_one_def w_set_def)

lemma wake_one_pc: "w_pc s i = WOut \<Longrightarrow> queue_inv s \<Longrightarrow> w_pc (wake_one s) i = WOut"
  by (cases "w_queue s") (auto simp: queue_inv_def wake_one_def w_set_def)

definition excl_ok :: "wait_sys \<Rightarrow> bool" where
  "excl_ok s \<longleftrightarrow> excl_inv s \<and> queue_inv s"

lemma excl_fields:
  "on_read excl_lab s = s\<lparr>w_nsleepers := w_nsleepers s + 1\<rparr>" "on_past excl_lab s = excl_past s"
  "write_first excl_lab = wake_one" "write_second excl_lab = set_ready True"
  by (simp_all add: excl_lab_def excl_past_def)

lemma excl_past_queue: "queue_inv (excl_past s) = queue_inv s" "w_pc (excl_past s) = w_pc s"
  by (simp_all add: excl_past_def excl_lab_def Let_def queue_inv_other) (simp add: set_ready_def)

lemma excl_ok_read:
  assumes "excl_ok s" and "w_pc s i = WOut"
  shows "excl_ok (w_set i WTesting (s\<lparr>w_nsleepers := w_nsleepers s + 1\<rparr>))"
proof -
  have "i \<notin> readers s" using assms(2) by (simp add: readers_def)
  then have "excl_inv (w_set i WTesting (s\<lparr>w_nsleepers := w_nsleepers s + 1\<rparr>))"
    using assms(1) by (simp add: excl_ok_def excl_inv_def readers_simps)
  moreover have "queue_inv (w_set i WTesting (s\<lparr>w_nsleepers := w_nsleepers s + 1\<rparr>))"
    using assms by (intro queue_inv_awake) (simp_all add: excl_ok_def queue_inv_other)
  ultimately show ?thesis by (simp add: excl_ok_def)
qed

lemma excl_ok_sleep:
  assumes "excl_ok s" and "w_pc s i = WTesting"
  shows "excl_ok ((w_set i WAsleep s)\<lparr>w_queue := w_queue s @ [i]\<rparr>)"
proof -
  have i: "i \<in> readers s" and q: "i \<notin> set (w_queue s)"
    using assms by (auto simp: readers_def excl_ok_def queue_inv_def)
  have "excl_inv ((w_set i WAsleep s)\<lparr>w_queue := w_queue s @ [i]\<rparr>)"
    using assms(1) i by (simp add: excl_ok_def excl_inv_def readers_simps insert_absorb)
  moreover have "queue_inv ((w_set i WAsleep s)\<lparr>w_queue := w_queue s @ [i]\<rparr>)"
    using assms(1) q by (auto simp: excl_ok_def queue_inv_def w_set_def)
  ultimately show ?thesis by (simp add: excl_ok_def)
qed

lemma excl_ok_signal:
  assumes "excl_ok s" and "w_pc s i = WAsleep"
  shows "excl_ok ((w_set i WPast s)\<lparr>w_queue := remove1 i (w_queue s)\<rparr>)"
proof -
  have i: "i \<in> readers s" using assms(2) by (simp add: readers_def)
  have "excl_inv ((w_set i WPast s)\<lparr>w_queue := remove1 i (w_queue s)\<rparr>)"
    using assms(1) i by (auto simp: excl_ok_def excl_inv_def readers_simps insert_absorb dest: notin_set_remove1)
  moreover have "queue_inv ((w_set i WPast s)\<lparr>w_queue := remove1 i (w_queue s)\<rparr>)"
    using assms(1) by (auto simp: excl_ok_def queue_inv_def w_set_def)
  ultimately show ?thesis by (simp add: excl_ok_def)
qed

lemma excl_ok_step: "wait_step excl_lab s ev t \<Longrightarrow> excl_ok s \<Longrightarrow> excl_ok t"
proof (induction rule: wait_step.induct)
  case (w_read s i)
  then show ?case by (simp add: excl_fields excl_ok_read)
next
  case (w_test s i)
  then show ?case
    by (auto simp: excl_ok_def readers_def intro: excl_ok_sleep [unfolded excl_ok_def, THEN conjunct1]
        excl_ok_sleep [unfolded excl_ok_def, THEN conjunct2] excl_inside(1) queue_inv_awake)
next
  case (w_signal s i)
  then show ?case by (simp add: excl_ok_signal)
next
  case (w_return s i n p l r out p')
  then have "i \<notin> set (w_queue s)" by (auto simp: excl_ok_def queue_inv_def)
  with w_return show ?case
    using excl_leave(1) [of s i] queue_inv_awake [of "excl_past s" i WOut]
    by (simp add: excl_ok_def excl_fields excl_past_queue)
next
  case (w_write s i bs p l r d p')
  let ?s = "s\<lparr>w_dev := d\<rparr>"
  have k: "excl_inv ?s" "queue_inv ?s" "w_pc ?s i = WOut"
    using w_write by (simp_all add: excl_ok_def excl_inv_def queue_inv_other readers_other)
  have o: "w_pc (wake_one ?s) i = WOut" by (rule wake_one_pc [OF k(3,2)])
  show ?case
    using wake_one_inv [OF k(1)] queue_inv_wake [OF k(2)] o
    by (simp add: excl_ok_def excl_fields excl_out(1) queue_inv_awake)
next
  case (w_done s i)
  then have "excl_inv (set_ready True s)" "queue_inv (set_ready True s)" "w_pc (set_ready True s) i = WWriting"
    by (simp_all add: excl_ok_def excl_inv_def queue_inv_other readers_simps) (simp add: set_ready_def)
  then show ?case by (simp add: excl_ok_def excl_fields excl_out(1) queue_inv_awake)
qed

lemma excl_ok_start: "excl_ok (wait_start d)"
  by (simp add: excl_ok_def excl_inv_def queue_inv_def wait_start_def readers_def)

interpretation excl_system: invariant_system "\<lambda>s. \<exists>d. s = wait_start d" "wait_step excl_lab" excl_ok
  by unfold_locales (auto intro: excl_ok_start excl_ok_step)

text \<open>In the exclusive variant the count of sleepers is the number of reads that have not got past their wait, in
  every interleaving, and the flag is cleared exactly by the last of them: as long as one read
  sleeps, every new read passes without waiting once the flag was set.\<close>

theorem excl_counts_readers:
  assumes "run (wait_step excl_lab) (wait_start d) evs s"
  shows "finite (readers s) \<and> w_nsleepers s = int (card (readers s)) \<and>
    (\<forall>i n p l t. wait_step excl_lab s (WReturn i n p l) t \<longrightarrow>
       w_ready t = (w_ready s \<and> readers t \<noteq> {}))"
proof -
  have ok: "excl_ok s" using excl_system.inv_reachable [OF _ assms] by blast
  have "w_ready t = (w_ready s \<and> readers t \<noteq> {})" if "wait_step excl_lab s (WReturn i n p l) t" for i n p l t
  proof -
    from that have pc: "w_pc s i = WPast" and t: "t = w_set i WOut (excl_past s)"
      by (auto elim!: wait_stepE simp: excl_fields)
    then have "i \<notin> set (w_queue s)" using ok by (auto simp: excl_ok_def queue_inv_def)
    with ok pc show ?thesis using excl_leave(2) [of s i] by (simp add: excl_ok_def t)
  qed
  with ok show ?thesis by (auto simp: excl_ok_def excl_inv_def)
qed

section \<open>Lost wake-ups\<close>

text \<open>A reader falls asleep; a write wakes it, it tests the flag before the write sets it, and sleeps on.\<close>

definition lost_run :: "wait_event list" where
  "lost_run = [WRead 1, WTest 1, WWrite 2 [] 0 0, WTest 1, WDone 2]"

definition lost_state :: "wait_lab \<Rightarrow> labdev \<Rightarrow> wait_sys" where
  "lost_state w d = \<lparr>w_ready = True, w_nsleepers = w_nsleepers (on_read w (wait_start d)),
     w_pc = (\<lambda>_. WOut)(1 := WAsleep), w_queue = [1], w_dev = d\<rparr>"

lemma lost_run_lab:
  assumes "w = poll_lab \<or> w = excl_lab" and "mycdrv_generic_write [] 0 0 0 d = Inr (r, d, p)"
  shows "run (wait_step w) (wait_start d) lost_run (lost_state w d)"
proof -
  let ?n = "w_nsleepers (on_read w (wait_start d))"
  let ?st = "\<lambda>b one two q. \<lparr>w_ready = b, w_nsleepers = ?n, w_pc = (\<lambda>_. WOut)(1 := one, 2 := two), w_queue = q, w_dev = d\<rparr>"
  have f: "write_second w = set_ready True" using assms(1) by (auto simp: poll_lab_def excl_lab_def)
  have "w_set 1 WTesting (on_read w (wait_start d)) = ?st False WTesting WOut []"
    using assms(1) by (auto simp: wait_start_def w_set_def poll_lab_def excl_lab_def fun_eq_iff)
  then have 1: "wait_step w (wait_start d) (WRead 1) (?st False WTesting WOut [])"
    using w_read [of "wait_start d" 1 w] by (simp add: wait_start_def)
  have 2: "wait_step w (?st False WTesting WOut []) (WTest 1) (?st False WAsleep WOut [1])"
    using w_test [of "?st False WTesting WOut []" 1 w] by (simp add: w_set_def fun_upd_twist)
  have "w_set 2 WWriting (write_first w (?st False WAsleep WOut [1])) = ?st False WTesting WWriting []"
    using assms(1) by (auto simp: w_set_def poll_lab_def excl_lab_def wake_one_def wake_all_def fun_eq_iff)
  then have 3: "wait_step w (?st False WAsleep WOut [1]) (WWrite 2 [] 0 0) (?st False WTesting WWriting [])"
    using w_write [of "?st False WAsleep WOut [1]" 2 w "[]" 0 0 r d p] assms
    by (auto simp: lab_write_def poll_lab_def excl_lab_def)
  have 4: "wait_step w (?st False WTesting WWriting []) (WTest 1) (?st False WAsleep WWriting [1])"
    using w_test [of "?st False WTesting WWriting []" 1 w] by (simp add: w_set_def fun_upd_twist)
  have e: "(\<lambda>_ :: nat. WOut)(1 := WAsleep, 2 := WOut) = (\<lambda>_. WOut)(1 := WAsleep)" by (simp add: fun_eq_iff)
  have 5: "wait_step w (?st False WAsleep WWriting [1]) (WDone 2) (lost_state w d)"
    using w_done [of "?st False WAsleep WWriting [1]" 2 w]
    by (simp add: f w_set_def set_ready_def lost_state_def e [simplified])
  show ?thesis unfolding lost_run_def using 1 2 3 4 5 by (blast intro: run.intros)
qed

text \<open>C21: The order of a write's last two actions decides whether a reader can be forgotten. Where the flag
  is set before the wake-up (the plain and the sleepy variant), in every interleaving, signals included, a
  reader asleep beside a set flag has a writer that is about to wake it. Where the wake-up comes first (the poll
  and the exclusive variant), a reader can end up asleep beside the set flag with nobody left to wake it.\<close>

theorem wait_labs_wakeups:
  assumes "mycdrv_generic_write [] 0 0 0 d = Inr (r, d, p)"
  shows "(w = wait_event_lab \<or> w = sleepy_lab \<longrightarrow>
      (\<forall>evs s i. run (wait_step w) (wait_start d) evs s \<and> w_ready s \<and> w_pc s i = WAsleep \<longrightarrow>
        (\<exists>j. w_pc s j = WWriting)))
    \<and> (w = poll_lab \<or> w = excl_lab \<longrightarrow>
      (\<exists>s. run (wait_step w) (wait_start d) lost_run s \<and> w_ready s \<and> w_pc s 1 = WAsleep \<and>
        (\<forall>j. w_pc s j \<noteq> WWriting)))"
proof (intro conjI impI allI)
  fix evs s i
  assume w: "w = wait_event_lab \<or> w = sleepy_lab"
    and a: "run (wait_step w) (wait_start d) evs s \<and> w_ready s \<and> w_pc s i = WAsleep"
  have "no_lost s"
    using w a wait_event_system.inv_reachable sleepy_system.inv_reachable by metis
  with a show "\<exists>j. w_pc s j = WWriting" by (auto simp: no_lost_def)
next
  assume "w = poll_lab \<or> w = excl_lab"
  from lost_run_lab [OF this assms]
  show "\<exists>s. run (wait_step w) (wait_start d) lost_run s \<and> w_ready s \<and> w_pc s 1 = WAsleep \<and> (\<forall>j. w_pc s j \<noteq> WWriting)"
    by (rule exI [of _ "lost_state w d", OF conjI]) (simp add: lost_state_def)
qed

theorem wait_labs_wakeups_witness:
  "\<exists>s. run (wait_step excl_lab) (wait_start sample_lab) lost_run s \<and> w_ready s \<and> w_pc s 1 = WAsleep \<and>
     (\<forall>j. w_pc s j \<noteq> WWriting)"
proof -
  have w: "mycdrv_generic_write [] 0 0 0 sample_lab = Inr (0, sample_lab, 0)"
    using lab_write_data [OF sample_lab_holds, of 0 0 0 "[]"]
    by (simp add: vfs_rw_ok_def lab_moved_def sample_lab_def)
  from wait_labs_wakeups [OF w, of excl_lab] show ?thesis by simp
qed

text \<open>The plain variant never clears its flag: after one write no read waits again.\<close>

theorem wait_event_stays_ready:
  assumes r: "run (wait_step wait_event_lab) s evs t" and m: "WWrite i bs q l \<in> set evs"
  shows "w_ready t"
proof -
  from r m obtain as cs where evs: "evs = as @ WWrite i bs q l # cs" by (auto simp: in_set_conv_decomp)
  with r obtain u v where st: "wait_step wait_event_lab u (WWrite i bs q l) v" and rest: "run (wait_step wait_event_lab) v cs t"
    by (auto dest!: run_appendD simp: run_cons_iff)
  from st have "w_ready v" by (auto elim!: wait_stepE simp: wait_event_lab_def wait_defs)
  from run_preserves [where P = w_ready, OF rest this] show "w_ready t" by (blast intro: ready_step)
qed

end
