(* ===== verification/Seq_Files.thy ===== *)
theory Seq_Files
  imports Jit
begin

text \<open>
  The sequence files of \<open>src/debug\<close>: a counter without end (\<open>lab11_seq.c\<close>), a number of lines
  each after a busy wait (\<open>lab8_seqfile.c\<close>), and the list of tasks
  (\<open>debug_lab3_seqfile.c\<close>, whose other parts are switched off copies of the first two). The
  kernel's \<open>seq_read\<close> calls the four operations of such a file.
\<close>

section \<open>What reading a sequence file does\<close>

text \<open>
  A session starts at a position, shows that item, and goes on to as many further items as fit the
  buffer, at most \<open>k\<close>; then it stops. \<open>next\<close> gets a copy of the position and moves it; the kernel keeps the
  position behind the last item that was shown. A session that \<open>start\<close> refuses is the end of the file.
\<close>

fun seq_fill :: "('v \<Rightarrow> loff_t \<Rightarrow> 'v option \<times> loff_t) \<Rightarrow> nat \<Rightarrow> 'v \<Rightarrow> loff_t \<Rightarrow> 'v list \<times> loff_t" where
  "seq_fill nxt 0 v p = ([], p)"
| "seq_fill nxt (Suc k) v p =
     (case nxt v p of
        (None, p') \<Rightarrow> ([], p)
      | (Some v', p') \<Rightarrow> let (vs, q) = seq_fill nxt k v' p' in (v' # vs, q))"

definition seq_session ::
    "(loff_t \<Rightarrow> 'v option) \<Rightarrow> ('v \<Rightarrow> loff_t \<Rightarrow> 'v option \<times> loff_t) \<Rightarrow> nat \<Rightarrow> loff_t \<Rightarrow> ('v list \<times> loff_t) option" where
  "seq_session start nxt k p =
     (case start p of
        None \<Rightarrow> None
      | Some v \<Rightarrow> let (vs, q) = seq_fill nxt k v p in Some (v # vs, q + 1))"

fun seq_reads ::
    "(loff_t \<Rightarrow> 'v option) \<Rightarrow> ('v \<Rightarrow> loff_t \<Rightarrow> 'v option \<times> loff_t) \<Rightarrow> nat list \<Rightarrow> loff_t \<Rightarrow> 'v list" where
  "seq_reads start nxt [] p = []"
| "seq_reads start nxt (k # ks) p =
     (case seq_session start nxt k p of None \<Rightarrow> [] | Some (vs, q) \<Rightarrow> vs @ seq_reads start nxt ks q)"

text \<open>What one reading in one go would show: the items from a position on, at most \<open>n\<close>.\<close>

fun seq_items :: "(loff_t \<Rightarrow> 'v option) \<Rightarrow> nat \<Rightarrow> loff_t \<Rightarrow> 'v list" where
  "seq_items start 0 p = []"
| "seq_items start (Suc n) p = (case start p of None \<Rightarrow> [] | Some v \<Rightarrow> v # seq_items start n (p + 1))"

text \<open>The contract: \<open>next\<close> moves the position by one and gives what \<open>start\<close> gives there.\<close>

locale seq_iterator =
  fixes start :: "loff_t \<Rightarrow> 'v option"
    and nxt :: "'v \<Rightarrow> loff_t \<Rightarrow> 'v option \<times> loff_t"
  assumes next_is_start: "start p = Some v \<Longrightarrow> nxt v p = (start (p + 1), p + 1)"
begin

lemma fill_items:
  "start p = Some v \<Longrightarrow> seq_fill nxt k v p = (vs, q) \<Longrightarrow>
   vs = seq_items start k (p + 1) \<and> q = p + of_nat (length vs) \<and> start q \<noteq> None \<and>
   (length vs < k \<longrightarrow> start (q + 1) = None)"
proof (induction k arbitrary: v p vs q)
  case 0
  then show ?case by simp
next
  case (Suc k)
  show ?case
  proof (cases "start (p + 1)")
    case None
    with Suc.prems show ?thesis by (auto simp: next_is_start)
  next
    case (Some v')
    obtain us r where f: "seq_fill nxt k v' (p + 1) = (us, r)" by (cases "seq_fill nxt k v' (p + 1)")
    with Suc.prems Some have "vs = v' # us" and "q = r" by (auto simp: next_is_start)
    with Suc.IH [OF Some f] Some show ?thesis by (auto simp: algebra_simps)
  qed
qed

lemma items_end: "start p = None \<Longrightarrow> seq_items start n p = []"
  by (cases n) simp_all

lemma items_split:
  "seq_items start (m + n) p = seq_items start m p @
     (if length (seq_items start m p) < m then [] else seq_items start n (p + of_nat m))"
proof (induction m arbitrary: p)
  case 0
  then show ?case by simp
next
  case (Suc m)
  then show ?case by (cases "start p") (simp_all add: algebra_simps)
qed

lemma items_length: "length (seq_items start m p) \<le> m"
  by (induction m arbitrary: p) (auto split: option.split)

lemma session_items:
  assumes "seq_session start nxt k p = Some (vs, q)"
  shows "vs = seq_items start (Suc k) p" and "q = p + of_nat (length vs)"
    and "length vs < Suc k \<Longrightarrow> start q = None"
proof -
  from assms obtain v us r where v: "start p = Some v" and f: "seq_fill nxt k v p = (us, r)"
    and e: "vs = v # us" "q = r + 1"
    by (auto simp: seq_session_def split: option.splits prod.splits)
  from fill_items [OF v f] v show "vs = seq_items start (Suc k) p" and "q = p + of_nat (length vs)"
    by (simp_all add: e)
  from fill_items [OF v f] show "length vs < Suc k \<Longrightarrow> start q = None"
    unfolding e by (metis Suc_less_eq length_Cons)
qed

text \<open>However the buffer cuts the reading into sessions, the items are those of one reading in one go.\<close>

lemma reads_items: "seq_reads start nxt ks p = seq_items start (sum_list (map Suc ks)) p"
proof (induction ks arbitrary: p)
  case Nil
  then show ?case by simp
next
  case (Cons k ks)
  show ?case
  proof (cases "seq_session start nxt k p")
    case None
    then have "start p = None" by (auto simp: seq_session_def split: option.splits prod.splits)
    with None show ?thesis by (simp add: items_end)
  next
    case (Some x)
    obtain vs q where x: "x = (vs, q)" by (cases x)
    note s = session_items [OF Some [unfolded x]]
    show ?thesis
    proof (cases "length vs < Suc k")
      case True
      with s Cons.IH [of q] have "seq_reads start nxt ks q = []" by (simp add: items_end)
      with True Some x s(1) items_split [of "Suc k" "sum_list (map Suc ks)" p] show ?thesis by simp
    next
      case False
      then have "length vs = Suc k" using s(1) items_length [of "Suc k" p] by simp
      with Some x s Cons.IH [of q] items_split [of "Suc k" "sum_list (map Suc ks)" p] show ?thesis by simp
    qed
  qed
qed

end

section \<open>The counter\<close>

text \<open>
  The value is a copy of the position in memory of its own, allocated by \<open>start\<close> and freed by
  \<open>stop\<close>; \<open>next\<close> counts it up and sets the position to it.
\<close>

(* src: debug/lab11_seq.c:25-32 ct_seq_start *)
definition ct_seq_start :: "bool \<Rightarrow> loff_t \<Rightarrow> loff_t option" where
  "ct_seq_start alloc pos = (if \<not> alloc then None else Some pos)"

(* src: debug/lab11_seq.c:34-39 ct_seq_next *)
definition ct_seq_next :: "loff_t \<Rightarrow> loff_t \<Rightarrow> loff_t option \<times> loff_t" where
  "ct_seq_next spos pos = (Some (spos + 1), spos + 1)"

(* src: debug/lab11_seq.c:49-54 ct_seq_show *)
definition ct_seq_show :: "loff_t \<Rightarrow> string" where
  "ct_seq_show spos = fmt_d (sint spos) @ [CHR 0x0A]"

text \<open>Of a session's one buffer, \<open>start\<close> and \<open>stop\<close> are the ends.\<close>

(* src: debug/lab11_seq.c:41-44 ct_seq_stop *)
definition ct_seq_stop :: "loff_t option \<Rightarrow> loff_t ledger \<Rightarrow> loff_t ledger" where
  "ct_seq_stop v k = (case v of None \<Rightarrow> k | Some a \<Rightarrow> release a k)"

interpretation counter: seq_iterator "ct_seq_start True" ct_seq_next
  by unfold_locales (simp add: ct_seq_start_def ct_seq_next_def)

lemma counter_items: "seq_items (ct_seq_start True) n p = map (\<lambda>i. p + of_nat i) [0..<n]"
proof (induction n arbitrary: p)
  case 0
  then show ?case by simp
next
  case (Suc n)
  have "[0..<Suc n] = 0 # map Suc [0..<n]" by (simp add: upt_conv_Cons map_Suc_upt)
  with Suc show ?case by (simp add: ct_seq_start_def algebra_simps)
qed

section \<open>Lines after a busy wait\<close>

text \<open>
  The position is compared with the parameter as signed numbers. The value is the address of the
  kernel's clock; the wait is the loop of the just-in-time files, over the readings of the clock.
\<close>

(* src: debug/lab8_seqfile.c:35-47 x_busy_seq_start *)
definition x_busy_seq_start :: "int \<Rightarrow> loff_t \<Rightarrow> unit option" where
  "x_busy_seq_start n_items pos = (if sint pos < n_items then Some () else None)"

(* src: debug/lab8_seqfile.c:49-62 x_busy_seq_next *)
definition x_busy_seq_next :: "int \<Rightarrow> unit \<Rightarrow> loff_t \<Rightarrow> unit option \<times> loff_t" where
  "x_busy_seq_next n_items v pos =
     (let pos = pos + 1 in (if sint pos < n_items then Some () else None, pos))"

(* src: debug/lab8_seqfile.c:40-41 x_busy_seq_start, x_busy_seq_next (wait) *)
definition x_busy_wait :: "64 word \<Rightarrow> 64 word \<Rightarrow> 64 word \<Rightarrow> 64 word list \<Rightarrow> 64 word option" where
  "x_busy_wait HZ x_delay j js = wait_until (j + x_delay * HZ) js"

(* src: debug/lab8_seqfile.c:69-78 x_busy_seq_show *)
definition x_busy_seq_show :: "64 word \<Rightarrow> string" where
  "x_busy_seq_show jp = ''jiffies = '' @ digits 10 (unat jp) @ ''.'' @ [CHR 0x0A]"

interpretation busy: seq_iterator "x_busy_seq_start n" "x_busy_seq_next n"
  by unfold_locales (simp add: x_busy_seq_start_def x_busy_seq_next_def Let_def)

lemma busy_items:
  assumes "m + n < 2 ^ 31" and "0 \<le> c"
  shows "length (seq_items (x_busy_seq_start c) n (of_nat m)) = min n (nat c - m)"
  using assms(1)
proof (induction n arbitrary: m)
  case 0
  then show ?case by simp
next
  case (Suc n)
  have "sint (of_nat m :: loff_t) = int m"
    using Suc.prems sint_small_64 [of "of_nat m"] by simp
  then have s: "x_busy_seq_start c (of_nat m) = (if int m < c then Some () else None)"
    by (simp add: x_busy_seq_start_def)
  have p: "(of_nat m + 1 :: loff_t) = of_nat (Suc m)" by simp
  have "length (seq_items (x_busy_seq_start c) (Suc n) (of_nat m)) =
      (if int m < c then Suc (length (seq_items (x_busy_seq_start c) n (of_nat (Suc m)))) else 0)"
    unfolding seq_items.simps s p by simp
  moreover have "nat c - m = (if int m < c then Suc (nat c - Suc m) else 0)" by (auto simp: nat_less_iff)
  ultimately show ?case
    using Suc.IH [of "Suc m"] Suc.prems by simp
qed

section \<open>The tasks\<close>

text \<open>
  The tasks are a ring, given as a list; a value is an index into it. \<open>start\<close> ignores the position and gives the
  current task, \<open>next\<close> leaves the position alone, and \<open>show\<close> prints the task after the value.
\<close>

(* src: debug/debug_lab3_seqfile.c:32-40 my_start *)
definition task_start :: "nat \<Rightarrow> loff_t \<Rightarrow> nat option" where
  "task_start current pos = Some current"

(* src: debug/debug_lab3_seqfile.c:42-51 my_next *)
definition task_next :: "(int \<times> string) list \<Rightarrow> nat \<Rightarrow> loff_t \<Rightarrow> nat option \<times> loff_t" where
  "task_next tasks v pos = (Some ((v + 1) mod length tasks), pos)"

(* src: debug/debug_lab3_seqfile.c:58-68 my_show *)
definition task_show :: "(int \<times> string) list \<Rightarrow> nat \<Rightarrow> string" where
  "task_show tasks v =
     (let (pid, comm) = tasks ! ((v + 1) mod length tasks)
      in digits 10 (unat (word_of_int pid :: c_uint)) @ [CHR 0x09, CHR '':'', CHR 0x09] @ comm @ [CHR 0x0A])"

lemma task_fill:
  "v < length tasks \<Longrightarrow> seq_fill (task_next tasks) k v p = (map (\<lambda>i. (v + i) mod length tasks) [1..<Suc k], p)"
proof (induction k arbitrary: v)
  case 0
  then show ?case by simp
next
  case (Suc k)
  let ?n = "length tasks"
  have "0 < ?n" using Suc.prems by linarith
  then have "(v + 1) mod ?n < ?n" by (rule mod_less_divisor)
  note ih = Suc.IH [OF this]
  have "map (\<lambda>i. (v + i) mod ?n) [1..<Suc (Suc k)] =
      (v + 1) mod ?n # map (\<lambda>i. (v + Suc i) mod ?n) [1..<Suc k]"
    by (simp add: upt_conv_Cons map_Suc_upt [symmetric] comp_def del: upt_Suc)
  moreover have "((v + 1) mod ?n + i) mod ?n = (v + Suc i) mod ?n" for i
    by (simp add: mod_add_left_eq)
  ultimately show ?case
    using ih by (simp add: task_next_def del: upt_Suc)
qed

lemma task_reads:
  assumes "current < length tasks"
  shows "seq_reads (task_start current) (task_next tasks) ks p =
    concat (map (\<lambda>k. map (\<lambda>i. (current + i) mod length tasks) [0..<Suc k]) ks)"
proof (induction ks arbitrary: p)
  case Nil
  then show ?case by simp
next
  case (Cons k ks)
  have "[0..<Suc k] = 0 # [1..<Suc k]" by (simp add: upt_conv_Cons del: upt_Suc)
  with Cons show ?case
    using task_fill [OF assms, of k p] assms
    by (simp add: seq_session_def task_start_def del: upt_Suc)
qed

section \<open>Loading and unloading\<close>

datatype seq_res = SeqDir | SeqEntry

(* src: debug/debug_lab3_seqfile.c:97-113 seqfile_init *)
definition seqfile_init :: "bool \<times> bool \<Rightarrow> seq_res ledger \<Rightarrow> int \<times> seq_res ledger" where
  "seqfile_init e k =
     (if \<not> fst e then (- ENOMEM, k)
      else
        let k = acquire SeqDir k
        in if \<not> snd e then (- ENOMEM, release SeqDir k) else (0, acquire SeqEntry k))"

(* src: debug/debug_lab3_seqfile.c:115-119 seqfile_exit *)
definition seqfile_exit :: "bool \<times> bool \<Rightarrow> seq_res ledger \<Rightarrow> seq_res ledger" where
  "seqfile_exit e k = release SeqDir (release SeqEntry k)"

(* src: debug/lab8_seqfile.c:101-115 my_init *)
definition x_busy_init :: "bool \<Rightarrow> seq_res ledger \<Rightarrow> int \<times> seq_res ledger" where
  "x_busy_init e k = (if \<not> e then (-1, k) else (0, acquire SeqEntry k))"

(* src: debug/lab8_seqfile.c:117-122 my_exit *)
definition x_busy_exit :: "bool \<Rightarrow> seq_res ledger \<Rightarrow> seq_res ledger" where
  "x_busy_exit e k = (if e then release SeqEntry k else k)"

text \<open>This one reports success whatever came of it, and removes what may not be there.\<close>

(* src: debug/lab11_seq.c:94-102 ct_init *)
definition ct_init :: "bool \<Rightarrow> seq_res ledger \<Rightarrow> int \<times> seq_res ledger" where
  "ct_init e k = (0, if e then acquire SeqEntry k else k)"

(* src: debug/lab11_seq.c:104-107 ct_exit *)
definition ct_exit :: "seq_res ledger \<Rightarrow> seq_res ledger" where
  "ct_exit k = release SeqEntry k"

interpretation seqfile_module: module_lifecycle "\<lambda>_. True" seqfile_init "\<lambda>_. [SeqEntry, SeqDir]" seqfile_exit
  by unfold_locales
    (auto simp: seqfile_init_def seqfile_exit_def Let_def release_def split: if_splits)

interpretation x_busy_module: module_lifecycle "\<lambda>_. True" x_busy_init "\<lambda>e. [SeqEntry]" "\<lambda>_. x_busy_exit True"
  by unfold_locales (auto simp: x_busy_init_def x_busy_exit_def release_def split: if_splits)

lemma ct_init_unchecked: "ct_init False k = (0, k)" "SeqEntry \<notin> set (held k) \<Longrightarrow> faults (ct_exit k) = SeqEntry # faults k"
  by (simp_all add: ct_init_def ct_exit_def release_def)

text \<open>However reads cut the files into pieces, the counter shows the numbers from the start in order,
  each once, and the busy file shows its number of lines and then ends. The task file does not: every piece
  starts again behind the reader's own task, and the file has no end.\<close>

theorem seq_files_pieces:
  shows "map ct_seq_show (seq_reads (ct_seq_start True) ct_seq_next ks 0) =
      map (\<lambda>i. ct_seq_show (of_nat i)) [0..<sum_list (map Suc ks)]"
    and "0 \<le> c \<Longrightarrow> sum_list (map Suc ks) < 2 ^ 31 \<Longrightarrow>
      length (seq_reads (x_busy_seq_start c) (x_busy_seq_next c) ks 0) = min (sum_list (map Suc ks)) (nat c)"
    and "current < length tasks \<Longrightarrow>
      map (task_show tasks) (seq_reads (task_start current) (task_next tasks) ks 0) =
      concat (map (\<lambda>k. map (\<lambda>i. task_show tasks ((current + i) mod length tasks)) [0..<Suc k]) ks)"
proof -
  show "map ct_seq_show (seq_reads (ct_seq_start True) ct_seq_next ks 0) =
      map (\<lambda>i. ct_seq_show (of_nat i)) [0..<sum_list (map Suc ks)]"
    by (simp add: counter.reads_items counter_items)
  show "length (seq_reads (x_busy_seq_start c) (x_busy_seq_next c) ks 0) = min (sum_list (map Suc ks)) (nat c)"
    if "0 \<le> c" and "sum_list (map Suc ks) < 2 ^ 31"
    using busy_items [of 0 "sum_list (map Suc ks)" c] that by (simp add: busy.reads_items)
  show "map (task_show tasks) (seq_reads (task_start current) (task_next tasks) ks 0) =
      concat (map (\<lambda>k. map (\<lambda>i. task_show tasks ((current + i) mod length tasks)) [0..<Suc k]) ks)"
    if "current < length tasks"
    using task_reads [OF that] by (simp add: map_concat comp_def del: upt_Suc)
qed

theorem seq_files_pieces_witness:
  "let tasks = [(0, ''swapper''), (1, ''init''), (7, ''cat'')] in
   length (seq_reads (x_busy_seq_start 3) (x_busy_seq_next 3) [0, 1, 5] 0) = 3 \<and>
   map (task_show tasks) (seq_reads (task_start 2) (task_next tasks) [0, 1] 0) =
     [task_show tasks 2, task_show tasks 2, task_show tasks 0]"
proof -
  let ?tasks = "[(0, ''swapper''), (1, ''init''), (7, ''cat'')] :: (int \<times> string) list"
  have l: "length (seq_reads (x_busy_seq_start 3) (x_busy_seq_next 3) [0, 1, 5] 0) = 3"
    using seq_files_pieces(2) [of 3 "[0, 1, 5]"] by (simp del: seq_reads.simps)
  have "map (task_show ?tasks) (seq_reads (task_start 2) (task_next ?tasks) [0, 1] 0) =
     [task_show ?tasks 2, task_show ?tasks 2, task_show ?tasks 0]"
    using seq_files_pieces(3) [of 2 ?tasks "[0, 1]"] by (simp add: numeral_2_eq_2 del: seq_reads.simps)
  with l show ?thesis by (simp add: Let_def del: seq_reads.simps)
qed

end
