(* ===== verification/Defer.thy ===== *)
theory Defer
  imports Timers
begin

text \<open>
  \<open>src/defer\<close>: three modules with a character device that put work off, by a timer
  (\<open>defer_lab1_timer.c\<close>), a tasklet (\<open>defer_lab2_tasklet.c\<close>) and a work queue behind a shared
  interrupt (\<open>defer_lab3_workqueue.c\<close>).
\<close>

section \<open>Loading and unloading\<close>

datatype defer_res = DfIrq | DfChrdev | DfClass | DfDevice | DfData

text \<open>The kernel's answers; the class and the device are objects or error pointers.\<close>

record defer_env =
  df_irq :: bool
  df_chrdev :: int
  df_class :: "unit kptr"
  df_device :: "unit kptr"
  df_data :: bool

definition err_or_object :: "unit kptr \<Rightarrow> bool" where
  "err_or_object p \<longleftrightarrow> (case p of NULL \<Rightarrow> False | ERR_PTR e \<Rightarrow> 0 < e | Ptr _ \<Rightarrow> True)"

definition defer_env_ok :: "defer_env \<Rightarrow> bool" where
  "defer_env_ok e \<longleftrightarrow> err_or_object (df_class e) \<and> err_or_object (df_device e)"

(* src: defer/defer_lab1_timer.c:66-105 timer_init *)
definition timer_init :: "defer_env \<Rightarrow> defer_res ledger \<Rightarrow> int \<times> defer_res ledger" where
  "timer_init e k =
     (if df_chrdev e < 0 then (df_chrdev e, k)
      else
        let k = acquire DfChrdev k
        in if IS_ERR (df_class e) then (PTR_ERR (df_class e), release DfChrdev k)
        else
          let k = acquire DfClass k
          in if IS_ERR (df_device e) then (PTR_ERR (df_device e), release DfChrdev (release DfClass k))
          else
            let k = acquire DfDevice k
            in if \<not> df_data e then (- ENOMEM, release DfChrdev (release DfClass (release DfDevice k)))
            else (0, acquire DfData k))"

text \<open>Unregistering the class releases it; destroying it does so again.\<close>

definition class_twice :: "defer_res ledger \<Rightarrow> defer_res ledger" where
  "class_twice k = release DfClass (release DfClass k)"

(* src: defer/defer_lab1_timer.c:107-116 timer_exit *)
definition timer_exit :: "defer_res ledger \<Rightarrow> defer_res ledger" where
  "timer_exit k = release DfChrdev (class_twice (release DfDevice (release DfData k)))"

(* src: defer/defer_lab2_tasklet.c:76-101 tsklet_init *)
definition tsklet_init :: "defer_env \<Rightarrow> defer_res ledger \<Rightarrow> int \<times> defer_res ledger" where
  "tsklet_init e k =
     (if df_chrdev e < 0 then (df_chrdev e, k)
      else
        let k = acquire DfChrdev k
        in if IS_ERR (df_class e) then (PTR_ERR (df_class e), release DfChrdev k)
        else
          let k = acquire DfClass k
          in if IS_ERR (df_device e) then (PTR_ERR (df_device e), release DfChrdev (release DfClass k))
          else (0, acquire DfDevice k))"

(* src: defer/defer_lab2_tasklet.c:103-110 tsklet_exit *)
definition tsklet_exit :: "defer_res ledger \<Rightarrow> defer_res ledger" where
  "tsklet_exit k = release DfChrdev (class_twice (release DfDevice k))"

(* src: defer/defer_lab3_workqueue.c:84-120 wq_init *)
definition wq_init :: "defer_env \<Rightarrow> defer_res ledger \<Rightarrow> int \<times> defer_res ledger" where
  "wq_init e k =
     (if \<not> df_irq e then (-1, k)
      else
        let k = acquire DfIrq k
        in if df_chrdev e < 0 then (df_chrdev e, release DfIrq k)
        else
          let k = acquire DfChrdev k
          in if IS_ERR (df_class e) then (PTR_ERR (df_class e), release DfChrdev (release DfIrq k))
          else
            let k = acquire DfClass k
            in if IS_ERR (df_device e) then
                 (PTR_ERR (df_device e), release DfChrdev (release DfClass (release DfIrq k)))
            else (0, acquire DfDevice k))"

(* src: defer/defer_lab3_workqueue.c:122-131 wq_exit *)
definition wq_exit :: "defer_res ledger \<Rightarrow> defer_res ledger" where
  "wq_exit k = release DfChrdev (class_twice (release DfDevice (release DfIrq k)))"

lemma err_or_object_cases:
  "err_or_object p \<Longrightarrow> (IS_ERR p \<longleftrightarrow> p \<noteq> Ptr ()) \<and> (IS_ERR p \<longrightarrow> PTR_ERR p < 0)"
  by (cases p) (auto simp: err_or_object_def)

interpretation defer_timer_module: module_loader defer_env_ok timer_init "\<lambda>_. [DfData, DfDevice, DfClass, DfChrdev]"
proof (unfold_locales, goal_cases)
  case (1 e k)
  then show ?case
    by (auto simp: timer_init_def defer_env_ok_def Let_def dest!: err_or_object_cases split: if_splits)
next
  case (2 e k)
  then show ?case by (auto simp: timer_init_def Let_def split: if_splits)
qed

interpretation defer_tasklet_module: module_loader defer_env_ok tsklet_init "\<lambda>_. [DfDevice, DfClass, DfChrdev]"
proof (unfold_locales, goal_cases)
  case (1 e k)
  then show ?case
    by (auto simp: tsklet_init_def defer_env_ok_def Let_def dest!: err_or_object_cases split: if_splits)
next
  case (2 e k)
  then show ?case by (auto simp: tsklet_init_def Let_def split: if_splits)
qed

interpretation defer_work_module: module_loader defer_env_ok wq_init "\<lambda>_. [DfDevice, DfClass, DfChrdev, DfIrq]"
proof (unfold_locales, goal_cases)
  case (1 e k)
  then show ?case
    by (auto simp: wq_init_def defer_env_ok_def Let_def dest!: err_or_object_cases split: if_splits)
next
  case (2 e k)
  then show ?case by (auto simp: wq_init_def Let_def release_acquire_other split: if_splits)
qed

lemmas defer_exits = timer_exit_def tsklet_exit_def wq_exit_def class_twice_def

text \<open>Loading each of the three modules either succeeds or gives back all it had taken, at every error;
  and unloading gives everything back, but releases the class twice, each time the module is unloaded.\<close>

theorem defer_modules:
  assumes "defer_env_ok e"
  shows "(init, owned, leave) \<in> {(timer_init, [DfData, DfDevice, DfClass, DfChrdev], timer_exit),
      (tsklet_init, [DfDevice, DfClass, DfChrdev], tsklet_exit), (wq_init, [DfDevice, DfClass, DfChrdev, DfIrq], wq_exit)} \<Longrightarrow>
    (if fst (init e empty_ledger) = 0
     then held (snd (init e empty_ledger)) = owned \<and>
       held (leave (snd (init e empty_ledger))) = [] \<and> faults (leave (snd (init e empty_ledger))) = [DfClass]
     else snd (init e empty_ledger) = empty_ledger)"
proof -
  note s = defer_timer_module.load_success [OF assms, of empty_ledger]
    defer_tasklet_module.load_success [OF assms, of empty_ledger]
    defer_work_module.load_success [OF assms, of empty_ledger]
  note f = defer_timer_module.load_failure [OF assms, of empty_ledger]
    defer_tasklet_module.load_failure [OF assms, of empty_ledger]
    defer_work_module.load_failure [OF assms, of empty_ledger]
  have emp: "held empty_ledger = []" "faults empty_ledger = []" by (simp_all add: empty_ledger_def)
  assume "(init, owned, leave) \<in> {(timer_init, [DfData, DfDevice, DfClass, DfChrdev], timer_exit),
      (tsklet_init, [DfDevice, DfClass, DfChrdev], tsklet_exit), (wq_init, [DfDevice, DfClass, DfChrdev, DfIrq], wq_exit)}"
  then consider "init = timer_init" "owned = [DfData, DfDevice, DfClass, DfChrdev]" "leave = timer_exit"
    | "init = tsklet_init" "owned = [DfDevice, DfClass, DfChrdev]" "leave = tsklet_exit"
    | "init = wq_init" "owned = [DfDevice, DfClass, DfChrdev, DfIrq]" "leave = wq_exit" by auto
  then show ?thesis
  proof cases
    case 1
    with s(1) f(1) show ?thesis by (simp add: emp defer_exits release_def)
  next
    case 2
    with s(2) f(2) show ?thesis by (simp add: emp defer_exits release_def)
  next
    case 3
    with s(3) f(3) show ?thesis by (simp add: emp defer_exits release_def)
  qed
qed

definition sample_defer :: defer_env where
  "sample_defer = \<lparr>df_irq = True, df_chrdev = 240, df_class = Ptr (), df_device = Ptr (), df_data = True\<rparr>"

theorem defer_modules_witness:
  "fst (wq_init sample_defer empty_ledger) = 0 \<and>
   faults (wq_exit (snd (wq_init sample_defer empty_ledger))) = [DfClass]"
proof -
  have ok: "defer_env_ok sample_defer" by (simp add: defer_env_ok_def sample_defer_def err_or_object_def)
  have r: "fst (wq_init sample_defer empty_ledger) = 0" by (simp add: wq_init_def sample_defer_def)
  with defer_modules [OF ok, of wq_init "[DfDevice, DfClass, DfChrdev, DfIrq]" wq_exit] show ?thesis by simp
qed

text \<open>
  The timer of the first module prints once, from the data that unloading frees. Unloading deletes the
  timer without waiting for its function, which then reads freed memory.
\<close>

(* src: defer/defer_lab1_timer.c:109-110 timer_exit *)
definition defer_timer_prog :: "exit_act list" where
  "defer_timer_prog = [Del 0, Free [0]]"

lemma defer_timer_races:
  "\<exists>t. run tm_step (loaded 1 defer_timer_prog) [TmFire 0, TmExit, TmExit, TmUse 0] t \<and> dangling t"
  by (simp add: run_cons_iff tm_step_def loaded_def defer_timer_prog_def)

section \<open>The tasklet\<close>

(* src: defer/defer_lab2_tasklet.c:25-28 ldd_tasklet_data *)
record tsklet =
  tdata :: "64 word"
  t_scheduled :: bool
  t_log :: "(64 word \<times> 64 word) list"

text \<open>Scheduling a tasklet that is scheduled changes nothing. The clock is read when the work is queued and when it runs.\<close>

(* src: defer/defer_lab2_tasklet.c:60-68 tsklet_write *)
definition tsklet_write :: "64 word \<Rightarrow> size_t \<Rightarrow> tsklet \<Rightarrow> int \<times> tsklet" where
  "tsklet_write jiffies lbuf s = (sint lbuf, s\<lparr>tdata := jiffies, t_scheduled := True\<rparr>)"

(* src: defer/defer_lab2_tasklet.c:30-38 ldd_tasklet_function *)
definition ldd_tasklet_function :: "64 word \<Rightarrow> tsklet \<Rightarrow> tsklet" where
  "ldd_tasklet_function jiffies s =
     (if t_scheduled s then s\<lparr>t_scheduled := False, t_log := t_log s @ [(jiffies, tdata s)]\<rparr> else s)"

definition write_burst :: "64 word list \<times> 64 word \<Rightarrow> tsklet \<Rightarrow> tsklet" where
  "write_burst b s = ldd_tasklet_function (snd b) (fold (\<lambda>j s. snd (tsklet_write j 1 s)) (fst b) s)"

lemma burst_writes:
  "fold (\<lambda>j s. snd (tsklet_write j 1 s)) js s =
   (if js = [] then s else s\<lparr>tdata := last js, t_scheduled := True\<rparr>)"
  by (induction js arbitrary: s) (auto simp: tsklet_write_def)

text \<open>Writes that come before the tasklet runs are one to it: it prints the time of the last of them,
  once for each burst of writes, and nothing if there was none.\<close>

theorem tsklet_prints_last:
  assumes "t_scheduled s = False"
  shows "t_log (fold write_burst bs s) = t_log s @ map (\<lambda>(js, j). (j, last js)) (filter (\<lambda>(js, j). js \<noteq> []) bs) \<and>
    \<not> t_scheduled (fold write_burst bs s)"
  using assms
proof (induction bs arbitrary: s)
  case Nil
  then show ?case by simp
next
  case (Cons b bs)
  have "\<not> t_scheduled (write_burst b s)"
    and "t_log (write_burst b s) = t_log s @ (if fst b = [] then [] else [(snd b, last (fst b))])"
    using Cons.prems by (simp_all add: write_burst_def burst_writes ldd_tasklet_function_def)
  with Cons.IH [of "write_burst b s"] show ?case by (auto simp: split_beta)
qed

theorem tsklet_prints_last_witness:
  "t_log (fold write_burst [([5, 6], 7), ([], 8), ([9], 10)] \<lparr>tdata = 0, t_scheduled = False, t_log = []\<rparr>) =
     [(7, 6), (10, 9)]"
  by (subst tsklet_prints_last [THEN conjunct1]) simp_all

section \<open>The work queue\<close>

(* src: defer/defer_lab3_workqueue.c:19-21 irq, irq_counter *)
record wq_state =
  wq_irq :: int
  irq_counter :: c_int
  work_pending :: bool
  work_runs :: nat
  irqs :: nat

text \<open>The handler says that the interrupt was not its own. Scheduling work that is pending changes nothing.\<close>

datatype irqreturn = IRQ_NONE | IRQ_HANDLED

(* src: defer/defer_lab3_workqueue.c:38-44 wq_interrupt *)
definition wq_interrupt :: "wq_state \<Rightarrow> irqreturn \<times> wq_state" where
  "wq_interrupt s = (IRQ_NONE, s\<lparr>irq_counter := irq_counter s + 1, work_pending := True, irqs := irqs s + 1\<rparr>)"

(* src: defer/defer_lab3_workqueue.c:34-37 ldd_workqueue_function *)
definition ldd_workqueue_function :: "wq_state \<Rightarrow> wq_state" where
  "ldd_workqueue_function s =
     (if work_pending s then s\<lparr>work_pending := False, work_runs := work_runs s + 1\<rparr> else s)"

text \<open>
  A read raises the interrupt of line 11, whatever line the module was told to use: the handler runs if it is
  that line's.
\<close>

(* src: defer/defer_lab3_workqueue.c:58-68 wq_read *)
definition wq_read :: "bool \<Rightarrow> wq_state \<Rightarrow> int \<times> wq_state" where
  "wq_read desc s =
     (if \<not> desc then (- EINVAL, s)
      else (0, if wq_irq s = 11 then snd (wq_interrupt s) else s))"

(* src: defer/defer_lab3_workqueue.c:70-75 wq_write *)
definition wq_write :: "wq_state \<Rightarrow> int \<times> wq_state" where
  "wq_write s = (0, s)"

datatype wq_event = WqRead bool | WqWrite | WqIrq | WqRun

fun wq_do :: "wq_event \<Rightarrow> wq_state \<Rightarrow> wq_state" where
  "wq_do (WqRead desc) s = snd (wq_read desc s)"
| "wq_do WqWrite s = snd (wq_write s)"
| "wq_do WqIrq s = snd (wq_interrupt s)"
| "wq_do WqRun s = ldd_workqueue_function s"

definition wq_step :: "wq_state \<Rightarrow> wq_event \<Rightarrow> wq_state \<Rightarrow> bool" where
  "wq_step s ev t \<longleftrightarrow> t = wq_do ev s"

definition wq_inv :: "wq_state \<Rightarrow> bool" where
  "wq_inv s \<longleftrightarrow> irq_counter s = of_nat (irqs s) \<and> work_runs s + (if work_pending s then 1 else 0) \<le> irqs s \<and>
     (0 < irqs s \<longrightarrow> work_pending s \<or> 0 < work_runs s)"

lemma wq_inv_step: "wq_step s ev t \<Longrightarrow> wq_inv s \<Longrightarrow> wq_inv t"
  by (cases ev) (auto simp: wq_step_def wq_inv_def wq_read_def wq_write_def wq_interrupt_def
      ldd_workqueue_function_def split: if_splits)

definition wq_loaded :: "int \<Rightarrow> wq_state" where
  "wq_loaded i = \<lparr>wq_irq = i, irq_counter = 0, work_pending = False, work_runs = 0, irqs = 0\<rparr>"

lemma wq_loaded_inv: "wq_inv (wq_loaded i)"
  by (simp add: wq_inv_def wq_loaded_def)

interpretation work_queue: invariant_system "\<lambda>s. \<exists>i. s = wq_loaded i" wq_step wq_inv
  by unfold_locales (auto intro: wq_loaded_inv wq_inv_step)

text \<open>The counter counts every interrupt (modulo \<open>2\<^sup>3\<^sup>2\<close>); the work runs at most once for each, at least once after
  any, and may still be pending when the module is unloaded, which does not wait for it.\<close>

theorem work_follows_interrupts:
  "run wq_step (wq_loaded i) evs s \<Longrightarrow>
     irq_counter s = of_nat (irqs s) \<and> work_runs s \<le> irqs s \<and>
     (0 < irqs s \<longrightarrow> 0 < work_runs (ldd_workqueue_function s)) \<and>
     (work_pending s \<longrightarrow> work_runs s < irqs s)"
proof -
  assume "run wq_step (wq_loaded i) evs s"
  then have "wq_inv s" using work_queue.inv_reachable by blast
  then show ?thesis by (auto simp: wq_inv_def ldd_workqueue_function_def split: if_splits)
qed

theorem work_follows_interrupts_witness:
  "\<exists>s. run wq_step (wq_loaded 11) [WqRead True, WqIrq, WqRun, WqIrq] s \<and> irq_counter s = 3 \<and> work_runs s = 1 \<and> work_pending s"
proof -
  obtain s where r: "run wq_step (wq_loaded 11) [WqRead True, WqIrq, WqRun, WqIrq] s" and
    s: "irqs s = 3" "work_runs s = 1" "work_pending s"
    by (simp add: run_cons_iff wq_step_def wq_loaded_def wq_read_def wq_interrupt_def ldd_workqueue_function_def)
  from work_follows_interrupts [OF r] r s show ?thesis by auto
qed

end
