(* ===== verification/Mmap.thy ===== *)
theory Mmap
  imports Char_Driver
begin

text \<open>
  \<open>src/io/lab3_mmap.c\<close>: the memory-backed character driver with an \<open>mmap\<close> entry point, so that a
  program sees the driver's buffer in its own address space, beside the \<open>read\<close> and \<open>write\<close> of
  the same buffer.
\<close>

section \<open>The handlers\<close>

text \<open>Open, release, read, write, seek, loading and unloading are those of the character driver, word for word.\<close>

(* src: io/lab3_mmap.c:93-105 chardrv_open *)
definition mmap_open :: "'a chardrv_scheme \<Rightarrow> int \<times> 'a chardrv_scheme" where
  "mmap_open = chardrv_open"

(* src: io/lab3_mmap.c:107-111 chardrv_release *)
definition mmap_release :: "'a chardrv_scheme \<Rightarrow> int \<times> 'a chardrv_scheme" where
  "mmap_release = chardrv_release"

(* src: io/lab3_mmap.c:113-124 chardrv_read *)
definition mmap_read ::
    "size_t \<Rightarrow> loff_t \<Rightarrow> size_t \<Rightarrow> 'a chardrv_scheme \<Rightarrow> (int \<times> byte list \<times> loff_t) kresult" where
  "mmap_read = chardrv_read"

(* src: io/lab3_mmap.c:126-138 chardrv_write *)
definition mmap_write ::
    "byte list \<Rightarrow> size_t \<Rightarrow> loff_t \<Rightarrow> size_t \<Rightarrow> 'a chardrv_scheme \<Rightarrow> (int \<times> 'a chardrv_scheme \<times> loff_t) kresult" where
  "mmap_write = chardrv_write"

(* src: io/lab3_mmap.c:140-161 chardrv_lseek *)
definition mmap_lseek :: "loff_t \<Rightarrow> c_int \<Rightarrow> loff_t \<Rightarrow> int \<times> loff_t" where
  "mmap_lseek = chardrv_lseek"

(* src: io/lab3_mmap.c:173-209 chardrv_init *)
definition mmap_init :: "chardev_env \<Rightarrow> chardev_res ledger \<Rightarrow> int \<times> chardev_res ledger \<times> chardrv" where
  "mmap_init = chardrv_init"

(* src: io/lab3_mmap.c:211-219 chardrv_exit *)
definition mmap_exit :: "chardev_res ledger \<Rightarrow> chardev_res ledger" where
  "mmap_exit = chardrv_exit"

lemmas mmap_as_char =
  mmap_open_def mmap_release_def mmap_read_def mmap_write_def mmap_lseek_def mmap_init_def mmap_exit_def

text \<open>The ioctl tells the size of the buffer, an \<open>unsigned long\<close>; a user copy that leaves a byte fails.\<close>

(* src: io/lab3_mmap.c:76-91 chardrv_unlocked_ioctl *)
definition mmap_ioctl :: "c_uint \<Rightarrow> size_t \<Rightarrow> int \<times> byte list" where
  "mmap_ioctl cmd uleft =
     (let tbs = le_bytes 8 membuff_size
      in if cmd = 1 then (if uleft \<noteq> 0 then (- EFAULT, copied_out 8 uleft tbs) else (0, tbs))
         else (- EINVAL, []))"

section \<open>Mappings\<close>

text \<open>
  The area of a program's address space that is to be mapped; \<open>vm_pgoff\<close> is the page of the file that its
  first page shows. A mapping that is in place is a stretch of addresses and the frame of physical memory that
  its first page is.
\<close>

record vma =
  vm_start :: "64 word"
  vm_end :: "64 word"
  vm_pgoff :: "64 word"

record mapping =
  at_start :: "64 word"
  at_end :: "64 word"
  at_pfn :: "64 word"

text \<open>
  The kernel's call either enters \<open>len\<close> bytes from the frame \<open>pfn\<close> on at the address \<open>start\<close>, in front of the
  mappings there are, or fails. The memory unit then finds the physical address behind a program's address.
\<close>

definition remap_pfn_range ::
    "bool \<Rightarrow> 64 word \<Rightarrow> 64 word \<Rightarrow> 64 word \<Rightarrow> mapping list \<Rightarrow> int \<times> mapping list" where
  "remap_pfn_range remap_ok start pfn len ms =
     (if remap_ok then (0, \<lparr>at_start = start, at_end = start + len, at_pfn = pfn\<rparr> # ms) else (- ENOMEM, ms))"

definition in_mapping :: "64 word \<Rightarrow> mapping \<Rightarrow> bool" where
  "in_mapping a m \<longleftrightarrow> at_start m \<le> a \<and> a < at_end m"

definition phys_of :: "64 word \<Rightarrow> mapping list \<Rightarrow> 64 word option" where
  "phys_of a ms = (case find (in_mapping a) ms of
     None \<Rightarrow> None | Some m \<Rightarrow> Some (push_bit 12 (at_pfn m) + (a - at_start m)))"

text \<open>
  A piece of memory that lies from the physical address \<open>base\<close> on, as \<open>virt_to_phys\<close> tells it, holds at a physical
  address the byte that is so far behind \<open>base\<close>; beyond its end the memory is not the driver's.
\<close>

definition phys_load :: "64 word \<Rightarrow> byte list kptr \<Rightarrow> 64 word \<Rightarrow> byte kresult" where
  "phys_load base buf pa =
     (case buf of Ptr m \<Rightarrow> if unat (pa - base) < length m then Inr (m ! unat (pa - base)) else Inl OutOfBounds
      | _ \<Rightarrow> Inl BadPointer)"

definition phys_store :: "64 word \<Rightarrow> byte list kptr \<Rightarrow> 64 word \<Rightarrow> byte \<Rightarrow> byte list kptr kresult" where
  "phys_store base buf pa b =
     (case buf of Ptr m \<Rightarrow> if unat (pa - base) < length m then Inr (Ptr (m[unat (pa - base) := b])) else Inl OutOfBounds
      | _ \<Rightarrow> Inl BadPointer)"

definition vma_offset :: "vma \<Rightarrow> 64 word" where
  "vma_offset v = push_bit 12 (vm_pgoff v)"

definition vma_len :: "vma \<Rightarrow> 64 word" where
  "vma_len v = vm_end v - vm_start v"

definition in_vma :: "64 word \<Rightarrow> vma \<Rightarrow> bool" where
  "in_vma a v \<longleftrightarrow> vm_start v \<le> a \<and> a < vm_end v"

text \<open>The driver's state gains the physical address of its buffer and the mappings, the newest first.\<close>

record mmap_dev = chardrv +
  buff_phys :: "64 word"
  mappings :: "mapping list"

text \<open>The comparisons are unsigned, and the shift may drop the page number's upper bits.\<close>

(* src: io/lab3_mmap.c:51-74 chrdrv_mmap *)
definition chrdrv_mmap :: "bool \<Rightarrow> vma \<Rightarrow> mmap_dev \<Rightarrow> int \<times> mmap_dev" where
  "chrdrv_mmap remap_ok vma d =
     (let offset = vma_offset vma; len = vma_len vma
      in if membuff_size \<le> offset then (- EINVAL, d)
         else if membuff_size - offset < len then (- EINVAL, d)
         else let pfn = drop_bit 12 (buff_phys d + offset);
                  (rc, ms) = remap_pfn_range remap_ok (vm_start vma) pfn len (mappings d)
              in if rc \<noteq> 0 then (- EAGAIN, d) else (0, d\<lparr>mappings := ms\<rparr>))"

text \<open>A program's load and store at an address; outside every mapping they are not the driver's.\<close>

definition user_load :: "64 word \<Rightarrow> mmap_dev \<Rightarrow> byte kresult option" where
  "user_load a d = map_option (phys_load (buff_phys d) (membuff d)) (phys_of a (mappings d))"

definition user_store :: "64 word \<Rightarrow> byte \<Rightarrow> mmap_dev \<Rightarrow> mmap_dev kresult option" where
  "user_store a b d =
     map_option (\<lambda>pa. case phys_store (buff_phys d) (membuff d) pa b of
       Inl f \<Rightarrow> Inl f | Inr m \<Rightarrow> Inr (d\<lparr>membuff := m\<rparr>)) (phys_of a (mappings d))"

section \<open>Frames and positions\<close>

text \<open>A mapping shows a part of the memory of \<open>len\<close> bytes at \<open>base\<close>.\<close>

definition mapping_inside :: "64 word \<Rightarrow> nat \<Rightarrow> mapping \<Rightarrow> bool" where
  "mapping_inside base len m \<longleftrightarrow>
     unat (push_bit 12 (at_pfn m) - base) + unat (at_end m - at_start m) \<le> len"

text \<open>The memory starts at a page, as the allocator promises of a power of two of pages.\<close>

definition page_start :: "64 word \<Rightarrow> bool" where
  "page_start x \<longleftrightarrow> take_bit 12 x = 0"

definition vma_index :: "64 word \<Rightarrow> vma \<Rightarrow> nat" where
  "vma_index a v = unat (vma_offset v) + unat (a - vm_start v)"

definition mapping_of :: "64 word \<Rightarrow> vma \<Rightarrow> mapping" where
  "mapping_of base v =
     \<lparr>at_start = vm_start v, at_end = vm_start v + vma_len v, at_pfn = drop_bit 12 (base + vma_offset v)\<rparr>"

lemma window_checks:
  fixes sz off len :: "64 word"
  shows "\<not> sz \<le> off \<and> \<not> sz - off < len \<longleftrightarrow> unat off < unat sz \<and> unat off + unat len \<le> unat sz"
proof -
  have "unat (sz - off) = unat sz - unat off" if "unat off < unat sz"
    using that by (intro unat_sub) (simp add: word_le_nat_alt)
  then show ?thesis by (auto simp: word_le_nat_alt word_less_nat_alt)
qed

lemma offset_in_area:
  assumes "in_vma a v"
  shows "unat (a - vm_start v) < unat (vma_len v)"
proof -
  have "vm_start v \<le> a" and "a < vm_end v" using assms by (simp_all add: in_vma_def)
  then have "a - vm_start v < vma_len v" unfolding vma_len_def by (simp add: word_less_minus_mono_left)
  then show ?thesis by (simp add: word_less_nat_alt)
qed

lemma page_start_dvd: "page_start x \<longleftrightarrow> 4096 dvd unat x"
proof -
  have "unat (take_bit 12 x) = unat x mod 4096" by (simp add: take_bit_eq_mod unat_mod)
  moreover have "take_bit 12 x = 0 \<longleftrightarrow> unat (take_bit 12 x) = 0" by (rule unat_eq_zero [symmetric])
  ultimately show ?thesis by (simp add: page_start_def dvd_eq_mod_eq_0)
qed

lemma page_start_offset: "page_start (vma_offset v)"
  by (simp add: page_start_def vma_offset_def take_bit_push_bit)

lemma page_start_add: "page_start x \<Longrightarrow> page_start y \<Longrightarrow> page_start (x + y)"
  by (simp add: page_start_dvd unat_word_ariths(1) dvd_mod_iff)

lemma pfn_back:
  assumes "page_start base"
  shows "push_bit 12 (drop_bit 12 (base + vma_offset v)) = base + vma_offset v"
proof -
  have "take_bit 12 (base + vma_offset v) = 0"
    using page_start_add [OF assms page_start_offset] by (simp add: page_start_def)
  then show ?thesis using bits_ident [of 12 "base + vma_offset v"] by simp
qed

lemma mapping_of_inside:
  assumes "page_start base"
  shows "mapping_inside base len (mapping_of base v) \<longleftrightarrow> unat (vma_offset v) + unat (vma_len v) \<le> len"
  using pfn_back [OF assms, of v] by (simp add: mapping_inside_def mapping_of_def)

lemma mapping_of_covers: "in_mapping a (mapping_of base v) \<longleftrightarrow> in_vma a v"
  by (simp add: in_mapping_def mapping_of_def in_vma_def vma_len_def)

text \<open>In the area the mapping shows the byte at the area's offset and that of the address in it.\<close>

lemma mapping_of_index:
  assumes "page_start base" and "in_vma a v" and "unat (vma_offset v) + unat (vma_len v) \<le> len" and "len < 2 ^ 64"
  shows "unat (push_bit 12 (at_pfn (mapping_of base v)) + (a - at_start (mapping_of base v)) - base) = vma_index a v"
    and "vma_index a v < len"
proof -
  have lt: "unat (a - vm_start v) < unat (vma_len v)" by (rule offset_in_area [OF assms(2)])
  then show "vma_index a v < len" using assms(3) by (simp add: vma_index_def)
  have e: "push_bit 12 (at_pfn (mapping_of base v)) + (a - at_start (mapping_of base v)) - base =
      vma_offset v + (a - vm_start v)"
    using pfn_back [OF assms(1), of v] by (simp add: mapping_of_def)
  have "unat (vma_offset v + (a - vm_start v)) = vma_index a v"
    using lt assms(3,4) unfolding vma_index_def by (intro unat_add_lem [THEN iffD1]) simp
  then show "unat (push_bit 12 (at_pfn (mapping_of base v)) + (a - at_start (mapping_of base v)) - base) = vma_index a v"
    by (simp only: e)
qed

text \<open>No address of a mapping that lies inside leads outside.\<close>

lemma phys_of_inside:
  assumes "\<forall>m \<in> set ms. mapping_inside base len m" and "phys_of a ms = Some pa"
  shows "unat (pa - base) < len"
proof -
  from assms(2) obtain m where f: "find (in_mapping a) ms = Some m"
    and pa: "pa = push_bit 12 (at_pfn m) + (a - at_start m)"
    by (auto simp: phys_of_def split: option.splits)
  then have m: "mapping_inside base len m" "at_start m \<le> a" "a < at_end m"
    using assms(1) by (auto simp: find_Some_iff in_mapping_def)
  then have "unat (a - at_start m) < unat (at_end m - at_start m)"
    by (simp add: word_less_minus_mono_left word_less_nat_alt [symmetric])
  moreover have "unat (pa - base) \<le> unat (push_bit 12 (at_pfn m) - base) + unat (a - at_start m)"
  proof -
    have "pa - base = (push_bit 12 (at_pfn m) - base) + (a - at_start m)" by (simp add: pa)
    then show ?thesis by (simp only: unat_word_ariths(1)) (rule mod_less_eq_dividend)
  qed
  ultimately show ?thesis using m(1) by (simp add: mapping_inside_def)
qed

lemma phys_of_newest:
  "in_vma a v \<Longrightarrow> phys_of a (mapping_of base v # ms) =
     Some (push_bit 12 (at_pfn (mapping_of base v)) + (a - at_start (mapping_of base v)))"
  by (simp add: phys_of_def mapping_of_covers)

section \<open>Mapped areas lie in the buffer\<close>

definition vma_ok :: "vma \<Rightarrow> bool" where
  "vma_ok v \<longleftrightarrow> unat (vma_offset v) + unat (vma_len v) \<le> unat membuff_size"

definition mmap_ok :: "mmap_dev \<Rightarrow> bool" where
  "mmap_ok d \<longleftrightarrow> device_ok d \<and> page_start (buff_phys d) \<and>
     (\<forall>m \<in> set (mappings d). mapping_inside (buff_phys d) (unat membuff_size) m)"

text \<open>A mapping succeeds exactly when its offset lies in the buffer and its length fits behind it, and changes
  nothing otherwise.\<close>

theorem mmap_accepts:
  "chrdrv_mmap True v d =
     (if unat (vma_offset v) < 131072 \<and> unat (vma_offset v) + unat (vma_len v) \<le> 131072
      then (0, d\<lparr>mappings := mapping_of (buff_phys d) v # mappings d\<rparr>) else (- EINVAL, d))"
  using window_checks [of membuff_size "vma_offset v" "vma_len v"]
  by (auto simp: chrdrv_mmap_def Let_def remap_pfn_range_def mapping_of_def)

lemma mmap_refused: "chrdrv_mmap False v d = (- EINVAL, d) \<or> chrdrv_mmap False v d = (- EAGAIN, d)"
  by (simp add: chrdrv_mmap_def Let_def remap_pfn_range_def)

lemma mmap_keeps:
  assumes "mmap_ok d" and "chrdrv_mmap remap_ok v d = (r, d')"
  shows "mmap_ok d'"
proof (cases remap_ok)
  case True
  with assms mapping_of_inside [of "buff_phys d" 131072 v] show ?thesis
    by (auto simp: mmap_accepts mmap_ok_def device_ok_def has_buffer_def split: if_splits)
next
  case False
  with assms mmap_refused [of v d] show ?thesis by auto
qed

datatype mm_call = MmMap bool vma | MmLoad "64 word" | MmStore "64 word" byte
  | MmRead size_t loff_t size_t | MmWrite "byte list" loff_t size_t | MmUnmap nat

text \<open>One call, with what it commits; an access outside every mapping does nothing to the driver.\<close>

fun mm_do :: "mm_call \<Rightarrow> mmap_dev \<Rightarrow> mmap_dev kresult" where
  "mm_do (MmMap ok v) d = Inr (snd (chrdrv_mmap ok v d))"
| "mm_do (MmLoad a) d = (case user_load a d of Some (Inl f) \<Rightarrow> Inl f | _ \<Rightarrow> Inr d)"
| "mm_do (MmStore a b) d = (case user_store a b d of None \<Rightarrow> Inr d | Some r \<Rightarrow> r)"
| "mm_do (MmRead n p l) d = (case mmap_read n p l d of Inl f \<Rightarrow> Inl f | Inr _ \<Rightarrow> Inr d)"
| "mm_do (MmWrite bs p l) d =
     (case mmap_write bs (of_nat (length bs)) p l d of Inl f \<Rightarrow> Inl f | Inr (r, d, q) \<Rightarrow> Inr d)"
| "mm_do (MmUnmap i) d = Inr (d\<lparr>mappings := take i (mappings d) @ drop (Suc i) (mappings d)\<rparr>)"

fun mm_calls :: "mm_call list \<Rightarrow> mmap_dev \<Rightarrow> mmap_dev kresult" where
  "mm_calls [] d = Inr d"
| "mm_calls (c # cs) d = (case mm_do c d of Inl f \<Rightarrow> Inl f | Inr d \<Rightarrow> mm_calls cs d)"

fun mm_call_ok :: "mm_call \<Rightarrow> bool" where
  "mm_call_ok (MmRead n p l) = (vfs_rw_ok n p \<and> user_copy_ok n l)"
| "mm_call_ok (MmWrite bs p l) =
     (length bs \<le> MAX_RW_COUNT \<and> 0 \<le> sint p \<and> user_copy_ok (of_nat (length bs)) l)"
| "mm_call_ok _ = True"

lemma mm_do_ok:
  assumes "mm_call_ok c" and "mmap_ok d"
  shows "\<exists>d'. mm_do c d = Inr d' \<and> mmap_ok d'"
proof -
  from assms(2) obtain m where m: "has_buffer d m" by (auto simp: mmap_ok_def device_ok_def)
  have inside: "unat (pa - buff_phys d) < length m" if "phys_of a (mappings d) = Some pa" for a pa
    using phys_of_inside [OF _ that, of "buff_phys d" "unat membuff_size"] assms(2) m
    by (simp add: mmap_ok_def has_buffer_def)
  show ?thesis
  proof (cases c)
    case (MmMap ok v)
    then show ?thesis using mmap_keeps [OF assms(2), of ok v] by (cases "chrdrv_mmap ok v d") simp
  next
    case (MmLoad a)
    then show ?thesis using inside m assms(2)
      by (auto simp: user_load_def phys_load_def has_buffer_def split: option.splits)
  next
    case (MmStore a b)
    show ?thesis
    proof (cases "phys_of a (mappings d)")
      case None
      then show ?thesis using MmStore assms(2) by (simp add: user_store_def)
    next
      case (Some pa)
      with MmStore inside [OF Some] m assms(2) show ?thesis
        by (auto simp: user_store_def phys_store_def mmap_ok_def device_ok_def has_buffer_def)
    qed
  next
    case (MmRead n p l)
    then show ?thesis
      using assms m chardrv_read_within [OF m, of n p l] chardrv_read_beyond [of n p l d]
      by (cases "unat n + unat p \<le> unat membuff_size") (auto simp: mmap_read_def)
  next
    case (MmWrite bs p l)
    let ?n = "of_nat (length bs) :: size_t"
    have u: "unat ?n = length bs" using assms(1) MmWrite by simp
    have v: "vfs_rw_ok ?n p" using assms(1) MmWrite u by (simp add: vfs_rw_ok_def)
    have l: "user_copy_ok ?n l" using assms(1) MmWrite by simp
    show ?thesis
    proof (cases "unat ?n + unat p \<le> unat membuff_size")
      case True
      have "length (copied_in ?n l bs) = length bs" using l u by simp
      with True u have "has_buffer (d\<lparr>membuff := Ptr (put_range (unat p) (copied_in ?n l bs) m)\<rparr>)
          (put_range (unat p) (copied_in ?n l bs) m)"
        using has_buffer_put [OF m, of "unat p" "copied_in ?n l bs"] by simp
      with True assms(2) MmWrite chardrv_write_within [OF m v l] show ?thesis
        by (auto simp: mmap_write_def mmap_ok_def device_ok_def)
    next
      case False
      with assms(2) MmWrite chardrv_write_beyond [OF v, of bs l d] show ?thesis
        by (auto simp: mmap_write_def)
    qed
  next
    case (MmUnmap i)
    then show ?thesis
      using assms(2) by (auto simp: mmap_ok_def device_ok_def has_buffer_def dest: in_set_takeD in_set_dropD)
  qed
qed

lemma mmap_stays_inside_calls:
  assumes "mmap_ok d" and "list_all mm_call_ok cs"
  shows "\<exists>d'. mm_calls cs d = Inr d' \<and> mmap_ok d'"
  using assms
proof (induction cs arbitrary: d)
  case (Cons c cs)
  then obtain d' where "mm_do c d = Inr d'" and "mmap_ok d'" using mm_do_ok [of c d] by auto
  with Cons show ?case by simp
qed simp

text \<open>C25: Programs that map the buffer cannot leave it: from a device whose buffer
  starts at a page and whose mappings lie in it, every
  sequence of mappings (of any addresses and page numbers, overflowing ones too), unmappings, loads and stores
  through them, reads and writes runs without a fault and leaves such a device.\<close>

theorem mmap_stays_inside:
  assumes "mmap_ok d" and "list_all mm_call_ok cs"
  shows "\<exists>d'. mm_calls cs d = Inr d' \<and> mmap_ok d'"
  by (rule mmap_stays_inside_calls [OF assms])

text \<open>The buffer lies at 16 MiB.\<close>

definition sample_mmap :: mmap_dev where
  "sample_mmap = \<lparr>membuff = Ptr (replicate 131072 7), counter = 0, buff_phys = 0x1000000, mappings = []\<rparr>"

definition sample_vma :: vma where
  "sample_vma = \<lparr>vm_start = 0x7000, vm_end = 0x9000, vm_pgoff = 30\<rparr>"

lemma sample_mmap_ok: "mmap_ok sample_mmap"
  by (simp add: mmap_ok_def sample_mmap_def device_ok_def has_buffer_def page_start_def take_bit_eq_mask mask_eq_exp_minus_1)

lemma sample_vma_maps:
  "chrdrv_mmap True sample_vma sample_mmap =
     (0, sample_mmap\<lparr>mappings := [\<lparr>at_start = 0x7000, at_end = 0x9000, at_pfn = 0x101E\<rparr>]\<rparr>)"
proof -
  have "vma_offset sample_vma = 122880" and "vma_len sample_vma = 8192"
    by (simp_all add: vma_offset_def vma_len_def sample_vma_def)
  with mmap_accepts [of sample_vma sample_mmap] show ?thesis
    by (simp add: mapping_of_def) (simp add: sample_mmap_def sample_vma_def)
qed

theorem mmap_stays_inside_witness:
  "\<exists>d. mm_calls [MmMap True sample_vma, MmStore 0x8FFF 5, MmRead 1 131071 0] sample_mmap = Inr d \<and> mmap_ok d"
  by (rule mmap_stays_inside [OF sample_mmap_ok]) (simp add: vfs_rw_ok_def user_copy_ok_def)

section \<open>One memory, two views\<close>

text \<open>Calls that leave the mappings as they are.\<close>

fun moves_bytes :: "mm_call \<Rightarrow> bool" where
  "moves_bytes (MmMap ok v) = False"
| "moves_bytes (MmUnmap i) = False"
| "moves_bytes _ = True"

lemma mm_do_mappings:
  "moves_bytes c \<Longrightarrow> mm_do c d = Inr d' \<Longrightarrow> mappings d' = mappings d \<and> buff_phys d' = buff_phys d"
  by (cases c) (auto simp: user_store_def mmap_write_def chardrv_write_def Let_def
      split: option.splits sum.splits if_splits)

lemma mm_calls_mappings:
  "list_all moves_bytes cs \<Longrightarrow> mm_calls cs d = Inr d' \<Longrightarrow> mappings d' = mappings d \<and> buff_phys d' = buff_phys d"
  by (induction cs arbitrary: d) (auto dest: mm_do_mappings split: sum.splits)

text \<open>C19: The mapping and the file are two views of one memory. After an accepted request for the area \<open>v\<close> and any
  loads, stores, reads and writes, an address of the area shows the byte that a read gives at the position
  \<open>vm_pgoff << PAGE_SHIFT\<close> plus the distance of the address from the area's start; a store through the address is
  what the next read there gives; and bytes that a write puts are what loads at their addresses give afterwards.\<close>

theorem mmap_shares_buffer:
  assumes "mmap_ok d" and "chrdrv_mmap True v d = (0, d0)" and "in_vma a v"
    and "list_all mm_call_ok cs" and "list_all moves_bytes cs" and "mm_calls cs d0 = Inr d1"
    and "i = unat (push_bit 12 (vm_pgoff v)) + unat (a - vm_start v)"
  shows "(\<exists>b. user_load a d1 = Some (Inr b) \<and> vfs_pread mmap_read d1 i 1 = Some [b])
    \<and> (\<exists>d2. user_store a b d1 = Some (Inr d2) \<and> vfs_pread mmap_read d2 i 1 = Some [b])
    \<and> (vfs_pwrite mmap_write d1 p bs = Some d2 \<and> p \<le> i \<and> i < p + length bs \<longrightarrow>
      user_load a d2 = Some (Inr (bs ! (i - p))))"
proof (intro conjI impI)
  have d0: "d0 = d\<lparr>mappings := mapping_of (buff_phys d) v # mappings d\<rparr>"
    and fits: "unat (vma_offset v) + unat (vma_len v) \<le> 131072"
    using assms(2) by (auto simp: mmap_accepts split: if_splits)
  have ok1: "mmap_ok d1"
    using mmap_stays_inside_calls [OF mmap_keeps [OF assms(1,2)] assms(4)] assms(6) by simp
  then obtain m where m: "has_buffer d1 m" by (auto simp: mmap_ok_def device_ok_def)
  have len: "length m = 131072" using m by (simp add: has_buffer_def)
  have same: "mappings d1 = mapping_of (buff_phys d) v # mappings d" "buff_phys d1 = buff_phys d"
    using mm_calls_mappings [OF assms(5,6)] d0 by simp_all
  have page: "page_start (buff_phys d)" using assms(1) by (simp add: mmap_ok_def)
  have i: "i = vma_index a v" using assms(7) by (simp add: vma_index_def vma_offset_def)
  note at = mapping_of_index [OF page assms(3) fits, folded i]
  obtain pa where pa: "phys_of a (mappings d1) = Some pa" and pi: "unat (pa - buff_phys d1) = i" and lt: "i < 131072"
    using phys_of_newest [OF assms(3)] at same by simp
  have one: "get_range i 1 m' = [m' ! i]" if "length m' = 131072" for m' :: "byte list"
    using that lt by (simp add: get_range_def take_Suc_conv_app_nth Cons_nth_drop_Suc [symmetric])
  show "\<exists>b. user_load a d1 = Some (Inr b) \<and> vfs_pread mmap_read d1 i 1 = Some [b]"
    using pa pi m len lt one [OF len]
    by (simp add: user_load_def phys_load_def mmap_read_def chardrv_pread [OF m] has_buffer_def)
  let ?d = "d1\<lparr>membuff := Ptr (m[i := b])\<rparr>"
  have hb: "has_buffer ?d (m[i := b])" using len by (simp add: has_buffer_def)
  have "vfs_pread mmap_read ?d i 1 = Some [b]"
    using len lt one [of "m[i := b]"] by (simp add: mmap_read_def chardrv_pread [OF hb])
  moreover have "user_store a b d1 = Some (Inr ?d)"
    using pa pi m len lt by (simp add: user_store_def phys_store_def has_buffer_def)
  ultimately show "\<exists>d2. user_store a b d1 = Some (Inr d2) \<and> vfs_pread mmap_read d2 i 1 = Some [b]" by blast
  assume "vfs_pwrite mmap_write d1 p bs = Some d2 \<and> p \<le> i \<and> i < p + length bs"
  then have w: "vfs_pwrite mmap_write d1 p bs = Some d2" and p: "p \<le> i" "i < p + length bs" by auto
  from w chardrv_pwrite [OF m, of p bs] p have d2: "d2 = d1\<lparr>membuff := Ptr (put_range p bs m)\<rparr>"
    and room: "p + length bs \<le> 131072"
    by (auto simp: mmap_write_def split: if_splits)
  have "put_range p bs m ! i = bs ! (i - p)" using nth_put_range [of p bs m i] room len p lt by simp
  then show "user_load a d2 = Some (Inr (bs ! (i - p)))"
    using pa pi room len lt unfolding user_load_def phys_load_def d2 by simp
qed

theorem mmap_shares_buffer_witness:
  "\<exists>d2. user_store 0x8FFF 5 (snd (chrdrv_mmap True sample_vma sample_mmap)) = Some (Inr d2) \<and>
     vfs_pread mmap_read d2 131071 1 = Some [5]"
proof -
  have m: "chrdrv_mmap True sample_vma sample_mmap = (0, snd (chrdrv_mmap True sample_vma sample_mmap))"
    by (simp add: sample_vma_maps)
  have "in_vma 0x8FFF sample_vma" by (simp add: in_vma_def sample_vma_def)
  moreover have "131071 = unat (push_bit 12 (vm_pgoff sample_vma)) + unat (0x8FFF - vm_start sample_vma)"
    by (simp add: sample_vma_def)
  ultimately show ?thesis
    using mmap_shares_buffer [OF sample_mmap_ok m, of "0x8FFF" "[]" _ 131071 5] by simp
qed

text \<open>The ioctl's eight bytes are the size of the buffer.\<close>

lemma mmap_ioctl_size:
  "mmap_ioctl 1 0 = (0, le_bytes 8 (131072 :: 64 word))" "cmd \<noteq> 1 \<Longrightarrow> mmap_ioctl cmd l = (- EINVAL, [])"
  by (simp_all add: mmap_ioctl_def membuff_size_def)

end
