(* ===== verification/User_Pages.thy ===== *)
theory User_Pages
  imports Lab_Char
begin

text \<open>
  \<open>src/io/lab2_usermap.c\<close> (and \<open>lab2_usermap_fast.c\<close>, which pins the pages by another kernel function): reads and
  writes of the generic driver's RAM disk that pin the user's pages and copy page by page, with no user copy.
\<close>

section \<open>Copying through pinned pages\<close>

text \<open>
  \<open>um\<close> is the memory of the process, \<open>got\<close> how many pages the kernel pinned from the page of
  the buffer's address on. The entries behind them were never set. One round of the loop moves a page, the
  last round what is left; \<open>rw\<close> is 0 for a read and 1 for a write.
\<close>

(* src: io/lab2_usermap.c:59-89 mycdrv_rw (loop body) *)
definition usermap_page ::
    "nat \<Rightarrow> nat \<Rightarrow> nat \<Rightarrow> nat \<Rightarrow> size_t \<Rightarrow> nat \<Rightarrow> byte list \<times> labdev \<Rightarrow> (byte list \<times> labdev) kresult" where
  "usermap_page rw got first_page npages lbuf j s =
     (let (um, d) = s
      in if got \<le> j then Inl BadPointer
      else
        let nb = (if j = npages - 1 then unat ((lbuf - 1) mod PAGE_SIZE) + 1 else 4096);
            uaddr = (first_page + j) * 4096; ktmp = j * 4096
        in case ramdisk d of
             Ptr m \<Rightarrow>
               if length m < ktmp + nb then Inl OutOfBounds
               else if rw = 0 then Inr (put_range uaddr (get_range ktmp nb m) um, d)
               else if rw = 1 then Inr (um, d\<lparr>ramdisk := Ptr (put_range ktmp (get_range uaddr nb um) m)\<rparr>)
               else Inr (um, d)
           | NULL \<Rightarrow> Inl NullDeref
           | ERR_PTR e \<Rightarrow> Inl BadPointer)"

text \<open>The first \<open>n\<close> rounds.\<close>

fun usermap_pages ::
    "nat \<Rightarrow> nat \<Rightarrow> nat \<Rightarrow> nat \<Rightarrow> size_t \<Rightarrow> nat \<Rightarrow> byte list \<times> labdev \<Rightarrow> (byte list \<times> labdev) kresult" where
  "usermap_pages rw got first_page npages lbuf 0 s = Inr s"
| "usermap_pages rw got first_page npages lbuf (Suc j) s =
     (case usermap_pages rw got first_page npages lbuf j s of
        Inl f \<Rightarrow> Inl f
      | Inr s \<Rightarrow> usermap_page rw got first_page npages lbuf j s)"

text \<open>The number of pages is an \<open>int\<close>; the position is not looked at.\<close>

(* src: io/lab2_usermap.c:40-41 mycdrv_rw (npages) *)
definition usermap_npages :: "size_t \<Rightarrow> nat" where
  "usermap_npages lbuf = nat (sint (ucast ((lbuf - 1) div PAGE_SIZE + 1) :: c_int))"

(* src: io/lab2_usermap.c:32-100 mycdrv_rw *)
definition usermap_rw ::
    "nat \<Rightarrow> bool \<Rightarrow> nat \<Rightarrow> nat \<Rightarrow> size_t \<Rightarrow> byte list \<times> labdev \<Rightarrow> (int \<times> byte list \<times> labdev) kresult" where
  "usermap_rw rw alloc got buf lbuf s =
     (if \<not> alloc then Inr (- ENOMEM, s)
      else case usermap_pages rw got (buf div 4096) (usermap_npages lbuf) lbuf (usermap_npages lbuf) s of
             Inl f \<Rightarrow> Inl f
           | Inr s \<Rightarrow> Inr (sint lbuf, s))"

(* src: io/lab2_usermap.c:102-107 mycdrv_read *)
definition usermap_read ::
    "bool \<Rightarrow> nat \<Rightarrow> nat \<Rightarrow> size_t \<Rightarrow> byte list \<times> labdev \<Rightarrow> (int \<times> byte list \<times> labdev) kresult" where
  "usermap_read = usermap_rw 0"

(* src: io/lab2_usermap.c:109-115 mycdrv_write *)
definition usermap_write ::
    "bool \<Rightarrow> nat \<Rightarrow> nat \<Rightarrow> size_t \<Rightarrow> byte list \<times> labdev \<Rightarrow> (int \<times> byte list \<times> labdev) kresult" where
  "usermap_write = usermap_rw 1"

text \<open>The variant with \<open>get_user_pages_fast\<close> is the same but for that call.\<close>

(* src: io/lab2_usermap_fast.c:32-97 mycdrv_rw *)
definition usermap_fast_rw ::
    "nat \<Rightarrow> bool \<Rightarrow> nat \<Rightarrow> nat \<Rightarrow> size_t \<Rightarrow> byte list \<times> labdev \<Rightarrow> (int \<times> byte list \<times> labdev) kresult" where
  "usermap_fast_rw = usermap_rw"

section \<open>The pages of a request\<close>

text \<open>A request of \<open>n\<close> bytes has \<open>pages_of n\<close> pages, and \<open>moved_by n j\<close> bytes are moved by its first \<open>j\<close> rounds.\<close>

definition pages_of :: "nat \<Rightarrow> nat" where
  "pages_of n = (if n = 0 then 0 else (n - 1) div 4096 + 1)"

definition moved_by :: "nat \<Rightarrow> nat \<Rightarrow> nat" where
  "moved_by n j = min n (j * 4096)"

lemma pages_of_bounds: "n \<le> pages_of n * 4096" "0 < n \<Longrightarrow> (pages_of n - 1) * 4096 < n"
proof -
  have d: "(n - 1) div 4096 * 4096 + (n - 1) mod 4096 = n - 1" and l: "(n - 1) mod 4096 < 4096"
    by (rule div_mult_mod_eq, rule mod_less_divisor) simp
  show "n \<le> pages_of n * 4096"
  proof (cases "n = 0")
    case False
    then have "pages_of n = (n - 1) div 4096 + 1" by (simp only: pages_of_def if_False)
    then show ?thesis using d l by linarith
  qed (simp add: pages_of_def)
  show "0 < n \<Longrightarrow> (pages_of n - 1) * 4096 < n"
  proof -
    assume "0 < n"
    then have "pages_of n = (n - 1) div 4096 + 1" by (simp add: pages_of_def)
    then show ?thesis using d \<open>0 < n\<close> by linarith
  qed
qed

lemma usermap_npages_eq:
  assumes "unat lbuf \<le> MAX_RW_COUNT"
  shows "usermap_npages lbuf = pages_of (unat lbuf)"
proof (cases "lbuf = 0")
  case True
  have "(-1 :: 64 word) div 4096 + 1 = 0x10000000000000"
    by (simp add: word_div_def unsigned_minus_1_eq_mask mask_eq_exp_minus_1)
  then show ?thesis by (simp add: usermap_npages_def pages_of_def True)
next
  case False
  then have p: "0 < unat lbuf" by (simp add: unat_gt_0)
  have m: "unat (lbuf - 1) = unat lbuf - 1" using False by (simp add: unat_minus_one)
  have d: "unat ((lbuf - 1) div PAGE_SIZE) = (unat lbuf - 1) div 4096" by (simp add: unat_div m)
  have "(unat lbuf - 1) div 4096 + 1 < 2 ^ 31" using assms by (simp add: div_less_iff_less_mult)
  then have s: "unat ((lbuf - 1) div PAGE_SIZE + 1) = (unat lbuf - 1) div 4096 + 1"
    by (subst unat_add_nowrap) (simp_all add: d)
  moreover have "unat ((lbuf - 1) div PAGE_SIZE + 1) < 2 ^ 31"
    unfolding s using \<open>(unat lbuf - 1) div 4096 + 1 < 2 ^ 31\<close> .
  ultimately show ?thesis
    using p by (simp add: usermap_npages_def pages_of_def sint_ucast_small)
qed

lemma usermap_nb:
  assumes "0 < unat lbuf" and "j < pages_of (unat lbuf)"
  shows "(if j = pages_of (unat lbuf) - 1 then unat ((lbuf - 1) mod PAGE_SIZE) + 1 else 4096) =
    moved_by (unat lbuf) (Suc j) - j * 4096" and "moved_by (unat lbuf) j = j * 4096"
proof -
  have z: "lbuf \<noteq> 0" using assms(1) by auto
  have m: "unat ((lbuf - 1) mod PAGE_SIZE) = (unat lbuf - 1) mod 4096"
    using z by (simp add: unat_mod unat_minus_one)
  let ?n = "unat lbuf"
  have p: "pages_of ?n - 1 = (?n - 1) div 4096" using assms(1) by (simp add: pages_of_def)
  have d: "(?n - 1) div 4096 * 4096 + (?n - 1) mod 4096 = ?n - 1" and l: "(?n - 1) mod 4096 < 4096"
    by (rule div_mult_mod_eq, rule mod_less_divisor) simp
  have j: "j \<le> pages_of ?n - 1" using assms(2) by linarith
  then have le: "j * 4096 \<le> (pages_of ?n - 1) * 4096" by (rule mult_le_mono1)
  then have lt: "j * 4096 < ?n" using pages_of_bounds(2) [OF assms(1)] by linarith
  show "moved_by ?n j = j * 4096" unfolding moved_by_def by (rule min_absorb2) (use lt in linarith)
  show "(if j = pages_of ?n - 1 then unat ((lbuf - 1) mod PAGE_SIZE) + 1 else 4096) =
    moved_by ?n (Suc j) - j * 4096"
  proof (cases "j = pages_of ?n - 1")
    case True
    have "?n \<le> Suc j * 4096" using d l unfolding True p mult_Suc by linarith
    then have "moved_by ?n (Suc j) - j * 4096 = ?n - j * 4096" unfolding moved_by_def by (simp only: min_absorb1)
    also have "\<dots> = (?n - 1) mod 4096 + 1" using d assms(1) unfolding True p by linarith
    finally show ?thesis using True m by simp
  next
    case False
    then have "Suc j \<le> pages_of ?n - 1" using j by linarith
    then have "Suc j * 4096 \<le> (pages_of ?n - 1) * 4096" by (rule mult_le_mono1)
    then have "Suc j * 4096 < ?n" using pages_of_bounds(2) [OF assms(1)] by linarith
    then have "moved_by ?n (Suc j) = Suc j * 4096" unfolding moved_by_def by (intro min_absorb2) linarith
    then show ?thesis using False by (simp only: if_False mult_Suc)
  qed
qed

lemma put_prefix_more:
  assumes "p + k + n \<le> length dst" and "q + k + n \<le> length src"
  shows "put_range (p + k) (get_range (q + k) n src) (put_range p (get_range q k src) dst) =
    put_range p (get_range q (k + n) src) dst"
proof -
  have "length (get_range q k src) = k" using assms(2) by simp
  then have "put_range (p + k) (get_range (q + k) n src) (put_range p (get_range q k src) dst) =
      put_range p (get_range q k src @ get_range (q + k) n src) dst"
    using put_put_append [of p "get_range q k src" "get_range (q + k) n src" dst] assms by simp
  also have "get_range q k src @ get_range (q + k) n src = get_range q (k + n) src"
    using get_range_split [of k "k + n" q src] by simp
  finally show ?thesis .
qed

text \<open>One round, with the bytes it moves named once.\<close>

lemma usermap_page_round:
  assumes "0 < unat lbuf" and "j < pages_of (unat lbuf)" and "pages_of (unat lbuf) \<le> got"
    and "ramdisk d = Ptr m" and "unat lbuf \<le> length m"
  shows "usermap_page 0 got fp (pages_of (unat lbuf)) lbuf j (um, d) =
      Inr (put_range (fp * 4096 + j * 4096) (get_range (j * 4096) (moved_by (unat lbuf) (Suc j) - j * 4096) m) um, d)"
    and "usermap_page 1 got fp (pages_of (unat lbuf)) lbuf j (um, d) =
      Inr (um, d\<lparr>ramdisk := Ptr (put_range (j * 4096)
        (get_range (fp * 4096 + j * 4096) (moved_by (unat lbuf) (Suc j) - j * 4096) um) m)\<rparr>)"
proof -
  let ?k = "moved_by (unat lbuf) (Suc j) - j * 4096"
  have g: "\<not> got \<le> j" using assms(2,3) by simp
  have l: "\<not> length m < j * 4096 + ?k"
    using usermap_nb(2) [OF assms(1,2)] assms(5) by (simp add: moved_by_def)
  show "usermap_page 0 got fp (pages_of (unat lbuf)) lbuf j (um, d) =
      Inr (put_range (fp * 4096 + j * 4096) (get_range (j * 4096) ?k m) um, d)"
    unfolding usermap_page_def Let_def prod.case usermap_nb(1) [OF assms(1,2)] assms(4) if_not_P [OF g]
      kptr.case if_not_P [OF l] distrib_right
    by simp
  show "usermap_page 1 got fp (pages_of (unat lbuf)) lbuf j (um, d) =
      Inr (um, d\<lparr>ramdisk := Ptr (put_range (j * 4096) (get_range (fp * 4096 + j * 4096) ?k um) m)\<rparr>)"
    unfolding usermap_page_def Let_def prod.case usermap_nb(1) [OF assms(1,2)] assms(4) if_not_P [OF g]
      kptr.case if_not_P [OF l] distrib_right
    by simp
qed

lemma usermap_write_pages:
  assumes d: "ramdisk d = Ptr m" and "unat lbuf \<le> length m" and "pages_of (unat lbuf) \<le> got"
    and "fp * 4096 + unat lbuf \<le> length um" and n: "0 < unat lbuf"
  shows "j \<le> pages_of (unat lbuf) \<Longrightarrow>
    usermap_pages 1 got fp (pages_of (unat lbuf)) lbuf j (um, d) =
    Inr (um, d\<lparr>ramdisk := Ptr (put_range 0 (get_range (fp * 4096) (moved_by (unat lbuf) j) um) m)\<rparr>)"
proof (induction j)
  case 0
  then show ?case using d by (simp add: moved_by_def)
next
  case (Suc j)
  let ?n = "unat lbuf" and ?B = "fp * 4096"
  let ?k = "moved_by ?n (Suc j) - j * 4096" and ?m = "put_range 0 (get_range ?B (j * 4096) um) m"
  have j: "j < pages_of ?n" using Suc.prems by simp
  note nb = usermap_nb(2) [OF n j]
  have e: "j * 4096 + ?k = moved_by ?n (Suc j)" and le: "moved_by ?n (Suc j) \<le> ?n"
    using nb by (simp_all add: moved_by_def)
  have p: "put_range (j * 4096) (get_range (?B + j * 4096) ?k um) ?m =
      put_range 0 (get_range ?B (moved_by ?n (Suc j)) um) m"
    using put_prefix_more [of 0 "j * 4096" ?k m ?B um] e le assms(2,4) by simp
  have l: "length ?m = length m"
    using e le assms(2,4) by (intro length_put_range) simp
  have r: "usermap_page 1 got fp (pages_of ?n) lbuf j (um, d\<lparr>ramdisk := Ptr ?m\<rparr>) =
      Inr (um, d\<lparr>ramdisk := Ptr (put_range (j * 4096) (get_range (?B + j * 4096) ?k um) ?m)\<rparr>)"
    using usermap_page_round(2) [OF n j assms(3), of "d\<lparr>ramdisk := Ptr ?m\<rparr>" ?m fp um] l assms(2) by simp
  show ?case using Suc.IH j nb r unfolding p by simp
qed

lemma usermap_read_pages:
  assumes d: "ramdisk d = Ptr m" and "unat lbuf \<le> length m" and "pages_of (unat lbuf) \<le> got"
    and "fp * 4096 + unat lbuf \<le> length um" and n: "0 < unat lbuf"
  shows "j \<le> pages_of (unat lbuf) \<Longrightarrow>
    usermap_pages 0 got fp (pages_of (unat lbuf)) lbuf j (um, d) =
    Inr (put_range (fp * 4096) (get_range 0 (moved_by (unat lbuf) j) m) um, d)"
proof (induction j)
  case 0
  then show ?case by (simp add: moved_by_def)
next
  case (Suc j)
  let ?n = "unat lbuf" and ?B = "fp * 4096"
  let ?k = "moved_by ?n (Suc j) - j * 4096"
  have j: "j < pages_of ?n" using Suc.prems by simp
  note nb = usermap_nb(2) [OF n j]
  have e: "j * 4096 + ?k = moved_by ?n (Suc j)" and le: "moved_by ?n (Suc j) \<le> ?n"
    using nb by (simp_all add: moved_by_def)
  have p: "put_range (?B + j * 4096) (get_range (j * 4096) ?k m) (put_range ?B (get_range 0 (j * 4096) m) um) =
      put_range ?B (get_range 0 (moved_by ?n (Suc j)) m) um"
    using put_prefix_more [of ?B "j * 4096" ?k um 0 m] e le assms(2,4) by simp
  show ?case
    using Suc.IH j nb usermap_page_round(1) [OF n j assms(3) d assms(2)] p by simp
qed

lemma moved_by_all: "moved_by n (pages_of n) = n"
  using pages_of_bounds(1) [of n] by (simp add: moved_by_def min_def)

text \<open>A request that is longer than the disk runs off its end, as its size is not checked.\<close>

lemma usermap_pages_fault:
  "usermap_pages rw got fp np lbuf j s = Inl f \<Longrightarrow> j \<le> k \<Longrightarrow> usermap_pages rw got fp np lbuf k s = Inl f"
  by (induction k) (auto simp: le_Suc_eq)

section \<open>What the entry points do\<close>

text \<open>C28: The user-mapped driver, for a buffer whose pages were all pinned and a request that fits in the disk:
  a write puts the bytes from the start of the buffer's page at the start of the disk, a read puts the start of the disk at the
  start of the buffer's page, and both return the count, change nothing else and never look at the position. Both are what the caller asked for
  only when the buffer is page aligned and the position 0. An empty request does nothing.
  When the array of pages cannot be allocated the call fails and changes nothing.\<close>

theorem usermap_copies:
  assumes "ramdisk d = Ptr m" and "unat lbuf \<le> length m" and "unat lbuf \<le> MAX_RW_COUNT"
    and "pages_of (unat lbuf) \<le> got" and "buf div 4096 * 4096 + unat lbuf \<le> length um"
  shows "usermap_write True got buf lbuf (um, d) =
      Inr (int (unat lbuf), um,
        d\<lparr>ramdisk := Ptr (put_range 0 (get_range (buf div 4096 * 4096) (unat lbuf) um) m)\<rparr>)
    \<and> usermap_read True got buf lbuf (um, d) =
      Inr (int (unat lbuf), put_range (buf div 4096 * 4096) (get_range 0 (unat lbuf) m) um, d)
    \<and> usermap_write False got buf lbuf (um, d) = Inr (- ENOMEM, um, d)
    \<and> usermap_read False got buf lbuf (um, d) = Inr (- ENOMEM, um, d)"
proof -
  have np: "usermap_npages lbuf = pages_of (unat lbuf)" by (rule usermap_npages_eq [OF assms(3)])
  have s: "sint lbuf = int (unat lbuf)" using assms(3) by (intro sint_small_64) simp
  show ?thesis
  proof (cases "unat lbuf = 0")
    case True
    then show ?thesis
      using assms(1) np s by (simp add: usermap_write_def usermap_read_def usermap_rw_def pages_of_def)
  next
    case False
    then have n: "0 < unat lbuf" by simp
    show ?thesis
      using usermap_write_pages [OF assms(1,2,4,5) n order_refl] usermap_read_pages [OF assms(1,2,4,5) n order_refl]
      by (simp add: usermap_write_def usermap_read_def usermap_rw_def np s moved_by_all)
  qed
qed

theorem usermap_copies_witness:
  "usermap_write True 1 2 3 ([10, 11, 12, 13, 14, 15], \<lparr>ramdisk = Ptr [0, 0, 0, 0], open_counter = 1\<rparr>) =
    Inr (3, [10, 11, 12, 13, 14, 15], \<lparr>ramdisk = Ptr [10, 11, 12, 0], open_counter = 1\<rparr>)"
  using usermap_copies [of "\<lparr>ramdisk = Ptr [0, 0, 0, 0], open_counter = 1\<rparr>" "[0, 0, 0, 0]" 3 1 2 "[10, 11, 12, 13, 14, 15]"]
  by (simp add: pages_of_def put_range_def get_range_def)

text \<open>The count is not compared with the size of the disk, nor the pages with those received.\<close>

lemma usermap_unchecked:
  "got = 0 \<Longrightarrow> 0 < unat lbuf \<Longrightarrow> unat lbuf \<le> MAX_RW_COUNT \<Longrightarrow>
    usermap_write True got buf lbuf (um, d) = Inl BadPointer"
proof -
  assume a: "got = 0" "0 < unat lbuf" "unat lbuf \<le> MAX_RW_COUNT"
  let ?f = "\<lambda>k. usermap_pages 1 0 (buf div 4096) (pages_of (unat lbuf)) lbuf k (um, d)"
  have "?f (Suc 0) = Inl BadPointer" by (simp add: usermap_page_def)
  moreover have "Suc 0 \<le> pages_of (unat lbuf)" using a(2) by (simp add: pages_of_def)
  ultimately have "?f (pages_of (unat lbuf)) = Inl BadPointer" by (rule usermap_pages_fault)
  then show ?thesis
    unfolding usermap_write_def usermap_rw_def usermap_npages_eq [OF a(3)] a(1) by simp
qed

end
