(* ===== verification/Iomem.thy ===== *)
theory Iomem
  imports Interfaces
begin

text \<open>
  \<open>src/hardware/lab2_memory.c\<close>: the video memory of a PC as a character device, read and written byte by byte
  through a mapping of its I/O memory; the module's loading and unloading.
\<close>

section \<open>Reads and writes\<close>

text \<open>
  \<open>vram\<close> is the mapped memory, which keeps what is written to it. \<open>uok\<close> says which
  bytes of the caller's buffer can be written, \<open>usr\<close> holds those that can be read.
\<close>

abbreviation (input) IOMEM_SIZE :: nat where "IOMEM_SIZE \<equiv> 131072"

text \<open>The loop of a read from its round \<open>i\<close>; the flag tells whether it ran to its end.\<close>

(* src: hardware/lab2_memory.c:50-57 iomem_read (loop) *)
fun iomem_read_loop :: "byte list \<Rightarrow> nat \<Rightarrow> (nat \<Rightarrow> bool) \<Rightarrow> nat \<Rightarrow> nat \<Rightarrow> (bool \<times> byte list) kresult" where
  "iomem_read_loop vram off uok i 0 = Inr (True, [])"
| "iomem_read_loop vram off uok i (Suc n) =
     (if length vram \<le> off + i then Inl OutOfBounds
      else if \<not> uok i then Inr (False, [])
      else case iomem_read_loop vram off uok (Suc i) n of
             Inl f \<Rightarrow> Inl f
           | Inr (done, bs) \<Rightarrow> Inr (done, vram ! (off + i) # bs))"

(* src: hardware/lab2_memory.c:37-61 iomem_read *)
definition iomem_read :: "size_t \<Rightarrow> loff_t \<Rightarrow> (nat \<Rightarrow> bool) \<Rightarrow> byte list \<Rightarrow> (int \<times> byte list \<times> loff_t) kresult" where
  "iomem_read len off uok vram =
     (if 131072 \<le> sint off then Inr (0, [], off)
      else let len = (if 131072 < off + len then 131072 - off else len)
           in case iomem_read_loop vram (unat off) uok 0 (unat len) of
                Inl f \<Rightarrow> Inl f
              | Inr (done, bs) \<Rightarrow> if done then Inr (sint len, bs, off + len) else Inr (- EFAULT, bs, off))"

(* src: hardware/lab2_memory.c:75-82 iomem_write (loop) *)
fun iomem_write_loop :: "nat \<Rightarrow> (nat \<Rightarrow> byte option) \<Rightarrow> nat \<Rightarrow> nat \<Rightarrow> byte list \<Rightarrow> (bool \<times> byte list) kresult" where
  "iomem_write_loop off usr i 0 vram = Inr (True, vram)"
| "iomem_write_loop off usr i (Suc n) vram =
     (case usr i of
        None \<Rightarrow> Inr (False, vram)
      | Some b \<Rightarrow> if length vram \<le> off + i then Inl OutOfBounds
                  else iomem_write_loop off usr (Suc i) n (vram[off + i := b]))"

(* src: hardware/lab2_memory.c:62-87 iomem_write *)
definition iomem_write ::
    "size_t \<Rightarrow> loff_t \<Rightarrow> (nat \<Rightarrow> byte option) \<Rightarrow> byte list \<Rightarrow> (int \<times> byte list \<times> loff_t) kresult" where
  "iomem_write len off usr vram =
     (if 131072 \<le> sint off then Inr (0, vram, off)
      else let len = (if 131072 < off + len then 131072 - off else len)
           in case iomem_write_loop (unat off) usr 0 (unat len) vram of
                Inl f \<Rightarrow> Inl f
              | Inr (done, vram) \<Rightarrow>
                  if done then Inr (sint len, vram, off + len) else Inr (- EFAULT, vram, off))"

section \<open>What they do\<close>

text \<open>A request at a position that lies inside the memory is cut at its end.\<close>

definition iomem_span :: "size_t \<Rightarrow> loff_t \<Rightarrow> nat" where
  "iomem_span len off = min (unat len) (IOMEM_SIZE - unat off)"

lemma iomem_len:
  fixes off :: loff_t
  assumes "vfs_rw_ok len off" and "unat off < IOMEM_SIZE"
  defines "n \<equiv> if 131072 < off + len then 131072 - off else len"
  shows "unat n = iomem_span len off" and "sint n = int (iomem_span len off)" and "unat off + iomem_span len off \<le> IOMEM_SIZE"
proof -
  have l: "unat len \<le> MAX_RW_COUNT" using assms(1) by (simp add: vfs_rw_ok_def)
  have s: "unat (off + len) = unat off + unat len"
    using l assms(2) by (intro unat_add_nowrap) simp
  have d: "unat (131072 - off) = IOMEM_SIZE - unat off"
    using assms(2) by (subst unat_sub) (simp_all add: word_le_nat_alt)
  show u: "unat n = iomem_span len off"
    using s d by (simp add: n_def iomem_span_def word_less_nat_alt)
  show "sint n = int (iomem_span len off)"
    using u sint_small_64 [of n] by (simp add: iomem_span_def)
  show "unat off + iomem_span len off \<le> IOMEM_SIZE"
    using assms(2) by (simp add: iomem_span_def)
qed

lemma unat_iomem_span: "unat (of_nat (iomem_span len off) :: size_t) = iomem_span len off"
  by (rule unat_of_nat_64) (unfold iomem_span_def, rule min.strict_coboundedI2, simp)

lemma iomem_past_end:
  "0 \<le> sint (off :: loff_t) \<Longrightarrow> (131072 \<le> sint off) = (IOMEM_SIZE \<le> unat off)"
proof -
  assume "0 \<le> sint off"
  then have "sint off = int (unat off)" by (rule sint_nonneg_64(1))
  then show ?thesis by (intro iffI; linarith)
qed

text \<open>The loops, up to the first byte the caller does not have.\<close>

lemma iomem_read_loop_upto:
  assumes "off + i + n \<le> length vram" and "k \<le> n" and "\<And>j. j < k \<Longrightarrow> uok (i + j)" and "k < n \<Longrightarrow> \<not> uok (i + k)"
  shows "iomem_read_loop vram off uok i n = Inr (k = n, get_range (off + i) k vram)"
  using assms
proof (induction n arbitrary: i k)
  case 0
  then show ?case by simp
next
  case (Suc n)
  show ?case
  proof (cases k)
    case 0
    then show ?thesis using Suc.prems by simp
  next
    case k: (Suc m)
    have "uok (Suc i + j)" if "j < m" for j using Suc.prems(3) [of "Suc j"] that k by simp
    then have "iomem_read_loop vram off uok (Suc i) n = Inr (m = n, get_range (off + Suc i) m vram)"
      using Suc.prems k by (intro Suc.IH) simp_all
    moreover have "uok i" using Suc.prems(3) [of 0] k by simp
    moreover have "vram ! (off + i) # get_range (off + Suc i) m vram = get_range (off + i) (Suc m) vram"
      using Suc.prems(1) Cons_nth_drop_Suc [of "off + i" vram, symmetric] by (simp add: get_range_def)
    ultimately show ?thesis using Suc.prems(1) k by simp
  qed
qed

definition user_prefix :: "(nat \<Rightarrow> byte option) \<Rightarrow> nat \<Rightarrow> byte list" where
  "user_prefix usr k = map (\<lambda>j. the (usr j)) [0..<k]"

lemma length_user_prefix [simp]: "length (user_prefix usr k) = k"
  by (simp add: user_prefix_def)

lemma user_prefix_Suc:
  "p + Suc k \<le> length m \<Longrightarrow>
   put_range p (user_prefix usr (Suc k)) m = (put_range p (user_prefix usr k) m)[p + k := the (usr k)]"
  by (rule nth_equalityI) (auto simp: nth_put_range nth_list_update user_prefix_def nth_append less_Suc_eq)

lemma iomem_write_loop_upto:
  assumes "off + i + n \<le> length vram" and "i \<le> k" and "k \<le> i + n"
    and "\<And>j. j < k \<Longrightarrow> usr j \<noteq> None" and "k < i + n \<Longrightarrow> usr k = None"
  shows "iomem_write_loop off usr i n (put_range off (user_prefix usr i) vram) =
    Inr (k = i + n, put_range off (user_prefix usr k) vram)"
  using assms
proof (induction n arbitrary: i)
  case 0
  then show ?case by simp
next
  case (Suc n)
  show ?case
  proof (cases "i = k")
    case True
    then show ?thesis using Suc.prems(5) by simp
  next
    case False
    then obtain b where b: "usr i = Some b" using Suc.prems(2,4) by fastforce
    have "iomem_write_loop off usr (Suc i) n (put_range off (user_prefix usr (Suc i)) vram) =
        Inr (k = Suc i + n, put_range off (user_prefix usr k) vram)"
      using Suc.prems False by (intro Suc.IH) simp_all
    then show ?thesis using Suc.prems(1) b by (simp add: user_prefix_Suc)
  qed
qed

text \<open>C20: The video memory: a read or write moves the bytes from the position on, cut at the end of the memory, as far as
  the caller's buffer goes. When all of them were moved it returns their number and advances the
  position; at the first byte the caller does not have it returns \<open>-EFAULT\<close> and leaves the position, though the bytes
  before it were already moved. Nothing outside the mapping is touched.\<close>

theorem iomem_moves:
  assumes "vfs_rw_ok len off" and "length vram = IOMEM_SIZE"
    and "k \<le> iomem_span len off" and "\<forall>j<k. usr j \<noteq> None" and "k < iomem_span len off \<longrightarrow> usr k = None"
  shows "iomem_read len off (\<lambda>j. usr j \<noteq> None) vram =
      Inr (if k = iomem_span len off then (int k, get_range (unat off) k vram, off + of_nat k)
           else (- EFAULT, get_range (unat off) k vram, off))
    \<and> iomem_write len off usr vram =
      Inr (if k = iomem_span len off then (int k, put_range (unat off) (user_prefix usr k) vram, off + of_nat k)
           else (- EFAULT, put_range (unat off) (user_prefix usr k) vram, off))"
proof (cases "unat off < IOMEM_SIZE")
  case False
  then have "iomem_span len off = 0" by (simp add: iomem_span_def)
  moreover have "131072 \<le> sint off" using False assms(1) by (simp add: iomem_past_end vfs_rw_ok_def)
  ultimately show ?thesis using assms(3) by (simp add: iomem_read_def iomem_write_def user_prefix_def)
next
  case True
  let ?n = "if 131072 < off + len then 131072 - off else len"
  note l = iomem_len [OF assms(1) True]
  have "\<not> 131072 \<le> sint off" using True assms(1) by (simp add: iomem_past_end vfs_rw_ok_def)
  moreover have "iomem_read_loop vram (unat off) (\<lambda>j. usr j \<noteq> None) 0 (iomem_span len off) =
      Inr (k = iomem_span len off, get_range (unat off) k vram)"
    using iomem_read_loop_upto [of "unat off" 0 "iomem_span len off" vram k] assms l(3) by simp
  moreover have "iomem_write_loop (unat off) usr 0 (iomem_span len off) vram =
      Inr (k = iomem_span len off, put_range (unat off) (user_prefix usr k) vram)"
    using iomem_write_loop_upto [of "unat off" 0 "iomem_span len off" vram k usr] assms l(3)
    by (simp add: user_prefix_def)
  moreover have "?n = of_nat (iomem_span len off)" using l(1) by (simp only: word_unat_eq_iff unat_iomem_span)
  ultimately show ?thesis
    using l(1,2) unfolding iomem_read_def iomem_write_def Let_def by simp
qed

theorem iomem_moves_witness:
  "iomem_write 4 131070 (\<lambda>j. [Some 7, Some 8, None, None] ! j) (replicate 131072 0) =
    Inr (2, put_range 131070 [7, 8] (replicate 131072 0), 131072)"
proof -
  have s: "iomem_span 4 131070 = 2" by (simp add: iomem_span_def)
  have u: "user_prefix (\<lambda>j. [Some 7, Some 8, None, None] ! j) 2 = [7, 8]"
    by (simp add: user_prefix_def upt_conv_Cons)
  show ?thesis
    using iomem_moves [of 4 131070 "replicate 131072 0" 2 "\<lambda>j. [Some 7, Some 8, None, None] ! j"]
    unfolding s u by (simp add: vfs_rw_ok_def less_2_cases_iff)
qed

section \<open>A byte store\<close>

text \<open>With a buffer that is valid as far as it goes, the device is a byte store of the size of the memory.\<close>

definition iomem_pread :: "size_t \<Rightarrow> loff_t \<Rightarrow> size_t \<Rightarrow> byte list \<Rightarrow> (int \<times> byte list \<times> loff_t) kresult" where
  "iomem_pread len off left vram = iomem_read len off (\<lambda>j. j < unat (len - left)) vram"

definition iomem_pwrite ::
    "byte list \<Rightarrow> size_t \<Rightarrow> loff_t \<Rightarrow> size_t \<Rightarrow> byte list \<Rightarrow> (int \<times> byte list \<times> loff_t) kresult" where
  "iomem_pwrite bs len off left vram =
     iomem_write len off (\<lambda>j. if j < unat (len - left) then Some (bs ! j) else None) vram"

lemma iomem_pread_eq:
  assumes "length vram = IOMEM_SIZE"
  shows "vfs_pread iomem_pread vram p n =
    (if n \<le> MAX_RW_COUNT \<and> p < 2 ^ 63 \<and> (n = 0 \<or> p + n \<le> IOMEM_SIZE) then Some (get_range p n vram) else None)"
proof (cases "n \<le> MAX_RW_COUNT \<and> p < 2 ^ 63")
  case True
  then have a: "unat (of_nat n :: size_t) = n" "unat (of_nat p :: loff_t) = p" "vfs_rw_ok (of_nat n) (of_nat p)"
    using vfs_args [of n p] by simp_all
  have s: "iomem_span (of_nat n) (of_nat p) = min n (IOMEM_SIZE - p)" unfolding iomem_span_def a ..
  have valid: "(\<lambda>j. (if j < n then Some (0 :: byte) else None) \<noteq> None) = (\<lambda>j. j < n)" by auto
  have r: "iomem_pread (of_nat n) (of_nat p) 0 vram =
      Inr (int (min n (IOMEM_SIZE - p)), get_range p (min n (IOMEM_SIZE - p)) vram,
        of_nat p + of_nat (min n (IOMEM_SIZE - p)))"
    using iomem_moves [OF a(3) assms, of "min n (IOMEM_SIZE - p)" "\<lambda>j. if j < n then Some 0 else None"]
    unfolding s a valid by (simp add: iomem_pread_def a)
  show ?thesis using True by (auto simp: vfs_pread_def r min_def)
qed (auto simp: vfs_pread_def)

lemma iomem_pwrite_eq:
  assumes "length vram = IOMEM_SIZE"
  shows "vfs_pwrite iomem_pwrite vram p bs =
    (if length bs \<le> MAX_RW_COUNT \<and> p < 2 ^ 63 \<and> (bs = [] \<or> p + length bs \<le> IOMEM_SIZE)
     then Some (put_range p bs vram) else None)"
proof (cases "length bs \<le> MAX_RW_COUNT \<and> p < 2 ^ 63")
  case True
  let ?n = "length bs" and ?m = "min (length bs) (IOMEM_SIZE - p)"
  let ?u = "\<lambda>j. if j < ?n then Some (bs ! j) else None"
  have a: "unat (of_nat ?n :: size_t) = ?n" "unat (of_nat p :: loff_t) = p" "vfs_rw_ok (of_nat ?n) (of_nat p)"
    using True vfs_args [of ?n p] by simp_all
  have s: "iomem_span (of_nat ?n) (of_nat p) = ?m" unfolding iomem_span_def a ..
  have r: "iomem_pwrite bs (of_nat ?n) (of_nat p) 0 vram =
      Inr (int ?m, put_range p (user_prefix ?u ?m) vram, of_nat p + of_nat ?m)"
    using iomem_moves [OF a(3) assms, of ?m ?u] unfolding s a by (simp add: iomem_pwrite_def a)
  have u: "?n \<le> IOMEM_SIZE - p \<Longrightarrow> user_prefix ?u ?m = bs"
    by (intro nth_equalityI) (simp_all add: user_prefix_def min_def)
  show ?thesis
  proof (cases "?n \<le> IOMEM_SIZE - p")
    case fits: True
    then have "p + ?n \<le> IOMEM_SIZE \<or> bs = []" by (cases bs) auto
    then show ?thesis using True u [OF fits] fits by (auto simp: vfs_pwrite_def r min_def)
  next
    case False
    then show ?thesis using True by (auto simp: vfs_pwrite_def r min_def)
  qed
qed (auto simp: vfs_pwrite_def)

interpretation iomem_store: byte_store "\<lambda>vram. length vram = IOMEM_SIZE" "\<lambda>_. IOMEM_SIZE"
  "vfs_pread iomem_pread" "vfs_pwrite iomem_pwrite"
proof (unfold_locales, goal_cases)
  case (1 s n p)
  then show ?case by (auto simp: iomem_pread_eq)
next
  case (2 s bs p)
  then show ?case by (auto simp: iomem_pwrite_eq)
next
  case (3 s p bs s')
  then show ?case by (auto simp: iomem_pwrite_eq split: if_splits)
next
  case (4 s p n bs)
  then show ?case by (auto simp: iomem_pread_eq split: if_splits)
next
  case (5 s p bs s')
  from 5(2) have s': "s' = put_range p bs s" and l: "length bs \<le> MAX_RW_COUNT" "p < 2 ^ 63"
    and fits: "bs = [] \<or> p + length bs \<le> IOMEM_SIZE"
    by (simp_all add: iomem_pwrite_eq [OF 5(1)] split: if_splits)
  have "length s' = IOMEM_SIZE" using 5(1) fits by (auto simp: s')
  from iomem_pread_eq [OF this, of p "length bs"] 5(1) l fits show ?case
    by (cases "bs = []") (simp_all add: s' get_put_same)
next
  case (6 s p bs s' q n)
  from 6(2) have s': "s' = put_range p bs s" and fits: "bs = [] \<or> p + length bs \<le> length s"
    by (simp_all add: iomem_pwrite_eq [OF 6(1)] 6(1) split: if_splits)
  have l: "length s' = IOMEM_SIZE" using 6(1) fits by (auto simp: s')
  have "get_range q n s' = get_range q n s"
    unfolding s' by (rule get_put_apart [OF 6(3) fits])
  then show ?case by (simp add: iomem_pread_eq [OF l] iomem_pread_eq [OF 6(1)])
qed

text \<open>What was written stays readable until a later write overlaps it.\<close>

lemmas iomem_write_sticks = iomem_store.write_sticks

section \<open>Loading and unloading\<close>

datatype iomem_res = Vram_map | Vram_region | Vram_class | Vram_device | Vram_cdev

record iomem_env =
  remap_ok :: bool
  region_ret :: int
  class_ret :: "unit kptr"
  device_ret :: "unit kptr"
  add_ret :: int

(* src: hardware/lab2_memory.c:98-133 iomem_init *)
definition iomem_init :: "iomem_env \<Rightarrow> iomem_res ledger \<Rightarrow> int \<times> iomem_res ledger" where
  "iomem_init e k =
     (if \<not> remap_ok e then (- ENOMEM, k)
      else let k = acquire Vram_map k
      in if region_ret e < 0 then (region_ret e, k)
      else let k = acquire Vram_region k
      in if IS_ERR (class_ret e) then (PTR_ERR (class_ret e), release Vram_region k)
      else let k = acquire Vram_class k
      in if IS_ERR (device_ret e) then (PTR_ERR (device_ret e), release Vram_region (release Vram_class k))
      else let k = acquire Vram_device k
      in if add_ret e < 0
         then (add_ret e, release Vram_region (release Vram_class (release Vram_device k)))
      else (0, acquire Vram_cdev k))"

(* src: hardware/lab2_memory.c:135-142 iomem_exit *)
definition iomem_exit :: "iomem_res ledger \<Rightarrow> iomem_res ledger" where
  "iomem_exit = release_all [Vram_cdev, Vram_device, Vram_class, Vram_region, Vram_map]"

text \<open>A load of the module that succeeds is undone by its exit. One that fails gives back what it took,
  except the mapping of the memory: only a failure of the mapping itself leaves nothing behind.\<close>

theorem iomem_load_leaks:
  assumes "\<forall>n. class_ret e = ERR_PTR n \<or> device_ret e = ERR_PTR n \<longrightarrow> 0 < n"
  shows "if fst (iomem_init e k) = 0 then iomem_exit (snd (iomem_init e k)) = k
    else fst (iomem_init e k) < 0 \<and> snd (iomem_init e k) = (if remap_ok e then acquire Vram_map k else k)"
proof -
  have e: "IS_ERR p \<Longrightarrow> p = class_ret e \<or> p = device_ret e \<Longrightarrow> PTR_ERR p < 0" for p
    using assms by (cases p) auto
  show ?thesis
    using e [of "class_ret e"] e [of "device_ret e"]
    by (auto simp: iomem_init_def iomem_exit_def Let_def)
qed

theorem iomem_load_leaks_witness:
  "iomem_init \<lparr>remap_ok = True, region_ret = 0, class_ret = ERR_PTR 12, device_ret = NULL, add_ret = 0\<rparr> empty_ledger =
    (- 12, acquire Vram_map empty_ledger)"
  using iomem_load_leaks [of "\<lparr>remap_ok = True, region_ret = 0, class_ret = ERR_PTR 12, device_ret = NULL,
    add_ret = 0\<rparr>" empty_ledger]
  by (simp add: iomem_init_def)

end
