(* ===== verification/Irq_Threads.thy ===== *)
theory Irq_Threads
  imports Bottom_Half
begin

text \<open>
  More bottom halves of \<open>src/interrupts\<close>: the plain kernel thread and the plain work item of one line, a
  work item or tasklet allocated for each interrupt, and the threaded handlers of all lines.
\<close>

section \<open>The plain kernel thread\<close>

text \<open>The same steps as \<open>kthread_isr\<close>, without the counter of events.\<close>

(* src: interrupts/lab4_one_thread.c:53-62 my_interrupt *)
fun pthread_isr :: "bh_sys \<Rightarrow> bh_sys option" where
  "pthread_isr s =
     (case isr s of
        TopIdle \<Rightarrow> Some ((count_th s)\<lparr>isr := TopFirst, raised := raised s + 1\<rparr>)
      | TopFirst \<Rightarrow> Some (s\<lparr>cond := True, isr := TopThird\<rparr>)
      | TopThird \<Rightarrow> Some (s\<lparr>isr := TopIdle, bh := if bh s = ThAsleep then ThWait else bh s\<rparr>)
      | TopSecond \<Rightarrow> None)"

text \<open>The thread reads the condition twice, in the wait and after it; \<open>BhCatch\<close> is the loop's own test.\<close>

(* src: interrupts/lab4_one_thread.c:64-82 thr_fun *)
fun pthread_bh :: "bh_sys \<Rightarrow> bh_sys option" where
  "pthread_bh s =
     (case bh s of
        ThClear \<Rightarrow> Some (s\<lparr>cond := False, bh := ThWait\<rparr>)
      | ThWait \<Rightarrow> Some (s\<lparr>bh := if stop s \<or> cond s then BhTest else ThAsleep\<rparr>)
      | BhTest \<Rightarrow> Some (s\<lparr>bh := if cond s then BhInc else BhCatch\<rparr>)
      | BhInc \<Rightarrow> Some ((count_bh s)\<lparr>bh := BhCatch\<rparr>)
      | BhCatch \<Rightarrow> Some (s\<lparr>bh := if stop s then ThGone else ThClear\<rparr>)
      | _ \<Rightarrow> None)"

(* src: interrupts/lab4_one_thread.c:94-96 my_exit (kthread_stop) *)
definition pthread_halt :: "bh_sys \<Rightarrow> bh_sys option" where
  "pthread_halt = kthread_halt"

(* src: interrupts/lab4_one_thread.c:84-92 my_init *)
definition pthread_init :: "unit kptr \<times> int \<Rightarrow> bh_res ledger \<Rightarrow> int \<times> bh_res ledger" where
  "pthread_init = kthread_init"

fun pthread_next :: "bh_event \<Rightarrow> bh_sys \<Rightarrow> bh_sys option" where
  "pthread_next Top s = pthread_isr s"
| "pthread_next Bottom s = pthread_bh s"
| "pthread_next Stop s = pthread_halt s"

text \<open>
  A run of the bottom half stands for at least one interrupt of its own; a sleeping thread has nothing
  to do, unless the interrupt that gave it something is about to wake it.
\<close>

text \<open>The interrupts that are counted and wait for the thread, of those that will reach it.\<close>

definition pthread_owes :: "bh_sys \<Rightarrow> nat" where
  "pthread_owes s =
     (if isr s = TopFirst then 1 else 0) +
     (case bh s of
        BhInc \<Rightarrow> 1
      | ThWait \<Rightarrow> if cond s then 1 else 0
      | BhTest \<Rightarrow> if cond s then 1 else 0
      | ThAsleep \<Rightarrow> if cond s then 1 else 0
      | _ \<Rightarrow> 0)"

definition pthread_inv :: "bh_sys \<Rightarrow> bool" where
  "pthread_inv s \<longleftrightarrow>
     counter_th s = of_nat (raised s) \<and> counter_bh s = of_nat (runs s) \<and>
     runs s + pthread_owes s \<le> raised s \<and>
     (bh s = ThAsleep \<longrightarrow> \<not> stop s \<and> (cond s \<longrightarrow> isr s = TopThird)) \<and>
     (case bh s of BhIdle \<Rightarrow> False | BhDec \<Rightarrow> False | _ \<Rightarrow> True)"

lemma pthread_top: "pthread_isr s = Some t \<Longrightarrow> pthread_inv s \<Longrightarrow> pthread_inv t"
  by (cases "isr s"; cases "bh s"; simp add: pthread_inv_def pthread_owes_def bh_defs; elim conjE; hypsubst; simp split: if_splits)

lemma pthread_bottom: "pthread_bh s = Some t \<Longrightarrow> pthread_inv s \<Longrightarrow> pthread_inv t"
  by (cases "bh s"; simp add: pthread_inv_def pthread_owes_def bh_defs; elim conjE; hypsubst; simp split: if_splits)

lemma pthread_stopping: "pthread_halt s = Some t \<Longrightarrow> pthread_inv s \<Longrightarrow> pthread_inv t"
  by (cases "bh s"; simp add: pthread_inv_def pthread_owes_def pthread_halt_def; elim conjE; hypsubst; simp split: if_splits)

interpretation pthread: invariant_system "\<lambda>s. s = bh_start ThClear" "nx pthread_next" pthread_inv
proof (unfold_locales, goal_cases)
  case (1 s)
  then show ?case by (simp add: pthread_inv_def pthread_owes_def bh_start_def)
next
  case (2 s ev t)
  then show ?case
    by (cases ev) (auto simp: nx_def simp del: pthread_isr.simps pthread_bh.simps
        intro: pthread_top pthread_bottom pthread_stopping)
qed

text \<open>How many of its own steps a thread that is told to stop has left.\<close>

fun steps_left :: "bh_pc \<Rightarrow> nat" where
  "steps_left ThClear = 5"
| "steps_left ThWait = 4"
| "steps_left BhTest = 3"
| "steps_left BhInc = 2"
| "steps_left BhCatch = 1"
| "steps_left _ = 0"

lemma pthread_step_left:
  assumes "stop s" and "steps_left (bh s) = Suc n"
  shows "\<exists>t. pthread_bh s = Some t \<and> stop t \<and> steps_left (bh t) \<le> n \<and>
    (steps_left (bh t) = 0 \<longrightarrow> bh t = ThGone)"
  using assms by (cases "bh s") (auto simp: count_bh_def)

lemma pthread_ends:
  "stop s \<Longrightarrow> steps_left (bh s) = n \<Longrightarrow> bh s = ThGone \<or> 0 < n \<Longrightarrow>
   \<exists>m \<le> n. \<exists>t. run (nx pthread_next) s (replicate m Bottom) t \<and> bh t = ThGone"
proof (induction n arbitrary: s rule: less_induct)
  case (less n)
  show ?case
  proof (cases n)
    case 0
    then show ?thesis using less.prems by (intro exI [of _ 0]) simp
  next
    case (Suc k)
    then obtain u where u: "pthread_bh s = Some u" "stop u" "steps_left (bh u) \<le> k"
      "steps_left (bh u) = 0 \<longrightarrow> bh u = ThGone"
      using pthread_step_left [OF less.prems(1), of k] less.prems(2) by auto
    then obtain m t where "m \<le> steps_left (bh u)" "run (nx pthread_next) u (replicate m Bottom) t" "bh t = ThGone"
      using less.IH [of "steps_left (bh u)" u] Suc by auto
    moreover have "nx pthread_next s Bottom u" using u(1) by (simp add: nx_def)
    ultimately show ?thesis
      using u(3) Suc by (intro exI [of _ "Suc m"]) (auto intro: run_cons)
  qed
qed

text \<open>The plain kernel thread, under every interleaving of interrupts, its own steps and the module's exit: a run of
  the bottom half stands for at least one counted interrupt of its own, so the bottom half counter never exceeds the other; the thread never
  sleeps while its condition holds, unless the interrupt that set it is about to wake it; and once told to
  stop it has left after at most five more steps of its own, without sleeping again.\<close>

theorem plain_thread_behaves:
  assumes "run (nx pthread_next) (bh_start ThClear) evs s"
  shows "counter_bh s = of_nat (runs s) \<and> counter_th s = of_nat (raised s) \<and> runs s \<le> raised s \<and>
    (bh s = ThAsleep \<longrightarrow> cond s \<longrightarrow> isr s = TopThird) \<and>
    (stop s \<longrightarrow> (\<exists>m \<le> 5. \<exists>t. run (nx pthread_next) s (replicate m Bottom) t \<and> bh t = ThGone))"
proof -
  have inv: "pthread_inv s" using assms by (rule pthread.inv_reachable [OF refl])
  have "\<exists>m \<le> 5. \<exists>t. run (nx pthread_next) s (replicate m Bottom) t \<and> bh t = ThGone" if "stop s"
  proof -
    have l: "bh s = ThGone \<or> 0 < steps_left (bh s)" "steps_left (bh s) \<le> 5"
      using inv that by (auto simp: pthread_inv_def split: bh_pc.splits)
    then show ?thesis using pthread_ends [OF that refl l(1)] by (meson order_trans)
  qed
  then show ?thesis using inv by (auto simp: pthread_inv_def)
qed

definition one_round :: "bh_event list" where
  "one_round = [Bottom, Bottom, Top, Top, Top, Bottom, Bottom, Bottom, Top, Top, Top, Bottom, Stop]"

lemma one_round_run:
  "run (nx pthread_next) (bh_start ThClear) one_round
     ((bh_start ThClear)\<lparr>counter_th := 2, counter_bh := 1, cond := True, stop := True, bh := ThClear, raised := 2, runs := 1\<rparr>)"
  by (simp add: one_round_def run_cons_iff nx_def bh_start_def bh_defs pthread_halt_def)

text \<open>The second interrupt came after the thread looked at its condition: it is counted by one half only.\<close>

theorem plain_thread_behaves_witness:
  "\<exists>s t. run (nx pthread_next) (bh_start ThClear) one_round s \<and> runs s = 1 \<and> raised s = 2 \<and>
     bh t = ThGone \<and> (\<exists>m \<le> 5. run (nx pthread_next) s (replicate m Bottom) t)"
  using plain_thread_behaves [OF one_round_run] one_round_run by fastforce

section \<open>The plain work item\<close>

text \<open>A work item is not queued again while it is pending, like a tasklet; its function runs in a thread.\<close>

(* src: interrupts/lab4_one_workqueue.c:58-66 my_interrupt *)
definition work_isr :: "bh_sys \<Rightarrow> bh_sys option" where
  "work_isr = plain_isr"

(* src: interrupts/lab4_one_workqueue.c:49-56 w_fun *)
definition work_bh :: "bh_sys \<Rightarrow> bh_sys option" where
  "work_bh = plain_bh"

section \<open>The threaded handlers of all lines\<close>

text \<open>Each line has its counters and its handler thread; \<open>ls\<close> holds them by line.\<close>

(* src: interrupts/lab8_all_threaded.c:39-45 my_interrupt *)
definition all_thr_isr :: "nat \<Rightarrow> bh_sys list \<Rightarrow> bh_sys list option" where
  "all_thr_isr irq ls =
     (if irq < length ls then map_option (\<lambda>s. ls[irq := s]) (threaded_isr (ls ! irq)) else None)"

(* src: interrupts/lab8_all_threaded.c:47-58 thread_fun *)
definition all_thr_bh :: "nat \<Rightarrow> bh_sys list \<Rightarrow> bh_sys list option" where
  "all_thr_bh irq ls =
     (if irq < length ls then map_option (\<lambda>s. ls[irq := s]) (threaded_bh (ls ! irq)) else None)"

fun all_thr_step :: "bh_sys list \<Rightarrow> bool \<times> nat \<Rightarrow> bh_sys list \<Rightarrow> bool" where
  "all_thr_step ls (th, irq) ls' \<longleftrightarrow> (if th then all_thr_isr irq ls else all_thr_bh irq ls) = Some ls'"

definition all_thr_inv :: "bh_sys list \<Rightarrow> bool" where
  "all_thr_inv ls \<longleftrightarrow> (\<forall>s \<in> set ls. threaded_inv s)"

interpretation all_threaded: invariant_system "\<lambda>ls. ls = replicate n (bh_start BhIdle)" all_thr_step all_thr_inv for n
proof (unfold_locales, goal_cases)
  case (1 ls)
  then show ?case by (simp add: all_thr_inv_def threaded_inv_def bh_start_def)
next
  case (2 ls e ls')
  obtain th irq where e: "e = (th, irq)" by (cases e)
  from 2(2) obtain s where i: "irq < length ls" and ls': "ls' = ls[irq := s]"
    and s: "(if th then threaded_isr (ls ! irq) else threaded_bh (ls ! irq)) = Some s"
    unfolding e by (auto simp: all_thr_isr_def all_thr_bh_def simp del: threaded_isr.simps threaded_bh.simps split: if_splits)
  have "threaded_inv s"
    using 2(1) i s threaded_top [of "ls ! irq" s] threaded_bottom [of "ls ! irq" s]
    unfolding all_thr_inv_def by (cases th) (simp_all del: threaded_isr.simps threaded_bh.simps)
  then show ?case
    using 2(1) set_update_subset_insert [of ls irq s] by (auto simp: all_thr_inv_def ls')
qed

text \<open>With a threaded handler on every line, whatever the interleaving over all lines, each line on which
  nothing runs and nothing is pending has counted as many bottom halves as interrupts, with no event left
  over: no line's events are charged to another.\<close>

theorem all_threaded_lines_agree:
  assumes "run all_thr_step (replicate n (bh_start BhIdle)) evs ls" and "irq < n" and "quiet (ls ! irq)"
  shows "counter_bh (ls ! irq) = counter_th (ls ! irq) \<and> nevents (ls ! irq) = 0"
proof -
  have l: "length ls = n"
    by (rule run_preserves [OF assms(1)]) (auto simp: all_thr_isr_def all_thr_bh_def split: if_splits)
  have "all_thr_inv ls" by (rule all_threaded.inv_reachable [OF refl assms(1)])
  then have "threaded_inv (ls ! irq)" using l assms(2) by (simp add: all_thr_inv_def)
  then show ?thesis using assms(3) by (simp add: threaded_inv_def quiet_def)
qed

definition two_lines_threaded :: "(bool \<times> nat) list" where
  "two_lines_threaded = [(True, 0), (True, 1), (True, 0), (True, 0), (True, 1), (False, 0), (False, 0), (False, 0)]"

lemma two_lines_threaded_run:
  "\<exists>ls. run all_thr_step (replicate 2 (bh_start BhIdle)) two_lines_threaded ls \<and> quiet (ls ! 0) \<and> counter_th (ls ! 0) = 1"
  by (simp add: two_lines_threaded_def run_cons_iff all_thr_isr_def all_thr_bh_def bh_start_def bh_defs quiet_def
    numeral_2_eq_2)

theorem all_threaded_lines_agree_witness:
  "\<exists>ls. run all_thr_step (replicate 2 (bh_start BhIdle)) two_lines_threaded ls \<and> counter_bh (ls ! 0) = 1"
  using two_lines_threaded_run all_threaded_lines_agree [of 2 two_lines_threaded _ 0] by fastforce

section \<open>A bottom half for each interrupt\<close>

text \<open>
  \<open>items\<close> are the times of the items that are queued, oldest first, each in a block of its own; \<open>printed\<close> what
  the bottom halves printed and \<open>arrived\<close> the time of each interrupt. The handler does not test its
  allocation.
\<close>

record dyn_line =
  dyn_th :: c_int
  dyn_bh :: c_int
  items :: "c_long list"
  printed :: "c_long list"
  arrived :: "c_long list"

datatype dyn_event = Dyn_irq bool c_long | Dyn_bottom

(* src: interrupts/lab5_one_workqueue_dynamic.c:37-48 my_interrupt *)
definition dyn_work_isr :: "bool \<Rightarrow> c_long \<Rightarrow> dyn_line \<Rightarrow> dyn_line kresult" where
  "dyn_work_isr alloc jif s =
     (if \<not> alloc then Inl NullDeref
      else Inr (s\<lparr>dyn_th := dyn_th s + 1, items := items s @ [jif], arrived := arrived s @ [jif]\<rparr>))"

(* src: interrupts/lab5_one_workqueue_dynamic.c:26-35 w_fun *)
definition dyn_work_bh :: "dyn_line \<Rightarrow> dyn_line option" where
  "dyn_work_bh s =
     (case items s of
        [] \<Rightarrow> None
      | jif # q \<Rightarrow> Some (s\<lparr>dyn_bh := dyn_bh s + 1, printed := printed s @ [jif], items := q\<rparr>))"

(* src: interrupts/lab4_one_tasklet_dynamic.c:36-51 my_interrupt *)
definition dyn_tasklet_isr :: "bool \<Rightarrow> c_long \<Rightarrow> dyn_line \<Rightarrow> dyn_line kresult" where
  "dyn_tasklet_isr alloc jif s =
     (if \<not> alloc then Inl NullDeref
      else Inr (s\<lparr>dyn_th := dyn_th s + 1, items := items s @ [jif], arrived := arrived s @ [jif]\<rparr>))"

(* src: interrupts/lab4_one_tasklet_dynamic.c:26-34 t_fun *)
definition dyn_tasklet_bh :: "dyn_line \<Rightarrow> dyn_line option" where
  "dyn_tasklet_bh = dyn_work_bh"

fun dyn_line_step :: "dyn_line \<Rightarrow> dyn_event \<Rightarrow> dyn_line \<Rightarrow> bool" where
  "dyn_line_step s (Dyn_irq alloc jif) t \<longleftrightarrow> dyn_work_isr alloc jif s = Inr t"
| "dyn_line_step s Dyn_bottom t \<longleftrightarrow> dyn_work_bh s = Some t"

lemma dyn_tasklet_same: "dyn_tasklet_isr = dyn_work_isr" "dyn_tasklet_bh = dyn_work_bh"
  by (intro ext, simp add: dyn_tasklet_isr_def dyn_work_isr_def, simp add: dyn_tasklet_bh_def)

definition dyn_line_inv :: "dyn_line \<Rightarrow> bool" where
  "dyn_line_inv s \<longleftrightarrow> arrived s = printed s @ items s \<and>
     dyn_th s = of_nat (length (arrived s)) \<and> dyn_bh s = of_nat (length (printed s))"

definition dyn_line_start :: dyn_line where
  "dyn_line_start = \<lparr>dyn_th = 0, dyn_bh = 0, items = [], printed = [], arrived = []\<rparr>"

interpretation dyn_one_line: invariant_system "\<lambda>s. s = dyn_line_start" dyn_line_step dyn_line_inv
proof (unfold_locales, goal_cases)
  case (1 s)
  then show ?case by (simp add: dyn_line_inv_def dyn_line_start_def)
next
  case (2 s ev t)
  then show ?case
    by (cases ev) (auto simp: dyn_line_inv_def dyn_work_isr_def dyn_work_bh_def split: if_splits list.splits)
qed

text \<open>With a work item (or a tasklet) allocated for each interrupt, no interrupt is lost and none is
  counted twice: at every moment what the bottom halves printed, followed by what is queued, is the times of
  all interrupts in their order; the interrupt counter is the other counter and the number of queued items. An allocation that fails is followed by a null pointer access in the handler.\<close>

theorem one_item_per_interrupt:
  assumes "run dyn_line_step dyn_line_start evs s"
  shows "printed s @ items s = arrived s \<and> dyn_th s = dyn_bh s + of_nat (length (items s)) \<and>
    arrived s = concat (map (\<lambda>e. case e of Dyn_irq _ jif \<Rightarrow> [jif] | Dyn_bottom \<Rightarrow> []) evs) \<and>
    (\<forall>jif. dyn_work_isr False jif s = Inl NullDeref \<and> dyn_tasklet_isr False jif s = Inl NullDeref)"
proof -
  have a: "arrived t = arrived u @ concat (map (\<lambda>e. case e of Dyn_irq _ jif \<Rightarrow> [jif] | Dyn_bottom \<Rightarrow> []) evs)"
    if "run dyn_line_step u evs t" for u t
    using that
  proof (induction rule: run.induct)
    case (run_cons s l t ls u)
    then show ?case
      by (cases l) (auto simp: dyn_work_isr_def dyn_work_bh_def split: if_splits list.splits)
  qed simp
  have "dyn_line_inv s" by (rule dyn_one_line.inv_reachable [OF refl assms])
  then show ?thesis
    using a [OF assms]
    by (simp add: dyn_line_inv_def dyn_line_start_def dyn_work_isr_def dyn_tasklet_isr_def)
qed

theorem one_item_per_interrupt_witness:
  "\<exists>s. run dyn_line_step dyn_line_start [Dyn_irq True 5, Dyn_irq True 9, Dyn_bottom] s \<and> printed s @ items s = [5, 9]"
proof -
  have "\<exists>s. run dyn_line_step dyn_line_start [Dyn_irq True 5, Dyn_irq True 9, Dyn_bottom] s"
    by (simp add: run_cons_iff dyn_line_start_def dyn_work_isr_def dyn_work_bh_def)
  then obtain s where r: "run dyn_line_step dyn_line_start [Dyn_irq True 5, Dyn_irq True 9, Dyn_bottom] s" ..
  from one_item_per_interrupt [OF r] r show ?thesis by auto
qed

end
