(* ===== verification/Irq_Lines.thy ===== *)
theory Irq_Lines
  imports Irq_Table
begin

text \<open>
  The labs of \<open>src/interrupts\<close> that watch all interrupt lines and defer by work items or by one kernel
  thread, over the counters of \<open>lab_all_interrupt.h\<close>.
\<close>

section \<open>Work items\<close>

text \<open>One work item for all lines, pending at most once, like the tasklet.\<close>

(* src: interrupts/lab6_all_workqueue.c:33-42 my_interrupt *)
definition all_work_isr :: "nat \<Rightarrow> shared_sys \<Rightarrow> shared_sys kresult" where
  "all_work_isr = shared_isr"

(* src: interrupts/lab6_all_workqueue.c:27-31 w_fun *)
definition all_work_bh :: "shared_sys \<Rightarrow> shared_sys kresult option" where
  "all_work_bh = shared_bh"

text \<open>A work item for each interrupt.\<close>

(* src: interrupts/lab7_all_workqueue_dynamic.c:34-47 my_interrupt *)
definition work_each_isr :: "bool \<Rightarrow> nat \<Rightarrow> dyn_sys \<Rightarrow> dyn_sys kresult" where
  "work_each_isr = dyn_isr"

(* src: interrupts/lab7_all_workqueue_dynamic.c:27-32 w_fun *)
definition work_each_bh :: "dyn_sys \<Rightarrow> dyn_sys kresult option" where
  "work_each_bh = dyn_bh"

section \<open>One kernel thread for all lines\<close>

text \<open>
  Where the thread is: reading the number of the line, clearing the condition, in the wait, at the test that follows it,
  at the increment, at the loop's test, gone.
\<close>

datatype lt_pc = LtRead | LtClear | LtWait | LtTest | LtInc | LtLoop | LtGone

(* src: interrupts/lab6_all_thread.c:22-29 cond, tsk, my_dat *)
record lt_sys =
  lt_table :: irq_table
  lt_irq :: nat
  lt_cond :: bool
  lt_stop :: bool
  lt_pc :: lt_pc
  lt_local :: nat

(* src: interrupts/lab6_all_thread.c:31-41 my_interrupt *)
definition lt_isr :: "nat \<Rightarrow> lt_sys \<Rightarrow> lt_sys kresult" where
  "lt_isr irq s =
     (case atomic_inc (ramdisk (lt_table s)) (interrupts_at irq) of
        Inl f \<Rightarrow> Inl f
      | Inr p \<Rightarrow> Inr (s\<lparr>lt_irq := irq, lt_cond := True, lt_table := (lt_table s)\<lparr>ramdisk := p\<rparr>\<rparr>))"

text \<open>\<open>None\<close> is a thread that waits or is gone.\<close>

(* src: interrupts/lab6_all_thread.c:43-59 thr_fun *)
definition lt_thread :: "lt_sys \<Rightarrow> lt_sys kresult option" where
  "lt_thread s =
     (case lt_pc s of
        LtRead \<Rightarrow> Some (Inr (s\<lparr>lt_local := lt_irq s, lt_pc := LtClear\<rparr>))
      | LtClear \<Rightarrow> Some (Inr (s\<lparr>lt_cond := False, lt_pc := LtWait\<rparr>))
      | LtWait \<Rightarrow> if lt_stop s \<or> lt_cond s then Some (Inr (s\<lparr>lt_pc := LtTest\<rparr>)) else None
      | LtTest \<Rightarrow> Some (Inr (s\<lparr>lt_pc := if lt_cond s then LtInc else LtLoop\<rparr>))
      | LtInc \<Rightarrow>
          Some (case atomic_inc (ramdisk (lt_table s)) (bhs_at (lt_table s) (lt_local s)) of
                  Inl f \<Rightarrow> Inl f
                | Inr p \<Rightarrow> Inr (s\<lparr>lt_table := (lt_table s)\<lparr>ramdisk := p\<rparr>, lt_pc := LtLoop\<rparr>))
      | LtLoop \<Rightarrow> Some (Inr (s\<lparr>lt_pc := if lt_stop s then LtGone else LtRead\<rparr>))
      | LtGone \<Rightarrow> None)"

datatype lt_event = Lt_irq nat | Lt_run | Lt_stop

fun lt_step :: "lt_sys \<Rightarrow> lt_event \<Rightarrow> lt_sys \<Rightarrow> bool" where
  "lt_step s (Lt_irq irq) t \<longleftrightarrow> lt_isr irq s = Inr t"
| "lt_step s Lt_run t \<longleftrightarrow> lt_thread s = Some (Inr t)"
| "lt_step s Lt_stop t \<longleftrightarrow> t = s\<lparr>lt_stop := True\<rparr>"

text \<open>The thread waits, and no interrupt came since it read the number of the line.\<close>

definition lt_parked :: "nat \<Rightarrow> c_int list \<Rightarrow> nat \<Rightarrow> lt_sys \<Rightarrow> bool" where
  "lt_parked n m p s \<longleftrightarrow> ramdisk (lt_table s) = Ptr m \<and> nr_irqs (lt_table s) = n \<and> n + n \<le> length m \<and>
     lt_irq s = p \<and> lt_local s = p \<and> p < n \<and> lt_pc s = LtWait \<and> \<not> lt_cond s \<and> \<not> lt_stop s"

text \<open>An interrupt, and the whole round of the thread that it sets off.\<close>

definition lt_round :: "nat \<Rightarrow> lt_event list" where
  "lt_round irq = Lt_irq irq # replicate 6 Lt_run"

lemma lt_round_run:
  assumes "lt_parked n m p s" and "irq < n"
  shows "\<exists>t. run lt_step s (lt_round irq) t \<and> lt_parked n (m[irq := m ! irq + 1, n + p := m ! (n + p) + 1]) irq t"
  using assms
  by (auto simp: lt_round_def lt_parked_def run_cons_iff lt_isr_def lt_thread_def at_defs eval_nat_numeral)

lemma lt_rounds:
  "lt_parked n m p s \<Longrightarrow> set irqs \<subseteq> {..<n} \<Longrightarrow>
   \<exists>t m'. run lt_step s (concat (map lt_round irqs)) t \<and> lt_parked n m' (last (p # irqs)) t \<and>
     (\<forall>i < n. m' ! i = m ! i + of_nat (count_list irqs i) \<and>
        m' ! (n + i) = m ! (n + i) + of_nat (count_list (butlast (p # irqs)) i))"
proof (induction irqs arbitrary: m p s)
  case Nil
  then show ?case by auto
next
  case (Cons irq irqs)
  let ?m = "m[irq := m ! irq + 1, n + p := m ! (n + p) + 1]"
  obtain u where u: "run lt_step s (lt_round irq) u" "lt_parked n ?m irq u"
    using lt_round_run [OF Cons.prems(1), of irq] Cons.prems(2) by auto
  obtain t m' where t: "run lt_step u (concat (map lt_round irqs)) t" "lt_parked n m' (last (irq # irqs)) t"
    and m': "\<forall>i < n. m' ! i = ?m ! i + of_nat (count_list irqs i) \<and>
        m' ! (n + i) = ?m ! (n + i) + of_nat (count_list (butlast (irq # irqs)) i)"
    using Cons.IH [OF u(2)] Cons.prems(2) by auto
  have l: "n + n \<le> length m" "p < n" "irq < n" using Cons.prems by (auto simp: lt_parked_def)
  have "m' ! i = m ! i + of_nat (count_list (irq # irqs) i) \<and>
      m' ! (n + i) = m ! (n + i) + of_nat (count_list (butlast (p # irq # irqs)) i)" if "i < n" for i
    using m' l that by (auto simp: nth_list_update)
  then show ?case using run_append [OF u(1) t(1)] t(2) by (intro exI conjI) auto
qed

definition lt_start :: "irq_table \<Rightarrow> lt_sys" where
  "lt_start t = \<lparr>lt_table = t, lt_irq = 0, lt_cond = True, lt_stop = False, lt_pc = LtRead, lt_local = 0\<rparr>"

text \<open>The thread for all lines reads the number of the line before it waits for the interrupt. Even when it keeps up with
  the interrupts, one at a time, each is therefore counted by the thread on the line of the interrupt
  before it, the first on line 0; the interrupts themselves are counted on their own lines.\<close>

theorem all_thread_charges_previous:
  assumes "n + n \<le> length m" and "0 < n" and "set irqs \<subseteq> {..<n}"
  shows "\<exists>t m'. run lt_step (lt_start (table_of n m q)) ([Lt_run, Lt_run] @ concat (map lt_round irqs)) t \<and>
    ramdisk (lt_table t) = Ptr m' \<and>
    (\<forall>i < n. m' ! i = m ! i + of_nat (count_list irqs i) \<and>
       m' ! (n + i) = m ! (n + i) + of_nat (count_list (butlast (0 # irqs)) i))"
proof -
  let ?s = "(lt_start (table_of n m q))\<lparr>lt_cond := False, lt_pc := LtWait\<rparr>"
  have r: "run lt_step (lt_start (table_of n m q)) [Lt_run, Lt_run] ?s"
    by (simp add: run_cons_iff lt_thread_def lt_start_def)
  have "lt_parked n m 0 ?s" using assms(1,2) by (simp add: lt_parked_def lt_start_def table_of_def)
  from lt_rounds [OF this assms(3)] obtain t m' where
    t: "run lt_step ?s (concat (map lt_round irqs)) t" "lt_parked n m' (last (0 # irqs)) t"
    and m': "\<forall>i < n. m' ! i = m ! i + of_nat (count_list irqs i) \<and>
       m' ! (n + i) = m ! (n + i) + of_nat (count_list (butlast (0 # irqs)) i)" by blast
  show ?thesis using run_append [OF r t(1)] t(2) m' unfolding lt_parked_def by blast
qed

text \<open>Three interrupts of line 1: two are counted on it by the thread, and one on line 0, which had none.\<close>

theorem all_thread_charges_previous_witness:
  "\<exists>t m'. run lt_step (lt_start (table_of 2 [0, 0, 0, 0] [0, 0])) ([Lt_run, Lt_run] @ concat (map lt_round [1, 1, 1])) t \<and>
    ramdisk (lt_table t) = Ptr m' \<and> m' ! 0 = 0 \<and> m' ! 1 = 3 \<and> m' ! 2 = 1 \<and> m' ! 3 = 2"
proof -
  obtain t m' where t: "run lt_step (lt_start (table_of 2 [0, 0, 0, 0] [0, 0])) ([Lt_run, Lt_run] @ concat (map lt_round [1, 1, 1])) t"
    "ramdisk (lt_table t) = Ptr m'"
    and m': "\<forall>i < 2. m' ! i = [0, 0, 0, 0] ! i + of_nat (count_list [1, 1, 1] i) \<and>
       m' ! (2 + i) = [0, 0, 0, 0] ! (2 + i) + of_nat (count_list (butlast [0, 1, 1, 1]) i)"
    using all_thread_charges_previous [of 2 "[0, 0, 0, 0]" "[1, 1, 1]" "[0, 0]"] by auto
  have "m' ! 0 = 0 \<and> m' ! 2 = 1" using spec [OF m', of 0] by simp
  moreover have "m' ! 1 = 3 \<and> m' ! 3 = 2" using spec [OF m', of 1] by (simp add: eval_nat_numeral)
  ultimately show ?thesis using t by blast
qed

end
