(* ===== verification/Irq_Labs.thy ===== *)
theory Irq_Labs
  imports Defer Printf
begin

text \<open>
  The smaller labs of \<open>src/interrupts\<close>: the keyboard's interrupt with and without a bottom half
  (\<open>lab1_interrupt.c\<close>, \<open>lab2_interrupt.c\<close>, \<open>lab3_tasklet.c\<close>, \<open>lab3_workqueue.c\<close>), work that a write puts off
  (\<open>lab3_workqueue_private.c\<close>, \<open>lab3_workqueue_newapi.c\<close>, \<open>lab3_workqueue_shared.c\<close>), and interrupts that are counted for a
  reader (\<open>lab9_uio.c\<close>).
\<close>

unbundle bit_operations_syntax

section \<open>The keyboard\<close>

text \<open>
  \<open>kbd_seen\<close> holds what the handler printed, a code and whether the key was released; \<open>kbd_log\<close> what the bottom half printed;
  \<open>kbd_keys\<close> the codes of all interrupts. \<open>kbd_setting\<close> is the code that a handler in
  progress still has to store.
\<close>

record kbd =
  kbd_count :: c_int
  kbd_code :: byte
  kbd_pending :: bool
  kbd_setting :: "byte option"
  kbd_seen :: "(byte \<times> bool) list"
  kbd_log :: "byte list"
  kbd_keys :: "byte list"

definition scan_code :: "byte \<Rightarrow> byte" where
  "scan_code sc = sc AND 0x7f"

(* src: interrupts/lab1_interrupt.c:19-24 my_interrupt *)
definition count_interrupt :: "kbd \<Rightarrow> irqreturn \<times> kbd" where
  "count_interrupt s = (IRQ_NONE, s\<lparr>kbd_count := kbd_count s + 1\<rparr>)"

(* src: interrupts/lab2_interrupt.c:22-32 my_interrupt *)
definition print_interrupt :: "byte \<Rightarrow> kbd \<Rightarrow> irqreturn \<times> kbd" where
  "print_interrupt sc s =
     (IRQ_NONE, s\<lparr>kbd_count := kbd_count s + 1, kbd_seen := kbd_seen s @ [(scan_code sc, sc AND 0x80 \<noteq> 0)]\<rparr>)"

text \<open>The tasklet of the first driver is scheduled once its data is complete.\<close>

(* src: interrupts/lab3_tasklet.c:43-57 my_interrupt *)
definition kbd_tasklet_interrupt :: "byte \<Rightarrow> kbd \<Rightarrow> irqreturn \<times> kbd" where
  "kbd_tasklet_interrupt sc s =
     (IRQ_HANDLED, s\<lparr>kbd_count := kbd_count s + 1, kbd_seen := kbd_seen s @ [(scan_code sc, sc AND 0x80 \<noteq> 0)],
       kbd_code := scan_code sc, kbd_pending := True, kbd_keys := kbd_keys s @ [scan_code sc]\<rparr>)"

(* src: interrupts/lab3_tasklet.c:30-40 tasklet_handler, t_name *)
definition tasklet_handler :: "kbd \<Rightarrow> kbd option" where
  "tasklet_handler s =
     (if kbd_pending s then Some (s\<lparr>kbd_pending := False, kbd_log := kbd_log s @ [kbd_code s]\<rparr>) else None)"

text \<open>The work of the second is scheduled first; another CPU can run it before the code is stored.\<close>

(* src: interrupts/lab3_workqueue.c:38-57 my_interrupt *)
fun kbd_work_interrupt :: "byte option \<Rightarrow> kbd \<Rightarrow> (irqreturn option \<times> kbd) option" where
  "kbd_work_interrupt (Some sc) s =
     (if kbd_setting s \<noteq> None then None
      else Some (None, s\<lparr>kbd_count := kbd_count s + 1, kbd_seen := kbd_seen s @ [(scan_code sc, sc AND 0x80 \<noteq> 0)],
        kbd_pending := True, kbd_setting := Some (scan_code sc), kbd_keys := kbd_keys s @ [scan_code sc]\<rparr>))"
| "kbd_work_interrupt None s =
     (case kbd_setting s of
        None \<Rightarrow> None
      | Some c \<Rightarrow> Some (Some IRQ_NONE, s\<lparr>kbd_code := c, kbd_setting := None\<rparr>))"

(* src: interrupts/lab3_workqueue.c:29-35 w_fun *)
definition kbd_w_fun :: "kbd \<Rightarrow> kbd option" where
  "kbd_w_fun s =
     (if kbd_pending s then Some (s\<lparr>kbd_pending := False, kbd_log := kbd_log s @ [kbd_code s]\<rparr>) else None)"

text \<open>An interrupt, the rest of its handler where it is in two pieces, and the bottom half.\<close>

datatype kbd_event = Key byte | Stored | KbdBottom

fun kbd_tasklet_step :: "kbd \<Rightarrow> kbd_event \<Rightarrow> kbd \<Rightarrow> bool" where
  "kbd_tasklet_step s (Key sc) t \<longleftrightarrow> t = snd (kbd_tasklet_interrupt sc s)"
| "kbd_tasklet_step s Stored t \<longleftrightarrow> False"
| "kbd_tasklet_step s KbdBottom t \<longleftrightarrow> tasklet_handler s = Some t"

fun kbd_work_step :: "kbd \<Rightarrow> kbd_event \<Rightarrow> kbd \<Rightarrow> bool" where
  "kbd_work_step s (Key sc) t \<longleftrightarrow> map_option snd (kbd_work_interrupt (Some sc) s) = Some t"
| "kbd_work_step s Stored t \<longleftrightarrow> map_option snd (kbd_work_interrupt None s) = Some t"
| "kbd_work_step s KbdBottom t \<longleftrightarrow> kbd_w_fun s = Some t"

definition kbd_start :: kbd where
  "kbd_start = \<lparr>kbd_count = 0, kbd_code = 0, kbd_pending = False, kbd_setting = None, kbd_seen = [], kbd_log = [],
     kbd_keys = []\<rparr>"

text \<open>The last code is stored and, if the bottom half is not to come, was the last it printed.\<close>

definition kbd_inv :: "kbd \<Rightarrow> bool" where
  "kbd_inv s \<longleftrightarrow>
     (kbd_keys s \<noteq> [] \<longrightarrow> kbd_code s = last (kbd_keys s) \<and>
        (\<not> kbd_pending s \<longrightarrow> kbd_log s \<noteq> [] \<and> last (kbd_log s) = last (kbd_keys s))) \<and>
     map fst (kbd_seen s) = kbd_keys s \<and> set (kbd_log s) \<subseteq> set (kbd_keys s) \<and>
     (kbd_pending s \<longrightarrow> kbd_keys s \<noteq> []) \<and>
     length (kbd_log s) + (if kbd_pending s then 1 else 0) \<le> length (kbd_keys s)"

lemma kbd_inv_start: "kbd_inv kbd_start"
  by (simp add: kbd_inv_def kbd_start_def)

lemma kbd_inv_step: "kbd_inv s \<Longrightarrow> kbd_tasklet_step s ev t \<Longrightarrow> kbd_inv t"
  by (cases ev) (auto simp: kbd_inv_def kbd_tasklet_interrupt_def tasklet_handler_def split: if_splits)

interpretation kbd_tasklet: invariant_system "\<lambda>s. s = kbd_start" kbd_tasklet_step kbd_inv
  by unfold_locales (auto intro: kbd_inv_start kbd_inv_step)

text \<open>The keyboard's tasklet, under every interleaving: it prints only codes that the handler saw, at most one for each
  interrupt, and once it is not pending the last code it printed is that of the last key; a key is never left unprinted while nothing is pending
  except behind a later one. The work item of the other driver, which is scheduled before
  its data is stored, can print a code that was not that of any key, and leave the last key unprinted with nothing pending.\<close>

theorem keyboard_bottom_halves:
  "(run kbd_tasklet_step kbd_start evs s \<longrightarrow>
      set (kbd_log s) \<subseteq> set (map fst (kbd_seen s)) \<and> length (kbd_log s) \<le> length (kbd_seen s) \<and>
      (\<not> kbd_pending s \<and> kbd_seen s \<noteq> [] \<longrightarrow> kbd_log s \<noteq> [] \<and> last (kbd_log s) = fst (last (kbd_seen s)))) \<and>
   (\<exists>u. run kbd_work_step kbd_start [Key 30, KbdBottom, Stored] u \<and> \<not> kbd_pending u \<and> kbd_setting u = None \<and>
      map fst (kbd_seen u) = [30] \<and> kbd_log u = [0])"
proof
  show "run kbd_tasklet_step kbd_start evs s \<longrightarrow>
      set (kbd_log s) \<subseteq> set (map fst (kbd_seen s)) \<and> length (kbd_log s) \<le> length (kbd_seen s) \<and>
      (\<not> kbd_pending s \<and> kbd_seen s \<noteq> [] \<longrightarrow> kbd_log s \<noteq> [] \<and> last (kbd_log s) = fst (last (kbd_seen s)))"
  proof
    assume "run kbd_tasklet_step kbd_start evs s"
    then have inv: "kbd_inv s" by (rule kbd_tasklet.inv_reachable [OF refl])
    have k: "kbd_keys s = map fst (kbd_seen s)" using inv by (simp add: kbd_inv_def)
    have n: "length (kbd_keys s) = length (kbd_seen s)" unfolding k by simp
    show "set (kbd_log s) \<subseteq> set (map fst (kbd_seen s)) \<and> length (kbd_log s) \<le> length (kbd_seen s) \<and>
      (\<not> kbd_pending s \<and> kbd_seen s \<noteq> [] \<longrightarrow> kbd_log s \<noteq> [] \<and> last (kbd_log s) = fst (last (kbd_seen s)))"
      using inv n unfolding kbd_inv_def by (auto simp: k last_map)
  qed
  show "\<exists>u. run kbd_work_step kbd_start [Key 30, KbdBottom, Stored] u \<and> \<not> kbd_pending u \<and> kbd_setting u = None \<and>
      map fst (kbd_seen u) = [30] \<and> kbd_log u = [0]"
    by (simp add: run_cons_iff kbd_w_fun_def kbd_start_def scan_code_def)
qed

theorem keyboard_bottom_halves_witness:
  "\<exists>s. run kbd_tasklet_step kbd_start [Key 30, Key 158, KbdBottom] s \<and> last (kbd_log s) = 30"
proof -
  have "\<exists>s. run kbd_tasklet_step kbd_start [Key 30, Key 158, KbdBottom] s \<and> \<not> kbd_pending s \<and>
      kbd_seen s = [(30, False), (30, True)]"
    by (simp add: run_cons_iff kbd_tasklet_interrupt_def tasklet_handler_def kbd_start_def scan_code_def)
  then obtain s where r: "run kbd_tasklet_step kbd_start [Key 30, Key 158, KbdBottom] s"
    and s: "\<not> kbd_pending s" "kbd_seen s = [(30, False), (30, True)]" by blast
  from keyboard_bottom_halves [THEN conjunct1, of "[Key 30, Key 158, KbdBottom]" s] r s show ?thesis by auto
qed

section \<open>Work that a write puts off\<close>

text \<open>
  A write queues the one work item and then adds 100 to its data, in two pieces: \<open>adding\<close> writes are between
  them. \<open>q_prints\<close> is what the work printed.
\<close>

(* src: interrupts/lab3_workqueue_private.c:48-53 my_workq, my_data *)
record qwork =
  q_ok :: bool
  q_len :: c_int
  q_pending :: bool
  q_adding :: nat
  q_writes :: nat
  q_prints :: "c_int list"

text \<open>The answer of \<open>create_workqueue\<close> is not looked at.\<close>

(* src: interrupts/lab3_workqueue_private.c:87-94 my_init *)
definition qwork_init :: "bool \<Rightarrow> qwork" where
  "qwork_init alloc = \<lparr>q_ok = alloc, q_len = 100, q_pending = False, q_adding = 0, q_writes = 0, q_prints = []\<rparr>"

(* src: interrupts/lab3_workqueue_private.c:67-73 mycdrv_write (queue_work) *)
definition qwork_queue :: "qwork \<Rightarrow> qwork kresult" where
  "qwork_queue s =
     (if \<not> q_ok s then Inl NullDeref
      else Inr (s\<lparr>q_pending := True, q_adding := q_adding s + 1, q_writes := q_writes s + 1\<rparr>))"

(* src: interrupts/lab3_workqueue_private.c:74-76 mycdrv_write (atomic_add) *)
definition qwork_add :: "size_t \<Rightarrow> qwork \<Rightarrow> (int \<times> qwork) option" where
  "qwork_add lbuf s =
     (if q_adding s = 0 then None
      else Some (sint lbuf, s\<lparr>q_len := q_len s + 100, q_adding := q_adding s - 1\<rparr>))"

(* src: interrupts/lab3_workqueue_private.c:55-61 w_fun *)
definition qwork_fun :: "qwork \<Rightarrow> qwork option" where
  "qwork_fun s =
     (if q_pending s then Some (s\<lparr>q_pending := False, q_prints := q_prints s @ [q_len s]\<rparr>) else None)"

text \<open>Destroying the queue waits for what is on it. The module on the shared queue does not.\<close>

(* src: interrupts/lab3_workqueue_private.c:96-100 my_exit *)
definition qwork_exit :: "qwork \<Rightarrow> qwork kresult" where
  "qwork_exit s = (if \<not> q_ok s then Inl NullDeref else Inr (case qwork_fun s of None \<Rightarrow> s | Some t \<Rightarrow> t))"

text \<open>The module that calls the newer function to create its queue.\<close>

(* src: interrupts/lab3_workqueue_newapi.c:63-77 mycdrv_write *)
definition newapi_queue :: "qwork \<Rightarrow> qwork kresult" where
  "newapi_queue = qwork_queue"

(* src: interrupts/lab3_workqueue_newapi.c:87-100 my_init, my_exit *)
definition newapi_init :: "bool \<Rightarrow> qwork" where
  "newapi_init = qwork_init"

text \<open>The module on the kernel's queue, which always exists.\<close>

(* src: interrupts/lab3_workqueue_shared.c:84-90 my_init *)
definition shared_work_init :: qwork where
  "shared_work_init = qwork_init True"

(* src: interrupts/lab3_workqueue_shared.c:61-74 mycdrv_write *)
definition shared_write_queue :: "qwork \<Rightarrow> qwork kresult" where
  "shared_write_queue = qwork_queue"

datatype qwork_event = Q_queue | Q_add size_t | Q_run

fun qwork_step :: "qwork \<Rightarrow> qwork_event \<Rightarrow> qwork \<Rightarrow> bool" where
  "qwork_step s Q_queue t \<longleftrightarrow> qwork_queue s = Inr t"
| "qwork_step s (Q_add lbuf) t \<longleftrightarrow> qwork_add lbuf s = Some (sint lbuf, t)"
| "qwork_step s Q_run t \<longleftrightarrow> qwork_fun s = Some t"

text \<open>The \<open>k\<close>-th value is what the data is after \<open>k\<close> writes.\<close>

definition q_value :: "nat \<Rightarrow> c_int" where
  "q_value k = of_nat (100 * (k + 1))"

definition q_history :: "nat \<Rightarrow> c_int list \<Rightarrow> bool" where
  "q_history n ps \<longleftrightarrow> (\<exists>ks. ps = map q_value ks \<and> sorted ks \<and> (\<forall>k \<in> set ks. k \<le> n))"

lemma q_history_nil: "q_history n []"
  by (simp add: q_history_def)

lemma q_history_Suc: "q_history n ps \<Longrightarrow> q_history (Suc n) ps"
  by (auto simp: q_history_def intro: le_SucI)

lemma q_history_snoc: "q_history n ps \<Longrightarrow> q_history n (ps @ [q_value n])"
proof -
  assume "q_history n ps"
  then obtain ks where "ps = map q_value ks" "sorted ks" "\<forall>k \<in> set ks. k \<le> n" by (auto simp: q_history_def)
  then have "ps @ [q_value n] = map q_value (ks @ [n]) \<and> sorted (ks @ [n]) \<and> (\<forall>k \<in> set (ks @ [n]). k \<le> n)"
    by (auto simp: sorted_append)
  then show ?thesis unfolding q_history_def by blast
qed

definition qwork_inv :: "qwork \<Rightarrow> bool" where
  "qwork_inv s \<longleftrightarrow> q_adding s \<le> q_writes s \<and> q_len s = q_value (q_writes s - q_adding s) \<and>
     q_history (q_writes s - q_adding s) (q_prints s) \<and>
     length (q_prints s) + (if q_pending s then 1 else 0) \<le> q_writes s \<and>
     (0 < q_writes s \<longrightarrow> q_pending s \<or> q_prints s \<noteq> [])"

lemma q_value_Suc: "q_value k + 100 = q_value (Suc k)"
  by (simp add: q_value_def algebra_simps)

lemma qwork_queue_inv: "qwork_inv s \<Longrightarrow> qwork_queue s = Inr t \<Longrightarrow> qwork_inv t"
  by (auto simp: qwork_inv_def qwork_queue_def split: if_splits)

lemma qwork_add_inv: "qwork_inv s \<Longrightarrow> qwork_add lbuf s = Some (r, t) \<Longrightarrow> qwork_inv t"
proof -
  assume inv: "qwork_inv s" and st: "qwork_add lbuf s = Some (r, t)"
  from st have a: "0 < q_adding s" and t: "t = s\<lparr>q_len := q_len s + 100, q_adding := q_adding s - 1\<rparr>"
    by (auto simp: qwork_add_def split: if_splits)
  from inv a have e: "q_writes s - (q_adding s - Suc 0) = Suc (q_writes s - q_adding s)"
    by (auto simp: qwork_inv_def)
  show ?thesis using inv unfolding qwork_inv_def t by (auto simp: e q_value_Suc q_history_Suc)
qed

lemma qwork_run_inv: "qwork_inv s \<Longrightarrow> qwork_fun s = Some t \<Longrightarrow> qwork_inv t"
  by (auto simp: qwork_inv_def qwork_fun_def q_history_snoc split: if_splits)

interpretation qwork: invariant_system "\<lambda>s. s = qwork_init alloc" qwork_step qwork_inv for alloc
proof (unfold_locales, goal_cases)
  case (1 s)
  then show ?case by (simp add: qwork_inv_def qwork_init_def q_value_def q_history_nil)
next
  case (2 s ev t)
  then show ?case by (cases ev) (auto intro: qwork_queue_inv qwork_add_inv qwork_run_inv)
qed

text \<open>The work of a write, under every interleaving of writers and the queue: it runs at most once for each write and
  is pending or has run after any; what it prints are values that the data had, 100 and 100 more for each write that
  had done its addition by then, never going back. Since the write queues the work before it adds, the
  last print can be without the last write. Where the queue could not be created every write is a null pointer access.\<close>

theorem queued_writes:
  assumes "run qwork_step (qwork_init alloc) evs s"
  shows "length (q_prints s) \<le> q_writes s \<and> (0 < q_writes s \<longrightarrow> q_pending s \<or> q_prints s \<noteq> []) \<and>
    (\<exists>ks. q_prints s = map q_value ks \<and> sorted ks \<and> (\<forall>k \<in> set ks. k \<le> q_writes s - q_adding s)) \<and>
    (\<not> alloc \<longrightarrow> q_writes s = 0 \<and> qwork_queue s = Inl NullDeref)"
proof -
  have inv: "qwork_inv s" by (rule qwork.inv_reachable [OF refl assms])
  have ok: "q_ok s = alloc"
    by (rule run_preserves [OF assms])
      (simp add: qwork_init_def, case_tac l, auto simp: qwork_queue_def qwork_add_def qwork_fun_def split: if_splits)
  have "q_writes s = 0" if "\<not> alloc"
  proof -
    have "q_writes s = 0 \<and> \<not> q_ok s"
      by (rule run_preserves [OF assms])
        (use that in \<open>simp add: qwork_init_def\<close>, case_tac l, auto simp: qwork_queue_def qwork_add_def qwork_fun_def split: if_splits)
    then show ?thesis ..
  qed
  then show ?thesis using inv ok by (auto simp: qwork_inv_def qwork_queue_def q_history_def)
qed

theorem queued_writes_witness:
  "\<exists>s. run qwork_step (qwork_init True) [Q_queue, Q_run, Q_add 4, Q_queue, Q_add 4] s \<and> q_prints s = [100] \<and> q_pending s"
proof -
  have "\<exists>s. run qwork_step (qwork_init True) [Q_queue, Q_run, Q_add 4, Q_queue, Q_add 4] s \<and> q_prints s = [100] \<and>
      q_pending s"
    by (simp add: run_cons_iff qwork_init_def qwork_queue_def qwork_add_def qwork_fun_def)
  then obtain s where r: "run qwork_step (qwork_init True) [Q_queue, Q_run, Q_add 4, Q_queue, Q_add 4] s"
    and s: "q_prints s = [100]" "q_pending s" by blast
  from queued_writes [OF r] r s show ?thesis by blast
qed

section \<open>Interrupts counted for a reader\<close>

text \<open>
  Where a reader is: outside, past its wait, past its reading of the counter. \<open>u_told\<close> is what readers
  were given, a number for each read, \<open>u_raised\<close> the number of interrupts.
\<close>

datatype uio_pc = UIdle | UWoken | UTook c_int

(* src: interrupts/lab9_uio.c:42-48 wq, nevents *)
record uio =
  u_events :: c_int
  u_pc :: "nat \<Rightarrow> uio_pc"
  u_told :: "nat list"
  u_raised :: nat

(* src: interrupts/lab9_uio.c:50-55 my_interrupt *)
definition uio_interrupt :: "uio \<Rightarrow> uio" where
  "uio_interrupt s = s\<lparr>u_events := u_events s + 1, u_raised := u_raised s + 1\<rparr>"

text \<open>A reader waits (\<open>None\<close>) until there are events or a signal; a signal ends the read whether or not there are events.\<close>

(* src: interrupts/lab9_uio.c:63-67 mycdrv_read (wait) *)
definition uio_wait :: "nat \<Rightarrow> bool \<Rightarrow> uio \<Rightarrow> (int option \<times> uio) option" where
  "uio_wait r sig s =
     (if u_pc s r \<noteq> UIdle \<or> \<not> (0 < sint (u_events s) \<or> sig) then None
      else if sig then Some (Some (- ERESTARTSYS), s)
      else Some (None, s\<lparr>u_pc := (u_pc s)(r := UWoken)\<rparr>))"

(* src: interrupts/lab9_uio.c:68-68 mycdrv_read (atomic_read) *)
definition uio_load :: "nat \<Rightarrow> uio \<Rightarrow> uio option" where
  "uio_load r s = (if u_pc s r = UWoken then Some (s\<lparr>u_pc := (u_pc s)(r := UTook (u_events s))\<rparr>) else None)"

text \<open>The reply is copied whatever the length of the reader's buffer is. A failed copy loses the events.\<close>

(* src: interrupts/lab9_uio.c:70-74 mycdrv_read (atomic_sub, sprintf, copy_to_user) *)
definition uio_reply :: "nat \<Rightarrow> nat \<Rightarrow> uio \<Rightarrow> (int \<times> string \<times> uio) option" where
  "uio_reply r left s =
     (case u_pc s r of
        UTook nev \<Rightarrow>
          let ret_str = fmt_d (sint nev); nc = length ret_str
          in Some (if left \<noteq> 0 then - EIO else int nc, take (nc - left) ret_str,
               s\<lparr>u_events := u_events s - nev, u_pc := (u_pc s)(r := UIdle), u_told := u_told s @ [unat nev]\<rparr>)
      | _ \<Rightarrow> None)"

(* src: interrupts/lab9_uio.c:77-85 mycdrv_poll *)
definition uio_poll :: "uio \<Rightarrow> int" where
  "uio_poll s = (if 0 < sint (u_events s) then 0x41 else 0)"

text \<open>An interrupt between the request of the line and the clearing of the counter is forgotten.\<close>

(* src: interrupts/lab9_uio.c:95-103 my_init *)
definition uio_init :: "bool \<Rightarrow> nat \<Rightarrow> int \<Rightarrow> unit ledger \<Rightarrow> int \<times> uio \<times> unit ledger" where
  "uio_init req early gen k =
     (let s = \<lparr>u_events = 0, u_pc = (\<lambda>_. UIdle), u_told = [], u_raised = 0\<rparr>
      in if \<not> req then (-1, s, k)
         else (gen, ((uio_interrupt ^^ early) s)\<lparr>u_events := 0\<rparr>, acquire () k))"

(* src: interrupts/lab9_uio.c:105-111 my_exit *)
definition uio_exit :: "unit ledger \<Rightarrow> unit ledger" where
  "uio_exit k = release () k"

datatype uio_event = U_irq | U_wait nat bool | U_load nat | U_reply nat nat

fun uio_step :: "uio \<Rightarrow> uio_event \<Rightarrow> uio \<Rightarrow> bool" where
  "uio_step s U_irq t \<longleftrightarrow> t = uio_interrupt s"
| "uio_step s (U_wait r sig) t \<longleftrightarrow> (\<exists>a. uio_wait r sig s = Some (a, t))"
| "uio_step s (U_load r) t \<longleftrightarrow> uio_load r s = Some t"
| "uio_step s (U_reply r left) t \<longleftrightarrow> (\<exists>a b. uio_reply r left s = Some (a, b, t))"

definition uio_start :: uio where
  "uio_start = \<lparr>u_events = 0, u_pc = (\<lambda>_. UIdle), u_told = [], u_raised = 0\<rparr>"

fun by_reader_0 :: "uio_event \<Rightarrow> bool" where
  "by_reader_0 U_irq = True"
| "by_reader_0 (U_wait r sig) = (r = 0)"
| "by_reader_0 (U_load r) = (r = 0)"
| "by_reader_0 (U_reply r left) = (r = 0)"

definition uio_inv :: "uio \<Rightarrow> bool" where
  "uio_inv s \<longleftrightarrow> (u_raised s < 2 ^ 31 \<longrightarrow>
     sum_list (u_told s) + unat (u_events s) = u_raised s \<and> (\<forall>n \<in> set (u_told s). 0 < n) \<and>
     (case u_pc s 0 of
        UIdle \<Rightarrow> True
      | UWoken \<Rightarrow> 0 < unat (u_events s)
      | UTook nev \<Rightarrow> 0 < unat nev \<and> nev \<le> u_events s))"

lemma uio_inv_irq: "uio_inv s \<Longrightarrow> uio_inv (uio_interrupt s)"
proof -
  assume inv: "uio_inv s"
  show ?thesis
  proof (cases "u_raised s + 1 < 2 ^ 31")
    case True
    with inv have l: "unat (u_events s) < 2 ^ 31" by (auto simp: uio_inv_def)
    then have u: "unat (u_events s + 1) = unat (u_events s) + 1" using unat_add_nowrap [of "u_events s" 1] by simp
    show ?thesis
      using inv True unfolding uio_inv_def uio_interrupt_def
      by (simp add: u word_le_nat_alt split: uio_pc.splits)
  qed (simp add: uio_inv_def uio_interrupt_def)
qed

lemma sint_positive:
  assumes "unat (w :: c_int) < 2 ^ 31"
  shows "0 < sint w \<longleftrightarrow> 0 < unat w"
  unfolding sint_small_32 [OF assms] by (rule of_nat_0_less_iff)

lemma uio_inv_step: "uio_step s ev t \<Longrightarrow> by_reader_0 ev \<Longrightarrow> uio_inv s \<Longrightarrow> uio_inv t"
proof (cases ev)
  case U_irq
  assume "uio_step s ev t" "uio_inv s"
  then show ?thesis using U_irq uio_inv_irq by simp
next
  case (U_load r)
  assume "uio_step s ev t" "by_reader_0 ev" "uio_inv s"
  then show ?thesis using U_load by (auto simp: uio_load_def uio_inv_def split: if_splits)
next
  case (U_wait r sig)
  assume "uio_step s ev t" "by_reader_0 ev" "uio_inv s"
  moreover have "u_raised s < 2 ^ 31 \<Longrightarrow> unat (u_events s) < 2 ^ 31"
    using \<open>uio_inv s\<close> by (auto simp: uio_inv_def)
  ultimately show ?thesis
    using U_wait by (auto simp: uio_wait_def uio_inv_def sint_positive split: if_splits)
next
  case (U_reply r left)
  assume a: "uio_step s ev t" "by_reader_0 ev" "uio_inv s"
  then obtain nev where nev: "u_pc s 0 = UTook nev"
    and t: "t = s\<lparr>u_events := u_events s - nev, u_pc := (u_pc s)(0 := UIdle), u_told := u_told s @ [unat nev]\<rparr>"
    using U_reply by (auto simp: uio_reply_def Let_def split: uio_pc.splits)
  show ?thesis
    using a(3) unfolding uio_inv_def t by (auto simp: nev unat_sub word_le_nat_alt)
qed

lemma length_fmt_c_int: "length (fmt_d (sint (w :: c_int))) \<le> 11"
  using sint_ge [of w] sint_lt [of w] by (intro length_fmt_int) simp_all



text \<open>When the device cannot be registered the load fails with the line still held.\<close>

lemma uio_init_keeps_line: "gen < 0 \<Longrightarrow> fst (uio_init True early gen k) < 0 \<and> snd (snd (uio_init True early gen k)) = acquire () k"
  by (simp add: uio_init_def Let_def)

end
