(* ===== verification/Putget.thy ===== *)
theory Putget
  imports Lab_Char Iomem
begin

text \<open>
  \<open>src/io/lab1_putget.c\<close>: the generic driver's read and write with \<open>put_user\<close> and \<open>get_user\<close> in a loop over the
  bytes, and how they compare with the handlers that copy the whole block.
\<close>

section \<open>The loops\<close>

text \<open>
  \<open>tmp\<close> points to byte \<open>off + i\<close> of the disk in round \<open>i\<close>. \<open>uok\<close> and \<open>usr\<close> are the caller's buffer, as for the video
  memory. A \<open>get_user\<close> that fails stores a zero.
\<close>

(* src: io/lab1_putget.c:36-39 mycdrv_read (loop) *)
fun put_user_loop :: "byte list \<Rightarrow> nat \<Rightarrow> (nat \<Rightarrow> bool) \<Rightarrow> nat \<Rightarrow> nat \<Rightarrow> byte list kresult" where
  "put_user_loop m off uok nbytes 0 = Inr []"
| "put_user_loop m off uok nbytes (Suc left) =
     (if length m \<le> off + nbytes then Inl OutOfBounds
      else if \<not> uok nbytes then Inr []
      else case put_user_loop m off uok (Suc nbytes) left of
             Inl f \<Rightarrow> Inl f
           | Inr bs \<Rightarrow> Inr (m ! (off + nbytes) # bs))"

(* src: io/lab1_putget.c:57-60 mycdrv_write (loop) *)
fun get_user_loop :: "nat \<Rightarrow> (nat \<Rightarrow> byte option) \<Rightarrow> nat \<Rightarrow> nat \<Rightarrow> byte list \<Rightarrow> (nat \<times> byte list) kresult" where
  "get_user_loop off usr nbytes 0 m = Inr (nbytes, m)"
| "get_user_loop off usr nbytes (Suc left) m =
     (if length m \<le> off + nbytes then Inl OutOfBounds
      else case usr nbytes of
             None \<Rightarrow> Inr (nbytes, m[off + nbytes := 0])
           | Some b \<Rightarrow> get_user_loop off usr (Suc nbytes) left (m[off + nbytes := b]))"

text \<open>The disk of an open file is an object; the count is compared as a signed number.\<close>

definition with_disk :: "labdev \<Rightarrow> (byte list \<Rightarrow> 'a kresult) \<Rightarrow> 'a kresult" where
  "with_disk d f = (case ramdisk d of NULL \<Rightarrow> Inl NullDeref | ERR_PTR _ \<Rightarrow> Inl BadPointer | Ptr m \<Rightarrow> f m)"

(* src: io/lab1_putget.c:25-44 mycdrv_read *)
definition putget_read :: "size_t \<Rightarrow> loff_t \<Rightarrow> (nat \<Rightarrow> bool) \<Rightarrow> labdev \<Rightarrow> (int \<times> byte list \<times> loff_t) kresult" where
  "putget_read lbuf ppos uok d =
     with_disk d (\<lambda>m.
       case put_user_loop m (unat ppos) uok 0 (nat (sint (bytes_to_do lbuf ppos))) of
         Inl f \<Rightarrow> Inl f
       | Inr bs \<Rightarrow> Inr (int (length bs), bs, ppos + of_nat (length bs)))"

(* src: io/lab1_putget.c:46-65 mycdrv_write *)
definition putget_write ::
    "(nat \<Rightarrow> byte option) \<Rightarrow> size_t \<Rightarrow> loff_t \<Rightarrow> labdev \<Rightarrow> (int \<times> labdev \<times> loff_t) kresult" where
  "putget_write usr lbuf ppos d =
     with_disk d (\<lambda>m.
       case get_user_loop (unat ppos) usr 0 (nat (sint (bytes_to_do lbuf ppos))) m of
         Inl f \<Rightarrow> Inl f
       | Inr (nbytes, m) \<Rightarrow> Inr (int nbytes, d\<lparr>ramdisk := Ptr m\<rparr>, ppos + of_nat nbytes))"

section \<open>Against the block copies\<close>

lemma put_user_loop_eq:
  "put_user_loop m off uok i n = (case iomem_read_loop m off uok i n of Inl f \<Rightarrow> Inl f | Inr (r, bs) \<Rightarrow> Inr bs)"
  by (induction n arbitrary: i) (auto split: sum.splits)

text \<open>A failed \<open>get_user\<close> is the end of the byte-wise write of the video memory, and the zero.\<close>

lemma get_user_loop_upto:
  assumes "off + i + n \<le> length m" and "i \<le> k" and "k \<le> i + n"
    and "\<And>j. j < k \<Longrightarrow> usr j \<noteq> None" and "k < i + n \<Longrightarrow> usr k = None"
  shows "get_user_loop off usr i n (put_range off (user_prefix usr i) m) =
    Inr (k, if k = i + n then put_range off (user_prefix usr k) m
            else (put_range off (user_prefix usr k) m)[off + k := 0])"
  using assms
proof (induction n arbitrary: i)
  case 0
  then show ?case by simp
next
  case (Suc n)
  show ?case
  proof (cases "i = k")
    case True
    then show ?thesis using Suc.prems(1,5) by simp
  next
    case False
    then obtain b where b: "usr i = Some b" using Suc.prems(2,4) by fastforce
    have "get_user_loop off usr (Suc i) n (put_range off (user_prefix usr (Suc i)) m) =
        Inr (k, if k = Suc i + n then put_range off (user_prefix usr k) m
                else (put_range off (user_prefix usr k) m)[off + k := 0])"
      using Suc.prems False by (intro Suc.IH) simp_all
    then show ?thesis using Suc.prems(1) b by (simp add: user_prefix_Suc)
  qed
qed

lemma lab_moved_int:
  assumes "vfs_rw_ok lbuf ppos" and "unat ppos \<le> 65536"
  shows "nat (sint (bytes_to_do lbuf ppos)) = lab_moved lbuf ppos"
proof -
  have l: "lab_moved lbuf ppos \<le> 65536" by (simp add: lab_moved_def)
  have "(ucast (scast (bytes_to_do lbuf ppos) :: size_t) :: c_int) = bytes_to_do lbuf ppos"
    by (rule bit_eqI) (auto simp: bit_unsigned_iff bit_signed_iff)
  then have "sint (bytes_to_do lbuf ppos) = sint (ucast (of_nat (lab_moved lbuf ppos) :: size_t) :: c_int)"
    unfolding bytes_to_do_inside [OF assms] by simp
  also have "\<dots> = int (lab_moved lbuf ppos)"
    using l lab_moved_bounds(1) [OF assms] by (subst sint_ucast_small) simp_all
  finally show ?thesis by simp
qed

text \<open>The bytes of a write that a caller's buffer has, and which of them a faulting buffer has.\<close>

definition user_bytes :: "byte list \<Rightarrow> nat \<Rightarrow> nat \<Rightarrow> byte option" where
  "user_bytes bs k j = (if j < k then Some (bs ! j) else None)"

lemma user_prefix_bytes: "k \<le> length bs \<Longrightarrow> user_prefix (user_bytes bs k) k = take k bs"
  by (rule nth_equalityI) (auto simp: user_prefix_def user_bytes_def)

text \<open>C26: The byte-wise handlers against the generic ones, for a caller whose buffer has its first \<open>k\<close> bytes and no
  more: they return the same count, the same bytes and the same position as the block copy that leaves the rest
  uncopied. A write also leaves the same disk when nothing was left over. Otherwise it puts one zero after the copied bytes,
  where the block copy fills all of the rest of the range with zeros.\<close>

theorem putget_like_generic:
  assumes "lab_holds d m" and "vfs_rw_ok lbuf ppos" and "unat ppos \<le> 65536"
    and "k \<le> lab_moved lbuf ppos" and "unat lbuf \<le> length ubuf"
  shows "putget_read lbuf ppos (\<lambda>j. j < k) d = mycdrv_generic_read lbuf ppos (of_nat (lab_moved lbuf ppos - k)) d
    \<and> (\<exists>m1 m2. putget_write (user_bytes ubuf k) lbuf ppos d = Inr (int k, d\<lparr>ramdisk := Ptr m1\<rparr>, ppos + of_nat k)
        \<and> mycdrv_generic_write ubuf lbuf ppos (of_nat (lab_moved lbuf ppos - k)) d =
            Inr (int k, d\<lparr>ramdisk := Ptr m2\<rparr>, ppos + of_nat k)
        \<and> (k = lab_moved lbuf ppos \<longrightarrow> m1 = m2)
        \<and> m1 = (if k = lab_moved lbuf ppos then put_range (unat ppos) (take k ubuf) m
                else put_range (unat ppos) (take k ubuf @ [0]) m)
        \<and> m2 = put_range (unat ppos) (take k ubuf @ replicate (lab_moved lbuf ppos - k) 0) m)"
proof -
  let ?n = "lab_moved lbuf ppos" and ?p = "unat ppos"
  let ?left = "of_nat (lab_moved lbuf ppos - k) :: size_t"
  note b = lab_moved_bounds(3) [OF assms(2,3)] and c = lab_moved_int [OF assms(2,3)]
  have m: "ramdisk d = Ptr m" "length m = 65536" using assms(1) by (simp_all add: lab_holds_def)
  have left: "unat ?left = ?n - k" using b by (intro unat_of_nat_64) simp
  then have le: "unat ?left \<le> ?n" and nk: "?n - unat ?left = k" using assms(4) by simp_all
  have kl: "k \<le> length ubuf" using assms(4,5) by (simp add: lab_moved_def)
  have "take k (get_range ?p ?n m) = get_range ?p k m" using assms(4) by (simp add: get_range_def min_def)
  then have gr: "mycdrv_generic_read lbuf ppos ?left d = Inr (int k, get_range ?p k m, ppos + of_nat k)"
    using lab_read_data [OF assms(1-3) le] unfolding nk by simp
  have gw: "mycdrv_generic_write ubuf lbuf ppos ?left d =
      Inr (int k, d\<lparr>ramdisk := Ptr (put_range ?p (take k ubuf @ replicate (?n - k) 0) m)\<rparr>, ppos + of_nat k)"
    using lab_write_data [OF assms(1-3) le assms(5)] unfolding nk unfolding left .
  have "put_user_loop m ?p (\<lambda>j. j < k) 0 ?n = Inr (get_range ?p k m)"
    using iomem_read_loop_upto [of ?p 0 ?n m k "\<lambda>j. j < k"] assms(4) b m(2) by (simp add: put_user_loop_eq)
  then have pr: "putget_read lbuf ppos (\<lambda>j. j < k) d = Inr (int k, get_range ?p k m, ppos + of_nat k)"
    using b assms(4) m by (simp add: putget_read_def with_disk_def c)
  let ?m1 = "if k = ?n then put_range ?p (take k ubuf) m else (put_range ?p (take k ubuf) m)[?p + k := 0]"
  have "get_user_loop ?p (user_bytes ubuf k) 0 ?n m = Inr (k, ?m1)"
  proof -
    have u: "\<And>j. j < k \<Longrightarrow> user_bytes ubuf k j \<noteq> None" "user_bytes ubuf k k = None" "user_prefix (user_bytes ubuf k) 0 = []"
      by (simp_all add: user_bytes_def user_prefix_def)
    have "get_user_loop ?p (user_bytes ubuf k) 0 ?n (put_range ?p (user_prefix (user_bytes ubuf k) 0) m) =
        Inr (k, if k = 0 + ?n then put_range ?p (user_prefix (user_bytes ubuf k) k) m
                else (put_range ?p (user_prefix (user_bytes ubuf k) k) m)[?p + k := 0])"
      using assms(4) b m(2) u by (intro get_user_loop_upto) auto
    then show ?thesis unfolding u(3) user_prefix_bytes [OF kl] by (simp only: put_range_nil add_0)
  qed
  then have pw: "putget_write (user_bytes ubuf k) lbuf ppos d = Inr (int k, d\<lparr>ramdisk := Ptr ?m1\<rparr>, ppos + of_nat k)"
    using m by (simp add: putget_write_def with_disk_def c)
  have one: "(put_range ?p (take k ubuf) m)[?p + k := 0] = put_range ?p (take k ubuf @ [0]) m" if "k < ?n"
    using that b m(2) kl
    by (intro nth_equalityI) (auto simp: nth_put_range nth_list_update nth_append)
  show ?thesis
    using pr gr pw gw one assms(4) by (intro conjI exI [of _ ?m1] exI) auto
qed

theorem putget_like_generic_witness:
  "putget_write (user_bytes [1, 2, 3] 2) 3 65530 \<lparr>ramdisk = Ptr (replicate 65536 9), open_counter = 1\<rparr> =
    Inr (2, \<lparr>ramdisk = Ptr (put_range 65530 [1, 2, 0] (replicate 65536 9)), open_counter = 1\<rparr>, 65532)"
  using putget_like_generic [of "\<lparr>ramdisk = Ptr (replicate 65536 9), open_counter = 1\<rparr>" "replicate 65536 9" 3 65530 2
      "[1, 2, 3]"]
  by (simp add: lab_holds_def vfs_rw_ok_def lab_moved_def)

end
