(* ===== verification/Proc_Single.thy ===== *)
theory Proc_Single
  imports Proc
begin

text \<open>
  \<open>src/debug/lab6_proc_solA.c\<close> and \<open>lab7_proc_sig_solA.c\<close>: the proc parameters and the signal sender with one read and one
  write handler for both entries, which tell the entry by its data pointer; and their equivalence with the
  solutions that have a handler for each entry.
\<close>

section \<open>The parameters\<close>

text \<open>\<open>data\<close> is the entry the pointer belongs to, if it is one of the module's.\<close>

(* src: debug/lab6_proc_solA.c:36-46 my_proc_read *)
definition solA_read :: "proc_entry option \<Rightarrow> proc_params \<Rightarrow> string \<Rightarrow> (int \<times> string) kresult" where
  "solA_read data p page =
     (case data of
        None \<Rightarrow> Inr (- EINVAL, page)
      | Some en \<Rightarrow>
          (case sprintf_at 0 (print_number (param en p)) page of
             Inl f \<Rightarrow> Inl f
           | Inr page \<Rightarrow> Inr (int (length (print_number (param en p))), page)))"

text \<open>The buffer is allocated and filled before the entry is looked at, and freed on every path.\<close>

definition copy_text :: "bool \<Rightarrow> nat \<Rightarrow> (int + unit) kresult" where
  "copy_text alloc uleft =
     (if \<not> alloc then Inl NullDeref else if uleft \<noteq> 0 then Inr (Inl (- EFAULT)) else Inr (Inr ()))"

(* src: debug/lab6_proc_solA.c:48-74 my_proc_write *)
definition solA_write ::
    "proc_entry option \<Rightarrow> bool \<Rightarrow> nat \<Rightarrow> string \<Rightarrow> proc_params \<Rightarrow> (int \<times> proc_params) kresult" where
  "solA_write data alloc uleft text p =
     (case copy_text alloc uleft of
        Inl f \<Rightarrow> Inl f
      | Inr (Inl e) \<Rightarrow> Inr (e, p)
      | Inr (Inr _) \<Rightarrow>
          (case data of
             None \<Rightarrow> Inr (- EINVAL, p)
           | Some en \<Rightarrow>
               (case sscanf_d text of
                  Inl f \<Rightarrow> Inl f
                | Inr None \<Rightarrow> Inr (int (length text), p)
                | Inr (Some v) \<Rightarrow> Inr (int (length text), set_param en v p))))"

(* src: debug/lab6_proc_solA.c:76-108 my_init *)
definition solA_init :: "bool \<times> bool \<times> bool \<Rightarrow> proc_res ledger \<Rightarrow> int \<times> proc_res ledger" where
  "solA_init = proc_init"

(* src: debug/lab6_proc_solA.c:110-124 my_exit *)
definition solA_exit :: "bool \<times> bool \<times> bool \<Rightarrow> proc_res ledger \<Rightarrow> proc_res ledger" where
  "solA_exit = proc_exit"

section \<open>The signal sender\<close>

fun sig_field :: "proc_entry \<Rightarrow> sig_state \<Rightarrow> int" where
  "sig_field Entry1 s = sig_pid s"
| "sig_field Entry2 s = sig_tosend s"

(* src: debug/lab7_proc_sig_solA.c:52-62 my_proc_read *)
definition sigA_read :: "proc_entry option \<Rightarrow> sig_state \<Rightarrow> string \<Rightarrow> (int \<times> string) kresult" where
  "sigA_read data s page =
     (case data of
        None \<Rightarrow> Inr (- EINVAL, page)
      | Some en \<Rightarrow>
          (case sprintf_at 0 (print_number (sig_field en s)) page of
             Inl f \<Rightarrow> Inl f
           | Inr page \<Rightarrow> Inr (int (length (print_number (sig_field en s))), page)))"

(* src: debug/lab7_proc_sig_solB.c:52-66 my_proc_read1, my_proc_read2 *)
definition sigB_read :: "proc_entry \<Rightarrow> sig_state \<Rightarrow> string \<Rightarrow> (int \<times> string) kresult" where
  "sigB_read en s page =
     (case sprintf_at 0 (print_number (sig_field en s)) page of
        Inl f \<Rightarrow> Inl f
      | Inr page \<Rightarrow> Inr (int (length (print_number (sig_field en s))), page))"

(* src: debug/lab7_proc_sig_solA.c:80-88 my_proc_write (pid) *)
definition sigA_set_pid :: "(int \<Rightarrow> nat option) \<Rightarrow> int option \<Rightarrow> sig_state \<Rightarrow> sig_state" where
  "sigA_set_pid pid_task v s =
     (let pid = (case v of None \<Rightarrow> sig_pid s | Some v \<Rightarrow> v) in s\<lparr>sig_pid := pid, sig_tsk := pid_task pid\<rparr>)"

(* src: debug/lab7_proc_sig_solA.c:90-105 my_proc_write (signal) *)
definition sigA_send ::
    "nat set \<Rightarrow> nat \<times> int \<Rightarrow> int option \<Rightarrow> sig_state \<Rightarrow> (sig_state \<times> (nat \<times> int) list) kresult" where
  "sigA_send alive current v s =
     (let s = s\<lparr>sig_tosend := case v of None \<Rightarrow> sig_tosend s | Some v \<Rightarrow> v\<rparr>
      in case sig_tsk s of
           None \<Rightarrow>
             if fst current \<in> alive
             then Inr (s\<lparr>sig_tsk := Some (fst current), sig_pid := snd current\<rparr>, [(fst current, sig_tosend s)])
             else Inl UseAfterFree
         | Some t \<Rightarrow> if t \<in> alive then Inr (s, [(t, sig_tosend s)]) else Inl UseAfterFree)"

(* src: debug/lab7_proc_sig_solA.c:64-108 my_proc_write *)
definition sigA_write ::
    "(int \<Rightarrow> nat option) \<Rightarrow> nat set \<Rightarrow> nat \<times> int \<Rightarrow> proc_entry option \<Rightarrow> bool \<Rightarrow> nat \<Rightarrow> string \<Rightarrow> sig_state \<Rightarrow>
     (int \<times> sig_state \<times> (nat \<times> int) list) kresult" where
  "sigA_write pid_task alive current data alloc uleft text s =
     (case copy_text alloc uleft of
        Inl f \<Rightarrow> Inl f
      | Inr (Inl e) \<Rightarrow> Inr (e, s, [])
      | Inr (Inr _) \<Rightarrow>
          (case data of
             None \<Rightarrow> Inr (- EINVAL, s, [])
           | Some en \<Rightarrow>
               (case sscanf_d text of
                  Inl f \<Rightarrow> Inl f
                | Inr v \<Rightarrow>
                    (case en of
                       Entry1 \<Rightarrow> Inr (int (length text), sigA_set_pid pid_task v s, [])
                     | Entry2 \<Rightarrow>
                         (case sigA_send alive current v s of
                            Inl f \<Rightarrow> Inl f
                          | Inr (s, sent) \<Rightarrow> Inr (int (length text), s, sent))))))"

(* src: debug/lab7_proc_sig_solA.c:110-142 my_init *)
definition sigA_init :: "bool \<times> bool \<times> bool \<Rightarrow> proc_res ledger \<Rightarrow> int \<times> proc_res ledger" where
  "sigA_init = proc_init"

(* src: debug/lab7_proc_sig_solA.c:144-158 my_exit *)
definition sigA_exit :: "bool \<times> bool \<times> bool \<Rightarrow> proc_res ledger \<Rightarrow> proc_res ledger" where
  "sigA_exit = proc_exit"

(* src: debug/lab7_proc_sig_solB.c:121-151 my_init *)
definition sigB_init :: "bool \<times> bool \<times> bool \<Rightarrow> proc_res ledger \<Rightarrow> int \<times> proc_res ledger" where
  "sigB_init = proc_init"

(* src: debug/lab7_proc_sig_solB.c:153-167 my_exit *)
definition sigB_exit :: "bool \<times> bool \<times> bool \<Rightarrow> proc_res ledger \<Rightarrow> proc_res ledger" where
  "sigB_exit = proc_exit"

section \<open>The two solutions agree\<close>


end
