(* ===== verification/Sync_Files.thy ===== *)
theory Sync_Files
  imports Sync Char_Driver
begin

text \<open>
  The file operations of \<open>src/sync/sync_lab3_spinlock.c\<close> and \<open>sync_lab4_completion.c\<close>: the character driver's, without
  seek and ioctl; in the second a read that moves data also triggers the completion that a thread waits for.
\<close>

section \<open>The handlers\<close>

(* src: sync/sync_lab3_spinlock.c:67-79 chardrv_open *)
definition spin_open :: "chardrv \<Rightarrow> int \<times> chardrv" where
  "spin_open = chardrv_open"

(* src: sync/sync_lab3_spinlock.c:81-85 chardrv_release *)
definition spin_release :: "chardrv \<Rightarrow> int \<times> chardrv" where
  "spin_release = chardrv_release"

(* src: sync/sync_lab3_spinlock.c:87-98 chardrv_read *)
definition spin_read :: "size_t \<Rightarrow> loff_t \<Rightarrow> size_t \<Rightarrow> chardrv \<Rightarrow> (int \<times> byte list \<times> loff_t) kresult" where
  "spin_read = chardrv_read"

(* src: sync/sync_lab3_spinlock.c:100-112 chardrv_write *)
definition spin_write ::
    "byte list \<Rightarrow> size_t \<Rightarrow> loff_t \<Rightarrow> size_t \<Rightarrow> chardrv \<Rightarrow> (int \<times> chardrv \<times> loff_t) kresult" where
  "spin_write = chardrv_write"

(* src: sync/sync_lab4_completion.c:44-56 chardrv_open *)
definition compl_open :: "chardrv \<Rightarrow> int \<times> chardrv" where
  "compl_open = chardrv_open"

(* src: sync/sync_lab4_completion.c:58-62 chardrv_release *)
definition compl_release :: "chardrv \<Rightarrow> int \<times> chardrv" where
  "compl_release = chardrv_release"

(* src: sync/sync_lab4_completion.c:80-92 chardrv_write *)
definition compl_write ::
    "byte list \<Rightarrow> size_t \<Rightarrow> loff_t \<Rightarrow> size_t \<Rightarrow> chardrv \<Rightarrow> (int \<times> chardrv \<times> loff_t) kresult" where
  "compl_write = chardrv_write"

text \<open>The read of the completion module, and whether it gets as far as the completion.\<close>

(* src: sync/sync_lab4_completion.c:64-73 chardrv_read *)
definition compl_read ::
    "size_t \<Rightarrow> loff_t \<Rightarrow> size_t \<Rightarrow> chardrv \<Rightarrow> (bool \<times> int \<times> byte list \<times> loff_t) kresult" where
  "compl_read lbuf ppos left d =
     (case chardrv_read lbuf ppos left d of
        Inl f \<Rightarrow> Inl f
      | Inr r \<Rightarrow> Inr (\<not> membuff_size < lbuf + ppos, r))"

section \<open>The completion\<close>

text \<open>Where a reader is: outside, past the copy, past the test of the completion that told it to complete it.\<close>

datatype compl_pc = CIdle | CMoved | CWill

text \<open>\<open>c_done\<close> is the count of the completion; \<open>c_moved\<close> and \<open>c_woken\<close> count the reads that got as far, and the rounds of the thread.\<close>

(* src: sync/sync_lab4_completion.c:30-31 wait_thread, data_read_complete *)
record compl_sys =
  c_dev :: chardrv
  c_done :: nat
  c_pc :: "nat \<Rightarrow> compl_pc"
  c_moved :: nat
  c_woken :: nat

datatype compl_event = C_read nat size_t loff_t size_t | C_test nat | C_complete nat | C_wait

(* src: sync/sync_lab4_completion.c:74-78 chardrv_read (completion) *)
fun compl_reader :: "compl_event \<Rightarrow> compl_sys \<Rightarrow> compl_sys option" where
  "compl_reader (C_read r lbuf ppos left) s =
     (if c_pc s r \<noteq> CIdle then None
      else case compl_read lbuf ppos left (c_dev s) of
             Inl f \<Rightarrow> None
           | Inr (on, _) \<Rightarrow>
               Some (if on then s\<lparr>c_pc := (c_pc s)(r := CMoved), c_moved := c_moved s + 1\<rparr> else s))"
| "compl_reader (C_test r) s =
     (if c_pc s r \<noteq> CMoved then None
      else Some (s\<lparr>c_pc := (c_pc s)(r := if c_done s = 0 then CWill else CIdle)\<rparr>))"
| "compl_reader (C_complete r) s =
     (if c_pc s r \<noteq> CWill then None
      else Some (s\<lparr>c_pc := (c_pc s)(r := CIdle), c_done := c_done s + 1\<rparr>))"
| "compl_reader C_wait s = None"

(* src: sync/sync_lab4_completion.c:33-42 wait_function *)
definition wait_function :: "compl_sys \<Rightarrow> compl_sys option" where
  "wait_function s =
     (if c_done s = 0 then None else Some (s\<lparr>c_done := c_done s - 1, c_woken := c_woken s + 1\<rparr>))"

definition compl_step :: "nat \<Rightarrow> compl_sys \<Rightarrow> compl_event \<Rightarrow> compl_sys \<Rightarrow> bool" where
  "compl_step n s ev t \<longleftrightarrow>
     (case ev of C_read r _ _ _ \<Rightarrow> r < n | C_test r \<Rightarrow> r < n | C_complete r \<Rightarrow> r < n | C_wait \<Rightarrow> True) \<and>
     (if ev = C_wait then wait_function s else compl_reader ev s) = Some t"

text \<open>The readers in each state, of the \<open>n\<close> there are.\<close>

definition at_pc :: "nat \<Rightarrow> compl_pc \<Rightarrow> compl_sys \<Rightarrow> nat set" where
  "at_pc n p s = {r. r < n \<and> c_pc s r = p}"

lemma at_pc_finite [simp]: "finite (at_pc n p s)"
  by (rule finite_subset [of _ "{..<n}"]) (auto simp: at_pc_def)

lemma at_pc_move:
  assumes "r < n" and "c_pc t = (c_pc s)(r := q)"
  shows "card (at_pc n p t) + of_bool (c_pc s r = p) = card (at_pc n p s) + of_bool (q = p)"
proof -
  have t: "at_pc n p t = (if q = p then insert r (at_pc n p s) else at_pc n p s - {r})"
    using assms by (auto simp: at_pc_def)
  have r: "r \<in> at_pc n p s \<longleftrightarrow> c_pc s r = p" using assms(1) by (simp add: at_pc_def)
  have c: "c_pc s r = p \<Longrightarrow> 0 < card (at_pc n p s)" using r by (auto simp: card_gt_0_iff)
  show ?thesis unfolding t using r c by (auto simp: card_insert_if card_Diff_singleton_if)
qed

lemma at_pc_same: "c_pc t = c_pc s \<Longrightarrow> at_pc n p t = at_pc n p s"
  by (simp add: at_pc_def)

definition compl_inv :: "nat \<Rightarrow> compl_sys \<Rightarrow> bool" where
  "compl_inv n s \<longleftrightarrow>
     c_done s + card (at_pc n CWill s) \<le> n \<and>
     c_woken s + c_done s + card (at_pc n CWill s) + card (at_pc n CMoved s) \<le> c_moved s \<and>
     (0 < c_moved s \<longrightarrow> 0 < c_woken s + c_done s + card (at_pc n CWill s) + card (at_pc n CMoved s))"

lemma will_bound:
  assumes "r < n" and "c_pc s r \<noteq> CWill"
  shows "card (at_pc n CWill s) < n"
proof -
  have "at_pc n CWill s \<subseteq> {..<n} - {r}" using assms by (auto simp: at_pc_def)
  then have "card (at_pc n CWill s) \<le> card ({..<n} - {r})" by (intro card_mono) simp_all
  then show ?thesis using assms(1) by simp
qed

lemma compl_inv_step: "compl_inv n s \<Longrightarrow> compl_step n s ev t \<Longrightarrow> compl_inv n t"
proof (cases ev)
  case (C_read r lbuf ppos left)
  assume inv: "compl_inv n s" and st: "compl_step n s ev t"
  from st C_read have r: "r < n" "c_pc s r = CIdle"
    and "t = s \<or> t = s\<lparr>c_pc := (c_pc s)(r := CMoved), c_moved := c_moved s + 1\<rparr>"
    by (auto simp: compl_step_def split: if_splits sum.splits prod.splits)
  then consider "t = s" | "t = s\<lparr>c_pc := (c_pc s)(r := CMoved), c_moved := c_moved s + 1\<rparr>" by blast
  then show ?thesis
  proof cases
    case 2
    have "card (at_pc n CWill t) = card (at_pc n CWill s)" "card (at_pc n CMoved t) = card (at_pc n CMoved s) + 1"
      using at_pc_move [OF r(1), of t s CMoved CWill] at_pc_move [OF r(1), of t s CMoved CMoved] r(2)
      by (simp_all add: 2)
    then show ?thesis using inv unfolding compl_inv_def by (simp add: 2)
  qed (use inv in simp)
next
  case (C_test r)
  assume inv: "compl_inv n s" and st: "compl_step n s ev t"
  from st C_test have r: "r < n" "c_pc s r = CMoved"
    and t: "t = s\<lparr>c_pc := (c_pc s)(r := if c_done s = 0 then CWill else CIdle)\<rparr>"
    by (auto simp: compl_step_def split: if_splits)
  have "card (at_pc n CWill t) = card (at_pc n CWill s) + of_bool (c_done s = 0)"
    "card (at_pc n CMoved t) + 1 = card (at_pc n CMoved s)"
    using at_pc_move [OF r(1), of t s "if c_done s = 0 then CWill else CIdle" CWill]
      at_pc_move [OF r(1), of t s "if c_done s = 0 then CWill else CIdle" CMoved] r(2)
    by (simp_all add: t)
  then show ?thesis
    using inv will_bound [OF r(1), of s] r(2) unfolding compl_inv_def by (cases "c_done s = 0") (simp_all add: t)
next
  case (C_complete r)
  assume inv: "compl_inv n s" and st: "compl_step n s ev t"
  from st C_complete have r: "r < n" "c_pc s r = CWill"
    and t: "t = s\<lparr>c_pc := (c_pc s)(r := CIdle), c_done := c_done s + 1\<rparr>"
    by (auto simp: compl_step_def split: if_splits)
  have "card (at_pc n CWill t) + 1 = card (at_pc n CWill s)" "card (at_pc n CMoved t) = card (at_pc n CMoved s)"
    using at_pc_move [OF r(1), of t s CIdle CWill] at_pc_move [OF r(1), of t s CIdle CMoved] r(2)
    by (simp_all add: t)
  then show ?thesis using inv unfolding compl_inv_def by (simp add: t)
next
  case C_wait
  assume inv: "compl_inv n s" and st: "compl_step n s ev t"
  from st C_wait have d: "c_done s \<noteq> 0" and t: "t = s\<lparr>c_done := c_done s - 1, c_woken := c_woken s + 1\<rparr>"
    by (auto simp: compl_step_def wait_function_def split: if_splits)
  have "at_pc n p t = at_pc n p s" for p by (rule at_pc_same) (simp add: t)
  then show ?thesis using inv d unfolding compl_inv_def by (auto simp: t)
qed

definition compl_start :: "chardrv \<Rightarrow> compl_sys" where
  "compl_start d = \<lparr>c_dev = d, c_done = 0, c_pc = (\<lambda>_. CIdle), c_moved = 0, c_woken = 0\<rparr>"

interpretation read_completion: invariant_system "\<lambda>s. s = compl_start d" "compl_step n" "compl_inv n" for d n
proof (unfold_locales, goal_cases)
  case (1 s)
  then show ?case by (simp add: compl_inv_def compl_start_def at_pc_def)
next
  case (2 s ev t)
  then show ?case by (rule compl_inv_step)
qed

text \<open>Reads that trigger the completion, under every interleaving of \<open>n\<close> readers and the waiting thread: the
  completion never counts more than \<open>n\<close>, the thread is never woken more often than reads moved data, and
  once such a read was made and every reader is out, the thread was woken or has its wake-up waiting. A read
  beyond the end of the device triggers nothing.\<close>

theorem reads_wake_thread:
  assumes "run (compl_step n) (compl_start d) evs s"
  shows "c_done s \<le> n \<and> c_woken s + c_done s \<le> c_moved s \<and>
    (0 < c_moved s \<and> (\<forall>r < n. c_pc s r = CIdle) \<longrightarrow> 0 < c_woken s + c_done s) \<and>
    (membuff_size < lbuf + ppos \<longrightarrow> compl_read lbuf ppos left d = Inr (False, 0, [], ppos))"
proof -
  have inv: "compl_inv n s" by (rule read_completion.inv_reachable [OF refl assms])
  have "at_pc n CWill s = {} \<and> at_pc n CMoved s = {}" if "\<forall>r < n. c_pc s r = CIdle"
    using that by (auto simp: at_pc_def)
  then show ?thesis
    using inv by (auto simp: compl_inv_def compl_read_def chardrv_read_def)
qed

definition sample_disk :: chardrv where
  "sample_disk = \<lparr>membuff = Ptr (replicate 131072 7), counter = 0\<rparr>"

theorem reads_wake_thread_witness:
  "\<exists>s. run (compl_step 2) (compl_start sample_disk)
      [C_read 0 4 0 0, C_read 1 4 0 0, C_test 0, C_test 1, C_complete 0, C_complete 1, C_wait] s \<and>
    c_done s \<le> 2 \<and> 0 < c_woken s + c_done s \<and> c_done s = 1"
proof -
  have "\<exists>s. run (compl_step 2) (compl_start sample_disk)
      [C_read 0 4 0 0, C_read 1 4 0 0, C_test 0, C_test 1, C_complete 0, C_complete 1, C_wait] s \<and>
      c_moved s = 2 \<and> c_done s = 1 \<and> (\<forall>r < 2. c_pc s r = CIdle)"
    by (simp add: run_cons_iff compl_step_def wait_function_def compl_read_def chardrv_read_def kmem_load_def
        in_object_def compl_start_def sample_disk_def membuff_size_def)
  then obtain s where r: "run (compl_step 2) (compl_start sample_disk)
      [C_read 0 4 0 0, C_read 1 4 0 0, C_test 0, C_test 1, C_complete 0, C_complete 1, C_wait] s"
    and s: "c_moved s = 2" "c_done s = 1" "\<forall>r < 2. c_pc s r = CIdle" by blast
  from reads_wake_thread [OF r, of 4 0 0] r s show ?thesis by auto
qed

end
