(* ===== verification/Scullc_Proc.thy ===== *)
theory Scullc_Proc
  imports Scullc "HOL-Library.Sublist"
begin

text \<open>
  The proc file of \<open>src/io/lab6_aio.c\<close> that lists the devices with the items of their lists and the quanta of
  the last one, until the buffer is nearly full.
\<close>

section \<open>Printing\<close>

(* src: io/lab6_aio.c:141-144 scullc_release *)
definition scullc_release :: "scullc_dev \<Rightarrow> int \<times> scullc_dev" where
  "scullc_release d = (0, d)"


text \<open>
  The texts that are printed: a device with its number, tunables and size, an item and its quantum set, a quantum
  with its index. \<open>cnt\<close> gives the \<open>count\<close> of the sequence file after a list of texts, and \<open>limit\<close> is its
  size less 80.
\<close>

datatype proc_text =
  TDevice nat c_int c_int size_t
| TItem nat
| TQuantum nat

text \<open>The quanta from index \<open>j\<close> on; the flag says that the limit was passed.\<close>

(* src: io/lab6_aio.c:85-90 scullc_read_mem_proc_show (quantum set) *)
fun show_quanta ::
    "(proc_text list \<Rightarrow> nat) \<Rightarrow> nat \<Rightarrow> byte list option list \<Rightarrow> nat \<Rightarrow> nat \<Rightarrow> proc_text list \<Rightarrow> (bool \<times> proc_text list) kresult" where
  "show_quanta cnt limit data j 0 out = Inr (False, out)"
| "show_quanta cnt limit data j (Suc n) out =
     (if length data \<le> j then Inl OutOfBounds
      else
        let out = (if data ! j \<noteq> None then out @ [TQuantum j] else out)
        in if limit < cnt out then Inr (True, out) else show_quanta cnt limit data (Suc j) n out)"

(* src: io/lab6_aio.c:80-91 scullc_read_mem_proc_show (items) *)
fun show_items ::
    "(proc_text list \<Rightarrow> nat) \<Rightarrow> nat \<Rightarrow> nat \<Rightarrow> nat \<Rightarrow> item list \<Rightarrow> proc_text list \<Rightarrow> (bool \<times> proc_text list) kresult" where
  "show_items cnt limit nq k [] out = Inr (False, out)"
| "show_items cnt limit nq k (it # its) out =
     (let out = out @ [TItem k]
      in if limit < cnt out then Inr (True, out)
         else case (case it of
                      Some data \<Rightarrow> if its = [] then show_quanta cnt limit data 0 nq out else Inr (False, out)
                    | None \<Rightarrow> Inr (False, out)) of
                Inl f \<Rightarrow> Inl f
              | Inr (full, out) \<Rightarrow> if full then Inr (True, out) else show_items cnt limit nq (Suc k) its out)"

text \<open>\<open>sig i\<close> is a signal while the mutex of device \<open>i\<close> is waited for; \<open>held\<close> are the mutexes.\<close>

(* src: io/lab6_aio.c:66-98 scullc_read_mem_proc_show *)
fun scullc_read_mem_proc_show ::
    "(proc_text list \<Rightarrow> nat) \<Rightarrow> nat \<Rightarrow> (nat \<Rightarrow> bool) \<Rightarrow> nat \<Rightarrow> scullc_dev list \<Rightarrow> proc_text list \<Rightarrow> nat ledger \<Rightarrow>
     (int \<times> proc_text list \<times> nat ledger) kresult" where
  "scullc_read_mem_proc_show cnt limit sig i [] out l = Inr (0, out, l)"
| "scullc_read_mem_proc_show cnt limit sig i (d # ds) out l =
     (if sig i then Inr (- ERESTARTSYS, out, l)
      else
        let l = acquire i l
        in case show_items cnt limit (nat (sint (qset d))) 0 (items d)
                  (out @ [TDevice i (qset d) (quantum d) (dev_size d)]) of
             Inl f \<Rightarrow> Inl f
           | Inr (full, out) \<Rightarrow>
               let l = release i l
               in if limit < cnt out then Inr (0, out, l)
                  else scullc_read_mem_proc_show cnt limit sig (Suc i) ds out l)"

section \<open>The whole listing\<close>

definition quanta_texts :: "byte list option list \<Rightarrow> nat \<Rightarrow> nat \<Rightarrow> proc_text list" where
  "quanta_texts data j n = map TQuantum (filter (\<lambda>j. data ! j \<noteq> None) [j..<j + n])"

fun items_texts :: "nat \<Rightarrow> nat \<Rightarrow> item list \<Rightarrow> proc_text list" where
  "items_texts nq k [] = []"
| "items_texts nq k (it # its) =
     TItem k # (case it of Some data \<Rightarrow> if its = [] then quanta_texts data 0 nq else [] | None \<Rightarrow> []) @
     items_texts nq (Suc k) its"

fun listing :: "nat \<Rightarrow> scullc_dev list \<Rightarrow> proc_text list" where
  "listing i [] = []"
| "listing i (d # ds) =
     TDevice i (qset d) (quantum d) (dev_size d) # items_texts (nat (sint (qset d))) 0 (items d) @ listing (Suc i) ds"

text \<open>A quantum set has as many pointers as the device says.\<close>

definition sets_fit :: "scullc_dev \<Rightarrow> bool" where
  "sets_fit d \<longleftrightarrow> (\<forall>data. Some data \<in> set (items d) \<longrightarrow> nat (sint (qset d)) \<le> length data)"

text \<open>A printing that was told to add \<open>ts\<close> to \<open>out\<close>: all of them, or some with the limit passed.\<close>

definition printed :: "(proc_text list \<Rightarrow> nat) \<Rightarrow> nat \<Rightarrow> proc_text list \<Rightarrow> proc_text list \<Rightarrow> bool \<times> proc_text list \<Rightarrow> bool" where
  "printed cnt limit out ts r \<longleftrightarrow>
     (if fst r then (\<exists>us. prefix us ts \<and> snd r = out @ us) \<and> limit < cnt (snd r) else snd r = out @ ts)"

lemma printed_then: "printed cnt limit (out @ us) ts r \<Longrightarrow> printed cnt limit out (us @ ts) r"
  by (auto simp: printed_def split: if_splits)

lemma printed_stop: "limit < cnt (out @ us) \<Longrightarrow> printed cnt limit out (us @ ts) (True, out @ us)"
  by (auto simp: printed_def)

lemma printed_more: "printed cnt limit out us (True, o') \<Longrightarrow> printed cnt limit out (us @ ts) (True, o')"
  by (auto simp: printed_def intro: prefix_prefix)

lemma quanta_texts_Suc:
  "quanta_texts data j (Suc n) = (if data ! j \<noteq> None then [TQuantum j] else []) @ quanta_texts data (Suc j) n"
proof -
  have "[j..<j + Suc n] = j # [Suc j..<Suc j + n]" by (simp add: upt_rec [of j] del: upt_Suc)
  then show ?thesis by (simp add: quanta_texts_def del: upt_Suc)
qed

lemma show_quanta_prints:
  "j + n \<le> length data \<Longrightarrow> \<exists>r. show_quanta cnt limit data j n out = Inr r \<and> printed cnt limit out (quanta_texts data j n) r"
proof (induction n arbitrary: j out)
  case 0
  then show ?case by (simp add: printed_def quanta_texts_def)
next
  case (Suc n)
  let ?t = "if data ! j \<noteq> None then [TQuantum j] else []"
  have o: "(if data ! j \<noteq> None then out @ [TQuantum j] else out) = out @ ?t" by simp
  show ?case
  proof (cases "limit < cnt (out @ ?t)")
    case True
    have "show_quanta cnt limit data j (Suc n) out = Inr (True, out @ ?t)"
      using Suc.prems True unfolding show_quanta.simps o Let_def by simp
    moreover have "printed cnt limit out (quanta_texts data j (Suc n)) (True, out @ ?t)"
      using True unfolding printed_def quanta_texts_Suc by (auto simp: prefix_def)
    ultimately show ?thesis by blast
  next
    case False
    obtain r where r: "show_quanta cnt limit data (Suc j) n (out @ ?t) = Inr r"
      "printed cnt limit (out @ ?t) (quanta_texts data (Suc j) n) r"
      using Suc.IH [of "Suc j" "out @ ?t"] Suc.prems by auto
    have "show_quanta cnt limit data j (Suc n) out = Inr r"
      using Suc.prems False r(1) unfolding show_quanta.simps o Let_def by simp
    then show ?thesis using printed_then [OF r(2)] unfolding quanta_texts_Suc by blast
  qed
qed

lemma show_items_prints:
  "\<forall>data. Some data \<in> set its \<longrightarrow> nq \<le> length data \<Longrightarrow>
   \<exists>r. show_items cnt limit nq k its out = Inr r \<and> printed cnt limit out (items_texts nq k its) r"
proof (induction its arbitrary: k out)
  case Nil
  then show ?case by (simp add: printed_def)
next
  case (Cons it its)
  let ?o = "out @ [TItem k]"
  let ?q = "case it of Some data \<Rightarrow> if its = [] then quanta_texts data 0 nq else [] | None \<Rightarrow> []"
  let ?s = "case it of Some data \<Rightarrow> if its = [] then show_quanta cnt limit data 0 nq ?o else Inr (False, ?o)
                     | None \<Rightarrow> Inr (False, ?o)"
  have texts: "items_texts nq k (it # its) = [TItem k] @ ?q @ items_texts nq (Suc k) its" by simp
  show ?case
  proof (cases "limit < cnt ?o")
    case True
    then have "show_items cnt limit nq k (it # its) out = Inr (True, ?o)" by simp
    then show ?thesis using printed_stop [of limit cnt out "[TItem k]", OF True] unfolding texts by blast
  next
    case False
    have "\<exists>r. ?s = Inr r \<and> printed cnt limit ?o ?q r"
    proof (cases "\<exists>data. it = Some data \<and> its = []")
      case True
      then show ?thesis using Cons.prems show_quanta_prints [of 0 nq _ cnt limit ?o] by fastforce
    next
      case False
      then have "?s = Inr (False, ?o)" "?q = []" by (auto split: option.splits)
      then show ?thesis by (simp add: printed_def)
    qed
    then obtain r where s: "?s = Inr r" and r: "printed cnt limit ?o ?q r" by blast
    show ?thesis
    proof (cases "fst r")
      case full: True
      then have "show_items cnt limit nq k (it # its) out = Inr (True, snd r)"
        using False s by (cases r) (simp add: Let_def)
      moreover have "printed cnt limit out (items_texts nq k (it # its)) (True, snd r)"
        using r full unfolding texts by (intro printed_then printed_more) (simp add: prod_eq_iff printed_def)
      ultimately show ?thesis by blast
    next
      case go: False
      then have o: "snd r = ?o @ ?q" using r by (simp add: printed_def)
      obtain u where u: "show_items cnt limit nq (Suc k) its (?o @ ?q) = Inr u"
        "printed cnt limit (?o @ ?q) (items_texts nq (Suc k) its) u"
        using Cons.IH [of "Suc k" "?o @ ?q"] Cons.prems by auto
      have "show_items cnt limit nq k (it # its) out = Inr u"
        using False s go o u(1) by (cases r) (simp add: Let_def)
      then show ?thesis using printed_then [OF printed_then [OF u(2)]] unfolding texts by blast
    qed
  qed
qed

text \<open>C27: The listing of the devices, whatever the sequence file makes of the texts: every mutex that is taken is given
  back; what is printed is a prefix of the full listing (each device, its items, the quanta of its last
  item); it is the full listing when no wait was interrupted and the limit was not passed; and nothing is
  read outside the quantum sets.\<close>

theorem proc_show_lists:
  assumes "\<forall>d \<in> set ds. sets_fit d"
  shows "\<exists>r us. scullc_read_mem_proc_show cnt limit sig i ds out l = Inr (r, out @ us, l) \<and>
    prefix us (listing i ds) \<and> (r = 0 \<or> r = - ERESTARTSYS) \<and>
    (r = 0 \<and> cnt (out @ us) \<le> limit \<longrightarrow> us = listing i ds)"
  using assms
proof (induction ds arbitrary: i out)
  case Nil
  then show ?case by simp
next
  case (Cons d ds)
  let ?h = "TDevice i (qset d) (quantum d) (dev_size d)" and ?nq = "nat (sint (qset d))"
  let ?t = "?h # items_texts ?nq 0 (items d)"
  show ?case
  proof (cases "sig i")
    case True
    then show ?thesis by (intro exI [of _ "- ERESTARTSYS"] exI [of _ "[]"]) simp
  next
    case False
    obtain r where s: "show_items cnt limit ?nq 0 (items d) (out @ [?h]) = Inr r"
      and r: "printed cnt limit (out @ [?h]) (items_texts ?nq 0 (items d)) r"
      using show_items_prints [of "items d" ?nq cnt limit 0 "out @ [?h]"] Cons.prems by (auto simp: sets_fit_def)
    have p: "printed cnt limit out ?t r" using printed_then [OF r] by simp
    show ?thesis
    proof (cases "limit < cnt (snd r)")
      case full: True
      from p obtain us where us: "prefix us ?t" "snd r = out @ us" by (auto simp: printed_def split: if_splits)
      have "scullc_read_mem_proc_show cnt limit sig i (d # ds) out l = Inr (0, out @ us, l)"
        using False s full us(2) by (cases r) (simp add: Let_def)
      moreover have "prefix us (listing i (d # ds))" using prefix_prefix [OF us(1), of "listing (Suc i) ds"] by simp
      ultimately show ?thesis using full us(2) by auto
    next
      case go: False
      then have o: "snd r = out @ ?t" using p by (auto simp: printed_def split: if_splits)
      obtain q vs where q: "scullc_read_mem_proc_show cnt limit sig (Suc i) ds (out @ ?t) l = Inr (q, (out @ ?t) @ vs, l)"
        "prefix vs (listing (Suc i) ds)" "q = 0 \<or> q = - ERESTARTSYS"
        "q = 0 \<and> cnt ((out @ ?t) @ vs) \<le> limit \<longrightarrow> vs = listing (Suc i) ds"
        using Cons.IH [of "Suc i" "out @ ?t"] Cons.prems by auto
      have "scullc_read_mem_proc_show cnt limit sig i (d # ds) out l = Inr (q, out @ ?t @ vs, l)"
        using False s go o q(1) by (cases r) (simp add: Let_def)
      then show ?thesis using q by (intro exI [of _ q] exI [of _ "?t @ vs"]) simp
    qed
  qed
qed

theorem proc_show_lists_witness:
  "\<exists>r us. scullc_read_mem_proc_show length 100 (\<lambda>_. False) 0
      [\<lparr>items = [None, Some [None, Some [7], None]], vmas = 0, quantum = 1, qset = 3, dev_size = 5\<rparr>] [] empty_ledger =
      Inr (r, us, empty_ledger) \<and>
    us = [TDevice 0 3 1 5, TItem 0, TItem 1, TQuantum 1]"
  using proc_show_lists [of "[\<lparr>items = [None, Some [None, Some [7], None]], vmas = 0, quantum = 1, qset = 3, dev_size = 5\<rparr>]"
      length 100 "\<lambda>_. False" 0 "[]" empty_ledger]
  by (simp add: sets_fit_def Let_def numeral_3_eq_3)

end
