(* ===== verification/Net_Labs.thy ===== *)
theory Net_Labs
  imports Net "HOL-Library.Multiset"
begin

text \<open>
  The other network drivers of \<open>src/network\<close>: the stub that drops its packets (\<open>lab1_network.c\<close>), the transmitting driver
  without statistics (\<open>lab3_transmit_simple.c\<close>), and the handlers of \<open>lab4_receive.c\<close> that repeat those of
  \<open>lab3_transmit.c\<close>; and what becomes of the packets in all four.
\<close>

section \<open>The stub\<close>

(* src: network/lab1_network.c:48-56 my_open *)
definition stub_open :: "net_device \<Rightarrow> int \<times> net_device" where
  "stub_open = my_open"

(* src: network/lab1_network.c:58-66 my_close *)
definition stub_close :: "net_device \<Rightarrow> int \<times> net_device" where
  "stub_close = my_close"

(* src: network/lab1_network.c:72-76 stub_start_xmit *)
definition stub_start_xmit :: "nat \<Rightarrow> byte list \<Rightarrow> net_sys \<Rightarrow> (int \<times> net_sys) kresult" where
  "stub_start_xmit skb data s = Inr (0, s\<lparr>freed := skb # freed s\<rparr>)"

(* src: network/lab1_network.c:84-97 my_setup *)
definition stub_setup :: "net_device \<Rightarrow> net_device" where
  "stub_setup d = d\<lparr>dev_addr := fill_addr (dev_addr d)\<rparr>"

(* src: network/lab1_network.c:99-110 my_init *)
definition stub_init :: "unit kptr \<times> int \<Rightarrow> net_res ledger \<Rightarrow> (int \<times> net_res ledger) kresult" where
  "stub_init = net_init"

(* src: network/lab1_network.c:112-117 my_exit *)
definition stub_exit :: "net_res ledger \<Rightarrow> net_res ledger" where
  "stub_exit = net_exit"

section \<open>The simple transmitter\<close>

(* src: network/lab3_transmit_simple.c:39-48 printline *)
definition simple_printline :: "byte list \<Rightarrow> nat \<Rightarrow> string kresult" where
  "simple_printline = printline"

(* src: network/lab3_transmit_simple.c:50-68 my_start_xmit *)
definition simple_start_xmit :: "nat \<Rightarrow> byte list \<Rightarrow> net_sys \<Rightarrow> (int \<times> net_sys) kresult" where
  "simple_start_xmit skb data s =
     (case dump_from 0 data of
        Inl f \<Rightarrow> Inl f
      | Inr ls \<Rightarrow> Inr (0, s\<lparr>logged := logged s @ ls, freed := skb # freed s\<rparr>))"

(* src: network/lab3_transmit_simple.c:70-78 my_open *)
definition simple_open :: "net_device \<Rightarrow> int \<times> net_device" where
  "simple_open = my_open"

(* src: network/lab3_transmit_simple.c:80-88 my_close *)
definition simple_close :: "net_device \<Rightarrow> int \<times> net_device" where
  "simple_close = my_close"

(* src: network/lab3_transmit_simple.c:96-111 my_setup *)
definition simple_setup :: "net_device \<Rightarrow> net_device" where
  "simple_setup d = d\<lparr>dev_addr := fill_addr (dev_addr d), noarp := True\<rparr>"

(* src: network/lab3_transmit_simple.c:113-124 my_init *)
definition simple_init :: "unit kptr \<times> int \<Rightarrow> net_res ledger \<Rightarrow> (int \<times> net_res ledger) kresult" where
  "simple_init = net_init"

(* src: network/lab3_transmit_simple.c:126-131 my_exit *)
definition simple_exit :: "net_res ledger \<Rightarrow> net_res ledger" where
  "simple_exit = net_exit"

section \<open>The receiving driver's other handlers\<close>

(* src: network/lab4_receive.c:30-39 printline *)
definition rx_printline :: "byte list \<Rightarrow> nat \<Rightarrow> string kresult" where
  "rx_printline = printline"

(* src: network/lab4_receive.c:71-75 my_do_ioctl *)
definition rx_do_ioctl :: "net_device \<Rightarrow> int" where
  "rx_do_ioctl = my_do_ioctl"

(* src: network/lab4_receive.c:77-81 my_get_stats *)
definition rx_get_stats :: "net_device \<Rightarrow> 64 word \<times> 64 word \<times> 64 word" where
  "rx_get_stats = my_get_stats"

(* src: network/lab4_receive.c:87-94 my_config *)
definition rx_config :: "net_device \<Rightarrow> int" where
  "rx_config = my_config"

(* src: network/lab4_receive.c:96-100 my_change_mtu *)
definition rx_change_mtu :: "net_device \<Rightarrow> int" where
  "rx_change_mtu = my_change_mtu"

(* src: network/lab4_receive.c:102-110 my_open *)
definition rx_open :: "net_device \<Rightarrow> int \<times> net_device" where
  "rx_open = my_open"

(* src: network/lab4_receive.c:112-120 my_close *)
definition rx_close :: "net_device \<Rightarrow> int \<times> net_device" where
  "rx_close = my_close"

(* src: network/lab4_receive.c:132-154 my_setup *)
definition rx_setup :: "net_device \<Rightarrow> net_device" where
  "rx_setup = my_setup"

(* src: network/lab4_receive.c:156-167 my_init *)
definition rx_init :: "unit kptr \<times> int \<Rightarrow> net_res ledger \<Rightarrow> (int \<times> net_res ledger) kresult" where
  "rx_init = net_init"

(* src: network/lab4_receive.c:169-174 my_exit *)
definition rx_exit :: "net_res ledger \<Rightarrow> net_res ledger" where
  "rx_exit = net_exit"

section \<open>What becomes of the packets\<close>

text \<open>A run of packets through a driver; a fault ends it.\<close>

fun transmit :: "(nat \<Rightarrow> byte list \<Rightarrow> net_sys \<Rightarrow> (int \<times> net_sys) kresult) \<Rightarrow> (nat \<times> byte list) list \<Rightarrow> net_sys \<Rightarrow> net_sys kresult" where
  "transmit xmit [] s = Inr s"
| "transmit xmit ((skb, data) # ps) s =
     (case xmit skb data s of Inl f \<Rightarrow> Inl f | Inr (r, s) \<Rightarrow> transmit xmit ps s)"

definition owned :: "net_sys \<Rightarrow> nat multiset" where
  "owned s = mset (freed s) + mset (received s)"

definition network_drivers :: "(nat \<Rightarrow> byte list \<Rightarrow> net_sys \<Rightarrow> (int \<times> net_sys) kresult) set" where
  "network_drivers = {stub_start_xmit, simple_start_xmit, xmit_free, xmit_loop}"

lemma xmit_one:
  assumes "xmit \<in> network_drivers"
  shows "\<exists>t. xmit skb data s = Inr (0, t) \<and> owned t = add_mset skb (owned s) \<and>
    (xmit \<noteq> xmit_loop \<longrightarrow> received t = received s) \<and>
    (xmit \<noteq> stub_start_xmit \<longrightarrow> concat (map read_line (logged t)) = concat (map read_line (logged s)) @ data)"
proof -
  obtain ls where ls: "dump_from 0 data = Inr ls" "concat (map read_line ls) = data"
    using dump_from_ok [of 0 data] by auto
  consider "xmit = stub_start_xmit" | "xmit = simple_start_xmit" | "xmit = xmit_free" | "xmit = xmit_loop"
    using assms by (auto simp: network_drivers_def)
  then show ?thesis
  proof cases
    case 1
    then show ?thesis by (auto simp: stub_start_xmit_def owned_def)
  next
    case 2
    then show ?thesis using ls by (auto simp: simple_start_xmit_def owned_def)
  next
    case 3
    then show ?thesis using ls by (auto simp: xmit_free_def owned_def)
  next
    case 4
    then show ?thesis using ls by (auto simp: xmit_loop_def my_rx_def owned_def)
  qed
qed

text \<open>C22: In each of the four drivers, however many packets of whatever lengths are transmitted, none faults and each packet is freed once or
  given back to the stack once, never both and never neither; only the receiving driver gives packets
  back. The three that print have printed, in order, all the bytes of all the packets.\<close>

theorem packets_conserved:
  assumes "xmit \<in> network_drivers"
  shows "\<exists>t. transmit xmit ps s = Inr t \<and> owned t = owned s + mset (map fst ps) \<and>
    (xmit \<noteq> xmit_loop \<longrightarrow> received t = received s) \<and>
    (xmit \<noteq> stub_start_xmit \<longrightarrow>
       concat (map read_line (logged t)) = concat (map read_line (logged s)) @ concat (map snd ps))"
proof (induction ps arbitrary: s)
  case Nil
  then show ?case by simp
next
  case (Cons p ps)
  obtain skb data where p: "p = (skb, data)" by (cases p)
  obtain u where u: "xmit skb data s = Inr (0, u)" "owned u = add_mset skb (owned s)"
    "xmit \<noteq> xmit_loop \<longrightarrow> received u = received s"
    "xmit \<noteq> stub_start_xmit \<longrightarrow> concat (map read_line (logged u)) = concat (map read_line (logged s)) @ data"
    using xmit_one [OF assms] by blast
  obtain t where "transmit xmit ps u = Inr t" "owned t = owned u + mset (map fst ps)"
    "xmit \<noteq> xmit_loop \<longrightarrow> received t = received u"
    "xmit \<noteq> stub_start_xmit \<longrightarrow> concat (map read_line (logged t)) = concat (map read_line (logged u)) @ concat (map snd ps)"
    using Cons.IH by blast
  with u show ?case unfolding p by auto
qed

definition quiet_net :: net_sys where
  "quiet_net = \<lparr>net = \<lparr>dev_addr = replicate 6 0, noarp = False, is_up = True, queue_started = True, tx_packets = 0,
     rx_packets = 0, collisions = 0\<rparr>, freed = [], received = [], logged = []\<rparr>"

theorem packets_conserved_witness:
  "\<exists>t. transmit simple_start_xmit [(3, [1, 2]), (4, [])] quiet_net = Inr t \<and> owned t = {#3, 4#} \<and> received t = []"
proof -
  have "simple_start_xmit \<in> network_drivers" by (simp add: network_drivers_def)
  moreover have "simple_start_xmit \<noteq> xmit_loop"
  proof
    assume e: "simple_start_xmit = xmit_loop"
    have "dump_from 0 [] = Inr []" by (subst dump_from.simps) simp
    then have "simple_start_xmit 0 [] quiet_net \<noteq> xmit_loop 0 [] quiet_net"
      by (simp add: simple_start_xmit_def xmit_loop_def my_rx_def quiet_net_def)
    then show False using e by simp
  qed
  ultimately show ?thesis
    using packets_conserved [of simple_start_xmit "[(3, [1, 2]), (4, [])]" quiet_net]
    by (auto simp: owned_def quiet_net_def)
qed

end
