(* ===== verification/Char_Fasync.thy ===== *)
theory Char_Fasync
  imports Char_Poll
begin

text \<open>
  The last lab of the character driver as an interleaving: the readers and writers of \<open>Char_Poll\<close> with the
  queue of \<open>fasync\<close> subscribers beside them (\<open>src/char/lab6_char_fasync.c\<close>). A lab 6 writer goes on after it has set
  \<open>data_ready\<close> and signals the subscribers; everything else it does is a step of lab 5. Shown: lab 6 refines
  lab 5, each write that moved data signals once, and a signal, unlike a wake-up, comes after the flag. At the end
  are the handlers that labs 4, 5 and 6 take over unchanged.
\<close>

section \<open>The driver with its subscribers\<close>

(* src: char/lab6_char_fasync.c:42-45 wq, data_ready, async_queue *)
record fasync_sys =
  base :: poll_sys
  notifying :: "nat set"
  subscribers :: "nat list"
  sigio :: "(nat \<times> nat list) list"

text \<open>
  \<open>notifying\<close> holds the tasks between \<open>atomic_set\<close> and \<open>kill_fasync\<close>, which have not returned to their callers
  yet; \<open>sigio\<close> lists, for each \<open>kill_fasync\<close>, the writer and the files it signalled, the latest first.
\<close>

datatype fasync_label =
    Base poll_label
  | KillFasync nat
  | Fasync nat int bool
  | CloseAsync nat

fun actor :: "poll_label \<Rightarrow> nat" where
  "actor (ReadCall i _ _) = i"
| "actor (WaitTrue i) = i"
| "actor (WaitFalse i) = i"
| "actor (Signal i) = i"
| "actor (Reset i) = i"
| "actor (ReadCopy i) = i"
| "actor (WriteCall i _ _ _) = i"
| "actor (WriteRefused i _ _ _) = i"
| "actor (Wake i) = i"
| "actor (SetReady i) = i"
| "actor (OpenCall i) = i"
| "actor (ReleaseCall i) = i"
| "actor (Seek i _ _) = i"
| "actor (IoctlCall i _ _ _) = i"

fun sets_ready :: "poll_label \<Rightarrow> bool" where
  "sets_ready (SetReady i) \<longleftrightarrow> True"
| "sets_ready _ \<longleftrightarrow> False"

text \<open>A write returns to its caller after \<open>kill_fasync\<close>, so its task does nothing else until then.\<close>

(* src: char/lab6_char_fasync.c:61-105 chardrv_release, chardrv_read, chardrv_write *)
inductive fasync_step :: "fasync_sys \<Rightarrow> fasync_label \<Rightarrow> fasync_sys \<Rightarrow> bool" where
  base_step: "actor l \<notin> notifying s \<Longrightarrow> poll_step (base s) l b \<Longrightarrow>
    fasync_step s (Base l)
      (s\<lparr>base := b,
         notifying := (case l of SetReady i \<Rightarrow> insert i (notifying s) | _ \<Rightarrow> notifying s)\<rparr>)"
| kill_fasync: "i \<in> notifying s \<Longrightarrow>
    fasync_step s (KillFasync i)
      (s\<lparr>notifying := notifying s - {i}, sigio := (i, subscribers s) # sigio s\<rparr>)"
| fasync_call: "fasync_helper 3 f mode alloc (subscribers s) = (r, q) \<Longrightarrow>
    fasync_step s (Fasync f mode alloc) (s\<lparr>subscribers := q\<rparr>)"
| close_file: "fasync_helper (-1) f 0 True (subscribers s) = (r, q) \<Longrightarrow>
    fasync_step s (CloseAsync f) (s\<lparr>subscribers := q\<rparr>)"

inductive_cases base_stepE: "fasync_step s (Base l) t"
inductive_cases kill_fasyncE: "fasync_step s (KillFasync i) t"
inductive_simps kill_fasync_iff: "fasync_step s (KillFasync i) t"

definition fasync_start :: "fasync_sys \<Rightarrow> bool" where
  "fasync_start s \<longleftrightarrow> poll_start (base s) \<and> notifying s = {} \<and> subscribers s = [] \<and> sigio s = []"

section \<open>Lab 6 refines lab 5\<close>

fun base_labels :: "fasync_label list \<Rightarrow> poll_label list" where
  "base_labels [] = []"
| "base_labels (Base l # ls) = l # base_labels ls"
| "base_labels (_ # ls) = base_labels ls"

lemma base_labels_in: "l \<in> set (base_labels ls) \<longleftrightarrow> Base l \<in> set ls"
  by (induction ls rule: base_labels.induct) auto

text \<open>Lab 6 keeps the promises of lab 5. Leave the subscriptions and the signals out of any interleaving of the
  lab 6 driver, and what remains is an interleaving of the lab 5 driver, with the same buffer, flag, positions and
  results; the notification does not disturb the readers and writers.\<close>

theorem fasync_refines_poll:
  "run fasync_step s ls t \<Longrightarrow> run poll_step (base s) (base_labels ls) (base t)"
proof (induction rule: run.induct)
  case (run_nil s)
  then show ?case by simp
next
  case (run_cons s l t ls u)
  from run_cons.hyps(1) run_cons.IH show ?case
    by (cases rule: fasync_step.cases) (auto simp: run_cons_iff)
qed

section \<open>Invariant\<close>

definition fasync_inv :: "fasync_sys \<Rightarrow> bool" where
  "fasync_inv s \<longleftrightarrow> poll_inv (base s) \<and> finite (notifying s) \<and>
     (\<forall>i \<in> notifying s. task (base s) i = User) \<and> distinct (subscribers s) \<and>
     (\<forall>(i, q) \<in> set (sigio s). distinct q)"

fun fasync_label_ok :: "fasync_label \<Rightarrow> bool" where
  "fasync_label_ok (Base l) \<longleftrightarrow> label_ok l"
| "fasync_label_ok _ \<longleftrightarrow> True"

definition fasync_step_ok :: "fasync_sys \<Rightarrow> fasync_label \<Rightarrow> fasync_sys \<Rightarrow> bool" where
  "fasync_step_ok s l t \<longleftrightarrow> fasync_label_ok l \<and> fasync_step s l t"

lemma other_stays_user:
  assumes "poll_step b l b'" and "i \<noteq> actor l" and "task b i = User"
  shows "task b' i = User"
  using assms by (cases rule: poll_step.cases) auto

lemma set_ready_user: "poll_step b l b' \<Longrightarrow> sets_ready l \<Longrightarrow> task b' (actor l) = User"
  by (cases rule: poll_step.cases) auto

lemma notifying_case:
  "(case l of SetReady i \<Rightarrow> insert i N | _ \<Rightarrow> N) = (if sets_ready l then insert (actor l) N else N)"
  by (cases l) simp_all

lemma fasync_helper_distinct:
  "fasync_helper fd f mode alloc q = (r, q') \<Longrightarrow> distinct q \<Longrightarrow> distinct q'"
  by (auto simp: fasync_helper_def distinct_removeAll split: if_splits)

lemma fasync_start_inv: "fasync_start s \<Longrightarrow> fasync_inv s"
  using poll.inv_start by (simp add: fasync_start_def fasync_inv_def)

lemma fasync_inv_step:
  assumes "fasync_inv s" and "fasync_step_ok s l t"
  shows "fasync_inv t"
proof -
  have ok: "fasync_label_ok l" and st: "fasync_step s l t"
    using assms(2) by (simp_all add: fasync_step_ok_def)
  from st show ?thesis
  proof (cases rule: fasync_step.cases)
    case (base_step l' b)
    have b: "poll_inv b"
      using poll_inv_step [OF _ _ base_step(4)] assms(1) ok base_step(1) by (simp add: fasync_inv_def)
    have "task b i = User" if "i \<in> notifying t" for i
    proof (cases "i = actor l'")
      case True
      with that base_step(2,3) set_ready_user [OF base_step(4)] show ?thesis
        by (simp add: notifying_case split: if_splits)
    next
      case False
      with that base_step(2) assms(1) have "task (base s) i = User"
        by (auto simp: fasync_inv_def notifying_case split: if_splits)
      with False show ?thesis by (rule other_stays_user [OF base_step(4)])
    qed
    then have "\<forall>i \<in> notifying t. task b i = User" by blast
    with b base_step(2) assms(1) show ?thesis by (simp add: fasync_inv_def notifying_case)
  next
    case (kill_fasync i)
    with assms(1) show ?thesis by (auto simp: fasync_inv_def)
  next
    case (fasync_call f mode alloc r q)
    with assms(1) fasync_helper_distinct [OF fasync_call(3)] show ?thesis by (simp add: fasync_inv_def)
  next
    case (close_file f r q)
    with assms(1) fasync_helper_distinct [OF close_file(3)] show ?thesis by (simp add: fasync_inv_def)
  qed
qed

interpretation fasync: invariant_system fasync_start fasync_step_ok fasync_inv
  by unfold_locales (blast intro: fasync_start_inv fasync_inv_step)+

section \<open>One signal for each write\<close>

definition writes_done :: "fasync_label list \<Rightarrow> nat" where
  "writes_done ls = length (filter sets_ready (base_labels ls))"

lemma writes_done_simps [simp]:
  "writes_done [] = 0"
  "writes_done (Base l # ls) = (if sets_ready l then 1 else 0) + writes_done ls"
  "writes_done (KillFasync i # ls) = writes_done ls"
  "writes_done (Fasync f m a # ls) = writes_done ls"
  "writes_done (CloseAsync f # ls) = writes_done ls"
  by (simp_all add: writes_done_def)

lemma fasync_step_counts:
  assumes "fasync_step s l t" and "finite (notifying s)"
  shows "finite (notifying t) \<and>
     length (sigio t) + card (notifying t) = length (sigio s) + card (notifying s) + writes_done [l]"
  using assms(1)
proof (cases rule: fasync_step.cases)
  case (kill_fasync i)
  with assms(2) card_Suc_Diff1 [of "notifying s" i] show ?thesis by simp
qed (use assms(2) in \<open>auto simp: notifying_case\<close>)

text \<open>Each write that moved data signals the subscribers once. After any interleaving from a freshly loaded
  driver, the calls of \<open>kill_fasync\<close> that were made and those still to come are as many as the writes that set
  \<open>data_ready\<close>: none is lost and none is repeated.\<close>

theorem fasync_one_signal_each:
  assumes "run fasync_step s ls t" and "fasync_start s"
  shows "length (sigio t) + card (notifying t) = writes_done ls"
proof -
  have "run fasync_step s ls t \<Longrightarrow> finite (notifying s) \<Longrightarrow>
     length (sigio t) + card (notifying t) = length (sigio s) + card (notifying s) + writes_done ls" for s ls t
  proof (induction rule: run.induct)
    case (run_nil s)
    then show ?case by simp
  next
    case (run_cons s l t ls u)
    have "writes_done (l # ls) = writes_done [l] + writes_done ls" by (cases l) simp_all
    with fasync_step_counts [OF run_cons.hyps(1) run_cons.prems] run_cons.IH show ?case by simp
  qed
  with assms show ?thesis by (simp add: fasync_start_def)
qed

text \<open>A write that fits always gets to signal. From every state the driver can reach, a task that is between calls
  can write, wake the queue, set the flag and signal, and the signal goes to the subscribers of that moment.\<close>

theorem fasync_write_signals:
  assumes "fasync_inv s" and "task (base s) i = User" and "i \<notin> notifying s"
    and "unat n + unat (fpos (base s) i) \<le> unat membuff_size" and "length ubuf = unat n"
  shows "\<exists>t. run fasync_step s [Base (WriteCall i ubuf n 0), Base (Wake i), Base (SetReady i), KillFasync i] t \<and>
     sigio t = (i, subscribers s) # sigio s \<and> data_ready (base t) = 1"
proof -
  let ?b = "base s"
  obtain d pos where w: "poll_step ?b (WriteCall i ubuf n 0)
      (?b\<lparr>task := (task ?b)(i := WWake (int (unat n))), dev := d, fpos := (fpos ?b)(i := pos)\<rparr>)"
    using write_enabled [OF _ assms(2,4,5)] assms(1) by (auto simp: fasync_inv_def)
  define b1 where "b1 = ?b\<lparr>task := (task ?b)(i := WWake (int (unat n))), dev := d, fpos := (fpos ?b)(i := pos)\<rparr>"
  define b2 where "b2 = b1\<lparr>task := (\<lambda>j. if j = i then WSet (int (unat n)) else wake_pc (task b1 j))\<rparr>"
  define b3 where "b3 = b2\<lparr>task := (task b2)(i := User), data_ready := 1,
      ret := (ret b2)(i := (int (unat n), []))\<rparr>"
  define s3 where "s3 = s\<lparr>base := b3, notifying := insert i (notifying s)\<rparr>"
  define t where "t = s3\<lparr>notifying := notifying s3 - {i}, sigio := (i, subscribers s3) # sigio s3\<rparr>"
  have 1: "poll_step ?b (WriteCall i ubuf n 0) b1" using w by (simp only: b1_def)
  have 2: "poll_step b1 (Wake i) b2" unfolding b2_def by (rule poll_step.wake) (simp add: b1_def)
  have 3: "poll_step b2 (SetReady i) b3" unfolding b3_def by (rule poll_step.set_ready) (simp add: b2_def)
  have "fasync_step s (Base (WriteCall i ubuf n 0)) (s\<lparr>base := b1\<rparr>)"
    using fasync_step.base_step [OF _ 1] assms(3) by simp
  moreover have "fasync_step (s\<lparr>base := b1\<rparr>) (Base (Wake i)) (s\<lparr>base := b2\<rparr>)"
    using fasync_step.base_step [of "Wake i" "s\<lparr>base := b1\<rparr>" b2] 2 assms(3) by simp
  moreover have "fasync_step (s\<lparr>base := b2\<rparr>) (Base (SetReady i)) s3"
    using fasync_step.base_step [of "SetReady i" "s\<lparr>base := b2\<rparr>" b3] 3 assms(3) by (simp add: s3_def)
  moreover have "fasync_step s3 (KillFasync i) t"
    unfolding t_def by (rule fasync_step.kill_fasync) (simp add: s3_def)
  ultimately have "run fasync_step s
      [Base (WriteCall i ubuf n 0), Base (Wake i), Base (SetReady i), KillFasync i] t"
    unfolding run_cons_iff run_nil_iff by blast
  then show ?thesis by (intro exI [of _ t]) (simp add: t_def s3_def b3_def)
qed

definition sample_fasync :: fasync_sys where
  "sample_fasync = \<lparr>base = sample_poll, notifying = {}, subscribers = [], sigio = []\<rparr>"

lemma sample_fasync_start: "fasync_start sample_fasync"
  by (simp add: sample_fasync_def fasync_start_def sample_poll_start)

theorem fasync_write_signals_witness:
  "\<exists>t. run fasync_step sample_fasync
     [Base (WriteCall 0 [65] 1 0), Base (Wake 0), Base (SetReady 0), KillFasync 0] t \<and> sigio t = [(0, [])]"
  using fasync_write_signals [of sample_fasync 0 1 "[65]"] fasync_start_inv [OF sample_fasync_start]
  by (auto simp: sample_fasync_def sample_poll_def)

lemma sample_fasync_write:
  "\<exists>t. run fasync_step sample_fasync [Fasync 7 1 True, Base (WriteCall 0 [65] 1 0), Base (Wake 0),
     Base (SetReady 0), KillFasync 0] t \<and> sigio t = [(0, [7])]"
proof -
  let ?s = "sample_fasync\<lparr>subscribers := [7]\<rparr>"
  have "fasync_helper 3 7 1 True (subscribers sample_fasync) = (1, [7])"
    by (simp add: fasync_helper_def sample_fasync_def)
  then have 1: "fasync_step sample_fasync (Fasync 7 1 True) ?s" by (rule fasync_step.fasync_call)
  have "fasync_inv ?s"
    using fasync_start_inv [OF sample_fasync_start] by (simp add: fasync_inv_def)
  from fasync_write_signals [OF this, of 0 1 "[65]"] obtain t where
    "run fasync_step ?s [Base (WriteCall 0 [65] 1 0), Base (Wake 0), Base (SetReady 0), KillFasync 0] t"
    and "sigio t = [(0, [7])]"
    by (auto simp: sample_fasync_def sample_poll_def)
  with 1 show ?thesis by (blast intro: run.intros)
qed

theorem fasync_refines_poll_witness:
  "\<exists>b. run poll_step sample_poll [WriteCall 0 [65] 1 0, Wake 0, SetReady 0] b"
proof -
  from sample_fasync_write obtain t where "run fasync_step sample_fasync [Fasync 7 1 True,
      Base (WriteCall 0 [65] 1 0), Base (Wake 0), Base (SetReady 0), KillFasync 0] t" by blast
  from fasync_refines_poll [OF this] show ?thesis by (auto simp: sample_fasync_def)
qed

theorem fasync_one_signal_each_witness:
  "\<exists>t. run fasync_step sample_fasync [Fasync 7 1 True, Base (WriteCall 0 [65] 1 0), Base (Wake 0),
     Base (SetReady 0), KillFasync 0] t \<and> length (sigio t) + card (notifying t) = 1"
proof -
  from sample_fasync_write obtain t where t: "run fasync_step sample_fasync [Fasync 7 1 True,
      Base (WriteCall 0 [65] 1 0), Base (Wake 0), Base (SetReady 0), KillFasync 0] t" by blast
  from t fasync_one_signal_each [OF t sample_fasync_start] show ?thesis by auto
qed

section \<open>A signal comes after the flag\<close>

fun resets :: "fasync_label \<Rightarrow> bool" where
  "resets (Base (Reset i)) \<longleftrightarrow> True"
| "resets _ \<longleftrightarrow> False"

lemma poll_ready_stays:
  "poll_step b l b' \<Longrightarrow> data_ready b = 1 \<Longrightarrow> \<forall>i. l \<noteq> Reset i \<Longrightarrow> data_ready b' = 1"
  by (cases rule: poll_step.cases) auto

lemma fasync_ready_stays:
  assumes "fasync_step s l t" and "data_ready (base s) = 1" and "\<not> resets l"
  shows "data_ready (base t) = 1"
  using assms(1)
proof (cases rule: fasync_step.cases)
  case (base_step l' b)
  with assms(3) have "\<forall>i. l' \<noteq> Reset i" by auto
  with base_step assms(2) poll_ready_stays [OF base_step(4)] show ?thesis by simp
qed (use assms(2) in simp_all)

text \<open>A task that still has to signal set the flag in this very call, and did nothing since.\<close>

definition announced :: "nat \<Rightarrow> fasync_label list \<Rightarrow> fasync_sys \<Rightarrow> bool" where
  "announced i ls t \<longleftrightarrow> (\<exists>as bs. ls = as @ Base (SetReady i) # bs \<and>
     (\<forall>l. Base l \<in> set bs \<longrightarrow> actor l \<noteq> i) \<and> KillFasync i \<notin> set bs \<and>
     ((\<forall>l \<in> set bs. \<not> resets l) \<longrightarrow> data_ready (base t) = 1))"

lemma announced_step:
  assumes "announced i ls s" and "fasync_step s l t" and "\<And>l'. l = Base l' \<Longrightarrow> actor l' \<noteq> i"
    and "l \<noteq> KillFasync i"
  shows "announced i (ls @ [l]) t"
proof -
  obtain as bs where s: "ls = as @ Base (SetReady i) # bs" "\<forall>l. Base l \<in> set bs \<longrightarrow> actor l \<noteq> i"
    "KillFasync i \<notin> set bs" "(\<forall>l \<in> set bs. \<not> resets l) \<longrightarrow> data_ready (base s) = 1"
    using assms(1) by (auto simp: announced_def)
  have "(\<forall>l' \<in> set (bs @ [l]). \<not> resets l') \<longrightarrow> data_ready (base t) = 1"
    using s(4) fasync_ready_stays [OF assms(2)] by auto
  with s assms(3,4) show ?thesis
    unfolding announced_def by (intro exI [of _ as] exI [of _ "bs @ [l]"]) auto
qed

lemma announced_run:
  assumes "run fasync_step s ls t" and "notifying s = {}"
  shows "\<forall>i \<in> notifying t. announced i ls t"
  using assms(1)
proof (induction ls arbitrary: t rule: rev_induct)
  case Nil
  with assms(2) show ?case by (simp add: run_nil_iff)
next
  case (snoc l ls)
  then obtain u where r: "run fasync_step s ls u" and l: "fasync_step u l t"
    using run_appendD [OF snoc.prems] by (auto simp: run_cons_iff run_nil_iff)
  note ih = snoc.IH [OF r]
  show ?case
  proof
    fix i assume i: "i \<in> notifying t"
    show "announced i (ls @ [l]) t"
    proof (cases "l = Base (SetReady i)")
      case True
      have "data_ready (base t) = 1" using l unfolding True by (auto elim!: base_stepE simp: set_ready_iff)
      then show ?thesis unfolding True announced_def by (intro exI [of _ ls] exI [of _ "[]"]) simp
    next
      case False
      have u: "i \<in> notifying u" and o: "l = Base l' \<Longrightarrow> actor l' \<noteq> i" and k: "l \<noteq> KillFasync i" for l'
        using l i False
        by (cases rule: fasync_step.cases; auto simp: notifying_case split: if_splits elim: sets_ready.elims)+
      show ?thesis using ih u o k l by (blast intro: announced_step)
    qed
  qed
qed

text \<open>C39: A signal means data. Take any interleaving of readers, writers, subscriptions and closes from a freshly
  loaded driver, up to a \<open>kill_fasync\<close>. The writer that makes this call has set the flag before it, in the same
  call of \<open>write\<close>, and does nothing in between; so, unless another reader has reset the flag meanwhile,
  the subscribers that are signalled, exactly those of this moment, find the device readable when they poll. (The
  wake-up comes before the flag, and a sleeping reader can miss it.)\<close>

theorem fasync_signal_means_data:
  assumes "run fasync_step s (ls @ [KillFasync i]) t" and "fasync_start s"
  shows "(\<exists>as bs. ls = as @ Base (SetReady i) # bs \<and>
      (\<forall>l. Base l \<in> set bs \<longrightarrow> actor l \<noteq> i) \<and> KillFasync i \<notin> set bs \<and>
      ((\<forall>l \<in> set bs. \<not> resets l) \<longrightarrow> chardrv_poll (base t) = or POLLIN POLLRDNORM)) \<and>
    hd (sigio t) = (i, subscribers t)"
proof -
  obtain u where r: "run fasync_step s ls u" and k: "fasync_step u (KillFasync i) t"
    using run_appendD [OF assms(1)] by (auto simp: run_cons_iff run_nil_iff)
  have n: "i \<in> notifying u" "base t = base u" "hd (sigio t) = (i, subscribers t)"
    using k by (auto simp: kill_fasync_iff)
  have "announced i ls u" using announced_run [OF r] n(1) assms(2) by (simp add: fasync_start_def)
  then obtain as bs where s: "ls = as @ Base (SetReady i) # bs" "\<forall>l. Base l \<in> set bs \<longrightarrow> actor l \<noteq> i"
    "KillFasync i \<notin> set bs" "(\<forall>l \<in> set bs. \<not> resets l) \<longrightarrow> data_ready (base u) = 1"
    by (auto simp: announced_def)
  have "(\<forall>l \<in> set bs. \<not> resets l) \<longrightarrow> chardrv_poll (base t) = or POLLIN POLLRDNORM"
    using s(4) n(2) by (simp add: chardrv_poll_def)
  with s(1-3) n(3) show ?thesis by blast
qed

theorem fasync_signal_means_data_witness:
  "\<exists>t. run fasync_step sample_fasync ([Fasync 7 1 True, Base (WriteCall 0 [65] 1 0), Base (Wake 0),
     Base (SetReady 0)] @ [KillFasync 0]) t \<and> hd (sigio t) = (0, subscribers t) \<and> sigio t = [(0, [7])]"
proof -
  from sample_fasync_write obtain t where t: "run fasync_step sample_fasync ([Fasync 7 1 True,
      Base (WriteCall 0 [65] 1 0), Base (Wake 0), Base (SetReady 0)] @ [KillFasync 0]) t"
    and s: "sigio t = [(0, [7])]" by auto
  from fasync_signal_means_data [OF t sample_fasync_start] t s show ?thesis by blast
qed

section \<open>The handlers the later labs repeat\<close>

text \<open>Labs 4, 5 and 6 have the handlers below unchanged (those of lab 5 are in \<open>Char_Poll\<close>); labs 5 and 6 also clear the flag when they load.\<close>

(* src: char/lab4_char_seek.c:41-53 chardrv_open *)
definition lab4_open ::
    "ioctl_chardrv \<Rightarrow> int \<times> ioctl_chardrv" where
  "lab4_open = chardrv_open"

(* src: char/lab4_char_seek.c:55-59 chardrv_release *)
definition lab4_release ::
    "ioctl_chardrv \<Rightarrow> int \<times> ioctl_chardrv" where
  "lab4_release = chardrv_release"

(* src: char/lab4_char_seek.c:61-72 chardrv_read *)
definition lab4_read ::
    "size_t \<Rightarrow> loff_t \<Rightarrow> size_t \<Rightarrow> ioctl_chardrv \<Rightarrow> (int \<times> byte list \<times> loff_t) kresult" where
  "lab4_read = chardrv_read"

(* src: char/lab4_char_seek.c:74-86 chardrv_write *)
definition lab4_write ::
    "byte list \<Rightarrow> size_t \<Rightarrow> loff_t \<Rightarrow> size_t \<Rightarrow> ioctl_chardrv \<Rightarrow> (int \<times> ioctl_chardrv \<times> loff_t) kresult" where
  "lab4_write = chardrv_write"

(* src: char/lab4_char_seek.c:164-200 chardrv_init *)
definition lab4_init ::
    "chardev_env \<Rightarrow> chardev_res ledger \<Rightarrow> int \<times> chardev_res ledger \<times> chardrv" where
  "lab4_init = chardrv_init"

(* src: char/lab4_char_seek.c:202-210 chardrv_exit *)
definition lab4_exit ::
    "chardev_res ledger \<Rightarrow> chardev_res ledger" where
  "lab4_exit = chardrv_exit"

(* src: char/lab5_char_poll.c:230-238 chardrv_exit *)
definition lab5_exit ::
    "chardev_res ledger \<Rightarrow> chardev_res ledger" where
  "lab5_exit = chardrv_exit"

(* src: char/lab6_char_fasync.c:47-59 chardrv_open *)
definition lab6_open ::
    "ioctl_chardrv \<Rightarrow> int \<times> ioctl_chardrv" where
  "lab6_open = chardrv_open"

(* src: char/lab6_char_fasync.c:107-149 chardrv_unlocked_ioctl *)
definition lab6_unlocked_ioctl ::
    "c_uint \<Rightarrow> byte list \<Rightarrow> size_t \<Rightarrow> ioctl_chardrv \<Rightarrow> (int \<times> byte list \<times> ioctl_chardrv) kresult" where
  "lab6_unlocked_ioctl = chardrv_unlocked_ioctl"

(* src: char/lab6_char_fasync.c:151-172 chardrv_lseek *)
definition lab6_lseek ::
    "loff_t \<Rightarrow> c_int \<Rightarrow> loff_t \<Rightarrow> int \<times> loff_t" where
  "lab6_lseek = chardrv_lseek"

(* src: char/lab6_char_fasync.c:174-181 chardrv_poll *)
definition lab6_poll ::
    "fasync_sys \<Rightarrow> c_uint" where
  "lab6_poll s = chardrv_poll (base s)"

(* src: char/lab6_char_fasync.c:200-239 chardrv_init *)
definition lab6_init ::
    "chardev_env \<Rightarrow> chardev_res ledger \<Rightarrow> int \<times> chardev_res ledger \<times> chardrv \<times> c_int" where
  "lab6_init = chardrv_init_poll"

(* src: char/lab6_char_fasync.c:241-249 chardrv_exit *)
definition lab6_exit ::
    "chardev_res ledger \<Rightarrow> chardev_res ledger" where
  "lab6_exit = chardrv_exit"

end
