(* ===== verification/Debug_Files.thy ===== *)
theory Debug_Files
  imports Proc Jit
begin

text \<open>
  Small text files of \<open>src/debug\<close>: a proc file with a buffer of 128 bytes (\<open>debug_lab2_procfs.c\<close>), a number in a debugfs
  file (\<open>lab4_debugfs.c\<close> and \<open>debug_lab4_debugfs.c\<close>, the same code), a single proc parameter (\<open>lab5_proc.c\<close>), a greeting
  (\<open>lab10_procfs.c\<close>), a file that waits (\<open>lab13_busy.c\<close>), and the device that crashes on purpose (\<open>lab12_faulty.c\<close>).
\<close>

section \<open>The kernel's helpers\<close>

text \<open>
  \<open>simple_read_from_buffer\<close> and \<open>simple_write_to_buffer\<close> move what lies between the position and the end of the
  buffer, at most the count. A copy that moves nothing fails with \<open>EFAULT\<close>; one that moves a part counts that part, and
  a write fills the rest with zeros. Positions are not negative.
\<close>

definition simple_read_from_buffer :: "nat \<Rightarrow> nat \<Rightarrow> nat \<Rightarrow> string \<Rightarrow> int \<times> string \<times> nat" where
  "simple_read_from_buffer count left pos from =
     (if length from \<le> pos \<or> count = 0 then (0, [], pos)
      else
        let n = min count (length from - pos)
        in if n \<le> left then (- EFAULT, [], pos)
           else (int (n - left), take (n - left) (drop pos from), pos + (n - left)))"

definition simple_write_to_buffer :: "string \<Rightarrow> nat \<Rightarrow> nat \<Rightarrow> string \<Rightarrow> int \<times> string \<times> nat" where
  "simple_write_to_buffer to left pos text =
     (if length to \<le> pos \<or> text = [] then (0, to, pos)
      else
        let n = min (length text) (length to - pos)
        in if n \<le> left then (- EFAULT, put_range pos (replicate n (CHR 0x00)) to, pos)
           else (int (n - left), put_range pos (take (n - left) text @ replicate left (CHR 0x00)) to, pos + (n - left)))"

text \<open>A C string: the characters before the first zero, which has to be inside the object.\<close>

definition c_string :: "string \<Rightarrow> string kresult" where
  "c_string m =
     (let s = takeWhile (\<lambda>c. c \<noteq> CHR 0x00) m in if length s = length m then Inl OutOfBounds else Inr s)"

lemma c_string_zero: "CHR 0x00 \<notin> set s \<Longrightarrow> c_string (s @ CHR 0x00 # r) = Inr s"
proof -
  assume "CHR 0x00 \<notin> set s"
  then have "takeWhile (\<lambda>c. c \<noteq> CHR 0x00) (s @ CHR 0x00 # r) = s"
    by (subst takeWhile_append2) auto
  then show ?thesis by (simp add: c_string_def)
qed

section \<open>The proc file with a buffer\<close>

(* src: debug/debug_lab2_procfs.c:23-27 procfile_read *)
definition procfile_read :: "nat \<Rightarrow> nat \<Rightarrow> nat \<Rightarrow> string \<Rightarrow> (int \<times> string \<times> nat) kresult" where
  "procfile_read len left off proc_buff =
     (case c_string proc_buff of
        Inl f \<Rightarrow> Inl f
      | Inr s \<Rightarrow> Inr (simple_read_from_buffer len left off s))"

text \<open>The terminating zero is stored at the index of the result, which is the number of bytes, or an error.\<close>

(* src: debug/debug_lab2_procfs.c:29-35 procfile_write *)
definition procfile_write :: "string \<Rightarrow> nat \<Rightarrow> nat \<Rightarrow> string \<Rightarrow> (int \<times> string \<times> nat) kresult" where
  "procfile_write text left off proc_buff =
     (let (ret, proc_buff, off) = simple_write_to_buffer proc_buff left off text
      in if ret < 0 \<or> int (length proc_buff) \<le> ret then Inl OutOfBounds
         else Inr (ret, proc_buff[nat ret := CHR 0x00], off))"

text \<open>A write at the start that leaves room for the terminating zero.\<close>

lemma procfile_write_start:
  assumes "length m = 128" and "length text < 128"
  shows "\<exists>r. procfile_write text 0 0 m = Inr (int (length text), text @ CHR 0x00 # r, length text) \<and>
    length r = 127 - length text"
proof -
  have d: "\<exists>c r. drop (length text) m = c # r \<and> length r = 127 - length text"
    using assms by (cases "drop (length text) m") (auto dest: arg_cong [where f = length])
  then obtain c r where d: "drop (length text) m = c # r" and l: "length r = 127 - length text" by blast
  show ?thesis
  proof (cases "text = []")
    case True
    with d l assms show ?thesis
      by (cases m) (auto simp: procfile_write_def simple_write_to_buffer_def)
  next
    case False
    then have "simple_write_to_buffer m 0 0 text = (int (length text), text @ c # r, length text)"
      using assms d by (simp add: simple_write_to_buffer_def put_range_def Let_def min_def)
    with l assms show ?thesis by (simp add: procfile_write_def list_update_append)
  qed
qed

text \<open>Reading in pieces, from one position to the next.\<close>

fun procfile_pieces :: "nat list \<Rightarrow> nat \<Rightarrow> string \<Rightarrow> string kresult" where
  "procfile_pieces [] off m = Inr []"
| "procfile_pieces (n # ns) off m =
     (case procfile_read n 0 off m of
        Inl f \<Rightarrow> Inl f
      | Inr (r, s, off) \<Rightarrow>
          (case procfile_pieces ns off m of Inl f \<Rightarrow> Inl f | Inr t \<Rightarrow> Inr (s @ t)))"

lemma procfile_pieces_text:
  "c_string m = Inr s \<Longrightarrow> procfile_pieces ns off m = Inr (take (sum_list ns) (drop off s))"
proof (induction ns arbitrary: off)
  case (Cons n ns)
  consider "length s \<le> off" | "n = 0" | "off < length s" "0 < n" by linarith
  then show ?case
  proof cases
    case 3
    let ?k = "min n (length s - off)"
    have "procfile_read n 0 off m = Inr (int ?k, take ?k (drop off s), off + ?k)"
      using Cons.prems 3 by (simp add: procfile_read_def simple_read_from_buffer_def Let_def)
    moreover have "take ?k (drop off s) @ take (sum_list ns) (drop (off + ?k) s) = take (n + sum_list ns) (drop off s)"
      by (cases "n \<le> length s - off") (simp_all add: take_add add.commute)
    ultimately show ?thesis using Cons by simp
  qed (use Cons in \<open>simp_all add: procfile_read_def simple_read_from_buffer_def\<close>)
qed simp

text \<open>A text shorter than the buffer and without zeros is read back as it was written, in whatever pieces. A
  text that fills the buffer is stored, and its terminating zero behind the buffer.\<close>

theorem procfile_roundtrip:
  assumes "length m = 128" and "CHR 0x00 \<notin> set text"
  shows "(length text < 128 \<longrightarrow> (\<exists>m'. procfile_write text 0 0 m = Inr (int (length text), m', length text) \<and>
      length m' = 128 \<and> procfile_pieces ns 0 m' = Inr (take (sum_list ns) text)))
    \<and> (128 \<le> length text \<longrightarrow> procfile_write text 0 0 m = Inl OutOfBounds)"
proof (intro conjI impI)
  assume l: "length text < 128"
  from procfile_write_start [OF assms(1) l] obtain r where
    w: "procfile_write text 0 0 m = Inr (int (length text), text @ CHR 0x00 # r, length text)"
    and r: "length r = 127 - length text" by blast
  from procfile_pieces_text [OF c_string_zero [OF assms(2), of r], of ns 0] w r l
  show "\<exists>m'. procfile_write text 0 0 m = Inr (int (length text), m', length text) \<and>
      length m' = 128 \<and> procfile_pieces ns 0 m' = Inr (take (sum_list ns) text)"
    by auto
next
  assume l: "128 \<le> length text"
  then have "length (put_range 0 (take 128 text) m) = 128" using assms(1) by (subst length_put_range) simp_all
  with l assms(1) show "procfile_write text 0 0 m = Inl OutOfBounds"
    by (auto simp: procfile_write_def simple_write_to_buffer_def Let_def min_def)
qed

theorem procfile_roundtrip_witness:
  "\<exists>m. procfile_write ''hello'' 0 0 (replicate 128 (CHR 0x00)) = Inr (5, m, 5) \<and>
     procfile_pieces [2, 1, 9] 0 m = Inr ''hello''"
  using procfile_roundtrip [of "replicate 128 (CHR 0x00)" "''hello''" "[2, 1, 9]"] by auto

text \<open>A second write that goes on where the first one ended puts its zero at its own length, and cuts the text there.\<close>

theorem procfile_second_write:
  assumes "length m = 128" and "length a + length b < 128" and "b \<noteq> []"
    and "CHR 0x00 \<notin> set a" and "CHR 0x00 \<notin> set b"
  shows "\<exists>m1 m2. procfile_write a 0 0 m = Inr (int (length a), m1, length a) \<and>
    procfile_write b 0 (length a) m1 = Inr (int (length b), m2, length a + length b) \<and>
    c_string m2 = Inr (take (length b) (a @ b))"
proof -
  have "length a < 128" using assms(2) by simp
  from procfile_write_start [OF assms(1) this] obtain r where
    w: "procfile_write a 0 0 m = Inr (int (length a), a @ CHR 0x00 # r, length a)"
    and r: "length r = 127 - length a" by blast
  define m1 where "m1 = a @ CHR 0x00 # r"
  define m' where "m' = a @ b @ drop (length b) (CHR 0x00 # r)"
  have l1: "length m1 = 128" using r assms(2) by (simp add: m1_def)
  have s: "simple_write_to_buffer m1 0 (length a) b = (int (length b), m', length a + length b)"
    using assms(2,3) l1 by (simp add: simple_write_to_buffer_def put_range_def Let_def min_def m1_def m'_def)
  have l': "length m' = 128" using r assms(2) by (simp add: m'_def)
  have "procfile_write b 0 (length a) m1 = Inr (int (length b), m'[length b := CHR 0x00], length a + length b)"
    using assms(2) l' by (simp add: procfile_write_def s)
  moreover have "c_string (m'[length b := CHR 0x00]) = Inr (take (length b) (a @ b))"
  proof -
    have "m'[length b := CHR 0x00] = take (length b) m' @ CHR 0x00 # drop (Suc (length b)) m'"
      using l' assms(2) by (simp add: upd_conv_take_nth_drop)
    moreover have "take (length b) m' = take (length b) (a @ b)"
      by (simp add: m'_def flip: append_assoc)
    moreover have "CHR 0x00 \<notin> set (take (length b) (a @ b))"
      using assms(4,5) set_take_subset [of "length b" "a @ b"] by auto
    ultimately show ?thesis using c_string_zero by metis
  qed
  ultimately show ?thesis using w by (auto simp: m1_def)
qed

theorem procfile_second_write_witness:
  "\<exists>m1 m2. procfile_write ''hello '' 0 0 (replicate 128 (CHR 0x00)) = Inr (6, m1, length ''hello '') \<and>
     procfile_write ''you'' 0 (length ''hello '') m1 = Inr (3, m2, length ''hello '' + length ''you'') \<and> c_string m2 = Inr ''hel''"
  using procfile_second_write [of "replicate 128 (CHR 0x00)" "''hello ''" "''you''"] by simp


section \<open>A number in debugfs\<close>

(* src: debug/lab4_debugfs.c:34-37 val, kstring *)
record debug_number =
  val :: int
  kstring :: string

text \<open>Reading prints the number into the static buffer.\<close>

(* src: debug/lab4_debugfs.c:39-46 my_read *)
definition debugfs_read :: "nat \<Rightarrow> nat \<Rightarrow> nat \<Rightarrow> debug_number \<Rightarrow> (int \<times> string \<times> nat \<times> debug_number) kresult" where
  "debugfs_read lbuf left ppos d =
     (case sprintf_at 0 (print_number (val d)) (kstring d) of
        Inl f \<Rightarrow> Inl f
      | Inr k \<Rightarrow>
          let (r, out, ppos) = simple_read_from_buffer lbuf left ppos (take (length (print_number (val d))) k)
          in Inr (r, out, ppos, d\<lparr>kstring := k\<rparr>))"

text \<open>Writing copies as many bytes as the user gives to the start of that buffer, and scans all of it.\<close>

(* src: debug/lab4_debugfs.c:48-57 my_write *)
definition debugfs_write :: "string \<Rightarrow> nat \<Rightarrow> debug_number \<Rightarrow> (int \<times> debug_number) kresult" where
  "debugfs_write text rc d =
     (if length (kstring d) < length text then Inl OutOfBounds
      else
        let k = put_range 0 (take (length text - rc) text @ replicate rc (CHR 0x00)) (kstring d)
        in case sscanf_d k of
             Inl f \<Rightarrow> Inl f
           | Inr v \<Rightarrow> Inr (int (length text), d\<lparr>kstring := k, val := case v of None \<Rightarrow> val d | Some v \<Rightarrow> v\<rparr>))"

(* src: debug/debug_lab4_debugfs.c:24-31 my_read *)
definition debugfs2_read :: "nat \<Rightarrow> nat \<Rightarrow> nat \<Rightarrow> debug_number \<Rightarrow> (int \<times> string \<times> nat \<times> debug_number) kresult" where
  "debugfs2_read = debugfs_read"

(* src: debug/debug_lab4_debugfs.c:33-42 my_write *)
definition debugfs2_write :: "string \<Rightarrow> nat \<Rightarrow> debug_number \<Rightarrow> (int \<times> debug_number) kresult" where
  "debugfs2_write = debugfs_write"

lemma debugfs_read_prints:
  assumes "is_int (val d)" and "length (kstring d) = 32"
  shows "\<exists>d'. debugfs_read lbuf left ppos d =
      (let (r, out, p) = simple_read_from_buffer lbuf left ppos (print_number (val d)) in Inr (r, out, p, d')) \<and>
    val d' = val d \<and> kstring d' = put_range 0 (print_number (val d) @ [CHR 0x00]) (kstring d)"
proof -
  let ?s = "print_number (val d)"
  have "length ?s < length (kstring d)" using print_number_short [OF assms(1)] assms(2) by simp
  then have p: "sprintf_at 0 ?s (kstring d) = Inr (put_range 0 (?s @ [CHR 0x00]) (kstring d))"
    by (simp add: sprintf_ok)
  have "take (length ?s) (put_range 0 (?s @ [CHR 0x00]) (kstring d)) = ?s" by (simp add: put_range_def)
  with p show ?thesis by (simp add: debugfs_read_def split_beta)
qed

text \<open>A number written as its digits and a newline is set, whatever the buffer held, and read back as it was written.
  Without the newline the digits are scanned together with what an earlier read left in the buffer; more than the
  buffer's 32 bytes run over it.\<close>

theorem debugfs_roundtrip:
  assumes "is_int v" and "length (kstring d) = 32"
  shows "(\<exists>d' d''. debugfs_write (print_number v) 0 d = Inr (int (length (print_number v)), d') \<and> val d' = v \<and>
      debugfs_read 32 0 0 d' = Inr (int (length (print_number v)), print_number v, length (print_number v), d'') \<and>
      val d'' = v)
    \<and> (32 < length text \<longrightarrow> debugfs_write text rc d = Inl OutOfBounds)"
proof (intro conjI impI)
  let ?s = "print_number v"
  have l: "length ?s \<le> 12" by (rule print_number_short [OF assms(1)])
  let ?k = "put_range 0 ?s (kstring d)"
  have "?k = fmt_d v @ CHR 0x0A # drop (length ?s) (kstring d)"
    by (simp add: put_range_def print_number_def)
  moreover have "sscanf_d (fmt_d v @ CHR 0x0A # drop (length ?s) (kstring d)) = Inr (Some v)"
    using assms(1) by (intro sscanf_fmt_d) (simp_all add: is_int_def)
  ultimately have sc: "sscanf_d ?k = Inr (Some v)" by simp
  let ?d = "d\<lparr>kstring := ?k, val := v\<rparr>"
  have "debugfs_write ?s 0 d = Inr (int (length ?s), ?d)"
    using sc l assms(2) by (simp add: debugfs_write_def Let_def)
  moreover have "is_int (val ?d)" and "length (kstring ?d) = 32" using assms l by simp_all
  from debugfs_read_prints [OF this, of 32 0 0] obtain d'' where
    "debugfs_read 32 0 0 ?d = Inr (int (length ?s), ?s, length ?s, d'')" "val d'' = v"
    using l by (auto simp: simple_read_from_buffer_def Let_def min_def print_number_def)
  ultimately show "\<exists>d' d''. debugfs_write ?s 0 d = Inr (int (length ?s), d') \<and> val d' = v \<and>
      debugfs_read 32 0 0 d' = Inr (int (length ?s), ?s, length ?s, d'') \<and> val d'' = v"
    by (intro exI [of _ ?d] exI [of _ d'']) simp
qed (use assms in \<open>simp add: debugfs_write_def\<close>)

definition debug_start :: debug_number where
  "debug_start = \<lparr>val = 888, kstring = replicate 32 (CHR 0x00)\<rparr>"

theorem debugfs_roundtrip_witness:
  "\<exists>d'. debugfs_write (print_number (-42)) 0 debug_start = Inr (int (length (print_number (-42))), d') \<and> val d' = -42"
  using debugfs_roundtrip [of "-42" debug_start] by (auto simp: is_int_def debug_start_def)

theorem debugfs_stale_digits:
  "\<exists>d d' out p. debugfs_read 32 0 0 debug_start = Inr (4, out, p, d) \<and> debugfs_write ''5'' 0 d = Inr (1, d') \<and>
     val d' = 588"
proof -
  have c: "char_of (56 :: nat) = CHR ''8''" "char_of (53 :: nat) = CHR ''5''" by code_simp+
  have n: "print_number 888 = ''888'' @ [CHR 0x0A]" 
    by (simp add: print_number_def fmt_d_def digit_def digits.simps [of 10 888] digits.simps [of 10 88] digits.simps [of 10 8] c)
  have "is_int (val debug_start)" "length (kstring debug_start) = 32" by (simp_all add: debug_start_def is_int_def)
  from debugfs_read_prints [OF this, of 32 0 0] obtain d out p where
    r: "debugfs_read 32 0 0 debug_start = Inr (4, out, p, d)"
    and k: "kstring d = ''888'' @ CHR 0x0A # CHR 0x00 # replicate 27 (CHR 0x00)"
    by (auto simp: debug_start_def n simple_read_from_buffer_def put_range_def Let_def)
  have f: "fmt_d 588 = ''588''"
    by (simp add: fmt_d_def digit_def digits.simps [of 10 588] digits.simps [of 10 58] digits.simps [of 10 5] c)
  have "sscanf_d (fmt_d 588 @ CHR 0x0A # CHR 0x00 # replicate 27 (CHR 0x00)) = Inr (Some 588)"
    by (rule sscanf_fmt_d) simp_all
  then have "debugfs_write ''5'' 0 d = Inr (1, d\<lparr>kstring := ''588'' @ CHR 0x0A # CHR 0x00 # replicate 27 (CHR 0x00), val := 588\<rparr>)"
    by (simp add: debugfs_write_def k put_range_def f)
  then obtain d' where "debugfs_write ''5'' 0 d = Inr (1, d')" and "val d' = 588" by simp
  with r show ?thesis by blast
qed

datatype debugfs_res = DbgVar | DbgDir | DbgFile

text \<open>Loading ignores the answers; unloading removes what there is.\<close>

(* src: debug/lab4_debugfs.c:65-74 my_init *)
definition debugfs_init :: "bool \<times> bool \<times> bool \<Rightarrow> debugfs_res ledger \<Rightarrow> int \<times> debugfs_res ledger" where
  "debugfs_init e k =
     (let (var32, parent, filen) = e;
          k = (if var32 then acquire DbgVar k else k);
          k = (if parent then acquire DbgDir k else k);
          k = (if filen then acquire DbgFile k else k)
      in (0, k))"

(* src: debug/lab4_debugfs.c:76-85 my_exit *)
definition debugfs_exit :: "bool \<times> bool \<times> bool \<Rightarrow> debugfs_res ledger \<Rightarrow> debugfs_res ledger" where
  "debugfs_exit e k =
     (let (var32, parent, filen) = e;
          k = (if filen then release DbgFile k else k);
          k = (if parent then release DbgDir k else k)
      in if var32 then release DbgVar k else k)"

lemma debugfs_unload: "debugfs_exit e (snd (debugfs_init e k)) = k"
  by (cases e) (simp add: debugfs_init_def debugfs_exit_def Let_def release_acquire_other)


text \<open>The directory and the entry of the first file.\<close>

datatype procdir_res = PdDir | PdFile

(* src: debug/debug_lab2_procfs.c:43-58 dbgproc_init *)
definition dbgproc_init :: "bool \<times> bool \<Rightarrow> procdir_res ledger \<Rightarrow> int \<times> procdir_res ledger" where
  "dbgproc_init e k =
     (if \<not> fst e then (- ENOMEM, k)
      else
        let k = acquire PdDir k
        in if \<not> snd e then (- ENOMEM, release PdDir k) else (0, acquire PdFile k))"

(* src: debug/debug_lab2_procfs.c:60-64 dbgproc_exit *)
definition dbgproc_exit :: "bool \<times> bool \<Rightarrow> procdir_res ledger \<Rightarrow> procdir_res ledger" where
  "dbgproc_exit e k = release_all [PdFile, PdDir] k"

interpretation procdir_module:
  module_lifecycle "\<lambda>_. True" dbgproc_init "\<lambda>_. [PdFile, PdDir]" dbgproc_exit
  by unfold_locales (auto simp: dbgproc_init_def dbgproc_exit_def Let_def ledger_simps split: if_splits)

section \<open>A single parameter\<close>

(* src: debug/lab5_proc.c:47-53 my_proc_read *)
definition one_proc_read :: "int \<Rightarrow> string \<Rightarrow> (int \<times> string) kresult" where
  "one_proc_read the_param page =
     (case sprintf_at 0 (print_number the_param) page of
        Inl f \<Rightarrow> Inl f
      | Inr page \<Rightarrow> Inr (int (length (print_number the_param)), page))"

(* src: debug/lab5_proc.c:55-69 my_proc_write *)
definition one_proc_write :: "bool \<Rightarrow> nat \<Rightarrow> string \<Rightarrow> int \<Rightarrow> (int \<times> int) kresult" where
  "one_proc_write alloc uleft text the_param =
     (if \<not> alloc then Inl NullDeref
      else if uleft \<noteq> 0 then Inr (- EFAULT, the_param)
      else case sscanf_d text of
             Inl f \<Rightarrow> Inl f
           | Inr v \<Rightarrow> Inr (int (length text), case v of None \<Rightarrow> the_param | Some v \<Rightarrow> v))"

text \<open>It is the first entry of the two-parameter module.\<close>

lemma one_proc_is_first:
  "one_proc_read (param_1 p) page = my_proc_read Entry1 p page"
  "my_proc_write Entry1 alloc uleft text p =
     (case one_proc_write alloc uleft text (param_1 p) of Inl f \<Rightarrow> Inl f | Inr (r, v) \<Rightarrow> Inr (r, p\<lparr>param_1 := v\<rparr>, 0))"
  by (simp_all add: one_proc_read_def my_proc_read_def one_proc_write_def my_proc_write_def write_number_def
      split: sum.split option.split)

section \<open>A greeting\<close>

text \<open>
  The write prints what it is given, up to a zero, and never frees its copy: the result counts the copies left. The
  read is given a page and the text of the entry.
\<close>

(* src: debug/lab10_procfs.c:24-44 write_first *)
definition write_first :: "bool \<Rightarrow> nat \<Rightarrow> string \<Rightarrow> (int \<times> string \<times> nat) kresult" where
  "write_first alloc uleft text =
     (if 1024 < length text then Inr (- EFAULT, [], 0)
      else if \<not> alloc then Inl NullDeref
      else if uleft \<noteq> 0 then Inr (- EFAULT, [], 0)
      else Inr (int (length text), takeWhile (\<lambda>c. c \<noteq> CHR 0x00) text, 1))"

(* src: debug/lab10_procfs.c:46-59 read_first *)
definition read_first :: "string \<Rightarrow> string \<Rightarrow> (int \<times> string) kresult" where
  "read_first data page =
     (let out = ''hello world: '' @ data @ [CHR 0x0A]
      in if length page < length out then Inl OutOfBounds else Inr (int (length out), put_range 0 out page))"

datatype example_res = ExDir | ExFile | ExData

text \<open>
  \<open>strcpy\<close> copies the terminating zero too, but the allocation is of the text alone.
\<close>

definition strcpy_fits :: "nat \<Rightarrow> string \<Rightarrow> bool" where
  "strcpy_fits n s \<longleftrightarrow> length s < n"

(* src: debug/lab10_procfs.c:61-81 procexample_module_init *)
definition procexample_module_init ::
    "bool \<times> bool \<times> bool \<Rightarrow> example_res ledger \<Rightarrow> (int \<times> example_res ledger) kresult" where
  "procexample_module_init e k =
     (let (dir, first, mem) = e; s = ''first file private data''
      in if \<not> dir then Inr (- ENOMEM, k)
         else
           let k = acquire ExDir k
           in if \<not> first then Inr (- ENOMEM, release ExDir k)
           else
             let k = acquire ExFile k
             in if \<not> mem then Inl NullDeref
             else if \<not> strcpy_fits (length s) s then Inl OutOfBounds
             else Inr (0, acquire ExData k))"

(* src: debug/lab10_procfs.c:83-88 procexample_module_exit *)
definition procexample_module_exit :: "example_res ledger \<Rightarrow> example_res ledger" where
  "procexample_module_exit k = release_all [ExData, ExFile, ExDir] k"

text \<open>A load that gets past the entries writes one byte behind its allocation; one that fails before keeps nothing.\<close>

theorem procexample_never_loads:
  "procexample_module_init (d, f, m) k =
     (if d \<and> f then Inl (if m then OutOfBounds else NullDeref) else Inr (- ENOMEM, k))"
  by (simp add: procexample_module_init_def strcpy_fits_def Let_def)

text \<open>What the read gives fits the page as long as the text does, and the write leaks one buffer for each success.\<close>

lemma first_file_reads:
  assumes "out = ''hello world: '' @ data @ [CHR 0x0A]" and "length out \<le> length page"
  shows "\<exists>page'. read_first data page = Inr (int (length out), page') \<and> take (length out) page' = out"
  unfolding read_first_def assms(1) [symmetric] Let_def using assms(2) by (simp add: put_range_def)

lemma first_file_leaks:
  "write_first alloc uleft text = Inr (r, out, l) \<Longrightarrow> l = (if r = int (length text) then 1 else 0)"
  by (auto simp: write_first_def split: if_splits)

section \<open>A file that waits\<close>

(* src: debug/lab13_busy.c:19-29 x_read_busy *)
definition x_read_busy ::
    "64 word \<Rightarrow> 64 word \<Rightarrow> 64 word \<Rightarrow> 64 word list \<Rightarrow> 64 word \<Rightarrow> string \<Rightarrow> (int \<times> string) kresult option" where
  "x_read_busy HZ x_delay j0 js j1 buf =
     (case wait_until (j0 + x_delay * HZ) js of
        None \<Rightarrow> None
      | Some _ \<Rightarrow>
          let s = ''jiffies = '' @ fmt_d (sint (ucast j1 :: c_int)) @ [CHR 0x0A]
          in Some (case sprintf_at 0 s buf of Inl f \<Rightarrow> Inl f | Inr buf \<Rightarrow> Inr (int (length s), buf)))"

text \<open>The entry is used unchecked.\<close>

(* src: debug/lab13_busy.c:33-38 my_init *)
definition busy_init :: "bool \<Rightarrow> int kresult" where
  "busy_init entry = (if entry then Inr 0 else Inl NullDeref)"

text \<open>A read returns once the delay has passed, for any start of the counter, and its line fits a page.\<close>

theorem busy_read_returns:
  assumes "d < 2 ^ 62" and "\<forall>t \<in> set ts. t < 2 ^ 62" and "\<exists>t \<in> set ts. d \<le> t" and "23 \<le> length buf"
    and "x_delay * HZ = of_nat d"
  shows "\<exists>n buf'. x_read_busy HZ x_delay j0 (map (\<lambda>t. j0 + of_nat t) ts) j1 buf = Some (Inr (int n, buf')) \<and>
    take n buf' = ''jiffies = '' @ fmt_d (sint (ucast j1 :: c_int)) @ [CHR 0x0A]"
proof -
  let ?s = "''jiffies = '' @ fmt_d (sint (ucast j1 :: c_int)) @ [CHR 0x0A]"
  from assms(3) obtain t where "find (\<lambda>t. d \<le> t) ts = Some t" by (metis find_None_iff not_Some_eq)
  then have w: "wait_until (j0 + of_nat d) (map (\<lambda>t. j0 + of_nat t) ts) = Some (j0 + of_nat t)"
    using assms(1,2) by (induction ts) (auto simp: time_before_offset split: if_splits)
  have "length (fmt_d (sint (ucast j1 :: c_int))) \<le> 11"
    using sint_ge [of "ucast j1 :: c_int"] sint_lt [of "ucast j1 :: c_int"] by (intro length_fmt_int) simp_all
  then have "length ?s < length buf" using assms(4) by simp
  then have p: "sprintf_at 0 ?s buf = Inr (put_range 0 (?s @ [CHR 0x00]) buf)" by (intro sprintf_ok) simp
  have "take (length ?s) (put_range 0 (?s @ [CHR 0x00]) buf) = ?s" by (simp add: put_range_def)
  with w p show ?thesis unfolding x_read_busy_def assms(5) Let_def by force
qed

section \<open>The device that crashes\<close>

definition kmemset :: "nat \<Rightarrow> byte \<Rightarrow> byte list \<Rightarrow> byte list kresult" where
  "kmemset n c m = (if n \<le> length m then Inr (put_range 0 (replicate n c) m) else Inl OutOfBounds)"

(* src: debug/lab12_faulty.c:22-36 faulty_read *)
definition faulty_read :: "nat \<Rightarrow> nat \<Rightarrow> byte list \<Rightarrow> (int \<times> byte list) kresult" where
  "faulty_read n ret stack_buf =
     (case kmemset 20 0xFF stack_buf of
        Inl f \<Rightarrow> Inl f
      | Inr m \<Rightarrow>
          let n = min n 4 in Inr (if ret = 0 then int n else int ret, take (n - ret) m))"

(* src: debug/lab12_faulty.c:38-44 faulty_write *)
definition faulty_write :: "byte list \<Rightarrow> int kresult" where
  "faulty_write text = Inl NullDeref"

text \<open>A major number of zero asks for one.\<close>

(* src: debug/lab12_faulty.c:55-69 faulty_init *)
definition faulty_init :: "int \<Rightarrow> int \<Rightarrow> int \<times> int" where
  "faulty_init result faulty_major =
     (if result < 0 then (result, faulty_major)
      else (0, if faulty_major = 0 then result else faulty_major))"

text \<open>A read overruns its four bytes whatever it is asked for.\<close>

lemma faulty_read_overruns: "length m = 4 \<Longrightarrow> faulty_read n ret m = Inl OutOfBounds"
  by (simp add: faulty_read_def kmemset_def)

end
