(* ===== verification/Waiter_Static.thy ===== *)
theory Waiter_Static
  imports Waiter
begin

text \<open>
  The event threads with static objects, \<open>src/misc/wat_queu_stat.c\<close> and \<open>completion_static.c\<close>. The functions are those of the
  dynamic variants; the completion is initialised before any code runs, and the loading function has no step that
  initialises it. The first one initialises its static wait queue a second time, before the thread is started.
\<close>

section \<open>The wait queue\<close>

(* src: misc/wat_queu_stat.c:43-58 wait_function *)
fun wqs_thread :: "wait_event \<Rightarrow> waiter \<Rightarrow> waiter option" where
  "wqs_thread TCheck s = wq_check s"
| "wqs_thread ev s = after_wait ev s"

(* src: misc/wat_queu_stat.c:74-80 etx_read *)
fun wqs_read :: "wait_event \<Rightarrow> waiter \<Rightarrow> waiter option" where
  "wqs_read RSet s = etx_read_set s"
| "wqs_read RSignal s = etx_read_wake s"
| "wqs_read ev s = None"

(* src: misc/wat_queu_stat.c:143-152 etx_driver_exit *)
fun wqs_exit :: "wait_event \<Rightarrow> waiter \<Rightarrow> waiter option" where
  "wqs_exit XSet s = etx_exit_set s"
| "wqs_exit XSignal s = etx_exit_wake s"
| "wqs_exit ev s = None"

(* src: misc/wat_queu_stat.c:90-141 etx_driver_init *)
definition wqs_init :: "etx_env \<Rightarrow> etx_res ledger \<Rightarrow> (int \<times> etx_res ledger) kresult" where
  "wqs_init = etx_driver_init"

definition wqs_step :: "waiter \<Rightarrow> wait_event \<Rightarrow> waiter \<Rightarrow> bool" where
  "wqs_step s ev t \<longleftrightarrow> wqs_thread ev s = Some t \<or> wqs_read ev s = Some t \<or> wqs_exit ev s = Some t"

section \<open>The completion\<close>

(* src: misc/completion_static.c:43-58 wait_function *)
fun cos_thread :: "wait_event \<Rightarrow> waiter \<Rightarrow> waiter option" where
  "cos_thread TCheck s = co_check s"
| "cos_thread ev s = after_wait ev s"

(* src: misc/completion_static.c:72-80 etx_read *)
fun cos_read :: "wait_event \<Rightarrow> waiter \<Rightarrow> waiter option" where
  "cos_read RSet s = etx_read_set s"
| "cos_read RSignal s = co_read_test s"
| "cos_read RComplete s = co_read_complete s"
| "cos_read ev s = None"

(* src: misc/completion_static.c:137-148 etx_driver_exit *)
fun cos_exit :: "wait_event \<Rightarrow> waiter \<Rightarrow> waiter option" where
  "cos_exit XSet s = etx_exit_set s"
| "cos_exit XSignal s = co_exit_test s"
| "cos_exit XComplete s = co_exit_complete s"
| "cos_exit ev s = None"

(* src: misc/completion_static.c:87-135 etx_driver_init *)
definition cos_init :: "etx_env \<Rightarrow> etx_res ledger \<Rightarrow> (int \<times> etx_res ledger) kresult" where
  "cos_init = co_driver_init"

definition cos_step :: "waiter \<Rightarrow> wait_event \<Rightarrow> waiter \<Rightarrow> bool" where
  "cos_step s ev t \<longleftrightarrow> cos_thread ev s = Some t \<or> cos_read ev s = Some t \<or> cos_exit ev s = Some t"

section \<open>Against the dynamic variants\<close>

lemma wqs_step_eq: "wqs_step = wq_step"
proof (intro ext)
  fix s ev t
  show "wqs_step s ev t = wq_step s ev t" by (cases ev) (simp_all add: wqs_step_def wq_step_def)
qed

lemma inited_step: "co_step s ev t \<Longrightarrow> inited s \<Longrightarrow> inited t"
  by (cases ev) (auto simp: co_step_def co_check_def etx_read_set_def co_read_test_def co_read_complete_def complete_def
      wake_up_def etx_exit_set_def co_exit_test_def co_exit_complete_def co_init_def split: if_splits)

lemma cos_step_eq: "inited s \<Longrightarrow> cos_step s ev t \<longleftrightarrow> co_step s ev t"
  by (cases ev) (simp_all add: cos_step_def co_step_def co_init_def)

lemma cos_runs: "run cos_step s evs t \<Longrightarrow> inited s \<Longrightarrow> run co_step s evs t"
proof (induction rule: run.induct)
  case (run_cons s ev t evs u)
  then show ?case using cos_step_eq [of s ev t] inited_step [of s ev t] by (auto intro: run.run_cons)
qed (rule run.run_nil)

lemma co_runs: "run co_step s evs t \<Longrightarrow> inited s \<Longrightarrow> run cos_step s evs t"
proof (induction rule: run.induct)
  case (run_cons s ev t evs u)
  then show ?case using cos_step_eq [of s ev t] inited_step [of s ev t] by (auto intro: run.run_cons)
qed (rule run.run_nil)

text \<open>The static variants run exactly as the dynamic ones do once those are initialised: so they lose no event, and
  the thread of the completion never finds it uninitialised. The dynamic completion driver has a run that does.\<close>

theorem static_variants_agree:
  "(run wqs_step (waiter_start True) evs s \<longleftrightarrow> run wq_step (waiter_start True) evs s) \<and>
   (run cos_step (waiter_start True) evs s \<longleftrightarrow> run co_step (waiter_start True) evs s) \<and>
   (run cos_step (waiter_start True) evs s \<longrightarrow> \<not> crashed s) \<and>
   (\<exists>t. run co_step (waiter_start False) [TCheck] t \<and> crashed t)"
proof (intro conjI impI)
  have i: "inited (waiter_start True)" by (simp add: waiter_start_def)
  show "run wqs_step (waiter_start True) evs s \<longleftrightarrow> run wq_step (waiter_start True) evs s"
    by (simp add: wqs_step_eq)
  show c: "run cos_step (waiter_start True) evs s \<longleftrightarrow> run co_step (waiter_start True) evs s"
    using cos_runs co_runs i by blast
  show "\<not> crashed s" if "run cos_step (waiter_start True) evs s"
    using that c completion_init_race_parts(2) by blast
  show "\<exists>t. run co_step (waiter_start False) [TCheck] t \<and> crashed t"
    by (rule completion_init_race_parts(1))
qed

theorem static_variants_agree_witness:
  "\<exists>s. run cos_step (waiter_start True) [TCheck, RSet, RSignal, RComplete, TCheck, TTest, TCount] s \<and>
     read_count s = 1 \<and> \<not> crashed s"
proof -
  obtain s where r: "run cos_step (waiter_start True) [TCheck, RSet, RSignal, RComplete, TCheck, TTest, TCount] s"
    and n: "read_count s = 1"
    by (simp add: run_cons_iff cos_step_def co_check_def etx_read_set_def co_read_test_def co_read_complete_def
        complete_def wake_up_def waiter_start_def)
  from static_variants_agree [THEN conjunct2, THEN conjunct2, THEN conjunct1, THEN mp, OF r] r n show ?thesis by blast
qed

end
