(* ===== verification/Memory_Labs.thy ===== *)
theory Memory_Labs
  imports Cache_Dev Lab_Char
begin

text \<open>
  The other labs of \<open>src/memory\<close>: the generic driver over an object of a slab cache (\<open>lab1_cache.c\<close>), and the modules that try
  how much memory they get (\<open>memory_lab1_memalloc.c\<close>, \<open>lab2_maxmem.c\<close>, \<open>lab2_maxvmalloc.c\<close>).
\<close>

section \<open>The generic driver over a slab object\<close>

text \<open>
  The driver includes \<open>lab_char.h\<close>, points its \<open>ramdisk\<close> to the object and sets \<open>ramdisk_size\<close> to the module's
  parameter. The state is that of the other slab driver: \<open>c_membuff\<close> is \<open>ramdisk\<close>, \<open>c_size\<close> the size.
\<close>

(* src: memory/lab1_cache.c:30-40 mycdrv_open *)
definition slab_open :: "cache_answer \<Rightarrow> cachedev \<Rightarrow> int \<times> cachedev" where
  "slab_open a d =
     (case a of
        None \<Rightarrow> (- ENOMEM, d\<lparr>c_membuff := NULL\<rparr>)
      | Some (i, m) \<Rightarrow> (0, d\<lparr>c_membuff := Ptr i, objects := (objects d)(i \<mapsto> m)\<rparr>))"

(* src: memory/lab1_cache.c:42-49 mycdrv_release *)
definition slab_release :: "cachedev \<Rightarrow> (int \<times> cachedev) kresult" where
  "slab_release d =
     (case c_membuff d of
        NULL \<Rightarrow> Inl NullDeref
      | ERR_PTR _ \<Rightarrow> Inl BadPointer
      | Ptr i \<Rightarrow>
          if objects d i = None then Inl UseAfterFree
          else Inr (0, d\<lparr>objects := (objects d)(i := None)\<rparr>))"

text \<open>The generic handlers for a disk of any size; the last argument of the count is \<open>ramdisk_size\<close>.\<close>

(* src: memory/lab_char.h:61-65 maxbytes, bytes_to_do *)
definition slab_bytes :: "size_t \<Rightarrow> loff_t \<Rightarrow> size_t \<Rightarrow> c_int" where
  "slab_bytes lbuf ppos sz =
     (let maxbytes = (ucast (sz - ppos) :: c_int)
      in if lbuf < (scast maxbytes :: size_t) then ucast lbuf else maxbytes)"

(* src: memory/lab_char.h:57-72 mycdrv_generic_read *)
definition slab_read :: "size_t \<Rightarrow> loff_t \<Rightarrow> size_t \<Rightarrow> cachedev \<Rightarrow> (int \<times> byte list \<times> loff_t) kresult" where
  "slab_read lbuf ppos uleft d =
     (let n = (scast (slab_bytes lbuf ppos (ucast (c_size d))) :: size_t)
      in case (if n = 0 then Inr []
               else case deref d of None \<Rightarrow> Inl UseAfterFree | Some p \<Rightarrow> kmem_load p ppos n) of
           Inl f \<Rightarrow> Inl f
         | Inr src \<Rightarrow>
             let nbytes = (ucast (n - uleft) :: c_int)
             in Inr (sint nbytes, copied_out n uleft src, ppos + scast nbytes))"

(* src: memory/lab_char.h:74-89 mycdrv_generic_write *)
definition slab_write ::
    "byte list \<Rightarrow> size_t \<Rightarrow> loff_t \<Rightarrow> size_t \<Rightarrow> cachedev \<Rightarrow> (int \<times> cachedev \<times> loff_t) kresult" where
  "slab_write ubuf lbuf ppos uleft d =
     (let n = (scast (slab_bytes lbuf ppos (ucast (c_size d))) :: size_t);
          nbytes = (ucast (n - uleft) :: c_int)
      in if n = 0 then Inr (sint nbytes, d, ppos + scast nbytes)
         else case deref d of
                None \<Rightarrow> Inl UseAfterFree
              | Some p \<Rightarrow>
                  (case kmem_store p ppos n (copied_in n uleft (take (unat n) ubuf)) of
                     Inl f \<Rightarrow> Inl f
                   | Inr p' \<Rightarrow>
                       Inr (sint nbytes,
                            (case p' of Ptr m \<Rightarrow> cache_put d m | _ \<Rightarrow> d),
                            ppos + scast nbytes)))"

text \<open>With a disk of the generic driver's size the counts are the generic driver's.\<close>

lemma slab_bytes_generic: "slab_bytes lbuf ppos 65536 = bytes_to_do lbuf ppos"
  by (simp add: slab_bytes_def bytes_to_do_def)

definition slab_moved :: "size_t \<Rightarrow> loff_t \<Rightarrow> nat \<Rightarrow> nat" where
  "slab_moved lbuf ppos sz = min (unat lbuf) (sz - unat ppos)"

lemma slab_bytes_moved:
  assumes "vfs_rw_ok lbuf ppos" and "unat ppos \<le> unat sz" and "unat sz \<le> 4194304"
  shows "unat (scast (slab_bytes lbuf ppos sz) :: size_t) = slab_moved lbuf ppos (unat sz)"
proof -
  have d: "unat (sz - ppos) = unat sz - unat ppos" using assms(2) by (simp add: unat_sub word_le_nat_alt)
  then have small: "unat (sz - ppos) < 2 ^ 31" using assms(3) by simp
  note s = scast_ucast_small [OF small]
  show ?thesis
  proof (cases "lbuf < sz - ppos")
    case True
    then have "unat lbuf < unat (sz - ppos)" by (simp add: word_less_nat_alt)
    with small have "unat lbuf < 2 ^ 31" by simp
    from scast_ucast_small [OF this] True show ?thesis
      using d \<open>unat lbuf < unat (sz - ppos)\<close> by (simp add: slab_bytes_def s slab_moved_def)
  next
    case False
    then show ?thesis
      using d by (simp add: slab_bytes_def s slab_moved_def word_less_nat_alt)
  qed
qed


lemma word_of_unat: "unat (x :: 64 word) = k \<Longrightarrow> x = of_nat k"
  by (drule sym) simp

lemma slab_span:
  assumes "holds d m" and "vfs_rw_ok lbuf ppos" and "unat ppos \<le> length m"
  defines "n \<equiv> (scast (slab_bytes lbuf ppos (ucast (c_size d))) :: size_t)"
  shows "unat n = slab_moved lbuf ppos (length m)" and "vfs_rw_ok n ppos" and "unat n + unat ppos \<le> length m"
    and "n \<le> lbuf"
proof -
  have sz: "unat (ucast (c_size d) :: size_t) = length m" "length m \<le> 4194304"
    using assms(1) by (auto simp: holds_def)
  show u: "unat n = slab_moved lbuf ppos (length m)"
    unfolding n_def using slab_bytes_moved [OF assms(2), of "ucast (c_size d)"] sz assms(3) by simp
  then show "vfs_rw_ok n ppos" and "unat n + unat ppos \<le> length m" and "n \<le> lbuf"
    using assms(2,3) by (auto simp: vfs_rw_ok_def slab_moved_def word_le_nat_alt)
qed

lemma deref_holds: "holds d m \<Longrightarrow> deref d = Some (Ptr m)"
  by (auto simp: holds_def deref_def)

lemma slab_read_holds:
  assumes "holds d m" and "vfs_rw_ok lbuf ppos" and "unat ppos \<le> length m"
    and "unat uleft \<le> slab_moved lbuf ppos (length m)"
  defines "k \<equiv> slab_moved lbuf ppos (length m)"
  shows "slab_read lbuf ppos uleft d =
    Inr (int (k - unat uleft), take (k - unat uleft) (get_range (unat ppos) k m), ppos + of_nat (k - unat uleft))"
proof -
  let ?n = "scast (slab_bytes lbuf ppos (ucast (c_size d))) :: size_t"
  note s = slab_span [OF assms(1,2,3)]
  have l: "user_copy_ok ?n uleft" using assms(4) s(1) by (simp add: user_copy_ok_def word_le_nat_alt)
  have o: "?n - uleft = of_nat (k - unat uleft)"
    by (rule word_of_unat) (simp add: unat_minus_left [OF l] s(1) k_def)
  have load: "(if ?n = 0 then Inr []
       else case deref d of None \<Rightarrow> Inl UseAfterFree | Some p \<Rightarrow> kmem_load p ppos ?n) = Inr (get_range (unat ppos) k m)"
  proof (cases "?n = 0")
    case True
    then have "k = 0" using s(1) by (simp add: k_def)
    then show ?thesis using True by simp
  next
    case False
    then show ?thesis using kmem_load_ok [OF s(2,3)] s(1) by (simp add: deref_holds [OF assms(1)] k_def)
  qed
  show ?thesis
    unfolding slab_read_def Let_def load using moved_vfs [OF s(2) l] unat_minus_left [OF l] s(1) o
    by (simp add: copied_out_def k_def)
qed

lemma slab_write_holds:
  assumes "holds d m" and "vfs_rw_ok lbuf ppos" and "unat ppos \<le> length m" and "length ubuf = unat lbuf"
  defines "k \<equiv> slab_moved lbuf ppos (length m)"
  shows "\<exists>d'. slab_write ubuf lbuf ppos 0 d = Inr (int k, d', ppos + of_nat k) \<and>
    holds d' (put_range (unat ppos) (take k ubuf) m)"
proof -
  let ?n = "scast (slab_bytes lbuf ppos (ucast (c_size d))) :: size_t"
  note s = slab_span [OF assms(1,2,3)]
  have l: "user_copy_ok ?n 0" by (simp add: user_copy_ok_def)
  have k: "unat ?n = k" "k \<le> length ubuf" "?n = of_nat k"
    using s(1) assms(4) by (simp_all add: k_def slab_moved_def word_of_unat)
  have c: "copied_in ?n 0 (take (unat ?n) ubuf) = take k ubuf"
    using k by (intro trans [OF copied_in_all]) simp_all
  note mv = moved_vfs [OF s(2) l]
  have r: "sint (ucast (?n - 0) :: c_int) = int k" using mv(1) k(1) by simp
  have q: "ppos + scast (ucast (?n - 0) :: c_int) = ppos + of_nat k" using mv(2) k(3) by simp
  show ?thesis
  proof (cases "?n = 0")
    case True
    then have "k = 0" using k(1) by simp
    then show ?thesis using True r q assms(1) by (auto simp: slab_write_def)
  next
    case False
    have "slab_write ubuf lbuf ppos 0 d =
      Inr (int k, cache_put d (put_range (unat ppos) (take k ubuf) m), ppos + of_nat k)"
      using False kmem_store_ok [OF s(2,3)] r q c by (simp add: slab_write_def Let_def deref_holds [OF assms(1)])
    moreover have "holds (cache_put d (put_range (unat ppos) (take k ubuf) m)) (put_range (unat ppos) (take k ubuf) m)"
      using s(3) k by (intro holds_put [OF assms(1)] length_put_range) simp
    ultimately show ?thesis by blast
  qed
qed

text \<open>C36: The two slab drivers, on an object of at most 4 MB and a position inside it: where the request fits they read the
  same; where it crosses the end, this one reads up to the end and the other one nothing. What is written
  is read back, cut at the end.\<close>

theorem slab_drivers_compared:
  assumes "holds d m" and "vfs_rw_ok lbuf ppos" and "unat ppos \<le> length m" and "length ubuf = unat lbuf"
  shows "(unat lbuf + unat ppos \<le> length m \<longrightarrow> slab_read lbuf ppos 0 d = cache_read lbuf ppos 0 d)
    \<and> (length m < unat lbuf + unat ppos \<longrightarrow>
        cache_read lbuf ppos 0 d = Inr (0, [], ppos) \<and>
        slab_read lbuf ppos 0 d =
          Inr (int (length m - unat ppos), drop (unat ppos) m, ppos + of_nat (length m - unat ppos)))
    \<and> (\<exists>d' n p. slab_write ubuf lbuf ppos 0 d = Inr (n, d', p) \<and>
        slab_read lbuf ppos 0 d' = Inr (n, take (length m - unat ppos) ubuf, p))"
proof (intro conjI impI)
  let ?k = "slab_moved lbuf ppos (length m)"
  have rd: "slab_read lbuf ppos 0 d' = Inr (int ?k, get_range (unat ppos) ?k m', ppos + of_nat ?k)"
    if "holds d' m'" "length m' = length m" for d' m'
  proof -
    have "length (get_range (unat ppos) ?k m') \<le> ?k" by (simp add: get_range_def)
    then show ?thesis using slab_read_holds [OF that(1) assms(2), of 0] that(2) assms(3) by simp
  qed
  have u: "user_copy_ok lbuf 0" by (simp add: user_copy_ok_def)
  show "slab_read lbuf ppos 0 d = cache_read lbuf ppos 0 d" if "unat lbuf + unat ppos \<le> length m"
  proof -
    have "?k = unat lbuf" using that by (simp add: slab_moved_def)
    with that rd [OF assms(1)] cache_read_holds [OF assms(1,2) u] show ?thesis by simp
  qed
  show "cache_read lbuf ppos 0 d = Inr (0, [], ppos)" if "length m < unat lbuf + unat ppos"
    using that cache_read_holds [OF assms(1,2) u] by simp
  show "slab_read lbuf ppos 0 d =
      Inr (int (length m - unat ppos), drop (unat ppos) m, ppos + of_nat (length m - unat ppos))"
    if "length m < unat lbuf + unat ppos"
  proof -
    have "?k = length m - unat ppos" using that by (simp add: slab_moved_def)
    with rd [OF assms(1)] show ?thesis by (simp add: get_range_def)
  qed
  from slab_write_holds [OF assms] obtain d' where
    w: "slab_write ubuf lbuf ppos 0 d = Inr (int ?k, d', ppos + of_nat ?k)"
    and h: "holds d' (put_range (unat ppos) (take ?k ubuf) m)" by blast
  have f: "unat ppos + length (take ?k ubuf) \<le> length m" and lk: "length (take ?k ubuf) = ?k"
    using assms(3,4) by (simp_all add: slab_moved_def)
  from rd [OF h] f have "slab_read lbuf ppos 0 d' =
      Inr (int ?k, get_range (unat ppos) (length (take ?k ubuf)) (put_range (unat ppos) (take ?k ubuf) m), ppos + of_nat ?k)"
    unfolding lk by simp
  also have "get_range (unat ppos) (length (take ?k ubuf)) (put_range (unat ppos) (take ?k ubuf) m) = take ?k ubuf"
    by (rule get_put_same [OF assms(3)])
  also have "take ?k ubuf = take (length m - unat ppos) ubuf"
    using assms(4) by (simp add: slab_moved_def min_def)
  finally show "\<exists>d' n p. slab_write ubuf lbuf ppos 0 d = Inr (n, d', p) \<and>
      slab_read lbuf ppos 0 d' = Inr (n, take (length m - unat ppos) ubuf, p)"
    using w by blast
qed

theorem slab_drivers_compared_witness:
  "\<exists>d' n p. slab_write [1, 2, 3, 4] 4 14 0 (snd (slab_open (Some (0, replicate 16 0)) sample_cachedev)) = Inr (n, d', p) \<and>
     slab_read 4 14 0 d' = Inr (n, [1, 2], p)"
proof -
  have h: "holds (snd (slab_open (Some (0, replicate 16 0)) sample_cachedev)) (replicate 16 0)"
    by (simp add: slab_open_def holds_def sample_cachedev_def)
  have v: "vfs_rw_ok 4 14" and l: "length [1, 2, 3, 4 :: byte] = unat (4 :: size_t)" by (simp_all add: vfs_rw_ok_def)
  have t: "take (length (replicate 16 (0 :: byte)) - unat (14 :: loff_t)) [1, 2, 3, 4 :: byte] = [1, 2]"
    by simp
  from slab_drivers_compared [OF h v _ l, THEN conjunct2, THEN conjunct2] show ?thesis unfolding t by simp
qed


section \<open>Loading and unloading it\<close>

datatype slab_res = SlabCache | SlabRegion | SlabCdev | SlabClass | SlabDevice

record slab_env =
  sl_size :: c_int
  sl_cache :: bool
  sl_region :: int
  sl_cdev :: bool
  sl_add :: int
  sl_class :: bool
  sl_device :: bool

text \<open>The parameter is compared as an \<open>unsigned long\<close>; the class and the device are used unchecked.\<close>

(* src: memory/lab1_cache.c:59-104 my_init *)
definition slab_init :: "slab_env \<Rightarrow> slab_res ledger \<Rightarrow> int \<times> slab_res ledger" where
  "slab_init e k =
     (if 1024 * PAGE_SIZE < (scast (sl_size e) :: 64 word) then (-1, k)
      else if \<not> sl_cache e then (- ENOMEM, k)
      else
        let k = acquire SlabCache k
        in if sl_region e < 0 then (-1, release SlabCache k)
        else
          let k = acquire SlabRegion k
          in if \<not> sl_cdev e then (-1, release_all [SlabRegion, SlabCache] k)
          else
            let k = acquire SlabCdev k
            in if sl_add e < 0 then (-1, release_all [SlabCdev, SlabRegion, SlabCache] k)
            else
              let k = (if sl_class e then acquire SlabClass k else k)
              in (0, if sl_class e \<and> sl_device e then acquire SlabDevice k else k))"

(* src: memory/lab1_cache.c:106-117 my_exit *)
definition slab_exit :: "slab_env \<Rightarrow> slab_res ledger \<Rightarrow> slab_res ledger" where
  "slab_exit e k =
     (let k = (if sl_class e \<and> sl_device e then release SlabDevice k else k);
          k = (if sl_class e then release SlabClass k else k)
      in release_all [SlabCdev, SlabRegion, SlabCache] k)"

interpretation slab_module: module_lifecycle "\<lambda>_. True" slab_init
  "\<lambda>e. (if sl_class e \<and> sl_device e then [SlabDevice] else []) @ (if sl_class e then [SlabClass] else []) @
     [SlabCdev, SlabRegion, SlabCache]"
  slab_exit
proof (unfold_locales, goal_cases)
  case (1 e k)
  then show ?case by (auto simp: slab_init_def Let_def split: if_splits)
next
  case (2 e k)
  then show ?case by (auto simp: slab_init_def Let_def split: if_splits)
next
  case (3 e k h)
  then show ?case by (auto simp: slab_exit_def Let_def ledger_simps split: if_splits)
qed

text \<open>A negative size is taken for a huge one and refused.\<close>

lemma slab_negative_size: "sint (sl_size e) < 0 \<Longrightarrow> slab_init e k = (-1, k)"
proof -
  assume n: "sint (sl_size e) < 0"
  have "- (2 ^ 31) \<le> sint (sl_size e)" using sint_ge [of "sl_size e"] by simp
  have "sint (sl_size e) mod 2 ^ 64 = (sint (sl_size e) + 2 ^ 64) mod 2 ^ 64" by (rule mod_add_self2 [symmetric])
  also have "\<dots> = sint (sl_size e) + 2 ^ 64"
    using n \<open>- (2 ^ 31) \<le> sint (sl_size e)\<close> by (intro mod_pos_pos_trivial) simp_all
  finally have "uint (scast (sl_size e) :: 64 word) = sint (sl_size e) + 2 ^ 64"
    by (simp only: scast_eq uint_word_of_int) simp
  then have "1024 * PAGE_SIZE < (scast (sl_size e) :: 64 word)"
    using \<open>- (2 ^ 31) \<le> sint (sl_size e)\<close> by (simp add: word_less_def)
  then show ?thesis by (simp add: slab_init_def)
qed

section \<open>How much memory there is\<close>

text \<open>The answers of the five allocations; the module always refuses to stay. Freeing null does nothing.\<close>

datatype alloc_res = Kmalloc1 | Kmalloc2 | Vmalloc | Kvmalloc1 | Kvmalloc2

definition alloc_free :: "(alloc_res \<Rightarrow> bool) \<Rightarrow> alloc_res \<Rightarrow> alloc_res ledger \<Rightarrow> alloc_res ledger" where
  "alloc_free ok r k = (if ok r then release r (acquire r k) else k)"

(* src: memory/memory_lab1_memalloc.c:21-50 memalloc_init *)
definition memalloc_init :: "(alloc_res \<Rightarrow> bool) \<Rightarrow> alloc_res ledger \<Rightarrow> int \<times> alloc_res ledger" where
  "memalloc_init ok k = (- EINVAL, fold (alloc_free ok) [Kmalloc1, Kmalloc2, Vmalloc, Kvmalloc1, Kvmalloc2] k)"

lemma memalloc_keeps_nothing: "memalloc_init ok k = (- EINVAL, k)"
  by (simp add: memalloc_init_def alloc_free_def)

text \<open>
  Each round of the loops prints the order and the size, tries to allocate that much and frees it again; the first
  failure ends the loop. The size is an \<open>int\<close>.
\<close>

(* src: memory/lab2_maxmem.c:49-58 my_init (loop) *)
fun try_orders :: "(nat \<Rightarrow> bool) \<Rightarrow> nat \<Rightarrow> nat \<Rightarrow> c_int \<Rightarrow> (nat \<times> int \<times> bool) list" where
  "try_orders ok order 0 sz = []"
| "try_orders ok order (Suc n) sz =
     (order, sint sz, ok order) # (if ok order then try_orders ok (order + 1) n (sz * 2) else [])"

text \<open>\<open>MAX_ORDER\<close> is the kernel's.\<close>

(* src: memory/lab2_maxmem.c:41-73 my_init *)
definition maxmem_init ::
    "nat \<Rightarrow> (nat \<Rightarrow> bool) \<Rightarrow> (nat \<Rightarrow> bool) \<Rightarrow> int \<times> (nat \<times> int \<times> bool) list \<times> (nat \<times> int \<times> bool) list" where
  "maxmem_init MAX_ORDER pages_ok kmalloc_ok =
     (0, try_orders pages_ok 0 MAX_ORDER 4096, try_orders kmalloc_ok 0 MAX_ORDER 4096)"

lemma try_orders_prefix:
  "order + n \<le> 19 \<Longrightarrow>
   try_orders ok order n (4096 * 2 ^ order) =
     map (\<lambda>i. (i, 4096 * 2 ^ i, ok i))
       (takeWhile ok [order..<order + n] @ take 1 (dropWhile ok [order..<order + n]))"
proof (induction n arbitrary: order)
  case (Suc n)
  have "(2 :: nat) ^ order \<le> 2 ^ 18" using Suc.prems by (intro power_increasing) simp_all
  then have b: "4096 * 2 ^ order < (2 :: nat) ^ 31" by simp
  have w: "(4096 * 2 ^ order :: c_int) = of_nat (4096 * 2 ^ order)" by simp
  have "unat (of_nat (4096 * 2 ^ order) :: c_int) = 4096 * 2 ^ order"
    using b by (simp only: unsigned_of_nat) (simp add: take_bit_nat_eq_self)
  then have s: "sint (4096 * 2 ^ order :: c_int) = 4096 * 2 ^ order"
    using b sint_small_32 [of "of_nat (4096 * 2 ^ order)"] unfolding w by simp
  have u: "[order..<order + Suc n] = order # [Suc order..<Suc order + n]" by (simp add: upt_conv_Cons)
  have "try_orders ok (order + 1) n (4096 * 2 ^ order * 2) = try_orders ok (Suc order) n (4096 * 2 ^ Suc order)"
    by (simp add: mult.assoc mult.commute)
  with Suc.IH [of "Suc order"] Suc.prems show ?case
    unfolding u by (simp add: s del: upt_Suc)
qed simp

text \<open>With at most 19 orders (the kernel has 11) the size does not overflow: both loops try one page, two, four and so
  on, up to and including the first size that fails.\<close>

theorem maxmem_tries_doubling:
  assumes "MAX_ORDER \<le> 19"
  shows "maxmem_init MAX_ORDER pages_ok kmalloc_ok =
    (let tried = (\<lambda>ok. map (\<lambda>i. (i, 4096 * 2 ^ i, ok i))
           (takeWhile ok [0..<MAX_ORDER] @ take 1 (dropWhile ok [0..<MAX_ORDER])))
     in (0, tried pages_ok, tried kmalloc_ok))"
  using try_orders_prefix [of 0 MAX_ORDER] assms by (simp add: maxmem_init_def Let_def)

theorem maxmem_tries_doubling_witness:
  "maxmem_init 11 (\<lambda>i. i < 2) (\<lambda>i. i < 1) =
     (0, [(0, 4096, True), (1, 8192, True), (2, 16384, False)], [(0, 4096, True), (1, 8192, False)])"
  by (subst maxmem_tries_doubling) (simp_all add: upt_rec Let_def)

text \<open>The \<open>vmalloc\<close> loop; its limit \<open>mem * MB\<close> is computed as an \<open>int\<close>.\<close>

(* src: memory/lab2_maxvmalloc.c:31-39 my_init (loop) *)
function try_vmallocs :: "(int \<Rightarrow> bool) \<Rightarrow> int \<Rightarrow> int \<Rightarrow> (int \<times> bool) list" where
  "try_vmallocs ok limit sz =
     (if limit < sz then []
      else (sz, ok sz) # (if ok sz then try_vmallocs ok limit (sz + 4194304) else []))"
  by pat_completeness auto
termination by (relation "measure (\<lambda>(ok, limit, sz). nat (limit + 1 - sz))") auto

declare try_vmallocs.simps [simp del]

(* src: memory/lab2_maxvmalloc.c:24-42 my_init *)
definition maxvmalloc_init :: "c_int \<Rightarrow> (int \<Rightarrow> bool) \<Rightarrow> int \<times> (int \<times> bool) list" where
  "maxvmalloc_init mem ok = (0, try_vmallocs ok (sint (mem * 1048576)) 4194304)"

lemma try_vmallocs_all:
  "(\<forall>s. ok s) \<Longrightarrow> map fst (try_vmallocs ok limit sz) =
     map (\<lambda>i. sz + 4194304 * int i) [0..<nat ((limit - sz) div 4194304 + 1)]"
proof (induction ok limit sz rule: try_vmallocs.induct)
  case (1 ok limit sz)
  show ?case
  proof (cases "limit < sz")
    case True
    then have "(limit - sz) div 4194304 + 1 \<le> 0" by (simp add: pos_imp_zdiv_neg_iff zle_add1_eq_le)
    then show ?thesis using True by (subst try_vmallocs.simps) simp
  next
    case False
    let ?q = "(limit - sz) div 4194304"
    have "limit - (sz + 4194304) = (limit - sz) + (- 1) * 4194304" by simp
    then have "(limit - (sz + 4194304)) div 4194304 = - 1 + ?q" by (simp only: div_mult_self1)
    then have q: "(limit - (sz + 4194304)) div 4194304 + 1 = ?q" by linarith
    have o: "ok = (\<lambda>_. True)" using "1.prems" by auto
    have "0 \<le> ?q" using False by (simp add: pos_imp_zdiv_nonneg_iff)
    then have n: "nat (?q + 1) = Suc (nat ?q)" by simp
    have "map fst (try_vmallocs ok limit sz) = sz # map (\<lambda>i. sz + 4194304 + 4194304 * int i) [0..<nat ?q]"
      using False "1.prems" "1.IH" [OF False] by (subst try_vmallocs.simps) (simp add: q o)
    also have "\<dots> = map (\<lambda>i. sz + 4194304 * int i) [0..<Suc (nat ?q)]"
      by (simp add: upt_conv_Cons map_Suc_upt [symmetric] comp_def algebra_simps del: upt_Suc)
    finally show ?thesis by (simp only: n)
  qed
qed

text \<open>While every allocation succeeds, the sizes are the multiples of 4 MB up to the parameter, for less than 2048 MB. From
  there on the limit overflows the \<open>int\<close>, and nothing is tried at all.\<close>

theorem maxvmalloc_sizes:
  assumes "unat mem < 4096"
  shows "map fst (snd (maxvmalloc_init mem (\<lambda>_. True))) =
    (if unat mem < 2048 then map (\<lambda>i. 4194304 * (int i + 1)) [0..<unat mem div 4] else [])"
proof -
  have u: "unat (mem * 1048576) = unat mem * 1048576"
    using assms by (subst unat_mult_lem [THEN iffD1]) simp_all
  show ?thesis
  proof (cases "unat mem < 2048")
    case True
    then have s: "sint (mem * 1048576) = int (unat mem) * 1048576"
      using u sint_small_32 [of "mem * 1048576"] by simp
    have "int (unat mem) * 1048576 - 4194304 = (int (unat mem) - 4) * 1048576" by simp
    then have "(int (unat mem) * 1048576 - 4194304) div 4194304 = (int (unat mem) - 4) div 4"
      using div_mult_mult2 [of 1048576 "int (unat mem) - 4" 4] by simp
    then have "nat ((int (unat mem) * 1048576 - 4194304) div 4194304 + 1) = unat mem div 4" by linarith
    then show ?thesis
      using True try_vmallocs_all [of "\<lambda>_. True" "sint (mem * 1048576)" 4194304]
      by (simp add: maxvmalloc_init_def s algebra_simps)
  next
    case False
    have "sint (mem * 1048576) < 0"
    proof -
      have "unat (mem * 1048576) div 2 ^ 31 = 1" unfolding u using False assms by simp
      then have "bit (unat (mem * 1048576)) 31" by (simp add: bit_iff_odd)
      then have "bit (mem * 1048576) 31" by (simp only: bit_unsigned_iff)
      then show ?thesis using bit_last_iff [of "mem * 1048576"] by simp
    qed
    then show ?thesis using False by (simp add: maxvmalloc_init_def try_vmallocs.simps)
  qed
qed

end
