(* ===== verification/Lab_Rwsem.thy ===== *)
theory Lab_Rwsem
  imports Lab_Char
begin

text \<open>
  \<open>src/ioctl/lab4_semaphore_rw.c\<close>: the generic driver with a read/write semaphore that reads are meant to wait on and
  writes to open. A read takes the semaphore for reading and a write gives it back, though it never took it; nobody
  takes it for writing, so taking it for reading never waits.
\<close>

section \<open>The handlers\<close>

text \<open>
  The ledger holds one entry for each read lock that is held, and its faults are the releases of a lock nobody
  holds, for which the kernel promises nothing.
\<close>

datatype rw_lock = ReadLock

(* src: ioctl/lab4_semaphore_rw.c:56-64 mycdrv_read *)
definition rwsem_read ::
    "size_t \<Rightarrow> loff_t \<Rightarrow> size_t \<Rightarrow> labdev \<times> rw_lock ledger \<Rightarrow>
     (int \<times> byte list \<times> loff_t \<times> labdev \<times> rw_lock ledger) kresult" where
  "rwsem_read lbuf ppos uleft s =
     (let (d, k) = s; k = acquire ReadLock k
      in case mycdrv_generic_read lbuf ppos uleft d of
           Inl f \<Rightarrow> Inl f
         | Inr (n, out, p) \<Rightarrow> Inr (n, out, p, d, k))"

(* src: ioctl/lab4_semaphore_rw.c:66-76 mycdrv_write *)
definition rwsem_write ::
    "byte list \<Rightarrow> size_t \<Rightarrow> loff_t \<Rightarrow> size_t \<Rightarrow> labdev \<times> rw_lock ledger \<Rightarrow>
     (int \<times> (labdev \<times> rw_lock ledger) \<times> loff_t) kresult" where
  "rwsem_write ubuf lbuf ppos uleft s =
     (let (d, k) = s
      in case mycdrv_generic_write ubuf lbuf ppos uleft d of
           Inl f \<Rightarrow> Inl f
         | Inr (n, d, p) \<Rightarrow> Inr (n, (d, release ReadLock k), p))"

section \<open>Reads and writes do not meet\<close>

datatype rw_call = RwRead size_t loff_t size_t | RwWrite "byte list" size_t loff_t size_t

inductive rw_step :: "labdev \<times> rw_lock ledger \<Rightarrow> rw_call \<Rightarrow> labdev \<times> rw_lock ledger \<Rightarrow> bool" where
  rw_step_read: "rwsem_read n p l s = Inr (r, out, p', t) \<Longrightarrow> rw_step s (RwRead n p l) t"
| rw_step_write: "rwsem_write bs n p l s = Inr (r, t, p') \<Longrightarrow> rw_step s (RwWrite bs n p l) t"

definition is_read :: "rw_call \<Rightarrow> bool" where
  "is_read c \<longleftrightarrow> (\<exists>n p l. c = RwRead n p l)"

text \<open>The locks that are left, and the releases too many, when the calls are counted in order.\<close>

fun rw_balance :: "rw_call list \<Rightarrow> nat \<times> nat \<Rightarrow> nat \<times> nat" where
  "rw_balance [] b = b"
| "rw_balance (c # cs) (locks, extra) =
     rw_balance cs (if is_read c then (Suc locks, extra) else if locks = 0 then (0, Suc extra) else (locks - 1, extra))"

lemma release_counts:
  "length (held (release ReadLock k)) = length (held k) - 1"
  "length (faults (release ReadLock k)) = length (faults k) + (if held k = [] then 1 else 0)"
proof -
  have "held k \<noteq> [] \<Longrightarrow> ReadLock \<in> set (held k)" by (metis (full_types) list.set_sel(1) rw_lock.exhaust)
  then show "length (held (release ReadLock k)) = length (held k) - 1"
    "length (faults (release ReadLock k)) = length (faults k) + (if held k = [] then 1 else 0)"
    by (cases "held k = []"; simp add: held_release faults_release length_remove1)+
qed

lemma rw_run_balance:
  "run rw_step s cs t \<Longrightarrow>
   (length (held (snd t)), length (faults (snd t))) = rw_balance cs (length (held (snd s)), length (faults (snd s)))"
proof (induction rule: run.induct)
  case (run_cons s c t cs u)
  from run_cons.hyps(1) show ?case
  proof (cases rule: rw_step.cases)
    case (rw_step_read n p l r out p')
    then have "snd t = acquire ReadLock (snd s)" by (auto simp: rwsem_read_def split: sum.splits prod.splits)
    with run_cons.IH rw_step_read show ?thesis by (simp add: is_read_def)
  next
    case (rw_step_write bs n p l r p')
    then have "snd t = release ReadLock (snd s)" by (auto simp: rwsem_write_def split: sum.splits prod.splits)
    with run_cons.IH rw_step_write show ?thesis by (simp add: is_read_def release_counts)
  qed
qed simp

text \<open>A read never waits: at any moment it gives what the disk holds, as the generic read does. The semaphore is left
  taken once for each read that no later write followed, and given back by nobody once for each write that came with no
  lock to give.\<close>

theorem rwsem_never_blocks:
  assumes "run rw_step (d, empty_ledger) cs s"
  shows "(\<forall>n p l. (case rwsem_read n p l s of Inl f \<Rightarrow> Inl f | Inr (r, out, p', t) \<Rightarrow> Inr (r, out, p')) =
      mycdrv_generic_read n p l (fst s)) \<and>
    (length (held (snd s)), length (faults (snd s))) = rw_balance cs (0, 0)"
proof (intro conjI allI)
  fix n p l
  show "(case rwsem_read n p l s of Inl f \<Rightarrow> Inl f | Inr (r, out, p', t) \<Rightarrow> Inr (r, out, p')) =
      mycdrv_generic_read n p l (fst s)"
    by (cases s) (simp add: rwsem_read_def Let_def split: sum.split)
  show "(length (held (snd s)), length (faults (snd s))) = rw_balance cs (0, 0)"
    using rw_run_balance [OF assms] by simp
qed

theorem rwsem_never_blocks_witness:
  "\<exists>s. run rw_step (sample_lab, empty_ledger) [RwWrite [] 0 0 0, RwRead 0 0 0] s \<and>
     length (held (snd s)) = 1 \<and> length (faults (snd s)) = 1"
proof -
  have w: "mycdrv_generic_write [] 0 0 0 sample_lab = Inr (0, sample_lab, 0)"
    using lab_write_data [OF sample_lab_holds, of 0 0 0 "[]"]
    by (simp add: vfs_rw_ok_def lab_moved_def sample_lab_def)
  have r: "mycdrv_generic_read 0 0 0 sample_lab = Inr (0, [], 0)"
    using lab_read_data [OF sample_lab_holds, of 0 0 0] by (simp add: vfs_rw_ok_def lab_moved_def)
  let ?k = "release ReadLock (empty_ledger :: rw_lock ledger)"
  have "rw_step (sample_lab, empty_ledger) (RwWrite [] 0 0 0) (sample_lab, ?k)"
    by (rule rw_step_write) (simp add: rwsem_write_def w)
  moreover have "rw_step (sample_lab, ?k) (RwRead 0 0 0) (sample_lab, acquire ReadLock ?k)"
    by (rule rw_step_read) (simp add: rwsem_read_def r)
  ultimately have x: "run rw_step (sample_lab, empty_ledger) [RwWrite [] 0 0 0, RwRead 0 0 0] (sample_lab, acquire ReadLock ?k)"
    unfolding run_cons_iff run_nil_iff by blast
  from rwsem_never_blocks [OF x] x show ?thesis by (intro exI [of _ "(sample_lab, acquire ReadLock ?k)"]) (auto simp: is_read_def)
qed

end
