(* ===== verification/Bus_Labs.thy ===== *)
theory Bus_Labs
  imports Interfaces
begin

text \<open>
  The small labs on buses and notifiers: a USB driver that numbers its connections (\<open>src/usb/lab1_usb.c\<close>), the notifiers of USB
  events (\<open>lab2_usb_notifier.c\<close>) and of a chain of its own (\<open>lab3_notifier.c\<close>), and the module that lists the PCI devices
  (\<open>src/pci/lab1_pci.c\<close>).
\<close>

section \<open>Numbered connections\<close>

text \<open>
  \<open>us_data\<close> is the structure each bound interface points to; a structure is known by its number. The USB core probes
  an interface that is not bound and disconnects one that is.
\<close>

(* src: usb/lab1_usb.c:41-52 my_usb_info, my_counter *)
record usb_labs =
  us_data :: "nat \<rightharpoonup> c_int"
  my_counter :: c_int
  us_printed :: "c_int list"

definition usb_labs_start :: usb_labs where
  "usb_labs_start = \<lparr>us_data = Map.empty, my_counter = 0, us_printed = []\<rparr>"

(* src: usb/lab1_usb.c:45-74 my_usb_probe *)
definition my_usb_probe :: "bool \<Rightarrow> nat \<Rightarrow> usb_labs \<Rightarrow> (int \<times> usb_labs) kresult" where
  "my_usb_probe alloc intf s =
     (if \<not> alloc then Inl NullDeref
      else Inr (0, s\<lparr>us_data := (us_data s)(intf \<mapsto> my_counter s), my_counter := my_counter s + 1,
                     us_printed := us_printed s @ [my_counter s]\<rparr>))"

(* src: usb/lab1_usb.c:76-82 my_usb_disconnect *)
definition my_usb_disconnect :: "nat \<Rightarrow> usb_labs \<Rightarrow> usb_labs" where
  "my_usb_disconnect intf s = s\<lparr>us_data := (us_data s)(intf := None)\<rparr>"

datatype usb_event = UProbe nat | UDisconnect nat

inductive usb_step :: "usb_labs \<Rightarrow> usb_event \<Rightarrow> usb_labs \<Rightarrow> bool" where
  u_probe: "us_data s i = None \<Longrightarrow> my_usb_probe True i s = Inr (r, t) \<Longrightarrow> usb_step s (UProbe i) t"
| u_disconnect: "us_data s i \<noteq> None \<Longrightarrow> usb_step s (UDisconnect i) (my_usb_disconnect i s)"

inductive_cases usb_stepE: "usb_step s ev t"

text \<open>The connections are numbered in order, and the structures are those of the interfaces that are bound.\<close>

definition usb_inv :: "usb_labs \<Rightarrow> bool" where
  "usb_inv s \<longleftrightarrow> us_printed s = map of_nat [0..<length (us_printed s)] \<and>
     my_counter s = of_nat (length (us_printed s)) \<and>
     finite (dom (us_data s)) \<and> ran (us_data s) \<subseteq> set (us_printed s)"

lemma usb_inv_step:
  assumes "usb_step s ev t" and "usb_inv s"
  shows "usb_inv t"
  using assms(1)
proof (cases rule: usb_step.cases)
  case (u_probe i r)
  then have t: "t = s\<lparr>us_data := (us_data s)(i \<mapsto> my_counter s), my_counter := my_counter s + 1,
      us_printed := us_printed s @ [my_counter s]\<rparr>" by (simp add: my_usb_probe_def)
  have p: "us_printed s = map of_nat [0..<length (us_printed s)]" "my_counter s = of_nat (length (us_printed s))"
    using assms(2) by (simp_all add: usb_inv_def)
  have "us_printed t = map of_nat [0..<length (us_printed t)]"
    using p by (simp add: t)
  moreover have "ran ((us_data s)(i \<mapsto> my_counter s)) \<subseteq> insert (my_counter s) (ran (us_data s))"
    by (auto simp: ran_def)
  ultimately show ?thesis using assms(2) unfolding usb_inv_def by (auto simp: t)
next
  case (u_disconnect i)
  have "ran ((us_data s)(i := None)) \<subseteq> ran (us_data s)" by (auto simp: ran_def)
  with assms(2) u_disconnect show ?thesis unfolding usb_inv_def by (auto simp: my_usb_disconnect_def)
qed

lemma usb_start_inv: "usb_inv usb_labs_start"
  by (simp add: usb_labs_start_def usb_inv_def)

interpretation usb_numbers: invariant_system "\<lambda>s. s = usb_labs_start" usb_step usb_inv
  by unfold_locales (auto simp: usb_start_inv intro: usb_inv_step)

definition usb_distinct :: "usb_labs \<Rightarrow> bool" where
  "usb_distinct s \<longleftrightarrow> inj_on (us_data s) (dom (us_data s))"

lemma usb_distinct_step:
  assumes "usb_step s ev t" and "usb_inv s" and "length (us_printed s) < 2 ^ 32" and "usb_distinct s"
  shows "usb_distinct t"
  using assms(1)
proof (cases rule: usb_step.cases)
  case (u_probe i r)
  have "my_counter s \<notin> ran (us_data s)"
  proof
    assume "my_counter s \<in> ran (us_data s)"
    then have "my_counter s \<in> set (us_printed s)" using assms(2) by (auto simp: usb_inv_def)
    moreover have "set (us_printed s) = of_nat ` {0..<length (us_printed s)}"
      using assms(2) unfolding usb_inv_def by (metis list.set_map set_upt)
    ultimately obtain k where k: "k < length (us_printed s)" "(of_nat k :: c_int) = of_nat (length (us_printed s))"
      using assms(2) unfolding usb_inv_def by auto
    then have "unat (of_nat k :: c_int) = unat (of_nat (length (us_printed s)) :: c_int)" by simp
    with k(1) assms(3) show False by (simp add: unsigned_of_nat take_bit_nat_eq_self)
  qed
  then have "us_data s j \<noteq> Some (my_counter s)" for j by (auto simp: ran_def)
  with u_probe assms(4) show ?thesis
    by (auto simp: my_usb_probe_def usb_distinct_def inj_on_def) (metis domI option.sel)+
next
  case (u_disconnect i)
  with assms(4) show ?thesis by (auto simp: usb_distinct_def inj_on_def my_usb_disconnect_def)
qed

text \<open>However devices come and go, the n-th connection gets the number n, counted from zero, and interfaces
  that are bound at the same time have different numbers, for fewer than \<open>2\<^sup>3\<^sup>2\<close> connections.\<close>

theorem usb_connections_numbered:
  assumes "run usb_step usb_labs_start evs s" and "length (us_printed s) < 2 ^ 32"
  shows "us_printed s = map of_nat [0..<length (us_printed s)] \<and> usb_distinct s"
proof -
  have "usb_inv s \<and> (length (us_printed s) < 2 ^ 32 \<longrightarrow> usb_distinct s)"
  proof (rule run_preserves [OF assms(1)])
    show "usb_inv usb_labs_start \<and> (length (us_printed usb_labs_start) < 2 ^ 32 \<longrightarrow> usb_distinct usb_labs_start)"
      using usb_start_inv by (simp add: usb_distinct_def usb_labs_start_def)
  next
    fix s ev t
    assume st: "usb_step s ev t" and i: "usb_inv s \<and> (length (us_printed s) < 2 ^ 32 \<longrightarrow> usb_distinct s)"
    have "length (us_printed s) \<le> length (us_printed t)"
      using st by (cases rule: usb_step.cases) (auto simp: my_usb_probe_def my_usb_disconnect_def)
    with i usb_inv_step [OF st] usb_distinct_step [OF st]
    show "usb_inv t \<and> (length (us_printed t) < 2 ^ 32 \<longrightarrow> usb_distinct t)" by (meson order.strict_trans1)
  qed
  with assms(2) show ?thesis unfolding usb_inv_def by blast
qed

theorem usb_connections_numbered_witness:
  "\<exists>s. run usb_step usb_labs_start [UProbe 7, UDisconnect 7, UProbe 3, UProbe 7] s \<and>
     us_printed s = [0, 1, 2] \<and> usb_distinct s"
proof -
  obtain s where r: "run usb_step usb_labs_start [UProbe 7, UDisconnect 7, UProbe 3, UProbe 7] s"
    and p: "us_printed s = [0, 1, 2]"
    by (simp add: run_cons_iff usb_step.simps my_usb_probe_def my_usb_disconnect_def usb_labs_start_def)
  from usb_connections_numbered [OF r] r p show ?thesis by auto
qed

(* src: usb/lab1_usb.c:101-107 my_init_module *)
definition my_init_module :: "int \<Rightarrow> int" where
  "my_init_module err = err"

section \<open>Notifiers\<close>

datatype usb_notice = USB_DEVICE_ADD | USB_DEVICE_REMOVE | USB_BUS_ADD | USB_BUS_REMOVE | OtherEvent nat

text \<open>What is logged of an event; every event is passed on.\<close>

(* src: usb/lab2_usb_notifier.c:33-56 my_notifier_call *)
fun usb_notifier_call :: "usb_notice \<Rightarrow> string" where
  "usb_notifier_call USB_DEVICE_ADD = ''Adding a USB device, event=USB_DEVICE_ADD''"
| "usb_notifier_call USB_DEVICE_REMOVE = ''Removing a USB device, event=USB_DEVICE_REMOVE''"
| "usb_notifier_call USB_BUS_ADD = ''Adding a USB bus, event=USB_BUS_ADD''"
| "usb_notifier_call USB_BUS_REMOVE = ''Removing a USB bus, event=USB_BUS_REMOVE''"
| "usb_notifier_call (OtherEvent n) = ''Receiving an unknown USB event''"

text \<open>
  A chain calls the functions of its blocks in order, with the event and the data; here the data is the module's counter.
\<close>

definition notifier_call_chain :: "(int \<Rightarrow> 'd \<Rightarrow> 'd) list \<Rightarrow> int \<Rightarrow> 'd \<Rightarrow> 'd" where
  "notifier_call_chain nh event data = fold (\<lambda>f d. f event d) nh data"

(* src: usb/lab3_notifier.c:31-38 my_notifier_call *)
definition my_notifier_call :: "int \<Rightarrow> c_long \<Rightarrow> c_long" where
  "my_notifier_call event c = c + 100"

(* src: usb/lab3_notifier.c:30-45 my_nh, my_nh_block, counter *)
record notifier_mod =
  my_nh :: "(int \<Rightarrow> c_long \<Rightarrow> c_long) list"
  counter :: c_long

(* src: usb/lab3_notifier.c:47-60 my_init *)
definition notifier_init :: "int \<Rightarrow> notifier_mod \<Rightarrow> int \<times> notifier_mod" where
  "notifier_init e s =
     (if e \<noteq> 0 then (-1, s)
      else
        let s = s\<lparr>my_nh := my_nh s @ [my_notifier_call]\<rparr>
        in (0, s\<lparr>counter := notifier_call_chain (my_nh s) 1000 (counter s)\<rparr>))"

(* src: usb/lab3_notifier.c:62-70 my_exit *)
definition notifier_exit :: "notifier_mod \<Rightarrow> notifier_mod" where
  "notifier_exit s =
     (let s = s\<lparr>counter := notifier_call_chain (my_nh s) (-1000) (counter s)\<rparr> in s\<lparr>my_nh := butlast (my_nh s)\<rparr>)"

text \<open>Loading calls its own block once and unloading once more, and leaves the chain as it was.\<close>

lemma notifier_cycle:
  "notifier_init 0 \<lparr>my_nh = [], counter = c\<rparr> = (0, \<lparr>my_nh = [my_notifier_call], counter = c + 100\<rparr>)"
  "notifier_exit \<lparr>my_nh = [my_notifier_call], counter = c + 100\<rparr> = \<lparr>my_nh = [], counter = c + 200\<rparr>"
  by (simp_all add: notifier_init_def notifier_exit_def notifier_call_chain_def my_notifier_call_def Let_def)

section \<open>The PCI devices\<close>

text \<open>
  \<open>pci_get_device\<close> takes a reference to the device it returns and drops the one to the device it is given, so that a
  loop over all devices that runs to its end keeps none. The body of this loop drops the reference once more. \<open>refs\<close>
  counts the references of each device, in the order of the kernel's list; a count of zero means that the device was freed.
\<close>

definition pci_get :: "nat \<Rightarrow> nat list \<Rightarrow> nat list kresult" where
  "pci_get i refs = (if refs ! i = 0 then Inl UseAfterFree else Inr (refs[i := refs ! i + 1]))"

definition pci_put :: "nat \<Rightarrow> nat list \<Rightarrow> nat list kresult" where
  "pci_put i refs = (if refs ! i = 0 then Inl UseAfterFree else Inr (refs[i := refs ! i - 1]))"

text \<open>The next device is found from the one before, and then that one is dropped.\<close>

definition pci_get_device :: "nat option \<Rightarrow> nat list \<Rightarrow> (nat option \<times> nat list) kresult" where
  "pci_get_device from_dev refs =
     (let i = (case from_dev of None \<Rightarrow> 0 | Some j \<Rightarrow> Suc j)
      in case (if i < length refs then pci_get i refs else Inr refs) of
           Inl f \<Rightarrow> Inl f
         | Inr refs \<Rightarrow>
             (case (case from_dev of None \<Rightarrow> Inr refs | Some j \<Rightarrow> pci_put j refs) of
                Inl f \<Rightarrow> Inl f
              | Inr refs \<Rightarrow> Inr (if i < length refs then Some i else None, refs)))"

text \<open>Each round reads the registers and drops the device; one round for each device and a last one are enough.\<close>

(* src: pci/lab1_pci.c:42-73 my_init (loop) *)
fun pci_loop :: "nat option \<Rightarrow> nat \<Rightarrow> nat list \<Rightarrow> nat list kresult" where
  "pci_loop pdev 0 refs = Inr refs"
| "pci_loop pdev (Suc n) refs =
     (case pci_get_device pdev refs of
        Inl f \<Rightarrow> Inl f
      | Inr (None, refs) \<Rightarrow> Inr refs
      | Inr (Some i, refs) \<Rightarrow>
          (case pci_put i refs of Inl f \<Rightarrow> Inl f | Inr refs \<Rightarrow> pci_loop (Some i) n refs))"

(* src: pci/lab1_pci.c:31-75 my_init *)
definition pci_finder :: "nat list \<Rightarrow> nat list kresult" where
  "pci_finder refs = pci_loop None (Suc (length refs)) refs"

lemma pci_loop_from:
  "0 < c \<Longrightarrow> pci_loop (Some (length a)) (Suc (length b)) (a @ c # b) =
    (if 0 \<in> set b then Inl UseAfterFree else Inr (a @ (c - 1) # map (\<lambda>c. c - 1) b))"
proof (induction b arbitrary: a c)
  case Nil
  then show ?case by (simp add: pci_get_device_def pci_put_def nth_append list_update_append)
next
  case (Cons d b)
  show ?case
  proof (cases "d = 0")
    case True
    then show ?thesis by (simp add: pci_get_device_def pci_get_def nth_append)
  next
    case False
    have "pci_get_device (Some (length a)) (a @ c # d # b) = Inr (Some (Suc (length a)), a @ (c - 1) # Suc d # b)"
      using False Cons.prems
      by (simp add: pci_get_device_def pci_get_def pci_put_def nth_append list_update_append)
    moreover have "pci_put (Suc (length a)) (a @ (c - 1) # Suc d # b) = Inr ((a @ [c - 1]) @ d # b)"
      by (simp add: pci_put_def nth_append list_update_append)
    ultimately have "pci_loop (Some (length a)) (Suc (length (d # b))) (a @ c # d # b) =
      pci_loop (Some (length (a @ [c - 1]))) (Suc (length b)) ((a @ [c - 1]) @ d # b)" by simp
    also have "\<dots> = (if 0 \<in> set b then Inl UseAfterFree else Inr ((a @ [c - 1]) @ (d - 1) # map (\<lambda>c. c - 1) b))"
      using False by (intro Cons.IH) simp
    finally show ?thesis using False by simp
  qed
qed

text \<open>Each load takes one reference from every device of the system: a device nobody else holds is freed while it is
  still on the list, and the next load uses it.\<close>

theorem pci_finder_drops:
  "pci_finder refs = (if 0 \<in> set refs then Inl UseAfterFree else Inr (map (\<lambda>c. c - 1) refs))"
proof (cases refs)
  case Nil
  then show ?thesis by (simp add: pci_finder_def pci_get_device_def)
next
  case (Cons c b)
  show ?thesis
  proof (cases "c = 0")
    case True
    then show ?thesis by (simp add: pci_finder_def Cons pci_get_device_def pci_get_def)
  next
    case False
    then have "pci_finder refs = pci_loop (Some (length [])) (Suc (length b)) ([] @ c # b)"
      by (simp add: pci_finder_def Cons pci_get_device_def pci_get_def pci_put_def)
    with pci_loop_from [of c "[]" b] False show ?thesis by (simp add: Cons del: pci_loop.simps)
  qed
qed

lemma pci_two_loads: "case pci_finder [1, 3] of Inl f \<Rightarrow> False | Inr refs \<Rightarrow> refs = [0, 2] \<and> pci_finder refs = Inl UseAfterFree"
  by (simp add: pci_finder_drops)

end
