(* ===== verification/Probe_Labs.thy ===== *)
theory Probe_Labs
  imports Interfaces
begin

text \<open>
  The labs that set kernel probes: the statistics of the timer functions (\<open>src/timers/lab6_kprobes.c\<close>), a probe with its
  three handlers (\<open>src/debug/lab1_kprobes.c\<close>, \<open>debug_lab5_kprobes.c\<close>), a probe and a jprobe of the generic driver's open
  (\<open>lab3_probe_module.c\<close>), and the jprobe that counts \<open>mod_timer\<close> (\<open>lab2_jprobes.c\<close>, \<open>debug_lab6_jprobes.c\<close>). The kernel calls the
  handlers when the probed function is reached.
\<close>

section \<open>Statistics of the timer functions\<close>

datatype timer_fn = AddTimer | ModTimer | DelTimer | DelTimerSync

text \<open>\<open>k_lines\<close> are the lines printed, a function with its count.\<close>

(* src: timers/lab6_kprobes.c:37-39 count_mod_timer, count_del_timer, count_del_timer_sync, count_add_timer *)
record kp_counts =
  k_count :: "timer_fn \<Rightarrow> c_int"
  k_lines :: "(timer_fn \<times> int) list"

text \<open>The remainder in C has the sign of the count.\<close>

(* src: timers/lab6_kprobes.c:41-50 do_count *)
definition do_count :: "timer_fn \<Rightarrow> kp_counts \<Rightarrow> kp_counts" where
  "do_count f s =
     (let c = k_count s f + 1; s = s\<lparr>k_count := (k_count s)(f := c)\<rparr>
      in if 0 \<le> sint c \<and> sint c mod 100 = 1 then s\<lparr>k_lines := k_lines s @ [(f, sint c)]\<rparr> else s)"

(* src: timers/lab6_kprobes.c:52-73 h_add_timer, h_mod_timer, h_del_timer, h_del_timer_sync *)
definition kp_handlers :: "timer_fn list \<Rightarrow> kp_counts \<Rightarrow> kp_counts" where
  "kp_handlers fs s = fold do_count fs s"

definition kp_start :: kp_counts where
  "kp_start = \<lparr>k_count = (\<lambda>_. 0), k_lines = []\<rparr>"

definition hits :: "timer_fn \<Rightarrow> timer_fn list \<Rightarrow> nat" where
  "hits f fs = length (filter ((=) f) fs)"

text \<open>The multiples of 100, plus one, up to a count.\<close>

definition hundreds :: "nat \<Rightarrow> int list" where
  "hundreds n = map int (filter (\<lambda>c. c mod 100 = 1) [1..<Suc n])"

lemma kp_handlers_counts:
  "length fs < 2 ^ 31 \<Longrightarrow>
   k_count (kp_handlers fs kp_start) f = of_nat (hits f fs) \<and>
   map snd (filter (\<lambda>l. fst l = f) (k_lines (kp_handlers fs kp_start))) = hundreds (hits f fs)"
proof (induction fs rule: rev_induct)
  case Nil
  then show ?case by (simp add: kp_handlers_def kp_start_def hits_def hundreds_def)
next
  case (snoc g fs)
  let ?s = "kp_handlers fs kp_start"
  have st: "kp_handlers (fs @ [g]) kp_start = do_count g ?s" by (simp add: kp_handlers_def)
  from snoc have ih: "k_count ?s f = of_nat (hits f fs)"
    "map snd (filter (\<lambda>l. fst l = f) (k_lines ?s)) = hundreds (hits f fs)" by simp_all
  show ?case
  proof (cases "g = f")
    case False
    then show ?thesis using ih by (simp add: st do_count_def Let_def hits_def)
  next
    case True
    have "hits f fs \<le> length fs" by (simp add: hits_def)
    then have b: "Suc (hits f fs) < 2 ^ 31" using snoc.prems by simp
    have w: "k_count ?s f + 1 = of_nat (Suc (hits f fs))" using ih(1) by simp
    have "unat (of_nat (Suc (hits f fs)) :: c_int) = Suc (hits f fs)"
      using b by (simp only: unsigned_of_nat) (simp add: take_bit_nat_eq_self)
    then have s: "sint (of_nat (Suc (hits f fs)) :: c_int) = int (Suc (hits f fs))"
      using b sint_small_32 [of "of_nat (Suc (hits f fs))"] by simp
    have h: "hits f (fs @ [f]) = Suc (hits f fs)" by (simp add: hits_def)
    have st': "kp_handlers (fs @ [f]) kp_start = do_count f ?s" by (simp add: kp_handlers_def)
    have u: "hundreds (Suc n) = hundreds n @ (if Suc n mod 100 = 1 then [int (Suc n)] else [])" for n
      by (simp add: hundreds_def)
    have m: "int (Suc (hits f fs)) mod 100 = 1 \<longleftrightarrow> Suc (hits f fs) mod 100 = 1"
      by (metis of_nat_1 of_nat_eq_iff of_nat_numeral zmod_int)
    show ?thesis
      unfolding True st' h u do_count_def Let_def w s m using ih(2) by simp
  qed
qed

text \<open>After any sequence of fewer than \<open>2\<^sup>3\<^sup>1\<close> calls each counter holds the calls of its function, and the lines printed of
  a function are those of its 1st, 101st, 201st call and so on.\<close>

theorem kp_statistics:
  assumes "length fs < 2 ^ 31"
  shows "(\<forall>f. sint (k_count (kp_handlers fs kp_start) f) = int (hits f fs)) \<and>
    (\<forall>f. map snd (filter (\<lambda>l. fst l = f) (k_lines (kp_handlers fs kp_start))) = hundreds (hits f fs))"
proof (intro conjI allI)
  fix f
  have b: "hits f fs < 2 ^ 31" using assms le_less_trans [of "hits f fs" "length fs"] by (simp add: hits_def)
  have "unat (of_nat (hits f fs) :: c_int) = hits f fs"
    using b by (simp only: unsigned_of_nat) (simp add: take_bit_nat_eq_self)
  then show "sint (k_count (kp_handlers fs kp_start) f) = int (hits f fs)"
    using b sint_small_32 [of "of_nat (hits f fs)"] kp_handlers_counts [OF assms, of f] by simp
qed (use kp_handlers_counts [OF assms] in simp)

theorem kp_statistics_witness:
  "sint (k_count (kp_handlers [AddTimer, ModTimer, AddTimer] kp_start) AddTimer) = 2 \<and>
   map snd (filter (\<lambda>l. fst l = AddTimer) (k_lines (kp_handlers [AddTimer, ModTimer, AddTimer] kp_start))) = [1]"
proof -
  have "hits AddTimer [AddTimer, ModTimer, AddTimer] = 2" by (simp add: hits_def)
  moreover have "hundreds 2 = [1]" by (simp add: hundreds_def upt_rec numeral_2_eq_2)
  ultimately show ?thesis using kp_statistics [of "[AddTimer, ModTimer, AddTimer]"] by simp
qed

section \<open>Setting the probes\<close>

text \<open>The answers of \<open>register_kprobe\<close>; \<open>smp\<close> is the kernel's configuration.\<close>

(* src: timers/lab6_kprobes.c:75-88 setup_probe *)
definition setup_probe :: "(timer_fn \<Rightarrow> int) \<Rightarrow> timer_fn \<Rightarrow> timer_fn ledger \<Rightarrow> int \<times> timer_fn ledger" where
  "setup_probe e f k = (if e f \<noteq> 0 then (-1, k) else (0, acquire f k))"

(* src: timers/lab6_kprobes.c:90-117 my_init *)
definition kp_init :: "bool \<Rightarrow> (timer_fn \<Rightarrow> int) \<Rightarrow> timer_fn ledger \<Rightarrow> int \<times> timer_fn ledger" where
  "kp_init smp e k =
     (let (r, k) = setup_probe e AddTimer k
      in if r \<noteq> 0 then (-1, k)
      else let (r, k) = setup_probe e ModTimer k
      in if r \<noteq> 0 then (-1, release AddTimer k)
      else let (r, k) = setup_probe e DelTimer k
      in if r \<noteq> 0 then (-1, release ModTimer (release AddTimer k))
      else if \<not> smp then (0, k)
      else let (r, k) = setup_probe e DelTimerSync k
      in if r \<noteq> 0 then (-1, release DelTimer (release ModTimer (release AddTimer k)))
      else (0, k))"

(* src: timers/lab6_kprobes.c:119-135 my_exit *)
definition kp_exit :: "bool \<Rightarrow> timer_fn ledger \<Rightarrow> timer_fn ledger" where
  "kp_exit smp k =
     (let k = release_all [ModTimer, AddTimer, DelTimer] k in if smp then release DelTimerSync k else k)"

interpretation kprobes_module: module_lifecycle "\<lambda>_. True" "kp_init smp"
  "\<lambda>_. (if smp then [DelTimerSync] else []) @ [DelTimer, ModTimer, AddTimer]" "\<lambda>_. kp_exit smp"
proof (unfold_locales, goal_cases)
  case (1 e k)
  then show ?case by (auto simp: kp_init_def setup_probe_def Let_def split: if_splits)
next
  case (2 e k)
  then show ?case
    by (auto simp: kp_init_def setup_probe_def Let_def release_acquire_other split: if_splits)
next
  case (3 e k h)
  then show ?case by (auto simp: kp_exit_def Let_def ledger_simps split: if_splits)
qed

section \<open>Other probes\<close>

datatype probe_res = KProbe | JProbe

datatype probe_line = PreLine | PostLine | FaultLine | OpenLine

text \<open>A reached function runs the handlers before and after it, and the one for faults when its instruction faults.\<close>

(* src: debug/lab1_kprobes.c:37-56 handler_pre, handler_post, handler_fault *)
definition probe_handlers :: "bool \<Rightarrow> probe_line list" where
  "probe_handlers flt = PreLine # (if flt then [FaultLine] else []) @ [PostLine]"

(* src: debug/lab1_kprobes.c:58-75 my_init *)
definition probe_init :: "int \<Rightarrow> probe_res ledger \<Rightarrow> int \<times> probe_res ledger" where
  "probe_init e k = (if e \<noteq> 0 then (-1, k) else (0, acquire KProbe k))"

(* src: debug/lab1_kprobes.c:77-81 my_exit *)
definition probe_exit :: "probe_res ledger \<Rightarrow> probe_res ledger" where
  "probe_exit k = release KProbe k"

(* src: debug/debug_lab5_kprobes.c:44-61 my_init *)
definition probe5_init :: "int \<Rightarrow> probe_res ledger \<Rightarrow> int \<times> probe_res ledger" where
  "probe5_init = probe_init"

(* src: debug/debug_lab5_kprobes.c:63-67 my_exit *)
definition probe5_exit :: "probe_res ledger \<Rightarrow> probe_res ledger" where
  "probe5_exit = probe_exit"

text \<open>The jprobe's registration is not looked at; a jprobe that was not registered is removed all the same.\<close>

(* src: debug/lab3_probe_module.c:58-74 my_init *)
definition probe3_init :: "int \<times> int \<Rightarrow> probe_res ledger \<Rightarrow> int \<times> probe_res ledger" where
  "probe3_init e k =
     (if fst e \<noteq> 0 then (-1, k)
      else
        let k = acquire KProbe k in (0, if snd e = 0 then acquire JProbe k else k))"

(* src: debug/lab3_probe_module.c:76-82 my_exit *)
definition probe3_exit :: "probe_res ledger \<Rightarrow> probe_res ledger" where
  "probe3_exit k = release KProbe (release JProbe k)"

(* src: debug/lab2_jprobes.c:29-35 mod_timer_inst *)
definition mod_timer_inst :: "c_long \<times> c_long list \<Rightarrow> c_long \<times> c_long list" where
  "mod_timer_inst s =
     (let (n, ls) = s; n = n + 1 in (n, if sint n mod 10 = 0 then ls @ [n] else ls))"

(* src: debug/debug_lab6_jprobes.c:17-23 mod_timer_inst *)
definition mod_timer_inst6 :: "c_long \<times> c_long list \<Rightarrow> c_long \<times> c_long list" where
  "mod_timer_inst6 = mod_timer_inst"

(* src: debug/lab2_jprobes.c:42-47 my_init *)
definition jprobe_init :: "int \<Rightarrow> probe_res ledger \<Rightarrow> int \<times> probe_res ledger" where
  "jprobe_init e k = (0, if e = 0 then acquire JProbe k else k)"

(* src: debug/lab2_jprobes.c:49-55 my_exit *)
definition jprobe_exit :: "probe_res ledger \<Rightarrow> probe_res ledger" where
  "jprobe_exit k = release JProbe k"

interpretation probe_module: module_lifecycle "\<lambda>_. True" probe_init "\<lambda>_. [KProbe]" "\<lambda>_. probe_exit"
  by unfold_locales (auto simp: probe_init_def probe_exit_def ledger_simps split: if_splits)

text \<open>An ignored failure of a jprobe makes unloading remove what was never there.\<close>

theorem jprobe_unchecked:
  assumes "e \<noteq> 0"
  shows "jprobe_exit (snd (jprobe_init e empty_ledger)) = \<lparr>held = [], faults = [JProbe]\<rparr> \<and>
    probe3_exit (snd (probe3_init (0, e) empty_ledger)) = \<lparr>held = [], faults = [JProbe]\<rparr>"
  using assms by (simp add: jprobe_exit_def jprobe_init_def probe3_exit_def probe3_init_def release_def acquire_def
      empty_ledger_def)

end
