(* ===== verification/Resource_Labs.thy ===== *)
theory Resource_Labs
  imports Printf Interfaces
begin

text \<open>
  Labs that ask the kernel for resources: I/O ports (\<open>src/hardware/lab1_port.c\<close>, \<open>lab2_region.c\<close>, \<open>lab2_resource.c\<close>,
  \<open>lab3_map.c\<close>), DMA buffers (\<open>src/io/lab5_dma.c\<close>, \<open>lab5_dma_PCI_API.c\<close>), a relay channel (\<open>lab4_relay_module.c\<close>), a UIO device
  (\<open>src/interrupts/lab10_uio_api.c\<close>), a firmware file (\<open>src/firmware/lab1_firmware.c\<close>), and a tasklet
  (\<open>src/interrupts/lab11_mytasklet.c\<close>).
\<close>

section \<open>I/O ports\<close>

text \<open>
  The kernel's table of regions: each has an owner, a first and a last port. A request succeeds when no region of
  the table overlaps it. \<open>release_region\<close> removes the region with exactly these ports, whoever owns it.
\<close>

type_synonym region = "string \<times> nat \<times> nat"

definition overlaps :: "nat \<Rightarrow> nat \<Rightarrow> region \<Rightarrow> bool" where
  "overlaps a b r \<longleftrightarrow> a \<le> snd (snd r) \<and> fst (snd r) \<le> b"

definition request_region :: "string \<Rightarrow> nat \<Rightarrow> nat \<Rightarrow> region list \<Rightarrow> region list option" where
  "request_region name start n t =
     (if list_ex (overlaps start (start + n - 1)) t then None else Some ((name, start, start + n - 1) # t))"

definition release_region :: "nat \<Rightarrow> nat \<Rightarrow> region list \<Rightarrow> region list" where
  "release_region start n t = filter (\<lambda>(_, a, b). \<not> (a = start \<and> b = start + n - 1)) t"

(* src: hardware/lab2_region.c:39-59 my_init *)
definition region_init :: "nat \<Rightarrow> nat \<Rightarrow> region list \<Rightarrow> int \<times> region list" where
  "region_init iostart ioextend t =
     (case request_region ''my_ioport'' iostart ioextend t of None \<Rightarrow> (- EBUSY, t) | Some t \<Rightarrow> (0, t))"

(* src: hardware/lab2_region.c:61-66 my_exit *)
definition region_exit :: "nat \<Rightarrow> nat \<Rightarrow> region list \<Rightarrow> region list" where
  "region_exit iostart ioextend t = release_region iostart ioextend t"

text \<open>The ports are mapped after they were requested, and unmapped after they were released.\<close>

(* src: hardware/lab3_map.c:31-55 my_init *)
definition map_init :: "bool \<Rightarrow> nat \<Rightarrow> nat \<Rightarrow> region list \<Rightarrow> (int \<times> region list) kresult" where
  "map_init mapped iostart ioextend t =
     (case request_region ''my_ioport'' iostart ioextend t of
        None \<Rightarrow> Inr (- EBUSY, t)
      | Some t \<Rightarrow> if \<not> mapped then Inl NullDeref else Inr (0, t))"

text \<open>This one names the last port itself, and names the port behind it.\<close>

(* src: hardware/lab2_resource.c:42-66 my_init *)
definition resource_init :: "nat \<Rightarrow> nat \<Rightarrow> region list \<Rightarrow> int \<times> region list" where
  "resource_init iostart ioextend t =
     (let ioend = iostart + ioextend
      in if list_ex (overlaps iostart ioend) t then (- EBUSY, t) else (0, (''my_ioport'', iostart, ioend) # t))"

(* src: hardware/lab2_resource.c:68-75 my_exit *)
definition resource_exit :: "nat \<Rightarrow> nat \<Rightarrow> region list \<Rightarrow> region list" where
  "resource_exit iostart ioextend t = remove1 (''my_ioport'', iostart, iostart + ioextend) t"

(* src: hardware/lab1_port.c:27-62 my_init *)
definition port_init :: "region list \<Rightarrow> int \<times> region list" where
  "port_init t =
     (let t = release_region 0x378 3 t
      in case request_region ''shortest2'' 0x378 3 t of None \<Rightarrow> (- ENODEV, t) | Some t \<Rightarrow> (0, t))"

(* src: hardware/lab1_port.c:64-69 my_exit *)
definition port_exit :: "region list \<Rightarrow> region list" where
  "port_exit t = release_region 0x378 3 t"

lemma release_requested:
  assumes "0 < n" and "request_region name start n t = Some t'"
  shows "release_region start n t' = t"
proof -
  have "\<not> list_ex (overlaps start (start + n - 1)) t" and t': "t' = (name, start, start + n - 1) # t"
    using assms(2) by (auto simp: request_region_def split: if_splits)
  then have "\<forall>r \<in> set t. \<not> (fst (snd r) = start \<and> snd (snd r) = start + n - 1)"
    using assms(1) by (auto simp: list_ex_iff overlaps_def)
  then have "filter (\<lambda>(_, a, b). \<not> (a = start \<and> b = start + n - 1)) t = t"
    by (intro filter_True) auto
  then show ?thesis by (simp add: release_region_def t')
qed

text \<open>The region driver takes free ports and gives them back, and refuses ports that anybody has. The port driver
  takes the ports of whoever has exactly these, which unloading does not give back. The resource driver asks for
  one port more than it means to: it fails when the port behind its own is taken.\<close>

theorem port_drivers:
  assumes "0 < n"
  shows "(fst (region_init s n t) = (if list_ex (overlaps s (s + n - 1)) t then - EBUSY else 0))
    \<and> (fst (region_init s n t) = 0 \<longrightarrow> region_exit s n (snd (region_init s n t)) = t)
    \<and> (fst (region_init s n t) \<noteq> 0 \<longrightarrow> snd (region_init s n t) = t)
    \<and> port_init [(owner, 0x378, 0x37A)] = (0, [(''shortest2'', 0x378, 0x37A)])
    \<and> port_exit (snd (port_init [(owner, 0x378, 0x37A)])) = []
    \<and> (list_ex (overlaps (s + n) (s + n)) t \<longrightarrow> resource_init s n t = (- EBUSY, t))"
proof (intro conjI impI)
  show "fst (region_init s n t) = (if list_ex (overlaps s (s + n - 1)) t then - EBUSY else 0)"
    by (simp add: region_init_def request_region_def)
  show "region_exit s n (snd (region_init s n t)) = t" if "fst (region_init s n t) = 0"
    using that release_requested [OF assms] by (auto simp: region_init_def region_exit_def split: option.splits)
  show "snd (region_init s n t) = t" if "fst (region_init s n t) \<noteq> 0"
    using that by (auto simp: region_init_def split: option.splits)
  show "port_init [(owner, 0x378, 0x37A)] = (0, [(''shortest2'', 0x378, 0x37A)])"
    by (simp add: port_init_def release_region_def request_region_def Let_def)
  then show "port_exit (snd (port_init [(owner, 0x378, 0x37A)])) = []"
    by (simp add: port_exit_def release_region_def)
  assume "list_ex (overlaps (s + n) (s + n)) t"
  then obtain r where r: "r \<in> set t" "overlaps (s + n) (s + n) r" unfolding list_ex_iff by blast
  then have "overlaps s (s + n) r" by (simp add: overlaps_def)
  with r(1) have "list_ex (overlaps s (s + n)) t" unfolding list_ex_iff by blast
  then show "resource_init s n t = (- EBUSY, t)" by (simp add: resource_init_def)
qed

theorem port_drivers_witness:
  "fst (region_init 0x200 0x40 [(''next'', 0x240, 0x250)]) = 0 \<and>
   resource_init 0x200 0x40 [(''next'', 0x240, 0x250)] = (- EBUSY, [(''next'', 0x240, 0x250)])"
  using port_drivers [of "0x40" "0x200" "[(''next'', 0x240, 0x250)]"] by (simp add: overlaps_def)

section \<open>DMA buffers\<close>

datatype dma_res = DmaDevice | DmaCoherent | DmaKmalloc | DmaMapping | DmaPool | DmaPoolBuf

text \<open>\<open>output\<close> copies the text and its zero into the buffer.\<close>

(* src: io/lab5_dma.c:73-83 output *)
definition dma_output :: "nat option \<Rightarrow> string \<Rightarrow> unit kresult" where
  "dma_output kbuf s =
     (case kbuf of None \<Rightarrow> Inl NullDeref | Some n \<Rightarrow> if length s < n then Inr () else Inl OutOfBounds)"

text \<open>The answers of the allocators; the sizes are those the driver asks for.\<close>

record dma_env =
  da_coherent :: bool
  da_kmalloc :: bool
  da_pool :: bool
  da_poolbuf :: bool

definition got :: "bool \<Rightarrow> nat \<Rightarrow> nat option" where
  "got ok n = (if ok then Some n else None)"

(* src: io/lab5_dma.c:85-119 my_init *)
definition dma_init :: "dma_env \<Rightarrow> dma_res ledger \<Rightarrow> (int \<times> dma_res ledger) kresult" where
  "dma_init e k =
     (let k = acquire DmaDevice k; k = (if da_coherent e then acquire DmaCoherent k else k)
      in case dma_output (got (da_coherent e) 40960) ''This is the dma_alloc_coherent() string'' of
           Inl f \<Rightarrow> Inl f
         | Inr _ \<Rightarrow>
      let k = release DmaCoherent k; k = (if da_kmalloc e then acquire DmaKmalloc k else k); k = acquire DmaMapping k
      in case dma_output (got (da_kmalloc e) 40960) ''This is the dma_map_single() string'' of
           Inl f \<Rightarrow> Inl f
         | Inr _ \<Rightarrow>
      let k = release DmaKmalloc (release DmaMapping k)
      in if \<not> da_pool e then Inl NullDeref
         else
      let k = acquire DmaPool k; k = (if da_poolbuf e then acquire DmaPoolBuf k else k)
      in case dma_output (got (da_poolbuf e) 1024) ''This is the dma_pool_alloc() string'' of
           Inl f \<Rightarrow> Inl f
         | Inr _ \<Rightarrow> Inr (0, release_all [DmaPoolBuf, DmaPool, DmaDevice] k))"

(* src: io/lab5_dma_PCI_API.c:57-83 my_init *)
definition dma_pci_init :: "dma_env \<Rightarrow> dma_res ledger \<Rightarrow> (int \<times> dma_res ledger) kresult" where
  "dma_pci_init e k =
     (let k = (if da_coherent e then acquire DmaCoherent k else k)
      in case dma_output (got (da_coherent e) 40960) ''This is the pci_alloc_consistent() string'' of
           Inl f \<Rightarrow> Inl f
         | Inr _ \<Rightarrow>
      let k = release DmaCoherent k; k = (if da_kmalloc e then acquire DmaKmalloc k else k); k = acquire DmaMapping k
      in case dma_output (got (da_kmalloc e) 40960) ''This is the pci_map_single() string'' of
           Inl f \<Rightarrow> Inl f
         | Inr _ \<Rightarrow> Inr (0, release DmaKmalloc (release DmaMapping k)))"

text \<open>Both modules give everything back and load when every allocation succeeds, and follow a null pointer at the first that fails.\<close>

theorem dma_tests:
  "dma_init e k =
     (if da_coherent e \<and> da_kmalloc e \<and> da_pool e \<and> da_poolbuf e then Inr (0, k) else Inl NullDeref) \<and>
   dma_pci_init e k = (if da_coherent e \<and> da_kmalloc e then Inr (0, k) else Inl NullDeref)"
  by (simp add: dma_init_def dma_pci_init_def dma_output_def got_def Let_def ledger_simps)


section \<open>A relay channel\<close>

text \<open>A channel is the bytes written to it; 16 sub-buffers of a page hold them. A record has 64 bytes.\<close>

definition relay_record :: "int \<Rightarrow> string kresult" where
  "relay_record v =
     sprintf_at 0 (''data='' @ fmt_d v @ [CHR 0x0A]) (replicate 64 (CHR 0x00))"

(* src: io/lab4_relay_module.c:76-80 my_init (inner loop) *)
fun relay_row :: "int \<Rightarrow> nat \<Rightarrow> nat \<Rightarrow> string \<Rightarrow> string kresult" where
  "relay_row k j 0 chan = Inr chan"
| "relay_row k j (Suc n) chan =
     (case relay_record (int j * k) of
        Inl f \<Rightarrow> Inl f
      | Inr d \<Rightarrow> relay_row k (Suc j) n (chan @ d))"

(* src: io/lab4_relay_module.c:74-85 my_init (outer loop) *)
fun relay_rows :: "nat \<Rightarrow> nat \<Rightarrow> string \<Rightarrow> string kresult" where
  "relay_rows k 0 chan = Inr chan"
| "relay_rows k (Suc n) chan =
     (case relay_row (int k) 0 10 chan of Inl f \<Rightarrow> Inl f | Inr chan \<Rightarrow> relay_rows (Suc k) n chan)"

(* src: io/lab4_relay_module.c:65-87 my_init *)
definition relay_init :: "bool \<Rightarrow> string kresult" where
  "relay_init chan = (if \<not> chan then Inl NullDeref else relay_rows 0 10 [])"

definition record_bytes :: "int \<Rightarrow> string" where
  "record_bytes v = (let s = ''data='' @ fmt_d v @ [CHR 0x0A] in s @ replicate (64 - length s) (CHR 0x00))"

lemma relay_record_ok:
  assumes "0 \<le> v" and "v < 2 ^ 31"
  shows "relay_record v = Inr (record_bytes v)" and "length (record_bytes v) = 64"
proof -
  let ?s = "''data='' @ fmt_d v @ [CHR 0x0A]"
  have l: "length ?s \<le> 17" using length_fmt_int [of v] assms by simp
  then have "sprintf_at 0 ?s (replicate 64 (CHR 0x00)) = Inr (put_range 0 (?s @ [CHR 0x00]) (replicate 64 (CHR 0x00)))"
    by (intro sprintf_ok) simp
  moreover have "put_range 0 (?s @ [CHR 0x00]) (replicate 64 (CHR 0x00)) = ?s @ CHR 0x00 # replicate (63 - length ?s) (CHR 0x00)"
    by (simp add: put_range_def)
  moreover have "CHR 0x00 # replicate (63 - length ?s) (CHR 0x00) = replicate (64 - length ?s) (CHR 0x00)"
  proof -
    have "64 - length ?s = Suc (63 - length ?s)" using l by linarith
    then show ?thesis by (simp only: replicate_Suc)
  qed
  ultimately show "relay_record v = Inr (record_bytes v)" by (simp only: relay_record_def record_bytes_def Let_def)
  show "length (record_bytes v) = 64" using l by (simp add: record_bytes_def Let_def)
qed


lemma relay_row_ok:
  "0 \<le> k \<Longrightarrow> int (j + n) * k < 2 ^ 31 \<Longrightarrow>
   relay_row k j n chan = Inr (chan @ concat (map (\<lambda>j. record_bytes (int j * k)) [j..<j + n]))"
proof (induction n arbitrary: j chan)
  case (Suc n)
  have "int j * k \<le> int (j + Suc n) * k" using Suc.prems(1) by (intro mult_right_mono) simp_all
  then have b: "int j * k < 2 ^ 31" using Suc.prems(2) by simp
  have z: "0 \<le> int j * k" using Suc.prems(1) by simp
  have "relay_row k (Suc j) n (chan @ record_bytes (int j * k)) =
      Inr ((chan @ record_bytes (int j * k)) @ concat (map (\<lambda>j. record_bytes (int j * k)) [Suc j..<Suc j + n]))"
    using Suc.prems by (intro Suc.IH) simp_all
  then show ?case using relay_record_ok(1) [OF z b] by (simp add: upt_conv_Cons del: upt_Suc)
qed simp

lemma relay_rows_ok:
  "k + n \<le> 10 \<Longrightarrow>
   relay_rows k n chan =
     Inr (chan @ concat (map (\<lambda>k. concat (map (\<lambda>j. record_bytes (int j * int k)) [0..<10])) [k..<k + n]))"
proof (induction n arbitrary: k chan)
  case (Suc n)
  have "relay_row (int k) 0 10 chan = Inr (chan @ concat (map (\<lambda>j. record_bytes (int j * int k)) [0..<0 + 10]))"
    using Suc.prems by (intro relay_row_ok) simp_all
  with Suc.IH [of "Suc k"] Suc.prems show ?case by (simp add: upt_conv_Cons del: upt_Suc)
qed simp

text \<open>Loading writes the table of products as a hundred records of 64 bytes, which fit the channel's 16 pages many times
  over, so that nothing is overwritten.\<close>

theorem relay_table:
  "\<exists>chan. relay_init True = Inr chan \<and>
     chan = concat (map (\<lambda>k. concat (map (\<lambda>j. record_bytes (int j * int k)) [0..<10])) [0..<10]) \<and>
     length chan = 6400 \<and> length chan \<le> 16 * 4096 \<and> relay_init False = Inl NullDeref"
proof -
  let ?row = "\<lambda>k. concat (map (\<lambda>j. record_bytes (int j * int k)) [0..<10])"
  have len: "length (?row k) = 640" if "k < 10" for k
  proof -
    have "length (record_bytes (int j * int k)) = 64" if "j < 10" for j
    proof (rule relay_record_ok(2))
      have "int j * int k \<le> 9 * 9" using \<open>j < 10\<close> \<open>k < 10\<close> by (intro mult_mono) simp_all
      then show "int j * int k < 2 ^ 31" by simp
    qed simp
    then have "map (length \<circ> (\<lambda>j. record_bytes (int j * int k))) [0..<10] = map (\<lambda>_. 64) [0..<10]"
      by (intro map_cong) simp_all
    then show ?thesis by (simp only: length_concat map_map) (simp add: sum_list_triv)
  qed
  then have "map (length \<circ> ?row) [0..<10] = map (\<lambda>_. 640) [0..<10]" by (intro map_cong) simp_all
  then have "length (concat (map ?row [0..<10])) = 6400"
    by (simp only: length_concat map_map) (simp add: sum_list_triv)
  with relay_rows_ok [of 0 10 "[]"] show ?thesis by (simp add: relay_init_def del: upt_Suc)
qed

section \<open>A UIO device\<close>

datatype uio_res = UioDevice | UioInfo | UioRegistered | UioDevReg

text \<open>Both allocations are used unchecked.\<close>

(* src: interrupts/lab10_uio_api.c:83-106 my_init *)
definition uio_api_init :: "bool \<times> bool \<times> int \<Rightarrow> uio_res ledger \<Rightarrow> (int \<times> uio_res ledger) kresult" where
  "uio_api_init e k =
     (let (dev, info, reg) = e
      in if \<not> dev then Inl NullDeref
      else
        let k = acquire UioDevReg (acquire UioDevice k)
        in if \<not> info then Inl NullDeref
        else
          let k = acquire UioInfo k
          in if reg < 0 then Inr (-1, release_all [UioDevReg, UioDevice, UioInfo] k)
             else Inr (0, acquire UioRegistered k))"

(* src: interrupts/lab10_uio_api.c:108-115 my_exit *)
definition uio_api_exit :: "uio_res ledger \<Rightarrow> uio_res ledger" where
  "uio_api_exit k = release_all [UioRegistered, UioDevReg, UioInfo, UioDevice] k"

(* src: interrupts/lab10_uio_api.c:76-81 my_handler *)
definition uio_api_handler :: "c_int \<Rightarrow> c_int \<times> c_int" where
  "uio_api_handler n = (n + 1, n + 1)"

lemma uio_api_life:
  "uio_api_init (True, True, reg) k =
     Inr (if reg < 0 then (-1, k) else (0, acquire UioRegistered (acquire UioInfo (acquire UioDevReg (acquire UioDevice k)))))"
  "0 \<le> reg \<Longrightarrow> uio_api_init (True, True, reg) k = Inr (0, k') \<Longrightarrow> uio_api_exit k' = k"
  by (auto simp: uio_api_init_def uio_api_exit_def Let_def release_acquire_other)

section \<open>A firmware file\<close>

datatype fw_res = FwDevice | FwBlob

text \<open>The file is printed as a string, though it need not contain a zero.\<close>

(* src: firmware/lab1_firmware.c:60-73 my_init *)
definition fw_init :: "string option \<Rightarrow> fw_res ledger \<Rightarrow> (int \<times> string \<times> fw_res ledger) kresult" where
  "fw_init fw k =
     (let k = acquire FwDevice k
      in case fw of
           None \<Rightarrow> Inr (-1, [], release FwDevice k)
         | Some data \<Rightarrow>
             let s = takeWhile (\<lambda>c. c \<noteq> CHR 0x00) data
             in if length s = length data then Inl OutOfBounds else Inr (0, s, acquire FwBlob k))"

(* src: firmware/lab1_firmware.c:75-80 my_exit *)
definition fw_exit :: "fw_res ledger \<Rightarrow> fw_res ledger" where
  "fw_exit k = release_all [FwBlob, FwDevice] k"

lemma firmware_text:
  assumes "CHR 0x00 \<notin> set s"
  shows "fw_init (Some s) k = Inl OutOfBounds"
    and "fw_init (Some (s @ CHR 0x00 # r)) k = Inr (0, s, acquire FwBlob (acquire FwDevice k))"
    and "fw_init None k = Inr (-1, [], k)"
proof -
  have "takeWhile (\<lambda>c. c \<noteq> CHR 0x00) s = s" using assms by (auto simp: takeWhile_eq_all_conv)
  then have "length (takeWhile (\<lambda>c. c \<noteq> CHR 0x00) s) = length s" by (rule arg_cong)
  then show "fw_init (Some s) k = Inl OutOfBounds" unfolding fw_init_def Let_def option.case by (rule if_P)
  have "takeWhile (\<lambda>c. c \<noteq> CHR 0x00) (s @ CHR 0x00 # r) = s" using assms by (subst takeWhile_append2) auto
  then show "fw_init (Some (s @ CHR 0x00 # r)) k = Inr (0, s, acquire FwBlob (acquire FwDevice k))"
    by (simp add: fw_init_def Let_def)
  show "fw_init None k = Inr (-1, [], k)" by (simp add: fw_init_def)
qed

section \<open>A tasklet of a module\<close>

text \<open>
  \<open>ts_loaded\<close> tells whether the module's code is there, \<open>ts_pending\<close> whether its tasklet is scheduled. Unloading does not
  wait for it.
\<close>

(* src: interrupts/lab11_mytasklet.c:19-24 t_data, t_name *)
record mytasklet =
  ts_loaded :: bool
  ts_pending :: bool
  t_data :: "int \<times> int"
  ts_printed :: "int list"
  ts_crashed :: bool

(* src: interrupts/lab11_mytasklet.c:26-33 my_init *)
definition mytasklet_init :: "mytasklet \<Rightarrow> mytasklet" where
  "mytasklet_init s = s\<lparr>ts_loaded := True, t_data := (100, 200), ts_pending := True\<rparr>"

(* src: interrupts/lab11_mytasklet.c:40-48 t_fun *)
definition t_fun :: "mytasklet \<Rightarrow> mytasklet" where
  "t_fun s =
     (let s = s\<lparr>ts_pending := False\<rparr>
      in if ts_loaded s then s\<lparr>ts_printed := ts_printed s @ [fst (t_data s), snd (t_data s)]\<rparr>
         else s\<lparr>ts_crashed := True\<rparr>)"

(* src: interrupts/lab11_mytasklet.c:35-38 my_exit *)
definition mytasklet_exit :: "mytasklet \<Rightarrow> mytasklet" where
  "mytasklet_exit s = s\<lparr>ts_loaded := False\<rparr>"

text \<open>If the tasklet runs before the module is unloaded it prints its two numbers; if it runs after, its code is gone.\<close>

lemma mytasklet_races:
  "\<not> ts_crashed s \<Longrightarrow> \<not> ts_crashed (mytasklet_exit (t_fun (mytasklet_init s)))"
  "ts_printed (mytasklet_exit (t_fun (mytasklet_init s))) = ts_printed s @ [100, 200]"
  "ts_crashed (t_fun (mytasklet_exit (mytasklet_init s)))"
  by (simp_all add: mytasklet_init_def t_fun_def mytasklet_exit_def Let_def)

end
