(* ===== verification/Facilities.thy ===== *)
theory Facilities
  imports Data_Structs Mmap
begin

text \<open>
  The small modules on the kernel's facilities: the lists of \<open>src/facilities\<close> (\<open>lab1_list.c\<close>, \<open>linked.c\<close>), the two that walk
  the list of modules (\<open>lab2_taints.c\<close>, \<open>src/data/lab5_data_taints.c\<close>), \<open>container_of\<close> (\<open>src/data/lab2_data_container_of.c\<close>), the
  listing of network devices (\<open>src/network/lab2_devices.c\<close>), the CPU frequency notifiers (\<open>src/misc/s_32\<close>), and the
  mapping that checks nothing (\<open>src/io/mmapdrv.c\<close>).
\<close>

section \<open>Camels and other entries\<close>

(* src: facilities/lab1_list.c:32-36 camel_entry *)
record camel_entry =
  gate :: int
  camel :: string

definition camel_name :: "nat \<Rightarrow> string" where
  "camel_name k = ''Camel_'' @ fmt_d (int k + 1)"

definition c_text :: "string \<Rightarrow> string" where
  "c_text buf = takeWhile (\<lambda>c. c \<noteq> CHR 0x00) buf"

lemma c_text_sprintf:
  assumes "sprintf_at 0 s (replicate n CHR 0x00) = Inr buf" and "CHR 0x00 \<notin> set s"
  shows "c_text buf = s"
proof -
  have "takeWhile (\<lambda>c. c \<noteq> CHR 0x00) (s @ ys) = s @ takeWhile (\<lambda>c. c \<noteq> CHR 0x00) ys" for ys
    using assms(2) by (intro takeWhile_append2) auto
  with assms(1) show ?thesis by (auto simp: sprintf_at_def put_range_def c_text_def split: if_splits)
qed

text \<open>The loop from entry \<open>k\<close> on, with the answers to the allocations; the list has the newest entry first.\<close>

(* src: facilities/lab1_list.c:38-59 my_init *)
fun camel_init :: "(nat \<Rightarrow> bool) \<Rightarrow> nat list \<Rightarrow> camel_entry list \<Rightarrow> (int \<times> camel_entry list) kresult" where
  "camel_init alloc [] l = Inr (0, l)"
| "camel_init alloc (k # ks) l =
     (if \<not> alloc k then Inr (- ENOMEM, l)
      else case sprintf_at 0 (camel_name k) (replicate 20 CHR 0x00) of
        Inl f \<Rightarrow> Inl f
      | Inr buf \<Rightarrow> camel_init alloc ks (\<lparr>gate = 11 + int k, camel = c_text buf\<rparr> # l))"

definition camel_line :: "string \<Rightarrow> camel_entry \<Rightarrow> string" where
  "camel_line what ce = what @ camel ce @ '' at gate '' @ fmt_d (gate ce)"

text \<open>Unloading gives the lines it prints for the entries, and whether the list was empty before and after.\<close>

fun camel_free :: "camel_entry list \<Rightarrow> camel_entry list \<Rightarrow> string list \<times> camel_entry list" where
  "camel_free [] rest = ([], rest)"
| "camel_free (ce # l) rest =
     (let (out, rest) = camel_free l (remove1 ce rest) in (camel_line ''Camels (exit): '' ce # out, rest))"

(* src: facilities/lab1_list.c:61-87 my_exit *)
definition camel_exit :: "camel_entry list \<Rightarrow> bool \<times> string list \<times> bool" where
  "camel_exit l =
     (if l = [] then (True, [], True)
      else let (out, rest) = camel_free l l in (False, out, rest = []))"

definition camel_at :: "nat \<Rightarrow> camel_entry" where
  "camel_at k = \<lparr>gate = 11 + int k, camel = camel_name k\<rparr>"

lemma small_number_text:
  assumes "n < 2 ^ 31"
  shows "length (fmt_d (int n)) \<le> 11 \<and> CHR 0x00 \<notin> set (fmt_d (int n))"
  using length_fmt_int [of "int n"] digits_no_nul [of 10 n] assms by (simp add: fmt_d_def)

lemma camel_init_all:
  "\<forall>k \<in> set ks. alloc k \<and> Suc k < 2 ^ 31 \<Longrightarrow> camel_init alloc ks l = Inr (0, map camel_at (rev ks) @ l)"
proof (induction ks arbitrary: l)
  case Nil
  then show ?case by simp
next
  case (Cons k ks)
  have n: "length (fmt_d (int k + 1)) \<le> 11 \<and> CHR 0x00 \<notin> set (fmt_d (int k + 1))"
    using small_number_text [of "Suc k"] Cons.prems by (simp add: add.commute)
  then have "length (camel_name k) < 20" "CHR 0x00 \<notin> set (camel_name k)"
    by (simp_all add: camel_name_def)
  moreover from this obtain buf where buf: "sprintf_at 0 (camel_name k) (replicate 20 CHR 0x00) = Inr buf"
    by (simp add: sprintf_at_def)
  ultimately have "c_text buf = camel_name k" by (intro c_text_sprintf)
  with buf Cons show ?case by (simp add: camel_at_def)
qed

lemma camel_free_all: "camel_free l l = (map (camel_line ''Camels (exit): '') l, [])"
  by (induction l) simp_all

text \<open>When every allocation succeeds the five camels stand at the gates 11 to 15, the last one first, and unloading
  says so of each in that order and leaves the list empty. When the third allocation fails, two camels stay on the list
  of a module that was not loaded.\<close>

theorem camel_life:
  "camel_init (\<lambda>_. True) [0..<5] [] = Inr (0, map camel_at [4, 3, 2, 1, 0]) \<and>
   camel_exit (map camel_at [4, 3, 2, 1, 0]) =
     (False, map (camel_line ''Camels (exit): '' \<circ> camel_at) [4, 3, 2, 1, 0], True) \<and>
   camel_init (\<lambda>k. k \<noteq> 2) [0, 1, 2] [] = Inr (- ENOMEM, map camel_at [1, 0])"
proof (intro conjI)
  show "camel_init (\<lambda>_. True) [0..<5] [] = Inr (0, map camel_at [4, 3, 2, 1, 0])"
  proof -
    have "rev [0..<5] = [4, 3, 2, 1, 0 :: nat]" by code_simp
    with camel_init_all [of "[0..<5]" "\<lambda>_. True" "[]"] show ?thesis by simp
  qed
  show "camel_exit (map camel_at [4, 3, 2, 1, 0]) =
      (False, map (camel_line ''Camels (exit): '' \<circ> camel_at) [4, 3, 2, 1, 0], True)"
    using camel_free_all [of "map camel_at [4, 3, 2, 1, 0]"] by (simp add: camel_exit_def)
  have "camel_init alloc (ks @ ms) l =
      (case camel_init alloc ks l of Inl f \<Rightarrow> Inl f | Inr (r, l) \<Rightarrow> if r = 0 then camel_init alloc ms l else Inr (r, l))"
    for alloc ks ms l by (induction ks arbitrary: l) (auto split: sum.splits)
  from this [of "\<lambda>k. k \<noteq> 2" "[0, 1]" "[2]" "[]"] camel_init_all [of "[0, 1]" "\<lambda>k. k \<noteq> 2" "[]"]
  show "camel_init (\<lambda>k. k \<noteq> 2) [0, 1, 2] [] = Inr (- ENOMEM, map camel_at [1, 0])" by simp
qed

text \<open>
  \<open>linked.c\<close> is a fragment: the number of entries and the function applied to each number are parameters. The
  allocations are not tested.
\<close>

(* src: facilities/linked.c:13-17 my_entry *)
record my_entry =
  me_int :: int
  me_str :: string

definition my_name :: "nat \<Rightarrow> string" where
  "my_name j = ''My_'' @ fmt_d (int j + 1)"

(* src: facilities/linked.c:19-29 mylist_init *)
fun mylist_init :: "(nat \<Rightarrow> bool) \<Rightarrow> nat list \<Rightarrow> my_entry list \<Rightarrow> my_entry list kresult" where
  "mylist_init alloc [] l = Inr l"
| "mylist_init alloc (j # js) l =
     (if \<not> alloc j then Inl NullDeref
      else case sprintf_at 0 (my_name j) (replicate 20 CHR 0x00) of
        Inl f \<Rightarrow> Inl f
      | Inr buf \<Rightarrow> mylist_init alloc js (\<lparr>me_int = int j, me_str = c_text buf\<rparr> # l))"

(* src: facilities/linked.c:31-45 walk_list *)
definition walk_list :: "(int \<Rightarrow> int) \<Rightarrow> my_entry list \<Rightarrow> int \<times> my_entry list" where
  "walk_list foobar l =
     (if l = [] then (0, [])
      else (int (length l), map (\<lambda>me. me\<lparr>me_int := foobar (me_int me)\<rparr>) l))"

text \<open>A walk over the list that was built applies the function to each number once and counts them.\<close>

theorem mylist_walk:
  assumes "NENTRY < 2 ^ 31"
  shows "\<exists>l. mylist_init (\<lambda>_. True) [0..<NENTRY] [] = Inr l \<and>
     walk_list foobar l =
       (int NENTRY, map (\<lambda>j. \<lparr>me_int = foobar (int j), me_str = my_name j\<rparr>) (rev [0..<NENTRY]))"
proof -
  have "\<forall>j \<in> set js. Suc j < 2 ^ 31 + 1 \<Longrightarrow>
      mylist_init (\<lambda>_. True) js l = Inr (map (\<lambda>j. \<lparr>me_int = int j, me_str = my_name j\<rparr>) (rev js) @ l)" for js l
  proof (induction js arbitrary: l)
    case Nil
    then show ?case by simp
  next
    case (Cons j js)
    have "length (digits 10 (Suc j)) \<le> 10" using Cons.prems by (intro length_digits) simp_all
    then have "length (my_name j) < 20" "CHR 0x00 \<notin> set (my_name j)"
      using digits_no_nul [of 10 "Suc j"] by (simp_all add: my_name_def fmt_d_def nat_add_distrib)
    moreover from this obtain buf where buf: "sprintf_at 0 (my_name j) (replicate 20 CHR 0x00) = Inr buf"
      by (simp add: sprintf_at_def)
    ultimately have "c_text buf = my_name j" by (intro c_text_sprintf)
    with buf Cons show ?case by simp
  qed
  from this [of "[0..<NENTRY]" "[]"] assms show ?thesis by (auto simp: walk_list_def rev_map)
qed

theorem mylist_walk_witness:
  "\<exists>l. mylist_init (\<lambda>_. True) [0..<3] [] = Inr l \<and> fst (walk_list (\<lambda>i. i + 1) l) = 3"
  using mylist_walk [of 3 "\<lambda>i. i + 1"] by force

section \<open>Walking the list of modules\<close>

text \<open>
  The kernel keeps its modules on a circular list whose head is no module. \<open>ring\<close> lists the circle from the
  module's own entry on, in the direction of \<open>next\<close>; so its last element is the entry before. The walk takes that
  one for the head: it starts behind it, at the module, and stops when it is back.
\<close>

datatype mod_node = ListHead | Mod string c_uint

definition taint_line :: "string \<Rightarrow> nat \<Rightarrow> string \<Rightarrow> c_uint \<Rightarrow> string" where
  "taint_line end_of j name taints =
     pad 3 (fmt_d (int j)) @ '' MOD:'' @ pad 20 name @ '', taints = '' @ fmt_d (uint taints) @ end_of"

fun taint_walk :: "string \<Rightarrow> nat \<Rightarrow> mod_node list \<Rightarrow> string list kresult" where
  "taint_walk e j [] = Inr []"
| "taint_walk e j (ListHead # ms) = Inl OutOfBounds"
| "taint_walk e j (Mod name taints # ms) =
     (case taint_walk e (Suc j) ms of Inl f \<Rightarrow> Inl f | Inr out \<Rightarrow> Inr (taint_line e j name taints # out))"

(* src: facilities/lab2_taints.c:36-48 my_init *)
definition taints_init :: "mod_node list \<Rightarrow> string list kresult" where
  "taints_init ring = taint_walk [] 0 (butlast ring)"

text \<open>The copy in \<open>src/data\<close> has a letter behind its conversion, which is printed.\<close>

(* src: data/lab5_data_taints.c:14-26 datadrv_init *)
definition data_taints_init :: "mod_node list \<Rightarrow> string list kresult" where
  "data_taints_init ring =
     (case taint_walk ''l'' 0 (butlast ring) of Inl f \<Rightarrow> Inl f | Inr out \<Rightarrow> Inr (map ((@) ''DataDrv: '') out))"

lemma taint_walk_mods:
  "taint_walk e j (map (\<lambda>(n, t). Mod n t) ms) = Inr (map (\<lambda>(i, n, t). taint_line e i n t) (enumerate j ms))"
  by (induction ms arbitrary: j) auto

lemma taint_walk_head: "ListHead \<in> set ns \<Longrightarrow> taint_walk e j ns = Inl OutOfBounds"
  by (induction ns arbitrary: j rule: list.induct) (auto split: sum.splits mod_node.splits, (case_tac x1; auto)+)

text \<open>The walk lists every module once, numbered from 0, when the module is the one loaded last, so that the entry before
  it is the head. When another module was put on the list meanwhile, that one is taken for the head and left
  out, and the head is printed as if it were a module.\<close>

theorem taints_list_modules:
  "taints_init (map (\<lambda>(n, t). Mod n t) ms @ [ListHead]) = Inr (map (\<lambda>(i, n, t). taint_line [] i n t) (enumerate 0 ms)) \<and>
   taints_init (map (\<lambda>(n, t). Mod n t) ms @ [ListHead] @ [newer]) = Inl OutOfBounds"
  by (simp add: taints_init_def taint_walk_mods taint_walk_head butlast_append)

section \<open>The structure around a member\<close>

text \<open>Addresses of the structure's members: \<open>b\<close>, then \<open>z\<close> with its one member, then \<open>c\<close>, four bytes each.\<close>

(* src: data/lab2_data_container_of.c:16-24 test1, test2 *)
definition offset_z :: "64 word" where
  "offset_z = 4"

definition container_of :: "64 word \<Rightarrow> 64 word \<Rightarrow> 64 word" where
  "container_of p offset = p - offset"

text \<open>What is printed of the structure that is found; the memory maps the addresses of the \<open>int\<close>s.\<close>

(* src: data/lab2_data_container_of.c:26-51 datadrv_init *)
definition container_init :: "64 word \<Rightarrow> int \<times> int option" where
  "container_init p =
     (if p = 0 then (-1, None)
      else
        let mem = Map.empty(p + offset_z \<mapsto> 25, p \<mapsto> 35, p + offset_z + 4 \<mapsto> 45);
            obj1 = p + offset_z;
            obj2 = container_of obj1 offset_z
        in (0, mem obj2))"

lemma container_init_finds: "p \<noteq> 0 \<Longrightarrow> container_init p = (0, Some 35)"
  by (simp add: container_init_def container_of_def offset_z_def Let_def)

section \<open>The listing of network devices\<close>

(* src: network/lab2_devices.c:37-41 printit *)
definition netdev_line :: "string \<times> c_int \<Rightarrow> string" where
  "netdev_line dev = (case dev of (name, irq) \<Rightarrow> ''name = '' @ pad 6 name @ '' irq='' @ pad 4 (fmt_d (sint irq)))"

(* src: network/lab2_devices.c:43-60 my_init *)
definition devices_init :: "(string \<times> c_int) list \<Rightarrow> int \<times> string list" where
  "devices_init devs = (0, map netdev_line devs)"

section \<open>Notifiers of the CPU frequency\<close>

datatype cpufreq_event =
    CPUFREQ_PRECHANGE | CPUFREQ_POSTCHANGE | CPUFREQ_RESUMECHANGE | CPUFREQ_SUSPENDCHANGE
  | CPUFREQ_ADJUST | CPUFREQ_INCOMPATIBLE | CPUFREQ_NOTIFY | OtherChange

text \<open>
  The line that names the event; the two lists of events have numbers in common, so each callback is called with
  the events of its own list, or others. Then come the numbers of the structure.
\<close>

(* src: misc/s_32/lab1_cpufreq.c:31-58 my_transition_notifier_call *)
definition transition_call :: "cpufreq_event \<Rightarrow> c_int \<times> c_int \<times> c_int \<times> c_int \<Rightarrow> string list" where
  "transition_call event cf =
     (case cf of (cpu, old, new, flags) \<Rightarrow>
       [case event of
          CPUFREQ_PRECHANGE \<Rightarrow> ''event=CPUFREQ_PRECHANGE''
        | CPUFREQ_POSTCHANGE \<Rightarrow> ''event=CPUFREQ_POSTCHANGE''
        | CPUFREQ_RESUMECHANGE \<Rightarrow> ''event=CPUFREQ_RESUMECHANGE''
        | CPUFREQ_SUSPENDCHANGE \<Rightarrow> ''event=CPUFREQ_SUSPENDCHANGE''
        | _ \<Rightarrow> ''Receiving an unknown CPUFREQ TRANSITION event'',
        ''       cpu='' @ fmt_d (sint cpu) @ '', old='' @ fmt_d (sint old) @ '', new='' @ fmt_d (sint new) @
          '', flags='' @ fmt_d (sint flags)])"

(* src: misc/s_32/lab1_cpufreq.c:60-82 my_policy_notifier_call *)
definition policy_call :: "cpufreq_event \<Rightarrow> c_int \<times> c_int \<times> c_int \<times> c_int \<times> c_int \<Rightarrow> string list" where
  "policy_call event cp =
     (case cp of (cpu, min_freq, max_freq, cur, pol) \<Rightarrow>
       [case event of
          CPUFREQ_ADJUST \<Rightarrow> ''event=CPUFREQ_ADJUST''
        | CPUFREQ_INCOMPATIBLE \<Rightarrow> ''event=CPUFREQ_INCOMPATIBLE''
        | CPUFREQ_NOTIFY \<Rightarrow> ''event=CPUFREQ_NOTIFY''
        | _ \<Rightarrow> ''Receiving an unknown CPUFREQ POLICY event'',
        ''      cpu='' @ fmt_d (sint cpu) @ '', min='' @ fmt_d (sint min_freq) @ '', max='' @ fmt_d (sint max_freq) @
          '', cur='' @ fmt_d (sint cur) @ '', policy='' @ fmt_d (sint pol)])"

datatype cpufreq_block = TransitionBlock | PolicyBlock

text \<open>The registrations are not tested; one that failed is not held.\<close>

(* src: misc/s_32/lab1_cpufreq.c:94-102 my_init *)
definition cpufreq_init :: "bool \<times> bool \<Rightarrow> cpufreq_block ledger \<Rightarrow> int \<times> cpufreq_block ledger" where
  "cpufreq_init ok k =
     (let k = (if fst ok then acquire TransitionBlock k else k);
          k = (if snd ok then acquire PolicyBlock k else k)
      in (0, k))"

(* src: misc/s_32/lab1_cpufreq.c:104-111 my_exit *)
definition cpufreq_exit :: "cpufreq_block ledger \<Rightarrow> cpufreq_block ledger" where
  "cpufreq_exit k = release PolicyBlock (release TransitionBlock k)"

lemma cpufreq_life:
  "cpufreq_exit (snd (cpufreq_init ok empty_ledger)) =
     \<lparr>held = [], faults = (if snd ok then [] else [PolicyBlock]) @ (if fst ok then [] else [TransitionBlock])\<rparr>"
  by (cases ok) (auto simp: cpufreq_exit_def cpufreq_init_def acquire_def release_def empty_ledger_def)

section \<open>The mapping that checks nothing\<close>

text \<open>
  \<open>mycdrv_mmap\<close> takes the page number of the program for a page of physical memory. The area's physical
  address is that page's; the physical memory is the machine's.
\<close>

(* src: io/mmapdrv.c:20-30 mycdrv_mmap *)
definition phys_mmap :: "bool \<Rightarrow> vma \<Rightarrow> mapping list \<Rightarrow> int \<times> mapping list" where
  "phys_mmap remap_ok vma ms =
     (let (rc, ms') = remap_pfn_range remap_ok (vm_start vma) (vm_pgoff vma) (vm_end vma - vm_start vma) ms
      in if rc \<noteq> 0 then (- EAGAIN, ms) else (0, ms'))"

text \<open>Through one page of its own a program reaches any byte of the machine's memory: for every physical address
  there is a request the driver grants and an address in the page that shows it. The checked
  driver of \<open>lab3_mmap.c\<close> refuses the request unless the page lies in its buffer.\<close>

theorem phys_mmap_reaches_all:
  assumes "p < 2 ^ 64" and "a < 2 ^ 63"
  shows "\<exists>v. v = \<lparr>vm_start = a, vm_end = a + 4096, vm_pgoff = of_nat (p div 4096)\<rparr> \<and>
     fst (phys_mmap True v ms) = 0 \<and>
     phys_of (a + of_nat (p mod 4096)) (snd (phys_mmap True v ms)) = Some (of_nat p) \<and>
     (unat membuff_size \<le> p - p mod 4096 \<longrightarrow> fst (chrdrv_mmap True v d) = - EINVAL)"
proof -
  let ?off = "of_nat (p mod 4096) :: 64 word"
  let ?v = "\<lparr>vm_start = a, vm_end = a + 4096, vm_pgoff = of_nat (p div 4096)\<rparr>"
  have o: "unat ?off = p mod 4096" by (simp only: unsigned_of_nat) (simp add: take_bit_nat_eq_self)
  have "p div 4096 < 2 ^ 64" using assms(1) by (simp add: less_mult_imp_div_less)
  then have q: "unat (of_nat (p div 4096) :: 64 word) = p div 4096"
    by (simp only: unsigned_of_nat) (simp add: take_bit_nat_eq_self)
  have a: "unat a < 2 ^ 63" using assms(2) by (simp add: word_less_nat_alt)
  have s: "unat (a + ?off) = unat a + p mod 4096"
    using a o by (subst unat_add_lem [THEN iffD1]) simp_all
  have e: "unat (a + 4096) = unat a + 4096"
    using a by (subst unat_add_lem [THEN iffD1]) simp_all
  have m: "phys_mmap True ?v ms = (0, \<lparr>at_start = a, at_end = a + 4096, at_pfn = of_nat (p div 4096)\<rparr> # ms)"
    by (simp add: phys_mmap_def remap_pfn_range_def)
  have "push_bit 12 (of_nat (p div 4096)) + ?off = of_nat (p div 4096) * of_nat 4096 + ?off"
    by (simp add: push_bit_eq_mult)
  also have "\<dots> = of_nat (p div 4096 * 4096 + p mod 4096)" by (simp only: of_nat_add of_nat_mult)
  also have "\<dots> = of_nat p" by (simp only: div_mult_mod_eq)
  finally have "phys_of (a + ?off) (snd (phys_mmap True ?v ms)) = Some (of_nat p)"
    using s e by (simp add: m phys_of_def in_mapping_def word_le_nat_alt word_less_nat_alt)
  moreover have "fst (chrdrv_mmap True ?v d) = - EINVAL" if "unat membuff_size \<le> p - p mod 4096"
  proof -
    have "p div 4096 * 4096 < 2 ^ 64"
      using assms(1) div_mult_mod_eq [of p 4096] by linarith
    then have "unat (of_nat (p div 4096) * 4096 :: 64 word) = p div 4096 * 4096"
      using q by (subst unat_mult_lem [THEN iffD1]) simp_all
    then have "unat (vma_offset ?v) = p div 4096 * 4096"
      by (simp add: vma_offset_def push_bit_eq_mult)
    with that have "membuff_size \<le> vma_offset ?v"
      by (simp add: word_le_nat_alt minus_mod_eq_div_mult)
    then show ?thesis by (simp add: chrdrv_mmap_def Let_def)
  qed
  ultimately show ?thesis by (simp add: m)
qed

theorem phys_mmap_reaches_all_witness:
  "\<exists>v. phys_of (8192 + 1) (snd (phys_mmap True v [])) = Some 1048577"
  using phys_mmap_reaches_all [of 1048577 8192 "[]"] by auto

end
