(* ===== verification/Ramdisk_Io.thy ===== *)
theory Ramdisk_Io
  imports Lab_Char Mmap
begin

text \<open>
  Two labs of \<open>src/dma\<close> over the generic RAM disk: a mapping of the disk (\<open>lab3_mmap.c\<close>) and the asynchronous entry
  points that hand a vectored request to the generic handlers (\<open>lab6_aio.c\<close>). Shown: the mapping and the file are
  two views of the disk; a vectored request is done as if it were its first segment. At the beginning
  are the handlers of \<open>src/ioctl/lab_miscdev.h\<close>, the header the labs include, which are those of \<open>lab_char.h\<close>.
\<close>

section \<open>The handlers of the miscellaneous device\<close>

(* src: ioctl/lab_miscdev.h:32-45 mycdrv_generic_open *)
definition misc_open :: "labdev \<Rightarrow> int \<times> labdev" where
  "misc_open = mycdrv_generic_open"

(* src: ioctl/lab_miscdev.h:47-51 mycdrv_generic_release *)
definition misc_release :: "labdev \<Rightarrow> int \<times> labdev" where
  "misc_release = mycdrv_generic_release"

(* src: ioctl/lab_miscdev.h:53-68 mycdrv_generic_read *)
definition misc_read :: "size_t \<Rightarrow> loff_t \<Rightarrow> size_t \<Rightarrow> labdev \<Rightarrow> (int \<times> byte list \<times> loff_t) kresult" where
  "misc_read = mycdrv_generic_read"

(* src: ioctl/lab_miscdev.h:70-85 mycdrv_generic_write *)
definition misc_write ::
    "byte list \<Rightarrow> size_t \<Rightarrow> loff_t \<Rightarrow> size_t \<Rightarrow> labdev \<Rightarrow> (int \<times> labdev \<times> loff_t) kresult" where
  "misc_write = mycdrv_generic_write"

(* src: ioctl/lab_miscdev.h:87-109 mycdrv_generic_lseek *)
definition misc_lseek :: "loff_t \<Rightarrow> int \<Rightarrow> loff_t \<Rightarrow> int \<times> loff_t" where
  "misc_lseek = mycdrv_generic_lseek"

lemmas misc_as_lab = misc_open_def misc_release_def misc_read_def misc_write_def misc_lseek_def

section \<open>The mapped disk\<close>

text \<open>The disk with the physical address it lies at and the mappings that are in place, the newest first.\<close>

record ramdisk_map =
  disk :: labdev
  disk_phys :: "64 word"
  disk_maps :: "mapping list"

(* src: dma/lab3_mmap.c:36-59 mycdrv_mmap *)
definition mycdrv_mmap :: "bool \<Rightarrow> vma \<Rightarrow> ramdisk_map \<Rightarrow> int \<times> ramdisk_map" where
  "mycdrv_mmap remap_ok vma s =
     (let offset = vma_offset vma; len = vma_len vma
      in if ramdisk_size \<le> offset then (- EINVAL, s)
         else if ramdisk_size - offset < len then (- EINVAL, s)
         else let pfn = drop_bit 12 (disk_phys s + offset);
                  (rc, ms) = remap_pfn_range remap_ok (vm_start vma) pfn len (disk_maps s)
              in if rc \<noteq> 0 then (- EAGAIN, s) else (0, s\<lparr>disk_maps := ms\<rparr>))"

(* src: dma/lab3_mmap.c:61-79 mycdrv_unlocked_ioctl *)
definition mycdrv_size_ioctl :: "c_uint \<Rightarrow> size_t \<Rightarrow> int \<times> byte list" where
  "mycdrv_size_ioctl cmd uleft =
     (let tbs = le_bytes 8 ramdisk_size
      in if cmd = 1 then (if uleft \<noteq> 0 then (- EFAULT, copied_out 8 uleft tbs) else (0, tbs))
         else (- EINVAL, []))"

text \<open>A program's load and store at an address; outside every mapping they are not the driver's.\<close>

definition area_load :: "64 word \<Rightarrow> ramdisk_map \<Rightarrow> byte kresult option" where
  "area_load a s = map_option (phys_load (disk_phys s) (ramdisk (disk s))) (phys_of a (disk_maps s))"

definition area_store :: "64 word \<Rightarrow> byte \<Rightarrow> ramdisk_map \<Rightarrow> ramdisk_map kresult option" where
  "area_store a b s =
     map_option (\<lambda>pa. case phys_store (disk_phys s) (ramdisk (disk s)) pa b of
       Inl f \<Rightarrow> Inl f | Inr m \<Rightarrow> Inr (s\<lparr>disk := (disk s)\<lparr>ramdisk := m\<rparr>\<rparr>)) (phys_of a (disk_maps s))"

definition area_ok :: "vma \<Rightarrow> bool" where
  "area_ok v \<longleftrightarrow> unat (vma_offset v) + unat (vma_len v) \<le> 65536"

definition ramdisk_map_ok :: "ramdisk_map \<Rightarrow> bool" where
  "ramdisk_map_ok s \<longleftrightarrow> (\<exists>m. lab_holds (disk s) m) \<and> page_start (disk_phys s) \<and>
     (\<forall>m \<in> set (disk_maps s). mapping_inside (disk_phys s) 65536 m)"

lemma mycdrv_mmap_cases:
  "mycdrv_mmap remap_ok v s =
     (if unat (vma_offset v) < 65536 \<and> area_ok v
      then (if remap_ok then (0, s\<lparr>disk_maps := mapping_of (disk_phys s) v # disk_maps s\<rparr>) else (- EAGAIN, s))
      else (- EINVAL, s))"
  using window_checks [of 65536 "vma_offset v" "vma_len v"]
  by (auto simp: mycdrv_mmap_def Let_def area_ok_def remap_pfn_range_def mapping_of_def)

lemma mycdrv_mmap_keeps: "ramdisk_map_ok s \<Longrightarrow> ramdisk_map_ok (snd (mycdrv_mmap remap_ok v s))"
  using mapping_of_inside [of "disk_phys s" 65536 v]
  by (auto simp: mycdrv_mmap_cases ramdisk_map_ok_def area_ok_def)

text \<open>The calls on the mapped disk: every one keeps the invariant, and none faults.\<close>

datatype map_call =
    MapArea bool vma
  | LoadAt "64 word"
  | StoreAt "64 word" byte
  | DiskRead size_t loff_t
  | DiskWrite "byte list" size_t loff_t

fun map_do :: "map_call \<Rightarrow> ramdisk_map \<Rightarrow> ramdisk_map kresult" where
  "map_do (MapArea ok v) s = Inr (snd (mycdrv_mmap ok v s))"
| "map_do (LoadAt a) s = (case area_load a s of Some (Inl f) \<Rightarrow> Inl f | _ \<Rightarrow> Inr s)"
| "map_do (StoreAt a b) s = (case area_store a b s of None \<Rightarrow> Inr s | Some r \<Rightarrow> r)"
| "map_do (DiskRead n p) s = (case misc_read n p 0 (disk s) of Inl f \<Rightarrow> Inl f | Inr _ \<Rightarrow> Inr s)"
| "map_do (DiskWrite bs n p) s =
     (case misc_write bs n p 0 (disk s) of Inl f \<Rightarrow> Inl f | Inr (r, d, q) \<Rightarrow> Inr (s\<lparr>disk := d\<rparr>))"

fun map_calls :: "map_call list \<Rightarrow> ramdisk_map \<Rightarrow> ramdisk_map kresult" where
  "map_calls [] s = Inr s"
| "map_calls (c # cs) s = (case map_do c s of Inl f \<Rightarrow> Inl f | Inr s \<Rightarrow> map_calls cs s)"

fun map_call_ok :: "map_call \<Rightarrow> bool" where
  "map_call_ok (DiskRead n p) \<longleftrightarrow> vfs_rw_ok n p \<and> unat p \<le> 65536"
| "map_call_ok (DiskWrite bs n p) \<longleftrightarrow> vfs_rw_ok n p \<and> unat p \<le> 65536 \<and> length bs = unat n"
| "map_call_ok _ \<longleftrightarrow> True"

lemma map_do_ok:
  assumes "ramdisk_map_ok s" and "map_call_ok c"
  shows "\<exists>t. map_do c s = Inr t \<and> ramdisk_map_ok t"
proof -
  obtain m where m: "lab_holds (disk s) m" and vs: "page_start (disk_phys s)"
      "\<forall>m \<in> set (disk_maps s). mapping_inside (disk_phys s) 65536 m"
    using assms(1) by (auto simp: ramdisk_map_ok_def)
  have inside: "unat (pa - disk_phys s) < length m" if "phys_of a (disk_maps s) = Some pa" for a pa
    using phys_of_inside [OF vs(2) that] m by (simp add: lab_holds_def)
  show ?thesis
  proof (cases c)
    case (MapArea ok v)
    then show ?thesis using mycdrv_mmap_keeps [OF assms(1)] by simp
  next
    case (LoadAt a)
    then show ?thesis using assms(1) inside m
      by (auto simp: area_load_def phys_load_def lab_holds_def split: option.splits)
  next
    case (StoreAt a b)
    show ?thesis
    proof (cases "phys_of a (disk_maps s)")
      case None
      then show ?thesis using StoreAt assms(1) by (simp add: area_store_def)
    next
      case (Some pa)
      then show ?thesis using StoreAt inside [OF Some] m vs
        by (auto simp: area_store_def phys_store_def lab_holds_def ramdisk_map_ok_def)
    qed
  next
    case (DiskRead n p)
    then show ?thesis using assms lab_read_data [OF m, of n p 0] by (simp add: misc_read_def)
  next
    case (DiskWrite bs n p)
    then have w: "vfs_rw_ok n p" "unat p \<le> 65536" "length bs = unat n" using assms(2) by simp_all
    have "length (put_range (unat p) (take (lab_moved n p) bs) m) = 65536"
      using m w by (simp add: length_put_range lab_holds_def lab_moved_def)
    then show ?thesis using DiskWrite w vs lab_write_data [OF m w(1,2), of 0 bs]
      by (simp add: misc_write_def ramdisk_map_ok_def lab_holds_def)
  qed
qed

text \<open>No mapping leaves the disk. After any sequence of requests for mappings, accesses through the mapped areas and
  reads and writes at positions on the disk, no access has faulted, and every mapping shows a part of the disk.\<close>

theorem ramdisk_map_safe:
  assumes "ramdisk_map_ok s" and "list_all map_call_ok cs"
  shows "\<exists>t. map_calls cs s = Inr t \<and> ramdisk_map_ok t"
  using assms
proof (induction cs arbitrary: s)
  case Nil
  then show ?case by simp
next
  case (Cons c cs)
  then obtain t where "map_do c s = Inr t" and "ramdisk_map_ok t" using map_do_ok [of s c] by auto
  with Cons show ?case by simp
qed

definition sample_map :: ramdisk_map where
  "sample_map = \<lparr>disk = sample_lab, disk_phys = 0x20000, disk_maps = []\<rparr>"

lemma sample_map_ok: "ramdisk_map_ok sample_map"
  using sample_lab_holds by (auto simp: sample_map_def ramdisk_map_ok_def page_start_def take_bit_eq_mod)

theorem ramdisk_map_safe_witness:
  "\<exists>t. map_calls [MapArea True \<lparr>vm_start = 4096, vm_end = 8192, vm_pgoff = 15\<rparr>, StoreAt 8191 5, DiskRead 1 65535]
     sample_map = Inr t \<and> ramdisk_map_ok t"
  by (rule ramdisk_map_safe [OF sample_map_ok]) (simp add: vfs_rw_ok_def)

text \<open>The mapping and the file are two views of the disk: at an address of an area that has just been mapped a load
  gives what a read of one byte gives at the area's offset plus the distance of the address from its start, and a
  store there is what that read gives next.\<close>

theorem ramdisk_map_shares:
  assumes "ramdisk_map_ok s" and "mycdrv_mmap True v s = (0, s1)" and "in_vma a v"
    and "p = push_bit 12 (vm_pgoff v) + (a - vm_start v)"
  shows "(\<exists>c. area_load a s1 = Some (Inr c) \<and> misc_read 1 p 0 (disk s1) = Inr (1, [c], p + 1))
    \<and> (\<exists>t. area_store a b s1 = Some (Inr t) \<and> misc_read 1 p 0 (disk t) = Inr (1, [b], p + 1))"
proof -
  let ?i = "vma_index a v"
  have s1: "s1 = s\<lparr>disk_maps := mapping_of (disk_phys s) v # disk_maps s\<rparr>"
    and fits: "unat (vma_offset v) + unat (vma_len v) \<le> 65536"
    using assms(2) by (auto simp: mycdrv_mmap_cases area_ok_def split: if_splits)
  obtain m where m: "lab_holds (disk s1) m" using assms(1) s1 by (auto simp: ramdisk_map_ok_def)
  have page: "page_start (disk_phys s)" using assms(1) by (simp add: ramdisk_map_ok_def)
  note at = mapping_of_index [OF page assms(3) fits]
  have i: "?i < 65536" using at by simp
  obtain pa where pa: "phys_of a (disk_maps s1) = Some pa" and pi: "unat (pa - disk_phys s1) = ?i"
    using phys_of_newest [OF assms(3)] at s1 by simp
  have p: "unat p = ?i"
    using i unfolding assms(4) vma_index_def vma_offset_def by (intro unat_add_lem [THEN iffD1]) simp
  have v: "vfs_rw_ok 1 p"
    using i p sint_small_64 [of p] by (simp add: vfs_rw_ok_def)
  have one: "misc_read 1 p 0 d = Inr (1, [m' ! ?i], p + 1)" if "lab_holds d m'" for d m'
  proof -
    have "lab_moved 1 p = 1" using i p by (simp add: lab_moved_def)
    moreover have "get_range ?i 1 m' = [m' ! ?i]"
      using that i by (simp add: lab_holds_def get_range_def take_Suc_conv_app_nth Cons_nth_drop_Suc [symmetric])
    ultimately show ?thesis
      using lab_read_data [OF that v, of 0] i p by (simp add: misc_read_def)
  qed
  let ?t = "s1\<lparr>disk := (disk s1)\<lparr>ramdisk := Ptr (m[?i := b])\<rparr>\<rparr>"
  have t: "lab_holds (disk ?t) (m[?i := b])" using m by (simp add: lab_holds_def)
  have "area_store a b s1 = Some (Inr ?t)" and "area_load a s1 = Some (Inr (m ! ?i))"
    using pa pi m i unfolding area_store_def area_load_def phys_store_def phys_load_def lab_holds_def by simp_all
  then show ?thesis using one [OF m] one [OF t] m i by (simp add: lab_holds_def)
qed

theorem ramdisk_map_shares_witness:
  "\<exists>t. area_store 8191 5 (snd (mycdrv_mmap True \<lparr>vm_start = 4096, vm_end = 8192, vm_pgoff = 15\<rparr> sample_map)) =
       Some (Inr t) \<and> misc_read 1 65535 0 (disk t) = Inr (1, [5], 65536)"
proof -
  let ?v = "\<lparr>vm_start = 4096, vm_end = 8192, vm_pgoff = 15\<rparr> :: vma"
  have "mycdrv_mmap True ?v sample_map = (0, snd (mycdrv_mmap True ?v sample_map))"
    by (simp add: mycdrv_mmap_cases area_ok_def vma_offset_def vma_len_def)
  moreover have "in_vma 8191 ?v" by (simp add: in_vma_def)
  moreover have "65535 = push_bit 12 (vm_pgoff ?v) + (8191 - vm_start ?v)" by simp
  ultimately show ?thesis using ramdisk_map_shares [OF sample_map_ok, of ?v _ 8191 65535 5] by auto
qed

section \<open>Asynchronous entry points\<close>

text \<open>
  \<open>iov\<close> is the request's list of segments, of which only the one it points to is used; the position is the
  handler's own copy. Following a pointer to no segment is a fault.
\<close>

(* src: dma/lab6_aio.c:40-46 mycdrv_aio_read *)
definition mycdrv_aio_read :: "size_t list \<Rightarrow> loff_t \<Rightarrow> size_t \<Rightarrow> labdev \<Rightarrow> (int \<times> byte list) kresult" where
  "mycdrv_aio_read iov offset uleft d =
     (case iov of
        [] \<Rightarrow> Inl OutOfBounds
      | iov_len # _ \<Rightarrow>
          (case misc_read iov_len offset uleft d of Inl f \<Rightarrow> Inl f | Inr (r, out, pos) \<Rightarrow> Inr (r, out)))"

(* src: dma/lab6_aio.c:48-54 mycdrv_aio_write *)
definition mycdrv_aio_write :: "byte list list \<Rightarrow> loff_t \<Rightarrow> size_t \<Rightarrow> labdev \<Rightarrow> (int \<times> labdev) kresult" where
  "mycdrv_aio_write iov offset uleft d =
     (case iov of
        [] \<Rightarrow> Inl OutOfBounds
      | base # _ \<Rightarrow>
          (case misc_write base (of_nat (length base)) offset uleft d of
             Inl f \<Rightarrow> Inl f | Inr (r, d, pos) \<Rightarrow> Inr (r, d)))"

text \<open>A vectored request is done as if it were its first segment. A read of segments that fit gives the bytes of the
  first one, whatever the others are, so the rest of the request is missing from the result; what a write stores is read
  back in the same way.\<close>

theorem aio_first_segment:
  assumes "lab_holds d m" and "vfs_rw_ok n off" and "unat off + unat n + sum_list (map unat ns) \<le> 65536"
    and "length bs = unat n"
  shows "mycdrv_aio_read (n # ns) off 0 d =
      Inr (int (unat n), take (unat n) (get_range (unat off) (unat n + sum_list (map unat ns)) m))
    \<and> (\<exists>d'. mycdrv_aio_write (bs # bss) off 0 d = Inr (int (unat n), d') \<and>
        mycdrv_aio_read (n # ns) off 0 d' = Inr (int (unat n), bs))"
proof -
  have o: "unat off \<le> 65536" and k: "lab_moved n off = unat n"
    using assms(3) by (simp_all add: lab_moved_def)
  have n: "of_nat (length bs) = n" using assms(4) by simp
  have rd: "mycdrv_aio_read (n # ns) off 0 d' = Inr (int (unat n), get_range (unat off) (unat n) m')"
    if "lab_holds d' m'" for d' m'
    using lab_read_data [OF that assms(2) o, of 0] that assms(3)
    by (simp add: mycdrv_aio_read_def misc_read_def k get_range_def lab_holds_def min_def)
  let ?d = "d\<lparr>ramdisk := Ptr (put_range (unat off) bs m)\<rparr>"
  have w: "mycdrv_aio_write (bs # bss) off 0 d = Inr (int (unat n), ?d)"
    using lab_write_data [OF assms(1,2) o, of 0 bs] assms(4)
    by (simp add: mycdrv_aio_write_def misc_write_def k n)
  have h: "lab_holds ?d (put_range (unat off) bs m)"
    using assms(1,3,4) by (simp add: lab_holds_def length_put_range)
  have "get_range (unat off) (unat n) (put_range (unat off) bs m) = bs"
    using get_put_same [of "unat off" m bs] assms(1,3,4) by (simp add: lab_holds_def)
  with rd [OF h] have "mycdrv_aio_read (n # ns) off 0 ?d = Inr (int (unat n), bs)" by simp
  then show ?thesis
    using rd [OF assms(1)] w by (simp add: get_range_def min_def)
qed

theorem aio_first_segment_witness:
  "\<exists>d'. mycdrv_aio_write [[1, 2], [3]] 10 0 sample_lab = Inr (2, d') \<and>
     mycdrv_aio_read [2, 1] 10 0 d' = Inr (2, [1, 2])"
  using aio_first_segment [OF sample_lab_holds, of 2 10 "[1]" "[1, 2]" "[[3]]"] by (simp add: vfs_rw_ok_def)

end
