(* ===== verification/Irq_Unload.thy ===== *)
theory Irq_Unload
  imports Interfaces
begin

text \<open>
  Loading and unloading of the interrupt labs (\<open>src/interrupts\<close>), whose bottom halves may still be waiting when the module
  goes away. A module is its kind of bottom half and the steps of its \<open>init\<close> and \<open>exit\<close> functions, which
  interrupts and bottom halves interleave with. Shown: an executable check of the steps that holds exactly when no
  interleaving crashes, and its verdict on each of the labs.
\<close>

section \<open>Modules and their life\<close>

datatype bh_kind = NoBottom | StaticTasklet | StaticWork | OwnBottom | Threaded

text \<open>
  \<open>InitWork\<close> is \<open>INIT_WORK\<close> on the one structure the handler schedules. \<open>FreeIrq\<close> waits for a handler that runs, a
  threaded one included. \<open>KillBottom\<close> waits for what is scheduled (\<open>tasklet_kill\<close>, \<open>flush_work\<close>). \<open>FreeCounters\<close>
  gives back the memory that handler and bottom half count in. The device that shows the counters plays no part.
\<close>

datatype init_act = InitWork | RequestIrq

datatype exit_act = FreeIrq | KillBottom | FreeCounters

record irq_module =
  kind :: bh_kind
  init_acts :: "init_act list"
  exit_acts :: "exit_act list"

datatype life_phase = Loading "init_act list" | Loaded | Exiting "exit_act list" | Gone

record irq_life =
  phase :: life_phase
  line :: bool
  ready :: bool
  pending :: bool
  freed :: bool
  crashed :: bool

datatype life_label = Act bool | Interrupt | RunBottom | Unload

text \<open>A tasklet declared with \<open>DECLARE_TASKLET\<close>, a structure of the handler's own and a thread need no \<open>InitWork\<close>.\<close>

definition life_start :: "irq_module \<Rightarrow> irq_life" where
  "life_start m = \<lparr>phase = Loading (init_acts m), line = False, ready = (kind m \<noteq> StaticWork),
     pending = False, freed = False, crashed = False\<rparr>"

text \<open>An act of the module's functions; the argument is the answer to \<open>request_irq\<close>, whose failure ends the load.\<close>

fun life_act :: "bh_kind \<Rightarrow> bool \<Rightarrow> irq_life \<Rightarrow> irq_life option" where
  "life_act k ok s =
     (case phase s of
        Loading [] \<Rightarrow> Some (s\<lparr>phase := Loaded\<rparr>)
      | Loading (InitWork # p) \<Rightarrow> Some (s\<lparr>phase := Loading p, ready := True\<rparr>)
      | Loading (RequestIrq # p) \<Rightarrow> Some (if ok then s\<lparr>phase := Loading p, line := True\<rparr> else s\<lparr>phase := Gone\<rparr>)
      | Loaded \<Rightarrow> None
      | Exiting [] \<Rightarrow> Some (s\<lparr>phase := Gone\<rparr>)
      | Exiting (FreeIrq # p) \<Rightarrow>
          Some (s\<lparr>phase := Exiting p, line := False, pending := (pending s \<and> k \<noteq> Threaded)\<rparr>)
      | Exiting (KillBottom # p) \<Rightarrow> Some (s\<lparr>phase := Exiting p, pending := False\<rparr>)
      | Exiting (FreeCounters # p) \<Rightarrow> Some (s\<lparr>phase := Exiting p, freed := True\<rparr>)
      | Gone \<Rightarrow> None)"

text \<open>
  The handler and the bottom half need the module's code and its counters; a work item that was never initialised must not be
  scheduled.
\<close>

fun life_next :: "irq_module \<Rightarrow> life_label \<Rightarrow> irq_life \<Rightarrow> irq_life option" where
  "life_next m (Act ok) s = life_act (kind m) ok s"
| "life_next m Interrupt s =
     (if \<not> line s then None
      else Some (if phase s = Gone \<or> freed s then s\<lparr>crashed := True\<rparr>
                 else if kind m = NoBottom then s
                 else if ready s then s\<lparr>pending := True\<rparr> else s\<lparr>crashed := True\<rparr>))"
| "life_next m RunBottom s =
     (if \<not> pending s then None
      else Some (if phase s = Gone \<or> freed s then s\<lparr>pending := False, crashed := True\<rparr> else s\<lparr>pending := False\<rparr>))"
| "life_next m Unload s = (if phase s = Loaded then Some (s\<lparr>phase := Exiting (exit_acts m)\<rparr>) else None)"

section \<open>The check\<close>

text \<open>\<open>rd\<close>: the structure is ready; \<open>ln\<close>: the line is held; \<open>pd\<close>: a bottom half may be waiting.\<close>

fun init_safe :: "bh_kind \<Rightarrow> bool \<Rightarrow> bool \<Rightarrow> init_act list \<Rightarrow> bool" where
  "init_safe k rd ln [] \<longleftrightarrow> True"
| "init_safe k rd ln (InitWork # p) \<longleftrightarrow> init_safe k True ln p"
| "init_safe k rd ln (RequestIrq # p) \<longleftrightarrow> \<not> ln \<and> (rd \<or> k = NoBottom) \<and> init_safe k rd True p"

fun exit_safe :: "bh_kind \<Rightarrow> bool \<Rightarrow> bool \<Rightarrow> exit_act list \<Rightarrow> bool" where
  "exit_safe k ln pd [] \<longleftrightarrow> \<not> ln \<and> \<not> pd"
| "exit_safe k ln pd (FreeIrq # p) \<longleftrightarrow> exit_safe k False (pd \<and> k \<noteq> Threaded) p"
| "exit_safe k ln pd (KillBottom # p) \<longleftrightarrow> exit_safe k ln (pd \<and> ln) p"
| "exit_safe k ln pd (FreeCounters # p) \<longleftrightarrow> \<not> ln \<and> \<not> pd \<and> exit_safe k ln pd p"

definition module_ok :: "irq_module \<Rightarrow> bool" where
  "module_ok m \<longleftrightarrow>
     init_safe (kind m) (kind m \<noteq> StaticWork) False (init_acts m) \<and>
     (let ln = (RequestIrq \<in> set (init_acts m)) in exit_safe (kind m) ln (ln \<and> kind m \<noteq> NoBottom) (exit_acts m))"

section \<open>The check is sound\<close>

definition up_ok :: "irq_module \<Rightarrow> bool \<Rightarrow> irq_life \<Rightarrow> bool" where
  "up_ok m ln s \<longleftrightarrow> \<not> freed s \<and> (line s \<longrightarrow> ready s \<or> kind m = NoBottom) \<and>
     (pending s \<longrightarrow> line s \<and> kind m \<noteq> NoBottom) \<and> exit_safe (kind m) ln (ln \<and> kind m \<noteq> NoBottom) (exit_acts m)"

definition life_ok :: "irq_module \<Rightarrow> irq_life \<Rightarrow> bool" where
  "life_ok m s \<longleftrightarrow> \<not> crashed s \<and>
     (case phase s of
        Loading p \<Rightarrow> init_safe (kind m) (ready s) (line s) p \<and> up_ok m (line s \<or> RequestIrq \<in> set p) s
      | Loaded \<Rightarrow> up_ok m (line s) s
      | Exiting p \<Rightarrow> (line s \<longrightarrow> ready s \<or> kind m = NoBottom) \<and>
          (\<exists>pd. (pending s \<longrightarrow> pd) \<and> (line s \<and> kind m \<noteq> NoBottom \<longrightarrow> pd) \<and> (freed s \<longrightarrow> \<not> line s \<and> \<not> pd) \<and>
             exit_safe (kind m) (line s) pd p)
      | Gone \<Rightarrow> \<not> line s \<and> \<not> pending s)"

lemma life_ok_start: "module_ok m \<Longrightarrow> life_ok m (life_start m)"
  by (simp add: module_ok_def life_ok_def life_start_def up_ok_def Let_def)

lemma life_act_ok:
  assumes "life_ok m s" and "life_act (kind m) ok s = Some t"
  shows "life_ok m t"
proof (cases "phase s")
  case (Loading p)
  show ?thesis
  proof (cases p)
    case (Cons a q)
    with assms Loading show ?thesis
      by (cases a) (auto simp: life_ok_def up_ok_def split: if_splits)
  qed (use assms Loading in \<open>auto simp: life_ok_def up_ok_def\<close>)
next
  case (Exiting p)
  show ?thesis
  proof (cases p)
    case (Cons a q)
    with assms Exiting show ?thesis by (cases a) (auto simp: life_ok_def)
  qed (use assms Exiting in \<open>auto simp: life_ok_def\<close>)
qed (use assms in auto)

lemma life_next_ok:
  assumes "life_ok m s" and "life_next m l s = Some t"
  shows "life_ok m t"
proof (cases l)
  case (Act ok)
  with assms life_act_ok show ?thesis by simp
next
  case Interrupt
  with assms show ?thesis
    by (cases "phase s") (auto simp: life_ok_def up_ok_def split: if_splits)
next
  case RunBottom
  with assms show ?thesis
    by (cases "phase s") (auto simp: life_ok_def up_ok_def split: if_splits)
next
  case Unload
  then have "phase s = Loaded" and t: "t = s\<lparr>phase := Exiting (exit_acts m)\<rparr>"
    using assms(2) by (simp_all split: if_splits)
  with assms(1) have s: "\<not> crashed s" "up_ok m (line s) s" by (simp_all add: life_ok_def)
  let ?pd = "line s \<and> kind m \<noteq> NoBottom"
  have "(pending s \<longrightarrow> ?pd) \<and> (line s \<and> kind m \<noteq> NoBottom \<longrightarrow> ?pd) \<and> (freed s \<longrightarrow> \<not> line s \<and> \<not> ?pd) \<and>
      exit_safe (kind m) (line s) ?pd (exit_acts m)"
    using s(2) by (simp add: up_ok_def)
  then have "\<exists>pd. (pending s \<longrightarrow> pd) \<and> (line s \<and> kind m \<noteq> NoBottom \<longrightarrow> pd) \<and> (freed s \<longrightarrow> \<not> line s \<and> \<not> pd) \<and>
      exit_safe (kind m) (line s) pd (exit_acts m)" by (rule exI)
  moreover have "line s \<longrightarrow> ready s \<or> kind m = NoBottom" using s(2) by (simp add: up_ok_def)
  ultimately show ?thesis using s(1) unfolding life_ok_def t by simp
qed

definition life_step :: "irq_module \<Rightarrow> irq_life \<Rightarrow> life_label \<Rightarrow> irq_life \<Rightarrow> bool" where
  "life_step m s l t \<longleftrightarrow> life_next m l s = Some t"

interpretation checked_life: invariant_system "\<lambda>s. module_ok m \<and> s = life_start m" "life_step m" "life_ok m"
  for m
  by unfold_locales (auto simp: life_step_def intro: life_ok_start life_next_ok)

section \<open>The check is complete\<close>

definition never_crashes :: "irq_module \<Rightarrow> bool" where
  "never_crashes m \<longleftrightarrow> (\<forall>ls s. run (life_step m) (life_start m) ls s \<longrightarrow> \<not> crashed s)"

definition can_crash :: "irq_module \<Rightarrow> irq_life \<Rightarrow> bool" where
  "can_crash m s \<longleftrightarrow> (\<exists>ls t. run (life_step m) s ls t \<and> crashed t)"

lemma can_crash_now: "crashed s \<Longrightarrow> can_crash m s"
  unfolding can_crash_def by (blast intro: run.intros)

lemma can_crash_step: "life_next m l s = Some t \<Longrightarrow> can_crash m t \<Longrightarrow> can_crash m s"
  unfolding can_crash_def life_step_def [symmetric] by (blast intro: run.intros)

lemma crash_when_gone:
  assumes "line s \<or> pending s" and "phase s = Gone \<or> freed s"
  shows "can_crash m s"
proof (cases "line s")
  case True
  with assms(2) have "life_next m Interrupt s = Some (s\<lparr>crashed := True\<rparr>)" by simp
  then show ?thesis by (rule can_crash_step) (simp add: can_crash_now)
next
  case False
  with assms have "life_next m RunBottom s = Some (s\<lparr>pending := False, crashed := True\<rparr>)" by simp
  then show ?thesis by (rule can_crash_step) (simp add: can_crash_now)
qed

text \<open>An exit that fails the check has a run to a crash when what may be waiting does wait.\<close>

lemma exit_crash:
  "phase s = Exiting p \<Longrightarrow> line s \<longrightarrow> ready s \<or> kind m = NoBottom \<Longrightarrow> pending s \<longrightarrow> kind m \<noteq> NoBottom \<Longrightarrow>
   \<not> exit_safe (kind m) (line s) (pending s) p \<Longrightarrow> can_crash m s"
proof (induction p arbitrary: s)
  case Nil
  have "life_next m (Act True) s = Some (s\<lparr>phase := Gone\<rparr>)" using Nil.prems(1) by simp
  then show ?case by (rule can_crash_step) (use Nil.prems(4) in \<open>auto intro: crash_when_gone\<close>)
next
  case (Cons a p)
  show ?case
  proof (cases a)
    case FreeIrq
    let ?t = "s\<lparr>phase := Exiting p, line := False, pending := (pending s \<and> kind m \<noteq> Threaded)\<rparr>"
    have "life_next m (Act True) s = Some ?t" using Cons.prems(1) FreeIrq by simp
    then show ?thesis by (rule can_crash_step) (rule Cons.IH, use Cons.prems FreeIrq in auto)
  next
    case FreeCounters
    let ?t = "s\<lparr>phase := Exiting p, freed := True\<rparr>"
    have "life_next m (Act True) s = Some ?t" using Cons.prems(1) FreeCounters by simp
    moreover have "can_crash m ?t"
    proof (cases "line s \<or> pending s")
      case True
      then show ?thesis by (intro crash_when_gone) simp_all
    next
      case False
      with Cons.prems FreeCounters show ?thesis by (intro Cons.IH) auto
    qed
    ultimately show ?thesis by (rule can_crash_step)
  next
    case KillBottom
    let ?t = "s\<lparr>phase := Exiting p, pending := False\<rparr>"
    have n: "life_next m (Act True) s = Some ?t" using Cons.prems(1) KillBottom by simp
    have "can_crash m ?t"
    proof (cases "pending s \<and> line s")
      case True
      show ?thesis
      proof (cases "freed s")
        case True
        then show ?thesis using \<open>pending s \<and> line s\<close> by (intro crash_when_gone) simp_all
      next
        case False
        let ?u = "?t\<lparr>pending := True\<rparr>"
        have "life_next m Interrupt ?t = Some ?u" using True False Cons.prems(2,3) by simp
        moreover have "can_crash m ?u" using True Cons.prems KillBottom by (intro Cons.IH) auto
        ultimately show ?thesis by (rule can_crash_step)
      qed
    next
      case False
      with Cons.prems KillBottom show ?thesis by (intro Cons.IH) auto
    qed
    with n show ?thesis by (rule can_crash_step)
  qed
qed

text \<open>A load either can crash or reaches the loaded state.\<close>

lemma load_or_crash:
  "phase s = Loading p \<Longrightarrow> \<not> pending s \<Longrightarrow> \<not> freed s \<Longrightarrow> line s \<longrightarrow> ready s \<or> kind m = NoBottom \<Longrightarrow>
   \<not> can_crash m s \<Longrightarrow>
   init_safe (kind m) (ready s) (line s) p \<and>
   (\<exists>ls t. run (life_step m) s ls t \<and> phase t = Loaded \<and> \<not> pending t \<and> \<not> freed t \<and>
      line t = (line s \<or> RequestIrq \<in> set p) \<and> (line t \<longrightarrow> ready t \<or> kind m = NoBottom))"
proof (induction p arbitrary: s)
  case Nil
  then have "life_step m s (Act True) (s\<lparr>phase := Loaded\<rparr>)" by (simp add: life_step_def)
  then have "run (life_step m) s [Act True] (s\<lparr>phase := Loaded\<rparr>)" by (blast intro: run.intros)
  with Nil.prems show ?case by (auto intro!: exI [of _ "[Act True]"])
next
  case (Cons a p)
  have next_ok: ?case
    if n: "life_next m (Act True) s = Some t" and t: "phase t = Loading p" "\<not> pending t" "\<not> freed t"
      "line t \<longrightarrow> ready t \<or> kind m = NoBottom" "line t = (line s \<or> a = RequestIrq)"
      and i: "init_safe (kind m) (ready t) (line t) p \<Longrightarrow> init_safe (kind m) (ready s) (line s) (a # p)" for t
  proof -
    have "\<not> can_crash m t" using can_crash_step [OF n] Cons.prems(5) by blast
    from Cons.IH [OF t(1-4) this] obtain ls u where r: "run (life_step m) t ls u"
      and u: "phase u = Loaded" "\<not> pending u" "\<not> freed u" "line u = (line t \<or> RequestIrq \<in> set p)"
        "line u \<longrightarrow> ready u \<or> kind m = NoBottom" and s: "init_safe (kind m) (ready t) (line t) p" by blast
    have "run (life_step m) s (Act True # ls) u"
      using n r by (auto simp: life_step_def intro: run.intros)
    with u t(5) i [OF s] show ?thesis by auto
  qed
  show ?case
  proof (cases a)
    case InitWork
    then show ?thesis using Cons.prems by (intro next_ok [of "s\<lparr>phase := Loading p, ready := True\<rparr>"]) auto
  next
    case RequestIrq
    let ?t = "s\<lparr>phase := Loading p, line := True\<rparr>"
    have n: "life_next m (Act True) s = Some ?t" using Cons.prems(1) RequestIrq by simp
    have r: "ready s \<or> kind m = NoBottom"
    proof (rule ccontr)
      assume "\<not> (ready s \<or> kind m = NoBottom)"
      then have "life_next m Interrupt ?t = Some (?t\<lparr>crashed := True\<rparr>)" using Cons.prems(3) by simp
      from can_crash_step [OF this can_crash_now] can_crash_step [OF n] Cons.prems(5) show False by simp
    qed
    have l: "\<not> line s"
    proof
      assume "line s"
      have "life_next m (Act False) s = Some (s\<lparr>phase := Gone\<rparr>)" using Cons.prems(1) RequestIrq by simp
      from can_crash_step [OF this crash_when_gone] \<open>line s\<close> Cons.prems(5) show False by simp
    qed
    show ?thesis using Cons.prems RequestIrq r l n by (intro next_ok [of ?t]) auto
  qed
qed

text \<open>The check decides safety: a module passes exactly when no interleaving of its load, its interrupts, its bottom
  halves and its unload reaches a crash.\<close>

theorem module_ok_decides:
  "module_ok m \<longleftrightarrow> never_crashes m"
  unfolding never_crashes_def
proof
  assume "module_ok m"
  then show "\<forall>ls s. run (life_step m) (life_start m) ls s \<longrightarrow> \<not> crashed s"
    using checked_life.inv_reachable [of m "life_start m"] by (auto simp: life_ok_def)
next
  assume "\<forall>ls s. run (life_step m) (life_start m) ls s \<longrightarrow> \<not> crashed s"
  then have safe: "\<not> can_crash m (life_start m)" by (auto simp: can_crash_def)
  let ?ln = "RequestIrq \<in> set (init_acts m)"
  from load_or_crash [OF _ _ _ _ safe, of "init_acts m"] obtain ls t
    where i: "init_safe (kind m) (kind m \<noteq> StaticWork) False (init_acts m)"
      and r: "run (life_step m) (life_start m) ls t" and t: "phase t = Loaded" "\<not> pending t" "\<not> freed t"
        "line t = ?ln" "line t \<longrightarrow> ready t \<or> kind m = NoBottom"
    by (auto simp: life_start_def)
  have after: "\<not> can_crash m u" if "run (life_step m) t ms u" for ms u
    using safe run_append [OF r that] unfolding can_crash_def by (blast intro: run_append)
  let ?pd = "?ln \<and> kind m \<noteq> NoBottom"
  let ?u = "t\<lparr>pending := ?pd\<rparr>" and ?e = "t\<lparr>pending := ?pd, phase := Exiting (exit_acts m)\<rparr>"
  have "\<exists>ms. run (life_step m) t ms ?u"
  proof (cases ?pd)
    case True
    with t have "life_step m t Interrupt ?u" by (auto simp: life_step_def)
    then show ?thesis by (blast intro: run.intros)
  next
    case False
    with t(2) have "?u = t" by simp
    then show ?thesis by (metis run_nil)
  qed
  then obtain ms where u: "run (life_step m) t ms ?u" by blast
  have "life_step m ?u Unload ?e" using t(1) by (simp add: life_step_def)
  then have "run (life_step m) t (ms @ [Unload]) ?e" by (intro run_append [OF u]) (blast intro: run.intros)
  from after [OF this] have "\<not> can_crash m ?e" .
  have "exit_safe (kind m) ?ln ?pd (exit_acts m)"
  proof (rule ccontr)
    assume "\<not> exit_safe (kind m) ?ln ?pd (exit_acts m)"
    with exit_crash [of ?e "exit_acts m" m] t(4,5) \<open>\<not> can_crash m ?e\<close> show False
      by auto
  qed
  with i show "module_ok m" by (simp add: module_ok_def Let_def)
qed

section \<open>The labs\<close>

text \<open>
  What \<open>lab_one_interrupt.h\<close> and \<open>lab_all_interrupt.h\<close> do when their modules load and unload. The second takes all the lines it can
  get; the act stands for one that it got, and a line that it did not get has no interrupts.
\<close>

(* src: interrupts/lab_one_interrupt.h:44-63 my_generic_init *)
definition one_line_init :: "init_act list" where
  "one_line_init = [RequestIrq]"

(* src: interrupts/lab_one_interrupt.h:65-72 my_generic_exit *)
definition one_line_exit :: "exit_act list" where
  "one_line_exit = [FreeIrq]"

(* src: interrupts/lab_all_interrupt.h:113-128 my_generic_init *)
definition all_lines_init :: "init_act list" where
  "all_lines_init = [RequestIrq]"

(* src: interrupts/lab_all_interrupt.h:130-137 my_generic_exit *)
definition all_lines_exit :: "exit_act list" where
  "all_lines_exit = [FreeIrq, FreeCounters]"

(* src: interrupts/lab1_interrupt.c:26-42 my_init, my_exit *)
definition lab1_module :: irq_module where
  "lab1_module = \<lparr>kind = NoBottom, init_acts = [RequestIrq], exit_acts = [FreeIrq]\<rparr>"

(* src: interrupts/lab2_interrupt.c:34-50 my_init, my_exit *)
definition lab2_module :: irq_module where
  "lab2_module = \<lparr>kind = NoBottom, init_acts = [RequestIrq], exit_acts = [FreeIrq]\<rparr>"

(* src: interrupts/lab3_tasklet.c:55-71 my_init, my_exit *)
definition lab3_tasklet_module :: irq_module where
  "lab3_tasklet_module = \<lparr>kind = StaticTasklet, init_acts = [RequestIrq], exit_acts = [FreeIrq]\<rparr>"

(* src: interrupts/lab3_workqueue.c:59-77 my_init, my_exit *)
definition lab3_workqueue_module :: irq_module where
  "lab3_workqueue_module = \<lparr>kind = StaticWork, init_acts = [RequestIrq, InitWork], exit_acts = [FreeIrq]\<rparr>"

(* src: interrupts/lab4_one_tasklet.c:72-73 my_generic_init, my_generic_exit *)
definition one_tasklet_module :: irq_module where
  "one_tasklet_module = \<lparr>kind = StaticTasklet, init_acts = one_line_init, exit_acts = one_line_exit\<rparr>"

(* src: interrupts/lab4_one_tasklet_dynamic.c:53-54 my_generic_init, my_generic_exit *)
definition one_tasklet_dynamic_module :: irq_module where
  "one_tasklet_dynamic_module = \<lparr>kind = OwnBottom, init_acts = one_line_init, exit_acts = one_line_exit\<rparr>"

(* src: interrupts/lab4_one_workqueue.c:68-76 my_init *)
definition one_workqueue_module :: irq_module where
  "one_workqueue_module = \<lparr>kind = StaticWork, init_acts = InitWork # one_line_init, exit_acts = one_line_exit\<rparr>"

(* src: interrupts/lab5_one_tasklet_improved.c:66-80 my_init, my_exit *)
definition one_tasklet_improved_module :: irq_module where
  "one_tasklet_improved_module = \<lparr>kind = StaticTasklet, init_acts = one_line_init, exit_acts = one_line_exit\<rparr>"

(* src: interrupts/lab5_one_workqueue_dynamic.c:50-51 my_generic_init, my_generic_exit *)
definition one_workqueue_dynamic_module :: irq_module where
  "one_workqueue_dynamic_module = \<lparr>kind = OwnBottom, init_acts = one_line_init, exit_acts = one_line_exit\<rparr>"

(* src: interrupts/lab9_one_threaded.c:63-70 my_init *)
definition one_threaded_module :: irq_module where
  "one_threaded_module = \<lparr>kind = Threaded, init_acts = one_line_init, exit_acts = one_line_exit\<rparr>"

(* src: interrupts/lab6_all_tasklet.c:45-46 my_generic_init, my_generic_exit *)
definition all_tasklet_module :: irq_module where
  "all_tasklet_module = \<lparr>kind = StaticTasklet, init_acts = all_lines_init, exit_acts = all_lines_exit\<rparr>"

(* src: interrupts/lab6_all_workqueue.c:44-52 my_init *)
definition all_workqueue_module :: irq_module where
  "all_workqueue_module = \<lparr>kind = StaticWork, init_acts = InitWork # all_lines_init, exit_acts = all_lines_exit\<rparr>"

(* src: interrupts/lab7_all_tasklet_dynamic.c:49-50 my_generic_init, my_generic_exit *)
definition all_tasklet_dynamic_module :: irq_module where
  "all_tasklet_dynamic_module = \<lparr>kind = OwnBottom, init_acts = all_lines_init, exit_acts = all_lines_exit\<rparr>"

(* src: interrupts/lab7_all_workqueue_dynamic.c:49-50 my_generic_init, my_generic_exit *)
definition all_workqueue_dynamic_module :: irq_module where
  "all_workqueue_dynamic_module = \<lparr>kind = OwnBottom, init_acts = all_lines_init, exit_acts = all_lines_exit\<rparr>"

(* src: interrupts/lab8_all_threaded.c:60-61 my_generic_init, my_generic_exit *)
definition all_threaded_module :: irq_module where
  "all_threaded_module = \<lparr>kind = Threaded, init_acts = all_lines_init, exit_acts = all_lines_exit\<rparr>"

definition irq_labs :: "(string \<times> irq_module) list" where
  "irq_labs =
    [(''lab1_interrupt.c'', lab1_module),
     (''lab2_interrupt.c'', lab2_module),
     (''lab3_tasklet.c'', lab3_tasklet_module),
     (''lab3_workqueue.c'', lab3_workqueue_module),
     (''lab4_one_tasklet.c'', one_tasklet_module),
     (''lab4_one_tasklet_dynamic.c'', one_tasklet_dynamic_module),
     (''lab4_one_workqueue.c'', one_workqueue_module),
     (''lab5_one_tasklet_improved.c'', one_tasklet_improved_module),
     (''lab5_one_workqueue_dynamic.c'', one_workqueue_dynamic_module),
     (''lab9_one_threaded.c'', one_threaded_module),
     (''lab6_all_tasklet.c'', all_tasklet_module),
     (''lab6_all_workqueue.c'', all_workqueue_module),
     (''lab7_all_tasklet_dynamic.c'', all_tasklet_dynamic_module),
     (''lab7_all_workqueue_dynamic.c'', all_workqueue_dynamic_module),
     (''lab8_all_threaded.c'', all_threaded_module)]"

lemmas irq_lab_defs =
  one_line_init_def one_line_exit_def all_lines_init_def all_lines_exit_def
  lab1_module_def lab2_module_def lab3_tasklet_module_def lab3_workqueue_module_def one_tasklet_module_def one_tasklet_dynamic_module_def one_workqueue_module_def one_tasklet_improved_module_def one_workqueue_dynamic_module_def one_threaded_module_def all_tasklet_module_def all_workqueue_module_def all_tasklet_dynamic_module_def all_workqueue_dynamic_module_def all_threaded_module_def


text \<open>The work item of \<open>lab3_workqueue.c\<close> is initialised after the line was taken: an interrupt in between schedules
  a structure that is none yet.\<close>

theorem workqueue_load_race:
  "\<exists>s. run (life_step lab3_workqueue_module) (life_start lab3_workqueue_module) [Act True, Interrupt] s \<and>
     crashed s \<and> phase s = Loading [InitWork]"
  by (simp add: run_cons_iff life_step_def life_start_def lab3_workqueue_module_def)

text \<open>The repair: initialise the structure first, and wait for what is scheduled once the line is freed.\<close>

definition repaired :: "irq_module \<Rightarrow> irq_module" where
  "repaired m = m\<lparr>init_acts := InitWork # init_acts m,
     exit_acts := FreeIrq # KillBottom # filter (\<lambda>a. a \<noteq> FreeIrq) (exit_acts m)\<rparr>"

theorem irq_labs_repaired:
  "filter (\<lambda>(name, m). \<not> never_crashes (repaired m)) irq_labs = []"
  unfolding module_ok_decides [symmetric]
  by (simp add: irq_labs_def irq_lab_defs module_ok_def repaired_def)

end
