(* ===== verification/Char_Tests.thy ===== *)
theory Char_Tests
  imports Char_Fasync Printf
begin

text \<open>
  The programs of \<open>src/tests/char\<close> run against the driver's model. A program is a function of the system it runs on, the driver
  with the table of open descriptors, and of the kernel's answers (the descriptors it hands out, what a copy leaves); its
  result is what it prints. The system calls pass the descriptor's position to the handlers, as the VFS
  does. Shown: what the read and write test, the seek test and the ioctl test print on a loaded driver and without one,
  and where the programs themselves go wrong.
\<close>

section \<open>Programs and system calls\<close>

record proc_sys =
  driver :: ioctl_chardrv
  files :: "int \<rightharpoonup> loff_t"

type_synonym 'a io = "proc_sys \<Rightarrow> ('a \<times> proc_sys) kresult"

definition io_return :: "'a \<Rightarrow> 'a io" where
  "io_return x = (\<lambda>s. Inr (x, s))"

definition io_bind :: "'a io \<Rightarrow> ('a \<Rightarrow> 'b io) \<Rightarrow> 'b io" where
  "io_bind f g = (\<lambda>s. case f s of Inl e \<Rightarrow> Inl e | Inr (x, t) \<Rightarrow> g x t)"

text \<open>A call on a descriptor that is not open answers -1, as does an open that fails.\<close>

definition sys_open :: "int option \<Rightarrow> int io" where
  "sys_open answer = (\<lambda>s.
     case answer of
       None \<Rightarrow> Inr (-1, s)
     | Some fd \<Rightarrow>
         let (r, d) = chardrv_open (driver s)
         in Inr (if r < 0 then -1 else fd, s\<lparr>driver := d, files := (files s)(fd \<mapsto> 0)\<rparr>))"

definition sys_close :: "int \<Rightarrow> int io" where
  "sys_close fd = (\<lambda>s.
     if files s fd = None then Inr (-1, s)
     else let (r, d) = chardrv_release (driver s) in Inr (0, s\<lparr>driver := d, files := (files s)(fd := None)\<rparr>))"

definition sys_write :: "int \<Rightarrow> byte list \<Rightarrow> size_t \<Rightarrow> int io" where
  "sys_write fd buf uleft = (\<lambda>s.
     case files s fd of
       None \<Rightarrow> Inr (-1, s)
     | Some pos \<Rightarrow>
         (case chardrv_write buf (of_nat (length buf)) pos uleft (driver s) of
            Inl f \<Rightarrow> Inl f
          | Inr (r, d, pos) \<Rightarrow> Inr (r, s\<lparr>driver := d, files := (files s)(fd \<mapsto> pos)\<rparr>)))"

text \<open>A read fills a buffer of the program from its start and leaves the rest of the buffer alone.\<close>

definition sys_read :: "int \<Rightarrow> byte list \<Rightarrow> size_t \<Rightarrow> (int \<times> byte list) io" where
  "sys_read fd buf uleft = (\<lambda>s.
     case files s fd of
       None \<Rightarrow> Inr ((-1, buf), s)
     | Some pos \<Rightarrow>
         (case chardrv_read (of_nat (length buf)) pos uleft (driver s) of
            Inl f \<Rightarrow> Inl f
          | Inr (r, out, pos) \<Rightarrow> Inr ((r, out @ drop (length out) buf), s\<lparr>files := (files s)(fd \<mapsto> pos)\<rparr>)))"

definition sys_lseek :: "int \<Rightarrow> loff_t \<Rightarrow> c_int \<Rightarrow> int io" where
  "sys_lseek fd offset whence = (\<lambda>s.
     case files s fd of
       None \<Rightarrow> Inr (-1, s)
     | Some pos \<Rightarrow>
         let (r, pos) = chardrv_lseek offset whence pos
         in Inr (if r < 0 then -1 else r, s\<lparr>files := (files s)(fd \<mapsto> pos)\<rparr>))"

definition sys_ioctl :: "int \<Rightarrow> c_uint \<Rightarrow> byte list \<Rightarrow> size_t \<Rightarrow> (int \<times> byte list) io" where
  "sys_ioctl fd cmd buf uleft = (\<lambda>s.
     if files s fd = None then Inr ((-1, buf), s)
     else case chardrv_unlocked_ioctl cmd buf uleft (driver s) of
            Inl f \<Rightarrow> Inl f
          | Inr (r, out, d) \<Rightarrow>
              Inr ((if r < 0 then -1 else r, out @ drop (length out) buf), s\<lparr>driver := d\<rparr>))"

text \<open>\<open>%s\<close> prints up to a zero byte; without one it runs over the end of the array.\<close>

definition text_of :: "byte list \<Rightarrow> string" where
  "text_of bs = map (\<lambda>b. char_of (unat b)) (takeWhile (\<lambda>b. b \<noteq> 0) bs)"

definition print_s :: "byte list \<Rightarrow> string io" where
  "print_s bs = (\<lambda>s. if 0 \<in> set bs then Inr (text_of bs, s) else Inl OutOfBounds)"

lemma char_of_byte: "char_of (unat (of_nat (of_char c) :: byte)) = c"
proof -
  have "(of_char c :: nat) < 256" by (rule nat_of_char_less_256)
  then have "unat (of_nat (of_char c) :: byte) = of_char c"
    by (simp only: unsigned_of_nat) (simp add: take_bit_nat_eq_self)
  then show ?thesis by simp
qed

lemma byte_nonzero: "c \<noteq> CHR 0x00 \<Longrightarrow> (of_nat (of_char c) :: byte) \<noteq> 0"
proof
  assume c: "c \<noteq> CHR 0x00" and z: "(of_nat (of_char c) :: byte) = 0"
  have "c = char_of (unat (of_nat (of_char c) :: byte))" by (rule char_of_byte [symmetric])
  also have "\<dots> = CHR 0x00" unfolding z by code_simp
  finally show False using c by simp
qed

lemma text_of_c_string: "CHR 0x00 \<notin> set s \<Longrightarrow> text_of (c_string s @ bs) = s"
  by (induction s) (auto simp: text_of_def c_string_def byte_nonzero char_of_byte)

lemma print_c_string [simp]: "CHR 0x00 \<notin> set s \<Longrightarrow> print_s (c_string s @ bs) p = Inr (s, p)"
  by (simp add: print_s_def text_of_c_string) (simp add: c_string_def)

lemma length_c_string [simp]: "length (c_string s) = Suc (length s)"
  by (simp add: c_string_def)

lemmas io_defs = io_bind_def io_return_def sys_open_def sys_close_def sys_write_def sys_read_def
  sys_lseek_def sys_ioctl_def chardrv_open_def chardrv_release_def

section \<open>Reading what was written\<close>

definition rw_msg :: string where
  "rw_msg = ''Data from character driver'' @ [CHR 0x0A]"

(* src: tests/char/lab2_char_read_write_test.c:19-43 main *)
definition rw_test :: "int option \<Rightarrow> int option \<Rightarrow> size_t \<Rightarrow> size_t \<Rightarrow> string list io" where
  "rw_test open1 open2 wleft rleft =
     (let msg = c_string rw_msg in
      io_bind (sys_open open1) (\<lambda>fd1.
      io_bind (sys_open open2) (\<lambda>fd2.
      io_bind (sys_write fd1 msg wleft) (\<lambda>wrc.
      io_bind (print_s msg) (\<lambda>wmsg.
      io_bind (sys_read fd2 (replicate (length msg) 0) rleft) (\<lambda>(rrc, buf).
      io_bind (print_s buf) (\<lambda>rmsg.
      io_bind (sys_close fd1) (\<lambda>_.
      io_return
        [''First file descriptor opened for writing: '' @ fmt_d fd1,
         ''Second file descriptor opened for reading: '' @ fmt_d fd2,
         ''Write returned: '' @ fmt_d wrc @ '' on '' @ fmt_d fd1 @ '',write msg: '' @ wmsg,
         ''Read returned: '' @ fmt_d rrc @ '' on '' @ fmt_d fd2 @ '', read msg: '' @ rmsg]))))))))"

lemma rw_msg_facts [simp]: "length rw_msg = 27" "CHR 0x00 \<notin> set rw_msg"
  by (simp_all add: rw_msg_def)

text \<open>The test of the second lab passes on a loaded driver: the two descriptors have positions of their own, so the second
  reads from the start what the first one wrote there, and the four lines say so. Without the device the
  program goes on all the same and prints -1 four times.\<close>

theorem rw_test_passes:
  assumes "has_buffer (driver s) m" and "fd1 \<noteq> fd2" and "fd1 \<noteq> -1"
  shows "\<exists>t. rw_test (Some fd1) (Some fd2) 0 0 s = Inr
      ([''First file descriptor opened for writing: '' @ fmt_d fd1,
        ''Second file descriptor opened for reading: '' @ fmt_d fd2,
        ''Write returned: '' @ fmt_d 28 @ '' on '' @ fmt_d fd1 @ '',write msg: '' @ rw_msg,
        ''Read returned: '' @ fmt_d 28 @ '' on '' @ fmt_d fd2 @ '', read msg: '' @ rw_msg], t) \<and>
     has_buffer (driver t) (put_range 0 (c_string rw_msg) m) \<and> files t = (files s)(fd1 := None, fd2 \<mapsto> 28)"
proof -
  let ?msg = "c_string rw_msg"
  let ?m = "put_range 0 ?msg m"
  have v: "vfs_rw_ok 28 0" and c: "user_copy_ok 28 0" by (simp_all add: vfs_rw_ok_def user_copy_ok_def)
  have w: "chardrv_write ?msg 28 0 0 d = Inr (28, d\<lparr>membuff := Ptr ?m\<rparr>, 28)" if "has_buffer d m" for d :: ioctl_chardrv
    using chardrv_write_within [OF that v c, of ?msg] by simp
  have "get_range 0 28 ?m = ?msg"
    using get_put_same [of 0 m ?msg] assms(1) by (simp add: has_buffer_def)
  then have r: "chardrv_read 28 0 0 d = Inr (28, ?msg, 28)" if "has_buffer d ?m" for d :: ioctl_chardrv
    using chardrv_read_within [OF that v c] by simp
  let ?d = "(driver s)\<lparr>counter := counter (driver s) + 1 + 1\<rparr>"
  have d: "has_buffer ?d m" "has_buffer (?d\<lparr>membuff := Ptr ?m\<rparr>) ?m"
    using assms(1) by (simp_all add: has_buffer_def)
  have p: "print_s ?msg q = Inr (rw_msg, q)" for q using print_c_string [of rw_msg "[]"] by simp
  show ?thesis
    using assms(2,3) w [OF d(1)] r [OF d(2)] d(2) p
    by (simp add: rw_test_def io_defs Let_def fun_upd_twist)
qed

theorem rw_test_passes_witness:
  "\<exists>t. rw_test (Some 3) (Some 4) 0 0 \<lparr>driver = fst sample_file, files = Map.empty\<rparr> = Inr
      ([''First file descriptor opened for writing: 3'', ''Second file descriptor opened for reading: 4'',
        ''Write returned: 28 on 3,write msg: '' @ rw_msg, ''Read returned: 28 on 4, read msg: '' @ rw_msg], t)"
proof -
  let ?s = "\<lparr>driver = fst sample_file, files = Map.empty\<rparr>"
  have b: "has_buffer (driver ?s) (replicate 131072 7)" by (simp add: sample_file_def has_buffer_def)
  have d: "fmt_d 3 = ''3''" "fmt_d 4 = ''4''" "fmt_d 28 = ''28''" by code_simp+
  from rw_test_passes [OF b, of 3 4] show ?thesis unfolding d by auto
qed

lemma rw_test_without_device:
  "files s (-1) = None \<Longrightarrow> rw_test None None wl rl s = Inr
     ([''First file descriptor opened for writing: '' @ fmt_d (-1),
       ''Second file descriptor opened for reading: '' @ fmt_d (-1),
       ''Write returned: '' @ fmt_d (-1) @ '' on '' @ fmt_d (-1) @ '',write msg: '' @ rw_msg,
       ''Read returned: '' @ fmt_d (-1) @ '' on '' @ fmt_d (-1) @ '', read msg: '' @ []], s)"
  using print_c_string [of rw_msg "[]"] by (simp add: rw_test_def io_defs Let_def print_s_def text_of_def)

section \<open>Seeking\<close>

(* src: tests/char/lab4_char_seek_test.c:17-57 main *)
definition seek_test :: "int option \<Rightarrow> size_t \<Rightarrow> size_t \<Rightarrow> size_t \<Rightarrow> string list io" where
  "seek_test open1 left1 left2 left3 =
     (let message = c_string (replicate 19 (CHR ''$'')) in
      io_bind (sys_open open1) (\<lambda>fd.
      io_bind (sys_lseek fd 0 0) (\<lambda>rc1.
      io_bind (sys_write fd message left1) (\<lambda>rc2.
      io_bind (sys_write fd message left2) (\<lambda>rc3.
      io_bind (sys_lseek fd 0 0) (\<lambda>rc4.
      io_bind (sys_read fd (replicate 20 0) left3) (\<lambda>(rc5, buf).
      io_bind (print_s buf) (\<lambda>text.
      io_bind (sys_close fd) (\<lambda>_.
      io_return
        [''Opened device node, file descriptor:'' @ fmt_d fd, ''1st lseek returned: '' @ fmt_d rc1,
         ''1st write returned:'' @ fmt_d rc2, ''2nd write returned:'' @ fmt_d rc3,
         ''2nd lseek returned:'' @ fmt_d rc4, ''2nd read returned:'' @ fmt_d rc5,
         ''message read: '' @ text])))))))))"

lemma dollars: "CHR 0x00 \<notin> set (replicate 19 (CHR ''$''))" "length (c_string (replicate 19 (CHR ''$''))) = 20"
  by simp_all

text \<open>The test of the fourth lab passes on a loaded driver: the two writes follow each other, the seek goes back to
  the start, and the read gives the message of the first.\<close>

theorem seek_test_passes:
  assumes "has_buffer (driver s) m" and "fd \<noteq> -1"
  shows "\<exists>t. seek_test (Some fd) 0 0 0 s = Inr
      ([''Opened device node, file descriptor:'' @ fmt_d fd, ''1st lseek returned: '' @ fmt_d 0,
        ''1st write returned:'' @ fmt_d 20, ''2nd write returned:'' @ fmt_d 20,
        ''2nd lseek returned:'' @ fmt_d 0, ''2nd read returned:'' @ fmt_d 20,
        ''message read: '' @ replicate 19 (CHR ''$'')], t) \<and>
     has_buffer (driver t) (put_range 0 (c_string (replicate 19 (CHR ''$'')) @ c_string (replicate 19 (CHR ''$''))) m)"
proof -
  define txt1 where "txt1 = replicate 19 (CHR ''$'')"
  define msg where "msg = c_string txt1"
  have l: "length msg = 20" and z: "CHR 0x00 \<notin> set txt1" by (simp_all add: msg_def txt1_def)
  let ?m1 = "put_range 0 msg m" and ?m2 = "put_range 20 msg (put_range 0 msg m)"
  have c: "user_copy_ok 20 0" and v: "vfs_rw_ok 20 0" "vfs_rw_ok 20 20"
    by (simp_all add: vfs_rw_ok_def user_copy_ok_def)
  have w1: "chardrv_write msg 20 0 0 d = Inr (20, d\<lparr>membuff := Ptr ?m1\<rparr>, 20)" if "has_buffer d m" for d :: ioctl_chardrv
    using chardrv_write_within [OF that v(1) c, of msg] l by simp
  have w2: "chardrv_write msg 20 20 0 d = Inr (20, d\<lparr>membuff := Ptr ?m2\<rparr>, 40)" if "has_buffer d ?m1" for d :: ioctl_chardrv
    using chardrv_write_within [OF that v(2) c, of msg] l by simp
  have "get_range 0 20 ?m2 = msg"
    using assms(1) l by (simp add: has_buffer_def get_range_def put_range_def)
  then have r: "chardrv_read 20 0 0 d = Inr (20, msg, 20)" if "has_buffer d ?m2" for d :: ioctl_chardrv
    using chardrv_read_within [OF that v(1) c] l by simp
  let ?d = "(driver s)\<lparr>counter := counter (driver s) + 1\<rparr>"
  have d: "has_buffer ?d m" "has_buffer (?d\<lparr>membuff := Ptr ?m1\<rparr>) ?m1" "has_buffer (?d\<lparr>membuff := Ptr ?m2\<rparr>) ?m2"
    using assms(1) l by (simp_all add: has_buffer_def)
  have k: "chardrv_lseek 0 0 p = (0, 0)" for p
    using chardrv_lseek_correct [of 0 0 0 p] by simp
  have p: "print_s msg q = Inr (txt1, q)" for q using print_c_string [OF z, of "[]"] by (simp add: msg_def)
  have e: "?m2 = put_range 0 (msg @ msg) m"
    using assms(1) l by (simp add: has_buffer_def put_range_def)
  show ?thesis
    unfolding seek_test_def txt1_def [symmetric] msg_def [symmetric] e [symmetric] io_defs Let_def
    using assms(2) w1 [OF d(1)] w2 [OF d(2)] r [OF d(3)] d(3) p k l by simp
qed

theorem seek_test_passes_witness:
  "\<exists>t. seek_test (Some 3) 0 0 0 \<lparr>driver = fst sample_file, files = Map.empty\<rparr> = Inr
      ([''Opened device node, file descriptor:3'', ''1st lseek returned: 0'', ''1st write returned:20'',
        ''2nd write returned:20'', ''2nd lseek returned:0'', ''2nd read returned:20'',
        ''message read: '' @ replicate 19 (CHR ''$'')], t)"
proof -
  let ?s = "\<lparr>driver = fst sample_file, files = Map.empty\<rparr>"
  have b: "has_buffer (driver ?s) (replicate 131072 7)" by (simp add: sample_file_def has_buffer_def)
  have d: "fmt_d 3 = ''3''" "fmt_d 0 = ''0''" "fmt_d 20 = ''20''" by code_simp+
  from seek_test_passes [OF b, of 3] show ?thesis unfolding d append.simps by auto
qed

section \<open>The ioctl test\<close>

text \<open>The program's structure is 272 bytes, which it reads and writes by fields.\<close>

fun le_value :: "byte list \<Rightarrow> nat" where
  "le_value [] = 0"
| "le_value (b # bs) = unat b + 256 * le_value bs"

definition le_word :: "byte list \<Rightarrow> 'a::len word" where
  "le_word bs = of_nat (le_value bs)"

lemma le_bytes_Suc: "le_bytes (Suc k) w = ucast w # le_bytes k (drop_bit 8 w)"
proof -
  have "[0..<Suc k] = 0 # map Suc [0..<k]" by (simp add: map_Suc_upt upt_conv_Cons del: upt_Suc)
  then show ?thesis by (simp add: le_bytes_def drop_bit_drop_bit add.commute comp_def del: upt_Suc)
qed

lemma le_value_bytes: "le_value (le_bytes k w) = unat w mod 256 ^ k"
proof (induction k arbitrary: w)
  case 0
  then show ?case by (simp add: le_bytes_def)
next
  case (Suc k)
  have u: "unat (ucast w :: byte) = unat w mod 256"
    by (simp add: unsigned_ucast_eq take_bit_eq_mod)
  have d: "unat (drop_bit 8 w) = unat w div 256"
    using take_bit_nat_eq_self [OF unsigned_less [of w]]
    by (simp only: unsigned_drop_bit_eq) (simp add: drop_bit_eq_div)
  show ?case
    unfolding le_bytes_Suc le_value.simps Suc.IH u d
    by (simp add: mod_mult2_eq [of _ 256 "256 ^ k"])
qed

lemma le_word_bytes:
  fixes w :: "'a::len word"
  assumes "LENGTH('a) = 8 * k"
  shows "le_word (le_bytes k w) = w"
proof -
  have "unat w < 256 ^ k"
    using unsigned_less [of w, where 'a = nat] assms by (simp add: power_mult)
  then show ?thesis by (simp add: le_word_def le_value_bytes)
qed

definition ioc_fields :: "byte list \<Rightarrow> string list io" where
  "ioc_fields buf =
     io_bind (print_s (take 256 (drop 16 buf))) (\<lambda>text.
     io_return [''i = '' @ fmt_d (sint (le_word (take 4 buf) :: c_int)),
       ''l = '' @ fmt_d (sint (le_word (take 8 (drop 8 buf)) :: c_long)), ''s = '' @ text])"

definition ioc_update :: "byte list \<Rightarrow> byte list" where
  "ioc_update buf =
     (let buf = put_range 16 (c_string ''updated string'') buf;
          buf = put_range 0 (le_bytes 4 (65 :: c_int)) buf
      in put_range 8 (le_bytes 8 (-90 :: c_long)) buf)"

(* src: tests/char/lab3_char_ioctl_test.c:26-69 main *)
definition ioctl_test :: "int option \<Rightarrow> size_t \<Rightarrow> size_t \<Rightarrow> size_t \<Rightarrow> (string list \<times> string list \<times> string list) io" where
  "ioctl_test open1 left1 left2 left3 =
     io_bind (sys_open open1) (\<lambda>fd.
     io_bind (sys_ioctl fd (IOC IOC_READ LDDIOC_TYPE 1 272) (replicate 272 0) left1) (\<lambda>(rc1, buf).
     io_bind (ioc_fields buf) (\<lambda>out1.
     let buf = ioc_update buf in
     io_bind (ioc_fields buf) (\<lambda>out2.
     io_bind (sys_ioctl fd (IOC IOC_WRITE LDDIOC_TYPE 1 272) buf left2) (\<lambda>(rc2, buf).
     io_bind (sys_ioctl fd (IOC IOC_READ LDDIOC_TYPE 1 272) buf left3) (\<lambda>(rc3, buf).
     io_bind (ioc_fields buf) (\<lambda>out3.
     io_bind (sys_close fd) (\<lambda>_.
     io_return
       ((''Opened device node, file descriptor:'' @ fmt_d fd) # (''ioctl read returned:'' @ fmt_d rc1) # out1,
        out2 @ [''ioctl write returned:'' @ fmt_d rc2],
        (''ioctl read returned:'' @ fmt_d rc3) # out3)))))))))"

lemma ioc_commands:
  "IOC_TYPE (IOC 2 107 1 272) = 107" "IOC_DIR (IOC 2 107 1 272) = 2" "IOC_SIZE (IOC 2 107 1 272) = 272"
  "IOC_TYPE (IOC 1 107 1 272) = 107" "IOC_DIR (IOC 1 107 1 272) = 1" "IOC_SIZE (IOC 1 107 1 272) = 272"
  by (simp_all add: IOC_def IOC_TYPE_def IOC_DIR_def IOC_SIZE_def)

lemma ioctl_whole:
  assumes "length (ioc_data d) = 272" and "length buf = 272"
  shows "chardrv_unlocked_ioctl (IOC 2 107 1 272) ubuf 0 d = Inr (0, ioc_data d, d)"
    and "chardrv_unlocked_ioctl (IOC 1 107 1 272) buf 0 d = Inr (0, [], d\<lparr>ioc_data := buf\<rparr>)"
  using assms
  by (simp_all add: chardrv_unlocked_ioctl_def ioc_commands in_object_start get_range_def put_range_def)

lemma length_of_le_bytes [simp]: "length (le_bytes k w) = k"
  by (simp add: le_bytes_def)

lemma fields_of:
  assumes "CHR 0x00 \<notin> set text" and "length gap = 4" and "length text < 256"
  shows "ioc_fields (le_bytes 4 (i :: c_int) @ gap @ le_bytes 8 (l :: c_long) @ c_string text @ rest) s =
    Inr ([''i = '' @ fmt_d (sint i), ''l = '' @ fmt_d (sint l), ''s = '' @ text], s)"
proof -
  have "take 256 (c_string text @ rest) = c_string text @ take (255 - length text) rest" using assms(3) by simp
  then have "print_s (take 256 (c_string text @ rest)) s = Inr (text, s)"
    using print_c_string [OF assms(1)] by simp
  then show ?thesis
    using assms(2) by (simp add: ioc_fields_def io_bind_def io_return_def le_word_bytes)
qed

lemma update_of:
  assumes "length gap = 4" and "15 \<le> length str"
  shows "ioc_update (le_bytes 4 (i :: c_int) @ gap @ le_bytes 8 (l :: c_long) @ str) =
    le_bytes 4 (65 :: c_int) @ gap @ le_bytes 8 (-90 :: c_long) @ c_string ''updated string'' @ drop 15 str"
  using assms by (simp add: ioc_update_def put_range_def Let_def)

text \<open>The ioctl test passes on a loaded driver: it first prints the driver's initial values, then what it sends,
  and what comes back is what it sent. What is left of the longer first string stays behind the end of the new one.\<close>

theorem ioctl_test_passes:
  assumes "ioc_data (driver s) = ioctl_image ioc_data_init" and "fd \<noteq> -1"
  shows "\<exists>t. ioctl_test (Some fd) 0 0 0 s = Inr
      (([''Opened device node, file descriptor:'' @ fmt_d fd, ''ioctl read returned:'' @ fmt_d 0,
         ''i = '' @ fmt_d (-25), ''l = '' @ fmt_d 45, ''s = '' @ ''ioctl string data''],
        [''i = '' @ fmt_d 65, ''l = '' @ fmt_d (-90), ''s = '' @ ''updated string'',
         ''ioctl write returned:'' @ fmt_d 0],
        [''ioctl read returned:'' @ fmt_d 0,
         ''i = '' @ fmt_d 65, ''l = '' @ fmt_d (-90), ''s = '' @ ''updated string'']), t) \<and>
     ioc_data (driver t) = le_bytes 4 (65 :: c_int) @ replicate 4 0 @ le_bytes 8 (-90 :: c_long) @
       c_string ''updated string'' @ c_string ''ta'' @ replicate 238 0"
proof -
  let ?str = "c_string ''ioctl string data'' @ replicate 238 0"
  define img1 where "img1 = le_bytes 4 (-25 :: c_int) @ replicate 4 0 @ le_bytes 8 (45 :: c_long) @ ?str"
  define img2 where "img2 = le_bytes 4 (65 :: c_int) @ replicate 4 0 @ le_bytes 8 (-90 :: c_long) @
    c_string ''updated string'' @ c_string ''ta'' @ replicate 238 0"
  have l: "length img1 = 272" "length img2 = 272" by (simp_all add: img1_def img2_def)
  have i: "ioc_data (driver s) = img1"
    by (simp add: assms(1) ioctl_image_def ioc_data_init_def img1_def)
  have "drop 15 ?str = c_string ''ta'' @ replicate 238 0" by (simp add: c_string_def)
  then have u: "ioc_update img1 = img2"
    using update_of [of "replicate 4 0" ?str "-25" 45] by (simp add: img1_def img2_def)
  have f1: "ioc_fields img1 q = Inr ([''i = '' @ fmt_d (-25), ''l = '' @ fmt_d 45, ''s = '' @ ''ioctl string data''], q)" for q
    unfolding img1_def by (subst fields_of) simp_all
  have f2: "ioc_fields img2 q = Inr ([''i = '' @ fmt_d 65, ''l = '' @ fmt_d (-90), ''s = '' @ ''updated string''], q)" for q
    unfolding img2_def by (subst fields_of) simp_all
  let ?d = "(driver s)\<lparr>counter := counter (driver s) + 1\<rparr>"
  have d: "length (ioc_data ?d) = 272" "length (ioc_data (?d\<lparr>ioc_data := img2\<rparr>)) = 272"
    using i l by simp_all
  show ?thesis
    unfolding ioctl_test_def img2_def [symmetric] io_defs Let_def
    using assms(2) ioctl_whole [OF d(1) l(2)] ioctl_whole(1) [OF d(2) l(2)] i l u f1 f2 by simp
qed

theorem ioctl_test_passes_witness:
  "\<exists>out t. ioctl_test (Some 3) 0 0 0
     \<lparr>driver = \<lparr>membuff = NULL, counter = 0, ioc_data = ioctl_image ioc_data_init\<rparr>, files = Map.empty\<rparr> =
       Inr (out, t) \<and> snd (snd out) = [''ioctl read returned:0'', ''i = 65'', ''l = -90'', ''s = updated string'']"
proof -
  have d: "fmt_d 65 = ''65''" "fmt_d (-90) = ''-90''" "fmt_d 0 = ''0''" by code_simp+
  from ioctl_test_passes [of "\<lparr>driver = \<lparr>membuff = NULL, counter = 0, ioc_data = ioctl_image ioc_data_init\<rparr>,
      files = Map.empty\<rparr>" 3]
  show ?thesis unfolding d append.simps by (simp only: ioctl_chardrv.simps proc_sys.simps) auto
qed

section \<open>Waiting for data\<close>

text \<open>
  The poll and the select test go round for ever. One round is given the answer of \<open>poll\<close> (or \<open>select\<close>) and what the
  read then gives; it ends the program on an error (None) and otherwise prints and goes on.
\<close>

(* src: tests/char/lab5_char_poll_test.c:33-56 main (loop) *)
definition poll_round :: "int \<Rightarrow> c_uint \<Rightarrow> size_t \<Rightarrow> int \<Rightarrow> byte list \<Rightarrow> (string list \<times> byte list) option io" where
  "poll_round rc revents uleft fd buffer =
     (if rc < 0 then io_return None
      else if 0 < rc then
        (let out = '' poll returns '' @ fmt_d rc @ '', revents = 0x'' @ pad 3 (fmt_x (unat revents))
         in if and revents POLLIN \<noteq> 0 then
              io_bind (sys_read fd buffer uleft) (\<lambda>(n, buffer).
              io_bind (print_s buffer) (\<lambda>text.
              io_return (Some ([out, ''reading '' @ fmt_d n @ '' bytes:'' @ text], buffer))))
            else io_return (Some ([out, ''POLLIN not set!''], buffer)))
      else io_return (Some ([''poll timed out in 10000 milliseconds on /dev/ldddev.''], buffer)))"

(* src: tests/char/lab5_char_select_test.c:35-55 main (loop) *)
definition select_round :: "int \<Rightarrow> bool \<Rightarrow> size_t \<Rightarrow> int \<Rightarrow> byte list \<Rightarrow> (string list \<times> byte list) option io" where
  "select_round rc isset uleft fd buffer =
     (if rc < 0 then io_return None
      else if isset then
        io_bind (sys_read fd buffer uleft) (\<lambda>(n, buffer).
          if n < 0 then io_return None
          else io_bind (print_s buffer) (\<lambda>text. io_return (Some ([''read '' @ text @ '' from device!''], buffer))))
      else io_return (Some ([], buffer)))"

text \<open>The buffer of 32 bytes is printed as a string without a zero behind what was read. A round with data prints
  the data when there is a zero among it, and runs over the end of the buffer when there is none: the tests
  work on a device that holds text with its zeros, and break on one that holds 32 bytes of anything else.\<close>

theorem wait_rounds_print:
  assumes "has_buffer (driver s) m" and "files s fd = Some pos" and "unat pos + 32 \<le> 131072"
    and "length buffer = 32" and "0 < rc" and "and revents POLLIN \<noteq> 0"
  shows "poll_round rc revents 0 fd buffer s =
      (if 0 \<in> set (get_range (unat pos) 32 m)
       then Inr (Some ([ '' poll returns '' @ fmt_d rc @ '', revents = 0x'' @ pad 3 (fmt_x (unat revents)),
                ''reading '' @ fmt_d 32 @ '' bytes:'' @ text_of (get_range (unat pos) 32 m)],
              get_range (unat pos) 32 m), s\<lparr>files := (files s)(fd \<mapsto> pos + 32)\<rparr>)
       else Inl OutOfBounds)
    \<and> select_round rc True 0 fd buffer s =
      (if 0 \<in> set (get_range (unat pos) 32 m)
       then Inr (Some ([''read '' @ text_of (get_range (unat pos) 32 m) @ '' from device!''],
              get_range (unat pos) 32 m), s\<lparr>files := (files s)(fd \<mapsto> pos + 32)\<rparr>)
       else Inl OutOfBounds)"
proof -
  have c: "user_copy_ok 32 0" by (simp add: user_copy_ok_def)
  have v: "vfs_rw_ok 32 pos" using assms(3) by (intro char_file_vfs) simp_all
  have len: "length (get_range (unat pos) 32 m) = 32"
    using assms(1,3) by (simp add: has_buffer_def get_range_def)
  have r: "chardrv_read 32 pos 0 (driver s) = Inr (32, get_range (unat pos) 32 m, pos + 32)"
  proof -
    have "unat (32 :: size_t) + unat pos \<le> unat membuff_size" using assms(3) by simp
    from chardrv_read_within [OF assms(1) v c this] len show ?thesis by simp
  qed
  show ?thesis
    using assms(2,4-6) r len by (simp add: poll_round_def select_round_def io_defs print_s_def)
qed

theorem wait_rounds_print_witness:
  "poll_round 1 1 0 3 (replicate 32 0) \<lparr>driver = fst sample_file, files = [3 \<mapsto> 0]\<rparr> = Inl OutOfBounds"
proof -
  let ?s = "\<lparr>driver = fst sample_file, files = [3 \<mapsto> 0]\<rparr>"
  have b: "has_buffer (driver ?s) (replicate 131072 7)" by (simp add: sample_file_def has_buffer_def)
  have "0 \<notin> set (get_range 0 32 (replicate 131072 7 :: byte list))" by (simp add: get_range_def)
  with wait_rounds_print [OF b, of 3 0 "replicate 32 0" 1 1] show ?thesis by simp
qed

section \<open>Asking for signals\<close>

text \<open>
  The fasync test installs its handler and asks for signals, on the driver of \<open>Char_Poll\<close>'s last section. The answers of \<open>signal\<close>
  and of the first two \<open>fcntl\<close> calls are parameters; the third makes the kernel call the driver's \<open>fasync\<close> when the
  flag changes. The result is whether the program got to its loop.
\<close>

(* src: tests/char/lab6_char_fasync_test.c:66-86 main *)
definition fasync_setup :: "bool \<Rightarrow> int \<Rightarrow> int \<Rightarrow> bool \<Rightarrow> nat \<Rightarrow> fasync_dev \<Rightarrow> bool \<times> fasync_dev" where
  "fasync_setup signal_ok setown flags alloc file d =
     (if \<not> signal_ok then (False, d)
      else if setown < 0 then (False, d)
      else if flags < 0 then (False, d)
      else
        let (ret, d) = chardrv_fasync 3 file 1 alloc d
        in if flags < 0 then (False, d) else (True, d))"

text \<open>The last answer is never looked at, the old flags are tested again: the program waits for signals also when the
  driver could not take it in. When it could, the next write that fits signals the program and every earlier
  subscriber.\<close>

theorem fasync_setup_unchecked:
  assumes "0 \<le> setown" and "0 \<le> flags" and "file \<notin> set (async_queue d)"
  shows "fst (fasync_setup True setown flags alloc file d) = True
    \<and> (file \<in> set (async_queue (snd (fasync_setup True setown flags alloc file d))) \<longleftrightarrow> alloc)
    \<and> (has_buffer d m \<and> alloc \<longrightarrow>
        (\<exists>r d' pos. chardrv_write_lab6 [b] 1 0 0 (snd (fasync_setup True setown flags alloc file d)) =
           Inr (r, d', pos, file # async_queue d)))"
proof -
  have q: "snd (fasync_setup True setown flags alloc file d) =
      (if alloc then d\<lparr>async_queue := file # async_queue d\<rparr> else d)"
    and l: "fst (fasync_setup True setown flags alloc file d)"
    using assms by (simp_all add: fasync_setup_def fasync_defs)
  have "\<exists>r d' pos. chardrv_write_lab6 [b] 1 0 0 (d\<lparr>async_queue := file # async_queue d\<rparr>) =
      Inr (r, d', pos, file # async_queue d)" if "has_buffer d m"
    using that by (simp add: chardrv_write_lab6_def has_buffer_def membuff_size_def kmem_store_def in_object_def Let_def)
  with q l assms(3) show ?thesis by (cases alloc) simp_all
qed

theorem fasync_setup_unchecked_witness:
  "let d = \<lparr>membuff = Ptr (replicate 131072 0), counter = 0, ready = 0, sleepers = [], async_queue = [4]\<rparr>
   in fst (fasync_setup True 0 2 False 5 d) \<and> 5 \<notin> set (async_queue (snd (fasync_setup True 0 2 False 5 d)))"
  using fasync_setup_unchecked [of 0 2 5
      "\<lparr>membuff = Ptr (replicate 131072 0), counter = 0, ready = 0, sleepers = [], async_queue = [4]\<rparr>" False]
  by (simp add: Let_def)

end
