(* ===== verification/Map_Tests.thy ===== *)
theory Map_Tests
  imports Char_Tests Ramdisk_Io
begin

text \<open>
  The program that tests a mapping (\<open>src/tests/dma/lab3_mmap_test.c\<close>, and \<open>src/dma/lab3_mmap_test.c\<close>, which differs in the device's
  name) against the two drivers that have one: the character driver of \<open>src/io/lab3_mmap.c\<close> and the RAM disk of
  \<open>src/dma/lab3_mmap.c\<close>. What the program needs of a driver is the locale \<open>mapped_device\<close>; its verdict is proved there once and
  holds for both.
\<close>

section \<open>The program\<close>

text \<open>The driver's entry points as the program reaches them.\<close>

record 's map_driver =
  size_ioctl :: "size_t \<Rightarrow> int \<times> byte list"
  do_mmap :: "vma \<Rightarrow> 's \<Rightarrow> int \<times> 's"
  do_store :: "64 word \<Rightarrow> byte \<Rightarrow> 's \<Rightarrow> 's kresult option"
  do_load :: "64 word \<Rightarrow> 's \<Rightarrow> byte kresult option"
  do_read :: "size_t \<Rightarrow> loff_t \<Rightarrow> size_t \<Rightarrow> 's \<Rightarrow> (int \<times> byte list \<times> loff_t) kresult"
  do_seek :: "loff_t \<Rightarrow> loff_t \<Rightarrow> int \<times> loff_t"

text \<open>An access through an address that is not mapped is a fault of the program.\<close>

fun store_all :: "'s map_driver \<Rightarrow> 64 word \<Rightarrow> nat list \<Rightarrow> 's \<Rightarrow> 's kresult" where
  "store_all D addr [] s = Inr s"
| "store_all D addr (j # js) s =
     (case do_store D (addr + of_nat j) (of_nat j) s of
        None \<Rightarrow> Inl BadPointer
      | Some (Inl f) \<Rightarrow> Inl f
      | Some (Inr s) \<Rightarrow> store_all D addr js s)"

fun load_all :: "'s map_driver \<Rightarrow> 64 word \<Rightarrow> nat list \<Rightarrow> 's \<Rightarrow> byte list kresult" where
  "load_all D addr [] s = Inr []"
| "load_all D addr (j # js) s =
     (case do_load D (addr + of_nat j) s of
        None \<Rightarrow> Inl BadPointer
      | Some (Inl f) \<Rightarrow> Inl f
      | Some (Inr b) \<Rightarrow> (case load_all D addr js s of Inl f \<Rightarrow> Inl f | Inr bs \<Rightarrow> Inr (b # bs)))"

text \<open>The first result is the error message, if there is one, the second the new position.\<close>

(* src: tests/dma/lab3_mmap_test.c:26-38 read_and_compare *)
definition read_and_compare ::
    "'s map_driver \<Rightarrow> loff_t \<Rightarrow> 64 word \<Rightarrow> nat \<Rightarrow> 's \<Rightarrow> (string option \<times> loff_t) kresult" where
  "read_and_compare D pos addr len s =
     (case do_read D (of_nat len) pos 0 s of
        Inl f \<Rightarrow> Inl f
      | Inr (r, out, pos) \<Rightarrow>
          if r \<noteq> int len then Inr (Some ''read problem'', pos)
          else case load_all D addr [0..<len] s of
                 Inl f \<Rightarrow> Inl f
               | Inr bs \<Rightarrow> Inr (if out \<noteq> bs then Some ''buffer miscompare'' else None, pos))"

text \<open>
  The descriptor is opened at position 0, or not at all; \<open>addr\<close> is the address \<open>mmap\<close> chooses, and \<open>r1\<close> and \<open>r2\<close> are
  the random numbers. The result is the exit status, what was printed (but for the system's own texts), and the driver.
\<close>

(* src: tests/dma/lab3_mmap_test.c:40-92 main *)
definition mmap_test :: "'s map_driver \<Rightarrow> bool \<Rightarrow> 64 word \<Rightarrow> nat \<Rightarrow> nat \<Rightarrow> 's \<Rightarrow> (int \<times> string list \<times> 's) kresult" where
  "mmap_test D opened addr r1 r2 s =
     (let (rc, bytes) = size_ioctl D 0
      in if \<not> opened then Inr (1, [''open failed''], s)
         else if rc < 0 then Inr (1, [''ioctl failed''], s)
         else
           let len = unat (le_word bytes :: 64 word);
               out1 = ''driver's ioctl says buffer size is '' @ fmt_d (int len);
               (rc, s) = do_mmap D \<lparr>vm_start = addr, vm_end = addr + of_nat len, vm_pgoff = 0\<rparr> s
           in if rc < 0 then Inr (1, [out1, ''mmap failed''], s)
              else let out2 = ''mmap succeeded:  0x'' @ fmt_x (unat addr) in case store_all D addr [0..<len] s of
                Inl f \<Rightarrow> Inl f
              | Inr s \<Rightarrow>
                  (case read_and_compare D 0 addr len s of
                     Inl f \<Rightarrow> Inl f
                   | Inr (Some e, pos) \<Rightarrow> Inr (1, [out1, out2, e], s)
                   | Inr (None, pos) \<Rightarrow>
                       let out3 = ''comparison of same data via read() and mmap() successful'';
                           j = r1 mod len
                       in if j = 0 then Inl DivByZero
                          else case do_store D (addr + of_nat j) (of_nat (r2 mod j)) s of
                                 None \<Rightarrow> Inl BadPointer
                               | Some (Inl f) \<Rightarrow> Inl f
                               | Some (Inr s) \<Rightarrow>
                                   let (off, pos) = do_seek D 0 pos
                                   in (case read_and_compare D pos addr len s of
                                         Inl f \<Rightarrow> Inl f
                                       | Inr (Some e, pos) \<Rightarrow> Inr (1, [out1, out2, out3, e], s)
                                       | Inr (None, pos) \<Rightarrow> Inr (0, [out1, out2, out3,
                                           ''comparison of modified data via read() and mmap() successful''], s))))"

section \<open>What the program needs of a driver\<close>

text \<open>\<open>mem\<close> is the memory of \<open>len\<close> bytes; \<open>mapped addr s\<close> says that the program sees it from \<open>addr\<close> on.\<close>

locale mapped_device =
  fixes D :: "'s map_driver"
    and ok :: "'s \<Rightarrow> bool"
    and mem :: "'s \<Rightarrow> byte list"
    and mapped :: "64 word \<Rightarrow> 's \<Rightarrow> bool"
    and len :: nat
  assumes size: "size_ioctl D 0 = (0, le_bytes 8 (of_nat len :: 64 word))" "0 < len" "len < 2 ^ 31"
    and mem_len: "ok s \<Longrightarrow> length (mem s) = len"
    and map_whole: "ok s \<Longrightarrow> unat addr + len < 2 ^ 64 \<Longrightarrow>
      \<exists>t. do_mmap D \<lparr>vm_start = addr, vm_end = addr + of_nat len, vm_pgoff = 0\<rparr> s = (0, t) \<and> ok t \<and> mapped addr t"
    and store_at: "ok s \<Longrightarrow> mapped addr s \<Longrightarrow> unat addr + len < 2 ^ 64 \<Longrightarrow> i < len \<Longrightarrow>
      \<exists>t. do_store D (addr + of_nat i) b s = Some (Inr t) \<and> ok t \<and> mapped addr t \<and> mem t = (mem s)[i := b]"
    and load_at: "ok s \<Longrightarrow> mapped addr s \<Longrightarrow> unat addr + len < 2 ^ 64 \<Longrightarrow> i < len \<Longrightarrow>
      do_load D (addr + of_nat i) s = Some (Inr (mem s ! i))"
    and read_whole: "ok s \<Longrightarrow> do_read D (of_nat len) 0 0 s = Inr (int len, mem s, of_nat len)"
    and seek_start: "do_seek D 0 pos = (0, 0)"
begin

lemma len_word:
  "le_word (le_bytes 8 (of_nat len :: 64 word)) = (of_nat len :: 64 word)"
  "unat (of_nat len :: 64 word) = len" "uint (of_nat len :: 64 word) = int len"
proof -
  show "le_word (le_bytes 8 (of_nat len :: 64 word)) = (of_nat len :: 64 word)" by (simp add: le_word_bytes)
  show u: "unat (of_nat len :: 64 word) = len"
    using size(3) by (simp only: unsigned_of_nat) (simp add: take_bit_nat_eq_self)
  then show "uint (of_nat len :: 64 word) = int len" by (simp add: uint_nat)
qed

lemma store_all_done:
  "ok s \<Longrightarrow> mapped addr s \<Longrightarrow> unat addr + len < 2 ^ 64 \<Longrightarrow> k \<le> len \<Longrightarrow> length m = k \<Longrightarrow> take k (mem s) = m \<Longrightarrow>
   \<exists>t. store_all D addr [k..<len] s = Inr t \<and> ok t \<and> mapped addr t \<and> mem t = m @ map of_nat [k..<len]"
proof (induction "len - k" arbitrary: k s m)
  case 0
  then show ?case using mem_len by simp
next
  case (Suc n)
  then have k: "k < len" by simp
  obtain t where t: "do_store D (addr + of_nat k) (of_nat k) s = Some (Inr t)" "ok t" "mapped addr t"
    "mem t = (mem s)[k := of_nat k]"
    using store_at [OF Suc.prems(1-3) k] by blast
  have "take (Suc k) (mem t) = m @ [of_nat k]"
    using Suc.prems(5,6) mem_len [OF Suc.prems(1)] k by (simp add: t(4) take_Suc_conv_app_nth)
  moreover have "n = len - Suc k" using Suc.hyps(2) by simp
  ultimately obtain u where "store_all D addr [Suc k..<len] t = Inr u" "ok u" "mapped addr u"
    "mem u = (m @ [of_nat k]) @ map of_nat [Suc k..<len]"
    using Suc.hyps(1) [of "Suc k" t "m @ [of_nat k]"] t(2,3) Suc.prems(3,5) k by auto
  then show ?case using t(1) k by (simp add: upt_conv_Cons)
qed

lemma load_all_done:
  "ok s \<Longrightarrow> mapped addr s \<Longrightarrow> unat addr + len < 2 ^ 64 \<Longrightarrow> \<forall>i \<in> set is. i < len \<Longrightarrow>
   load_all D addr is s = Inr (map (\<lambda>i. mem s ! i) is)"
  by (induction "is") (simp_all add: load_at)

lemma compare_same:
  assumes "ok s" and "mapped addr s" and "unat addr + len < 2 ^ 64"
  shows "read_and_compare D 0 addr len s = Inr (None, of_nat len)"
proof -
  have "load_all D addr [0..<len] s = Inr (map (\<lambda>i. mem s ! i) [0..<len])"
    by (rule load_all_done [OF assms]) simp
  moreover have "map (\<lambda>i. mem s ! i) [0..<len] = mem s" using mem_len [OF assms(1)] by (metis map_nth)
  ultimately show ?thesis by (simp add: read_and_compare_def read_whole [OF assms(1)])
qed

lemma mmap_test_done:
  assumes "ok s" and "unat addr + len < 2 ^ 64"
  shows "if r1 mod len = 0 then mmap_test D True addr r1 r2 s = Inl DivByZero
    else \<exists>t. mmap_test D True addr r1 r2 s = Inr (0,
        [''driver's ioctl says buffer size is '' @ fmt_d (int len), ''mmap succeeded:  0x'' @ fmt_x (unat addr),
         ''comparison of same data via read() and mmap() successful'',
         ''comparison of modified data via read() and mmap() successful''], t) \<and>
      mem t = (map of_nat [0..<len])[r1 mod len := of_nat (r2 mod (r1 mod len))]"
proof -
  obtain s1 where 1: "do_mmap D \<lparr>vm_start = addr, vm_end = addr + of_nat len, vm_pgoff = 0\<rparr> s = (0, s1)"
    "ok s1" "mapped addr s1" using map_whole [OF assms] by blast
  obtain s2 where 2: "store_all D addr [0..<len] s1 = Inr s2" "ok s2" "mapped addr s2" "mem s2 = map of_nat [0..<len]"
    using store_all_done [OF 1(2,3) assms(2), of 0 "[]"] by auto
  have j: "r1 mod len < len" using size(2) by simp
  obtain s3 where 3: "do_store D (addr + of_nat (r1 mod len)) (of_nat (r2 mod (r1 mod len))) s2 = Some (Inr s3)"
    "ok s3" "mapped addr s3" "mem s3 = (mem s2)[r1 mod len := of_nat (r2 mod (r1 mod len))]"
    using store_at [OF 2(2,3) assms(2) j] by blast
  note c = compare_same [OF 2(2,3) assms(2)] compare_same [OF 3(2,3) assms(2)]
  show ?thesis
    unfolding mmap_test_def size(1)
    by (simp only: Let_def prod.case len_word 1(1) 2(1) c seek_start 3(1) sum.case option.case)
      (simp add: 3(4) 2(4))
qed

end

section \<open>The two drivers\<close>

lemma whole_area:
  fixes addr :: "64 word"
  assumes "unat addr + len < 2 ^ 64" and "i < len" and "len < 2 ^ 31"
  defines "v \<equiv> \<lparr>vm_start = addr, vm_end = addr + of_nat len, vm_pgoff = 0\<rparr> :: vma"
  shows "in_vma (addr + of_nat i) v" and "vma_index (addr + of_nat i) v = i"
    and "vma_offset v = 0" and "unat (vma_len v) = len"
proof -
  have u: "unat (of_nat k :: 64 word) = k" if "k \<le> len" for k
    using that assms(3) by (simp only: unsigned_of_nat) (simp add: take_bit_nat_eq_self)
  have a: "unat (addr + of_nat k) = unat addr + k" if "k \<le> len" for k
    using assms(1) u [OF that] that by (subst unat_plus_simple [THEN iffD1]) (simp_all add: no_olen_add_nat)
  show "in_vma (addr + of_nat i) v"
    using assms(2) a [of i] a [of len] by (simp add: in_vma_def v_def word_le_nat_alt word_less_nat_alt)
  show "vma_offset v = 0" by (simp add: vma_offset_def v_def)
  then show "vma_index (addr + of_nat i) v = i"
    using assms(2) u [of i] by (simp add: vma_index_def v_def)
  show "unat (vma_len v) = len" using u [of len] by (simp add: vma_len_def v_def)
qed

definition char_map_driver :: "mmap_dev map_driver" where
  "char_map_driver = \<lparr>size_ioctl = mmap_ioctl 1, do_mmap = chrdrv_mmap True, do_store = user_store, do_load = user_load,
     do_read = mmap_read, do_seek = (\<lambda>off. mmap_lseek off 0)\<rparr>"

definition disk_map_driver :: "ramdisk_map map_driver" where
  "disk_map_driver = \<lparr>size_ioctl = mycdrv_size_ioctl 1, do_mmap = mycdrv_mmap True, do_store = area_store,
     do_load = area_load, do_read = (\<lambda>n pos uleft s. misc_read n pos uleft (disk s)), do_seek = (\<lambda>off. misc_lseek off 0)\<rparr>"

definition char_mem :: "mmap_dev \<Rightarrow> byte list" where
  "char_mem d = (case membuff d of Ptr m \<Rightarrow> m | _ \<Rightarrow> [])"

definition disk_mem :: "ramdisk_map \<Rightarrow> byte list" where
  "disk_mem s = (case ramdisk (disk s) of Ptr m \<Rightarrow> m | _ \<Rightarrow> [])"

definition newest_is :: "64 word \<Rightarrow> 64 word \<Rightarrow> nat \<Rightarrow> mapping list \<Rightarrow> bool" where
  "newest_is phys addr len ms \<longleftrightarrow>
     (\<exists>rest. ms = mapping_of phys \<lparr>vm_start = addr, vm_end = addr + of_nat len, vm_pgoff = 0\<rparr> # rest)"

lemma newest_found:
  assumes "newest_is phys addr len ms" and "page_start phys"
    and "unat addr + len < 2 ^ 64" and "i < len" and "len < 2 ^ 31"
  obtains pa where "phys_of (addr + of_nat i) ms = Some pa" and "unat (pa - phys) = i"
proof -
  let ?v = "\<lparr>vm_start = addr, vm_end = addr + of_nat len, vm_pgoff = 0\<rparr> :: vma"
  note w = whole_area [OF assms(3-5)]
  from assms(1) obtain rest where ms: "ms = mapping_of phys ?v # rest" by (auto simp: newest_is_def)
  have "unat (vma_offset ?v) + unat (vma_len ?v) \<le> len" using w(3,4) by simp
  from mapping_of_index(1) [OF assms(2) w(1) this] phys_of_newest [OF w(1), of phys rest] w(2) assms(5) ms
  show ?thesis by (intro that) simp_all
qed

interpretation char_map: mapped_device char_map_driver mmap_ok char_mem "\<lambda>addr d. newest_is (buff_phys d) addr 131072 (mappings d)" 131072
proof (unfold_locales, goal_cases)
  case 1 then show ?case by (simp add: char_map_driver_def mmap_ioctl_def membuff_size_def)
next
  case 2 then show ?case by simp
next
  case 3 then show ?case by simp
next
  case (4 s) then show ?case by (auto simp: mmap_ok_def device_ok_def has_buffer_def char_mem_def)
next
  case (5 s addr)
  let ?v = "\<lparr>vm_start = addr, vm_end = addr + of_nat 131072, vm_pgoff = 0\<rparr> :: vma"
  have "chrdrv_mmap True ?v s = (0, s\<lparr>mappings := mapping_of (buff_phys s) ?v # mappings s\<rparr>)"
    using whole_area(3,4) [OF 5(2), of 0] by (simp only: mmap_accepts) simp
  with mmap_keeps [OF 5(1) this] show ?case by (auto simp: char_map_driver_def newest_is_def)
next
  case (6 s addr i b)
  then obtain pa where "phys_of (addr + of_nat i) (mappings s) = Some pa" "unat (pa - buff_phys s) = i"
    by (auto simp: mmap_ok_def elim: newest_found)
  with 6 show ?case
    by (auto simp: char_map_driver_def user_store_def phys_store_def mmap_ok_def device_ok_def has_buffer_def char_mem_def)
next
  case (7 s addr i)
  then obtain pa where "phys_of (addr + of_nat i) (mappings s) = Some pa" "unat (pa - buff_phys s) = i"
    by (auto simp: mmap_ok_def elim: newest_found)
  with 7 show ?case
    by (auto simp: char_map_driver_def user_load_def phys_load_def mmap_ok_def device_ok_def has_buffer_def char_mem_def)
next
  case (8 s)
  then obtain m where m: "has_buffer s m" by (auto simp: mmap_ok_def device_ok_def)
  from chardrv_read_within [OF m, of 131072 0 0] m show ?case
    by (simp add: char_map_driver_def mmap_read_def vfs_rw_ok_def user_copy_ok_def get_range_def has_buffer_def char_mem_def)
next
  case (9 pos) then show ?case by (simp add: char_map_driver_def mmap_lseek_def chardrv_lseek_def membuff_size_def)
qed

interpretation disk_map: mapped_device disk_map_driver ramdisk_map_ok disk_mem "\<lambda>addr s. newest_is (disk_phys s) addr 65536 (disk_maps s)" 65536
proof (unfold_locales, goal_cases)
  case 1 then show ?case by (simp add: disk_map_driver_def mycdrv_size_ioctl_def)
next
  case 2 then show ?case by simp
next
  case 3 then show ?case by simp
next
  case (4 s) then show ?case by (auto simp: ramdisk_map_ok_def lab_holds_def disk_mem_def)
next
  case (5 s addr)
  let ?v = "\<lparr>vm_start = addr, vm_end = addr + of_nat 65536, vm_pgoff = 0\<rparr> :: vma"
  have "mycdrv_mmap True ?v s = (0, s\<lparr>disk_maps := mapping_of (disk_phys s) ?v # disk_maps s\<rparr>)"
    using whole_area(3,4) [OF 5(2), of 0] by (simp only: mycdrv_mmap_cases area_ok_def) simp
  with mycdrv_mmap_keeps [OF 5(1), of True ?v] show ?case by (auto simp: disk_map_driver_def newest_is_def)
next
  case (6 s addr i b)
  then obtain pa where "phys_of (addr + of_nat i) (disk_maps s) = Some pa" "unat (pa - disk_phys s) = i"
    by (auto simp: ramdisk_map_ok_def elim: newest_found)
  with 6 show ?case
    by (auto simp: disk_map_driver_def area_store_def phys_store_def ramdisk_map_ok_def lab_holds_def disk_mem_def)
next
  case (7 s addr i)
  then obtain pa where "phys_of (addr + of_nat i) (disk_maps s) = Some pa" "unat (pa - disk_phys s) = i"
    by (auto simp: ramdisk_map_ok_def elim: newest_found)
  with 7 show ?case
    by (auto simp: disk_map_driver_def area_load_def phys_load_def ramdisk_map_ok_def lab_holds_def disk_mem_def)
next
  case (8 s)
  then obtain m where m: "lab_holds (disk s) m" by (auto simp: ramdisk_map_ok_def)
  have "lab_moved 65536 0 = 65536" by (simp add: lab_moved_def)
  with lab_read_data [OF m, of 65536 0 0] m show ?case
    by (simp add: disk_map_driver_def misc_read_def vfs_rw_ok_def get_range_def lab_holds_def disk_mem_def)
next
  case (9 pos) then show ?case
    by (simp add: disk_map_driver_def misc_lseek_def mycdrv_generic_lseek_def)
qed

text \<open>C32: The test passes on the character driver: unless its first random number is a multiple of the buffer's size, it
  leaves with status 0, and the buffer then holds the counting pattern with the one byte that was changed. If it is
  a multiple, the index of that byte is 0 and the remainder by it is a division by zero.\<close>

theorem mmap_test_on_char:
  assumes "mmap_ok d" and "unat addr + 131072 < 2 ^ 64"
  shows "if r1 mod 131072 = 0 then mmap_test char_map_driver True addr r1 r2 d = Inl DivByZero
    else \<exists>out t. mmap_test char_map_driver True addr r1 r2 d = Inr (0, out, t) \<and>
      char_mem t = (map of_nat [0..<131072])[r1 mod 131072 := of_nat (r2 mod (r1 mod 131072))]"
  using char_map.mmap_test_done [OF assms, of r1 r2] by (auto split: if_splits)

theorem mmap_test_on_char_witness:
  "(\<exists>out t. mmap_test char_map_driver True 4096 131079 23 sample_mmap = Inr (0, out, t)) \<and>
   mmap_test char_map_driver True 4096 131072 23 sample_mmap = Inl DivByZero"
proof
  have "(131079 :: nat) mod 131072 \<noteq> 0" by simp
  then show "\<exists>out t. mmap_test char_map_driver True 4096 131079 23 sample_mmap = Inr (0, out, t)"
    using mmap_test_on_char [OF sample_mmap_ok, of 4096 131079 23] by auto
  show "mmap_test char_map_driver True 4096 131072 23 sample_mmap = Inl DivByZero"
    using mmap_test_on_char [OF sample_mmap_ok, of 4096 131072 23] by simp
qed

text \<open>The same holds on the RAM disk, with its own size.\<close>

theorem mmap_test_on_disk:
  assumes "ramdisk_map_ok s" and "unat addr + 65536 < 2 ^ 64"
  shows "if r1 mod 65536 = 0 then mmap_test disk_map_driver True addr r1 r2 s = Inl DivByZero
    else \<exists>out t. mmap_test disk_map_driver True addr r1 r2 s = Inr (0, out, t) \<and>
      disk_mem t = (map of_nat [0..<65536])[r1 mod 65536 := of_nat (r2 mod (r1 mod 65536))]"
  using disk_map.mmap_test_done [OF assms, of r1 r2] by (auto split: if_splits)

theorem mmap_test_on_disk_witness:
  "\<exists>out t. mmap_test disk_map_driver True 4096 65541 12 sample_map = Inr (0, out, t)"
proof -
  have "(65541 :: nat) mod 65536 \<noteq> 0" by simp
  then show ?thesis using mmap_test_on_disk [OF sample_map_ok, of 4096 65541 12] by auto
qed

end
