(* ===== verification/Kernel_Io.thy ===== *)
theory Kernel_Io
  imports Resource_Labs Char_Driver
begin

text \<open>
  Two modules that do all their work while they are loaded: one reads and writes a file of the file system from inside the kernel
  (\<open>src/io/fileio.c\<close>), the other measures port accesses (\<open>src/hardware/delay_test.c\<close>). Shown: what the file holds
  afterwards, that the address limit is restored whatever the file system answers, and which numbers the second prints.
\<close>

section \<open>A file from inside the kernel\<close>

text \<open>
  With the limit for user addresses, a system call refuses a buffer of the kernel. The file system answers a read
  or a write with an error number or with the count it serves at most.
\<close>

datatype addr_limit = UserDs | KernelDs

type_synonym fs_answer = "nat + nat"

record kfile_sys =
  limit :: addr_limit
  content :: "byte list"
  open_files :: nat
  buffers :: nat

definition write_at :: "nat \<Rightarrow> byte list \<Rightarrow> byte list \<Rightarrow> byte list" where
  "write_at pos bs c = take pos c @ replicate (pos - length c) 0 @ bs @ drop (pos + length bs) c"

definition vfs_write_kernel :: "fs_answer \<Rightarrow> byte list \<Rightarrow> nat \<Rightarrow> kfile_sys \<Rightarrow> int \<times> kfile_sys" where
  "vfs_write_kernel ans addr pos s =
     (if limit s = UserDs then (- EFAULT, s)
      else case ans of
             Inl e \<Rightarrow> (- int e, s)
           | Inr n \<Rightarrow> (int (min n (length addr)), s\<lparr>content := write_at pos (take n addr) (content s)\<rparr>))"

(* src: io/fileio.c:20-33 kernel_write *)
definition kernel_write :: "fs_answer \<Rightarrow> nat \<Rightarrow> byte list \<Rightarrow> kfile_sys \<Rightarrow> int \<times> kfile_sys" where
  "kernel_write ans offset addr s =
     (let old_fs = limit s;
          s = s\<lparr>limit := KernelDs\<rparr>;
          (result, s) = vfs_write_kernel ans addr offset s;
          s = s\<lparr>limit := old_fs\<rparr>
      in (result, s))"

text \<open>The kernel's own read, which takes the position by value.\<close>

definition kernel_read :: "fs_answer \<Rightarrow> nat \<Rightarrow> nat \<Rightarrow> kfile_sys \<Rightarrow> int \<times> byte list" where
  "kernel_read ans pos n s =
     (case ans of
        Inl e \<Rightarrow> (- int e, [])
      | Inr k \<Rightarrow> let out = take (min k n) (drop pos (content s)) in (int (length out), out))"

text \<open>
  A file is opened at position 0. The allocation is not tested: without a buffer the string copy follows a null
  pointer. The log has the opening's failure, or the two counts with the bytes read.
\<close>

(* src: io/fileio.c:39-71 my_init *)
definition fileio_init ::
    "bool \<Rightarrow> bool \<Rightarrow> fs_answer \<Rightarrow> fs_answer \<Rightarrow> kfile_sys \<Rightarrow> (int \<times> (int \<times> byte list) list \<times> kfile_sys) kresult" where
  "fileio_init alloc opened rd wr s =
     (let s = (if alloc then s\<lparr>buffers := buffers s + 1\<rparr> else s)
      in if \<not> opened then
           Inr (- EIO, [], if alloc then s\<lparr>buffers := buffers s - 1\<rparr> else s)
         else if \<not> alloc then Inl NullDeref
         else
           let f_pos = 0;
               s = s\<lparr>open_files := open_files s + 1\<rparr>;
               (nbytes, bytes) = kernel_read rd f_pos 20 s;
               out1 = (nbytes, bytes);
               buffer = c_string ''NEWSTRING'';
               (nbytes, s) = kernel_write wr f_pos buffer s;
               out2 = (nbytes, buffer);
               s = s\<lparr>open_files := open_files s - 1\<rparr>;
               s = s\<lparr>buffers := buffers s - 1\<rparr>
           in Inr (0, [out1, out2], s))"

(* src: io/fileio.c:73-76 my_exit *)
definition fileio_exit :: "kfile_sys \<Rightarrow> kfile_sys" where
  "fileio_exit s = s"

text \<open>The write is not behind what was read but over it, since the read does not move the file's position: of a file that can be
  read and written, the first ten bytes are replaced and the rest stays.\<close>

theorem fileio_replaces_start:
  assumes "20 \<le> k" and "10 \<le> n"
  shows "fileio_init True True (Inr k) (Inr n) s =
    Inr (0, [(int (min (length (content s)) 20), take 20 (content s)), (10, c_string ''NEWSTRING'')],
         s\<lparr>content := c_string ''NEWSTRING'' @ drop 10 (content s)\<rparr>)"
proof -
  have "length (c_string ''NEWSTRING'') = 10" by (simp add: c_string_def)
  moreover have "c_string ''NEWSTRING'' = take n (c_string ''NEWSTRING'')"
    using assms(2) calculation by simp
  ultimately show ?thesis
    using assms by (simp add: fileio_init_def kernel_read_def kernel_write_def vfs_write_kernel_def write_at_def Let_def)
qed

theorem fileio_replaces_start_witness:
  "fileio_init True True (Inr 4096) (Inr 4096) \<lparr>limit = UserDs, content = replicate 12 65, open_files = 0, buffers = 0\<rparr> =
    Inr (0, [(12, replicate 12 65), (10, c_string ''NEWSTRING'')],
      \<lparr>limit = UserDs, content = c_string ''NEWSTRING'' @ [65, 65], open_files = 0, buffers = 0\<rparr>)"
proof -
  have "replicate 12 (65 :: byte) = replicate 10 65 @ [65, 65]" by code_simp
  then show ?thesis
    using fileio_replaces_start [of 4096 4096
      "\<lparr>limit = UserDs, content = replicate 12 65, open_files = 0, buffers = 0\<rparr>"] by simp
qed

text \<open>Whatever the answers are, loading leaves the address limit, the open files and the buffers as they were, unless the buffer
  is missing for a file that opens, which crashes. It succeeds even when both the read and the write fail.\<close>

theorem fileio_restores:
  "case fileio_init alloc opened rd wr s of
     Inl f \<Rightarrow> f = NullDeref \<and> opened \<and> \<not> alloc
   | Inr (r, out, t) \<Rightarrow> limit t = limit s \<and> open_files t = open_files s \<and> buffers t = buffers s \<and>
       r = (if opened then 0 else - EIO) \<and> (\<not> opened \<longrightarrow> t = s)"
  by (cases alloc; cases opened; cases wr)
    (simp_all add: fileio_init_def kernel_write_def vfs_write_kernel_def Let_def split_beta)

section \<open>The cost of port accesses\<close>

datatype port_access = PortOut "64 word" nat | PortOutP "64 word" nat | PortIn nat | PortInP nat

text \<open>The four differences are of \<open>unsigned long\<close>, and so are the products and quotients.\<close>

(* src: hardware/delay_test.c:47-50 my_init (printed numbers) *)
definition nsec_per_op :: "64 word \<Rightarrow> 64 word \<Rightarrow> 64 word \<Rightarrow> 64 word \<Rightarrow> 64 word \<Rightarrow> int list" where
  "nsec_per_op HZ jifa jifb jifc jifd =
     [sint ((jifb - jifa) * 1000 div HZ), sint ((jifd - jifc) * 1000 div HZ),
      sint (((jifd - jifc) - (jifb - jifa)) * 1000 div HZ)]"

text \<open>\<open>js\<close> are the readings of the clock, four for the output and four for the input. The result has the
  accesses in their order and the numbers printed.\<close>

(* src: hardware/delay_test.c:24-67 my_init *)
definition delay_init :: "64 word \<Rightarrow> (nat \<Rightarrow> 64 word) \<Rightarrow> region list \<Rightarrow> int \<times> port_access list \<times> int list \<times> region list" where
  "delay_init HZ js t =
     (case request_region ''my_ioport'' 0x200 0x40 t of
        None \<Rightarrow> (- EBUSY, [], [], t)
      | Some t \<Rightarrow>
          (0, replicate 1000000 (PortOut 1000 0x200) @ replicate 1000000 (PortOutP 1000 0x200) @
              replicate 1000000 (PortIn 0x200) @ replicate 1000000 (PortInP 0x200),
           nsec_per_op HZ (js 0) (js 1) (js 2) (js 3) @ nsec_per_op HZ (js 4) (js 5) (js 6) (js 7), t))"

(* src: hardware/delay_test.c:69-74 my_exit *)
definition delay_exit :: "region list \<Rightarrow> region list" where
  "delay_exit t = release_region 0x200 0x40 t"

lemma sint_quotient:
  assumes "(2 :: 64 word) \<le> h"
  shows "sint (x div h) = int (unat x div unat h)"
proof -
  have h: "2 \<le> unat h" using assms by (simp add: word_le_nat_alt)
  have "unat x div unat h \<le> unat x div 2" using h by (intro div_le_mono2) simp_all
  moreover have "unat x < 2 ^ 64" using unsigned_less [of x, where 'a = nat] by simp
  ultimately have "unat (x div h) < 2 ^ 63" by (simp add: unat_div)
  then have "sint (x div h) = int (unat (x div h))" by (rule sint_small_64)
  then show ?thesis by (simp add: unat_div)
qed

text \<open>The first two numbers of a line are the nanoseconds of one access, rounded down: \<open>e\<close> ticks for a million accesses are
  \<open>e * 1000 / HZ\<close>. The third is their difference only when the pausing loop was not the quicker one; otherwise the unsigned
  difference wraps, and a number of at least \<open>2\<^sup>6\<^sup>3 / HZ\<close> is printed.\<close>

theorem delay_numbers:
  assumes "2 \<le> HZ" and "x < 2 ^ 50" and "y < 2 ^ 50"
  shows "nsec_per_op HZ a (a + of_nat x) c (c + of_nat y) =
     [int (x * 1000 div unat HZ), int (y * 1000 div unat HZ),
      (if x \<le> y then int ((y - x) * 1000 div unat HZ) else int ((2 ^ 64 - (x - y) * 1000) div unat HZ))]"
    and "y < x \<longrightarrow> 2 ^ 63 div unat HZ \<le> (2 ^ 64 - (x - y) * 1000) div unat HZ"
proof -
  have small: "unat (of_nat k * 1000 :: 64 word) = k * 1000" if "k < 2 ^ 50" for k
  proof -
    have "(of_nat k * 1000 :: 64 word) = of_nat (k * 1000)" by simp
    then show ?thesis using that by (simp only: unsigned_of_nat) (simp add: take_bit_nat_eq_self)
  qed
  have third: "unat ((of_nat y - of_nat x) * 1000 :: 64 word) =
      (if x \<le> y then (y - x) * 1000 else 2 ^ 64 - (x - y) * 1000)"
  proof (cases "x \<le> y")
    case True
    then have "(of_nat y - of_nat x :: 64 word) = of_nat (y - x)" by (simp add: of_nat_diff)
    with True assms(3) show ?thesis using small [of "y - x"] by simp
  next
    case False
    define w where "w = (of_nat (x - y) * 1000 :: 64 word)"
    have u: "unat w = (x - y) * 1000" unfolding w_def using assms(2) by (intro small) simp
    then have "w \<noteq> 0" using False by auto
    then have "unat (- w) = 2 ^ 64 - unat w" using unat_sub_if' [of 0 w] by (simp add: unat_gt_0)
    moreover have "(of_nat y - of_nat x :: 64 word) * 1000 = - w"
      using False by (simp add: w_def of_nat_diff algebra_simps)
    ultimately show ?thesis using False u by simp
  qed
  show "nsec_per_op HZ a (a + of_nat x) c (c + of_nat y) =
     [int (x * 1000 div unat HZ), int (y * 1000 div unat HZ),
      (if x \<le> y then int ((y - x) * 1000 div unat HZ) else int ((2 ^ 64 - (x - y) * 1000) div unat HZ))]"
    by (simp only: nsec_per_op_def sint_quotient [OF assms(1)] add_diff_cancel_left' small [OF assms(2)]
        small [OF assms(3)] third) (cases "x \<le> y"; simp)
  have "(x - y) * 1000 \<le> 2 ^ 63" using assms(2) by simp
  then show "y < x \<longrightarrow> 2 ^ 63 div unat HZ \<le> (2 ^ 64 - (x - y) * 1000) div unat HZ"
    by (intro impI div_le_mono) simp
qed

theorem delay_numbers_witness:
  "nsec_per_op 250 10 (10 + of_nat 3) 13 (13 + of_nat 2) = [12, 8, int ((2 ^ 64 - 1000) div 250)]"
  using delay_numbers(1) [of 250 3 2 10 13] by simp

text \<open>Loading takes the ports or changes nothing, every port is accessed only after it was taken, and unloading gives the
  table back.\<close>

theorem delay_load_unload:
  "case delay_init HZ js t of (r, accesses, numbers, t') \<Rightarrow>
     (r = 0 \<longrightarrow> length accesses = 4000000 \<and> length numbers = 6 \<and> delay_exit t' = t) \<and>
     (r \<noteq> 0 \<longrightarrow> r = - EBUSY \<and> accesses = [] \<and> t' = t)"
  by (auto simp: delay_init_def delay_exit_def nsec_per_op_def intro: release_requested split: option.split)

end
