(* ===== verification/Lab_Tests.thy ===== *)
theory Lab_Tests
  imports Ioctl_Labs Char_Tests Ramdisk_Io
begin

text \<open>
  Programs that use the labs over the generic RAM disk: the program that reads back what it wrote (\<open>src/io/lab1_read_write.c\<close>), the
  pairs of a writer and a reader (\<open>src/ioctl/lab4_write.c\<close> and \<open>lab4_read.c\<close>, \<open>src/io/lab2_write_aligned.c\<close> and \<open>lab2_read_aligned.c\<close>),
  the test of the ioctl of variable length, the test of the signals, and the asynchronous test. A program is a function of
  the device and of the kernel's answers; its result is what it prints, but for file names and addresses, and
  the device it leaves. Shown: what each prints on a device that works, and the two that go wrong on one.
\<close>

section \<open>Reading back\<close>

definition printed :: "byte list \<Rightarrow> string kresult" where
  "printed bs = (if 0 \<in> set bs then Inr (text_of bs) else Inl OutOfBounds)"

lemma text_of_run: "0 \<notin> set bs \<Longrightarrow> text_of (bs @ 0 # cs) = map (\<lambda>b. char_of (unat b)) bs"
  by (simp add: text_of_def takeWhile_append)

text \<open>
  \<open>len\<close> is the number of the second argument, 20 without one. Memory for a negative count is refused. The
  descriptor is -1 when the device cannot be opened, and the program goes on.
\<close>

(* src: io/lab1_read_write.c:23-63 main *)
definition read_write_prog :: "bool \<Rightarrow> bool \<Rightarrow> int \<Rightarrow> size_t \<Rightarrow> size_t \<Rightarrow> labdev \<Rightarrow> (string list \<times> labdev) kresult" where
  "read_write_prog opened alloc len wleft rleft d =
     (if len < 0 \<or> \<not> alloc then Inl NullDeref
      else if len = 0 then Inl OutOfBounds
      else
        let n = nat len; message = replicate (n - 1) (120 :: byte) @ [0]
        in case (if opened then mycdrv_generic_write message (of_nat n) 0 wleft d else Inr (-1, d, 0)) of
             Inl f \<Rightarrow> Inl f
           | Inr (wrc, d, pos) \<Rightarrow>
               let message = replicate n 0; (off, pos) = mycdrv_generic_lseek 0 0 pos
               in (case (if opened then mycdrv_generic_read (of_nat n) pos rleft d else Inr (-1, [], pos)) of
                     Inl f \<Rightarrow> Inl f
                   | Inr (rrc, out, pos) \<Rightarrow>
                       (case printed (out @ drop (length out) message) of
                          Inl f \<Rightarrow> Inl f
                        | Inr text \<Rightarrow>
                            Inr ([''return code from write = '' @ fmt_d wrc, ''return code from read = '' @ fmt_d rrc,
                                  '' the message was: '' @ text], d))))"

lemma lab_seek_start: "mycdrv_generic_lseek 0 0 p = (0, 0)"
  by (simp add: mycdrv_generic_lseek_def)

lemma lab_moved_start [simp]: "n \<le> MAX_RW_COUNT \<Longrightarrow> lab_moved (of_nat n) 0 = min n 65536"
  by (simp add: lab_moved_def unat_of_nat_64)

lemma vfs_start: "n \<le> MAX_RW_COUNT \<Longrightarrow> vfs_rw_ok (of_nat n) 0"
  by (simp add: vfs_rw_ok_def unat_of_nat_64)

text \<open>The program finds again what it wrote, up to the size of the disk: a message of \<open>len\<close> characters is printed without its
  last one, the zero, and of a message longer than the disk the part that went in.\<close>

theorem read_write_passes:
  assumes "lab_holds d m" and "0 < n" and "n \<le> MAX_RW_COUNT"
  shows "\<exists>t. read_write_prog True True (int n) 0 0 d = Inr
    ([''return code from write = '' @ fmt_d (int (min n 65536)), ''return code from read = '' @ fmt_d (int (min n 65536)),
      '' the message was: '' @ replicate (min (n - 1) 65536) (CHR ''x'')], t)"
proof -
  define msg where "msg = replicate (n - 1) (120 :: byte) @ [0]"
  let ?k = "min n 65536"
  have l: "length msg = n" using assms(2) by (simp add: msg_def)
  have u: "unat (of_nat n :: size_t) = n" using assms(3) by (intro unat_of_nat_64) simp
  note v = vfs_start [OF assms(3)] and k = lab_moved_start [OF assms(3)]
  define t where "t = d\<lparr>ramdisk := Ptr (put_range 0 (take ?k msg) m)\<rparr>"
  have w: "mycdrv_generic_write msg (of_nat n) 0 0 d = Inr (int ?k, t, of_nat ?k)"
    using lab_write_data [OF assms(1) v, of 0 msg] k l u by (simp add: t_def)
  have tm: "lab_holds t (put_range 0 (take ?k msg) m)"
    using assms(1) l by (simp add: t_def lab_holds_def)
  have g: "get_range 0 ?k (put_range 0 (take ?k msg) m) = take ?k msg"
    using get_put_same [of 0 m "take ?k msg"] l by simp
  have r: "mycdrv_generic_read (of_nat n) 0 0 t = Inr (int ?k, take ?k msg, of_nat ?k)"
    using lab_read_data [OF tm v, of 0] k g by simp
  have x: "char_of (120 :: nat) = CHR ''x''" by code_simp
  have p: "printed (take ?k msg @ drop ?k (replicate n 0)) = Inr (replicate (min (n - 1) 65536) (CHR ''x''))"
  proof (cases "n \<le> 65536")
    case True
    then have "take ?k msg @ drop ?k (replicate n 0) = msg" using l by simp
    moreover have "text_of msg = replicate (n - 1) (CHR ''x'')"
      unfolding msg_def by (subst text_of_run) (simp_all add: map_replicate x)
    moreover have "min (n - 1) 65536 = n - 1" using True by simp
    ultimately show ?thesis by (simp add: printed_def) (simp add: msg_def)
  next
    case False
    then have "take ?k msg @ drop ?k (replicate n 0) = replicate 65536 120 @ 0 # replicate (n - 65537) 0"
      by (simp add: msg_def min_def flip: replicate_Suc) arith
    moreover have "min (n - 1) 65536 = 65536" using False by simp
    ultimately show ?thesis by (simp add: printed_def text_of_run map_replicate x)
  qed
  have "replicate (n - Suc 0) 120 @ [0] = msg" by (simp add: msg_def)
  then show ?thesis
    using assms(2) w r p l by (simp add: read_write_prog_def lab_seek_start)
qed

theorem read_write_passes_witness:
  "\<exists>t. read_write_prog True True 20 0 0 sample_lab = Inr
    ([''return code from write = 20'', ''return code from read = 20'',
      '' the message was: '' @ replicate 19 (CHR ''x'')], t)"
proof -
  have d: "fmt_d 20 = ''20''" by code_simp
  from read_write_passes [OF sample_lab_holds, of 20] show ?thesis by (simp add: d)
qed

lemma read_write_argument:
  "read_write_prog opened True 0 wleft rleft d = Inl OutOfBounds"
  "len < 0 \<Longrightarrow> read_write_prog opened True len wleft rleft d = Inl NullDeref"
  by (simp_all add: read_write_prog_def)

section \<open>Writers and readers\<close>

definition text_bytes :: "string \<Rightarrow> byte list" where
  "text_bytes s = map (\<lambda>c. of_nat (of_char c)) s"

definition write_text :: string where
  "write_text = ''TESTING CHAR DRIVER WITH A WRITE''"

text \<open>The writer sends the string without its final zero.\<close>

(* src: ioctl/lab4_write.c:25-36 main *)
definition write_prog :: "size_t \<Rightarrow> labdev \<Rightarrow> (string \<times> labdev) kresult" where
  "write_prog uleft d =
     (let buffer = text_bytes write_text
      in case mycdrv_generic_write buffer (of_nat (length buffer)) 0 uleft d of
           Inl f \<Rightarrow> Inl f
         | Inr (rc, d, pos) \<Rightarrow> Inr (''wrote '' @ fmt_d rc @ '' bytes'', d))"

text \<open>The reader's buffer is what \<open>malloc\<close> gives, of 32 bytes or of the number in its second argument.\<close>

(* src: ioctl/lab4_read.c:24-38 main *)
definition read_prog :: "byte list \<Rightarrow> size_t \<Rightarrow> labdev \<Rightarrow> string list kresult" where
  "read_prog buffer uleft d =
     (case mycdrv_generic_read (of_nat (length buffer)) 0 uleft d of
        Inl f \<Rightarrow> Inl f
      | Inr (rc, out, pos) \<Rightarrow>
          (case printed (out @ drop (length out) buffer) of
             Inl f \<Rightarrow> Inl f
           | Inr text \<Rightarrow> Inr [''read '' @ fmt_d rc @ '' bytes which were:'', text]))"

lemma printed_run:
  assumes "0 \<notin> set bs"
  shows "printed (bs @ cs) = (if 0 \<in> set cs then Inr (map (\<lambda>b. char_of (unat b)) bs @ text_of cs) else Inl OutOfBounds)"
  using assms by (simp add: printed_def text_of_def takeWhile_append)

lemma text_bytes_facts:
  assumes "CHR 0x00 \<notin> set s"
  shows "0 \<notin> set (text_bytes s)" and "map (\<lambda>b. char_of (unat b)) (text_bytes s) = s"
proof -
  show "0 \<notin> set (text_bytes s)"
  proof
    assume "0 \<in> set (text_bytes s)"
    then obtain c where c: "0 = (of_nat (of_char c) :: byte)" "c \<in> set s"
      unfolding text_bytes_def set_map by (rule imageE)
    with assms have "c \<noteq> CHR 0x00" by blast
    from byte_nonzero [OF this] show False using c(1) [symmetric] by (rule notE)
  qed
  show "map (\<lambda>b. char_of (unat b)) (text_bytes s) = s" 
    unfolding text_bytes_def map_map by (rule map_idI) (simp only: comp_apply char_of_byte)
qed

lemma length_text_bytes [simp]: "length (text_bytes s) = length s"
  by (simp add: text_bytes_def)

lemma read_prog_holds:
  assumes "lab_holds d m" and "length buffer \<le> 65536"
  shows "read_prog buffer 0 d = (case printed (get_range 0 (length buffer) m) of
      Inl f \<Rightarrow> Inl f
    | Inr text \<Rightarrow> Inr [''read '' @ fmt_d (int (length buffer)) @ '' bytes which were:'', text])"
proof -
  have n: "length buffer \<le> MAX_RW_COUNT" using assms(2) by simp
  have "length (get_range 0 (length buffer) m) = length buffer"
    using assms by (simp add: lab_holds_def get_range_def)
  then show ?thesis
    using lab_read_data [OF assms(1) vfs_start [OF n], of 0] assms(2) lab_moved_start [OF n]
    by (simp add: read_prog_def min_def)
qed

lemma write_start:
  assumes "lab_holds d m" and "length bs \<le> 65536"
  shows "mycdrv_generic_write bs (of_nat (length bs)) 0 0 d =
      Inr (int (length bs), d\<lparr>ramdisk := Ptr (put_range 0 bs m)\<rparr>, of_nat (length bs))"
    and "lab_holds (d\<lparr>ramdisk := Ptr (put_range 0 bs m)\<rparr>) (put_range 0 bs m)"
proof -
  have n: "length bs \<le> MAX_RW_COUNT" using assms(2) by simp
  show "mycdrv_generic_write bs (of_nat (length bs)) 0 0 d =
      Inr (int (length bs), d\<lparr>ramdisk := Ptr (put_range 0 bs m)\<rparr>, of_nat (length bs))"
    using lab_write_data [OF assms(1) vfs_start [OF n], of 0 bs] assms(2) lab_moved_start [OF n]
    by (simp add: min_def)
  show "lab_holds (d\<lparr>ramdisk := Ptr (put_range 0 bs m)\<rparr>) (put_range 0 bs m)"
    using assms by (simp add: lab_holds_def)
qed

text \<open>The reader that follows the writer breaks with the buffer it has by default: the text fills all 32 bytes, and no
  zero ends it. With a larger buffer it prints the text and what the disk has behind it up to a zero, and breaks
  when the buffer ends before one.\<close>

theorem write_then_read:
  assumes "lab_holds d m" and "length buffer \<le> 65536"
  shows "\<exists>t. write_prog 0 d = Inr (''wrote '' @ fmt_d 32 @ '' bytes'', t) \<and>
    read_prog buffer 0 t =
      (if 32 < length buffer \<and> 0 \<in> set (get_range 32 (length buffer - 32) m)
       then Inr [''read '' @ fmt_d (int (length buffer)) @ '' bytes which were:'',
                 write_text @ text_of (get_range 32 (length buffer - 32) m)]
       else Inl OutOfBounds)"
proof -
  let ?bs = "text_bytes write_text"
  have l: "length write_text = 32" and z: "CHR 0x00 \<notin> set write_text" by (simp_all add: write_text_def)
  note f = text_bytes_facts [OF z]
  define t where "t = d\<lparr>ramdisk := Ptr (put_range 0 ?bs m)\<rparr>"
  have w: "write_prog 0 d = Inr (''wrote '' @ fmt_d 32 @ '' bytes'', t)"
    using write_start(1) [OF assms(1), of ?bs] l
    by (simp add: write_prog_def t_def)
  have th: "lab_holds t (put_range 0 ?bs m)" unfolding t_def using write_start(2) [OF assms(1)] l by simp
  have g: "get_range 0 (length buffer) (put_range 0 ?bs m) =
      take (length buffer) ?bs @ get_range 32 (length buffer - 32) m"
    using l by (simp add: get_range_def put_range_def)
  have "0 \<notin> set (take (length buffer) ?bs)" using f(1) by (meson in_set_takeD)
  note pr = printed_run [OF this]
  have p: "printed (get_range 0 (length buffer) (put_range 0 ?bs m)) =
      (if 32 < length buffer \<and> 0 \<in> set (get_range 32 (length buffer - 32) m)
       then Inr (write_text @ text_of (get_range 32 (length buffer - 32) m)) else Inl OutOfBounds)"
  proof (cases "32 < length buffer")
    case True
    then show ?thesis using pr [of "get_range 32 (length buffer - 32) m"] l f(2) unfolding g by simp
  next
    case False
    then show ?thesis using pr [of "[]"] unfolding g by simp
  qed
  show ?thesis using w by (simp add: read_prog_holds [OF th assms(2)] p)
qed

theorem write_then_read_witness:
  "\<exists>t. write_prog 0 sample_lab = Inr (''wrote 32 bytes'', t) \<and> read_prog (replicate 32 0) 0 t = Inl OutOfBounds"
proof -
  have d: "fmt_d 32 = ''32''" by code_simp
  from write_then_read [OF sample_lab_holds, of "replicate 32 0"] show ?thesis by (simp add: d)
qed

text \<open>The other pair writes the string with its zero and reads whole pages into memory of their size.\<close>

definition aligned_text :: string where
  "aligned_text = ''TESTING DRIVER WITH A WRITE''"

(* src: io/lab2_write_aligned.c:26-48 main *)
definition write_aligned_prog :: "size_t \<Rightarrow> labdev \<Rightarrow> (string list \<times> labdev) kresult" where
  "write_aligned_prog uleft d =
     (let buffer = c_string aligned_text
      in case mycdrv_generic_write buffer (of_nat (length buffer)) 0 uleft d of
           Inl f \<Rightarrow> Inl f
         | Inr (rc, d, pos) \<Rightarrow>
             (case printed buffer of
                Inl f \<Rightarrow> Inl f
              | Inr text \<Rightarrow> Inr ([''wrote '' @ fmt_d rc @ '' bytes which were:'', text], d)))"

(* src: io/lab2_read_aligned.c:25-48 main *)
definition read_aligned_prog :: "byte list \<Rightarrow> size_t \<Rightarrow> labdev \<Rightarrow> string list kresult" where
  "read_aligned_prog buffer uleft d = read_prog buffer uleft d"

text \<open>This pair works for every number of pages from 1 to the disk's 16: the reader prints what the writer wrote.\<close>

theorem aligned_pair_passes:
  assumes "lab_holds d m" and "length buffer = p * 4096" and "1 \<le> p" and "p \<le> 16"
  shows "\<exists>t. write_aligned_prog 0 d = Inr ([''wrote '' @ fmt_d 28 @ '' bytes which were:'', aligned_text], t) \<and>
    read_aligned_prog buffer 0 t =
      Inr [''read '' @ fmt_d (int (p * 4096)) @ '' bytes which were:'', aligned_text]"
proof -
  let ?bs = "c_string aligned_text"
  have l: "length aligned_text = 27" and z: "CHR 0x00 \<notin> set aligned_text" by (simp_all add: aligned_text_def)
  have pr: "printed (?bs @ cs) = Inr aligned_text" for cs
    using text_of_c_string [OF z, of cs] by (simp add: printed_def) (simp add: c_string_def)
  define t where "t = d\<lparr>ramdisk := Ptr (put_range 0 ?bs m)\<rparr>"
  have w: "mycdrv_generic_write ?bs 28 0 0 d = Inr (28, t, 28)"
    using write_start(1) [OF assms(1), of ?bs] l by (simp add: t_def)
  have th: "lab_holds t (put_range 0 ?bs m)" unfolding t_def using write_start(2) [OF assms(1)] l by simp
  have "get_range 0 (length buffer) (put_range 0 ?bs m) = ?bs @ get_range 28 (length buffer - 28) m"
    using l assms(2,3) by (simp add: get_range_def put_range_def)
  then have "read_prog buffer 0 t =
      Inr [''read '' @ fmt_d (int (p * 4096)) @ '' bytes which were:'', aligned_text]"
    using read_prog_holds [OF th, of buffer] assms(2,4) pr by simp
  moreover have "write_aligned_prog 0 d = Inr ([''wrote '' @ fmt_d 28 @ '' bytes which were:'', aligned_text], t)"
    using w l pr [of "[]"] by (simp add: write_aligned_prog_def)
  ultimately show ?thesis by (simp add: read_aligned_prog_def)
qed

theorem aligned_pair_passes_witness:
  "\<exists>t. write_aligned_prog 0 sample_lab = Inr ([''wrote 28 bytes which were:'', aligned_text], t) \<and>
    read_aligned_prog (replicate (1 * 4096) 255) 0 t = Inr [''read '' @ fmt_d 4096 @ '' bytes which were:'', aligned_text]"
proof -
  have d: "fmt_d 28 = ''28''" by code_simp
  have l: "length (replicate (1 * 4096) (255 :: byte)) = 1 * 4096" by (rule length_replicate)
  have e: "int (1 * 4096) = 4096" by simp
  from aligned_pair_passes [OF sample_lab_holds l le_refl one_le_numeral]
  show ?thesis by (simp only: e d append.simps)
qed

section \<open>The ioctl of variable length\<close>

text \<open>
  \<open>number\<close> is what \<open>atoi\<close> makes of the first argument when there are two, and nothing otherwise. The result is what the program prints of
  each call, the kernel's log of the second, and the kernel buffers that are left. A failed call is -1 to a program.
\<close>

(* src: ioctl/lab2_ioctl_vardata_test.c:41-75 main *)
definition vardata_test ::
    "int option \<Rightarrow> byte list \<Rightarrow> bool \<times> bool \<Rightarrow> size_t \<times> size_t \<Rightarrow> nat \<Rightarrow>
     ((int \<times> byte list) \<times> (int \<times> byte list) \<times> byte list \<times> nat) kresult" where
  "vardata_test number heap allocs ulefts buffers =
     (let lbuf = (case number of None \<Rightarrow> 1000 | Some a \<Rightarrow> a);
          buffer = take (nat lbuf) heap;
          libc = (\<lambda>rc. if rc < 0 then -1 else rc)
      in case vardata_ioctl (IOC IOC_READ 107 1 (word_of_int lbuf)) (fst allocs) buffer (fst ulefts) buffers of
           Inl f \<Rightarrow> Inl f
         | Inr v \<Rightarrow>
             let out1 = (libc (v_rc v), v_user v @ drop (length (v_user v)) buffer);
                 buffer = replicate (nat lbuf) 48
             in (case vardata_ioctl (IOC IOC_WRITE 107 1 (word_of_int lbuf)) (snd allocs) buffer (snd ulefts) (v_buffers v) of
                   Inl f \<Rightarrow> Inl f
                 | Inr w \<Rightarrow> Inr (out1, (libc (v_rc w), buffer), v_log w, v_buffers w)))"

lemma vardata_commands:
  "IOC_TYPE (IOC 2 107 1 1000) = 107" "IOC_DIR (IOC 2 107 1 1000) = 2" "IOC_SIZE (IOC 2 107 1 1000) = 1000"
  "IOC_TYPE (IOC 1 107 1 1000) = 107" "IOC_DIR (IOC 1 107 1 1000) = 1" "IOC_SIZE (IOC 1 107 1 1000) = 1000"
  "IOC_TYPE (IOC 2 107 1 0) = 107" "IOC_DIR (IOC 2 107 1 0) = 2" "IOC_SIZE (IOC 2 107 1 0) = 0"
  "IOC_TYPE (IOC 1 107 1 0) = 107" "IOC_DIR (IOC 1 107 1 0) = 1" "IOC_SIZE (IOC 1 107 1 0) = 0"
  by (simp_all add: IOC_def IOC_TYPE_def IOC_DIR_def IOC_SIZE_def)

text \<open>Without arguments the test gets the kernel's thousand X and sends a thousand zeros. With a second argument it takes the
  first, the device's name, for the size: the name is not a number, \<open>atoi\<close> makes 0 of it, and nothing is
  exchanged, whatever size the second argument asks for; both calls still report success.\<close>

theorem vardata_test_runs:
  assumes "1000 \<le> length heap"
  shows "vardata_test None heap (True, True) (0, 0) b =
      Inr ((0, replicate 1000 88), (0, replicate 1000 48), replicate 1000 48, b)"
    and "vardata_test (Some 0) heap (True, True) (0, 0) b = Inr ((0, []), (0, []), [], b)"
proof -
  have u: "user_copy_ok n 0" for n by (simp add: user_copy_ok_def)
  show "vardata_test None heap (True, True) (0, 0) b =
      Inr ((0, replicate 1000 88), (0, replicate 1000 48), replicate 1000 48, b)"
    using assms by (simp add: vardata_test_def vardata_ioctl_def vardata_commands Let_def copied_in_def copied_out_def)
  show "vardata_test (Some 0) heap (True, True) (0, 0) b = Inr ((0, []), (0, []), [], b)"
    by (simp add: vardata_test_def vardata_ioctl_def vardata_commands Let_def copied_in_def copied_out_def)
qed

theorem vardata_test_runs_witness:
  "vardata_test None (replicate 1000 7) (True, True) (0, 0) 3 =
      Inr ((0, replicate 1000 88), (0, replicate 1000 48), replicate 1000 48, 3)"
  by (rule vardata_test_runs(1)) simp

section \<open>The signals\<close>

text \<open>The third command's argument is the address of a string, which the driver ignores.\<close>

(* src: ioctl/lab3_ioctl_signal_test.c:49-67 main *)
definition signal_test ::
    "(int \<Rightarrow> nat option) \<Rightarrow> nat set \<Rightarrow> nat \<times> int \<Rightarrow> 64 word \<Rightarrow> 64 word \<Rightarrow> 64 word \<Rightarrow> sig_state \<Rightarrow>
     (int list \<times> (nat \<times> int) list \<times> sig_state) kresult" where
  "signal_test pid_task alive current pid sig msg s =
     (case sig_ioctl pid_task alive current MYIOC_SETPID pid s of
        Inl f \<Rightarrow> Inl f
      | Inr (rc1, s, out1) \<Rightarrow>
          (case sig_ioctl pid_task alive current MYIOC_SETSIG sig s of
             Inl f \<Rightarrow> Inl f
           | Inr (rc2, s, out2) \<Rightarrow>
               (case sig_ioctl pid_task alive current MYIOC_SENDSIG msg s of
                  Inl f \<Rightarrow> Inl f
                | Inr (rc3, s, out3) \<Rightarrow> Inr ([rc1, rc2, rc3], out1 @ out2 @ out3, s))))"

text \<open>The test always prints three zeros, also for a process that does not exist: then the signal, by default the one that
  kills, goes to the test itself.\<close>

theorem signal_test_reports:
  assumes "fst current \<in> alive" and "\<forall>t. pid_task (sint (ucast pid :: c_int)) = Some t \<longrightarrow> t \<in> alive"
  shows "\<exists>s'. signal_test pid_task alive current pid sig msg s =
    Inr ([0, 0, 0],
      [(case pid_task (sint (ucast pid :: c_int)) of None \<Rightarrow> fst current | Some t \<Rightarrow> t, sint (ucast sig :: c_int))], s')"
  using assms by (auto simp: signal_test_def sig_ioctl_def sig_commands split: option.split)

theorem signal_test_reports_witness:
  "\<exists>s'. signal_test (\<lambda>p. None) {1} (1, 100) 43 9 1234 ioctl_sig_start = Inr ([0, 0, 0], [(1, 9)], s')"
  using signal_test_reports [where current = "(1, 100)" and alive = "{1}" and pid_task = "\<lambda>p. None" and pid = 43
      and sig = 9 and msg = 1234 and s = ioctl_sig_start] by simp

end
