(* ===== verification/Aio_Tests.thy ===== *)
theory Aio_Tests
  imports Lab_Tests
begin

text \<open>
  The test of the asynchronous entry points (\<open>src/dma/lab6_aio_test.c\<close>, of which \<open>src/io/lab6_aio_test.c\<close> is a copy) on the RAM disk of
  \<open>src/dma/lab6_aio.c\<close>: 512 buffers are filled, written, read back asynchronously, filled anew and written
  asynchronously. Shown: how much room the buffers need beyond the 32 bytes that are asked for, and that with
  it the test prints and leaves on the disk what it should.
\<close>

section \<open>The program\<close>

text \<open>
  \<open>malloc(32)\<close> gives a block with at least that room; \<open>room\<close> is what can be used without touching another block. User
  copies from and to these blocks are complete.
\<close>

definition sprintf_bytes :: "nat \<Rightarrow> string \<Rightarrow> byte list \<Rightarrow> byte list kresult" where
  "sprintf_bytes off s buf =
     (if off + length s < length buf then Inr (put_range off (c_string s) buf) else Inl OutOfBounds)"

definition pattern :: "nat \<Rightarrow> string" where
  "pattern j = concat (replicate 8 (pad 4 (fmt_d (int j))))"

(* src: dma/lab6_aio_test.c:83-91 main (first loop) *)
fun aio_fill :: "(nat \<Rightarrow> byte list) \<Rightarrow> nat list \<Rightarrow> loff_t \<Rightarrow> labdev \<Rightarrow> (byte list list \<times> loff_t \<times> labdev) kresult" where
  "aio_fill heap [] pos d = Inr ([], pos, d)"
| "aio_fill heap (j # js) pos d =
     (case sprintf_bytes 0 (pattern j) (heap j) of
        Inl f \<Rightarrow> Inl f
      | Inr buf \<Rightarrow>
          (case misc_write (take 32 buf) 32 pos 0 d of
             Inl f \<Rightarrow> Inl f
           | Inr (rc, d, pos) \<Rightarrow>
               (case aio_fill heap js pos d of
                  Inl f \<Rightarrow> Inl f
                | Inr (bufs, pos, d) \<Rightarrow> Inr (put_range 0 (replicate 32 0) buf # bufs, pos, d))))"

text \<open>The driver completes a request when it is submitted, so that the requests are done in order.\<close>

(* src: dma/lab6_aio_test.c:103-108 main (reads) *)
fun aio_reads :: "nat \<Rightarrow> byte list list \<Rightarrow> labdev \<Rightarrow> byte list list kresult" where
  "aio_reads j [] d = Inr []"
| "aio_reads j (buf # bufs) d =
     (case mycdrv_aio_read [32] (of_nat (j * 32)) 0 d of
        Inl f \<Rightarrow> Inl f
      | Inr (rc, out) \<Rightarrow>
          (case aio_reads (Suc j) bufs d of Inl f \<Rightarrow> Inl f | Inr bufs \<Rightarrow> Inr (put_range 0 out buf # bufs)))"

(* src: dma/lab6_aio_test.c:122-124 main (one buffer) *)
fun number_loop :: "nat \<Rightarrow> nat list \<Rightarrow> byte list \<Rightarrow> byte list kresult" where
  "number_loop j [] buf = Inr buf"
| "number_loop j (k # ks) buf =
     (case sprintf_bytes k (fmt_d (int j)) buf of Inl f \<Rightarrow> Inl f | Inr buf \<Rightarrow> number_loop j ks buf)"

(* src: dma/lab6_aio_test.c:120-125 main (second filling) *)
fun number_all :: "nat \<Rightarrow> byte list list \<Rightarrow> byte list list kresult" where
  "number_all j [] = Inr []"
| "number_all j (buf # bufs) =
     (case number_loop j [0..<32] buf of
        Inl f \<Rightarrow> Inl f
      | Inr buf \<Rightarrow> (case number_all (Suc j) bufs of Inl f \<Rightarrow> Inl f | Inr bufs \<Rightarrow> Inr (buf # bufs)))"

(* src: dma/lab6_aio_test.c:130-135 main (writes) *)
fun aio_writes :: "nat \<Rightarrow> byte list list \<Rightarrow> labdev \<Rightarrow> labdev kresult" where
  "aio_writes j [] d = Inr d"
| "aio_writes j (buf # bufs) d =
     (case mycdrv_aio_write [take 32 buf] (of_nat (j * 32)) 0 d of
        Inl f \<Rightarrow> Inl f
      | Inr (rc, d) \<Rightarrow> aio_writes (Suc j) bufs d)"

(* src: dma/lab6_aio_test.c:45-54 printbufs *)
definition printbufs :: "byte list list \<Rightarrow> byte list list" where
  "printbufs bufs = map (take 32) bufs"

text \<open>Without a context (\<open>io_setup\<close> fails) every submission is refused, and the program does not notice.\<close>

(* src: dma/lab6_aio_test.c:75-148 main *)
definition aio_test :: "(nat \<Rightarrow> byte list) \<Rightarrow> bool \<Rightarrow> labdev \<Rightarrow> (byte list list \<times> byte list list \<times> labdev) kresult" where
  "aio_test heap setup d =
     (case aio_fill heap [0..<512] 0 d of
        Inl f \<Rightarrow> Inl f
      | Inr (bufs, pos, d) \<Rightarrow>
          (case (if setup then aio_reads 0 bufs d else Inr bufs) of
             Inl f \<Rightarrow> Inl f
           | Inr bufs \<Rightarrow>
               let out1 = printbufs bufs
               in (case number_all 0 bufs of
                     Inl f \<Rightarrow> Inl f
                   | Inr bufs \<Rightarrow>
                       (case (if setup then aio_writes 0 bufs d else Inr d) of
                          Inl f \<Rightarrow> Inl f
                        | Inr d \<Rightarrow> Inr (out1, printbufs bufs, d)))))"

section \<open>Numbers and blocks\<close>

lemma digits_length_3: "n < 1000 \<Longrightarrow> length (digits 10 n) \<le> 3"
  using length_digits [of 10 n 3] by simp

lemma length_pattern [simp]: "j < 1000 \<Longrightarrow> length (pattern j) = 32"
  using digits_length_3 [of j] by (simp add: pattern_def length_concat fmt_d_def length_pad sum_list_replicate)

text \<open>A number printed at every place leaves its first digit at each but behind the last.\<close>

definition first_digit :: "nat \<Rightarrow> byte" where
  "first_digit j = of_nat (of_char (hd (digits 10 j)))"

lemma number_loop_done:
  assumes "k + n + length (digits 10 j) \<le> length buf" and "take k buf = replicate k (first_digit j)"
  shows "\<exists>buf'. number_loop j [k..<k + n] buf = Inr buf' \<and> length buf' = length buf \<and>
     take (k + n) buf' = replicate (k + n) (first_digit j)"
  using assms
proof (induction n arbitrary: k buf)
  case 0
  then show ?case by simp
next
  case (Suc n)
  let ?ds = "digits 10 j"
  let ?buf = "put_range k (c_string ?ds) buf"
  have l: "k + length (c_string ?ds) \<le> length buf" using Suc.prems(1) by simp
  have s: "sprintf_bytes k (fmt_d (int j)) buf = Inr ?buf"
    using Suc.prems(1) by (simp add: sprintf_bytes_def fmt_d_def)
  obtain c cs where ds: "?ds = c # cs" using digits_nonempty [of 10 j] by (cases ?ds) auto
  have "take (Suc k) ?buf = take k buf @ [first_digit j]"
    using l by (simp add: put_range_def ds c_string_def first_digit_def)
  also have "\<dots> = replicate (Suc k) (first_digit j)"
    using Suc.prems(2) by (simp add: replicate_append_same)
  finally have t: "take (Suc k) ?buf = replicate (Suc k) (first_digit j)" .
  have "Suc k + n + length ?ds \<le> length ?buf" using Suc.prems(1) l by simp
  from Suc.IH [OF this t] obtain buf' where
    "number_loop j [Suc k..<Suc k + n] ?buf = Inr buf'" "length buf' = length ?buf"
    "take (Suc k + n) buf' = replicate (Suc k + n) (first_digit j)" by blast
  moreover have "[k..<k + Suc n] = k # [Suc k..<Suc k + n]" by (simp add: upt_conv_Cons)
  ultimately show ?case using s l by (intro exI [of _ buf']) (simp del: replicate_Suc)
qed

lemma number_loop_overruns:
  assumes "length buf < n + length (digits 10 j)" and "k < n"
  shows "number_loop j [k..<n] buf = Inl OutOfBounds"
  using assms
proof (induction "n - k" arbitrary: k buf)
  case 0
  then show ?case by simp
next
  case (Suc i)
  show ?case
  proof (cases "k + length (digits 10 j) < length buf")
    case True
    then have "Suc k < n" using Suc.prems(1) by simp
    moreover have "length (put_range k (c_string (digits 10 j)) buf) = length buf" using True by simp
    ultimately show ?thesis
      using True Suc.hyps(1) [of "Suc k" "put_range k (c_string (digits 10 j)) buf"] Suc.hyps(2) Suc.prems
      by (simp add: upt_conv_Cons sprintf_bytes_def fmt_d_def)
  next
    case False
    then show ?thesis using Suc.prems(2) by (simp add: upt_conv_Cons sprintf_bytes_def fmt_d_def)
  qed
qed

section \<open>Pieces of the disk\<close>

abbreviation piece :: "nat \<Rightarrow> byte list \<Rightarrow> byte list" where
  "piece j m \<equiv> get_range (32 * j) 32 m"

text \<open>\<open>m'\<close> is \<open>m\<close> with the pieces from \<open>i\<close> up to \<open>k\<close> replaced by \<open>f\<close>.\<close>

definition filled_with :: "(nat \<Rightarrow> byte list) \<Rightarrow> nat \<Rightarrow> nat \<Rightarrow> byte list \<Rightarrow> byte list \<Rightarrow> bool" where
  "filled_with f i k m m' \<longleftrightarrow> length m' = length m \<and> (\<forall>j. i \<le> j \<and> j < k \<longrightarrow> piece j m' = f j) \<and>
     (\<forall>j < i. piece j m' = piece j m) \<and> drop (32 * k) m' = drop (32 * k) m"

lemma filled_start: "filled_with f i i m m"
  by (auto simp: filled_with_def)

lemma filled_step:
  assumes "filled_with f (Suc i) k (put_range (32 * i) (f i) m) m'" and "length (f i) = 32" and "i < k"
    and "32 * k \<le> length m"
  shows "filled_with f i k m m'"
proof -
  let ?p = "put_range (32 * i) (f i) m"
  have e: "32 * i + 32 \<le> length m" using assms(3,4) by simp
  have "piece i m' = f i"
    using assms(1) get_put_same [of "32 * i" m "f i"] e assms(2) by (simp add: filled_with_def)
  moreover have "piece j ?p = piece j m" if "j < i" for j
    using that e by (intro get_put_before) simp_all
  moreover have "drop (32 * k) ?p = drop (32 * k) m"
    using assms(2,3) e by (simp add: put_range_def)
  moreover have "length ?p = length m" using assms(2) e by simp
  ultimately show ?thesis
    using assms(1) unfolding filled_with_def by (metis Suc_leI le_antisym less_Suc_eq not_less)
qed

lemma unat_piece [simp]: "i < 512 \<Longrightarrow> unat (of_nat (32 * i) :: loff_t) = 32 * i"
  by (intro unat_of_nat_64) simp

lemma piece_moved:
  assumes "i < 512"
  shows "vfs_rw_ok 32 (of_nat (32 * i))" and "lab_moved 32 (of_nat (32 * i)) = 32"
proof -
  have "32 * i < (2 :: nat) ^ 63" using assms by simp
  then have "sint (of_nat (32 * i) :: loff_t) = int (32 * i)"
    by (rule sint_small_64 [of "of_nat (32 * i)", unfolded unat_piece [OF assms]])
  then show "vfs_rw_ok 32 (of_nat (32 * i))" by (simp only: vfs_rw_ok_def) simp
  show "lab_moved 32 (of_nat (32 * i)) = 32"
    using assms unfolding lab_moved_def unat_piece [OF assms] by simp
qed

lemma piece_write:
  assumes "lab_holds d m" and "i < 512" and "length bs = 32"
  defines "t \<equiv> d\<lparr>ramdisk := Ptr (put_range (32 * i) bs m)\<rparr>"
  shows "misc_write bs 32 (of_nat (32 * i)) 0 d = Inr (32, t, of_nat (32 * Suc i))"
    and "lab_holds t (put_range (32 * i) bs m)"
proof -
  note v = piece_moved [OF assms(2)] and u = unat_piece [OF assms(2)]
  have le: "unat (of_nat (32 * i) :: loff_t) \<le> 65536" unfolding u using assms(2) by simp
  have "(of_nat (32 * i) :: loff_t) + of_nat 32 = of_nat (32 * Suc i)" by simp
  then show "misc_write bs 32 (of_nat (32 * i)) 0 d = Inr (32, t, of_nat (32 * Suc i))"
    using lab_write_data [OF assms(1) v(1) le, of 0 bs] assms(3) unfolding misc_write_def v(2) u t_def by simp
  show "lab_holds t (put_range (32 * i) bs m)" using assms(1,2,3) by (simp add: t_def lab_holds_def)
qed

lemma piece_read:
  assumes "lab_holds d m" and "i < 512"
  shows "mycdrv_aio_read [32] (of_nat (i * 32)) 0 d = Inr (32, piece i m)"
proof -
  note v = piece_moved [OF assms(2)] and u = unat_piece [OF assms(2)]
  have le: "unat (of_nat (32 * i) :: loff_t) \<le> 65536" unfolding u using assms(2) by simp
  have "length (piece i m) = 32" using assms by (simp add: lab_holds_def)
  then show ?thesis
    using lab_read_data [OF assms(1) v(1) le, of 0]
    unfolding mycdrv_aio_read_def misc_read_def v(2) u mult.commute [of i 32] by simp
qed

section \<open>The loops\<close>

lemma aio_fill_done:
  assumes "i + n \<le> 512" and "lab_holds d m" and "\<forall>j. length (heap j) = room" and "33 \<le> room"
  shows "\<exists>bufs t m'. aio_fill heap [i..<i + n] (of_nat (32 * i)) d = Inr (bufs, of_nat (32 * (i + n)), t) \<and>
    lab_holds t m' \<and> filled_with (\<lambda>j. text_bytes (pattern j)) i (i + n) m m' \<and>
    length bufs = n \<and> (\<forall>b \<in> set bufs. length b = room)"
  using assms(1,2)
proof (induction n arbitrary: i d m)
  case 0
  then show ?case using filled_start by auto
next
  case (Suc n)
  let ?bs = "text_bytes (pattern i)" and ?f = "\<lambda>j. text_bytes (pattern j)"
  let ?buf = "put_range 0 (c_string (pattern i)) (heap i)"
  have i: "i < 512" and l: "length (pattern i) = 32" using Suc.prems(1) by simp_all
  have s: "sprintf_bytes 0 (pattern i) (heap i) = Inr ?buf"
    using assms(3,4) l by (simp add: sprintf_bytes_def)
  have tb: "take 32 ?buf = ?bs" using l by (simp add: put_range_def c_string_def text_bytes_def)
  have "length ?buf = room" using assms(3,4) l by simp
  then have b: "length (put_range 0 (replicate 32 0) ?buf) = room" using assms(4) by simp
  have w: "length ?bs = 32" using l by simp
  note pw = piece_write [OF Suc.prems(2) i w]
  have "Suc i + n \<le> 512" using Suc.prems(1) by simp
  from Suc.IH [OF this pw(2)] obtain bufs t m' where r:
    "aio_fill heap [Suc i..<Suc i + n] (of_nat (32 * Suc i)) (d\<lparr>ramdisk := Ptr (put_range (32 * i) ?bs m)\<rparr>) =
       Inr (bufs, of_nat (32 * (Suc i + n)), t)"
    "lab_holds t m'" "filled_with ?f (Suc i) (Suc i + n) (put_range (32 * i) ?bs m) m'"
    "length bufs = n" "\<forall>b \<in> set bufs. length b = room" by blast
  have f: "filled_with ?f i (i + Suc n) m m'"
    using filled_step [of ?f i "i + Suc n" m m'] r(3) w Suc.prems by (simp add: lab_holds_def)
  have "[i..<i + Suc n] = i # [Suc i..<Suc i + n]" by (simp add: upt_conv_Cons)
  then have "aio_fill heap [i..<i + Suc n] (of_nat (32 * i)) d =
      Inr (put_range 0 (replicate 32 0) ?buf # bufs, of_nat (32 * (i + Suc n)), t)"
    by (simp only: aio_fill.simps s sum.case tb pw(1) prod.case r(1)) simp
  then show ?case using r(2,4,5) f b by auto
qed

lemma aio_reads_done:
  assumes "lab_holds d m" and "i + length bufs \<le> 512"
  shows "aio_reads i bufs d =
    Inr (map (\<lambda>(j, b). put_range 0 (piece j m) b) (zip [i..<i + length bufs] bufs))"
  using assms(2)
proof (induction bufs arbitrary: i)
  case Nil
  then show ?case by simp
next
  case (Cons b bufs)
  then have "i < 512" by simp
  from piece_read [OF assms(1) this] Cons show ?case by (simp add: upt_conv_Cons del: upt_Suc)
qed

lemma number_all_done:
  assumes "\<forall>b \<in> set bufs. length b = room" and "35 \<le> room" and "i + length bufs \<le> 1000"
  shows "\<exists>bufs'. number_all i bufs = Inr bufs' \<and>
    map (take 32) bufs' = map (\<lambda>j. replicate 32 (first_digit j)) [i..<i + length bufs]"
  using assms(1,3)
proof (induction bufs arbitrary: i)
  case Nil
  then show ?case by simp
next
  case (Cons b bufs)
  have "0 + 32 + length (digits 10 i) \<le> length b"
    using digits_length_3 [of i] Cons.prems assms(2) by simp
  from number_loop_done [OF this] obtain b' where b': "number_loop i [0..<32] b = Inr b'"
    "take 32 b' = replicate 32 (first_digit i)" by auto
  from Cons.IH [of "Suc i"] Cons.prems obtain bufs' where "number_all (Suc i) bufs = Inr bufs'"
    "map (take 32) bufs' = map (\<lambda>j. replicate 32 (first_digit j)) [Suc i..<Suc i + length bufs]" by auto
  with b' show ?case by (simp add: upt_conv_Cons del: upt_Suc)
qed

lemma number_loop_fault: "number_loop j ks buf = Inl f \<Longrightarrow> f = OutOfBounds"
  by (induction ks arbitrary: buf) (auto simp: sprintf_bytes_def split: if_splits)

lemma number_all_overruns:
  assumes "\<forall>b \<in> set bufs. length b = room" and "room < 35" and "i \<le> 100" and "100 < i + length bufs"
  shows "number_all i bufs = Inl OutOfBounds"
  using assms(1,3,4)
proof (induction bufs arbitrary: i)
  case Nil
  then show ?case by simp
next
  case (Cons b bufs)
  show ?case
  proof (cases "i = 100")
    case True
    have "length (digits 10 100) = 3" by code_simp
    then have "number_loop i [0..<32] b = Inl OutOfBounds"
      using number_loop_overruns [of b 32 100 0] Cons.prems assms(2) True by simp
    then show ?thesis by simp
  next
    case False
    then have "number_all (Suc i) bufs = Inl OutOfBounds" using Cons by simp
    then show ?thesis using number_loop_fault [of i "[0..<32]" b] by (auto split: sum.split)
  qed
qed

lemma aio_writes_done:
  assumes "i + length bufs \<le> 512" and "lab_holds d m" and "\<forall>j < length bufs. take 32 (bufs ! j) = f (i + j)"
    and "\<forall>j. length (f j) = 32"
  shows "\<exists>t m'. aio_writes i bufs d = Inr t \<and> lab_holds t m' \<and> filled_with f i (i + length bufs) m m'"
  using assms(1,2,3)
proof (induction bufs arbitrary: i d m)
  case Nil
  then show ?case using filled_start by auto
next
  case (Cons b bufs)
  have i: "i < 512" using Cons.prems(1) by simp
  have b: "take 32 b = f i" using Cons.prems(3) by force
  note pw = piece_write [OF Cons.prems(2) i assms(4) [THEN spec, of i]]
  have rest: "\<forall>j < length bufs. take 32 (bufs ! j) = f (Suc i + j)" using Cons.prems(3) by force
  have "Suc i + length bufs \<le> 512" using Cons.prems(1) by simp
  from Cons.IH [OF this pw(2) rest] obtain t m' where r:
    "aio_writes (Suc i) bufs (d\<lparr>ramdisk := Ptr (put_range (32 * i) (f i) m)\<rparr>) = Inr t" "lab_holds t m'"
    "filled_with f (Suc i) (Suc i + length bufs) (put_range (32 * i) (f i) m) m'" by blast
  have "mycdrv_aio_write [take 32 b] (of_nat (i * 32)) 0 d = Inr (32, d\<lparr>ramdisk := Ptr (put_range (32 * i) (f i) m)\<rparr>)"
    using pw(1) assms(4) unfolding mycdrv_aio_write_def b mult.commute [of i 32] by simp
  with r(1) have "aio_writes i (b # bufs) d = Inr t" by simp
  moreover have "filled_with f i (i + length (b # bufs)) m m'"
    using filled_step [of f i "i + length (b # bufs)" m m'] r(3) assms(4) Cons.prems(1,2) by (simp add: lab_holds_def)
  ultimately show ?case using r(2) by blast
qed

lemma aio_second_phase:
  assumes "lab_holds d m" and "\<forall>b \<in> set bufs. length b = room" and "length bufs = 512" and "35 \<le> room"
  shows "\<exists>bufs' t m'. number_all 0 bufs = Inr bufs' \<and>
    printbufs bufs' = map (\<lambda>j. replicate 32 (first_digit j)) [0..<512] \<and> aio_writes 0 bufs' d = Inr t \<and>
    lab_holds t m' \<and> filled_with (\<lambda>j. replicate 32 (first_digit j)) 0 512 m m'"
proof -
  have "0 + length bufs \<le> 1000" using assms(3) by simp
  from number_all_done [OF assms(2,4) this] assms(3) obtain bufs' where 1: "number_all 0 bufs = Inr bufs'"
    "map (take 32) bufs' = map (\<lambda>j. replicate 32 (first_digit j)) [0..<512]" by auto
  from arg_cong [OF 1(2), of length] have l: "length bufs' = 512" by simp
  have "take 32 (bufs' ! j) = replicate 32 (first_digit (0 + j))" if j: "j < length bufs'" for j
  proof -
    have "take 32 (bufs' ! j) = map (take 32) bufs' ! j" by (rule nth_map [OF j, symmetric])
    then show ?thesis unfolding 1(2) using j l by simp
  qed
  moreover have "0 + length bufs' \<le> 512" using l by simp
  ultimately have "\<exists>t m'. aio_writes 0 bufs' d = Inr t \<and> lab_holds t m' \<and>
      filled_with (\<lambda>j. replicate 32 (first_digit j)) 0 (0 + length bufs') m m'"
    using assms(1) by (intro aio_writes_done) simp_all
  then show ?thesis using 1 l by (auto simp: printbufs_def)
qed

section \<open>The test\<close>

text \<open>C35: The test needs three bytes more per buffer than it asks for: the pattern's zero is byte 33, and a number of
  three digits printed at the last place ends in byte 35. With room for them it prints the patterns it wrote,
  then the first digits of the buffers' numbers, which it leaves on the disk's first 16384 bytes, and the rest of the
  disk is as it was. With less it runs over a buffer.\<close>

theorem aio_test_needs_room:
  assumes "lab_holds d m" and "\<forall>j. length (heap j) = room"
  shows "(35 \<le> room \<longrightarrow> (\<exists>t m'. aio_test heap True d =
        Inr (map (\<lambda>j. text_bytes (pattern j)) [0..<512], map (\<lambda>j. replicate 32 (first_digit j)) [0..<512], t) \<and>
        lab_holds t m' \<and> filled_with (\<lambda>j. replicate 32 (first_digit j)) 0 512 m m'))
    \<and> (room < 35 \<longrightarrow> aio_test heap True d = Inl OutOfBounds)"
proof (cases "33 \<le> room")
  case False
  have "aio_fill heap [0..<512] 0 d = Inl OutOfBounds"
    using assms(2) False length_pattern [of 0] by (simp add: upt_conv_Cons sprintf_bytes_def)
  then show ?thesis using False by (simp add: aio_test_def)
next
  case True
  have "0 + 512 \<le> (512 :: nat)" by simp
  from aio_fill_done [OF this assms True] obtain bufs t m' where 1:
    "aio_fill heap [0..<512] 0 d = Inr (bufs, of_nat (32 * 512), t)" "lab_holds t m'"
    "filled_with (\<lambda>j. text_bytes (pattern j)) 0 512 m m'" "length bufs = 512" "\<forall>b \<in> set bufs. length b = room"
    by auto
  let ?g = "\<lambda>(j, b). put_range 0 (piece j m') b"
  define bufs2 where "bufs2 = map ?g (zip [0..<512] bufs)"
  have m': "length m' = 65536" using 1(2) by (simp add: lab_holds_def)
  have l2: "length bufs2 = 512" using 1(4) by (simp add: bufs2_def)
  have nth2: "bufs2 ! j = put_range 0 (text_bytes (pattern j)) (bufs ! j)" if "j < 512" for j
    using that 1(3,4) by (simp add: bufs2_def filled_with_def)
  have "length (bufs2 ! j) = room" if "j < 512" for j
    using that nth2 1(4,5) True by simp
  then have len2: "\<forall>b \<in> set bufs2. length b = room" using l2 by (auto simp: in_set_conv_nth)
  have r: "aio_reads 0 bufs t = Inr bufs2"
    using aio_reads_done [OF 1(2), of 0 bufs] 1(4) by (simp add: bufs2_def)
  have out1: "printbufs bufs2 = map (\<lambda>j. text_bytes (pattern j)) [0..<512]"
    by (rule nth_equalityI) (use l2 nth2 in \<open>auto simp: printbufs_def put_range_def\<close>)
  show ?thesis
  proof (cases "35 \<le> room")
    case False
    then have "number_all 0 bufs2 = Inl OutOfBounds" using number_all_overruns [OF len2] l2 by simp
    then show ?thesis using False 1(1) r by (simp add: aio_test_def)
  next
    case True
    from aio_second_phase [OF 1(2) len2 l2 True] obtain bufs3 u m2 where 3: "number_all 0 bufs2 = Inr bufs3"
      "printbufs bufs3 = map (\<lambda>j. replicate 32 (first_digit j)) [0..<512]" "aio_writes 0 bufs3 t = Inr u"
      "lab_holds u m2" "filled_with (\<lambda>j. replicate 32 (first_digit j)) 0 512 m' m2" by blast
    have "filled_with (\<lambda>j. replicate 32 (first_digit j)) 0 512 m m2"
      using 3(5) 1(3) by (simp add: filled_with_def)
    then show ?thesis using True 1(1) r out1 3(1-4) by (auto simp: aio_test_def)
  qed
qed

theorem aio_test_needs_room_witness:
  "(\<exists>out1 out2 t. aio_test (\<lambda>_. replicate 40 0) True sample_lab = Inr (out1, out2, t)) \<and>
   aio_test (\<lambda>_. replicate 32 0) True sample_lab = Inl OutOfBounds"
  using aio_test_needs_room [OF sample_lab_holds, of "\<lambda>_. replicate 40 0" 40]
    aio_test_needs_room [OF sample_lab_holds, of "\<lambda>_. replicate 32 0" 32] by auto

end
