(* ===== verification/Irq_Tests.thy ===== *)
theory Irq_Tests
  imports Irq_Table Char_Tests
begin

text \<open>
  The programs that print the counters of all interrupt lines (\<open>src/interrupts/lab2_getinterrupts.c\<close> and
  \<open>lab6_all_getinterrupts.c\<close>), against the device of \<open>Irq_Table\<close>. Shown: which rows they print, and
  that the column of bottom halves is another line's when the kernel does not have exactly 256 lines.
\<close>

section \<open>The programs\<close>

definition int_at :: "byte list \<Rightarrow> nat \<Rightarrow> int" where
  "int_at bs j = sint (le_word (get_range (4 * j) 4 bs) :: c_int)"

text \<open>A program ends with a message and the error's number when it cannot open the device or read the whole array.\<close>

(* src: interrupts/lab2_getinterrupts.c:48-62 main *)
definition getinterrupts :: "int option \<Rightarrow> size_t \<Rightarrow> irq_table \<Rightarrow> (int \<times> string list) kresult" where
  "getinterrupts fail uleft t =
     (case fail of
        Some errno \<Rightarrow> Inr (errno, [''opening device node''])
      | None \<Rightarrow>
          (case table_read 1024 0 uleft t of
             Inl f \<Rightarrow> Inl f
           | Inr (r, interrupts, pos) \<Rightarrow>
               if r \<noteq> 1024 then Inr (EFAULT, [''reading interrupts''])
               else Inr (0, map (\<lambda>j. '' '' @ pad 4 (fmt_d (int j)) @ '' '' @ pad 10 (fmt_d (int_at interrupts j)))
                      (filter (\<lambda>j. 0 < int_at interrupts j) [0..<256]))))"

(* src: interrupts/lab6_all_getinterrupts.c:31-49 main *)
definition all_getinterrupts :: "int option \<Rightarrow> size_t \<times> size_t \<Rightarrow> irq_table \<Rightarrow> (int \<times> string list) kresult" where
  "all_getinterrupts fail ulefts t =
     (case fail of
        Some errno \<Rightarrow> Inr (errno, [''opening device node''])
      | None \<Rightarrow>
          (case table_read 1024 0 (fst ulefts) t of
             Inl f \<Rightarrow> Inl f
           | Inr (r, interrupts, pos) \<Rightarrow>
               if r \<noteq> 1024 then Inr (EFAULT, [''reading interrupts''])
               else
                 (case table_read 1024 pos (snd ulefts) t of
                    Inl f \<Rightarrow> Inl f
                  | Inr (r, bhs, pos) \<Rightarrow>
                      if r \<noteq> 1024 then Inr (EFAULT, [''reading bhs''])
                      else Inr (0, map (\<lambda>j. '' '' @ pad 4 (fmt_d (int j)) @ '' '' @ pad 10 (fmt_d (int_at interrupts j)) @
                               pad 10 (fmt_d (int_at bhs j)))
                             (filter (\<lambda>j. 0 < int_at interrupts j) [0..<256])))))"

section \<open>What they print\<close>

definition block :: "nat \<Rightarrow> c_int list \<Rightarrow> byte list" where
  "block b m = concat (map Irq_Table.le_bytes (take 256 (drop (256 * b) m)))"

lemma le_bytes_as: "Irq_Table.le_bytes v = Char_Driver.le_bytes 4 v"
  by (simp add: Irq_Table.le_bytes_def Char_Driver.le_bytes_def upt_rec)

lemma int_at_block:
  assumes "length m = 1024" and "b < 4" and "j < 256"
  shows "int_at (block b m) j = sint (m ! (256 * b + j))"
proof -
  let ?ms = "take 256 (drop (256 * b) m)"
  have "j < length ?ms" using assms by simp
  from page_cell [OF this] have "get_range (4 * j) 4 (block b m) = Char_Driver.le_bytes 4 (m ! (256 * b + j))"
    using assms by (simp add: block_def le_bytes_as)
  then show ?thesis by (simp add: int_at_def le_word_bytes)
qed

lemma concat_cells:
  "get_range (4 * i) (4 * n) (concat (map Irq_Table.le_bytes m)) = concat (map Irq_Table.le_bytes (take n (drop i m)))"
proof (induction m arbitrary: i n)
  case Nil
  then show ?case by (simp add: get_range_def)
next
  case (Cons v m)
  show ?case
  proof (cases i)
    case 0
    then show ?thesis using Cons.IH [of 0 "n - 1"] by (cases n) (simp_all add: get_range_def)
  next
    case (Suc k)
    then show ?thesis using Cons.IH [of k n] by (simp add: get_range_def)
  qed
qed

lemma table_read_block:
  assumes "length m = 1024" and "ramdisk t = Ptr m" and "b < 4"
  shows "table_read 1024 (of_nat (1024 * b)) 0 t = Inr (1024, block b m, of_nat (1024 * Suc b))"
proof -
  let ?p = "of_nat (1024 * b) :: loff_t"
  have p: "unat ?p = 1024 * b" using assms(3) by (intro unat_of_nat_64) simp
  have small: "1024 * b < (2 :: nat) ^ 63" using assms(3) by simp
  have "sint ?p = int (1024 * b)" by (rule sint_small_64 [of ?p, unfolded p, OF small])
  then have v: "vfs_rw_ok 1024 ?p" by (simp only: vfs_rw_ok_def) simp
  have u: "unat (4096 - ?p) = 4096 - 1024 * b"
    using assms(3) p by (subst unat_sub) (simp_all only: word_le_nat_alt, simp_all)
  have s: "(scast (ucast (4096 - ?p) :: c_int) :: size_t) = 4096 - ?p"
    by (rule scast_ucast_small) (simp only: u, simp)
  have g: "get_range (1024 * b) 1024 (concat (map Irq_Table.le_bytes m)) = block b m"
    using concat_cells [of "256 * b" 256 m] by (simp add: block_def)
  have n0: "(if 1024 < 4096 - ?p then ucast (1024 :: size_t) else ucast (4096 - ?p)) = (1024 :: c_int)"
  proof (cases "1024 < 4096 - ?p")
    case False
    then have "4096 - ?p = 1024" using u assms(3) by (simp add: word_less_nat_alt word_unat_eq_iff)
    then show ?thesis by simp
  qed simp
  have n: "(if 1024 < (scast (ucast (4096 - ?p) :: c_int) :: size_t) then ucast (1024 :: size_t) else ucast (4096 - ?p)) =
      (1024 :: c_int)" unfolding s by (rule n0)
  have "kmem_load (page_bytes (ramdisk t)) ?p 1024 = Inr (block b m)"
    using kmem_load_ok [OF v, of "concat (map Irq_Table.le_bytes m)"] assms p g
    by (simp add: page_bytes_def length_page)
  moreover have "length (block b m) = 1024" using assms(1,3) by (simp add: block_def length_page)
  ultimately show ?thesis unfolding table_read_def Let_def n by (simp add: copied_out_def)
qed

text \<open>What the two programs print on a loaded driver: a row for every line below 256 with interrupts, and in the second program
  beside it the counter 256 places further on in the page.\<close>

lemma getinterrupts_rows:
  assumes "length m = 1024" and "ramdisk t = Ptr m"
  shows "getinterrupts None 0 t =
      Inr (0, map (\<lambda>j. '' '' @ pad 4 (fmt_d (int j)) @ '' '' @ pad 10 (fmt_d (sint (m ! j))))
        (filter (\<lambda>j. 0 < sint (m ! j)) [0..<256]))"
    and "all_getinterrupts None (0, 0) t =
      Inr (0, map (\<lambda>j. '' '' @ pad 4 (fmt_d (int j)) @ '' '' @ pad 10 (fmt_d (sint (m ! j))) @
            pad 10 (fmt_d (sint (m ! (256 + j)))))
        (filter (\<lambda>j. 0 < sint (m ! j)) [0..<256]))"
proof -
  note r = table_read_block [OF assms]
  have r0: "table_read 1024 0 0 t = Inr (1024, block 0 m, 1024)" using r [of 0] by simp
  have r1: "table_read 1024 1024 0 t = Inr (1024, block 1 m, 2048)" using r [of 1] by simp
  have i0: "int_at (block 0 m) j = sint (m ! j)" if "j < 256" for j using int_at_block [OF assms(1), of 0] that by simp
  have i1: "int_at (block 1 m) j = sint (m ! (256 + j))" if "j < 256" for j
    using int_at_block [OF assms(1), of 1] that by simp
  have f: "filter (\<lambda>j. 0 < int_at (block 0 m) j) [0..<256] = filter (\<lambda>j. 0 < sint (m ! j)) [0..<256]"
    by (intro filter_cong) (simp_all add: i0)
  show "getinterrupts None 0 t =
      Inr (0, map (\<lambda>j. '' '' @ pad 4 (fmt_d (int j)) @ '' '' @ pad 10 (fmt_d (sint (m ! j))))
        (filter (\<lambda>j. 0 < sint (m ! j)) [0..<256]))"
    unfolding getinterrupts_def r0 option.case sum.case prod.case f by (simp add: i0)
  show "all_getinterrupts None (0, 0) t =
      Inr (0, map (\<lambda>j. '' '' @ pad 4 (fmt_d (int j)) @ '' '' @ pad 10 (fmt_d (sint (m ! j))) @
            pad 10 (fmt_d (sint (m ! (256 + j)))))
        (filter (\<lambda>j. 0 < sint (m ! j)) [0..<256]))"
    unfolding all_getinterrupts_def fst_conv snd_conv r0 r1 option.case sum.case prod.case f by (simp add: i0 i1 [unfolded One_nat_def])
qed

text \<open>The program and the driver agree on the layout of the page only when there are 256 lines: then every row has the line's
  own two counters. With fewer lines the second number of a row belongs to another line, or lies behind the
  counters; with more it is the number of interrupts of the line 256 further on.\<close>

theorem all_getinterrupts_columns:
  assumes "length m = 1024" and "nr_irqs t \<le> 512" and "ramdisk t = Ptr m"
  shows "\<exists>col. all_getinterrupts None (0, 0) t =
      Inr (0, map (\<lambda>j. '' '' @ pad 4 (fmt_d (int j)) @ '' '' @ pad 10 (fmt_d (sint (m ! interrupts_at j))) @
            pad 10 (fmt_d (sint (m ! col j))))
        (filter (\<lambda>j. 0 < sint (m ! interrupts_at j)) [0..<256])) \<and>
    (\<forall>j < 256. (nr_irqs t = 256 \<longrightarrow> col j = bhs_at t j) \<and>
      (nr_irqs t < 256 \<longrightarrow> col j = bhs_at t (j + (256 - nr_irqs t))) \<and>
      (256 + j < nr_irqs t \<longrightarrow> col j = interrupts_at (j + 256)))"
  using getinterrupts_rows(2) [OF assms(1,3)] by (intro exI [of _ "\<lambda>j. 256 + j"]) (simp add: at_defs)

theorem all_getinterrupts_columns_witness:
  "all_getinterrupts None (0, 0) (table_of 256 (replicate 1024 0) []) = Inr (0, [])"
  using all_getinterrupts_columns [of "replicate 1024 0" "table_of 256 (replicate 1024 0) []"]
  by (auto simp: table_of_def at_defs)

end
