(* ===== verification/Loaders.thy ===== *)
theory Loaders
  imports Jiq Irq_Lines Probe_Labs
begin

text \<open>
  Loading and unloading of modules whose handlers are in other theories: the sleepers' device (\<open>src/ioctl/lab7_sleepy.c\<close>), files in proc and
  debugfs (\<open>src/debug/lab5_proc.c\<close>, \<open>debug_lab4_debugfs.c\<close>, \<open>src/timers/lab8_jiq.c\<close>), the USB notifier, a jprobe, and the
  thread for all interrupt lines (\<open>src/interrupts/lab6_all_thread.c\<close>). Shown: what each holds while it is loaded, that unloading gives
  it back, and the two that leave something running.
\<close>

section \<open>Devices, files and notifiers\<close>

datatype loader_res = Chrdev int | ProcFile string | DebugFile string | UsbNotifier

text \<open>A fixed major number is granted with 0; for 0 the kernel chooses a number. The result is with the number kept.\<close>

(* src: ioctl/lab7_sleepy.c:58-71 sleepy_init *)
definition sleepy_init :: "int \<Rightarrow> int \<Rightarrow> loader_res ledger \<Rightarrow> int \<times> int \<times> loader_res ledger" where
  "sleepy_init answer sleepy_major k =
     (let result = answer
      in if result < 0 then (result, sleepy_major, k)
         else
           let k = acquire (Chrdev (if sleepy_major = 0 then result else sleepy_major)) k;
               sleepy_major = (if sleepy_major = 0 then result else sleepy_major)
           in (0, sleepy_major, k))"

(* src: ioctl/lab7_sleepy.c:73-76 sleepy_cleanup *)
definition sleepy_cleanup :: "int \<Rightarrow> loader_res ledger \<Rightarrow> loader_res ledger" where
  "sleepy_cleanup sleepy_major k = release (Chrdev sleepy_major) k"

interpretation sleepy_module: module_lifecycle "\<lambda>_. True"
  "\<lambda>(answer, major) k. (fst (sleepy_init answer major k), snd (snd (sleepy_init answer major k)))"
  "\<lambda>(answer, major). [Chrdev (fst (snd (sleepy_init answer major empty_ledger)))]"
  "\<lambda>(answer, major) k. sleepy_cleanup (fst (snd (sleepy_init answer major empty_ledger))) k"
  by unfold_locales (auto simp: sleepy_init_def sleepy_cleanup_def ledger_simps Let_def split: if_splits)

(* src: debug/lab5_proc.c:71-82 my_init *)
definition lab5_proc_init :: "bool \<Rightarrow> loader_res ledger \<Rightarrow> int \<times> loader_res ledger" where
  "lab5_proc_init created k =
     (if \<not> created then (-1, k) else (0, acquire (ProcFile ''driver/my_proc'') k))"

(* src: debug/lab5_proc.c:84-90 my_exit *)
definition lab5_proc_exit :: "bool \<Rightarrow> loader_res ledger \<Rightarrow> loader_res ledger" where
  "lab5_proc_exit my_proc k = (if my_proc then release (ProcFile ''driver/my_proc'') k else k)"

interpretation lab5_proc_module: module_lifecycle "\<lambda>_. True" lab5_proc_init "\<lambda>_. [ProcFile ''driver/my_proc'']" lab5_proc_exit
  by unfold_locales (auto simp: lab5_proc_init_def lab5_proc_exit_def ledger_simps split: if_splits)

text \<open>
  Creating a file in debugfs gives a pointer, a null pointer, or an error pointer; removing does nothing for the last,
  and a file whose directory is missing goes into the root. The order is the number, the directory, the file.
\<close>

record debugfs_env =
  var32 :: "unit kptr"
  parent :: "unit kptr"
  filen :: "unit kptr"

definition debugfs_made :: "string \<Rightarrow> unit kptr \<Rightarrow> loader_res ledger \<Rightarrow> loader_res ledger" where
  "debugfs_made name p k = (case p of Ptr _ \<Rightarrow> acquire (DebugFile name) k | _ \<Rightarrow> k)"

definition debugfs_remove :: "string \<Rightarrow> unit kptr \<Rightarrow> loader_res ledger \<Rightarrow> loader_res ledger" where
  "debugfs_remove name p k = (case p of Ptr _ \<Rightarrow> release (DebugFile name) k | _ \<Rightarrow> k)"

(* src: debug/debug_lab4_debugfs.c:50-59 my_init *)
definition lab4_debugfs_init :: "debugfs_env \<Rightarrow> loader_res ledger \<Rightarrow> int \<times> loader_res ledger" where
  "lab4_debugfs_init e k =
     (0, debugfs_made ''filen'' (filen e) (debugfs_made ''mydir'' (parent e) (debugfs_made ''myname'' (var32 e) k)))"

(* src: debug/debug_lab4_debugfs.c:61-70 my_exit *)
definition lab4_debugfs_exit :: "debugfs_env \<Rightarrow> loader_res ledger \<Rightarrow> loader_res ledger" where
  "lab4_debugfs_exit e k =
     (let k = (if filen e \<noteq> NULL then debugfs_remove ''filen'' (filen e) k else k);
          k = (if parent e \<noteq> NULL then debugfs_remove ''mydir'' (parent e) k else k)
      in if var32 e \<noteq> NULL then debugfs_remove ''myname'' (var32 e) k else k)"

definition lab4_debugfs_owns :: "debugfs_env \<Rightarrow> loader_res list" where
  "lab4_debugfs_owns e = held (snd (lab4_debugfs_init e empty_ledger))"

interpretation lab4_debugfs_module: module_lifecycle "\<lambda>_. True" lab4_debugfs_init lab4_debugfs_owns lab4_debugfs_exit
  by unfold_locales
    (auto simp: lab4_debugfs_init_def lab4_debugfs_exit_def lab4_debugfs_owns_def debugfs_made_def debugfs_remove_def ledger_simps
      empty_ledger_def Let_def split: kptr.splits)

(* src: usb/lab2_usb_notifier.c:63-69 my_init *)
definition usb_notifier_init :: "loader_res ledger \<Rightarrow> int \<times> loader_res ledger" where
  "usb_notifier_init k = (0, acquire UsbNotifier k)"

(* src: usb/lab2_usb_notifier.c:71-75 my_exit *)
definition usb_notifier_exit :: "loader_res ledger \<Rightarrow> loader_res ledger" where
  "usb_notifier_exit k = release UsbNotifier k"

interpretation usb_notifier_module: module_lifecycle "\<lambda>_ :: unit. True" "\<lambda>_. usb_notifier_init" "\<lambda>_. [UsbNotifier]"
  "\<lambda>_. usb_notifier_exit"
  by unfold_locales (auto simp: usb_notifier_init_def usb_notifier_exit_def ledger_simps)

(* src: debug/debug_lab6_jprobes.c:30-35 my_init *)
definition jprobe6_init :: "int \<Rightarrow> probe_res ledger \<Rightarrow> int \<times> probe_res ledger" where
  "jprobe6_init = jprobe_init"

(* src: debug/debug_lab6_jprobes.c:37-43 my_exit *)
definition jprobe6_exit :: "probe_res ledger \<Rightarrow> probe_res ledger" where
  "jprobe6_exit = jprobe_exit"

section \<open>The just-in-queue files\<close>

text \<open>The entries that could not be created are passed over, at creation and at removal.\<close>

definition jiq_names :: "string list" where
  "jiq_names = [''jiqwq'', ''jiqwqdelay'', ''jitimer'', ''jiqtasklet'']"

(* src: timers/lab8_jiq.c:238-251 jiq_init *)
definition jiq_init :: "(string \<Rightarrow> bool) \<Rightarrow> string list \<Rightarrow> int \<times> string list" where
  "jiq_init created procs = (0, rev (filter created jiq_names) @ procs)"

text \<open>Unloading removes the entries and does nothing about what is queued.\<close>

(* src: timers/lab8_jiq.c:253-259 jiq_cleanup *)
definition jiq_cleanup :: "jiq_sys \<times> string list \<Rightarrow> jiq_sys \<times> string list" where
  "jiq_cleanup s = (fst s, fold remove1 jiq_names (snd s))"

text \<open>After unloading, anything that is still queued is a function of the module that is gone.\<close>

definition unloaded_run :: "jiq_sys \<Rightarrow> unit kresult option" where
  "unloaded_run s = (if jq_queued s = None then None else Some (Inl UseAfterFree))"

text \<open>Unloading gives the table of entries back. With no reader in a file nothing must be queued then: this holds after
  every read of the timer's file and after a read of the others that the work ended, but a read that a
  signal ended leaves its work queued, and unloading the module leaves it to run in memory that is gone.\<close>

theorem jiq_unload:
  assumes "set jiq_names \<inter> set procs = {}" and "jq_reader s = JAsleep"
  shows "snd (jiq_cleanup (s, snd (jiq_init created procs))) = procs"
    and "jiq_selfqueued s \<Longrightarrow> \<exists>n out s'. jiq_finish (jiq_signal s) = Some (n, out, s') \<and>
      unloaded_run (fst (jiq_cleanup (s', snd (jiq_init created procs)))) = Some (Inl UseAfterFree)"
    and "jq_queued s = Some JTimer \<Longrightarrow> \<exists>n out s'. jiq_finish_timer (jiq_signal s) = Some (n, out, s') \<and>
      unloaded_run (fst (jiq_cleanup (s', snd (jiq_init created procs)))) = None"
proof -
  show "snd (jiq_cleanup (s, snd (jiq_init created procs))) = procs"
    using assms(1) by (simp add: jiq_cleanup_def jiq_init_def jiq_names_def remove1_idem)
qed (use assms(2) in \<open>auto simp: jiq_cleanup_def jiq_finish_def jiq_finish_timer_def jiq_signal_def jiq_wake_def
    jiq_selfqueued_def unloaded_run_def\<close>)

theorem jiq_unload_witness:
  "\<exists>n out s'. jiq_finish (jiq_signal (jiq_read_wq [] 0 sample_jiq)) = Some (n, out, s') \<and>
    unloaded_run (fst (jiq_cleanup (s', snd (jiq_init (\<lambda>_. True) [''cpuinfo''])))) = Some (Inl UseAfterFree)"
  by (rule jiq_unload(2))
    (simp_all add: jiq_names_def jiq_read_wq_def jiq_prepare_def sample_jiq_def jiq_selfqueued_def)

section \<open>The thread for all lines\<close>

text \<open>
  The state of loading: whether the thread runs, and what the rest of the module holds. \<open>kthread_run\<close> gives an
  error pointer when it fails, never a null pointer.
\<close>

record at_load =
  at_cond :: bool
  at_tsk :: "unit kptr"
  at_table :: irq_table
  at_held :: "irq_res ledger"

definition thread_runs :: "at_load \<Rightarrow> bool" where
  "thread_runs s \<longleftrightarrow> (\<exists>u. at_tsk s = Ptr u)"

(* src: interrupts/lab6_all_thread.c:61-70 my_init *)
definition all_thread_init :: "unit kptr \<Rightarrow> irq_env \<Rightarrow> at_load \<Rightarrow> (int \<times> at_load) kresult" where
  "all_thread_init thr e s =
     (let s = s\<lparr>at_cond := True\<rparr>;
          s = s\<lparr>at_tsk := thr\<rparr>
      in if thr = NULL then Inr (-1, s)
         else case my_all_init e (at_held s) of
                Inl f \<Rightarrow> Inl f
              | Inr (r, t, k) \<Rightarrow> Inr (r, s\<lparr>at_table := t, at_held := k\<rparr>))"

(* src: interrupts/lab6_all_thread.c:72-76 my_exit *)
definition all_thread_exit :: "at_load \<Rightarrow> at_load kresult" where
  "all_thread_exit s =
     (case at_tsk s of
        Ptr u \<Rightarrow>
          (case my_all_exit (at_table s) (at_held s) of
             Inl f \<Rightarrow> Inl f
           | Inr k \<Rightarrow> Inr (s\<lparr>at_tsk := NULL, at_held := k\<rparr>))
      | ERR_PTR e \<Rightarrow> Inl BadPointer
      | NULL \<Rightarrow> Inl NullDeref)"

text \<open>When the device cannot be registered loading fails and the thread stays behind, with the module's code gone, and so does the
  page. When the thread cannot be started loading goes on, succeeds where the rest does, and unloading then
  stops a thread that is an error number.\<close>

theorem all_thread_load_unchecked:
  shows "\<not> misc e \<Longrightarrow> nonnull (page e) \<Longrightarrow> \<exists>t. all_thread_init (Ptr u) e s = Inr (- EBUSY, t) \<and> thread_runs t \<and>
      held (at_held t) = IrqPage # held (at_held s)"
    and "all_thread_init (ERR_PTR n) e s = Inr (0, t) \<Longrightarrow> all_thread_exit t = Inl BadPointer"
proof -
  show "\<not> misc e \<Longrightarrow> nonnull (page e) \<Longrightarrow> \<exists>t. all_thread_init (Ptr u) e s = Inr (- EBUSY, t) \<and> thread_runs t \<and>
      held (at_held t) = IrqPage # held (at_held s)"
    by (simp add: all_thread_init_def my_all_init_def thread_runs_def acquire_def Let_def)
  show "all_thread_init (ERR_PTR n) e s = Inr (0, t) \<Longrightarrow> all_thread_exit t = Inl BadPointer"
    by (auto simp: all_thread_init_def all_thread_exit_def Let_def split: sum.splits)
qed

theorem all_thread_load_unchecked_witness:
  "\<exists>t. all_thread_init (Ptr ()) \<lparr>page = Ptr (replicate 1024 0), misc = False, events = NULL, share = (\<lambda>_. True), lines = 16\<rparr>
      \<lparr>at_cond = False, at_tsk = NULL, at_table = table_of 0 [] [], at_held = empty_ledger\<rparr> = Inr (- EBUSY, t) \<and>
    thread_runs t \<and> held (at_held t) = IrqPage # held empty_ledger"
  using all_thread_load_unchecked(1) [of
      "\<lparr>page = Ptr (replicate 1024 0), misc = False, events = NULL, share = (\<lambda>_. True), lines = 16\<rparr>" "()"
      "\<lparr>at_cond = False, at_tsk = NULL, at_table = table_of 0 [] [], at_held = empty_ledger\<rparr>"]
  by simp

end
