(* ===== verification/Spec2Isabelle.thy ===== *)
theory Spec2Isabelle
  imports Char_Poll Scullc_Control Usb_Skel Tiny_Serial Block Cache_Dev Waiter Silly Lab_Wait Sync
    Bottom_Half Irq_Table Jiq Jit Net Lddbus Proc Serial_Mouse Data_Structs
    Timers Lock_Modules Ioctl_Labs Seq_Files Defer Mmap User_Pages Iomem Irq_Threads Irq_Lines Irq_Labs
    Putget Proc_Single Sync_Files Scullc_Proc Net_Labs Char_Fasync Debug_Files Waiter_Static
    Memory_Labs Lab_Rwsem Bus_Labs Probe_Labs Resource_Labs Facilities
    Ramdisk_Io Irq_Unload Char_Tests Map_Tests Kernel_Io Lab_Tests Aio_Tests Irq_Tests Loaders
begin

text \<open>
  A verification development for the ldd-samples repository, a collection of Linux device driver samples
  under \<open>src/\<close>. Each driver is a kernel module: an \<open>init\<close> function that registers devices, interrupts,
  threads and memory, an \<open>exit\<close> function that gives them back, and handlers that the kernel calls for files,
  interrupts, timers, block requests, packets and so on. Drivers do not call one another; they share
  headers (\<open>lab_char.h\<close>, \<open>lab_one_interrupt.h\<close>, \<open>lab_all_interrupt.h\<close>) and repeat handlers, and they all rest on
  the same few kernel contracts. The development follows that shape.

  \<^bold>\<open>How code is modelled.\<close> A handler is a function of the driver's state (a record with the C variables'
  names), its arguments, and the answers of the kernel functions it calls (whether an allocation succeeds, what a
  user copy leaves uncopied, whether a signal came), and returns the C result with the new state. An
  undefined behaviour (an access outside an object, a null or error pointer that is followed, a use after
  free, a division by zero) is a value \<open>Inl fault\<close>, never an omission. Integers that can wrap are words of
  their C width. Code that other tasks or interrupts can interleave with is cut into its atomic pieces, as a
  step function or an inductive relation; \<open>run\<close> is an interleaving of labelled steps. What a module holds is a
  ledger in which a release of something not held is recorded. Kernel code is not modelled: its answers are
  parameters, and what the drivers rely on (the VFS checks positions and counts, a pending tasklet is not
  queued twice, \<open>wait_event\<close> tests its condition before it sleeps) is part of the step relations or a
  named hypothesis.

  \<^bold>\<open>Shared theories.\<close> \<open>Prelude\<close>: C types, error numbers, pointers, byte ranges, kernel memory, user copies, the
  ledger, word lemmas. \<open>Interfaces\<close>: the contracts as locales, each interpreted on the models: \<open>byte_store\<close>
  (positioned reads and writes of a device; what was written stays), \<open>module_loader\<close> and \<open>module_lifecycle\<close>
  (loading and unloading), \<open>invariant_system\<close> (an inductive invariant over interleavings). \<open>Printf\<close>: the
  conversions of \<open>sprintf\<close> and \<open>sscanf\<close> with length bounds and round trips. \<open>Data_Structs\<close> adds the locale
  \<open>bag\<close>.

  \<^bold>\<open>Components.\<close>
  \<^item> \<open>Char_Driver\<close>, \<open>Char_Poll\<close>, \<open>Char_Fasync\<close> (\<open>src/char\<close>): the memory-backed character driver lab by lab, then its readers,
    writers, poll and asynchronous notification as interleaved steps. Shown: reads, writes and seeks on every
    branch, safety of every sequence of calls on a file, the invariant of the concurrent driver, the wake-up it
    can lose, and that the signals, which come after the flag, are neither lost nor early.
  \<^item> \<open>Char_Tests\<close> (\<open>src/tests/char\<close>), \<open>Map_Tests\<close> (\<open>src/tests/dma/lab3_mmap_test.c\<close>): programs that use a driver, as functions of
    the driver and of the kernel's answers, run against the models: what they print and leave behind, and their own
    mistakes. What the mapping test needs of a driver is a locale with two interpretations. \<open>Lab_Tests\<close>, \<open>Aio_Tests\<close> and
    \<open>Irq_Tests\<close> do the same for the labs over the RAM disk, its asynchronous entry points and the counters of the interrupt
    lines.
  \<^item> \<open>Scullc\<close>, \<open>Scullc_Control\<close>, \<open>Scullc_Proc\<close> (\<open>src/io/lab6_aio.c\<close>, \<open>scullc.h\<close>): the device over quanta and quantum
    sets; reads and writes against a flat byte array, round trip, trimming, the tunables, asynchronous entry points,
    the listing in its proc file against the listing of the data, loading.
  \<^item> \<open>Mmap\<close> (\<open>src/io/lab3_mmap.c\<close>), \<open>Ramdisk_Io\<close> (\<open>src/dma/lab3_mmap.c\<close>, \<open>lab6_aio.c\<close>), \<open>User_Pages\<close> (\<open>lab2_usermap.c\<close>, \<open>lab2_usermap_fast.c\<close>), \<open>Putget\<close>
    (\<open>lab1_putget.c\<close>), \<open>Iomem\<close> (\<open>src/hardware/lab2_memory.c\<close>): other ways to move bytes, by a mapping, through pinned
    pages, byte by byte, and to the video memory. Shown: no mapping leaves the buffer and it agrees with the file;
    the byte-wise copies against the block copies, partial copies included; what the pinned pages ignore.
  \<^item> \<open>Usb_Skel\<close> (\<open>src/usb/usb-skeleton.c\<close>): all handlers and completions as one state machine; ownership of
    transfers and buffers as an invariant, delivery of the device's byte stream in order, errors reported once.
  \<^item> \<open>Tiny_Tty\<close>, \<open>Tiny_Serial\<close> (\<open>src/serial\<close>): line settings, modem lines, the wait for a modem event, the port
    timers, and the transmit ring that the timer drains.
  \<^item> \<open>Block\<close> (\<open>src/block\<close>): both RAM disks refine an array of sectors, within stated bounds.
  \<^item> \<open>Cache_Dev\<close>, \<open>Memory_Labs\<close> (\<open>src/memory\<close>), \<open>Silly\<close> (\<open>src/hardware/lab5_silly.c\<close>), \<open>Lab_Char\<close>
    (\<open>src/ioctl/lab_char.h\<close>, \<open>lab_miscdev.h\<close>): four more byte stores, with their own ways to lose data and where
    they differ at the end of the device; the modules that allocate until it fails.
  \<^item> \<open>Lab_Wait\<close>, \<open>Lab_Rwsem\<close>, \<open>Ioctl_Labs\<close> (\<open>src/ioctl\<close>), \<open>Waiter\<close>, \<open>Waiter_Static\<close> (\<open>src/misc\<close>), \<open>Sync\<close>, \<open>Sync_Files\<close>, \<open>Lock_Modules\<close>
    (\<open>src/sync\<close>): semaphores, completions, killable, exclusive and plain waits, event threads, a spinlock, modules that hold a
    lock while they are loaded; units are conserved, no event is lost while the module stays loaded, no increment
    is lost, and the order of a write's flag and wake-up decides whether a reader is forgotten. \<open>Ioctl_Labs\<close>
    also has the ioctls with data of any length and with signals.
  \<^item> \<open>Bottom_Half\<close>, \<open>Irq_Table\<close>, \<open>Irq_Threads\<close>, \<open>Irq_Lines\<close>, \<open>Irq_Labs\<close> (\<open>src/interrupts\<close>): top and bottom halves
    (tasklets, work items, kernel threads, threaded handlers, shared and allocated) as interleaved atomic steps, the page
    of counters of all interrupt lines, the keyboard's handler, queued writes, and the device that counts
    interrupts for user space; which variants count every interrupt, and how the others fail. \<open>Irq_Unload\<close>: the acts
    of loading and unloading under interrupts, with a check that decides safety, and its verdict on every lab.
  \<^item> \<open>Timers\<close> (\<open>src/timers\<close>), \<open>Defer\<close> (\<open>src/defer\<close>): periodic, high resolution and one-shot timers, what they
    print and when they run next; unloading while a timer's function runs.
  \<^item> \<open>Mouse\<close>, \<open>Serial_Mouse\<close> (\<open>src/hardware\<close>): two drivers of a serial mouse against one specification of its protocol.
  \<^item> \<open>Jiq\<close>, \<open>Jit\<close> (\<open>src/timers\<close>): proc files that deferred work fills; the text, its bounds, termination, and what a
    signal leaves running.
  \<^item> \<open>Net\<close>, \<open>Net_Labs\<close> (\<open>src/network\<close>): packets dumped in hexadecimal, freed or looped back, each exactly once.
  \<^item> \<open>Lddbus\<close> (\<open>src/devmodel/bus\<close>): matching by name prefix, the devices' names, loading, trimming.
  \<^item> \<open>Proc\<close>, \<open>Proc_Single\<close>, \<open>Seq_Files\<close>, \<open>Debug_Files\<close> (\<open>src/debug\<close>, \<open>src/misc/interrupt_soft.c\<close>): numbers written and read as text,
    signals sent by number, by one handler or a handler for each entry, which agree; sequence files in pieces; texts
    kept in small buffers, which they can leave.
  \<^item> \<open>Probe_Labs\<close> (kprobes and jprobes of \<open>src/timers\<close> and \<open>src/debug\<close>), \<open>Bus_Labs\<close> (\<open>src/usb/lab1_usb.c\<close>, the notifiers,
    \<open>src/pci\<close>), \<open>Resource_Labs\<close> (ports, memory regions, DMA, relay, UIO registration, firmware, one tasklet): counters and numbers that
    are right under any order of events, what loading takes and unloading gives back, and answers that are not tested.
  \<^item> \<open>Data_Structs\<close> (\<open>src/data\<close>): a list of entries, and a hash table that refines a multiset. \<open>Facilities\<close> (\<open>src/facilities\<close>,
    \<open>src/misc/s_32\<close>, \<open>src/io/mmapdrv.c\<close>): the other lists, the walk over the kernel's list of modules and when it leaves
    it, and the mapping that shows a program all of the machine's memory.
  \<^item> \<open>Kernel_Io\<close> (\<open>src/io/fileio.c\<close>, \<open>src/hardware/delay_test.c\<close>): modules that work while they are loaded, on a file and on
    ports. \<open>Loaders\<close>: the init and exit functions of modules whose handlers are in the theories above.

  \<^bold>\<open>Loops and bounds.\<close> Loops over data are structural recursion or have a termination measure (the transmit
  loop, the dump, the retry of the USB read, which recurses over the list of completions it is
  given; not returning while it waits is the result none). The loops of deferred work are runs of steps: 114
  runs fill the page of \<open>Jiq\<close> (a line has at least 35 characters), five fires that of \<open>Jit\<close>; the threaded handler's
  loop is shown to go on for \<open>2\<^sup>3\<^sup>2\<close> rounds. The bounds in hypotheses are those the kernel guarantees (counts up to
  \<open>MAX_RW_COUNT\<close>, positions that are not negative) or that the code needs (fewer than \<open>2\<^sup>3\<^sup>1\<close> interrupts recorded).

  \<^bold>\<open>Not modelled.\<close> The other programs that run in user space (\<open>src/io/directio.c\<close>, \<open>src/io/lab6_posix_test.c\<close>,
  \<open>src/hardware/lab1_ioports.c\<close>, \<open>src/memory/lab2_wastemem.c\<close> and others), which have no state of a driver; the modules that only print
  constants and sizes (\<open>src/intro\<close>, some of \<open>src/facilities\<close> and \<open>src/data\<close>) and the two that are no more than a table of
  the generic handlers; copies of files in other directories (\<open>src/dma\<close> repeats \<open>src/io\<close> but for two files, and six directories repeat
  \<open>lab_char.h\<close>), and the two older drivers that are kept under \<open>#if 0\<close> in \<open>src/io/lab6_aio.c\<close> and
  \<open>src/debug/debug_lab3_seqfile.c\<close>. What is printed to the kernel's log is modelled only where it is the result
  (\<open>Net\<close>, \<open>Tiny_Tty\<close>, \<open>Timers\<close>, \<open>Facilities\<close>). Memory ordering between CPUs is taken as sequentially consistent.
\<close>

end
